(* ===== verification/Prelude.thy ===== *)
theory Prelude
  imports Main "HOL-Library.Word" "HOL-Library.Monad_Syntax"
begin

text \<open>
  Shared vocabulary of the development: machine types, the outcome type of code that
  dereferences pointers, the assertion macro, and the generic lemmas on option programs,
  maps and words that the components use.

  Outcomes. Code that dereferences pointers is a program of type \<open>'a option\<close>: \<open>None\<close>
  is undefined behaviour (a NULL or dangling pointer is followed, an assertion of a debug
  build fires) or a loop that does not return, \<open>Some\<close> is a normal result. A theorem that
  such a program equals \<open>Some r\<close> therefore says that it returns and that no dereference
  and no assertion on its way goes wrong.
\<close>

type_synonym addr = nat
type_synonym ptr = "addr option"
type_synonym size_t = "64 word"
type_synonym u32 = "32 word"
type_synonym u16 = "16 word"
type_synonym u8 = "8 word"

text \<open>The NULL pointer of the code.\<close>

abbreviation NULL :: ptr where
  "NULL \<equiv> None"

named_theorems heap_simps "reading and updating nodes of an explicit heap"
named_theorems shape_simps "facts on the tree shapes a heap represents"

subsection \<open>Assertions\<close>

definition wassert :: "bool \<Rightarrow> unit option" where
  "wassert b = (if b then Some () else None)"

lemma wassert_True [simp]: "wassert True = Some ()"
  by (simp add: wassert_def)

lemma wassert_eq_Some [simp]: "wassert b = Some u \<longleftrightarrow> b"
  by (simp add: wassert_def)

subsection \<open>Option programs\<close>

lemma bind_SomeI: "m = Some x \<Longrightarrow> f x = Some y \<Longrightarrow> Option.bind m f = Some y"
  by simp

lemma bind_eq_Some_iff:
  "Option.bind m f = Some y \<longleftrightarrow> (\<exists>x. m = Some x \<and> f x = Some y)"
  by (cases m) auto

subsection \<open>Maps\<close>

lemma fun_upd_None_cancel: "m a = None \<Longrightarrow> (m(a \<mapsto> x))(a := None) = m"
  by auto

subsection \<open>Lists\<close>

lemma take_drop_split: "n \<le> length xs \<Longrightarrow> take n xs @ drop n xs = xs"
  by simp

lemma split_distinct_unique:
  assumes "xs @ (a, v) # ys = xs' @ (a, v') # ys'" and "distinct (map fst (xs @ (a, v) # ys))"
  shows "xs = xs' \<and> v = v' \<and> ys = ys'"
  using assms
proof (induction xs arbitrary: xs')
  case Nil
  then show ?case by (cases xs') auto
next
  case (Cons x xs)
  then show ?case by (cases xs') auto
qed

end
