(* ===== verification/Bst_Node.thy ===== *)
theory Bst_Node
  imports Prelude
begin

text \<open>
  The nodes of the binary search trees (\<open>inc/vhwd/collection/detail/bst_tree_node.h\<close>), the
  heap they live in, and the pointer walks \<open>nd_min\<close>, \<open>nd_max\<close>, \<open>nd_inc\<close>, \<open>nd_dec\<close> and
  \<open>nd_count\<close> of \<open>bst_trait_base\<close>.

  A tree object owns its nodes: the field \<open>nodes\<close> maps the address of each allocated node to
  its contents, so following a NULL pointer or one to a destroyed node is the outcome \<open>None\<close>.
  Keys are compared with \<open>std::less\<close>, the default of the containers. \<open>'e\<close> is the policy's
  \<open>extra\<close> field: a colour for \<open>rbt_trait\<close>, a balance factor for \<open>avl_trait\<close>.
\<close>

record ('k, 'v, 'e) bst_node =
  parent :: ptr
  child1 :: ptr
  child2 :: ptr
  nd_value :: "'k \<times> 'v"
  extra :: 'e

record ('k, 'v, 'e) bst_tree =
  m_pRoot :: ptr
  m_nSize :: size_t
  nodes :: "addr \<rightharpoonup> ('k, 'v, 'e) bst_node"

text \<open>A fresh node: the constructor sets the links to NULL and leaves \<open>extra\<close> as it is in
  memory, which is the argument \<open>e\<close>.\<close>

definition new_node :: "'k \<times> 'v \<Rightarrow> 'e \<Rightarrow> ('k, 'v, 'e) bst_node" where
  "new_node v e = \<lparr>parent = NULL, child1 = NULL, child2 = NULL, nd_value = v, extra = e\<rparr>"

text \<open>Copying a node keeps the value and \<open>extra\<close> and resets the links.\<close>

definition copy_node :: "('k, 'v, 'e) bst_node \<Rightarrow> ('k, 'v, 'e) bst_node" where
  "copy_node n = \<lparr>parent = NULL, child1 = NULL, child2 = NULL,
     nd_value = nd_value n, extra = extra n\<rparr>"

text \<open>\<open>P::key(node)\<close> of a map is the first component of the stored pair.\<close>

definition nd_key :: "('k, 'v, 'e) bst_node \<Rightarrow> 'k" where
  "nd_key n = fst (nd_value n)"

subsection \<open>Reading and writing through a pointer\<close>

definition deref :: "('k, 'v, 'e) bst_tree \<Rightarrow> ptr \<Rightarrow> ('k, 'v, 'e) bst_node option" where
  "deref t p = (case p of None \<Rightarrow> None | Some a \<Rightarrow> nodes t a)"

definition upd :: "('k, 'v, 'e) bst_tree \<Rightarrow> ptr \<Rightarrow>
    (('k, 'v, 'e) bst_node \<Rightarrow> ('k, 'v, 'e) bst_node) \<Rightarrow> ('k, 'v, 'e) bst_tree option" where
  "upd t p f = (case p of None \<Rightarrow> None | Some a \<Rightarrow>
     (case nodes t a of None \<Rightarrow> None
      | Some n \<Rightarrow> Some (t\<lparr>nodes := (nodes t)(a \<mapsto> f n)\<rparr>)))"

lemma deref_NULL [heap_simps]: "deref t NULL = None"
  by (simp add: deref_def)

lemma deref_Some [heap_simps]: "deref t (Some a) = nodes t a"
  by (simp add: deref_def)

lemma upd_NULL [heap_simps]: "upd t NULL f = None"
  by (simp add: upd_def)

lemma upd_Some [heap_simps]:
  "nodes t a = Some n \<Longrightarrow> upd t (Some a) f = Some (t\<lparr>nodes := (nodes t)(a \<mapsto> f n)\<rparr>)"
  by (simp add: upd_def)

subsection \<open>Walks\<close>

text \<open>The loops \<open>while(n->child1) n=n->child1\<close> and \<open>while(n->child2) n=n->child2\<close>.\<close>

partial_function (option) down1 :: "('k, 'v, 'e) bst_tree \<Rightarrow> ptr \<Rightarrow> ptr option" where
  "down1 t n = do {
     nd \<leftarrow> deref t n;
     if child1 nd \<noteq> NULL then down1 t (child1 nd) else Some n }"

partial_function (option) down2 :: "('k, 'v, 'e) bst_tree \<Rightarrow> ptr \<Rightarrow> ptr option" where
  "down2 t n = do {
     nd \<leftarrow> deref t n;
     if child2 nd \<noteq> NULL then down2 t (child2 nd) else Some n }"

definition nd_min :: "('k, 'v, 'e) bst_tree \<Rightarrow> ptr \<Rightarrow> ptr option" where
  "nd_min t n = (if n = NULL then Some NULL else down1 t n)"

definition nd_max :: "('k, 'v, 'e) bst_tree \<Rightarrow> ptr \<Rightarrow> ptr option" where
  "nd_max t n = (if n = NULL then Some NULL else down2 t n)"

text \<open>The climbing loops of \<open>nd_inc\<close> and \<open>nd_dec\<close>: up until the node is a \<open>child1\<close>
  (a \<open>child2\<close>) of its parent.\<close>

partial_function (option) up1 :: "('k, 'v, 'e) bst_tree \<Rightarrow> ptr \<Rightarrow> ptr option" where
  "up1 t n = do {
     nd \<leftarrow> deref t n;
     if parent nd = NULL then Some NULL
     else do {
       pd \<leftarrow> deref t (parent nd);
       if child1 pd = n then Some (parent nd) else up1 t (parent nd) } }"

partial_function (option) up2 :: "('k, 'v, 'e) bst_tree \<Rightarrow> ptr \<Rightarrow> ptr option" where
  "up2 t n = do {
     nd \<leftarrow> deref t n;
     if parent nd = NULL then Some NULL
     else do {
       pd \<leftarrow> deref t (parent nd);
       if child2 pd = n then Some (parent nd) else up2 t (parent nd) } }"

definition nd_inc :: "('k, 'v, 'e) bst_tree \<Rightarrow> ptr \<Rightarrow> ptr option" where
  "nd_inc t n = do {
     wassert (n \<noteq> NULL);
     nd \<leftarrow> deref t n;
     if child2 nd \<noteq> NULL then down1 t (child2 nd) else up1 t n }"

definition nd_dec :: "('k, 'v, 'e) bst_tree \<Rightarrow> ptr \<Rightarrow> ptr option" where
  "nd_dec t n = do {
     wassert (n \<noteq> NULL);
     nd \<leftarrow> deref t n;
     if child1 nd \<noteq> NULL then down2 t (child1 nd) else up2 t n }"

partial_function (option) nd_count :: "('k, 'v, 'e) bst_tree \<Rightarrow> ptr \<Rightarrow> size_t option" where
  "nd_count t p = (if p = NULL then Some 0 else do {
     nd \<leftarrow> deref t p;
     c1 \<leftarrow> nd_count t (child1 nd);
     c2 \<leftarrow> nd_count t (child2 nd);
     Some (1 + c1 + c2) })"

end
