(* ===== verification/Bst_Shape.thy ===== *)
theory Bst_Shape
  imports Bst_Node
begin

text \<open>
  The abstraction of the pointer trees. A \<open>shape\<close> is a binary tree that records, at each
  node, the address, the stored pair and the policy's \<open>extra\<close>; \<open>heap_of par t\<close> is the
  heap that represents it below a parent pointer \<open>par\<close>, so that all parent links are part
  of the representation; \<open>conc n t\<close> is the tree object with root, size field and heap of
  \<open>t\<close>. A context \<open>ctx\<close> is a shape with a hole, and \<open>plug c t\<close> fills it: the code's
  local pointer changes at a node are rewritings of \<open>t\<close> under a context.

  \<open>entries t\<close>, the in-order list of addresses and stored pairs, is the abstract value of a
  tree: an iterator is an address of this list, the next iterator is the next address.
\<close>

datatype ('k, 'v, 'e) shape =
  Leaf
| Node "('k, 'v, 'e) shape" addr "'k \<times> 'v" 'e "('k, 'v, 'e) shape"

datatype ('k, 'v, 'e) ctx =
  Top
| Lft "('k, 'v, 'e) ctx" addr "'k \<times> 'v" 'e "('k, 'v, 'e) shape"
| Rgt "('k, 'v, 'e) shape" addr "'k \<times> 'v" 'e "('k, 'v, 'e) ctx"

fun root_ptr :: "('k, 'v, 'e) shape \<Rightarrow> ptr" where
  "root_ptr Leaf = NULL"
| "root_ptr (Node l a v e r) = Some a"

fun entries :: "('k, 'v, 'e) shape \<Rightarrow> (addr \<times> 'k \<times> 'v) list" where
  "entries Leaf = []"
| "entries (Node l a v e r) = entries l @ (a, v) # entries r"

abbreviation addrs :: "('k, 'v, 'e) shape \<Rightarrow> addr list" where
  "addrs t \<equiv> map fst (entries t)"

fun addr_set :: "('k, 'v, 'e) shape \<Rightarrow> addr set" where
  "addr_set Leaf = {}"
| "addr_set (Node l a v e r) = insert a (addr_set l \<union> addr_set r)"

text \<open>No address occurs twice.\<close>

fun wf_shape :: "('k, 'v, 'e) shape \<Rightarrow> bool" where
  "wf_shape Leaf \<longleftrightarrow> True"
| "wf_shape (Node l a v e r) \<longleftrightarrow> wf_shape l \<and> wf_shape r \<and> a \<notin> addr_set l \<and> a \<notin> addr_set r \<and>
     addr_set l \<inter> addr_set r = {}"

fun heap_of :: "ptr \<Rightarrow> ('k, 'v, 'e) shape \<Rightarrow> addr \<Rightarrow> ('k, 'v, 'e) bst_node option" where
  "heap_of par Leaf x = None"
| "heap_of par (Node l a v e r) x =
     (if x = a then Some \<lparr>parent = par, child1 = root_ptr l, child2 = root_ptr r,
         nd_value = v, extra = e\<rparr>
      else if x \<in> addr_set l then heap_of (Some a) l x
      else heap_of (Some a) r x)"

fun plug :: "('k, 'v, 'e) ctx \<Rightarrow> ('k, 'v, 'e) shape \<Rightarrow> ('k, 'v, 'e) shape" where
  "plug Top t = t"
| "plug (Lft c a v e r) t = plug c (Node t a v e r)"
| "plug (Rgt l a v e c) t = plug c (Node l a v e t)"

text \<open>The pointer to the node above the hole, \<open>par\<close> at the top.\<close>

fun ctx_ptr :: "ptr \<Rightarrow> ('k, 'v, 'e) ctx \<Rightarrow> ptr" where
  "ctx_ptr par Top = par"
| "ctx_ptr par (Lft c a v e r) = Some a"
| "ctx_ptr par (Rgt l a v e c) = Some a"

fun ctx_set :: "('k, 'v, 'e) ctx \<Rightarrow> addr set" where
  "ctx_set Top = {}"
| "ctx_set (Lft c a v e r) = insert a (ctx_set c \<union> addr_set r)"
| "ctx_set (Rgt l a v e c) = insert a (ctx_set c \<union> addr_set l)"

fun wf_ctx :: "('k, 'v, 'e) ctx \<Rightarrow> bool" where
  "wf_ctx Top \<longleftrightarrow> True"
| "wf_ctx (Lft c a v e r) \<longleftrightarrow> wf_ctx c \<and> wf_shape r \<and> a \<notin> ctx_set c \<and> a \<notin> addr_set r \<and>
     ctx_set c \<inter> addr_set r = {}"
| "wf_ctx (Rgt l a v e c) \<longleftrightarrow> wf_ctx c \<and> wf_shape l \<and> a \<notin> ctx_set c \<and> a \<notin> addr_set l \<and>
     ctx_set c \<inter> addr_set l = {}"

text \<open>The entries before and after the hole.\<close>

fun ctx_before :: "('k, 'v, 'e) ctx \<Rightarrow> (addr \<times> 'k \<times> 'v) list" where
  "ctx_before Top = []"
| "ctx_before (Lft c a v e r) = ctx_before c"
| "ctx_before (Rgt l a v e c) = ctx_before c @ entries l @ [(a, v)]"

fun ctx_after :: "('k, 'v, 'e) ctx \<Rightarrow> (addr \<times> 'k \<times> 'v) list" where
  "ctx_after Top = []"
| "ctx_after (Lft c a v e r) = (a, v) # entries r @ ctx_after c"
| "ctx_after (Rgt l a v e c) = ctx_after c"

fun ctx_append :: "('k, 'v, 'e) ctx \<Rightarrow> ('k, 'v, 'e) ctx \<Rightarrow> ('k, 'v, 'e) ctx" where
  "ctx_append c Top = c"
| "ctx_append c (Lft d a v e r) = Lft (ctx_append c d) a v e r"
| "ctx_append c (Rgt l a v e d) = Rgt l a v e (ctx_append c d)"

definition conc :: "size_t \<Rightarrow> ('k, 'v, 'e) shape \<Rightarrow> ('k, 'v, 'e) bst_tree" where
  "conc n t = \<lparr>m_pRoot = root_ptr t, m_nSize = n, nodes = heap_of NULL t\<rparr>"

lemma conc_sel [simp]:
  "m_pRoot (conc n t) = root_ptr t" "m_nSize (conc n t) = n" "nodes (conc n t) = heap_of NULL t"
  by (simp_all add: conc_def)

lemma conc_eqI:
  "m_pRoot s = root_ptr t \<Longrightarrow> m_nSize s = n \<Longrightarrow> nodes s = heap_of NULL t \<Longrightarrow> s = conc n t"
  by (cases s) (simp add: conc_def)

subsection \<open>Entries, addresses and domains\<close>

lemma root_ptr_eq_None [simp]: "root_ptr t = None \<longleftrightarrow> t = Leaf"
  by (cases t) auto

lemma set_addrs [simp]: "fst ` set (entries t) = addr_set t"
  by (induction t) (auto simp: image_Un)

lemma root_ptr_in: "root_ptr t = Some a \<Longrightarrow> a \<in> addr_set t"
  by (cases t) auto

lemma root_ptr_neq [simp]: "a \<notin> addr_set t \<Longrightarrow> root_ptr t \<noteq> Some a"
  by (cases t) auto

lemma root_ptr_neq2 [simp]: "a \<notin> addr_set t \<Longrightarrow> Some a \<noteq> root_ptr t"
  by (rule not_sym) (rule root_ptr_neq)

lemma heap_of_eq_None [simp]: "heap_of par t x = None \<longleftrightarrow> x \<notin> addr_set t"
  by (induction t arbitrary: par) auto

lemma dom_heap_of: "dom (heap_of par t) = addr_set t"
  by (auto simp: dom_def)

lemma wf_shape_iff: "wf_shape t \<longleftrightarrow> distinct (addrs t)"
  by (induction t) auto

lemma addr_set_plug [simp]: "addr_set (plug c t) = ctx_set c \<union> addr_set t"
  by (induction c arbitrary: t) auto

lemma wf_plug [simp]:
  "wf_shape (plug c t) \<longleftrightarrow> wf_ctx c \<and> wf_shape t \<and> ctx_set c \<inter> addr_set t = {}"
  by (induction c arbitrary: t) auto

lemma entries_wf: "entries t' = entries t \<Longrightarrow> wf_shape t' = wf_shape t"
  by (simp add: wf_shape_iff)

lemma entries_addr_set: "entries t' = entries t \<Longrightarrow> addr_set t' = addr_set t"
  by (metis set_addrs)

lemma entries_plug [simp]: "entries (plug c t) = ctx_before c @ entries t @ ctx_after c"
  by (induction c arbitrary: t) auto

lemma plug_ctx_append: "plug (ctx_append c d) t = plug c (plug d t)"
  by (induction d arbitrary: t) auto

lemma root_ptr_plug_same: "root_ptr t = root_ptr t' \<Longrightarrow> root_ptr (plug c t) = root_ptr (plug c t')"
  by (induction c arbitrary: t t') auto

lemma root_ptr_plug_ctx: "c \<noteq> Top \<Longrightarrow> root_ptr (plug c t) = root_ptr (plug c t')"
  by (cases c) (auto intro: root_ptr_plug_same)

lemma ctx_ptr_append: "ctx_ptr par (ctx_append c d) = ctx_ptr (ctx_ptr par c) d"
  by (cases d) auto

subsection \<open>Heaps that hold a shape\<close>

text \<open>\<open>rep h par t\<close>: the heap \<open>h\<close> holds the nodes of \<open>t\<close> below \<open>par\<close>; \<open>rep_ctx h par q c\<close>:
  it holds the nodes of \<open>c\<close>, with \<open>q\<close> the pointer to what fills the hole. A write to a node
  outside a shape keeps what the heap holds of it: this is the frame rule of all surgery.\<close>

fun rep :: "(addr \<rightharpoonup> ('k, 'v, 'e) bst_node) \<Rightarrow> ptr \<Rightarrow> ('k, 'v, 'e) shape \<Rightarrow> bool" where
  "rep h par Leaf \<longleftrightarrow> True"
| "rep h par (Node l a v e r) \<longleftrightarrow> h a = Some \<lparr>parent = par, child1 = root_ptr l,
      child2 = root_ptr r, nd_value = v, extra = e\<rparr> \<and> rep h (Some a) l \<and> rep h (Some a) r"

fun rep_ctx :: "(addr \<rightharpoonup> ('k, 'v, 'e) bst_node) \<Rightarrow> ptr \<Rightarrow> ptr \<Rightarrow> ('k, 'v, 'e) ctx \<Rightarrow> bool" where
  "rep_ctx h par q Top \<longleftrightarrow> True"
| "rep_ctx h par q (Lft c a v e r) \<longleftrightarrow> h a = Some \<lparr>parent = ctx_ptr par c, child1 = q,
      child2 = root_ptr r, nd_value = v, extra = e\<rparr> \<and> rep_ctx h par (Some a) c \<and> rep h (Some a) r"
| "rep_ctx h par q (Rgt l a v e c) \<longleftrightarrow> h a = Some \<lparr>parent = ctx_ptr par c, child1 = root_ptr l,
      child2 = q, nd_value = v, extra = e\<rparr> \<and> rep_ctx h par (Some a) c \<and> rep h (Some a) l"

lemma rep_plug [simp]:
  "rep h par (plug c t) \<longleftrightarrow> rep_ctx h par (root_ptr t) c \<and> rep h (ctx_ptr par c) t"
  by (induction c arbitrary: t) auto

lemma rep_upd [simp]: "x \<notin> addr_set t \<Longrightarrow> rep (h(x := y)) par t = rep h par t"
  by (induction t arbitrary: par) auto

lemma rep_ctx_upd [simp]: "x \<notin> ctx_set c \<Longrightarrow> rep_ctx (h(x := y)) par q c = rep_ctx h par q c"
  by (induction c arbitrary: q) auto

lemma rep_cong: "(\<And>x. x \<in> addr_set t \<Longrightarrow> h x = h' x) \<Longrightarrow> rep h par t = rep h' par t"
  by (induction t arbitrary: par) auto

lemma rep_heap_of: "wf_shape t \<Longrightarrow> rep (heap_of par t) par t"
proof (induction t arbitrary: par)
  case (Node l a v e r)
  have "rep (heap_of par (Node l a v e r)) (Some a) l = rep (heap_of (Some a) l) (Some a) l"
    using Node.prems by (intro rep_cong) auto
  moreover have "rep (heap_of par (Node l a v e r)) (Some a) r = rep (heap_of (Some a) r) (Some a) r"
    using Node.prems by (intro rep_cong) auto
  moreover have "heap_of par (Node l a v e r) a = Some \<lparr>parent = par, child1 = root_ptr l,
      child2 = root_ptr r, nd_value = v, extra = e\<rparr>"
    by simp
  ultimately show ?case using Node by (simp del: heap_of.simps)
qed simp

lemma rep_in: "rep h par t \<Longrightarrow> x \<in> addr_set t \<Longrightarrow> h x = heap_of par t x"
  by (induction t arbitrary: par) auto

lemma heap_of_unique: "rep h par t \<Longrightarrow> dom h = addr_set t \<Longrightarrow> h = heap_of par t"
  by (rule ext) (metis domIff heap_of_eq_None rep_in)

text \<open>To prove what an operation does to a represented tree it is enough to run it on any
  heap that holds the tree.\<close>

lemma conc_surgery:
  assumes "wf_shape t"
    and "\<And>s. m_pRoot s = root_ptr t \<Longrightarrow> m_nSize s = m \<Longrightarrow> rep (nodes s) NULL t \<Longrightarrow>
      dom (nodes s) = addr_set t \<Longrightarrow>
      \<exists>s'. f s = Some s' \<and> m_pRoot s' = root_ptr t' \<and> m_nSize s' = m' \<and> rep (nodes s') NULL t' \<and>
        dom (nodes s') = addr_set t'"
  shows "f (conc m t) = Some (conc m' t')"
proof -
  from assms(2) [of "conc m t"] assms(1)
  obtain s' where "f (conc m t) = Some s'" "m_pRoot s' = root_ptr t'" "m_nSize s' = m'"
    "rep (nodes s') NULL t'" "dom (nodes s') = addr_set t'"
    by (auto simp: rep_heap_of dom_heap_of)
  then show ?thesis by (auto intro!: conc_eqI heap_of_unique)
qed

end
