(* ===== verification/Bst_Walk.thy ===== *)
theory Bst_Walk
  imports Bst_Shape
begin

text \<open>
  The pointer walks on represented trees: \<open>nd_min\<close> and \<open>nd_max\<close> return the ends of the
  in-order list, \<open>nd_inc\<close> and \<open>nd_dec\<close> its next and previous address, \<open>nd_count\<close> its
  length; none of them follows a bad pointer, and all of them return.
\<close>

definition hd_ptr :: "(addr \<times> 'k \<times> 'v) list \<Rightarrow> ptr" where
  "hd_ptr xs = (case xs of [] \<Rightarrow> NULL | x # _ \<Rightarrow> Some (fst x))"

definition last_ptr :: "(addr \<times> 'k \<times> 'v) list \<Rightarrow> ptr" where
  "last_ptr xs = (if xs = [] then NULL else Some (fst (last xs)))"

lemma hd_ptr_simps [simp]:
  "hd_ptr [] = NULL" "hd_ptr ((a, v) # xs) = Some a"
  by (simp_all add: hd_ptr_def)

lemma last_ptr_simps [simp]:
  "last_ptr [] = NULL" "last_ptr (xs @ [(a, v)]) = Some a" "last_ptr [(a, v)] = Some a"
  by (simp_all add: last_ptr_def)

lemma entries_eq_Nil [simp]: "entries t = [] \<longleftrightarrow> t = Leaf" "[] = entries t \<longleftrightarrow> t = Leaf"
  by (cases t; simp)+

lemma hd_ptr_append [simp]: "xs \<noteq> [] \<Longrightarrow> hd_ptr (xs @ ys) = hd_ptr xs"
  by (cases xs) (simp_all add: hd_ptr_def)

lemma last_ptr_append [simp]: "ys \<noteq> [] \<Longrightarrow> last_ptr (xs @ ys) = last_ptr ys"
  by (simp add: last_ptr_def)

subsection \<open>Reading a node in context\<close>

lemma nodes_plug [heap_simps]:
  assumes "wf_shape (plug c (Node l a v e r))"
  shows "heap_of NULL (plug c (Node l a v e r)) a =
    Some \<lparr>parent = ctx_ptr NULL c, child1 = root_ptr l, child2 = root_ptr r, nd_value = v, extra = e\<rparr>"
  using rep_heap_of [OF assms, of NULL] by simp

lemma heap_of_plug_in:
  assumes "wf_shape (plug c t)" and "x \<in> addr_set t"
  shows "heap_of NULL (plug c t) x = heap_of (ctx_ptr NULL c) t x"
  using rep_heap_of [OF assms(1), of NULL] assms(2) by (auto intro: rep_in)

lemma shape_focus:
  "a \<in> addr_set t \<Longrightarrow> \<exists>c l v e r. t = plug c (Node l a v e r)"
proof (induction t)
  case Leaf
  then show ?case by simp
next
  case (Node l b v e r)
  consider "a = b" | "a \<in> addr_set l" | "a \<in> addr_set r" using Node.prems by auto
  then show ?case
  proof cases
    case 1
    then show ?thesis by (metis plug.simps(1))
  next
    case 2
    then obtain c l' v' e' r' where "l = plug c (Node l' a v' e' r')" using Node.IH by blast
    then have "Node l b v e r = plug (ctx_append (Lft Top b v e r) c) (Node l' a v' e' r')"
      by (simp add: plug_ctx_append)
    then show ?thesis by blast
  next
    case 3
    then obtain c l' v' e' r' where "r = plug c (Node l' a v' e' r')" using Node.IH by blast
    then have "Node l b v e r = plug (ctx_append (Rgt l b v e Top) c) (Node l' a v' e' r')"
      by (simp add: plug_ctx_append)
    then show ?thesis by blast
  qed
qed

text \<open>The position of an address in the in-order list determines its context's lists.\<close>

lemma shape_focus_entries:
  assumes "entries t = xs @ (a, v) # ys" and "wf_shape t"
  obtains c l e r where "t = plug c (Node l a v e r)"
    and "xs = ctx_before c @ entries l" and "ys = entries r @ ctx_after c"
proof -
  have "a \<in> fst ` set (entries t)" unfolding assms(1) by simp
  then have "a \<in> addr_set t" by simp
  then obtain c l v' e r where t: "t = plug c (Node l a v' e r)"
    by (blast dest: shape_focus)
  have "xs @ (a, v) # ys = (ctx_before c @ entries l) @ (a, v') # (entries r @ ctx_after c)"
    using assms(1) by (simp add: t)
  moreover have "distinct (map fst (xs @ (a, v) # ys))"
    using assms by (simp add: wf_shape_iff)
  ultimately have "xs = ctx_before c @ entries l" "v = v'" "ys = entries r @ ctx_after c"
    using split_distinct_unique by metis+
  with t that show thesis by blast
qed

subsection \<open>Downward walks\<close>

lemma down1_plug:
  assumes "wf_shape (plug c t)" and "t \<noteq> Leaf"
  shows "down1 (conc n (plug c t)) (root_ptr t) = Some (hd_ptr (entries t))"
  using assms
proof (induction t arbitrary: c)
  case Leaf
  then show ?case by simp
next
  case (Node l a v e r)
  note rd = nodes_plug [OF Node.prems(1)]
  show ?case
  proof (cases "l = Leaf")
    case True
    then show ?thesis
      using rd by (subst down1.simps) (simp add: heap_simps)
  next
    case False
    then have "down1 (conc n (plug (Lft c a v e r) l)) (root_ptr l) = Some (hd_ptr (entries l))"
      using Node.prems by (intro Node.IH(1)) auto
    then show ?thesis
      using False rd by (subst down1.simps) (simp add: heap_simps)
  qed
qed

lemma down2_plug:
  assumes "wf_shape (plug c t)" and "t \<noteq> Leaf"
  shows "down2 (conc n (plug c t)) (root_ptr t) = Some (last_ptr (entries t))"
  using assms
proof (induction t arbitrary: c)
  case Leaf
  then show ?case by simp
next
  case (Node l a v e r)
  note rd = nodes_plug [OF Node.prems(1)]
  show ?case
  proof (cases "r = Leaf")
    case True
    then show ?thesis
      using rd by (subst down2.simps) (simp add: heap_simps)
  next
    case False
    then have "down2 (conc n (plug (Rgt l a v e c) r)) (root_ptr r) = Some (last_ptr (entries r))"
      using Node.prems by (intro Node.IH(2)) auto
    moreover have "last_ptr (entries l @ (a, v) # entries r) = last_ptr (entries r)"
      using False last_ptr_append [of "entries r" "entries l @ [(a, v)]"] by simp
    ultimately show ?thesis
      using False rd by (subst down2.simps) (simp add: heap_simps)
  qed
qed

lemma nd_min_conc: "wf_shape t \<Longrightarrow> nd_min (conc n t) (root_ptr t) = Some (hd_ptr (entries t))"
  using down1_plug [of Top t n] by (cases "t = Leaf") (simp_all add: nd_min_def)

lemma nd_max_conc: "wf_shape t \<Longrightarrow> nd_max (conc n t) (root_ptr t) = Some (last_ptr (entries t))"
  using down2_plug [of Top t n] by (cases "t = Leaf") (simp_all add: nd_max_def)

lemma nd_max_plug:
  "wf_shape (plug c t) \<Longrightarrow> nd_max (conc n (plug c t)) (root_ptr t) = Some (last_ptr (entries t))"
  using down2_plug [of c t n] by (cases "t = Leaf") (simp_all add: nd_max_def)

subsection \<open>Upward walks\<close>

lemma up1_plug:
  assumes "wf_shape (plug c t)" and "t \<noteq> Leaf"
  shows "up1 (conc n (plug c t)) (root_ptr t) = Some (hd_ptr (ctx_after c))"
  using assms
proof (induction c arbitrary: t)
  case Top
  then obtain l a v e r where t: "t = Node l a v e r" by (cases t) auto
  show ?case
    unfolding t by (subst up1.simps) (simp add: heap_simps)
next
  case (Lft c b w f s)
  then obtain l a v e r where t: "t = Node l a v e r" by (cases t) auto
  have "heap_of NULL (plug c (Node t b w f s)) b = Some \<lparr>parent = ctx_ptr NULL c,
      child1 = root_ptr t, child2 = root_ptr s, nd_value = w, extra = f\<rparr>"
    using Lft.prems(1) by (intro nodes_plug) simp
  moreover have "heap_of NULL (plug (Lft c b w f s) t) a = Some \<lparr>parent = Some b,
      child1 = root_ptr l, child2 = root_ptr r, nd_value = v, extra = e\<rparr>"
    using nodes_plug [of "Lft c b w f s" l a v e r] Lft.prems(1) by (simp add: t)
  ultimately show ?case
    by (subst up1.simps) (simp add: heap_simps t)
next
  case (Rgt s b w f c)
  then obtain l a v e r where t: "t = Node l a v e r" by (cases t) auto
  have "up1 (conc n (plug c (Node s b w f t))) (Some b) = Some (hd_ptr (ctx_after c))"
    using Rgt.IH [of "Node s b w f t"] Rgt.prems by simp
  moreover have "heap_of NULL (plug c (Node s b w f t)) b = Some \<lparr>parent = ctx_ptr NULL c,
      child1 = root_ptr s, child2 = root_ptr t, nd_value = w, extra = f\<rparr>"
    using Rgt.prems(1) by (intro nodes_plug) simp
  moreover have "heap_of NULL (plug (Rgt s b w f c) t) a = Some \<lparr>parent = Some b,
      child1 = root_ptr l, child2 = root_ptr r, nd_value = v, extra = e\<rparr>"
    using nodes_plug [of "Rgt s b w f c" l a v e r] Rgt.prems(1) by (simp add: t)
  moreover have "root_ptr s \<noteq> Some a"
    using Rgt.prems(1) by (intro root_ptr_neq) (auto simp: t)
  ultimately show ?case
    by (subst up1.simps) (simp add: heap_simps t)
qed

lemma up2_plug:
  assumes "wf_shape (plug c t)" and "t \<noteq> Leaf"
  shows "up2 (conc n (plug c t)) (root_ptr t) = Some (last_ptr (ctx_before c))"
  using assms
proof (induction c arbitrary: t)
  case Top
  then obtain l a v e r where t: "t = Node l a v e r" by (cases t) auto
  show ?case
    unfolding t by (subst up2.simps) (simp add: heap_simps)
next
  case (Rgt s b w f c)
  then obtain l a v e r where t: "t = Node l a v e r" by (cases t) auto
  have "heap_of NULL (plug c (Node s b w f t)) b = Some \<lparr>parent = ctx_ptr NULL c,
      child1 = root_ptr s, child2 = root_ptr t, nd_value = w, extra = f\<rparr>"
    using Rgt.prems(1) by (intro nodes_plug) simp
  moreover have "heap_of NULL (plug (Rgt s b w f c) t) a = Some \<lparr>parent = Some b,
      child1 = root_ptr l, child2 = root_ptr r, nd_value = v, extra = e\<rparr>"
    using nodes_plug [of "Rgt s b w f c" l a v e r] Rgt.prems(1) by (simp add: t)
  ultimately show ?case
    by (subst up2.simps) (simp add: heap_simps t flip: append_assoc)
next
  case (Lft c b w f s)
  then obtain l a v e r where t: "t = Node l a v e r" by (cases t) auto
  have "up2 (conc n (plug c (Node t b w f s))) (Some b) = Some (last_ptr (ctx_before c))"
    using Lft.IH [of "Node t b w f s"] Lft.prems by simp
  moreover have "heap_of NULL (plug c (Node t b w f s)) b = Some \<lparr>parent = ctx_ptr NULL c,
      child1 = root_ptr t, child2 = root_ptr s, nd_value = w, extra = f\<rparr>"
    using Lft.prems(1) by (intro nodes_plug) simp
  moreover have "heap_of NULL (plug (Lft c b w f s) t) a = Some \<lparr>parent = Some b,
      child1 = root_ptr l, child2 = root_ptr r, nd_value = v, extra = e\<rparr>"
    using nodes_plug [of "Lft c b w f s" l a v e r] Lft.prems(1) by (simp add: t)
  moreover have "root_ptr s \<noteq> Some a"
    using Lft.prems(1) by (intro root_ptr_neq) (auto simp: t)
  ultimately show ?case
    by (subst up2.simps) (simp add: heap_simps t)
qed

subsection \<open>Next and previous\<close>

lemma nd_inc_plug:
  assumes "wf_shape (plug c (Node l a v e r))"
  shows "nd_inc (conc n (plug c (Node l a v e r))) (Some a) = Some (hd_ptr (entries r @ ctx_after c))"
proof (cases "r = Leaf")
  case True
  then show ?thesis
    using assms up1_plug [OF assms, of n] by (simp add: nd_inc_def heap_simps)
next
  case False
  have "down1 (conc n (plug (Rgt l a v e c) r)) (root_ptr r) = Some (hd_ptr (entries r))"
    using assms False by (intro down1_plug) auto
  then show ?thesis
    using assms False by (simp add: nd_inc_def heap_simps)
qed

lemma nd_dec_plug:
  assumes "wf_shape (plug c (Node l a v e r))"
  shows "nd_dec (conc n (plug c (Node l a v e r))) (Some a) = Some (last_ptr (ctx_before c @ entries l))"
proof (cases "l = Leaf")
  case True
  then show ?thesis
    using assms up2_plug [OF assms, of n] by (simp add: nd_dec_def heap_simps)
next
  case False
  have "down2 (conc n (plug (Lft c a v e r) l)) (root_ptr l) = Some (last_ptr (entries l))"
    using assms False by (intro down2_plug) auto
  then show ?thesis
    using assms False by (simp add: nd_dec_def heap_simps)
qed

lemma nd_inc_conc:
  assumes "entries t = xs @ (a, v) # ys" and "wf_shape t"
  shows "nd_inc (conc n t) (Some a) = Some (hd_ptr ys)"
proof (rule shape_focus_entries [OF assms])
  fix c l e r
  assume "t = plug c (Node l a v e r)" "xs = ctx_before c @ entries l" "ys = entries r @ ctx_after c"
  then show ?thesis using assms(2) nd_inc_plug [of c l a v e r n] by simp
qed

lemma nd_dec_conc:
  assumes "entries t = xs @ (a, v) # ys" and "wf_shape t"
  shows "nd_dec (conc n t) (Some a) = Some (last_ptr xs)"
proof (rule shape_focus_entries [OF assms])
  fix c l e r
  assume "t = plug c (Node l a v e r)" "xs = ctx_before c @ entries l" "ys = entries r @ ctx_after c"
  then show ?thesis using assms(2) nd_dec_plug [of c l a v e r n] by simp
qed

lemma nd_count_plug:
  assumes "wf_shape (plug c t)"
  shows "nd_count (conc n (plug c t)) (root_ptr t) = Some (of_nat (length (entries t)))"
  using assms
proof (induction t arbitrary: c)
  case Leaf
  then show ?case by (simp add: nd_count.simps)
next
  case (Node l a v e r)
  have "nd_count (conc n (plug (Lft c a v e r) l)) (root_ptr l) = Some (of_nat (length (entries l)))"
    using Node.prems by (intro Node.IH) simp
  moreover have "nd_count (conc n (plug (Rgt l a v e c) r)) (root_ptr r) = Some (of_nat (length (entries r)))"
    using Node.prems by (intro Node.IH) simp
  ultimately show ?case
    using nodes_plug [OF Node.prems] by (subst nd_count.simps) (simp add: heap_simps)
qed

lemma nd_count_conc:
  "wf_shape t \<Longrightarrow> nd_count (conc n t) (root_ptr t) = Some (of_nat (length (entries t)))"
  using nd_count_plug [of Top t n] by simp

end
