(* ===== verification/Bst_Rotate.thy ===== *)
theory Bst_Rotate
  imports Bst_Walk
begin

text \<open>
  Link surgery of \<open>bst_tree\<close> (\<open>inc/vhwd/collection/detail/bst_tree.h\<close>): \<open>set_child1\<close>,
  \<open>set_child2\<close>, the rotations, \<open>bst_sibling\<close>, \<open>check_node\<close>, and the lemmas that they
  are the expected rewritings of the represented shape.
\<close>

definition set_child1 :: "('k, 'v, 'e) bst_tree \<Rightarrow> ptr \<Rightarrow> ptr \<Rightarrow> ('k, 'v, 'e) bst_tree option" where
  "set_child1 t node child = do {
     t \<leftarrow> upd t node (child1_update (\<lambda>_. child));
     if child \<noteq> NULL then upd t child (parent_update (\<lambda>_. node)) else Some t }"

definition set_child2 :: "('k, 'v, 'e) bst_tree \<Rightarrow> ptr \<Rightarrow> ptr \<Rightarrow> ('k, 'v, 'e) bst_tree option" where
  "set_child2 t node child = do {
     t \<leftarrow> upd t node (child2_update (\<lambda>_. child));
     if child \<noteq> NULL then upd t child (parent_update (\<lambda>_. node)) else Some t }"

definition rotate_right :: "('k, 'v, 'e) bst_tree \<Rightarrow> ptr \<Rightarrow> ('k, 'v, 'e) bst_tree option" where
  "rotate_right t node = do {
     nd \<leftarrow> deref t node;
     wassert (child1 nd \<noteq> NULL);
     let oldr = parent nd;
     let newr = child1 nd;
     nw \<leftarrow> deref t newr;
     t \<leftarrow> set_child1 t node (child2 nw);
     t \<leftarrow> set_child2 t newr node;
     if oldr \<noteq> NULL then do {
       od \<leftarrow> deref t oldr;
       if node = child1 od then set_child1 t oldr newr else set_child2 t oldr newr }
     else do {
       t \<leftarrow> Some (t\<lparr>m_pRoot := newr\<rparr>);
       upd t newr (parent_update (\<lambda>_. NULL)) } }"

definition rotate_left :: "('k, 'v, 'e) bst_tree \<Rightarrow> ptr \<Rightarrow> ('k, 'v, 'e) bst_tree option" where
  "rotate_left t node = do {
     nd \<leftarrow> deref t node;
     wassert (child2 nd \<noteq> NULL);
     let oldr = parent nd;
     let newr = child2 nd;
     nw \<leftarrow> deref t newr;
     t \<leftarrow> set_child2 t node (child1 nw);
     t \<leftarrow> set_child1 t newr node;
     if oldr \<noteq> NULL then do {
       od \<leftarrow> deref t oldr;
       if node = child1 od then set_child1 t oldr newr else set_child2 t oldr newr }
     else do {
       t \<leftarrow> Some (t\<lparr>m_pRoot := newr\<rparr>);
       upd t newr (parent_update (\<lambda>_. NULL)) } }"

definition rotate :: "('k, 'v, 'e) bst_tree \<Rightarrow> ptr \<Rightarrow> ptr \<Rightarrow> ('k, 'v, 'e) bst_tree option" where
  "rotate t old_root new_root = do {
     od \<leftarrow> deref t old_root;
     if new_root = child1 od then rotate_right t old_root else rotate_left t old_root }"

definition bst_sibling :: "('k, 'v, 'e) bst_tree \<Rightarrow> ptr \<Rightarrow> ptr option" where
  "bst_sibling t n = do {
     nd \<leftarrow> deref t n;
     wassert (n \<noteq> NULL \<and> parent nd \<noteq> NULL);
     p \<leftarrow> deref t (parent nd);
     if n = child1 p then Some (child2 p) else Some (child1 p) }"

definition check_node :: "('k, 'v, 'e) bst_tree \<Rightarrow> ptr \<Rightarrow> bool option" where
  "check_node t n = do {
     nd \<leftarrow> deref t n;
     ok1 \<leftarrow> (if child1 nd = NULL then Some True
            else do { c \<leftarrow> deref t (child1 nd); Some (parent c = n) });
     if \<not> ok1 then Some False else do {
     ok2 \<leftarrow> (if child2 nd = NULL then Some True
            else do { c \<leftarrow> deref t (child2 nd); Some (parent c = n) });
     if \<not> ok2 then Some False
     else if parent nd = NULL then Some True
     else do { p \<leftarrow> deref t (parent nd); Some (child1 p = n \<or> child2 p = n) } } }"

lemmas surgery_simps = set_child1_def set_child2_def heap_simps Let_def

subsection \<open>Rotations\<close>

lemma rotate_right_conc:
  assumes wf: "wf_shape (plug c (Node (Node A n nv ne B) p pv pe C))"
  shows "rotate_right (conc m (plug c (Node (Node A n nv ne B) p pv pe C))) (Some p)
       = Some (conc m (plug c (Node A n nv ne (Node B p pv pe C))))"
  apply (rule conc_surgery [OF wf])
  apply (insert wf, cases c; cases B)
  apply (simp_all add: rotate_right_def surgery_simps)
  apply (auto intro!: root_ptr_plug_same)
  done

lemma rotate_left_conc:
  assumes wf: "wf_shape (plug c (Node A p pv pe (Node B n nv ne C)))"
  shows "rotate_left (conc m (plug c (Node A p pv pe (Node B n nv ne C)))) (Some p)
       = Some (conc m (plug c (Node (Node A p pv pe B) n nv ne C)))"
  apply (rule conc_surgery [OF wf])
  apply (insert wf, cases c; cases B)
  apply (simp_all add: rotate_left_def surgery_simps)
  apply (auto intro!: root_ptr_plug_same)
  done

subsection \<open>Construction and destruction of a node\<close>

text \<open>The allocator is a parameter: \<open>a\<close> is the address it returns for the new node.\<close>

definition bst_construct :: "('k, 'v, 'e) bst_tree \<Rightarrow> addr \<Rightarrow> 'k \<times> 'v \<Rightarrow> 'e \<Rightarrow> ('k, 'v, 'e) bst_tree" where
  "bst_construct t a v e = t\<lparr>nodes := (nodes t)(a \<mapsto> new_node v e)\<rparr>"

definition bst_destroy :: "('k, 'v, 'e) bst_tree \<Rightarrow> ptr \<Rightarrow> ('k, 'v, 'e) bst_tree option" where
  "bst_destroy t n = (case n of None \<Rightarrow> None | Some a \<Rightarrow>
     (if nodes t a = None then None else Some (t\<lparr>nodes := (nodes t)(a := None)\<rparr>)))"

subsection \<open>Surgery by address\<close>

text \<open>The rotations and the recolourings as functions on shapes that find the node by its
  address. Each keeps the in-order list, whatever the shape.\<close>

fun rotR :: "addr \<Rightarrow> ('k, 'v, 'e) shape \<Rightarrow> ('k, 'v, 'e) shape" where
  "rotR p Leaf = Leaf"
| "rotR p (Node l a v e r) = (if a = p
     then (case l of Leaf \<Rightarrow> Node l a v e r
           | Node A n nv ne B \<Rightarrow> Node A n nv ne (Node B a v e r))
     else Node (rotR p l) a v e (rotR p r))"

fun rotL :: "addr \<Rightarrow> ('k, 'v, 'e) shape \<Rightarrow> ('k, 'v, 'e) shape" where
  "rotL p Leaf = Leaf"
| "rotL p (Node l a v e r) = (if a = p
     then (case r of Leaf \<Rightarrow> Node l a v e r
           | Node B n nv ne C \<Rightarrow> Node (Node l a v e B) n nv ne C)
     else Node (rotL p l) a v e (rotL p r))"

fun paint :: "addr \<Rightarrow> 'e \<Rightarrow> ('k, 'v, 'e) shape \<Rightarrow> ('k, 'v, 'e) shape" where
  "paint p c Leaf = Leaf"
| "paint p c (Node l a v e r) = (if a = p then Node l a v c r else Node (paint p c l) a v e (paint p c r))"

lemma entries_rotR [simp]: "entries (rotR p t) = entries t"
  by (induction t) (auto split: shape.split)

lemma entries_rotL [simp]: "entries (rotL p t) = entries t"
  by (induction t) (auto split: shape.split)

lemma entries_paint [simp]: "entries (paint p c t) = entries t"
  by (induction t) auto

lemmas entries_addr_set_surgery [simp] =
  entries_addr_set [OF entries_rotR] entries_addr_set [OF entries_rotL]
  entries_addr_set [OF entries_paint]
  entries_wf [OF entries_rotR] entries_wf [OF entries_rotL] entries_wf [OF entries_paint]

lemma surgery_notin [simp]:
  "p \<notin> addr_set t \<Longrightarrow> rotR p t = t"
  "p \<notin> addr_set t \<Longrightarrow> rotL p t = t"
  "p \<notin> addr_set t \<Longrightarrow> paint p c t = t"
  by (induction t) auto

lemma surgery_plug [simp]:
  "p \<notin> ctx_set c \<Longrightarrow> rotR p (plug c t) = plug c (rotR p t)"
  "p \<notin> ctx_set c \<Longrightarrow> rotL p (plug c t) = plug c (rotL p t)"
  "p \<notin> ctx_set c \<Longrightarrow> paint p x (plug c t) = plug c (paint p x t)"
  by (induction c arbitrary: t) auto

lemma shape_focus_node:
  assumes "wf_shape t" and "heap_of NULL t p = Some nd"
  obtains c l r where "t = plug c (Node l p (nd_value nd) (extra nd) r)"
    and "parent nd = ctx_ptr NULL c" and "child1 nd = root_ptr l" and "child2 nd = root_ptr r"
    and "p \<notin> ctx_set c" and "p \<notin> addr_set l" and "p \<notin> addr_set r"
proof -
  have "p \<in> addr_set t" using assms(2) by (metis heap_of_eq_None option.distinct(1))
  then obtain c l v e r where t: "t = plug c (Node l p v e r)" by (blast dest: shape_focus)
  then have "nd = \<lparr>parent = ctx_ptr NULL c, child1 = root_ptr l, child2 = root_ptr r,
      nd_value = v, extra = e\<rparr>"
    using assms nodes_plug [of c l p v e r] by simp
  with t assms(1) that [of c l r] show thesis by simp
qed

lemma rotate_right_at:
  assumes "wf_shape t" and "heap_of NULL t p = Some nd" and "child1 nd \<noteq> NULL"
  shows "rotate_right (conc m t) (Some p) = Some (conc m (rotR p t))"
proof -
  obtain c l r where t: "t = plug c (Node l p (nd_value nd) (extra nd) r)"
    and l: "child1 nd = root_ptr l" and p: "p \<notin> ctx_set c"
    using shape_focus_node [OF assms(1,2)] by metis
  with assms(3) obtain A n nv ne B where "l = Node A n nv ne B" by (cases l) auto
  with t p assms(1) rotate_right_conc [of c A n nv ne B p] show ?thesis by simp
qed

lemma rotate_left_at:
  assumes "wf_shape t" and "heap_of NULL t p = Some nd" and "child2 nd \<noteq> NULL"
  shows "rotate_left (conc m t) (Some p) = Some (conc m (rotL p t))"
proof -
  obtain c l r where t: "t = plug c (Node l p (nd_value nd) (extra nd) r)"
    and r: "child2 nd = root_ptr r" and p: "p \<notin> ctx_set c"
    using shape_focus_node [OF assms(1,2)] by metis
  with assms(3) obtain B n nv ne C where "r = Node B n nv ne C" by (cases r) auto
  with t p assms(1) rotate_left_conc [of c l p _ _ B n nv ne C] show ?thesis by simp
qed

lemma upd_extra_conc:
  assumes "wf_shape (plug c (Node l a v e r))"
  shows "upd (conc m (plug c (Node l a v e r))) (Some a) (extra_update (\<lambda>_. x))
       = Some (conc m (plug c (Node l a v x r)))"
  by (rule conc_surgery [OF assms])
    (use assms in \<open>auto simp: heap_simps intro: root_ptr_plug_same\<close>)

lemma upd_extra_at:
  assumes "wf_shape t" and "heap_of NULL t p = Some nd"
  shows "upd (conc m t) (Some p) (extra_update (\<lambda>_. x)) = Some (conc m (paint p x t))"
proof -
  obtain c l r where t: "t = plug c (Node l p (nd_value nd) (extra nd) r)" and p: "p \<notin> ctx_set c"
    using shape_focus_node [OF assms] by metis
  with assms(1) upd_extra_conc [of c l p "nd_value nd" "extra nd" r m x] show ?thesis by simp
qed

text \<open>The rewrite rules that run code on a represented tree: reads at any depth under a
  context, and surgery by address.\<close>

lemmas conc_simps = deref_NULL deref_Some upd_NULL heap_of_plug_in
  rotate_right_at rotate_left_at upd_extra_at Let_def Int_Un_distrib Int_Un_distrib2

end
