(* ===== verification/Bst_Frame.thy ===== *)
theory Bst_Frame
  imports Bst_Rotate
begin

text \<open>
  The frame rule of the pointer programs. \<open>delete_one_child\<close> unlinks a node, rebalances and
  only then frees the node, so the fix-ups run on a heap with one node more than the tree has.
  \<open>framed g\<close> says that \<open>g\<close> neither reads nor writes nodes that it did not have to:
  a result it returns without the extra node \<open>a\<close> it returns with it. The rules
  \<open>framed_intros\<close> follow the program text, so each operation is framed by one \<open>intro\<close>.
\<close>

definition ext :: "addr \<Rightarrow> ('k, 'v, 'e) bst_node \<Rightarrow> ('k, 'v, 'e) bst_tree \<Rightarrow> ('k, 'v, 'e) bst_tree" where
  "ext a x s = s\<lparr>nodes := (nodes s)(a \<mapsto> x)\<rparr>"

definition framed :: "(('k, 'v, 'e) bst_tree \<Rightarrow> ('k, 'v, 'e) bst_tree option) \<Rightarrow> bool" where
  "framed g \<longleftrightarrow> (\<forall>a x s s'. nodes s a = None \<longrightarrow> g s = Some s' \<longrightarrow>
     nodes s' a = None \<and> g (ext a x s) = Some (ext a x s'))"

definition framed_pair :: "(('k, 'v, 'e) bst_tree \<Rightarrow> (('k, 'v, 'e) bst_tree \<times> 'q) option) \<Rightarrow> bool" where
  "framed_pair g \<longleftrightarrow> (\<forall>a x s s' q. nodes s a = None \<longrightarrow> g s = Some (s', q) \<longrightarrow>
     nodes s' a = None \<and> g (ext a x s) = Some (ext a x s', q))"

named_theorems framed_intros "rules that frame a program along its text"

lemma ext_sel [simp]:
  "m_pRoot (ext a x s) = m_pRoot s" "m_nSize (ext a x s) = m_nSize s"
  "nodes (ext a x s) = (nodes s)(a \<mapsto> x)"
  by (simp_all add: ext_def)

lemma framedD:
  "framed g \<Longrightarrow> nodes s a = None \<Longrightarrow> g s = Some s' \<Longrightarrow> g (ext a x s) = Some (ext a x s')"
  by (auto simp: framed_def)

lemma framedI:
  "(\<And>a x s s'. nodes s a = None \<Longrightarrow> g s = Some s' \<Longrightarrow>
     nodes s' a = None \<and> g (ext a x s) = Some (ext a x s')) \<Longrightarrow> framed g"
  by (simp add: framed_def)

lemma framedE:
  assumes "framed g" and "nodes s a = None" and "g s = Some s'"
  obtains "nodes s' a = None" and "\<And>x. g (ext a x s) = Some (ext a x s')"
  using assms by (simp add: framed_def)

lemma framed_pairI:
  "(\<And>a x s s' q. nodes s a = None \<Longrightarrow> g s = Some (s', q) \<Longrightarrow>
     nodes s' a = None \<and> g (ext a x s) = Some (ext a x s', q)) \<Longrightarrow> framed_pair g"
  by (simp add: framed_pair_def)

lemma framed_pairE:
  assumes "framed_pair g" and "nodes s a = None" and "g s = Some (s', q)"
  obtains "nodes s' a = None" and "\<And>x. g (ext a x s) = Some (ext a x s', q)"
  using assms by (simp add: framed_pair_def)

lemma deref_ext: "nodes s a = None \<Longrightarrow> deref s p = Some nd \<Longrightarrow> deref (ext a x s) p = Some nd"
  by (cases p) (auto simp: deref_def)

lemma framed_Some [framed_intros]: "framed Some" "framed (\<lambda>t. Some t)"
  by (simp_all add: framed_def)

lemma framed_root [framed_intros]: "framed (\<lambda>t. Some (t\<lparr>m_pRoot := q\<rparr>))"
  by (simp add: framed_def ext_def)

lemma framed_upd [framed_intros]: "framed (\<lambda>t. upd t p f)"
  by (auto simp: framed_def upd_def ext_def fun_upd_twist split: option.splits)

lemma framed_deref [framed_intros]:
  assumes "\<And>nd. framed (g nd)"
  shows "framed (\<lambda>t. Option.bind (deref t p) (\<lambda>nd. g nd t))"
proof (rule framedI)
  fix a x s s'
  assume a: "nodes s a = None" and "Option.bind (deref s p) (\<lambda>nd. g nd s) = Some s'"
  then obtain nd where d: "deref s p = Some nd" and g: "g nd s = Some s'"
    by (auto simp: bind_eq_Some_iff)
  have "nodes s' a = None \<and> g nd (ext a x s) = Some (ext a x s')"
    by (rule framedE [OF assms [of nd] a g]) simp
  then show "nodes s' a = None \<and> Option.bind (deref (ext a x s) p) (\<lambda>nd. g nd (ext a x s)) = Some (ext a x s')"
    using deref_ext [OF a d, of x] by simp
qed

lemma framed_wassert [framed_intros]:
  "framed g \<Longrightarrow> framed (\<lambda>t. Option.bind (wassert b) (\<lambda>u. g t))"
  by (cases b) (simp_all add: wassert_def framed_def [of "\<lambda>t. None"])

lemma framed_bind [framed_intros]:
  assumes f: "framed f" and g: "framed g"
  shows "framed (\<lambda>t. Option.bind (f t) g)"
proof (rule framedI)
  fix a x s s'
  assume a: "nodes s a = None" and "Option.bind (f s) g = Some s'"
  then obtain s1 where s1: "f s = Some s1" and gs: "g s1 = Some s'"
    by (auto simp: bind_eq_Some_iff)
  from f a s1 have "nodes s1 a = None" and fx: "f (ext a x s) = Some (ext a x s1)"
    by (auto elim: framedE)
  with g gs have "nodes s' a = None \<and> g (ext a x s1) = Some (ext a x s')"
    by (blast elim: framedE)
  with fx show "nodes s' a = None \<and> Option.bind (f (ext a x s)) g = Some (ext a x s')"
    by simp
qed

lemma framed_if [framed_intros]:
  "framed f \<Longrightarrow> framed g \<Longrightarrow> framed (\<lambda>t. if b then f t else g t)"
  by (cases b) simp_all

lemma framed_pair_ret [framed_intros]: "framed_pair (\<lambda>t. Some (t, q))"
  by (simp add: framed_pair_def)

lemma framed_pair_deref [framed_intros]:
  assumes "\<And>nd. framed_pair (g nd)"
  shows "framed_pair (\<lambda>t. Option.bind (deref t p) (\<lambda>nd. g nd t))"
proof (rule framed_pairI)
  fix a x s s' q
  assume a: "nodes s a = None" and "Option.bind (deref s p) (\<lambda>nd. g nd s) = Some (s', q)"
  then obtain nd where d: "deref s p = Some nd" and g: "g nd s = Some (s', q)"
    by (auto simp: bind_eq_Some_iff)
  have "nodes s' a = None \<and> g nd (ext a x s) = Some (ext a x s', q)"
    by (rule framed_pairE [OF assms [of nd] a g]) simp
  then show "nodes s' a = None \<and> Option.bind (deref (ext a x s) p) (\<lambda>nd. g nd (ext a x s)) = Some (ext a x s', q)"
    using deref_ext [OF a d, of x] by simp
qed

lemma framed_pair_wassert [framed_intros]:
  "framed_pair g \<Longrightarrow> framed_pair (\<lambda>t. Option.bind (wassert b) (\<lambda>u. g t))"
  by (cases b) (simp_all add: wassert_def framed_pair_def [of "\<lambda>t. None"])

lemma framed_pair_bind [framed_intros]:
  assumes f: "framed f" and g: "framed_pair g"
  shows "framed_pair (\<lambda>t. Option.bind (f t) g)"
proof (rule framed_pairI)
  fix a x s s' q
  assume a: "nodes s a = None" and "Option.bind (f s) g = Some (s', q)"
  then obtain s1 where s1: "f s = Some s1" and gs: "g s1 = Some (s', q)"
    by (auto simp: bind_eq_Some_iff)
  from f a s1 have "nodes s1 a = None" and fx: "f (ext a x s) = Some (ext a x s1)"
    by (auto elim: framedE)
  with g gs have "nodes s' a = None \<and> g (ext a x s1) = Some (ext a x s', q)"
    by (blast elim: framed_pairE)
  with fx show "nodes s' a = None \<and> Option.bind (f (ext a x s)) g = Some (ext a x s', q)"
    by simp
qed

lemma framed_pair_if [framed_intros]:
  "framed_pair f \<Longrightarrow> framed_pair g \<Longrightarrow> framed_pair (\<lambda>t. if b then f t else g t)"
  by (cases b) simp_all

lemma framed_run [framed_intros]:
  assumes f: "framed_pair f" and g: "\<And>q. framed (\<lambda>t. g (t, q))"
  shows "framed (\<lambda>t. Option.bind (f t) g)"
proof (rule framedI)
  fix a x s s'
  assume a: "nodes s a = None" and "Option.bind (f s) g = Some s'"
  then obtain s1 q where s1: "f s = Some (s1, q)" and gs: "g (s1, q) = Some s'"
    by (auto simp: bind_eq_Some_iff)
  from f a s1 have "nodes s1 a = None" and fx: "f (ext a x s) = Some (ext a x s1, q)"
    by (auto elim: framed_pairE)
  with g [of q] gs have "nodes s' a = None \<and> g (ext a x s1, q) = Some (ext a x s')"
    by (blast elim: framedE)
  with fx show "nodes s' a = None \<and> Option.bind (f (ext a x s)) g = Some (ext a x s')"
    by simp
qed

subsection \<open>The link surgery is framed\<close>

lemma framed_set_child [framed_intros]:
  "framed (\<lambda>t. set_child1 t p q)" "framed (\<lambda>t. set_child2 t p q)"
  unfolding set_child1_def set_child2_def by (intro framed_intros)+

lemma framed_rotate [framed_intros]:
  "framed (\<lambda>t. rotate_left t p)" "framed (\<lambda>t. rotate_right t p)"
  unfolding rotate_left_def rotate_right_def Let_def by (intro framed_intros)+

subsection \<open>Unlinking a node\<close>

text \<open>Taking out a node with at most one child: what the heap holds afterwards is the
  smaller tree and, still allocated, the node itself.\<close>

lemma ext_concI:
  assumes "rep (nodes s) NULL t" and "dom (nodes s) = insert a (addr_set t)" and "a \<notin> addr_set t"
    and "nodes s a = Some x" and "m_pRoot s = root_ptr t" and "m_nSize s = m"
  shows "s = ext a x (conc m t)"
proof -
  have "rep ((nodes s)(a := None)) NULL t"
    using assms(1,3) by simp
  moreover have "dom ((nodes s)(a := None)) = addr_set t"
    using assms(2,3) by (metis Diff_insert_absorb dom_fun_upd)
  ultimately have "(nodes s)(a := None) = heap_of NULL t"
    by (rule heap_of_unique)
  then have "nodes s = (heap_of NULL t)(a \<mapsto> x)"
    using assms(4) by (metis fun_upd_triv fun_upd_upd)
  with assms(5,6) show ?thesis by (cases s) (simp add: ext_def conc_def)
qed

lemma ext_surgery:
  assumes "wf_shape t"
    and "\<And>s. m_pRoot s = root_ptr t \<Longrightarrow> m_nSize s = m \<Longrightarrow> rep (nodes s) NULL t \<Longrightarrow>
      dom (nodes s) = addr_set t \<Longrightarrow>
      \<exists>s'. f s = Some s' \<and> rep (nodes s') NULL t' \<and> dom (nodes s') = insert a (addr_set t') \<and>
        a \<notin> addr_set t' \<and> nodes s' a = Some x \<and> m_pRoot s' = root_ptr t' \<and> m_nSize s' = m"
  shows "f (conc m t) = Some (ext a x (conc m t'))"
proof -
  from assms(2) [of "conc m t"] assms(1)
  obtain s' where "f (conc m t) = Some s'" "rep (nodes s') NULL t'"
    "dom (nodes s') = insert a (addr_set t')" "a \<notin> addr_set t'" "nodes s' a = Some x"
    "m_pRoot s' = root_ptr t'" "m_nSize s' = m"
    by (auto simp: rep_heap_of dom_heap_of)
  then show ?thesis by (simp add: ext_concI)
qed

abbreviation node_at :: "('k, 'v, 'e) ctx \<Rightarrow> ('k, 'v, 'e) shape \<Rightarrow> 'k \<times> 'v \<Rightarrow> 'e \<Rightarrow>
    ('k, 'v, 'e) shape \<Rightarrow> ('k, 'v, 'e) bst_node" where
  "node_at c l v e r \<equiv> \<lparr>parent = ctx_ptr NULL c, child1 = root_ptr l, child2 = root_ptr r,
     nd_value = v, extra = e\<rparr>"

lemma set_child1_unlink:
  assumes wf: "wf_shape (plug (Lft c p pv pe s) (Node l n v e r))"
    and k: "l = Leaf \<and> k = r \<or> r = Leaf \<and> k = l"
  shows "set_child1 (conc m (plug (Lft c p pv pe s) (Node l n v e r))) (Some p) (root_ptr k) =
    Some (ext n (node_at (Lft c p pv pe s) l v e r) (conc m (plug (Lft c p pv pe s) k)))"
  apply (rule ext_surgery [OF wf])
  apply (insert wf k, cases k)
  apply (auto simp: surgery_simps intro!: root_ptr_plug_same)
  done

lemma set_child2_unlink:
  assumes wf: "wf_shape (plug (Rgt s p pv pe c) (Node l n v e r))"
    and k: "l = Leaf \<and> k = r \<or> r = Leaf \<and> k = l"
  shows "set_child2 (conc m (plug (Rgt s p pv pe c) (Node l n v e r))) (Some p) (root_ptr k) =
    Some (ext n (node_at (Rgt s p pv pe c) l v e r) (conc m (plug (Rgt s p pv pe c) k)))"
  apply (rule ext_surgery [OF wf])
  apply (insert wf k, cases k)
  apply (auto simp: surgery_simps intro!: root_ptr_plug_same)
  done

text \<open>At the root: the child becomes the root.\<close>

lemma root_unlink:
  assumes wf: "wf_shape (Node l n v e r)" and k: "l = Leaf \<and> k = r \<or> r = Leaf \<and> k = l"
  shows "(if root_ptr k \<noteq> NULL then upd ((conc m (Node l n v e r))\<lparr>m_pRoot := root_ptr k\<rparr>) (root_ptr k)
        (parent_update (\<lambda>_. NULL)) else Some ((conc m (Node l n v e r))\<lparr>m_pRoot := root_ptr k\<rparr>)) =
    Some (ext n (node_at Top l v e r) (conc m k))"
  apply (rule ext_surgery [OF wf])
  apply (insert wf k, cases k)
  apply (auto simp: surgery_simps)
  done

lemma bst_destroy_ext:
  assumes "a \<notin> addr_set t"
  shows "bst_destroy (ext a x (conc m t)) (Some a) = Some (conc m t)"
proof -
  have "(heap_of NULL t)(a := None) = heap_of NULL t"
    using assms by (intro fun_upd_idem) simp
  then show ?thesis by (simp add: bst_destroy_def ext_def conc_def)
qed

end
