(* ===== verification/Bst_Tree.thy ===== *)
theory Bst_Tree
  imports Bst_Frame
begin

text \<open>
  The operations of \<open>bst_tree<P,A>\<close> (\<open>inc/vhwd/collection/detail/bst_tree.h\<close>): the descent
  \<open>handle_real\<close>, the functors it is instantiated with, erasing, copying and clearing. The
  policy \<open>P\<close> enters through its two hooks, \<open>adjust_insert\<close> and \<open>delete_one_child\<close>, which
  are arguments here; the allocator enters through the address it returns and the
  uninitialised \<open>extra\<close> found there.

  An iterator is the pointer \<open>m_pNode\<close>; the other field of an iterator, the address of the
  root pointer, identifies the tree, which is the argument \<open>t\<close> of the iterator functions.
\<close>

type_synonym ('k, 'v, 'e) fixup = "('k, 'v, 'e) bst_tree \<Rightarrow> ptr \<Rightarrow> ('k, 'v, 'e) bst_tree option"

subsection \<open>Descent\<close>

text \<open>A functor \<open>G\<close>: \<open>'a\<close> is what is looked up (a key or a stored pair), \<open>'r\<close> its result type.\<close>

record ('k, 'v, 'e, 'a, 'r) key_functor =
  handle_empty :: "('k, 'v, 'e) bst_tree \<Rightarrow> 'a \<Rightarrow> 'r option"
  handle_node1 :: "('k, 'v, 'e) bst_tree \<Rightarrow> 'a \<Rightarrow> ptr \<Rightarrow> 'r option"
  handle_node2 :: "('k, 'v, 'e) bst_tree \<Rightarrow> 'a \<Rightarrow> ptr \<Rightarrow> 'r option"
  handle_equal :: "('k, 'v, 'e) bst_tree \<Rightarrow> 'a \<Rightarrow> ptr \<Rightarrow> 'r option"
  handle_multi :: "('k, 'v, 'e) bst_tree \<Rightarrow> 'a \<Rightarrow> ptr \<Rightarrow> 'r option"

text \<open>\<open>key\<close> is \<open>P::key\<close> on the argument; \<open>M\<close> selects the multi containers.\<close>

partial_function (option) handle_loop :: "bool \<Rightarrow> ('a \<Rightarrow> 'k::linorder) \<Rightarrow>
    ('k, 'v, 'e, 'a, 'r) key_functor \<Rightarrow> ('k, 'v, 'e) bst_tree \<Rightarrow> 'a \<Rightarrow> ptr \<Rightarrow> 'r option" where
  "handle_loop M key g t v node = do {
     nd \<leftarrow> deref t node;
     if key v < nd_key nd then
       (if child1 nd = NULL then handle_node1 g t v node else handle_loop M key g t v (child1 nd))
     else if nd_key nd < key v then
       (if child2 nd = NULL then handle_node2 g t v node else handle_loop M key g t v (child2 nd))
     else if M then handle_multi g t v node
     else handle_equal g t v node }"

definition handle_real :: "bool \<Rightarrow> ('a \<Rightarrow> 'k::linorder) \<Rightarrow>
    ('k, 'v, 'e, 'a, 'r) key_functor \<Rightarrow> ('k, 'v, 'e) bst_tree \<Rightarrow> 'a \<Rightarrow> 'r option" where
  "handle_real M key g t v =
     (if m_pRoot t = NULL then handle_empty g t v else handle_loop M key g t v (m_pRoot t))"

definition handle_key where "handle_key g t k = handle_real False (\<lambda>k. k) g t k"
definition handle_value where "handle_value g t v = handle_real False fst g t v"
definition handle_multi_key where "handle_multi_key g t k = handle_real True (\<lambda>k. k) g t k"
definition handle_multi_value where "handle_multi_value g t v = handle_real True fst g t v"

subsection \<open>Iterators\<close>

text \<open>\<open>fwd<D>\<close> and \<open>bwd<D>\<close>; stepping an end iterator forward logs a warning and stays.\<close>

definition iter_fwd :: "bool \<Rightarrow> ('k, 'v, 'e) bst_tree \<Rightarrow> ptr \<Rightarrow> ptr option" where
  "iter_fwd D t it = (if it = NULL then Some NULL
     else if D then nd_inc t it else nd_dec t it)"

definition iter_bwd :: "bool \<Rightarrow> ('k, 'v, 'e) bst_tree \<Rightarrow> ptr \<Rightarrow> ptr option" where
  "iter_bwd D t it = (if D
     then (if it \<noteq> NULL then nd_dec t it
           else do { n \<leftarrow> nd_max t (m_pRoot t); wassert (n \<noteq> NULL); Some n })
     else (if it \<noteq> NULL then nd_inc t it
           else do { n \<leftarrow> nd_min t (m_pRoot t); wassert (n \<noteq> NULL); Some n }))"

definition iter_item :: "('k, 'v, 'e) bst_tree \<Rightarrow> ptr \<Rightarrow> ('k \<times> 'v) option" where
  "iter_item t it = do { wassert (it \<noteq> NULL); nd \<leftarrow> deref t it; Some (nd_value nd) }"

definition bst_begin :: "('k, 'v, 'e) bst_tree \<Rightarrow> ptr option" where
  "bst_begin t = nd_min t (m_pRoot t)"

definition bst_rbegin :: "('k, 'v, 'e) bst_tree \<Rightarrow> ptr option" where
  "bst_rbegin t = nd_max t (m_pRoot t)"

definition bst_end :: ptr where
  "bst_end = NULL"

definition bst_size :: "('k, 'v, 'e) bst_tree \<Rightarrow> size_t" where
  "bst_size t = m_nSize t"

subsection \<open>Searching functors\<close>

definition fp_return_iterator :: "('k, 'v, 'e, 'a, ptr) key_functor" where
  "fp_return_iterator = \<lparr>
     handle_empty = \<lambda>t v. Some NULL,
     handle_node1 = \<lambda>t v n. Some NULL,
     handle_node2 = \<lambda>t v n. Some NULL,
     handle_equal = \<lambda>t v n. Some n,
     handle_multi = \<lambda>t v n. Some n\<rparr>"

definition fp_return_node :: "('k, 'v, 'e, 'a, ptr) key_functor" where
  "fp_return_node = \<lparr>
     handle_empty = \<lambda>t v. Some NULL,
     handle_node1 = \<lambda>t v n. Some NULL,
     handle_node2 = \<lambda>t v n. Some NULL,
     handle_equal = \<lambda>t v n. Some n,
     handle_multi = \<lambda>t v n. Some n\<rparr>"

partial_function (option) lower_multi_loop :: "('k::linorder, 'v, 'e) bst_tree \<Rightarrow> 'k \<Rightarrow> ptr \<Rightarrow> ptr option" where
  "lower_multi_loop t v n = do {
     nd \<leftarrow> deref t n;
     if nd_key nd < v then
       (if child2 nd \<noteq> NULL then lower_multi_loop t v (child2 nd) else iter_fwd True t n)
     else (if child1 nd = NULL then Some n else lower_multi_loop t v (child1 nd)) }"

definition lower_handle_multi :: "('k::linorder, 'v, 'e) bst_tree \<Rightarrow> 'k \<Rightarrow> ptr \<Rightarrow> ptr option" where
  "lower_handle_multi t v n = do {
     nd \<leftarrow> deref t n;
     if child1 nd = NULL then Some n else lower_multi_loop t v n }"

definition fp_lower_bound :: "('k::linorder, 'v, 'e, 'k, ptr) key_functor" where
  "fp_lower_bound = \<lparr>
     handle_empty = \<lambda>t v. Some NULL,
     handle_node1 = \<lambda>t v n. Some n,
     handle_node2 = \<lambda>t v n. iter_fwd True t n,
     handle_equal = \<lambda>t v n. Some n,
     handle_multi = lower_handle_multi\<rparr>"

partial_function (option) upper_multi_loop :: "('k::linorder, 'v, 'e) bst_tree \<Rightarrow> 'k \<Rightarrow> ptr \<Rightarrow> ptr option" where
  "upper_multi_loop t v n = do {
     nd \<leftarrow> deref t n;
     if v < nd_key nd then
       (if child1 nd \<noteq> NULL then upper_multi_loop t v (child1 nd) else Some n)
     else (if child2 nd = NULL then iter_fwd True t n else upper_multi_loop t v (child2 nd)) }"

definition upper_handle_multi :: "('k::linorder, 'v, 'e) bst_tree \<Rightarrow> 'k \<Rightarrow> ptr \<Rightarrow> ptr option" where
  "upper_handle_multi t v n = do {
     nd \<leftarrow> deref t n;
     if child2 nd = NULL then iter_fwd True t n else upper_multi_loop t v n }"

definition fp_upper_bound :: "('k::linorder, 'v, 'e, 'k, ptr) key_functor" where
  "fp_upper_bound = \<lparr>
     handle_empty = \<lambda>t v. Some NULL,
     handle_node1 = \<lambda>t v n. Some n,
     handle_node2 = \<lambda>t v n. iter_fwd True t n,
     handle_equal = \<lambda>t v n. iter_fwd True t n,
     handle_multi = upper_handle_multi\<rparr>"

definition fp_equal_range :: "('k::linorder, 'v, 'e, 'k, ptr \<times> ptr) key_functor" where
  "fp_equal_range = \<lparr>
     handle_empty = \<lambda>t v. Some (NULL, NULL),
     handle_node1 = \<lambda>t v n. Some (n, n),
     handle_node2 = \<lambda>t v n. do { it \<leftarrow> iter_fwd True t n; Some (it, it) },
     handle_equal = \<lambda>t v n. do { it \<leftarrow> iter_fwd True t n; Some (n, it) },
     handle_multi = \<lambda>t v n. do {
       l \<leftarrow> lower_handle_multi t v n;
       u \<leftarrow> upper_handle_multi t v n;
       Some (l, u) }\<rparr>"

subsection \<open>Inserting functors\<close>

text \<open>\<open>a\<close> is the address of the new node, \<open>e\<close> the uninitialised contents of its \<open>extra\<close>.
  \<open>fp_insert_pair\<close> counts the node before the fix-up, \<open>fp_insert_node\<close> after it.\<close>

definition insert_pair_adjust :: "('k, 'v, 'e) fixup \<Rightarrow> ('k, 'v, 'e) bst_tree \<Rightarrow> ptr \<Rightarrow>
    (('k, 'v, 'e) bst_tree \<times> ptr \<times> bool) option" where
  "insert_pair_adjust adj t n = do {
     t \<leftarrow> Some (t\<lparr>m_nSize := m_nSize t + 1\<rparr>);
     t \<leftarrow> adj t n;
     Some (t, n, True) }"

definition insert_pair_node1 :: "('k, 'v, 'e) fixup \<Rightarrow> addr \<Rightarrow> 'e \<Rightarrow> ('k, 'v, 'e) bst_tree \<Rightarrow> 'k \<times> 'v \<Rightarrow> ptr \<Rightarrow>
    (('k, 'v, 'e) bst_tree \<times> ptr \<times> bool) option" where
  "insert_pair_node1 adj a e t v p = do {
     t \<leftarrow> set_child1 (bst_construct t a v e) p (Some a);
     insert_pair_adjust adj t (Some a) }"

definition insert_pair_node2 :: "('k, 'v, 'e) fixup \<Rightarrow> addr \<Rightarrow> 'e \<Rightarrow> ('k, 'v, 'e) bst_tree \<Rightarrow> 'k \<times> 'v \<Rightarrow> ptr \<Rightarrow>
    (('k, 'v, 'e) bst_tree \<times> ptr \<times> bool) option" where
  "insert_pair_node2 adj a e t v p = do {
     t \<leftarrow> set_child2 (bst_construct t a v e) p (Some a);
     insert_pair_adjust adj t (Some a) }"

partial_function (option) insert_pair_multi :: "('k::linorder, 'v, 'e) fixup \<Rightarrow> addr \<Rightarrow> 'e \<Rightarrow> ('k, 'v, 'e) bst_tree \<Rightarrow>
    'k \<times> 'v \<Rightarrow> ptr \<Rightarrow> (('k, 'v, 'e) bst_tree \<times> ptr \<times> bool) option" where
  "insert_pair_multi adj a e t v n = do {
     nd \<leftarrow> deref t n;
     if fst v < nd_key nd then
       (if child1 nd = NULL then insert_pair_node1 adj a e t v n
        else insert_pair_multi adj a e t v (child1 nd))
     else
       (if child2 nd = NULL then insert_pair_node2 adj a e t v n
        else insert_pair_multi adj a e t v (child2 nd)) }"

definition fp_insert_pair :: "('k::linorder, 'v, 'e) fixup \<Rightarrow> addr \<Rightarrow> 'e \<Rightarrow>
    ('k, 'v, 'e, 'k \<times> 'v, ('k, 'v, 'e) bst_tree \<times> ptr \<times> bool) key_functor" where
  "fp_insert_pair adj a e = \<lparr>
     handle_empty = \<lambda>t v. insert_pair_adjust adj (bst_construct t a v e) (Some a),
     handle_node1 = insert_pair_node1 adj a e,
     handle_node2 = insert_pair_node2 adj a e,
     handle_equal = \<lambda>t v n. Some (t, n, False),
     handle_multi = insert_pair_multi adj a e\<rparr>"

text \<open>\<open>fp_insert_node\<close> stores the key with the default value \<open>dv\<close> of the mapped type
  (\<open>kv_trait::pair(k)\<close>).\<close>

definition insert_node_adjust :: "('k, 'v, 'e) fixup \<Rightarrow> ('k, 'v, 'e) bst_tree \<Rightarrow> ptr \<Rightarrow>
    (('k, 'v, 'e) bst_tree \<times> ptr) option" where
  "insert_node_adjust adj t n = do {
     t \<leftarrow> adj t n;
     t \<leftarrow> Some (t\<lparr>m_nSize := m_nSize t + 1\<rparr>);
     Some (t, n) }"

definition fp_insert_node :: "('k, 'v, 'e) fixup \<Rightarrow> 'v \<Rightarrow> addr \<Rightarrow> 'e \<Rightarrow>
    ('k, 'v, 'e, 'k, ('k, 'v, 'e) bst_tree \<times> ptr) key_functor" where
  "fp_insert_node adj dv a e = \<lparr>
     handle_empty = \<lambda>t k. insert_node_adjust adj (bst_construct t a (k, dv) e) (Some a),
     handle_node1 = \<lambda>t k p. do {
       t \<leftarrow> set_child1 (bst_construct t a (k, dv) e) p (Some a);
       insert_node_adjust adj t (Some a) },
     handle_node2 = \<lambda>t k p. do {
       t \<leftarrow> set_child2 (bst_construct t a (k, dv) e) p (Some a);
       insert_node_adjust adj t (Some a) },
     handle_equal = \<lambda>t k n. Some (t, n),
     handle_multi = \<lambda>t k n. Some (t, n)\<rparr>"

subsection \<open>Erasing\<close>

text \<open>Exchanging the positions of \<open>n\<close> and \<open>x\<close>, by cases on how they are linked.\<close>

definition relink_parent :: "('k, 'v, 'e) bst_tree \<Rightarrow> ptr \<Rightarrow> ptr \<Rightarrow> ptr \<Rightarrow> ('k, 'v, 'e) bst_tree option" where
  "relink_parent t p n x = (if p \<noteq> NULL then do {
       pd \<leftarrow> deref t p;
       if child1 pd = n then upd t p (child1_update (\<lambda>_. x)) else upd t p (child2_update (\<lambda>_. x)) }
     else Some (t\<lparr>m_pRoot := x\<rparr>))"

definition do_erase_swap_node0 :: "('k, 'v, 'e) bst_tree \<Rightarrow> ptr \<Rightarrow> ptr \<Rightarrow> ('k, 'v, 'e) bst_tree option" where
  "do_erase_swap_node0 t n x = do {
     nd \<leftarrow> deref t n;
     t \<leftarrow> relink_parent t (parent nd) n x;
     xd \<leftarrow> deref t x;
     pd \<leftarrow> deref t (parent xd);
     t \<leftarrow> (if child1 pd = x then upd t (parent xd) (child1_update (\<lambda>_. n))
          else upd t (parent xd) (child2_update (\<lambda>_. n)));
     nd \<leftarrow> deref t n;
     t \<leftarrow> upd t (child1 nd) (parent_update (\<lambda>_. x));
     nd \<leftarrow> deref t n;
     t \<leftarrow> upd t (child2 nd) (parent_update (\<lambda>_. x));
     xd \<leftarrow> deref t x;
     t \<leftarrow> (if child1 xd \<noteq> NULL then upd t (child1 xd) (parent_update (\<lambda>_. n)) else Some t);
     xd \<leftarrow> deref t x;
     t \<leftarrow> (if child2 xd \<noteq> NULL then upd t (child2 xd) (parent_update (\<lambda>_. n)) else Some t);
     nd \<leftarrow> deref t n;
     xd \<leftarrow> deref t x;
     t \<leftarrow> upd t n (\<lambda>r. r\<lparr>parent := parent xd, child1 := child1 xd, child2 := child2 xd\<rparr>);
     t \<leftarrow> upd t x (\<lambda>r. r\<lparr>parent := parent nd, child1 := child1 nd, child2 := child2 nd\<rparr>);
     c1 \<leftarrow> check_node t n;
     wassert c1;
     c2 \<leftarrow> check_node t x;
     wassert c2;
     Some t }"

definition do_erase_swap_node1 :: "('k, 'v, 'e) bst_tree \<Rightarrow> ptr \<Rightarrow> ptr \<Rightarrow> ('k, 'v, 'e) bst_tree option" where
  "do_erase_swap_node1 t n x = do {
     nd \<leftarrow> deref t n;
     xd \<leftarrow> deref t x;
     wassert (child1 nd = x);
     wassert (child2 nd \<noteq> NULL);
     wassert (child2 xd = NULL);
     let p = parent nd;
     t \<leftarrow> upd t x (parent_update (\<lambda>_. p));
     t \<leftarrow> relink_parent t p n x;
     nd \<leftarrow> deref t n;
     t \<leftarrow> upd t x (child2_update (\<lambda>_. child2 nd));
     xd \<leftarrow> deref t x;
     t \<leftarrow> upd t (child2 xd) (parent_update (\<lambda>_. x));
     t \<leftarrow> upd t n (child2_update (\<lambda>_. NULL));
     xd \<leftarrow> deref t x;
     t \<leftarrow> upd t n (child1_update (\<lambda>_. child1 xd));
     nd \<leftarrow> deref t n;
     t \<leftarrow> (if child1 nd \<noteq> NULL then upd t (child1 nd) (parent_update (\<lambda>_. n)) else Some t);
     t \<leftarrow> upd t x (child1_update (\<lambda>_. n));
     t \<leftarrow> upd t n (parent_update (\<lambda>_. x));
     c1 \<leftarrow> check_node t n;
     wassert c1;
     c2 \<leftarrow> check_node t x;
     wassert c2;
     Some t }"

definition do_erase_swap_node2 :: "('k, 'v, 'e) bst_tree \<Rightarrow> ptr \<Rightarrow> ptr \<Rightarrow> ('k, 'v, 'e) bst_tree option" where
  "do_erase_swap_node2 t n x = do {
     nd \<leftarrow> deref t n;
     xd \<leftarrow> deref t x;
     wassert (child2 nd = x);
     wassert (child1 nd \<noteq> NULL);
     wassert (child1 xd = NULL);
     let p = parent nd;
     t \<leftarrow> upd t x (parent_update (\<lambda>_. p));
     t \<leftarrow> relink_parent t p n x;
     nd \<leftarrow> deref t n;
     t \<leftarrow> upd t x (child1_update (\<lambda>_. child1 nd));
     xd \<leftarrow> deref t x;
     t \<leftarrow> upd t (child1 xd) (parent_update (\<lambda>_. x));
     t \<leftarrow> upd t n (child1_update (\<lambda>_. NULL));
     xd \<leftarrow> deref t x;
     t \<leftarrow> upd t n (child2_update (\<lambda>_. child2 xd));
     nd \<leftarrow> deref t n;
     t \<leftarrow> (if child2 nd \<noteq> NULL then upd t (child2 nd) (parent_update (\<lambda>_. n)) else Some t);
     t \<leftarrow> upd t x (child2_update (\<lambda>_. n));
     t \<leftarrow> upd t n (parent_update (\<lambda>_. x));
     c1 \<leftarrow> check_node t n;
     wassert c1;
     c2 \<leftarrow> check_node t x;
     wassert c2;
     Some t }"

definition do_erase_swap_node :: "('k, 'v, 'e) bst_tree \<Rightarrow> ptr \<Rightarrow> ptr \<Rightarrow> ('k, 'v, 'e) bst_tree option" where
  "do_erase_swap_node t n x = do {
     nd \<leftarrow> deref t n;
     xd \<leftarrow> deref t x;
     t \<leftarrow> upd t n (extra_update (\<lambda>_. extra xd));
     t \<leftarrow> upd t x (extra_update (\<lambda>_. extra nd));
     if child2 nd = x then do_erase_swap_node2 t n x
     else if child1 nd = x then do_erase_swap_node1 t n x
     else do_erase_swap_node0 t n x }"

definition do_erase :: "('k, 'v, 'e) fixup \<Rightarrow> ('k, 'v, 'e) bst_tree \<Rightarrow> ptr \<Rightarrow> ('k, 'v, 'e) bst_tree option" where
  "do_erase del t n = do {
     nd \<leftarrow> deref t n;
     t \<leftarrow> (if child1 nd \<noteq> NULL \<and> child2 nd \<noteq> NULL then do {
         x \<leftarrow> nd_max t (child1 nd);
         do_erase_swap_node t n x }
       else Some t);
     t \<leftarrow> del t n;
     Some (t\<lparr>m_nSize := m_nSize t - 1\<rparr>) }"

text \<open>The two loops of \<open>fp_erase::handle_multi\<close>, with the counter.\<close>

partial_function (option) erase_next_loop :: "('k::linorder, 'v, 'e) fixup \<Rightarrow> ('k, 'v, 'e) bst_tree \<Rightarrow> 'k \<Rightarrow> ptr \<Rightarrow>
    size_t \<Rightarrow> (('k, 'v, 'e) bst_tree \<times> size_t) option" where
  "erase_next_loop del t v n num = do {
     x \<leftarrow> nd_inc t n;
     stop \<leftarrow> (if x = NULL then Some True else do { xd \<leftarrow> deref t x; Some (v < nd_key xd) });
     if stop then Some (t, num)
     else do {
       t \<leftarrow> do_erase del t x;
       erase_next_loop del t v n (num + 1) } }"

partial_function (option) erase_prev_loop :: "('k::linorder, 'v, 'e) fixup \<Rightarrow> ('k, 'v, 'e) bst_tree \<Rightarrow> 'k \<Rightarrow> ptr \<Rightarrow>
    size_t \<Rightarrow> (('k, 'v, 'e) bst_tree \<times> size_t) option" where
  "erase_prev_loop del t v n num = do {
     x \<leftarrow> nd_dec t n;
     stop \<leftarrow> (if x = NULL then Some True else do { xd \<leftarrow> deref t x; Some (nd_key xd < v) });
     if stop then Some (t, num)
     else do {
       t \<leftarrow> do_erase del t x;
       erase_prev_loop del t v n (num + 1) } }"

definition fp_erase :: "('k::linorder, 'v, 'e) fixup \<Rightarrow>
    ('k, 'v, 'e, 'k, ('k, 'v, 'e) bst_tree \<times> size_t) key_functor" where
  "fp_erase del = \<lparr>
     handle_empty = \<lambda>t v. Some (t, 0),
     handle_node1 = \<lambda>t v n. Some (t, 0),
     handle_node2 = \<lambda>t v n. Some (t, 0),
     handle_equal = \<lambda>t v n. do { t \<leftarrow> do_erase del t n; Some (t, 1) },
     handle_multi = \<lambda>t v n. do {
       r \<leftarrow> erase_next_loop del t v n 1;
       r \<leftarrow> erase_prev_loop del (fst r) v n (snd r);
       t \<leftarrow> do_erase del (fst r) n;
       Some (t, snd r) }\<rparr>"

text \<open>Erasing at an end iterator logs an error and returns \<open>end()\<close>.\<close>

definition erase_iter :: "('k, 'v, 'e) fixup \<Rightarrow> ('k, 'v, 'e) bst_tree \<Rightarrow> ptr \<Rightarrow>
    (('k, 'v, 'e) bst_tree \<times> ptr) option" where
  "erase_iter del t n = (if n = NULL then Some (t, NULL)
     else do {
       x \<leftarrow> nd_inc t n;
       t \<leftarrow> do_erase del t n;
       Some (t, x) })"

partial_function (option) erase_range :: "('k, 'v, 'e) fixup \<Rightarrow> ('k, 'v, 'e) bst_tree \<Rightarrow> ptr \<Rightarrow> ptr \<Rightarrow>
    (('k, 'v, 'e) bst_tree \<times> ptr) option" where
  "erase_range del t p1 p2 = (if p1 = p2 then Some (t, p2)
     else if p1 = NULL then Some (t, NULL)
     else do {
       q \<leftarrow> iter_fwd True t p1;
       t \<leftarrow> do_erase del t p1;
       erase_range del t q p2 })"

subsection \<open>Whole trees\<close>

definition bst_new :: "('k, 'v, 'e) bst_tree" where
  "bst_new = \<lparr>m_pRoot = NULL, m_nSize = 0, nodes = Map.empty\<rparr>"

partial_function (option) bst_destroy_recursive :: "('k, 'v, 'e) bst_tree \<Rightarrow> ptr \<Rightarrow> ('k, 'v, 'e) bst_tree option" where
  "bst_destroy_recursive t n = (if n = NULL then Some t
     else do {
       nd \<leftarrow> deref t n;
       t \<leftarrow> bst_destroy_recursive t (child1 nd);
       nd \<leftarrow> deref t n;
       t \<leftarrow> bst_destroy_recursive t (child2 nd);
       bst_destroy t n })"

definition bst_clear :: "('k, 'v, 'e) bst_tree \<Rightarrow> ('k, 'v, 'e) bst_tree option" where
  "bst_clear t = do {
     t \<leftarrow> bst_destroy_recursive t (m_pRoot t);
     Some (t\<lparr>m_pRoot := NULL, m_nSize := 0\<rparr>) }"

text \<open>\<open>bst_copy_recursive\<close> on a source tree \<open>s\<close>, into the heap of the new tree \<open>t\<close>; the
  allocator hands out the addresses \<open>k, k + 1, \<dots>\<close>. The result is the new heap, the next
  address and the pointer to the copy. The links to the parents are not set.\<close>

partial_function (option) bst_copy_recursive :: "('k, 'v, 'e) bst_tree \<Rightarrow> ('k, 'v, 'e) bst_tree \<Rightarrow> addr \<Rightarrow> ptr \<Rightarrow>
    (('k, 'v, 'e) bst_tree \<times> addr \<times> ptr) option" where
  "bst_copy_recursive s t k r = (if r = NULL then Some (t, k, NULL)
     else do {
       rd \<leftarrow> deref s r;
       let p = Some k;
       let t = t\<lparr>nodes := (nodes t)(k \<mapsto> copy_node rd)\<rparr>;
       c1 \<leftarrow> bst_copy_recursive s t (k + 1) (child1 rd);
       t \<leftarrow> upd (fst c1) p (child1_update (\<lambda>_. snd (snd c1)));
       c2 \<leftarrow> bst_copy_recursive s t (fst (snd c1)) (child2 rd);
       t \<leftarrow> upd (fst c2) p (child2_update (\<lambda>_. snd (snd c2)));
       Some (t, fst (snd c2), p) })"

definition bst_copy :: "addr \<Rightarrow> ('k, 'v, 'e) bst_tree \<Rightarrow> ('k, 'v, 'e) bst_tree option" where
  "bst_copy k s = do {
     r \<leftarrow> bst_copy_recursive s bst_new k (m_pRoot s);
     Some ((fst r)\<lparr>m_pRoot := snd (snd r), m_nSize := m_nSize s\<rparr>) }"

definition bst_swap :: "('k, 'v, 'e) bst_tree \<Rightarrow> ('k, 'v, 'e) bst_tree \<Rightarrow>
    ('k, 'v, 'e) bst_tree \<times> ('k, 'v, 'e) bst_tree" where
  "bst_swap t o' = (t\<lparr>m_pRoot := m_pRoot o', m_nSize := m_nSize o', nodes := nodes o'\<rparr>,
     o'\<lparr>m_pRoot := m_pRoot t, m_nSize := m_nSize t, nodes := nodes t\<rparr>)"

partial_function (option) depth_real :: "('k, 'v, 'e) bst_tree \<Rightarrow> ptr \<Rightarrow> size_t option" where
  "depth_real t n = (if n = NULL then Some 0 else do {
     nd \<leftarrow> deref t n;
     d1 \<leftarrow> depth_real t (child1 nd);
     d2 \<leftarrow> depth_real t (child2 nd);
     Some (1 + max d1 d2) })"

end
