(* ===== verification/Bst_Swap.thy ===== *)
theory Bst_Swap
  imports Bst_Tree
begin

text \<open>
  \<open>do_erase_swap_node\<close>: exchanging a node that has two children with the rightmost node of
  its left subtree. The nodes keep their addresses and contents and change places, with
  their \<open>extra\<close>, so the shape is that of before with two labels exchanged.
\<close>

lemma swap_node1_conc:
  assumes wf: "wf_shape (plug c (Node (Node A x xv xe Leaf) n nv ne R))" and R: "R \<noteq> Leaf"
  shows "do_erase_swap_node1 (conc m (plug c (Node (Node A x xv xe Leaf) n nv ne R))) (Some n) (Some x)
    = Some (conc m (plug c (Node (Node A n nv ne Leaf) x xv xe R)))"
proof -
  obtain r1 r rv re r2 where R': "R = Node r1 r rv re r2" using R by (cases R) auto
  show ?thesis
    apply (rule conc_surgery [OF wf])
    apply (insert wf, unfold R', cases c; cases A; simp; elim conjE)
    apply (simp_all add: do_erase_swap_node1_def relink_parent_def check_node_def surgery_simps)
    apply (auto intro!: root_ptr_plug_same)
    done
qed

subsection \<open>The rightmost node of the left subtree\<close>

lemma split_rightmost:
  "l \<noteq> Leaf \<Longrightarrow> \<exists>d A x xv xe. l = plug d (Node A x xv xe Leaf) \<and> ctx_after d = []"
proof (induction l)
  case Leaf
  then show ?case by simp
next
  case (Node l a v e r)
  show ?case
  proof (cases "r = Leaf")
    case True
    then show ?thesis by (intro exI [of _ Top]) auto
  next
    case False
    with Node.IH(2) obtain d A x xv xe where d: "r = plug d (Node A x xv xe Leaf)" "ctx_after d = []" by blast
    have "plug (ctx_append (Rgt l a v e Top) d) (Node A x xv xe Leaf) = Node l a v e r"
      by (simp add: plug_ctx_append d(1))
    moreover have "ctx_after (ctx_append (Rgt l a v e Top) d) = []"
      using d(2) by (induction d) auto
    ultimately show ?thesis by metis
  qed
qed

fun ctx_top :: "('k, 'v, 'e) ctx \<Rightarrow> addr" where
  "ctx_top Top = 0"
| "ctx_top (Lft c a v e r) = (if c = Top then a else ctx_top c)"
| "ctx_top (Rgt l a v e c) = (if c = Top then a else ctx_top c)"

lemma root_ptr_plug_top: "d \<noteq> Top \<Longrightarrow> root_ptr (plug d t) = Some (ctx_top d)"
  by (induction d arbitrary: t) (auto split: if_splits)

lemma ctx_top_in: "d \<noteq> Top \<Longrightarrow> ctx_top d \<in> ctx_set d"
  by (induction d) auto

text \<open>Changing the parent above a context.\<close>

lemma rep_ctx_top:
  assumes "rep_ctx h par q d" and "d \<noteq> Top" and "wf_ctx d"
  shows "\<exists>nd. h (ctx_top d) = Some nd \<and> rep_ctx (h(ctx_top d \<mapsto> nd\<lparr>parent := par'\<rparr>)) par' q d"
  using assms
proof (induction d arbitrary: q)
  case Top
  then show ?case by simp
next
  case (Lft c a v e r)
  show ?case
  proof (cases "c = Top")
    case True
    then show ?thesis using Lft.prems by (simp flip: fun_upd_def)
  next
    case False
    then have "ctx_top c \<in> ctx_set c" by (rule ctx_top_in)
    with Lft.prems have "ctx_top c \<noteq> a" "ctx_top c \<notin> addr_set r" by auto
    moreover have "ctx_ptr par c = ctx_ptr par' c" using False by (cases c) auto
    moreover have "rep_ctx h par (Some a) c" "wf_ctx c" using Lft.prems by simp_all
    then obtain nd where "h (ctx_top c) = Some nd"
      "rep_ctx (h(ctx_top c \<mapsto> nd\<lparr>parent := par'\<rparr>)) par' (Some a) c"
      using Lft.IH [OF _ False] by blast
    ultimately show ?thesis using Lft.prems False
      by (intro exI [of _ nd]) (simp flip: fun_upd_def)
  qed
next
  case (Rgt l a v e c)
  show ?case
  proof (cases "c = Top")
    case True
    then show ?thesis using Rgt.prems by (simp flip: fun_upd_def)
  next
    case False
    then have "ctx_top c \<in> ctx_set c" by (rule ctx_top_in)
    with Rgt.prems have "ctx_top c \<noteq> a" "ctx_top c \<notin> addr_set l" by auto
    moreover have "ctx_ptr par c = ctx_ptr par' c" using False by (cases c) auto
    moreover have "rep_ctx h par (Some a) c" "wf_ctx c" using Rgt.prems by simp_all
    then obtain nd where "h (ctx_top c) = Some nd"
      "rep_ctx (h(ctx_top c \<mapsto> nd\<lparr>parent := par'\<rparr>)) par' (Some a) c"
      using Rgt.IH [OF _ False] by blast
    ultimately show ?thesis using Rgt.prems False
      by (intro exI [of _ nd]) (simp flip: fun_upd_def)
  qed
qed

lemma rep_ctx_cong: "(\<And>x. x \<in> ctx_set d \<Longrightarrow> h x = h' x) \<Longrightarrow> rep_ctx h par q d = rep_ctx h' par q d"
  by (induction d arbitrary: q) (auto cong: rep_cong)

lemma swap_node0_conc:
  assumes wf: "wf_shape (plug c (Node (plug (Rgt L q qv qe d) (Node A x xv xe Leaf)) n nv ne R))" and R: "R \<noteq> Leaf"
  shows "do_erase_swap_node0 (conc m (plug c (Node (plug (Rgt L q qv qe d) (Node A x xv xe Leaf)) n nv ne R))) (Some n) (Some x)
    = Some (conc m (plug c (Node (plug (Rgt L q qv qe d) (Node A n nv ne Leaf)) x xv xe R)))"
proof -
  obtain r1 r rv re r2 where R': "R = Node r1 r rv re r2" using R by (cases R) auto
  show ?thesis
  proof (cases "d = Top")
    case True
    show ?thesis
      apply (rule conc_surgery [OF wf])
      apply (insert wf, unfold R' True, cases c; cases A; simp; elim conjE)
      apply (simp_all add: do_erase_swap_node0_def relink_parent_def check_node_def surgery_simps)
      apply (auto intro!: root_ptr_plug_same)
      done
  next
    case False
    show ?thesis
    proof (rule conc_surgery [OF wf])
      fix s :: "('a, 'b, 'c) bst_tree"
      assume s: "m_pRoot s = root_ptr (plug c (Node (plug (Rgt L q qv qe d) (Node A x xv xe Leaf)) n nv ne R))"
        "m_nSize s = m"
        "rep (nodes s) NULL (plug c (Node (plug (Rgt L q qv qe d) (Node A x xv xe Leaf)) n nv ne R))"
        "dom (nodes s) = addr_set (plug c (Node (plug (Rgt L q qv qe d) (Node A x xv xe Leaf)) n nv ne R))"
      then have rd: "rep_ctx (nodes s) (Some n) (Some q) d" by simp
      have "wf_ctx d" using wf by simp
      from rep_ctx_top [OF rd False this, of "Some x"] obtain nd
        where nd: "nodes s (ctx_top d) = Some nd"
          "rep_ctx ((nodes s)(ctx_top d \<mapsto> nd\<lparr>parent := Some x\<rparr>)) (Some x) (Some q) d" by blast
      have top: "ctx_top d \<in> ctx_set d" using False by (rule ctx_top_in)
      have fr: "ctx_top d \<notin> ctx_set c" "ctx_top d \<noteq> n" "ctx_top d \<noteq> x" "ctx_top d \<noteq> q" "ctx_top d \<noteq> r"
        "ctx_top d \<notin> addr_set L" "ctx_top d \<notin> addr_set A" "ctx_top d \<notin> addr_set r1" "ctx_top d \<notin> addr_set r2"
        using wf top R' by auto
      have cp: "ctx_ptr (Some n) d = ctx_ptr (Some x) d" using False by (cases d) auto
      have R: "rep_ctx h' (Some x) (Some q) d"
        if "\<And>y. y \<in> ctx_set d \<Longrightarrow> h' y = ((nodes s)(ctx_top d \<mapsto> nd\<lparr>parent := Some x\<rparr>)) y" for h'
        using rep_ctx_cong [where d = d and h = h' and h' = "(nodes s)(ctx_top d \<mapsto> nd\<lparr>parent := Some x\<rparr>)"] that nd(2)
        by blast
      note rt = root_ptr_plug_top [OF False]
      show "\<exists>s'. do_erase_swap_node0 s (Some n) (Some x) = Some s' \<and>
          m_pRoot s' = root_ptr (plug c (Node (plug (Rgt L q qv qe d) (Node A n nv ne Leaf)) x xv xe R)) \<and>
          m_nSize s' = m \<and>
          rep (nodes s') NULL (plug c (Node (plug (Rgt L q qv qe d) (Node A n nv ne Leaf)) x xv xe R)) \<and>
          dom (nodes s') = addr_set (plug c (Node (plug (Rgt L q qv qe d) (Node A n nv ne Leaf)) x xv xe R))"
        apply (insert wf s nd fr cp rt, unfold R', cases c; cases A; simp; elim conjE)
        apply (simp_all add: do_erase_swap_node0_def relink_parent_def check_node_def surgery_simps)
        apply (insert top)
        apply (auto intro!: root_ptr_plug_same R)
        done
    qed
  qed
qed

subsection \<open>The exchange\<close>

text \<open>The shape up to addresses and contents: what a balance invariant may depend on.\<close>

fun skel :: "('k, 'v, 'e) shape \<Rightarrow> (unit, unit, 'e) shape" where
  "skel Leaf = Leaf"
| "skel (Node l a v e r) = Node (skel l) 0 ((), ()) e (skel r)"

lemma skel_plug_cong: "skel t = skel t' \<Longrightarrow> skel (plug c t) = skel (plug c t')"
  by (induction c arbitrary: t t') auto

lemma swap_node_conc:
  assumes wf: "wf_shape (plug c (Node (plug d (Node A x xv xe Leaf)) n nv ne R))"
    and R: "R \<noteq> Leaf" and d: "ctx_after d = []"
  shows "do_erase_swap_node (conc m (plug c (Node (plug d (Node A x xv xe Leaf)) n nv ne R))) (Some n) (Some x)
    = Some (conc m (plug c (Node (plug d (Node A n nv xe Leaf)) x xv ne R)))"
proof -
  let ?T = "\<lambda>e1 e2. plug c (Node (plug d (Node A x xv e1 Leaf)) n nv e2 R)"
  have wf': "\<And>e1 e2. wf_shape (?T e1 e2)" using wf by simp
  have P: "\<And>e1 e2. ?T e1 e2 = plug (ctx_append (Lft c n nv e2 R) d) (Node A x xv e1 Leaf)"
    by (simp add: plug_ctx_append)
  have nd: "deref (conc m (?T xe ne)) (Some n) = Some (node_at c (plug d (Node A x xv xe Leaf)) nv ne R)"
    using wf by (simp add: heap_simps)
  have xd: "deref (conc m (?T xe ne)) (Some x) = Some (node_at (ctx_append (Lft c n nv ne R) d) A xv xe Leaf)"
    using nodes_plug [OF wf' [unfolded P]] unfolding P by (simp add: deref_def)
  have u1: "upd (conc m (?T xe ne)) (Some n) (extra_update (\<lambda>_. xe)) = Some (conc m (?T xe xe))"
    by (rule upd_extra_conc [OF wf'])
  have u2: "upd (conc m (?T xe xe)) (Some x) (extra_update (\<lambda>_. ne)) = Some (conc m (?T ne xe))"
    unfolding P by (rule upd_extra_conc [OF wf' [unfolded P]])
  have xR: "root_ptr R \<noteq> Some x" using wf by auto
  have s: "do_erase_swap_node (conc m (?T xe ne)) (Some n) (Some x) =
      (if root_ptr (plug d (Node A x xv xe Leaf)) = Some x then do_erase_swap_node1 (conc m (?T ne xe)) (Some n) (Some x)
       else do_erase_swap_node0 (conc m (?T ne xe)) (Some n) (Some x))"
    unfolding do_erase_swap_node_def by (simp add: nd xd u1 u2 xR)
  show ?thesis
  proof (cases d)
    case Top
    then show ?thesis using s swap_node1_conc [of c A x xv ne n nv xe R m] wf' R by simp
  next
    case (Lft d' q qv qe r)
    then show ?thesis using d by simp
  next
    case (Rgt L q qv qe d')
    have "root_ptr (plug d (Node A x xv xe Leaf)) \<noteq> Some x"
      using root_ptr_plug_top [of d] ctx_top_in [of d] wf Rgt by auto
    then show ?thesis using s swap_node0_conc [of c L q qv qe d' A x xv ne n nv xe R m] wf' R Rgt by simp
  qed
qed

end
