(* ===== verification/Bst_Search.thy ===== *)
theory Bst_Search
  imports Bst_Tree
begin

text \<open>
  Searching. The lemmas of this theory hold for every ordered tree, whatever the policy:
  where the descent of \<open>handle_real\<close> ends, and what \<open>find\<close>, \<open>lower_bound\<close>, \<open>upper_bound\<close>
  and \<open>equal_range\<close> return, on the in-order list of the entries.
\<close>

definition keys :: "(addr \<times> 'k \<times> 'v) list \<Rightarrow> 'k list" where
  "keys es = map (\<lambda>x. fst (snd x)) es"

lemma keys_simps [simp]:
  "keys [] = []" "keys (x # es) = fst (snd x) # keys es" "keys (es @ fs) = keys es @ keys fs"
  by (simp_all add: keys_def)

lemma set_keys: "set (keys es) = (\<lambda>x. fst (snd x)) ` set es"
  by (simp add: keys_def)

text \<open>The tree object \<open>T\<close> holds the entries \<open>es\<close>, in the order of their keys, in a shape that
  satisfies \<open>pinv\<close>; the size field counts them.\<close>

definition represents :: "(('k::linorder, 'v, 'e) shape \<Rightarrow> bool) \<Rightarrow> ('k, 'v, 'e) bst_tree \<Rightarrow>
    (addr \<times> 'k \<times> 'v) list \<Rightarrow> bool" where
  "represents pinv T es \<longleftrightarrow> (\<exists>t. T = conc (of_nat (length es)) t \<and> wf_shape t \<and> pinv t \<and>
     entries t = es \<and> sorted (keys es))"

lemma representsI:
  "wf_shape t \<Longrightarrow> pinv t \<Longrightarrow> entries t = es \<Longrightarrow> sorted (keys es) \<Longrightarrow>
   represents pinv (conc (of_nat (length es)) t) es"
  by (auto simp: represents_def)

lemma representsE:
  assumes "represents pinv T es"
  obtains t where "T = conc (of_nat (length es)) t" and "wf_shape t" and "pinv t" and "entries t = es"
    and "sorted (keys es)"
  using assms by (auto simp: represents_def)

subsection \<open>Where a descent ends\<close>

definition all_less :: "(addr \<times> 'k::linorder \<times> 'v) list \<Rightarrow> 'k \<Rightarrow> bool" where
  "all_less es k \<longleftrightarrow> (\<forall>x \<in> set (keys es). x < k)"

definition all_greater :: "(addr \<times> 'k::linorder \<times> 'v) list \<Rightarrow> 'k \<Rightarrow> bool" where
  "all_greater es k \<longleftrightarrow> (\<forall>x \<in> set (keys es). k < x)"

lemma all_less_simps [simp]:
  "all_less [] k" "all_less (x # es) k \<longleftrightarrow> fst (snd x) < k \<and> all_less es k"
  "all_less (es @ fs) k \<longleftrightarrow> all_less es k \<and> all_less fs k"
  by (auto simp: all_less_def)

lemma all_greater_simps [simp]:
  "all_greater [] k" "all_greater (x # es) k \<longleftrightarrow> k < fst (snd x) \<and> all_greater es k"
  "all_greater (es @ fs) k \<longleftrightarrow> all_greater es k \<and> all_greater fs k"
  by (auto simp: all_greater_def)

lemma all_lessD: "all_less es k \<Longrightarrow> (a, j, v) \<in> set es \<Longrightarrow> j < k"
  by (force simp: all_less_def set_keys)

lemma all_greaterD: "all_greater es k \<Longrightarrow> (a, j, v) \<in> set es \<Longrightarrow> k < j"
  by (force simp: all_greater_def set_keys)

lemma sorted_all_less:
  "sorted (keys (xs @ (a, v) # ys)) \<Longrightarrow> fst v < k \<Longrightarrow> all_less xs k"
  by (auto simp: all_less_def sorted_append)

lemma sorted_all_greater:
  "sorted (keys (xs @ (a, v) # ys)) \<Longrightarrow> k < fst v \<Longrightarrow> all_greater ys k"
  by (auto simp: all_greater_def sorted_append)

text \<open>The five ways in which the descent for \<open>k\<close> ends, on a tree \<open>t\<close>.\<close>

lemma handle_loop_plug:
  assumes "wf_shape (plug c t)" and "t \<noteq> Leaf" and "sorted (keys (entries (plug c t)))"
    and "all_less (ctx_before c) (key v)" and "all_greater (ctx_after c) (key v)"
  obtains (node1) d a av e r where "plug c t = plug d (Node Leaf a av e r)" and "key v < fst av"
      and "all_less (ctx_before d) (key v)"
      and "handle_loop M key g (conc m (plug c t)) v (root_ptr t) = handle_node1 g (conc m (plug c t)) v (Some a)"
  | (node2) d l a av e where "plug c t = plug d (Node l a av e Leaf)" and "fst av < key v"
      and "all_greater (ctx_after d) (key v)"
      and "handle_loop M key g (conc m (plug c t)) v (root_ptr t) = handle_node2 g (conc m (plug c t)) v (Some a)"
  | (equal) d l a av e r where "plug c t = plug d (Node l a av e r)" and "fst av = key v"
      and "all_less (ctx_before d) (key v)" and "all_greater (ctx_after d) (key v)"
      and "handle_loop M key g (conc m (plug c t)) v (root_ptr t) =
        (if M then handle_multi g (conc m (plug c t)) v (Some a) else handle_equal g (conc m (plug c t)) v (Some a))"
  using assms
proof (induction t arbitrary: c thesis)
  case Leaf
  then show ?case by simp
next
  case (Node l a av e r)
  let ?T = "conc m (plug c (Node l a av e r))"
  have nd: "deref ?T (Some a) = Some (node_at c l av e r)" using Node.prems(4) by (simp add: heap_simps)
  have step: "handle_loop M key g ?T v (Some a) =
      (if key v < fst av then
         (if l = Leaf then handle_node1 g ?T v (Some a) else handle_loop M key g ?T v (root_ptr l))
       else if fst av < key v then
         (if r = Leaf then handle_node2 g ?T v (Some a) else handle_loop M key g ?T v (root_ptr r))
       else if M then handle_multi g ?T v (Some a)
       else handle_equal g ?T v (Some a))"
    by (subst handle_loop.simps) (simp add: nd nd_key_def)
  note srt = Node.prems(6)
  consider "key v < fst av" "l = Leaf" | "key v < fst av" "l \<noteq> Leaf" | "fst av < key v" "r = Leaf"
    | "fst av < key v" "r \<noteq> Leaf" | "fst av = key v"
    by fastforce
  then show ?case
  proof cases
    case 1
    then show ?thesis
      using Node.prems step srt sorted_all_greater [of "ctx_before c" a av "entries r @ ctx_after c" "key v"]
      by (intro Node.prems(1) [of c a av e r]) auto
  next
    case 3
    then show ?thesis
      using Node.prems step srt sorted_all_less [of "ctx_before c @ entries l" a av "ctx_after c" "key v"]
      by (intro Node.prems(2) [of c l a av e]) auto
  next
    case 5
    then show ?thesis using Node.prems step by (intro Node.prems(3) [of c l a av e r]) auto
  next
    case 2
    have "all_greater (ctx_after (Lft c a av e r)) (key v)"
      using 2 Node.prems(8) srt sorted_all_greater [of "ctx_before c @ entries l" a av "entries r @ ctx_after c" "key v"]
      by simp
    note gr = this
    have L: "plug (Lft c a av e r) l = plug c (Node l a av e r)" by simp
    have st: "handle_loop M key g ?T v (root_ptr l) = handle_loop M key g ?T v (root_ptr (Node l a av e r))"
      using step 2 by simp
    show ?thesis
      by (rule Node.IH(1) [of "Lft c a av e r" thesis, unfolded L st, OF Node.prems(1-3)])
        (use 2 gr Node.prems(4-7) in simp_all)
  next
    case 4
    have "all_less (ctx_before (Rgt l a av e c)) (key v)"
      using 4 Node.prems(7) srt sorted_all_less [of "ctx_before c @ entries l" a av "entries r @ ctx_after c" "key v"]
      by simp
    note le = this
    have L: "plug (Rgt l a av e c) r = plug c (Node l a av e r)" by simp
    have st: "handle_loop M key g ?T v (root_ptr r) = handle_loop M key g ?T v (root_ptr (Node l a av e r))"
      using step 4 less_not_sym [of "fst av" "key v"] by simp
    show ?thesis
      by (rule Node.IH(2) [of "Rgt l a av e c" thesis, unfolded L st, OF Node.prems(1-3)])
        (use 4 le Node.prems(4-8) in simp_all)
  qed
qed

subsection \<open>Lists in the order of their keys\<close>

lemma dropWhile_split:
  assumes "\<And>x. x \<in> set xs \<Longrightarrow> P x" and "ys = [] \<or> \<not> P (hd ys)"
  shows "dropWhile P (xs @ ys) = ys"
  using assms by (cases ys) (auto simp: dropWhile_append2)

lemma filter_key_split:
  assumes "all_less xs k" and "all_greater zs k" and "\<And>y. y \<in> set ys \<Longrightarrow> fst (snd y) = k"
  shows "filter (\<lambda>x. fst (snd x) = k) (xs @ ys @ zs) = ys"
proof -
  have "filter (\<lambda>x. fst (snd x) = k) xs = []" "filter (\<lambda>x. fst (snd x) = k) zs = []"
    using assms(1,2) by (auto simp: filter_empty_conv all_less_def all_greater_def set_keys)
  moreover have "filter (\<lambda>x. fst (snd x) = k) ys = ys"
    using assms(3) by (intro filter_True) blast
  ultimately show ?thesis by simp
qed

definition lower_ptr :: "(addr \<times> 'k::linorder \<times> 'v) list \<Rightarrow> 'k \<Rightarrow> ptr" where
  "lower_ptr es k = hd_ptr (dropWhile (\<lambda>x. fst (snd x) < k) es)"

definition upper_ptr :: "(addr \<times> 'k::linorder \<times> 'v) list \<Rightarrow> 'k \<Rightarrow> ptr" where
  "upper_ptr es k = hd_ptr (dropWhile (\<lambda>x. fst (snd x) \<le> k) es)"

lemma lower_ptr_split:
  assumes "all_less xs k" and "ys = [] \<or> k \<le> fst (snd (hd ys))"
  shows "lower_ptr (xs @ ys) k = hd_ptr ys"
  unfolding lower_ptr_def
  by (subst dropWhile_split) (use assms in \<open>auto simp: all_less_def set_keys\<close>)

lemma upper_ptr_split:
  assumes "all_greater ys k" and "\<And>x. x \<in> set xs \<Longrightarrow> fst (snd x) \<le> k"
  shows "upper_ptr (xs @ ys) k = hd_ptr ys"
  unfolding upper_ptr_def
  by (subst dropWhile_split) (use assms in \<open>cases ys; auto\<close>)+

text \<open>The first entry with key \<open>k\<close>, as an iterator.\<close>

definition key_ptr :: "(addr \<times> 'k \<times> 'v) list \<Rightarrow> 'k \<Rightarrow> ptr" where
  "key_ptr es k = hd_ptr (filter (\<lambda>x. fst (snd x) = k) es)"

subsection \<open>Searching\<close>

text \<open>What a descent sees, on the entries: the same three cases as \<open>handle_loop_plug\<close>, and the
  empty tree.\<close>

lemma handle_real_cases:
  assumes R: "represents pinv T es"
  obtains (empty) "es = []" and "handle_real M key g T v = handle_empty g T v"
  | (node1) t d a av e r where "T = conc (of_nat (length es)) t" and "wf_shape t" and "pinv t"
      and "entries t = es" and "t = plug d (Node Leaf a av e r)" and "key v < fst av"
      and "all_less (ctx_before d) (key v)" and "all_greater (entries r @ ctx_after d) (key v)"
      and "handle_real M key g T v = handle_node1 g T v (Some a)"
  | (node2) t d l a av e where "T = conc (of_nat (length es)) t" and "wf_shape t" and "pinv t"
      and "entries t = es" and "t = plug d (Node l a av e Leaf)" and "fst av < key v"
      and "all_less (ctx_before d @ entries l) (key v)" and "all_greater (ctx_after d) (key v)"
      and "handle_real M key g T v = handle_node2 g T v (Some a)"
  | (equal) t d l a av e r where "T = conc (of_nat (length es)) t" and "wf_shape t" and "pinv t"
      and "entries t = es" and "t = plug d (Node l a av e r)" and "fst av = key v"
      and "all_less (ctx_before d) (key v)" and "all_greater (ctx_after d) (key v)"
      and "handle_real M key g T v =
        (if M then handle_multi g T v (Some a) else handle_equal g T v (Some a))"
proof -
  obtain t where t: "T = conc (of_nat (length es)) t" "wf_shape t" "pinv t" "entries t = es"
    "sorted (keys es)"
    using R by (rule representsE)
  show thesis
  proof (cases "t = Leaf")
    case True
    with t show thesis by (intro empty) (auto simp: handle_real_def)
  next
    case False
    have hr: "handle_real M key g T v = handle_loop M key g (conc (of_nat (length es)) (plug Top t)) v (root_ptr t)"
      using False t(1) by (simp add: handle_real_def)
    have w: "wf_shape (plug Top t)" "sorted (keys (entries (plug Top t)))"
      "all_less (ctx_before Top) (key v)" "all_greater (ctx_after Top) (key v)"
      using t by simp_all
    note t' = t(1-4)
    show thesis
    proof (rule handle_loop_plug [where key = key and v = v and M = M and g = g and
          m = "of_nat (length es)", OF w(1) False w(2-4)])
      fix d a av e r
      assume a: "plug Top t = plug d (Node Leaf a av e r)" "key v < fst av" "all_less (ctx_before d) (key v)"
        "handle_loop M key g (conc (of_nat (length es)) (plug Top t)) v (root_ptr t)
          = handle_node1 g (conc (of_nat (length es)) (plug Top t)) v (Some a)"
      moreover from a t have "all_greater (entries r @ ctx_after d) (key v)"
        by (intro sorted_all_greater [of "ctx_before d" a av]) auto
      ultimately show thesis using t' hr by (intro node1 [of t d a av e r]) simp_all
    next
      fix d l a av e
      assume a: "plug Top t = plug d (Node l a av e Leaf)" "fst av < key v" "all_greater (ctx_after d) (key v)"
        "handle_loop M key g (conc (of_nat (length es)) (plug Top t)) v (root_ptr t)
          = handle_node2 g (conc (of_nat (length es)) (plug Top t)) v (Some a)"
      moreover from a t have "all_less (ctx_before d @ entries l) (key v)"
        by (intro sorted_all_less [of "ctx_before d @ entries l" a av "ctx_after d"]) auto
      ultimately show thesis using t' hr by (intro node2 [of t d l a av e]) simp_all
    next
      fix d l a av e r
      assume "plug Top t = plug d (Node l a av e r)" "fst av = key v" "all_less (ctx_before d) (key v)"
        "all_greater (ctx_after d) (key v)"
        "handle_loop M key g (conc (of_nat (length es)) (plug Top t)) v (root_ptr t) =
          (if M then handle_multi g (conc (of_nat (length es)) (plug Top t)) v (Some a)
           else handle_equal g (conc (of_nat (length es)) (plug Top t)) v (Some a))"
      then show thesis using t' hr by (intro equal [of t d l a av e r]) simp_all
    qed
  qed
qed

lemma iter_fwd_conc:
  assumes "entries t = xs @ (a, v) # ys" and "wf_shape t"
  shows "iter_fwd True (conc m t) (Some a) = Some (hd_ptr ys)"
  using nd_inc_conc [OF assms, of m] by (simp add: iter_fwd_def)

lemma distinct_keys_split:
  assumes "sorted (keys (xs @ (a, v) # ys))" and "distinct (keys (xs @ (a, v) # ys))"
  shows "all_less xs (fst v)" and "all_greater ys (fst v)"
  using assms by (auto simp: all_less_def all_greater_def sorted_append order.strict_iff_order)

lemma represents_sorted: "represents pinv T es \<Longrightarrow> sorted (keys es)"
  by (auto simp: represents_def)

text \<open>\<open>find\<close>, in any container: the result has the key, and is the end iterator exactly when
  no entry has it.\<close>

lemma find_ok:
  assumes "represents pinv T es"
  shows "\<exists>it. handle_key fp_return_iterator T k = Some it \<and>
    (if k \<in> set (keys es) then \<exists>a v. it = Some a \<and> (a, k, v) \<in> set es else it = NULL)"
  using assms
proof (cases rule: handle_real_cases [where M = False and key = "\<lambda>k. k" and v = k and g = fp_return_iterator])
  case empty
  then show ?thesis by (simp add: handle_key_def fp_return_iterator_def)
next
  case (node1 t d a av e r)
  then have "k \<notin> set (keys es)" by (auto simp: all_less_def all_greater_def)
  with node1 show ?thesis by (simp add: handle_key_def fp_return_iterator_def)
next
  case (node2 t d l a av e)
  then have "k \<notin> set (keys es)" by (auto simp: all_less_def all_greater_def)
  with node2 show ?thesis by (simp add: handle_key_def fp_return_iterator_def)
next
  case (equal t d l a av e r)
  then have "es = (ctx_before d @ entries l) @ (a, av) # entries r @ ctx_after d" by auto
  then have "k \<in> set (keys es)" "(a, k, snd av) \<in> set es" using equal by auto
  with equal show ?thesis by (auto simp: handle_key_def fp_return_iterator_def)
qed

text \<open>With distinct keys the result is the entry with the key.\<close>

lemma find_unique:
  assumes R: "represents pinv T es" and D: "distinct (keys es)"
  shows "handle_key fp_return_iterator T k = Some (key_ptr es k)"
proof -
  obtain it where it: "handle_key fp_return_iterator T k = Some it"
    "if k \<in> set (keys es) then \<exists>a v. it = Some a \<and> (a, k, v) \<in> set es else it = NULL"
    using find_ok [OF R, of k] by blast
  show ?thesis
  proof (cases "k \<in> set (keys es)")
    case False
    then have "filter (\<lambda>x. fst (snd x) = k) es = []"
      by (auto simp: filter_empty_conv set_keys)
    with it False show ?thesis by (simp add: key_ptr_def)
  next
    case True
    with it obtain a v where a: "it = Some a" "(a, k, v) \<in> set es" by auto
    then obtain xs ys where es: "es = xs @ (a, k, v) # ys" by (meson split_list)
    have "filter (\<lambda>x. fst (snd x) = k) (xs @ [(a, k, v)] @ ys) = [(a, k, v)]"
      by (rule filter_key_split)
        (use distinct_keys_split [of xs a "(k, v)" ys] represents_sorted [OF R] D es in auto)
    with it a es show ?thesis by (simp add: key_ptr_def)
  qed
qed

lemma find_node_eq_iterator: "handle_key fp_return_node T k = handle_key fp_return_iterator T k"
  by (simp add: fp_return_node_def fp_return_iterator_def)

lemma lower_bound_unique:
  assumes R: "represents pinv T es" and D: "distinct (keys es)"
  shows "handle_key fp_lower_bound T k = Some (lower_ptr es k)"
  using R
proof (cases rule: handle_real_cases [where M = False and key = "\<lambda>k. k" and v = k and g = fp_lower_bound])
  case empty
  then show ?thesis by (simp add: handle_key_def fp_lower_bound_def lower_ptr_def)
next
  case (node1 t d a av e r)
  then have "es = ctx_before d @ (a, av) # entries r @ ctx_after d" by auto
  with node1 show ?thesis
    using lower_ptr_split [of "ctx_before d" k "(a, av) # entries r @ ctx_after d"]
    by (simp add: handle_key_def fp_lower_bound_def)
next
  case (node2 t d l a av e)
  then have es: "es = (ctx_before d @ entries l @ [(a, av)]) @ ctx_after d" by auto
  have "iter_fwd True T (Some a) = Some (hd_ptr (ctx_after d))"
    using node2 by (auto intro!: iter_fwd_conc [of _ "ctx_before d @ entries l"])
  moreover have "lower_ptr es k = hd_ptr (ctx_after d)"
    unfolding es by (rule lower_ptr_split) (use node2 in \<open>cases "ctx_after d"; auto\<close>)+
  ultimately show ?thesis using node2 by (simp add: handle_key_def fp_lower_bound_def)
next
  case (equal t d l a av e r)
  then have es: "es = (ctx_before d @ entries l) @ (a, av) # entries r @ ctx_after d" by auto
  have "all_less (ctx_before d @ entries l) k"
    using distinct_keys_split(1) [of "ctx_before d @ entries l" a av "entries r @ ctx_after d"]
      represents_sorted [OF R] D equal es by simp
  then have "lower_ptr es k = Some a"
    unfolding es by (subst lower_ptr_split) (use equal in auto)
  with equal show ?thesis by (simp add: handle_key_def fp_lower_bound_def)
qed

lemma upper_bound_unique:
  assumes R: "represents pinv T es" and D: "distinct (keys es)"
  shows "handle_key fp_upper_bound T k = Some (upper_ptr es k)"
  using R
proof (cases rule: handle_real_cases [where M = False and key = "\<lambda>k. k" and v = k and g = fp_upper_bound])
  case empty
  then show ?thesis by (simp add: handle_key_def fp_upper_bound_def upper_ptr_def)
next
  case (node1 t d a av e r)
  then have es: "es = ctx_before d @ (a, av) # entries r @ ctx_after d" by auto
  have "upper_ptr es k = hd_ptr ((a, av) # entries r @ ctx_after d)"
    unfolding es by (rule upper_ptr_split) (use node1 in \<open>auto dest: all_lessD\<close>)
  with node1 show ?thesis by (simp add: handle_key_def fp_upper_bound_def)
next
  case (node2 t d l a av e)
  then have es: "es = (ctx_before d @ entries l @ [(a, av)]) @ ctx_after d" by auto
  have "iter_fwd True T (Some a) = Some (hd_ptr (ctx_after d))"
    using node2 by (auto intro!: iter_fwd_conc [of _ "ctx_before d @ entries l"])
  moreover have "upper_ptr es k = hd_ptr (ctx_after d)"
    unfolding es by (rule upper_ptr_split) (use node2 in \<open>auto dest: all_lessD\<close>)
  ultimately show ?thesis using node2 by (simp add: handle_key_def fp_upper_bound_def)
next
  case (equal t d l a av e r)
  then have es: "es = (ctx_before d @ entries l @ [(a, av)]) @ entries r @ ctx_after d" by auto
  have ord: "all_less (ctx_before d @ entries l) k" "all_greater (entries r @ ctx_after d) k"
    using distinct_keys_split [of "ctx_before d @ entries l" a av "entries r @ ctx_after d"]
      represents_sorted [OF R] D equal es by simp_all
  have "iter_fwd True T (Some a) = Some (hd_ptr (entries r @ ctx_after d))"
    using equal by (auto intro!: iter_fwd_conc [of _ "ctx_before d @ entries l"])
  moreover have "upper_ptr es k = hd_ptr (entries r @ ctx_after d)"
    unfolding es by (rule upper_ptr_split) (use equal ord in \<open>auto dest: all_lessD\<close>)
  ultimately show ?thesis using equal by (simp add: handle_key_def fp_upper_bound_def)
qed

subsection \<open>Searching with equal keys\<close>

lemma lower_multi_loop_plug:
  assumes "wf_shape (plug c t)" and "t \<noteq> Leaf" and "sorted (keys (entries (plug c t)))"
    and "all_less (ctx_before c) k" and "\<forall>x \<in> set (keys (ctx_after c)). k \<le> x"
  shows "lower_multi_loop (conc m (plug c t)) k (root_ptr t) = Some (lower_ptr (entries (plug c t)) k)"
  using assms
proof (induction t arbitrary: c)
  case Leaf
  then show ?case by simp
next
  case (Node l a av e r)
  let ?T = "conc m (plug c (Node l a av e r))"
  have nd: "deref ?T (Some a) = Some (node_at c l av e r)" using Node.prems(1) by (simp add: heap_simps)
  have step: "lower_multi_loop ?T k (Some a) = (if fst av < k
      then (if r \<noteq> Leaf then lower_multi_loop ?T k (root_ptr r) else iter_fwd True ?T (Some a))
      else (if l = Leaf then Some (Some a) else lower_multi_loop ?T k (root_ptr l)))"
    by (subst lower_multi_loop.simps) (simp add: nd nd_key_def)
  have srt: "sorted (keys ((ctx_before c @ entries l) @ (a, av) # entries r @ ctx_after c))"
    using Node.prems(3) by simp
  consider "fst av < k" "r \<noteq> Leaf" | "fst av < k" "r = Leaf" | "\<not> fst av < k" "l = Leaf" | "\<not> fst av < k" "l \<noteq> Leaf"
    by blast
  then show ?case
  proof cases
    case 1
    then show ?thesis
      using Node.IH(2) [of "Rgt l a av e c"] Node.prems step sorted_all_less [OF srt] by simp
  next
    case 2
    have "iter_fwd True ?T (Some a) = Some (hd_ptr (ctx_after c))"
      using 2 Node.prems(1) by (intro iter_fwd_conc [of _ "ctx_before c @ entries l"]) auto
    moreover have "lower_ptr ((ctx_before c @ entries l @ [(a, av)]) @ ctx_after c) k = hd_ptr (ctx_after c)"
      by (rule lower_ptr_split)
        (use 2 Node.prems sorted_all_less [OF srt] in \<open>cases "ctx_after c"; auto\<close>)+
    ultimately show ?thesis using 2 step by simp
  next
    case 3
    have "lower_ptr (ctx_before c @ (a, av) # entries r @ ctx_after c) k = Some a"
      by (subst lower_ptr_split) (use 3 Node.prems in auto)
    then show ?thesis using 3 step by simp
  next
    case 4
    have "\<forall>x \<in> set (keys (entries r)). fst av \<le> x" using srt by (simp add: sorted_append)
    then have "\<forall>x \<in> set (keys (ctx_after (Lft c a av e r))). k \<le> x"
      using 4 Node.prems(5) by (auto simp: not_less intro: order_trans)
    then show ?thesis
      using 4 Node.IH(1) [of "Lft c a av e r"] Node.prems step by simp
  qed
qed

lemma upper_multi_loop_plug:
  assumes "wf_shape (plug c t)" and "t \<noteq> Leaf" and "sorted (keys (entries (plug c t)))"
    and "\<forall>x \<in> set (keys (ctx_before c)). x \<le> k" and "all_greater (ctx_after c) k"
  shows "upper_multi_loop (conc m (plug c t)) k (root_ptr t) = Some (upper_ptr (entries (plug c t)) k)"
  using assms
proof (induction t arbitrary: c)
  case Leaf
  then show ?case by simp
next
  case (Node l a av e r)
  let ?T = "conc m (plug c (Node l a av e r))"
  have nd: "deref ?T (Some a) = Some (node_at c l av e r)" using Node.prems(1) by (simp add: heap_simps)
  have step: "upper_multi_loop ?T k (Some a) = (if k < fst av
      then (if l \<noteq> Leaf then upper_multi_loop ?T k (root_ptr l) else Some (Some a))
      else (if r = Leaf then iter_fwd True ?T (Some a) else upper_multi_loop ?T k (root_ptr r)))"
    by (subst upper_multi_loop.simps) (simp add: nd nd_key_def)
  have srt: "sorted (keys ((ctx_before c @ entries l) @ (a, av) # entries r @ ctx_after c))"
    using Node.prems(3) by simp
  have before: "\<And>x. x \<in> set (ctx_before c) \<Longrightarrow> fst (snd x) \<le> k"
    using Node.prems(4) by (auto simp: set_keys)
  consider "k < fst av" "l \<noteq> Leaf" | "k < fst av" "l = Leaf" | "\<not> k < fst av" "r = Leaf" | "\<not> k < fst av" "r \<noteq> Leaf"
    by blast
  then show ?case
  proof cases
    case 1
    then show ?thesis
      using Node.IH(1) [of "Lft c a av e r"] Node.prems step sorted_all_greater [OF srt] by simp
  next
    case 2
    have "upper_ptr (ctx_before c @ (a, av) # entries r @ ctx_after c) k = Some a"
      by (subst upper_ptr_split) (use 2 before Node.prems sorted_all_greater [OF srt] in auto)
    then show ?thesis using 2 step by simp
  next
    case 3
    have "iter_fwd True ?T (Some a) = Some (hd_ptr (ctx_after c))"
      using 3 Node.prems(1) by (intro iter_fwd_conc [of _ "ctx_before c @ entries l"]) auto
    moreover have "\<And>x. x \<in> set (entries l) \<Longrightarrow> fst (snd x) \<le> k"
      using 3 srt by (force simp: sorted_append set_keys not_less)
    then have "upper_ptr ((ctx_before c @ entries l @ [(a, av)]) @ ctx_after c) k = hd_ptr (ctx_after c)"
      by (intro upper_ptr_split) (use 3 before Node.prems(5) in \<open>auto simp: not_less\<close>)
    ultimately show ?thesis using 3 step by simp
  next
    case 4
    have "\<forall>x \<in> set (keys (entries l)). x \<le> fst av" using srt by (simp add: sorted_append)
    then have "\<forall>x \<in> set (keys (ctx_before (Rgt l a av e c))). x \<le> k"
      using 4 Node.prems(4) by (auto simp: not_less intro: order_trans)
    then show ?thesis
      using 4 Node.IH(2) [of "Rgt l a av e c"] Node.prems step by simp
  qed
qed

lemma lower_handle_multi_plug:
  assumes wf: "wf_shape (plug d (Node l a av e r))" and srt: "sorted (keys (entries (plug d (Node l a av e r))))"
    and d: "all_less (ctx_before d) k" "all_greater (ctx_after d) k" and k: "fst av = k"
  shows "lower_handle_multi (conc m (plug d (Node l a av e r))) k (Some a)
    = Some (lower_ptr (entries (plug d (Node l a av e r))) k)"
proof (cases "l = Leaf")
  case True
  moreover have "lower_ptr (ctx_before d @ (a, av) # entries r @ ctx_after d) k = Some a"
    by (subst lower_ptr_split) (use d k in auto)
  ultimately show ?thesis using wf by (simp add: lower_handle_multi_def heap_simps)
next
  case False
  have "\<forall>x \<in> set (keys (ctx_after d)). k \<le> x" using d(2) by (auto simp: all_greater_def)
  with False wf show ?thesis
    using lower_multi_loop_plug [OF wf _ srt d(1), of m] by (simp add: lower_handle_multi_def heap_simps)
qed

lemma upper_handle_multi_plug:
  assumes wf: "wf_shape (plug d (Node l a av e r))" and srt: "sorted (keys (entries (plug d (Node l a av e r))))"
    and d: "all_less (ctx_before d) k" "all_greater (ctx_after d) k" and k: "fst av = k"
  shows "upper_handle_multi (conc m (plug d (Node l a av e r))) k (Some a)
    = Some (upper_ptr (entries (plug d (Node l a av e r))) k)"
proof -
  have le: "\<forall>x \<in> set (keys (ctx_before d)). x \<le> k" using d(1) by (auto simp: all_less_def)
  show ?thesis
  proof (cases "r = Leaf")
    case False
    with wf le show ?thesis
      using upper_multi_loop_plug [OF wf _ srt le d(2), of m] by (simp add: upper_handle_multi_def heap_simps)
  next
    case True
    have "\<And>x. x \<in> set (ctx_before d @ entries l) \<Longrightarrow> fst (snd x) \<le> k"
      using srt k by (force simp: sorted_append set_keys)
    then have "upper_ptr ((ctx_before d @ entries l @ [(a, av)]) @ ctx_after d) k = hd_ptr (ctx_after d)"
      by (intro upper_ptr_split) (use d k in auto)
    moreover have "iter_fwd True (conc m (plug d (Node l a av e r))) (Some a) = Some (hd_ptr (ctx_after d))"
      using True wf by (intro iter_fwd_conc [of _ "ctx_before d @ entries l"]) auto
    ultimately show ?thesis using True wf by (simp add: upper_handle_multi_def heap_simps)
  qed
qed

lemma lower_bound_multi:
  assumes R: "represents pinv T es"
  shows "handle_multi_key fp_lower_bound T k = Some (lower_ptr es k)"
  using R
proof (cases rule: handle_real_cases [where M = True and key = "\<lambda>k. k" and v = k and g = fp_lower_bound])
  case empty
  then show ?thesis by (simp add: handle_multi_key_def fp_lower_bound_def lower_ptr_def)
next
  case (node1 t d a av e r)
  then have "es = ctx_before d @ (a, av) # entries r @ ctx_after d" by auto
  with node1 show ?thesis
    using lower_ptr_split [of "ctx_before d" k "(a, av) # entries r @ ctx_after d"]
    by (simp add: handle_multi_key_def fp_lower_bound_def)
next
  case (node2 t d l a av e)
  then have es: "es = (ctx_before d @ entries l @ [(a, av)]) @ ctx_after d" by auto
  have "iter_fwd True T (Some a) = Some (hd_ptr (ctx_after d))"
    using node2 by (auto intro!: iter_fwd_conc [of _ "ctx_before d @ entries l"])
  moreover have "lower_ptr es k = hd_ptr (ctx_after d)"
    unfolding es by (rule lower_ptr_split) (use node2 in \<open>cases "ctx_after d"; auto\<close>)+
  ultimately show ?thesis using node2 by (simp add: handle_multi_key_def fp_lower_bound_def)
next
  case (equal t d l a av e r)
  then show ?thesis
    using lower_handle_multi_plug [of d l a av e r k] represents_sorted [OF R]
    by (auto simp: handle_multi_key_def fp_lower_bound_def)
qed

lemma upper_bound_multi:
  assumes R: "represents pinv T es"
  shows "handle_multi_key fp_upper_bound T k = Some (upper_ptr es k)"
  using R
proof (cases rule: handle_real_cases [where M = True and key = "\<lambda>k. k" and v = k and g = fp_upper_bound])
  case empty
  then show ?thesis by (simp add: handle_multi_key_def fp_upper_bound_def upper_ptr_def)
next
  case (node1 t d a av e r)
  then have es: "es = ctx_before d @ (a, av) # entries r @ ctx_after d" by auto
  have "upper_ptr es k = hd_ptr ((a, av) # entries r @ ctx_after d)"
    unfolding es by (rule upper_ptr_split) (use node1 in \<open>auto dest: all_lessD\<close>)
  with node1 show ?thesis by (simp add: handle_multi_key_def fp_upper_bound_def)
next
  case (node2 t d l a av e)
  then have es: "es = (ctx_before d @ entries l @ [(a, av)]) @ ctx_after d" by auto
  have "iter_fwd True T (Some a) = Some (hd_ptr (ctx_after d))"
    using node2 by (auto intro!: iter_fwd_conc [of _ "ctx_before d @ entries l"])
  moreover have "upper_ptr es k = hd_ptr (ctx_after d)"
    unfolding es by (rule upper_ptr_split) (use node2 in \<open>auto dest: all_lessD\<close>)
  ultimately show ?thesis using node2 by (simp add: handle_multi_key_def fp_upper_bound_def)
next
  case (equal t d l a av e r)
  then show ?thesis
    using upper_handle_multi_plug [of d l a av e r k] represents_sorted [OF R]
    by (auto simp: handle_multi_key_def fp_upper_bound_def)
qed

lemma ptrs_node1:
  assumes "all_less xs k" and "k < fst v" and "all_greater ys k"
  shows "lower_ptr (xs @ (a, v) # ys) k = Some a" and "upper_ptr (xs @ (a, v) # ys) k = Some a"
  using assms by (subst lower_ptr_split upper_ptr_split; auto dest: all_lessD)+

lemma ptrs_node2:
  assumes "all_less xs k" and "fst v < k" and "all_greater ys k"
  shows "lower_ptr (xs @ (a, v) # ys) k = hd_ptr ys" and "upper_ptr (xs @ (a, v) # ys) k = hd_ptr ys"
proof -
  have "lower_ptr ((xs @ [(a, v)]) @ ys) k = hd_ptr ys"
    by (rule lower_ptr_split) (use assms in \<open>cases ys; auto\<close>)+
  moreover have "upper_ptr ((xs @ [(a, v)]) @ ys) k = hd_ptr ys"
    by (rule upper_ptr_split) (use assms in \<open>auto dest: all_lessD\<close>)
  ultimately show "lower_ptr (xs @ (a, v) # ys) k = hd_ptr ys" "upper_ptr (xs @ (a, v) # ys) k = hd_ptr ys"
    by simp_all
qed

lemma ptrs_equal:
  assumes "all_less xs k" and "fst v = k" and "all_greater ys k"
  shows "lower_ptr (xs @ (a, v) # ys) k = Some a" and "upper_ptr (xs @ (a, v) # ys) k = hd_ptr ys"
proof -
  show "lower_ptr (xs @ (a, v) # ys) k = Some a"
    by (subst lower_ptr_split) (use assms in auto)
  have "upper_ptr ((xs @ [(a, v)]) @ ys) k = hd_ptr ys"
    by (rule upper_ptr_split) (use assms in \<open>auto dest: all_lessD\<close>)
  then show "upper_ptr (xs @ (a, v) # ys) k = hd_ptr ys" by simp
qed

lemma equal_range_multi:
  assumes R: "represents pinv T es"
  shows "handle_multi_key fp_equal_range T k = Some (lower_ptr es k, upper_ptr es k)"
  using R
proof (cases rule: handle_real_cases [where M = True and key = "\<lambda>k. k" and v = k and g = fp_equal_range])
  case empty
  then show ?thesis by (simp add: handle_multi_key_def fp_equal_range_def lower_ptr_def upper_ptr_def)
next
  case (node1 t d a av e r)
  then have "es = ctx_before d @ (a, av) # entries r @ ctx_after d" by auto
  with node1 show ?thesis
    using ptrs_node1 [of "ctx_before d" k av "entries r @ ctx_after d" a]
    by (simp add: handle_multi_key_def fp_equal_range_def)
next
  case (node2 t d l a av e)
  then have es: "es = (ctx_before d @ entries l) @ (a, av) # ctx_after d" by auto
  have "iter_fwd True T (Some a) = Some (hd_ptr (ctx_after d))"
    using node2 by (auto intro!: iter_fwd_conc [of _ "ctx_before d @ entries l"])
  with node2 es show ?thesis
    using ptrs_node2 [of "ctx_before d @ entries l" k av "ctx_after d" a]
    by (simp add: handle_multi_key_def fp_equal_range_def)
next
  case (equal t d l a av e r)
  then show ?thesis
    using upper_handle_multi_plug [of d l a av e r k] lower_handle_multi_plug [of d l a av e r k]
      represents_sorted [OF R]
    by (auto simp: handle_multi_key_def fp_equal_range_def)
qed

lemma equal_range_unique:
  assumes R: "represents pinv T es" and D: "distinct (keys es)"
  shows "handle_key fp_equal_range T k = Some (lower_ptr es k, upper_ptr es k)"
  using R
proof (cases rule: handle_real_cases [where M = False and key = "\<lambda>k. k" and v = k and g = fp_equal_range])
  case empty
  then show ?thesis by (simp add: handle_key_def fp_equal_range_def lower_ptr_def upper_ptr_def)
next
  case (node1 t d a av e r)
  then have "es = ctx_before d @ (a, av) # entries r @ ctx_after d" by auto
  with node1 show ?thesis
    using ptrs_node1 [of "ctx_before d" k av "entries r @ ctx_after d" a]
    by (simp add: handle_key_def fp_equal_range_def)
next
  case (node2 t d l a av e)
  then have es: "es = (ctx_before d @ entries l) @ (a, av) # ctx_after d" by auto
  have "iter_fwd True T (Some a) = Some (hd_ptr (ctx_after d))"
    using node2 by (auto intro!: iter_fwd_conc [of _ "ctx_before d @ entries l"])
  with node2 es show ?thesis
    using ptrs_node2 [of "ctx_before d @ entries l" k av "ctx_after d" a]
    by (simp add: handle_key_def fp_equal_range_def)
next
  case (equal t d l a av e r)
  then have es: "es = (ctx_before d @ entries l) @ (a, av) # entries r @ ctx_after d" by auto
  have "iter_fwd True T (Some a) = Some (hd_ptr (entries r @ ctx_after d))"
    using equal by (auto intro!: iter_fwd_conc [of _ "ctx_before d @ entries l"])
  with equal es show ?thesis
    using ptrs_equal [of "ctx_before d @ entries l" k av "entries r @ ctx_after d" a]
      distinct_keys_split [of "ctx_before d @ entries l" a av "entries r @ ctx_after d"]
      represents_sorted [OF R] D
    by (simp add: handle_key_def fp_equal_range_def)
qed

end
