(* ===== verification/Bst_Policy.thy ===== *)
theory Bst_Policy
  imports Bst_Swap Bst_Search
begin

text \<open>
  The interface between \<open>bst_tree\<close> and its policy, and what the tree operations do under it.
  A policy keeps an invariant of its own on the skeleton of the tree (colours, balance
  factors); its two hooks return, keep the in-order list of the entries and restore the
  invariant. Everything a container does by inserting and erasing is proved once, from these
  laws, and holds for the red-black and the AVL policy.
\<close>

subsection \<open>Linking a new leaf\<close>

lemma link_new1:
  assumes wf: "wf_shape (plug d (Node Leaf b bv be r))" and a: "a \<notin> addr_set (plug d (Node Leaf b bv be r))"
  shows "set_child1 (bst_construct (conc m (plug d (Node Leaf b bv be r))) a v e) (Some b) (Some a)
    = Some (conc m (plug (Lft d b bv be r) (Node Leaf a v e Leaf)))"
  apply (rule conc_surgery [OF wf])
  apply (insert wf a)
  apply (auto simp: bst_construct_def new_node_def surgery_simps intro!: root_ptr_plug_same)
  done

lemma link_new2:
  assumes wf: "wf_shape (plug d (Node l b bv be Leaf))" and a: "a \<notin> addr_set (plug d (Node l b bv be Leaf))"
  shows "set_child2 (bst_construct (conc m (plug d (Node l b bv be Leaf))) a v e) (Some b) (Some a)
    = Some (conc m (plug (Rgt l b bv be d) (Node Leaf a v e Leaf)))"
  apply (rule conc_surgery [OF wf])
  apply (insert wf a)
  apply (auto simp: bst_construct_def new_node_def surgery_simps intro!: root_ptr_plug_same)
  done

lemma construct_empty:
  "bst_construct (conc m Leaf) a v e = (conc m (Node Leaf a v e Leaf))\<lparr>m_pRoot := NULL\<rparr>"
  by (auto simp: bst_construct_def new_node_def conc_def)

lemma conc_size [simp]: "(conc m t)\<lparr>m_nSize := k\<rparr> = conc k t"
  by (simp add: conc_def)

lemma conc_size_root [simp]: "((conc m t)\<lparr>m_pRoot := q\<rparr>)\<lparr>m_nSize := k\<rparr> = (conc k t)\<lparr>m_pRoot := q\<rparr>"
  by (simp add: conc_def)

subsection \<open>Inserting into an ordered list\<close>

text \<open>A new entry goes behind all entries whose keys are not greater.\<close>

definition insert_entry :: "addr \<times> 'k::linorder \<times> 'v \<Rightarrow> (addr \<times> 'k \<times> 'v) list \<Rightarrow> (addr \<times> 'k \<times> 'v) list" where
  "insert_entry x es = takeWhile (\<lambda>y. fst (snd y) \<le> fst (snd x)) es @ x #
     dropWhile (\<lambda>y. fst (snd y) \<le> fst (snd x)) es"

lemma insert_entry_split:
  assumes "\<And>y. y \<in> set xs \<Longrightarrow> fst (snd y) \<le> fst (snd x)" and "all_greater ys (fst (snd x))"
  shows "insert_entry x (xs @ ys) = xs @ x # ys"
proof -
  have "takeWhile (\<lambda>y. fst (snd y) \<le> fst (snd x)) ys = []" "dropWhile (\<lambda>y. fst (snd y) \<le> fst (snd x)) ys = ys"
    using assms(2) by (cases ys; auto)+
  then show ?thesis using assms(1) by (simp add: insert_entry_def)
qed

lemma all_less_le: "all_less xs k \<Longrightarrow> y \<in> set xs \<Longrightarrow> fst (snd y) \<le> k"
  by (force simp: all_less_def set_keys)

lemma length_insert_entry [simp]: "length (insert_entry x es) = Suc (length es)"
proof -
  have "length es = length (takeWhile (\<lambda>y. fst (snd y) \<le> fst (snd x)) es) + length (dropWhile (\<lambda>y. fst (snd y) \<le> fst (snd x)) es)"
    by (metis length_append takeWhile_dropWhile_id)
  then show ?thesis by (simp add: insert_entry_def)
qed

lemma sorted_insert:
  assumes "sorted (keys (xs @ ys))" and "\<And>y. y \<in> set xs \<Longrightarrow> fst (snd y) \<le> fst v" and "all_greater ys (fst v)"
  shows "sorted (keys (xs @ (a, v) # ys))"
  using assms by (auto simp: sorted_append set_keys all_greater_def intro: less_imp_le)

subsection \<open>The descent of a multi insertion\<close>

lemma insert_pair_multi_plug:
  assumes "wf_shape (plug c t)" and "t \<noteq> Leaf" and "sorted (keys (entries (plug c t)))"
    and "\<And>y. y \<in> set (ctx_before c) \<Longrightarrow> fst (snd y) \<le> fst v" and "all_greater (ctx_after c) (fst v)"
  shows "(\<exists>d b bv be r. plug c t = plug d (Node Leaf b bv be r) \<and> fst v < fst bv \<and>
       (\<forall>y \<in> set (ctx_before d). fst (snd y) \<le> fst v) \<and>
       insert_pair_multi adj a e (conc m (plug c t)) v (root_ptr t) =
         insert_pair_node1 adj a e (conc m (plug c t)) v (Some b)) \<or>
    (\<exists>d l b bv be. plug c t = plug d (Node l b bv be Leaf) \<and> fst bv \<le> fst v \<and>
       all_greater (ctx_after d) (fst v) \<and>
       insert_pair_multi adj a e (conc m (plug c t)) v (root_ptr t) =
         insert_pair_node2 adj a e (conc m (plug c t)) v (Some b))"
  using assms
proof (induction t arbitrary: c)
  case Leaf
  then show ?case by simp
next
  case (Node l b bv be r)
  let ?T = "conc m (plug c (Node l b bv be r))"
  have nd: "deref ?T (Some b) = Some (node_at c l bv be r)" using Node.prems(1) by (simp add: heap_simps)
  have step: "insert_pair_multi adj a e ?T v (Some b) = (if fst v < fst bv
      then (if l = Leaf then insert_pair_node1 adj a e ?T v (Some b) else insert_pair_multi adj a e ?T v (root_ptr l))
      else (if r = Leaf then insert_pair_node2 adj a e ?T v (Some b) else insert_pair_multi adj a e ?T v (root_ptr r)))"
    by (subst insert_pair_multi.simps) (simp add: nd nd_key_def)
  have srt: "sorted (keys ((ctx_before c @ entries l) @ (b, bv) # entries r @ ctx_after c))"
    using Node.prems(3) by simp
  consider "fst v < fst bv" "l = Leaf" | "fst v < fst bv" "l \<noteq> Leaf" | "\<not> fst v < fst bv" "r = Leaf"
    | "\<not> fst v < fst bv" "r \<noteq> Leaf" by blast
  then show ?case
  proof cases
    case 1
    then show ?thesis using Node.prems(4) step
      by (intro disjI1 exI [of _ c] exI [of _ b] exI [of _ bv] exI [of _ be] exI [of _ r]) auto
  next
    case 2
    have P: "plug (Lft c b bv be r) l = plug c (Node l b bv be r)" by simp
    have S: "insert_pair_multi adj a e ?T v (root_ptr l) = insert_pair_multi adj a e ?T v (root_ptr (Node l b bv be r))"
      using step 2 by simp
    show ?thesis
      by (rule Node.IH(1) [of "Lft c b bv be r", unfolded P S])
        (use 2 Node.prems sorted_all_greater [OF srt] in simp_all)
  next
    case 3
    then show ?thesis using Node.prems(5) step
      by (intro disjI2 exI [of _ c] exI [of _ l] exI [of _ b] exI [of _ bv] exI [of _ be]) (auto simp: not_less)
  next
    case 4
    have P: "plug (Rgt l b bv be c) r = plug c (Node l b bv be r)" by simp
    have S: "insert_pair_multi adj a e ?T v (root_ptr r) = insert_pair_multi adj a e ?T v (root_ptr (Node l b bv be r))"
      using step 4 by simp
    have le: "fst (snd y) \<le> fst v" if "y \<in> set (ctx_before (Rgt l b bv be c))" for y
    proof -
      have "\<forall>x \<in> set (keys (entries l)). x \<le> fst bv" using srt by (simp add: sorted_append)
      then have L: "fst (snd y) \<le> fst v" if "y \<in> set (entries l)" for y
        using 4 that by (auto simp: set_keys not_less intro: order_trans)
      from that consider "y \<in> set (ctx_before c)" | "y \<in> set (entries l)" | "y = (b, bv)" by auto
      then show ?thesis
        by cases (use 4 Node.prems(4) L in \<open>simp_all add: not_less\<close>)
    qed
    show ?thesis
      by (rule Node.IH(2) [of "Rgt l b bv be c", unfolded P S])
        (use 4 Node.prems le in simp_all)
  qed
qed

subsection \<open>The policy interface\<close>

locale bst_policy =
  fixes adj :: "('k::linorder, 'v, 'e) fixup"
    and del :: "('k, 'v, 'e) fixup"
    and pinv :: "('k, 'v, 'e) shape \<Rightarrow> bool"
  assumes pinv_Leaf: "pinv Leaf"
    and pinv_skel: "skel t = skel t' \<Longrightarrow> pinv t = pinv t'"
    and adj_Top: "\<exists>t'. adj ((conc m (Node Leaf n v e Leaf))\<lparr>m_pRoot := NULL\<rparr>) (Some n) = Some (conc m t') \<and>
      entries t' = [(n, v)] \<and> pinv t'"
    and adj_plug: "wf_shape (plug c (Node Leaf n v e Leaf)) \<Longrightarrow> pinv (plug c Leaf) \<Longrightarrow>
      \<exists>t'. adj (conc m (plug c (Node Leaf n v e Leaf))) (Some n) = Some (conc m t') \<and>
        entries t' = entries (plug c (Node Leaf n v e Leaf)) \<and> pinv t'"
    and del_plug: "wf_shape (plug c (Node l n v e r)) \<Longrightarrow> pinv (plug c (Node l n v e r)) \<Longrightarrow>
      l = Leaf \<and> k = r \<or> r = Leaf \<and> k = l \<Longrightarrow>
      \<exists>t'. del (conc m (plug c (Node l n v e r))) (Some n) = Some (conc m t') \<and>
        entries t' = entries (plug c k) \<and> pinv t'"
begin

lemma insert_pair_node1_ok:
  assumes wf: "wf_shape t" and t: "t = plug d (Node Leaf b bv be r)" and inv: "pinv t" and a: "a \<notin> addr_set t"
  shows "\<exists>t'. insert_pair_node1 adj a e (conc m t) v (Some b) = Some (conc (m + 1) t', Some a, True) \<and>
    entries t' = ctx_before d @ (a, v) # (b, bv) # entries r @ ctx_after d \<and> pinv t'"
proof -
  let ?c = "Lft d b bv be r"
  have "wf_shape (plug ?c (Node Leaf a v e Leaf))" "pinv (plug ?c Leaf)" using wf a inv unfolding t by auto
  from adj_plug [OF this, of "m + 1"] link_new1 [of d b bv be r a m v e] wf a show ?thesis
    unfolding t by (auto simp: insert_pair_node1_def insert_pair_adjust_def)
qed

lemma insert_pair_node2_ok:
  assumes wf: "wf_shape t" and t: "t = plug d (Node l b bv be Leaf)" and inv: "pinv t" and a: "a \<notin> addr_set t"
  shows "\<exists>t'. insert_pair_node2 adj a e (conc m t) v (Some b) = Some (conc (m + 1) t', Some a, True) \<and>
    entries t' = ctx_before d @ entries l @ (b, bv) # (a, v) # ctx_after d \<and> pinv t'"
proof -
  let ?c = "Rgt l b bv be d"
  have "wf_shape (plug ?c (Node Leaf a v e Leaf))" "pinv (plug ?c Leaf)" using wf a inv unfolding t by auto
  from adj_plug [OF this, of "m + 1"] link_new2 [of d l b bv be a m v e] wf a show ?thesis
    unfolding t by (auto simp: insert_pair_node2_def insert_pair_adjust_def)
qed

lemma insert_pair_empty_ok:
  "\<exists>t'. insert_pair_adjust adj (bst_construct (conc m Leaf) a v e) (Some a) = Some (conc (m + 1) t', Some a, True) \<and>
    entries t' = [(a, v)] \<and> pinv t'"
  using adj_Top [of "m + 1" a v e] by (auto simp: construct_empty insert_pair_adjust_def)

lemma representsI':
  assumes "entries t' = xs @ (a, v) # ys" and "es = xs @ ys" and "a \<notin> fst ` set es" and "pinv t'"
    and "represents pinv T es" and "\<And>y. y \<in> set xs \<Longrightarrow> fst (snd y) \<le> fst v" and "all_greater ys (fst v)"
  shows "represents pinv (conc (of_nat (length es) + 1) t') (insert_entry (a, v) es)"
proof -
  have ins: "insert_entry (a, v) es = xs @ (a, v) # ys"
    unfolding assms(2) using assms(6,7) by (intro insert_entry_split) auto
  obtain t where "pinv t" "entries t = es" "wf_shape t" "sorted (keys es)"
    using assms(5) unfolding represents_def by blast
  then have d: "distinct (map fst es)" by (simp add: wf_shape_iff)
  have "wf_shape t'"
    using d assms(3) unfolding wf_shape_iff assms(1) assms(2) by auto
  moreover have "sorted (keys (xs @ (a, v) # ys))"
    using \<open>sorted (keys es)\<close> assms(2,6,7) by (intro sorted_insert) auto
  ultimately have "represents pinv (conc (of_nat (length (xs @ (a, v) # ys))) t') (xs @ (a, v) # ys)"
    using assms by (intro representsI) auto
  moreover have "of_nat (length (xs @ (a, v) # ys)) = (of_nat (length es) + 1 :: size_t)"
    using assms(2) by simp
  ultimately show ?thesis by (simp only: ins)
qed

text \<open>\<open>insert\<close> of the containers with unique keys: a new key is added in order, and a key that
  is present leaves the tree alone and yields its entry.\<close>

lemma insert_pair_new:
  assumes R: "represents pinv T es" and a: "a \<notin> fst ` set es" and v: "fst v \<notin> set (keys es)"
  shows "\<exists>T'. handle_value (fp_insert_pair adj a e) T v = Some (T', Some a, True) \<and>
    represents pinv T' (insert_entry (a, v) es)"
  using R
proof (cases rule: handle_real_cases [where M = False and key = fst and v = v and g = "fp_insert_pair adj a e"])
  case empty
  then obtain t' where t': "handle_value (fp_insert_pair adj a e) T v = Some (conc (of_nat (length es) + 1) t', Some a, True)"
      "entries t' = [] @ (a, v) # []" "pinv t'"
    using insert_pair_empty_ok [of 0 a v e] R
    by (auto simp: handle_value_def fp_insert_pair_def elim!: representsE)
  have "represents pinv (conc (of_nat (length es) + 1) t') (insert_entry (a, v) es)"
    by (rule representsI' [OF t'(2) _ a t'(3) R]) (use empty in auto)
  with t'(1) show ?thesis by blast
next
  case (node1 t d b bv be r)
  then have a': "a \<notin> addr_set t" using a by (metis set_addrs)
  obtain t' where t': "handle_value (fp_insert_pair adj a e) T v = Some (conc (of_nat (length es) + 1) t', Some a, True)"
      "entries t' = ctx_before d @ (a, v) # (b, bv) # entries r @ ctx_after d" "pinv t'"
    using insert_pair_node1_ok [OF node1(2,5,3) a', of e "of_nat (length es)" v] node1
    by (auto simp: handle_value_def fp_insert_pair_def)
  have "represents pinv (conc (of_nat (length es) + 1) t') (insert_entry (a, v) es)"
    by (rule representsI' [OF t'(2) _ a t'(3) R all_less_le [OF node1(7)]]) (use node1 in auto)
  with t'(1) show ?thesis by blast
next
  case (node2 t d l b bv be)
  then have a': "a \<notin> addr_set t" using a by (metis set_addrs)
  obtain t' where t': "handle_value (fp_insert_pair adj a e) T v = Some (conc (of_nat (length es) + 1) t', Some a, True)"
      "entries t' = (ctx_before d @ entries l @ [(b, bv)]) @ (a, v) # ctx_after d" "pinv t'"
    using insert_pair_node2_ok [OF node2(2,5,3) a', of e "of_nat (length es)" v] node2
    by (auto simp: handle_value_def fp_insert_pair_def)
  have al: "all_less (ctx_before d @ entries l @ [(b, bv)]) (fst v)" using node2(6,7) by simp
  have "represents pinv (conc (of_nat (length es) + 1) t') (insert_entry (a, v) es)"
    by (rule representsI' [OF t'(2) _ a t'(3) R all_less_le [OF al] node2(8)])
      (use node2(4,5) in auto)
  with t'(1) show ?thesis by blast
next
  case (equal t d l b bv be r)
  have "fst v \<in> set (keys es)" unfolding equal(4) [symmetric] equal(5) using equal(6) by simp
  with v show ?thesis by simp
qed

lemma insert_pair_present:
  assumes R: "represents pinv T es" and v: "fst v \<in> set (keys es)"
  shows "\<exists>b w. handle_value (fp_insert_pair adj a e) T v = Some (T, Some b, False) \<and> (b, fst v, w) \<in> set es"
  using R
proof (cases rule: handle_real_cases [where M = False and key = fst and v = v and g = "fp_insert_pair adj a e"])
  case empty
  then show ?thesis using v by simp
next
  case (node1 t d b bv be r)
  then show ?thesis using v by (auto simp: all_less_def all_greater_def)
next
  case (node2 t d l b bv be)
  then show ?thesis using v by (auto simp: all_less_def all_greater_def)
next
  case (equal t d l b bv be r)
  then have "handle_value (fp_insert_pair adj a e) T v = Some (T, Some b, False)"
    by (simp add: handle_value_def fp_insert_pair_def)
  moreover have "(b, bv) \<in> set es" unfolding equal(4) [symmetric] equal(5) by simp
  then have "(b, fst v, snd bv) \<in> set es" using equal(6) by (metis prod.collapse)
  ultimately show ?thesis by blast
qed

end

end
