(* ===== verification/Bst_Erase.thy ===== *)
theory Bst_Erase
  imports Bst_Policy
begin

text \<open>
  The remaining insertions under any policy: into the containers that allow equal keys, and
  \<open>fp_insert_node\<close>, which is \<open>operator[]\<close> of the map.
\<close>

context bst_policy
begin

lemma multi_node1:
  assumes R: "represents pinv T es" and a: "a \<notin> fst ` set es" and T: "T = conc (of_nat (length es)) t"
    and t: "wf_shape t" "pinv t" "entries t = es" "t = plug d (Node Leaf b bv be r)"
    and k: "fst v < fst bv" "\<And>y. y \<in> set (ctx_before d) \<Longrightarrow> fst (snd y) \<le> fst v"
  shows "\<exists>T'. insert_pair_node1 adj a e T v (Some b) = Some (T', Some a, True) \<and>
    represents pinv T' (insert_entry (a, v) es)"
proof -
  have a': "a \<notin> addr_set t" using a t(3) by (metis set_addrs)
  obtain t' where t': "insert_pair_node1 adj a e T v (Some b) = Some (conc (of_nat (length es) + 1) t', Some a, True)"
      "entries t' = ctx_before d @ (a, v) # (b, bv) # entries r @ ctx_after d" "pinv t'"
    using insert_pair_node1_ok [OF t(1,4,2) a', of e "of_nat (length es)" v] T by auto
  have "sorted (keys (ctx_before d @ (b, bv) # entries r @ ctx_after d))"
    using represents_sorted [OF R] t(3,4) by simp
  from sorted_all_greater [OF this k(1)] have g: "all_greater ((b, bv) # entries r @ ctx_after d) (fst v)"
    using k(1) by simp
  have "represents pinv (conc (of_nat (length es) + 1) t') (insert_entry (a, v) es)"
    by (rule representsI' [OF t'(2) _ a t'(3) R k(2) g]) (use t in auto)
  with t'(1) show ?thesis by blast
qed

lemma multi_node2:
  assumes R: "represents pinv T es" and a: "a \<notin> fst ` set es" and T: "T = conc (of_nat (length es)) t"
    and t: "wf_shape t" "pinv t" "entries t = es" "t = plug d (Node l b bv be Leaf)"
    and k: "fst bv \<le> fst v" "all_greater (ctx_after d) (fst v)"
  shows "\<exists>T'. insert_pair_node2 adj a e T v (Some b) = Some (T', Some a, True) \<and>
    represents pinv T' (insert_entry (a, v) es)"
proof -
  have a': "a \<notin> addr_set t" using a t(3) by (metis set_addrs)
  obtain t' where t': "insert_pair_node2 adj a e T v (Some b) = Some (conc (of_nat (length es) + 1) t', Some a, True)"
      "entries t' = (ctx_before d @ entries l @ [(b, bv)]) @ (a, v) # ctx_after d" "pinv t'"
    using insert_pair_node2_ok [OF t(1,4,2) a', of e "of_nat (length es)" v] T by auto
  have "sorted (keys ((ctx_before d @ entries l @ [(b, bv)]) @ ctx_after d))"
    using represents_sorted [OF R] t(3,4) by simp
  then have "\<forall>x \<in> set (keys (ctx_before d @ entries l @ [(b, bv)])). x \<le> fst bv"
    by (auto simp: sorted_append)
  then have le: "fst (snd y) \<le> fst v" if "y \<in> set (ctx_before d @ entries l @ [(b, bv)])" for y
    using that k(1) unfolding set_keys by (blast intro: order_trans)
  have "represents pinv (conc (of_nat (length es) + 1) t') (insert_entry (a, v) es)"
    by (rule representsI' [OF t'(2) _ a t'(3) R le k(2)]) (use t in auto)
  with t'(1) show ?thesis by blast
qed

text \<open>\<open>insert\<close> of the multi containers always adds, behind the entries with the same key.\<close>

lemma insert_pair_multi_ok:
  assumes R: "represents pinv T es" and a: "a \<notin> fst ` set es"
  shows "\<exists>T'. handle_multi_value (fp_insert_pair adj a e) T v = Some (T', Some a, True) \<and>
    represents pinv T' (insert_entry (a, v) es)"
  using R
proof (cases rule: handle_real_cases [where M = True and key = fst and v = v and g = "fp_insert_pair adj a e"])
  case empty
  then obtain t' where t': "handle_multi_value (fp_insert_pair adj a e) T v = Some (conc (of_nat (length es) + 1) t', Some a, True)"
      "entries t' = [] @ (a, v) # []" "pinv t'"
    using insert_pair_empty_ok [of 0 a v e] R
    by (auto simp: handle_multi_value_def fp_insert_pair_def elim!: representsE)
  have "represents pinv (conc (of_nat (length es) + 1) t') (insert_entry (a, v) es)"
    by (rule representsI' [OF t'(2) _ a t'(3) R]) (use empty in auto)
  with t'(1) show ?thesis by blast
next
  case (node1 t d b bv be r)
  then show ?thesis
    using multi_node1 [OF R a node1(1-6) all_less_le [OF node1(7)], of e]
    by (simp add: handle_multi_value_def fp_insert_pair_def)
next
  case (node2 t d l b bv be)
  then show ?thesis
    using multi_node2 [OF R a node2(1-5) less_imp_le [OF node2(6)] node2(8), of e]
    by (simp add: handle_multi_value_def fp_insert_pair_def)
next
  case (equal t d l b bv be r)
  have H: "handle_multi_value (fp_insert_pair adj a e) T v = insert_pair_multi adj a e T v (Some b)"
    using equal by (simp add: handle_multi_value_def fp_insert_pair_def)
  have W: "wf_shape (plug d (Node l b bv be r))" "sorted (keys (entries (plug d (Node l b bv be r))))"
    using equal represents_sorted [OF R] by auto
  have T: "T = conc (of_nat (length es)) (plug d (Node l b bv be r))" using equal(1,5) by simp
  have "(\<exists>d' b' bv' be' r'. plug d (Node l b bv be r) = plug d' (Node Leaf b' bv' be' r') \<and> fst v < fst bv' \<and>
       (\<forall>y \<in> set (ctx_before d'). fst (snd y) \<le> fst v) \<and>
       insert_pair_multi adj a e T v (root_ptr (Node l b bv be r)) = insert_pair_node1 adj a e T v (Some b')) \<or>
    (\<exists>d' l' b' bv' be'. plug d (Node l b bv be r) = plug d' (Node l' b' bv' be' Leaf) \<and> fst bv' \<le> fst v \<and>
       all_greater (ctx_after d') (fst v) \<and>
       insert_pair_multi adj a e T v (root_ptr (Node l b bv be r)) = insert_pair_node2 adj a e T v (Some b'))"
    unfolding T by (rule insert_pair_multi_plug [OF W(1) _ W(2) all_less_le [OF equal(7)] equal(8)]) simp_all
  then show ?thesis
    unfolding H root_ptr.simps equal(5) [symmetric]
    by (elim disjE exE conjE) (use multi_node1 [OF R a equal(1-4), of _ _ _ _ _ v e]
      multi_node2 [OF R a equal(1-4), of _ _ _ _ _ v e] in fastforce)+
qed

text \<open>\<open>fp_insert_node\<close> is \<open>fp_insert_pair\<close> on the key with the default value, up to the moment
  the node is counted and the boolean of the result.\<close>

lemma insert_node_new:
  assumes R: "represents pinv T es" and a: "a \<notin> fst ` set es" and k: "k \<notin> set (keys es)"
  shows "\<exists>T'. handle_key (fp_insert_node adj dv a e) T k = Some (T', Some a) \<and>
    represents pinv T' (insert_entry (a, k, dv) es)"
  using R
proof (cases rule: handle_real_cases [where M = False and key = "\<lambda>k. k" and v = k and g = "fp_insert_node adj dv a e"])
  case empty
  from R empty obtain t where T: "T = conc 0 Leaf" by (auto elim!: representsE)
  obtain t' where t': "adj ((conc 0 (Node Leaf a (k, dv) e Leaf))\<lparr>m_pRoot := NULL\<rparr>) (Some a) = Some (conc 0 t')"
    "entries t' = [] @ (a, k, dv) # []" "pinv t'"
    using adj_Top [of 0 a "(k, dv)" e] by auto
  then have "handle_key (fp_insert_node adj dv a e) T k = Some (conc (of_nat (length es) + 1) t', Some a)"
    using empty T
    by (simp add: handle_key_def fp_insert_node_def insert_node_adjust_def construct_empty)
  moreover have "represents pinv (conc (of_nat (length es) + 1) t') (insert_entry (a, k, dv) es)"
    by (rule representsI' [OF t'(2) _ a t'(3) R]) (use empty in auto)
  ultimately show ?thesis by blast
next
  case (node1 t d b bv be r)
  let ?c = "Lft d b bv be r"
  have a': "a \<notin> addr_set t" using a node1(4) by (metis set_addrs)
  have wf: "wf_shape (plug ?c (Node Leaf a (k, dv) e Leaf))" "pinv (plug ?c Leaf)"
    using node1(2,3,5) a' by auto
  obtain t' where t': "adj (conc (of_nat (length es)) (plug ?c (Node Leaf a (k, dv) e Leaf))) (Some a)
      = Some (conc (of_nat (length es)) t')"
    "entries t' = ctx_before d @ (a, k, dv) # (b, bv) # entries r @ ctx_after d" "pinv t'"
    using adj_plug [OF wf, of "of_nat (length es)"] by auto
  have "handle_key (fp_insert_node adj dv a e) T k = Some (conc (of_nat (length es) + 1) t', Some a)"
    using node1 t' link_new1 [of d b bv be r a "of_nat (length es)" "(k, dv)" e] a'
    by (simp add: handle_key_def fp_insert_node_def insert_node_adjust_def)
  moreover have "represents pinv (conc (of_nat (length es) + 1) t') (insert_entry (a, k, dv) es)"
    by (rule representsI' [OF t'(2) _ a t'(3) R]) (use node1 all_less_le [OF node1(7)] in auto)
  ultimately show ?thesis by blast
next
  case (node2 t d l b bv be)
  let ?c = "Rgt l b bv be d"
  have a': "a \<notin> addr_set t" using a node2(4) by (metis set_addrs)
  have wf: "wf_shape (plug ?c (Node Leaf a (k, dv) e Leaf))" "pinv (plug ?c Leaf)"
    using node2(2,3,5) a' by auto
  obtain t' where t': "adj (conc (of_nat (length es)) (plug ?c (Node Leaf a (k, dv) e Leaf))) (Some a)
      = Some (conc (of_nat (length es)) t')"
    "entries t' = (ctx_before d @ entries l @ [(b, bv)]) @ (a, k, dv) # ctx_after d" "pinv t'"
    using adj_plug [OF wf, of "of_nat (length es)"] by auto
  have "handle_key (fp_insert_node adj dv a e) T k = Some (conc (of_nat (length es) + 1) t', Some a)"
    using node2 t' link_new2 [of d l b bv be a "of_nat (length es)" "(k, dv)" e] a'
    by (simp add: handle_key_def fp_insert_node_def insert_node_adjust_def)
  moreover have al: "all_less (ctx_before d @ entries l @ [(b, bv)]) (fst (k, dv))" using node2(6,7) by simp
  have "represents pinv (conc (of_nat (length es) + 1) t') (insert_entry (a, k, dv) es)"
    by (rule representsI' [OF t'(2) _ a t'(3) R all_less_le [OF al]]) (use node2 in auto)
  ultimately show ?thesis by blast
next
  case (equal t d l b bv be r)
  have "k \<in> set (keys es)" unfolding equal(4) [symmetric] equal(5) using equal(6) by simp
  with k show ?thesis by simp
qed

lemma insert_node_present:
  assumes R: "represents pinv T es" and k: "k \<in> set (keys es)"
  shows "\<exists>b w. handle_key (fp_insert_node adj dv a e) T k = Some (T, Some b) \<and> (b, k, w) \<in> set es"
  using R
proof (cases rule: handle_real_cases [where M = False and key = "\<lambda>k. k" and v = k and g = "fp_insert_node adj dv a e"])
  case empty
  then show ?thesis using k by simp
next
  case (node1 t d b bv be r)
  then show ?thesis using k by (auto simp: all_less_def all_greater_def)
next
  case (node2 t d l b bv be)
  then show ?thesis using k by (auto simp: all_less_def all_greater_def)
next
  case (equal t d l b bv be r)
  then have "handle_key (fp_insert_node adj dv a e) T k = Some (T, Some b)"
    by (simp add: handle_key_def fp_insert_node_def)
  moreover have "(b, bv) \<in> set es" unfolding equal(4) [symmetric] equal(5) by simp
  then have "(b, k, snd bv) \<in> set es" using equal(6) by (metis prod.collapse)
  ultimately show ?thesis by blast
qed

end

text \<open>
  Erasing under any policy: a node, a key, all entries with a key, an iterator, a range.
\<close>

subsection \<open>Ordered lists split by a key\<close>

lemma filter_other_keys:
  "all_less xs k \<Longrightarrow> filter (\<lambda>x. fst (snd x) \<noteq> k) xs = xs"
  "all_greater xs k \<Longrightarrow> filter (\<lambda>x. fst (snd x) \<noteq> k) xs = xs"
  by (induction xs) auto

lemma filter_same_key:
  "all_less xs k \<Longrightarrow> filter (\<lambda>x. fst (snd x) = k) xs = []"
  "all_greater xs k \<Longrightarrow> filter (\<lambda>x. fst (snd x) = k) xs = []"
  by (induction xs) auto

lemma sorted_next_split:
  assumes "sorted (keys ys)" and "\<forall>x \<in> set (keys ys). k \<le> x"
  shows "dropWhile (\<lambda>x. \<not> k < fst (snd x)) ys = filter (\<lambda>x. fst (snd x) \<noteq> k) ys \<and>
    takeWhile (\<lambda>x. \<not> k < fst (snd x)) ys = filter (\<lambda>x. fst (snd x) = k) ys"
  using assms
proof (induction ys)
  case (Cons y ys)
  show ?case
  proof (cases "k < fst (snd y)")
    case True
    then have "all_greater (y # ys) k" using Cons.prems by (auto simp: all_greater_def)
    from filter_other_keys(2) [OF this] filter_same_key(2) [OF this] True show ?thesis by simp
  next
    case False
    then have "fst (snd y) = k" using Cons.prems by auto
    then show ?thesis using Cons by simp
  qed
qed simp

lemma sorted_prev_split:
  assumes "sorted (keys xs)" and "\<forall>x \<in> set (keys xs). x \<le> k"
  shows "rev (dropWhile (\<lambda>x. \<not> fst (snd x) < k) (rev xs)) = filter (\<lambda>x. fst (snd x) \<noteq> k) xs \<and>
    rev (takeWhile (\<lambda>x. \<not> fst (snd x) < k) (rev xs)) = filter (\<lambda>x. fst (snd x) = k) xs"
  using assms
proof (induction xs rule: rev_induct)
  case (snoc y xs)
  show ?case
  proof (cases "fst (snd y) < k")
    case True
    then have "all_less (xs @ [y]) k" using snoc.prems by (auto simp: all_less_def sorted_append)
    from filter_other_keys(1) [OF this] filter_same_key(1) [OF this] True show ?thesis by simp
  next
    case False
    then have "fst (snd y) = k" using snoc.prems by auto
    then show ?thesis using snoc by (simp add: sorted_append)
  qed
qed simp

context bst_policy
begin

lemma do_erase_plug:
  assumes wf: "wf_shape t" and inv: "pinv t" and es: "entries t = xs @ (a, v) # ys"
  shows "\<exists>t'. do_erase del (conc m t) (Some a) = Some (conc (m - 1) t') \<and>
    entries t' = xs @ ys \<and> wf_shape t' \<and> pinv t'"
proof -
  obtain c l e r where t: "t = plug c (Node l a v e r)"
    and xs: "xs = ctx_before c @ entries l" and ys: "ys = entries r @ ctx_after c"
    using shape_focus_entries [OF es wf] by metis
  have nd: "deref (conc m t) (Some a) = Some (node_at c l v e r)"
    using wf t by (simp add: heap_simps)
  have fin: "wf_shape t'" if "entries t' = xs @ ys" for t' :: "('k, 'v, 'e) shape"
    using wf that unfolding wf_shape_iff es by simp
  show ?thesis
  proof (cases "l = Leaf \<or> r = Leaf")
    case True
    then obtain k where k: "l = Leaf \<and> k = r \<or> r = Leaf \<and> k = l" by blast
    obtain t' where t': "del (conc m t) (Some a) = Some (conc m t')" "entries t' = entries (plug c k)" "pinv t'"
      using del_plug [OF wf [unfolded t] inv [unfolded t] k, of m] t by auto
    have "entries t' = xs @ ys" using t'(2) k xs ys by auto
    with t' True nd fin show ?thesis by (auto simp: do_erase_def)
  next
    case False
    then obtain d A x xv xe where l: "l = plug d (Node A x xv xe Leaf)" and d: "ctx_after d = []"
      using split_rightmost [of l] by blast
    have mx: "nd_max (conc m t) (root_ptr l) = Some (Some x)"
      using nd_max_plug [of "Lft c a v e r" l m] wf t l d by simp
    let ?C = "ctx_append (Lft c x xv e r) d"
    have sw: "do_erase_swap_node (conc m t) (Some a) (Some x) = Some (conc m (plug ?C (Node A a v xe Leaf)))"
      using swap_node_conc [of c d A x xv xe a v e r m] wf t l d False by (simp add: plug_ctx_append)
    have "wf_shape (plug ?C (Node A a v xe Leaf))"
      using wf t l by (auto simp: plug_ctx_append)
    moreover have "skel (plug ?C (Node A a v xe Leaf)) = skel t"
      unfolding t l plug_ctx_append plug.simps by (rule skel_plug_cong) (simp add: skel_plug_cong)
    then have "pinv (plug ?C (Node A a v xe Leaf))" using inv pinv_skel by metis
    ultimately obtain t' where t': "del (conc m (plug ?C (Node A a v xe Leaf))) (Some a) = Some (conc m t')"
      "entries t' = entries (plug ?C A)" "pinv t'"
      using del_plug [of ?C A a v xe Leaf A m] by blast
    have "entries t' = xs @ ys" using t'(2) xs ys l d by (simp add: plug_ctx_append)
    then show ?thesis
      using t' nd False mx sw fin by (auto simp: do_erase_def)
  qed
qed

lemma do_erase_ok:
  assumes R: "represents pinv T (xs @ (a, v) # ys)"
  shows "\<exists>T'. do_erase del T (Some a) = Some T' \<and> represents pinv T' (xs @ ys)"
proof -
  obtain t where t: "T = conc (of_nat (length (xs @ (a, v) # ys))) t" "wf_shape t" "pinv t"
    "entries t = xs @ (a, v) # ys" "sorted (keys (xs @ (a, v) # ys))"
    using R by (rule representsE)
  obtain t' where t': "do_erase del T (Some a) = Some (conc (of_nat (length (xs @ (a, v) # ys)) - 1) t')"
    "entries t' = xs @ ys" "wf_shape t'" "pinv t'"
    using do_erase_plug [OF t(2-4), of "of_nat (length (xs @ (a, v) # ys))"] t(1) by auto
  have "sorted (keys (xs @ ys))" using t(5) by (auto simp: sorted_append)
  then have "represents pinv (conc (of_nat (length (xs @ ys))) t') (xs @ ys)"
    using t' by (intro representsI)
  with t'(1) show ?thesis by auto
qed

lemma nd_inc_represents:
  assumes "represents pinv T (xs @ (a, v) # ys)"
  shows "nd_inc T (Some a) = Some (hd_ptr ys)" "nd_dec T (Some a) = Some (last_ptr xs)"
proof -
  obtain t where "T = conc (of_nat (length (xs @ (a, v) # ys))) t" "wf_shape t" "pinv t"
    "entries t = xs @ (a, v) # ys"
    using assms by (rule representsE)
  then show "nd_inc T (Some a) = Some (hd_ptr ys)" "nd_dec T (Some a) = Some (last_ptr xs)"
    by (simp_all add: nd_inc_conc nd_dec_conc)
qed

lemma deref_represents:
  assumes "represents pinv T (xs @ (a, v) # ys)"
  shows "\<exists>nd. deref T (Some a) = Some nd \<and> nd_key nd = fst v"
proof -
  obtain t where t: "T = conc (of_nat (length (xs @ (a, v) # ys))) t" "wf_shape t" "pinv t"
    "entries t = xs @ (a, v) # ys"
    using assms by (rule representsE)
  obtain c l e r where "t = plug c (Node l a v e r)"
    using shape_focus_entries [OF t(4,2)] by metis
  with t(1,2) show ?thesis by (simp add: heap_simps nd_key_def)
qed

text \<open>\<open>erase(key)\<close> with unique keys.\<close>

lemma erase_key_present:
  assumes R: "represents pinv T es" and D: "distinct (keys es)" and k: "k \<in> set (keys es)"
  shows "\<exists>T'. handle_key (fp_erase del) T k = Some (T', 1) \<and>
    represents pinv T' (filter (\<lambda>x. fst (snd x) \<noteq> k) es)"
  using R
proof (cases rule: handle_real_cases [where M = False and key = "\<lambda>k. k" and v = k and g = "fp_erase del"])
  case empty
  then show ?thesis using k by simp
next
  case (node1 t d b bv be r)
  then show ?thesis using k by (auto simp: all_less_def all_greater_def)
next
  case (node2 t d l b bv be)
  then show ?thesis using k by (auto simp: all_less_def all_greater_def)
next
  case (equal t d l b bv be r)
  let ?xs = "ctx_before d @ entries l" and ?ys = "entries r @ ctx_after d"
  have es: "es = ?xs @ (b, bv) # ?ys" using equal(4,5) by simp
  obtain T' where T': "do_erase del T (Some b) = Some T'" "represents pinv T' (?xs @ ?ys)"
    using do_erase_ok [OF R [unfolded es]] by blast
  have "all_less ?xs k" "all_greater ?ys k"
    using distinct_keys_split [of ?xs b bv ?ys] represents_sorted [OF R] D es equal(6) by simp_all
  then have "filter (\<lambda>x. fst (snd x) \<noteq> k) ?xs = ?xs" "filter (\<lambda>x. fst (snd x) \<noteq> k) ?ys = ?ys"
    by (simp_all only: filter_other_keys)
  then have "filter (\<lambda>x. fst (snd x) \<noteq> k) es = ?xs @ ?ys"
    unfolding es using equal(6) by simp
  with T' equal show ?thesis
    by (auto simp: handle_key_def fp_erase_def)
qed

lemma erase_key_absent:
  assumes R: "represents pinv T es" and k: "k \<notin> set (keys es)"
  shows "handle_key (fp_erase del) T k = Some (T, 0)"
  using R
proof (cases rule: handle_real_cases [where M = False and key = "\<lambda>k. k" and v = k and g = "fp_erase del"])
  case (equal t d l b bv be r)
  have "k \<in> set (keys es)" unfolding equal(4) [symmetric] equal(5) using equal(6) by simp
  with k show ?thesis by simp
qed (simp_all add: handle_key_def fp_erase_def)

text \<open>The two loops of \<open>fp_erase::handle_multi\<close>.\<close>

lemma erase_next_loop_ok:
  "represents pinv T (xs @ (a, v) # ys) \<Longrightarrow> \<exists>T'. erase_next_loop del T k (Some a) num =
     Some (T', num + of_nat (length (takeWhile (\<lambda>x. \<not> k < fst (snd x)) ys))) \<and>
     represents pinv T' (xs @ (a, v) # dropWhile (\<lambda>x. \<not> k < fst (snd x)) ys)"
proof (induction ys arbitrary: T num)
  case Nil
  then show ?case
    using nd_inc_represents(1) [OF Nil] by (subst erase_next_loop.simps) simp
next
  case (Cons y ys)
  obtain b w where y: "y = (b, w)" by (cases y)
  have i: "nd_inc T (Some a) = Some (Some b)"
    using nd_inc_represents(1) [OF Cons.prems] y by simp
  obtain nd where nd: "deref T (Some b) = Some nd" "nd_key nd = fst w"
    using deref_represents [of T "xs @ [(a, v)]" b w ys] Cons.prems y by auto
  show ?case
  proof (cases "k < fst w")
    case True
    then show ?thesis using Cons.prems i nd y by (subst erase_next_loop.simps) simp
  next
    case False
    obtain T1 where T1: "do_erase del T (Some b) = Some T1" "represents pinv T1 (xs @ (a, v) # ys)"
      using do_erase_ok [of T "xs @ [(a, v)]" b w ys] Cons.prems y by auto
    have "erase_next_loop del T k (Some a) num = erase_next_loop del T1 k (Some a) (num + 1)"
      using i nd False T1 by (subst erase_next_loop.simps) simp
    then show ?thesis using Cons.IH [OF T1(2), of "num + 1"] y False by (auto simp: add.assoc)
  qed
qed

lemma erase_prev_loop_ok:
  "represents pinv T (xs @ (a, v) # ys) \<Longrightarrow> \<exists>T'. erase_prev_loop del T k (Some a) num =
     Some (T', num + of_nat (length (takeWhile (\<lambda>x. \<not> fst (snd x) < k) (rev xs)))) \<and>
     represents pinv T' (rev (dropWhile (\<lambda>x. \<not> fst (snd x) < k) (rev xs)) @ (a, v) # ys)"
proof (induction xs arbitrary: T num rule: rev_induct)
  case Nil
  then show ?case
    using nd_inc_represents(2) [OF Nil] by (subst erase_prev_loop.simps) simp
next
  case (snoc y xs)
  obtain b w where y: "y = (b, w)" by (cases y)
  have i: "nd_dec T (Some a) = Some (Some b)"
    using nd_inc_represents(2) [OF snoc.prems] y by simp
  obtain nd where nd: "deref T (Some b) = Some nd" "nd_key nd = fst w"
    using deref_represents [of T xs b w "(a, v) # ys"] snoc.prems y by auto
  show ?case
  proof (cases "fst w < k")
    case True
    then show ?thesis using snoc.prems i nd y by (subst erase_prev_loop.simps) simp
  next
    case False
    obtain T1 where T1: "do_erase del T (Some b) = Some T1" "represents pinv T1 (xs @ (a, v) # ys)"
      using do_erase_ok [of T xs b w "(a, v) # ys"] snoc.prems y by auto
    have "erase_prev_loop del T k (Some a) num = erase_prev_loop del T1 k (Some a) (num + 1)"
      using i nd False T1 by (subst erase_prev_loop.simps) simp
    then show ?thesis using snoc.IH [OF T1(2), of "num + 1"] y False by (auto simp: add.assoc)
  qed
qed

text \<open>\<open>erase(key)\<close> of the multi containers removes every entry with the key and returns how
  many there were.\<close>

lemma erase_multi_ok:
  assumes R: "represents pinv T es"
  shows "\<exists>T'. handle_multi_key (fp_erase del) T k =
      Some (T', of_nat (length (filter (\<lambda>x. fst (snd x) = k) es))) \<and>
    represents pinv T' (filter (\<lambda>x. fst (snd x) \<noteq> k) es)"
  using R
proof (cases rule: handle_real_cases [where M = True and key = "\<lambda>k. k" and v = k and g = "fp_erase del"])
  case empty
  then show ?thesis using R by (simp add: handle_multi_key_def fp_erase_def)
next
  case (node1 t d b bv be r)
  then have "k \<notin> set (keys es)" by (auto simp: all_less_def all_greater_def)
  then have "filter (\<lambda>x. fst (snd x) = k) es = []" "filter (\<lambda>x. fst (snd x) \<noteq> k) es = es"
    by (auto simp: filter_empty_conv filter_id_conv set_keys)
  with node1 R show ?thesis by (simp add: handle_multi_key_def fp_erase_def)
next
  case (node2 t d l b bv be)
  then have "k \<notin> set (keys es)" by (auto simp: all_less_def all_greater_def)
  then have "filter (\<lambda>x. fst (snd x) = k) es = []" "filter (\<lambda>x. fst (snd x) \<noteq> k) es = es"
    by (auto simp: filter_empty_conv filter_id_conv set_keys)
  with node2 R show ?thesis by (simp add: handle_multi_key_def fp_erase_def)
next
  case (equal t d l b bv be r)
  define xs ys where "xs = ctx_before d @ entries l" and "ys = entries r @ ctx_after d"
  have es: "es = xs @ (b, bv) # ys" using equal(4,5) by (simp add: xs_def ys_def)
  have srt: "sorted (keys xs)" "sorted (keys ys)" "\<forall>x \<in> set (keys xs). x \<le> k" "\<forall>x \<in> set (keys ys). k \<le> x"
    using represents_sorted [OF R] es equal(6) by (auto simp: sorted_append)
  let ?xs = "filter (\<lambda>x. fst (snd x) \<noteq> k) xs" and ?ys = "filter (\<lambda>x. fst (snd x) \<noteq> k) ys"
  obtain T1 where T1: "erase_next_loop del T k (Some b) 1 =
      Some (T1, 1 + of_nat (length (filter (\<lambda>x. fst (snd x) = k) ys)))" "represents pinv T1 (xs @ (b, bv) # ?ys)"
    using erase_next_loop_ok [OF R [unfolded es], of k 1] sorted_next_split [OF srt(2,4)] by auto
  have len: "length (takeWhile (\<lambda>x. \<not> fst (snd x) < k) (rev xs)) = length (filter (\<lambda>x. fst (snd x) = k) xs)"
    using arg_cong [OF conjunct2 [OF sorted_prev_split [OF srt(1,3)]], of length] by simp
  let ?n = "1 + of_nat (length (filter (\<lambda>x. fst (snd x) = k) ys)) :: size_t"
  obtain T2 where T2: "erase_prev_loop del T1 k (Some b) ?n =
      Some (T2, ?n + of_nat (length (filter (\<lambda>x. fst (snd x) = k) xs)))" "represents pinv T2 (?xs @ (b, bv) # ?ys)"
    using erase_prev_loop_ok [OF T1(2), of k ?n] sorted_prev_split [OF srt(1,3)] len by auto
  obtain T3 where T3: "do_erase del T2 (Some b) = Some T3" "represents pinv T3 (?xs @ ?ys)"
    using do_erase_ok [OF T2(2)] by blast
  have "handle_multi_key (fp_erase del) T k = Some (T3, ?n + of_nat (length (filter (\<lambda>x. fst (snd x) = k) xs)))"
    using equal(9) T1 T2 T3 by (simp add: handle_multi_key_def fp_erase_def)
  moreover have "filter (\<lambda>x. fst (snd x) \<noteq> k) es = ?xs @ ?ys" using es equal(6) by simp
  moreover have "?n + of_nat (length (filter (\<lambda>x. fst (snd x) = k) xs)) =
      of_nat (length (filter (\<lambda>x. fst (snd x) = k) es))" using es equal(6) by simp
  ultimately show ?thesis using T3(2) by simp
qed

text \<open>\<open>erase(iterator)\<close> removes the entry and returns the next one; \<open>erase(first, last)\<close>
  removes the entries from the first up to the last, exclusive.\<close>

lemma erase_iter_ok:
  assumes R: "represents pinv T (xs @ (a, v) # ys)"
  shows "\<exists>T'. erase_iter del T (Some a) = Some (T', hd_ptr ys) \<and> represents pinv T' (xs @ ys)"
  using do_erase_ok [OF R] nd_inc_represents(1) [OF R] by (auto simp: erase_iter_def)

lemma erase_range_ok:
  "represents pinv T (xs @ ys @ zs) \<Longrightarrow> \<exists>T'. erase_range del T (hd_ptr (ys @ zs)) (hd_ptr zs) =
     Some (T', hd_ptr zs) \<and> represents pinv T' (xs @ zs)"
proof (induction ys arbitrary: T)
  case Nil
  then show ?case by (subst erase_range.simps) auto
next
  case (Cons y ys)
  obtain a v where y: "y = (a, v)" by (cases y)
  have R: "represents pinv T (xs @ (a, v) # (ys @ zs))" using Cons.prems y by simp
  have "distinct (map fst (xs @ (a, v) # (ys @ zs)))"
    using R unfolding represents_def wf_shape_iff by metis
  then have "hd_ptr zs \<noteq> Some a" by (cases zs) auto
  moreover have "nd_inc T (Some a) = Some (hd_ptr (ys @ zs))" by (rule nd_inc_represents(1) [OF R])
  moreover obtain T1 where T1: "do_erase del T (Some a) = Some T1" "represents pinv T1 (xs @ ys @ zs)"
    using do_erase_ok [OF R] by auto
  ultimately have "erase_range del T (hd_ptr ((y # ys) @ zs)) (hd_ptr zs) = erase_range del T1 (hd_ptr (ys @ zs)) (hd_ptr zs)"
    using y by (subst erase_range.simps) (auto simp: iter_fwd_def)
  with Cons.IH [OF T1(2)] show ?case by simp
qed

end

end
