(* ===== verification/Rbt_Policy.thy ===== *)
theory Rbt_Policy
  imports Bst_Rotate
begin

text \<open>
  The red-black policy (\<open>inc/vhwd/collection/detail/rbt_tree_policy.h\<close>): \<open>rbt_trait\<close> and
  \<open>rbt_tree\<close>. The cases of the insertion and deletion fix-ups are one definition each. Where
  the code ends a case with a call of \<open>adjust_insert_case1(g)\<close> or \<open>adjust_delete_case1(p)\<close>
  on a node further up, the definition returns that node as a pending call, and the loop of
  \<open>adjust_insert_case1\<close> or \<open>adjust_delete_case1\<close> makes it.
\<close>

datatype rbt_color = RBT_COLOR_RED | RBT_COLOR_BLACK

type_synonym ('k, 'v) rbt = "('k, 'v, rbt_color) bst_tree"
type_synonym ('k, 'v) rbt_shape = "('k, 'v, rbt_color) shape"

definition is_red :: "('k, 'v) rbt \<Rightarrow> ptr \<Rightarrow> bool option" where
  "is_red t node = (if node = NULL then Some False
     else do { nd \<leftarrow> deref t node; Some (extra nd = RBT_COLOR_RED) })"

definition is_black :: "('k, 'v) rbt \<Rightarrow> ptr \<Rightarrow> bool option" where
  "is_black t node = (if node = NULL then Some True
     else do { nd \<leftarrow> deref t node; Some (extra nd = RBT_COLOR_BLACK) })"

definition mark_red :: "('k, 'v) rbt \<Rightarrow> ptr \<Rightarrow> ('k, 'v) rbt option" where
  "mark_red t node = upd t node (extra_update (\<lambda>_. RBT_COLOR_RED))"

definition mark_black :: "('k, 'v) rbt \<Rightarrow> ptr \<Rightarrow> ('k, 'v) rbt option" where
  "mark_black t node = (if node \<noteq> NULL then upd t node (extra_update (\<lambda>_. RBT_COLOR_BLACK))
     else Some t)"

definition mark :: "('k, 'v) rbt \<Rightarrow> ptr \<Rightarrow> ptr \<Rightarrow> ('k, 'v) rbt option" where
  "mark t node pref = do { p \<leftarrow> deref t pref; upd t node (extra_update (\<lambda>_. extra p)) }"

definition mark_inv :: "('k, 'v) rbt \<Rightarrow> ptr \<Rightarrow> ('k, 'v) rbt option" where
  "mark_inv t node = do { nd \<leftarrow> deref t node;
     upd t node (extra_update (\<lambda>_. if extra nd = RBT_COLOR_RED then RBT_COLOR_BLACK
       else RBT_COLOR_RED)) }"

subsection \<open>Insertion\<close>

definition adjust_insert_case5 :: "('k, 'v) rbt \<Rightarrow> ptr \<Rightarrow> ('k, 'v) rbt option" where
  "adjust_insert_case5 t n = do {
     nd \<leftarrow> deref t n;
     let p = parent nd;
     pd \<leftarrow> deref t p;
     let g = parent pd;
     t \<leftarrow> mark_black t p;
     t \<leftarrow> mark_red t g;
     pd \<leftarrow> deref t p;
     gd \<leftarrow> deref t g;
     if n = child1 pd \<and> p = child1 gd then rotate_right t g
     else if n = child2 pd \<and> p = child2 gd then rotate_left t g
     else Some t }"

definition adjust_insert_case4 :: "('k, 'v) rbt \<Rightarrow> ptr \<Rightarrow> ptr \<Rightarrow> ('k, 'v) rbt option" where
  "adjust_insert_case4 t p n = do {
     pd \<leftarrow> deref t p;
     let g = parent pd;
     gd \<leftarrow> deref t g;
     if n = child2 pd \<and> p = child1 gd then do {
       t \<leftarrow> rotate_left t p;
       nd \<leftarrow> deref t n;
       adjust_insert_case5 t (child1 nd) }
     else if n = child1 pd \<and> p = child2 gd then do {
       t \<leftarrow> rotate_right t p;
       nd \<leftarrow> deref t n;
       adjust_insert_case5 t (child2 nd) }
     else adjust_insert_case5 t n }"

text \<open>The second component is the node of a pending call \<open>adjust_insert_case1\<close>, or NULL.\<close>

definition adjust_insert_case3 :: "('k, 'v) rbt \<Rightarrow> ptr \<Rightarrow> ptr \<Rightarrow> (('k, 'v) rbt \<times> ptr) option" where
  "adjust_insert_case3 t p n = do {
     pd \<leftarrow> deref t p;
     let g = parent pd;
     gd \<leftarrow> deref t g;
     r1 \<leftarrow> is_red t (child1 gd);
     r2 \<leftarrow> (if r1 then is_red t (child2 gd) else Some False);
     if r1 \<and> r2 then do {
       t \<leftarrow> mark_black t (child1 gd);
       t \<leftarrow> mark_black t (child2 gd);
       t \<leftarrow> mark_red t g;
       Some (t, g) }
     else do {
       t \<leftarrow> adjust_insert_case4 t p n;
       Some (t, NULL) } }"

definition adjust_insert_case2 :: "('k, 'v) rbt \<Rightarrow> ptr \<Rightarrow> ptr \<Rightarrow> (('k, 'v) rbt \<times> ptr) option" where
  "adjust_insert_case2 t p n = do {
     b \<leftarrow> is_black t p;
     if b then Some (t, NULL) else adjust_insert_case3 t p n }"

partial_function (option) adjust_insert_case1 :: "('k, 'v) rbt \<Rightarrow> ptr \<Rightarrow> ('k, 'v) rbt option" where
  "adjust_insert_case1 t n = do {
     nd \<leftarrow> deref t n;
     if parent nd = NULL then mark_black (t\<lparr>m_pRoot := n\<rparr>) n
     else do {
       r \<leftarrow> adjust_insert_case2 t (parent nd) n;
       if snd r = NULL then Some (fst r) else adjust_insert_case1 (fst r) (snd r) } }"

definition rbt_adjust_insert :: "('k, 'v) rbt \<Rightarrow> ptr \<Rightarrow> ('k, 'v) rbt option" where
  "rbt_adjust_insert t n = do {
     t \<leftarrow> mark_red t n;
     adjust_insert_case1 t n }"

subsection \<open>Deletion\<close>

definition adjust_delete_case6 :: "('k, 'v) rbt \<Rightarrow> ptr \<Rightarrow> ptr \<Rightarrow> ('k, 'v) rbt option" where
  "adjust_delete_case6 t p s = do {
     t \<leftarrow> mark t s p;
     t \<leftarrow> mark_black t p;
     pd \<leftarrow> deref t p;
     if s = child2 pd then do {
       sd \<leftarrow> deref t s;
       t \<leftarrow> mark_black t (child2 sd);
       rotate_left t p }
     else do {
       sd \<leftarrow> deref t s;
       t \<leftarrow> mark_black t (child1 sd);
       rotate_right t p } }"

definition adjust_delete_case5 :: "('k, 'v) rbt \<Rightarrow> ptr \<Rightarrow> ptr \<Rightarrow> ('k, 'v) rbt option" where
  "adjust_delete_case5 t p s = do {
     b \<leftarrow> is_black t s;
     wassert b;
     pd \<leftarrow> deref t p;
     sd \<leftarrow> deref t s;
     b1 \<leftarrow> is_black t (child1 sd);
     r1 \<leftarrow> is_red t (child1 sd);
     b2 \<leftarrow> is_black t (child2 sd);
     r2 \<leftarrow> is_red t (child2 sd);
     if s = child2 pd \<and> b2 \<and> r1 then do {
       t \<leftarrow> mark_red t s;
       t \<leftarrow> mark_black t (child1 sd);
       t \<leftarrow> rotate_right t s;
       pd \<leftarrow> deref t p;
       adjust_delete_case6 t p (child2 pd) }
     else if s = child1 pd \<and> b1 \<and> r2 then do {
       t \<leftarrow> mark_red t s;
       t \<leftarrow> mark_black t (child2 sd);
       t \<leftarrow> rotate_left t s;
       pd \<leftarrow> deref t p;
       adjust_delete_case6 t p (child1 pd) }
     else adjust_delete_case6 t p s }"

text \<open>Cases 3 and 4. The second component is the node of a pending call
  \<open>adjust_delete_case1\<close>, or NULL.\<close>

definition adjust_delete_case3 :: "('k, 'v) rbt \<Rightarrow> ptr \<Rightarrow> ptr \<Rightarrow> (('k, 'v) rbt \<times> ptr) option" where
  "adjust_delete_case3 t p s = do {
     b \<leftarrow> is_black t s;
     wassert b;
     sd \<leftarrow> deref t s;
     b1 \<leftarrow> is_black t (child1 sd);
     b2 \<leftarrow> (if b1 then is_black t (child2 sd) else Some False);
     if b1 \<and> b2 then do {
       bp \<leftarrow> is_black t p;
       if bp then do {
         t \<leftarrow> mark_red t s;
         Some (t, p) }
       else do {
         t \<leftarrow> mark_red t s;
         t \<leftarrow> mark_black t p;
         Some (t, NULL) } }
     else do {
       t \<leftarrow> adjust_delete_case5 t p s;
       Some (t, NULL) } }"

definition adjust_delete_case2 :: "('k, 'v) rbt \<Rightarrow> ptr \<Rightarrow> ptr \<Rightarrow> (('k, 'v) rbt \<times> ptr) option" where
  "adjust_delete_case2 t p s = do {
     r \<leftarrow> is_red t s;
     if r then do {
       t \<leftarrow> mark_black t s;
       t \<leftarrow> mark_red t p;
       pd \<leftarrow> deref t p;
       if s = child2 pd then do {
         t \<leftarrow> rotate_left t p;
         pd \<leftarrow> deref t p;
         adjust_delete_case3 t p (child2 pd) }
       else do {
         t \<leftarrow> rotate_right t p;
         pd \<leftarrow> deref t p;
         adjust_delete_case3 t p (child1 pd) } }
     else adjust_delete_case3 t p s }"

partial_function (option) adjust_delete_case1 :: "('k, 'v) rbt \<Rightarrow> ptr \<Rightarrow> ('k, 'v) rbt option" where
  "adjust_delete_case1 t n = do {
     nd \<leftarrow> deref t n;
     if parent nd = NULL then do {
       b \<leftarrow> is_black t n;
       wassert b;
       Some t }
     else do {
       pd \<leftarrow> deref t (parent nd);
       r \<leftarrow> adjust_delete_case2 t (parent nd) (if child1 pd = n then child2 pd else child1 pd);
       if snd r = NULL then Some (fst r) else adjust_delete_case1 (fst r) (snd r) } }"

text \<open>Running the pending call that a case of the deletion leaves.\<close>

definition adjust_delete_rest :: "('k, 'v) rbt \<times> ptr \<Rightarrow> ('k, 'v) rbt option" where
  "adjust_delete_rest r = (if snd r = NULL then Some (fst r) else adjust_delete_case1 (fst r) (snd r))"

definition rbt_delete_one_child :: "('k, 'v) rbt \<Rightarrow> ptr \<Rightarrow> ('k, 'v) rbt option" where
  "rbt_delete_one_child t n = do {
     nd \<leftarrow> deref t n;
     let child = (if child1 nd \<noteq> NULL then child1 nd else child2 nd);
     let p = parent nd;
     t \<leftarrow> (if p = NULL then
       (if child \<noteq> NULL then do {
          t \<leftarrow> Some (t\<lparr>m_pRoot := child\<rparr>);
          t \<leftarrow> upd t (m_pRoot t) (parent_update (\<lambda>_. NULL));
          mark_black t (m_pRoot t) }
        else Some (t\<lparr>m_pRoot := NULL\<rparr>))
     else do {
       pd \<leftarrow> deref t p;
       t \<leftarrow> (if child1 pd = n then upd t p (child1_update (\<lambda>_. child))
             else upd t p (child2_update (\<lambda>_. child)));
       if child \<noteq> NULL then do {
         t \<leftarrow> upd t child (parent_update (\<lambda>_. p));
         b \<leftarrow> is_black t n;
         if b then do {
           r \<leftarrow> is_red t child;
           if r then mark_black t child else adjust_delete_case1 t child }
         else Some t }
       else do {
         b \<leftarrow> is_black t n;
         if b then do {
           pd \<leftarrow> deref t p;
           let s = (if child1 pd = NULL then child2 pd else child1 pd);
           r \<leftarrow> adjust_delete_case2 t p s;
           adjust_delete_rest r }
         else Some t } });
     bst_destroy t n }"

subsection \<open>Validation\<close>

text \<open>\<open>return p1+is_black(p)?1:0\<close> parses as \<open>(p1+is_black(p)) ? 1 : 0\<close>, and is modelled so.\<close>

partial_function (option) rbt_depth_real :: "('k, 'v) rbt \<Rightarrow> ptr \<Rightarrow> int option" where
  "rbt_depth_real t p = (if p = NULL then Some 0 else do {
     nd \<leftarrow> deref t p;
     p1 \<leftarrow> rbt_depth_real t (child1 nd);
     p2 \<leftarrow> rbt_depth_real t (child2 nd);
     if p1 < 0 \<or> p2 < 0 \<or> p1 \<noteq> p2 then Some (-1)
     else do {
       b \<leftarrow> is_black t p;
       Some (if p1 + (if b then 1 else 0) \<noteq> 0 then 1 else 0) } })"

definition rbt_depth :: "('k, 'v) rbt \<Rightarrow> int option" where
  "rbt_depth t = rbt_depth_real t (m_pRoot t)"

definition rbt_bst_validate :: "('k, 'v) rbt \<Rightarrow> bool option" where
  "rbt_bst_validate t = do { d \<leftarrow> rbt_depth t; Some (d \<ge> 0) }"

end
