(* ===== verification/Rbt_Insert.thy ===== *)
theory Rbt_Insert
  imports Rbt_Policy
begin

text \<open>
  The red-black invariant on shapes and contexts, and the correctness of the insertion
  fix-up: it returns, keeps the in-order list of entries and restores the invariant.
\<close>

subsection \<open>Colours and black heights\<close>

abbreviation "RED \<equiv> RBT_COLOR_RED"
abbreviation "BLACK \<equiv> RBT_COLOR_BLACK"

lemma rbt_color_cases [simp]: "e \<noteq> BLACK \<longleftrightarrow> e = RED" "e \<noteq> RED \<longleftrightarrow> e = BLACK"
  by (cases e; simp)+

fun color :: "('k, 'v) rbt_shape \<Rightarrow> rbt_color" where
  "color Leaf = BLACK"
| "color (Node l a v e r) = e"

definition bw :: "rbt_color \<Rightarrow> nat" where
  "bw e = (if e = BLACK then 1 else 0)"

lemma bw_simps [simp]: "bw BLACK = 1" "bw RED = 0"
  by (simp_all add: bw_def)

fun bheight :: "('k, 'v) rbt_shape \<Rightarrow> nat" where
  "bheight Leaf = 0"
| "bheight (Node l a v e r) = bheight l + bw e"

fun invc :: "('k, 'v) rbt_shape \<Rightarrow> bool" where
  "invc Leaf \<longleftrightarrow> True"
| "invc (Node l a v e r) \<longleftrightarrow> invc l \<and> invc r \<and> (e = RED \<longrightarrow> color l = BLACK \<and> color r = BLACK)"

fun invh :: "('k, 'v) rbt_shape \<Rightarrow> bool" where
  "invh Leaf \<longleftrightarrow> True"
| "invh (Node l a v e r) \<longleftrightarrow> invh l \<and> invh r \<and> bheight l = bheight r"

definition rbt_inv :: "('k, 'v) rbt_shape \<Rightarrow> bool" where
  "rbt_inv t \<longleftrightarrow> color t = BLACK \<and> invc t \<and> invh t"

text \<open>The same for contexts. The top counts as red: what fills it is the root, which is black.\<close>

fun top_color :: "('k, 'v, rbt_color) ctx \<Rightarrow> rbt_color" where
  "top_color Top = RED"
| "top_color (Lft c a v e r) = e"
| "top_color (Rgt l a v e c) = e"

fun invc_ctx :: "('k, 'v, rbt_color) ctx \<Rightarrow> bool" where
  "invc_ctx Top \<longleftrightarrow> True"
| "invc_ctx (Lft c a v e r) \<longleftrightarrow> invc_ctx c \<and> invc r \<and>
     (e = RED \<longrightarrow> color r = BLACK \<and> top_color c = BLACK)"
| "invc_ctx (Rgt l a v e c) \<longleftrightarrow> invc_ctx c \<and> invc l \<and>
     (e = RED \<longrightarrow> color l = BLACK \<and> top_color c = BLACK)"

text \<open>\<open>invh_ctx c h\<close>: the context is balanced when the hole has black height \<open>h\<close>.\<close>

fun invh_ctx :: "('k, 'v, rbt_color) ctx \<Rightarrow> nat \<Rightarrow> bool" where
  "invh_ctx Top h \<longleftrightarrow> True"
| "invh_ctx (Lft c a v e r) h \<longleftrightarrow> invh_ctx c (h + bw e) \<and> invh r \<and> bheight r = h"
| "invh_ctx (Rgt l a v e c) h \<longleftrightarrow> invh_ctx c (h + bw e) \<and> invh l \<and> bheight l = h"

lemma invc_plug:
  "invc (plug c t) \<and> color (plug c t) = BLACK \<longleftrightarrow>
   invc_ctx c \<and> invc t \<and> (top_color c = RED \<longrightarrow> color t = BLACK)"
  by (induction c arbitrary: t) auto

lemma invh_plug: "invh (plug c t) \<longleftrightarrow> invh t \<and> invh_ctx c (bheight t)"
  by (induction c arbitrary: t) auto

lemma rbt_inv_plug: "rbt_inv (plug c t) \<longleftrightarrow>
   invc_ctx c \<and> invc t \<and> (top_color c = RED \<longrightarrow> color t = BLACK) \<and> invh t \<and> invh_ctx c (bheight t)"
  using invc_plug [of c t] invh_plug [of c t] by (auto simp: rbt_inv_def)

lemmas rbt_defs = is_red_def is_black_def mark_red_def mark_black_def mark_def

lemma color_neq_Leaf: "color t = RED \<Longrightarrow> \<exists>l a v r. t = Node l a v RED r"
  by (cases t) auto

subsection \<open>The final rotations (cases 4 and 5)\<close>

lemma case5_LL:
  assumes "wf_shape (plug c (Node (Node (Node A n nv ne B) p pv pe C) g gv ge D))"
  shows "adjust_insert_case5 (conc m (plug c (Node (Node (Node A n nv ne B) p pv pe C) g gv ge D))) (Some n)
       = Some (conc m (plug c (Node (Node A n nv ne B) p pv BLACK (Node C g gv RED D))))"
  using assms by (simp add: adjust_insert_case5_def rbt_defs conc_simps)

lemma case5_RR:
  assumes "wf_shape (plug c (Node D g gv ge (Node C p pv pe (Node A n nv ne B))))"
  shows "adjust_insert_case5 (conc m (plug c (Node D g gv ge (Node C p pv pe (Node A n nv ne B))))) (Some n)
       = Some (conc m (plug c (Node (Node D g gv RED C) p pv BLACK (Node A n nv ne B))))"
  using assms by (simp add: adjust_insert_case5_def rbt_defs conc_simps)

lemma case4_LL:
  assumes "wf_shape (plug c (Node (Node (Node A n nv ne B) p pv pe C) g gv ge D))"
  shows "adjust_insert_case4 (conc m (plug c (Node (Node (Node A n nv ne B) p pv pe C) g gv ge D))) (Some p) (Some n)
       = Some (conc m (plug c (Node (Node A n nv ne B) p pv BLACK (Node C g gv RED D))))"
  using assms by (simp add: adjust_insert_case4_def conc_simps case5_LL)

lemma case4_LR:
  assumes "wf_shape (plug c (Node (Node C p pv pe (Node A n nv ne B)) g gv ge D))"
  shows "adjust_insert_case4 (conc m (plug c (Node (Node C p pv pe (Node A n nv ne B)) g gv ge D))) (Some p) (Some n)
       = Some (conc m (plug c (Node (Node C p pv pe A) n nv BLACK (Node B g gv RED D))))"
  using assms by (simp add: adjust_insert_case4_def conc_simps case5_LL)

lemma case4_RR:
  assumes "wf_shape (plug c (Node D g gv ge (Node C p pv pe (Node A n nv ne B))))"
  shows "adjust_insert_case4 (conc m (plug c (Node D g gv ge (Node C p pv pe (Node A n nv ne B))))) (Some p) (Some n)
       = Some (conc m (plug c (Node (Node D g gv RED C) p pv BLACK (Node A n nv ne B))))"
  using assms by (simp add: adjust_insert_case4_def conc_simps case5_RR)

lemma case4_RL:
  assumes "wf_shape (plug c (Node D g gv ge (Node (Node A n nv ne B) p pv pe C)))"
  shows "adjust_insert_case4 (conc m (plug c (Node D g gv ge (Node (Node A n nv ne B) p pv pe C)))) (Some p) (Some n)
       = Some (conc m (plug c (Node (Node D g gv RED A) n nv BLACK (Node B p pv pe C))))"
  using assms by (simp add: adjust_insert_case4_def conc_simps case5_RR)

subsection \<open>Cases 2 and 3\<close>

lemma is_red_root:
  "wf_shape (plug c t) \<Longrightarrow> is_red (conc m (plug c t)) (root_ptr t) = Some (color t = RED)"
  by (cases t) (simp_all add: rbt_defs conc_simps)

lemma is_black_root:
  "wf_shape (plug c t) \<Longrightarrow> is_black (conc m (plug c t)) (root_ptr t) = Some (color t = BLACK)"
  by (cases t) (simp_all add: rbt_defs conc_simps)

lemma case2_black:
  assumes "wf_shape (plug c (Node l p pv BLACK r))"
  shows "adjust_insert_case2 (conc m (plug c (Node l p pv BLACK r))) (Some p) n
       = Some (conc m (plug c (Node l p pv BLACK r)), NULL)"
  using assms by (simp add: adjust_insert_case2_def rbt_defs conc_simps)

lemma case3_recolor:
  assumes "wf_shape (plug c (Node (Node A p pv RED B) g gv ge (Node C u uv RED D)))"
    and "q = p \<or> q = u"
  shows "adjust_insert_case3 (conc m (plug c (Node (Node A p pv RED B) g gv ge (Node C u uv RED D)))) (Some q) n
       = Some (conc m (plug c (Node (Node A p pv BLACK B) g gv RED (Node C u uv BLACK D))), Some g)"
  using assms by (auto simp: adjust_insert_case3_def rbt_defs conc_simps)

lemma case3_rotate_left:
  assumes wf: "wf_shape (plug c (Node (Node A p pv RED B) g gv ge U))" and U: "color U = BLACK"
  shows "adjust_insert_case3 (conc m (plug c (Node (Node A p pv RED B) g gv ge U))) (Some p) n
       = map_option (\<lambda>t. (t, NULL))
           (adjust_insert_case4 (conc m (plug c (Node (Node A p pv RED B) g gv ge U))) (Some p) n)"
proof -
  have "is_red (conc m (plug c (Node (Node A p pv RED B) g gv ge U))) (root_ptr U) = Some False"
    using is_red_root [of "Rgt (Node A p pv RED B) g gv ge c" U m] wf U by simp
  moreover have "is_red (conc m (plug c (Node (Node A p pv RED B) g gv ge U))) (Some p) = Some True"
    using wf by (simp add: rbt_defs conc_simps)
  ultimately show ?thesis
    using wf by (simp add: adjust_insert_case3_def conc_simps map_conv_bind_option comp_def)
qed

lemma case3_rotate_right:
  assumes wf: "wf_shape (plug c (Node U g gv ge (Node A p pv RED B)))" and U: "color U = BLACK"
  shows "adjust_insert_case3 (conc m (plug c (Node U g gv ge (Node A p pv RED B)))) (Some p) n
       = map_option (\<lambda>t. (t, NULL))
           (adjust_insert_case4 (conc m (plug c (Node U g gv ge (Node A p pv RED B)))) (Some p) n)"
proof -
  have "is_red (conc m (plug c (Node U g gv ge (Node A p pv RED B)))) (root_ptr U) = Some False"
    using is_red_root [of "Lft c g gv ge (Node A p pv RED B)" U m] wf U by simp
  then show ?thesis
    using wf by (simp add: adjust_insert_case3_def conc_simps map_conv_bind_option comp_def)
qed

lemma case2_red:
  assumes "wf_shape t" and "heap_of NULL t p = Some nd" and "extra nd = RED"
  shows "adjust_insert_case2 (conc m t) (Some p) n = adjust_insert_case3 (conc m t) (Some p) n"
  using assms by (simp add: adjust_insert_case2_def rbt_defs heap_simps)

subsection \<open>The loop\<close>

lemma conc_root_self: "(conc m (Node l n v e r))\<lparr>m_pRoot := Some n\<rparr> = conc m (Node l n v e r)"
  by (simp add: conc_def)

lemma case1_Top:
  assumes "wf_shape (Node l n v e r)"
  shows "adjust_insert_case1 ((conc m (Node l n v e r))\<lparr>m_pRoot := q\<rparr>) (Some n)
       = Some (conc m (Node l n v BLACK r))"
  using assms by (subst adjust_insert_case1.simps)
    (simp add: rbt_defs conc_simps conc_root_self)

text \<open>One step of the loop below the root.\<close>

lemma case1_step:
  assumes "wf_shape (plug c (Node l n v e r))" and "ctx_ptr NULL c = Some p"
  shows "adjust_insert_case1 (conc m (plug c (Node l n v e r))) (Some n) = do {
     r \<leftarrow> adjust_insert_case2 (conc m (plug c (Node l n v e r))) (Some p) (Some n);
     if snd r = NULL then Some (fst r) else adjust_insert_case1 (fst r) (snd r) }"
  using assms by (subst adjust_insert_case1.simps) (simp add: conc_simps)

fun ctx_depth :: "('k, 'v, 'e) ctx \<Rightarrow> nat" where
  "ctx_depth Top = 0"
| "ctx_depth (Lft c a v e r) = Suc (ctx_depth c)"
| "ctx_depth (Rgt l a v e c) = Suc (ctx_depth c)"

lemma adjust_insert_case1_ok:
  assumes "wf_shape (plug c (Node l n v RED r))"
    and "invc (Node l n v RED r)" and "invh (Node l n v RED r)"
    and "invc_ctx c" and "invh_ctx c (bheight l)"
  shows "\<exists>t'. adjust_insert_case1 (conc m (plug c (Node l n v RED r))) (Some n) = Some (conc m t')
    \<and> entries t' = entries (plug c (Node l n v RED r)) \<and> rbt_inv t'"
  using assms
proof (induction "ctx_depth c" arbitrary: c l n v r rule: less_induct)
  case less
  note wf = less.prems(1) and inv = less.prems(2-5)
  have fin: ?case if "adjust_insert_case2 (conc m (plug c (Node l n v RED r))) (Some p) (Some n)
      = Some (conc m t', NULL)" "ctx_ptr NULL c = Some p"
      "entries t' = entries (plug c (Node l n v RED r))" "rbt_inv t'" for p t'
    using that wf by (auto simp: case1_step)
  have again: ?case if "adjust_insert_case2 (conc m (plug c (Node l n v RED r))) (Some p) (Some n)
      = Some (conc m (plug d (Node A g gv RED B)), Some g)" "ctx_ptr NULL c = Some p"
      "entries (plug d (Node A g gv RED B)) = entries (plug c (Node l n v RED r))"
      "ctx_depth d < ctx_depth c" "invc (Node A g gv RED B)" "invh (Node A g gv RED B)"
      "invc_ctx d" "invh_ctx d (bheight A)" for p d A g gv B
  proof -
    have "wf_shape (plug d (Node A g gv RED B))"
      using wf that(3) by (metis entries_wf)
    from less.hyps [OF that(4) this that(5-8)] that(1-3) wf show ?thesis
      by (auto simp: case1_step)
  qed
  show ?case
  proof (cases c)
    case Top
    then show ?thesis
      using wf inv case1_Top [where q = "Some n" and l = l and n = n and v = v and e = RED and r = r]
      by (auto simp: rbt_inv_def conc_root_self intro!: exI [of _ "Node l n v BLACK r"])
  next
    case (Lft d p pv pe s)
    show ?thesis
    proof (cases pe)
      case RBT_COLOR_BLACK
      then show ?thesis
        using Lft wf inv case2_black [of d "Node l n v RED r" p pv "s" m "Some n"]
        by (intro fin [where p = p and t' = "plug c (Node l n v RED r)"]) (auto simp: rbt_inv_plug)
    next
      case pe: RBT_COLOR_RED
      with Lft inv have "top_color d = BLACK" by simp
      then show ?thesis
      proof (cases d)
        case d: (Lft e2 g gv ge u)
        show ?thesis
        proof (cases "color u")
          case RBT_COLOR_RED
          then obtain C u' uv D where u: "u = Node C u' uv RED D" using color_neq_Leaf by blast
          show ?thesis
            by (rule again [where p = p and d = e2 and A = "(Node (Node l n v RED r) p pv BLACK s)" and g = g and gv = gv and B = "(Node C u' uv BLACK D)"])
              (use Lft d pe u wf inv in \<open>auto simp: case2_red heap_of_plug_in Int_Un_distrib Int_Un_distrib2 case3_recolor\<close>)
        next
          case u: RBT_COLOR_BLACK
          show ?thesis
            by (rule fin [where p = p])
              (use Lft d pe u wf inv in \<open>auto simp: case2_red heap_of_plug_in Int_Un_distrib Int_Un_distrib2 case3_rotate_left case4_LL rbt_inv_plug\<close>)
        qed
      next
        case d: (Rgt u g gv ge e2)
        show ?thesis
        proof (cases "color u")
          case RBT_COLOR_RED
          then obtain C u' uv D where u: "u = Node C u' uv RED D" using color_neq_Leaf by blast
          show ?thesis
            by (rule again [where p = p and d = e2 and A = "(Node C u' uv BLACK D)" and g = g and gv = gv and B = "(Node (Node l n v RED r) p pv BLACK s)"])
              (use Lft d pe u wf inv in \<open>auto simp: case2_red heap_of_plug_in Int_Un_distrib Int_Un_distrib2 case3_recolor\<close>)
        next
          case u: RBT_COLOR_BLACK
          show ?thesis
            by (rule fin [where p = p])
              (use Lft d pe u wf inv in \<open>auto simp: case2_red heap_of_plug_in Int_Un_distrib Int_Un_distrib2 case3_rotate_right case4_RL rbt_inv_plug\<close>)
        qed
      qed simp
    qed
  next
    case (Rgt s p pv pe d)
    show ?thesis
    proof (cases pe)
      case RBT_COLOR_BLACK
      then show ?thesis
        using Rgt wf inv case2_black [of d "s" p pv "Node l n v RED r" m "Some n"]
        by (intro fin [where p = p and t' = "plug c (Node l n v RED r)"]) (auto simp: rbt_inv_plug)
    next
      case pe: RBT_COLOR_RED
      with Rgt inv have "top_color d = BLACK" by simp
      then show ?thesis
      proof (cases d)
        case d: (Lft e2 g gv ge u)
        show ?thesis
        proof (cases "color u")
          case RBT_COLOR_RED
          then obtain C u' uv D where u: "u = Node C u' uv RED D" using color_neq_Leaf by blast
          show ?thesis
            by (rule again [where p = p and d = e2 and A = "(Node s p pv BLACK (Node l n v RED r))" and g = g and gv = gv and B = "(Node C u' uv BLACK D)"])
              (use Rgt d pe u wf inv in \<open>auto simp: case2_red heap_of_plug_in Int_Un_distrib Int_Un_distrib2 case3_recolor\<close>)
        next
          case u: RBT_COLOR_BLACK
          show ?thesis
            by (rule fin [where p = p])
              (use Rgt d pe u wf inv in \<open>auto simp: case2_red heap_of_plug_in Int_Un_distrib Int_Un_distrib2 case3_rotate_left case4_LR rbt_inv_plug\<close>)
        qed
      next
        case d: (Rgt u g gv ge e2)
        show ?thesis
        proof (cases "color u")
          case RBT_COLOR_RED
          then obtain C u' uv D where u: "u = Node C u' uv RED D" using color_neq_Leaf by blast
          show ?thesis
            by (rule again [where p = p and d = e2 and A = "(Node C u' uv BLACK D)" and g = g and gv = gv and B = "(Node s p pv BLACK (Node l n v RED r))"])
              (use Rgt d pe u wf inv in \<open>auto simp: case2_red heap_of_plug_in Int_Un_distrib Int_Un_distrib2 case3_recolor\<close>)
        next
          case u: RBT_COLOR_BLACK
          show ?thesis
            by (rule fin [where p = p])
              (use Rgt d pe u wf inv in \<open>auto simp: case2_red heap_of_plug_in Int_Un_distrib Int_Un_distrib2 case3_rotate_right case4_RR rbt_inv_plug\<close>)
        qed
      qed simp
    qed
  qed
qed

end
