(* ===== verification/Rbt_Delete.thy ===== *)
theory Rbt_Delete
  imports Rbt_Insert
begin

text \<open>
  The correctness of the red-black deletion fix-up. \<open>short_L c l pe r\<close> (\<open>short_R\<close>)
  is the situation in which the fix-up starts: below the context \<open>c\<close> and a node of colour
  \<open>pe\<close>, the left (right) subtree has lost one black node. The lemmas for a shortage on the
  right are the mirror images of those for the left.
\<close>

definition short_L :: "('k, 'v, rbt_color) ctx \<Rightarrow> ('k, 'v) rbt_shape \<Rightarrow> rbt_color \<Rightarrow>
    ('k, 'v) rbt_shape \<Rightarrow> bool" where
  "short_L c l pe r \<longleftrightarrow> invc_ctx c \<and> invh_ctx c (bheight r + bw pe) \<and> invc l \<and> invh l \<and>
     invc r \<and> invh r \<and> color l = BLACK \<and> bheight r = Suc (bheight l) \<and>
     (pe = RED \<longrightarrow> color r = BLACK \<and> top_color c = BLACK)"

definition short_R :: "('k, 'v, rbt_color) ctx \<Rightarrow> ('k, 'v) rbt_shape \<Rightarrow> rbt_color \<Rightarrow>
    ('k, 'v) rbt_shape \<Rightarrow> bool" where
  "short_R c l pe r \<longleftrightarrow> invc_ctx c \<and> invh_ctx c (bheight l + bw pe) \<and> invc l \<and> invh l \<and>
     invc r \<and> invh r \<and> color r = BLACK \<and> bheight l = Suc (bheight r) \<and>
     (pe = RED \<longrightarrow> color l = BLACK \<and> top_color c = BLACK)"

lemma is_colour_at:
  assumes "heap_of NULL t a = Some nd"
  shows "is_black (conc m t) (Some a) = Some (extra nd = BLACK)"
    and "is_red (conc m t) (Some a) = Some (extra nd = RED)"
  using assms by (simp_all add: rbt_defs heap_simps)

lemma case6_L:
  assumes "wf_shape (plug c (Node l p pv pe (Node A s sv se (Node B x xv xe C))))"
  shows "adjust_delete_case6 (conc m (plug c (Node l p pv pe (Node A s sv se (Node B x xv xe C))))) (Some p) (Some s)
       = Some (conc m (plug c (Node (Node l p pv BLACK A) s sv pe (Node B x xv BLACK C))))"
  using assms by (simp add: adjust_delete_case6_def rbt_defs conc_simps)

lemma case5_near_L:
  assumes wf: "wf_shape (plug c (Node l p pv pe (Node (Node A x xv RED B) s sv BLACK C)))"
    and C: "color C = BLACK"
  shows "adjust_delete_case5 (conc m (plug c (Node l p pv pe (Node (Node A x xv RED B) s sv BLACK C)))) (Some p) (Some s)
       = Some (conc m (plug c (Node (Node l p pv BLACK A) x xv pe (Node B s sv BLACK C))))"
proof -
  let ?T = "plug c (Node l p pv pe (Node (Node A x xv RED B) s sv BLACK C))"
  have "is_black (conc m ?T) (root_ptr C) = Some True" "is_red (conc m ?T) (root_ptr C) = Some False"
    using is_black_root [of "Rgt (Node A x xv RED B) s sv BLACK (Rgt l p pv pe c)" C m]
      is_red_root [of "Rgt (Node A x xv RED B) s sv BLACK (Rgt l p pv pe c)" C m] wf C by simp_all
  with wf show ?thesis
    by (simp add: adjust_delete_case5_def is_colour_at mark_red_def mark_black_def conc_simps case6_L)
qed

lemma case5_far_L:
  assumes wf: "wf_shape (plug c (Node l p pv pe (Node A s sv BLACK (Node B x xv RED C))))"
  shows "adjust_delete_case5 (conc m (plug c (Node l p pv pe (Node A s sv BLACK (Node B x xv RED C))))) (Some p) (Some s)
       = Some (conc m (plug c (Node (Node l p pv BLACK A) s sv pe (Node B x xv BLACK C))))"
proof -
  let ?T = "plug c (Node l p pv pe (Node A s sv BLACK (Node B x xv RED C)))"
  have "is_black (conc m ?T) (root_ptr A) = Some (color A = BLACK)"
      "is_red (conc m ?T) (root_ptr A) = Some (color A = RED)"
    using is_black_root [of "Lft (Rgt l p pv pe c) s sv BLACK (Node B x xv RED C)" A m]
      is_red_root [of "Lft (Rgt l p pv pe c) s sv BLACK (Node B x xv RED C)" A m] wf by simp_all
  with wf show ?thesis
    by (simp add: adjust_delete_case5_def is_colour_at conc_simps case6_L)
qed

lemma is_black_children_L:
  assumes wf: "wf_shape (plug c (Node l p pv pe (Node A s sv se B)))"
  shows "is_black (conc m (plug c (Node l p pv pe (Node A s sv se B)))) (root_ptr A) = Some (color A = BLACK)"
    and "is_black (conc m (plug c (Node l p pv pe (Node A s sv se B)))) (root_ptr B) = Some (color B = BLACK)"
  using is_black_root [of "Lft (Rgt l p pv pe c) s sv se B" A m]
    is_black_root [of "Rgt A s sv se (Rgt l p pv pe c)" B m] wf by simp_all

lemma case3_paint_L:
  assumes wf: "wf_shape (plug c (Node l p pv pe (Node A s sv BLACK B)))"
    and "color A = BLACK" and "color B = BLACK"
  shows "adjust_delete_case3 (conc m (plug c (Node l p pv pe (Node A s sv BLACK B)))) (Some p) (Some s)
       = Some (conc m (plug c (Node l p pv BLACK (Node A s sv RED B))), if pe = BLACK then Some p else NULL)"
  using assms is_black_children_L [OF wf, of m]
  by (auto simp: adjust_delete_case3_def is_colour_at mark_red_def mark_black_def conc_simps)

lemma case3_red_L:
  assumes wf: "wf_shape (plug c (Node l p pv pe (Node A s sv BLACK B)))"
    and "color A = RED \<or> color B = RED"
  shows "adjust_delete_case3 (conc m (plug c (Node l p pv pe (Node A s sv BLACK B)))) (Some p) (Some s)
       = map_option (\<lambda>t. (t, NULL))
           (adjust_delete_case5 (conc m (plug c (Node l p pv pe (Node A s sv BLACK B)))) (Some p) (Some s))"
  using assms is_black_children_L [OF wf, of m]
  by (auto simp: adjust_delete_case3_def is_colour_at conc_simps map_conv_bind_option comp_def)

lemma case3_L:
  assumes wf: "wf_shape (plug c (Node l p pv pe (Node A s sv BLACK B)))"
    and inv: "short_L c l pe (Node A s sv BLACK B)"
    and pe: "pe = RED \<or> color A = RED \<or> color B = RED"
  shows "\<exists>t'. adjust_delete_case3 (conc m (plug c (Node l p pv pe (Node A s sv BLACK B)))) (Some p) (Some s)
        = Some (conc m t', NULL) \<and>
      entries t' = entries (plug c (Node l p pv pe (Node A s sv BLACK B))) \<and> rbt_inv t'"
proof (cases "color B")
  case RBT_COLOR_RED
  then obtain B1 x xv B2 where B: "B = Node B1 x xv RED B2" using color_neq_Leaf by blast
  have "adjust_delete_case3 (conc m (plug c (Node l p pv pe (Node A s sv BLACK B)))) (Some p) (Some s)
      = Some (conc m (plug c (Node (Node l p pv BLACK A) s sv pe (Node B1 x xv BLACK B2))), NULL)"
    using case3_red_L [OF wf] case5_far_L [where c = c and l = l and p = p and pv = pv and pe = pe and A = A and s = s and sv = sv and B = B1 and x = x and xv = xv and C = B2] wf B by simp
  then show ?thesis
    using inv B by (auto simp: short_L_def rbt_inv_plug intro!: exI [of _ "plug c (Node (Node l p pv BLACK A) s sv pe (Node B1 x xv BLACK B2))"])
next
  case B: RBT_COLOR_BLACK
  show ?thesis
  proof (cases "color A")
    case RBT_COLOR_RED
    then obtain A1 x xv A2 where A: "A = Node A1 x xv RED A2" using color_neq_Leaf by blast
    have "adjust_delete_case3 (conc m (plug c (Node l p pv pe (Node A s sv BLACK B)))) (Some p) (Some s)
        = Some (conc m (plug c (Node (Node l p pv BLACK A1) x xv pe (Node A2 s sv BLACK B))), NULL)"
      using case3_red_L [OF wf] case5_near_L [where c = c and l = l and p = p and pv = pv and pe = pe and A = A1 and s = s and sv = sv and B = A2 and x = x and xv = xv and C = B] wf A B by simp
    then show ?thesis
      using inv A B by (auto simp: short_L_def rbt_inv_plug intro!: exI [of _ "plug c (Node (Node l p pv BLACK A1) x xv pe (Node A2 s sv BLACK B))"])
  next
    case A: RBT_COLOR_BLACK
    then have "pe = RED" using pe B by simp
    then have "adjust_delete_case3 (conc m (plug c (Node l p pv pe (Node A s sv BLACK B)))) (Some p) (Some s)
        = Some (conc m (plug c (Node l p pv BLACK (Node A s sv RED B))), NULL)"
      using case3_paint_L [OF wf A B] by simp
    then show ?thesis
      using inv A B \<open>pe = RED\<close> by (auto simp: short_L_def rbt_inv_plug intro!: exI [of _ "plug c (Node l p pv BLACK (Node A s sv RED B))"])
  qed
qed

lemma case2_black_L:
  assumes "wf_shape (plug c (Node l p pv pe (Node A s sv BLACK B)))"
  shows "adjust_delete_case2 (conc m (plug c (Node l p pv pe (Node A s sv BLACK B)))) (Some p) (Some s)
       = adjust_delete_case3 (conc m (plug c (Node l p pv pe (Node A s sv BLACK B)))) (Some p) (Some s)"
  using assms by (simp add: adjust_delete_case2_def rbt_defs conc_simps)

lemma case2_red_L:
  assumes "wf_shape (plug c (Node l p pv pe (Node (Node X x xv xe Y) s sv RED B)))"
  shows "adjust_delete_case2 (conc m (plug c (Node l p pv pe (Node (Node X x xv xe Y) s sv RED B)))) (Some p) (Some s)
       = adjust_delete_case3 (conc m (plug (Lft c s sv BLACK B) (Node l p pv RED (Node X x xv xe Y)))) (Some p) (Some x)"
  using assms by (simp add: adjust_delete_case2_def rbt_defs conc_simps)

lemma case2_done_L:
  assumes wf: "wf_shape (plug c (Node l p pv pe r))" and inv: "short_L c l pe r"
    and "color r = RED \<or> pe = RED \<or> r = Node A s sv BLACK B \<and> (color A = RED \<or> color B = RED)"
  shows "\<exists>t'. adjust_delete_case2 (conc m (plug c (Node l p pv pe r))) (Some p) (root_ptr r)
        = Some (conc m t', NULL) \<and> entries t' = entries (plug c (Node l p pv pe r)) \<and> rbt_inv t'"
proof (cases "color r")
  case RBT_COLOR_RED
  then obtain A' t tv B' where r: "r = Node A' t tv RED B'" using color_neq_Leaf by blast
  with inv have "bheight A' \<noteq> 0" "color A' = BLACK" by (auto simp: short_L_def)
  then obtain A1 x xv A2 where A: "A' = Node A1 x xv BLACK A2" by (cases A') auto
  have "wf_shape (plug (Lft c t tv BLACK B') (Node l p pv RED (Node A1 x xv BLACK A2)))"
    using wf r A by auto
  moreover have "short_L (Lft c t tv BLACK B') l RED (Node A1 x xv BLACK A2)"
    using inv r A by (auto simp: short_L_def)
  ultimately obtain t' where "adjust_delete_case3 (conc m (plug (Lft c t tv BLACK B') (Node l p pv RED (Node A1 x xv BLACK A2)))) (Some p) (Some x)
        = Some (conc m t', NULL)"
      "entries t' = entries (plug (Lft c t tv BLACK B') (Node l p pv RED (Node A1 x xv BLACK A2)))" "rbt_inv t'"
    using case3_L [where pe = RED and c = "Lft c t tv BLACK B'"] by blast
  then show ?thesis using case2_red_L [where c = c and l = l and p = p and pv = pv and pe = pe and X = A1 and x = x and xv = xv and xe = BLACK and Y = A2 and s = t and sv = tv and B = B' and m = m] wf r A by auto
next
  case RBT_COLOR_BLACK
  moreover from inv have "r \<noteq> Leaf" by (auto simp: short_L_def)
  ultimately obtain A' t tv B' where r: "r = Node A' t tv BLACK B'" by (cases r) auto
  have "pe = RED \<or> color A' = RED \<or> color B' = RED" using assms(3) r by auto
  from case3_L [OF wf [unfolded r] inv [unfolded r] this] case2_black_L [OF wf [unfolded r]] show ?thesis
    unfolding r by simp
qed

lemma case2_again_L:
  assumes wf: "wf_shape (plug c (Node l p pv BLACK (Node A s sv BLACK B)))"
    and "color A = BLACK" and "color B = BLACK"
  shows "adjust_delete_case2 (conc m (plug c (Node l p pv BLACK (Node A s sv BLACK B)))) (Some p) (Some s)
       = Some (conc m (plug c (Node l p pv BLACK (Node A s sv RED B))), Some p)"
  using case3_paint_L [OF assms] case2_black_L [OF wf] by simp

lemma delete_step_L:
  assumes wf: "wf_shape (plug c (Node l p pv pe r))" and inv: "short_L c l pe r"
    and up: "\<And>t. wf_shape (plug c t) \<Longrightarrow> t \<noteq> Leaf \<Longrightarrow> color t = BLACK \<Longrightarrow> invc t \<Longrightarrow> invh t \<Longrightarrow>
      invh_ctx c (Suc (bheight t)) \<Longrightarrow> \<exists>t'. adjust_delete_case1 (conc m (plug c t)) (root_ptr t) = Some (conc m t') \<and>
        entries t' = entries (plug c t) \<and> rbt_inv t'"
  shows "\<exists>t'. Option.bind (adjust_delete_case2 (conc m (plug c (Node l p pv pe r))) (Some p) (root_ptr r))
      adjust_delete_rest = Some (conc m t') \<and> entries t' = entries (plug c (Node l p pv pe r)) \<and> rbt_inv t'"
proof (cases "\<exists>A s sv B. pe = BLACK \<and> r = Node A s sv BLACK B \<and> color A = BLACK \<and> color B = BLACK")
  case True
  then obtain A s sv B where pe: "pe = BLACK" and r: "r = Node A s sv BLACK B"
    and AB: "color A = BLACK" "color B = BLACK" by blast
  let ?t = "Node l p pv BLACK (Node A s sv RED B)"
  have "wf_shape (plug c ?t)" using wf r by simp
  moreover have "color ?t = BLACK" "invc ?t" "invh ?t" "invh_ctx c (Suc (bheight ?t))"
    using inv pe r AB by (auto simp: short_L_def)
  ultimately obtain t' where "adjust_delete_case1 (conc m (plug c ?t)) (root_ptr ?t) = Some (conc m t')"
      "entries t' = entries (plug c ?t)" "rbt_inv t'"
    using up [of ?t] by blast
  then show ?thesis
    using case2_again_L [OF wf [unfolded pe r] AB, of m] by (auto simp: pe r adjust_delete_rest_def)
next
  case False
  from inv have "r \<noteq> Leaf" by (auto simp: short_L_def)
  then obtain A s sv re B where r: "r = Node A s sv re B" by (cases r) auto
  with False have "color r = RED \<or> pe = RED \<or> r = Node A s sv BLACK B \<and> (color A = RED \<or> color B = RED)"
    by (cases re; cases pe; cases "color A"; cases "color B"; simp)
  from case2_done_L [OF wf inv this, of m] show ?thesis
    by (auto simp: adjust_delete_rest_def)
qed

lemma case6_R:
  assumes "wf_shape (plug c (Node (Node (Node C x xv xe B) s sv se A) p pv pe l))"
  shows "adjust_delete_case6 (conc m (plug c (Node (Node (Node C x xv xe B) s sv se A) p pv pe l))) (Some p) (Some s)
       = Some (conc m (plug c (Node (Node C x xv BLACK B) s sv pe (Node A p pv BLACK l))))"
  using assms by (simp add: adjust_delete_case6_def rbt_defs conc_simps)

lemma case5_near_R:
  assumes wf: "wf_shape (plug c (Node (Node C s sv BLACK (Node B x xv RED A)) p pv pe l))"
    and C: "color C = BLACK"
  shows "adjust_delete_case5 (conc m (plug c (Node (Node C s sv BLACK (Node B x xv RED A)) p pv pe l))) (Some p) (Some s)
       = Some (conc m (plug c (Node (Node C s sv BLACK B) x xv pe (Node A p pv BLACK l))))"
proof -
  let ?T = "plug c (Node (Node C s sv BLACK (Node B x xv RED A)) p pv pe l)"
  have "is_black (conc m ?T) (root_ptr C) = Some True" "is_red (conc m ?T) (root_ptr C) = Some False"
    using is_black_root [of "Lft (Lft c p pv pe l) s sv BLACK (Node B x xv RED A)" C m]
      is_red_root [of "Lft (Lft c p pv pe l) s sv BLACK (Node B x xv RED A)" C m] wf C by simp_all
  with wf show ?thesis
    by (simp add: adjust_delete_case5_def is_colour_at mark_red_def mark_black_def conc_simps case6_R)
qed

lemma case5_far_R:
  assumes wf: "wf_shape (plug c (Node (Node (Node C x xv RED B) s sv BLACK A) p pv pe l))"
  shows "adjust_delete_case5 (conc m (plug c (Node (Node (Node C x xv RED B) s sv BLACK A) p pv pe l))) (Some p) (Some s)
       = Some (conc m (plug c (Node (Node C x xv BLACK B) s sv pe (Node A p pv BLACK l))))"
proof -
  let ?T = "plug c (Node (Node (Node C x xv RED B) s sv BLACK A) p pv pe l)"
  have "is_black (conc m ?T) (root_ptr A) = Some (color A = BLACK)"
      "is_red (conc m ?T) (root_ptr A) = Some (color A = RED)"
    using is_black_root [of "Rgt (Node C x xv RED B) s sv BLACK (Lft c p pv pe l)" A m]
      is_red_root [of "Rgt (Node C x xv RED B) s sv BLACK (Lft c p pv pe l)" A m] wf by simp_all
  with wf show ?thesis
    by (simp add: adjust_delete_case5_def is_colour_at conc_simps case6_R)
qed

lemma is_black_children_R:
  assumes wf: "wf_shape (plug c (Node (Node B s sv se A) p pv pe l))"
  shows "is_black (conc m (plug c (Node (Node B s sv se A) p pv pe l))) (root_ptr A) = Some (color A = BLACK)"
    and "is_black (conc m (plug c (Node (Node B s sv se A) p pv pe l))) (root_ptr B) = Some (color B = BLACK)"
  using is_black_root [of "Rgt B s sv se (Lft c p pv pe l)" A m]
    is_black_root [of "Lft (Lft c p pv pe l) s sv se A" B m] wf by simp_all

lemma case3_paint_R:
  assumes wf: "wf_shape (plug c (Node (Node B s sv BLACK A) p pv pe l))"
    and "color A = BLACK" and "color B = BLACK"
  shows "adjust_delete_case3 (conc m (plug c (Node (Node B s sv BLACK A) p pv pe l))) (Some p) (Some s)
       = Some (conc m (plug c (Node (Node B s sv RED A) p pv BLACK l)), if pe = BLACK then Some p else NULL)"
  using assms is_black_children_R [OF wf, of m]
  by (auto simp: adjust_delete_case3_def is_colour_at mark_red_def mark_black_def conc_simps)

lemma case3_red_R:
  assumes wf: "wf_shape (plug c (Node (Node B s sv BLACK A) p pv pe l))"
    and "color A = RED \<or> color B = RED"
  shows "adjust_delete_case3 (conc m (plug c (Node (Node B s sv BLACK A) p pv pe l))) (Some p) (Some s)
       = map_option (\<lambda>t. (t, NULL))
           (adjust_delete_case5 (conc m (plug c (Node (Node B s sv BLACK A) p pv pe l))) (Some p) (Some s))"
  using assms is_black_children_R [OF wf, of m]
  by (auto simp: adjust_delete_case3_def is_colour_at conc_simps map_conv_bind_option comp_def)

lemma case3_R:
  assumes wf: "wf_shape (plug c (Node (Node B s sv BLACK A) p pv pe l))"
    and inv: "short_R c (Node B s sv BLACK A) pe l"
    and pe: "pe = RED \<or> color A = RED \<or> color B = RED"
  shows "\<exists>t'. adjust_delete_case3 (conc m (plug c (Node (Node B s sv BLACK A) p pv pe l))) (Some p) (Some s)
        = Some (conc m t', NULL) \<and>
      entries t' = entries (plug c (Node (Node B s sv BLACK A) p pv pe l)) \<and> rbt_inv t'"
proof (cases "color B")
  case RBT_COLOR_RED
  then obtain B1 x xv B2 where B: "B = Node B2 x xv RED B1" using color_neq_Leaf by blast
  have "adjust_delete_case3 (conc m (plug c (Node (Node B s sv BLACK A) p pv pe l))) (Some p) (Some s)
      = Some (conc m (plug c (Node (Node B2 x xv BLACK B1) s sv pe (Node A p pv BLACK l))), NULL)"
    using case3_red_R [OF wf] case5_far_R [where c = c and l = l and p = p and pv = pv and pe = pe and A = A and s = s and sv = sv and B = B1 and x = x and xv = xv and C = B2] wf B by simp
  then show ?thesis
    using inv B by (auto simp: short_R_def rbt_inv_plug intro!: exI [of _ "plug c (Node (Node B2 x xv BLACK B1) s sv pe (Node A p pv BLACK l))"])
next
  case B: RBT_COLOR_BLACK
  show ?thesis
  proof (cases "color A")
    case RBT_COLOR_RED
    then obtain A1 x xv A2 where A: "A = Node A2 x xv RED A1" using color_neq_Leaf by blast
    have "adjust_delete_case3 (conc m (plug c (Node (Node B s sv BLACK A) p pv pe l))) (Some p) (Some s)
        = Some (conc m (plug c (Node (Node B s sv BLACK A2) x xv pe (Node A1 p pv BLACK l))), NULL)"
      using case3_red_R [OF wf] case5_near_R [where c = c and l = l and p = p and pv = pv and pe = pe and A = A1 and s = s and sv = sv and B = A2 and x = x and xv = xv and C = B] wf A B by simp
    then show ?thesis
      using inv A B by (auto simp: short_R_def rbt_inv_plug intro!: exI [of _ "plug c (Node (Node B s sv BLACK A2) x xv pe (Node A1 p pv BLACK l))"])
  next
    case A: RBT_COLOR_BLACK
    then have "pe = RED" using pe B by simp
    then have "adjust_delete_case3 (conc m (plug c (Node (Node B s sv BLACK A) p pv pe l))) (Some p) (Some s)
        = Some (conc m (plug c (Node (Node B s sv RED A) p pv BLACK l)), NULL)"
      using case3_paint_R [OF wf A B] by simp
    then show ?thesis
      using inv A B \<open>pe = RED\<close> by (auto simp: short_R_def rbt_inv_plug intro!: exI [of _ "plug c (Node (Node B s sv RED A) p pv BLACK l)"])
  qed
qed

lemma case2_black_R:
  assumes "wf_shape (plug c (Node (Node B s sv BLACK A) p pv pe l))"
  shows "adjust_delete_case2 (conc m (plug c (Node (Node B s sv BLACK A) p pv pe l))) (Some p) (Some s)
       = adjust_delete_case3 (conc m (plug c (Node (Node B s sv BLACK A) p pv pe l))) (Some p) (Some s)"
  using assms by (simp add: adjust_delete_case2_def rbt_defs conc_simps)

lemma case2_red_R:
  assumes "wf_shape (plug c (Node (Node B s sv RED (Node Y x xv xe X)) p pv pe l))"
  shows "adjust_delete_case2 (conc m (plug c (Node (Node B s sv RED (Node Y x xv xe X)) p pv pe l))) (Some p) (Some s)
       = adjust_delete_case3 (conc m (plug (Rgt B s sv BLACK c) (Node (Node Y x xv xe X) p pv RED l))) (Some p) (Some x)"
  using assms by (simp add: adjust_delete_case2_def rbt_defs conc_simps)

lemma case2_done_R:
  assumes wf: "wf_shape (plug c (Node r p pv pe l))" and inv: "short_R c r pe l"
    and "color r = RED \<or> pe = RED \<or> r = Node B s sv BLACK A \<and> (color A = RED \<or> color B = RED)"
  shows "\<exists>t'. adjust_delete_case2 (conc m (plug c (Node r p pv pe l))) (Some p) (root_ptr r)
        = Some (conc m t', NULL) \<and> entries t' = entries (plug c (Node r p pv pe l)) \<and> rbt_inv t'"
proof (cases "color r")
  case RBT_COLOR_RED
  then obtain A' t tv B' where r: "r = Node B' t tv RED A'" using color_neq_Leaf by blast
  with inv have "bheight A' \<noteq> 0" "color A' = BLACK" by (auto simp: short_R_def)
  then obtain A1 x xv A2 where A: "A' = Node A2 x xv BLACK A1" by (cases A') auto
  have "wf_shape (plug (Rgt B' t tv BLACK c) (Node (Node A2 x xv BLACK A1) p pv RED l))"
    using wf r A by auto
  moreover have "short_R (Rgt B' t tv BLACK c) (Node A2 x xv BLACK A1) RED l"
    using inv r A by (auto simp: short_R_def)
  ultimately obtain t' where "adjust_delete_case3 (conc m (plug (Rgt B' t tv BLACK c) (Node (Node A2 x xv BLACK A1) p pv RED l))) (Some p) (Some x)
        = Some (conc m t', NULL)"
      "entries t' = entries (plug (Rgt B' t tv BLACK c) (Node (Node A2 x xv BLACK A1) p pv RED l))" "rbt_inv t'"
    using case3_R [where pe = RED and c = "Rgt B' t tv BLACK c"] by blast
  then show ?thesis using case2_red_R [where c = c and l = l and p = p and pv = pv and pe = pe and X = A1 and x = x and xv = xv and xe = BLACK and Y = A2 and s = t and sv = tv and B = B' and m = m] wf r A by auto
next
  case RBT_COLOR_BLACK
  moreover from inv have "r \<noteq> Leaf" by (auto simp: short_R_def)
  ultimately obtain A' t tv B' where r: "r = Node B' t tv BLACK A'" by (cases r) auto
  have "pe = RED \<or> color A' = RED \<or> color B' = RED" using assms(3) r by auto
  from case3_R [OF wf [unfolded r] inv [unfolded r] this] case2_black_R [OF wf [unfolded r]] show ?thesis
    unfolding r by simp
qed

lemma case2_again_R:
  assumes wf: "wf_shape (plug c (Node (Node B s sv BLACK A) p pv BLACK l))"
    and "color A = BLACK" and "color B = BLACK"
  shows "adjust_delete_case2 (conc m (plug c (Node (Node B s sv BLACK A) p pv BLACK l))) (Some p) (Some s)
       = Some (conc m (plug c (Node (Node B s sv RED A) p pv BLACK l)), Some p)"
  using case3_paint_R [OF assms] case2_black_R [OF wf] by simp

lemma delete_step_R:
  assumes wf: "wf_shape (plug c (Node r p pv pe l))" and inv: "short_R c r pe l"
    and up: "\<And>t. wf_shape (plug c t) \<Longrightarrow> t \<noteq> Leaf \<Longrightarrow> color t = BLACK \<Longrightarrow> invc t \<Longrightarrow> invh t \<Longrightarrow>
      invh_ctx c (Suc (bheight t)) \<Longrightarrow> \<exists>t'. adjust_delete_case1 (conc m (plug c t)) (root_ptr t) = Some (conc m t') \<and>
        entries t' = entries (plug c t) \<and> rbt_inv t'"
  shows "\<exists>t'. Option.bind (adjust_delete_case2 (conc m (plug c (Node r p pv pe l))) (Some p) (root_ptr r))
      adjust_delete_rest = Some (conc m t') \<and> entries t' = entries (plug c (Node r p pv pe l)) \<and> rbt_inv t'"
proof (cases "\<exists>A s sv B. pe = BLACK \<and> r = Node B s sv BLACK A \<and> color A = BLACK \<and> color B = BLACK")
  case True
  then obtain A s sv B where pe: "pe = BLACK" and r: "r = Node B s sv BLACK A"
    and AB: "color A = BLACK" "color B = BLACK" by blast
  let ?t = "Node (Node B s sv RED A) p pv BLACK l"
  have "wf_shape (plug c ?t)" using wf r by simp
  moreover have "color ?t = BLACK" "invc ?t" "invh ?t" "invh_ctx c (Suc (bheight ?t))"
    using inv pe r AB by (auto simp: short_R_def)
  ultimately obtain t' where "adjust_delete_case1 (conc m (plug c ?t)) (root_ptr ?t) = Some (conc m t')"
      "entries t' = entries (plug c ?t)" "rbt_inv t'"
    using up [of ?t] by blast
  then show ?thesis
    using case2_again_R [OF wf [unfolded pe r] AB, of m] by (auto simp: pe r adjust_delete_rest_def)
next
  case False
  from inv have "r \<noteq> Leaf" by (auto simp: short_R_def)
  then obtain A s sv re B where r: "r = Node B s sv re A" by (cases r) auto
  with False have "color r = RED \<or> pe = RED \<or> r = Node B s sv BLACK A \<and> (color A = RED \<or> color B = RED)"
    by (cases re; cases pe; cases "color A"; cases "color B"; simp)
  from case2_done_R [OF wf inv this, of m] show ?thesis
    by (auto simp: adjust_delete_rest_def)
qed

lemma adjust_delete_case1_ok:
  assumes "wf_shape (plug c t)" and "t \<noteq> Leaf" and "color t = BLACK" and "invc t" and "invh t"
    and "invc_ctx c" and "invh_ctx c (Suc (bheight t))"
  shows "\<exists>t'. adjust_delete_case1 (conc m (plug c t)) (root_ptr t) = Some (conc m t') \<and>
    entries t' = entries (plug c t) \<and> rbt_inv t'"
  using assms
proof (induction c arbitrary: t)
  case Top
  then obtain l a v r where "t = Node l a v BLACK r" by (cases t) auto
  then show ?case
    using Top by (subst adjust_delete_case1.simps) (auto simp: heap_simps is_colour_at rbt_inv_def)
next
  case (Lft c p pv pe r)
  obtain l a v e r' where t: "t = Node l a v e r'" using Lft.prems by (cases t) auto
  have "short_L c t pe r" using Lft.prems by (auto simp: short_L_def)
  with Lft.prems Lft.IH have "\<exists>t'. Option.bind (adjust_delete_case2 (conc m (plug c (Node t p pv pe r))) (Some p) (root_ptr r))
      adjust_delete_rest = Some (conc m t') \<and> entries t' = entries (plug c (Node t p pv pe r)) \<and> rbt_inv t'"
    by (intro delete_step_L) auto
  moreover have "adjust_delete_case1 (conc m (plug (Lft c p pv pe r) t)) (root_ptr t) =
      Option.bind (adjust_delete_case2 (conc m (plug c (Node t p pv pe r))) (Some p) (root_ptr r)) adjust_delete_rest"
    using Lft.prems(1) unfolding t
    by (subst adjust_delete_case1.simps) (simp add: conc_simps adjust_delete_rest_def [abs_def])
  ultimately show ?case by simp
next
  case (Rgt l p pv pe c)
  obtain l' a v e r where t: "t = Node l' a v e r" using Rgt.prems by (cases t) auto
  have "short_R c l pe t" using Rgt.prems by (auto simp: short_R_def)
  with Rgt.prems Rgt.IH have "\<exists>t'. Option.bind (adjust_delete_case2 (conc m (plug c (Node l p pv pe t))) (Some p) (root_ptr l))
      adjust_delete_rest = Some (conc m t') \<and> entries t' = entries (plug c (Node l p pv pe t)) \<and> rbt_inv t'"
    by (intro delete_step_R) auto
  moreover have "adjust_delete_case1 (conc m (plug (Rgt l p pv pe c) t)) (root_ptr t) =
      Option.bind (adjust_delete_case2 (conc m (plug c (Node l p pv pe t))) (Some p) (root_ptr l)) adjust_delete_rest"
  proof -
    have "root_ptr l \<noteq> root_ptr t" using Rgt.prems(1) t root_ptr_in [of l a] by auto
    then show ?thesis using Rgt.prems(1) unfolding t
      by (subst adjust_delete_case1.simps) (simp add: conc_simps adjust_delete_rest_def [abs_def])
  qed
  ultimately show ?case by simp
qed

end
