(* ===== verification/Rbt_Correct.thy ===== *)
theory Rbt_Correct
  imports Rbt_Delete Bst_Frame
begin

text \<open>
  The two entry points of the red-black policy: \<open>adjust_insert\<close> after a leaf has been linked
  and \<open>delete_one_child\<close>, which unlinks a node with at most one child, rebalances and frees
  the node.
\<close>

subsection \<open>Insertion\<close>

lemma rbt_adjust_insert_Top:
  "rbt_adjust_insert ((conc m (Node Leaf n v e Leaf))\<lparr>m_pRoot := q\<rparr>) (Some n)
   = Some (conc m (Node Leaf n v BLACK Leaf))"
proof -
  have "mark_red ((conc m (Node Leaf n v e Leaf))\<lparr>m_pRoot := q\<rparr>) (Some n)
      = Some ((conc m (Node Leaf n v RED Leaf))\<lparr>m_pRoot := q\<rparr>)"
    by (simp add: mark_red_def upd_def conc_def fun_eq_iff)
  then show ?thesis
    using case1_Top [where l = Leaf and n = n and v = v and e = RED and r = Leaf and m = m and q = q] by (simp add: rbt_adjust_insert_def)
qed

lemma rbt_adjust_insert_plug:
  assumes wf: "wf_shape (plug c (Node Leaf n v e Leaf))" and inv: "rbt_inv (plug c Leaf)"
  shows "\<exists>t'. rbt_adjust_insert (conc m (plug c (Node Leaf n v e Leaf))) (Some n) = Some (conc m t') \<and>
    entries t' = entries (plug c (Node Leaf n v e Leaf)) \<and> rbt_inv t'"
proof -
  have "mark_red (conc m (plug c (Node Leaf n v e Leaf))) (Some n)
      = Some (conc m (plug c (Node Leaf n v RED Leaf)))"
    using wf by (simp add: mark_red_def conc_simps)
  moreover have "\<exists>t'. adjust_insert_case1 (conc m (plug c (Node Leaf n v RED Leaf))) (Some n) = Some (conc m t')
      \<and> entries t' = entries (plug c (Node Leaf n v RED Leaf)) \<and> rbt_inv t'"
    by (rule adjust_insert_case1_ok) (use wf inv in \<open>simp_all add: rbt_inv_plug\<close>)
  ultimately show ?thesis by (simp add: rbt_adjust_insert_def)
qed

subsection \<open>The deletion fix-up is framed\<close>

lemma framed_is_black [framed_intros]:
  assumes "\<And>b. framed (g b)"
  shows "framed (\<lambda>t. Option.bind (is_black t p) (\<lambda>b. g b t))"
proof (cases p)
  case None
  then show ?thesis using assms by (simp add: is_black_def)
next
  case (Some a)
  have "framed (\<lambda>t. Option.bind (deref t p) (\<lambda>nd. g (extra nd = BLACK) t))"
    using assms by (intro framed_intros)
  then show ?thesis by (simp add: is_black_def Some)
qed

lemma framed_is_red [framed_intros]:
  assumes "\<And>b. framed (g b)"
  shows "framed (\<lambda>t. Option.bind (is_red t p) (\<lambda>b. g b t))"
proof (cases p)
  case None
  then show ?thesis using assms by (simp add: is_red_def)
next
  case (Some a)
  have "framed (\<lambda>t. Option.bind (deref t p) (\<lambda>nd. g (extra nd = RED) t))"
    using assms by (intro framed_intros)
  then show ?thesis by (simp add: is_red_def Some)
qed

lemma framed_pair_is_black [framed_intros]:
  assumes "\<And>b. framed_pair (g b)"
  shows "framed_pair (\<lambda>t. Option.bind (is_black t p) (\<lambda>b. g b t))"
proof (cases p)
  case None
  then show ?thesis using assms by (simp add: is_black_def)
next
  case (Some a)
  have "framed_pair (\<lambda>t. Option.bind (deref t p) (\<lambda>nd. g (extra nd = BLACK) t))"
    using assms by (intro framed_intros)
  then show ?thesis by (simp add: is_black_def Some)
qed

lemma framed_pair_is_red [framed_intros]:
  assumes "\<And>b. framed_pair (g b)"
  shows "framed_pair (\<lambda>t. Option.bind (is_red t p) (\<lambda>b. g b t))"
proof (cases p)
  case None
  then show ?thesis using assms by (simp add: is_red_def)
next
  case (Some a)
  have "framed_pair (\<lambda>t. Option.bind (deref t p) (\<lambda>nd. g (extra nd = RED) t))"
    using assms by (intro framed_intros)
  then show ?thesis by (simp add: is_red_def Some)
qed

lemma framed_mark [framed_intros]:
  "framed (\<lambda>t. mark t p q)" "framed (\<lambda>t. mark_red t p)" "framed (\<lambda>t. mark_black t p)"
  unfolding mark_def mark_red_def mark_black_def by (intro framed_intros)+

lemma framed_case6 [framed_intros]: "framed (\<lambda>t. adjust_delete_case6 t p s)"
  unfolding adjust_delete_case6_def by (intro framed_intros)

lemma framed_case5 [framed_intros]: "framed (\<lambda>t. adjust_delete_case5 t p s)"
  unfolding adjust_delete_case5_def by (intro framed_intros)

lemma framed_pair_bind_if [framed_intros]:
  "framed_pair (\<lambda>t. if b then Option.bind (f t) (\<lambda>x. g x t) else g False t) \<Longrightarrow>
   framed_pair (\<lambda>t. Option.bind (if b then f t else Some False) (\<lambda>x. g x t))"
  by (cases b) simp_all

lemma framed_case3 [framed_intros]: "framed_pair (\<lambda>t. adjust_delete_case3 t p s)"
  unfolding adjust_delete_case3_def by (intro framed_intros)

lemma framed_case2 [framed_intros]: "framed_pair (\<lambda>t. adjust_delete_case2 t p s)"
  unfolding adjust_delete_case2_def by (intro framed_intros)

lemma adjust_delete_case1_frame:
  assumes "adjust_delete_case1 s n = Some s'"
  shows "nodes s a = None \<longrightarrow>
     nodes s' a = None \<and> adjust_delete_case1 (ext a x s) n = Some (ext a x s')"
proof (rule adjust_delete_case1.raw_induct [where P = "\<lambda>s n s'. nodes s a = None \<longrightarrow>
     nodes s' a = None \<and> adjust_delete_case1 (ext a x s) n = Some (ext a x s')", OF _ assms])
  fix f s n s'
  assume IH: "\<And>s n s'. f s n = Some s' \<Longrightarrow> nodes s a = None \<longrightarrow>
      nodes s' a = None \<and> adjust_delete_case1 (ext a x s) n = Some (ext a x s')"
    and run: "do {
      nd \<leftarrow> deref s n;
      if parent nd = NULL then do { b \<leftarrow> is_black s n; wassert b; Some s }
      else do {
        pd \<leftarrow> deref s (parent nd);
        r \<leftarrow> adjust_delete_case2 s (parent nd) (if child1 pd = n then child2 pd else child1 pd);
        if snd r = NULL then Some (fst r) else f (fst r) (snd r) } } = Some s'"
  show "nodes s a = None \<longrightarrow>
      nodes s' a = None \<and> adjust_delete_case1 (ext a x s) n = Some (ext a x s')"
  proof
    assume a: "nodes s a = None"
    obtain nd where nd: "deref s n = Some nd" using run by (auto simp: bind_eq_Some_iff)
    note ndx = deref_ext [OF a nd, of x]
    show "nodes s' a = None \<and> adjust_delete_case1 (ext a x s) n = Some (ext a x s')"
    proof (cases "parent nd = NULL")
      case True
      have "framed (\<lambda>t. Option.bind (is_black t n) (\<lambda>b. Option.bind (wassert b) (\<lambda>u. Some t)))"
        by (intro framed_intros)
      moreover have "Option.bind (is_black s n) (\<lambda>b. Option.bind (wassert b) (\<lambda>u. Some s)) = Some s'"
        using run nd True by simp
      ultimately show ?thesis
        using ndx True by (subst adjust_delete_case1.simps) (auto elim: framedE [OF _ a])
    next
      case False
      then obtain pd r where pd: "deref s (parent nd) = Some pd"
        and r': "adjust_delete_case2 s (parent nd) (if child1 pd = n then child2 pd else child1 pd) = Some r"
        and rest': "(if snd r = NULL then Some (fst r) else f (fst r) (snd r)) = Some s'"
        using run nd by (auto simp: bind_eq_Some_iff)
      obtain s1 q where "r = (s1, q)" by (cases r)
      note r = r' [unfolded \<open>r = (s1, q)\<close>] and rest = rest' [unfolded \<open>r = (s1, q)\<close> fst_conv snd_conv]
      have s1: "nodes s1 a = None" and r': "adjust_delete_case2 (ext a x s) (parent nd)
          (if child1 pd = n then child2 pd else child1 pd) = Some (ext a x s1, q)"
        by (rule framed_pairE [OF framed_case2 a r], assumption)+
      have step: "adjust_delete_case1 (ext a x s) n =
          (if q = NULL then Some (ext a x s1) else adjust_delete_case1 (ext a x s1) q)"
        by (subst adjust_delete_case1.simps)
          (simp only: ndx deref_ext [OF a pd] False r' if_False bind.bind_lunit fst_conv snd_conv)
      show ?thesis
      proof (cases "q = NULL")
        case True
        then show ?thesis using rest s1 step by simp
      next
        case q: False
        have "f s1 q = Some s'" using rest by (simp only: q if_False)
        with IH [of s1 q s'] s1 have "nodes s' a = None \<and> adjust_delete_case1 (ext a x s1) q = Some (ext a x s')"
          by blast
        then show ?thesis using step q by simp
      qed
    qed
  qed
qed

lemma framed_case1 [framed_intros]: "framed (\<lambda>t. adjust_delete_case1 t n)"
  using adjust_delete_case1_frame by (intro framedI) blast

lemma framed_delete_rest: "framed (\<lambda>t. adjust_delete_rest (t, q))"
  unfolding adjust_delete_rest_def fst_conv snd_conv by (intro framed_intros)

lemma framed_case2_rest [framed_intros]:
  "framed (\<lambda>t. Option.bind (adjust_delete_case2 t p s) adjust_delete_rest)"
  by (intro framed_run framed_case2 framed_delete_rest)

subsection \<open>Unlinking\<close>

lemma one_child_cases:
  assumes "rbt_inv (plug c (Node l n v e r))" and "l = Leaf \<and> k = r \<or> r = Leaf \<and> k = l"
  shows "e = RED \<Longrightarrow> k = Leaf \<and> rbt_inv (plug c Leaf)"
    and "e = BLACK \<Longrightarrow> k \<noteq> Leaf \<Longrightarrow> \<exists>A x xv B. k = Node A x xv RED B \<and> rbt_inv (plug c (Node A x xv BLACK B))"
    and "e = BLACK \<Longrightarrow> k = Leaf \<Longrightarrow> invc_ctx c \<and> invh_ctx c 1"
proof -
  have inv: "invc_ctx c" "invc (Node l n v e r)" "top_color c = RED \<longrightarrow> e = BLACK"
    "invh (Node l n v e r)" "invh_ctx c (bheight l + bw e)"
    using assms(1) by (auto simp: rbt_inv_plug)
  then have k: "bheight k = 0" "invc k" "invh k" using assms(2) by auto
  {
    assume "e = RED"
    with inv assms(2) have "color k = BLACK" by auto
    with k have "k = Leaf" by (cases k) auto
    with assms(2) have "l = Leaf" "r = Leaf" by auto
    with inv \<open>e = RED\<close> \<open>k = Leaf\<close> show "k = Leaf \<and> rbt_inv (plug c Leaf)" by (simp add: rbt_inv_plug)
  next
    assume "e = BLACK" "k \<noteq> Leaf"
    then obtain A x xv ke B where kk: "k = Node A x xv ke B" by (cases k) auto
    moreover from k kk have "ke = RED" by (cases ke) auto
    moreover have "bheight l = 0" using inv(4) assms(2) by auto
    ultimately show "\<exists>A x xv B. k = Node A x xv RED B \<and> rbt_inv (plug c (Node A x xv BLACK B))"
      using inv k \<open>e = BLACK\<close> by (auto simp: rbt_inv_plug)
  next
    assume "e = BLACK" "k = Leaf"
    then show "invc_ctx c \<and> invh_ctx c 1" using inv assms(2) by auto
  }
qed


text \<open>A mark of the child followed by the release of the node.\<close>

lemma finish_black:
  assumes "n \<notin> addr_set t" and "wf_shape t" and "t = plug c (Node A x xv RED B)"
  shows "Option.bind (mark_black (ext n y (conc m t)) (Some x)) (\<lambda>t. bst_destroy t (Some n))
    = Some (conc m (plug c (Node A x xv BLACK B)))"
proof -
  have "mark_black (conc m t) (Some x) = Some (conc m (plug c (Node A x xv BLACK B)))"
    using assms(2) unfolding assms(3) by (simp add: mark_black_def conc_simps)
  from framedD [OF framed_mark(3) _ this] assms show ?thesis
    by (simp add: bst_destroy_ext)
qed

lemma rbt_delete_Top:
  assumes wf: "wf_shape (Node l n v e r)" and inv: "rbt_inv (Node l n v e r)"
    and k: "l = Leaf \<and> k = r \<or> r = Leaf \<and> k = l"
  shows "\<exists>t'. rbt_delete_one_child (conc m (Node l n v e r)) (Some n) = Some (conc m t') \<and>
    entries t' = entries k \<and> rbt_inv t'"
proof -
  have child: "(if child1 (node_at Top l v e r) \<noteq> NULL then child1 (node_at Top l v e r)
      else child2 (node_at Top l v e r)) = root_ptr k"
    using k by auto
  have n: "n \<notin> addr_set k" using wf k by auto
  have nd: "deref (conc m (Node l n v e r)) (Some n) = Some (node_at Top l v e r)"
    using wf by (simp add: heap_simps)
  have e: "e = BLACK" using inv by (simp add: rbt_inv_def)
  show ?thesis
  proof (cases "k = Leaf")
    case True
    then have "l = Leaf" "r = Leaf" using k by auto
    then show ?thesis
      using True nd by (intro exI [of _ Leaf])
        (simp add: rbt_delete_one_child_def rbt_inv_def bst_destroy_def conc_def fun_eq_iff)
  next
    case False
    with one_child_cases(2) [of Top l n v e r k] inv k e
    obtain A x xv B where kk: "k = Node A x xv RED B" and inv': "rbt_inv (Node A x xv BLACK B)" by auto
    have h1: "upd ((conc m (Node l n v e r))\<lparr>m_pRoot := Some x\<rparr>) (Some x) (parent_update (\<lambda>_. NULL)) =
        Some (ext n (node_at Top l v e r) (conc m k))"
      using root_unlink [OF wf k, of m] kk by simp
    have h2: "Option.bind (mark_black (ext n (node_at Top l v e r) (conc m k)) (Some x))
        (\<lambda>t. bst_destroy t (Some n)) = Some (conc m (Node A x xv BLACK B))"
      using finish_black [of n k Top A x xv B "node_at Top l v e r" m] wf k kk n by auto
    have "rbt_delete_one_child (conc m (Node l n v e r)) (Some n) = Some (conc m (Node A x xv BLACK B))"
    proof -
      from k kk consider "l = Leaf" "r = k" | "r = Leaf" "l = k" by auto
      then show ?thesis
        using h1 h2 nd kk by cases (simp_all add: rbt_delete_one_child_def Let_def)
    qed
    with inv' kk show ?thesis by auto
  qed
qed

text \<open>Below a node \<open>p\<close>: the unlinked node is still allocated while \<open>adjust_delete_case2\<close>
  runs, hence \<open>framed_case2_rest\<close>.\<close>

lemma is_black_ext: "is_black (ext n (node_at c l v e r) t) (Some n) = Some (e = BLACK)"
  by (simp add: is_black_def deref_def)

text \<open>What follows the unlinking, as one definition.\<close>

definition delete_rebalance :: "ptr \<Rightarrow> ptr \<Rightarrow> ptr \<Rightarrow> ('k, 'v) rbt \<Rightarrow> ('k, 'v) rbt option" where
  "delete_rebalance n p child t = Option.bind
    (if child \<noteq> NULL then do {
       b \<leftarrow> is_black t n;
       if b then do {
         r \<leftarrow> is_red t child;
         if r then mark_black t child else adjust_delete_case1 t child }
       else Some t }
     else do {
       b \<leftarrow> is_black t n;
       if b then do {
         pd \<leftarrow> deref t p;
         let s = (if child1 pd = NULL then child2 pd else child1 pd);
         r \<leftarrow> adjust_delete_case2 t p s;
         adjust_delete_rest r }
       else Some t }) (\<lambda>t. bst_destroy t n)"

lemma rbt_delete_unlinked:
  assumes t: "T = conc m (plug c (Node l n v e r))" and wf: "wf_shape (plug c (Node l n v e r))"
    and p: "ctx_ptr NULL c = Some p"
    and k: "l = Leaf \<and> k = r \<or> r = Leaf \<and> k = l"
  shows "rbt_delete_one_child T (Some n) = Option.bind
    (case c of Lft _ _ _ _ _ \<Rightarrow> set_child1 T (Some p) (root_ptr k) | _ \<Rightarrow> set_child2 T (Some p) (root_ptr k))
    (delete_rebalance (Some n) (Some p) (root_ptr k))"
proof -
  from k consider "l = Leaf" "r = k" | "r = Leaf" "l = k" by auto
  note k_cases = this
  have nd: "deref T (Some n) = Some (node_at c l v e r)"
    using wf by (simp add: t heap_simps)
  show ?thesis
  proof (cases c)
    case Top
    then show ?thesis using p by simp
  next
    case (Lft d p' pv pe s)
    then have pd: "deref T (Some p) = Some (node_at d (Node l n v e r) pv pe s)"
      using wf p by (simp add: t conc_simps)
    show ?thesis
      using nd pd Lft p
      by (cases rule: k_cases; cases k) (simp_all add: Let_def set_child1_def rbt_delete_one_child_def delete_rebalance_def [abs_def] cong: if_cong)
  next
    case (Rgt s p' pv pe d)
    then have pd: "deref T (Some p) = Some (node_at d s pv pe (Node l n v e r))"
      using wf p by (simp add: t conc_simps)
    moreover have "root_ptr s \<noteq> Some n"
      using wf Rgt by auto
    ultimately show ?thesis
      using nd Rgt p
      by (cases rule: k_cases; cases k) (simp_all add: Let_def set_child2_def rbt_delete_one_child_def delete_rebalance_def [abs_def] cong: if_cong)
  qed
qed

lemma delete_rebalance_red:
  assumes "n \<notin> addr_set t"
  shows "delete_rebalance (Some n) p NULL (ext n (node_at c l v RED r) (conc m t)) = Some (conc m t)"
  by (simp add: delete_rebalance_def is_black_ext bst_destroy_ext [OF assms])

lemma delete_rebalance_child:
  assumes "n \<notin> addr_set t" and "wf_shape t" and t: "t = plug d (Node A x xv RED B)"
  shows "delete_rebalance (Some n) p (Some x) (ext n (node_at c l v BLACK r) (conc m t))
    = Some (conc m (plug d (Node A x xv BLACK B)))"
proof -
  have x: "x \<noteq> n" "heap_of NULL t x = Some (node_at d A xv RED B)"
    using assms nodes_plug [of d A x xv RED B] by auto
  then have "is_red (ext n (node_at c l v BLACK r) (conc m t)) (Some x) = Some True"
    by (simp add: is_red_def deref_def)
  then show ?thesis
    using finish_black [OF assms] by (simp add: delete_rebalance_def is_black_ext)
qed

lemma delete_rebalance_short:
  assumes n: "n \<notin> addr_set t" and s: "s = (if child1 pd = NULL then child2 pd else child1 pd)"
    and pd: "heap_of NULL t p = Some pd"
    and run: "Option.bind (adjust_delete_case2 (conc m t) (Some p) s) adjust_delete_rest = Some (conc m t')"
    and t': "entries t' = entries t"
  shows "delete_rebalance (Some n) (Some p) NULL (ext n (node_at c l v BLACK r) (conc m t)) = Some (conc m t')"
proof -
  let ?e = "ext n (node_at c l v BLACK r)"
  have "p \<noteq> n" using n pd by (metis heap_of_eq_None option.distinct(1))
  with pd have d: "deref (?e (conc m t)) (Some p) = Some pd" by (simp add: deref_def)
  have r: "Option.bind (adjust_delete_case2 (?e (conc m t)) (Some p) s) adjust_delete_rest
      = Some (?e (conc m t'))"
    by (rule framedD [OF framed_case2_rest _ run]) (use n in simp)
  have b: "is_black (?e (conc m t)) (Some n) = Some True"
    by (simp add: is_black_ext)
  have "delete_rebalance (Some n) (Some p) NULL (?e (conc m t)) = bst_destroy (?e (conc m t')) (Some n)"
    unfolding delete_rebalance_def
    by (simp only: b d r Let_def s [symmetric] bind.bind_lunit simp_thms if_True if_False)
  also have "n \<notin> addr_set t'" using n entries_addr_set [OF t'] by simp
  then have "bst_destroy (?e (conc m t')) (Some n) = Some (conc m t')"
    by (rule bst_destroy_ext)
  finally show ?thesis .
qed

lemma rbt_delete_one_child_ok:
  assumes wf: "wf_shape (plug c (Node l n v e r))" and inv: "rbt_inv (plug c (Node l n v e r))"
    and k: "l = Leaf \<and> k = r \<or> r = Leaf \<and> k = l"
  shows "\<exists>t'. rbt_delete_one_child (conc m (plug c (Node l n v e r))) (Some n) = Some (conc m t') \<and>
    entries t' = entries (plug c k) \<and> rbt_inv t'"
proof (cases "c = Top")
  case True
  then show ?thesis using rbt_delete_Top [of l n v e r k m] assms by simp
next
  case c: False
  then obtain p where p: "ctx_ptr NULL c = Some p" by (cases c) auto
  let ?x = "node_at c l v e r"
  have wf': "wf_shape (plug c k)" "n \<notin> addr_set (plug c k)" using wf k by auto
  have "rbt_delete_one_child (conc m (plug c (Node l n v e r))) (Some n) =
      delete_rebalance (Some n) (Some p) (root_ptr k) (ext n ?x (conc m (plug c k)))"
    using rbt_delete_unlinked [OF refl wf p k, of m] p c wf
      set_child1_unlink [OF _ k] set_child2_unlink [OF _ k]
    by (cases c) simp_all
  moreover have "\<exists>t'. delete_rebalance (Some n) (Some p) (root_ptr k) (ext n ?x (conc m (plug c k))) = Some (conc m t')
      \<and> entries t' = entries (plug c k) \<and> rbt_inv t'"
  proof (cases e)
    case RBT_COLOR_RED
    with one_child_cases(1) [OF inv k] show ?thesis
      using delete_rebalance_red [OF wf'(2), where c = c] by auto
  next
    case e: RBT_COLOR_BLACK
    show ?thesis
    proof (cases "k = Leaf")
      case False
      with one_child_cases(2) [OF inv k e] obtain A x xv B where kk: "k = Node A x xv RED B"
        and inv': "rbt_inv (plug c (Node A x xv BLACK B))" by auto
      have "delete_rebalance (Some n) (Some p) (root_ptr k) (ext n ?x (conc m (plug c k)))
          = Some (conc m (plug c (Node A x xv BLACK B)))"
        using delete_rebalance_child [OF wf'(2,1), of c A x xv B] kk e by simp
      with inv' show ?thesis by (intro exI conjI) (assumption, simp add: kk, assumption)
    next
      case True
      with one_child_cases(3) [OF inv k e] have c12: "invc_ctx c" "invh_ctx c 1" by auto
      show ?thesis
        using c
      proof (cases c)
        case (Lft d p' pv pe s)
        then have [simp]: "p' = p" using p by simp
        have "short_L d Leaf pe s" using c12 Lft by (auto simp: short_L_def)
        then obtain t' where t': "Option.bind (adjust_delete_case2 (conc m (plug c k)) (Some p) (root_ptr s))
            adjust_delete_rest = Some (conc m t')" "entries t' = entries (plug c k)" "rbt_inv t'"
          using delete_step_L [of d Leaf p pv pe s m] adjust_delete_case1_ok [of d] wf' c12 Lft True
          by auto
        have pd: "heap_of NULL (plug c k) p = Some (node_at d Leaf pv pe s)"
          using wf' Lft True by (simp add: heap_simps)
        have "delete_rebalance (Some n) (Some p) NULL (ext n (node_at c l v BLACK r) (conc m (plug c k))) = Some (conc m t')"
          by (rule delete_rebalance_short [OF wf'(2) _ pd t'(1,2)]) simp
        with t' e True show ?thesis by auto
      next
        case (Rgt s p' pv pe d)
        then have [simp]: "p' = p" using p by simp
        have "short_R d s pe Leaf" using c12 Rgt by (auto simp: short_R_def)
        moreover from this have "s \<noteq> Leaf" by (auto simp: short_R_def)
        ultimately obtain t' where t': "Option.bind (adjust_delete_case2 (conc m (plug c k)) (Some p) (root_ptr s))
            adjust_delete_rest = Some (conc m t')" "entries t' = entries (plug c k)" "rbt_inv t'"
          using delete_step_R [of d s p pv pe Leaf m] adjust_delete_case1_ok [of d] wf' c12 Rgt True
          by auto
        have pd: "heap_of NULL (plug c k) p = Some (node_at d s pv pe Leaf)"
          using wf' Rgt True by (simp add: heap_simps)
        have "delete_rebalance (Some n) (Some p) NULL (ext n (node_at c l v BLACK r) (conc m (plug c k))) = Some (conc m t')"
          by (rule delete_rebalance_short [OF wf'(2) _ pd t'(1,2)]) (simp add: \<open>s \<noteq> Leaf\<close>)
        with t' e True show ?thesis by auto
      qed simp
    qed
  qed
  ultimately show ?thesis by simp
qed

end
