(* ===== verification/Avl_Policy.thy ===== *)
theory Avl_Policy
  imports Bst_Rotate
begin

text \<open>
  The AVL policy (\<open>inc/vhwd/collection/detail/avl_tree_policy.h\<close>): \<open>avl_trait\<close> and
  \<open>avl_tree\<close>. \<open>extra\<close> is the balance factor, the height of \<open>child1\<close> minus that of \<open>child2\<close>;
  it stays within -2 and 2, so \<open>int\<close> stands for the code's \<open>int\<close>. The mutual recursion of
  \<open>blance_parent\<close>, \<open>blance_child1\<close>, \<open>blance_child2\<close> and \<open>handle_unblance_gt<true>\<close>, \<open>handle_unblance_lt<true>\<close> always
  goes through a call of \<open>blance_parent\<close> in tail position; such a call is returned as a pending
  node, which the loop of \<open>blance_parent\<close> takes up.
\<close>

type_synonym ('k, 'v) avl = "('k, 'v, int) bst_tree"
type_synonym ('k, 'v) avl_shape = "('k, 'v, int) shape"

definition set_extra :: "('k, 'v) avl \<Rightarrow> ptr \<Rightarrow> int \<Rightarrow> ('k, 'v) avl option" where
  "set_extra t p f = upd t p (extra_update (\<lambda>_. f))"

text \<open>The second component is the node of a pending call \<open>blance_parent\<close>, or NULL.\<close>

definition handle_unblance_gt :: "bool \<Rightarrow> ('k, 'v) avl \<Rightarrow> ptr \<Rightarrow> (('k, 'v) avl \<times> ptr) option" where
  "handle_unblance_gt d t p = do {
     pd \<leftarrow> deref t p;
     wassert (extra pd = 2);
     let n = child1 pd;
     nd \<leftarrow> deref t n;
     let f1 = extra nd;
     if f1 \<ge> 0 then do {
       t \<leftarrow> rotate_right t p;
       nd \<leftarrow> deref t n;
       let fx = extra nd;
       t \<leftarrow> set_extra t n (fx - 1);
       nd \<leftarrow> deref t n;
       t \<leftarrow> set_extra t p (- extra nd);
       Some (t, if d \<and> f1 = 1 then n else NULL) }
     else do {
       let x = child2 nd;
       t \<leftarrow> rotate_left t n;
       t \<leftarrow> rotate_right t p;
       xd \<leftarrow> deref t x;
       let fx = extra xd;
       if fx \<ge> 0 then do {
         t \<leftarrow> set_extra t n 0;
         t \<leftarrow> set_extra t p (- fx);
         t \<leftarrow> set_extra t x 0;
         Some (t, if d then x else NULL) }
       else do {
         t \<leftarrow> set_extra t n (- fx);
         t \<leftarrow> set_extra t p 0;
         t \<leftarrow> set_extra t x 0;
         Some (t, if d then x else NULL) } } }"

definition handle_unblance_lt :: "bool \<Rightarrow> ('k, 'v) avl \<Rightarrow> ptr \<Rightarrow> (('k, 'v) avl \<times> ptr) option" where
  "handle_unblance_lt d t p = do {
     pd \<leftarrow> deref t p;
     wassert (extra pd = -2);
     let n = child2 pd;
     nd \<leftarrow> deref t n;
     let f1 = extra nd;
     if f1 \<le> 0 then do {
       t \<leftarrow> rotate_left t p;
       nd \<leftarrow> deref t n;
       let fx = extra nd;
       t \<leftarrow> set_extra t n (fx + 1);
       nd \<leftarrow> deref t n;
       t \<leftarrow> set_extra t p (- extra nd);
       Some (t, if d \<and> f1 = -1 then n else NULL) }
     else do {
       let x = child1 nd;
       xd \<leftarrow> deref t x;
       let fx = extra xd;
       t \<leftarrow> rotate_right t n;
       t \<leftarrow> rotate_left t p;
       if fx \<le> 0 then do {
         t \<leftarrow> set_extra t n 0;
         t \<leftarrow> set_extra t p (- fx);
         t \<leftarrow> set_extra t x 0;
         Some (t, if d then x else NULL) }
       else do {
         t \<leftarrow> set_extra t n (- fx);
         t \<leftarrow> set_extra t p 0;
         t \<leftarrow> set_extra t x 0;
         Some (t, if d then x else NULL) } } }"

subsection \<open>Insertion\<close>

text \<open>One turn of the loop: the flag tells whether the loop goes on at the next parent.\<close>

definition avl_insert_step :: "('k, 'v) avl \<Rightarrow> ptr \<Rightarrow> ptr \<Rightarrow> (('k, 'v) avl \<times> bool) option" where
  "avl_insert_step t n p = do {
     pd \<leftarrow> deref t p;
     if n = child1 pd then do {
       let f1 = extra pd + 1;
       t \<leftarrow> set_extra t p f1;
       if f1 = 0 then Some (t, False)
       else if f1 = 2 then do { r \<leftarrow> handle_unblance_gt False t p; Some (fst r, False) }
       else do { wassert (f1 = 1); Some (t, True) } }
     else do {
       let f1 = extra pd - 1;
       t \<leftarrow> set_extra t p f1;
       if f1 = 0 then Some (t, False)
       else if f1 = -2 then do { r \<leftarrow> handle_unblance_lt False t p; Some (fst r, False) }
       else do { wassert (f1 = -1); Some (t, True) } } }"

partial_function (option) avl_insert_loop :: "('k, 'v) avl \<Rightarrow> ptr \<Rightarrow> ptr \<Rightarrow> ('k, 'v) avl option" where
  "avl_insert_loop t n p = do {
     r \<leftarrow> avl_insert_step t n p;
     if \<not> snd r then Some (fst r)
     else do {
       pd \<leftarrow> deref (fst r) p;
       if parent pd = NULL then Some (fst r) else avl_insert_loop (fst r) p (parent pd) } }"

text \<open>\<open>avl_trait::adjust_insert\<close> resets \<open>extra\<close> and calls \<open>avl_tree::adjust_insert\<close>.\<close>

definition avl_adjust_insert :: "('k, 'v) avl \<Rightarrow> ptr \<Rightarrow> ('k, 'v) avl option" where
  "avl_adjust_insert t n = do {
     t \<leftarrow> set_extra t n 0;
     nd \<leftarrow> deref t n;
     if parent nd = NULL then Some (t\<lparr>m_pRoot := n\<rparr>)
     else avl_insert_loop t n (parent nd) }"

subsection \<open>Deletion\<close>

definition blance_child1 :: "('k, 'v) avl \<Rightarrow> ptr \<Rightarrow> (('k, 'v) avl \<times> ptr) option" where
  "blance_child1 t n = do {
     nd \<leftarrow> deref t n;
     let f1 = extra nd - 1;
     t \<leftarrow> set_extra t n f1;
     if f1 = -1 then Some (t, NULL)
     else if f1 = -2 then handle_unblance_lt True t n
     else do { wassert (f1 = 0); Some (t, n) } }"

definition blance_child2 :: "('k, 'v) avl \<Rightarrow> ptr \<Rightarrow> (('k, 'v) avl \<times> ptr) option" where
  "blance_child2 t n = do {
     nd \<leftarrow> deref t n;
     let f1 = extra nd + 1;
     t \<leftarrow> set_extra t n f1;
     if f1 = 1 then Some (t, NULL)
     else if f1 = 2 then handle_unblance_gt True t n
     else do { wassert (f1 = 0); Some (t, n) } }"

partial_function (option) blance_parent :: "('k, 'v) avl \<Rightarrow> ptr \<Rightarrow> ('k, 'v) avl option" where
  "blance_parent t n = do {
     nd \<leftarrow> deref t n;
     if parent nd = NULL then Some t
     else do {
       pd \<leftarrow> deref t (parent nd);
       r \<leftarrow> (if n = child1 pd then blance_child1 t (parent nd) else blance_child2 t (parent nd));
       if snd r = NULL then Some (fst r) else blance_parent (fst r) (snd r) } }"

definition blance_rest :: "('k, 'v) avl \<times> ptr \<Rightarrow> ('k, 'v) avl option" where
  "blance_rest r = (if snd r = NULL then Some (fst r) else blance_parent (fst r) (snd r))"

definition avl_delete_one_child :: "('k, 'v) avl \<Rightarrow> ptr \<Rightarrow> ('k, 'v) avl option" where
  "avl_delete_one_child t n = do {
     nd \<leftarrow> deref t n;
     let child = (if child1 nd \<noteq> NULL then child1 nd else child2 nd);
     let p = parent nd;
     t \<leftarrow> (if p = NULL then do {
         t \<leftarrow> Some (t\<lparr>m_pRoot := child\<rparr>);
         if child \<noteq> NULL then upd t child (parent_update (\<lambda>_. NULL)) else Some t }
       else do {
         pd \<leftarrow> deref t p;
         if n = child1 pd then do {
           t \<leftarrow> set_child1 t p child;
           r \<leftarrow> blance_child1 t p;
           blance_rest r }
         else do {
           t \<leftarrow> set_child2 t p child;
           r \<leftarrow> blance_child2 t p;
           blance_rest r } });
     bst_destroy t n }"

subsection \<open>Validation\<close>

partial_function (option) avl_depth_real :: "('k, 'v) avl \<Rightarrow> ptr \<Rightarrow> int option" where
  "avl_depth_real t p = (if p = NULL then Some 0 else do {
     nd \<leftarrow> deref t p;
     p1 \<leftarrow> avl_depth_real t (child1 nd);
     p2 \<leftarrow> avl_depth_real t (child2 nd);
     if p1 < 0 \<or> p2 < 0 \<or> p1 - p2 > 1 \<or> p1 - p2 < -1 then Some (-1)
     else Some (max p1 p2 + 1) })"

definition avl_depth :: "('k, 'v) avl \<Rightarrow> int option" where
  "avl_depth t = avl_depth_real t (m_pRoot t)"

definition avl_bst_validate :: "('k, 'v) avl \<Rightarrow> bool option" where
  "avl_bst_validate t = do { d \<leftarrow> avl_depth t; Some (d \<ge> 0) }"

end
