(* ===== verification/Avl_Correct.thy ===== *)
theory Avl_Correct
  imports Avl_Policy Bst_Frame
begin

text \<open>
  The AVL invariant and the correctness of the two entry points of the policy.
\<close>

fun ht :: "('k, 'v, 'e) shape \<Rightarrow> int" where
  "ht Leaf = 0"
| "ht (Node l a v e r) = 1 + max (ht l) (ht r)"

fun avl_inv :: "('k, 'v) avl_shape \<Rightarrow> bool" where
  "avl_inv Leaf \<longleftrightarrow> True"
| "avl_inv (Node l a v e r) \<longleftrightarrow> avl_inv l \<and> avl_inv r \<and> e = ht l - ht r \<and> -1 \<le> e \<and> e \<le> 1"

text \<open>\<open>avl_ctx c h\<close>: the context is balanced when the hole has height \<open>h\<close>.\<close>

fun avl_ctx :: "('k, 'v, int) ctx \<Rightarrow> int \<Rightarrow> bool" where
  "avl_ctx Top h \<longleftrightarrow> True"
| "avl_ctx (Lft c a v e r) h \<longleftrightarrow> avl_ctx c (1 + max h (ht r)) \<and> avl_inv r \<and> e = h - ht r \<and> -1 \<le> e \<and> e \<le> 1"
| "avl_ctx (Rgt l a v e c) h \<longleftrightarrow> avl_ctx c (1 + max (ht l) h) \<and> avl_inv l \<and> e = ht l - h \<and> -1 \<le> e \<and> e \<le> 1"

lemma ht_nonneg: "0 \<le> ht t"
  by (induction t) auto

lemma ht_eq_0 [simp]: "ht t = 0 \<longleftrightarrow> t = Leaf"
proof (cases t)
  case (Node l a v e r)
  then show ?thesis using ht_nonneg [of l] by (simp add: max_def)
qed simp

lemma avl_plug: "avl_inv (plug c t) \<longleftrightarrow> avl_inv t \<and> avl_ctx c (ht t)"
  by (induction c arbitrary: t) auto

lemma handle_gt_single:
  assumes "wf_shape (plug c (Node (Node A n nv f B) p pv 2 C))" and "0 \<le> f"
  shows "handle_unblance_gt d (conc m (plug c (Node (Node A n nv f B) p pv 2 C))) (Some p)
    = Some (conc m (plug c (Node A n nv (f - 1) (Node B p pv (1 - f) C))), if d \<and> f = 1 then Some n else NULL)"
  using assms by (simp add: handle_unblance_gt_def set_extra_def conc_simps)

lemma handle_gt_double:
  assumes "wf_shape (plug c (Node (Node A n nv f (Node B x xv xe C)) p pv 2 D))" and "f < 0"
  shows "handle_unblance_gt d (conc m (plug c (Node (Node A n nv f (Node B x xv xe C)) p pv 2 D))) (Some p)
    = Some (conc m (plug c (Node (Node A n nv (if 0 \<le> xe then 0 else - xe) B) x xv 0
        (Node C p pv (if 0 \<le> xe then - xe else 0) D))), if d then Some x else NULL)"
  using assms by (simp add: handle_unblance_gt_def set_extra_def conc_simps)

lemma handle_lt_single:
  assumes "wf_shape (plug c (Node C p pv (-2) (Node B n nv f A)))" and "f \<le> 0"
  shows "handle_unblance_lt d (conc m (plug c (Node C p pv (-2) (Node B n nv f A)))) (Some p)
    = Some (conc m (plug c (Node (Node C p pv (- (f + 1)) B) n nv (f + 1) A)), if d \<and> f = -1 then Some n else NULL)"
  using assms by (simp add: handle_unblance_lt_def set_extra_def conc_simps)

lemma handle_lt_double:
  assumes "wf_shape (plug c (Node D p pv (-2) (Node (Node C x xv xe B) n nv f A)))" and "0 < f"
  shows "handle_unblance_lt d (conc m (plug c (Node D p pv (-2) (Node (Node C x xv xe B) n nv f A)))) (Some p)
    = Some (conc m (plug c (Node (Node D p pv (if xe \<le> 0 then - xe else 0) C) x xv 0
        (Node B n nv (if xe \<le> 0 then 0 else - xe) A))), if d then Some x else NULL)"
  using assms by (simp add: handle_unblance_lt_def set_extra_def conc_simps)


lemma ht_pos: "0 < ht t \<Longrightarrow> \<exists>l a v e r. t = Node l a v e r"
  by (cases t) auto

lemma handle_gt_ok:
  assumes wf: "wf_shape (plug c (Node (Node A n nv f B) p pv 2 C))"
    and inv: "avl_inv (Node A n nv f B)" "avl_inv C" and h: "ht (Node A n nv f B) = ht C + 2"
  shows "\<exists>Y. handle_unblance_gt d (conc m (plug c (Node (Node A n nv f B) p pv 2 C))) (Some p)
      = Some (conc m (plug c Y), if d \<and> f \<noteq> 0 then root_ptr Y else NULL) \<and>
    entries Y = entries (Node (Node A n nv f B) p pv 2 C) \<and> avl_inv Y \<and> Y \<noteq> Leaf \<and>
    ht Y = ht C + (if f = 0 then 3 else 2)"
proof (cases "0 \<le> f")
  case True
  then show ?thesis
    using handle_gt_single [OF wf] inv h
    by (intro exI [of _ "Node A n nv (f - 1) (Node B p pv (1 - f) C)"]) (auto simp: max_def split: if_splits)
next
  case False
  with inv have "0 < ht B" using ht_nonneg [of A] by auto
  then obtain B1 x xv xe B2 where B: "B = Node B1 x xv xe B2" using ht_pos by blast
  show ?thesis
    using handle_gt_double [OF wf [unfolded B]] inv h False unfolding B
    by (intro exI [of _ "Node (Node A n nv (if 0 \<le> xe then 0 else - xe) B1) x xv 0
        (Node B2 p pv (if 0 \<le> xe then - xe else 0) C)"]) (auto simp: max_def split: if_splits)
qed

lemma handle_lt_ok:
  assumes wf: "wf_shape (plug c (Node C p pv (-2) (Node B n nv f A)))"
    and inv: "avl_inv (Node B n nv f A)" "avl_inv C" and h: "ht (Node B n nv f A) = ht C + 2"
  shows "\<exists>Y. handle_unblance_lt d (conc m (plug c (Node C p pv (-2) (Node B n nv f A)))) (Some p)
      = Some (conc m (plug c Y), if d \<and> f \<noteq> 0 then root_ptr Y else NULL) \<and>
    entries Y = entries (Node C p pv (-2) (Node B n nv f A)) \<and> avl_inv Y \<and> Y \<noteq> Leaf \<and>
    ht Y = ht C + (if f = 0 then 3 else 2)"
proof (cases "f \<le> 0")
  case True
  then show ?thesis
    using handle_lt_single [OF wf] inv h
    by (intro exI [of _ "Node (Node C p pv (- (f + 1)) B) n nv (f + 1) A"]) (auto simp: max_def split: if_splits)
next
  case False
  with inv have "0 < ht B" using ht_nonneg [of A] by auto
  then obtain B1 x xv xe B2 where B: "B = Node B1 x xv xe B2" using ht_pos by blast
  show ?thesis
    using handle_lt_double [OF wf [unfolded B]] inv h False unfolding B
    by (intro exI [of _ "Node (Node C p pv (if xe \<le> 0 then - xe else 0) B1) x xv 0
        (Node B2 n nv (if xe \<le> 0 then 0 else - xe) A)"]) (auto simp: max_def split: if_splits)
qed

subsection \<open>Insertion\<close>

text \<open>A subtree that has grown: a single node, or one that leans to a side.\<close>

fun leans :: "('k, 'v) avl_shape \<Rightarrow> bool" where
  "leans Leaf \<longleftrightarrow> False"
| "leans (Node l a v e r) \<longleftrightarrow> l = Leaf \<and> r = Leaf \<or> e \<noteq> 0"

lemma insert_step_Lft:
  assumes wf: "wf_shape (plug c (Node X p pv e r))" and inv: "avl_inv X" "avl_inv r" "leans X"
    and e: "e = ht X - 1 - ht r" "-1 \<le> e" "e \<le> 1" and c: "avl_ctx c (1 + max (ht X - 1) (ht r))"
  shows "\<exists>Y b. avl_insert_step (conc m (plug c (Node X p pv e r))) (root_ptr X) (Some p) = Some (conc m (plug c Y), b)
    \<and> entries Y = entries (Node X p pv e r) \<and> avl_inv Y \<and>
    (if b then Y = Node X p pv 1 r \<and> e = 0 else avl_ctx c (ht Y))"
proof -
  obtain A n nv f B where X: "X = Node A n nv f B" using inv(3) by (cases X) auto
  then have rX: "root_ptr X = Some n" by simp
  consider "e = -1" | "e = 0" | "e = 1" using e by linarith
  then show ?thesis
  proof cases
    case 3
    then have h: "ht X = ht r + 2" using e by simp
    then have c': "avl_ctx c (ht r + 2)" using c by (simp add: add.commute)
    from h inv(3) X ht_nonneg [of r] have "f \<noteq> 0" by auto
    moreover have "set_extra (conc m (plug c (Node X p pv 1 r))) (Some p) 2 = Some (conc m (plug c (Node X p pv 2 r)))"
      using wf by (simp add: set_extra_def conc_simps)
    moreover obtain Y where "handle_unblance_gt False (conc m (plug c (Node X p pv 2 r))) (Some p)
        = Some (conc m (plug c Y), NULL)"
        "entries Y = entries (Node X p pv 2 r)" "avl_inv Y" "ht Y = ht r + (if f = 0 then 3 else 2)"
      using handle_gt_ok [of c A n nv f B p pv r False m] wf inv h unfolding X by auto
    ultimately show ?thesis
      using wf c' 3 X by (intro exI [of _ Y] exI [of _ False])
        (simp add: avl_insert_step_def conc_simps)
  next
    case 1
    then have "ht X = ht r" using e by simp
    then have "avl_ctx c (ht (Node X p pv 0 r))" using c by (simp add: max_def)
    with 1 show ?thesis using wf inv rX \<open>ht X = ht r\<close>
      by (intro exI [of _ "Node X p pv 0 r"] exI [of _ False])
        (simp add: avl_insert_step_def set_extra_def conc_simps)
  next
    case 2
    then show ?thesis using wf inv e rX
      by (intro exI [of _ "Node X p pv 1 r"] exI [of _ True])
        (simp add: avl_insert_step_def set_extra_def conc_simps)
  qed
qed

lemma insert_step_Rgt:
  assumes wf: "wf_shape (plug c (Node r p pv e X))" and inv: "avl_inv X" "avl_inv r" "leans X"
    and e: "e = ht r - (ht X - 1)" "-1 \<le> e" "e \<le> 1" and c: "avl_ctx c (1 + max (ht r) (ht X - 1))"
  shows "\<exists>Y b. avl_insert_step (conc m (plug c (Node r p pv e X))) (root_ptr X) (Some p) = Some (conc m (plug c Y), b)
    \<and> entries Y = entries (Node r p pv e X) \<and> avl_inv Y \<and>
    (if b then Y = Node r p pv (- 1) X \<and> e = 0 else avl_ctx c (ht Y))"
proof -
  obtain A n nv f B where X: "X = Node B n nv f A" using inv(3) by (cases X) auto
  then have rt: "root_ptr r \<noteq> Some n" using wf by auto
  from X have rX: "root_ptr X = Some n" by simp
  consider "e = 1" | "e = 0" | "e = -1" using e by linarith
  then show ?thesis
  proof cases
    case 3
    then have h: "ht X = ht r + 2" using e by simp
    then have c': "avl_ctx c (ht r + 2)" using c by (simp add: add.commute)
    from h inv(3) X ht_nonneg [of r] have "f \<noteq> 0" by auto
    moreover have "set_extra (conc m (plug c (Node r p pv (- 1) X))) (Some p) (-2) = Some (conc m (plug c (Node r p pv (- 2) X)))"
      using wf by (simp add: set_extra_def conc_simps)
    moreover obtain Y where "handle_unblance_lt False (conc m (plug c (Node r p pv (- 2) X))) (Some p)
        = Some (conc m (plug c Y), NULL)"
        "entries Y = entries (Node r p pv (- 2) X)" "avl_inv Y" "ht Y = ht r + (if f = 0 then 3 else 2)"
      using handle_lt_ok [of c r p pv B n nv f A False m] wf inv h unfolding X by auto
    ultimately show ?thesis
      using wf c' 3 X by (intro exI [of _ Y] exI [of _ False])
        (simp add: avl_insert_step_def conc_simps rt rt [symmetric])
  next
    case 1
    then have "ht X = ht r" using e by simp
    then have "avl_ctx c (ht (Node r p pv 0 X))" using c by (simp add: max_def)
    with 1 show ?thesis using wf inv rX \<open>ht X = ht r\<close>
      by (intro exI [of _ "Node r p pv 0 X"] exI [of _ False])
        (simp add: avl_insert_step_def set_extra_def conc_simps rt rt [symmetric])
  next
    case 2
    then show ?thesis using wf inv e rX
      by (intro exI [of _ "Node r p pv (- 1) X"] exI [of _ True])
        (simp add: avl_insert_step_def set_extra_def conc_simps rt rt [symmetric])
  qed
qed

lemma avl_insert_loop_ok:
  assumes "wf_shape (plug c X)" and "avl_inv X" and "leans X" and "avl_ctx c (ht X - 1)" and "c \<noteq> Top"
  shows "\<exists>t'. avl_insert_loop (conc m (plug c X)) (root_ptr X) (ctx_ptr NULL c) = Some (conc m t') \<and>
    entries t' = entries (plug c X) \<and> avl_inv t'"
  using assms
proof (induction c arbitrary: X)
  case Top
  then show ?case by simp
next
  case (Lft c p pv e r)
  obtain Y b where Y: "avl_insert_step (conc m (plug c (Node X p pv e r))) (root_ptr X) (Some p) = Some (conc m (plug c Y), b)"
    "entries Y = entries (Node X p pv e r)" "avl_inv Y"
    "if b then Y = Node X p pv 1 r \<and> e = 0 else avl_ctx c (ht Y)"
    using insert_step_Lft [of c X p pv e r m] Lft.prems by auto
  show ?case
  proof (cases b)
    case False
    then show ?thesis using Y
      by (subst avl_insert_loop.simps) (auto simp: avl_plug intro!: exI [of _ "plug c Y"])
  next
    case True
    then have Y': "Y = Node X p pv 1 r" "e = 0" "wf_shape (plug c Y)" using Y Lft.prems(1) by auto
    have pd: "deref (conc m (plug c Y)) (Some p) = Some (node_at c X pv 1 r)"
      using Y' by (simp add: heap_simps)
    show ?thesis
    proof (cases "c = Top")
      case True
      then show ?thesis using Y Y' pd \<open>b\<close>
        by (subst avl_insert_loop.simps) (auto simp: avl_plug intro!: exI [of _ "plug c Y"])
    next
      case False
      then obtain q where q: "ctx_ptr NULL c = Some q" by (cases c) auto
      have "ht Y - 1 = 1 + max (ht X - 1) (ht r)" "leans Y" using Y' Lft.prems by auto
      then obtain t' where "avl_insert_loop (conc m (plug c Y)) (root_ptr Y) (ctx_ptr NULL c) = Some (conc m t')"
          "entries t' = entries (plug c Y)" "avl_inv t'"
        using Lft.IH [OF Y'(3) Y(3) _ _ False] Lft.prems Y' by auto
      then show ?thesis using Y Y' pd \<open>b\<close> q
        by (subst avl_insert_loop.simps) auto
    qed
  qed
next
  case (Rgt r p pv e c)
  obtain Y b where Y: "avl_insert_step (conc m (plug c (Node r p pv e X))) (root_ptr X) (Some p) = Some (conc m (plug c Y), b)"
    "entries Y = entries (Node r p pv e X)" "avl_inv Y"
    "if b then Y = Node r p pv (- 1) X \<and> e = 0 else avl_ctx c (ht Y)"
    using insert_step_Rgt [of c r p pv e X m] Rgt.prems by auto
  show ?case
  proof (cases b)
    case False
    then show ?thesis using Y
      by (subst avl_insert_loop.simps) (auto simp: avl_plug intro!: exI [of _ "plug c Y"])
  next
    case True
    then have Y': "Y = Node r p pv (- 1) X" "e = 0" "wf_shape (plug c Y)" using Y Rgt.prems(1) by auto
    have pd: "deref (conc m (plug c Y)) (Some p) = Some (node_at c r pv (- 1) X)"
      using Y' by (simp add: heap_simps)
    show ?thesis
    proof (cases "c = Top")
      case True
      then show ?thesis using Y Y' pd \<open>b\<close>
        by (subst avl_insert_loop.simps) (auto simp: avl_plug intro!: exI [of _ "plug c Y"])
    next
      case False
      then obtain q where q: "ctx_ptr NULL c = Some q" by (cases c) auto
      have "ht Y - 1 = 1 + max (ht r) (ht X - 1)" "leans Y" using Y' Rgt.prems by auto
      then obtain t' where "avl_insert_loop (conc m (plug c Y)) (root_ptr Y) (ctx_ptr NULL c) = Some (conc m t')"
          "entries t' = entries (plug c Y)" "avl_inv t'"
        using Rgt.IH [OF Y'(3) Y(3) _ _ False] Rgt.prems Y' by auto
      then show ?thesis using Y Y' pd \<open>b\<close> q
        by (subst avl_insert_loop.simps) auto
    qed
  qed
qed

end
