(* ===== verification/Avl_Delete.thy ===== *)
theory Avl_Delete
  imports Avl_Correct
begin

text \<open>
  Deletion in AVL trees: the upward loop of \<open>blance_parent\<close>, the frame rule for it, and
  \<open>delete_one_child\<close>.
\<close>

lemma avl_adjust_insert_Top:
  "avl_adjust_insert ((conc m (Node Leaf n v e Leaf))\<lparr>m_pRoot := q\<rparr>) (Some n)
   = Some (conc m (Node Leaf n v 0 Leaf))"
  by (simp add: avl_adjust_insert_def set_extra_def upd_def deref_def conc_def fun_eq_iff)

lemma avl_adjust_insert_plug:
  assumes wf: "wf_shape (plug c (Node Leaf n v e Leaf))" and inv: "avl_inv (plug c Leaf)"
  shows "\<exists>t'. avl_adjust_insert (conc m (plug c (Node Leaf n v e Leaf))) (Some n) = Some (conc m t') \<and>
    entries t' = entries (plug c (Node Leaf n v e Leaf)) \<and> avl_inv t'"
proof -
  let ?X = "Node Leaf n v (0::int) Leaf"
  have s: "set_extra (conc m (plug c (Node Leaf n v e Leaf))) (Some n) 0 = Some (conc m (plug c ?X))"
    and d: "deref (conc m (plug c ?X)) (Some n) = Some (node_at c Leaf v 0 Leaf)"
    using wf by (simp_all add: set_extra_def conc_simps)
  show ?thesis
  proof (cases "c = Top")
    case True
    then show ?thesis using avl_adjust_insert_Top [where m = m and n = n and v = v and e = e and q = "Some n"]
      by (auto simp: conc_def intro!: exI [of _ ?X])
  next
    case False
    have "\<exists>t'. avl_insert_loop (conc m (plug c ?X)) (root_ptr ?X) (ctx_ptr NULL c) = Some (conc m t') \<and>
      entries t' = entries (plug c ?X) \<and> avl_inv t'"
      by (rule avl_insert_loop_ok) (use wf inv False in \<open>auto simp: avl_plug\<close>)
    moreover obtain q where "ctx_ptr NULL c = Some q" using False by (cases c) auto
    ultimately show ?thesis using s d by (simp add: avl_adjust_insert_def)
  qed
qed

subsection \<open>One step of the deletion fix-up\<close>

lemma blance_child1_ok:
  assumes wf: "wf_shape (plug c (Node l p pv e r))" and inv: "avl_inv l" "avl_inv r"
    and e: "e = ht l + 1 - ht r" "-1 \<le> e" "e \<le> 1"
  shows "\<exists>Y q. blance_child1 (conc m (plug c (Node l p pv e r))) (Some p) = Some (conc m (plug c Y), q) \<and>
    entries Y = entries (Node l p pv e r) \<and> avl_inv Y \<and> Y \<noteq> Leaf \<and>
    (q = NULL \<and> ht Y = 1 + max (ht l + 1) (ht r) \<or> q = root_ptr Y \<and> ht Y + 1 = 1 + max (ht l + 1) (ht r))"
proof -
  consider "e = -1" | "e = 0" | "e = 1" using e by linarith
  then show ?thesis
  proof cases
    case 1
    then have h: "ht r = ht l + 2" using e by simp
    then obtain B n nv f A where r: "r = Node B n nv f A" using ht_pos [of r] ht_nonneg [of l] by auto
    have "set_extra (conc m (plug c (Node l p pv e r))) (Some p) (-2) = Some (conc m (plug c (Node l p pv (-2) r)))"
      using wf by (simp add: set_extra_def conc_simps)
    moreover obtain Y where "handle_unblance_lt True (conc m (plug c (Node l p pv (-2) r))) (Some p)
        = Some (conc m (plug c Y), if f \<noteq> 0 then root_ptr Y else NULL)"
        "entries Y = entries (Node l p pv (-2) r)" "avl_inv Y" "Y \<noteq> Leaf" "ht Y = ht l + (if f = 0 then 3 else 2)"
      using handle_lt_ok [of c l p pv B n nv f A True m] wf inv h unfolding r by auto
    ultimately show ?thesis
      using wf h 1 by (intro exI [of _ Y] exI [of _ "if f \<noteq> 0 then root_ptr Y else NULL"])
        (simp add: blance_child1_def conc_simps)
  next
    case 2
    then have h: "ht r = ht l + 1" using e by simp
    show ?thesis using wf inv 2 h
      by (intro exI [of _ "Node l p pv (-1) r"] exI [of _ NULL])
        (simp add: blance_child1_def set_extra_def conc_simps)
  next
    case 3
    then have h: "ht r = ht l" using e by simp
    show ?thesis using wf inv 3 h
      by (intro exI [of _ "Node l p pv 0 r"] exI [of _ "Some p"])
        (simp add: blance_child1_def set_extra_def conc_simps)
  qed
qed

lemma blance_child2_ok:
  assumes wf: "wf_shape (plug c (Node l p pv e r))" and inv: "avl_inv l" "avl_inv r"
    and e: "e = ht l - (ht r + 1)" "-1 \<le> e" "e \<le> 1"
  shows "\<exists>Y q. blance_child2 (conc m (plug c (Node l p pv e r))) (Some p) = Some (conc m (plug c Y), q) \<and>
    entries Y = entries (Node l p pv e r) \<and> avl_inv Y \<and> Y \<noteq> Leaf \<and>
    (q = NULL \<and> ht Y = 1 + max (ht l) (ht r + 1) \<or> q = root_ptr Y \<and> ht Y + 1 = 1 + max (ht l) (ht r + 1))"
proof -
  consider "e = 1" | "e = 0" | "e = -1" using e by linarith
  then show ?thesis
  proof cases
    case 1
    then have h: "ht l = ht r + 2" using e by simp
    then obtain A n nv f B where l: "l = Node A n nv f B" using ht_pos [of l] ht_nonneg [of r] by auto
    have "set_extra (conc m (plug c (Node l p pv e r))) (Some p) 2 = Some (conc m (plug c (Node l p pv 2 r)))"
      using wf by (simp add: set_extra_def conc_simps)
    moreover obtain Y where "handle_unblance_gt True (conc m (plug c (Node l p pv 2 r))) (Some p)
        = Some (conc m (plug c Y), if f \<noteq> 0 then root_ptr Y else NULL)"
        "entries Y = entries (Node l p pv 2 r)" "avl_inv Y" "Y \<noteq> Leaf" "ht Y = ht r + (if f = 0 then 3 else 2)"
      using handle_gt_ok [of c A n nv f B p pv r True m] wf inv h unfolding l by auto
    ultimately show ?thesis
      using wf h 1 by (intro exI [of _ Y] exI [of _ "if f \<noteq> 0 then root_ptr Y else NULL"])
        (simp add: blance_child2_def conc_simps)
  next
    case 2
    then have h: "ht l = ht r + 1" using e by simp
    show ?thesis using wf inv 2 h
      by (intro exI [of _ "Node l p pv 1 r"] exI [of _ NULL])
        (simp add: blance_child2_def set_extra_def conc_simps)
  next
    case 3
    then have h: "ht l = ht r" using e by simp
    show ?thesis using wf inv 3 h
      by (intro exI [of _ "Node l p pv 0 r"] exI [of _ "Some p"])
        (simp add: blance_child2_def set_extra_def conc_simps)
  qed
qed

subsection \<open>The loop\<close>

lemma blance_parent_ok:
  assumes "wf_shape (plug c X)" and "X \<noteq> Leaf" and "avl_inv X" and "avl_ctx c (ht X + 1)"
  shows "\<exists>t'. blance_parent (conc m (plug c X)) (root_ptr X) = Some (conc m t') \<and>
    entries t' = entries (plug c X) \<and> avl_inv t'"
  using assms
proof (induction c arbitrary: X)
  case Top
  then obtain l a v e r where "X = Node l a v e r" by (cases X) auto
  then show ?case using Top by (subst blance_parent.simps) (auto simp: heap_simps)
next
  case (Lft c p pv e r)
  then obtain l a v x r' where X: "X = Node l a v x r'" by (cases X) auto
  obtain Y q where Y: "blance_child1 (conc m (plug c (Node X p pv e r))) (Some p) = Some (conc m (plug c Y), q)"
    "entries Y = entries (Node X p pv e r)" "avl_inv Y" "Y \<noteq> Leaf"
    "q = NULL \<and> ht Y = 1 + max (ht X + 1) (ht r) \<or> q = root_ptr Y \<and> ht Y + 1 = 1 + max (ht X + 1) (ht r)"
    using blance_child1_ok [of c X p pv e r m] Lft.prems by auto
  have wfY: "wf_shape (plug c Y)" using Lft.prems(1) Y(2) by (metis entries_plug entries_wf plug.simps(2))
  have "\<exists>t'. blance_rest (conc m (plug c Y), q) = Some (conc m t') \<and> entries t' = entries (plug c Y) \<and> avl_inv t'"
    using Y(5)
  proof
    assume "q = NULL \<and> ht Y = 1 + max (ht X + 1) (ht r)"
    then show ?thesis using Y(3) Lft.prems(4) by (auto simp: blance_rest_def avl_plug intro!: exI [of _ "plug c Y"])
  next
    assume "q = root_ptr Y \<and> ht Y + 1 = 1 + max (ht X + 1) (ht r)"
    then show ?thesis using Lft.IH [OF wfY Y(4,3)] Y(4) Lft.prems(4) by (auto simp: blance_rest_def add.commute)
  qed
  moreover have "blance_parent (conc m (plug (Lft c p pv e r) X)) (root_ptr X) = blance_rest (conc m (plug c Y), q)"
    using Lft.prems(1) Y(1) unfolding X
    by (subst blance_parent.simps) (simp add: conc_simps blance_rest_def)
  ultimately show ?case using Y(2) by auto
next
  case (Rgt l p pv e c)
  then obtain l' a v x r where X: "X = Node l' a v x r" by (cases X) auto
  obtain Y q where Y: "blance_child2 (conc m (plug c (Node l p pv e X))) (Some p) = Some (conc m (plug c Y), q)"
    "entries Y = entries (Node l p pv e X)" "avl_inv Y" "Y \<noteq> Leaf"
    "q = NULL \<and> ht Y = 1 + max (ht l) (ht X + 1) \<or> q = root_ptr Y \<and> ht Y + 1 = 1 + max (ht l) (ht X + 1)"
    using blance_child2_ok [of c l p pv e X m] Rgt.prems by auto
  have wfY: "wf_shape (plug c Y)" using Rgt.prems(1) Y(2) by (metis entries_plug entries_wf plug.simps(3))
  have "\<exists>t'. blance_rest (conc m (plug c Y), q) = Some (conc m t') \<and> entries t' = entries (plug c Y) \<and> avl_inv t'"
    using Y(5)
  proof
    assume "q = NULL \<and> ht Y = 1 + max (ht l) (ht X + 1)"
    then show ?thesis using Y(3) Rgt.prems(4) by (auto simp: blance_rest_def avl_plug intro!: exI [of _ "plug c Y"])
  next
    assume "q = root_ptr Y \<and> ht Y + 1 = 1 + max (ht l) (ht X + 1)"
    then show ?thesis using Rgt.IH [OF wfY Y(4,3)] Y(4) Rgt.prems(4) by (auto simp: blance_rest_def add.commute)
  qed
  moreover have "root_ptr l \<noteq> Some a" using Rgt.prems(1) X by auto
  then have "blance_parent (conc m (plug (Rgt l p pv e c) X)) (root_ptr X) = blance_rest (conc m (plug c Y), q)"
    using Rgt.prems(1) Y(1) unfolding X
    by (subst blance_parent.simps) (auto simp: conc_simps blance_rest_def)
  ultimately show ?case using Y(2) by auto
qed

subsection \<open>The deletion fix-up is framed\<close>

lemma framed_set_extra [framed_intros]: "framed (\<lambda>t. set_extra t p f)"
  unfolding set_extra_def by (intro framed_intros)

lemma framed_handle [framed_intros]:
  "framed_pair (\<lambda>t. handle_unblance_gt d t p)" "framed_pair (\<lambda>t. handle_unblance_lt d t p)"
  unfolding handle_unblance_gt_def handle_unblance_lt_def Let_def by (intro framed_intros)+

lemma framed_blance_child [framed_intros]:
  "framed_pair (\<lambda>t. blance_child1 t p)" "framed_pair (\<lambda>t. blance_child2 t p)"
  unfolding blance_child1_def blance_child2_def Let_def by (intro framed_intros)+

lemma blance_parent_frame:
  assumes "blance_parent s n = Some s'"
  shows "nodes s a = None \<longrightarrow>
     nodes s' a = None \<and> blance_parent (ext a x s) n = Some (ext a x s')"
proof (rule blance_parent.raw_induct [where P = "\<lambda>s n s'. nodes s a = None \<longrightarrow>
     nodes s' a = None \<and> blance_parent (ext a x s) n = Some (ext a x s')", OF _ assms])
  fix f s n s'
  assume IH: "\<And>s n s'. f s n = Some s' \<Longrightarrow> nodes s a = None \<longrightarrow>
      nodes s' a = None \<and> blance_parent (ext a x s) n = Some (ext a x s')"
    and run: "do {
      nd \<leftarrow> deref s n;
      if parent nd = NULL then Some s
      else do {
        pd \<leftarrow> deref s (parent nd);
        r \<leftarrow> (if n = child1 pd then blance_child1 s (parent nd) else blance_child2 s (parent nd));
        if snd r = NULL then Some (fst r) else f (fst r) (snd r) } } = Some s'"
  show "nodes s a = None \<longrightarrow>
      nodes s' a = None \<and> blance_parent (ext a x s) n = Some (ext a x s')"
  proof
    assume a: "nodes s a = None"
    obtain nd where nd: "deref s n = Some nd" using run by (auto simp: bind_eq_Some_iff)
    note ndx = deref_ext [OF a nd, of x]
    show "nodes s' a = None \<and> blance_parent (ext a x s) n = Some (ext a x s')"
    proof (cases "parent nd = NULL")
      case True
      then show ?thesis
        using run nd ndx a by (subst blance_parent.simps) simp
    next
      case False
      then obtain pd r where pd: "deref s (parent nd) = Some pd"
        and r': "(if n = child1 pd then blance_child1 s (parent nd) else blance_child2 s (parent nd)) = Some r"
        and rest': "(if snd r = NULL then Some (fst r) else f (fst r) (snd r)) = Some s'"
        using run nd by (auto simp: bind_eq_Some_iff)
      obtain s1 q where "r = (s1, q)" by (cases r)
      note r = r' [unfolded \<open>r = (s1, q)\<close>] and rest = rest' [unfolded \<open>r = (s1, q)\<close> fst_conv snd_conv]
      have fr: "framed_pair (\<lambda>t. if n = child1 pd then blance_child1 t (parent nd) else blance_child2 t (parent nd))"
        by (intro framed_intros)
      have s1: "nodes s1 a = None" and rx: "(if n = child1 pd then blance_child1 (ext a x s) (parent nd)
          else blance_child2 (ext a x s) (parent nd)) = Some (ext a x s1, q)"
        by (rule framed_pairE [OF fr a r], assumption)+
      have step: "blance_parent (ext a x s) n =
          (if q = NULL then Some (ext a x s1) else blance_parent (ext a x s1) q)"
        by (subst blance_parent.simps)
          (simp only: ndx deref_ext [OF a pd] False rx if_False bind.bind_lunit fst_conv snd_conv)
      show ?thesis
      proof (cases "q = NULL")
        case True
        then show ?thesis using rest s1 step by simp
      next
        case q: False
        have "f s1 q = Some s'" using rest by (simp only: q if_False)
        with IH [of s1 q s'] s1 have "nodes s' a = None \<and> blance_parent (ext a x s1) q = Some (ext a x s')"
          by blast
        then show ?thesis using step q by simp
      qed
    qed
  qed
qed

lemma framed_blance_parent [framed_intros]: "framed (\<lambda>t. blance_parent t n)"
  using blance_parent_frame by (intro framedI) blast

lemma framed_blance_rest: "framed (\<lambda>t. blance_rest (t, q))"
  unfolding blance_rest_def fst_conv snd_conv by (intro framed_intros)

lemma framed_child_rest [framed_intros]:
  "framed (\<lambda>t. Option.bind (blance_child1 t p) blance_rest)"
  "framed (\<lambda>t. Option.bind (blance_child2 t p) blance_rest)"
  by (intro framed_run framed_blance_child framed_blance_rest)+

subsection \<open>Unlinking\<close>

lemma blance_rest_ok:
  assumes wf: "wf_shape (plug c Y)" and "Y \<noteq> Leaf" and "avl_inv Y" and c: "avl_ctx c h"
    and q: "q = NULL \<and> ht Y = h \<or> q = root_ptr Y \<and> ht Y + 1 = h"
  shows "\<exists>t'. blance_rest (conc m (plug c Y), q) = Some (conc m t') \<and> entries t' = entries (plug c Y) \<and> avl_inv t'"
  using q
proof
  assume "q = NULL \<and> ht Y = h"
  then show ?thesis using assms by (auto simp: blance_rest_def avl_plug intro!: exI [of _ "plug c Y"])
next
  assume "q = root_ptr Y \<and> ht Y + 1 = h"
  then show ?thesis using blance_parent_ok [of c Y m] assms by (auto simp: blance_rest_def)
qed

lemma avl_delete_Top:
  assumes wf: "wf_shape (Node l n v e r)" and inv: "avl_inv (Node l n v e r)"
    and k: "l = Leaf \<and> k = r \<or> r = Leaf \<and> k = l"
  shows "avl_delete_one_child (conc m (Node l n v e r)) (Some n) = Some (conc m k)"
proof -
  have nd: "deref (conc m (Node l n v e r)) (Some n) = Some (node_at Top l v e r)"
    using wf by (simp add: heap_simps)
  have n: "n \<notin> addr_set k" using wf k by auto
  from k consider "l = Leaf" "r = k" | "r = Leaf" "l = k" by auto
  note k_cases = this
  show ?thesis
    using root_unlink [OF wf k, of m] nd bst_destroy_ext [OF n, of "node_at Top l v e r" m]
    by (cases rule: k_cases; cases k) (simp_all add: avl_delete_one_child_def Let_def cong: if_cong)
qed

lemma avl_delete_unlinked:
  assumes wf: "wf_shape (plug c (Node l n v e r))" and k: "l = Leaf \<and> k = r \<or> r = Leaf \<and> k = l"
    and T: "T = conc m (plug c (Node l n v e r))"
  shows "c = Lft d p pv pe s \<Longrightarrow> avl_delete_one_child T (Some n) = Option.bind (set_child1 T (Some p) (root_ptr k))
      (\<lambda>t. Option.bind (Option.bind (blance_child1 t (Some p)) blance_rest) (\<lambda>t. bst_destroy t (Some n)))"
    and "c = Rgt s p pv pe d \<Longrightarrow> avl_delete_one_child T (Some n) = Option.bind (set_child2 T (Some p) (root_ptr k))
      (\<lambda>t. Option.bind (Option.bind (blance_child2 t (Some p)) blance_rest) (\<lambda>t. bst_destroy t (Some n)))"
proof -
  have nd: "deref T (Some n) = Some (node_at c l v e r)" using wf T by (simp add: heap_simps)
  from k consider "l = Leaf" "r = k" | "r = Leaf" "l = k" by auto
  note k_cases = this
  {
    assume c: "c = Lft d p pv pe s"
    then have "deref T (Some p) = Some (node_at d (Node l n v e r) pv pe s)" using wf T by (simp add: conc_simps)
    with nd c show "avl_delete_one_child T (Some n) = Option.bind (set_child1 T (Some p) (root_ptr k))
      (\<lambda>t. Option.bind (Option.bind (blance_child1 t (Some p)) blance_rest) (\<lambda>t. bst_destroy t (Some n)))"
      by (cases rule: k_cases) (simp_all add: avl_delete_one_child_def Let_def cong: if_cong)
  next
    assume c: "c = Rgt s p pv pe d"
    then have "deref T (Some p) = Some (node_at d s pv pe (Node l n v e r))" using wf T by (simp add: conc_simps)
    moreover have "Some n \<noteq> root_ptr s" using wf c by auto
    ultimately show "avl_delete_one_child T (Some n) = Option.bind (set_child2 T (Some p) (root_ptr k))
      (\<lambda>t. Option.bind (Option.bind (blance_child2 t (Some p)) blance_rest) (\<lambda>t. bst_destroy t (Some n)))"
      using nd c by (cases rule: k_cases) (simp_all add: avl_delete_one_child_def Let_def cong: if_cong)
  }
qed

lemma unlink_finish:
  assumes fr: "framed f" and n: "n \<notin> addr_set t" and run: "f (conc m t) = Some (conc m t')"
    and t': "entries t' = entries t"
  shows "Option.bind (f (ext n x (conc m t))) (\<lambda>t. bst_destroy t (Some n)) = Some (conc m t')"
proof -
  have "f (ext n x (conc m t)) = Some (ext n x (conc m t'))"
    by (rule framedD [OF fr _ run]) (use n in simp)
  moreover have "n \<notin> addr_set t'" using n entries_addr_set [OF t'] by simp
  ultimately show ?thesis by (simp add: bst_destroy_ext)
qed

lemma avl_delete_one_child_ok:
  assumes wf: "wf_shape (plug c (Node l n v e r))" and inv: "avl_inv (plug c (Node l n v e r))"
    and k: "l = Leaf \<and> k = r \<or> r = Leaf \<and> k = l"
  shows "\<exists>t'. avl_delete_one_child (conc m (plug c (Node l n v e r))) (Some n) = Some (conc m t') \<and>
    entries t' = entries (plug c k) \<and> avl_inv t'"
proof -
  have wf': "wf_shape (plug c k)" "n \<notin> addr_set (plug c k)" using wf k by auto
  have h: "ht (Node l n v e r) = ht k + 1" using k ht_nonneg [of k] by auto
  have ik: "avl_inv k" "avl_ctx c (ht k + 1)" using inv k h by (auto simp: avl_plug add.commute)
  show ?thesis
  proof (cases c)
    case Top
    with ik show ?thesis using avl_delete_Top [OF _ _ k, of n v e m] wf inv by auto
  next
    case (Lft d p pv pe s)
    obtain Y q where Y: "blance_child1 (conc m (plug d (Node k p pv pe s))) (Some p) = Some (conc m (plug d Y), q)"
      "entries Y = entries (Node k p pv pe s)" "avl_inv Y" "Y \<noteq> Leaf"
      "q = NULL \<and> ht Y = 1 + max (ht k + 1) (ht s) \<or> q = root_ptr Y \<and> ht Y + 1 = 1 + max (ht k + 1) (ht s)"
      using blance_child1_ok [of d k p pv pe s m] wf' ik Lft by auto
    have wfY: "wf_shape (plug d Y)"
      using wf'(1) Lft Y(2) by (metis entries_plug entries_wf plug.simps(2))
    obtain t' where t': "blance_rest (conc m (plug d Y), q) = Some (conc m t')" "entries t' = entries (plug d Y)" "avl_inv t'"
      using blance_rest_ok [OF wfY Y(4,3) _ Y(5), of m] ik Lft by auto
    have "Option.bind (Option.bind (blance_child1 (ext n (node_at c l v e r) (conc m (plug c k))) (Some p)) blance_rest)
        (\<lambda>t. bst_destroy t (Some n)) = Some (conc m t')"
      by (rule unlink_finish [OF framed_child_rest(1) wf'(2)]) (use Y t' Lft in auto)
    then have "avl_delete_one_child (conc m (plug c (Node l n v e r))) (Some n) = Some (conc m t')"
      using avl_delete_unlinked(1) [OF wf k refl Lft] set_child1_unlink [OF _ k, of d p pv pe s] wf Lft by simp
    with t' Y(2) Lft show ?thesis by auto
  next
    case (Rgt s p pv pe d)
    obtain Y q where Y: "blance_child2 (conc m (plug d (Node s p pv pe k))) (Some p) = Some (conc m (plug d Y), q)"
      "entries Y = entries (Node s p pv pe k)" "avl_inv Y" "Y \<noteq> Leaf"
      "q = NULL \<and> ht Y = 1 + max (ht s) (ht k + 1) \<or> q = root_ptr Y \<and> ht Y + 1 = 1 + max (ht s) (ht k + 1)"
      using blance_child2_ok [of d s p pv pe k m] wf' ik Rgt by auto
    have wfY: "wf_shape (plug d Y)"
      using wf'(1) Rgt Y(2) by (metis entries_plug entries_wf plug.simps(3))
    obtain t' where t': "blance_rest (conc m (plug d Y), q) = Some (conc m t')" "entries t' = entries (plug d Y)" "avl_inv t'"
      using blance_rest_ok [OF wfY Y(4,3) _ Y(5), of m] ik Rgt by auto
    have "Option.bind (Option.bind (blance_child2 (ext n (node_at c l v e r) (conc m (plug c k))) (Some p)) blance_rest)
        (\<lambda>t. bst_destroy t (Some n)) = Some (conc m t')"
      by (rule unlink_finish [OF framed_child_rest(2) wf'(2)]) (use Y t' Rgt in auto)
    then have "avl_delete_one_child (conc m (plug c (Node l n v e r))) (Some n) = Some (conc m t')"
      using avl_delete_unlinked(2) [OF wf k refl Rgt] set_child2_unlink [OF _ k, of s p pv pe d] wf Rgt by simp
    with t' Y(2) Rgt show ?thesis by auto
  qed
qed

end
