(* ===== verification/Bst_Policies.thy ===== *)
theory Bst_Policies
  imports Bst_Erase Rbt_Correct Avl_Delete
begin

text \<open>
  Both policies provide the interface \<open>bst_policy\<close>, so everything proved for the tree
  operations holds for \<open>bst_map\<close>, \<open>bst_set\<close> and their multi versions with either policy.
  Also the validation functions of the policies.
\<close>

lemma rbt_skel:
  "color (skel t) = color t" "bheight (skel t) = bheight t" "invc (skel t) = invc t" "invh (skel t) = invh t"
proof -
  show c: "color (skel t) = color t" for t :: "('k, 'v) rbt_shape" by (cases t) auto
  show b: "bheight (skel t) = bheight t" for t :: "('k, 'v) rbt_shape" by (induction t) auto
  show "invc (skel t) = invc t" by (induction t) (auto simp: c)
  show "invh (skel t) = invh t" by (induction t) (auto simp: b)
qed

lemma rbt_inv_skel: "rbt_inv (skel t) = rbt_inv t"
  by (simp add: rbt_inv_def rbt_skel)

lemma ht_skel: "ht (skel t) = ht t"
  by (induction t) auto

lemma avl_inv_skel: "avl_inv (skel t) = avl_inv t"
  by (induction t) (auto simp: ht_skel)

interpretation rbt: bst_policy rbt_adjust_insert rbt_delete_one_child "rbt_inv :: ('k::linorder, 'v) rbt_shape \<Rightarrow> bool"
proof unfold_locales
  show "rbt_inv (Leaf :: ('k, 'v) rbt_shape)" by (simp add: rbt_inv_def)
next
  fix t t' :: "('k, 'v) rbt_shape"
  assume "skel t = skel t'"
  then show "rbt_inv t = rbt_inv t'" by (metis rbt_inv_skel)
next
  fix m n e and v :: "'k \<times> 'v"
  show "\<exists>t'. rbt_adjust_insert ((conc m (Node Leaf n v e Leaf))\<lparr>m_pRoot := NULL\<rparr>) (Some n) = Some (conc m t') \<and>
      entries t' = [(n, v)] \<and> rbt_inv t'"
    by (intro exI [of _ "Node Leaf n v BLACK Leaf"]) (simp add: rbt_adjust_insert_Top rbt_inv_def)
qed (rule rbt_adjust_insert_plug rbt_delete_one_child_ok; assumption)+

interpretation avl: bst_policy avl_adjust_insert avl_delete_one_child "avl_inv :: ('k::linorder, 'v) avl_shape \<Rightarrow> bool"
proof unfold_locales
  show "avl_inv (Leaf :: ('k, 'v) avl_shape)" by simp
next
  fix t t' :: "('k, 'v) avl_shape"
  assume "skel t = skel t'"
  then show "avl_inv t = avl_inv t'" by (metis avl_inv_skel)
next
  fix m n e and v :: "'k \<times> 'v"
  show "\<exists>t'. avl_adjust_insert ((conc m (Node Leaf n v e Leaf))\<lparr>m_pRoot := NULL\<rparr>) (Some n) = Some (conc m t') \<and>
      entries t' = [(n, v)] \<and> avl_inv t'"
    by (intro exI [of _ "Node Leaf n v 0 Leaf"]) (simp add: avl_adjust_insert_Top)
qed (rule avl_adjust_insert_plug avl_delete_one_child_ok; assumption)+

subsection \<open>Validation\<close>

lemma rbt_depth_real_plug:
  assumes "wf_shape (plug c t)" and "invh t"
  shows "rbt_depth_real (conc m (plug c t)) (root_ptr t) = Some (if bheight t > 0 then 1 else 0)"
  using assms
proof (induction t arbitrary: c)
  case Leaf
  then show ?case by (simp add: rbt_depth_real.simps)
next
  case (Node l a v e r)
  have "rbt_depth_real (conc m (plug c (Node l a v e r))) (root_ptr l) = Some (if bheight l > 0 then 1 else 0)"
    "rbt_depth_real (conc m (plug c (Node l a v e r))) (root_ptr r) = Some (if bheight r > 0 then 1 else 0)"
    using Node.IH(1) [of "Lft c a v e r"] Node.IH(2) [of "Rgt l a v e c"] Node.prems by simp_all
  then show ?case
    using Node.prems by (subst rbt_depth_real.simps) (cases e; simp add: heap_simps is_black_def)
qed

text \<open>The height if the heights of all siblings differ by at most one, and -1 otherwise.\<close>

fun avl_balanced :: "('k, 'v, 'e) shape \<Rightarrow> bool" where
  "avl_balanced Leaf \<longleftrightarrow> True"
| "avl_balanced (Node l a v e r) \<longleftrightarrow> avl_balanced l \<and> avl_balanced r \<and> \<bar>ht l - ht r\<bar> \<le> 1"

lemma avl_inv_balanced: "avl_inv t \<Longrightarrow> avl_balanced t"
  by (induction t) auto

lemma avl_depth_real_plug:
  assumes "wf_shape (plug c t)"
  shows "avl_depth_real (conc m (plug c t)) (root_ptr t) = Some (if avl_balanced t then ht t else -1)"
  using assms
proof (induction t arbitrary: c)
  case Leaf
  then show ?case by (simp add: avl_depth_real.simps)
next
  case (Node l a v e r)
  have "avl_depth_real (conc m (plug c (Node l a v e r))) (root_ptr l) = Some (if avl_balanced l then ht l else -1)"
    "avl_depth_real (conc m (plug c (Node l a v e r))) (root_ptr r) = Some (if avl_balanced r then ht r else -1)"
    using Node.IH(1) [of "Lft c a v e r"] Node.IH(2) [of "Rgt l a v e c"] Node.prems by simp_all
  then show ?case
    using Node.prems ht_nonneg [of l] ht_nonneg [of r]
    by (subst avl_depth_real.simps) (auto simp: heap_simps)
qed

lemma avl_bst_validate_conc:
  "wf_shape t \<Longrightarrow> avl_bst_validate (conc m t) = Some (avl_balanced t)"
  using avl_depth_real_plug [of Top t m] ht_nonneg [of t]
  by (simp add: avl_bst_validate_def avl_depth_def)

lemma rbt_bst_validate_conc:
  "wf_shape t \<Longrightarrow> invh t \<Longrightarrow> rbt_bst_validate (conc m t) = Some True"
  using rbt_depth_real_plug [of Top t m] by (simp add: rbt_bst_validate_def rbt_depth_def)

subsection \<open>Clearing\<close>

lemma bst_destroy_recursive_ok:
  assumes "rep (nodes s) par t" and "wf_shape t"
  shows "bst_destroy_recursive s (root_ptr t) = Some (s\<lparr>nodes := nodes s |` (- addr_set t)\<rparr>)"
  using assms
proof (induction t arbitrary: s par)
  case Leaf
  then show ?case by (simp add: bst_destroy_recursive.simps)
next
  case (Node l a v e r)
  have a: "nodes s a = Some \<lparr>parent = par, child1 = root_ptr l, child2 = root_ptr r, nd_value = v, extra = e\<rparr>"
    using Node.prems by simp
  let ?s1 = "s\<lparr>nodes := nodes s |` (- addr_set l)\<rparr>"
  have 1: "bst_destroy_recursive s (root_ptr l) = Some ?s1"
    using Node by (intro Node.IH(1) [where par = "Some a"]) auto
  have "rep (nodes s |` (- addr_set l)) (Some a) r"
    using Node.prems by (subst rep_cong [of r _ "nodes s"]) (auto simp: restrict_map_def)
  then have 2: "bst_destroy_recursive ?s1 (root_ptr r) = Some (?s1\<lparr>nodes := nodes ?s1 |` (- addr_set r)\<rparr>)"
    using Node.prems by (intro Node.IH(2) [where par = "Some a"]) auto
  have 3: "nodes ?s1 a = nodes s a" "(nodes s |` (- addr_set l) |` (- addr_set r)) a = nodes s a"
    using Node.prems by (auto simp: restrict_map_def)
  have "(nodes s |` (- addr_set l) |` (- addr_set r))(a := None) = nodes s |` (- addr_set (Node l a v e r))"
    by (auto simp: restrict_map_def)
  with 1 2 3 a show ?case
    by (subst bst_destroy_recursive.simps) (simp add: deref_def bst_destroy_def)
qed

lemma bst_clear_ok:
  assumes "represents pinv T es"
  shows "bst_clear T = Some bst_new"
proof -
  obtain t where t: "T = conc (of_nat (length es)) t" "wf_shape t" "pinv t" "entries t = es"
    using assms by (rule representsE)
  have "heap_of NULL t |` (- addr_set t) = Map.empty"
    by (rule ext) (auto simp: restrict_map_def)
  with bst_destroy_recursive_ok [of "conc (of_nat (length es)) t" NULL t] t show ?thesis
    by (simp add: bst_clear_def rep_heap_of bst_new_def conc_def)
qed

subsection \<open>Copying\<close>

text \<open>The copy of a subtree starts at the next address; its root has no parent, and so have
  the roots of the copies of its two subtrees.\<close>

fun copied :: "(addr \<rightharpoonup> ('k, 'v, 'e) bst_node) \<Rightarrow> addr \<Rightarrow> ('k, 'v, 'e) shape \<Rightarrow> bool" where
  "copied h k Leaf \<longleftrightarrow> True"
| "copied h k (Node l a v e r) \<longleftrightarrow>
     h k = Some \<lparr>parent = NULL, child1 = (if l = Leaf then NULL else Some (k + 1)),
       child2 = (if r = Leaf then NULL else Some (k + 1 + length (entries l))), nd_value = v, extra = e\<rparr> \<and>
     copied h (k + 1) l \<and> copied h (k + 1 + length (entries l)) r"

lemma copied_cong:
  "(\<And>x. k \<le> x \<Longrightarrow> x < k + length (entries t) \<Longrightarrow> h x = h' x) \<Longrightarrow> copied h k t = copied h' k t"
  by (induction t arbitrary: k) auto

lemma bst_copy_recursive_ok:
  assumes "rep (nodes s) par u"
  shows "\<exists>t'. bst_copy_recursive s t k (root_ptr u) =
      Some (t', k + length (entries u), if u = Leaf then NULL else Some k) \<and>
    (\<forall>x < k. nodes t' x = nodes t x) \<and> copied (nodes t') k u"
  using assms
proof (induction u arbitrary: t k par)
  case Leaf
  then show ?case by (simp add: bst_copy_recursive.simps)
next
  case (Node l a v e r)
  let ?t0 = "t\<lparr>nodes := (nodes t)(k \<mapsto> \<lparr>parent = NULL, child1 = NULL, child2 = NULL, nd_value = v, extra = e\<rparr>)\<rparr>"
  obtain t1 where t1: "bst_copy_recursive s ?t0 (k + 1) (root_ptr l) =
      Some (t1, k + 1 + length (entries l), if l = Leaf then NULL else Some (k + 1))"
    "\<forall>x < k + 1. nodes t1 x = nodes ?t0 x" "copied (nodes t1) (k + 1) l"
    using Node.IH(1) [of "Some a" ?t0 "k + 1"] Node.prems by auto
  let ?c1 = "if l = Leaf then NULL else Some (k + 1)"
  have k1: "nodes t1 k = Some \<lparr>parent = NULL, child1 = NULL, child2 = NULL, nd_value = v, extra = e\<rparr>"
    using t1(2) by simp
  let ?t1 = "t1\<lparr>nodes := (nodes t1)(k \<mapsto> \<lparr>parent = NULL, child1 = ?c1, child2 = NULL, nd_value = v, extra = e\<rparr>)\<rparr>"
  let ?k2 = "k + 1 + length (entries l)"
  obtain t2 where t2: "bst_copy_recursive s ?t1 ?k2 (root_ptr r) =
      Some (t2, ?k2 + length (entries r), if r = Leaf then NULL else Some ?k2)"
    "\<forall>x < ?k2. nodes t2 x = nodes ?t1 x" "copied (nodes t2) ?k2 r"
    using Node.IH(2) [of "Some a" ?t1 ?k2] Node.prems by auto
  let ?c2 = "if r = Leaf then NULL else Some ?k2"
  have k2: "nodes t2 k = Some \<lparr>parent = NULL, child1 = ?c1, child2 = NULL, nd_value = v, extra = e\<rparr>"
    using t2(2) by simp
  define t3 where "t3 = t2\<lparr>nodes := (nodes t2)(k \<mapsto> \<lparr>parent = NULL, child1 = ?c1, child2 = ?c2, nd_value = v, extra = e\<rparr>)\<rparr>"
  have at: "nodes t3 k = Some \<lparr>parent = NULL, child1 = ?c1, child2 = ?c2, nd_value = v, extra = e\<rparr>"
    by (simp add: t3_def)
  have "bst_copy_recursive s t k (Some a) = Some (t3, ?k2 + length (entries r), Some k)"
    using Node.prems t1(1) k1 t2(1) k2
    by (subst bst_copy_recursive.simps) (simp add: deref_def copy_node_def upd_def Let_def t3_def)
  moreover have "\<forall>x < k. nodes t3 x = nodes t x"
    using t1(2) t2(2) by (simp add: t3_def)
  moreover have "copied (nodes t3) (k + 1) l"
    using t1(3) t2(2) by (subst copied_cong [of _ _ _ "nodes t1"]) (auto simp: t3_def)
  moreover have "copied (nodes t3) ?k2 r"
    using t2(3) by (subst copied_cong [of _ _ _ "nodes t2"]) (auto simp: t3_def)
  ultimately show ?case using at by (intro exI [of _ t3]) simp
qed

text \<open>A copy of a tree with two nodes or more does not represent any list: a node below the
  root has no parent link.\<close>

lemma represents_child_parent:
  assumes "represents pinv T es" and "m_pRoot T = Some k" and "nodes T k = Some nd"
    and "child1 nd = Some q \<or> child2 nd = Some q" and "nodes T q = Some qd"
  shows "parent qd = Some k"
proof -
  obtain t where t: "T = conc (of_nat (length es)) t" "wf_shape t" "pinv t" "entries t = es"
    using assms(1) by (rule representsE)
  then obtain l v e r where t': "t = Node l k v e r" using assms(2) by (cases t) auto
  with assms(3) t(1) have "nd = node_at Top l v e r" by simp
  with assms(4) have "root_ptr l = Some q \<or> root_ptr r = Some q" by simp
  then show ?thesis
  proof
    assume "root_ptr l = Some q"
    then obtain l1 w x l2 where "l = Node l1 q w x l2" by (cases l) auto
    with assms(5) t t' show ?thesis using nodes_plug [of "Lft Top k v e r" l1 q w x l2] by auto
  next
    assume "root_ptr r = Some q"
    then obtain l1 w x l2 where "r = Node l1 q w x l2" by (cases r) auto
    with assms(5) t t' show ?thesis using nodes_plug [of "Rgt l k v e Top" l1 q w x l2] by auto
  qed
qed

lemma bst_copy_broken:
  assumes R: "represents pinv T es" and len: "2 \<le> length es"
  shows "\<exists>T'. bst_copy k T = Some T' \<and> \<not> (\<exists>qinv es'. represents qinv T' es')"
proof -
  obtain t where t: "T = conc (of_nat (length es)) t" "wf_shape t" "pinv t" "entries t = es"
    using R by (rule representsE)
  obtain l a v e r where t': "t = Node l a v e r" using t(4) len by (cases t) auto
  have "l \<noteq> Leaf \<or> r \<noteq> Leaf" using t(4) t' len by auto
  obtain T1 where T1: "bst_copy_recursive T bst_new k (root_ptr t) =
      Some (T1, k + length (entries t), Some k)" "copied (nodes T1) k t"
    using bst_copy_recursive_ok [of T NULL t bst_new k] t t' rep_heap_of [OF t(2), of NULL] by auto
  let ?T = "T1\<lparr>m_pRoot := Some k, m_nSize := m_nSize T\<rparr>"
  have run: "bst_copy k T = Some ?T" using T1 t(1) by (simp add: bst_copy_def)
  have "\<not> represents qinv ?T es'" for qinv es'
  proof
    assume R': "represents qinv ?T es'"
    let ?nd = "\<lparr>parent = NULL, child1 = (if l = Leaf then NULL else Some (k + 1)),
       child2 = (if r = Leaf then NULL else Some (k + 1 + length (entries l))), nd_value = v, extra = e\<rparr>"
    have nd: "nodes ?T k = Some ?nd" using T1(2) t' by simp
    show False
    proof (cases "l = Leaf")
      case False
      then obtain qd where "nodes ?T (k + 1) = Some qd" "parent qd = NULL"
        using T1(2) t' by (cases l) auto
      with represents_child_parent [OF R' _ nd, of "k + 1" qd] False show False by simp
    next
      case True
      with \<open>l \<noteq> Leaf \<or> r \<noteq> Leaf\<close> have "r \<noteq> Leaf" by simp
      then obtain qd where "nodes ?T (k + 1) = Some qd" "parent qd = NULL"
        using T1(2) t' True by (cases r) auto
      with represents_child_parent [OF R' _ nd, of "k + 1" qd] True \<open>r \<noteq> Leaf\<close> show False by simp
    qed
  qed
  with run show ?thesis by blast
qed

end
