(* ===== verification/Bst_Container.thy ===== *)
theory Bst_Container
  imports Bst_Policies
begin

text \<open>
  The containers over \<open>bst_tree\<close>: \<open>bst_container\<close> and \<open>bst_multi_container\<close>
  (\<open>inc/vhwd/collection/detail/bst_container.h\<close>), \<open>bst_map\<close> and \<open>bst_multimap\<close>
  (\<open>inc/vhwd/collection/bst_map.h\<close>). The policy's hooks are the arguments \<open>adj\<close> and \<open>del\<close>.
  An insertion takes the address \<open>a\<close> that the allocator has ready for it and the contents
  \<open>e\<close> of the uninitialised field; a range insertion takes them with each value.
\<close>

subsection \<open>Unique keys\<close>

definition container_find :: "('k::linorder, 'v, 'e) bst_tree \<Rightarrow> 'k \<Rightarrow> ptr option" where
  "container_find t k = handle_key fp_return_iterator t k"

definition container_count :: "('k::linorder, 'v, 'e) bst_tree \<Rightarrow> 'k \<Rightarrow> size_t option" where
  "container_count t k = do {
     n \<leftarrow> handle_key fp_return_node t k;
     Some (if n \<noteq> NULL then 1 else 0) }"

definition container_insert :: "('k::linorder, 'v, 'e) fixup \<Rightarrow> addr \<Rightarrow> 'e \<Rightarrow> ('k, 'v, 'e) bst_tree \<Rightarrow> 'k \<times> 'v \<Rightarrow>
    (('k, 'v, 'e) bst_tree \<times> ptr \<times> bool) option" where
  "container_insert adj a e t v = handle_value (fp_insert_pair adj a e) t v"

fun container_insert_range :: "('k::linorder, 'v, 'e) fixup \<Rightarrow> ('k, 'v, 'e) bst_tree \<Rightarrow>
    (addr \<times> 'e \<times> 'k \<times> 'v) list \<Rightarrow> ('k, 'v, 'e) bst_tree option" where
  "container_insert_range adj t [] = Some t"
| "container_insert_range adj t ((a, e, v) # xs) = do {
     r \<leftarrow> container_insert adj a e t v;
     container_insert_range adj (fst r) xs }"

definition container_insert_hint :: "('k::linorder, 'v, 'e) fixup \<Rightarrow> addr \<Rightarrow> 'e \<Rightarrow> ('k, 'v, 'e) bst_tree \<Rightarrow>
    ptr \<Rightarrow> 'k \<times> 'v \<Rightarrow> (('k, 'v, 'e) bst_tree \<times> ptr) option" where
  "container_insert_hint adj a e t hint v = do {
     r \<leftarrow> handle_value (fp_insert_pair adj a e) t v;
     Some (fst r, fst (snd r)) }"

definition container_erase :: "('k::linorder, 'v, 'e) fixup \<Rightarrow> ('k, 'v, 'e) bst_tree \<Rightarrow> 'k \<Rightarrow>
    (('k, 'v, 'e) bst_tree \<times> size_t) option" where
  "container_erase del t k = handle_key (fp_erase del) t k"

definition container_erase_iter :: "('k::linorder, 'v, 'e) fixup \<Rightarrow> ('k, 'v, 'e) bst_tree \<Rightarrow> ptr \<Rightarrow>
    (('k, 'v, 'e) bst_tree \<times> ptr) option" where
  "container_erase_iter del t it = erase_iter del t it"

definition container_erase_range :: "('k::linorder, 'v, 'e) fixup \<Rightarrow> ('k, 'v, 'e) bst_tree \<Rightarrow> ptr \<Rightarrow> ptr \<Rightarrow>
    (('k, 'v, 'e) bst_tree \<times> ptr) option" where
  "container_erase_range del t p1 p2 = erase_range del t p1 p2"

definition container_lower_bound :: "('k::linorder, 'v, 'e) bst_tree \<Rightarrow> 'k \<Rightarrow> ptr option" where
  "container_lower_bound t k = handle_key fp_lower_bound t k"

definition container_upper_bound :: "('k::linorder, 'v, 'e) bst_tree \<Rightarrow> 'k \<Rightarrow> ptr option" where
  "container_upper_bound t k = handle_key fp_upper_bound t k"

definition container_equal_range :: "('k::linorder, 'v, 'e) bst_tree \<Rightarrow> 'k \<Rightarrow> (ptr \<times> ptr) option" where
  "container_equal_range t k = handle_key fp_equal_range t k"

subsection \<open>Equal keys\<close>

definition multi_insert :: "('k::linorder, 'v, 'e) fixup \<Rightarrow> addr \<Rightarrow> 'e \<Rightarrow> ('k, 'v, 'e) bst_tree \<Rightarrow> 'k \<times> 'v \<Rightarrow>
    (('k, 'v, 'e) bst_tree \<times> ptr) option" where
  "multi_insert adj a e t v = do {
     r \<leftarrow> handle_multi_value (fp_insert_pair adj a e) t v;
     Some (fst r, fst (snd r)) }"

fun multi_insert_range :: "('k::linorder, 'v, 'e) fixup \<Rightarrow> ('k, 'v, 'e) bst_tree \<Rightarrow>
    (addr \<times> 'e \<times> 'k \<times> 'v) list \<Rightarrow> ('k, 'v, 'e) bst_tree option" where
  "multi_insert_range adj t [] = Some t"
| "multi_insert_range adj t ((a, e, v) # xs) = do {
     r \<leftarrow> multi_insert adj a e t v;
     multi_insert_range adj (fst r) xs }"

definition multi_erase :: "('k::linorder, 'v, 'e) fixup \<Rightarrow> ('k, 'v, 'e) bst_tree \<Rightarrow> 'k \<Rightarrow>
    (('k, 'v, 'e) bst_tree \<times> size_t) option" where
  "multi_erase del t k = handle_multi_key (fp_erase del) t k"

definition multi_lower_bound :: "('k::linorder, 'v, 'e) bst_tree \<Rightarrow> 'k \<Rightarrow> ptr option" where
  "multi_lower_bound t k = handle_multi_key fp_lower_bound t k"

definition multi_upper_bound :: "('k::linorder, 'v, 'e) bst_tree \<Rightarrow> 'k \<Rightarrow> ptr option" where
  "multi_upper_bound t k = handle_multi_key fp_upper_bound t k"

definition multi_equal_range :: "('k::linorder, 'v, 'e) bst_tree \<Rightarrow> 'k \<Rightarrow> (ptr \<times> ptr) option" where
  "multi_equal_range t k = handle_multi_key fp_equal_range t k"

text \<open>\<open>std::distance\<close> on the bidirectional iterators of the tree counts the steps.\<close>

partial_function (option) iter_distance :: "('k, 'v, 'e) bst_tree \<Rightarrow> ptr \<Rightarrow> ptr \<Rightarrow> size_t option" where
  "iter_distance t p q = (if p = q then Some 0 else do {
     wassert (p \<noteq> NULL);
     p' \<leftarrow> iter_fwd True t p;
     n \<leftarrow> iter_distance t p' q;
     Some (n + 1) })"

definition multi_count :: "('k::linorder, 'v, 'e) bst_tree \<Rightarrow> 'k \<Rightarrow> size_t option" where
  "multi_count t k = do {
     q \<leftarrow> multi_equal_range t k;
     iter_distance t (fst q) (snd q) }"

subsection \<open>Maps\<close>

datatype map_error = XNotFound

text \<open>The non-const \<open>operator[]\<close> yields the node, through which the mapped value is read and
  written; the const one raises \<open>XNotFound\<close> for a missing key.\<close>

definition map_index :: "('k::linorder, 'v, 'e) fixup \<Rightarrow> 'v \<Rightarrow> addr \<Rightarrow> 'e \<Rightarrow> ('k, 'v, 'e) bst_tree \<Rightarrow> 'k \<Rightarrow>
    (('k, 'v, 'e) bst_tree \<times> ptr) option" where
  "map_index adj dv a e t k = handle_key (fp_insert_node adj dv a e) t k"

definition map_index_set :: "('k::linorder, 'v, 'e) fixup \<Rightarrow> 'v \<Rightarrow> addr \<Rightarrow> 'e \<Rightarrow> ('k, 'v, 'e) bst_tree \<Rightarrow> 'k \<Rightarrow> 'v \<Rightarrow>
    ('k, 'v, 'e) bst_tree option" where
  "map_index_set adj dv a e t k w = do {
     r \<leftarrow> map_index adj dv a e t k;
     upd (fst r) (snd r) (nd_value_update (\<lambda>v. (fst v, w))) }"

definition map_index_const :: "('k::linorder, 'v, 'e) bst_tree \<Rightarrow> 'k \<Rightarrow> (map_error + 'v) option" where
  "map_index_const t k = do {
     n \<leftarrow> handle_key fp_return_node t k;
     if n = NULL then Some (Inl XNotFound)
     else do { nd \<leftarrow> deref t n; Some (Inr (snd (nd_value nd))) } }"

subsection \<open>The containers hold a finite map\<close>

text \<open>The map an entry list stands for.\<close>

definition lookup_entry :: "(addr \<times> 'k \<times> 'v) list \<Rightarrow> 'k \<rightharpoonup> 'v" where
  "lookup_entry es = map_of (map snd es)"

lemma lookup_entry_simps [simp]:
  "lookup_entry [] = Map.empty"
  "lookup_entry (xs @ ys) = lookup_entry ys ++ lookup_entry xs"
  "lookup_entry ((a, k, v) # es) = (lookup_entry es)(k \<mapsto> v)"
  by (simp_all add: lookup_entry_def)

lemma dom_lookup_entry: "dom (lookup_entry es) = set (keys es)"
  by (simp add: lookup_entry_def dom_map_of_conv_image_fst keys_def image_image)

lemma lookup_entry_None: "lookup_entry es k = None \<longleftrightarrow> k \<notin> set (keys es)"
  using dom_lookup_entry by (metis domIff)

lemma lookup_entry_in: "distinct (keys es) \<Longrightarrow> (a, k, v) \<in> set es \<Longrightarrow> lookup_entry es k = Some v"
  unfolding lookup_entry_def
  by (rule map_of_is_SomeI) (force simp: keys_def comp_def)+

lemma insert_entry_perm: "set (insert_entry x es) = insert x (set es)"
  using set_append [of "takeWhile (\<lambda>y. fst (snd y) \<le> fst (snd x)) es" "dropWhile (\<lambda>y. fst (snd y) \<le> fst (snd x)) es"]
  by (auto simp: insert_entry_def takeWhile_dropWhile_id dest: set_takeWhileD set_dropWhileD)

lemma keys_insert_entry: "set (keys (insert_entry (a, v) es)) = insert (fst v) (set (keys es))"
  unfolding set_keys insert_entry_perm by auto

lemma distinct_insert_entry:
  assumes "distinct (keys es)" and "fst v \<notin> set (keys es)"
  shows "distinct (keys (insert_entry (a, v) es))"
proof -
  let ?P = "\<lambda>y. fst (snd y) \<le> fst v"
  have "keys es = keys (takeWhile ?P es) @ keys (dropWhile ?P es)"
    by (metis keys_simps(3) takeWhile_dropWhile_id)
  with assms show ?thesis by (auto simp: insert_entry_def)
qed

lemma lookup_insert_entry:
  assumes "fst v \<notin> set (keys es)"
  shows "lookup_entry (insert_entry (a, v) es) = (lookup_entry es)(fst v \<mapsto> snd v)"
proof -
  obtain k w where v: "v = (k, w)" by (cases v)
  let ?P = "\<lambda>y. fst (snd y) \<le> k"
  have es: "lookup_entry es = lookup_entry (dropWhile ?P es) ++ lookup_entry (takeWhile ?P es)"
    by (metis lookup_entry_simps(2) takeWhile_dropWhile_id)
  have "k \<notin> set (keys (takeWhile ?P es))"
    using assms v by (auto simp: set_keys dest: set_takeWhileD)
  then have "lookup_entry (takeWhile ?P es) k = None" by (simp add: lookup_entry_None)
  then show ?thesis unfolding es by (auto simp: insert_entry_def v map_add_def fun_eq_iff split: option.split)
qed

lemma lookup_filter_entry:
  "lookup_entry (filter (\<lambda>x. fst (snd x) \<noteq> k) es) = (lookup_entry es)(k := None)"
  by (induction es) (auto simp: fun_eq_iff)

lemma distinct_filter_keys: "distinct (keys es) \<Longrightarrow> distinct (keys (filter P es))"
  by (simp add: keys_def distinct_map_filter)

text \<open>The state of a container with unique keys: the tree represents some entries, with
  distinct keys, that stand for the map \<open>m\<close>; \<open>as\<close> is the set of addresses in use.\<close>

definition holds_map :: "(('k::linorder, 'v, 'e) shape \<Rightarrow> bool) \<Rightarrow> ('k, 'v, 'e) bst_tree \<Rightarrow> addr set \<Rightarrow> ('k \<rightharpoonup> 'v) \<Rightarrow> bool" where
  "holds_map pinv T as m \<longleftrightarrow> (\<exists>es. represents pinv T es \<and> distinct (keys es) \<and> fst ` set es = as \<and> lookup_entry es = m)"

context bst_policy
begin

lemma insert_holds_map:
  assumes H: "holds_map pinv T as m" and a: "a \<notin> as"
  shows "\<exists>T' it. container_insert adj a e T v = Some (T', it, m (fst v) = None) \<and>
    (if m (fst v) = None then it = Some a \<and> holds_map pinv T' (insert a as) (m(fst v \<mapsto> snd v))
     else T' = T)"
proof -
  obtain es where es: "represents pinv T es" "distinct (keys es)" "fst ` set es = as" "lookup_entry es = m"
    using H by (auto simp: holds_map_def)
  show ?thesis
  proof (cases "fst v \<in> set (keys es)")
    case False
    then have "m (fst v) = None" using es(4) lookup_entry_None by metis
    moreover obtain T' where T': "container_insert adj a e T v = Some (T', Some a, True)"
      "represents pinv T' (insert_entry (a, v) es)"
      using insert_pair_new [OF es(1) _ False, of a e] a es(3) by (auto simp: container_insert_def)
    moreover have "holds_map pinv T' (insert a as) (m(fst v \<mapsto> snd v))"
      unfolding holds_map_def
      using T'(2) distinct_insert_entry [OF es(2) False] lookup_insert_entry [OF False] es(3,4)
      by (intro exI [of _ "insert_entry (a, v) es"]) (simp add: insert_entry_perm)
    ultimately show ?thesis by simp
  next
    case True
    then have "m (fst v) \<noteq> None" using es(4) lookup_entry_None by metis
    then show ?thesis using insert_pair_present [OF es(1) True, of a e] by (auto simp: container_insert_def)
  qed
qed

text \<open>\<open>insert(first, last)\<close>: the first of several values with a key stays.\<close>

lemma insert_range_holds_map:
  assumes "holds_map pinv T as m" and "distinct (map fst xs)" and "as \<inter> fst ` set xs = {}"
  shows "\<exists>T' as'. container_insert_range adj T xs = Some T' \<and>
    holds_map pinv T' as' (map_of (map (\<lambda>x. snd (snd x)) xs) ++ m)"
  using assms
proof (induction xs arbitrary: T as m)
  case Nil
  then show ?case by auto
next
  case (Cons x xs)
  obtain a e v where x: "x = (a, e, v)" by (cases x)
  obtain T1 it where T1: "container_insert adj a e T v = Some (T1, it, m (fst v) = None)"
    "if m (fst v) = None then it = Some a \<and> holds_map pinv T1 (insert a as) (m(fst v \<mapsto> snd v)) else T1 = T"
    using insert_holds_map [OF Cons.prems(1), of a e v] Cons.prems(3) x by auto
  let ?m1 = "if m (fst v) = None then m(fst v \<mapsto> snd v) else m"
  obtain as1 where as1: "holds_map pinv T1 as1 ?m1" "as1 \<inter> fst ` set xs = {}"
    using T1(2) Cons.prems x by (cases "m (fst v) = None") auto
  obtain T' as' where T': "container_insert_range adj T1 xs = Some T'"
    "holds_map pinv T' as' (map_of (map (\<lambda>x. snd (snd x)) xs) ++ ?m1)"
    using Cons.IH [OF as1(1) _ as1(2)] Cons.prems by auto
  have eq: "map_of (map (\<lambda>x. snd (snd x)) xs) ++ ?m1 = map_of (map (\<lambda>x. snd (snd x)) (x # xs)) ++ m"
    using x by (auto simp: fun_eq_iff map_add_def split: option.split)
  have "container_insert_range adj T (x # xs) = Some T'" using T1(1) T'(1) x by simp
  with T'(2) [unfolded eq] show ?case by blast
qed

lemma erase_holds_map:
  assumes H: "holds_map pinv T as m"
  shows "\<exists>T' as'. container_erase del T k = Some (T', if m k = None then 0 else 1) \<and>
    as' \<subseteq> as \<and> holds_map pinv T' as' (m(k := None))"
proof -
  obtain es where es: "represents pinv T es" "distinct (keys es)" "fst ` set es = as" "lookup_entry es = m"
    using H by (auto simp: holds_map_def)
  show ?thesis
  proof (cases "k \<in> set (keys es)")
    case False
    then have "m k = None" using es(4) lookup_entry_None by metis
    moreover from this have "m(k := None) = m" by auto
    ultimately show ?thesis using erase_key_absent [OF es(1) False] H by (auto simp: container_erase_def)
  next
    case True
    then have "m k \<noteq> None" using es(4) lookup_entry_None by metis
    moreover obtain T' where T': "container_erase del T k = Some (T', 1)"
      "represents pinv T' (filter (\<lambda>x. fst (snd x) \<noteq> k) es)"
      using erase_key_present [OF es(1,2) True] by (auto simp: container_erase_def)
    moreover have "holds_map pinv T' (fst ` set (filter (\<lambda>x. fst (snd x) \<noteq> k) es)) (m(k := None))"
      unfolding holds_map_def using T'(2) distinct_filter_keys [OF es(2)] es(4) lookup_filter_entry by metis
    moreover have "fst ` set (filter (\<lambda>x. fst (snd x) \<noteq> k) es) \<subseteq> as" using es(3) by auto
    ultimately show ?thesis by auto
  qed
qed

lemma index_const_holds_map:
  assumes H: "holds_map pinv T as m"
  shows "map_index_const T k = Some (case m k of None \<Rightarrow> Inl XNotFound | Some w \<Rightarrow> Inr w)"
proof -
  obtain es where es: "represents pinv T es" "distinct (keys es)" "lookup_entry es = m"
    using H by (auto simp: holds_map_def)
  obtain it where it: "handle_key fp_return_node T k = Some it"
    "if k \<in> set (keys es) then \<exists>a v. it = Some a \<and> (a, k, v) \<in> set es else it = NULL"
    using find_ok [OF es(1), of k] find_node_eq_iterator by metis
  show ?thesis
  proof (cases "k \<in> set (keys es)")
    case False
    then have "m k = None" using es(3) lookup_entry_None by metis
    then show ?thesis using it False by (simp add: map_index_const_def)
  next
    case True
    with it obtain a w where a: "it = Some a" "(a, k, w) \<in> set es" by auto
    then have "m k = Some w" using lookup_entry_in [OF es(2)] es(3) by metis
    moreover obtain xs ys where "es = xs @ (a, k, w) # ys" using a(2) by (meson split_list)
    moreover obtain t where t: "T = conc (of_nat (length es)) t" "wf_shape t" "pinv t" "entries t = es"
      using es(1) by (rule representsE)
    ultimately obtain c l e r where "t = plug c (Node l a (k, w) e r)"
      using shape_focus_entries [of t xs a "(k, w)" ys] by metis
    then have "deref T (Some a) = Some (node_at c l (k, w) e r)" using t(1,2) by (simp add: heap_simps)
    with it a \<open>m k = Some w\<close> show ?thesis by (simp add: map_index_const_def)
  qed
qed

end

subsection \<open>Writing a mapped value\<close>

lemma upd_value_conc:
  assumes "wf_shape (plug c (Node l a v e r))"
  shows "upd (conc m (plug c (Node l a v e r))) (Some a) (nd_value_update (\<lambda>v. (fst v, w)))
       = Some (conc m (plug c (Node l a (fst v, w) e r)))"
  by (rule conc_surgery [OF assms])
    (use assms in \<open>auto simp: heap_simps intro: root_ptr_plug_same\<close>)

context bst_policy
begin

lemma set_value_represents:
  assumes "represents pinv T (xs @ (a, k, v) # ys)"
  shows "\<exists>T'. upd T (Some a) (nd_value_update (\<lambda>v. (fst v, w))) = Some T' \<and>
    represents pinv T' (xs @ (a, k, w) # ys)"
proof -
  obtain t where t: "T = conc (of_nat (length (xs @ (a, k, v) # ys))) t" "wf_shape t" "pinv t"
    "entries t = xs @ (a, k, v) # ys" "sorted (keys (xs @ (a, k, v) # ys))"
    using assms by (rule representsE)
  obtain c l e r where c: "t = plug c (Node l a (k, v) e r)"
    "xs = ctx_before c @ entries l" "ys = entries r @ ctx_after c"
    using shape_focus_entries [OF t(4,2)] by metis
  let ?t' = "plug c (Node l a (k, w) e r)"
  have "wf_shape ?t'" using t(2) c(1) by simp
  moreover have "skel t = skel ?t'" unfolding c(1) by (rule skel_plug_cong) simp
  then have "pinv ?t'" using t(3) pinv_skel by metis
  moreover have "entries ?t' = xs @ (a, k, w) # ys" using c by simp
  moreover have "sorted (keys (xs @ (a, k, w) # ys))" using t(5) by simp
  ultimately have "represents pinv (conc (of_nat (length (xs @ (a, k, w) # ys))) ?t') (xs @ (a, k, w) # ys)"
    by (rule representsI)
  moreover have "upd T (Some a) (nd_value_update (\<lambda>v. (fst v, w))) =
      Some (conc (of_nat (length (xs @ (a, k, w) # ys))) ?t')"
    using upd_value_conc [of c l a "(k, v)" e r _ w] t(1,2) c(1) by simp
  ultimately show ?thesis by blast
qed

lemma set_value_holds:
  assumes R: "represents pinv T es" and D: "distinct (keys es)" and a: "(a, k, v) \<in> set es"
  shows "\<exists>T'. upd T (Some a) (nd_value_update (\<lambda>v. (fst v, w))) = Some T' \<and>
    holds_map pinv T' (fst ` set es) ((lookup_entry es)(k \<mapsto> w))"
proof -
  obtain xs ys where es: "es = xs @ (a, k, v) # ys" using a by (meson split_list)
  obtain T' where T': "upd T (Some a) (nd_value_update (\<lambda>v. (fst v, w))) = Some T'"
    "represents pinv T' (xs @ (a, k, w) # ys)"
    using set_value_represents [OF R [unfolded es]] by blast
  have "k \<notin> set (keys xs)" using D es by auto
  then have "lookup_entry xs k = None" by (simp add: lookup_entry_None)
  then have "lookup_entry (xs @ (a, k, w) # ys) = (lookup_entry es)(k \<mapsto> w)"
    unfolding es by (auto simp: map_add_def fun_eq_iff split: option.split)
  moreover have "distinct (keys (xs @ (a, k, w) # ys))" "fst ` set (xs @ (a, k, w) # ys) = fst ` set es"
    using D es by auto
  ultimately show ?thesis using T' unfolding holds_map_def by metis
qed

text \<open>\<open>m[k] = w\<close>.\<close>

lemma index_set_holds_map:
  assumes H: "holds_map pinv T as m" and a: "a \<notin> as"
  shows "\<exists>T' as'. map_index_set adj dv a e T k w = Some T' \<and> as' \<subseteq> insert a as \<and>
    holds_map pinv T' as' (m(k \<mapsto> w))"
proof -
  obtain es where es: "represents pinv T es" "distinct (keys es)" "fst ` set es = as" "lookup_entry es = m"
    using H by (auto simp: holds_map_def)
  show ?thesis
  proof (cases "k \<in> set (keys es)")
    case True
    obtain b v where b: "map_index adj dv a e T k = Some (T, Some b)" "(b, k, v) \<in> set es"
      using insert_node_present [OF es(1) True, of dv a e] by (auto simp: map_index_def)
    from set_value_holds [OF es(1,2) b(2), of w] obtain T'
      where "upd T (Some b) (nd_value_update (\<lambda>v. (fst v, w))) = Some T'" "holds_map pinv T' as (m(k \<mapsto> w))"
      using es(3,4) by auto
    with b(1) show ?thesis unfolding map_index_set_def by (intro exI [of _ T'] exI [of _ as]) auto
  next
    case False
    have a': "a \<notin> fst ` set es" using a es(3) by simp
    obtain T1 where T1: "map_index adj dv a e T k = Some (T1, Some a)"
      "represents pinv T1 (insert_entry (a, k, dv) es)"
      using insert_node_new [OF es(1) a' False, of dv e] by (auto simp: map_index_def)
    have d: "distinct (keys (insert_entry (a, k, dv) es))" and l: "lookup_entry (insert_entry (a, k, dv) es) = m(k \<mapsto> dv)"
      using distinct_insert_entry [OF es(2), of "(k, dv)" a] lookup_insert_entry [of "(k, dv)" es a] False es(4) by auto
    have "(a, k, dv) \<in> set (insert_entry (a, k, dv) es)" by (simp add: insert_entry_perm)
    from set_value_holds [OF T1(2) d this, of w] l obtain T'
      where "upd T1 (Some a) (nd_value_update (\<lambda>v. (fst v, w))) = Some T'"
        "holds_map pinv T' (insert a as) (m(k \<mapsto> w))"
      using es(3) by (auto simp: insert_entry_perm)
    with T1(1) show ?thesis unfolding map_index_set_def by (intro exI [of _ T'] exI [of _ "insert a as"]) auto
  qed
qed

end

subsection \<open>Counting\<close>

lemma iter_distance_ok:
  assumes "wf_shape t"
  shows "entries t = xs @ ys @ zs \<Longrightarrow>
    iter_distance (conc m t) (hd_ptr (ys @ zs)) (hd_ptr zs) = Some (of_nat (length ys))"
proof (induction ys arbitrary: xs)
  case Nil
  then show ?case by (subst iter_distance.simps) simp
next
  case (Cons y ys)
  obtain a v where y: "y = (a, v)" by (cases y)
  have "distinct (map fst (entries t))" using assms by (simp add: wf_shape_iff)
  then have "hd_ptr zs \<noteq> Some a" unfolding Cons.prems y by (cases zs) auto
  moreover have "iter_fwd True (conc m t) (Some a) = Some (hd_ptr (ys @ zs))"
    using Cons.prems y assms by (intro iter_fwd_conc [of _ xs]) auto
  moreover have "iter_distance (conc m t) (hd_ptr (ys @ zs)) (hd_ptr zs) = Some (of_nat (length ys))"
    using Cons.IH [of "xs @ [y]"] Cons.prems by simp
  ultimately show ?case using y by (subst iter_distance.simps) (auto simp: add.commute)
qed

lemma sorted_three:
  assumes "sorted (keys es)"
  shows "takeWhile (\<lambda>x. fst (snd x) < k) es @ filter (\<lambda>x. fst (snd x) = k) es @ dropWhile (\<lambda>x. fst (snd x) \<le> k) es = es"
  using assms
proof (induction es)
  case (Cons x es)
  consider "fst (snd x) < k" | "fst (snd x) = k" | "k < fst (snd x)" by fastforce
  then show ?case
  proof cases
    case 1
    then show ?thesis using Cons by (simp add: less_imp_le)
  next
    case 2
    then have "takeWhile (\<lambda>x. fst (snd x) < k) es = []"
      using Cons.prems by (cases es) auto
    then show ?thesis using Cons 2 by simp
  next
    case 3
    then have "all_greater (x # es) k" using Cons.prems by (auto simp: all_greater_def)
    from filter_same_key(2) [OF this] have "filter (\<lambda>x. fst (snd x) = k) (x # es) = []" .
    moreover have "\<not> fst (snd x) < k" "\<not> fst (snd x) \<le> k" using 3 by auto
    ultimately show ?thesis by (simp del: filter.simps)
  qed
qed simp

lemma dropWhile_lower:
  assumes "sorted (keys es)"
  shows "dropWhile (\<lambda>x. fst (snd x) < k) es = filter (\<lambda>x. fst (snd x) = k) es @ dropWhile (\<lambda>x. fst (snd x) \<le> k) es"
  using sorted_three [OF assms, of k] by (metis append_same_eq same_append_eq takeWhile_dropWhile_id)

lemma multi_count_ok:
  assumes R: "represents pinv T es"
  shows "multi_count T k = Some (of_nat (length (filter (\<lambda>x. fst (snd x) = k) es)))"
proof -
  obtain t where t: "T = conc (of_nat (length es)) t" "wf_shape t" "pinv t" "entries t = es" "sorted (keys es)"
    using R by (rule representsE)
  have "iter_distance T (lower_ptr es k) (upper_ptr es k) = Some (of_nat (length (filter (\<lambda>x. fst (snd x) = k) es)))"
    unfolding t(1) lower_ptr_def upper_ptr_def dropWhile_lower [OF t(5)]
    by (rule iter_distance_ok [OF t(2), of "takeWhile (\<lambda>x. fst (snd x) < k) es"])
      (use sorted_three [OF t(5), of k] t(4) in simp)
  with equal_range_multi [OF R, of k] show ?thesis
    by (simp add: multi_count_def multi_equal_range_def)
qed

end
