(* ===== verification/Bst_Theorems.thy ===== *)
theory Bst_Theorems
  imports Bst_Container
begin

text \<open>
  The properties of the ordered containers, over their two policies.
\<close>

subsection \<open>Trees for the witnesses\<close>

text \<open>Two red-black trees and an AVL tree over small numbers.\<close>

definition rbt_sample :: "(nat, nat, rbt_color) bst_tree" where
  "rbt_sample = conc 3 (Node (Node Leaf 1 (10, 100) RED Leaf) 2 (20, 200) BLACK (Node Leaf 3 (30, 300) RED Leaf))"

definition sample_entries :: "(addr \<times> nat \<times> nat) list" where
  "sample_entries = [(1, 10, 100), (2, 20, 200), (3, 30, 300)]"

definition avl_sample :: "(nat, nat, int) bst_tree" where
  "avl_sample = conc 3 (Node (Node Leaf 1 (10, 100) 0 Leaf) 2 (20, 200) 0 (Node Leaf 3 (30, 300) 0 Leaf))"

lemma rbt_sample_represents: "represents rbt_inv rbt_sample sample_entries"
proof -
  have "represents rbt_inv (conc (of_nat (length sample_entries))
      (Node (Node Leaf 1 (10, 100) RED Leaf) 2 (20, 200) BLACK (Node Leaf 3 (30, 300) RED Leaf))) sample_entries"
    by (rule representsI) (simp_all add: rbt_inv_def sample_entries_def)
  then show ?thesis by (simp add: rbt_sample_def sample_entries_def)
qed

lemma avl_sample_represents: "represents avl_inv avl_sample sample_entries"
proof -
  have "represents avl_inv (conc (of_nat (length sample_entries))
      (Node (Node Leaf 1 (10, 100) 0 Leaf) 2 (20, 200) 0 (Node Leaf 3 (30, 300) 0 Leaf))) sample_entries"
    by (rule representsI) (simp_all add: sample_entries_def)
  then show ?thesis by (simp add: avl_sample_def sample_entries_def)
qed

definition sample_map :: "nat \<rightharpoonup> nat" where
  "sample_map = [10 \<mapsto> 100, 20 \<mapsto> 200, 30 \<mapsto> 300]"

lemma sample_holds:
  "represents pinv T sample_entries \<Longrightarrow> holds_map pinv T {1, 2, 3} sample_map"
  unfolding holds_map_def
  by (rule exI [of _ sample_entries]) (auto simp: sample_entries_def sample_map_def fun_eq_iff)

lemmas rbt_sample_holds = sample_holds [OF rbt_sample_represents]
lemmas avl_sample_holds = sample_holds [OF avl_sample_represents]

lemma sample_lookup [simp]:
  "sample_map 10 = Some 100" "sample_map 20 = Some 200" "sample_map 25 = None" "sample_map 30 = Some 300"
  by (simp_all add: sample_map_def)

subsection \<open>Maps and sets with unique keys\<close>

text \<open>C1. \<open>insert\<close> on a red-black container that holds the map \<open>m\<close> returns (no NULL or
  dangling pointer is followed and no assertion fires); it reports whether the key was new;
  a new key is added with its value and the tree satisfies the red-black invariant again; a
  key that is present leaves the container as it is.\<close>

theorem rbt_insert_correct:
  assumes "holds_map rbt_inv T as m" and "a \<notin> as"
  shows "\<exists>T' it. container_insert rbt_adjust_insert a e T v = Some (T', it, m (fst v) = None) \<and>
    (if m (fst v) = None then it = Some a \<and> holds_map rbt_inv T' (insert a as) (m(fst v \<mapsto> snd v))
     else T' = T)"
  by (rule rbt.insert_holds_map [OF assms])

theorem rbt_insert_correct_witness:
  "\<exists>T'. container_insert rbt_adjust_insert 4 RED rbt_sample (25, 250) = Some (T', Some 4, True) \<and>
    holds_map rbt_inv T' {1, 2, 3, 4} (sample_map(25 \<mapsto> 250))"
  using rbt_insert_correct [OF rbt_sample_holds, of 4 RED "(25, 250)"]
  by (auto simp: insert_commute)

text \<open>C2. \<open>erase(key)\<close> on a red-black container removes the key, returns the number of
  removed entries and leaves a container that satisfies the red-black invariant.\<close>

theorem rbt_erase_correct:
  assumes "holds_map rbt_inv T as m"
  shows "\<exists>T' as'. container_erase rbt_delete_one_child T k = Some (T', if m k = None then 0 else 1) \<and>
    as' \<subseteq> as \<and> holds_map rbt_inv T' as' (m(k := None))"
  by (rule rbt.erase_holds_map [OF assms])

theorem rbt_erase_correct_witness:
  "\<exists>T' as'. container_erase rbt_delete_one_child rbt_sample 20 = Some (T', 1) \<and>
    as' \<subseteq> {1, 2, 3} \<and> holds_map rbt_inv T' as' (sample_map(20 := None))"
  using rbt_erase_correct [OF rbt_sample_holds, of 20] by simp

text \<open>C3. \<open>insert\<close> on an AVL container, with the AVL invariant (every balance factor is the
  difference of the heights and within -1 and 1).\<close>

theorem avl_insert_correct:
  assumes "holds_map avl_inv T as m" and "a \<notin> as"
  shows "\<exists>T' it. container_insert avl_adjust_insert a e T v = Some (T', it, m (fst v) = None) \<and>
    (if m (fst v) = None then it = Some a \<and> holds_map avl_inv T' (insert a as) (m(fst v \<mapsto> snd v))
     else T' = T)"
  by (rule avl.insert_holds_map [OF assms])

theorem avl_insert_correct_witness:
  "\<exists>T'. container_insert avl_adjust_insert 4 77 avl_sample (25, 250) = Some (T', Some 4, True) \<and>
    holds_map avl_inv T' {1, 2, 3, 4} (sample_map(25 \<mapsto> 250))"
  using avl_insert_correct [OF avl_sample_holds, of 4 77 "(25, 250)"]
  by (auto simp: insert_commute)

text \<open>C4. \<open>erase(key)\<close> on an AVL container.\<close>

theorem avl_erase_correct:
  assumes "holds_map avl_inv T as m"
  shows "\<exists>T' as'. container_erase avl_delete_one_child T k = Some (T', if m k = None then 0 else 1) \<and>
    as' \<subseteq> as \<and> holds_map avl_inv T' as' (m(k := None))"
  by (rule avl.erase_holds_map [OF assms])

theorem avl_erase_correct_witness:
  "\<exists>T' as'. container_erase avl_delete_one_child avl_sample 20 = Some (T', 1) \<and>
    as' \<subseteq> {1, 2, 3} \<and> holds_map avl_inv T' as' (sample_map(20 := None))"
  using avl_erase_correct [OF avl_sample_holds, of 20] by simp

text \<open>C5. The subscript operators of a red-black \<open>bst_map\<close>: after \<open>m[k] = w\<close>, whether the key
  was present or not, the const \<open>operator[]\<close> reads \<open>w\<close> at \<open>k\<close> and what it did before at every
  other key, raising \<open>XNotFound\<close> at those without an entry.\<close>

theorem map_subscript_roundtrip:
  assumes "holds_map rbt_inv T as m" and "a \<notin> as"
  shows "\<exists>T'. map_index_set rbt_adjust_insert dv a e T k w = Some T' \<and>
    (\<forall>j. map_index_const T' j = Some (if j = k then Inr w
       else case m j of None \<Rightarrow> Inl XNotFound | Some u \<Rightarrow> Inr u))"
proof -
  obtain T' as' where "map_index_set rbt_adjust_insert dv a e T k w = Some T'"
    "holds_map rbt_inv T' as' (m(k \<mapsto> w))"
    using rbt.index_set_holds_map [OF assms] by blast
  with rbt.index_const_holds_map [of T' as' "m(k \<mapsto> w)"] show ?thesis by auto
qed

theorem map_subscript_roundtrip_witness:
  "\<exists>T'. map_index_set rbt_adjust_insert 0 4 RED rbt_sample 25 250 = Some T' \<and>
    map_index_const T' 25 = Some (Inr 250) \<and> map_index_const T' 10 = Some (Inr 100)"
proof -
  obtain T' where "map_index_set rbt_adjust_insert 0 4 RED rbt_sample 25 250 = Some T'"
    and r: "\<forall>j. map_index_const T' j = Some (if j = 25 then Inr 250
       else case sample_map j of None \<Rightarrow> Inl XNotFound | Some u \<Rightarrow> Inr u)"
    using map_subscript_roundtrip [OF rbt_sample_holds, of 4 0 RED 25 250] by auto
  then show ?thesis using spec [OF r, of 25] spec [OF r, of 10] by simp
qed

text \<open>\<open>insert(first, last)\<close> on a red-black container: of several values with the same key
  the first stays, and entries that are present stay.\<close>

theorem rbt_insert_range_correct:
  assumes "holds_map rbt_inv T as m" and "distinct (map fst xs)" and "as \<inter> fst ` set xs = {}"
  shows "\<exists>T' as'. container_insert_range rbt_adjust_insert T xs = Some T' \<and>
    holds_map rbt_inv T' as' (map_of (map (\<lambda>x. snd (snd x)) xs) ++ m)"
  by (rule rbt.insert_range_holds_map [OF assms])

theorem rbt_insert_range_correct_witness:
  "\<exists>T' as'. container_insert_range rbt_adjust_insert rbt_sample [(4, RED, 40, 400), (5, RED, 40, 401), (6, RED, 10, 0)] = Some T' \<and>
    holds_map rbt_inv T' as' ([40 \<mapsto> 401, 10 \<mapsto> 0](40 \<mapsto> 400) ++ sample_map)"
proof -
  have "map_of (map (\<lambda>x. snd (snd x)) [(4 :: nat, RED, 40 :: nat, 400 :: nat), (5, RED, 40, 401), (6, RED, 10, 0)])
      = [40 \<mapsto> 401, 10 \<mapsto> 0](40 \<mapsto> 400)" by (auto simp: fun_eq_iff)
  then show ?thesis
    using rbt_insert_range_correct [OF rbt_sample_holds, of "[(4, RED, 40, 400), (5, RED, 40, 401), (6, RED, 10, 0)]"]
    by auto
qed

subsection \<open>Searching and iterating\<close>

text \<open>C6. On any ordered container with unique keys, whatever the policy, \<open>find\<close> returns the
  entry with the key or the end, \<open>count\<close> is 1 or 0, and \<open>lower_bound\<close>, \<open>upper_bound\<close> and
  \<open>equal_range\<close> return the first entry whose key is not less, or greater.\<close>

theorem search_unique_correct:
  assumes "represents pinv T es" and "distinct (keys es)"
  shows "container_find T k = Some (key_ptr es k) \<and>
    container_count T k = Some (if k \<in> set (keys es) then 1 else 0) \<and>
    container_lower_bound T k = Some (lower_ptr es k) \<and>
    container_upper_bound T k = Some (upper_ptr es k) \<and>
    container_equal_range T k = Some (lower_ptr es k, upper_ptr es k)"
proof -
  have "container_count T k = Some (if k \<in> set (keys es) then 1 else 0)"
    using find_ok [OF assms(1), of k] find_node_eq_iterator [of T k] by (auto simp: container_count_def)
  then show ?thesis
    using find_unique [OF assms] lower_bound_unique [OF assms] upper_bound_unique [OF assms]
      equal_range_unique [OF assms]
    by (simp add: container_find_def container_lower_bound_def container_upper_bound_def container_equal_range_def)
qed

theorem search_unique_correct_witness:
  "container_find rbt_sample 20 = Some (Some 2) \<and> container_count rbt_sample 15 = Some 0 \<and>
    container_lower_bound rbt_sample 15 = Some (Some 2) \<and> container_upper_bound rbt_sample 30 = Some NULL \<and>
    container_equal_range rbt_sample 10 = Some (Some 1, Some 2)"
proof -
  have d: "distinct (keys sample_entries)" by (simp add: sample_entries_def)
  show ?thesis
    using search_unique_correct [OF rbt_sample_represents d, of 20]
      search_unique_correct [OF rbt_sample_represents d, of 15]
      search_unique_correct [OF rbt_sample_represents d, of 30]
      search_unique_correct [OF rbt_sample_represents d, of 10]
    by (simp add: sample_entries_def key_ptr_def lower_ptr_def upper_ptr_def)
qed

text \<open>C7. Iteration visits the entries in the order of the list: \<open>begin\<close> is the first, \<open>rbegin\<close>
  the last; from an entry, \<open>++\<close> moves to the next (or the end) and \<open>--\<close> to the one before;
  \<open>--end()\<close> is the last entry; and \<open>*\<close> reads the stored pair. For reverse iterators \<open>++\<close> and
  \<open>--\<close> change places.\<close>

theorem iteration_in_order:
  assumes "represents pinv T es"
  shows "bst_begin T = Some (hd_ptr es) \<and> bst_rbegin T = Some (last_ptr es) \<and>
    (es \<noteq> [] \<longrightarrow> iter_bwd True T bst_end = Some (last_ptr es)) \<and>
    (\<forall>xs a v ys. es = xs @ (a, v) # ys \<longrightarrow> iter_fwd True T (Some a) = Some (hd_ptr ys) \<and>
      iter_bwd True T (Some a) = Some (last_ptr xs) \<and> iter_fwd False T (Some a) = Some (last_ptr xs) \<and>
      iter_bwd False T (Some a) = Some (hd_ptr ys) \<and> iter_item T (Some a) = Some v)"
proof -
  obtain t where t: "T = conc (of_nat (length es)) t" "wf_shape t" "pinv t" "entries t = es"
    using assms by (rule representsE)
  have "bst_begin T = Some (hd_ptr es)" "bst_rbegin T = Some (last_ptr es)"
    using t nd_min_conc nd_max_conc by (auto simp: bst_begin_def bst_rbegin_def)
  moreover have "es \<noteq> [] \<longrightarrow> iter_bwd True T bst_end = Some (last_ptr es)"
    using t nd_max_conc [of t] by (auto simp: iter_bwd_def bst_end_def last_ptr_def)
  moreover have "iter_fwd True T (Some a) = Some (hd_ptr ys) \<and>
      iter_bwd True T (Some a) = Some (last_ptr xs) \<and> iter_fwd False T (Some a) = Some (last_ptr xs) \<and>
      iter_bwd False T (Some a) = Some (hd_ptr ys) \<and> iter_item T (Some a) = Some v"
    if es: "es = xs @ (a, v) # ys" for xs a v ys
  proof -
    obtain c l e r where "t = plug c (Node l a v e r)"
      using shape_focus_entries [of t xs a v ys] t es by metis
    then have "iter_item T (Some a) = Some v" using t by (simp add: iter_item_def heap_simps)
    then show ?thesis
      using nd_inc_conc [of t xs a v ys] nd_dec_conc [of t xs a v ys] t es
      by (simp add: iter_fwd_def iter_bwd_def)
  qed
  ultimately show ?thesis by blast
qed

theorem iteration_in_order_witness:
  "bst_begin rbt_sample = Some (Some 1) \<and> iter_fwd True rbt_sample (Some 1) = Some (Some 2) \<and>
    iter_bwd True rbt_sample bst_end = Some (Some 3) \<and> iter_item rbt_sample (Some 1) = Some (10, 100)"
proof -
  have es: "sample_entries = [] @ (1, 10, 100) # [(2, 20, 200), (3, 30, 300)]" by (simp add: sample_entries_def)
  have I: "\<forall>xs a v ys. sample_entries = xs @ (a, v) # ys \<longrightarrow> iter_fwd True rbt_sample (Some a) = Some (hd_ptr ys) \<and>
      iter_bwd True rbt_sample (Some a) = Some (last_ptr xs) \<and> iter_fwd False rbt_sample (Some a) = Some (last_ptr xs) \<and>
      iter_bwd False rbt_sample (Some a) = Some (hd_ptr ys) \<and> iter_item rbt_sample (Some a) = Some v"
    using iteration_in_order [OF rbt_sample_represents] by blast
  have "iter_fwd True rbt_sample (Some 1) = Some (Some 2)" "iter_item rbt_sample (Some 1) = Some (10, 100)"
    using mp [OF spec [OF spec [OF spec [OF spec [OF I]]]] es] by simp_all
  then show ?thesis
    using iteration_in_order [OF rbt_sample_represents] by (simp add: sample_entries_def last_ptr_def)
qed

subsection \<open>Equal keys\<close>

text \<open>The multi containers, here over the AVL policy: \<open>insert\<close> always adds the pair, behind
  the pairs with the same key; \<open>erase(key)\<close> removes every pair with the key and returns how
  many there were; \<open>count\<close>, \<open>lower_bound\<close>, \<open>upper_bound\<close> and \<open>equal_range\<close> agree with the list.\<close>

theorem multi_container_correct:
  assumes "represents avl_inv T es" and "a \<notin> fst ` set es"
  shows "(\<exists>T'. multi_insert avl_adjust_insert a e T v = Some (T', Some a) \<and>
      represents avl_inv T' (insert_entry (a, v) es)) \<and>
    (\<exists>T'. multi_erase avl_delete_one_child T k = Some (T', of_nat (length (filter (\<lambda>x. fst (snd x) = k) es))) \<and>
      represents avl_inv T' (filter (\<lambda>x. fst (snd x) \<noteq> k) es)) \<and>
    multi_count T k = Some (of_nat (length (filter (\<lambda>x. fst (snd x) = k) es))) \<and>
    multi_lower_bound T k = Some (lower_ptr es k) \<and> multi_upper_bound T k = Some (upper_ptr es k) \<and>
    multi_equal_range T k = Some (lower_ptr es k, upper_ptr es k)"
  using avl.insert_pair_multi_ok [OF assms, of e v] avl.erase_multi_ok [OF assms(1), of k]
    multi_count_ok [OF assms(1), of k] lower_bound_multi [OF assms(1), of k]
    upper_bound_multi [OF assms(1), of k] equal_range_multi [OF assms(1), of k]
  by (auto simp: multi_insert_def multi_erase_def multi_lower_bound_def multi_upper_bound_def multi_equal_range_def)

theorem multi_container_correct_witness:
  "(\<exists>T'. multi_insert avl_adjust_insert 4 77 avl_sample (20, 201) = Some (T', Some 4) \<and>
      represents avl_inv T' [(1, 10, 100), (2, 20, 200), (4, 20, 201), (3, 30, 300)]) \<and>
    multi_count avl_sample 20 = Some 1 \<and> multi_equal_range avl_sample 20 = Some (Some 2, Some 3)"
proof -
  have a: "4 \<notin> fst ` set sample_entries" by (simp add: sample_entries_def)
  show ?thesis
    using multi_container_correct [OF avl_sample_represents a, of 77 "(20, 201)" 20]
    by (simp add: sample_entries_def insert_entry_def lower_ptr_def upper_ptr_def)
qed

text \<open>\<open>erase(first, last)\<close> on a red-black container removes exactly the entries from
  \<open>first\<close> up to \<open>last\<close>, exclusive, and returns \<open>last\<close>; the loop ends.\<close>

theorem rbt_erase_range_correct:
  assumes "represents rbt_inv T (xs @ ys @ zs)"
  shows "\<exists>T'. container_erase_range rbt_delete_one_child T (hd_ptr (ys @ zs)) (hd_ptr zs) = Some (T', hd_ptr zs) \<and>
    represents rbt_inv T' (xs @ zs)"
  using rbt.erase_range_ok [OF assms] by (simp add: container_erase_range_def)

theorem rbt_erase_range_correct_witness:
  "\<exists>T'. container_erase_range rbt_delete_one_child rbt_sample (Some 1) (Some 3) = Some (T', Some 3) \<and>
    represents rbt_inv T' [(3, 30, 300)]"
proof -
  have "represents rbt_inv rbt_sample ([] @ [(1, 10, 100), (2, 20, 200)] @ [(3, 30, 300)])"
    using rbt_sample_represents by (simp add: sample_entries_def)
  from rbt_erase_range_correct [OF this] show ?thesis by simp
qed

subsection \<open>Whole trees\<close>

lemma height_bound_black: "invc t \<Longrightarrow> invh t \<Longrightarrow> ht t \<le> 2 * int (bheight t) + (if color t = RED then 1 else 0)"
proof (induction t)
  case (Node l a v e r)
  then show ?case by (cases e) (auto split: if_splits)
qed simp

lemma size_bound_black: "invh t \<Longrightarrow> 2 ^ bheight t \<le> Suc (length (entries t))"
proof (induction t)
  case (Node l a v e r)
  then show ?case by (cases e) auto
qed simp

lemma depth_real_plug:
  assumes "wf_shape (plug c t)" and "ht t < 2 ^ 64"
  shows "depth_real (conc m (plug c t)) (root_ptr t) = Some (of_int (ht t))"
  using assms
proof (induction t arbitrary: c)
  case Leaf
  then show ?case by (simp add: depth_real.simps)
next
  case (Node l a v e r)
  have h: "ht l < 2 ^ 64" "ht r < 2 ^ 64" "0 \<le> ht l" "0 \<le> ht r" using Node.prems(2) ht_nonneg by auto
  have "depth_real (conc m (plug c (Node l a v e r))) (root_ptr l) = Some (of_int (ht l))"
    "depth_real (conc m (plug c (Node l a v e r))) (root_ptr r) = Some (of_int (ht r))"
    using Node.IH(1) [of "Lft c a v e r"] Node.IH(2) [of "Rgt l a v e c"] Node.prems(1) h by simp_all
  moreover have "max (of_int (ht l)) (of_int (ht r)) = (of_int (max (ht l) (ht r)) :: size_t)"
    using h by (simp add: max_def word_le_def uint_word_of_int)
  ultimately show ?case using Node.prems(1)
    by (subst depth_real.simps) (simp add: heap_simps)
qed



text \<open>\<open>avl_tree::bst_validate\<close> decides, on any linked tree, whether the heights of the two
  children of every node differ by at most one; and \<open>clear\<close> frees every node and leaves an
  empty tree.\<close>

theorem avl_validate_correct:
  assumes "represents pinv T es"
  shows "(\<exists>t. T = conc (of_nat (length es)) t \<and> entries t = es \<and> avl_bst_validate T = Some (avl_balanced t)) \<and>
    bst_clear T = Some bst_new"
  using avl_bst_validate_conc bst_clear_ok [OF assms] representsE [OF assms] by metis

theorem avl_validate_correct_witness:
  "(\<exists>t. avl_sample = conc 3 t \<and> entries t = sample_entries \<and> avl_bst_validate avl_sample = Some (avl_balanced t)) \<and>
    bst_clear avl_sample = Some bst_new"
  using avl_validate_correct [OF avl_sample_represents] by (simp add: sample_entries_def)



text \<open>\<open>rbt_tree::bst_validate\<close> accepts every tree whose black heights agree, but not only
  those: because \<open>p1+is_black(p)?1:0\<close> is 0 or 1, it also accepts a tree with a path of one
  black node beside a path of three.\<close>

definition unbalanced_rbt :: "(nat, nat, rbt_color) shape" where
  "unbalanced_rbt = Node (Node Leaf 1 (10, 0) BLACK Leaf) 2 (20, 0) BLACK
     (Node (Node Leaf 3 (30, 0) BLACK Leaf) 4 (40, 0) BLACK (Node Leaf 5 (50, 0) BLACK Leaf))"

theorem rbt_validate_incomplete:
  "(\<forall>(t :: (nat, nat) rbt_shape) m. wf_shape t \<and> invh t \<longrightarrow> rbt_bst_validate (conc m t) = Some True) \<and>
    wf_shape unbalanced_rbt \<and> \<not> invh unbalanced_rbt \<and> rbt_bst_validate (conc 5 unbalanced_rbt) = Some True"
proof -
  have "rbt_bst_validate (conc 5 unbalanced_rbt) = Some True"
    by (simp add: unbalanced_rbt_def rbt_bst_validate_def rbt_depth_def rbt_depth_real.simps is_black_def heap_simps)
  then show ?thesis using rbt_bst_validate_conc by (auto simp: unbalanced_rbt_def)
qed

theorem rbt_validate_incomplete_witness:
  "rbt_bst_validate rbt_sample = Some True"
  using rbt_validate_incomplete by (simp add: rbt_sample_def)

end
