(* ===== verification/Vhwd_Exception.thy ===== *)
theory Vhwd_Exception
  imports Prelude
begin

text \<open>
  The exceptions of \<open>inc/vhwd/basic/exception.h\<close>: the static members of \<open>Exception\<close> throw, and
  a thrown exception is the \<open>Inl\<close> of a result. An operation that can both throw and go wrong has
  the type \<open>'a outcome\<close>: \<open>None\<close> as everywhere, \<open>Some (Inl x)\<close> for a throw of \<open>x\<close> and
  \<open>Some (Inr r)\<close> for a normal return.
\<close>

datatype exn =
    XError string
  | XBadAlloc
  | XBadCast
  | XInvalidArgument
  | XInvalidIndex
  | XNotFound
  | XReadOnly
  | XTypeLocked
  | XBadFunctor

type_synonym 'a outcome = "(exn + 'a) option"

abbreviation throw :: "exn \<Rightarrow> 'a outcome" where
  "throw x \<equiv> Some (Inl x)"

abbreviation ret :: "'a \<Rightarrow> 'a outcome" where
  "ret r \<equiv> Some (Inr r)"

text \<open>Sequencing: an exception skips the rest.\<close>

definition andthen :: "'a outcome \<Rightarrow> ('a \<Rightarrow> 'b outcome) \<Rightarrow> 'b outcome" where
  "andthen m f = do { r \<leftarrow> m; case r of Inl x \<Rightarrow> throw x | Inr a \<Rightarrow> f a }"

lemma andthen_simps [simp]:
  "andthen None f = None" "andthen (throw x) f = throw x" "andthen (ret a) f = f a"
  by (simp_all add: andthen_def)

lemma andthen_eq_ret [simp]: "andthen m f = ret y \<longleftrightarrow> (\<exists>a. m = ret a \<and> f a = ret y)"
proof (cases m)
  case (Some r)
  then show ?thesis by (cases r) (auto simp: andthen_def)
qed simp

text \<open>An operation that does not throw.\<close>

definition nothrow :: "'a option \<Rightarrow> 'a outcome" where
  "nothrow m = map_option Inr m"

lemma nothrow_simps [simp]: "nothrow None = None" "nothrow (Some a) = ret a"
  by (simp_all add: nothrow_def)

end
