(* ===== verification/Mem_Block.thy ===== *)
theory Mem_Block
  imports Vhwd_Exception
begin

text \<open>
  Blocks of memory: a buffer the code reads and writes through pointer arithmetic and \<open>memcpy\<close> is
  the list of its elements. Offsets and lengths are signed, as the code computes them; an access
  outside the block is undefined (\<open>None\<close>). The second part is about blocks used as rings.
\<close>

definition mem_read :: "'a list \<Rightarrow> int \<Rightarrow> int \<Rightarrow> 'a list option" where
  "mem_read m off n = (if 0 \<le> off \<and> 0 \<le> n \<and> nat off + nat n \<le> length m
     then Some (take (nat n) (drop (nat off) m)) else None)"

definition mem_write :: "'a list \<Rightarrow> int \<Rightarrow> 'a list \<Rightarrow> 'a list option" where
  "mem_write m off xs = (if 0 \<le> off \<and> nat off + length xs \<le> length m
     then Some (take (nat off) m @ xs @ drop (nat off + length xs) m) else None)"

text \<open>\<open>memcpy(dst + i, src + j, n)\<close>, returning the destination.\<close>

definition mem_copy :: "'a list \<Rightarrow> int \<Rightarrow> 'a list \<Rightarrow> int \<Rightarrow> int \<Rightarrow> 'a list option" where
  "mem_copy dst i src j n = do { xs \<leftarrow> mem_read src j n; mem_write dst i xs }"

lemma mem_read_length: "mem_read m off n = Some xs \<Longrightarrow> length xs = nat n"
  by (auto simp: mem_read_def split: if_splits)

lemma mem_write_length: "mem_write m off xs = Some m' \<Longrightarrow> length m' = length m"
  by (auto simp: mem_write_def split: if_splits)

lemma mem_copy_length: "mem_copy dst i src j n = Some m \<Longrightarrow> length m = length dst"
  by (auto simp: mem_copy_def bind_eq_Some_iff mem_write_length)

lemma mem_copy_ok:
  assumes "i + n \<le> length dst" and "j + n \<le> length src"
  shows "mem_copy dst (int i) src (int j) (int n) =
    Some (take i dst @ take n (drop j src) @ drop (i + n) dst)"
  using assms by (simp add: mem_copy_def mem_read_def mem_write_def min_absorb2)

text \<open>A copy to the start of the destination, and one that continues it.\<close>

lemma mem_copy_start:
  assumes "n \<le> length dst" and "j + n \<le> length src"
  shows "mem_copy dst 0 src (int j) (int n) = Some (take n (drop j src) @ drop n dst)"
  using mem_copy_ok [of 0 n dst j src] assms by simp

lemma mem_copy_next:
  assumes "length xs = i" and "i + n \<le> length dst" and "n \<le> length src"
  shows "mem_copy (xs @ drop i dst) (int i) src 0 (int n) = Some ((xs @ take n src) @ drop (i + n) dst)"
  using mem_copy_ok [of i n "xs @ drop i dst" 0 src] assms by (simp add: add.commute)

subsection \<open>Rings\<close>

text \<open>The \<open>n\<close> elements from position \<open>rd\<close> on, around the end of the block.\<close>

definition ring_list :: "'a list \<Rightarrow> nat \<Rightarrow> nat \<Rightarrow> 'a list" where
  "ring_list buf rd n = take n (rotate rd buf)"

lemma length_ring_list [simp]: "n \<le> length buf \<Longrightarrow> length (ring_list buf rd n) = n"
  by (simp add: ring_list_def)

lemma ring_list_0 [simp]: "ring_list buf rd 0 = []"
  by (simp add: ring_list_def)

lemma rotate_below: "rd < length buf \<Longrightarrow> rotate rd buf = drop rd buf @ take rd buf"
  by (simp add: rotate_drop_take)

lemma rotate_rotate_mod: "rotate (i mod length xs) xs = rotate i xs"
  by (simp add: rotate_conv_mod [symmetric])

text \<open>The elements in two pieces, when they reach around the end, or in one.\<close>

lemma ring_list_wrap:
  assumes "rd < length buf" and "n \<le> length buf" and "length buf \<le> rd + n"
  shows "ring_list buf rd n = drop rd buf @ take (rd + n - length buf) buf"
proof -
  have "rd + n - length buf \<le> rd" "n - (length buf - rd) = rd + n - length buf" using assms by simp_all
  then show ?thesis using assms by (simp add: ring_list_def rotate_below min_absorb1)
qed

lemma ring_list_flat:
  assumes "rd < length buf" and "rd + n \<le> length buf"
  shows "ring_list buf rd n = take n (drop rd buf)"
  using assms by (simp add: ring_list_def rotate_below)

lemma ring_list_take: "k \<le> n \<Longrightarrow> ring_list buf rd k = take k (ring_list buf rd n)"
  by (simp add: ring_list_def min_def)

text \<open>Moving the start forward drops elements.\<close>

lemma ring_list_drop:
  assumes "k \<le> n" and "n \<le> length buf"
  shows "ring_list buf (rd + k) (n - k) = drop k (ring_list buf rd n)"
proof (cases "k = length buf")
  case False
  let ?r = "rotate rd buf"
  have "rotate (rd + k) buf = rotate k ?r" by (simp add: rotate_rotate add.commute)
  also have "\<dots> = drop k ?r @ take k ?r" using assms False by (intro rotate_below) simp
  finally show ?thesis using assms by (simp add: ring_list_def drop_take)
qed (use assms in \<open>simp add: ring_list_def\<close>)

lemma ring_list_mod: "ring_list buf (rd mod length buf) n = ring_list buf rd n"
  by (simp add: ring_list_def rotate_rotate_mod)

text \<open>Writing \<open>xs\<close> at the end of \<open>n\<close> elements, with room for them, appends \<open>xs\<close>. The block after
  the write is described by its rotation to the place of the write.\<close>

lemma ring_list_append:
  assumes "rotate (rd + n) buf' = xs @ drop (length xs) (rotate (rd + n) buf)"
    and "length buf' = length buf" and "n + length xs \<le> length buf"
  shows "ring_list buf' rd (n + length xs) = ring_list buf rd n @ xs"
proof (cases "buf = []")
  case False
  let ?C = "length buf" and ?q = "rotate rd buf" and ?k = "length xs"
  have q: "rotate (rd + n) buf = drop n ?q @ take n ?q"
  proof (cases "n = ?C")
    case True
    then show ?thesis using rotate_rotate_mod [of "rd + n" buf] rotate_rotate_mod [of rd buf] by simp
  next
    case False
    with assms(3) have "n < length ?q" by simp
    then show ?thesis using rotate_below [of n ?q] by (simp add: rotate_rotate add.commute)
  qed
  have "rotate rd buf' = rotate (?C - n) (rotate (rd + n) buf')"
  proof -
    have "(?C - n + (rd + n)) mod ?C = rd mod ?C" using assms(3) by simp
    then show ?thesis
      by (metis assms(2) rotate_conv_mod rotate_rotate)
  qed
  also have "\<dots> = rotate (?C - n) ((xs @ drop (n + ?k) ?q) @ take n ?q)"
    by (simp only: assms(1) q) (use assms(3) in \<open>simp add: add.commute\<close>)
  also have "\<dots> = take n ?q @ xs @ drop (n + ?k) ?q"
  proof -
    have l: "?C - n = length (xs @ drop (n + ?k) ?q)" using assms(3) by simp
    show ?thesis unfolding l by (subst rotate_append) simp
  qed
  finally show ?thesis using assms(3) by (simp add: ring_list_def)
qed (use assms in \<open>simp add: ring_list_def\<close>)

text \<open>The two ways in which the code writes at \<open>wr\<close> have this form.\<close>

lemma write_flat_rotate:
  assumes "wr < length buf" and "wr + length xs \<le> length buf"
  shows "rotate wr (take wr buf @ xs @ drop (wr + length xs) buf) = xs @ drop (length xs) (rotate wr buf)"
  using assms rotate_below [of wr "take wr buf @ xs @ drop (wr + length xs) buf"] rotate_below [of wr buf]
  by (simp add: add.commute)

lemma write_wrap_rotate:
  assumes "wr < length buf" and "length xs \<le> length buf" and "length buf \<le> wr + length xs"
  defines "h \<equiv> length buf - wr" and "kn \<equiv> wr + length xs - length buf"
  shows "rotate wr (drop h xs @ drop kn (take wr buf) @ take h xs) = xs @ drop (length xs) (rotate wr buf)"
proof -
  have "length (drop h xs @ drop kn (take wr buf)) = wr" using assms by simp
  then have "rotate wr (drop h xs @ drop kn (take wr buf) @ take h xs)
      = take h xs @ drop h xs @ drop kn (take wr buf)"
    by (metis append_assoc rotate_append)
  also have "\<dots> = xs @ drop kn (take wr buf)" by (metis append_assoc append_take_drop_id)
  also have "\<dots> = xs @ drop (length xs) (rotate wr buf)"
    using assms by (simp add: rotate_below add.commute)
  finally show ?thesis .
qed

subsection \<open>Copying out of and into a ring\<close>

text \<open>The copies of \<open>kp\<close> elements at \<open>rd\<close> (or \<open>wr\<close>) that the ring buffer and the lock-free queue
  share: \<open>kn\<close> is how far the range reaches past the end of the block.\<close>

definition wrap_read :: "'a list \<Rightarrow> 'a list \<Rightarrow> int \<Rightarrow> int \<Rightarrow> int \<Rightarrow> 'a list option" where
  "wrap_read p b rd kp kn =
    (if kn > 0 then do {
       p \<leftarrow> mem_copy p 0 b rd (kp - kn);
       mem_copy p (kp - kn) b 0 kn }
     else mem_copy p 0 b rd kp)"

definition wrap_write :: "'a list \<Rightarrow> 'a list \<Rightarrow> int \<Rightarrow> int \<Rightarrow> int \<Rightarrow> 'a list option" where
  "wrap_write b p wr kp kn =
    (if kn > 0 then do {
       b \<leftarrow> mem_copy b wr p 0 (kp - kn);
       mem_copy b 0 p (kp - kn) kn }
     else mem_copy b wr p 0 kp)"

lemma wrap_read_ok:
  assumes "rd < length b" and "n \<le> length b" and "n \<le> length p"
  shows "wrap_read p b (int rd) (int n) (int rd + int n - int (length b)) = Some (ring_list b rd n @ drop n p)"
proof (cases "length b < rd + n")
  case True
  let ?h = "length b - rd" and ?k = "rd + n - length b"
  have e: "int rd + int n - int (length b) = int ?k" "int n - int ?k = int ?h" "?h + ?k = n"
    using True assms by simp_all
  have "mem_copy p 0 b (int rd) (int ?h) = Some (drop rd b @ drop ?h p)"
    using mem_copy_start [of ?h p rd b] assms True by simp
  moreover have "mem_copy (drop rd b @ drop ?h p) (int ?h) b 0 (int ?k) = Some ((drop rd b @ take ?k b) @ drop (?h + ?k) p)"
    by (rule mem_copy_next) (use assms True in auto)
  ultimately show ?thesis unfolding wrap_read_def e(1) e(2)
    using True e(3) assms by (simp add: ring_list_wrap)
next
  case False
  then show ?thesis using assms mem_copy_start [of n p rd b] by (simp add: wrap_read_def ring_list_flat)
qed

lemma wrap_write_ok:
  assumes "wr < length b" and "n \<le> length b" and "n \<le> length p"
  shows "\<exists>b'. wrap_write b p (int wr) (int n) (int wr + int n - int (length b)) = Some b' \<and> length b' = length b \<and>
    rotate wr b' = take n p @ drop n (rotate wr b)"
proof (cases "length b < wr + n")
  case True
  let ?h = "length b - wr" and ?k = "wr + n - length b" and ?xs = "take n p"
  have e: "int wr + int n - int (length b) = int ?k" "int n - int ?k = int ?h" "?h + ?k = n" "?h \<le> n"
    using True assms by simp_all
  have "mem_copy b (int wr) p 0 (int ?h) = Some (take wr b @ take ?h p)"
    using mem_copy_ok [of wr ?h b 0 p] assms e by simp
  moreover have "mem_copy (take wr b @ take ?h p) 0 p (int ?h) (int ?k) = Some (take ?k (drop ?h p) @ drop ?k (take wr b @ take ?h p))"
    by (rule mem_copy_start) (use assms e in auto)
  moreover have "take ?k (drop ?h p) @ drop ?k (take wr b @ take ?h p) = drop ?h ?xs @ drop ?k (take wr b) @ take ?h ?xs"
    using assms e by (simp add: drop_take min_absorb1 min_absorb2 add.commute)
  ultimately have "wrap_write b p (int wr) (int n) (int wr + int n - int (length b)) = Some (drop ?h ?xs @ drop ?k (take wr b) @ take ?h ?xs)"
    unfolding wrap_write_def e(1) e(2) using True by simp
  moreover have "rotate wr (drop ?h ?xs @ drop ?k (take wr b) @ take ?h ?xs) = ?xs @ drop n (rotate wr b)"
    using write_wrap_rotate [of wr b ?xs] assms True by (simp add: min_absorb2)
  moreover have "length (drop ?h ?xs @ drop ?k (take wr b) @ take ?h ?xs) = length b" using assms e by simp
  ultimately show ?thesis by (intro exI conjI)
next
  case False
  then have "wrap_write b p (int wr) (int n) (int wr + int n - int (length b)) = Some (take wr b @ take n p @ drop (wr + n) b)"
    using mem_copy_ok [of wr n b 0 p] assms by (simp add: wrap_write_def)
  moreover have "rotate wr (take wr b @ take n p @ drop (wr + n) b) = take n p @ drop n (rotate wr b)"
    using write_flat_rotate [of wr b "take n p"] assms False by (simp add: min_absorb2)
  moreover have "length (take wr b @ take n p @ drop (wr + n) b) = length b" using assms False by simp
  ultimately show ?thesis by (intro exI conjI)
qed

end
