(* ===== verification/Word_Facts.thy ===== *)
theory Word_Facts
  imports Prelude
begin

unbundle bit_operations_syntax

text \<open>32-bit words as indices: masks, differences around a ring, and signed reading.\<close>

type_synonym i32 = "32 word"

lemma uint_and_mask:
  assumes "k \<le> LENGTH('a)"
  shows "uint ((x :: 'a::len word) AND mask k) = uint x mod 2 ^ k"
proof -
  have "uint (x AND mask k) = take_bit (LENGTH('a)) (take_bit k (uint x))"
    by (simp only: and_mask_bintr uint_word_of_int_eq)
  also have "\<dots> = take_bit k (uint x)" using assms by (simp only: take_bit_take_bit min_absorb2)
  finally show ?thesis by (simp only: take_bit_eq_mod)
qed

lemma uint_diff_and_mask:
  assumes "k \<le> 32"
  shows "uint (((a :: u32) - b) AND mask k) = (uint a - uint b) mod 2 ^ k"
proof -
  have "uint (a - b) mod 2 ^ k = (uint a - uint b) mod 2 ^ 32 mod 2 ^ k"
    by (simp add: uint_word_ariths)
  also have "\<dots> = (uint a - uint b) mod 2 ^ k"
    using assms by (intro mod_mod_cancel le_imp_power_dvd)
  finally show ?thesis using assms by (simp add: uint_and_mask)
qed

lemma sint_word_of_int: "- (2 ^ 31) \<le> i \<Longrightarrow> i < 2 ^ 31 \<Longrightarrow> sint (word_of_int i :: i32) = i"
  by (subst sint_uint) (simp add: uint_word_of_int_eq signed_take_bit_take_bit signed_take_bit_int_eq_self)

lemma sint_small:
  assumes "unat (x :: i32) < 2 ^ 31"
  shows "sint x = int (unat x)"
proof -
  have u: "uint x = int (unat x)" by simp
  have "int (unat x) < int (2 ^ 31)" using assms by (simp only: of_nat_less_iff)
  moreover have "- (2 ^ 31) \<le> int (unat x)" by (rule order_trans [of _ 0]) simp_all
  ultimately have "sint (word_of_int (uint x) :: i32) = uint x" unfolding u by (intro sint_word_of_int) simp_all
  then show ?thesis by simp
qed

subsection \<open>Positions in a ring of \<open>2^k\<close> places\<close>

lemma mod_neg_minus_one:
  assumes "0 < (m :: int)"
  shows "(- x - 1) mod m = m - 1 - x mod m"
proof -
  have "- x - 1 = (m - 1 - x mod m) + m * (- (x div m) - 1)"
  proof -
    have "m * (- (x div m) - 1) = - (m * (x div m)) - m" by (simp add: right_diff_distrib)
    then show ?thesis using mult_div_mod_eq [of m x] by linarith
  qed
  then have "(- x - 1) mod m = (m - 1 - x mod m) mod m" by (metis mod_mult_self2)
  moreover have "0 \<le> m - 1 - x mod m" "m - 1 - x mod m < m"
    using assms pos_mod_bound [of m x] pos_mod_sign [of m x] by linarith+
  ultimately show ?thesis by simp
qed

definition ring_dist :: "nat \<Rightarrow> u32 \<Rightarrow> u32 \<Rightarrow> nat" where
  "ring_dist k rd wr = unat ((wr - rd) AND mask k)"

lemma ring_dist_int: "k \<le> 31 \<Longrightarrow> int (ring_dist k rd wr) = (uint wr - uint rd) mod 2 ^ k"
  by (simp add: ring_dist_def uint_diff_and_mask)

lemma ring_dist_less: "k \<le> 31 \<Longrightarrow> ring_dist k rd wr < 2 ^ k"
proof -
  assume "k \<le> 31"
  then have "int (ring_dist k rd wr) < int (2 ^ k)" by (simp add: ring_dist_int)
  then show ?thesis by (simp only: of_nat_less_iff)
qed

lemma ring_dist_0: "k \<le> 31 \<Longrightarrow> ring_dist k rd rd = 0"
  by (simp add: ring_dist_def)

lemma ring_dist_wr:
  assumes "k \<le> 31" and "unat wr < 2 ^ k"
  shows "unat wr = (unat rd + ring_dist k rd wr) mod 2 ^ k"
proof -
  have "int ((unat rd + ring_dist k rd wr) mod 2 ^ k) = uint wr mod 2 ^ k"
    by (simp add: of_nat_mod ring_dist_int [OF assms(1)] mod_add_right_eq)
  also have "\<dots> = int (unat wr mod 2 ^ k)" by (simp add: of_nat_mod)
  finally show ?thesis using assms(2) by (simp only: of_nat_eq_iff) simp
qed

lemma ring_dist_unique:
  assumes "k \<le> 31" and "unat wr = (unat rd + n) mod 2 ^ k" and "n < 2 ^ k"
  shows "ring_dist k rd wr = n"
proof -
  have "uint wr = (uint rd + int n) mod 2 ^ k" using arg_cong [OF assms(2), of int] by (simp add: of_nat_mod)
  then have "(uint wr - uint rd) mod 2 ^ k = int n mod 2 ^ k" by (simp add: mod_diff_left_eq)
  then have "int (ring_dist k rd wr) = int (n mod 2 ^ k)" by (simp add: ring_dist_int [OF assms(1)] of_nat_mod)
  then show ?thesis using assms(3) by simp
qed

lemma ring_free:
  assumes "k \<le> 31"
  shows "unat ((rd - wr - 1) AND mask k) = 2 ^ k - 1 - ring_dist k rd wr"
proof -
  have "rd - wr - 1 = rd - (wr + 1)" by simp
  then have "uint ((rd - wr - 1) AND mask k) = (uint rd - uint (wr + 1)) mod 2 ^ k"
    using assms by (simp only: uint_diff_and_mask)
  also have "\<dots> = (uint rd - (uint wr + 1)) mod 2 ^ k"
  proof -
    have "uint (wr + 1) mod 2 ^ k = (uint wr + 1) mod 2 ^ 32 mod 2 ^ k" by (simp add: uint_word_ariths)
    also have "\<dots> = (uint wr + 1) mod 2 ^ k"
      using assms by (intro mod_mod_cancel le_imp_power_dvd) simp
    finally show ?thesis by (metis mod_diff_right_eq)
  qed
  also have "\<dots> = 2 ^ k - 1 - int (ring_dist k rd wr)"
    using mod_neg_minus_one [of "2 ^ k" "uint wr - uint rd"] by (simp add: ring_dist_int [OF assms] algebra_simps)
  finally have "int (unat ((rd - wr - 1) AND mask k)) = 2 ^ k - 1 - int (ring_dist k rd wr)" by simp
  moreover have "int (2 ^ k - 1 - ring_dist k rd wr) = 2 ^ k - 1 - int (ring_dist k rd wr)"
    using ring_dist_less [OF assms, of rd wr] by (simp add: of_nat_diff)
  ultimately show ?thesis by linarith
qed

text \<open>\<open>kn\<close>, and the position after \<open>kp\<close> elements.\<close>

lemma ring_kn_word:
  "rd + kp - mask k - 1 = (word_of_int (int (unat rd) + int (unat kp) - 2 ^ k) :: i32)"
  by (simp add: mask_eq_exp_minus_1)

lemma ring_kn:
  assumes "k \<le> 31" and "unat rd < 2 ^ k" and "unat kp \<le> 2 ^ k" and "unat kp < 2 ^ 31"
  shows "sint (rd + kp - mask k - 1 :: i32) = int (unat rd) + int (unat kp) - 2 ^ k"
proof -
  have "int (2 ^ k) \<le> int (2 ^ 31)" using assms(1) by (simp only: of_nat_le_iff) (intro power_increasing, simp_all)
  moreover have "int (unat rd) < int (2 ^ k)" "int (unat kp) < int (2 ^ 31)"
    using assms by (simp_all only: of_nat_less_iff)
  moreover have "0 \<le> int (unat rd)" "0 \<le> int (unat kp)" by simp_all
  ultimately have "- (2 ^ 31) \<le> int (unat rd) + int (unat kp) - 2 ^ k"
    "int (unat rd) + int (unat kp) - 2 ^ k < 2 ^ 31" unfolding of_nat_power of_nat_numeral by linarith+
  then show ?thesis unfolding ring_kn_word by (rule sint_word_of_int)
qed

lemma ring_next:
  assumes "k \<le> 31" and "unat rd < 2 ^ k" and "unat kp \<le> 2 ^ k" and "unat kp < 2 ^ 31"
  shows "unat (if sint (rd + kp - mask k - 1 :: i32) > 0 then rd + kp - mask k - 1
    else (rd + kp - mask k - 1) AND mask k) = (unat rd + unat kp) mod 2 ^ k"
proof -
  let ?kn = "rd + kp - mask k - 1 :: i32" and ?z = "int (unat rd) + int (unat kp) - 2 ^ k"
  have s: "sint ?kn = ?z" by (rule ring_kn [OF assms])
  have u: "uint ?kn = ?z mod 2 ^ 32" unfolding ring_kn_word by (simp only: uint_word_of_int len_of_numeral_defs) simp
  have "int (unat (if sint ?kn > 0 then ?kn else ?kn AND mask k)) = int ((unat rd + unat kp) mod 2 ^ k)"
  proof (cases "?z > 0")
    case True
    have "int (2 ^ k) \<le> int (2 ^ 31)" using assms(1) by (simp only: of_nat_le_iff) (intro power_increasing, simp_all)
    moreover have "int (unat rd) < int (2 ^ k)" "int (unat kp) \<le> int (2 ^ k)"
      using assms by (simp_all only: of_nat_less_iff of_nat_le_iff)
    moreover have "(2 :: int) ^ 31 < 2 ^ 32" by simp
    ultimately have z: "?z < 2 ^ k" "?z < 2 ^ 32" unfolding of_nat_power of_nat_numeral by linarith+
    then have "uint ?kn = ?z" using True unfolding u by (intro mod_pos_pos_trivial) linarith+
    moreover have "?z = ?z mod 2 ^ k" using True z(1) by (intro mod_pos_pos_trivial [symmetric]) linarith+
    moreover have "?z mod 2 ^ k = (int (unat rd) + int (unat kp)) mod 2 ^ k" by simp
    ultimately show ?thesis using True by (simp only: s if_True of_nat_mod of_nat_add of_nat_power of_nat_numeral uint_nat)
  next
    case False
    have "?z mod 2 ^ 32 mod 2 ^ k = ?z mod 2 ^ k"
      using assms(1) by (intro mod_mod_cancel le_imp_power_dvd) simp
    then have "uint (?kn AND mask k) = (int (unat rd) + int (unat kp)) mod 2 ^ k"
      using assms(1) by (subst uint_and_mask) (simp_all only: u, simp_all)
    then show ?thesis using False by (simp only: s if_False of_nat_mod of_nat_add of_nat_power of_nat_numeral uint_nat)
  qed
  then show ?thesis by (simp only: of_nat_eq_iff)
qed

end
