(* ===== verification/Ring_Pos.thy ===== *)
theory Ring_Pos
  imports Mem_Block Word_Facts
begin

text \<open>
  What the ring buffer and the lock-free queue have in common: a block of \<open>2^k\<close> places, 32-bit
  read and write positions and a mask. \<open>ring_view k b rd wr xs\<close> says that the elements between
  the two positions are \<open>xs\<close>. The lemmas give the effect of the index computations of the code,
  done with wrap-around on words and read as signed integers, on \<open>xs\<close>.
\<close>

unbundle bit_operations_syntax

definition ring_view :: "nat \<Rightarrow> 'a list \<Rightarrow> u32 \<Rightarrow> u32 \<Rightarrow> 'a list \<Rightarrow> bool" where
  "ring_view k b rd wr xs \<longleftrightarrow> k \<le> 31 \<and> length b = 2 ^ k \<and> unat rd < 2 ^ k \<and> unat wr < 2 ^ k \<and>
     xs = ring_list b (unat rd) (ring_dist k rd wr)"

lemma unat_of_sint: "sint (m :: i32) = int c \<Longrightarrow> c < 2 ^ 31 \<Longrightarrow> unat m = c"
proof -
  assume s: "sint m = int c" and c: "c < 2 ^ 31"
  have "m = of_int (sint m)" by simp
  then have "m = of_nat c" by (simp add: s)
  moreover have "unat (of_nat c :: i32) = c" using c by (simp add: unsigned_of_nat take_bit_nat_eq_self)
  ultimately show "unat m = c" by simp
qed

lemma pow31: "k \<le> 31 \<Longrightarrow> (2 :: nat) ^ k \<le> 2 ^ 31"
  by (intro power_increasing) simp_all


lemma ring_viewD:
  assumes "ring_view k b rd wr xs"
  shows "k \<le> 31" "length b = 2 ^ k" "unat rd < 2 ^ k" "unat wr < 2 ^ k"
    "ring_dist k rd wr = length xs" "length xs < 2 ^ k" "xs = ring_list b (unat rd) (length xs)"
proof -
  have *: "k \<le> 31" "length b = 2 ^ k" "unat rd < 2 ^ k" "unat wr < 2 ^ k"
    "xs = ring_list b (unat rd) (ring_dist k rd wr)" using assms by (auto simp: ring_view_def)
  moreover have "ring_dist k rd wr < 2 ^ k" by (rule ring_dist_less) fact
  moreover from this have "length xs = ring_dist k rd wr" using * by simp
  ultimately show "k \<le> 31" "length b = 2 ^ k" "unat rd < 2 ^ k" "unat wr < 2 ^ k"
    "ring_dist k rd wr = length xs" "length xs < 2 ^ k" "xs = ring_list b (unat rd) (length xs)" by metis+
qed

lemma sint_pos: "k \<le> 31 \<Longrightarrow> unat (x :: i32) < 2 ^ k \<Longrightarrow> sint x = int (unat x)"
  using pow31 [of k] by (intro sint_small) linarith

lemma ring_view_used:
  "ring_view k b rd wr xs \<Longrightarrow> sint ((wr - rd) AND mask k :: i32) = int (length xs)"
  using ring_viewD(1,5,6) [of k b rd wr xs] sint_pos [of k "(wr - rd) AND mask k"] by (simp add: ring_dist_def)

lemma ring_view_free:
  assumes "ring_view k b rd wr xs"
  shows "sint ((rd - wr - 1) AND mask k :: i32) = int (2 ^ k - 1 - length xs)"
proof -
  have u: "unat ((rd - wr - 1) AND mask k) = 2 ^ k - 1 - length xs"
    using ring_free [of k rd wr] ring_viewD [OF assms] by simp
  then show ?thesis using sint_pos [of k "(rd - wr - 1) AND mask k"] ring_viewD [OF assms] by simp
qed

lemma ring_view_empty: "ring_view k b rd wr xs \<Longrightarrow> rd = wr \<longleftrightarrow> xs = []"
proof
  assume v: "ring_view k b rd wr xs"
  show "rd = wr \<Longrightarrow> xs = []" using v ring_dist_0 [of k rd] by (auto simp: ring_view_def)
  assume "xs = []"
  then have "unat wr = unat rd" using ring_dist_wr [of k wr rd] ring_viewD [OF v] by simp
  then show "rd = wr" by (simp add: word_eq_iff_unsigned [where ?'a = nat])
qed

lemma unat_succ_and_mask: "k \<le> 31 \<Longrightarrow> unat ((x + 1 :: u32) AND mask k) = (unat x + 1) mod 2 ^ k"
proof -
  assume k: "k \<le> 31"
  have "uint ((x + 1) AND mask k) = (uint x + 1) mod 2 ^ 32 mod 2 ^ k"
    using k by (simp add: uint_and_mask uint_word_ariths)
  also have "\<dots> = int (unat x + 1) mod int (2 ^ k)"
    using mod_mod_cancel [OF le_imp_power_dvd, of k 32 "uint x + 1" 2] k by (simp add: add.commute)
  finally show ?thesis by (simp only: uint_nat of_nat_eq_iff flip: of_nat_mod)
qed

lemma ring_view_full:
  assumes v: "ring_view k b rd wr xs"
  shows "(wr + 1) AND mask k = rd \<longleftrightarrow> length xs = 2 ^ k - 1"
proof -
  note D = ring_viewD [OF v]
  have wr: "unat wr = (unat rd + length xs) mod 2 ^ k" using ring_dist_wr [of k wr rd] D by simp
  have n: "unat ((wr + 1) AND mask k) = (unat rd + Suc (length xs)) mod 2 ^ k"
    using D by (simp add: unat_succ_and_mask wr mod_simps)
  show ?thesis
  proof
    assume e: "(wr + 1) AND mask k = rd"
    show "length xs = 2 ^ k - 1"
    proof (rule ccontr)
      assume "length xs \<noteq> 2 ^ k - 1"
      then have "ring_dist k rd ((wr + 1) AND mask k) = Suc (length xs)"
        using n D by (intro ring_dist_unique) auto
      then show False using e ring_dist_0 [of k rd] D by simp
    qed
  next
    assume "length xs = 2 ^ k - 1"
    then have "unat rd + Suc (length xs) = unat rd + 2 ^ k" by simp
    then have "unat ((wr + 1) AND mask k) = unat rd" using n D by simp
    then show "(wr + 1) AND mask k = rd" by (simp add: word_eq_iff_unsigned [where ?'a = nat])
  qed
qed

text \<open>Copying the first elements out, and forgetting them.\<close>

lemma ring_view_read:
  assumes v: "ring_view k b rd wr xs" and c: "c \<le> length xs" "c \<le> length p" and m: "sint m = int c"
  shows "wrap_read p b (sint rd) (sint m) (sint (rd + m - mask k - 1)) = Some (take c xs @ drop c p)"
proof -
  note D = ring_viewD [OF v]
  have u: "unat m = c" using unat_of_sint [OF m] pow31 [OF D(1)] c D(6) by linarith
  have "sint (rd + m - mask k - 1) = int (unat rd) + int c - int (length b)"
    using ring_kn [of k rd m] D c u pow31 [OF D(1)] by simp
  then have "wrap_read p b (sint rd) (sint m) (sint (rd + m - mask k - 1)) = Some (ring_list b (unat rd) c @ drop c p)"
    using wrap_read_ok [of "unat rd" b c p] D c by (simp add: m sint_pos)
  moreover have "ring_list b (unat rd) c = take c xs" using ring_list_take [OF c(1)] D(7) by metis
  ultimately show ?thesis by simp
qed

lemma ring_view_advance:
  assumes v: "ring_view k b rd wr xs" and c: "c \<le> length xs"
    and rd': "unat rd' = (unat rd + c) mod 2 ^ k"
  shows "ring_view k b rd' wr (drop c xs)"
proof -
  note D = ring_viewD [OF v]
  have "ring_dist k rd' wr = length xs - c"
  proof (rule ring_dist_unique)
    have "unat wr = (unat rd + length xs) mod 2 ^ k" using ring_dist_wr [of k wr rd] D by simp
    also have "\<dots> = (unat rd + c + (length xs - c)) mod 2 ^ k" using c by simp
    finally show "unat wr = (unat rd' + (length xs - c)) mod 2 ^ k" by (simp add: rd' mod_add_left_eq)
  qed (use D in auto)
  moreover have "ring_list b (unat rd') (length xs - c) = drop c xs"
    using ring_list_mod [of b "unat rd + c"] ring_list_drop [OF c, of b "unat rd"] D by (simp add: rd')
  ultimately show ?thesis using D by (simp add: ring_view_def rd')
qed

text \<open>Writing behind the last element.\<close>

lemma ring_view_append:
  assumes v: "ring_view k b rd wr xs" and len: "length xs + length ys < 2 ^ k" "length b' = length b"
    and r: "rotate (unat wr) b' = ys @ drop (length ys) (rotate (unat wr) b)"
    and wr': "unat wr' = (unat wr + length ys) mod 2 ^ k"
  shows "ring_view k b' rd wr' (xs @ ys)"
proof -
  note D = ring_viewD [OF v]
  have wr: "unat wr = (unat rd + length xs) mod 2 ^ k" using ring_dist_wr [of k wr rd] D by simp
  have "ring_dist k rd wr' = length xs + length ys"
    by (rule ring_dist_unique) (use D len in \<open>simp_all add: wr' wr mod_add_left_eq add.assoc\<close>)
  moreover have "rotate (unat rd + length xs) b' = ys @ drop (length ys) (rotate (unat rd + length xs) b)"
    using r rotate_rotate_mod [of "unat rd + length xs" b] rotate_rotate_mod [of "unat rd + length xs" b'] D len
    by (simp add: wr)
  then have "ring_list b' (unat rd) (length xs + length ys) = xs @ ys"
    using ring_list_append [of "unat rd" "length xs" b' ys b] len D by simp
  ultimately show ?thesis using D len by (simp add: ring_view_def wr')
qed

lemma ring_view_write:
  assumes v: "ring_view k b rd wr xs" and c: "length xs + c < 2 ^ k" "c \<le> length p" and m: "sint m = int c"
  shows "\<exists>b'. wrap_write b p (sint wr) (sint m) (sint (wr + m - mask k - 1)) = Some b' \<and>
    (\<forall>wr'. unat wr' = (unat wr + c) mod 2 ^ k \<longrightarrow> ring_view k b' rd wr' (xs @ take c p))"
proof -
  note D = ring_viewD [OF v]
  have u: "unat m = c" using unat_of_sint [OF m] pow31 [OF D(1)] c D(6) by linarith
  have "sint (wr + m - mask k - 1) = int (unat wr) + int c - int (length b)"
    using ring_kn [of k wr m] D c u pow31 [OF D(1)] by simp
  moreover have "c \<le> length b" using c D by simp
  ultimately obtain b' where b': "wrap_write b p (sint wr) (sint m) (sint (wr + m - mask k - 1)) = Some b'"
    "length b' = length b" "rotate (unat wr) b' = take c p @ drop c (rotate (unat wr) b)"
    using wrap_write_ok [of "unat wr" b c p] D c by (auto simp: m sint_pos)
  have "ring_view k b' rd wr' (xs @ take c p)" if "unat wr' = (unat wr + c) mod 2 ^ k" for wr'
    by (rule ring_view_append [OF v]) (use b' c that in auto)
  with b' show ?thesis by blast
qed

text \<open>The new position the code computes.\<close>

lemma ring_view_next:
  assumes "k \<le> 31" and "unat rd < 2 ^ k" and "sint m = int c" and "c < 2 ^ k"
  shows "unat (if sint (rd + m - mask k - 1 :: i32) > 0 then rd + m - mask k - 1
    else (rd + m - mask k - 1) AND mask k) = (unat rd + c) mod 2 ^ k"
proof -
  have "unat m = c" using unat_of_sint [OF assms(3)] pow31 [OF assms(1)] assms(4) by linarith
  then show ?thesis using ring_next [of k rd m] assms pow31 [OF assms(1)] by simp
qed

text \<open>
  Single elements of a ring with any number of places: \<open>pos_view b rd wr xs\<close> says that \<open>xs\<close> are
  the elements from place \<open>rd\<close> up to place \<open>wr\<close>, exclusive.
\<close>

unbundle bit_operations_syntax

definition pos_view :: "'a list \<Rightarrow> nat \<Rightarrow> nat \<Rightarrow> 'a list \<Rightarrow> bool" where
  "pos_view b rd wr xs \<longleftrightarrow> rd < length b \<and> length xs < length b \<and>
     wr = (rd + length xs) mod length b \<and> (\<forall>i < length xs. xs ! i = b ! ((rd + i) mod length b))"

lemma nth_ring_list: "n \<le> length b \<Longrightarrow> i < n \<Longrightarrow> ring_list b rd n ! i = b ! ((rd + i) mod length b)"
  by (simp add: ring_list_def nth_rotate add.commute)

lemma ring_view_pos_view:
  "ring_view k b rd wr xs \<longleftrightarrow> k \<le> 31 \<and> length b = 2 ^ k \<and> pos_view b (unat rd) (unat wr) xs"
proof (intro iffI conjI)
  assume v: "ring_view k b rd wr xs"
  note D = ring_viewD [OF v]
  show "k \<le> 31" "length b = 2 ^ k" by fact+
  have "xs ! i = b ! ((unat rd + i) mod length b)" if "i < length xs" for i
    using D that nth_ring_list [of "length xs" b i "unat rd"] by simp
  then show "pos_view b (unat rd) (unat wr) xs"
    using D ring_dist_wr [of k wr rd] by (simp add: pos_view_def)
next
  assume v: "k \<le> 31 \<and> length b = 2 ^ k \<and> pos_view b (unat rd) (unat wr) xs"
  then have "ring_dist k rd wr = length xs" by (intro ring_dist_unique) (auto simp: pos_view_def)
  moreover have "xs = ring_list b (unat rd) (length xs)"
    using v by (intro nth_equalityI) (auto simp: pos_view_def nth_ring_list)
  ultimately show "ring_view k b rd wr xs" using v by (auto simp: ring_view_def pos_view_def)
qed

lemma mod_add_inj:
  assumes "(rd + i) mod C = (rd + j) mod C" and "i < C" and "j < (C :: nat)"
  shows "i = j"
proof -
  have "i = j" if "(rd + i) mod C = (rd + j) mod C" "i < C" "j < C" "j \<le> i" for i j
  proof -
    have "C dvd i - j" using that mod_eq_dvd_iff_nat [of "rd + j" "rd + i" C] by simp
    then show ?thesis using that by (auto dest: dvd_imp_le)
  qed
  then show ?thesis using assms by (metis nat_le_linear)
qed

lemma pos_viewD:
  assumes "pos_view b rd wr xs"
  shows "rd < length b" "length xs < length b" "wr = (rd + length xs) mod length b"
    "i < length xs \<Longrightarrow> xs ! i = b ! ((rd + i) mod length b)"
  using assms by (auto simp: pos_view_def)

lemma pos_view_bound: "pos_view b rd wr xs \<Longrightarrow> rd < length b \<and> wr < length b \<and> length xs < length b"
  by (auto simp: pos_view_def intro: mod_less_divisor)

lemma pos_view_empty: "pos_view b rd wr xs \<Longrightarrow> rd = wr \<longleftrightarrow> xs = []"
proof -
  assume v: "pos_view b rd wr xs"
  have "length xs = 0" if e: "rd = wr"
  proof (rule mod_add_inj)
    have "(rd + length xs) mod length b = rd" using trans [OF e pos_viewD(3) [OF v]] by (rule sym)
    moreover have "(rd + 0) mod length b = rd" using pos_viewD(1) [OF v] by simp
    ultimately show "(rd + length xs) mod length b = (rd + 0) mod length b" by (rule trans [OF _ sym])
  qed (use pos_viewD(1,2) [OF v] in linarith)+
  then show ?thesis using v by (auto simp: pos_view_def)
qed

lemma pos_view_full: "pos_view b rd wr xs \<Longrightarrow> (wr + 1) mod length b = rd \<longleftrightarrow> length xs = length b - 1"
proof -
  assume v: "pos_view b rd wr xs"
  then have e: "(wr + 1) mod length b = (rd + Suc (length xs)) mod length b" by (simp add: pos_view_def mod_simps)
  show ?thesis
  proof
    assume "(wr + 1) mod length b = rd"
    then have m: "(rd + Suc (length xs)) mod length b = (rd + 0) mod length b" using e pos_viewD [OF v] by simp
    have "\<not> Suc (length xs) < length b" using mod_add_inj [OF m] by fastforce
    then show "length xs = length b - 1" using pos_viewD [OF v] by simp
  next
    assume "length xs = length b - 1"
    then have "rd + Suc (length xs) = rd + length b" using v by (auto simp: pos_view_def)
    then show "(wr + 1) mod length b = rd" using e v by (simp add: pos_view_def)
  qed
qed

text \<open>Storing to the free place at \<open>wr\<close> changes nothing until the position moves.\<close>

lemma pos_view_store: "pos_view b rd wr xs \<Longrightarrow> pos_view (b[wr := v]) rd wr xs"
proof -
  assume v: "pos_view b rd wr xs"
  have "(rd + i) mod length b \<noteq> wr" if "i < length xs" for i
    using mod_add_inj [of rd i "length b" "length xs"] that pos_viewD [OF v] by force
  then have "\<forall>i < length xs. xs ! i = b[wr := v] ! ((rd + i) mod length b)"
    using pos_viewD(4) [OF v] by (metis nth_list_update_neq)
  then show ?thesis using pos_viewD(1-3) [OF v] by (simp add: pos_view_def)
qed

lemma pos_view_publish:
  assumes v: "pos_view b rd wr xs" and "b ! wr = v" and "length xs < length b - 1"
  shows "pos_view b rd ((wr + 1) mod length b) (xs @ [v])"
  using assms by (auto simp: pos_view_def nth_append mod_simps less_Suc_eq)

lemma pos_view_push:
  assumes v: "pos_view b rd wr xs" and "length xs < length b - 1"
  shows "pos_view (b[wr := v]) rd ((wr + 1) mod length b) (xs @ [v])"
  using pos_view_publish [OF pos_view_store [OF v], of v v] pos_view_bound [OF v] assms(2) by simp

lemma pos_view_head: "pos_view b rd wr (x # xs) \<Longrightarrow> b ! rd = x"
  by (auto simp: pos_view_def)

lemma pos_view_pop:
  assumes "pos_view b rd wr (x # xs)"
  shows "pos_view b ((rd + 1) mod length b) wr xs"
proof -
  have "xs ! i = b ! ((rd + 1 + i) mod length b)" if "i < length xs" for i
    using assms that by (auto simp: pos_view_def dest: spec [of _ "Suc i"])
  then show ?thesis using assms by (auto simp: pos_view_def mod_simps intro: mod_less_divisor)
qed

lemma pos_view_new: "0 < length b \<Longrightarrow> pos_view b 0 0 []"
  by (simp add: pos_view_def)

end
