(* ===== verification/Sz_Helper.thy ===== *)
theory Sz_Helper
  imports Vhwd_Exception
begin

unbundle bit_operations_syntax

text \<open>
  The size computations of \<open>sz_helper\<close> (\<open>inc/vhwd/collection/detail/collection_base.h\<close>): \<open>adj\<close>
  rounds a size up to an alignment, \<open>n2p\<close> rounds up to a power of two, \<open>gen\<close> proposes the next
  size of a growing array. All on 64-bit words, with the wrap-around of the code.
\<close>

definition adj :: "size_t \<Rightarrow> size_t \<Rightarrow> size_t" where
  "adj sz al = (sz + al - 1) AND NOT (al - 1)"

text \<open>\<open>while(k<sz) k=k<<1\<close>.\<close>

partial_function (option) n2p_loop :: "size_t \<Rightarrow> size_t \<Rightarrow> size_t option" where
  "n2p_loop sz k = (if k < sz then n2p_loop sz (push_bit 1 k) else Some k)"

definition n2p_start :: "size_t \<Rightarrow> size_t" where
  "n2p_start sz =
    (let k = 1;
         k = (if sz \<ge> push_bit 16 k then push_bit 16 k else k);
         k = (if sz \<ge> push_bit 8 k then push_bit 8 k else k);
         k = (if sz \<ge> push_bit 4 k then push_bit 4 k else k)
     in k)"

definition n2p :: "size_t \<Rightarrow> size_t outcome" where
  "n2p sz = (let mx = 1 + drop_bit 1 (- 1) in
     if sz > mx then throw XInvalidArgument else nothrow (n2p_loop sz (n2p_start sz)))"

definition gen :: "size_t \<Rightarrow> size_t" where
  "gen sz = (if sz < 4 then sz
     else let sz2 = sz + drop_bit 1 sz in
       if sz2 > sz then sz2
       else let mk = push_bit 16 1 - 1; sz2 = (sz + mk) AND NOT mk in
         if sz2 > sz then sz2 else sz)"

subsection \<open>Rounding up to a power of two\<close>

lemma unat_size_less: "unat (x :: size_t) < 2 ^ 64"
  using unsigned_less [where ?'a = nat, of x] by simp

lemma unat_half: "unat (drop_bit 1 (x :: size_t)) = unat x div 2"
  by (simp only: unsigned_drop_bit_eq) (simp add: drop_bit_eq_div take_bit_nat_eq_self unat_size_less [simplified])

lemma unat_2_power [simp]: "m < 64 \<Longrightarrow> unat ((2 :: size_t) ^ m) = 2 ^ m"
proof -
  assume m: "m < 64"
  have "(2 :: size_t) ^ m = of_nat (2 ^ m)" by simp
  moreover have "take_bit 64 ((2 :: nat) ^ m) = 2 ^ m"
    using m by (simp add: take_bit_nat_eq_self power_strict_increasing del: numeral_One)
  ultimately show ?thesis by (simp only: unsigned_of_nat) simp
qed

lemma push_bit_2_power: "push_bit n ((2 :: size_t) ^ m) = 2 ^ (m + n)"
  by (simp add: push_bit_eq_mult power_add)

lemma less_2_power: "m < 64 \<Longrightarrow> (sz :: size_t) \<le> 2 ^ m \<longleftrightarrow> unat sz \<le> 2 ^ m"
  by (simp add: word_le_nat_alt)

lemma n2p_loop_ok:
  assumes "unat sz \<le> 2 ^ 63" and "j \<le> 63"
  shows "\<exists>m. j \<le> m \<and> m \<le> 63 \<and> n2p_loop sz (2 ^ j) = Some (2 ^ m) \<and> unat sz \<le> 2 ^ m \<and>
    (m = j \<or> 2 ^ (m - 1) < unat sz)"
  using assms(2)
proof (induction "63 - j" arbitrary: j)
  case 0
  then have "j = 63" by simp
  then show ?case using assms(1) by (subst n2p_loop.simps) (auto simp: word_less_nat_alt)
next
  case (Suc d)
  show ?case
  proof (cases "unat sz \<le> 2 ^ j")
    case True
    then show ?thesis using Suc.prems by (subst n2p_loop.simps) (auto simp: word_less_nat_alt)
  next
    case False
    have "\<exists>m \<ge> Suc j. m \<le> 63 \<and> n2p_loop sz (2 ^ Suc j) = Some (2 ^ m) \<and>
        unat sz \<le> 2 ^ m \<and> (m = Suc j \<or> 2 ^ (m - 1) < unat sz)"
      using Suc.hyps Suc.prems by (intro Suc.hyps(1)) auto
    then obtain m where "Suc j \<le> m" "m \<le> 63" "n2p_loop sz (2 ^ Suc j) = Some (2 ^ m)"
      "unat sz \<le> 2 ^ m" "m = Suc j \<or> 2 ^ (m - 1) < unat sz" by blast
    moreover have "n2p_loop sz (2 ^ j) = n2p_loop sz (2 ^ Suc j)"
      using False Suc.prems Suc.hyps(2)
      by (subst n2p_loop.simps) (simp add: word_less_nat_alt push_bit_2_power del: power_Suc)
    ultimately show ?thesis using False by (intro exI [of _ m]) auto
  qed
qed

lemma n2p_start_ok: "\<exists>j \<le> 28. n2p_start sz = 2 ^ j \<and> (j = 0 \<or> 2 ^ j \<le> unat sz)"
proof -
  have shift: "\<exists>j' \<le> j + n. (if sz \<ge> push_bit n (2 ^ j) then push_bit n (2 ^ j) else 2 ^ j) = (2 :: size_t) ^ j' \<and>
      (j' = 0 \<or> 2 ^ j' \<le> unat sz)" if "j + n < 64" and "j = 0 \<or> 2 ^ j \<le> unat sz" for j n
  proof (cases "sz \<ge> push_bit n (2 ^ j)")
    case True
    then show ?thesis using that by (intro exI [of _ "j + n"]) (simp add: push_bit_2_power word_le_nat_alt)
  next
    case False
    then show ?thesis using that by (intro exI [of _ j]) simp
  qed
  have "\<exists>j1 \<le> 16. (if sz \<ge> push_bit 16 1 then push_bit 16 1 else 1) = (2 :: size_t) ^ j1 \<and>
      (j1 = 0 \<or> 2 ^ j1 \<le> unat sz)" using shift [of 0 16] by (simp only: power_0) simp
  then obtain j1 where 1: "j1 \<le> 16" "(if sz \<ge> push_bit 16 1 then push_bit 16 1 else 1) = (2 :: size_t) ^ j1"
      "j1 = 0 \<or> 2 ^ j1 \<le> unat sz" by blast
  have c: "j1 + 8 < 64" using 1 by simp
  obtain j2 where 2: "j2 \<le> j1 + 8" "(if sz \<ge> push_bit 8 (2 ^ j1) then push_bit 8 (2 ^ j1) else 2 ^ j1) = (2 :: size_t) ^ j2"
      "j2 = 0 \<or> 2 ^ j2 \<le> unat sz" using shift [OF c 1(3)] by metis
  have c: "j2 + 4 < 64" using 1 2 by simp
  obtain j3 where "j3 \<le> j2 + 4" "(if sz \<ge> push_bit 4 (2 ^ j2) then push_bit 4 (2 ^ j2) else 2 ^ j2) = (2 :: size_t) ^ j3"
      "j3 = 0 \<or> 2 ^ j3 \<le> unat sz" using shift [OF c 2(3)] by metis
  moreover have "j3 \<le> 28" using 1(1) 2(1) calculation(1) by simp
  ultimately show ?thesis using 1 2 unfolding n2p_start_def Let_def by (intro exI [of _ j3]) (simp only: simp_thms)
qed

text \<open>\<open>n2p\<close> returns the least power of two that is not below the size.\<close>

lemma n2p_ok:
  assumes "unat sz \<le> 2 ^ 63"
  shows "\<exists>m \<le> 63. n2p sz = ret (2 ^ m) \<and> unat sz \<le> 2 ^ m \<and> (\<forall>i. unat sz \<le> 2 ^ i \<longrightarrow> m \<le> i)"
proof -
  obtain j where j: "j \<le> 28" "n2p_start sz = 2 ^ j" "j = 0 \<or> 2 ^ j \<le> unat sz"
    using n2p_start_ok by blast
  then obtain m where m: "j \<le> m" "m \<le> 63" "n2p_loop sz (2 ^ j) = Some (2 ^ m)" "unat sz \<le> 2 ^ m"
    "m = j \<or> 2 ^ (m - 1) < unat sz" using n2p_loop_ok [OF assms, of j] by auto
  have "m \<le> i" if i: "unat sz \<le> 2 ^ i" for i
  proof (rule ccontr)
    assume "\<not> m \<le> i"
    then have "m \<noteq> 0" "(2 :: nat) ^ i \<le> 2 ^ (m - 1)" by (simp_all add: power_increasing)
    moreover have "(2 :: nat) ^ (m - 1) < 2 ^ m" using \<open>m \<noteq> 0\<close> by (cases m) simp_all
    ultimately have "unat sz < 2 ^ m" "unat sz \<le> 2 ^ (m - 1)" using i by linarith+
    with m(5) j(3) \<open>m \<noteq> 0\<close> show False by auto
  qed
  moreover have "n2p sz = ret (2 ^ m)"
  proof -
    have "(1 + drop_bit 1 (- 1) :: size_t) = 2 ^ 63" by (simp add: mask_eq_exp_minus_1)
    then show ?thesis using assms j m unfolding n2p_def Let_def
      by (simp add: word_less_nat_alt)
  qed
  ultimately show ?thesis using m by blast
qed

lemma n2p_throws: "2 ^ 63 < unat sz \<Longrightarrow> n2p sz = throw XInvalidArgument"
proof -
  assume "2 ^ 63 < unat sz"
  moreover have "(1 + drop_bit 1 (- 1) :: size_t) = 2 ^ 63" by (simp add: mask_eq_exp_minus_1)
  ultimately show ?thesis by (simp add: n2p_def word_less_nat_alt)
qed

subsection \<open>Alignment\<close>

lemma unat_and_not_mask:
  assumes "k < 64"
  shows "unat ((x :: size_t) AND NOT (2 ^ k - 1)) = unat x div 2 ^ k * 2 ^ k"
proof -
  have "x AND NOT (2 ^ k - 1) = x AND NOT (mask k)" by (simp add: mask_eq_exp_minus_1)
  also have "\<dots> = push_bit k (drop_bit k x)" by (rule bit_word_eqI) (auto simp: bit_simps)
  also have "unat \<dots> = take_bit 64 (push_bit k (drop_bit k (unat x)))"
    using unsigned_less [where ?'a = nat, of x] by (simp add: unsigned_push_bit_eq unsigned_drop_bit_eq take_bit_nat_eq_self)
  also have "\<dots> = unat x div 2 ^ k * 2 ^ k"
  proof -
    have "unat x div 2 ^ k * 2 ^ k < 2 ^ 64"
      using unat_size_less [of x] div_times_less_eq_dividend [of "unat x" "2 ^ k"] by linarith
    then show ?thesis by (simp add: push_bit_eq_mult drop_bit_eq_div take_bit_eq_mod)
  qed
  finally show ?thesis .
qed


text \<open>\<open>adj\<close> returns the least multiple of the alignment that is not below the size.\<close>

lemma adj_ok:
  assumes "k < 64" and "unat sz + 2 ^ k \<le> 2 ^ 64"
  shows "2 ^ k dvd unat (adj sz (2 ^ k)) \<and> unat sz \<le> unat (adj sz (2 ^ k)) \<and>
    unat (adj sz (2 ^ k)) < unat sz + 2 ^ k"
proof -
  have "unat (sz + 2 ^ k - 1) = unat sz + 2 ^ k - 1"
  proof -
    have "sz + 2 ^ k - 1 = sz + (2 ^ k - 1)" by (rule add_diff_eq [symmetric])
    moreover have "unat (2 ^ k - 1 :: size_t) = 2 ^ k - 1"
      using assms(1) by (subst unat_minus_one) auto
    moreover have "0 < (2 :: nat) ^ k" by simp
    ultimately show ?thesis using assms(2) by (simp only: unat_word_ariths) (simp del: One_nat_def)
  qed
  then have e: "unat (adj sz (2 ^ k)) = (unat sz + 2 ^ k - 1) div 2 ^ k * 2 ^ k"
    using assms(1) by (simp add: adj_def unat_and_not_mask)
  have "(unat sz + 2 ^ k - 1) div 2 ^ k * 2 ^ k + (unat sz + 2 ^ k - 1) mod 2 ^ k = unat sz + 2 ^ k - 1"
    by (rule div_mult_mod_eq)
  moreover have "(unat sz + 2 ^ k - 1) mod 2 ^ k < 2 ^ k" by simp
  moreover have "0 < (2 :: nat) ^ k" by simp
  ultimately show ?thesis unfolding e by (intro conjI dvd_triv_right) linarith+
qed

subsection \<open>Growth\<close>

text \<open>\<open>gen\<close> never shrinks a size, and grows by half as long as that fits.\<close>

lemma gen_ge: "unat sz \<le> unat (gen sz)"
  by (auto simp: gen_def Let_def word_less_nat_alt)

lemma gen_ok:
  assumes "4 \<le> sz" and "unat sz + unat sz div 2 < 2 ^ 64"
  shows "unat (gen sz) = unat sz + unat sz div 2" "sz < gen sz"
proof -
  have e: "unat (sz + drop_bit 1 sz) = unat sz + unat sz div 2"
    using assms(2) by (simp only: unat_word_ariths unat_half) simp
  have "4 \<le> unat sz" using assms(1) by (simp add: word_le_nat_alt)
  then have "sz < sz + drop_bit 1 sz" using e by (simp add: word_less_nat_alt)
  then have "gen sz = sz + drop_bit 1 sz" using assms(1) by (simp add: gen_def Let_def)
  with e \<open>sz < sz + drop_bit 1 sz\<close> show "unat (gen sz) = unat sz + unat sz div 2" "sz < gen sz" by simp_all
qed

lemma gen_small: "sz < 4 \<Longrightarrow> gen sz = sz"
  by (simp add: gen_def)

end
