(* ===== verification/Fifo.thy ===== *)
theory Fifo
  imports Prelude
begin

text \<open>
  The contract of a bounded first-in first-out queue, as a locale. Its client is a run of puts and
  gets; inside the locale the run of an implementation is shown to return what the list of the
  elements prescribes, and no element is lost, duplicated or reordered.
\<close>

datatype 'a fifo_op = Put 'a | Get

datatype 'a fifo_result = Accepted bool | Got "'a option"

text \<open>A run of an implementation, given its two operations.\<close>

fun fifo_run :: "('s \<Rightarrow> 'a \<Rightarrow> ('s \<times> bool) option) \<Rightarrow> ('s \<Rightarrow> ('s \<times> 'a option) option) \<Rightarrow>
    's \<Rightarrow> 'a fifo_op list \<Rightarrow> ('s \<times> 'a fifo_result list) option" where
  "fifo_run put get s [] = Some (s, [])"
| "fifo_run put get s (Put a # ops) = do {
     (s, b) \<leftarrow> put s a;
     (s, rs) \<leftarrow> fifo_run put get s ops;
     Some (s, Accepted b # rs) }"
| "fifo_run put get s (Get # ops) = do {
     (s, x) \<leftarrow> get s;
     (s, rs) \<leftarrow> fifo_run put get s ops;
     Some (s, Got x # rs) }"

text \<open>The specification: a list that holds at most \<open>c\<close> elements.\<close>

fun fifo_spec :: "nat \<Rightarrow> 'a list \<Rightarrow> 'a fifo_op list \<Rightarrow> 'a list \<times> 'a fifo_result list" where
  "fifo_spec c xs [] = (xs, [])"
| "fifo_spec c xs (Put a # ops) =
    (if length xs < c then let (ys, rs) = fifo_spec c (xs @ [a]) ops in (ys, Accepted True # rs)
     else let (ys, rs) = fifo_spec c xs ops in (ys, Accepted False # rs))"
| "fifo_spec c xs (Get # ops) =
    (case xs of [] \<Rightarrow> let (ys, rs) = fifo_spec c [] ops in (ys, Got None # rs)
     | x # xs' \<Rightarrow> let (ys, rs) = fifo_spec c xs' ops in (ys, Got (Some x) # rs))"

text \<open>The accepted elements and the delivered ones, in order.\<close>

fun accepted :: "'a fifo_op list \<Rightarrow> 'a fifo_result list \<Rightarrow> 'a list" where
  "accepted (Put a # ops) (Accepted b # rs) = (if b then a # accepted ops rs else accepted ops rs)"
| "accepted (Get # ops) (Got x # rs) = accepted ops rs"
| "accepted _ _ = []"

fun delivered :: "'a fifo_result list \<Rightarrow> 'a list" where
  "delivered (Got (Some x) # rs) = x # delivered rs"
| "delivered (_ # rs) = delivered rs"
| "delivered [] = []"

lemma fifo_spec_conserves:
  "fifo_spec c xs ops = (ys, rs) \<Longrightarrow> xs @ accepted ops rs = delivered rs @ ys"
  by (induction c xs ops arbitrary: ys rs rule: fifo_spec.induct)
    (auto split: if_splits prod.splits list.splits simp: Let_def)

lemma fifo_spec_bound: "fifo_spec c xs ops = (ys, rs) \<Longrightarrow> length xs \<le> c \<Longrightarrow> length ys \<le> c"
  by (induction c xs ops arbitrary: ys rs rule: fifo_spec.induct)
    (auto split: if_splits prod.splits list.splits simp: Let_def)

locale fifo =
  fixes put :: "'s \<Rightarrow> 'a \<Rightarrow> ('s \<times> bool) option"
    and get :: "'s \<Rightarrow> ('s \<times> 'a option) option"
    and rep :: "nat \<Rightarrow> 's \<Rightarrow> 'a list \<Rightarrow> bool"
  assumes rep_bound: "rep c s xs \<Longrightarrow> length xs \<le> c"
    and put_room: "rep c s xs \<Longrightarrow> length xs < c \<Longrightarrow> \<exists>s'. put s a = Some (s', True) \<and> rep c s' (xs @ [a])"
    and put_full: "rep c s xs \<Longrightarrow> length xs = c \<Longrightarrow> \<exists>s'. put s a = Some (s', False) \<and> rep c s' xs"
    and get_first: "rep c s (x # xs) \<Longrightarrow> \<exists>s'. get s = Some (s', Some x) \<and> rep c s' xs"
    and get_empty: "rep c s [] \<Longrightarrow> \<exists>s'. get s = Some (s', None) \<and> rep c s' []"
begin

lemma run_refines:
  "rep c s xs \<Longrightarrow> fifo_spec c xs ops = (ys, rs) \<Longrightarrow> \<exists>s'. fifo_run put get s ops = Some (s', rs) \<and> rep c s' ys"
proof (induction c xs ops arbitrary: s ys rs rule: fifo_spec.induct)
  case (2 c xs a ops)
  show ?case
  proof (cases "length xs < c")
    case True
    obtain s' where "put s a = Some (s', True)" "rep c s' (xs @ [a])" using put_room [OF 2(3) True] by blast
    then show ?thesis using 2(1) [OF True] 2(4) True by (fastforce split: prod.splits)
  next
    case False
    then have "length xs = c" using rep_bound [OF 2(3)] by simp
    then obtain s' where "put s a = Some (s', False)" "rep c s' xs" using put_full [OF 2(3)] by blast
    then show ?thesis using 2(2) [OF False] 2(4) False by (fastforce split: prod.splits)
  qed
next
  case (3 c xs ops)
  show ?case
  proof (cases xs)
    case Nil
    then obtain s' where "get s = Some (s', None)" "rep c s' []" using get_empty 3(3) by blast
    then show ?thesis using 3(1) [OF Nil] 3(4) Nil by (fastforce split: prod.splits)
  next
    case (Cons x xs')
    then obtain s' where "get s = Some (s', Some x)" "rep c s' xs'" using get_first 3(3) by blast
    then show ?thesis using 3(2) [OF Cons] 3(4) Cons by (fastforce split: prod.splits)
  qed
qed simp

lemma run_conserves:
  assumes "rep c s xs"
  shows "\<exists>s' ys rs. fifo_run put get s ops = Some (s', rs) \<and> rep c s' ys \<and>
    xs @ accepted ops rs = delivered rs @ ys \<and> length ys \<le> c"
proof -
  obtain ys rs where f: "fifo_spec c xs ops = (ys, rs)" by fastforce
  from run_refines [OF assms f] fifo_spec_conserves [OF f] fifo_spec_bound [OF f rep_bound [OF assms]]
  show ?thesis by blast
qed

end

end
