(* ===== verification/Ring_Buffer.thy ===== *)
theory Ring_Buffer
  imports Ring_Pos Sz_Helper Fifo
begin

text \<open>
  The ring buffer of bytes: \<open>RingBufferBase\<close> and \<open>RingBuffer\<close>
  (\<open>inc/vhwd/collection/ring_buffer.h\<close>, \<open>src/vhwd/collection/collection.cpp\<close>). Positions and the
  mask are 32-bit words; \<open>int\<close> values are 32-bit words read with \<open>sint\<close>. The caller's array \<open>p\<close>
  is a block; a call that fills it returns the filled block.
\<close>

unbundle bit_operations_syntax

record ringbuffer_header =
  rd_pos :: u32
  wr_pos :: u32
  rb_mask :: u32

record ring_buffer =
  pBuffer :: "u8 list option"
  pHeader :: "ringbuffer_header option"

subsection \<open>Operations\<close>

definition rewind :: "ring_buffer \<Rightarrow> ring_buffer" where
  "rewind r = (case pHeader r of None \<Rightarrow> r
    | Some h \<Rightarrow> r\<lparr>pHeader := Some (h\<lparr>rd_pos := 0, wr_pos := 0\<rparr>)\<rparr>)"

definition wr_flip :: "ring_buffer \<Rightarrow> i32 \<Rightarrow> ring_buffer option" where
  "wr_flip r n = do { h \<leftarrow> pHeader r;
     Some (r\<lparr>pHeader := Some (h\<lparr>wr_pos := (wr_pos h + n) AND rb_mask h\<rparr>)\<rparr>) }"

definition rd_flip :: "ring_buffer \<Rightarrow> i32 \<Rightarrow> ring_buffer option" where
  "rd_flip r n = do { h \<leftarrow> pHeader r;
     Some (r\<lparr>pHeader := Some (h\<lparr>rd_pos := (rd_pos h + n) AND rb_mask h\<rparr>)\<rparr>) }"

definition rd_free :: "ring_buffer \<Rightarrow> i32 option" where
  "rd_free r = do { h \<leftarrow> pHeader r; Some ((wr_pos h - rd_pos h) AND rb_mask h) }"

definition wr_free :: "ring_buffer \<Rightarrow> i32 option" where
  "wr_free r = do { h \<leftarrow> pHeader r; Some ((rd_pos h - wr_pos h - 1) AND rb_mask h) }"

definition peek :: "ring_buffer \<Rightarrow> u8 list \<Rightarrow> i32 \<Rightarrow> (u8 list \<times> i32) option" where
  "peek r p n = do {
     h \<leftarrow> pHeader r;
     let rd = rd_pos h; let wr = wr_pos h; let kp = (wr - rd) AND rb_mask h;
     if \<not> sint kp > sint n \<and> kp = 0 then Some (p, 0)
     else do {
       let kp = (if sint kp > sint n then n else kp);
       let kn = rd + kp - rb_mask h - 1;
       b \<leftarrow> pBuffer r;
       p \<leftarrow> wrap_read p b (sint rd) (sint kp) (sint kn);
       Some (p, kp) } }"

definition recv :: "ring_buffer \<Rightarrow> u8 list \<Rightarrow> i32 \<Rightarrow> (ring_buffer \<times> u8 list \<times> i32) option" where
  "recv r p n = do {
     h \<leftarrow> pHeader r;
     let rd = rd_pos h; let wr = wr_pos h; let kp = (wr - rd) AND rb_mask h;
     if kp = 0 then Some (r, p, 0)
     else do {
       let kp = (if sint kp > sint n then n else kp);
       let kn = rd + kp - rb_mask h - 1;
       b \<leftarrow> pBuffer r;
       p \<leftarrow> wrap_read p b (sint rd) (sint kp) (sint kn);
       let rd' = (if sint kn > 0 then kn else kn AND rb_mask h);
       Some (r\<lparr>pHeader := Some (h\<lparr>rd_pos := rd'\<rparr>)\<rparr>, p, kp) } }"

definition send :: "ring_buffer \<Rightarrow> u8 list \<Rightarrow> i32 \<Rightarrow> (ring_buffer \<times> i32) option" where
  "send r p n = do {
     h \<leftarrow> pHeader r;
     let rd = rd_pos h; let wr = wr_pos h; let kp = (rd - wr - 1) AND rb_mask h;
     if sint kp \<ge> sint n then do {
       let kp = n;
       let kn = wr + kp - rb_mask h - 1;
       b \<leftarrow> pBuffer r;
       b \<leftarrow> wrap_write b p (sint wr) (sint kp) (sint kn);
       let wr' = (if sint kn > 0 then kn else kn AND rb_mask h);
       Some (r\<lparr>pBuffer := Some b, pHeader := Some (h\<lparr>wr_pos := wr'\<rparr>)\<rparr>, kp) }
     else Some (r, 0) }"

text \<open>\<open>peek(&size,2)\<close> into a \<open>uint16_t\<close> that was 0: two bytes, the low one first.\<close>

definition le16 :: "u8 list \<Rightarrow> u16" where
  "le16 bs = ucast (bs ! 0) OR push_bit 8 (ucast (bs ! 1))"

definition peek_size :: "ring_buffer \<Rightarrow> (u16 \<times> i32) option" where
  "peek_size r = do { (p, k) \<leftarrow> peek r [0, 0] 2; Some (le16 p, k) }"

definition packet_ready :: "ring_buffer \<Rightarrow> bool option" where
  "packet_ready r = do {
     (size, k) \<leftarrow> peek_size r;
     if k \<noteq> 2 then Some False
     else do { kp \<leftarrow> rd_free r; Some (sint (ucast size :: i32) \<le> sint kp) } }"

definition packet :: "ring_buffer \<Rightarrow> u8 list \<Rightarrow> i32 \<Rightarrow> (ring_buffer \<times> u8 list \<times> i32) option" where
  "packet r p n = do {
     (size, k) \<leftarrow> peek_size r;
     if k \<noteq> 2 then Some (r, p, 0)
     else do {
       kp \<leftarrow> rd_free r;
       let size = (ucast size :: i32);
       if sint size > sint kp then Some (r, p, 0)
       else if sint n < sint size then Some (r, p, - size)
       else recv r p size } }"

text \<open>\<open>RingBuffer\<close> owns its header and a block from the allocator; \<open>mp_alloc\<close> is a parameter: the
  block it returns for a size, if any.\<close>

definition ring_new :: ring_buffer where
  "ring_new = \<lparr>pBuffer = None, pHeader = Some \<lparr>rd_pos = 0, wr_pos = 0, rb_mask = 0\<rparr>\<rparr>"

definition ring_clear :: "ring_buffer \<Rightarrow> ring_buffer" where
  "ring_clear r = (if pBuffer r \<noteq> None then r\<lparr>pBuffer := None\<rparr> else r)"

definition ring_reset :: "(size_t \<Rightarrow> u8 list option) \<Rightarrow> ring_buffer \<Rightarrow> i32 \<Rightarrow> ring_buffer outcome" where
  "ring_reset mp_alloc r s = andthen (n2p (signed s)) (\<lambda>k64.
     let k = (ucast k64 :: i32) in
     case mp_alloc (signed k) of
       None \<Rightarrow> throw XBadAlloc
     | Some p \<Rightarrow> ret ((ring_clear r)\<lparr>pBuffer := Some p,
         pHeader := Some \<lparr>rd_pos = 0, wr_pos = 0, rb_mask = k - 1\<rparr>\<rparr>))"

subsection \<open>The bytes a ring holds\<close>

text \<open>\<open>holds k r xs\<close>: the block has \<open>2^k\<close> bytes, and those between the read and the write position
  are \<open>xs\<close>. One place always stays free.\<close>

definition holds :: "nat \<Rightarrow> ring_buffer \<Rightarrow> u8 list \<Rightarrow> bool" where
  "holds k r xs \<longleftrightarrow> (\<exists>h b. pHeader r = Some h \<and> pBuffer r = Some b \<and> rb_mask h = mask k \<and>
     ring_view k b (rd_pos h) (wr_pos h) xs)"

lemma holdsE:
  assumes "holds k r xs"
  obtains h b where "pHeader r = Some h" "pBuffer r = Some b" "rb_mask h = mask k"
    "ring_view k b (rd_pos h) (wr_pos h) xs"
  using assms by (auto simp: holds_def)

lemma rd_free_ok: "holds k r xs \<Longrightarrow> \<exists>n. rd_free r = Some n \<and> sint n = int (length xs)"
  by (erule holdsE) (simp add: rd_free_def ring_view_used)

lemma wr_free_ok: "holds k r xs \<Longrightarrow> \<exists>n. wr_free r = Some n \<and> sint n = int (2 ^ k - 1 - length xs)"
  by (erule holdsE) (simp add: wr_free_def ring_view_free)

lemma peek_ok:
  assumes "holds k r xs" and n: "0 \<le> sint n" and p: "sint n \<le> int (length p)"
  defines "c \<equiv> min (nat (sint n)) (length xs)"
  shows "\<exists>m. peek r p n = Some (take c xs @ drop c p, m) \<and> sint m = int c"
proof -
  obtain h b where h: "pHeader r = Some h" "pBuffer r = Some b" "rb_mask h = mask k"
    and v: "ring_view k b (rd_pos h) (wr_pos h) xs" using assms(1) by (rule holdsE)
  let ?kp = "(wr_pos h - rd_pos h) AND mask k :: i32"
  let ?m = "if sint ?kp > sint n then n else ?kp"
  have s: "sint ?kp = int (length xs)" by (rule ring_view_used [OF v])
  have m: "sint ?m = int c" using s n by (auto simp: c_def)
  show ?thesis
  proof (cases "\<not> sint ?kp > sint n \<and> ?kp = 0")
    case True
    with s have "c = 0" by (simp add: c_def)
    with True n show ?thesis by (simp add: peek_def h)
  next
    case False
    have "c \<le> length xs" "c \<le> length p" using p by (auto simp: c_def)
    then have w: "wrap_read p b (sint (rd_pos h)) (sint ?m) (sint (rd_pos h + ?m - mask k - 1)) = Some (take c xs @ drop c p)"
      by (rule ring_view_read [OF v _ _ m])
    have "peek r p n = Some (take c xs @ drop c p, ?m)"
      by (cases "sint ?kp > sint n") (use False w in \<open>simp_all add: peek_def h Let_def\<close>)
    then show ?thesis using m by blast
  qed
qed

lemma recv_ok:
  assumes "holds k r xs" and n: "0 \<le> sint n" and p: "sint n \<le> int (length p)"
  defines "c \<equiv> min (nat (sint n)) (length xs)"
  shows "\<exists>r' m. recv r p n = Some (r', take c xs @ drop c p, m) \<and> sint m = int c \<and> holds k r' (drop c xs)"
proof -
  obtain h b where h: "pHeader r = Some h" "pBuffer r = Some b" "rb_mask h = mask k"
    and v: "ring_view k b (rd_pos h) (wr_pos h) xs" using assms(1) by (rule holdsE)
  note D = ring_viewD [OF v]
  let ?kp = "(wr_pos h - rd_pos h) AND mask k :: i32"
  let ?m = "if sint ?kp > sint n then n else ?kp"
  let ?kn = "rd_pos h + ?m - mask k - 1 :: i32"
  let ?rd = "if sint ?kn > 0 then ?kn else ?kn AND mask k"
  have s: "sint ?kp = int (length xs)" by (rule ring_view_used [OF v])
  have m: "sint ?m = int c" using s n by (auto simp: c_def)
  show ?thesis
  proof (cases "?kp = 0")
    case True
    with s have "c = 0" by (simp add: c_def)
    with True assms(1) show ?thesis by (simp add: recv_def h)
  next
    case False
    have c: "c \<le> length xs" "c \<le> length p" using p by (auto simp: c_def)
    have "ring_view k b ?rd (wr_pos h) (drop c xs)"
      by (rule ring_view_advance [OF v c(1)], rule ring_view_next) (use D c m in auto)
    then have "holds k (r\<lparr>pHeader := Some (h\<lparr>rd_pos := ?rd\<rparr>)\<rparr>) (drop c xs)" by (simp add: holds_def h)
    moreover have "recv r p n = Some (r\<lparr>pHeader := Some (h\<lparr>rd_pos := ?rd\<rparr>)\<rparr>, take c xs @ drop c p, ?m)"
      by (cases "sint ?kp > sint n") (use False ring_view_read [OF v c m] in \<open>simp_all add: recv_def h Let_def\<close>)
    ultimately show ?thesis using m by blast
  qed
qed

lemma send_ok:
  assumes "holds k r xs" and n: "0 \<le> sint n" and p: "sint n \<le> int (length p)"
    and room: "length xs + nat (sint n) < 2 ^ k"
  shows "\<exists>r'. send r p n = Some (r', n) \<and> holds k r' (xs @ take (nat (sint n)) p)"
proof -
  obtain h b where h: "pHeader r = Some h" "pBuffer r = Some b" "rb_mask h = mask k"
    and v: "ring_view k b (rd_pos h) (wr_pos h) xs" using assms(1) by (rule holdsE)
  note D = ring_viewD [OF v]
  let ?c = "nat (sint n)"
  let ?kn = "wr_pos h + n - mask k - 1 :: i32"
  let ?wr = "if sint ?kn > 0 then ?kn else ?kn AND mask k"
  have c: "sint n = int ?c" "?c \<le> length p" using n p by auto
  obtain b' where b': "wrap_write b p (sint (wr_pos h)) (sint n) (sint ?kn) = Some b'"
    "\<forall>wr'. unat wr' = (unat (wr_pos h) + ?c) mod 2 ^ k \<longrightarrow> ring_view k b' (rd_pos h) wr' (xs @ take ?c p)"
    using ring_view_write [OF v room c(2,1)] by blast
  have "unat ?wr = (unat (wr_pos h) + ?c) mod 2 ^ k" using room by (intro ring_view_next D(1,4) c(1)) linarith
  with b'(2) have "holds k (r\<lparr>pBuffer := Some b', pHeader := Some (h\<lparr>wr_pos := ?wr\<rparr>)\<rparr>) (xs @ take ?c p)"
    by (simp add: holds_def h)
  moreover have "sint n \<le> sint ((rd_pos h - wr_pos h - 1) AND mask k)"
    using ring_view_free [OF v] c room by linarith
  then have "send r p n = Some (r\<lparr>pBuffer := Some b', pHeader := Some (h\<lparr>wr_pos := ?wr\<rparr>)\<rparr>, n)"
    using b'(1) by (simp add: send_def h Let_def)
  ultimately show ?thesis by blast
qed

lemma send_full:
  assumes "holds k r xs" and "2 ^ k \<le> length xs + nat (sint n)"
  shows "send r p n = Some (r, 0)"
proof -
  obtain h b where h: "pHeader r = Some h" "pBuffer r = Some b" "rb_mask h = mask k"
    and v: "ring_view k b (rd_pos h) (wr_pos h) xs" using assms(1) by (rule holdsE)
  have "\<not> sint n \<le> sint ((rd_pos h - wr_pos h - 1) AND mask k)"
    using ring_view_free [OF v] ring_viewD(6) [OF v] assms(2) by linarith
  then show ?thesis by (simp add: send_def h Let_def)
qed

subsection \<open>Positions\<close>

lemma rewind_ok: "holds k r xs \<Longrightarrow> holds k (rewind r) []"
  by (auto simp: holds_def rewind_def ring_view_def ring_dist_0)

text \<open>Writing in place and then \<open>wr_flip\<close>, reading in place and then \<open>rd_flip\<close>.\<close>

lemma unat_add_and_mask:
  assumes "k \<le> 31" shows "unat ((x + of_nat n :: u32) AND mask k) = (unat x + n) mod 2 ^ k"
proof -
  have "uint ((x + of_nat n) AND mask k) = (uint x + int n) mod 2 ^ 32 mod 2 ^ k"
    using assms by (simp add: uint_and_mask uint_word_ariths unsigned_of_nat of_nat_mod take_bit_eq_mod mod_simps)
  also have "\<dots> = int (unat x + n) mod int (2 ^ k)"
    using mod_mod_cancel [OF le_imp_power_dvd, of k 32 "uint x + int n" 2] assms by simp
  finally show ?thesis by (simp only: uint_nat of_nat_eq_iff flip: of_nat_mod)
qed

lemma rd_flip_ok:
  assumes "holds k r xs" and "n \<le> length xs"
  shows "\<exists>r'. rd_flip r (of_nat n) = Some r' \<and> holds k r' (drop n xs)"
proof -
  obtain h b where h: "pHeader r = Some h" "pBuffer r = Some b" "rb_mask h = mask k"
    and v: "ring_view k b (rd_pos h) (wr_pos h) xs" using assms(1) by (rule holdsE)
  have "ring_view k b ((rd_pos h + of_nat n) AND mask k) (wr_pos h) (drop n xs)"
    by (rule ring_view_advance [OF v assms(2)]) (simp add: unat_add_and_mask ring_viewD(1) [OF v])
  then show ?thesis by (simp add: rd_flip_def holds_def h)
qed

lemma wr_flip_ok:
  assumes "holds k r xs" and "pBuffer r = Some b" and "length ys + length xs < 2 ^ k"
    and "length b' = length b" and "pHeader r = Some h"
    and "rotate (unat (wr_pos h)) b' = ys @ drop (length ys) (rotate (unat (wr_pos h)) b)"
  shows "\<exists>r'. wr_flip (r\<lparr>pBuffer := Some b'\<rparr>) (of_nat (length ys)) = Some r' \<and> holds k r' (xs @ ys)"
proof -
  have h: "rb_mask h = mask k" and v: "ring_view k b (rd_pos h) (wr_pos h) xs"
    using assms(1,2,5) by (auto simp: holds_def)
  have "ring_view k b' (rd_pos h) ((wr_pos h + of_nat (length ys)) AND mask k) (xs @ ys)"
    by (rule ring_view_append [OF v]) (use assms ring_viewD(1) [OF v] in \<open>simp_all add: unat_add_and_mask\<close>)
  then show ?thesis by (simp add: wr_flip_def holds_def h assms)
qed

subsection \<open>Allocation\<close>

lemma unat_signed:
  assumes "0 \<le> sint (s :: i32)"
  shows "unat (signed s :: size_t) = nat (sint s)"
proof -
  have l: "sint s < 2 ^ 31" using sint_lt [of s] by simp
  then have "nat (sint s) < 2 ^ 64" using assms by (simp add: nat_less_iff)
  moreover have "(signed s :: size_t) = of_nat (nat (sint s))" using assms by simp
  ultimately show ?thesis by (simp only: unsigned_of_nat) (simp add: take_bit_nat_eq_self)
qed

lemma reset_ok:
  assumes s: "0 \<le> sint s" "sint s \<le> 2 ^ 30" and alloc: "\<And>n p. mp_alloc n = Some p \<Longrightarrow> length p = unat n"
  shows "\<exists>k \<le> 30. nat (sint s) \<le> 2 ^ k \<and> (\<forall>i. nat (sint s) \<le> 2 ^ i \<longrightarrow> k \<le> i) \<and>
    (mp_alloc (2 ^ k) = None \<and> ring_reset mp_alloc r s = throw XBadAlloc \<or>
     (\<exists>r'. ring_reset mp_alloc r s = ret r' \<and> holds k r' []))"
proof -
  have u: "unat (signed s :: size_t) = nat (sint s)" by (rule unat_signed) fact
  have n30: "nat (sint s) \<le> 2 ^ 30" using s(2) by simp
  have n63: "nat (sint s) \<le> 2 ^ 63" using n30 by (rule order_trans) simp
  obtain k where k: "n2p (signed s) = ret (2 ^ k)" "nat (sint s) \<le> 2 ^ k" "\<forall>i. nat (sint s) \<le> 2 ^ i \<longrightarrow> k \<le> i"
    using n2p_ok [of "signed s"] n63 unfolding u by blast
  have k30: "k \<le> 30" using k(3) n30 by blast
  have "ucast (2 ^ k :: size_t) = (2 ^ k :: i32)" by (rule bit_word_eqI) (auto simp: bit_simps)
  moreover have "signed (2 ^ k :: i32) = (2 ^ k :: size_t)"
    using k30 by (intro bit_word_eqI) (auto simp: bit_simps min_def split: if_splits)
  ultimately have r: "ring_reset mp_alloc r s = (case mp_alloc (2 ^ k) of None \<Rightarrow> throw XBadAlloc
     | Some p \<Rightarrow> ret ((ring_clear r)\<lparr>pBuffer := Some p, pHeader := Some \<lparr>rd_pos = 0, wr_pos = 0, rb_mask = 2 ^ k - 1\<rparr>\<rparr>))"
    by (simp add: ring_reset_def k(1))
  show ?thesis
  proof (cases "mp_alloc (2 ^ k)")
    case None
    with r k k30 show ?thesis by auto
  next
    case (Some p)
    have "length p = 2 ^ k" using alloc [OF Some] k30 by simp
    then have "holds k ((ring_clear r)\<lparr>pBuffer := Some p, pHeader := Some \<lparr>rd_pos = 0, wr_pos = 0, rb_mask = 2 ^ k - 1\<rparr>\<rparr>) []"
      using k30 by (simp add: holds_def ring_view_def ring_dist_0 mask_eq_exp_minus_1)
    with r Some k k30 show ?thesis by auto
  qed
qed

lemma reset_negative:
  assumes "sint s < 0"
  shows "ring_reset mp_alloc r s = throw XInvalidArgument"
proof -
  have "- (2 ^ 31) \<le> sint s" using sint_ge [of s] by simp
  moreover have "(signed s :: size_t) = word_of_int (sint s)" by simp
  then have "uint (signed s :: size_t) = sint s mod 2 ^ 64" by (simp only: uint_word_of_int) simp
  moreover have "sint s mod 2 ^ 64 = sint s + 2 ^ 64"
    using assms \<open>- (2 ^ 31) \<le> sint s\<close> by (subst mod_add_self2 [symmetric], intro mod_pos_pos_trivial) simp_all
  ultimately have "int (2 ^ 63) < int (unat (signed s :: size_t))" by simp
  then have "2 ^ 63 < unat (signed s :: size_t)" by (simp only: of_nat_less_iff)
  then show ?thesis by (simp add: ring_reset_def n2p_throws)
qed

subsection \<open>Packets\<close>

text \<open>The length a packet claims: its first two bytes.\<close>

definition packet_size :: "u8 list \<Rightarrow> nat" where
  "packet_size xs = unat (le16 xs)"

lemma sint_inject: "sint (a :: i32) = sint b \<longleftrightarrow> a = b"
proof
  assume "sint a = sint b"
  then have "(of_int (sint a) :: i32) = of_int (sint b)" by simp
  then show "a = b" by simp
qed simp

lemma sint_ucast_u16: "sint (ucast (w :: u16) :: i32) = int (unat w)"
proof -
  have w: "unat w < 2 ^ 16" using unsigned_less [where ?'a = nat, of w] by simp
  then have "unat (ucast w :: i32) = unat w" by (simp add: unsigned_ucast_eq take_bit_nat_eq_self)
  then show ?thesis using w by (simp add: sint_small)
qed

lemma peek_size_ok:
  assumes "holds k r xs"
  shows "\<exists>sz m. peek_size r = Some (sz, m) \<and> (m = 2 \<longleftrightarrow> 2 \<le> length xs) \<and> (2 \<le> length xs \<longrightarrow> unat sz = packet_size xs)"
proof -
  obtain m where m: "peek r [0, 0] 2 = Some (take (min 2 (length xs)) xs @ drop (min 2 (length xs)) [0, 0], m)"
    "sint m = int (min 2 (length xs))" using peek_ok [OF assms, of 2 "[0, 0]"] by auto
  have "m = 2 \<longleftrightarrow> sint m = 2" using sint_inject [of m 2] by simp
  then have "m = 2 \<longleftrightarrow> 2 \<le> length xs" using m(2) by auto
  moreover have "2 \<le> length xs \<Longrightarrow> le16 (take (min 2 (length xs)) xs @ drop (min 2 (length xs)) [0, 0]) = le16 xs"
    by (simp add: le16_def min_absorb1 nth_append)
  ultimately show ?thesis using m(1) by (auto simp: peek_size_def packet_size_def)
qed

lemma packet_ready_ok:
  assumes "holds k r xs"
  shows "packet_ready r = Some (2 \<le> length xs \<and> packet_size xs \<le> length xs)"
  using peek_size_ok [OF assms] rd_free_ok [OF assms]
  by (auto simp: packet_ready_def sint_ucast_u16)

lemma packet_ok:
  assumes "holds k r xs" and "0 \<le> sint n" and "sint n \<le> int (length p)"
  shows "if length xs < 2 \<or> length xs < packet_size xs then packet r p n = Some (r, p, 0)
    else if nat (sint n) < packet_size xs then \<exists>m. packet r p n = Some (r, p, m) \<and> sint m = - int (packet_size xs)
    else \<exists>r' m. packet r p n = Some (r', take (packet_size xs) xs @ drop (packet_size xs) p, m) \<and>
      sint m = int (packet_size xs) \<and> holds k r' (drop (packet_size xs) xs)"
proof -
  obtain sz m where s: "peek_size r = Some (sz, m)" "m = 2 \<longleftrightarrow> 2 \<le> length xs"
    "2 \<le> length xs \<longrightarrow> unat sz = packet_size xs" using peek_size_ok [OF assms(1)] by blast
  obtain kp where kp: "rd_free r = Some kp" "sint kp = int (length xs)" using rd_free_ok [OF assms(1)] by blast
  let ?s = "ucast sz :: i32"
  note u = sint_ucast_u16 [of sz]
  have neg: "sint (- ?s) = - sint ?s"
  proof -
    have "int (unat sz) < 2 ^ 16" using unsigned_less [where ?'a = int, of sz] by simp
    moreover have "0 \<le> int (unat sz)" "(2 :: int) ^ 16 < 2 ^ 31" by simp_all
    ultimately have "sint (word_of_int (- sint ?s) :: i32) = - sint ?s" unfolding u by (intro sint_word_of_int) linarith+
    moreover have "- x = word_of_int (- sint x)" for x :: i32 by simp
    then have "- ?s = word_of_int (- sint ?s)" .
    ultimately show ?thesis by (simp only:)
  qed
  have recv: "\<exists>r' m. recv r p ?s = Some (r', take (packet_size xs) xs @ drop (packet_size xs) p, m) \<and>
      sint m = int (packet_size xs) \<and> holds k r' (drop (packet_size xs) xs)"
    if "2 \<le> length xs" "packet_size xs \<le> length xs" "packet_size xs \<le> nat (sint n)"
    using recv_ok [OF assms(1), of ?s p] that s(3) assms(2,3) by (simp add: u min_absorb1)
  show ?thesis
  proof (cases "length xs < 2 \<or> length xs < packet_size xs")
    case True
    then show ?thesis using s kp by (auto simp: packet_def u)
  next
    case False
    show ?thesis
    proof (cases "nat (sint n) < packet_size xs")
      case True
      then have "packet r p n = Some (r, p, - ?s)" using False s kp assms(2) by (auto simp: packet_def u Let_def)
      then show ?thesis using False True neg s(3) by (simp add: u)
    next
      case f: False
      then have "packet r p n = recv r p ?s" using False s kp assms(2) by (auto simp: packet_def u Let_def)
      then show ?thesis using False f recv by simp
    qed
  qed
qed

subsection \<open>One byte at a time: the queue contract\<close>

definition ring_put :: "ring_buffer \<Rightarrow> u8 \<Rightarrow> (ring_buffer \<times> bool) option" where
  "ring_put r a = do { (r, m) \<leftarrow> send r [a] 1; Some (r, m = 1) }"

definition ring_get :: "ring_buffer \<Rightarrow> (ring_buffer \<times> u8 option) option" where
  "ring_get r = do { (r, p, m) \<leftarrow> recv r [0] 1; Some (r, if m = 1 then Some (p ! 0) else None) }"

definition ring_rep :: "nat \<Rightarrow> ring_buffer \<Rightarrow> u8 list \<Rightarrow> bool" where
  "ring_rep c r xs \<longleftrightarrow> (\<exists>k. c = 2 ^ k - 1 \<and> holds k r xs)"

lemma holds_bound: "holds k r xs \<Longrightarrow> length xs \<le> 2 ^ k - 1"
  by (erule holdsE) (drule ring_viewD(6), simp)

lemma sint_1: "sint (1 :: i32) = 1"
  by simp

lemma sint_eq_1: "sint (m :: i32) = 1 \<longleftrightarrow> m = 1"
  using sint_inject [of m 1] by simp

interpretation ring: fifo ring_put ring_get ring_rep
proof
  show "ring_rep c r xs \<Longrightarrow> length xs \<le> c" for c r xs
    by (auto simp: ring_rep_def dest: holds_bound)
  show "\<exists>r'. ring_put r a = Some (r', True) \<and> ring_rep c r' (xs @ [a])"
    if "ring_rep c r xs" "length xs < c" for c r xs a
    using that send_ok [where n = 1 and p = "[a]" and r = r and xs = xs] by (fastforce simp: ring_rep_def ring_put_def sint_1)
  show "\<exists>r'. ring_put r a = Some (r', False) \<and> ring_rep c r' xs"
    if "ring_rep c r xs" "length xs = c" for c r xs a
    using that send_full [where n = 1 and p = "[a]" and r = r and xs = xs] by (fastforce simp: ring_rep_def ring_put_def sint_1)
  show "\<exists>r'. ring_get r = Some (r', Some x) \<and> ring_rep c r' xs"
    if "ring_rep c r (x # xs)" for c r x xs
    using that recv_ok [where n = 1 and p = "[0]" and r = r and xs = "x # xs"]
    by (fastforce simp: ring_rep_def ring_get_def sint_1 sint_eq_1)
  show "\<exists>r'. ring_get r = Some (r', None) \<and> ring_rep c r' []" if "ring_rep c r []" for c r
    using that recv_ok [where n = 1 and p = "[0]" and r = r and xs = "[]"]
    by (fastforce simp: ring_rep_def ring_get_def sint_1)
qed

end
