(* ===== verification/Srsw_Queue.thy ===== *)
theory Srsw_Queue
  imports Ring_Pos Fifo Vhwd_Exception
begin

text \<open>
  The queue for one reader and one writer: \<open>SRSW_Queue\<close> (\<open>inc/vhwd/collection/lockfree_queue.h\<close>).
  First the block \<open>SRSW_queue_impl\<close> with \<open>push\<close> and \<open>popq\<close>, run one after the other and run as two
  threads whose accesses to the shared positions and the array interleave; then the handles that
  share blocks by counting references.
\<close>

record 'a srsw_impl =
  dfun :: bool \<comment> \<open>whether a function that frees the block is set\<close>
  nref :: int
  q_size :: size_t
  rd_pos :: size_t
  wr_pos :: size_t
  data :: "'a list"

text \<open>\<open>data[i]\<close> and \<open>data[i]=t\<close>.\<close>

definition data_get :: "'a srsw_impl \<Rightarrow> size_t \<Rightarrow> 'a option" where
  "data_get q i = (if unat i < length (data q) then Some (data q ! unat i) else None)"

definition data_set :: "'a srsw_impl \<Rightarrow> size_t \<Rightarrow> 'a \<Rightarrow> 'a srsw_impl option" where
  "data_set q i t = (if unat i < length (data q) then Some (q\<lparr>data := (data q)[unat i := t]\<rparr>) else None)"

definition push :: "'a srsw_impl \<Rightarrow> 'a \<Rightarrow> ('a srsw_impl \<times> bool) option" where
  "push q t = (let wr2 = (wr_pos q + 1) mod q_size q in
     if wr2 = rd_pos q then Some (q, False)
     else do {
       q \<leftarrow> data_set q (wr_pos q) t;
       Some (q\<lparr>wr_pos := wr2\<rparr>, True) })"

definition popq :: "'a srsw_impl \<Rightarrow> ('a srsw_impl \<times> 'a option) option" where
  "popq q = (if rd_pos q = wr_pos q then Some (q, None)
     else do {
       t \<leftarrow> data_get q (rd_pos q);
       Some (q\<lparr>rd_pos := (rd_pos q + 1) mod q_size q\<rparr>, Some t) })"

subsection \<open>One operation at a time\<close>

definition srsw_holds :: "'a srsw_impl \<Rightarrow> 'a list \<Rightarrow> bool" where
  "srsw_holds q xs \<longleftrightarrow> length (data q) = unat (q_size q) \<and>
     pos_view (data q) (unat (rd_pos q)) (unat (wr_pos q)) xs"

lemma unat_next:
  assumes "unat p < unat (n :: size_t)"
  shows "unat ((p + 1) mod n) = (unat p + 1) mod unat n"
proof -
  have "unat n < 2 ^ 64" using unsigned_less [where ?'a = nat, of n] by simp
  then have "unat (p + 1) = unat p + 1" using assms by (simp add: unat_word_ariths)
  then show ?thesis by (simp add: unat_mod_distrib)
qed

lemma srsw_bound: "srsw_holds q xs \<Longrightarrow> length xs \<le> unat (q_size q) - 1"
  using pos_view_bound [of "data q"] by (fastforce simp: srsw_holds_def)

lemma srsw_full: "srsw_holds q xs \<Longrightarrow> (wr_pos q + 1) mod q_size q = rd_pos q \<longleftrightarrow> length xs = unat (q_size q) - 1"
  using pos_view_full [of "data q"] pos_view_bound [of "data q"]
  by (fastforce simp: srsw_holds_def unat_next word_eq_iff_unsigned [where ?'a = nat])

lemma srsw_empty: "srsw_holds q xs \<Longrightarrow> rd_pos q = wr_pos q \<longleftrightarrow> xs = []"
  using pos_view_empty [of "data q"] by (auto simp: srsw_holds_def word_eq_iff_unsigned [where ?'a = nat])

lemma push_room:
  assumes "srsw_holds q xs" and "length xs < unat (q_size q) - 1"
  shows "\<exists>q'. push q t = Some (q', True) \<and> srsw_holds q' (xs @ [t]) \<and> q_size q' = q_size q"
  using assms srsw_full [OF assms(1)] pos_view_push [of "data q" "unat (rd_pos q)" "unat (wr_pos q)" xs t]
    pos_view_bound [of "data q" "unat (rd_pos q)" "unat (wr_pos q)" xs]
  by (simp add: push_def Let_def data_set_def srsw_holds_def unat_next)

lemma push_full: "srsw_holds q xs \<Longrightarrow> length xs = unat (q_size q) - 1 \<Longrightarrow> push q t = Some (q, False)"
  using srsw_full [of q xs] by (simp add: push_def Let_def)

lemma popq_first:
  assumes "srsw_holds q (x # xs)"
  shows "\<exists>q'. popq q = Some (q', Some x) \<and> srsw_holds q' xs \<and> q_size q' = q_size q"
  using assms srsw_empty [OF assms] pos_view_pop [of "data q" "unat (rd_pos q)" "unat (wr_pos q)" x xs]
    pos_view_head [of "data q" "unat (rd_pos q)" "unat (wr_pos q)" x xs]
    pos_view_bound [of "data q" "unat (rd_pos q)" "unat (wr_pos q)" "x # xs"]
  by (simp add: popq_def data_get_def srsw_holds_def unat_next)

lemma popq_empty: "srsw_holds q [] \<Longrightarrow> popq q = Some (q, None)"
  using srsw_empty [of q "[]"] by (simp add: popq_def)

definition srsw_rep :: "nat \<Rightarrow> 'a srsw_impl \<Rightarrow> 'a list \<Rightarrow> bool" where
  "srsw_rep c q xs \<longleftrightarrow> srsw_holds q xs \<and> c = unat (q_size q) - 1"

interpretation srsw: fifo push popq srsw_rep
proof
  show "length xs \<le> c" if "srsw_rep c q xs" for c and q :: "'a srsw_impl" and xs
    using that srsw_bound by (auto simp: srsw_rep_def)
  show "\<exists>q'. push q a = Some (q', True) \<and> srsw_rep c q' (xs @ [a])"
    if "srsw_rep c q xs" "length xs < c" for c xs a and q :: "'a srsw_impl"
    using that push_room [of q xs a] by (auto simp: srsw_rep_def)
  show "\<exists>q'. push q a = Some (q', False) \<and> srsw_rep c q' xs"
    if "srsw_rep c q xs" "length xs = c" for c xs a and q :: "'a srsw_impl"
    using that push_full [of q xs a] by (auto simp: srsw_rep_def)
  show "\<exists>q'. popq q = Some (q', Some x) \<and> srsw_rep c q' xs"
    if "srsw_rep c q (x # xs)" for c x xs and q :: "'a srsw_impl"
    using that popq_first [of q x xs] by (auto simp: srsw_rep_def)
  show "\<exists>q'. popq q = Some (q', None) \<and> srsw_rep c q' []" if "srsw_rep c q []" for c and q :: "'a srsw_impl"
    using that popq_empty [of q] by (auto simp: srsw_rep_def)
qed

subsection \<open>Two threads\<close>

text \<open>
  The writer runs \<open>push\<close> and the reader \<open>popq\<close>, over and over. Each access to shared memory is a
  step of its own: the test of the positions, the access to the array, and the store of the new
  position; the steps of the two threads interleave in any order. \<open>pushed\<close> and \<open>popped\<close> record
  the elements whose \<open>push\<close> and \<open>popq\<close> have returned \<open>true\<close>.
\<close>

datatype 'a writer_pc = W_idle | W_tested 'a size_t | W_stored 'a size_t

datatype 'a reader_pc = R_idle | R_tested | R_loaded 'a

record 'a srsw_state =
  queue :: "'a srsw_impl"
  writer :: "'a writer_pc"
  reader :: "'a reader_pc"
  pushed :: "'a list"
  popped :: "'a list"

inductive srsw_step :: "'a srsw_state \<Rightarrow> 'a srsw_state \<Rightarrow> bool" where
  push_refused: "writer s = W_idle \<Longrightarrow> (wr_pos (queue s) + 1) mod q_size (queue s) = rd_pos (queue s) \<Longrightarrow>
    srsw_step s s"
| push_test: "writer s = W_idle \<Longrightarrow> wr2 = (wr_pos (queue s) + 1) mod q_size (queue s) \<Longrightarrow> wr2 \<noteq> rd_pos (queue s) \<Longrightarrow>
    srsw_step s (s\<lparr>writer := W_tested t wr2\<rparr>)"
| push_store: "writer s = W_tested t wr2 \<Longrightarrow> data_set (queue s) (wr_pos (queue s)) t = Some q \<Longrightarrow>
    srsw_step s (s\<lparr>queue := q, writer := W_stored t wr2\<rparr>)"
| push_publish: "writer s = W_stored t wr2 \<Longrightarrow>
    srsw_step s (s\<lparr>queue := (queue s)\<lparr>wr_pos := wr2\<rparr>, writer := W_idle, pushed := pushed s @ [t]\<rparr>)"
| popq_refused: "reader s = R_idle \<Longrightarrow> rd_pos (queue s) = wr_pos (queue s) \<Longrightarrow> srsw_step s s"
| popq_test: "reader s = R_idle \<Longrightarrow> rd_pos (queue s) \<noteq> wr_pos (queue s) \<Longrightarrow>
    srsw_step s (s\<lparr>reader := R_tested\<rparr>)"
| popq_load: "reader s = R_tested \<Longrightarrow> data_get (queue s) (rd_pos (queue s)) = Some t \<Longrightarrow>
    srsw_step s (s\<lparr>reader := R_loaded t\<rparr>)"
| popq_publish: "reader s = R_loaded t \<Longrightarrow>
    srsw_step s (s\<lparr>queue := (queue s)\<lparr>rd_pos := (rd_pos (queue s) + 1) mod q_size (queue s)\<rparr>,
      reader := R_idle, popped := popped s @ [t]\<rparr>)"

text \<open>A fresh queue of \<open>n\<close> places, whatever the array contains.\<close>

definition srsw_start :: "'a srsw_impl \<Rightarrow> 'a srsw_state" where
  "srsw_start q = \<lparr>queue = q, writer = W_idle, reader = R_idle, pushed = [], popped = []\<rparr>"

definition srsw_init :: "'a list \<Rightarrow> bool \<Rightarrow> 'a srsw_impl" where
  "srsw_init d f = \<lparr>dfun = f, nref = 0, q_size = of_nat (length d), rd_pos = 0, wr_pos = 0, data = d\<rparr>"

text \<open>The invariant: what is in the ring is what has been pushed and not yet popped; a writer
  past its test has room, and a stored element waits in the free place; a reader past its test
  has an element, and a loaded one is the first.\<close>

definition srsw_inv :: "'a srsw_state \<Rightarrow> bool" where
  "srsw_inv s \<longleftrightarrow> (\<exists>xs. srsw_holds (queue s) xs \<and> pushed s = popped s @ xs \<and>
     (case writer s of W_idle \<Rightarrow> True
      | W_tested t wr2 \<Rightarrow> wr2 = (wr_pos (queue s) + 1) mod q_size (queue s) \<and> length xs < unat (q_size (queue s)) - 1
      | W_stored t wr2 \<Rightarrow> wr2 = (wr_pos (queue s) + 1) mod q_size (queue s) \<and> length xs < unat (q_size (queue s)) - 1 \<and>
          data (queue s) ! unat (wr_pos (queue s)) = t) \<and>
     (case reader s of R_idle \<Rightarrow> True | R_tested \<Rightarrow> xs \<noteq> [] | R_loaded t \<Rightarrow> xs \<noteq> [] \<and> t = hd xs))"

lemma srsw_inv_init:
  assumes "d \<noteq> []" and "length d < 2 ^ 64"
  shows "srsw_holds (srsw_init d f) [] \<and> q_size (srsw_init d f) = of_nat (length d) \<and> srsw_inv (srsw_start (srsw_init d f))"
proof -
  have "unat (of_nat (length d) :: size_t) = length d"
    using assms(2) by (simp add: unsigned_of_nat take_bit_nat_eq_self)
  then have "srsw_holds (srsw_init d f) []" using assms(1) pos_view_new [of d] by (simp add: srsw_holds_def srsw_init_def)
  then show ?thesis by (auto simp: srsw_inv_def srsw_start_def srsw_init_def)
qed

lemma srsw_inv_cases:
  assumes "srsw_inv s"
  obtains xs where "srsw_holds (queue s) xs" "pushed s = popped s @ xs"
    "\<And>t wr2. writer s = W_tested t wr2 \<Longrightarrow> wr2 = (wr_pos (queue s) + 1) mod q_size (queue s) \<and> length xs < unat (q_size (queue s)) - 1"
    "\<And>t wr2. writer s = W_stored t wr2 \<Longrightarrow> wr2 = (wr_pos (queue s) + 1) mod q_size (queue s) \<and>
        length xs < unat (q_size (queue s)) - 1 \<and> data (queue s) ! unat (wr_pos (queue s)) = t"
    "reader s = R_tested \<Longrightarrow> xs \<noteq> []" "\<And>t. reader s = R_loaded t \<Longrightarrow> xs \<noteq> [] \<and> t = hd xs"
proof -
  obtain xs where "srsw_holds (queue s) xs" "pushed s = popped s @ xs"
    "case writer s of W_idle \<Rightarrow> True
      | W_tested t wr2 \<Rightarrow> wr2 = (wr_pos (queue s) + 1) mod q_size (queue s) \<and> length xs < unat (q_size (queue s)) - 1
      | W_stored t wr2 \<Rightarrow> wr2 = (wr_pos (queue s) + 1) mod q_size (queue s) \<and> length xs < unat (q_size (queue s)) - 1 \<and>
          data (queue s) ! unat (wr_pos (queue s)) = t"
    "case reader s of R_idle \<Rightarrow> True | R_tested \<Rightarrow> xs \<noteq> [] | R_loaded t \<Rightarrow> xs \<noteq> [] \<and> t = hd xs"
    using assms unfolding srsw_inv_def by blast
  then show thesis by (intro that [of xs]) (auto split: writer_pc.splits reader_pc.splits)
qed

lemma srsw_inv_step: "srsw_step s s' \<Longrightarrow> srsw_inv s \<Longrightarrow> srsw_inv s'"
proof (induction rule: srsw_step.induct)
  case (push_test s wr2 t)
  then obtain xs where xs: "srsw_holds (queue s) xs" "pushed s = popped s @ xs"
    "reader s = R_tested \<Longrightarrow> xs \<noteq> []" "\<And>t. reader s = R_loaded t \<Longrightarrow> xs \<noteq> [] \<and> t = hd xs"
    by (auto elim: srsw_inv_cases)
  moreover have "length xs < unat (q_size (queue s)) - 1"
    using push_test(2,3) srsw_full [OF xs(1)] srsw_bound [OF xs(1)] by (metis le_neq_implies_less)
  ultimately show ?case using push_test(2) unfolding srsw_inv_def
    by (intro exI [of _ xs]) (auto split: reader_pc.splits)
next
  case (push_store s t wr2 q)
  then obtain xs where xs: "srsw_holds (queue s) xs" "pushed s = popped s @ xs"
    "wr2 = (wr_pos (queue s) + 1) mod q_size (queue s)" "length xs < unat (q_size (queue s)) - 1"
    "reader s = R_tested \<Longrightarrow> xs \<noteq> []" "\<And>t. reader s = R_loaded t \<Longrightarrow> xs \<noteq> [] \<and> t = hd xs"
    by (elim srsw_inv_cases) auto
  have q: "q = (queue s)\<lparr>data := (data (queue s))[unat (wr_pos (queue s)) := t]\<rparr>" "unat (wr_pos (queue s)) < length (data (queue s))"
    using push_store(2) by (auto simp: data_set_def split: if_splits)
  have "srsw_holds q xs" using xs(1) pos_view_store by (auto simp: srsw_holds_def q)
  then show ?case using xs q unfolding srsw_inv_def
    by (intro exI [of _ xs]) (auto split: reader_pc.splits)
next
  case (push_publish s t wr2)
  then obtain xs where xs: "srsw_holds (queue s) xs" "pushed s = popped s @ xs"
    "wr2 = (wr_pos (queue s) + 1) mod q_size (queue s)" "length xs < unat (q_size (queue s)) - 1"
    "data (queue s) ! unat (wr_pos (queue s)) = t"
    "reader s = R_tested \<Longrightarrow> xs \<noteq> []" "\<And>t. reader s = R_loaded t \<Longrightarrow> xs \<noteq> [] \<and> t = hd xs"
    by (elim srsw_inv_cases) auto
  have "srsw_holds ((queue s)\<lparr>wr_pos := wr2\<rparr>) (xs @ [t])"
    using xs pos_view_publish pos_view_bound by (fastforce simp: srsw_holds_def unat_next)
  then show ?case using xs unfolding srsw_inv_def
    by (intro exI [of _ "xs @ [t]"]) (auto split: reader_pc.splits simp: hd_append)
next
  case (popq_test s)
  then obtain xs where xs: "srsw_holds (queue s) xs" "pushed s = popped s @ xs"
    "\<And>t wr2. writer s = W_tested t wr2 \<Longrightarrow> wr2 = (wr_pos (queue s) + 1) mod q_size (queue s) \<and> length xs < unat (q_size (queue s)) - 1"
    "\<And>t wr2. writer s = W_stored t wr2 \<Longrightarrow> wr2 = (wr_pos (queue s) + 1) mod q_size (queue s) \<and>
        length xs < unat (q_size (queue s)) - 1 \<and> data (queue s) ! unat (wr_pos (queue s)) = t"
    by (auto elim: srsw_inv_cases)
  moreover have "xs \<noteq> []" using popq_test(2) srsw_empty [OF xs(1)] by simp
  ultimately show ?case unfolding srsw_inv_def
    by (intro exI [of _ xs]) (auto split: writer_pc.splits)
next
  case (popq_load s t)
  then obtain xs where xs: "srsw_holds (queue s) xs" "pushed s = popped s @ xs" "xs \<noteq> []"
    "\<And>t wr2. writer s = W_tested t wr2 \<Longrightarrow> wr2 = (wr_pos (queue s) + 1) mod q_size (queue s) \<and> length xs < unat (q_size (queue s)) - 1"
    "\<And>t wr2. writer s = W_stored t wr2 \<Longrightarrow> wr2 = (wr_pos (queue s) + 1) mod q_size (queue s) \<and>
        length xs < unat (q_size (queue s)) - 1 \<and> data (queue s) ! unat (wr_pos (queue s)) = t"
    by (elim srsw_inv_cases) auto
  moreover have "t = hd xs"
  proof -
    have "data (queue s) ! unat (rd_pos (queue s)) = hd xs"
      using xs(1,3) pos_view_head by (cases xs) (auto simp: srsw_holds_def)
    then show ?thesis using popq_load(2) by (simp add: data_get_def split: if_splits)
  qed
  ultimately show ?case unfolding srsw_inv_def
    by (intro exI [of _ xs]) (auto split: writer_pc.splits)
next
  case (popq_publish s t)
  then obtain xs where xs: "srsw_holds (queue s) xs" "pushed s = popped s @ xs" "xs \<noteq> [] \<and> t = hd xs"
    "\<And>t wr2. writer s = W_tested t wr2 \<Longrightarrow> wr2 = (wr_pos (queue s) + 1) mod q_size (queue s) \<and> length xs < unat (q_size (queue s)) - 1"
    "\<And>t wr2. writer s = W_stored t wr2 \<Longrightarrow> wr2 = (wr_pos (queue s) + 1) mod q_size (queue s) \<and>
        length xs < unat (q_size (queue s)) - 1 \<and> data (queue s) ! unat (wr_pos (queue s)) = t"
    by (elim srsw_inv_cases) auto
  then obtain ys where ys: "xs = t # ys" by (cases xs) auto
  have "srsw_holds ((queue s)\<lparr>rd_pos := (rd_pos (queue s) + 1) mod q_size (queue s)\<rparr>) ys"
    using xs(1) ys pos_view_pop pos_view_bound by (fastforce simp: srsw_holds_def unat_next)
  moreover have l: "length ys < length xs" by (simp add: ys)
  have "wr2 = (wr_pos (queue s) + 1) mod q_size (queue s) \<and> length ys < unat (q_size (queue s)) - 1"
    if "writer s = W_tested u wr2" for u wr2 using xs(4) [OF that] l by auto
  moreover have "wr2 = (wr_pos (queue s) + 1) mod q_size (queue s) \<and> length ys < unat (q_size (queue s)) - 1 \<and>
      data (queue s) ! unat (wr_pos (queue s)) = u"
    if "writer s = W_stored u wr2" for u wr2 using xs(5) [OF that] l by auto
  moreover have "pushed s = (popped s @ [t]) @ ys" using xs(2) ys by simp
  ultimately show ?case unfolding srsw_inv_def
    by (intro exI [of _ ys]) (simp split: writer_pc.splits)
qed simp_all

lemma srsw_inv_reachable: "srsw_step\<^sup>*\<^sup>* s s' \<Longrightarrow> srsw_inv s \<Longrightarrow> srsw_inv s'"
  by (induction rule: rtranclp_induct) (auto intro: srsw_inv_step)

text \<open>While the writer is about to store and the reader about to load, they are at different places.\<close>

lemma srsw_no_race:
  assumes "srsw_inv s" and "writer s = W_tested t wr2" and "reader s = R_tested"
  shows "wr_pos (queue s) \<noteq> rd_pos (queue s)"
proof -
  obtain xs where "srsw_holds (queue s) xs" "xs \<noteq> []" using assms by (elim srsw_inv_cases) auto
  then show ?thesis using srsw_empty by metis
qed

subsection \<open>Handles\<close>

text \<open>\<open>SRSW_Queue\<close> objects share blocks. A handle is a number; the block at an address is freed,
  by its \<open>dfun\<close>, when the last handle lets go of it.\<close>

record 'a srsw_heap =
  impls :: "addr \<Rightarrow> 'a srsw_impl option"
  handles :: "nat \<Rightarrow> ptr"

definition add_ref :: "'a srsw_heap \<Rightarrow> ptr \<Rightarrow> 'a srsw_heap option" where
  "add_ref st p = (case p of None \<Rightarrow> Some st
     | Some a \<Rightarrow> do { i \<leftarrow> impls st a; Some (st\<lparr>impls := (impls st)(a \<mapsto> i\<lparr>nref := nref i + 1\<rparr>)\<rparr>) })"

definition drop_ref :: "'a srsw_heap \<Rightarrow> ptr \<Rightarrow> 'a srsw_heap option" where
  "drop_ref st p = (case p of None \<Rightarrow> Some st
     | Some a \<Rightarrow> do { i \<leftarrow> impls st a;
         let i = i\<lparr>nref := nref i - 1\<rparr>;
         if nref i = 0 \<and> dfun i then Some (st\<lparr>impls := (impls st)(a := None)\<rparr>)
         else Some (st\<lparr>impls := (impls st)(a \<mapsto> i)\<rparr>) })"

definition reset_ptr :: "'a srsw_heap \<Rightarrow> nat \<Rightarrow> ptr \<Rightarrow> 'a srsw_heap option" where
  "reset_ptr st h p = do {
     st \<leftarrow> add_ref st p;
     st \<leftarrow> drop_ref st (handles st h);
     Some (st\<lparr>handles := (handles st)(h := p)\<rparr>) }"

definition handle_clear :: "'a srsw_heap \<Rightarrow> nat \<Rightarrow> 'a srsw_heap option" where
  "handle_clear st h = reset_ptr st h NULL"

definition handle_assign :: "'a srsw_heap \<Rightarrow> nat \<Rightarrow> nat \<Rightarrow> 'a srsw_heap option" where
  "handle_assign st h q = reset_ptr st h (handles st q)"

text \<open>\<open>reset(b, d, f)\<close>: \<open>a\<close> is the address \<open>b\<close>, \<open>junk n\<close> what an array of \<open>n\<close> elements there
  contains, \<open>so\<close> and \<open>sT\<close> are \<open>sizeof(SRSW_queue_impl)\<close> and \<open>sizeof(T)\<close>.\<close>

definition reset_block :: "size_t \<Rightarrow> size_t \<Rightarrow> (nat \<Rightarrow> 'a list) \<Rightarrow>
    'a srsw_heap \<Rightarrow> nat \<Rightarrow> addr \<Rightarrow> size_t \<Rightarrow> bool \<Rightarrow> ('a srsw_heap \<times> bool) option" where
  "reset_block so sT junk st h a d f = (if d < so then Some (st, False)
     else do {
       let n = 1 + (d - so) div sT;
       let p = \<lparr>dfun = f, nref = 0, q_size = n, rd_pos = 0, wr_pos = 0, data = junk (unat n)\<rparr>;
       st \<leftarrow> reset_ptr (st\<lparr>impls := (impls st)(a \<mapsto> p)\<rparr>) h (Some a);
       Some (st, True) })"

text \<open>\<open>mp_alloc\<close> is the address the allocator returns, if any.\<close>

definition resize :: "size_t \<Rightarrow> size_t \<Rightarrow> (nat \<Rightarrow> 'a list) \<Rightarrow> (size_t \<Rightarrow> ptr) \<Rightarrow>
    'a srsw_heap \<Rightarrow> nat \<Rightarrow> size_t \<Rightarrow> 'a srsw_heap outcome" where
  "resize so sT junk mp_alloc st h n = (if n > 0 then
       let sz = so + sT * (n - 1) in
       if (sz - so) div sT \<noteq> n - 1 then throw XBadAlloc
       else (case mp_alloc sz of
           None \<Rightarrow> throw XBadAlloc
         | Some p \<Rightarrow> nothrow (map_option fst (reset_block so sT junk st h p sz True)))
     else nothrow (reset_ptr st h NULL))"

definition handle_push :: "'a srsw_heap \<Rightarrow> nat \<Rightarrow> 'a \<Rightarrow> ('a srsw_heap \<times> bool) option" where
  "handle_push st h t = do {
     wassert (handles st h \<noteq> NULL);
     a \<leftarrow> handles st h;
     i \<leftarrow> impls st a;
     (i, b) \<leftarrow> push i t;
     Some (st\<lparr>impls := (impls st)(a \<mapsto> i)\<rparr>, b) }"

definition handle_popq :: "'a srsw_heap \<Rightarrow> nat \<Rightarrow> ('a srsw_heap \<times> 'a option) option" where
  "handle_popq st h = do {
     wassert (handles st h \<noteq> NULL);
     a \<leftarrow> handles st h;
     i \<leftarrow> impls st a;
     (i, x) \<leftarrow> popq i;
     Some (st\<lparr>impls := (impls st)(a \<mapsto> i)\<rparr>, x) }"

text \<open>No handle dangles, every count is the number of handles, and a block that owns its memory
  is there only while a handle has it.\<close>

definition refs :: "'a srsw_heap \<Rightarrow> addr \<Rightarrow> nat set" where
  "refs st a = {h. handles st h = Some a}"

definition refs_ok :: "'a srsw_heap \<Rightarrow> bool" where
  "refs_ok st \<longleftrightarrow> (\<forall>a. finite (refs st a)) \<and> (\<forall>h a. handles st h = Some a \<longrightarrow> impls st a \<noteq> None) \<and>
     (\<forall>a i. impls st a = Some i \<longrightarrow> nref i = int (card (refs st a)) \<and> (dfun i \<longrightarrow> refs st a \<noteq> {}))"

lemma refs_set:
  "refs (st\<lparr>handles := (handles st)(h := p)\<rparr>) a = (if p = Some a then insert h (refs st a) else refs st a - {h})"
  by (auto simp: refs_def)

text \<open>The heart: a handle takes a new pointer. The block it takes may be one that has just been
  placed and has no handle yet.\<close>

definition refs_but :: "ptr \<Rightarrow> 'a srsw_heap \<Rightarrow> bool" where
  "refs_but p st \<longleftrightarrow> (\<forall>a. finite (refs st a)) \<and> (\<forall>h a. handles st h = Some a \<longrightarrow> impls st a \<noteq> None) \<and>
     (\<forall>a i. impls st a = Some i \<longrightarrow> nref i = int (card (refs st a)) \<and>
       (dfun i \<longrightarrow> refs st a \<noteq> {} \<or> p = Some a))"

lemma refs_ok_but: "refs_ok st \<Longrightarrow> refs_but p st"
  by (auto simp: refs_ok_def refs_but_def)

lemma card_refs_insert: "finite R \<Longrightarrow> int (card (insert h R)) = int (card R) + (if h \<in> R then 0 else 1)"
  by (simp add: insert_absorb)

lemma card_refs_remove: "finite R \<Longrightarrow> int (card (R - {h})) = int (card R) - (if h \<in> R then 1 else 0)"
  using card_Suc_Diff1 [of R h] by (cases "h \<in> R") auto

lemma reset_ptr_ok:
  assumes ok: "refs_but p st" and p: "\<And>a. p = Some a \<Longrightarrow> impls st a \<noteq> None"
  shows "\<exists>st'. reset_ptr st h p = Some st' \<and> refs_ok st' \<and> handles st' = (handles st)(h := p) \<and>
    (\<forall>a i. impls st' a = Some i \<longrightarrow> (\<exists>i0. impls st a = Some i0 \<and> i = i0\<lparr>nref := nref i\<rparr>))"
proof -
  have fin: "finite (refs st a)" and dom: "handles st g = Some a \<Longrightarrow> impls st a \<noteq> None" for a g
    using ok by (auto simp: refs_but_def)
  have cnt: "nref i = int (card (refs st a))" and own: "dfun i \<Longrightarrow> refs st a \<noteq> {} \<or> p = Some a"
    if "impls st a = Some i" for a i using ok that by (auto simp: refs_but_def)
  obtain st1 where st1: "add_ref st p = Some st1" "handles st1 = handles st"
    "\<And>a i. impls st1 a = Some i \<longleftrightarrow> (\<exists>i0. impls st a = Some i0 \<and> i = (if p = Some a then i0\<lparr>nref := nref i0 + 1\<rparr> else i0))"
  proof (cases p)
    case (Some b)
    then obtain i where "impls st b = Some i" using p by auto
    with Some show thesis
      by (intro that [of "st\<lparr>impls := (impls st)(b \<mapsto> i\<lparr>nref := nref i + 1\<rparr>)\<rparr>"]) (auto simp: add_ref_def)
  qed (auto simp: add_ref_def intro: that)
  have dom1: "handles st g = Some a \<Longrightarrow> impls st1 a \<noteq> None" for a g
    using dom [of g a] st1(3) [of a] by auto
  obtain st2 where st2: "drop_ref st1 (handles st h) = Some st2" "handles st2 = handles st"
    "\<And>a i. impls st2 a = Some i \<longleftrightarrow> (\<exists>i0. impls st1 a = Some i0 \<and>
       (if handles st h = Some a then i = i0\<lparr>nref := nref i0 - 1\<rparr> \<and> \<not> (nref i = 0 \<and> dfun i) else i = i0))"
  proof (cases "handles st h")
    case (Some b)
    then obtain i where i: "impls st1 b = Some i" using dom1 by blast
    show thesis
    proof (cases "nref i - 1 = 0 \<and> dfun i")
      case True
      with Some i st1(2) show thesis by (intro that [of "st1\<lparr>impls := (impls st1)(b := None)\<rparr>"]) (auto simp: drop_ref_def)
    next
      case False
      with Some i st1(2) show thesis
        by (intro that [of "st1\<lparr>impls := (impls st1)(b \<mapsto> i\<lparr>nref := nref i - 1\<rparr>)\<rparr>"]) (auto simp: drop_ref_def)
    qed
  qed (auto simp: drop_ref_def st1(2) intro: that)
  let ?st = "st2\<lparr>handles := (handles st)(h := p)\<rparr>"
  have r: "reset_ptr st h p = Some ?st" using st1(1,2) st2(1,2) by (simp add: reset_ptr_def)
  have R: "refs ?st a = (if p = Some a then insert h (refs st a) else refs st a - {h})" for a
    by (auto simp: refs_def)
  have h: "h \<in> refs st a \<longleftrightarrow> handles st h = Some a" for a by (simp add: refs_def)
  have I: "nref i = int (card (refs ?st a)) \<and> (dfun i \<longrightarrow> refs ?st a \<noteq> {})" if i: "impls ?st a = Some i" for a i
  proof -
    have "impls st2 a = Some i" using i by simp
    then obtain i1 where i1: "impls st1 a = Some i1"
      "if handles st h = Some a then i = i1\<lparr>nref := nref i1 - 1\<rparr> \<and> \<not> (nref i = 0 \<and> dfun i) else i = i1"
      using st2(3) [of a i] by blast
    then obtain i2 where i2: "impls st a = Some i2" "i1 = (if p = Some a then i2\<lparr>nref := nref i2 + 1\<rparr> else i2)"
      using st1(3) [of a i1] by blast
    obtain i0 where i0: "impls st a = Some i0" "dfun i = dfun i0"
      "nref i = nref i0 + (if p = Some a then 1 else 0) - (if handles st h = Some a then 1 else 0)"
      "handles st h = Some a \<Longrightarrow> dfun i \<Longrightarrow> nref i \<noteq> 0"
      by (rule that [OF i2(1)]; use i1(2) i2(2) in \<open>cases "p = Some a"; cases "handles st h = Some a"; simp\<close>)
    have n: "nref i = int (card (refs ?st a))"
      unfolding R using i0(3) cnt [OF i0(1)] fin [of a] h [of a] card_refs_insert [of "refs st a" h] card_refs_remove [of "refs st a" h]
      by auto
    have "refs ?st a \<noteq> {}" if "dfun i"
    proof (cases "handles st h = Some a")
      case True
      then show ?thesis using i0(4) that n by auto
    next
      case False
      then show ?thesis using own [OF i0(1)] that i0(2) h [of a] unfolding R by auto
    qed
    with n show ?thesis by blast
  qed
  moreover have "impls ?st a \<noteq> None" if "handles ?st g = Some a" for g a
  proof -
    have "g \<in> refs ?st a" using that by (simp add: refs_def)
    have "impls st a \<noteq> None"
      using that dom [of g a] p [of a] by (auto split: if_splits)
    then obtain i where i: "impls st1 a = Some i" using st1(3) [of a] by blast
    show ?thesis
    proof (cases "handles st h = Some a \<and> nref i = 1")
      case True
      obtain i0 where i0: "impls st a = Some i0" "i = (if p = Some a then i0\<lparr>nref := nref i0 + 1\<rparr> else i0)"
        using st1(3) [of a i] i by blast
      have "nref i = nref i0 + (if p = Some a then 1 else 0)" by (simp add: i0(2))
      then have "int (card (refs st a)) = 1 - (if p = Some a then 1 else 0)" using cnt [OF i0(1)] True by simp
      moreover have "h \<in> refs st a" using True by (simp add: refs_def)
      ultimately have "card (refs st a) = 1" "p \<noteq> Some a" using fin [of a] by (auto split: if_splits)
      with \<open>h \<in> refs st a\<close> have "refs st a = {h}" by (metis card_1_singletonE singletonD)
      then have "refs ?st a = {}" using \<open>p \<noteq> Some a\<close> by (simp add: R)
      with \<open>g \<in> refs ?st a\<close> show ?thesis by simp
    next
      case False
      then have "impls st2 a = Some (if handles st h = Some a then i\<lparr>nref := nref i - 1\<rparr> else i)"
        using i st2(3) [of a] by auto
      then show ?thesis by simp
    qed
  qed
  moreover have "finite (refs ?st a)" for a using fin by (simp add: R)
  ultimately have "refs_ok ?st" by (simp add: refs_ok_def)
  moreover have "\<exists>i0. impls st a = Some i0 \<and> i = i0\<lparr>nref := nref i\<rparr>" if i: "impls ?st a = Some i" for a i
  proof -
    have "impls st2 a = Some i" using i by simp
    then obtain i1 where "impls st1 a = Some i1" "i = i1\<lparr>nref := nref i\<rparr>"
      using st2(3) [of a i] by (auto split: if_splits)
    then show ?thesis using st1(3) [of a i1] by (auto split: if_splits)
  qed
  ultimately show ?thesis using r by (intro exI [of _ ?st]) simp
qed

lemma reset_block_ok:
  assumes ok: "refs_ok st" and a: "impls st a = None" and d: "so \<le> d" and junk: "\<And>n. length (junk n) = n"
    and n: "0 < unat (1 + (d - so) div sT)"
  shows "\<exists>st' q. reset_block so sT junk st h a d f = Some (st', True) \<and> refs_ok st' \<and>
    handles st' = (handles st)(h := Some a) \<and> impls st' a = Some q \<and> q_size q = 1 + (d - so) div sT \<and> srsw_holds q []"
proof -
  let ?n = "1 + (d - so) div sT"
  let ?p = "\<lparr>dfun = f, nref = 0, q_size = ?n, rd_pos = 0, wr_pos = 0, data = junk (unat ?n)\<rparr>"
  let ?st = "st\<lparr>impls := (impls st)(a \<mapsto> ?p)\<rparr>"
  have "handles st g \<noteq> Some a" for g using ok a unfolding refs_ok_def by metis
  then have e: "refs st a = {}" by (simp add: refs_def)
  have r: "refs ?st = refs st" by (simp add: refs_def fun_eq_iff)
  have "refs_but (Some a) ?st" using ok a e unfolding refs_but_def refs_ok_def r by auto
  then obtain st' where st': "reset_ptr ?st h (Some a) = Some st'" "refs_ok st'" "handles st' = (handles ?st)(h := Some a)"
    "\<forall>a i. impls st' a = Some i \<longrightarrow> (\<exists>i0. impls ?st a = Some i0 \<and> i = i0\<lparr>nref := nref i\<rparr>)"
    using reset_ptr_ok [of "Some a" ?st h] by auto
  have "impls st' a \<noteq> None" using st'(2,3) unfolding refs_ok_def by (metis fun_upd_same)
  then obtain q where q: "impls st' a = Some q" by auto
  with st'(4) have "q = ?p\<lparr>nref := nref q\<rparr>" by fastforce
  then have "q_size q = ?n" "length (data q) = unat ?n" "rd_pos q = 0" "wr_pos q = 0"
    by (metis srsw_impl.select_convs srsw_impl.update_convs junk)+
  moreover have "pos_view (data q) 0 0 []" using n calculation(2) by (intro pos_view_new) simp
  ultimately have "srsw_holds q []" by (simp add: srsw_holds_def)
  with st' q d \<open>q_size q = ?n\<close> show ?thesis by (simp add: reset_block_def Let_def)
qed

text \<open>\<open>resize(n)\<close> gives the handle a new empty queue of \<open>n\<close> places.\<close>

lemma resize_ok:
  assumes ok: "refs_ok st" and n: "0 < unat n" "0 < unat sT" and fit: "unat so + unat sT * (unat n - 1) < 2 ^ 64"
    and junk: "\<And>n. length (junk n) = n" and alloc: "\<And>s a. mp_alloc s = Some a \<Longrightarrow> impls st a = None"
  shows "mp_alloc (so + sT * (n - 1)) = None \<and> resize so sT junk mp_alloc st h n = throw XBadAlloc \<or>
    (\<exists>a st' q. resize so sT junk mp_alloc st h n = ret st' \<and> refs_ok st' \<and>
       handles st' = (handles st)(h := Some a) \<and> impls st' a = Some q \<and> q_size q = n \<and> srsw_holds q [])"
proof -
  let ?sz = "so + sT * (n - 1)"
  have n1: "unat (n - 1) = unat n - 1" using n(1) by (subst unat_minus_one) (auto simp: unat_gt_0)
  then have m: "unat (sT * (n - 1)) = unat sT * (unat n - 1)" using fit by (simp add: unat_word_ariths)
  have "unat ?sz = unat so + unat sT * (unat n - 1)" using fit m by (simp add: unat_word_ariths)
  then have "so \<le> ?sz" by (simp add: word_le_nat_alt)
  have "(?sz - so) div sT = sT * (n - 1) div sT" by simp
  also have "\<dots> = n - 1"
    using n(2) m n1 by (simp add: word_eq_iff_unsigned [where ?'a = nat] unat_div_distrib)
  finally have dv: "(?sz - so) div sT = n - 1" .
  have gt: "n > 0" using n(1) by (simp add: word_less_nat_alt)
  show ?thesis
  proof (cases "mp_alloc ?sz")
    case None
    then show ?thesis using dv gt by (simp add: resize_def Let_def)
  next
    case (Some a)
    have "0 < unat (1 + (?sz - so) div sT)" unfolding dv using n(1) by simp
    then obtain st' q where "reset_block so sT junk st h a ?sz True = Some (st', True)" "refs_ok st'"
      "handles st' = (handles st)(h := Some a)" "impls st' a = Some q" "q_size q = 1 + (?sz - so) div sT" "srsw_holds q []"
      using reset_block_ok [OF ok alloc [OF Some] \<open>so \<le> ?sz\<close> junk, of sT h True] by blast
    moreover from this have "resize so sT junk mp_alloc st h n = ret st'"
      using Some dv gt by (simp add: resize_def Let_def)
    ultimately show ?thesis unfolding dv by (intro disjI2) auto
  qed
qed

end
