(* ===== verification/Bit_Flags.thy ===== *)
theory Bit_Flags
  imports Word_Facts
begin

text \<open>\<open>BitFlags\<close> (\<open>inc/vhwd/basic/bitflags.h\<close>, \<open>src/vhwd/basic/bitlfags.cpp\<close>): the \<open>int32_t\<close> of
  flags is a word, an operation maps the old value to the new one.\<close>

unbundle bit_operations_syntax

type_synonym bitflags = i32

definition flags_new :: "i32 \<Rightarrow> bitflags" where "flags_new f = f"
definition flags_val :: "bitflags \<Rightarrow> i32" where "flags_val m = m"
definition flags_add :: "bitflags \<Rightarrow> i32 \<Rightarrow> bitflags" where "flags_add m f = m OR f"
definition flags_del :: "bitflags \<Rightarrow> i32 \<Rightarrow> bitflags" where "flags_del m f = m AND NOT f"
definition flags_get :: "bitflags \<Rightarrow> i32 \<Rightarrow> bool" where "flags_get m f \<longleftrightarrow> m AND f \<noteq> 0"
definition flags_clr :: "bitflags \<Rightarrow> i32 \<Rightarrow> bitflags" where "flags_clr m f = f"
definition flags_inv :: "bitflags \<Rightarrow> i32 \<Rightarrow> bitflags" where "flags_inv m f = m XOR f"

definition flags_set :: "bitflags \<Rightarrow> i32 \<Rightarrow> bool \<Rightarrow> bitflags" where
  "flags_set m f v = (if v then flags_add m f else flags_del m f)"

lemma flags_get_bits: "flags_get m f \<longleftrightarrow> (\<exists>i. bit m i \<and> bit f i)"
  using bit_imp_le_length [of f] by (auto simp: flags_get_def bit_eq_iff [of _ "0 :: i32"] bit_and_iff)

lemma flags_get_add: "flags_get (flags_add m f) g \<longleftrightarrow> flags_get m g \<or> flags_get f g"
  by (auto simp: flags_get_bits flags_add_def bit_or_iff)

lemma flags_get_del_same: "\<not> flags_get (flags_del m f) f"
  by (auto simp: flags_get_bits flags_del_def bit_and_iff bit_not_iff)

lemma flags_get_del_other: "f AND g = 0 \<Longrightarrow> flags_get (flags_del m f) g \<longleftrightarrow> flags_get m g"
  using bit_imp_le_length [of m]
  by (auto simp: flags_get_bits flags_del_def bit_and_iff bit_not_iff bit_eq_iff [of _ "0 :: i32"])

lemma flags_inv_inv: "flags_inv (flags_inv m f) f = m"
  by (simp add: flags_inv_def xor.assoc)

lemma flags_get_set:
  "f \<noteq> 0 \<Longrightarrow> flags_get (flags_set m f v) f \<longleftrightarrow> v"
  by (cases v) (simp_all add: flags_set_def flags_get_add flags_get_del_same, simp add: flags_get_def)

end
