(* ===== verification/Lockfree_Queue.thy ===== *)
theory Lockfree_Queue
  imports Ring_Pos Bit_Flags Sz_Helper Fifo
begin

text \<open>
  \<open>LockFreeQueue\<close> (\<open>inc/vhwd/collection/lockfree_queue.h\<close>): a ring with one key for the readers and
  one for the writers. A thread that finds a key at 0 has it, and gives it back by storing 0.

  The operations are modelled as one thread runs them to the end while no other thread is active;
  so a loop that waits for another thread does not return (\<open>None\<close>). The protocol of the keys
  between threads is a step relation, below. \<open>invalid\<close> is \<open>P::invalid_value()\<close>.
\<close>

unbundle bit_operations_syntax

record lf_queue_header =
  head :: u32
  rear :: u32
  kget :: i32
  kput :: i32
  lf_mask :: u32
  flags :: bitflags

record 'a lf_queue =
  lfHeader :: "lf_queue_header option"
  lfBuffer :: "'a list option"

definition QUEUE_INITED :: i32 where "QUEUE_INITED = push_bit 0 1"
definition QUEUE_NONBLOCK :: i32 where "QUEUE_NONBLOCK = push_bit 1 1"
definition QUEUE_TIMEOUT :: i32 where "QUEUE_TIMEOUT = push_bit 2 1"
definition QUEUE_PARTIAL :: i32 where "QUEUE_PARTIAL = push_bit 3 1"
definition QUEUE_FREE_HEADER :: i32 where "QUEUE_FREE_HEADER = push_bit 4 1"
definition QUEUE_FREE_BUFFER :: i32 where "QUEUE_FREE_BUFFER = push_bit 5 1"

text \<open>\<open>P::timeout()\<close>.\<close>

definition lf_timeout :: i32 where "lf_timeout = 1024 * 1024 * 16"

subsection \<open>The state\<close>

definition lf_ok :: "'a lf_queue \<Rightarrow> bool" where
  "lf_ok q \<longleftrightarrow> lfHeader q \<noteq> None"

definition lf_size :: "'a lf_queue \<Rightarrow> u32" where
  "lf_size q = (case lfHeader q of None \<Rightarrow> 0 | Some h \<Rightarrow> (rear h - head h) AND lf_mask h)"

definition lf_capacity :: "'a lf_queue \<Rightarrow> u32" where
  "lf_capacity q = (case lfHeader q of None \<Rightarrow> 0 | Some h \<Rightarrow> lf_mask h + 1)"

definition lf_empty :: "'a lf_queue \<Rightarrow> bool" where
  "lf_empty q = (case lfHeader q of None \<Rightarrow> False | Some h \<Rightarrow> rear h = head h)"

definition lf_full :: "'a lf_queue \<Rightarrow> bool" where
  "lf_full q = (case lfHeader q of None \<Rightarrow> True | Some h \<Rightarrow> (rear h + 1) AND lf_mask h = head h)"

subsection \<open>Taking a key\<close>

text \<open>\<open>while((tag=key.fetch_add(1))!=0)\<close> with its timeout; \<open>force\<close> is \<open>flags.get(QUEUE_TIMEOUT)\<close>.
  The loop maps the value of the key to its value when the thread has entered.\<close>

partial_function (option) take_key :: "bool \<Rightarrow> i32 \<Rightarrow> i32 option" where
  "take_key force key =
    (let tag = key; key = key + 1 in
     if tag = 0 then Some key
     else if tag \<noteq> lf_timeout then take_key force key
     else let old = key; key = 1 in
       if old = 0 then Some key
       else if force then Some key
       else take_key force key)"

definition take_kget :: "lf_queue_header \<Rightarrow> lf_queue_header option" where
  "take_kget h = do { k \<leftarrow> take_key (flags_get (flags h) QUEUE_TIMEOUT) (kget h); Some (h\<lparr>kget := k\<rparr>) }"

definition take_kput :: "lf_queue_header \<Rightarrow> lf_queue_header option" where
  "take_kput h = do { k \<leftarrow> take_key (flags_get (flags h) QUEUE_TIMEOUT) (kput h); Some (h\<lparr>kput := k\<rparr>) }"

text \<open>\<open>while(head==rear)\<close> and \<open>while(full)\<close>: with \<open>QUEUE_NONBLOCK\<close> the key is given back and the
  result is \<open>False\<close>; without, the thread waits for another one.\<close>

partial_function (option) wait_element :: "lf_queue_header \<Rightarrow> (lf_queue_header \<times> bool) option" where
  "wait_element h =
    (if head h = rear h then
       if flags_get (flags h) QUEUE_NONBLOCK then Some (h\<lparr>kget := 0\<rparr>, False)
       else wait_element (h\<lparr>kget := 1\<rparr>)
     else Some (h, True))"

partial_function (option) wait_room :: "lf_queue_header \<Rightarrow> (lf_queue_header \<times> bool) option" where
  "wait_room h =
    (if (rear h + 1) AND lf_mask h = head h then
       if flags_get (flags h) QUEUE_NONBLOCK then Some (h\<lparr>kput := 0\<rparr>, False)
       else wait_room (h\<lparr>kput := 1\<rparr>)
     else Some (h, True))"

subsection \<open>Reading and writing\<close>

definition getq :: "'a \<Rightarrow> 'a lf_queue \<Rightarrow> ('a lf_queue \<times> 'a) option" where
  "getq invalid q = do {
     h \<leftarrow> lfHeader q;
     h \<leftarrow> take_kget h;
     (h, ok) \<leftarrow> wait_element h;
     if \<not> ok then Some (q\<lparr>lfHeader := Some h\<rparr>, invalid)
     else do {
       b \<leftarrow> lfBuffer q;
       x \<leftarrow> (if unat (head h) < length b then Some (b ! unat (head h)) else None);
       let h = h\<lparr>head := (head h + 1) AND lf_mask h\<rparr>;
       Some (q\<lparr>lfHeader := Some (h\<lparr>kget := 0\<rparr>)\<rparr>, x) } }"

text \<open>\<open>getq(p, n)\<close>; \<open>peek(p, n)\<close> in the source has the same body, with \<open>copy_n\<close> for \<open>move_n\<close>.\<close>

definition getq_n :: "'a lf_queue \<Rightarrow> 'a list \<Rightarrow> i32 \<Rightarrow> ('a lf_queue \<times> 'a list \<times> i32) option" where
  "getq_n q p n = do {
     h \<leftarrow> lfHeader q;
     h \<leftarrow> take_kget h;
     (h, ok) \<leftarrow> wait_element h;
     if \<not> ok then Some (q\<lparr>lfHeader := Some h\<rparr>, p, 0)
     else do {
       let rd = head h;
       let wr = rear h;
       let kp = (wr - rd) AND lf_mask h;
       let kp = (if sint kp > sint n then n else kp);
       let kn = rd + kp - lf_mask h - 1;
       b \<leftarrow> lfBuffer q;
       p \<leftarrow> wrap_read p b (sint rd) (sint kp) (sint kn);
       let h = h\<lparr>head := (if sint kn > 0 then kn else kn AND lf_mask h)\<rparr>;
       Some (q\<lparr>lfHeader := Some (h\<lparr>kget := 0\<rparr>)\<rparr>, p, kp) } }"

definition lf_peek :: "'a lf_queue \<Rightarrow> 'a list \<Rightarrow> i32 \<Rightarrow> ('a lf_queue \<times> 'a list \<times> i32) option" where
  "lf_peek q p n = do {
     h \<leftarrow> lfHeader q;
     h \<leftarrow> take_kget h;
     (h, ok) \<leftarrow> wait_element h;
     if \<not> ok then Some (q\<lparr>lfHeader := Some h\<rparr>, p, 0)
     else do {
       let rd = head h;
       let wr = rear h;
       let kp = (wr - rd) AND lf_mask h;
       let kp = (if sint kp > sint n then n else kp);
       let kn = rd + kp - lf_mask h - 1;
       b \<leftarrow> lfBuffer q;
       p \<leftarrow> wrap_read p b (sint rd) (sint kp) (sint kn);
       let h = h\<lparr>head := (if sint kn > 0 then kn else kn AND lf_mask h)\<rparr>;
       Some (q\<lparr>lfHeader := Some (h\<lparr>kget := 0\<rparr>)\<rparr>, p, kp) } }"

definition putq :: "'a lf_queue \<Rightarrow> 'a \<Rightarrow> ('a lf_queue \<times> bool) option" where
  "putq q v = do {
     h \<leftarrow> lfHeader q;
     h \<leftarrow> take_kput h;
     (h, ok) \<leftarrow> wait_room h;
     if \<not> ok then Some (q\<lparr>lfHeader := Some h\<rparr>, False)
     else do {
       b \<leftarrow> lfBuffer q;
       b \<leftarrow> (if unat (rear h) < length b then Some (b[unat (rear h) := v]) else None);
       let h = h\<lparr>rear := (rear h + 1) AND lf_mask h\<rparr>;
       Some (q\<lparr>lfBuffer := Some b, lfHeader := Some (h\<lparr>kput := 0\<rparr>)\<rparr>, True) } }"

text \<open>The bulk write. When there is not room for all and \<open>QUEUE_PARTIAL\<close> is not set, it returns 0
  with the key still taken.\<close>

definition putq_n :: "'a lf_queue \<Rightarrow> 'a list \<Rightarrow> i32 \<Rightarrow> ('a lf_queue \<times> i32) option" where
  "putq_n q p n = do {
     h \<leftarrow> lfHeader q;
     h \<leftarrow> take_kput h;
     (h, ok) \<leftarrow> wait_room h;
     if \<not> ok then Some (q\<lparr>lfHeader := Some h\<rparr>, 0)
     else do {
       let rd = head h;
       let wr = rear h;
       let kp = (rd - wr - 1) AND lf_mask h;
       if \<not> sint kp \<ge> sint n \<and> \<not> flags_get (flags h) QUEUE_PARTIAL then Some (q\<lparr>lfHeader := Some h\<rparr>, 0)
       else do {
         let kp = (if sint kp \<ge> sint n then n else kp);
         let kn = wr + kp - lf_mask h - 1;
         b \<leftarrow> lfBuffer q;
         b \<leftarrow> wrap_write b p (sint wr) (sint kp) (sint kn);
         let h = h\<lparr>rear := (if sint kn > 0 then kn else kn AND lf_mask h)\<rparr>;
         Some (q\<lparr>lfBuffer := Some b, lfHeader := Some (h\<lparr>kput := 0\<rparr>)\<rparr>, kp) } } }"

text \<open>\<open>rewind\<close> takes both keys, without a timeout. While the reader key is busy it gives the
  writer key back and takes it again.\<close>

partial_function (option) spin_key :: "i32 \<Rightarrow> i32 option" where
  "spin_key key = (let tag = key; key = key + 1 in if tag \<noteq> 0 then spin_key key else Some key)"

partial_function (option) spin_kget :: "lf_queue_header \<Rightarrow> lf_queue_header option" where
  "spin_kget h =
    (let tag = kget h; h = h\<lparr>kget := kget h + 1\<rparr> in
     if tag \<noteq> 0 then do { k \<leftarrow> spin_key 0; spin_kget (h\<lparr>kput := k\<rparr>) }
     else Some h)"

definition lf_rewind :: "'a lf_queue \<Rightarrow> 'a lf_queue option" where
  "lf_rewind q = (case lfHeader q of None \<Rightarrow> Some q
     | Some h \<Rightarrow> do {
         k \<leftarrow> spin_key (kput h);
         h \<leftarrow> spin_kget (h\<lparr>kput := k\<rparr>);
         Some (q\<lparr>lfHeader := Some (h\<lparr>head := 0, rear := 0, kput := 0, kget := 0\<rparr>)\<rparr>) })"

text \<open>\<open>clear\<close> lets go of the header and the buffer, freeing what the flags say it owns.\<close>

definition lf_clear :: "'a lf_queue \<Rightarrow> 'a lf_queue" where
  "lf_clear q = (case lfHeader q of None \<Rightarrow> q | Some h \<Rightarrow> q\<lparr>lfBuffer := None, lfHeader := None\<rparr>)"

definition lf_init :: "('a list \<Rightarrow> u32 \<Rightarrow> 'a list) \<Rightarrow> 'a lf_queue \<Rightarrow> lf_queue_header \<Rightarrow> 'a list \<Rightarrow> bool \<Rightarrow> 'a lf_queue" where
  "lf_init fill q addr buff forceinit =
    (let q = (lf_clear q)\<lparr>lfHeader := Some addr, lfBuffer := Some buff\<rparr> in
     if \<not> forceinit then q
     else q\<lparr>lfHeader := Some (addr\<lparr>flags := flags_add (flags addr) QUEUE_INITED, head := 0, rear := 0, kget := 0, kput := 0\<rparr>),
       lfBuffer := Some (fill buff (lf_mask addr + 1))\<rparr>)"

text \<open>\<open>malloc\<close> of the header and of the buffer: what they contain, if there is memory.\<close>

definition lf_reset :: "('a list \<Rightarrow> u32 \<Rightarrow> 'a list) \<Rightarrow> lf_queue_header option \<Rightarrow> (u32 \<Rightarrow> 'a list option) \<Rightarrow>
    'a lf_queue \<Rightarrow> u32 \<Rightarrow> 'a lf_queue outcome" where
  "lf_reset fill malloc1 malloc2 q v = andthen (n2p (ucast v)) (\<lambda>v.
     let v = (ucast v :: u32) in
     case malloc1 of None \<Rightarrow> throw XBadAlloc
     | Some p1 \<Rightarrow> (case malloc2 v of None \<Rightarrow> throw XBadAlloc
         | Some p2 \<Rightarrow>
             ret (lf_init fill q (p1\<lparr>flags := flags_clr (flags p1) (QUEUE_FREE_BUFFER OR QUEUE_FREE_HEADER), lf_mask := v - 1\<rparr>) p2 True)))"

definition lf_new :: "'a lf_queue" where
  "lf_new = \<lparr>lfHeader = None, lfBuffer = None\<rparr>"

subsection \<open>What a queue holds\<close>

text \<open>\<open>lf_holds k f q xs\<close>: the header and the buffer of \<open>2^k\<close> places are there, nobody has a key, the
  flags are \<open>f\<close> and the elements are \<open>xs\<close>.\<close>

definition lf_holds :: "nat \<Rightarrow> bitflags \<Rightarrow> 'a lf_queue \<Rightarrow> 'a list \<Rightarrow> bool" where
  "lf_holds k f q xs \<longleftrightarrow> (\<exists>h b. lfHeader q = Some h \<and> lfBuffer q = Some b \<and> lf_mask h = mask k \<and>
     kget h = 0 \<and> kput h = 0 \<and> flags h = f \<and> ring_view k b (head h) (rear h) xs)"

lemma lf_holdsE:
  assumes "lf_holds k f q xs"
  obtains h b where "lfHeader q = Some h" "lfBuffer q = Some b" "lf_mask h = mask k" "kget h = 0" "kput h = 0"
    "flags h = f" "ring_view k b (head h) (rear h) xs"
  using assms by (auto simp: lf_holds_def)

lemma lf_holds_bound: "lf_holds k f q xs \<Longrightarrow> length xs \<le> 2 ^ k - 1"
  by (erule lf_holdsE) (drule ring_viewD(6), simp)

lemma take_key_free [simp]: "take_key force 0 = Some 1"
  by (simp add: take_key.simps)

lemma take_kget_free: "kget h = 0 \<Longrightarrow> take_kget h = Some (h\<lparr>kget := 1\<rparr>)"
  by (simp add: take_kget_def)

lemma take_kput_free: "kput h = 0 \<Longrightarrow> take_kput h = Some (h\<lparr>kput := 1\<rparr>)"
  by (simp add: take_kput_def)

text \<open>A key that is taken and not given back is not obtained, unless a timeout forces it.\<close>

lemma take_key_stuck:
  assumes "1 \<le> unat key" and "unat key \<le> 2 ^ 24"
  shows "take_key False key = None"
proof (rule ccontr)
  assume "take_key False key \<noteq> None"
  then obtain r where r: "take_key False key = Some r" by auto
  have "\<not> (\<not> force \<and> 1 \<le> unat k \<and> unat k \<le> 2 ^ 24)" if "take_key force k = Some r" for force k r
  proof (rule take_key.raw_induct [where P = "\<lambda>force k r. \<not> (\<not> force \<and> 1 \<le> unat k \<and> unat k \<le> 2 ^ 24)", OF _ that])
    fix rec force k r
    assume IH: "\<And>force k r. rec force k = Some r \<Longrightarrow> \<not> (\<not> force \<and> 1 \<le> unat k \<and> unat k \<le> 2 ^ 24)"
      and e: "(let tag = k; k = k + 1 in
         if tag = 0 then Some k
         else if tag \<noteq> lf_timeout then rec force k
         else let old = k; k = 1 in if old = 0 then Some k else if force then Some k else rec force k) = Some r"
    show "\<not> (\<not> force \<and> 1 \<le> unat k \<and> unat k \<le> 2 ^ 24)"
    proof
      assume a: "\<not> force \<and> 1 \<le> unat k \<and> unat k \<le> 2 ^ 24"
      then have k: "k \<noteq> 0" "\<not> force" by auto
      have s: "unat (k + 1) = unat k + 1" using a by (simp add: unat_word_ariths)
      have to: "unat lf_timeout = 2 ^ 24" by (simp add: lf_timeout_def)
      have "rec False (if k \<noteq> lf_timeout then k + 1 else 1) = Some r"
        using e k s by (auto simp: Let_def split: if_splits)
      from IH [OF this] have "\<not> (1 \<le> unat (if k \<noteq> lf_timeout then k + 1 else 1) \<and> unat (if k \<noteq> lf_timeout then k + 1 else 1) \<le> 2 ^ 24)"
        by simp
      moreover have "k \<noteq> lf_timeout \<Longrightarrow> unat k \<noteq> 2 ^ 24" using to by (auto simp: word_eq_iff_unsigned [where ?'a = nat])
      ultimately show False using a s by (auto split: if_splits)
    qed
  qed
  from this [OF r] assms show False by simp
qed

lemma wait_element_some: "head h \<noteq> rear h \<Longrightarrow> wait_element h = Some (h, True)"
  by (simp add: wait_element.simps)

lemma wait_element_none:
  "head h = rear h \<Longrightarrow> flags_get (flags h) QUEUE_NONBLOCK \<Longrightarrow> wait_element h = Some (h\<lparr>kget := 0\<rparr>, False)"
  by (simp add: wait_element.simps)

lemma wait_room_some: "(rear h + 1) AND lf_mask h \<noteq> head h \<Longrightarrow> wait_room h = Some (h, True)"
  by (simp add: wait_room.simps)

lemma wait_room_none:
  "(rear h + 1) AND lf_mask h = head h \<Longrightarrow> flags_get (flags h) QUEUE_NONBLOCK \<Longrightarrow>
    wait_room h = Some (h\<lparr>kput := 0\<rparr>, False)"
  by (simp add: wait_room.simps)

text \<open>Without \<open>QUEUE_NONBLOCK\<close> an empty queue makes the reader wait, and a full one the writer.\<close>

lemma wait_element_waits:
  assumes "head h = rear h" and "\<not> flags_get (flags h) QUEUE_NONBLOCK"
  shows "wait_element h = None"
proof (rule ccontr)
  assume "wait_element h \<noteq> None"
  then obtain r where r: "wait_element h = Some r" by auto
  have "\<not> (head h = rear h \<and> \<not> flags_get (flags h) QUEUE_NONBLOCK)"
    by (rule wait_element.raw_induct [where P = "\<lambda>h r. \<not> (head h = rear h \<and> \<not> flags_get (flags h) QUEUE_NONBLOCK)", OF _ r])
      (fastforce split: if_splits)
  with assms show False by blast
qed

lemma wait_room_waits:
  assumes "(rear h + 1) AND lf_mask h = head h" and "\<not> flags_get (flags h) QUEUE_NONBLOCK"
  shows "wait_room h = None"
proof (rule ccontr)
  assume "wait_room h \<noteq> None"
  then obtain r where r: "wait_room h = Some r" by auto
  have "\<not> ((rear h + 1) AND lf_mask h = head h \<and> \<not> flags_get (flags h) QUEUE_NONBLOCK)"
    by (rule wait_room.raw_induct [where P = "\<lambda>h r. \<not> ((rear h + 1) AND lf_mask h = head h \<and> \<not> flags_get (flags h) QUEUE_NONBLOCK)", OF _ r])
      (fastforce split: if_splits)
  with assms show False by blast
qed

subsection \<open>One element\<close>

lemma view_store:
  assumes v: "ring_view k b rd wr xs" and room: "length xs < 2 ^ k - 1"
  shows "unat wr < length b \<and> ring_view k (b[unat wr := x]) rd ((wr + 1) AND mask k) (xs @ [x])"
proof -
  have p: "pos_view b (unat rd) (unat wr) xs" "length b = 2 ^ k" "k \<le> 31" using v by (auto simp: ring_view_pos_view)
  have "pos_view (b[unat wr := x]) (unat rd) ((unat wr + 1) mod length b) (xs @ [x])"
    by (rule pos_view_push [OF p(1)]) (use room p in simp)
  then show ?thesis using p pos_view_bound [OF p(1)] by (simp add: ring_view_pos_view unat_succ_and_mask)
qed

lemma view_head:
  assumes v: "ring_view k b rd wr (x # xs)"
  shows "unat rd < length b \<and> b ! unat rd = x \<and> ring_view k b ((rd + 1) AND mask k) wr xs"
proof -
  have p: "pos_view b (unat rd) (unat wr) (x # xs)" "length b = 2 ^ k" "k \<le> 31" using v by (auto simp: ring_view_pos_view)
  then show ?thesis using pos_view_head [OF p(1)] pos_view_pop [OF p(1)] pos_view_bound [OF p(1)]
    by (simp add: ring_view_pos_view unat_succ_and_mask)
qed

lemma getq_first:
  assumes "lf_holds k f q (x # xs)"
  shows "\<exists>q'. getq invalid q = Some (q', x) \<and> lf_holds k f q' xs"
proof -
  obtain h b where h: "lfHeader q = Some h" "lfBuffer q = Some b" "lf_mask h = mask k" "kget h = 0" "kput h = 0"
    "flags h = f" and v: "ring_view k b (head h) (rear h) (x # xs)" using assms by (rule lf_holdsE)
  have "head h \<noteq> rear h" using ring_view_empty [OF v] by simp
  with h view_head [OF v] show ?thesis
    by (simp add: getq_def take_kget_free wait_element_some lf_holds_def Let_def)
qed

lemma getq_empty:
  assumes "lf_holds k f q []" and "flags_get f QUEUE_NONBLOCK"
  shows "\<exists>q'. getq invalid q = Some (q', invalid) \<and> lf_holds k f q' []"
proof -
  obtain h b where h: "lfHeader q = Some h" "lfBuffer q = Some b" "lf_mask h = mask k" "kget h = 0" "kput h = 0"
    "flags h = f" and v: "ring_view k b (head h) (rear h) []" using assms(1) by (rule lf_holdsE)
  have "head h = rear h" using ring_view_empty [OF v] by simp
  with h v assms(2) show ?thesis by (simp add: getq_def take_kget_free wait_element_none lf_holds_def)
qed

lemma getq_waits:
  assumes "lf_holds k f q []" and "\<not> flags_get f QUEUE_NONBLOCK"
  shows "getq invalid q = None"
proof -
  obtain h b where h: "lfHeader q = Some h" "lfBuffer q = Some b" "lf_mask h = mask k" "kget h = 0" "kput h = 0"
    "flags h = f" and v: "ring_view k b (head h) (rear h) []" using assms(1) by (rule lf_holdsE)
  have "head h = rear h" using ring_view_empty [OF v] by simp
  with h assms(2) show ?thesis by (simp add: getq_def take_kget_free wait_element_waits)
qed

lemma putq_room:
  assumes "lf_holds k f q xs" and "length xs < 2 ^ k - 1"
  shows "\<exists>q'. putq q x = Some (q', True) \<and> lf_holds k f q' (xs @ [x])"
proof -
  obtain h b where h: "lfHeader q = Some h" "lfBuffer q = Some b" "lf_mask h = mask k" "kget h = 0" "kput h = 0"
    "flags h = f" and v: "ring_view k b (head h) (rear h) xs" using assms(1) by (rule lf_holdsE)
  have "(rear h + 1) AND lf_mask h \<noteq> head h" using ring_view_full [OF v] assms(2) h(3) by auto
  with h view_store [OF v assms(2)] show ?thesis
    by (simp add: putq_def take_kput_free wait_room_some lf_holds_def Let_def)
qed

lemma putq_full:
  assumes "lf_holds k f q xs" and "length xs = 2 ^ k - 1"
  shows "if flags_get f QUEUE_NONBLOCK then \<exists>q'. putq q x = Some (q', False) \<and> lf_holds k f q' xs
    else putq q x = None"
proof -
  obtain h b where h: "lfHeader q = Some h" "lfBuffer q = Some b" "lf_mask h = mask k" "kget h = 0" "kput h = 0"
    "flags h = f" and v: "ring_view k b (head h) (rear h) xs" using assms(1) by (rule lf_holdsE)
  have "(rear h + 1) AND lf_mask h = head h" using ring_view_full [OF v] assms(2) h(3) by auto
  with h v show ?thesis by (simp add: putq_def take_kput_free wait_room_none wait_room_waits lf_holds_def)
qed

subsection \<open>Many elements\<close>

lemma getq_n_ok:
  assumes "lf_holds k f q xs" and "xs \<noteq> []" and n: "0 \<le> sint n" and p: "sint n \<le> int (length p)"
  defines "c \<equiv> min (nat (sint n)) (length xs)"
  shows "\<exists>q' m. getq_n q p n = Some (q', take c xs @ drop c p, m) \<and> sint m = int c \<and> lf_holds k f q' (drop c xs)"
proof -
  obtain h b where h: "lfHeader q = Some h" "lfBuffer q = Some b" "lf_mask h = mask k" "kget h = 0" "kput h = 0"
    "flags h = f" and v: "ring_view k b (head h) (rear h) xs" using assms(1) by (rule lf_holdsE)
  note D = ring_viewD [OF v]
  have ne: "head h \<noteq> rear h" using ring_view_empty [OF v] assms(2) by simp
  let ?kp = "(rear h - head h) AND mask k :: i32"
  let ?m = "if sint ?kp > sint n then n else ?kp"
  let ?kn = "head h + ?m - mask k - 1 :: i32"
  let ?rd = "if sint ?kn > 0 then ?kn else ?kn AND mask k"
  have s: "sint ?kp = int (length xs)" by (rule ring_view_used [OF v])
  have m: "sint ?m = int c" using s n by (auto simp: c_def)
  have c: "c \<le> length xs" "c \<le> length p" using p by (auto simp: c_def)
  have "ring_view k b ?rd (rear h) (drop c xs)"
    by (rule ring_view_advance [OF v c(1)], rule ring_view_next) (use D c m in auto)
  moreover have "getq_n q p n = Some (q\<lparr>lfHeader := Some (h\<lparr>kget := 0, head := ?rd\<rparr>)\<rparr>, take c xs @ drop c p, ?m)"
    by (cases "sint ?kp > sint n")
      (use ne ring_view_read [OF v c m] in \<open>simp_all add: getq_n_def h take_kget_free wait_element_some Let_def\<close>)
  ultimately show ?thesis using m h by (auto simp: lf_holds_def)
qed

text \<open>\<open>peek\<close> does the same, the head position included.\<close>

lemma lf_peek_getq_n: "lf_peek q p n = getq_n q p n"
  by (simp add: lf_peek_def getq_n_def)

lemma putq_n_ok:
  assumes "lf_holds k f q xs" and "length xs < 2 ^ k - 1" and n: "0 \<le> sint n" and p: "sint n \<le> int (length p)"
  defines "c \<equiv> min (nat (sint n)) (2 ^ k - 1 - length xs)"
  shows "if nat (sint n) \<le> 2 ^ k - 1 - length xs \<or> flags_get f QUEUE_PARTIAL
    then \<exists>q' m. putq_n q p n = Some (q', m) \<and> sint m = int c \<and> lf_holds k f q' (xs @ take c p)
    else \<exists>q' h. putq_n q p n = Some (q', 0) \<and> lfHeader q = Some h \<and> q' = q\<lparr>lfHeader := Some (h\<lparr>kput := 1\<rparr>)\<rparr>"
proof -
  obtain h b where h: "lfHeader q = Some h" "lfBuffer q = Some b" "lf_mask h = mask k" "kget h = 0" "kput h = 0"
    "flags h = f" and v: "ring_view k b (head h) (rear h) xs" using assms(1) by (rule lf_holdsE)
  note D = ring_viewD [OF v]
  have nf: "(rear h + 1) AND lf_mask h \<noteq> head h" using ring_view_full [OF v] assms(2) h(3) by auto
  let ?kp = "(head h - rear h - 1) AND mask k :: i32"
  let ?m = "if sint ?kp \<ge> sint n then n else ?kp"
  let ?kn = "rear h + ?m - mask k - 1 :: i32"
  let ?wr = "if sint ?kn > 0 then ?kn else ?kn AND mask k"
  have s: "sint ?kp = int (2 ^ k - 1 - length xs)" by (rule ring_view_free [OF v])
  have g: "sint ?kp \<ge> sint n \<longleftrightarrow> nat (sint n) \<le> 2 ^ k - 1 - length xs" unfolding s using n by linarith
  show ?thesis
  proof (cases "nat (sint n) \<le> 2 ^ k - 1 - length xs \<or> flags_get f QUEUE_PARTIAL")
    case True
    have m: "sint ?m = int c" unfolding c_def using s n by (auto simp del: of_nat_diff)
    have c: "length xs + c < 2 ^ k" "c \<le> length p" using p assms(2) by (auto simp: c_def)
    obtain b' where b': "wrap_write b p (sint (rear h)) (sint ?m) (sint ?kn) = Some b'"
      "\<forall>wr'. unat wr' = (unat (rear h) + c) mod 2 ^ k \<longrightarrow> ring_view k b' (head h) wr' (xs @ take c p)"
      using ring_view_write [OF v c m] by blast
    have "unat ?wr = (unat (rear h) + c) mod 2 ^ k"
      using c(1) by (intro ring_view_next D(1,4) m) linarith
    with b'(2) have "ring_view k b' (head h) ?wr (xs @ take c p)" by blast
    moreover have "putq_n q p n = Some (q\<lparr>lfBuffer := Some b', lfHeader := Some (h\<lparr>kput := 0, rear := ?wr\<rparr>)\<rparr>, ?m)"
      using True g by (cases "sint ?kp \<ge> sint n")
        (use nf b'(1) in \<open>simp_all add: putq_n_def h take_kput_free wait_room_some Let_def\<close>)
    ultimately have "lf_holds k f (q\<lparr>lfBuffer := Some b', lfHeader := Some (h\<lparr>kput := 0, rear := ?wr\<rparr>)\<rparr>) (xs @ take c p)"
      "putq_n q p n = Some (q\<lparr>lfBuffer := Some b', lfHeader := Some (h\<lparr>kput := 0, rear := ?wr\<rparr>)\<rparr>, ?m)"
      using h by (simp_all add: lf_holds_def)
    with True m show ?thesis by auto
  next
    case False
    then have "putq_n q p n = Some (q\<lparr>lfHeader := Some (h\<lparr>kput := 1\<rparr>)\<rparr>, 0)"
      using nf g by (simp add: putq_n_def h take_kput_free wait_room_some Let_def)
    with False h(1) show ?thesis by auto
  qed
qed

text \<open>After a refused bulk write the writer key stays taken: no later write returns.\<close>

lemma putq_key_lost:
  assumes "lfHeader q = Some h" and "kput h = 1" and "\<not> flags_get (flags h) QUEUE_TIMEOUT"
  shows "putq q x = None \<and> putq_n q p n = None"
  using assms take_key_stuck [of 1] by (simp add: putq_def putq_n_def take_kput_def)

subsection \<open>Set-up\<close>

lemma lf_rewind_ok: "lf_holds k f q xs \<Longrightarrow> \<exists>q'. lf_rewind q = Some q' \<and> lf_holds k f q' []"
  by (erule lf_holdsE) (auto simp: lf_rewind_def spin_key.simps spin_kget.simps lf_holds_def ring_view_def ring_dist_0 Let_def)

lemma unat_2_power_u32: "k \<le> 31 \<Longrightarrow> unat ((2 :: u32) ^ k) = 2 ^ k"
proof -
  assume k: "k \<le> 31"
  have "(2 :: u32) ^ k = of_nat (2 ^ k)" by simp
  moreover have "take_bit 32 ((2 :: nat) ^ k) = 2 ^ k"
    using k by (simp add: take_bit_nat_eq_self power_strict_increasing del: numeral_One)
  ultimately show ?thesis by (simp only: unsigned_of_nat) simp
qed

lemma lf_reset_ok:
  assumes v: "unat v \<le> 2 ^ 31" and m2: "\<And>n p. malloc2 n = Some p \<Longrightarrow> length p = unat n"
    and fill: "\<And>b n. length (fill b n) = length b"
  shows "\<exists>k \<le> 31. unat v \<le> 2 ^ k \<and> (\<forall>i. unat v \<le> 2 ^ i \<longrightarrow> k \<le> i) \<and>
    (if malloc1 = None \<or> malloc2 (2 ^ k) = None then lf_reset fill malloc1 malloc2 q v = throw XBadAlloc
     else \<exists>q'. lf_reset fill malloc1 malloc2 q v = ret q' \<and>
       lf_holds k (QUEUE_FREE_BUFFER OR QUEUE_FREE_HEADER OR QUEUE_INITED) q' [])"
proof -
  have u: "unat (ucast v :: size_t) = unat v" by (simp add: unsigned_ucast_eq take_bit_nat_eq_self unsigned_less [where ?'a = nat, THEN less_trans])
  have "unat v \<le> 2 ^ 63" using v by (rule order_trans) simp
  then obtain k where k: "n2p (ucast v) = ret (2 ^ k)" "unat v \<le> 2 ^ k" "\<forall>i. unat v \<le> 2 ^ i \<longrightarrow> k \<le> i"
    using n2p_ok [of "ucast v"] unfolding u by blast
  have k31: "k \<le> 31" using k(3) v by blast
  have c: "ucast (2 ^ k :: size_t) = (2 ^ k :: u32)" by (rule bit_word_eqI) (auto simp: bit_simps)
  have l: "length p2 = 2 ^ k" if "malloc2 (2 ^ k) = Some p2" for p2
    using m2 [OF that] k31 by (simp add: unat_2_power_u32)
  show ?thesis using k k31 l fill
    by (intro exI [of _ k])
      (auto simp: lf_reset_def c lf_init_def lf_clear_def lf_holds_def ring_view_def ring_dist_0 Let_def
        flags_clr_def flags_add_def mask_eq_exp_minus_1 or.assoc split: option.splits)
qed

subsection \<open>The queue contract\<close>

text \<open>A non-blocking queue, used by one thread. An empty queue is told from \<open>invalid\<close> by \<open>empty()\<close>.\<close>

definition lf_get :: "'a \<Rightarrow> 'a lf_queue \<Rightarrow> ('a lf_queue \<times> 'a option) option" where
  "lf_get invalid q = do { (q', x) \<leftarrow> getq invalid q; Some (q', if lf_empty q then None else Some x) }"

definition lf_rep :: "nat \<Rightarrow> 'a lf_queue \<Rightarrow> 'a list \<Rightarrow> bool" where
  "lf_rep c q xs \<longleftrightarrow> (\<exists>k f. c = 2 ^ k - 1 \<and> flags_get f QUEUE_NONBLOCK \<and> lf_holds k f q xs)"

lemma lf_empty_iff: "lf_holds k f q xs \<Longrightarrow> lf_empty q \<longleftrightarrow> xs = []"
  by (erule lf_holdsE) (auto simp: lf_empty_def dest: ring_view_empty)

lemma lf_full_iff: "lf_holds k f q xs \<Longrightarrow> lf_full q \<longleftrightarrow> length xs = 2 ^ k - 1"
  by (erule lf_holdsE) (simp add: lf_full_def ring_view_full)

lemma lf_size_ok: "lf_holds k f q xs \<Longrightarrow> unat (lf_size q) = length xs"
  by (erule lf_holdsE) (drule ring_viewD(5), simp add: lf_size_def ring_dist_def)

interpretation lf: fifo putq "lf_get invalid" lf_rep for invalid :: 'a
proof
  show "length xs \<le> c" if "lf_rep c q xs" for c and q :: "'a lf_queue" and xs
    using that lf_holds_bound by (auto simp: lf_rep_def)
  show "\<exists>q'. putq q a = Some (q', True) \<and> lf_rep c q' (xs @ [a])"
    if "lf_rep c q xs" "length xs < c" for c xs a and q :: "'a lf_queue"
    using that putq_room by (fastforce simp: lf_rep_def)
  show "\<exists>q'. putq q a = Some (q', False) \<and> lf_rep c q' xs"
    if "lf_rep c q xs" "length xs = c" for c xs a and q :: "'a lf_queue"
    using that putq_full by (fastforce simp: lf_rep_def split: if_splits)
  show "\<exists>q'. lf_get invalid q = Some (q', Some x) \<and> lf_rep c q' xs"
    if "lf_rep c q (x # xs)" for c x xs and q :: "'a lf_queue"
    using that getq_first [of _ _ q x xs invalid] lf_empty_iff by (fastforce simp: lf_rep_def lf_get_def)
  show "\<exists>q'. lf_get invalid q = Some (q', None) \<and> lf_rep c q' []" if "lf_rep c q []" for c and q :: "'a lf_queue"
    using that getq_empty [of _ _ q invalid] lf_empty_iff by (fastforce simp: lf_rep_def lf_get_def)
qed

end
