(* ===== verification/Lockfree_Keys.thy ===== *)
theory Lockfree_Keys
  imports Lockfree_Queue
begin

text \<open>
  The key of the readers (or of the writers) of a \<open>LockFreeQueue\<close>, between threads: the loop
  \<open>while((tag=key.fetch_add(1))!=0)\<close> of \<open>getq\<close> and \<open>putq\<close>. \<open>fetch_add\<close>, \<open>exchange\<close> and \<open>store\<close> are
  one step each, and the steps of the threads interleave in any order.

  The key counts failed attempts, on 32 bits; \<open>spins\<close> counts the \<open>fetch_add\<close>s since the key was
  last stored or exchanged, and \<open>B\<close> bounds it: a thread that has seen the timeout value gets to
  its \<open>exchange\<close> before the others have made the counter go all the way round.
\<close>

datatype key_pc = Outside | Trying | Timed_out | Inside

record key_state =
  key :: i32
  pc :: "nat \<Rightarrow> key_pc"
  spins :: nat

inductive key_step :: "bool \<Rightarrow> nat \<Rightarrow> key_state \<Rightarrow> key_state \<Rightarrow> bool" for force :: bool and B :: nat where
  enter: "pc s t = Outside \<Longrightarrow> key_step force B s (s\<lparr>pc := (pc s)(t := Trying)\<rparr>)"
| fetch_free: "pc s t = Trying \<Longrightarrow> key s = 0 \<Longrightarrow> spins s < B \<Longrightarrow>
    key_step force B s (s\<lparr>key := 1, pc := (pc s)(t := Inside), spins := spins s + 1\<rparr>)"
| fetch_busy: "pc s t = Trying \<Longrightarrow> key s \<noteq> 0 \<Longrightarrow> key s \<noteq> lf_timeout \<Longrightarrow> spins s < B \<Longrightarrow>
    key_step force B s (s\<lparr>key := key s + 1, spins := spins s + 1\<rparr>)"
| fetch_timeout: "pc s t = Trying \<Longrightarrow> key s = lf_timeout \<Longrightarrow> spins s < B \<Longrightarrow>
    key_step force B s (s\<lparr>key := key s + 1, pc := (pc s)(t := Timed_out), spins := spins s + 1\<rparr>)"
| exchange_free: "pc s t = Timed_out \<Longrightarrow> key s = 0 \<Longrightarrow>
    key_step force B s (s\<lparr>key := 1, pc := (pc s)(t := Inside), spins := 1\<rparr>)"
| exchange_busy: "pc s t = Timed_out \<Longrightarrow> key s \<noteq> 0 \<Longrightarrow> \<not> force \<Longrightarrow>
    key_step force B s (s\<lparr>key := 1, pc := (pc s)(t := Trying), spins := 1\<rparr>)"
| exchange_force: "pc s t = Timed_out \<Longrightarrow> key s \<noteq> 0 \<Longrightarrow> force \<Longrightarrow>
    key_step force B s (s\<lparr>key := 1, pc := (pc s)(t := Inside), spins := 1\<rparr>)"
| alive: "pc s t = Inside \<Longrightarrow> key_step force B s (s\<lparr>key := 1, spins := 1\<rparr>)"
| leave: "pc s t = Inside \<Longrightarrow>
    key_step force B s (s\<lparr>key := 0, pc := (pc s)(t := Outside), spins := 0\<rparr>)"

definition key_start :: key_state where
  "key_start = \<lparr>key = 0, pc = (\<lambda>_. Outside), spins = 0\<rparr>"

inductive_cases key_stepE: "key_step force B s s'"

definition key_inv :: "key_state \<Rightarrow> bool" where
  "key_inv s \<longleftrightarrow> unat (key s) \<le> spins s \<and>
     (\<forall>t. pc s t = Inside \<longrightarrow> key s \<noteq> 0 \<and> (\<forall>u. pc s u = Inside \<longrightarrow> u = t))"

lemma key_inv_start: "key_inv key_start"
  by (simp add: key_inv_def key_start_def)

lemma key_inv_step:
  assumes "key_step False B s s'" and "key_inv s" and "B < 2 ^ 32" and "spins s \<le> B"
  shows "key_inv s'"
  using assms
proof (induction rule: key_step.induct)
  case (fetch_busy s t)
  then have "unat (key s) + 1 < 2 ^ 32" by (auto simp: key_inv_def)
  then have u: "unat (key s + 1) = unat (key s) + 1" by (simp add: unat_word_ariths)
  then have "key s + 1 \<noteq> 0" by auto
  with fetch_busy u show ?case by (auto simp: key_inv_def)
next
  case (fetch_timeout s t)
  have u: "unat (lf_timeout + 1) = 2 ^ 24 + 1" "lf_timeout + 1 \<noteq> 0" "unat lf_timeout = 2 ^ 24" by (simp_all add: lf_timeout_def)
  with fetch_timeout show ?case by (auto simp: key_inv_def)
qed (auto simp: key_inv_def)

lemma key_spins_step: "key_step force B s s' \<Longrightarrow> spins s \<le> B \<Longrightarrow> 0 < B \<Longrightarrow> spins s' \<le> B"
  by (induction rule: key_step.induct) auto

lemma key_inv_reachable:
  assumes "(key_step False B)\<^sup>*\<^sup>* key_start s" and "0 < B" and "B < 2 ^ 32"
  shows "key_inv s \<and> spins s \<le> B"
  using assms(1)
proof (induction rule: rtranclp_induct)
  case base
  then show ?case using key_inv_start by (simp add: key_start_def)
next
  case (step s s')
  then show ?case using key_inv_step [of B s s'] key_spins_step [of False B s s'] assms(2,3) by blast
qed

lemma key_exclusive:
  assumes "(key_step False B)\<^sup>*\<^sup>* key_start s" and "0 < B" and "B < 2 ^ 32"
    and "pc s t = Inside" and "pc s u = Inside"
  shows "t = u"
  using key_inv_reachable [OF assms(1-3)] assms(4,5) by (auto simp: key_inv_def)

text \<open>Progress: when the key is 0, a thread that tries gets in with its next step.\<close>

lemma key_progress:
  assumes "pc s t = Trying" and "key s = 0" and "spins s < B"
  shows "\<exists>s'. key_step force B s s' \<and> pc s' t = Inside"
  using key_step.fetch_free [OF assms] by fastforce

text \<open>With \<open>QUEUE_TIMEOUT\<close> a thread enters after \<open>2^24\<close> failed attempts, whether the holder of the
  key is gone or only slow: then two threads are inside.\<close>

lemma key_spin:
  assumes "pc s t = Trying" and "1 \<le> unat (key s)" and "unat (key s) + n \<le> 2 ^ 24"
    and "spins s + n \<le> B"
  shows "(key_step force B)\<^sup>*\<^sup>* s (s\<lparr>key := key s + of_nat n, spins := spins s + n\<rparr>)"
  using assms(3,4)
proof (induction n)
  case (Suc n)
  let ?s = "s\<lparr>key := key s + of_nat n, spins := spins s + n\<rparr>"
  have u: "unat (key s + of_nat n) = unat (key s) + n"
    using Suc.prems(1) by (simp add: unat_word_ariths unsigned_of_nat take_bit_nat_eq_self)
  then have "key s + of_nat n \<noteq> 0" using assms(2) by auto
  moreover have "key s + of_nat n \<noteq> lf_timeout"
  proof
    assume "key s + of_nat n = lf_timeout"
    then have "unat (key s) + n = unat lf_timeout" using u by simp
    then show False using Suc.prems(1) by (simp add: lf_timeout_def)
  qed
  ultimately have "key_step force B ?s (?s\<lparr>key := key ?s + 1, spins := spins ?s + 1\<rparr>)"
    using assms(1) Suc.prems by (intro key_step.fetch_busy [of _ t]) simp_all
  moreover have "?s\<lparr>key := key ?s + 1, spins := spins ?s + 1\<rparr> = s\<lparr>key := key s + of_nat (Suc n), spins := spins s + Suc n\<rparr>"
    by (simp add: algebra_simps)
  ultimately have st: "key_step force B ?s (s\<lparr>key := key s + of_nat (Suc n), spins := spins s + Suc n\<rparr>)"
    by (simp only:)
  have "(key_step force B)\<^sup>*\<^sup>* s ?s" by (rule Suc.IH) (use Suc.prems in simp_all)
  then show ?case using st by (rule rtranclp.rtrancl_into_rtrancl)
qed simp

lemma key_forced:
  assumes "2 ^ 24 + 2 \<le> B" and "t \<noteq> u"
  shows "\<exists>s. (key_step True B)\<^sup>*\<^sup>* key_start s \<and> pc s t = Inside \<and> pc s u = Inside"
proof -
  let ?R = "key_step True B"
  define s1 where "s1 = key_start\<lparr>pc := (pc key_start)(t := Trying)\<rparr>"
  define s2 where "s2 = s1\<lparr>key := 1, pc := (pc s1)(t := Inside), spins := spins s1 + 1\<rparr>"
  define s3 where "s3 = s2\<lparr>pc := (pc s2)(u := Trying)\<rparr>"
  define s4 where "s4 = s3\<lparr>key := key s3 + of_nat (2 ^ 24 - 1), spins := spins s3 + (2 ^ 24 - 1)\<rparr>"
  define s5 where "s5 = s4\<lparr>key := key s4 + 1, pc := (pc s4)(u := Timed_out), spins := spins s4 + 1\<rparr>"
  define s6 where "s6 = s5\<lparr>key := 1, pc := (pc s5)(u := Inside), spins := 1\<rparr>"
  have "?R key_start s1" unfolding s1_def by (rule key_step.enter) (simp add: key_start_def)
  moreover have "?R s1 s2" unfolding s2_def using assms(1)
    by (intro key_step.fetch_free) (simp_all add: s1_def key_start_def)
  moreover have "?R s2 s3" unfolding s3_def using assms(2)
    by (intro key_step.enter) (simp add: s2_def s1_def key_start_def)
  moreover have "?R\<^sup>*\<^sup>* s3 s4" unfolding s4_def using assms(1)
    by (intro key_spin [of _ u]) (simp_all add: s3_def s2_def s1_def key_start_def)
  moreover have "?R s4 s5" unfolding s5_def using assms(1)
    by (intro key_step.fetch_timeout) (simp_all add: s4_def s3_def s2_def s1_def key_start_def lf_timeout_def)
  moreover have "?R s5 s6" unfolding s6_def
    by (intro key_step.exchange_force) (simp_all add: s5_def s4_def s3_def s2_def s1_def key_start_def)
  ultimately have "?R\<^sup>*\<^sup>* key_start s6"
    by (meson converse_rtranclp_into_rtranclp rtranclp_trans r_into_rtranclp)
  moreover have "pc s6 t = Inside \<and> pc s6 u = Inside"
    using assms(2) by (simp add: s6_def s5_def s4_def s3_def s2_def s1_def)
  ultimately show ?thesis by blast
qed

end
