(* ===== verification/Queue_Theorems.thy ===== *)
theory Queue_Theorems
  imports Ring_Buffer Srsw_Queue Lockfree_Keys
begin

text \<open>The properties of the ring buffer and of the two queues, stated on the definitions that
  translate the code; each follows from the lemmas of the component and, for the sequences of
  operations, from the locale \<open>fifo\<close>.\<close>

text \<open>C20. \<open>RingBuffer::reset(s)\<close> rounds \<open>s\<close> up to the least power of two \<open>2^k\<close> and, unless the
  allocator fails (then it throws \<open>XBadAlloc\<close>), gives a buffer on which every sequence of sends and
  receives of single bytes behaves as a first-in first-out list of at most \<open>2^k-1\<close> bytes: the same
  answers, no access outside of the block, and the accepted bytes are the delivered ones, in
  order, followed by what is left.\<close>

theorem ring_reset_fifo:
  assumes s: "0 \<le> sint s" "sint s \<le> 2 ^ 30" and alloc: "\<And>n p. mp_alloc n = Some p \<Longrightarrow> length p = unat n"
  shows "\<exists>k \<le> 30. nat (sint s) \<le> 2 ^ k \<and> (\<forall>i. nat (sint s) \<le> 2 ^ i \<longrightarrow> k \<le> i) \<and>
    (mp_alloc (2 ^ k) = None \<and> ring_reset mp_alloc r s = throw XBadAlloc \<or>
     (\<exists>r'. ring_reset mp_alloc r s = ret r' \<and>
       (\<forall>ops. \<exists>r'' ys rs. fifo_run ring_put ring_get r' ops = Some (r'', rs) \<and>
          fifo_spec (2 ^ k - 1) [] ops = (ys, rs) \<and> ring_rep (2 ^ k - 1) r'' ys \<and>
          accepted ops rs = delivered rs @ ys \<and> length ys \<le> 2 ^ k - 1)))"
proof -
  obtain k where k: "k \<le> 30" "nat (sint s) \<le> 2 ^ k" "\<forall>i. nat (sint s) \<le> 2 ^ i \<longrightarrow> k \<le> i"
    "mp_alloc (2 ^ k) = None \<and> ring_reset mp_alloc r s = throw XBadAlloc \<or>
     (\<exists>r'. ring_reset mp_alloc r s = ret r' \<and> holds k r' [])"
    using reset_ok [OF s alloc] by blast
  have "\<exists>r'' ys rs. fifo_run ring_put ring_get r' ops = Some (r'', rs) \<and>
          fifo_spec (2 ^ k - 1) [] ops = (ys, rs) \<and> ring_rep (2 ^ k - 1) r'' ys \<and>
          accepted ops rs = delivered rs @ ys \<and> length ys \<le> 2 ^ k - 1"
    if "holds k r' []" for r' ops
  proof -
    obtain ys rs where f: "fifo_spec (2 ^ k - 1) [] ops = (ys, rs)" by fastforce
    have "ring_rep (2 ^ k - 1) r' []" using that by (auto simp: ring_rep_def)
    from ring.run_refines [OF this f] fifo_spec_conserves [OF f] fifo_spec_bound [OF f] f
    show ?thesis by fastforce
  qed
  with k show ?thesis by blast
qed

lemma ring_reset_fifo_witness:
  "\<exists>r' r''. ring_reset (\<lambda>n. Some (replicate (unat n) 0)) ring_new 3 = ret r' \<and>
    fifo_run ring_put ring_get r' [Put 7, Put 8, Put 9, Put 1, Get] =
      Some (r'', [Accepted True, Accepted True, Accepted True, Accepted False, Got (Some 7)])"
proof -
  let ?al = "\<lambda>n :: size_t. Some (replicate (unat n) (0 :: u8))"
  have "\<exists>k \<le> 30. nat (sint (3 :: i32)) \<le> 2 ^ k \<and> (\<forall>i. nat (sint (3 :: i32)) \<le> 2 ^ i \<longrightarrow> k \<le> i) \<and>
    (?al (2 ^ k) = None \<and> ring_reset ?al ring_new 3 = throw XBadAlloc \<or>
     (\<exists>r'. ring_reset ?al ring_new 3 = ret r' \<and>
       (\<forall>ops. \<exists>r'' ys rs. fifo_run ring_put ring_get r' ops = Some (r'', rs) \<and>
          fifo_spec (2 ^ k - 1) [] ops = (ys, rs) \<and> ring_rep (2 ^ k - 1) r'' ys \<and>
          accepted ops rs = delivered rs @ ys \<and> length ys \<le> 2 ^ k - 1)))"
    by (rule ring_reset_fifo [of 3 ?al ring_new]) auto
  then obtain k where k: "nat (sint (3 :: i32)) \<le> 2 ^ k" "\<forall>i. nat (sint (3 :: i32)) \<le> 2 ^ i \<longrightarrow> k \<le> i"
    and r: "\<exists>r'. ring_reset ?al ring_new 3 = ret r' \<and>
       (\<forall>ops. \<exists>r'' ys rs. fifo_run ring_put ring_get r' ops = Some (r'', rs) \<and> fifo_spec (2 ^ k - 1) [] ops = (ys, rs))"
    by blast
  have "k \<le> 2" using k(2) by simp
  moreover have "\<not> k \<le> 1" using k(1) power_increasing [of k 1 "2 :: nat"] by auto
  ultimately have "k = 2" by simp
  moreover obtain r' where "ring_reset ?al ring_new 3 = ret r'"
      "\<exists>r'' ys rs. fifo_run ring_put ring_get r' [Put 7, Put 8, Put 9, Put 1, Get] = Some (r'', rs) \<and>
        fifo_spec (2 ^ k - 1) [] [Put 7, Put 8, Put 9, Put 1, Get] = (ys, rs)"
    using r by blast
  ultimately show ?thesis by auto
qed

text \<open>A buffer of eight places, half used, whose content goes around the end.\<close>

definition ring_ex :: ring_buffer where
  "ring_ex = \<lparr>pBuffer = Some [3, 0, 5, 6, 7, 8, 2, 0], pHeader = Some \<lparr>ringbuffer_header.rd_pos = 6, wr_pos = 2, rb_mask = 7\<rparr>\<rparr>"

lemma ring_ex_holds: "holds 3 ring_ex [2, 0, 3, 0]"
  by (simp add: holds_def ring_ex_def ring_view_def ring_list_def ring_dist_def mask_eq_exp_minus_1 rotate_drop_take)

text \<open>On a buffer that holds \<open>xs\<close>: \<open>send\<close> appends all \<open>n\<close> bytes when there is room for them and
  otherwise returns 0 and changes nothing; \<open>recv\<close> delivers the first bytes, as many as are asked for
  and there, into the caller's block and removes them; \<open>peek\<close> delivers the same without removing;
  \<open>rewind\<close> empties the buffer.\<close>

theorem ring_bulk_correct:
  assumes h: "holds k r xs" and n: "0 \<le> sint n" and p: "sint n \<le> int (length p)"
  shows "(if length xs + nat (sint n) < 2 ^ k
      then \<exists>r'. send r p n = Some (r', n) \<and> holds k r' (xs @ take (nat (sint n)) p)
      else send r p n = Some (r, 0)) \<and>
    (\<exists>r' p' m. recv r p n = Some (r', p', m) \<and> peek r p n = Some (p', m) \<and>
      sint m = int (min (nat (sint n)) (length xs)) \<and>
      p' = take (nat (sint n)) xs @ drop (min (nat (sint n)) (length xs)) p \<and>
      holds k r' (drop (nat (sint n)) xs)) \<and>
    holds k (rewind r) []"
proof -
  let ?c = "min (nat (sint n)) (length xs)"
  obtain r' m where r: "recv r p n = Some (r', take ?c xs @ drop ?c p, m)" "sint m = int ?c" "holds k r' (drop ?c xs)"
    using recv_ok [OF assms] by blast
  obtain m' where m': "peek r p n = Some (take ?c xs @ drop ?c p, m')" "sint m' = int ?c" using peek_ok [OF assms] by blast
  have "m' = m" using r(2) m'(2) sint_inject by metis
  moreover have "take ?c xs = take (nat (sint n)) xs" "drop ?c xs = drop (nat (sint n)) xs" by (simp_all add: min_def)
  ultimately have "recv r p n = Some (r', take (nat (sint n)) xs @ drop ?c p, m)"
    "peek r p n = Some (take (nat (sint n)) xs @ drop ?c p, m)" "holds k r' (drop (nat (sint n)) xs)"
    using r m' by simp_all
  with r(2) send_ok [OF assms] send_full [OF h, of n p] rewind_ok [OF h] show ?thesis by auto
qed

lemma ring_bulk_correct_witness:
  "\<exists>r' r'' m. send ring_ex [1, 9] 2 = Some (r', 2) \<and> recv r' [0, 0, 0, 0, 0, 0, 0] 7 = Some (r'', [2, 0, 3, 0, 1, 9, 0], m) \<and> sint m = 6"
proof -
  obtain r' where r: "send ring_ex [1, 9] 2 = Some (r', 2)" "holds 3 r' [2, 0, 3, 0, 1, 9]"
    using ring_bulk_correct [OF ring_ex_holds, of 2 "[1, 9]"] by auto
  from ring_bulk_correct [OF r(2), of 7 "[0, 0, 0, 0, 0, 0, 0]"] r(1) show ?thesis by auto
qed

text \<open>Packets: the first two bytes of a packet are its length, low byte first, and count. On a
  buffer that holds \<open>xs\<close>, \<open>packet()\<close> tells whether a whole packet is there; \<open>packet(p,n)\<close> takes
  exactly that packet when it is there and fits, returns its negated size when it does not fit into
  the caller's block and 0 when it is not there, and then removes nothing.\<close>

theorem ring_packet_correct:
  assumes "holds k r xs" and "0 \<le> sint n" and "sint n \<le> int (length p)"
  shows "packet_ready r = Some (2 \<le> length xs \<and> packet_size xs \<le> length xs) \<and>
    (if length xs < 2 \<or> length xs < packet_size xs then packet r p n = Some (r, p, 0)
     else if nat (sint n) < packet_size xs then \<exists>m. packet r p n = Some (r, p, m) \<and> sint m = - int (packet_size xs)
     else \<exists>r' m. packet r p n = Some (r', take (packet_size xs) xs @ drop (packet_size xs) p, m) \<and>
       sint m = int (packet_size xs) \<and> holds k r' (drop (packet_size xs) xs))"
  using packet_ready_ok [OF assms(1)] packet_ok [OF assms] by blast

lemma ring_packet_correct_witness:
  "packet_ready ring_ex = Some True \<and>
    (\<exists>r' m. packet ring_ex [9, 9, 9, 9] 4 = Some (r', [2, 0, 9, 9], m) \<and> sint m = 2 \<and> holds 3 r' [3, 0]) \<and>
    (\<exists>m. packet ring_ex [9] 1 = Some (ring_ex, [9], m) \<and> sint m = - 2)"
proof -
  have "packet_size [2, 0, 3, 0] = 2" by (simp add: packet_size_def le16_def)
  then show ?thesis
    using ring_packet_correct [OF ring_ex_holds, of 4 "[9, 9, 9, 9]"] ring_packet_correct [OF ring_ex_holds, of 1 "[9]"]
    by auto
qed

text \<open>What the queue for one reader and one writer keeps in every reachable state.\<close>

lemma srsw_step_size: "srsw_step s s' \<Longrightarrow> q_size (queue s') = q_size (queue s)"
  by (induction rule: srsw_step.induct) (auto simp: data_set_def split: if_splits)

lemma srsw_steps_size: "srsw_step\<^sup>*\<^sup>* s s' \<Longrightarrow> q_size (queue s') = q_size (queue s)"
  by (induction rule: rtranclp_induct) (auto simp: srsw_step_size)

lemma srsw_in_bounds:
  assumes "srsw_holds q xs"
  shows "data_set q (wr_pos q) t \<noteq> None" "data_get q (rd_pos q) \<noteq> None"
  using assms pos_view_bound [of "data q"] by (fastforce simp: srsw_holds_def data_set_def data_get_def)+

text \<open>C21. \<open>SRSW_Queue\<close> with one thread that pushes and one that pops, their memory accesses
  interleaved in any order: what has been popped is a prefix of what has been pushed, in order, and
  at most \<open>n-1\<close> elements are in between; no access is outside of the array; and the two threads are
  never at the same place of the array.\<close>

theorem srsw_concurrent_fifo:
  assumes d: "d \<noteq> []" "length d < 2 ^ 64" and r: "srsw_step\<^sup>*\<^sup>* (srsw_start (srsw_init d f)) s"
  shows "(\<exists>xs. pushed s = popped s @ xs \<and> length xs \<le> length d - 1) \<and>
    (\<forall>t wr2. writer s = W_tested t wr2 \<longrightarrow> data_set (queue s) (wr_pos (queue s)) t \<noteq> None) \<and>
    (reader s = R_tested \<longrightarrow> data_get (queue s) (rd_pos (queue s)) \<noteq> None) \<and>
    (\<forall>t wr2. writer s = W_tested t wr2 \<and> reader s = R_tested \<longrightarrow> wr_pos (queue s) \<noteq> rd_pos (queue s))"
proof -
  have inv: "srsw_inv s" using srsw_inv_reachable [OF r] srsw_inv_init [OF d] by blast
  have "unat (q_size (queue s)) = length d"
    using srsw_steps_size [OF r] d(2) by (simp add: srsw_start_def srsw_init_def unsigned_of_nat take_bit_nat_eq_self)
  moreover obtain xs where "srsw_holds (queue s) xs" "pushed s = popped s @ xs" using inv by (rule srsw_inv_cases)
  ultimately show ?thesis using srsw_bound srsw_in_bounds srsw_no_race [OF inv] by fastforce
qed

lemma srsw_concurrent_fifo_witness:
  "\<exists>s. srsw_step\<^sup>*\<^sup>* (srsw_start (srsw_init [0, 0 :: nat] True)) s \<and> pushed s = [5] \<and> length (popped s) \<le> 1"
proof -
  let ?s0 = "srsw_start (srsw_init [0, 0 :: nat] True)"
  let ?s1 = "?s0\<lparr>writer := W_tested 5 1\<rparr>"
  let ?q = "(queue ?s1)\<lparr>data := [5, 0]\<rparr>"
  let ?s2 = "?s1\<lparr>queue := ?q, writer := W_stored 5 1\<rparr>"
  let ?s3 = "?s2\<lparr>queue := (queue ?s2)\<lparr>wr_pos := 1\<rparr>, writer := W_idle, pushed := pushed ?s2 @ [5]\<rparr>"
  have "srsw_step ?s0 ?s1" by (rule push_test) (simp_all add: srsw_start_def srsw_init_def)
  moreover have "srsw_step ?s1 ?s2" by (rule push_store) (simp_all add: srsw_start_def srsw_init_def data_set_def)
  moreover have "srsw_step ?s2 ?s3" by (rule push_publish) simp
  ultimately have "srsw_step\<^sup>*\<^sup>* ?s0 ?s3" by (meson rtranclp.rtrancl_into_rtrancl rtranclp.rtrancl_refl)
  moreover from srsw_concurrent_fifo [OF _ _ this] have "length (popped ?s3) \<le> 1"
    by (auto simp: srsw_start_def)
  moreover have "pushed ?s3 = [5]" by (simp add: srsw_start_def)
  ultimately show ?thesis by blast
qed

text \<open>Handles of \<open>SRSW_Queue\<close>: while every reference count is the number of handles and no
  handle dangles, copying a handle, clearing one and \<open>resize(n)\<close> keep it so, and never use a block
  that has been freed; \<open>resize(n)\<close> gives the handle a new empty queue of \<open>n\<close> places or throws
  \<open>XBadAlloc\<close>.\<close>

theorem srsw_handles_correct:
  assumes ok: "refs_ok st" and n: "0 < unat n" "0 < unat sT" and fit: "unat so + unat sT * (unat n - 1) < 2 ^ 64"
    and junk: "\<And>n. length (junk n) = n" and alloc: "\<And>s a. mp_alloc s = Some a \<Longrightarrow> impls st a = None"
  shows "(\<exists>st'. handle_assign st h g = Some st' \<and> refs_ok st' \<and> handles st' = (handles st)(h := handles st g)) \<and>
    (\<exists>st'. handle_clear st h = Some st' \<and> refs_ok st' \<and> handles st' = (handles st)(h := NULL)) \<and>
    (mp_alloc (so + sT * (n - 1)) = None \<and> resize so sT junk mp_alloc st h n = throw XBadAlloc \<or>
     (\<exists>a st' q. resize so sT junk mp_alloc st h n = ret st' \<and> refs_ok st' \<and>
       handles st' = (handles st)(h := Some a) \<and> impls st' a = Some q \<and> q_size q = n \<and> srsw_holds q []))"
proof -
  have p: "impls st a \<noteq> None" if "handles st g = Some a" for a using ok that by (auto simp: refs_ok_def)
  have "\<exists>st'. handle_assign st h g = Some st' \<and> refs_ok st' \<and> handles st' = (handles st)(h := handles st g)"
    using reset_ptr_ok [OF refs_ok_but [OF ok], of "handles st g" h] p unfolding handle_assign_def by blast
  moreover have "\<exists>st'. handle_clear st h = Some st' \<and> refs_ok st' \<and> handles st' = (handles st)(h := NULL)"
    using reset_ptr_ok [OF refs_ok_but [OF ok], of NULL h] unfolding handle_clear_def by blast
  moreover note resize_ok [OF ok n fit junk, of mp_alloc h] alloc
  ultimately show ?thesis by blast
qed

lemma srsw_handles_correct_witness:
  "\<exists>st' q. resize 40 8 (\<lambda>n. replicate n (0 :: nat)) (\<lambda>s. Some 7) \<lparr>impls = Map.empty, handles = (\<lambda>_. NULL)\<rparr> 1 5 = ret st' \<and>
    handles st' 1 = Some 7 \<and> impls st' 7 = Some q \<and> srsw_holds q []"
proof -
  let ?st = "\<lparr>impls = Map.empty, handles = (\<lambda>_. NULL)\<rparr> :: nat srsw_heap"
  have ok: "refs_ok ?st" by (simp add: refs_ok_def refs_def)
  obtain a st' q where r: "resize 40 8 (\<lambda>n. replicate n (0 :: nat)) (\<lambda>s. Some 7) ?st 1 5 = ret st'"
    "handles st' = (handles ?st)(1 := Some a)" "impls st' a = Some q" "q_size q = 5" "srsw_holds q []"
    using srsw_handles_correct [OF ok, of 5 8 40 "\<lambda>n. replicate n 0" "\<lambda>s. Some 7" 1 1] by auto
  have "handles st' 1 = Some 7"
    using r(1) by (simp add: resize_def reset_block_def Let_def reset_ptr_def add_ref_def drop_ref_def)
      (auto simp: unat_word_ariths)
  then show ?thesis using r by auto
qed


text \<open>A queue of four places that holds one element, and waits.\<close>

definition lf_ex :: "i32 \<Rightarrow> nat lf_queue" where
  "lf_ex f = \<lparr>lfHeader = Some \<lparr>head = 3, rear = 0, kget = 0, kput = 0, lf_mask = 3, flags = f\<rparr>, lfBuffer = Some [0, 1, 2, 3]\<rparr>"

lemma lf_ex_holds: "lf_holds 2 f (lf_ex f) [3]"
  by (simp add: lf_holds_def lf_ex_def ring_view_def ring_list_def ring_dist_def mask_eq_exp_minus_1 rotate_drop_take)


text \<open>The bulk operations of \<open>LockFreeQueue\<close> on a queue that holds \<open>xs\<close>: \<open>getq(p,n)\<close> delivers the
  first elements, as many as are asked for and there, and removes them; \<open>putq(p,n)\<close> appends all \<open>n\<close>
  when there is room, and with \<open>QUEUE_PARTIAL\<close> as many as fit; \<open>rewind\<close> empties the queue. The copies
  in two pieces around the end of the block stay inside of it.\<close>

theorem lf_bulk_correct:
  assumes h: "lf_holds k f q xs" and n: "0 \<le> sint n" and p: "sint n \<le> int (length p)"
  defines "free \<equiv> 2 ^ k - 1 - length xs"
  shows "(xs \<noteq> [] \<longrightarrow> (\<exists>q' m. getq_n q p n = Some (q', take (nat (sint n)) xs @ drop (min (nat (sint n)) (length xs)) p, m) \<and>
      sint m = int (min (nat (sint n)) (length xs)) \<and> lf_holds k f q' (drop (nat (sint n)) xs))) \<and>
    (0 < free \<and> (nat (sint n) \<le> free \<or> flags_get f QUEUE_PARTIAL) \<longrightarrow>
      (\<exists>q' m. putq_n q p n = Some (q', m) \<and> sint m = int (min (nat (sint n)) free) \<and>
        lf_holds k f q' (xs @ take (min (nat (sint n)) free) p))) \<and>
    (\<exists>q'. lf_rewind q = Some q' \<and> lf_holds k f q' [])"
proof -
  have "take (min (nat (sint n)) (length xs)) xs = take (nat (sint n)) xs"
    "drop (min (nat (sint n)) (length xs)) xs = drop (nat (sint n)) xs" by (simp_all add: min_def)
  then have "xs \<noteq> [] \<longrightarrow> (\<exists>q' m. getq_n q p n = Some (q', take (nat (sint n)) xs @ drop (min (nat (sint n)) (length xs)) p, m) \<and>
      sint m = int (min (nat (sint n)) (length xs)) \<and> lf_holds k f q' (drop (nat (sint n)) xs))"
    using getq_n_ok [OF h _ n p] by simp
  moreover have "\<exists>q' m. putq_n q p n = Some (q', m) \<and> sint m = int (min (nat (sint n)) free) \<and>
        lf_holds k f q' (xs @ take (min (nat (sint n)) free) p)"
    if "0 < free" "nat (sint n) \<le> free \<or> flags_get f QUEUE_PARTIAL"
    using that putq_n_ok [OF h _ n p] by (simp add: free_def)
  ultimately show ?thesis using lf_rewind_ok [OF h] by blast
qed

lemma lf_bulk_correct_witness:
  "\<exists>q q' m. putq_n (lf_ex 0) [8, 9] 2 = Some (q, 2) \<and> getq_n q [0, 0, 0, 0] 4 = Some (q', [3, 8, 9, 0], m) \<and> sint m = 3"
proof -
  obtain q m where q: "putq_n (lf_ex 0) [8, 9] 2 = Some (q, m)" "sint m = 2" "lf_holds 2 0 q [3, 8, 9]"
    using lf_bulk_correct [OF lf_ex_holds, of 2 "[8, 9]" 0] by auto
  have "m = 2" using q(2) sint_inject [of m 2] by simp
  with q lf_bulk_correct [OF q(3), of 4 "[0, 0, 0, 0]"] show ?thesis by auto
qed

text \<open>\<open>LockFreeQueue::reset(n)\<close> rounds up to the least power of two, throws \<open>XBadAlloc\<close> when
  there is no memory, and otherwise leaves an empty queue with both keys free.\<close>

theorem lf_reset_correct:
  assumes v: "unat v \<le> 2 ^ 31" and m2: "\<And>n p. malloc2 n = Some p \<Longrightarrow> length p = unat n"
    and fill: "\<And>b n. length (fill b n) = length b"
  shows "\<exists>k \<le> 31. unat v \<le> 2 ^ k \<and> (\<forall>i. unat v \<le> 2 ^ i \<longrightarrow> k \<le> i) \<and>
    (if malloc1 = None \<or> malloc2 (2 ^ k) = None then lf_reset fill malloc1 malloc2 q v = throw XBadAlloc
     else \<exists>q'. lf_reset fill malloc1 malloc2 q v = ret q' \<and>
       lf_holds k (QUEUE_FREE_BUFFER OR QUEUE_FREE_HEADER OR QUEUE_INITED) q' [] \<and> lf_empty q')"
proof -
  have "\<exists>k \<le> 31. unat v \<le> 2 ^ k \<and> (\<forall>i. unat v \<le> 2 ^ i \<longrightarrow> k \<le> i) \<and>
    (if malloc1 = None \<or> malloc2 (2 ^ k) = None then lf_reset fill malloc1 malloc2 q v = throw XBadAlloc
     else \<exists>q'. lf_reset fill malloc1 malloc2 q v = ret q' \<and>
       lf_holds k (QUEUE_FREE_BUFFER OR QUEUE_FREE_HEADER OR QUEUE_INITED) q' [])"
    using v m2 fill by (rule lf_reset_ok)
  then show ?thesis using lf_empty_iff by metis
qed

lemma lf_reset_correct_witness:
  "lf_reset (\<lambda>b n. b) None (\<lambda>n :: u32. Some (replicate (unat n) (0 :: nat))) lf_new 3 = throw XBadAlloc"
  using lf_reset_correct [of 3 "\<lambda>n :: u32. Some (replicate (unat n) (0 :: nat))" "\<lambda>b n. b" None lf_new] by auto

text \<open>\<open>peek\<close> of \<open>LockFreeQueue\<close> does not peek: it removes what it delivers, exactly as \<open>getq\<close>.\<close>

theorem lf_peek_consumes:
  assumes h: "lf_holds k f q xs" and x: "xs \<noteq> []" and n: "0 \<le> sint n" and p: "sint n \<le> int (length p)"
  shows "\<exists>q' m. lf_peek q p n = Some (q', take (nat (sint n)) xs @ drop (min (nat (sint n)) (length xs)) p, m) \<and>
    lf_holds k f q' (drop (nat (sint n)) xs)"
proof -
  have "take (min (nat (sint n)) (length xs)) xs = take (nat (sint n)) xs"
    "drop (min (nat (sint n)) (length xs)) xs = drop (nat (sint n)) xs" by (simp_all add: min_def)
  then show ?thesis using getq_n_ok [OF assms] unfolding lf_peek_getq_n by auto
qed

lemma lf_peek_consumes_witness: "\<exists>q' m. lf_peek (lf_ex 0) [0] 1 = Some (q', [3], m) \<and> lf_holds 2 0 q' []"
  using lf_peek_consumes [OF lf_ex_holds, of 1 "[0]" 0] by auto





text \<open>With \<open>QUEUE_TIMEOUT\<close> it is not a lock: after \<open>2^24\<close> failed attempts a thread enters while
  another one is still inside.\<close>

theorem key_timeout_not_exclusive:
  assumes "2 ^ 24 + 2 \<le> B" and "t \<noteq> u"
  shows "\<exists>s. (key_step True B)\<^sup>*\<^sup>* key_start s \<and> pc s t = Inside \<and> pc s u = Inside"
  by (rule key_forced [OF assms])

lemma key_timeout_not_exclusive_witness:
  "\<exists>s. (key_step True (2 ^ 25))\<^sup>*\<^sup>* key_start s \<and> pc s 0 = Inside \<and> pc s 1 = Inside"
  by (rule key_timeout_not_exclusive) simp_all

end
