(* ===== verification/Arr_Container.thy ===== *)
theory Arr_Container
  imports Mem_Block Sz_Helper
begin

text \<open>
  The dynamic array \<open>arr_container\<close> (\<open>inc/vhwd/collection/detail/arr_container.h\<close>), the base of
  \<open>arr_1t\<close> and \<open>StringBuffer\<close>.

  The block between \<open>m_base\<close> and \<open>m_end2\<close> is a list of slots, \<open>None\<close> for a slot without an object;
  pointers into it are offsets. Constructing in a slot that holds an object, assigning to one that
  holds none and destroying nothing are undefined, so the lifetime of every element is checked, as
  it matters for element types with constructors. \<open>al n\<close> says whether the allocator has room for
  \<open>n\<close> elements, \<open>mx\<close> is its \<open>max_size()\<close>; where it has none, the operations throw before they
  change the array. \<open>deallocs\<close> records the calls of \<open>deallocate\<close>: the slots of the block, and the
  number passed.
\<close>

unbundle bit_operations_syntax

type_synonym 'a block = "'a option list"

record 'a arr =
  m_base :: "'a block option"
  m_end1 :: nat
  deallocs :: "(nat \<times> nat) list"

subsection \<open>Slots\<close>

definition slots_read :: "'a block \<Rightarrow> nat \<Rightarrow> nat \<Rightarrow> 'a list option" where
  "slots_read b i j = (if i \<le> j \<and> j \<le> length b \<and> None \<notin> set (take (j - i) (drop i b))
     then Some (map the (take (j - i) (drop i b))) else None)"

definition slots_put :: "'a block \<Rightarrow> nat \<Rightarrow> 'a list \<Rightarrow> 'a block" where
  "slots_put b i xs = take i b @ map Some xs @ drop (i + length xs) b"

text \<open>\<open>xmem::uninitialized_copy\<close> and \<open>uninitialized_fill\<close>, \<open>xmem::copy\<close> and \<open>fill\<close>, \<open>xmem::destroy\<close>.\<close>

definition construct :: "'a block \<Rightarrow> nat \<Rightarrow> 'a list \<Rightarrow> 'a block option" where
  "construct b i xs = (if i + length xs \<le> length b \<and> set (take (length xs) (drop i b)) \<subseteq> {None}
     then Some (slots_put b i xs) else None)"

definition assign_at :: "'a block \<Rightarrow> nat \<Rightarrow> 'a list \<Rightarrow> 'a block option" where
  "assign_at b i xs = (if i + length xs \<le> length b \<and> None \<notin> set (take (length xs) (drop i b))
     then Some (slots_put b i xs) else None)"

definition destroy :: "'a block \<Rightarrow> nat \<Rightarrow> nat \<Rightarrow> 'a block option" where
  "destroy b i j = (if i \<le> j \<and> j \<le> length b \<and> None \<notin> set (take (j - i) (drop i b))
     then Some (take i b @ replicate (j - i) None @ drop j b) else None)"

text \<open>A range an operation reads from: outside of the array, or from an offset of its own block.\<close>

datatype 'a source = Ext "'a list" | Own nat

definition src_read :: "'a block option \<Rightarrow> 'a source \<Rightarrow> nat \<Rightarrow> nat \<Rightarrow> 'a list option" where
  "src_read b s k n = (case s of
      Ext xs \<Rightarrow> if k + n \<le> length xs then Some (take n (drop k xs)) else None
    | Own i \<Rightarrow> do { b \<leftarrow> b; slots_read b (i + k) (i + k + n) })"

subsection \<open>Size and access\<close>

definition arr_new :: "'a arr" where
  "arr_new = \<lparr>m_base = None, m_end1 = 0, deallocs = []\<rparr>"

definition arr_size :: "'a arr \<Rightarrow> nat" where
  "arr_size a = m_end1 a"

definition capacity :: "'a arr \<Rightarrow> nat" where
  "capacity a = (case m_base a of None \<Rightarrow> 0 | Some b \<Rightarrow> length b)"

definition arr_empty :: "'a arr \<Rightarrow> bool" where
  "arr_empty a \<longleftrightarrow> m_end1 a = 0"

definition inside :: "'a arr \<Rightarrow> 'a source \<Rightarrow> bool" where
  "inside a s = (case s of Ext _ \<Rightarrow> False | Own i \<Rightarrow> i < capacity a)"

definition arr_nth :: "'a arr \<Rightarrow> nat \<Rightarrow> 'a option" where
  "arr_nth a n = do { b \<leftarrow> m_base a; if n < length b then b ! n else None }"

definition arr_at :: "'a arr \<Rightarrow> nat \<Rightarrow> 'a outcome" where
  "arr_at a n = (if n \<ge> m_end1 a then throw XInvalidIndex else nothrow (arr_nth a n))"

definition check_not_empty :: "'a arr \<Rightarrow> unit outcome" where
  "check_not_empty a = (if m_end1 a = 0 then throw (XError ''arr_container is empty()'') else ret ())"

definition arr_front :: "'a arr \<Rightarrow> 'a outcome" where
  "arr_front a = andthen (check_not_empty a) (\<lambda>_. nothrow (arr_nth a 0))"

definition arr_back :: "'a arr \<Rightarrow> 'a outcome" where
  "arr_back a = andthen (check_not_empty a) (\<lambda>_. nothrow (arr_nth a (m_end1 a - 1)))"

definition pop_back :: "'a arr \<Rightarrow> 'a arr outcome" where
  "pop_back a = andthen (check_not_empty a) (\<lambda>_. nothrow (do {
     b \<leftarrow> m_base a;
     b \<leftarrow> destroy b (m_end1 a - 1) (m_end1 a);
     Some (a\<lparr>m_base := Some b, m_end1 := m_end1 a - 1\<rparr>) }))"

subsection \<open>Memory\<close>

definition clear_and_rawset :: "'a arr \<Rightarrow> 'a block option \<Rightarrow> nat \<Rightarrow> 'a arr option" where
  "clear_and_rawset a p e = do {
     ds \<leftarrow> (case m_base a of None \<Rightarrow> Some (deallocs a)
       | Some b \<Rightarrow> do { _ \<leftarrow> destroy b 0 (m_end1 a); Some ((length b, length b - m_end1 a) # deallocs a) });
     Some \<lparr>m_base = p, m_end1 = e, deallocs = ds\<rparr> }"

definition allocate :: "(nat \<Rightarrow> bool) \<Rightarrow> nat \<Rightarrow> 'a block outcome" where
  "allocate al n = (if al n then ret (replicate n None) else throw XBadAlloc)"

text \<open>\<open>_alloc_copy(capacity, first, count)\<close>, with the elements it copies; the form that fills with a
  value copies \<open>count\<close> times that value.\<close>

definition alloc_copy :: "(nat \<Rightarrow> bool) \<Rightarrow> nat \<Rightarrow> 'a list \<Rightarrow> 'a block option outcome" where
  "alloc_copy al cap xs = (if cap = 0 then ret None
     else andthen (allocate al cap) (\<lambda>p. nothrow (map_option Some (construct p 0 xs))))"

definition elements :: "'a arr \<Rightarrow> 'a list option" where
  "elements a = (case m_base a of None \<Rightarrow> Some [] | Some b \<Rightarrow> slots_read b 0 (m_end1 a))"

definition gen_size :: "size_t \<Rightarrow> nat \<Rightarrow> nat \<Rightarrow> nat outcome" where
  "gen_size mx n0 n1 = (if mx - of_nat n0 \<le> of_nat n1 then throw XBadAlloc
     else ret (unat (gen (of_nat n0 + of_nat n1))))"

definition arr_copy :: "(nat \<Rightarrow> bool) \<Rightarrow> 'a arr \<Rightarrow> 'a arr outcome" where
  "arr_copy al a = andthen (nothrow (elements a)) (\<lambda>xs. andthen (alloc_copy al (arr_size a) xs) (\<lambda>p.
     ret \<lparr>m_base = p, m_end1 = arr_size a, deallocs = []\<rparr>))"

text \<open>\<open>same\<close> tells a self assignment.\<close>

definition arr_assign :: "(nat \<Rightarrow> bool) \<Rightarrow> bool \<Rightarrow> 'a arr \<Rightarrow> 'a arr \<Rightarrow> 'a arr outcome" where
  "arr_assign al same a b = (if same then ret a
     else andthen (nothrow (elements b)) (\<lambda>xs. andthen (alloc_copy al (arr_size b) xs) (\<lambda>p.
       nothrow (clear_and_rawset a p (arr_size b)))))"

definition arr_destroy :: "'a arr \<Rightarrow> 'a arr option" where
  "arr_destroy a = clear_and_rawset a None 0"

definition arr_clear :: "'a arr \<Rightarrow> 'a arr option" where
  "arr_clear a = (if m_end1 a \<noteq> 0 then do {
       b \<leftarrow> m_base a;
       b \<leftarrow> destroy b 0 (m_end1 a);
       Some (a\<lparr>m_base := Some b, m_end1 := 0\<rparr>) }
     else Some a)"

definition reserve :: "(nat \<Rightarrow> bool) \<Rightarrow> 'a arr \<Rightarrow> nat \<Rightarrow> 'a arr outcome" where
  "reserve al a cap = (if capacity a \<ge> cap then ret a
     else andthen (nothrow (elements a)) (\<lambda>xs. andthen (alloc_copy al cap xs) (\<lambda>p.
       nothrow (clear_and_rawset a p (arr_size a)))))"

definition shrink_to_fit :: "(nat \<Rightarrow> bool) \<Rightarrow> 'a arr \<Rightarrow> 'a arr outcome" where
  "shrink_to_fit al a = (if m_end1 a = capacity a then ret a
     else andthen (nothrow (elements a)) (\<lambda>xs. andthen (alloc_copy al (arr_size a) xs) (\<lambda>p.
       nothrow (clear_and_rawset a p (arr_size a)))))"

definition arr_resize_gen :: "(nat \<Rightarrow> bool) \<Rightarrow> 'a arr \<Rightarrow> nat \<Rightarrow> 'a \<Rightarrow> 'a arr outcome" where
  "arr_resize_gen al a n v = andthen (nothrow (elements a)) (\<lambda>xs. andthen (alloc_copy al n xs) (\<lambda>p. nothrow (do {
     b \<leftarrow> p;
     b \<leftarrow> construct b (arr_size a) (replicate (n - arr_size a) v);
     clear_and_rawset a (Some b) n })))"

definition arr_resize :: "(nat \<Rightarrow> bool) \<Rightarrow> 'a arr \<Rightarrow> nat \<Rightarrow> 'a \<Rightarrow> 'a arr outcome" where
  "arr_resize al a n v =
    (if arr_size a \<ge> n then (case m_base a of None \<Rightarrow> ret a
       | Some b \<Rightarrow> nothrow (do { b \<leftarrow> destroy b n (m_end1 a); Some (a\<lparr>m_base := Some b, m_end1 := n\<rparr>) }))
     else if capacity a \<ge> n then nothrow (do {
       b \<leftarrow> m_base a;
       b \<leftarrow> construct b (m_end1 a) (replicate (n - m_end1 a) v);
       Some (a\<lparr>m_base := Some b, m_end1 := n\<rparr>) })
     else arr_resize_gen al a n v)"

subsection \<open>Appending\<close>

definition append_gen :: "(nat \<Rightarrow> bool) \<Rightarrow> size_t \<Rightarrow> 'a arr \<Rightarrow> 'a source \<Rightarrow> nat \<Rightarrow> 'a arr outcome" where
  "append_gen al mx a s n = andthen (gen_size mx (arr_size a) n) (\<lambda>sz.
     andthen (nothrow (elements a)) (\<lambda>xs. andthen (alloc_copy al sz xs) (\<lambda>p. nothrow (do {
       b \<leftarrow> p;
       ys \<leftarrow> src_read (m_base a) s 0 n;
       b \<leftarrow> construct b (arr_size a) ys;
       clear_and_rawset a (Some b) (arr_size a + n) }))))"

definition append_range :: "(nat \<Rightarrow> bool) \<Rightarrow> size_t \<Rightarrow> 'a arr \<Rightarrow> 'a source \<Rightarrow> nat \<Rightarrow> 'a arr outcome" where
  "append_range al mx a s n = (if capacity a - m_end1 a < n then append_gen al mx a s n
     else if n = 0 then ret a
     else nothrow (do {
       b \<leftarrow> m_base a;
       ys \<leftarrow> src_read (m_base a) s 0 n;
       b \<leftarrow> construct b (m_end1 a) ys;
       Some (a\<lparr>m_base := Some b, m_end1 := m_end1 a + n\<rparr>) }))"

text \<open>\<open>append(val)\<close> and \<open>push_back\<close>, with its own growth step.\<close>

definition append_value :: "(nat \<Rightarrow> bool) \<Rightarrow> size_t \<Rightarrow> 'a arr \<Rightarrow> 'a source \<Rightarrow> 'a arr outcome" where
  "append_value al mx a s = (if m_end1 a = capacity a then append_gen al mx a s 1
     else nothrow (do {
       b \<leftarrow> m_base a;
       ys \<leftarrow> src_read (m_base a) s 0 1;
       b \<leftarrow> construct b (m_end1 a) ys;
       Some (a\<lparr>m_base := Some b, m_end1 := m_end1 a + 1\<rparr>) }))"

subsection \<open>Inserting and erasing\<close>

definition insert_gen :: "(nat \<Rightarrow> bool) \<Rightarrow> size_t \<Rightarrow> 'a arr \<Rightarrow> nat \<Rightarrow> 'a source \<Rightarrow> nat \<Rightarrow> ('a arr \<times> nat) outcome" where
  "insert_gen al mx a px s n = andthen (gen_size mx (arr_size a) n) (\<lambda>sz.
     andthen (allocate al sz) (\<lambda>b. nothrow (do {
       xs \<leftarrow> elements a;
       ys \<leftarrow> src_read (m_base a) s 0 n;
       b \<leftarrow> construct b 0 (take px xs);
       b \<leftarrow> construct b px ys;
       b \<leftarrow> construct b (px + n) (drop px xs);
       a \<leftarrow> clear_and_rawset a (Some b) (arr_size a + n);
       Some (a, px + n) })))"

text \<open>The loop \<open>for(T* d2=p2+count_;p2>p1;) *--d2=*--p2\<close>, one assignment after the other.\<close>

fun shift_back :: "'a block \<Rightarrow> nat \<Rightarrow> nat \<Rightarrow> nat \<Rightarrow> 'a block option" where
  "shift_back b p1 d2 0 = Some b"
| "shift_back b p1 d2 (Suc p2) = (if Suc p2 > p1 then do {
       xs \<leftarrow> slots_read b p2 (Suc p2);
       b \<leftarrow> assign_at b (d2 - 1) xs;
       shift_back b p1 (d2 - 1) p2 }
     else Some b)"

definition insert_inplace :: "'a arr \<Rightarrow> nat \<Rightarrow> 'a source \<Rightarrow> nat \<Rightarrow> 'a arr option" where
  "insert_inplace a p1 s n = do {
     b \<leftarrow> m_base a;
     let d1 = p1 + n;
     if m_end1 a \<ge> d1 then do {
       let dd = m_end1 a - d1;
       let p2 = p1 + dd;
       xs \<leftarrow> slots_read b p2 (p2 + n);
       b \<leftarrow> construct b (m_end1 a) xs;
       b \<leftarrow> shift_back b p1 (p2 + n) p2;
       ys \<leftarrow> src_read (Some b) s 0 n;
       b \<leftarrow> assign_at b p1 ys;
       Some (a\<lparr>m_base := Some b, m_end1 := m_end1 a + n\<rparr>) }
     else do {
       let m = d1 - m_end1 a;
       ys \<leftarrow> src_read (Some b) s (n - m) m;
       b \<leftarrow> construct b (m_end1 a) ys;
       xs \<leftarrow> slots_read b p1 (m_end1 a);
       b \<leftarrow> construct b (m_end1 a + m) xs;
       ys \<leftarrow> src_read (Some b) s 0 (n - m);
       b \<leftarrow> assign_at b p1 ys;
       Some (a\<lparr>m_base := Some b, m_end1 := m_end1 a + n\<rparr>) } }"

definition insert_range :: "(nat \<Rightarrow> bool) \<Rightarrow> size_t \<Rightarrow> 'a arr \<Rightarrow> nat \<Rightarrow> 'a source \<Rightarrow> nat \<Rightarrow> ('a arr \<times> nat) outcome" where
  "insert_range al mx a px s n =
    (if px = m_end1 a then andthen (append_range al mx a s n) (\<lambda>a. ret (a, m_end1 a))
     else if inside a s \<or> capacity a - m_end1 a < n then insert_gen al mx a px s n
     else nothrow (do { a \<leftarrow> insert_inplace a px s n; Some (a, px + n) }))"

definition erase :: "'a arr \<Rightarrow> nat \<Rightarrow> nat \<Rightarrow> ('a arr \<times> nat) option" where
  "erase a p1 n = do {
     let p2 = p1 + n;
     let p3 = m_end1 a;
     wassert (p1 \<le> m_end1 a \<and> p2 \<le> m_end1 a);
     case m_base a of None \<Rightarrow> Some (a, p1)
     | Some b \<Rightarrow> do {
         xs \<leftarrow> slots_read b p2 p3;
         b \<leftarrow> assign_at b p1 xs;
         let e = p1 + (p3 - p2);
         b \<leftarrow> destroy b e p3;
         Some (a\<lparr>m_base := Some b, m_end1 := e\<rparr>, p1) } }"

subsection \<open>Assigning\<close>

definition assign_fill :: "(nat \<Rightarrow> bool) \<Rightarrow> 'a arr \<Rightarrow> nat \<Rightarrow> 'a \<Rightarrow> 'a arr outcome" where
  "assign_fill al a n v =
    (if arr_size a \<ge> n then (case m_base a of None \<Rightarrow> ret a
       | Some b \<Rightarrow> nothrow (do {
           b \<leftarrow> assign_at b 0 (replicate n v);
           b \<leftarrow> destroy b n (m_end1 a);
           Some (a\<lparr>m_base := Some b, m_end1 := n\<rparr>) }))
     else if capacity a \<ge> n then nothrow (do {
       b \<leftarrow> m_base a;
       b \<leftarrow> construct b (m_end1 a) (replicate (n - m_end1 a) v);
       b \<leftarrow> assign_at b 0 (replicate (m_end1 a) v);
       Some (a\<lparr>m_base := Some b, m_end1 := n\<rparr>) })
     else andthen (alloc_copy al n (replicate n v)) (\<lambda>p. nothrow (clear_and_rawset a p n)))"

definition assign_range :: "(nat \<Rightarrow> bool) \<Rightarrow> 'a arr \<Rightarrow> 'a source \<Rightarrow> nat \<Rightarrow> 'a arr outcome" where
  "assign_range al a s n =
    (if inside a s then andthen (nothrow (src_read (m_base a) s 0 n)) (\<lambda>ys.
       andthen (alloc_copy al n ys) (\<lambda>p. nothrow (clear_and_rawset a p n)))
     else if arr_size a \<ge> n then (case m_base a of None \<Rightarrow> ret a
       | Some b \<Rightarrow> nothrow (do {
           ys \<leftarrow> src_read (Some b) s 0 n;
           b \<leftarrow> assign_at b 0 ys;
           b \<leftarrow> destroy b n (m_end1 a);
           Some (a\<lparr>m_base := Some b, m_end1 := n\<rparr>) }))
     else if capacity a \<ge> n then nothrow (do {
       b \<leftarrow> m_base a;
       ys \<leftarrow> src_read (Some b) s 0 (m_end1 a);
       b \<leftarrow> assign_at b 0 ys;
       ys \<leftarrow> src_read (Some b) s (m_end1 a) (n - m_end1 a);
       b \<leftarrow> construct b (m_end1 a) ys;
       Some (a\<lparr>m_base := Some b, m_end1 := n\<rparr>) })
     else andthen (nothrow (src_read (m_base a) s 0 n)) (\<lambda>ys.
       andthen (alloc_copy al n ys) (\<lambda>p. nothrow (clear_and_rawset a p n))))"

definition arr_swap :: "'a arr \<Rightarrow> 'a arr \<Rightarrow> 'a arr \<times> 'a arr" where
  "arr_swap a b = (b, a)"

text \<open>\<open>operator==\<close>: the sizes, then element by element.\<close>

fun eq_from :: "'a arr \<Rightarrow> 'a arr \<Rightarrow> nat \<Rightarrow> nat \<Rightarrow> bool option" where
  "eq_from a b i 0 = Some True"
| "eq_from a b i (Suc n) = do {
     x \<leftarrow> arr_nth a i;
     y \<leftarrow> arr_nth b i;
     if x \<noteq> y then Some False else eq_from a b (Suc i) n }"

definition arr_eq :: "'a arr \<Rightarrow> 'a arr \<Rightarrow> bool option" where
  "arr_eq a b = (if arr_size a \<noteq> arr_size b then Some False else eq_from a b 0 (arr_size a))"

subsection \<open>What an array holds\<close>

text \<open>\<open>holds a xs\<close>: the first \<open>m_end1\<close> slots hold the elements \<open>xs\<close>, the others nothing.\<close>

definition arr_holds :: "'a arr \<Rightarrow> 'a list \<Rightarrow> bool" where
  "arr_holds a xs \<longleftrightarrow> m_end1 a = length xs \<and>
     (case m_base a of None \<Rightarrow> xs = []
      | Some b \<Rightarrow> \<exists>k. b = map Some xs @ replicate k None)"

named_theorems slot_simps "effect of slot operations on a block that holds a list"

abbreviation blk :: "'a list \<Rightarrow> nat \<Rightarrow> 'a block" where
  "blk xs k \<equiv> map Some xs @ replicate k None"

lemma slots_read_blk [slot_simps]:
  "i \<le> j \<Longrightarrow> j \<le> length xs \<Longrightarrow> slots_read (blk xs k) i j = Some (take (j - i) (drop i xs))"
  by (auto simp: slots_read_def drop_map take_map dest: in_set_takeD)

lemma construct_blk [slot_simps]:
  "length ys \<le> k \<Longrightarrow> construct (blk xs k) (length xs) ys = Some (blk (xs @ ys) (k - length ys))"
  by (auto simp: construct_def slots_put_def dest: in_set_takeD)

lemma assign_blk [slot_simps]:
  "i + length ys \<le> length xs \<Longrightarrow> assign_at (blk xs k) i ys = Some (blk (take i xs @ ys @ drop (i + length ys) xs) k)"
  by (auto simp: assign_at_def slots_put_def take_map drop_map dest: in_set_takeD)

lemma destroy_blk [slot_simps]:
  "i \<le> length xs \<Longrightarrow> destroy (blk xs k) i (length xs) = Some (blk (take i xs) (k + (length xs - i)))"
  by (auto simp: destroy_def take_map drop_map replicate_add [symmetric] add.commute dest: in_set_takeD)

lemma construct_start [slot_simps]:
  "length ys \<le> k \<Longrightarrow> construct (replicate k None) 0 ys = Some (blk ys (k - length ys))"
  using construct_blk [of ys k "[]"] by simp

lemma arr_holdsE:
  assumes "arr_holds a xs"
  obtains "m_base a = None" "xs = []" "m_end1 a = 0" "capacity a = 0"
    | k where "m_base a = Some (blk xs k)" "m_end1 a = length xs" "capacity a = length xs + k"
  using assms by (auto simp: arr_holds_def capacity_def split: option.splits)

lemma arr_holds_blk: "m_base a = Some (blk xs k) \<Longrightarrow> m_end1 a = length xs \<Longrightarrow> arr_holds a xs"
  by (auto simp: arr_holds_def)

lemma elements_ok: "arr_holds a xs \<Longrightarrow> elements a = Some xs"
  by (erule arr_holdsE) (simp_all add: elements_def slot_simps)

lemma size_ok: "arr_holds a xs \<Longrightarrow> arr_size a = length xs"
  by (simp add: arr_holds_def arr_size_def)

lemma capacity_ge: "arr_holds a xs \<Longrightarrow> length xs \<le> capacity a"
  by (erule arr_holdsE) simp_all

lemma clear_and_rawset_ok:
  assumes "arr_holds a xs"
  obtains ds where "\<forall>p e. clear_and_rawset a p e = Some \<lparr>m_base = p, m_end1 = e, deallocs = ds\<rparr>"
  using assms by (cases rule: arr_holdsE) (simp_all add: clear_and_rawset_def slot_simps)

text \<open>\<open>_alloc_copy\<close> succeeds exactly when the allocator has room (or nothing is needed).\<close>

lemma alloc_copy_ok:
  "length xs \<le> n \<Longrightarrow> alloc_copy al n xs =
    (if n = 0 then ret None else if al n then ret (Some (blk xs (n - length xs))) else throw XBadAlloc)"
  by (simp add: alloc_copy_def allocate_def slot_simps)

text \<open>The outcome of an operation that may need memory: it throws, and does so only when the
  allocator has no room or the size is beyond the allocator's maximum, or it gives the list.\<close>

definition gives :: "bool \<Rightarrow> 'a arr outcome \<Rightarrow> 'a list \<Rightarrow> bool" where
  "gives room m xs \<longleftrightarrow> (if room then \<exists>a. m = ret a \<and> arr_holds a xs else m = throw XBadAlloc)"

lemma gives_ret: "arr_holds a xs \<Longrightarrow> gives True (ret a) xs"
  by (simp add: gives_def)

text \<open>Moving to a new block of \<open>n\<close> slots.\<close>

lemma move_ok:
  assumes "arr_holds a xs" and "length ys \<le> n"
  shows "gives (n = 0 \<or> al n) (andthen (alloc_copy al n ys) (\<lambda>p. nothrow (clear_and_rawset a p (length ys)))) ys"
proof -
  obtain ds where "\<forall>p e. clear_and_rawset a p e = Some \<lparr>m_base = p, m_end1 = e, deallocs = ds\<rparr>"
    by (rule clear_and_rawset_ok [OF assms(1)])
  then show ?thesis using assms(2) by (auto simp: gives_def alloc_copy_ok arr_holds_def)
qed

lemma copy_ok: "arr_holds a xs \<Longrightarrow> gives (xs = [] \<or> al (length xs)) (arr_copy al a) xs"
  by (auto simp: arr_copy_def elements_ok size_ok alloc_copy_ok gives_def arr_holds_def)

lemma assign_arr_ok:
  "arr_holds a xs \<Longrightarrow> arr_holds b ys \<Longrightarrow> gives (ys = [] \<or> al (length ys)) (arr_assign al False a b) ys"
  using move_ok [of a xs ys "length ys" al] by (simp add: arr_assign_def elements_ok size_ok)

lemma clear_ok: "arr_holds a xs \<Longrightarrow> \<exists>a'. arr_clear a = Some a' \<and> arr_holds a' [] \<and> capacity a' = capacity a"
  by (erule arr_holdsE) (auto simp: arr_clear_def slot_simps arr_holds_def capacity_def)

lemma reserve_ok: "arr_holds a xs \<Longrightarrow> gives (n \<le> capacity a \<or> al n) (reserve al a n) xs"
  using move_ok [of a xs xs n al] capacity_ge [of a xs]
  by (auto simp: reserve_def elements_ok size_ok gives_def)

lemma shrink_ok:
  "arr_holds a xs \<Longrightarrow> gives (length xs = capacity a \<or> xs = [] \<or> al (length xs)) (shrink_to_fit al a) xs"
  using move_ok [of a xs xs "length xs" al] by (auto simp: shrink_to_fit_def elements_ok size_ok gives_def arr_holds_def)

lemma arr_resize_ok:
  assumes "arr_holds a xs"
  shows "gives (n \<le> capacity a \<or> al n) (arr_resize al a n v) (take n xs @ replicate (n - length xs) v)"
  using assms
proof (cases rule: arr_holdsE)
  case 1
  then show ?thesis
    by (auto simp: arr_resize_def arr_resize_gen_def arr_size_def elements_def alloc_copy_ok gives_def slot_simps
      clear_and_rawset_def arr_holds_def)
next
  case (2 k)
  note e = elements_ok [OF assms] size_ok [OF assms]
  consider "n \<le> length xs" | "length xs < n" "n \<le> capacity a" | "capacity a < n" by linarith
  then show ?thesis
  proof cases
    case 1
    then show ?thesis using 2 e by (auto simp: arr_resize_def gives_def slot_simps arr_holds_def)
  next
    case i: 2
    then have "construct (blk xs k) (length xs) (replicate (n - length xs) v) =
      Some (blk (xs @ replicate (n - length xs) v) (k - (n - length xs)))" using 2 by (simp add: slot_simps)
    then show ?thesis using i 2 e by (auto simp: arr_resize_def gives_def arr_holds_def)
  next
    case 3
    obtain ds where ds: "\<forall>p e. clear_and_rawset a p e = Some \<lparr>m_base = p, m_end1 = e, deallocs = ds\<rparr>"
      by (rule clear_and_rawset_ok [OF assms])
    have "construct (blk xs (n - length xs)) (length xs) (replicate (n - length xs) v) =
      Some (blk (xs @ replicate (n - length xs) v) 0)" using construct_blk [of "replicate (n - length xs) v" "n - length xs" xs] by simp
    then show ?thesis using 3 2 e ds
      by (auto simp: arr_resize_def arr_resize_gen_def gives_def alloc_copy_ok arr_holds_def)
  qed
qed

subsection \<open>Growing\<close>

text \<open>What a source denotes, and that it has \<open>n\<close> elements.\<close>

definition src_vals :: "'a list \<Rightarrow> 'a source \<Rightarrow> 'a list" where
  "src_vals xs s = (case s of Ext ys \<Rightarrow> ys | Own i \<Rightarrow> drop i xs)"

definition src_ok :: "'a list \<Rightarrow> 'a source \<Rightarrow> nat \<Rightarrow> bool" where
  "src_ok xs s n \<longleftrightarrow> n \<le> length (src_vals xs s) \<and> (case s of Ext _ \<Rightarrow> True | Own i \<Rightarrow> i < length xs)"

lemma src_read_ok:
  assumes "arr_holds a xs" and "src_ok xs s (k + n)"
  shows "src_read (m_base a) s k n = Some (take n (drop k (src_vals xs s)))"
  using assms(1)
proof (cases rule: arr_holdsE)
  case 1
  then show ?thesis using assms(2) by (auto simp: src_read_def src_ok_def src_vals_def split: source.splits)
next
  case (2 m)
  then show ?thesis using assms(2)
    by (auto simp: src_read_def src_ok_def src_vals_def slots_read_blk add.commute split: source.splits)
qed

lemma src_read_ext: "\<not> inside a s \<Longrightarrow> arr_holds a xs \<Longrightarrow> src_ok xs s (k + n) \<Longrightarrow>
    src_read b s k n = Some (take n (drop k (src_vals xs s)))"
  using capacity_ge [of a xs]
  by (auto simp: src_read_def src_ok_def src_vals_def inside_def split: source.splits)

text \<open>The size an array grows to has room for the elements.\<close>

definition grow_room :: "(nat \<Rightarrow> bool) \<Rightarrow> size_t \<Rightarrow> nat \<Rightarrow> bool" where
  "grow_room al mx n \<longleftrightarrow> n < unat mx \<and> al (unat (gen (of_nat n)))"

lemma unat_of_nat_size: "n < 2 ^ 64 \<Longrightarrow> unat (of_nat n :: size_t) = n"
  by (simp add: unsigned_of_nat take_bit_nat_eq_self)

lemma gen_size_ok:
  assumes "n0 \<le> unat mx" and "n1 < 2 ^ 64"
  shows "gen_size mx n0 n1 = (if n0 + n1 < unat mx then ret (unat (gen (of_nat (n0 + n1)))) else throw XBadAlloc)"
    and "n0 + n1 < unat mx \<Longrightarrow> n0 + n1 \<le> unat (gen (of_nat (n0 + n1)))"
proof -
  have m: "unat mx < 2 ^ 64" by (rule unat_size_less)
  have a: "unat (of_nat n0 :: size_t) = n0" "unat (of_nat n1 :: size_t) = n1"
    using assms m by (simp_all add: unat_of_nat_size)
  have "unat (mx - of_nat n0) = unat mx - n0"
    using assms(1) a by (subst unat_sub) (simp_all add: word_le_nat_alt)
  then have "mx - of_nat n0 \<le> of_nat n1 \<longleftrightarrow> \<not> n0 + n1 < unat mx"
    using a assms(1) by (auto simp: word_le_nat_alt)
  then show "gen_size mx n0 n1 = (if n0 + n1 < unat mx then ret (unat (gen (of_nat (n0 + n1)))) else throw XBadAlloc)"
    by (simp add: gen_size_def)
  assume l: "n0 + n1 < unat mx"
  then have "unat (of_nat (n0 + n1) :: size_t) = n0 + n1" using m by (simp only: unat_of_nat_size)
  then show "n0 + n1 \<le> unat (gen (of_nat (n0 + n1)))" using gen_ge [of "of_nat (n0 + n1)"] by simp
qed

lemma append_gen_ok:
  assumes h: "arr_holds a xs" and s: "src_ok xs s n" and n: "n < 2 ^ 64" "0 < n" and m: "length xs \<le> unat mx"
  shows "gives (grow_room al mx (length xs + n)) (append_gen al mx a s n) (xs @ take n (src_vals xs s))"
proof (cases "grow_room al mx (length xs + n)")
  case False
  have "gen (of_nat (length xs + n)) \<noteq> 0" if "length xs + n < unat mx"
    using gen_size_ok(2) [OF m n(1) that] n(2) by (metis add_is_0 le_zero_eq less_irrefl unsigned_0)
  then show ?thesis using False gen_size_ok(1) [OF m n(1)]
    by (auto simp: append_gen_def gives_def size_ok [OF h] elements_ok [OF h] grow_room_def alloc_copy_def allocate_def unat_eq_zero)
next
  case True
  then have l: "length xs + n < unat mx" and al: "al (unat (gen (of_nat (length xs + n))))"
    by (simp_all add: grow_room_def)
  define g where "g = unat (gen (of_nat (length xs + n)))"
  have g: "length xs + n \<le> g" using gen_size_ok(2) [OF m n(1) l] by (simp add: g_def)
  obtain ds where ds: "\<forall>p e. clear_and_rawset a p e = Some \<lparr>m_base = p, m_end1 = e, deallocs = ds\<rparr>"
    by (rule clear_and_rawset_ok [OF h])
  have r: "src_read (m_base a) s 0 n = Some (take n (src_vals xs s))"
    using src_read_ok [OF h, of s 0 n] s by simp
  have len: "length (take n (src_vals xs s)) = n" using s by (simp add: src_ok_def)
  have "construct (blk xs (g - length xs)) (length xs) (take n (src_vals xs s)) =
      Some (blk (xs @ take n (src_vals xs s)) (g - length xs - n))"
    using construct_blk [of "take n (src_vals xs s)" "g - length xs" xs] len g by simp
  moreover have "gen_size mx (length xs) n = ret g" using gen_size_ok(1) [OF m n(1)] l by (simp only: g_def if_True)
  moreover have "alloc_copy al g xs = ret (Some (blk xs (g - length xs)))"
    using al g n(2) by (subst alloc_copy_ok) (auto simp only: g_def if_True, auto)
  ultimately have "append_gen al mx a s n =
      ret \<lparr>m_base = Some (blk (xs @ take n (src_vals xs s)) (g - length xs - n)), m_end1 = length xs + n, deallocs = ds\<rparr>"
    by (simp only: append_gen_def size_ok [OF h] elements_ok [OF h] r andthen_simps nothrow_simps ds bind.bind_lunit)
  then show ?thesis using True len by (simp add: gives_def arr_holds_blk)
qed

text \<open>The room an operation that adds \<open>n\<close> elements needs.\<close>

definition add_room :: "(nat \<Rightarrow> bool) \<Rightarrow> size_t \<Rightarrow> 'a arr \<Rightarrow> nat \<Rightarrow> bool" where
  "add_room al mx a n \<longleftrightarrow> n \<le> capacity a - m_end1 a \<or> grow_room al mx (m_end1 a + n)"

lemma append_range_ok:
  assumes h: "arr_holds a xs" and s: "src_ok xs s n" and n: "n < 2 ^ 64" and m: "length xs \<le> unat mx"
  shows "gives (add_room al mx a n) (append_range al mx a s n) (xs @ take n (src_vals xs s))"
proof -
  have e: "m_end1 a = length xs" using h by (simp add: arr_holds_def)
  have r: "src_read (m_base a) s 0 n = Some (take n (src_vals xs s))"
    using src_read_ok [OF h, of s 0 n] s by simp
  have len: "length (take n (src_vals xs s)) = n" using s by (simp add: src_ok_def)
  consider "capacity a - m_end1 a < n" | "n = 0" | "n \<le> capacity a - m_end1 a" "0 < n" by linarith
  then show ?thesis
  proof cases
    case 1
    then show ?thesis using append_gen_ok [OF h s n _ m, of al] e by (simp add: append_range_def add_room_def)
  next
    case 2
    then show ?thesis using h by (simp add: append_range_def add_room_def gives_def)
  next
    case 3
    from h show ?thesis
    proof (cases rule: arr_holdsE)
      case (2 k)
      then have "construct (blk xs k) (length xs) (take n (src_vals xs s)) =
          Some (blk (xs @ take n (src_vals xs s)) (k - n))"
        using construct_blk [of "take n (src_vals xs s)" k xs] len 3 by simp
      then show ?thesis using 2 3 r len by (auto simp: append_range_def add_room_def gives_def arr_holds_def)
    qed (use 3 in simp)
  qed
qed

lemma append_value_ok:
  assumes h: "arr_holds a xs" and s: "src_ok xs s 1" and m: "length xs \<le> unat mx"
  shows "gives (add_room al mx a 1) (append_value al mx a s) (xs @ take 1 (src_vals xs s))"
proof -
  have "append_value al mx a s = append_range al mx a s 1"
    using capacity_ge [OF h] h by (auto simp: append_value_def append_range_def arr_holds_def)
  then show ?thesis using append_range_ok [OF h s _ m, of al] by simp
qed

subsection \<open>Inserting\<close>

lemma shift_back_ok:
  "p1 \<le> p2 \<Longrightarrow> p2 + n \<le> length xs \<Longrightarrow> shift_back (blk xs k) p1 (p2 + n) p2 =
    Some (blk (take (p1 + n) xs @ take (p2 - p1) (drop p1 xs) @ drop (p2 + n) xs) k)"
proof (induction p2 arbitrary: xs)
  case (Suc q)
  show ?case
  proof (cases "p1 = Suc q")
    case False
    define ys where "ys = take (q + n) xs @ [xs ! q] @ drop (Suc q + n) xs"
    have "slots_read (blk xs k) q (Suc q) = Some [xs ! q]"
      using Suc.prems by (simp add: slots_read_blk take_Suc_conv_app_nth drop_Suc hd_drop_conv_nth take_Suc)
    moreover have "assign_at (blk xs k) (Suc q + n - 1) [xs ! q] = Some (blk ys k)"
      using Suc.prems assign_blk [of "q + n" "[xs ! q]" xs k] by (simp add: ys_def)
    moreover have "take (p1 + n) ys @ take (q - p1) (drop p1 ys) @ drop (q + n) ys =
        take (p1 + n) xs @ take (Suc q - p1) (drop p1 xs) @ drop (Suc q + n) xs"
    proof -
      have "take (Suc q - p1) (drop p1 xs) = take (q - p1) (drop p1 xs) @ [xs ! q]"
        using Suc.prems False by (simp add: Suc_diff_le take_Suc_conv_app_nth)
      moreover have "take (p1 + n) ys = take (p1 + n) xs" "take (q - p1) (drop p1 ys) = take (q - p1) (drop p1 xs)"
        "drop (q + n) ys = [xs ! q] @ drop (Suc q + n) xs"
        using Suc.prems False by (auto simp: ys_def min_def drop_take)
      ultimately show ?thesis by simp
    qed
    moreover have "shift_back (blk ys k) p1 (q + n) q =
        Some (blk (take (p1 + n) ys @ take (q - p1) (drop p1 ys) @ drop (q + n) ys) k)"
      using Suc.prems False by (intro Suc.IH) (auto simp: ys_def)
    ultimately show ?thesis using Suc.prems False by (simp only: shift_back.simps) (simp del: map_append)
  qed (use Suc.prems in simp)
qed simp

lemma insert_inplace_ok:
  assumes b: "m_base a = Some (blk xs k)" and e: "m_end1 a = length xs" and p: "p < length xs"
    and n: "n \<le> k" and r: "\<And>b i m. i + m \<le> n \<Longrightarrow> src_read b s i m = Some (take m (drop i ys))" and l: "length ys = n"
  shows "\<exists>a'. insert_inplace a p s n = Some a' \<and> arr_holds a' (take p xs @ ys @ drop p xs)"
proof (cases "p + n \<le> length xs")
  case True
  define q where "q = length xs - n"
  have q: "p + (length xs - (p + n)) = q" "q + n = length xs" "p \<le> q" using True by (simp_all add: q_def)
  let ?x = "xs @ drop q xs"
  have 1: "slots_read (blk xs k) q (q + n) = Some (drop q xs)" using q by (simp add: slots_read_blk)
  have 2: "construct (blk xs k) (length xs) (drop q xs) = Some (blk ?x (k - n))"
    using construct_blk [of "drop q xs" k xs] q n by (simp add: q_def True)
  have 3: "shift_back (blk ?x (k - n)) p (q + n) q =
      Some (blk (take (p + n) xs @ take (q - p) (drop p xs) @ drop q xs) (k - n))"
    using shift_back_ok [of p q n ?x "k - n"] q True by simp
  have "take (q - p) (drop p xs) @ drop q xs = drop p xs" using q(3) by (metis append_take_drop_id drop_drop le_add_diff_inverse2)
  then have 4: "assign_at (blk (take (p + n) xs @ take (q - p) (drop p xs) @ drop q xs) (k - n)) p ys =
      Some (blk (take p xs @ ys @ drop p xs) (k - n))"
    using assign_blk [of p ys "take (p + n) xs @ drop p xs" "k - n"] True l by (simp add: min_absorb2)
  show ?thesis
    unfolding insert_inplace_def Let_def b e bind.bind_lunit
    using True l r [of 0 n] p by (simp only: if_True q 1 [unfolded q(2)] 2 3 [unfolded q(2)] 4 bind.bind_lunit le_refl add_0 drop_0 take_all)
      (auto simp: arr_holds_def l)
next
  case False
  define m where "m = p + n - length xs"
  have m: "m \<le> n" "n - m = length xs - p" "n - m + m = n" using False p by (simp_all add: m_def)
  let ?x = "xs @ drop (n - m) ys"
  have 1: "construct (blk xs k) (length xs) (drop (n - m) ys) = Some (blk ?x (k - m))"
    using construct_blk [of "drop (n - m) ys" k xs] m n l by simp
  have 2: "slots_read (blk ?x (k - m)) p (length xs) = Some (drop p xs)"
    using p by (subst slots_read_blk) auto
  have 3: "construct (blk ?x (k - m)) (length xs + m) (drop p xs) = Some (blk (?x @ drop p xs) (k - n))"
  proof -
    have a: "length ?x = length xs + m" "length (drop p xs) \<le> k - m" "k - m - length (drop p xs) = k - n"
      unfolding length_append length_drop l using m n p by linarith+
    show ?thesis using construct_blk [of "drop p xs" "k - m" ?x] a(2) by (simp only: a)
  qed
  have 4: "assign_at (blk (?x @ drop p xs) (k - n)) p (take (n - m) ys) = Some (blk (take p xs @ ys @ drop p xs) (k - n))"
  proof -
    have "p + (n - m) = length xs" using m p by simp
    then show ?thesis using assign_blk [of p "take (n - m) ys" "?x @ drop p xs" "k - n"] p m l
      by (simp add: min_absorb2 append_assoc [symmetric] del: append_assoc)
  qed
  have r1: "src_read b s (n - m) m = Some (drop (n - m) ys)" for b using r [of "n - m" m b] m l by simp
  have r2: "src_read b s 0 (n - m) = Some (take (n - m) ys)" for b using r [of 0 "n - m" b] by simp
  show ?thesis
    unfolding insert_inplace_def Let_def b e bind.bind_lunit m_def [symmetric]
    using False by (simp only: if_False r1 r2 1 2 3 4 bind.bind_lunit) (auto simp: arr_holds_def l)
qed

lemma insert_gen_ok:
  assumes h: "arr_holds a xs" and s: "src_ok xs s n" and n: "n < 2 ^ 64" and m: "length xs \<le> unat mx"
    and p: "p < length xs"
  shows "if grow_room al mx (length xs + n)
    then \<exists>a'. insert_gen al mx a p s n = ret (a', p + n) \<and> arr_holds a' (take p xs @ take n (src_vals xs s) @ drop p xs)
    else insert_gen al mx a p s n = throw XBadAlloc"
proof (cases "grow_room al mx (length xs + n)")
  case False
  then show ?thesis using gen_size_ok(1) [OF m n]
    by (auto simp: insert_gen_def size_ok [OF h] grow_room_def allocate_def)
next
  case True
  then have l: "length xs + n < unat mx" and al: "al (unat (gen (of_nat (length xs + n))))"
    by (simp_all add: grow_room_def)
  define g where "g = unat (gen (of_nat (length xs + n)))"
  have g: "length xs + n \<le> g" using gen_size_ok(2) [OF m n l] by (simp add: g_def)
  let ?ys = "take n (src_vals xs s)"
  obtain ds where ds: "\<forall>p e. clear_and_rawset a p e = Some \<lparr>m_base = p, m_end1 = e, deallocs = ds\<rparr>"
    by (rule clear_and_rawset_ok [OF h])
  have r: "src_read (m_base a) s 0 n = Some ?ys" using src_read_ok [OF h, of s 0 n] s by simp
  have len: "length ?ys = n" using s by (simp add: src_ok_def)
  have gs: "gen_size mx (length xs) n = ret g" using gen_size_ok(1) [OF m n] l by (simp only: g_def if_True)
  have 0: "allocate al g = ret (replicate g None)" using al by (simp add: allocate_def g_def)
  have 1: "construct (replicate g None) 0 (take p xs) = Some (blk (take p xs) (g - p))"
    using construct_blk [of "take p xs" g "[]"] p g by simp
  have 2: "construct (blk (take p xs) (g - p)) p ?ys = Some (blk (take p xs @ ?ys) (g - p - n))"
    using construct_blk [of ?ys "g - p" "take p xs"] p g len by simp
  have 3: "construct (blk (take p xs @ ?ys) (g - p - n)) (p + n) (drop p xs) =
      Some (blk ((take p xs @ ?ys) @ drop p xs) (g - p - n - (length xs - p)))"
    using construct_blk [of "drop p xs" "g - p - n" "take p xs @ ?ys"] p g len by simp
  have "insert_gen al mx a p s n =
      ret (\<lparr>m_base = Some (blk ((take p xs @ ?ys) @ drop p xs) (g - p - n - (length xs - p))),
        m_end1 = length xs + n, deallocs = ds\<rparr>, p + n)"
    by (simp only: insert_gen_def size_ok [OF h] elements_ok [OF h] gs 0 r andthen_simps nothrow_simps ds bind.bind_lunit 1 2 3)
  moreover have "length ((take p xs @ ?ys) @ drop p xs) = length xs + n" using len p by simp
  ultimately show ?thesis using True
    by (auto intro!: arr_holds_blk [where k = "g - p - n - (length xs - p)"])
qed

lemma insert_range_ok:
  assumes h: "arr_holds a xs" and s: "src_ok xs s n" and n: "n < 2 ^ 64" and m: "length xs \<le> unat mx"
    and p: "p \<le> length xs"
    and room: "add_room al mx a n \<and> (inside a s \<longrightarrow> grow_room al mx (length xs + n))"
  shows "\<exists>a'. insert_range al mx a p s n = ret (a', p + n) \<and> arr_holds a' (take p xs @ take n (src_vals xs s) @ drop p xs)"
proof -
  have e: "m_end1 a = length xs" using h by (simp add: arr_holds_def)
  let ?ys = "take n (src_vals xs s)"
  have len: "length ?ys = n" using s by (simp add: src_ok_def)
  consider "p = length xs" | "p < length xs" "inside a s \<or> capacity a - m_end1 a < n"
    | "p < length xs" "\<not> inside a s" "n \<le> capacity a - m_end1 a" using p by linarith
  then show ?thesis
  proof cases
    case 1
    obtain a' where a': "append_range al mx a s n = ret a'" "arr_holds a' (xs @ ?ys)"
      using append_range_ok [OF h s n m, of al] room by (auto simp: gives_def)
    then have "m_end1 a' = length xs + n" using len by (simp add: arr_holds_def)
    then show ?thesis using 1 a' e by (auto simp: insert_range_def)
  next
    case 2
    then have "grow_room al mx (length xs + n)" using room e by (auto simp: add_room_def)
    then show ?thesis using insert_gen_ok [OF h s n m, of p al] 2 e by (auto simp: insert_range_def)
  next
    case 3
    from h show ?thesis
    proof (cases rule: arr_holdsE)
      case (2 k)
      have "src_read b s i j = Some (take j (drop i ?ys))" if "i + j \<le> n" for b i j
        using src_read_ext [OF 3(2) h, of i j b] s that by (simp add: src_ok_def drop_take)
      then obtain a' where "insert_inplace a p s n = Some a'" "arr_holds a' (take p xs @ ?ys @ drop p xs)"
        using insert_inplace_ok [OF 2(1,2) 3(1), of n s ?ys] 2 3 len by auto
      then show ?thesis using 3 e by (auto simp: insert_range_def)
    qed (use 3 in simp)
  qed
qed

subsection \<open>Erasing and assigning\<close>

lemma erase_ok:
  assumes h: "arr_holds a xs" and p: "p + n \<le> length xs"
  shows "\<exists>a'. erase a p n = Some (a', p) \<and> arr_holds a' (take p xs @ drop (p + n) xs) \<and> capacity a' = capacity a"
  using h
proof (cases rule: arr_holdsE)
  case a: (2 k)
  let ?x = "take p xs @ drop (p + n) xs @ drop (p + (length xs - (p + n))) xs"
  have 1: "slots_read (blk xs k) (p + n) (length xs) = Some (drop (p + n) xs)"
    using p by (simp add: slots_read_blk)
  have 2: "assign_at (blk xs k) p (drop (p + n) xs) = Some (blk ?x k)"
    using p assign_blk [of p "drop (p + n) xs" xs k] by simp
  have 3: "destroy (blk ?x k) (p + (length xs - (p + n))) (length xs) =
      Some (blk (take (p + (length xs - (p + n))) ?x) (k + n))"
    using p destroy_blk [of "p + (length xs - (p + n))" ?x k] by simp
  have "erase a p n = Some (a\<lparr>m_base := Some (blk (take p xs @ drop (p + n) xs) (k + n)),
      m_end1 := p + (length xs - (p + n))\<rparr>, p)"
    using p 1 2 3 a by (simp add: erase_def Let_def)
  then show ?thesis using p a by (auto simp: arr_holds_def capacity_def)
qed (use p in \<open>auto simp: erase_def Let_def arr_holds_def capacity_def\<close>)

lemma assign_range_ok:
  assumes h: "arr_holds a xs" and s: "src_ok xs s n"
  shows "gives (if inside a s then n = 0 \<or> al n else n \<le> capacity a \<or> al n) (assign_range al a s n) (take n (src_vals xs s))"
proof -
  let ?ys = "take n (src_vals xs s)"
  have e: "m_end1 a = length xs" "arr_size a = length xs" using h by (simp_all add: arr_holds_def arr_size_def)
  have len: "length ?ys = n" using s by (simp add: src_ok_def)
  have r: "src_read (m_base a) s 0 n = Some ?ys" using src_read_ok [OF h, of s 0 n] s by simp
  have mv: "gives (n = 0 \<or> al n) (andthen (nothrow (src_read (m_base a) s 0 n)) (\<lambda>ys.
       andthen (alloc_copy al n ys) (\<lambda>p. nothrow (clear_and_rawset a p n)))) ?ys"
    using move_ok [OF h, of ?ys n al] len r by simp
  consider "inside a s" | "\<not> inside a s" "capacity a < n" | "\<not> inside a s" "n \<le> capacity a" "length xs < n"
    | "\<not> inside a s" "n \<le> length xs" by linarith
  then show ?thesis
  proof cases
    case 1
    then show ?thesis using mv by (simp add: assign_range_def)
  next
    case 2
    then show ?thesis using mv capacity_ge [OF h] e by (simp add: assign_range_def)
  next
    case 3
    from h show ?thesis
    proof (cases rule: arr_holdsE)
      case (2 k)
      have r1: "src_read (Some b) s 0 (length xs) = Some (take (length xs) ?ys)" for b
        using src_read_ext [OF 3(1) h, of 0 "length xs"] s 3 by (simp add: src_ok_def)
      have r2: "src_read (Some b) s (length xs) (n - length xs) = Some (drop (length xs) ?ys)" for b
        using src_read_ext [OF 3(1) h, of "length xs" "n - length xs"] s 3 by (simp add: src_ok_def drop_take)
      have "assign_at (blk xs k) 0 (take (length xs) ?ys) = Some (blk (take (length xs) ?ys) k)"
        using assign_blk [of 0 "take (length xs) ?ys" xs k] 3 len by simp
      moreover have "construct (blk (take (length xs) ?ys) k) (length xs) (drop (length xs) ?ys) = Some (blk ?ys (k - (n - length xs)))"
      proof -
        have l: "length (take (length xs) ?ys) = length xs" "length (drop (length xs) ?ys) = n - length xs"
          "n - length xs \<le> k" using 3 len 2 by simp_all
        show ?thesis using construct_blk [of "drop (length xs) ?ys" k "take (length xs) ?ys"] l(3)
          by (simp only: l append_take_drop_id)
      qed
      ultimately show ?thesis using 2 3 e len
        by (auto simp: assign_range_def gives_def r1 r2 arr_holds_def)
    qed (use 3 in simp)
  next
    case 4
    from h show ?thesis
    proof (cases rule: arr_holdsE)
      case 1
      then show ?thesis using 4 e h by (simp add: assign_range_def gives_def)
    next
      case (2 k)
      let ?x = "?ys @ drop n xs"
      have "src_read (Some b) s 0 n = Some ?ys" for b
        using src_read_ext [OF 4(1) h, of 0 n] s by simp
      moreover have "assign_at (blk xs k) 0 ?ys = Some (blk ?x k)"
        using assign_blk [of 0 ?ys xs k] 4 len by simp
      moreover have "destroy (blk ?x k) n (length xs) = Some (blk ?ys (k + (length xs - n)))"
        using destroy_blk [of n ?x k] 4 len by simp
      ultimately show ?thesis using 2 4 e len by (auto simp: assign_range_def gives_def arr_holds_def)
    qed
  qed
qed

lemma assign_fill_ok:
  assumes h: "arr_holds a xs"
  shows "gives (n \<le> capacity a \<or> al n) (assign_fill al a n v) (replicate n v)"
proof (cases "length xs < n \<and> n \<le> capacity a")
  case True
  from h show ?thesis
  proof (cases rule: arr_holdsE)
    case (2 k)
    have "construct (blk xs k) (length xs) (replicate (n - length xs) v) =
        Some (blk (xs @ replicate (n - length xs) v) (k - (n - length xs)))"
      using 2 True construct_blk [of "replicate (n - length xs) v" k xs] by auto
    moreover have "assign_at (blk (xs @ replicate (n - length xs) v) (k - (n - length xs))) 0 (replicate (length xs) v) =
        Some (blk (replicate n v) (k - (n - length xs)))"
      using assign_blk [of 0 "replicate (length xs) v" "xs @ replicate (n - length xs) v"] True
      by (simp add: replicate_add [symmetric] flip: map_replicate)
    ultimately show ?thesis using 2 True by (auto simp: assign_fill_def arr_size_def gives_def arr_holds_def)
  qed (use True in simp)
next
  case False
  then have "assign_fill al a n v = assign_range al a (Ext (replicate n v)) n"
    using h capacity_ge [OF h]
    by (auto simp: assign_fill_def assign_range_def inside_def src_read_def arr_holds_def arr_size_def
      split: option.splits)
  moreover have "src_ok xs (Ext (replicate n v)) n" by (simp add: src_ok_def src_vals_def)
  ultimately show ?thesis using assign_range_ok [OF h, of "Ext (replicate n v)" n al]
    by (simp add: inside_def src_vals_def)
qed

subsection \<open>Reading\<close>

lemma arr_nth_ok: "arr_holds a xs \<Longrightarrow> i < length xs \<Longrightarrow> arr_nth a i = Some (xs ! i)"
  by (erule arr_holdsE) (simp_all add: arr_nth_def nth_append)

lemma at_ok: "arr_holds a xs \<Longrightarrow> arr_at a i = (if i < length xs then ret (xs ! i) else throw XInvalidIndex)"
  by (auto simp: arr_at_def arr_nth_ok) (auto simp: arr_holds_def)

lemma ends_ok:
  assumes "arr_holds a xs"
  shows "arr_front a = (if xs = [] then throw (XError ''arr_container is empty()'') else ret (hd xs))"
    and "arr_back a = (if xs = [] then throw (XError ''arr_container is empty()'') else ret (last xs))"
proof -
  have e: "m_end1 a = length xs" using assms by (simp add: arr_holds_def)
  show "arr_front a = (if xs = [] then throw (XError ''arr_container is empty()'') else ret (hd xs))"
    using e arr_nth_ok [OF assms, of 0] by (simp add: arr_front_def check_not_empty_def hd_conv_nth)
  show "arr_back a = (if xs = [] then throw (XError ''arr_container is empty()'') else ret (last xs))"
    using e arr_nth_ok [OF assms, of "length xs - 1"] by (simp add: arr_back_def check_not_empty_def last_conv_nth)
qed

lemma pop_back_ok:
  assumes h: "arr_holds a xs"
  shows "if xs = [] then pop_back a = throw (XError ''arr_container is empty()'')
    else \<exists>a'. pop_back a = ret a' \<and> arr_holds a' (butlast xs) \<and> capacity a' = capacity a"
  using h
proof (cases rule: arr_holdsE)
  case (2 k)
  show ?thesis
  proof (cases "xs = []")
    case False
    have "destroy (blk xs k) (length xs - 1) (length xs) = Some (blk (butlast xs) (k + 1))"
    proof -
      have "k + (length xs - (length xs - 1)) = k + 1" using False by (cases xs) simp_all
      then show ?thesis using destroy_blk [of "length xs - 1" xs k] by (simp add: butlast_conv_take)
    qed
    then show ?thesis using 2 False
      by (auto simp: pop_back_def check_not_empty_def arr_holds_def capacity_def intro: exI [of _ "k + 1"])
  qed (use 2 in \<open>simp add: pop_back_def check_not_empty_def\<close>)
qed (simp add: pop_back_def check_not_empty_def)

lemma eq_from_ok:
  "arr_holds a xs \<Longrightarrow> arr_holds b ys \<Longrightarrow> i + n = length xs \<Longrightarrow> length xs = length ys \<Longrightarrow>
    eq_from a b i n = Some (drop i xs = drop i ys)"
proof (induction n arbitrary: i)
  case (Suc n)
  then have "drop i xs = xs ! i # drop (Suc i) xs" "drop i ys = ys ! i # drop (Suc i) ys"
    by (simp_all add: Cons_nth_drop_Suc)
  then show ?case using Suc by (simp add: arr_nth_ok)
qed simp

lemma arr_eq_ok: "arr_holds a xs \<Longrightarrow> arr_holds b ys \<Longrightarrow> arr_eq a b = Some (xs = ys)"
  using eq_from_ok [of a xs b ys 0 "length xs"] by (auto simp: arr_eq_def size_ok)

subsection \<open>What the destructor releases\<close>

text \<open>\<open>_clear_and_rawset\<close> passes \<open>m_end2-m_end1\<close> to \<open>deallocate\<close>, the free slots of the block and
  not its slots; the two are equal only for an array without elements.\<close>

lemma destroy_ok:
  assumes "arr_holds a xs" and "m_base a \<noteq> None"
  shows "arr_destroy a = Some \<lparr>m_base = None, m_end1 = 0,
    deallocs = (capacity a, capacity a - length xs) # deallocs a\<rparr>"
  using assms by (auto elim!: arr_holdsE simp: arr_destroy_def clear_and_rawset_def slot_simps)

end
