(* ===== verification/Array_Theorems.thy ===== *)
theory Array_Theorems
  imports Arr_Container
begin

text \<open>The properties of the size computations and of the dynamic array: every operation, on an array
  that holds a list, gives an array that holds the list the operation is meant to produce.\<close>

text \<open>C25. \<open>sz_helper::n2p\<close> returns the least power of two that is not below a size of at most
  \<open>2^63\<close>, and throws \<open>XInvalidArgument\<close> beyond; its loop ends. \<open>adj\<close> rounds up to a multiple of the
  alignment and \<open>gen\<close> grows by half without wrapping around.\<close>

theorem sz_helper_correct:
  assumes "j < 64" and "unat sz + 2 ^ j \<le> 2 ^ 64"
  shows "(if unat sz \<le> 2 ^ 63 then \<exists>m \<le> 63. n2p sz = ret (2 ^ m) \<and> unat sz \<le> 2 ^ m \<and> (\<forall>i. unat sz \<le> 2 ^ i \<longrightarrow> m \<le> i)
      else n2p sz = throw XInvalidArgument) \<and>
    2 ^ j dvd unat (adj sz (2 ^ j)) \<and> unat sz \<le> unat (adj sz (2 ^ j)) \<and> unat (adj sz (2 ^ j)) < unat sz + 2 ^ j \<and>
    unat sz \<le> unat (gen sz) \<and>
    (4 \<le> sz \<and> unat sz + unat sz div 2 < 2 ^ 64 \<longrightarrow> unat (gen sz) = unat sz + unat sz div 2 \<and> sz < gen sz)"
  using n2p_ok [of sz] n2p_throws [of sz] adj_ok [OF assms] gen_ge [of sz] gen_ok [of sz] by auto

lemma sz_helper_correct_witness:
  "(\<exists>m. n2p 100 = ret (2 ^ m) \<and> m \<le> 7 \<and> 100 \<le> (2 :: nat) ^ m) \<and> 8 dvd unat (adj 13 8) \<and> unat (gen 10) = 15"
  using sz_helper_correct [of 3 100] sz_helper_correct [of 3 13] sz_helper_correct [of 3 10] by auto


text \<open>An array of three elements in a block of five slots.\<close>

definition arr_ex :: "nat arr" where
  "arr_ex = \<lparr>m_base = Some [Some 1, Some 2, Some 3, None, None], m_end1 = 3, deallocs = []\<rparr>"

lemma arr_ex_holds: "arr_holds arr_ex [1, 2, 3]"
  by (auto simp: arr_holds_def arr_ex_def numeral_2_eq_2 intro: exI [of _ 2])

lemma arr_ex_size: "m_end1 arr_ex = 3" "capacity arr_ex = 5"
  by (simp_all add: arr_ex_def capacity_def)


text \<open>C27. The other operations: \<open>erase\<close> removes exactly its range and keeps the block, \<open>assign\<close>
  (of a value or a range), \<open>resize\<close>, \<open>reserve\<close>, \<open>shrink_to_fit\<close>, copy construction and assignment
  give the list they should or throw \<open>XBadAlloc\<close> when memory is needed and not there; \<open>clear\<close>
  empties the array, and \<open>==\<close> compares the lists.\<close>

theorem arr_change_correct:
  assumes h: "arr_holds a xs" and g: "arr_holds b ys" and s: "src_ok xs s n"
  shows "(\<forall>p k. p + k \<le> length xs \<longrightarrow> (\<exists>a'. erase a p k = Some (a', p) \<and> arr_holds a' (take p xs @ drop (p + k) xs))) \<and>
    gives (n \<le> capacity a \<or> al n) (assign_fill al a n v) (replicate n v) \<and>
    gives (if inside a s then n = 0 \<or> al n else n \<le> capacity a \<or> al n) (assign_range al a s n) (take n (src_vals xs s)) \<and>
    gives (n \<le> capacity a \<or> al n) (arr_resize al a n v) (take n xs @ replicate (n - length xs) v) \<and>
    gives (n \<le> capacity a \<or> al n) (reserve al a n) xs \<and>
    gives (length xs = capacity a \<or> xs = [] \<or> al (length xs)) (shrink_to_fit al a) xs \<and>
    gives (xs = [] \<or> al (length xs)) (arr_copy al a) xs \<and>
    gives (ys = [] \<or> al (length ys)) (arr_assign al False a b) ys \<and>
    (\<exists>a'. arr_clear a = Some a' \<and> arr_holds a' []) \<and>
    arr_eq a b = Some (xs = ys)"
  using erase_ok [OF h] assign_fill_ok [OF h, of n al v] assign_range_ok [OF h s, of al] arr_resize_ok [OF h, of n al v]
    reserve_ok [OF h, of n al] shrink_ok [OF h, of al] copy_ok [OF h, of al] assign_arr_ok [OF h g, of al] clear_ok [OF h]
    arr_eq_ok [OF h g]
  by (intro conjI) blast+

lemma arr_change_correct_witness:
  "(\<exists>a'. erase arr_ex 1 1 = Some (a', 1) \<and> arr_holds a' [1, 3]) \<and>
   (\<exists>a'. arr_resize (\<lambda>_. False) arr_ex 5 7 = ret a' \<and> arr_holds a' [1, 2, 3, 7, 7]) \<and>
   arr_resize (\<lambda>_. False) arr_ex 6 7 = throw XBadAlloc"
proof -
  have "src_ok [1, 2, 3 :: nat] (Ext [0, 0, 0, 0, 0]) 5" "src_ok [1, 2, 3 :: nat] (Ext [0, 0, 0, 0, 0, 0]) 6"
    by (simp_all add: src_ok_def src_vals_def)
  note t = arr_change_correct [OF arr_ex_holds arr_ex_holds this(1), of "\<lambda>_. False" 7]
    arr_change_correct [OF arr_ex_holds arr_ex_holds this(2), of "\<lambda>_. False" 7]
  have "1 + 1 \<le> length [1, 2, 3 :: nat] \<longrightarrow>
      (\<exists>a'. erase arr_ex 1 1 = Some (a', 1) \<and> arr_holds a' (take 1 [1, 2, 3] @ drop (1 + 1) [1, 2, 3]))"
    using t(1) by blast
  moreover have "gives (5 \<le> capacity arr_ex \<or> False) (arr_resize (\<lambda>_. False) arr_ex 5 7) (take 5 [1, 2, 3] @ replicate (5 - length [1, 2, 3 :: nat]) 7)"
    using t(1) by blast
  moreover have "gives (6 \<le> capacity arr_ex \<or> False) (arr_resize (\<lambda>_. False) arr_ex 6 7) (take 6 [1, 2, 3] @ replicate (6 - length [1, 2, 3 :: nat]) 7)"
    using t(2) by blast
  ultimately show ?thesis by (simp add: gives_def arr_ex_size numeral_2_eq_2)
qed

text \<open>Reading: \<open>at(i)\<close> throws \<open>XInvalidIndex\<close> exactly beyond the end, \<open>front\<close>, \<open>back\<close> and
  \<open>pop_back\<close> throw exactly on an empty array, and otherwise they read the right element;
  \<open>pop_back\<close> removes the last one.\<close>

theorem arr_read_correct:
  assumes h: "arr_holds a xs"
  shows "arr_at a i = (if i < length xs then ret (xs ! i) else throw XInvalidIndex) \<and>
    (if xs = [] then arr_front a = throw (XError ''arr_container is empty()'') \<and> arr_back a = throw (XError ''arr_container is empty()'') \<and>
        pop_back a = throw (XError ''arr_container is empty()'')
     else arr_front a = ret (hd xs) \<and> arr_back a = ret (last xs) \<and>
       (\<exists>a'. pop_back a = ret a' \<and> arr_holds a' (butlast xs) \<and> capacity a' = capacity a))"
  using at_ok [OF h, of i] ends_ok [OF h] pop_back_ok [OF h] by (cases "xs = []") simp_all

lemma arr_read_correct_witness:
  "arr_at arr_ex 3 = throw XInvalidIndex \<and> arr_back arr_ex = ret 3 \<and> (\<exists>a'. pop_back arr_ex = ret a' \<and> arr_holds a' [1, 2])"
  using arr_read_correct [OF arr_ex_holds, of 3] by auto

text \<open>The block of an array is released with the wrong size: \<open>_clear_and_rawset\<close> passes
  \<open>m_end2-m_end1\<close>, the number of free slots, to \<open>deallocate\<close>; it is the size of the block only when
  the array is empty.\<close>

theorem arr_wrong_deallocate:
  assumes "arr_holds a xs" and "m_base a \<noteq> None"
  shows "\<exists>a' n. arr_destroy a = Some a' \<and> deallocs a' = (capacity a, n) # deallocs a \<and> (n = capacity a \<longleftrightarrow> xs = [] \<or> capacity a = 0)"
proof -
  have "capacity a - length xs = capacity a \<longleftrightarrow> xs = [] \<or> capacity a = 0"
    using capacity_ge [OF assms(1)] by (cases xs) auto
  then show ?thesis using destroy_ok [OF assms] by auto
qed

lemma arr_wrong_deallocate_witness: "\<exists>a' n. arr_destroy arr_ex = Some a' \<and> deallocs a' = [(5, n)] \<and> n \<noteq> 5"
  using arr_wrong_deallocate [OF arr_ex_holds] by (auto simp: arr_ex_def capacity_def)

end
