(* ===== verification/Indexer.thy ===== *)
theory Indexer
  imports Complex_Main Sz_Helper Word_Facts
begin

text \<open>
  The hash containers: \<open>indexer_base\<close> (\<open>inc/vhwd/collection/detail/indexer_base.h\<close>) with the
  subscript operators of \<open>indexer_map\<close>. The entries are in one array, \<open>values\<close>; the buckets hold
  chunks, singly linked lists of the indexes of the entries whose hash codes fall into them. A
  chunk is the list of its indexes from \<open>phead\<close> on; sets are maps with unit values.

  A \<open>chunk_type&\<close> is a place in the block of the buckets, and that block is identified by a
  number: \<open>rehash\<close> puts a new block in place and frees the old one, so a reference from before is
  dangling afterwards. The load factor is a rational number, and the size computations that the
  code does on \<open>double\<close> are exact; they are for the default factor 2. Memory for the entries does
  not run out. \<open>h\<close> is the hash function of the key type.
\<close>

unbundle bit_operations_syntax

record ('k, 'v) indexer =
  ix_values :: "('k \<times> 'v) list"
  buckets :: "i32 list list"
  block_id :: nat
  bucket_count :: nat
  bucket_mask :: size_t
  elem_hint :: nat
  max_load :: rat

definition invalid_pos :: i32 where "invalid_pos = - 1"

definition idx_new :: "nat \<Rightarrow> ('k, 'v) indexer" where
  "idx_new junk = \<lparr>ix_values = [], buckets = [], block_id = 0, bucket_count = 0, bucket_mask = 0,
     elem_hint = junk, max_load = 2\<rparr>"

subsection \<open>Chunks\<close>

text \<open>\<open>values[id]\<close>.\<close>

definition value_at :: "('k \<times> 'v) list \<Rightarrow> i32 \<Rightarrow> ('k \<times> 'v) option" where
  "value_at vs i = (if 0 \<le> sint i \<and> nat (sint i) < length vs then Some (vs ! nat (sint i)) else None)"

fun chunk_find :: "('k \<times> 'v) list \<Rightarrow> i32 list \<Rightarrow> 'k \<Rightarrow> i32 option" where
  "chunk_find vs [] k = Some invalid_pos"
| "chunk_find vs (i # p) k = do { x \<leftarrow> value_at vs i; if fst x = k then Some i else chunk_find vs p k }"

definition chunk_insert :: "i32 list \<Rightarrow> i32 \<Rightarrow> i32 list" where
  "chunk_insert c k = k # c"

fun chunk_replace :: "i32 list \<Rightarrow> i32 \<Rightarrow> i32 \<Rightarrow> i32 list" where
  "chunk_replace [] id1 id2 = []"
| "chunk_replace (n # c) id1 id2 = (if n = id1 then id2 # c else n # chunk_replace c id1 id2)"

fun chunk_find_delete :: "('k \<times> 'v) list \<Rightarrow> i32 list \<Rightarrow> 'k \<Rightarrow> (i32 list \<times> i32) option" where
  "chunk_find_delete vs [] k = Some ([], invalid_pos)"
| "chunk_find_delete vs (d # c) k = do {
     x \<leftarrow> value_at vs d;
     if fst x = k then Some (c, d)
     else do { (c', r) \<leftarrow> chunk_find_delete vs c k; Some (d # c', r) } }"

fun chunk_erase :: "i32 list \<Rightarrow> i32 \<Rightarrow> i32 list \<times> nat" where
  "chunk_erase [] d = ([], 0)"
| "chunk_erase (n # c) d = (if n = d then (c, 1) else let (c', r) = chunk_erase c d in (n # c', r))"

text \<open>\<open>copy_recursive\<close> puts every copied node in front of the copies so far.\<close>

fun copy_recursive :: "i32 list \<Rightarrow> i32 list \<Rightarrow> i32 list" where
  "copy_recursive h [] = h"
| "copy_recursive h (i # p) = copy_recursive (i # h) p"

type_synonym chunk_ref = "nat \<times> nat"

definition chunk_get :: "('k, 'v) indexer \<Rightarrow> chunk_ref \<Rightarrow> i32 list option" where
  "chunk_get ix r = (if fst r = block_id ix \<and> snd r < length (buckets ix) then Some (buckets ix ! snd r) else None)"

definition chunk_set :: "('k, 'v) indexer \<Rightarrow> chunk_ref \<Rightarrow> i32 list \<Rightarrow> ('k, 'v) indexer option" where
  "chunk_set ix r c = (if fst r = block_id ix \<and> snd r < length (buckets ix)
     then Some (ix\<lparr>buckets := (buckets ix)[snd r := c]\<rparr>) else None)"

text \<open>\<open>size_t hk=hashcode_key(k); size_t cp=hk&mask\<close>, and \<open>buckets[cp]\<close>.\<close>

definition slot_of :: "('k \<Rightarrow> i32) \<Rightarrow> size_t \<Rightarrow> 'k \<Rightarrow> nat" where
  "slot_of h mk k = unat ((signed (h k) :: size_t) AND mk)"

definition bucket_ref :: "('k \<Rightarrow> i32) \<Rightarrow> ('k, 'v) indexer \<Rightarrow> 'k \<Rightarrow> chunk_ref" where
  "bucket_ref h ix k = (block_id ix, slot_of h (bucket_mask ix) k)"

subsection \<open>Rehashing\<close>

definition min_bucket_count :: "('k, 'v) indexer \<Rightarrow> nat" where
  "min_bucket_count ix = nat \<lfloor>of_nat (length (ix_values ix)) / max_load ix + 1 / 2\<rfloor>"

fun rehash_fill :: "('k \<Rightarrow> i32) \<Rightarrow> size_t \<Rightarrow> i32 list list \<Rightarrow> nat \<Rightarrow> ('k \<times> 'v) list \<Rightarrow> i32 list list option" where
  "rehash_fill h mk cks i [] = Some cks"
| "rehash_fill h mk cks i (x # vs) = (let cp = slot_of h mk (fst x) in
     if cp < length cks then rehash_fill h mk (cks[cp := chunk_insert (cks ! cp) (of_nat i)]) (Suc i) vs else None)"

definition rehash :: "('k \<Rightarrow> i32) \<Rightarrow> ('k, 'v) indexer \<Rightarrow> nat \<Rightarrow> ('k, 'v) indexer outcome" where
  "rehash h ix s = (if s = 0 \<and> ix_values ix = [] then ret (ix\<lparr>buckets := [], bucket_count := 0, bucket_mask := 0\<rparr>)
     else andthen (n2p (of_nat (max s (min_bucket_count ix)))) (\<lambda>sz.
       andthen (nothrow (rehash_fill h (sz - 1) (replicate (unat sz) []) 0 (ix_values ix))) (\<lambda>cks.
         ret (ix\<lparr>buckets := cks, block_id := block_id ix + 1, bucket_count := unat sz, bucket_mask := sz - 1,
           elem_hint := nat \<lfloor>of_nat (unat sz) * max_load ix\<rfloor>\<rparr>))))"

definition check_loadfactor :: "('k \<Rightarrow> i32) \<Rightarrow> ('k, 'v) indexer \<Rightarrow> ('k, 'v) indexer outcome" where
  "check_loadfactor h ix = (if length (ix_values ix) > elem_hint ix
     then rehash h ix (nat \<lfloor>2 * of_nat (length (ix_values ix)) / max_load ix\<rfloor>) else ret ix)"

definition idx_reserve :: "('k \<Rightarrow> i32) \<Rightarrow> ('k, 'v) indexer \<Rightarrow> nat \<Rightarrow> ('k, 'v) indexer outcome" where
  "idx_reserve h ix n = (let bc = nat \<lceil>of_nat n / max_load ix\<rceil> in
     if bc > bucket_count ix then rehash h ix bc else ret ix)"

text \<open>The bounds \<open>0.1f\<close> and \<open>20.0f\<close>.\<close>

definition set_max_load :: "('k, 'v) indexer \<Rightarrow> rat \<Rightarrow> ('k, 'v) indexer" where
  "set_max_load ix z = (let z = (if z < 13421773 / 134217728 then 13421773 / 134217728 else z);
     z = (if z > 20 then 20 else z) in
     ix\<lparr>max_load := z, elem_hint := nat \<lfloor>of_nat (bucket_count ix) * z\<rfloor>\<rparr>)"

subsection \<open>Operations\<close>

definition idx_find :: "('k \<Rightarrow> i32) \<Rightarrow> ('k, 'v) indexer \<Rightarrow> 'k \<Rightarrow> i32 option" where
  "idx_find h ix k = (if bucket_mask ix = 0 then Some invalid_pos
     else do { c \<leftarrow> chunk_get ix (bucket_ref h ix k); chunk_find (ix_values ix) c k })"

definition chunk_push :: "('k \<Rightarrow> i32) \<Rightarrow> ('k, 'v) indexer \<Rightarrow> chunk_ref \<Rightarrow> i32 \<Rightarrow> 'k \<times> 'v \<Rightarrow> ('k, 'v) indexer outcome" where
  "chunk_push h ix r d v = andthen (check_loadfactor h (ix\<lparr>ix_values := ix_values ix @ [v]\<rparr>)) (\<lambda>ix.
     nothrow (do { c \<leftarrow> chunk_get ix r; chunk_set ix r (d # c) }))"

text \<open>The common part of \<open>insert\<close> and \<open>find2\<close>, for the entry \<open>v\<close> to be pushed.\<close>

definition idx_place :: "('k \<Rightarrow> i32) \<Rightarrow> ('k, 'v) indexer \<Rightarrow> 'k \<times> 'v \<Rightarrow> (('k, 'v) indexer \<times> i32) outcome" where
  "idx_place h ix v = andthen (if bucket_mask ix = 0 then rehash h ix 32 else ret ix) (\<lambda>ix.
     let r = bucket_ref h ix (fst v) in
     andthen (nothrow (do { c \<leftarrow> chunk_get ix r; chunk_find (ix_values ix) c (fst v) })) (\<lambda>id.
       if id = invalid_pos then
         let id = of_nat (length (ix_values ix)) in andthen (chunk_push h ix r id v) (\<lambda>ix. ret (ix, id))
       else ret (ix, id)))"

definition idx_insert :: "('k \<Rightarrow> i32) \<Rightarrow> ('k, 'v) indexer \<Rightarrow> 'k \<times> 'v \<Rightarrow> (('k, 'v) indexer \<times> i32) outcome" where
  "idx_insert h ix v = idx_place h ix v"

definition idx_find2 :: "('k \<Rightarrow> i32) \<Rightarrow> 'v \<Rightarrow> ('k, 'v) indexer \<Rightarrow> 'k \<Rightarrow> (('k, 'v) indexer \<times> i32) outcome" where
  "idx_find2 h v0 ix k = idx_place h ix (k, v0)"

definition idx_erase :: "('k \<Rightarrow> i32) \<Rightarrow> ('k, 'v) indexer \<Rightarrow> 'k \<Rightarrow> (('k, 'v) indexer \<times> nat) option" where
  "idx_erase h ix k = (if bucket_mask ix = 0 then Some (ix, 0)
     else do {
       let r1 = bucket_ref h ix k;
       c1 \<leftarrow> chunk_get ix r1;
       (c1, id1) \<leftarrow> chunk_find_delete (ix_values ix) c1 k;
       ix \<leftarrow> chunk_set ix r1 c1;
       if id1 = invalid_pos then Some (ix, 0)
       else do {
         let id2 = of_nat (length (ix_values ix)) - 1;
         ix \<leftarrow> (if id1 \<noteq> id2 then do {
             v1 \<leftarrow> value_at (ix_values ix) id1;
             v2 \<leftarrow> value_at (ix_values ix) id2;
             let ix = ix\<lparr>ix_values := (ix_values ix)[nat (sint id1) := v2, nat (sint id2) := v1]\<rparr>;
             let r2 = bucket_ref h ix (fst v2);
             c2 \<leftarrow> chunk_get ix r2;
             chunk_set ix r2 (chunk_replace c2 id2 id1) }
           else Some ix);
         Some (ix\<lparr>ix_values := butlast (ix_values ix)\<rparr>, 1) } })"

definition get_by_id :: "('k, 'v) indexer \<Rightarrow> i32 \<Rightarrow> ('k \<times> 'v) option" where
  "get_by_id ix i = value_at (ix_values ix) i"

definition idx_clear :: "('k, 'v) indexer \<Rightarrow> ('k, 'v) indexer" where
  "idx_clear ix = ix\<lparr>ix_values := [], buckets := replicate (bucket_count ix) []\<rparr>"

definition idx_copy :: "('k \<Rightarrow> i32) \<Rightarrow> nat \<Rightarrow> ('k, 'v) indexer \<Rightarrow> ('k, 'v) indexer outcome" where
  "idx_copy h junk ix = (let c = (idx_new junk)\<lparr>ix_values := ix_values ix, max_load := max_load ix\<rparr> in
     if ix_values c \<noteq> [] then rehash h c 0 else ret c)"

definition idx_assign :: "('k \<Rightarrow> i32) \<Rightarrow> nat \<Rightarrow> bool \<Rightarrow> ('k, 'v) indexer \<Rightarrow> ('k, 'v) indexer \<Rightarrow> ('k, 'v) indexer outcome" where
  "idx_assign h junk same ix ix' = (if same then ret ix else idx_copy h junk ix')"

definition idx_size :: "('k, 'v) indexer \<Rightarrow> nat" where
  "idx_size ix = length (ix_values ix)"

definition idx_swap :: "('k, 'v) indexer \<Rightarrow> ('k, 'v) indexer \<Rightarrow> ('k, 'v) indexer \<times> ('k, 'v) indexer" where
  "idx_swap a b = (b, a)"

text \<open>The subscript operators of \<open>indexer_map\<close>: a reference to the mapped value.\<close>

definition map_ref :: "('k \<Rightarrow> i32) \<Rightarrow> 'v \<Rightarrow> ('k, 'v) indexer \<Rightarrow> 'k \<Rightarrow> (('k, 'v) indexer \<times> 'v) outcome" where
  "map_ref h v0 ix k = andthen (idx_find2 h v0 ix k) (\<lambda>(ix, id). nothrow (do { x \<leftarrow> get_by_id ix id; Some (ix, snd x) }))"

definition map_get :: "('k \<Rightarrow> i32) \<Rightarrow> ('k, 'v) indexer \<Rightarrow> 'k \<Rightarrow> 'v outcome" where
  "map_get h ix k = andthen (nothrow (idx_find h ix k)) (\<lambda>id.
     if id = invalid_pos then throw XNotFound else nothrow (do { x \<leftarrow> get_by_id ix id; Some (snd x) }))"

end
