(* ===== verification/Indexer_Correct.thy ===== *)
theory Indexer_Correct
  imports Indexer
begin

text \<open>
  Correctness of the hash containers: the invariant of the buckets, and what the operations do to
  the entries and to the map they represent.
\<close>

unbundle bit_operations_syntax

subsection \<open>Indexes\<close>

lemma sint_index: "n < 2 ^ 31 \<Longrightarrow> sint (of_nat n :: i32) = int n"
  using sint_word_of_int [of "int n"] by simp

lemma index_inject: "m < 2 ^ 31 \<Longrightarrow> n < 2 ^ 31 \<Longrightarrow> (of_nat m :: i32) = of_nat n \<longleftrightarrow> m = n"
  by (metis of_nat_eq_iff sint_index)

lemma index_valid: "n < 2 ^ 31 \<Longrightarrow> (of_nat n :: i32) \<noteq> invalid_pos"
proof
  assume n: "n < 2 ^ 31" and "(of_nat n :: i32) = invalid_pos"
  then have "sint (of_nat n :: i32) = sint (- 1 :: i32)" by (simp only: invalid_pos_def)
  then show False using sint_index [OF n] by simp
qed

lemma value_at_index: "n < length vs \<Longrightarrow> length vs \<le> 2 ^ 31 \<Longrightarrow> value_at vs (of_nat n) = Some (vs ! n)"
  by (simp add: value_at_def sint_index)

subsection \<open>Chunks\<close>

lemma chunk_find_none:
  "(\<And>i. i \<in> set c \<Longrightarrow> \<exists>n < length vs. i = of_nat n \<and> fst (vs ! n) \<noteq> k) \<Longrightarrow> length vs \<le> 2 ^ 31 \<Longrightarrow>
    chunk_find vs c k = Some invalid_pos"
proof (induction c)
  case (Cons i c)
  then obtain n where "n < length vs" "i = of_nat n" "fst (vs ! n) \<noteq> k" by (meson list.set_intros(1))
  with Cons show ?case by (simp add: value_at_index)
qed simp

lemma chunk_find_some:
  assumes "distinct (map fst vs)" "length vs \<le> 2 ^ 31" "p < length vs" "fst (vs ! p) = k"
  shows "of_nat p \<in> set c \<Longrightarrow> (\<And>i. i \<in> set c \<Longrightarrow> \<exists>n < length vs. i = of_nat n) \<Longrightarrow> chunk_find vs c k = Some (of_nat p)"
proof (induction c)
  case (Cons i c)
  then obtain n where n: "n < length vs" "i = of_nat n" by (meson list.set_intros(1))
  have "fst (vs ! n) = k \<longleftrightarrow> n = p"
    using nth_eq_iff_index_eq [OF assms(1), of n p] n(1) assms by simp
  moreover have "i = of_nat p \<longleftrightarrow> n = p" using index_inject [of n p] n assms by auto
  ultimately show ?case using Cons n assms by (auto simp: value_at_index)
qed simp

lemma find_delete_none:
  "(\<And>i. i \<in> set c \<Longrightarrow> \<exists>n < length vs. i = of_nat n \<and> fst (vs ! n) \<noteq> k) \<Longrightarrow> length vs \<le> 2 ^ 31 \<Longrightarrow>
    chunk_find_delete vs c k = Some (c, invalid_pos)"
proof (induction c)
  case (Cons i c)
  then obtain n where "n < length vs" "i = of_nat n" "fst (vs ! n) \<noteq> k" by (meson list.set_intros(1))
  with Cons show ?case by (simp add: value_at_index)
qed simp

lemma find_delete_some:
  assumes "distinct (map fst vs)" "length vs \<le> 2 ^ 31" "p < length vs" "fst (vs ! p) = k"
  shows "of_nat p \<in> set c \<Longrightarrow> (\<And>i. i \<in> set c \<Longrightarrow> \<exists>n < length vs. i = of_nat n) \<Longrightarrow>
    chunk_find_delete vs c k = Some (remove1 (of_nat p) c, of_nat p)"
proof (induction c)
  case (Cons i c)
  then obtain n where n: "n < length vs" "i = of_nat n" by (meson list.set_intros(1))
  have "fst (vs ! n) = k \<longleftrightarrow> n = p"
    using nth_eq_iff_index_eq [OF assms(1), of n p] n(1) assms by simp
  moreover have "i = of_nat p \<longleftrightarrow> n = p" using index_inject [of n p] n assms by auto
  ultimately show ?case using Cons n assms by (auto simp: value_at_index)
qed simp

lemma set_chunk_replace:
  "distinct c \<Longrightarrow> a \<in> set c \<Longrightarrow> b \<notin> set c \<Longrightarrow>
    set (chunk_replace c a b) = insert b (set c - {a}) \<and> distinct (chunk_replace c a b)"
  by (induction c) auto

lemma copy_recursive_rev: "copy_recursive h c = rev c @ h"
  by (induction c arbitrary: h) simp_all

subsection \<open>The invariant of the buckets\<close>

text \<open>Every chunk holds, once each, the indexes of the entries whose hash codes fall into it.\<close>

definition chunk_inv :: "('k \<Rightarrow> i32) \<Rightarrow> size_t \<Rightarrow> ('k \<times> 'v) list \<Rightarrow> i32 list list \<Rightarrow> bool" where
  "chunk_inv h mk vs bs \<longleftrightarrow> (\<forall>j < length bs. distinct (bs ! j) \<and>
     set (bs ! j) = of_nat ` {n. n < length vs \<and> slot_of h mk (fst (vs ! n)) = j})"

lemma slot_less: "k \<le> 63 \<Longrightarrow> slot_of h (2 ^ k - 1) x < 2 ^ k"
proof -
  assume k: "k \<le> 63"
  have "int (unat (y AND mask k)) < int (2 ^ k)" for y :: size_t
    using uint_and_mask [of k y] k by (simp flip: uint_nat)
  then show ?thesis unfolding slot_of_def mask_eq_exp_minus_1 [symmetric] by (simp only: of_nat_less_iff)
qed

lemma chunk_inv_snoc:
  assumes inv: "chunk_inv h mk vs bs" and l: "length vs < 2 ^ 31" and j: "slot_of h mk (fst x) < length bs"
  shows "chunk_inv h mk (vs @ [x]) (bs[slot_of h mk (fst x) := of_nat (length vs) # bs ! slot_of h mk (fst x)])"
proof -
  have fresh: "of_nat (length vs) \<notin> set (bs ! j)" if "j < length bs" for j
  proof
    assume "of_nat (length vs) \<in> set (bs ! j)"
    moreover have "set (bs ! j) \<subseteq> of_nat ` {n. n < length vs}" using inv that by (auto simp: chunk_inv_def)
    ultimately obtain n where "n < length vs" "(of_nat (length vs) :: i32) = of_nat n" by blast
    then show False using index_inject [of "length vs" n] l by simp
  qed
  have "{n. n < length (vs @ [x]) \<and> slot_of h mk (fst ((vs @ [x]) ! n)) = j} =
      (if slot_of h mk (fst x) = j then insert (length vs) {n. n < length vs \<and> slot_of h mk (fst (vs ! n)) = j}
       else {n. n < length vs \<and> slot_of h mk (fst (vs ! n)) = j})" for j
    by (auto simp: nth_append less_Suc_eq)
  then show ?thesis using inv fresh j by (auto simp: chunk_inv_def nth_list_update)
qed

lemma chunk_inv_start: "chunk_inv h mk [] (replicate n [])"
  by (simp add: chunk_inv_def)

lemma rehash_fill_ok:
  "chunk_inv h mk us bs \<Longrightarrow> (\<And>x. slot_of h mk x < length bs) \<Longrightarrow> length us + length vs \<le> 2 ^ 31 \<Longrightarrow>
    \<exists>bs'. rehash_fill h mk bs (length us) vs = Some bs' \<and> length bs' = length bs \<and> chunk_inv h mk (us @ vs) bs'"
proof (induction vs arbitrary: us bs)
  case (Cons x vs)
  let ?bs = "bs[slot_of h mk (fst x) := of_nat (length us) # bs ! slot_of h mk (fst x)]"
  have "chunk_inv h mk (us @ [x]) ?bs" using Cons.prems by (intro chunk_inv_snoc) auto
  then obtain bs' where "rehash_fill h mk ?bs (length (us @ [x])) vs = Some bs'" "length bs' = length ?bs"
    "chunk_inv h mk ((us @ [x]) @ vs) bs'" using Cons.IH [of "us @ [x]" ?bs] Cons.prems by auto
  then show ?case using Cons.prems by (simp add: chunk_insert_def Let_def)
qed simp

definition table :: "('k \<Rightarrow> i32) \<Rightarrow> ('k, 'v) indexer \<Rightarrow> nat \<Rightarrow> bool" where
  "table h ix k \<longleftrightarrow> k \<le> 63 \<and> bucket_count ix = 2 ^ k \<and> bucket_mask ix = 2 ^ k - 1 \<and> length (buckets ix) = 2 ^ k \<and>
     elem_hint ix = nat \<lfloor>2 ^ k * max_load ix\<rfloor> \<and> chunk_inv h (bucket_mask ix) (ix_values ix) (buckets ix)"

definition entries_ok :: "('k, 'v) indexer \<Rightarrow> bool" where
  "entries_ok ix \<longleftrightarrow> length (ix_values ix) < 2 ^ 31 \<and> distinct (map fst (ix_values ix)) \<and> 1 / 16 \<le> max_load ix"

definition idx_ok :: "('k \<Rightarrow> i32) \<Rightarrow> ('k, 'v) indexer \<Rightarrow> bool" where
  "idx_ok h ix \<longleftrightarrow> entries_ok ix \<and> ((\<exists>k. table h ix k) \<or>
     bucket_count ix = 0 \<and> buckets ix = [] \<and> bucket_mask ix = 0 \<and> ix_values ix = [])"

lemma idx_new_ok: "idx_ok h (idx_new junk)"
  by (simp add: idx_ok_def entries_ok_def idx_new_def)

lemma mask_zero: "k \<le> 63 \<Longrightarrow> (2 ^ k - 1 :: size_t) = 0 \<longleftrightarrow> k = 0"
proof
  assume k: "k \<le> 63" and "(2 ^ k - 1 :: size_t) = 0"
  then have "(2 :: size_t) ^ k = 1" by simp
  then have "unat ((2 :: size_t) ^ k) = 1" by simp
  then show "k = 0" using k unat_2_power [of k] by simp
qed simp

subsection \<open>Rehashing\<close>

lemma load_bound: "1 / 16 \<le> (z :: rat) \<Longrightarrow> of_nat n / z \<le> of_nat (16 * n)"
proof -
  assume z: "1 / 16 \<le> z"
  then have "of_nat n \<le> 16 * of_nat n * z" using mult_left_mono [of "1 / 16" z "16 * of_nat n"] by simp
  then show ?thesis using z by (simp add: pos_divide_le_eq)
qed

lemma load_bound_2: "1 / 16 \<le> (z :: rat) \<Longrightarrow> 2 * of_nat n / z \<le> of_nat (32 * n)"
  using load_bound [of z n] by simp

lemma min_bucket_count_less: "entries_ok ix \<Longrightarrow> min_bucket_count ix < 2 ^ 36"
proof -
  assume ok: "entries_ok ix"
  let ?l = "length (ix_values ix)"
  have "of_nat ?l / max_load ix + 1 / 2 < of_nat (16 * ?l + 1)"
    using load_bound [of "max_load ix" ?l] ok by (simp add: entries_ok_def)
  then have "\<lfloor>of_nat ?l / max_load ix + 1 / 2\<rfloor> < int (16 * ?l + 1)"
    by (metis floor_less_iff of_int_of_nat_eq)
  then have "min_bucket_count ix \<le> 16 * ?l" unfolding min_bucket_count_def by linarith
  then show ?thesis using ok by (simp add: entries_ok_def)
qed

lemma rehash_ok:
  assumes ok: "entries_ok ix" and s: "s \<le> 2 ^ 63" and ne: "\<not> (s = 0 \<and> ix_values ix = [])"
  shows "\<exists>k ix'. rehash h ix s = ret ix' \<and> table h ix' k \<and> entries_ok ix' \<and> ix_values ix' = ix_values ix \<and>
    max_load ix' = max_load ix \<and> block_id ix' = block_id ix + 1 \<and> max s (min_bucket_count ix) \<le> 2 ^ k \<and>
    (\<forall>i. max s (min_bucket_count ix) \<le> 2 ^ i \<longrightarrow> k \<le> i)"
proof -
  let ?m = "max s (min_bucket_count ix)"
  have m: "?m \<le> 2 ^ 63" using s min_bucket_count_less [OF ok] by simp
  then have u: "unat (of_nat ?m :: size_t) = ?m" by (simp add: unsigned_of_nat take_bit_nat_eq_self)
  obtain k where k: "k \<le> 63" "n2p (of_nat ?m) = ret (2 ^ k)" "?m \<le> 2 ^ k" "\<forall>i. ?m \<le> 2 ^ i \<longrightarrow> k \<le> i"
    using n2p_ok [of "of_nat ?m"] m unfolding u by blast
  have uk: "unat ((2 :: size_t) ^ k) = 2 ^ k" using k(1) by simp
  then have "(of_nat (unat ((2 :: size_t) ^ k)) :: rat) = 2 ^ k" by (simp only: of_nat_power of_nat_numeral)
  then have ur: "(unsigned ((2 :: size_t) ^ k) :: rat) = 2 ^ k" by simp
  obtain bs where bs: "rehash_fill h (2 ^ k - 1) (replicate (2 ^ k) []) 0 (ix_values ix) = Some bs" "length bs = 2 ^ k"
    "chunk_inv h (2 ^ k - 1) (ix_values ix) bs"
    using rehash_fill_ok [OF chunk_inv_start, of h "2 ^ k - 1" "2 ^ k" "ix_values ix"] slot_less [OF k(1), of h] ok
    by (auto simp: entries_ok_def)
  show ?thesis
    using k bs ne ok uk ur by (auto simp: rehash_def table_def entries_ok_def)
qed

subsection \<open>Looking up\<close>

lemma table_chunk:
  assumes "table h ix k"
  obtains c where "chunk_get ix (bucket_ref h ix x) = Some c" "c = buckets ix ! slot_of h (bucket_mask ix) x"
    "slot_of h (bucket_mask ix) x < length (buckets ix)" "distinct c"
    "set c = of_nat ` {n. n < length (ix_values ix) \<and> slot_of h (bucket_mask ix) (fst (ix_values ix ! n)) = slot_of h (bucket_mask ix) x}"
proof -
  have "slot_of h (bucket_mask ix) x < length (buckets ix)" using assms slot_less [of k h x] by (simp add: table_def)
  then show thesis using assms that by (auto simp: chunk_get_def bucket_ref_def table_def chunk_inv_def)
qed

lemma chunk_lookup:
  assumes t: "table h ix k" and ok: "entries_ok ix" and c: "chunk_get ix (bucket_ref h ix x) = Some c"
  shows "x \<notin> fst ` set (ix_values ix) \<Longrightarrow> chunk_find (ix_values ix) c x = Some invalid_pos \<and>
      chunk_find_delete (ix_values ix) c x = Some (c, invalid_pos)"
    and "p < length (ix_values ix) \<Longrightarrow> fst (ix_values ix ! p) = x \<Longrightarrow> of_nat p \<in> set c \<and>
      chunk_find (ix_values ix) c x = Some (of_nat p) \<and>
      chunk_find_delete (ix_values ix) c x = Some (remove1 (of_nat p) c, of_nat p)"
proof -
  have s: "set c = of_nat ` {n. n < length (ix_values ix) \<and> slot_of h (bucket_mask ix) (fst (ix_values ix ! n)) = slot_of h (bucket_mask ix) x}"
    by (rule table_chunk [OF t, where x = x]) (use c in simp)
  have v: "\<exists>n < length (ix_values ix). i = of_nat n" if "i \<in> set c" for i using that s by auto
  have l: "length (ix_values ix) \<le> 2 ^ 31" "distinct (map fst (ix_values ix))" using ok by (simp_all add: entries_ok_def)
  show "chunk_find (ix_values ix) c x = Some invalid_pos \<and> chunk_find_delete (ix_values ix) c x = Some (c, invalid_pos)"
    if "x \<notin> fst ` set (ix_values ix)"
  proof -
    have "\<exists>n < length (ix_values ix). i = of_nat n \<and> fst (ix_values ix ! n) \<noteq> x" if i: "i \<in> set c" for i
      using v [OF i] \<open>x \<notin> _\<close> nth_mem by blast
    then show ?thesis using chunk_find_none [OF _ l(1), of c x] find_delete_none [OF _ l(1), of c x] by blast
  qed
  assume p: "p < length (ix_values ix)" "fst (ix_values ix ! p) = x"
  then have "of_nat p \<in> set c" using s by auto
  then show "of_nat p \<in> set c \<and> chunk_find (ix_values ix) c x = Some (of_nat p) \<and>
      chunk_find_delete (ix_values ix) c x = Some (remove1 (of_nat p) c, of_nat p)"
    using chunk_find_some [OF l(2,1) p _ v] find_delete_some [OF l(2,1) p _ v] by blast
qed

lemma idx_find_ok:
  assumes t: "table h ix k" and k: "0 < k" and ok: "entries_ok ix"
  shows "x \<notin> fst ` set (ix_values ix) \<Longrightarrow> idx_find h ix x = Some invalid_pos"
    and "p < length (ix_values ix) \<Longrightarrow> fst (ix_values ix ! p) = x \<Longrightarrow> idx_find h ix x = Some (of_nat p)"
proof -
  have "bucket_mask ix \<noteq> 0" using t k mask_zero [of k] by (simp add: table_def)
  moreover obtain c where "chunk_get ix (bucket_ref h ix x) = Some c" by (rule table_chunk [OF t])
  ultimately show "x \<notin> fst ` set (ix_values ix) \<Longrightarrow> idx_find h ix x = Some invalid_pos"
    and "p < length (ix_values ix) \<Longrightarrow> fst (ix_values ix ! p) = x \<Longrightarrow> idx_find h ix x = Some (of_nat p)"
    using chunk_lookup(1) [OF t ok, of x c] chunk_lookup(2) [OF t ok, of x c p] by (simp_all add: idx_find_def)
qed

subsection \<open>Inserting\<close>

lemma idx_place_present:
  assumes t: "table h ix k" and k: "0 < k" and ok: "entries_ok ix"
    and p: "p < length (ix_values ix)" "fst (ix_values ix ! p) = fst v"
  shows "idx_place h ix v = ret (ix, of_nat p)"
proof -
  have "bucket_mask ix \<noteq> 0" using t k mask_zero [of k] by (simp add: table_def)
  moreover obtain c where c: "chunk_get ix (bucket_ref h ix (fst v)) = Some c" by (rule table_chunk [OF t])
  moreover have "(of_nat p :: i32) \<noteq> invalid_pos" using p(1) ok by (intro index_valid) (simp add: entries_ok_def)
  ultimately show ?thesis using chunk_lookup(2) [OF t ok c p] by (simp add: idx_place_def Let_def)
qed

lemma idx_place_absent:
  assumes t: "table h ix k" and k: "0 < k" and ok: "entries_ok ix" and v: "fst v \<notin> fst ` set (ix_values ix)"
    and l: "length (ix_values ix) + 1 < 2 ^ 31" and room: "length (ix_values ix) < elem_hint ix"
  shows "\<exists>ix'. idx_place h ix v = ret (ix', of_nat (length (ix_values ix))) \<and> ix_values ix' = ix_values ix @ [v] \<and>
    table h ix' k \<and> entries_ok ix' \<and> elem_hint ix' = elem_hint ix"
proof -
  have "bucket_mask ix \<noteq> 0" using t k mask_zero [of k] by (simp add: table_def)
  moreover obtain c where c: "chunk_get ix (bucket_ref h ix (fst v)) = Some c" "c = buckets ix ! slot_of h (bucket_mask ix) (fst v)"
    "slot_of h (bucket_mask ix) (fst v) < length (buckets ix)" by (rule table_chunk [OF t])
  moreover have "chunk_find (ix_values ix) c (fst v) = Some invalid_pos" using chunk_lookup(1) [OF t ok c(1) v] by simp
  ultimately have "idx_place h ix v = ret (ix\<lparr>ix_values := ix_values ix @ [v],
      buckets := (buckets ix)[slot_of h (bucket_mask ix) (fst v) := of_nat (length (ix_values ix)) # c]\<rparr>, of_nat (length (ix_values ix)))"
    using room by (simp add: idx_place_def Let_def chunk_push_def check_loadfactor_def bucket_ref_def chunk_get_def chunk_set_def)
  moreover have "chunk_inv h (bucket_mask ix) (ix_values ix @ [v])
      ((buckets ix)[slot_of h (bucket_mask ix) (fst v) := of_nat (length (ix_values ix)) # c])"
    unfolding c(2) using t ok c(3) by (intro chunk_inv_snoc) (auto simp: table_def entries_ok_def)
  ultimately show ?thesis using t ok v l by (auto simp: table_def entries_ok_def)
qed

text \<open>When the entry makes the container grow, \<open>rehash\<close> has put a new block of buckets in place by the
  time \<open>chunk_push\<close> links its node into the chunk it was given.\<close>

lemma idx_place_grow:
  assumes t: "table h ix k" and k: "0 < k" and ok: "entries_ok ix" and v: "fst v \<notin> fst ` set (ix_values ix)"
    and l: "length (ix_values ix) + 1 < 2 ^ 31" and full: "elem_hint ix \<le> length (ix_values ix)"
  shows "idx_place h ix v = None"
proof -
  let ?ix = "ix\<lparr>ix_values := ix_values ix @ [v]\<rparr>" and ?n = "length (ix_values ix) + 1"
  have "bucket_mask ix \<noteq> 0" using t k mask_zero [of k] by (simp add: table_def)
  moreover obtain c where c: "chunk_get ix (bucket_ref h ix (fst v)) = Some c" by (rule table_chunk [OF t])
  moreover have "chunk_find (ix_values ix) c (fst v) = Some invalid_pos" using chunk_lookup(1) [OF t ok c v] by simp
  moreover have "chunk_push h ix (bucket_ref h ix (fst v)) d v = None" for d
  proof -
    have ok': "entries_ok ?ix" using ok l v by (auto simp: entries_ok_def)
    have "2 * of_nat ?n / max_load ix \<le> of_nat (32 * ?n)" using ok by (intro load_bound_2) (simp add: entries_ok_def)
    then have "\<lfloor>2 * of_nat ?n / max_load ix\<rfloor> \<le> int (32 * ?n)" by (metis floor_mono floor_of_nat)
    also have "int (32 * ?n) \<le> 2 ^ 63" using l by simp
    finally have "nat \<lfloor>2 * of_nat ?n / max_load ix\<rfloor> \<le> 2 ^ 63"
      by (simp only: nat_le_iff of_nat_power of_nat_numeral)
    then obtain ix' where "rehash h ?ix (nat \<lfloor>2 * of_nat ?n / max_load ix\<rfloor>) = ret ix'" "block_id ix' = block_id ix + 1"
      using rehash_ok [OF ok', of "nat \<lfloor>2 * of_nat ?n / max_load ix\<rfloor>" h] by auto
    then show ?thesis using full by (simp add: chunk_push_def check_loadfactor_def chunk_get_def bucket_ref_def)
  qed
  ultimately show ?thesis by (simp add: idx_place_def Let_def)
qed

text \<open>A container without buckets makes 32 of them first.\<close>

lemma idx_place_first:
  assumes ok: "entries_ok ix" and m: "bucket_mask ix = 0"
  shows "\<exists>k ix'. rehash h ix 32 = ret ix' \<and> 5 \<le> k \<and> table h ix' k \<and> entries_ok ix' \<and> ix_values ix' = ix_values ix \<and>
    max_load ix' = max_load ix \<and> (length (ix_values ix) \<le> 16 \<and> max_load ix = 2 \<longrightarrow> k = 5) \<and> idx_place h ix v = idx_place h ix' v"
proof -
  obtain k ix' where r: "rehash h ix 32 = ret ix'" "table h ix' k" "entries_ok ix'" "ix_values ix' = ix_values ix"
    "max_load ix' = max_load ix" "max 32 (min_bucket_count ix) \<le> 2 ^ k" "\<forall>i. max 32 (min_bucket_count ix) \<le> 2 ^ i \<longrightarrow> k \<le> i"
    using rehash_ok [OF ok, of 32 h] by auto
  have k: "5 \<le> k"
  proof (rule ccontr)
    assume "\<not> 5 \<le> k"
    then have "(2 :: nat) ^ k \<le> 2 ^ 4" by (intro power_increasing) simp_all
    then show False using r(6) by simp
  qed
  have "bucket_mask ix' \<noteq> 0" using r(2) k mask_zero [of k] by (simp add: table_def)
  then have "idx_place h ix v = idx_place h ix' v" using m r(1) by (simp add: idx_place_def)
  moreover have "k = 5" if "length (ix_values ix) \<le> 16" "max_load ix = 2"
  proof -
    have "min_bucket_count ix \<le> 32" using that by (simp add: min_bucket_count_def nat_le_iff floor_le_iff)
    then show ?thesis using r(7) k by (simp add: le_antisym)
  qed
  ultimately show ?thesis using r k by blast
qed

subsection \<open>Erasing\<close>

text \<open>What erasing the entry at \<open>p\<close> does to the entries: the last one takes its place.\<close>

definition erase_at :: "nat \<Rightarrow> 'a list \<Rightarrow> 'a list" where
  "erase_at p vs = butlast (vs[p := last vs])"

lemma length_erase_at [simp]: "length (erase_at p vs) = length vs - 1"
  by (simp add: erase_at_def)

lemma erase_at_nth: "n < length vs - 1 \<Longrightarrow> erase_at p vs ! n = (if n = p then last vs else vs ! n)"
  by (auto simp: erase_at_def nth_butlast nth_list_update)

lemma set_erase_at:
  assumes "distinct (map fst vs)" and p: "p < length vs"
  shows "distinct (map fst (erase_at p vs)) \<and> set (erase_at p vs) = set vs - {vs ! p}"
proof -
  obtain us z where z: "vs = us @ [z]" using p by (cases vs rule: rev_cases) auto
  show ?thesis
  proof (cases "p = length us")
    case True
    then show ?thesis using assms by (auto simp: z erase_at_def)
  next
    case False
    then have "p < length us" using p by (simp add: z)
    then obtain xs x ys where us: "us = xs @ x # ys" "length xs = p" using id_take_nth_drop by (metis length_take min.absorb4)
    moreover have "distinct vs" using assms(1) by (simp add: distinct_map)
    ultimately show ?thesis using assms by (auto simp: z erase_at_def butlast_append nth_append)
  qed
qed

lemma map_of_filter_key: "map_of (filter (\<lambda>y. fst y \<noteq> k) vs) = (map_of vs)(k := None)"
  by (induction vs) auto

lemma map_of_erase_at:
  assumes d: "distinct (map fst vs)" and p: "p < length vs"
  shows "map_of (erase_at p vs) = (map_of vs)(fst (vs ! p) := None)"
proof -
  have "y = vs ! p" if "y \<in> set vs" "fst y = fst (vs ! p)" for y
    using that p d by (metis eq_key_imp_eq_value nth_mem prod.collapse)
  then have "set (erase_at p vs) = set (filter (\<lambda>y. fst y \<noteq> fst (vs ! p)) vs)" using set_erase_at [OF d p] by auto
  then have "map_of (erase_at p vs) = map_of (filter (\<lambda>y. fst y \<noteq> fst (vs ! p)) vs)"
    using set_erase_at [OF d p] d by (subst map_of_inject_set) (auto simp: distinct_map_filter)
  then show ?thesis by (simp add: map_of_filter_key)
qed

text \<open>The buckets after the index of the erased entry is gone and the index of the last entry has
  become that of the free place.\<close>

lemma chunk_inv_erase:
  assumes inv: "chunk_inv h mk vs bs" and p: "p < length vs" and l: "length vs \<le> 2 ^ 31"
    and s: "\<And>x. slot_of h mk x < length bs"
  defines "j1 \<equiv> slot_of h mk (fst (vs ! p))" and "j2 \<equiv> slot_of h mk (fst (last vs))" and "m \<equiv> length vs - 1"
  defines "bs1 \<equiv> bs[j1 := remove1 (of_nat p) (bs ! j1)]"
  shows "chunk_inv h mk (erase_at p vs) (if p = m then bs1 else bs1[j2 := chunk_replace (bs1 ! j2) (of_nat m) (of_nat p)])"
proof -
  let ?I = "\<lambda>j. {n. n < length vs \<and> slot_of h mk (fst (vs ! n)) = j}"
  have inj: "inj_on (of_nat :: nat \<Rightarrow> i32) {..< 2 ^ 31}" using index_inject by (auto simp: inj_on_def)
  have sub: "?I j \<subseteq> {..< 2 ^ 31}" for j using l by auto
  have m: "m < length vs" "last vs = vs ! m" using p by (cases vs rule: rev_cases; simp add: m_def)+
  have len: "length bs1 = length bs" by (simp add: bs1_def)
  have p31: "p < 2 ^ 31" and m31: "m < 2 ^ 31" using p m l by simp_all
  have bs: "distinct (bs ! j)" "set (bs ! j) = of_nat ` ?I j" if "j < length bs" for j
    using inv that by (auto simp: chunk_inv_def)
  have del: "of_nat ` (?I j) - {of_nat p :: i32} = of_nat ` (?I j - {p})" for j
    using inj_on_image_set_diff [OF inj, of "?I j" "{p}"] sub p31 by auto
  have bs1: "distinct (bs1 ! j)" "set (bs1 ! j) = of_nat ` (?I j - {p})" if "j < length bs" for j
  proof -
    show "distinct (bs1 ! j)" using bs(1) [OF that] that by (cases "j = j1") (simp_all add: bs1_def)
    show "set (bs1 ! j) = of_nat ` (?I j - {p})"
    proof (cases "j = j1")
      case True
      then show ?thesis using bs [OF that] that del [of j] by (simp add: bs1_def)
    next
      case False
      then have "?I j - {p} = ?I j" by (auto simp: j1_def)
      then show ?thesis using False bs(2) [OF that] by (simp add: bs1_def)
    qed
  qed
  have N: "{n. n < length (erase_at p vs) \<and> slot_of h mk (fst (erase_at p vs ! n)) = j} =
      (if p \<noteq> m \<and> j = j2 then insert p (?I j - {p} - {m}) else ?I j - {p} - {m})" for j
  proof -
    have lv: "length vs = Suc m" using m(1) by (simp add: m_def)
    have "erase_at p vs ! n = (if n = p then vs ! m else vs ! n)" if "n < m" for n
      using erase_at_nth [of n vs p] that m(2) by (simp add: m_def)
    then show ?thesis using p by (auto simp: lv m(2) less_Suc_eq j2_def split: if_splits)
  qed
  show ?thesis
  proof (cases "p = m")
    case True
    then show ?thesis using bs1 len unfolding chunk_inv_def N by simp
  next
    case False
    have j2: "j2 < length bs" using s by (simp add: j2_def)
    have "m \<in> ?I j2 - {p}" using m False by (simp add: j2_def)
    then have "of_nat m \<in> set (bs1 ! j2)" using bs1(2) [OF j2] by blast
    moreover have "of_nat p \<notin> set (bs1 ! j2)"
      using bs1(2) [OF j2] del [of j2] by auto
    ultimately have r: "distinct (chunk_replace (bs1 ! j2) (of_nat m) (of_nat p))"
      "set (chunk_replace (bs1 ! j2) (of_nat m) (of_nat p)) = insert (of_nat p) (of_nat ` (?I j2 - {p}) - {of_nat m})"
      using set_chunk_replace [OF bs1(1) [OF j2], of "of_nat m" "of_nat p"] bs1(2) [OF j2] by auto
    have "of_nat ` (?I j - {p}) - {of_nat m :: i32} = of_nat ` (?I j - {p} - {m})" for j
      using inj_on_image_set_diff [OF inj, of "?I j - {p}" "{m}"] sub [of j] m31 by auto
    note r = r(1) r(2) [unfolded this]
    have "m \<notin> ?I j" if "j \<noteq> j2" for j using that m by (auto simp: j2_def)
    then have "?I j - {p} - {m} = ?I j - {p}" if "j \<noteq> j2" for j using that by blast
    then show ?thesis using False bs1 r len j2 unfolding chunk_inv_def N by (auto simp: nth_list_update)
  qed
qed

lemma idx_erase_absent:
  assumes t: "table h ix k" and k: "0 < k" and ok: "entries_ok ix" and x: "x \<notin> fst ` set (ix_values ix)"
  shows "idx_erase h ix x = Some (ix, 0)"
proof -
  have "bucket_mask ix \<noteq> 0" using t k mask_zero [of k] by (simp add: table_def)
  moreover obtain c where c: "chunk_get ix (bucket_ref h ix x) = Some c" "c = buckets ix ! slot_of h (bucket_mask ix) x"
    "slot_of h (bucket_mask ix) x < length (buckets ix)" by (rule table_chunk [OF t])
  moreover have "chunk_set ix (bucket_ref h ix x) c = Some ix" using c(2,3) by (simp add: chunk_set_def bucket_ref_def)
  ultimately show ?thesis using chunk_lookup(1) [OF t ok c(1) x] by (simp add: idx_erase_def Let_def)
qed

lemma idx_erase_present:
  assumes t: "table h ix k" and k: "0 < k" and ok: "entries_ok ix"
    and p: "p < length (ix_values ix)" "fst (ix_values ix ! p) = x"
  shows "\<exists>ix'. idx_erase h ix x = Some (ix', 1) \<and> ix_values ix' = erase_at p (ix_values ix) \<and> table h ix' k \<and> entries_ok ix'"
proof -
  let ?vs = "ix_values ix" and ?mk = "bucket_mask ix" and ?m = "length (ix_values ix) - 1"
  let ?j1 = "slot_of h ?mk x" and ?j2 = "slot_of h ?mk (fst (last (ix_values ix)))"
  let ?bs1 = "(buckets ix)[?j1 := remove1 (of_nat p) (buckets ix ! ?j1)]"
  have len: "length ?vs < 2 ^ 31" "distinct (map fst ?vs)" using ok by (simp_all add: entries_ok_def)
  have mk: "?mk \<noteq> 0" using t k mask_zero [of k] by (simp add: table_def)
  obtain c where c: "chunk_get ix (bucket_ref h ix x) = Some c" "c = buckets ix ! ?j1" "?j1 < length (buckets ix)"
    by (rule table_chunk [OF t])
  have j2: "?j2 < length (buckets ix)" by (rule table_chunk [OF t])
  have m: "?m < length ?vs" "last ?vs = ?vs ! ?m" using p(1) by (cases ?vs rule: rev_cases; simp)+
  have id2: "(of_nat (length ?vs) - 1 :: i32) = of_nat ?m" using p(1) by (cases ?vs) simp_all
  have eq: "(of_nat p :: i32) = of_nat ?m \<longleftrightarrow> p = ?m" using p(1) len by (intro index_inject) simp_all
  have nt: "nat (sint (of_nat p :: i32)) = p" "nat (sint (of_nat ?m :: i32)) = ?m"
    using p(1) len sint_index [of p] sint_index [of ?m] by (simp, auto simp: of_nat_diff)
  have va: "value_at ?vs (of_nat p) = Some (?vs ! p)" "value_at ?vs (of_nat ?m) = Some (last ?vs)"
    using value_at_index [of p ?vs] value_at_index [of ?m ?vs] p(1) m len by simp_all
  have look: "chunk_find_delete ?vs c x = Some (remove1 (of_nat p) c, of_nat p)" using chunk_lookup(2) [OF t ok c(1) p] by simp
  have inval: "(of_nat p :: i32) \<noteq> invalid_pos" using p(1) len by (intro index_valid) simp
  have set1: "chunk_set ix (bucket_ref h ix x) (remove1 (of_nat p) c) = Some (ix\<lparr>buckets := ?bs1\<rparr>)"
    using c(2,3) by (simp add: chunk_set_def bucket_ref_def)
  define bs where "bs = (if p = ?m then ?bs1 else ?bs1[?j2 := chunk_replace (?bs1 ! ?j2) (of_nat ?m) (of_nat p)])"
  have "idx_erase h ix x = Some (ix\<lparr>buckets := bs, ix_values := erase_at p ?vs\<rparr>, 1)"
  proof (cases "p = ?m")
    case True
    have "?vs[p := last ?vs] = ?vs" unfolding m(2) True by (rule list_update_id)
    then have "erase_at p ?vs = butlast ?vs" by (simp add: erase_at_def)
    then show ?thesis using mk c(1) look set1 inval id2 eq True
      by (simp add: idx_erase_def Let_def bs_def)
  next
    case False
    have "butlast (?vs[p := last ?vs, ?m := ?vs ! p]) = erase_at p ?vs"
      using False m p(1) by (simp add: erase_at_def butlast_list_update)
    then show ?thesis using False mk c(1) look set1 inval id2 eq va nt j2
      by (simp add: idx_erase_def Let_def bs_def chunk_get_def [of "ix\<lparr>buckets := _, ix_values := _\<rparr>"]
        chunk_set_def [of "ix\<lparr>buckets := _, ix_values := _\<rparr>"] bucket_ref_def [of h "ix\<lparr>buckets := _, ix_values := _\<rparr>"])
  qed
  moreover have "chunk_inv h ?mk (erase_at p ?vs) bs"
    using chunk_inv_erase [of h ?mk ?vs "buckets ix" p] t p len(1) slot_less [of k h]
    by (auto simp: bs_def table_def)
  moreover have "length bs = length (buckets ix)" by (simp add: bs_def)
  moreover have "distinct (map fst (erase_at p ?vs))" using set_erase_at [OF len(2) p(1)] by simp
  ultimately show ?thesis using t ok by (auto simp: table_def entries_ok_def)
qed

subsection \<open>Copying\<close>

text \<open>A copy of one or two entries, with the default load factor, gets a single bucket; then the mask
  is 0, which \<open>find\<close> and \<open>erase\<close> take for a container without buckets.\<close>

lemma idx_copy_ok:
  assumes ok: "entries_ok ix"
  shows "\<exists>ix'. idx_copy h junk ix = ret ix' \<and> ix_values ix' = ix_values ix \<and> idx_ok h ix' \<and>
    (ix_values ix \<noteq> [] \<longrightarrow> (\<exists>k. table h ix' k \<and> (k = 0 \<longleftrightarrow> min_bucket_count ix \<le> 1)))"
proof (cases "ix_values ix = []")
  case True
  then show ?thesis using ok by (auto simp: idx_copy_def idx_new_def idx_ok_def entries_ok_def)
next
  case False
  let ?c = "(idx_new junk)\<lparr>ix_values := ix_values ix, max_load := max_load ix\<rparr>"
  have c: "entries_ok ?c" "ix_values ?c = ix_values ix" "min_bucket_count ?c = min_bucket_count ix"
    using ok by (simp_all add: entries_ok_def min_bucket_count_def)
  obtain k ix' where r: "rehash h ?c 0 = ret ix'" "table h ix' k" "entries_ok ix'" "ix_values ix' = ix_values ix"
    "min_bucket_count ix \<le> 2 ^ k" "\<forall>i. min_bucket_count ix \<le> 2 ^ i \<longrightarrow> k \<le> i"
    using rehash_ok [OF c(1), of 0 h] False c by auto
  have "k = 0 \<longleftrightarrow> min_bucket_count ix \<le> 1" using r(5) r(6) [rule_format, of 0] by auto
  then show ?thesis using False r by (auto simp: idx_copy_def Let_def idx_ok_def)
qed

lemma one_bucket: "table h ix 0 \<Longrightarrow> idx_find h ix x = Some invalid_pos \<and> idx_erase h ix x = Some (ix, 0)"
  by (simp add: table_def idx_find_def idx_erase_def)

end
