(* ===== verification/Indexer_Theorems.thy ===== *)
theory Indexer_Theorems
  imports Indexer_Correct
begin

text \<open>The properties of the hash containers.\<close>


text \<open>Three entries in two buckets.\<close>

definition ix_ex :: "(nat, nat) indexer" where
  "ix_ex = \<lparr>ix_values = [(4, 40), (7, 70), (6, 60)], buckets = [[2, 0], [1]], block_id = 0, bucket_count = 2, bucket_mask = 1,
     elem_hint = 4, max_load = 2\<rparr>"

lemma ix_ex_table: "table (of_nat :: nat \<Rightarrow> i32) ix_ex 1" "entries_ok ix_ex" "ix_values ix_ex = [(4, 40), (7, 70), (6, 60)]"
proof -
  have j: "{n. n < Suc (Suc (Suc 0)) \<and> P n} = (if P 0 then {0} else {}) \<union> (if P 1 then {1} else {}) \<union> (if P 2 then {2} else {})"
    for P :: "nat \<Rightarrow> bool" by (auto simp: less_Suc_eq numeral_2_eq_2) (metis neq0_conv)
  show "table (of_nat :: nat \<Rightarrow> i32) ix_ex 1"
    by (simp add: table_def ix_ex_def chunk_inv_def slot_of_def j All_less_Suc numeral_2_eq_2)
qed (simp_all add: entries_ok_def ix_ex_def)


text \<open>C29. The life of a container with the default load factor, for every hash function: entries
  with distinct keys go in, in order and each found at its place, up to 64 of them. The 65th
  insertion is undefined: \<open>chunk_push\<close> calls \<open>check_loadfactor\<close>, which rehashes and frees the buckets,
  and then links the new node into the chunk it was given a reference to.\<close>

fun idx_insert_all :: "('k \<Rightarrow> i32) \<Rightarrow> ('k, 'v) indexer \<Rightarrow> ('k \<times> 'v) list \<Rightarrow> ('k, 'v) indexer outcome" where
  "idx_insert_all h ix [] = ret ix"
| "idx_insert_all h ix (v # vs) = andthen (idx_insert h ix v) (\<lambda>(ix, _). idx_insert_all h ix vs)"

lemma insert_all_table:
  "table h ix 5 \<Longrightarrow> entries_ok ix \<Longrightarrow> elem_hint ix = 64 \<Longrightarrow> distinct (map fst (ix_values ix @ vs)) \<Longrightarrow>
    length (ix_values ix @ vs) \<le> 65 \<Longrightarrow>
    if length (ix_values ix @ vs) \<le> 64 then \<exists>ix'. idx_insert_all h ix vs = ret ix' \<and> ix_values ix' = ix_values ix @ vs \<and> table h ix' 5 \<and> entries_ok ix'
    else vs \<noteq> [] \<longrightarrow> idx_insert_all h ix vs = None"
proof (induction vs arbitrary: ix)
  case (Cons v vs)
  have v: "fst v \<notin> fst ` set (ix_values ix)" using Cons.prems(4) by auto
  show ?case
  proof (cases "length (ix_values ix) < 64")
    case True
    obtain ix' where i: "idx_place h ix v = ret (ix', of_nat (length (ix_values ix)))" "ix_values ix' = ix_values ix @ [v]"
      "table h ix' 5" "entries_ok ix'" "elem_hint ix' = elem_hint ix"
      using idx_place_absent [OF Cons.prems(1) _ Cons.prems(2) v] True Cons.prems(3) by auto
    have "vs \<noteq> []" if "\<not> length (ix_values ix @ v # vs) \<le> 64" using that True by auto
    with Cons.IH [OF i(3,4)] i Cons.prems show ?thesis by (auto simp: idx_insert_def)
  next
    case False
    then have "idx_place h ix v = None" using Cons.prems v by (intro idx_place_grow) auto
    then show ?thesis using False by (simp add: idx_insert_def)
  qed
qed simp

theorem indexer_default_limit:
  assumes d: "distinct (map fst vs)" and l: "length vs \<le> 65" and ne: "vs \<noteq> []"
  shows "if length vs \<le> 64 then \<exists>ix. idx_insert_all h (idx_new junk) vs = ret ix \<and> ix_values ix = vs \<and>
      (\<forall>p < length vs. idx_find h ix (fst (vs ! p)) = Some (of_nat p)) \<and>
      (\<forall>x. x \<notin> fst ` set vs \<longrightarrow> idx_find h ix x = Some invalid_pos)
    else idx_insert_all h (idx_new junk) vs = None"
proof -
  obtain v us where vs: "vs = v # us" using ne by (cases vs) auto
  have ok: "entries_ok (idx_new junk)" "bucket_mask (idx_new junk) = 0" "ix_values (idx_new junk) = []" "max_load (idx_new junk) = 2"
    by (simp_all add: entries_ok_def idx_new_def)
  obtain ix where ix: "table h ix 5" "entries_ok ix" "ix_values ix = []" "max_load ix = 2" "idx_place h (idx_new junk) v = idx_place h ix v"
    using idx_place_first [OF ok(1,2), of h v] unfolding ok(3,4) by auto
  have "elem_hint ix = 64" using ix(1,4) by (simp add: table_def)
  then have "if length vs \<le> 64 then \<exists>ix'. idx_insert_all h ix vs = ret ix' \<and> ix_values ix' = vs \<and> table h ix' 5 \<and> entries_ok ix'
    else idx_insert_all h ix vs = None"
    using insert_all_table [OF ix(1,2), of vs, unfolded ix(3) append_Nil] d l ne by simp
  moreover have "idx_insert_all h (idx_new junk) vs = idx_insert_all h ix vs" by (simp add: vs idx_insert_def ix(5))
  moreover have "(\<forall>p < length vs. idx_find h ix' (fst (vs ! p)) = Some (of_nat p)) \<and>
      (\<forall>x. x \<notin> fst ` set vs \<longrightarrow> idx_find h ix' x = Some invalid_pos)"
    if "table h ix' 5" "entries_ok ix'" "ix_values ix' = vs" for ix'
    using idx_find_ok [OF that(1) _ that(2)] that(3) by simp
  ultimately show ?thesis by (metis (no_types))
qed

lemma indexer_default_limit_witness:
  "\<forall>h :: nat \<Rightarrow> i32. (\<exists>ix. idx_insert_all h (idx_new 0) [(3, True), (5, False)] = ret ix \<and> idx_find h ix 5 = Some 1) \<and>
   idx_insert_all h (idx_new 0) (map (\<lambda>n. (n, True)) [0 ..< 65]) = None"
proof
  fix h :: "nat \<Rightarrow> i32"
  have "distinct (map fst (map (\<lambda>n. (n, True)) [0 ..< 65]))" by (simp add: comp_def)
  then have "idx_insert_all h (idx_new 0) (map (\<lambda>n. (n, True)) [0 ..< 65]) = None"
    using indexer_default_limit [of "map (\<lambda>n. (n, True)) [0 ..< 65]" h 0] by simp
  moreover have "\<exists>ix. idx_insert_all h (idx_new 0) [(3 :: nat, True), (5, False)] = ret ix \<and> idx_find h ix 5 = Some 1"
    using indexer_default_limit [of "[(3 :: nat, True), (5, False)]" h 0] by (auto simp: less_Suc_eq all_conj_distrib)
  ultimately show "(\<exists>ix. idx_insert_all h (idx_new 0) [(3, True), (5, False)] = ret ix \<and> idx_find h ix 5 = Some 1) \<and>
    idx_insert_all h (idx_new 0) (map (\<lambda>n. (n, True)) [0 ..< 65]) = None" by blast
qed

text \<open>A copy holds the same entries, but a copy of one or two entries (with the default load
  factor; in general when the minimal number of buckets is 1) has one bucket, hence a mask of 0, and
  then \<open>find\<close> does not find anything and \<open>erase\<close> does not erase anything. With more entries the copy
  is a container as in C32.\<close>

theorem indexer_small_copy:
  assumes ok: "entries_ok ix" and lf: "max_load ix = 2" and ne: "ix_values ix \<noteq> []"
  shows "\<exists>ix' k. idx_copy h junk ix = ret ix' \<and> ix_values ix' = ix_values ix \<and> table h ix' k \<and>
    (if length (ix_values ix) \<le> 2
     then \<forall>x. idx_find h ix' x = Some invalid_pos \<and> idx_erase h ix' x = Some (ix', 0)
     else 0 < k)"
proof -
  obtain ix' k where c: "idx_copy h junk ix = ret ix'" "ix_values ix' = ix_values ix" "table h ix' k"
    "k = 0 \<longleftrightarrow> min_bucket_count ix \<le> 1" using idx_copy_ok [OF ok, of h junk] ne by auto
  have "min_bucket_count ix \<le> 1 \<longleftrightarrow> length (ix_values ix) \<le> 2"
  proof -
    have "min_bucket_count ix \<le> 1 \<longleftrightarrow> \<lfloor>of_nat (length (ix_values ix)) / 2 + 1 / 2 :: rat\<rfloor> \<le> 1"
      by (simp add: min_bucket_count_def lf nat_le_iff)
    also have "\<dots> \<longleftrightarrow> (of_nat (length (ix_values ix)) :: rat) < of_nat 3"
      by (auto simp: floor_le_iff field_simps)
    finally show ?thesis by (simp only: of_nat_less_iff) auto
  qed
  with c show ?thesis using one_bucket [of h ix'] by auto
qed

lemma indexer_small_copy_witness:
  "\<exists>ix'. idx_copy (of_nat :: nat \<Rightarrow> i32) 0 ((idx_new 0)\<lparr>ix_values := [(1, True)]\<rparr>) = ret ix' \<and>
    ix_values ix' = [(1, True)] \<and> idx_find of_nat ix' 1 = Some invalid_pos"
  using indexer_small_copy [of "(idx_new 0)\<lparr>ix_values := [(1 :: nat, True)]\<rparr>" of_nat 0]
  by (auto simp: entries_ok_def idx_new_def)

end
