(* ===== verification/Linear_Buffer.thy ===== *)
theory Linear_Buffer
  imports Mem_Block Sz_Helper Word_Facts
begin

text \<open>
  \<open>LinearBuffer<char>\<close> (\<open>inc/vhwd/collection/linear_buffer.h\<close>; \<open>_grow\<close> is in
  \<open>src/vhwd/collection/collection.cpp\<close>): a block with a read and a write position, its own (\<open>aBuff\<close>,
  which grows) or one the caller has assigned, and the readers for numbers and strings on it.
  Positions are \<open>size_t\<close>, with the wrap-around of the code; \<open>al n\<close> says whether \<open>aBuff\<close> can get \<open>n\<close>
  elements. The elements are bytes.
\<close>

unbundle bit_operations_syntax

text \<open>\<open>pBuffer\<close> points to the elements of \<open>aBuff\<close> (also when both are NULL), or to a block of the caller.\<close>

datatype lb_block = Own | Ext_block "u8 list"

record linear_buffer =
  pBuffer :: lb_block
  sz_buf :: size_t
  lb_rd :: size_t
  lb_wr :: size_t
  aBuff :: "u8 list"

definition lb_new :: linear_buffer where
  "lb_new = \<lparr>pBuffer = Own, sz_buf = 0, lb_rd = 0, lb_wr = 0, aBuff = []\<rparr>"

definition lb_mem :: "linear_buffer \<Rightarrow> u8 list" where
  "lb_mem lb = (case pBuffer lb of Own \<Rightarrow> aBuff lb | Ext_block b \<Rightarrow> b)"

definition lb_set_mem :: "linear_buffer \<Rightarrow> u8 list \<Rightarrow> linear_buffer" where
  "lb_set_mem lb b = (case pBuffer lb of Own \<Rightarrow> lb\<lparr>aBuff := b\<rparr> | Ext_block _ \<Rightarrow> lb\<lparr>pBuffer := Ext_block b\<rparr>)"

subsection \<open>Operations\<close>

definition lb_rewind :: "linear_buffer \<Rightarrow> linear_buffer" where
  "lb_rewind lb = lb\<lparr>lb_wr := 0, lb_rd := 0\<rparr>"

definition xbuf :: "linear_buffer \<Rightarrow> linear_buffer" where
  "xbuf lb = lb\<lparr>pBuffer := Own, sz_buf := of_nat (length (aBuff lb)), lb_rd := 0, lb_wr := 0\<rparr>"

text \<open>\<open>aBuff.resize(n)\<close>.\<close>

definition abuff_resize :: "(nat \<Rightarrow> bool) \<Rightarrow> linear_buffer \<Rightarrow> nat \<Rightarrow> linear_buffer outcome" where
  "abuff_resize al lb n = (if al n then ret (lb\<lparr>aBuff := take n (aBuff lb) @ replicate (n - length (aBuff lb)) 0\<rparr>)
     else throw XBadAlloc)"

definition lb_rewind_size :: "(nat \<Rightarrow> bool) \<Rightarrow> linear_buffer \<Rightarrow> nat \<Rightarrow> linear_buffer outcome" where
  "lb_rewind_size al lb n = andthen (abuff_resize al lb n) (\<lambda>lb. ret (xbuf lb))"

definition lb_skip :: "linear_buffer \<Rightarrow> linear_buffer \<times> bool" where
  "lb_skip lb = (lb\<lparr>lb_wr := 0, lb_rd := 0\<rparr>, lb_wr lb = lb_rd lb)"

definition lb_eof :: "linear_buffer \<Rightarrow> bool" where
  "lb_eof lb \<longleftrightarrow> lb_rd lb = lb_wr lb"

definition lb_peek1 :: "linear_buffer \<Rightarrow> u8 option" where
  "lb_peek1 lb = (if lb_eof lb then Some (- 1)
     else if unat (lb_rd lb) < length (lb_mem lb) then Some (lb_mem lb ! unat (lb_rd lb)) else None)"

definition lb_get :: "linear_buffer \<Rightarrow> (linear_buffer \<times> u8) option" where
  "lb_get lb = (if lb_eof lb then Some (lb, - 1)
     else if unat (lb_rd lb) < length (lb_mem lb)
     then Some (lb\<lparr>lb_rd := lb_rd lb + 1\<rparr>, lb_mem lb ! unat (lb_rd lb)) else None)"

definition lb_unget :: "linear_buffer \<Rightarrow> linear_buffer outcome" where
  "lb_unget lb = (if lb_rd lb = 0 then throw XInvalidIndex else ret (lb\<lparr>lb_rd := lb_rd lb - 1\<rparr>))"

definition lb_wr_flip :: "linear_buffer \<Rightarrow> size_t \<Rightarrow> linear_buffer" where
  "lb_wr_flip lb n = lb\<lparr>lb_wr := lb_wr lb + n\<rparr>"

definition lb_rd_flip :: "linear_buffer \<Rightarrow> size_t \<Rightarrow> linear_buffer" where
  "lb_rd_flip lb n = lb\<lparr>lb_rd := lb_rd lb + n\<rparr>"

definition lb_rd_reset :: "linear_buffer \<Rightarrow> linear_buffer" where
  "lb_rd_reset lb = lb\<lparr>lb_rd := 0\<rparr>"

definition lb_peek :: "linear_buffer \<Rightarrow> u8 list \<Rightarrow> size_t \<Rightarrow> (u8 list \<times> size_t) option" where
  "lb_peek lb p n = do {
     let kp = lb_wr lb - lb_rd lb;
     let kp = (if kp > n then n else kp);
     p \<leftarrow> mem_copy p 0 (lb_mem lb) (int (unat (lb_rd lb))) (int (unat kp));
     Some (p, kp) }"

definition lb_rd_free :: "linear_buffer \<Rightarrow> size_t" where
  "lb_rd_free lb = lb_wr lb - lb_rd lb"

definition lb_wr_free :: "linear_buffer \<Rightarrow> size_t" where
  "lb_wr_free lb = sz_buf lb - lb_wr lb"

definition lb_grow :: "(nat \<Rightarrow> bool) \<Rightarrow> linear_buffer \<Rightarrow> size_t \<Rightarrow> (linear_buffer \<times> bool) outcome" where
  "lb_grow al lb newsize = (if pBuffer lb \<noteq> Own then ret (lb, False)
     else andthen (n2p (newsize + drop_bit 2 newsize)) (\<lambda>size.
       let size = (if size \<le> newsize then push_bit 1 newsize else size) in
       andthen (abuff_resize al lb (unat size)) (\<lambda>lb.
         ret (lb\<lparr>pBuffer := Own, sz_buf := of_nat (length (aBuff lb))\<rparr>, True))))"

definition lb_send :: "(nat \<Rightarrow> bool) \<Rightarrow> linear_buffer \<Rightarrow> u8 list \<Rightarrow> size_t \<Rightarrow> (linear_buffer \<times> size_t) outcome" where
  "lb_send al lb p n = (let wr_max = lb_wr lb + n in
     andthen (if wr_max > sz_buf lb then lb_grow al lb wr_max else ret (lb, True)) (\<lambda>(lb, ok).
       if \<not> ok then ret (lb, 0)
       else nothrow (do {
         b \<leftarrow> mem_copy (lb_mem lb) (int (unat (lb_wr lb))) p 0 (int (unat n));
         Some ((lb_set_mem lb b)\<lparr>lb_wr := lb_wr lb + n\<rparr>, n) })))"

definition lb_recv :: "linear_buffer \<Rightarrow> u8 list \<Rightarrow> size_t \<Rightarrow> (linear_buffer \<times> u8 list \<times> size_t) option" where
  "lb_recv lb p n = do {
     let kp = lb_wr lb - lb_rd lb;
     let kp = (if kp > n then n else kp);
     p \<leftarrow> mem_copy p 0 (lb_mem lb) (int (unat (lb_rd lb))) (int (unat kp));
     Some (lb\<lparr>lb_rd := lb_rd lb + kp\<rparr>, p, kp) }"

definition lb_assign :: "linear_buffer \<Rightarrow> u8 list \<Rightarrow> linear_buffer" where
  "lb_assign lb b = lb\<lparr>pBuffer := Ext_block b, sz_buf := of_nat (length b), lb_rd := 0, lb_wr := 0\<rparr>"

definition lb_alloc :: "(nat \<Rightarrow> bool) \<Rightarrow> linear_buffer \<Rightarrow> nat \<Rightarrow> linear_buffer outcome" where
  "lb_alloc al lb n = andthen (abuff_resize al lb n) (\<lambda>lb. ret (xbuf lb))"

subsection \<open>Readers\<close>

text \<open>\<open>skip_space\<close> and the loops of the comment readers.\<close>

partial_function (option) skip_space :: "linear_buffer \<Rightarrow> linear_buffer outcome" where
  "skip_space lb = (if lb_eof lb then ret lb
     else do { (lb, val) \<leftarrow> lb_get lb;
       if val \<noteq> 9 \<and> val \<noteq> 32 then lb_unget lb else skip_space lb })"

partial_function (option) skip_line :: "linear_buffer \<Rightarrow> linear_buffer outcome" where
  "skip_line lb = (if lb_eof lb then ret lb
     else do { (lb, val) \<leftarrow> lb_get lb;
       if val = 13 \<or> val = 10 then lb_unget lb else skip_line lb })"

definition skip_comment1 :: "linear_buffer \<Rightarrow> linear_buffer outcome" where
  "skip_comment1 lb = andthen (nothrow (lb_get (lb_rd_flip lb 1))) (\<lambda>(lb, val).
     if val \<noteq> 47 then throw (XError '''/' expected'') else skip_line lb)"

definition skip_comment2 :: "linear_buffer \<Rightarrow> linear_buffer outcome" where
  "skip_comment2 lb = skip_line (lb_rd_flip lb 1)"

text \<open>The loop of \<open>read_integer\<close> returns whether it has left by \<open>break\<close>; the code of the digit is \<open>unsigned\<close>.\<close>

partial_function (option) read_digits :: "linear_buffer \<Rightarrow> 64 word \<Rightarrow> i32 \<Rightarrow> i32 \<Rightarrow> i32 \<Rightarrow>
    (linear_buffer \<times> 64 word \<times> i32 \<times> i32 \<times> bool) outcome" where
  "read_digits lb vv gg kk doted = (if lb_eof lb then ret (lb, vv, gg, kk, False)
     else do { (lb, val) \<leftarrow> lb_get lb;
       let d = (signed val :: u32) - 48;
       if d > 10 then
         if val = 46 then
           if doted = 1 then throw (XError ''Invalid_number:two dot'') else read_digits lb vv gg kk 1
         else andthen (lb_unget lb) (\<lambda>lb. ret (lb, vv, gg, kk, True))
       else read_digits lb (vv * 10 + ucast d) (gg + doted) (kk + 1) doted })"

definition read_integer :: "linear_buffer \<Rightarrow> (linear_buffer \<times> 64 word \<times> i32) outcome" where
  "read_integer lb = andthen (nothrow (lb_peek1 lb)) (\<lambda>val.
     andthen (nothrow (if val = 43 then map_option fst (lb_get lb) else Some lb)) (\<lambda>lb.
     andthen (nothrow (if val = 45 then map_option (\<lambda>(lb, _). (lb, True)) (lb_get lb) else Some (lb, False))) (\<lambda>(lb, sign1).
     andthen (read_digits lb 0 0 0 0) (\<lambda>(lb, vv, gg, kk, broken).
       if \<not> broken then ret (lb, vv, gg)
       else if kk = 0 then throw (XError ''Invalid_number'')
       else ret (lb, if sign1 then - vv else vv, gg)))))"

text \<open>\<open>read_element\<close> for strings.\<close>

partial_function (option) read_word :: "linear_buffer \<Rightarrow> u8 list \<Rightarrow> (linear_buffer \<times> u8 list) option" where
  "read_word lb acc = (if lb_eof lb then Some (lb, acc)
     else do { val \<leftarrow> lb_peek1 lb;
       if val = 0 \<or> val = 9 \<or> val = 32 \<or> val = 13 \<or> val = 10 then Some (lb, acc)
       else do { (lb, _) \<leftarrow> lb_get lb; read_word lb (acc @ [val]) } })"

definition read_string :: "linear_buffer \<Rightarrow> (linear_buffer \<times> u8 list) outcome" where
  "read_string lb = nothrow (read_word lb [])"

text \<open>\<open>parse\<close>, for any element reader: the elements, and the number of elements in every line, or -1
  when the lines differ.\<close>

partial_function (option) parse_loop :: "(linear_buffer \<Rightarrow> (linear_buffer \<times> 'e) outcome) \<Rightarrow> linear_buffer \<Rightarrow>
    'e list \<Rightarrow> int \<Rightarrow> int \<Rightarrow> (linear_buffer \<times> 'e list \<times> int) outcome" where
  "parse_loop el lb tmp ln tn = (if lb_eof lb then ret (lb, tmp, ln)
     else do { val \<leftarrow> lb_peek1 lb;
       if val = 47 then do { r \<leftarrow> skip_comment1 lb; case r of Inl x \<Rightarrow> throw x | Inr lb \<Rightarrow> parse_loop el lb tmp ln tn }
       else if val = 37 then do { r \<leftarrow> skip_comment2 lb; case r of Inl x \<Rightarrow> throw x | Inr lb \<Rightarrow> parse_loop el lb tmp ln tn }
       else if val = 9 \<or> val = 32 then do { r \<leftarrow> skip_space lb; case r of Inl x \<Rightarrow> throw x | Inr lb \<Rightarrow> parse_loop el lb tmp ln tn }
       else if val = 13 \<or> val = 10 then do { (lb, _) \<leftarrow> lb_get lb;
         if tn = 0 then parse_loop el lb tmp ln tn
         else parse_loop el lb tmp (if ln = 0 then tn else if ln \<noteq> tn then - 1 else ln) 0 }
       else do { r \<leftarrow> el lb; case r of Inl x \<Rightarrow> throw x
         | Inr r \<Rightarrow> parse_loop el (fst r) (tmp @ [snd r]) ln (tn + 1) } })"

text \<open>The exceptions of the readers are caught; the result is then \<open>False\<close>.\<close>

definition lb_parse :: "(linear_buffer \<Rightarrow> (linear_buffer \<times> 'e) outcome) \<Rightarrow> linear_buffer \<Rightarrow> 'e list \<Rightarrow> int \<Rightarrow>
    (linear_buffer option \<times> 'e list \<times> int \<times> bool) option" where
  "lb_parse el lb a1t pn = (let lb = lb_rd_reset lb in
     if lb_wr lb = 0 then Some (Some lb, [], pn, True)
     else do { r \<leftarrow> parse_loop el lb [] 0 0;
       case r of Inl _ \<Rightarrow> Some (None, a1t, pn, False) | Inr (lb, tmp, ln) \<Rightarrow> Some (Some lb, tmp, ln, True) })"

subsection \<open>What a buffer holds\<close>

text \<open>\<open>lb_holds lb xs\<close>: the bytes written and not yet read are \<open>xs\<close>.\<close>

definition lb_ok :: "linear_buffer \<Rightarrow> bool" where
  "lb_ok lb \<longleftrightarrow> unat (sz_buf lb) = length (lb_mem lb) \<and> lb_rd lb \<le> lb_wr lb \<and> lb_wr lb \<le> sz_buf lb"

definition lb_holds :: "linear_buffer \<Rightarrow> u8 list \<Rightarrow> bool" where
  "lb_holds lb xs \<longleftrightarrow> lb_ok lb \<and> xs = take (unat (lb_wr lb) - unat (lb_rd lb)) (drop (unat (lb_rd lb)) (lb_mem lb))"

lemma lb_mem_simps [simp]: "lb_mem (lb\<lparr>lb_rd := r\<rparr>) = lb_mem lb" "lb_mem (lb\<lparr>lb_wr := w\<rparr>) = lb_mem lb"
    "lb_mem (lb\<lparr>sz_buf := s\<rparr>) = lb_mem lb"
  by (simp_all add: lb_mem_def split: lb_block.splits)

lemma lb_holdsD:
  assumes "lb_holds lb xs"
  shows "unat (lb_rd lb) + length xs = unat (lb_wr lb)" "unat (lb_wr lb) \<le> length (lb_mem lb)"
    "unat (lb_wr lb - lb_rd lb) = length xs" "xs = take (length xs) (drop (unat (lb_rd lb)) (lb_mem lb))"
    "unat (sz_buf lb) = length (lb_mem lb)" "length (lb_mem lb) < 2 ^ 64"
proof -
  have w: "unat (lb_rd lb) \<le> unat (lb_wr lb)" "unat (lb_wr lb) \<le> length (lb_mem lb)" "lb_rd lb \<le> lb_wr lb"
    using assms by (auto simp: lb_holds_def lb_ok_def word_le_nat_alt)
  then have l: "length xs = unat (lb_wr lb) - unat (lb_rd lb)" using assms by (simp add: lb_holds_def)
  show "unat (lb_rd lb) + length xs = unat (lb_wr lb)" using w l by simp
  show "unat (lb_wr lb) \<le> length (lb_mem lb)" by (fact w)
  show "unat (lb_wr lb - lb_rd lb) = length xs" using w l by (simp add: unat_sub)
  show "xs = take (length xs) (drop (unat (lb_rd lb)) (lb_mem lb))" using assms l by (simp add: lb_holds_def)
  show "unat (sz_buf lb) = length (lb_mem lb)" using assms by (simp add: lb_holds_def lb_ok_def)
  then show "length (lb_mem lb) < 2 ^ 64" using unat_size_less [of "sz_buf lb"] by simp
qed

lemma lb_new_holds: "lb_holds lb_new []"
  by (simp add: lb_holds_def lb_ok_def lb_new_def lb_mem_def)

lemma lb_eof_iff: "lb_holds lb xs \<Longrightarrow> lb_eof lb \<longleftrightarrow> xs = []"
  using lb_holdsD(1) [of lb xs] by (auto simp: lb_eof_def word_eq_iff_unsigned [where ?'a = nat])

text \<open>Moving the read position forward.\<close>

lemma lb_advance:
  assumes h: "lb_holds lb xs" and n: "unat n \<le> length xs"
  shows "lb_holds (lb\<lparr>lb_rd := lb_rd lb + n\<rparr>) (drop (unat n) xs)"
proof -
  note D = lb_holdsD [OF h]
  have "unat (lb_rd lb + n) = unat (lb_rd lb) + unat n"
    using D(1) n unat_size_less [of "lb_wr lb"] by (simp add: unat_word_ariths)
  moreover have "drop (unat n) xs = take (length xs - unat n) (drop (unat (lb_rd lb) + unat n) (lb_mem lb))"
    by (subst D(4)) (simp add: drop_take add.commute)
  ultimately show ?thesis using D(1,2,5) n by (simp add: lb_holds_def lb_ok_def word_le_nat_alt flip: D(1))
qed

lemma lb_head:
  assumes h: "lb_holds lb (x # xs)"
  shows "lb_peek1 lb = Some x" "lb_get lb = Some (lb\<lparr>lb_rd := lb_rd lb + 1\<rparr>, x)"
    "lb_holds (lb\<lparr>lb_rd := lb_rd lb + 1\<rparr>) xs" "lb_unget (lb\<lparr>lb_rd := lb_rd lb + 1\<rparr>) = ret lb"
proof -
  note D = lb_holdsD [OF h]
  have i: "unat (lb_rd lb) < length (lb_mem lb)" using D(1,2) by simp
  have "x = (x # xs) ! 0" by simp
  also have "\<dots> = lb_mem lb ! unat (lb_rd lb)" by (subst D(4)) (use i in simp)
  finally have x: "lb_mem lb ! unat (lb_rd lb) = x" by simp
  have "\<not> lb_eof lb" using lb_eof_iff [OF h] by simp
  with i x show "lb_peek1 lb = Some x" "lb_get lb = Some (lb\<lparr>lb_rd := lb_rd lb + 1\<rparr>, x)"
    by (simp_all add: lb_peek1_def lb_get_def)
  show "lb_holds (lb\<lparr>lb_rd := lb_rd lb + 1\<rparr>) xs" using lb_advance [OF h, of 1] by simp
  have "unat (lb_rd lb) + 1 < 2 ^ 64" using D(1) unat_size_less [of "lb_wr lb"] by simp
  then have "unat (lb_rd lb + 1) = unat (lb_rd lb) + 1" by (simp add: unat_word_ariths)
  then have "lb_rd lb + 1 \<noteq> 0" by auto
  then show "lb_unget (lb\<lparr>lb_rd := lb_rd lb + 1\<rparr>) = ret lb" by (simp add: lb_unget_def)
qed

lemma lb_end: "lb_holds lb [] \<Longrightarrow> lb_peek1 lb = Some (- 1) \<and> lb_get lb = Some (lb, - 1)"
  using lb_eof_iff [of lb "[]"] by (simp add: lb_peek1_def lb_get_def)

text \<open>Reading a block.\<close>

lemma lb_recv_ok:
  assumes h: "lb_holds lb xs" and p: "min (unat n) (length xs) \<le> length p"
  defines "c \<equiv> min (unat n) (length xs)"
  shows "\<exists>lb' m. lb_recv lb p n = Some (lb', take c xs @ drop c p, m) \<and> unat m = c \<and> lb_holds lb' (drop c xs) \<and>
    lb_peek lb p n = Some (take c xs @ drop c p, m) \<and> lb' = lb\<lparr>lb_rd := lb_rd lb + m\<rparr>"
proof -
  note D = lb_holdsD [OF h]
  let ?kp = "if lb_wr lb - lb_rd lb > n then n else lb_wr lb - lb_rd lb"
  have kp: "unat ?kp = c" using D(3) by (auto simp: c_def word_less_nat_alt)
  have m: "mem_copy p 0 (lb_mem lb) (int (unat (lb_rd lb))) (int c) = Some (take c (drop (unat (lb_rd lb)) (lb_mem lb)) @ drop c p)"
    using D(1,2) p by (intro mem_copy_start) (auto simp: c_def)
  have t: "take c (drop (unat (lb_rd lb)) (lb_mem lb)) = take c xs" by (subst D(4)) (simp add: c_def min_absorb1)
  have "lb_holds (lb\<lparr>lb_rd := lb_rd lb + ?kp\<rparr>) (drop c xs)"
    using lb_advance [OF h, of ?kp] unfolding kp by (simp add: c_def)
  then show ?thesis
    unfolding lb_recv_def lb_peek_def Let_def kp m t bind.bind_lunit
    by (intro exI [of _ "lb\<lparr>lb_rd := lb_rd lb + ?kp\<rparr>"] exI [of _ ?kp]) (simp add: kp)
qed

lemma lb_mem_set: "lb_mem (lb_set_mem lb b) = b" "lb_wr (lb_set_mem lb b) = lb_wr lb" "lb_rd (lb_set_mem lb b) = lb_rd lb"
    "sz_buf (lb_set_mem lb b) = sz_buf lb" "pBuffer (lb_set_mem lb b) = (case pBuffer lb of Own \<Rightarrow> Own | Ext_block _ \<Rightarrow> Ext_block b)"
  by (auto simp: lb_mem_def lb_set_mem_def split: lb_block.splits)

text \<open>Writing, into a block with room.\<close>

lemma lb_write:
  assumes h: "lb_holds lb xs" and p: "unat n \<le> length p" and room: "unat (lb_wr lb) + unat n \<le> length (lb_mem lb)"
  shows "\<exists>b. mem_copy (lb_mem lb) (int (unat (lb_wr lb))) p 0 (int (unat n)) = Some b \<and>
    lb_holds ((lb_set_mem lb b)\<lparr>lb_wr := lb_wr lb + n\<rparr>) (xs @ take (unat n) p)"
proof -
  note D = lb_holdsD [OF h]
  let ?w = "unat (lb_wr lb)" and ?r = "unat (lb_rd lb)" and ?m = "lb_mem lb"
  let ?b = "take ?w ?m @ take (unat n) p @ drop (?w + unat n) ?m"
  have c: "mem_copy ?m (int ?w) p 0 (int (unat n)) = Some ?b"
    using mem_copy_ok [of ?w "unat n" ?m 0 p] p room by simp
  have w: "unat (lb_wr lb + n) = ?w + unat n" using room D(6) by (simp add: unat_word_ariths)
  have "take (?w + unat n - ?r) (drop ?r ?b) = take (?w - ?r) (drop ?r ?m) @ take (unat n) p"
    using D(1,2) p room by (simp add: drop_take min_absorb1 min_absorb2 diff_diff_eq)
  also have "take (?w - ?r) (drop ?r ?m) = xs" using h by (simp add: lb_holds_def)
  finally have "lb_holds ((lb_set_mem lb ?b)\<lparr>lb_wr := lb_wr lb + n\<rparr>) (xs @ take (unat n) p)"
    using D(1,2,5) p room w
    by (simp add: lb_holds_def lb_ok_def word_le_nat_alt lb_mem_set)
  with c show ?thesis by blast
qed

text \<open>Growing. The new size is beyond what is asked for.\<close>

lemma lb_grow_ok:
  assumes h: "lb_holds lb xs" and o: "pBuffer lb = Own" and n: "unat ns \<le> 2 ^ 61" "length (lb_mem lb) \<le> unat ns"
  shows "\<exists>sz. unat ns < sz \<and> (if al sz then \<exists>lb'. lb_grow al lb ns = ret (lb', True) \<and> lb_holds lb' xs \<and>
      lb_wr lb' = lb_wr lb \<and> length (lb_mem lb') = sz \<and> pBuffer lb' = Own
    else lb_grow al lb ns = throw XBadAlloc)"
proof -
  have "unat (drop_bit 2 ns) = unat ns div 4"
    by (simp only: unsigned_drop_bit_eq) (simp add: drop_bit_eq_div take_bit_nat_eq_self unat_size_less [simplified])
  then have u: "unat (ns + drop_bit 2 ns) = unat ns + unat ns div 4" using n(1) by (simp add: unat_word_ariths)
  then have "unat (ns + drop_bit 2 ns) \<le> 2 ^ 62" using n(1) by simp
  then obtain m where m: "m \<le> 63" "n2p (ns + drop_bit 2 ns) = ret (2 ^ m)" "unat (ns + drop_bit 2 ns) \<le> 2 ^ m"
    "\<forall>i. unat (ns + drop_bit 2 ns) \<le> 2 ^ i \<longrightarrow> m \<le> i" using n2p_ok [of "ns + drop_bit 2 ns"] by auto
  define sz where "sz = (if (2 :: size_t) ^ m \<le> ns then push_bit 1 ns else 2 ^ m)"
  have sz: "unat ns < unat sz"
  proof (cases "(2 :: size_t) ^ m \<le> ns")
    case True
    then have "2 ^ m \<le> unat ns" using m(1) by (simp add: word_le_nat_alt)
    moreover from this have "0 < unat ns" by (rule less_le_trans [rotated]) simp
    moreover have "unat (push_bit 1 ns) = 2 * unat ns" using n(1) by (simp add: push_bit_eq_mult unat_word_ariths)
    ultimately show ?thesis using True by (simp add: sz_def)
  next
    case False
    then show ?thesis by (simp add: sz_def word_le_nat_alt)
  qed
  let ?b = "take (unat sz) (aBuff lb) @ replicate (unat sz - length (aBuff lb)) 0"
  let ?lb = "lb\<lparr>aBuff := ?b, pBuffer := Own, sz_buf := sz\<rparr>"
  have len: "length ?b = unat sz" by simp
  have g: "lb_grow al lb ns = (if al (unat sz) then ret (?lb, True) else throw XBadAlloc)"
  proof -
    have "(of_nat (length ?b) :: size_t) = sz" unfolding len by simp
    then show ?thesis using o m(2) by (simp add: lb_grow_def Let_def abuff_resize_def del: length_append flip: sz_def)
  qed
  have mm: "lb_mem lb = aBuff lb" using o by (simp add: lb_mem_def)
  have b: "?b = aBuff lb @ replicate (unat sz - length (aBuff lb)) 0" using n(2) sz mm by simp
  have "lb_holds ?lb xs"
  proof -
    have "unat sz = length ?b" by simp
    moreover have "lb_mem ?lb = ?b" by (simp add: lb_mem_def)
    moreover have "take (unat (lb_wr lb) - unat (lb_rd lb)) (drop (unat (lb_rd lb)) ?b) = xs"
      unfolding b using h lb_holdsD(1,2) [OF h] mm by (simp add: lb_holds_def)
    ultimately show ?thesis using h len sz lb_holdsD(2) [OF h] n(2) mm
      by (auto simp: lb_holds_def lb_ok_def word_le_nat_alt simp del: length_append)
  qed
  then show ?thesis using g sz len by (intro exI [of _ "unat sz"]) (auto simp: lb_mem_def)
qed

lemma lb_send_ok:
  assumes h: "lb_holds lb xs" and p: "unat n \<le> length p" and small: "unat (lb_wr lb) + unat n \<le> 2 ^ 61"
  shows "(pBuffer lb \<noteq> Own \<and> length (lb_mem lb) < unat (lb_wr lb) + unat n \<longrightarrow> lb_send al lb p n = ret (lb, 0)) \<and>
    (unat (lb_wr lb) + unat n \<le> length (lb_mem lb) \<or> pBuffer lb = Own \<and> (\<forall>k. al k) \<longrightarrow>
      (\<exists>lb'. lb_send al lb p n = ret (lb', n) \<and> lb_holds lb' (xs @ take (unat n) p) \<and>
        lb_wr lb' = lb_wr lb + n \<and> (pBuffer lb' = Own \<longleftrightarrow> pBuffer lb = Own)))"
proof -
  note D = lb_holdsD [OF h]
  have w: "unat (lb_wr lb + n) = unat (lb_wr lb) + unat n" using small by (simp add: unat_word_ariths)
  have full: "lb_wr lb + n > sz_buf lb \<longleftrightarrow> length (lb_mem lb) < unat (lb_wr lb) + unat n"
    using D(5) w by (simp add: word_less_nat_alt)
  have wr_ok: "\<exists>lb'. nothrow (do {
         b \<leftarrow> mem_copy (lb_mem l) (int (unat (lb_wr l))) p 0 (int (unat n));
         Some ((lb_set_mem l b)\<lparr>lb_wr := lb_wr l + n\<rparr>, n) }) = ret (lb', n) \<and> lb_holds lb' (xs @ take (unat n) p) \<and>
        lb_wr lb' = lb_wr lb + n \<and> (pBuffer lb' = Own \<longleftrightarrow> pBuffer lb = Own)"
    if "lb_holds l xs" "unat (lb_wr l) + unat n \<le> length (lb_mem l)" "lb_wr l = lb_wr lb" "pBuffer l = Own \<longleftrightarrow> pBuffer lb = Own" for l
    using lb_write [OF that(1) p that(2)] that(3,4) by (auto simp: lb_mem_set split: lb_block.splits)
  show ?thesis
  proof (cases "length (lb_mem lb) < unat (lb_wr lb) + unat n")
    case big: True
    show ?thesis
    proof (cases "pBuffer lb = Own")
      case o: True
      obtain sz where sz: "unat (lb_wr lb + n) < sz" "if al sz then \<exists>lb'. lb_grow al lb (lb_wr lb + n) = ret (lb', True) \<and> lb_holds lb' xs \<and>
          lb_wr lb' = lb_wr lb \<and> length (lb_mem lb') = sz \<and> pBuffer lb' = Own
        else lb_grow al lb (lb_wr lb + n) = throw XBadAlloc"
        using lb_grow_ok [OF h o, of "lb_wr lb + n" al] big small w by auto
      show ?thesis
      proof (cases "\<forall>k. al k")
        case True
        with sz obtain l where l: "lb_grow al lb (lb_wr lb + n) = ret (l, True)" "lb_holds l xs" "lb_wr l = lb_wr lb"
          "length (lb_mem l) = sz" "pBuffer l = Own" by auto
        from wr_ok [of l] l sz(1) w o show ?thesis using full big
          by (simp add: lb_send_def Let_def)
      qed (use o big in auto)
    next
      case False
      then show ?thesis using big full by (simp add: lb_send_def Let_def lb_grow_def)
    qed
  next
    case False
    then show ?thesis using wr_ok [OF h] full by (simp add: lb_send_def Let_def)
  qed
qed

lemma lb_alloc_ok: "al n \<Longrightarrow> n < 2 ^ 64 \<Longrightarrow> \<exists>lb'. lb_alloc al lb n = ret lb' \<and> lb_holds lb' [] \<and> length (lb_mem lb') = n"
proof -
  assume a: "al n" "n < 2 ^ 64"
  let ?b = "take n (aBuff lb) @ replicate (n - length (aBuff lb)) 0"
  have l: "length ?b = n" by simp
  have "lb_alloc al lb n = ret (lb\<lparr>aBuff := ?b, pBuffer := Own, sz_buf := of_nat (length ?b), lb_rd := 0, lb_wr := 0\<rparr>)"
    using a(1) by (simp add: lb_alloc_def abuff_resize_def xbuf_def)
  moreover have "unat (of_nat (length ?b) :: size_t) = n" unfolding l using a(2)
    by (simp add: unsigned_of_nat take_bit_nat_eq_self)
  ultimately show ?thesis using l by (simp add: lb_holds_def lb_ok_def lb_mem_def del: of_nat_add)
qed

lemma lb_assign_ok: "length b < 2 ^ 64 \<Longrightarrow> lb_holds (lb_assign lb b) [] \<and> lb_mem (lb_assign lb b) = b"
  by (simp add: lb_assign_def lb_holds_def lb_ok_def lb_mem_def unsigned_of_nat take_bit_nat_eq_self)

subsection \<open>Reading text\<close>

lemma skip_space_ok:
  "lb_holds lb (ws @ xs) \<Longrightarrow> set ws \<subseteq> {9, 32} \<Longrightarrow> xs = [] \<or> hd xs \<notin> {9, 32} \<Longrightarrow>
    \<exists>lb'. skip_space lb = ret lb' \<and> lb_holds lb' xs"
proof (induction ws arbitrary: lb)
  case Nil
  show ?case
  proof (cases xs)
    case (Cons x ys)
    then have "lb_holds lb (x # ys)" using Nil by simp
    from lb_head [OF this] lb_eof_iff [OF this] Nil Cons show ?thesis by (subst skip_space.simps) simp
  qed (use Nil in \<open>subst skip_space.simps; simp add: lb_eof_iff\<close>)
next
  case (Cons w ws)
  have h: "lb_holds lb (w # ws @ xs)" using Cons.prems by simp
  obtain lb' where "skip_space (lb\<lparr>lb_rd := lb_rd lb + 1\<rparr>) = ret lb'" "lb_holds lb' xs"
    using Cons.IH [OF lb_head(3) [OF h]] Cons.prems by auto
  then show ?case using lb_head [OF h] lb_eof_iff [OF h] Cons.prems by (subst skip_space.simps) auto
qed

text \<open>The code of a digit. A colon passes for a digit, with the value 10.\<close>

definition digit :: "u8 \<Rightarrow> bool" where
  "digit c \<longleftrightarrow> 48 \<le> sint c \<and> sint c \<le> 57"

definition dec :: "nat \<Rightarrow> u8 list \<Rightarrow> nat" where
  "dec v ds = foldl (\<lambda>v d. v * 10 + nat (sint d - 48)) v ds"

lemma digit_code: "uint ((signed (c :: u8) :: u32) - 48) = (sint c - 48) mod 2 ^ 32"
proof -
  have "(signed c :: u32) = word_of_int (sint c)" by simp
  then have "(signed c :: u32) - 48 = word_of_int (sint c - 48)" by simp
  then show ?thesis by (simp only: uint_word_of_int) simp
qed

lemma sint_u8: "- 128 \<le> sint (c :: u8)" "sint c < 128"
  using sint_ge [of c] sint_lt [of c] by simp_all

lemma digit_yes: "digit c \<Longrightarrow> \<not> (signed c :: u32) - 48 > 10 \<and> unat ((signed c :: u32) - 48) = nat (sint c - 48)"
proof -
  assume "digit c"
  then have "(sint c - 48) mod 2 ^ 32 = sint c - 48" "sint c - 48 \<le> 9" by (simp_all add: digit_def)
  then have "uint ((signed c :: u32) - 48) = sint c - 48" "uint ((signed c :: u32) - 48) \<le> 9" using digit_code [of c] by simp_all
  then show ?thesis by (simp add: word_less_def flip: nat_uint_eq)
qed

lemma digit_no: "\<not> digit c \<Longrightarrow> sint c \<noteq> 58 \<Longrightarrow> (signed c :: u32) - 48 > 10"
proof -
  assume "\<not> digit c" "sint c \<noteq> 58"
  then have "10 < (sint c - 48) mod 2 ^ 32"
  proof (cases "48 \<le> sint c")
    case False
    then have "(sint c - 48) mod 2 ^ 32 = sint c - 48 + 2 ^ 32"
      using sint_u8 [of c] by (subst mod_add_self2 [symmetric]) (rule mod_pos_pos_trivial; simp)
    then show ?thesis using sint_u8 [of c] by simp
  next
    case True
    then have "(sint c - 48) mod 2 ^ 32 = sint c - 48" using sint_u8 [of c] by simp
    then show ?thesis using True \<open>\<not> digit c\<close> \<open>sint c \<noteq> 58\<close> by (simp add: digit_def)
  qed
  then show ?thesis by (simp only: word_less_def digit_code) simp
qed

lemma read_digits_ok:
  "lb_holds lb (ds @ xs) \<Longrightarrow> list_all digit ds \<Longrightarrow> xs = [] \<or> \<not> digit (hd xs) \<and> sint (hd xs) \<noteq> 58 \<and> hd xs \<noteq> 46 \<Longrightarrow>
    \<exists>lb'. read_digits lb (of_nat v) 0 (of_nat k) 0 = ret (lb', of_nat (dec v ds), 0, of_nat (k + length ds), xs \<noteq> []) \<and> lb_holds lb' xs"
proof (induction ds arbitrary: lb v k)
  case Nil
  show ?case
  proof (cases xs)
    case (Cons x ys)
    then have h: "lb_holds lb (x # ys)" using Nil by simp
    have "(signed x :: u32) - 48 > 10" using digit_no [of x] Nil Cons by simp
    with lb_head [OF h] lb_eof_iff [OF h] Nil Cons h show ?thesis by (subst read_digits.simps) (simp add: dec_def Let_def)
  qed (use Nil in \<open>subst read_digits.simps; simp add: lb_eof_iff dec_def\<close>)
next
  case (Cons d ds)
  have h: "lb_holds lb (d # ds @ xs)" using Cons.prems by simp
  have y: "\<not> (signed d :: u32) - 48 > 10" "unat ((signed d :: u32) - 48) = nat (sint d - 48)"
    using digit_yes [of d] Cons.prems by simp_all
  have u: "(ucast ((signed d :: u32) - 48) :: 64 word) = of_nat (nat (sint d - 48))"
    by (simp only: y(2) [symmetric]) simp
  obtain lb' where "read_digits (lb\<lparr>lb_rd := lb_rd lb + 1\<rparr>) (of_nat (v * 10 + nat (sint d - 48))) 0 (of_nat (k + 1)) 0 =
      ret (lb', of_nat (dec (v * 10 + nat (sint d - 48)) ds), 0, of_nat (k + 1 + length ds), xs \<noteq> [])" "lb_holds lb' xs"
    using Cons.IH [OF lb_head(3) [OF h], of "v * 10 + nat (sint d - 48)" "k + 1"] Cons.prems by auto
  moreover have "read_digits lb (of_nat v) 0 (of_nat k) 0 =
      read_digits (lb\<lparr>lb_rd := lb_rd lb + 1\<rparr>) (of_nat (v * 10 + nat (sint d - 48))) 0 (of_nat (k + 1)) 0"
    using lb_head [OF h] lb_eof_iff [OF h] y(1)
    by (subst read_digits.simps) (simp add: Let_def u add.commute del: of_nat_nat)
  ultimately show ?case by (simp add: dec_def add.commute)
qed

text \<open>\<open>read_integer\<close> reads a decimal number with its sign; but at the end of the buffer it returns
  before the sign is applied.\<close>

lemma read_integer_ok:
  assumes h: "lb_holds lb (sg @ ds @ xs)" and sg: "sg \<in> {[], [43], [45]}" and ds: "list_all digit ds" "ds \<noteq> []" "length ds < 2 ^ 31"
    and xs: "xs = [] \<or> \<not> digit (hd xs) \<and> sint (hd xs) \<noteq> 58 \<and> hd xs \<noteq> 46"
  shows "\<exists>lb'. read_integer lb = ret (lb', if sg = [45] \<and> xs \<noteq> [] then - of_nat (dec 0 ds) else of_nat (dec 0 ds), 0) \<and> lb_holds lb' xs"
proof -
  have k: "(of_nat (length ds) :: i32) \<noteq> 0"
  proof
    assume "(of_nat (length ds) :: i32) = 0"
    then have "unat (of_nat (length ds) :: i32) = 0" by simp
    then show False using ds by (simp add: unsigned_of_nat take_bit_nat_eq_self)
  qed
  have body: "\<exists>lb'. read_digits l 0 0 0 0 = ret (lb', of_nat (dec 0 ds), 0, of_nat (length ds), xs \<noteq> []) \<and> lb_holds lb' xs"
    if "lb_holds l (ds @ xs)" for l
    using read_digits_ok [OF that ds(1) xs, of 0 0] by simp
  consider "sg = []" | "sg = [43]" | "sg = [45]" using sg by blast
  then show ?thesis
  proof cases
    case 1
    obtain d ds' where d: "ds = d # ds'" using ds(2) by (cases ds) auto
    then have hd: "lb_holds lb (d # ds' @ xs)" using h 1 by simp
    have "digit d" using ds(1) d by simp
    then have nd: "d \<noteq> 43" "d \<noteq> 45" by (auto simp: digit_def)
    obtain l where l: "read_digits lb 0 0 0 0 = ret (l, of_nat (dec 0 ds), 0, of_nat (length ds), xs \<noteq> [])" "lb_holds l xs"
      using body [of lb] h 1 by auto
    show ?thesis using l 1 k nd lb_head(1) [OF hd] by (intro exI [of _ l]) (simp add: read_integer_def)
  next
    case 2
    then have hd: "lb_holds lb (43 # ds @ xs)" using h by simp
    obtain l where l: "read_digits (lb\<lparr>lb_rd := lb_rd lb + 1\<rparr>) 0 0 0 0 = ret (l, of_nat (dec 0 ds), 0, of_nat (length ds), xs \<noteq> [])" "lb_holds l xs"
      using body [OF lb_head(3) [OF hd]] by auto
    show ?thesis using l 2 k lb_head(1,2) [OF hd] by (intro exI [of _ l]) (simp add: read_integer_def)
  next
    case 3
    then have hd: "lb_holds lb (45 # ds @ xs)" using h by simp
    obtain l where l: "read_digits (lb\<lparr>lb_rd := lb_rd lb + 1\<rparr>) 0 0 0 0 = ret (l, of_nat (dec 0 ds), 0, of_nat (length ds), xs \<noteq> [])" "lb_holds l xs"
      using body [OF lb_head(3) [OF hd]] by auto
    show ?thesis using l 3 k lb_head(1,2) [OF hd] by (intro exI [of _ l]) (simp add: read_integer_def)
  qed
qed

end
