(* ===== verification/Buffer_Tape.thy ===== *)
theory Buffer_Tape
  imports Linear_Buffer
begin

text \<open>
  The abstract linear buffer: the bytes written since the last rewind, with a cursor. A run of the
  operations of \<open>LinearBuffer\<close> is shown to return what the bytes and the cursor prescribe.
\<close>

datatype lb_op = Send "u8 list" | Recv size_t | Get1 | Peek1 | Unget | Rd_reset | Rewind | Skip

datatype lb_res = Count nat | Bytes "u8 list" | Byte u8 | Was_read bool | Finished | Threw exn

text \<open>An operation of the code; a thrown exception leaves the buffer as it is.\<close>

definition lb_step :: "(nat \<Rightarrow> bool) \<Rightarrow> linear_buffer \<Rightarrow> lb_op \<Rightarrow> (linear_buffer \<times> lb_res) option" where
  "lb_step al lb op = (case op of
     Send p \<Rightarrow> map_option (case_sum (\<lambda>x. (lb, Threw x)) (\<lambda>(lb, k). (lb, Count (unat k)))) (lb_send al lb p (of_nat (length p)))
   | Recv n \<Rightarrow> map_option (\<lambda>(lb, p, k). (lb, Bytes (take (unat k) p))) (lb_recv lb (replicate (unat n) 0) n)
   | Get1 \<Rightarrow> map_option (\<lambda>(lb, x). (lb, Byte x)) (lb_get lb)
   | Peek1 \<Rightarrow> map_option (\<lambda>x. (lb, Byte x)) (lb_peek1 lb)
   | Unget \<Rightarrow> map_option (case_sum (\<lambda>x. (lb, Threw x)) (\<lambda>lb. (lb, Finished))) (lb_unget lb)
   | Rd_reset \<Rightarrow> Some (lb_rd_reset lb, Finished)
   | Rewind \<Rightarrow> Some (lb_rewind lb, Finished)
   | Skip \<Rightarrow> Some (case lb_skip lb of (lb, b) \<Rightarrow> (lb, Was_read b)))"

fun lb_run :: "(nat \<Rightarrow> bool) \<Rightarrow> linear_buffer \<Rightarrow> lb_op list \<Rightarrow> (linear_buffer \<times> lb_res list) option" where
  "lb_run al lb [] = Some (lb, [])"
| "lb_run al lb (op # ops) = do { (lb, x) \<leftarrow> lb_step al lb op; (lb, xs) \<leftarrow> lb_run al lb ops; Some (lb, x # xs) }"

text \<open>The specification; the capacity is that of an assigned block, there is none for the buffer's own.\<close>

definition tape_step :: "nat option \<Rightarrow> u8 list \<times> nat \<Rightarrow> lb_op \<Rightarrow> (u8 list \<times> nat) \<times> lb_res" where
  "tape_step cap t op = (case (t, op) of
     ((xs, r), Send p) \<Rightarrow> (case cap of Some c \<Rightarrow> if length xs + length p \<le> c then ((xs @ p, r), Count (length p)) else ((xs, r), Count 0)
       | None \<Rightarrow> ((xs @ p, r), Count (length p)))
   | ((xs, r), Recv n) \<Rightarrow> ((xs, min (length xs) (r + unat n)), Bytes (take (unat n) (drop r xs)))
   | ((xs, r), Get1) \<Rightarrow> if r < length xs then ((xs, r + 1), Byte (xs ! r)) else ((xs, r), Byte (- 1))
   | ((xs, r), Peek1) \<Rightarrow> ((xs, r), Byte (if r < length xs then xs ! r else - 1))
   | ((xs, r), Unget) \<Rightarrow> if r = 0 then ((xs, r), Threw XInvalidIndex) else ((xs, r - 1), Finished)
   | ((xs, r), Rd_reset) \<Rightarrow> ((xs, 0), Finished)
   | ((xs, r), Rewind) \<Rightarrow> (([], 0), Finished)
   | ((xs, r), Skip) \<Rightarrow> (([], 0), Was_read (r = length xs)))"

fun tape_run :: "nat option \<Rightarrow> u8 list \<times> nat \<Rightarrow> lb_op list \<Rightarrow> (u8 list \<times> nat) \<times> lb_res list" where
  "tape_run cap t [] = (t, [])"
| "tape_run cap t (op # ops) = (let (t, x) = tape_step cap t op; (t, xs) = tape_run cap t ops in (t, x # xs))"

fun sent_bytes :: "lb_op \<Rightarrow> nat" where
  "sent_bytes (Send p) = length p"
| "sent_bytes _ = 0"

definition lb_cap :: "linear_buffer \<Rightarrow> nat option" where
  "lb_cap lb = (case pBuffer lb of Own \<Rightarrow> None | Ext_block b \<Rightarrow> Some (length b))"

definition lb_tape :: "linear_buffer \<Rightarrow> u8 list \<times> nat \<Rightarrow> bool" where
  "lb_tape lb t \<longleftrightarrow> lb_holds (lb\<lparr>lb_rd := 0\<rparr>) (fst t) \<and> unat (lb_rd lb) = snd t \<and> snd t \<le> length (fst t)"

lemma lb_tape_holds: "lb_tape lb (xs, r) \<Longrightarrow> lb_holds lb (drop r xs)"
  using lb_advance [of "lb\<lparr>lb_rd := 0\<rparr>" xs "lb_rd lb"] by (auto simp: lb_tape_def)

lemma lb_tape_wr: "lb_tape lb (xs, r) \<Longrightarrow> unat (lb_wr lb) = length xs"
  using lb_holdsD(1) [of "lb\<lparr>lb_rd := 0\<rparr>" xs] by (simp add: lb_tape_def)

text \<open>Moving the cursor within the bytes.\<close>

lemma lb_tape_move: "lb_tape lb (xs, r) \<Longrightarrow> unat r' \<le> length xs \<Longrightarrow> lb_tape (lb\<lparr>lb_rd := r'\<rparr>) (xs, unat r')"
  by (simp add: lb_tape_def)

lemma lb_cap_simps [simp]: "lb_cap (lb\<lparr>lb_rd := r\<rparr>) = lb_cap lb" "lb_cap (lb\<lparr>lb_wr := w\<rparr>) = lb_cap lb"
  by (simp_all add: lb_cap_def)

text \<open>Sending does not depend on the cursor.\<close>

lemma lb_send_cursor:
  "lb_send al lb p n = map_option (map_sum id (\<lambda>(l, k). (l\<lparr>lb_rd := lb_rd lb\<rparr>, k))) (lb_send al (lb\<lparr>lb_rd := 0\<rparr>) p n)"
proof -
  have g: "lb_grow al lb s = map_option (map_sum id (\<lambda>(l, k). (l\<lparr>lb_rd := lb_rd lb\<rparr>, k))) (lb_grow al (lb\<lparr>lb_rd := 0\<rparr>) s)" for s
    by (cases "n2p (s + drop_bit 2 s)") (auto simp: lb_grow_def abuff_resize_def Let_def andthen_def split: sum.splits)
  let ?f = "\<lambda>l. nothrow (do {
         b \<leftarrow> mem_copy (lb_mem l) (int (unat (lb_wr l))) p 0 (int (unat n));
         Some ((lb_set_mem l b)\<lparr>lb_wr := lb_wr l + n\<rparr>, n) })"
  have c: "?f (l\<lparr>lb_rd := r\<rparr>) = map_option (map_sum id (\<lambda>(l, k). (l\<lparr>lb_rd := r\<rparr>, k))) (?f l)" for l r
    by (cases "mem_copy (lb_mem l) (int (unat (lb_wr l))) p 0 (int (unat n))") (simp_all add: lb_set_mem_def split: lb_block.splits)
  show ?thesis
  proof (cases "sz_buf lb < lb_wr lb + n")
    case True
    show ?thesis
    proof (cases "lb_grow al (lb\<lparr>lb_rd := 0\<rparr>) (lb_wr lb + n)")
      case None
      then show ?thesis using g [of "lb_wr lb + n"] by (simp add: lb_send_def True)
    next
      case (Some x)
      show ?thesis
      proof (cases x)
        case (Inl e)
        then show ?thesis using g [of "lb_wr lb + n"] Some by (simp add: lb_send_def True)
      next
        case (Inr y)
        obtain l ok where "y = (l, ok)" by force
        then show ?thesis using g [of "lb_wr lb + n"] Some Inr c [where l = l and r = "lb_rd lb"] by (simp add: lb_send_def True)
      qed
    qed
  next
    case False
    then show ?thesis using c [where l = "lb\<lparr>lb_rd := 0\<rparr>" and r = "lb_rd lb"] by (simp add: lb_send_def)
  qed
qed

lemma lb_grow_cap: "lb_grow al lb n = ret (lb', ok) \<Longrightarrow> lb_cap lb' = lb_cap lb"
  by (auto simp: lb_grow_def lb_cap_def abuff_resize_def Let_def split: if_splits)

lemma lb_send_cap: "lb_send al lb p n = ret (lb', k) \<Longrightarrow> lb_cap lb' = lb_cap lb"
proof -
  have c: "lb_cap (lb_set_mem l b) = lb_cap l" if "mem_copy (lb_mem l) i p 0 j = Some b" for l b i j
    using mem_copy_length [OF that] by (auto simp: lb_cap_def lb_set_mem_def lb_mem_def split: lb_block.splits)
  assume "lb_send al lb p n = ret (lb', k)"
  then show ?thesis
    by (auto simp: lb_send_def Let_def nothrow_def bind_eq_Some_iff c split: if_splits dest: lb_grow_cap)
qed

lemma lb_mem_cap: "lb_cap lb = Some c \<Longrightarrow> length (lb_mem lb) = c" "lb_cap lb = None \<longleftrightarrow> pBuffer lb = Own"
  by (auto simp: lb_cap_def lb_mem_def split: lb_block.splits)

lemma lb_tape_empty: "lb_tape lb t \<Longrightarrow> lb_tape (lb\<lparr>lb_wr := 0, lb_rd := 0\<rparr>) ([], 0)"
  by (auto simp: lb_tape_def lb_holds_def lb_ok_def)

lemma lb_send_tape:
  assumes T: "lb_tape lb (xs, r)" and s: "length xs + length p \<le> 2 ^ 61" and al: "\<forall>k. al k"
  shows "if (case lb_cap lb of None \<Rightarrow> True | Some c \<Rightarrow> length xs + length p \<le> c)
     then \<exists>lb'. lb_send al lb p (of_nat (length p)) = ret (lb', of_nat (length p)) \<and> lb_tape lb' (xs @ p, r)
     else lb_send al lb p (of_nat (length p)) = ret (lb, 0)"
proof -
  let ?l = "lb\<lparr>lb_rd := 0\<rparr>" and ?n = "of_nat (length p) :: size_t"
  have n: "unat ?n = length p" using s by (simp add: unsigned_of_nat take_bit_nat_eq_self)
  have w: "unat (lb_wr lb) = length xs" using T by (rule lb_tape_wr)
  have h: "lb_holds ?l xs" and r: "unat (lb_rd lb) = r" "r \<le> length xs" using T by (simp_all add: lb_tape_def)
  have S: "(pBuffer lb \<noteq> Own \<and> length (lb_mem lb) < length xs + length p \<longrightarrow> lb_send al ?l p ?n = ret (?l, 0)) \<and>
    (length xs + length p \<le> length (lb_mem lb) \<or> pBuffer lb = Own \<longrightarrow>
      (\<exists>lb'. lb_send al ?l p ?n = ret (lb', ?n) \<and> lb_holds lb' (xs @ p)))"
    using lb_send_ok [OF h, of ?n p al] s al n w by auto
  show ?thesis
  proof (cases "case lb_cap lb of None \<Rightarrow> True | Some c \<Rightarrow> length xs + length p \<le> c")
    case True
    then have "length xs + length p \<le> length (lb_mem lb) \<or> pBuffer lb = Own"
      by (auto simp: lb_cap_def lb_mem_def split: lb_block.splits)
    then obtain l' where l': "lb_send al ?l p ?n = ret (l', ?n)" "lb_holds l' (xs @ p)" using S by blast
    have "lb_send al lb p ?n = ret (l'\<lparr>lb_rd := lb_rd lb\<rparr>, ?n)"
      by (subst lb_send_cursor) (simp add: l'(1))
    moreover have "l'\<lparr>lb_rd := 0\<rparr> = l'" using lb_send_cursor [of al ?l p ?n] l'(1) by simp
    ultimately show ?thesis using True l'(2) r by (simp add: lb_tape_def)
  next
    case False
    then have "pBuffer lb \<noteq> Own \<and> length (lb_mem lb) < length xs + length p"
      by (auto simp: lb_cap_def lb_mem_def split: lb_block.splits option.splits)
    then have "lb_send al ?l p ?n = ret (?l, 0)" using S by blast
    then have "lb_send al lb p ?n = ret (lb, 0)" by (subst lb_send_cursor) simp
    then show ?thesis using False by auto
  qed
qed

text \<open>Every operation, on a tape.\<close>

lemma lb_step_refines:
  assumes t: "lb_tape lb t" and s: "length (fst t) + sent_bytes op \<le> 2 ^ 61" and al: "\<forall>k. al k"
  shows "\<exists>lb'. lb_step al lb op = Some (lb', snd (tape_step (lb_cap lb) t op)) \<and>
    lb_tape lb' (fst (tape_step (lb_cap lb) t op)) \<and> lb_cap lb' = lb_cap lb"
proof -
  obtain xs r where xr: "t = (xs, r)" by force
  note T = t [unfolded xr] and h = lb_tape_holds [OF t [unfolded xr]]
  have r: "unat (lb_rd lb) = r" "r \<le> length xs" using T by (simp_all add: lb_tape_def)
  have x: "drop r xs = (if r < length xs then xs ! r # drop (Suc r) xs else [])"
    by (simp add: Cons_nth_drop_Suc)
  show ?thesis
  proof (cases op)
    case (Send p)
    have n: "unat (of_nat (length p) :: size_t) = length p" using s Send by (simp add: unsigned_of_nat take_bit_nat_eq_self)
    show ?thesis using lb_send_tape [OF T, of p al] s al Send xr n T
      by (auto simp: lb_step_def tape_step_def split: if_splits option.splits dest: lb_send_cap)
  next
    case (Recv n)
    define c where "c = min (unat n) (length xs - r)"
    obtain m where m: "lb_recv lb (replicate (unat n) 0) n = Some (lb\<lparr>lb_rd := lb_rd lb + m\<rparr>, take c (drop r xs) @ drop c (replicate (unat n) 0), m)"
      "unat m = c" using lb_recv_ok [OF h, of n "replicate (unat n) 0"] by (auto simp: c_def)
    have "r + c < 2 ^ 64" using r(2) s unfolding c_def xr by simp
    then have "unat (lb_rd lb + m) = r + c" using r(1) m(2) by (simp add: unat_word_ariths)
    moreover have "take c (take c (drop r xs) @ drop c (replicate (unat n) 0)) = take (unat n) (drop r xs)" "r + c = min (length xs) (r + unat n)"
      "c \<le> length xs - r \<and> c \<le> unat n"
      using r(2) by (auto simp: c_def min_def)
    ultimately show ?thesis using m lb_tape_move [OF T, of "lb_rd lb + m"] Recv xr r(2)
      by (simp add: lb_step_def tape_step_def)
  next
    case Get1
    show ?thesis
    proof (cases "r < length xs")
      case True
      have h': "lb_holds lb (xs ! r # drop (Suc r) xs)" using h x True by simp
      have "r + 1 < 2 ^ 64" using True s unfolding xr by simp
      then have "unat (lb_rd lb + 1) = r + 1" using r(1) by (simp add: unat_word_ariths)
      then show ?thesis using lb_head(2) [OF h'] lb_tape_move [OF T, of "lb_rd lb + 1"] True Get1 xr
        by (simp add: lb_step_def tape_step_def)
    next
      case False
      then show ?thesis using lb_end [of lb] h x Get1 xr T by (simp add: lb_step_def tape_step_def)
    qed
  next
    case Peek1
    then show ?thesis using lb_head(1) [of lb "xs ! r" "drop (Suc r) xs"] lb_end [of lb] h x xr T
      by (simp add: lb_step_def tape_step_def split: if_splits)
  next
    case Unget
    have "unat (lb_rd lb - 1) = r - 1" if "r \<noteq> 0"
      using that r(1) by (subst unat_sub) (simp_all add: word_le_nat_alt)
    moreover have "lb_rd lb = 0 \<longleftrightarrow> r = 0" using r(1) by (auto simp: unat_eq_0)
    ultimately show ?thesis using lb_tape_move [OF T, of "lb_rd lb - 1"] T Unget xr r(2)
      by (cases "r = 0") (simp_all add: lb_step_def tape_step_def lb_unget_def)
  next
    case Rd_reset
    then show ?thesis using lb_tape_move [OF T, of 0] xr by (simp add: lb_step_def tape_step_def lb_rd_reset_def)
  next
    case Rewind
    then show ?thesis using lb_tape_empty [OF t] xr by (simp add: lb_step_def tape_step_def lb_rewind_def)
  next
    case Skip
    have "lb_wr lb = lb_rd lb \<longleftrightarrow> r = length xs" using r(1) lb_tape_wr [OF T] by (auto simp: word_eq_iff_unsigned [where ?'a = nat])
    then show ?thesis using Skip lb_tape_empty [OF t] xr by (simp add: lb_step_def tape_step_def lb_skip_def)
  qed
qed


lemma tape_step_length: "length (fst (fst (tape_step cap t op))) \<le> length (fst t) + sent_bytes op"
  by (auto simp: tape_step_def split: prod.splits lb_op.splits option.splits)

lemma lb_run_refines:
  "lb_tape lb t \<Longrightarrow> length (fst t) + sum_list (map sent_bytes ops) \<le> 2 ^ 61 \<Longrightarrow> \<forall>k. al k \<Longrightarrow>
    \<exists>lb'. lb_run al lb ops = Some (lb', snd (tape_run (lb_cap lb) t ops)) \<and> lb_tape lb' (fst (tape_run (lb_cap lb) t ops))"
proof (induction ops arbitrary: lb t)
  case (Cons op ops)
  obtain lb' where 1: "lb_step al lb op = Some (lb', snd (tape_step (lb_cap lb) t op))"
    "lb_tape lb' (fst (tape_step (lb_cap lb) t op))" "lb_cap lb' = lb_cap lb"
    using lb_step_refines [OF Cons.prems(1), of op al] Cons.prems by auto
  have "length (fst (fst (tape_step (lb_cap lb) t op))) + sum_list (map sent_bytes ops) \<le> 2 ^ 61"
    using tape_step_length [of "lb_cap lb" t op] Cons.prems(2) by simp
  from Cons.IH [OF 1(2) this Cons.prems(3)] 1 show ?case by (auto simp: Let_def split: prod.splits)
qed simp

lemma lb_new_tape: "lb_tape lb_new ([], 0)" "lb_cap lb_new = None"
  using lb_new_holds by (simp_all add: lb_tape_def lb_new_def lb_cap_def)

lemma lb_assign_tape: "length b < 2 ^ 64 \<Longrightarrow> lb_tape (lb_assign lb b) ([], 0) \<and> lb_cap (lb_assign lb b) = Some (length b)"
proof -
  assume b: "length b < 2 ^ 64"
  have "(lb_assign lb b)\<lparr>lb_rd := 0\<rparr> = lb_assign lb b" by (simp add: lb_assign_def)
  then show ?thesis using lb_assign_ok [OF b, of lb] by (simp add: lb_tape_def) (simp add: lb_assign_def lb_cap_def)
qed

end
