(* ===== verification/Buffer_Parse.thy ===== *)
theory Buffer_Parse
  imports Linear_Buffer
begin

text \<open>
  The parser of \<open>LinearBuffer\<close> for strings on texts: a text is a list of tokens, its bytes are theirs in
  a row, and \<open>parse\<close> returns the words and the number of words in a line.
\<close>

datatype text_token = Word_token "u8 list" | Space "u8 list" | Newline u8 | Comment "u8 list"

definition word_char :: "u8 \<Rightarrow> bool" where
  "word_char c \<longleftrightarrow> c \<notin> {0, 9, 32, 13, 10}"

fun token_bytes :: "text_token \<Rightarrow> u8 list" where
  "token_bytes (Word_token w) = w"
| "token_bytes (Space s) = s"
| "token_bytes (Newline c) = [c]"
| "token_bytes (Comment c) = c"

definition text_bytes :: "text_token list \<Rightarrow> u8 list" where
  "text_bytes ts = concat (map token_bytes ts)"

text \<open>What may follow a token.\<close>

definition ends :: "(u8 \<Rightarrow> bool) \<Rightarrow> u8 list \<Rightarrow> bool" where
  "ends P xs \<longleftrightarrow> (case xs of [] \<Rightarrow> True | x # _ \<Rightarrow> P x)"

definition eol :: "u8 \<Rightarrow> bool" where
  "eol c \<longleftrightarrow> c = 13 \<or> c = 10"

text \<open>Well-formed texts before \<open>xs\<close>: words do not look like comments, and every token is maximal.\<close>

fun text_ok :: "text_token list \<Rightarrow> u8 list \<Rightarrow> bool" where
  "text_ok [] xs \<longleftrightarrow> True"
| "text_ok (Word_token w # ts) xs \<longleftrightarrow> w \<noteq> [] \<and> hd w \<noteq> 47 \<and> hd w \<noteq> 37 \<and> list_all word_char w \<and>
    ends (\<lambda>c. \<not> word_char c) (text_bytes ts @ xs) \<and> text_ok ts xs"
| "text_ok (Space s # ts) xs \<longleftrightarrow> s \<noteq> [] \<and> set s \<subseteq> {9, 32} \<and> ends (\<lambda>c. c \<noteq> 9 \<and> c \<noteq> 32) (text_bytes ts @ xs) \<and> text_ok ts xs"
| "text_ok (Newline c # ts) xs \<longleftrightarrow> eol c \<and> text_ok ts xs"
| "text_ok (Comment c # ts) xs \<longleftrightarrow> (c \<noteq> [] \<and> hd c = 37 \<or> (\<exists>c'. c = 47 # 47 # c')) \<and> list_all (\<lambda>x. \<not> eol x) c \<and>
    ends eol (text_bytes ts @ xs) \<and> text_ok ts xs"

fun text_words :: "text_token list \<Rightarrow> u8 list list" where
  "text_words (Word_token w # ts) = w # text_words ts"
| "text_words (_ # ts) = text_words ts"
| "text_words [] = []"

text \<open>The numbers of words in the lines that have any and end in a line feed or a carriage return; \<open>n\<close>
  words have been seen on the current line.\<close>

fun line_counts :: "nat \<Rightarrow> text_token list \<Rightarrow> nat list" where
  "line_counts n [] = []"
| "line_counts n (Word_token w # ts) = line_counts (Suc n) ts"
| "line_counts n (Newline c # ts) = (if n = 0 then line_counts 0 ts else n # line_counts 0 ts)"
| "line_counts n (_ # ts) = line_counts n ts"

definition common_count :: "nat list \<Rightarrow> int" where
  "common_count cs = (if cs = [] then 0 else if \<forall>c \<in> set cs. c = hd cs then int (hd cs) else - 1)"

lemma line_counts_pos: "0 \<notin> set (line_counts n ts)"
  by (induction n ts rule: line_counts.induct) auto

text \<open>How the parser finds the common count.\<close>

definition next_count :: "int \<Rightarrow> int \<Rightarrow> int" where
  "next_count ln tn = (if ln = 0 then tn else if ln \<noteq> tn then - 1 else ln)"

lemma next_count_common: "0 \<notin> set (cs @ [n]) \<Longrightarrow> next_count (common_count cs) (int n) = common_count (cs @ [n])"
  by (cases cs) (auto simp: next_count_def common_count_def)

subsection \<open>The readers\<close>

lemma skip_line_ok:
  "lb_holds lb (cs @ xs) \<Longrightarrow> list_all (\<lambda>x. \<not> eol x) cs \<Longrightarrow> ends eol xs \<Longrightarrow>
    \<exists>lb'. skip_line lb = ret lb' \<and> lb_holds lb' xs"
proof (induction cs arbitrary: lb)
  case Nil
  show ?case
  proof (cases xs)
    case (Cons x ys)
    then have h: "lb_holds lb (x # ys)" using Nil by simp
    have "x = 13 \<or> x = 10" using Nil Cons by (simp add: ends_def eol_def)
    then have "skip_line lb = lb_unget (lb\<lparr>lb_rd := lb_rd lb + 1\<rparr>)"
      using lb_head(2) [OF h] lb_eof_iff [OF h] by (subst skip_line.simps) simp
    then show ?thesis using lb_head(4) [OF h] h Cons by simp
  qed (use Nil in \<open>subst skip_line.simps; simp add: lb_eof_iff\<close>)
next
  case (Cons c cs)
  have h: "lb_holds lb (c # cs @ xs)" using Cons.prems by simp
  obtain lb' where "skip_line (lb\<lparr>lb_rd := lb_rd lb + 1\<rparr>) = ret lb'" "lb_holds lb' xs"
    using Cons.IH [OF lb_head(3) [OF h]] Cons.prems by auto
  moreover have "skip_line lb = skip_line (lb\<lparr>lb_rd := lb_rd lb + 1\<rparr>)"
    using lb_head(2) [OF h] lb_eof_iff [OF h] Cons.prems(2) by (subst skip_line.simps) (simp add: eol_def)
  ultimately show ?case by simp
qed

lemma skip_comment_ok:
  assumes h: "lb_holds lb (c @ xs)" and c: "list_all (\<lambda>x. \<not> eol x) c" "ends eol xs"
  shows "c \<noteq> [] \<Longrightarrow> hd c = 37 \<Longrightarrow> \<exists>lb'. skip_comment2 lb = ret lb' \<and> lb_holds lb' xs"
    "c = 47 # 47 # c' \<Longrightarrow> \<exists>lb'. skip_comment1 lb = ret lb' \<and> lb_holds lb' xs"
proof -
  have a: "lb_holds (lb_rd_flip lb 1) (tl c @ xs)" if "c \<noteq> []"
    using lb_advance [OF h, of 1] that by (cases c) (simp_all add: lb_rd_flip_def)
  show "\<exists>lb'. skip_comment2 lb = ret lb' \<and> lb_holds lb' xs" if "c \<noteq> []" "hd c = 37"
    using skip_line_ok [OF a [OF that(1)]] c that(1) by (cases c) (simp_all add: skip_comment2_def)
  show "\<exists>lb'. skip_comment1 lb = ret lb' \<and> lb_holds lb' xs" if e: "c = 47 # 47 # c'"
  proof -
    have h2: "lb_holds (lb_rd_flip lb 1) (47 # c' @ xs)" using a e by simp
    show ?thesis using skip_line_ok [OF lb_head(3) [OF h2]] c e lb_head(2) [OF h2] by (simp add: skip_comment1_def)
  qed
qed

lemma read_word_ok:
  "lb_holds lb (w @ xs) \<Longrightarrow> list_all word_char w \<Longrightarrow> ends (\<lambda>c. \<not> word_char c) xs \<Longrightarrow>
    \<exists>lb'. read_word lb acc = Some (lb', acc @ w) \<and> lb_holds lb' xs"
proof (induction w arbitrary: lb acc)
  case Nil
  show ?case
  proof (cases xs)
    case (Cons x ys)
    then have h: "lb_holds lb (x # ys)" using Nil by simp
    have "\<not> word_char x" using Nil Cons by (simp add: ends_def)
    then have "read_word lb acc = Some (lb, acc)"
      using lb_head(1) [OF h] lb_eof_iff [OF h] by (subst read_word.simps) (auto simp: word_char_def)
    then show ?thesis using h Cons by simp
  qed (use Nil in \<open>subst read_word.simps; simp add: lb_eof_iff\<close>)
next
  case (Cons c cs)
  have h: "lb_holds lb (c # cs @ xs)" using Cons.prems by simp
  obtain lb' where "read_word (lb\<lparr>lb_rd := lb_rd lb + 1\<rparr>) (acc @ [c]) = Some (lb', (acc @ [c]) @ cs)" "lb_holds lb' xs"
    using Cons.IH [OF lb_head(3) [OF h], of "acc @ [c]"] Cons.prems by auto
  moreover have "read_word lb acc = read_word (lb\<lparr>lb_rd := lb_rd lb + 1\<rparr>) (acc @ [c])"
    using lb_head(1,2) [OF h] lb_eof_iff [OF h] Cons.prems(2) by (subst read_word.simps) (simp add: word_char_def)
  ultimately show ?case by simp
qed

text \<open>A zero byte where an element should begin is not consumed.\<close>

lemma parse_zero:
  assumes h: "lb_holds lb (0 # xs)"
  shows "parse_loop read_string lb tmp ln tn = None"
proof (rule ccontr)
  assume "parse_loop read_string lb tmp ln tn \<noteq> None"
  then obtain r where r: "parse_loop read_string lb tmp ln tn = Some r" by auto
  have w: "read_string lb = ret (lb, [])"
    using lb_head(1) [OF h] lb_eof_iff [OF h] by (simp add: read_string_def read_word.simps)
  have "\<not> (el = read_string \<and> l = lb)" if "parse_loop el l tmp ln tn = Some r" for el l tmp ln tn r
    by (rule parse_loop.raw_induct [where P = "\<lambda>el l tmp ln tn r. \<not> (el = read_string \<and> l = lb)", OF _ that])
      (use w lb_head(1) [OF h] lb_eof_iff [OF h] in fastforce)
  with r show False by blast
qed


subsection \<open>The whole text\<close>

lemma text_bytes_simps [simp]: "text_bytes [] = []" "text_bytes (t # ts) = token_bytes t @ text_bytes ts"
  by (simp_all add: text_bytes_def)

text \<open>What is left to read either is nothing, and the parser returns, or begins with a zero byte.\<close>

lemma parse_loop_ok:
  "lb_holds lb (text_bytes ts @ xs) \<Longrightarrow> text_ok ts xs \<Longrightarrow> 0 \<notin> set cs \<Longrightarrow>
    (xs = [] \<longrightarrow> (\<exists>lb'. parse_loop read_string lb tmp (common_count cs) (int n) =
      ret (lb', tmp @ text_words ts, common_count (cs @ line_counts n ts)))) \<and>
    (xs \<noteq> [] \<and> hd xs = 0 \<longrightarrow> parse_loop read_string lb tmp (common_count cs) (int n) = None)"
proof (induction ts arbitrary: lb tmp cs n)
  case Nil
  show ?case
  proof (cases "xs = []")
    case True
    then show ?thesis using Nil by (subst parse_loop.simps) (simp add: lb_eof_iff)
  next
    case False
    then show ?thesis using Nil parse_zero [of lb "tl xs"] by (cases xs) auto
  qed
next
  case (Cons t ts)
  let ?P = "parse_loop read_string"
  have *: ?case if "?P lb tmp (common_count cs) (int n) = ?P lb' (tmp @ ws) (common_count (cs @ cs')) (int n')" "lb_holds lb' (text_bytes ts @ xs)"
    "text_words (t # ts) = ws @ text_words ts" "line_counts n (t # ts) = cs' @ line_counts n' ts" "0 \<notin> set cs'" for lb' ws cs' n'
    using Cons.IH [OF that(2), of "cs @ cs'" "tmp @ ws" n'] Cons.prems that by (cases t) auto
  show ?case
  proof (cases t)
    case (Word_token w)
    then obtain c w' where w: "w = c # w'" using Cons.prems by (cases w) auto
    have wc: "word_char c" "c \<noteq> 47" "c \<noteq> 37" using Cons.prems Word_token w by auto
    have h: "lb_holds lb (c # w' @ text_bytes ts @ xs)" using Cons.prems(1) Word_token w by simp
    obtain lb' where lb': "read_string lb = ret (lb', w)" "lb_holds lb' (text_bytes ts @ xs)"
      using read_word_ok [of lb w "text_bytes ts @ xs" "[]"] Cons.prems Word_token by (auto simp: read_string_def)
    have "?P lb tmp (common_count cs) (int n) = ?P lb' (tmp @ [w]) (common_count cs) (int (Suc n))"
      using lb_head(1) [OF h] lb_eof_iff [OF h] wc lb'(1)
      by (subst parse_loop.simps) (simp add: word_char_def add.commute)
    then show ?thesis using * [of lb' "[w]" "[]" "Suc n"] lb'(2) Word_token by simp
  next
    case (Space s)
    then obtain c s' where s: "s = c # s'" using Cons.prems by (cases s) auto
    have h: "lb_holds lb (c # s' @ text_bytes ts @ xs)" using Cons.prems(1) Space s by simp
    obtain lb' where lb': "skip_space lb = ret lb'" "lb_holds lb' (text_bytes ts @ xs)"
      using skip_space_ok [of lb s "text_bytes ts @ xs"] Cons.prems Space
      by (cases "text_bytes ts @ xs") (auto simp: ends_def)
    have "?P lb tmp (common_count cs) (int n) = ?P lb' tmp (common_count cs) (int n)"
      using lb_head(1) [OF h] lb_eof_iff [OF h] Cons.prems Space s lb'(1)
      by (subst parse_loop.simps) auto
    then show ?thesis using * [of lb' "[]" "[]" n] lb'(2) Space by simp
  next
    case (Newline c)
    then have h: "lb_holds lb (c # text_bytes ts @ xs)" using Cons.prems(1) by simp
    have c: "c = 13 \<or> c = 10" using Cons.prems Newline by (simp add: eol_def)
    have "?P lb tmp (common_count cs) (int n) = (if n = 0 then ?P (lb\<lparr>lb_rd := lb_rd lb + 1\<rparr>) tmp (common_count cs) 0
        else ?P (lb\<lparr>lb_rd := lb_rd lb + 1\<rparr>) tmp (next_count (common_count cs) (int n)) 0)"
      using lb_head(1,2) [OF h] lb_eof_iff [OF h] c
      by (subst parse_loop.simps) (auto simp: next_count_def)
    also have "\<dots> = ?P (lb\<lparr>lb_rd := lb_rd lb + 1\<rparr>) tmp (common_count (cs @ (if n = 0 then [] else [n]))) (int 0)"
      using next_count_common [of cs n] Cons.prems(3) by simp
    finally show ?thesis using * [of "lb\<lparr>lb_rd := lb_rd lb + 1\<rparr>" "[]" "if n = 0 then [] else [n]" 0] lb_head(3) [OF h] Newline
      by (cases "n = 0") simp_all
  next
    case (Comment c)
    then obtain d c' where d: "c = d # c'" using Cons.prems by (cases c) auto
    have h: "lb_holds lb (d # c' @ text_bytes ts @ xs)" using Cons.prems(1) Comment d by simp
    have k: "list_all (\<lambda>x. \<not> eol x) c" "ends eol (text_bytes ts @ xs)" "lb_holds lb (c @ text_bytes ts @ xs)"
      "d = 37 \<or> (\<exists>c''. c = 47 # 47 # c'')" using Cons.prems Comment d by auto
    have "\<exists>lb'. ?P lb tmp (common_count cs) (int n) = ?P lb' tmp (common_count cs) (int n) \<and> lb_holds lb' (text_bytes ts @ xs)"
    proof (cases "d = 37")
      case True
      then obtain lb' where "skip_comment2 lb = ret lb'" "lb_holds lb' (text_bytes ts @ xs)"
        using skip_comment_ok(1) [OF k(3,1,2)] d by auto
      then show ?thesis using lb_head(1) [OF h] lb_eof_iff [OF h] True
        by (subst parse_loop.simps) auto
    next
      case False
      then obtain c'' where c'': "c = 47 # 47 # c''" using k(4) by auto
      then obtain lb' where "skip_comment1 lb = ret lb'" "lb_holds lb' (text_bytes ts @ xs)"
        using skip_comment_ok(2) [OF k(3,1,2)] by auto
      moreover have "d = 47" using c'' d by simp
      ultimately show ?thesis using lb_head(1) [OF h] lb_eof_iff [OF h]
        by (subst parse_loop.simps) auto
    qed
    then show ?thesis using * [of _ "[]" "[]" n] Comment by auto
  qed
qed

end
