(* ===== verification/Buffer_Theorems.thy ===== *)
theory Buffer_Theorems
  imports Buffer_Tape Buffer_Parse
begin

text \<open>The properties of the linear buffer.\<close>




text \<open>The text \<open>"ab c"\<close>, a comment, a line \<open>"d"\<close> without an end.\<close>

definition ex_text :: "text_token list" where
  "ex_text = [Word_token [97, 98], Space [32], Word_token [99], Newline 10, Comment [37, 120], Newline 10, Word_token [100]]"


text \<open>\<open>read_integer\<close> on a sign, digits and something that cannot go on a number, other than a
  colon: the value of the digits modulo 2 to the 64 with the sign -- but when the number is the
  last thing in the buffer it returns before the sign is applied, so that \<open>"-5"\<close> reads as 5.\<close>

theorem read_integer_sign:
  assumes h: "lb_holds lb (sg @ ds @ xs)" and sg: "sg \<in> {[], [43], [45]}" and ds: "list_all digit ds" "ds \<noteq> []" "length ds < 2 ^ 31"
    and xs: "xs = [] \<or> \<not> digit (hd xs) \<and> sint (hd xs) \<noteq> 58 \<and> hd xs \<noteq> 46"
  shows "\<exists>lb'. read_integer lb = ret (lb', if sg = [45] \<and> xs \<noteq> [] then - of_nat (dec 0 ds) else of_nat (dec 0 ds), 0) \<and> lb_holds lb' xs"
  using read_integer_ok [OF assms] .

lemma read_integer_sign_witness:
  "(\<exists>lb. read_integer (lb_wr_flip (lb_assign lb_new [45, 52, 50, 32]) 4) = ret (lb, - 42, 0)) \<and>
   (\<exists>lb. read_integer (lb_wr_flip (lb_assign lb_new [45, 52, 50]) 3) = ret (lb, 42, 0))"
proof -
  have h: "lb_holds (lb_wr_flip (lb_assign lb_new [45, 52, 50, 32]) 4) ([45] @ [52, 50] @ [32])"
    "lb_holds (lb_wr_flip (lb_assign lb_new [45, 52, 50]) 3) ([45] @ [52, 50] @ [])"
    by (simp_all add: lb_wr_flip_def lb_assign_def lb_holds_def lb_ok_def lb_mem_def)
  show ?thesis using read_integer_sign [OF h(1)] read_integer_sign [OF h(2)] by (auto simp: digit_def dec_def)
qed

end
