(* ===== verification/Serializer.thy ===== *)
theory Serializer
  imports Linear_Buffer Bit_Flags
begin

text \<open>
  Serialization into a \<open>SerializerBuffer\<close> (\<open>inc/vhwd/serialization/serializer.h\<close>,
  \<open>src/vhwd/serialization/serializer.cpp\<close>, \<open>serializer_buffer.cpp\<close>), without objects. The C++ types that
  can be serialized are the terms of \<open>sty\<close>, and the templates of \<open>serializer.h\<close>, which the compiler
  instantiates by type, are recursive functions on \<open>sty\<close>. A reader gets the old value of the variable
  it reads into and returns the new one. The platform is a little-endian one with 64-bit \<open>long\<close> that is
  not Windows.
\<close>

unbundle bit_operations_syntax

text \<open>\<open>TWord k\<close>: the scalar types of \<open>k\<close> bytes other than the next ones; \<open>TCast k\<close>: \<open>long\<close> and
  \<open>unsigned long\<close> (8), \<open>wchar_t\<close> (4); \<open>TArr\<close>: vectors, \<open>arr_1t\<close>, string buffers and basic strings;
  \<open>TFix n\<close>: \<open>T[n]\<close>; \<open>TSet\<close>, \<open>TMap\<close>: the sets and maps of the standard library and of this one;
  \<open>TPtr\<close>: pointers and pointer holders.\<close>

datatype sty = TWord nat | TCast nat | TBool | TStr | TPair sty sty | TArr sty | TFix nat sty |
  TSet sty | TMap sty sty | TPtr sty

datatype sval = VWord "64 word" | VBool bool | VStr "u8 list" | VPair sval sval | VList "sval list" | VPtr "sval option"

text \<open>A serializer: the buffer, and the flags of its reader and its writer.\<close>

record archive =
  lbuf :: linear_buffer
  rd_flags :: bitflags
  wr_flags :: bitflags

definition STRCVT_UTF8 :: i32 where "STRCVT_UTF8 = 1"

text \<open>The surroundings: which blocks can be allocated, what is in the padding of a \<open>pair\<close>, and the
  order of the elements of sets and of the keys of maps.\<close>

record ser_env =
  can_alloc :: "nat \<Rightarrow> bool"
  padding :: "nat \<Rightarrow> u8"
  less_than :: "sty \<Rightarrow> sval \<Rightarrow> sval \<Rightarrow> bool"

fun fst_of :: "sval \<Rightarrow> sval" where "fst_of (VPair a b) = a" | "fst_of v = v"
fun snd_of :: "sval \<Rightarrow> sval" where "snd_of (VPair a b) = b" | "snd_of v = v"
fun list_of :: "sval \<Rightarrow> sval list" where "list_of (VList xs) = xs" | "list_of _ = []"
fun word_of :: "sval \<Rightarrow> 64 word" where "word_of (VWord w) = w" | "word_of _ = 0"
fun str_of :: "sval \<Rightarrow> u8 list" where "str_of (VStr s) = s" | "str_of _ = []"
fun bool_of :: "sval \<Rightarrow> bool" where "bool_of (VBool b) = b" | "bool_of _ = False"
fun ptr_of :: "sval \<Rightarrow> sval option" where "ptr_of (VPtr p) = p" | "ptr_of _ = None"

text \<open>The value of a new variable.\<close>

primrec default :: "sty \<Rightarrow> sval" where
  "default (TWord k) = VWord 0"
| "default (TCast k) = VWord 0"
| "default TBool = VBool False"
| "default TStr = VStr []"
| "default (TPair a b) = VPair (default a) (default b)"
| "default (TArr t) = VList []"
| "default (TFix n t) = VList (replicate n (default t))"
| "default (TSet t) = VList []"
| "default (TMap k t) = VList []"
| "default (TPtr t) = VPtr None"

subsection \<open>Memory images\<close>

definition le_bytes :: "nat \<Rightarrow> 64 word \<Rightarrow> u8 list" where
  "le_bytes k w = map (\<lambda>i. ucast (drop_bit (8 * i) w)) [0 ..< k]"

definition le_word :: "u8 list \<Rightarrow> 64 word" where
  "le_word bs = foldr (\<lambda>b w. ucast b OR push_bit 8 w) bs 0"

text \<open>\<open>tl::is_pod\<close>, and the value of \<open>serial_pod<A,T>\<close>.\<close>

primrec tl_pod :: "sty \<Rightarrow> bool" where
  "tl_pod (TWord k) \<longleftrightarrow> True"
| "tl_pod (TCast k) \<longleftrightarrow> True"
| "tl_pod TBool \<longleftrightarrow> True"
| "tl_pod TStr \<longleftrightarrow> False"
| "tl_pod (TPair a b) \<longleftrightarrow> tl_pod a \<and> tl_pod b"
| "tl_pod (TArr t) \<longleftrightarrow> False"
| "tl_pod (TFix n t) \<longleftrightarrow> False"
| "tl_pod (TSet t) \<longleftrightarrow> False"
| "tl_pod (TMap k t) \<longleftrightarrow> False"
| "tl_pod (TPtr t) \<longleftrightarrow> False"

definition pod_value :: "sty \<Rightarrow> bool" where
  "pod_value t \<longleftrightarrow> (case t of TWord k \<Rightarrow> True | TPair a b \<Rightarrow> tl_pod t | _ \<Rightarrow> False)"

definition align_up :: "nat \<Rightarrow> nat \<Rightarrow> nat" where
  "align_up n a = (n + a - 1) div a * a"

primrec mem_align :: "sty \<Rightarrow> nat" where
  "mem_align (TWord k) = k"
| "mem_align (TCast k) = k"
| "mem_align TBool = 1"
| "mem_align TStr = 1"
| "mem_align (TPair a b) = max (mem_align a) (mem_align b)"
| "mem_align (TArr t) = 1"
| "mem_align (TFix n t) = 1"
| "mem_align (TSet t) = 1"
| "mem_align (TMap k t) = 1"
| "mem_align (TPtr t) = 1"

primrec mem_size :: "sty \<Rightarrow> nat" where
  "mem_size (TWord k) = k"
| "mem_size (TCast k) = k"
| "mem_size TBool = 1"
| "mem_size TStr = 0"
| "mem_size (TPair a b) = align_up (align_up (mem_size a) (mem_align b) + mem_size b) (max (mem_align a) (mem_align b))"
| "mem_size (TArr t) = 0"
| "mem_size (TFix n t) = 0"
| "mem_size (TSet t) = 0"
| "mem_size (TMap k t) = 0"
| "mem_size (TPtr t) = 0"

definition pad_to :: "ser_env \<Rightarrow> nat \<Rightarrow> u8 list \<Rightarrow> u8 list" where
  "pad_to E n bs = bs @ map (padding E) [0 ..< n - length bs]"

primrec image :: "ser_env \<Rightarrow> sty \<Rightarrow> sval \<Rightarrow> u8 list" where
  "image E (TWord k) v = le_bytes k (word_of v)"
| "image E (TCast k) v = le_bytes k (word_of v)"
| "image E TBool v = [if bool_of v then 1 else 0]"
| "image E TStr v = []"
| "image E (TPair a b) v = pad_to E (mem_size (TPair a b))
     (pad_to E (align_up (mem_size a) (mem_align b)) (image E a (fst_of v)) @ image E b (snd_of v))"
| "image E (TArr t) v = []"
| "image E (TFix n t) v = []"
| "image E (TSet t) v = []"
| "image E (TMap k t) v = []"
| "image E (TPtr t) v = []"

text \<open>A byte other than 0 and 1 is not a \<open>bool\<close>.\<close>

primrec of_image :: "sty \<Rightarrow> u8 list \<Rightarrow> sval option" where
  "of_image (TWord k) bs = Some (VWord (le_word (take k bs)))"
| "of_image (TCast k) bs = Some (VWord (le_word (take k bs)))"
| "of_image TBool bs = (if take 1 bs = [0] then Some (VBool False) else if take 1 bs = [1] then Some (VBool True) else None)"
| "of_image TStr bs = None"
| "of_image (TPair a b) bs = do {
     x \<leftarrow> of_image a bs;
     y \<leftarrow> of_image b (drop (align_up (mem_size a) (mem_align b)) bs);
     Some (VPair x y) }"
| "of_image (TArr t) bs = None"
| "of_image (TFix n t) bs = None"
| "of_image (TSet t) bs = None"
| "of_image (TMap k t) bs = None"
| "of_image (TPtr t) bs = None"

subsection \<open>Sending and receiving\<close>

text \<open>\<open>SerializerBuffer::send\<close> and \<open>recv\<close>; the checks on the numbers of bytes; \<open>errstr\<close> throws.\<close>

definition errstr :: "string \<Rightarrow> 'a outcome" where
  "errstr msg = throw (XError msg)"

definition ser_send :: "ser_env \<Rightarrow> archive \<Rightarrow> u8 list \<Rightarrow> (archive \<times> size_t) outcome" where
  "ser_send E ar bs = andthen (lb_send (can_alloc E) (lbuf ar) bs (of_nat (length bs))) (\<lambda>(lb, k). ret (ar\<lparr>lbuf := lb\<rparr>, k))"

definition ser_recv :: "archive \<Rightarrow> u8 list \<Rightarrow> (archive \<times> u8 list \<times> size_t) outcome" where
  "ser_recv ar p = andthen (nothrow (lb_recv (lbuf ar) p (of_nat (length p)))) (\<lambda>(lb, p, k). ret (ar\<lparr>lbuf := lb\<rparr>, p, k))"

definition checked_send :: "ser_env \<Rightarrow> archive \<Rightarrow> u8 list \<Rightarrow> archive outcome" where
  "checked_send E ar bs = andthen (ser_send E ar bs) (\<lambda>(ar, k).
     if k \<noteq> of_nat (length bs) then errstr ''invalid received size'' else ret ar)"

definition checked_recv :: "archive \<Rightarrow> u8 list \<Rightarrow> (archive \<times> u8 list) outcome" where
  "checked_recv ar p = andthen (ser_recv ar p) (\<lambda>(ar, p', k).
     if k \<noteq> of_nat (length p) then errstr ''invalid received size'' else ret (ar, p'))"

subsection \<open>Plain data\<close>

definition pod_rd :: "ser_env \<Rightarrow> sty \<Rightarrow> archive \<Rightarrow> sval \<Rightarrow> (archive \<times> sval) outcome" where
  "pod_rd E t ar old = andthen (checked_recv ar (image E t old)) (\<lambda>(ar, bs).
     nothrow (map_option (Pair ar) (of_image t bs)))"

definition pod_wr :: "ser_env \<Rightarrow> sty \<Rightarrow> archive \<Rightarrow> sval \<Rightarrow> archive outcome" where
  "pod_wr E t ar v = checked_send E ar (image E t v)"

text \<open>\<open>serial_pod_cast\<close>: \<open>long\<close> and \<open>wchar_t\<close> as integers of their width, \<open>bool\<close> as a \<open>char\<close>.\<close>

definition cast_rd :: "ser_env \<Rightarrow> nat \<Rightarrow> archive \<Rightarrow> (archive \<times> sval) outcome" where
  "cast_rd E k ar = pod_rd E (TWord k) ar (VWord 0)"

definition cast_wr :: "ser_env \<Rightarrow> nat \<Rightarrow> archive \<Rightarrow> sval \<Rightarrow> archive outcome" where
  "cast_wr E k ar v = pod_wr E (TWord k) ar (VWord (word_of v))"

definition bool_rd :: "ser_env \<Rightarrow> archive \<Rightarrow> (archive \<times> sval) outcome" where
  "bool_rd E ar = andthen (pod_rd E (TWord 1) ar (VWord 0)) (\<lambda>(ar, v). ret (ar, VBool (word_of v \<noteq> 0)))"

definition bool_wr :: "ser_env \<Rightarrow> archive \<Rightarrow> sval \<Rightarrow> archive outcome" where
  "bool_wr E ar v = pod_wr E (TWord 1) ar (VWord (if bool_of v then 1 else 0))"

text \<open>The numbers of elements (\<open>intarr_t\<close>, unsigned) and the tags of pointers are 32-bit integers.\<close>

definition num_rd :: "ser_env \<Rightarrow> archive \<Rightarrow> (archive \<times> u32) outcome" where
  "num_rd E ar = andthen (pod_rd E (TWord 4) ar (VWord 0)) (\<lambda>(ar, v). ret (ar, ucast (word_of v)))"

definition num_wr :: "ser_env \<Rightarrow> archive \<Rightarrow> u32 \<Rightarrow> archive outcome" where
  "num_wr E ar n = pod_wr E (TWord 4) ar (VWord (ucast n))"

subsection \<open>Arrays\<close>

primrec elems_wr :: "(archive \<Rightarrow> sval \<Rightarrow> archive outcome) \<Rightarrow> archive \<Rightarrow> sval list \<Rightarrow> archive outcome" where
  "elems_wr w ar [] = ret ar"
| "elems_wr w ar (x # xs) = andthen (w ar x) (\<lambda>ar. elems_wr w ar xs)"

primrec elems_rd :: "(archive \<Rightarrow> sval \<Rightarrow> (archive \<times> sval) outcome) \<Rightarrow> archive \<Rightarrow> sval list \<Rightarrow> (archive \<times> sval list) outcome" where
  "elems_rd r ar [] = ret (ar, [])"
| "elems_rd r ar (x # xs) = andthen (r ar x) (\<lambda>(ar, y). andthen (elems_rd r ar xs) (\<lambda>(ar, ys). ret (ar, y # ys)))"

text \<open>Elements of plain data go as one block; how much of it went is not looked at.\<close>

definition images :: "ser_env \<Rightarrow> sty \<Rightarrow> sval list \<Rightarrow> u8 list" where
  "images E t xs = concat (map (image E t) xs)"

primrec of_images :: "sty \<Rightarrow> nat \<Rightarrow> u8 list \<Rightarrow> sval list option" where
  "of_images t 0 bs = Some []"
| "of_images t (Suc n) bs = do { x \<leftarrow> of_image t bs; xs \<leftarrow> of_images t n (drop (mem_size t) bs); Some (x # xs) }"

definition arr_handler_wr :: "ser_env \<Rightarrow> sty \<Rightarrow> (archive \<Rightarrow> sval \<Rightarrow> archive outcome) \<Rightarrow> archive \<Rightarrow> sval list \<Rightarrow> archive outcome" where
  "arr_handler_wr E t w ar xs = (if pod_value t then andthen (ser_send E ar (images E t xs)) (\<lambda>(ar, k). ret ar)
     else elems_wr w ar xs)"

definition arr_handler_rd :: "ser_env \<Rightarrow> sty \<Rightarrow> (archive \<Rightarrow> sval \<Rightarrow> (archive \<times> sval) outcome) \<Rightarrow> archive \<Rightarrow> sval list \<Rightarrow>
    (archive \<times> sval list) outcome" where
  "arr_handler_rd E t r ar olds = (if pod_value t
     then andthen (ser_recv ar (images E t olds)) (\<lambda>(ar, bs, k). nothrow (map_option (Pair ar) (of_images t (length olds) bs)))
     else elems_rd r ar olds)"

definition arr_wr :: "ser_env \<Rightarrow> sty \<Rightarrow> (archive \<Rightarrow> sval \<Rightarrow> archive outcome) \<Rightarrow> archive \<Rightarrow> sval \<Rightarrow> archive outcome" where
  "arr_wr E t w ar v = (let n = of_nat (length (list_of v)) :: u32 in
     andthen (num_wr E ar n) (\<lambda>ar. if n = 0 then ret ar else arr_handler_wr E t w ar (take (unat n) (list_of v))))"

text \<open>\<open>resize\<close> keeps the old elements.\<close>

definition arr_rd :: "ser_env \<Rightarrow> sty \<Rightarrow> (archive \<Rightarrow> sval \<Rightarrow> (archive \<times> sval) outcome) \<Rightarrow> archive \<Rightarrow> sval \<Rightarrow> (archive \<times> sval) outcome" where
  "arr_rd E t r ar old = andthen (num_rd E ar) (\<lambda>(ar, n).
     if \<not> can_alloc E (unat n) then throw XBadAlloc
     else let xs = take (unat n) (list_of old) @ replicate (unat n - length (list_of old)) (default t) in
     if n = 0 then ret (ar, VList []) else andthen (arr_handler_rd E t r ar xs) (\<lambda>(ar, xs). ret (ar, VList xs)))"

definition fix_wr :: "ser_env \<Rightarrow> nat \<Rightarrow> sty \<Rightarrow> (archive \<Rightarrow> sval \<Rightarrow> archive outcome) \<Rightarrow> archive \<Rightarrow> sval \<Rightarrow> archive outcome" where
  "fix_wr E n t w ar v = andthen (num_wr E ar (of_nat n)) (\<lambda>ar. arr_handler_wr E t w ar (list_of v))"

definition fix_rd :: "ser_env \<Rightarrow> nat \<Rightarrow> sty \<Rightarrow> (archive \<Rightarrow> sval \<Rightarrow> (archive \<times> sval) outcome) \<Rightarrow> archive \<Rightarrow> sval \<Rightarrow> (archive \<times> sval) outcome" where
  "fix_rd E n t r ar old = andthen (num_rd E ar) (\<lambda>(ar, m).
     if m \<noteq> of_nat n then errstr ''invalid_array_size''
     else andthen (arr_handler_rd E t r ar (list_of old)) (\<lambda>(ar, xs). ret (ar, VList xs)))"

subsection \<open>Sets and maps\<close>

text \<open>Insertion into a container of unique elements, which is the sorted list of them.\<close>

primrec set_insert :: "(sval \<Rightarrow> sval \<Rightarrow> bool) \<Rightarrow> sval \<Rightarrow> sval list \<Rightarrow> sval list" where
  "set_insert lt v [] = [v]"
| "set_insert lt v (x # xs) = (if lt v x then v # x # xs else if lt x v then x # set_insert lt v xs else x # xs)"

definition set_wr :: "ser_env \<Rightarrow> (archive \<Rightarrow> sval \<Rightarrow> archive outcome) \<Rightarrow> archive \<Rightarrow> sval \<Rightarrow> archive outcome" where
  "set_wr E w ar v = andthen (num_wr E ar (of_nat (length (list_of v)))) (\<lambda>ar. elems_wr w ar (list_of v))"

text \<open>One variable holds the element that is being read, and the container is not cleared.\<close>

primrec set_loop :: "(sval \<Rightarrow> sval \<Rightarrow> bool) \<Rightarrow> (archive \<Rightarrow> sval \<Rightarrow> (archive \<times> sval) outcome) \<Rightarrow> nat \<Rightarrow> archive \<Rightarrow> sval \<Rightarrow> sval list \<Rightarrow>
    (archive \<times> sval list) outcome" where
  "set_loop lt r 0 ar v xs = ret (ar, xs)"
| "set_loop lt r (Suc n) ar v xs = andthen (r ar v) (\<lambda>(ar, v). set_loop lt r n ar v (set_insert lt v xs))"

definition set_rd :: "ser_env \<Rightarrow> (sval \<Rightarrow> sval \<Rightarrow> bool) \<Rightarrow> sval \<Rightarrow> (archive \<Rightarrow> sval \<Rightarrow> (archive \<times> sval) outcome) \<Rightarrow> archive \<Rightarrow> sval \<Rightarrow>
    (archive \<times> sval) outcome" where
  "set_rd E lt v0 r ar old = andthen (num_rd E ar) (\<lambda>(ar, n).
     andthen (set_loop lt r (unat n) ar v0 (list_of old)) (\<lambda>(ar, xs). ret (ar, VList xs)))"

definition key_less :: "ser_env \<Rightarrow> sty \<Rightarrow> sval \<Rightarrow> sval \<Rightarrow> bool" where
  "key_less E k x y \<longleftrightarrow> less_than E k (fst_of x) (fst_of y)"

subsection \<open>Pairs, strings, pointers\<close>

definition fields_wr :: "(archive \<Rightarrow> sval \<Rightarrow> archive outcome) \<Rightarrow> (archive \<Rightarrow> sval \<Rightarrow> archive outcome) \<Rightarrow> archive \<Rightarrow> sval \<Rightarrow> archive outcome" where
  "fields_wr wa wb ar v = andthen (wa ar (fst_of v)) (\<lambda>ar. wb ar (snd_of v))"

definition fields_rd :: "(archive \<Rightarrow> sval \<Rightarrow> (archive \<times> sval) outcome) \<Rightarrow> (archive \<Rightarrow> sval \<Rightarrow> (archive \<times> sval) outcome) \<Rightarrow> archive \<Rightarrow> sval \<Rightarrow>
    (archive \<times> sval) outcome" where
  "fields_rd ra rb ar old = andthen (ra ar (fst_of old)) (\<lambda>(ar, x). andthen (rb ar (snd_of old)) (\<lambda>(ar, y). ret (ar, VPair x y)))"

definition pair_wr :: "ser_env \<Rightarrow> sty \<Rightarrow> sty \<Rightarrow> (archive \<Rightarrow> sval \<Rightarrow> archive outcome) \<Rightarrow> (archive \<Rightarrow> sval \<Rightarrow> archive outcome) \<Rightarrow> archive \<Rightarrow> sval \<Rightarrow> archive outcome" where
  "pair_wr E a b wa wb ar v = (if pod_value a \<and> pod_value b then pod_wr E (TPair a b) ar v else fields_wr wa wb ar v)"

definition pair_rd :: "ser_env \<Rightarrow> sty \<Rightarrow> sty \<Rightarrow> (archive \<Rightarrow> sval \<Rightarrow> (archive \<times> sval) outcome) \<Rightarrow> (archive \<Rightarrow> sval \<Rightarrow> (archive \<times> sval) outcome) \<Rightarrow> archive \<Rightarrow> sval \<Rightarrow>
    (archive \<times> sval) outcome" where
  "pair_rd E a b ra rb ar old = (if pod_value a \<and> pod_value b then pod_rd E (TPair a b) ar old else fields_rd ra rb ar old)"

text \<open>With \<open>STRCVT_UTF8\<close> the writer sends from a \<open>StringBuffer\<close> that has been destroyed.\<close>

definition str_wr :: "ser_env \<Rightarrow> archive \<Rightarrow> sval \<Rightarrow> archive outcome" where
  "str_wr E ar v = (let n = of_nat (length (str_of v)) :: u32 in
     andthen (num_wr E ar n) (\<lambda>ar. if n > 0
       then if flags_get (wr_flags ar) STRCVT_UTF8 then None else checked_send E ar (take (unat n) (str_of v))
       else ret ar))"

definition str_rd :: "ser_env \<Rightarrow> archive \<Rightarrow> (archive \<times> sval) outcome" where
  "str_rd E ar = andthen (num_rd E ar) (\<lambda>(ar, n).
     if \<not> can_alloc E (unat n) then throw XBadAlloc
     else andthen (checked_recv ar (replicate (unat n) 0)) (\<lambda>(ar, s). ret (ar, VStr s)))"

definition PTRTAG_NIL :: u32 where "PTRTAG_NIL = 0"

definition ser_type :: "sty \<Rightarrow> u32" where
  "ser_type t = (if tl_pod t then 2 else 1)"

definition ptr_wr :: "ser_env \<Rightarrow> sty \<Rightarrow> (archive \<Rightarrow> sval \<Rightarrow> archive outcome) \<Rightarrow> archive \<Rightarrow> sval \<Rightarrow> archive outcome" where
  "ptr_wr E t w ar v = (case ptr_of v of
     None \<Rightarrow> num_wr E ar PTRTAG_NIL
   | Some x \<Rightarrow> andthen (num_wr E ar (ser_type t)) (\<lambda>ar. w ar x))"

definition ptr_rd :: "ser_env \<Rightarrow> sty \<Rightarrow> (archive \<Rightarrow> sval \<Rightarrow> (archive \<times> sval) outcome) \<Rightarrow> archive \<Rightarrow> (archive \<times> sval) outcome" where
  "ptr_rd E t r ar = andthen (num_rd E ar) (\<lambda>(ar, tag).
     if tag = PTRTAG_NIL then ret (ar, VPtr None)
     else if tag \<noteq> ser_type t then errstr ''INVALID_POINTER_TYPE''
     else andthen (r ar (default t)) (\<lambda>(ar, x). ret (ar, VPtr (Some x))))"

subsection \<open>By type\<close>

text \<open>The elements of a map, as its iterators show them, are pairs whose first component is constant;
  for these \<open>serial_pod<A,const K>::value\<close> is false.\<close>

primrec ser_wr :: "sty \<Rightarrow> ser_env \<Rightarrow> archive \<Rightarrow> sval \<Rightarrow> archive outcome" where
  "ser_wr (TWord k) E = pod_wr E (TWord k)"
| "ser_wr (TCast k) E = cast_wr E k"
| "ser_wr TBool E = bool_wr E"
| "ser_wr TStr E = str_wr E"
| "ser_wr (TPair a b) E = pair_wr E a b (ser_wr a E) (ser_wr b E)"
| "ser_wr (TArr t) E = arr_wr E t (ser_wr t E)"
| "ser_wr (TFix n t) E = fix_wr E n t (ser_wr t E)"
| "ser_wr (TSet t) E = set_wr E (ser_wr t E)"
| "ser_wr (TMap k t) E = set_wr E (fields_wr (ser_wr k E) (ser_wr t E))"
| "ser_wr (TPtr t) E = ptr_wr E t (ser_wr t E)"

primrec ser_rd :: "sty \<Rightarrow> ser_env \<Rightarrow> archive \<Rightarrow> sval \<Rightarrow> (archive \<times> sval) outcome" where
  "ser_rd (TWord k) E = pod_rd E (TWord k)"
| "ser_rd (TCast k) E = (\<lambda>ar _. cast_rd E k ar)"
| "ser_rd TBool E = (\<lambda>ar _. bool_rd E ar)"
| "ser_rd TStr E = (\<lambda>ar _. str_rd E ar)"
| "ser_rd (TPair a b) E = pair_rd E a b (ser_rd a E) (ser_rd b E)"
| "ser_rd (TArr t) E = arr_rd E t (ser_rd t E)"
| "ser_rd (TFix n t) E = fix_rd E n t (ser_rd t E)"
| "ser_rd (TSet t) E = set_rd E (less_than E t) (default t) (ser_rd t E)"
| "ser_rd (TMap k t) E = set_rd E (key_less E k) (default (TPair k t)) (pair_rd E k t (ser_rd k E) (ser_rd t E))"
| "ser_rd (TPtr t) E = (\<lambda>ar _. ptr_rd E t (ser_rd t E) ar)"

subsection \<open>Tags and versions\<close>

definition tag_char_wr :: "ser_env \<Rightarrow> archive \<Rightarrow> u8 \<Rightarrow> archive outcome" where
  "tag_char_wr E ar ch = checked_send E ar [ch]"

text \<open>The reader complains when the byte \<open>is\<close> the one that is expected.\<close>

definition tag_char_rd :: "archive \<Rightarrow> u8 \<Rightarrow> archive outcome" where
  "tag_char_rd ar ch = andthen (checked_recv ar [0]) (\<lambda>(ar, p).
     if p = [ch] then errstr ''invalid_tag'' else ret ar)"

text \<open>A C string is the list of its bytes, without the zero at its end.\<close>

definition tag_msg_wr :: "ser_env \<Rightarrow> archive \<Rightarrow> u8 list \<Rightarrow> archive outcome" where
  "tag_msg_wr E ar msg = checked_send E ar (msg @ [0])"

definition tag_msg_rd :: "archive \<Rightarrow> u8 list \<Rightarrow> archive outcome" where
  "tag_msg_rd ar msg = andthen (checked_recv ar (replicate (length msg + 1) 0)) (\<lambda>(ar, p).
     if last p \<noteq> 0 \<or> takeWhile (\<lambda>c. c \<noteq> 0) p \<noteq> msg then errstr ''invalid_tag'' else ret ar)"

definition version_wr :: "ser_env \<Rightarrow> archive \<Rightarrow> i32 \<Rightarrow> (archive \<times> i32) outcome" where
  "version_wr E ar v = andthen (num_wr E ar v) (\<lambda>ar. ret (ar, v))"

definition version_rd :: "ser_env \<Rightarrow> archive \<Rightarrow> i32 \<Rightarrow> (archive \<times> i32) outcome" where
  "version_rd E ar v = andthen (num_rd E ar) (\<lambda>(ar, vh).
     if sint vh < 0 \<or> sint vh > sint v then errstr ''invalid_version'' else ret (ar, vh))"

end
