(* ===== verification/Codec.thy ===== *)
theory Codec
  imports Serializer Buffer_Tape "HOL-Library.Sublist"
begin

text \<open>
  The contract of a serializer for one type, as a locale: what it writes for a value, and that
  the reader gets the value back and leaves what follows. Inside the locale the loops over the elements of
  arrays, sets and maps are shown to keep the contract. The second locale adds that a reader throws on
  what is only a part of a value.
\<close>

subsection \<open>Sending and receiving\<close>

text \<open>Ready to write: not with \<open>STRCVT_UTF8\<close>, which the writer of strings cannot.\<close>

definition ready :: "archive \<Rightarrow> bool" where
  "ready ar \<longleftrightarrow> (\<exists>xs. lb_holds (lbuf ar) xs) \<and> \<not> flags_get (wr_flags ar) STRCVT_UTF8"

definition room :: "archive \<Rightarrow> nat \<Rightarrow> bool" where
  "room ar k \<longleftrightarrow> unat (lb_wr (lbuf ar)) + k \<le> 2 ^ 61 \<and>
    (case lb_cap (lbuf ar) of None \<Rightarrow> True | Some c \<Rightarrow> unat (lb_wr (lbuf ar)) + k \<le> c)"

definition sent :: "archive \<Rightarrow> u8 list \<Rightarrow> archive \<Rightarrow> bool" where
  "sent ar bs ar' \<longleftrightarrow> (\<exists>lb. ar' = ar\<lparr>lbuf := lb\<rparr> \<and> lb_cap lb = lb_cap (lbuf ar) \<and>
    unat (lb_wr lb) = unat (lb_wr (lbuf ar)) + length bs \<and> (\<forall>xs. lb_holds (lbuf ar) xs \<longrightarrow> lb_holds lb (xs @ bs)))"

definition got :: "archive \<Rightarrow> u8 list \<Rightarrow> archive \<Rightarrow> bool" where
  "got ar ys ar' \<longleftrightarrow> (\<exists>lb. ar' = ar\<lparr>lbuf := lb\<rparr> \<and> lb_holds lb ys)"

lemma sent_trans: "sent ar bs ar' \<Longrightarrow> sent ar' cs ar'' \<Longrightarrow> sent ar (bs @ cs) ar''"
proof -
  assume "sent ar bs ar'" "sent ar' cs ar''"
  then obtain l l' where "ar' = ar\<lparr>lbuf := l\<rparr>" "ar'' = ar\<lparr>lbuf := l'\<rparr>" "lb_cap l' = lb_cap (lbuf ar)"
    "unat (lb_wr l') = unat (lb_wr (lbuf ar)) + length (bs @ cs)"
    "\<forall>xs. lb_holds (lbuf ar) xs \<longrightarrow> lb_holds l (xs @ bs)" "\<forall>xs. lb_holds l xs \<longrightarrow> lb_holds l' (xs @ cs)"
    by (auto simp: sent_def)
  moreover from this(5,6) have "\<forall>xs. lb_holds (lbuf ar) xs \<longrightarrow> lb_holds l' (xs @ bs @ cs)" by fastforce
  ultimately show ?thesis unfolding sent_def by blast
qed

lemma sent_ready: "sent ar bs ar' \<Longrightarrow> ready ar \<Longrightarrow> ready ar'"
  by (force simp: sent_def ready_def)

lemma sent_room: "sent ar bs ar' \<Longrightarrow> room ar (length bs + k) \<Longrightarrow> room ar' k"
  by (auto simp: sent_def room_def add.assoc split: option.splits)

lemma sent_nil: "sent ar [] ar"
  by (auto simp: sent_def intro!: exI [of _ "lbuf ar"])

lemma sent_flags: "sent ar bs ar' \<Longrightarrow> wr_flags ar' = wr_flags ar"
  by (auto simp: sent_def)

lemma room_less: "room ar k \<Longrightarrow> j \<le> k \<Longrightarrow> room ar j"
  by (auto simp: room_def split: option.splits)

lemma got_trans: "got ar xs ar' \<Longrightarrow> got ar' ys ar'' \<Longrightarrow> got ar ys ar''"
  by (auto simp: got_def)

lemma got_holds: "got ar ys ar' \<Longrightarrow> lb_holds (lbuf ar') ys"
  by (auto simp: got_def)

lemma got_here: "lb_holds (lbuf ar) ys \<Longrightarrow> got ar ys ar"
  by (auto simp: got_def intro!: exI [of _ "lbuf ar"])

lemma holds_unique: "lb_holds lb xs \<Longrightarrow> lb_holds lb ys \<Longrightarrow> xs = ys"
  by (simp add: lb_holds_def)

lemma ser_send_ok:
  assumes al: "\<forall>k. can_alloc E k" and r: "ready ar" and k: "room ar (length bs)"
  shows "\<exists>ar'. ser_send E ar bs = ret (ar', of_nat (length bs)) \<and> sent ar bs ar'"
proof -
  let ?n = "of_nat (length bs) :: size_t"
  obtain xs where h: "lb_holds (lbuf ar) xs" using r by (auto simp: ready_def)
  have n: "unat ?n = length bs" using k by (simp add: room_def unsigned_of_nat take_bit_nat_eq_self)
  have c: "unat (lb_wr (lbuf ar)) + unat ?n \<le> length (lb_mem (lbuf ar)) \<or> pBuffer (lbuf ar) = Own \<and> (\<forall>k. can_alloc E k)"
    using k al n lb_mem_cap [of "lbuf ar"] by (auto simp: room_def split: option.splits)
  obtain lb where lb: "lb_send (can_alloc E) (lbuf ar) bs ?n = ret (lb, ?n)" "lb_holds lb (xs @ bs)" "lb_wr lb = lb_wr (lbuf ar) + ?n"
    using lb_send_ok [OF h, of ?n bs "can_alloc E"] c k n by (auto simp: room_def)
  have "unat (lb_wr lb) = unat (lb_wr (lbuf ar)) + length bs"
    using k n lb(3) by (simp add: room_def unat_word_ariths)
  then have "sent ar bs (ar\<lparr>lbuf := lb\<rparr>)"
    using lb(2) lb_send_cap [OF lb(1)] holds_unique [OF h] by (auto simp: sent_def intro!: exI [of _ lb])
  then show ?thesis using lb(1) by (simp add: ser_send_def)
qed

lemma checked_send_ok:
  assumes "\<forall>k. can_alloc E k" and "ready ar" and "room ar (length bs)"
  shows "\<exists>ar'. checked_send E ar bs = ret ar' \<and> sent ar bs ar'"
  using ser_send_ok [OF assms] by (auto simp: checked_send_def)

lemma ser_recv_ok:
  assumes h: "lb_holds (lbuf ar) (bs @ ys)" and p: "length p = length bs"
  shows "\<exists>ar'. ser_recv ar p = ret (ar', bs, of_nat (length bs)) \<and> got ar ys ar'"
proof -
  let ?n = "of_nat (length p) :: size_t"
  have "length p < 2 ^ 64" using lb_holdsD(1,2,6) [OF h] p by simp
  then have n: "unat ?n = length bs" using p by (simp add: unsigned_of_nat take_bit_nat_eq_self)
  obtain lb m where "lb_recv (lbuf ar) p ?n = Some (lb, bs, m)" "unat m = length bs" "lb_holds lb ys"
    using lb_recv_ok [OF h, of ?n p] n p by auto
  moreover from this(2) [symmetric] have "m = of_nat (length bs)" by simp
  ultimately show ?thesis by (auto simp: ser_recv_def got_def)
qed

lemma ser_recv_short:
  assumes h: "lb_holds (lbuf ar) bs" and p: "length bs < length p" "length p < 2 ^ 64"
  shows "\<exists>ar'. ser_recv ar p = ret (ar', bs @ drop (length bs) p, of_nat (length bs)) \<and> got ar [] ar'"
proof -
  let ?n = "of_nat (length p) :: size_t"
  have n: "unat ?n = length p" using p by (simp add: unsigned_of_nat take_bit_nat_eq_self)
  obtain lb m where "lb_recv (lbuf ar) p ?n = Some (lb, bs @ drop (length bs) p, m)" "unat m = length bs" "lb_holds lb []"
    using lb_recv_ok [OF h, of ?n p] n p by auto
  moreover from this(2) [symmetric] have "m = of_nat (length bs)" by simp
  ultimately show ?thesis by (auto simp: ser_recv_def got_def)
qed

lemma checked_recv_ok:
  assumes "lb_holds (lbuf ar) (bs @ ys)" and "length p = length bs"
  shows "\<exists>ar'. checked_recv ar p = ret (ar', bs) \<and> got ar ys ar'"
  using ser_recv_ok [OF assms] assms(2) by (auto simp: checked_recv_def)

lemma checked_recv_short:
  assumes "lb_holds (lbuf ar) bs" and "length bs < length p" "length p < 2 ^ 64"
  shows "\<exists>x. checked_recv ar p = throw x"
proof -
  have "(of_nat (length bs) :: size_t) \<noteq> of_nat (length p)"
  proof
    assume "(of_nat (length bs) :: size_t) = of_nat (length p)"
    then have "unat (of_nat (length bs) :: size_t) = unat (of_nat (length p) :: size_t)" by simp
    then show False using assms by (simp add: unsigned_of_nat take_bit_nat_eq_self)
  qed
  then show ?thesis using ser_recv_short [OF assms] by (auto simp: checked_recv_def errstr_def)
qed

subsection \<open>The contract\<close>

locale codec =
  fixes wr :: "archive \<Rightarrow> sval \<Rightarrow> archive outcome"
    and rd :: "archive \<Rightarrow> sval \<Rightarrow> (archive \<times> sval) outcome"
    and enc :: "sval \<Rightarrow> u8 list"
    and good :: "sval \<Rightarrow> bool"
    and fresh :: "sval \<Rightarrow> bool"
  assumes wr_ok: "good v \<Longrightarrow> ready ar \<Longrightarrow> room ar (length (enc v)) \<Longrightarrow> \<exists>ar'. wr ar v = ret ar' \<and> sent ar (enc v) ar'"
    and rd_ok: "good v \<Longrightarrow> fresh old \<Longrightarrow> lb_holds (lbuf ar) (enc v @ ys) \<Longrightarrow> \<exists>ar'. rd ar old = ret (ar', v) \<and> got ar ys ar'"
begin

lemma elems_wr_ok:
  "\<forall>x \<in> set xs. good x \<Longrightarrow> ready ar \<Longrightarrow> room ar (length (concat (map enc xs))) \<Longrightarrow>
    \<exists>ar'. elems_wr wr ar xs = ret ar' \<and> sent ar (concat (map enc xs)) ar'"
proof (induction xs arbitrary: ar)
  case (Cons x xs)
  have "room ar (length (enc x))" using Cons.prems(3) by (rule room_less) simp
  then obtain ar1 where 1: "wr ar x = ret ar1" "sent ar (enc x) ar1" using wr_ok [of x ar] Cons.prems by auto
  have "room ar1 (length (concat (map enc xs)))" using sent_room [OF 1(2)] Cons.prems(3) by simp
  then obtain ar2 where "elems_wr wr ar1 xs = ret ar2" "sent ar1 (concat (map enc xs)) ar2"
    using Cons.IH [of ar1] sent_ready [OF 1(2)] Cons.prems by auto
  with 1 show ?case using sent_trans by fastforce
qed (simp add: sent_nil)

lemma elems_rd_ok:
  "\<forall>x \<in> set xs. good x \<Longrightarrow> length olds = length xs \<Longrightarrow> \<forall>x \<in> set olds. fresh x \<Longrightarrow> lb_holds (lbuf ar) (concat (map enc xs) @ ys) \<Longrightarrow>
    \<exists>ar'. elems_rd rd ar olds = ret (ar', xs) \<and> got ar ys ar'"
proof (induction xs arbitrary: ar olds)
  case (Cons x xs)
  obtain old olds' where o: "olds = old # olds'" using Cons.prems(2) by (cases olds) auto
  obtain ar1 where 1: "rd ar old = ret (ar1, x)" "got ar (concat (map enc xs) @ ys) ar1"
    using rd_ok [of x old ar "concat (map enc xs) @ ys"] Cons.prems o by auto
  obtain ar2 where "elems_rd rd ar1 olds' = ret (ar2, xs)" "got ar1 ys ar2"
    using Cons.IH [of olds' ar1] got_holds [OF 1(2)] Cons.prems o by auto
  with 1 o show ?case using got_trans by fastforce
qed (simp add: got_here)

lemma set_insert_end: "\<forall>y \<in> set ys. lt y x \<and> \<not> lt x y \<Longrightarrow> set_insert lt x ys = ys @ [x]"
  by (induction ys) auto

lemma set_loop_ok:
  assumes all: "\<forall>x. good x \<longrightarrow> fresh x" and asym: "\<forall>x y. lt x y \<longrightarrow> \<not> lt y x"
  shows "\<forall>x \<in> set xs. good x \<Longrightarrow> fresh v \<Longrightarrow> sorted_wrt lt (acc @ xs) \<Longrightarrow> lb_holds (lbuf ar) (concat (map enc xs) @ ys) \<Longrightarrow>
    \<exists>ar'. set_loop lt rd (length xs) ar v acc = ret (ar', acc @ xs) \<and> got ar ys ar'"
proof (induction xs arbitrary: ar v acc)
  case (Cons x xs)
  obtain ar1 where 1: "rd ar v = ret (ar1, x)" "got ar (concat (map enc xs) @ ys) ar1"
    using rd_ok [of x v ar "concat (map enc xs) @ ys"] Cons.prems by auto
  have i: "set_insert lt x acc = acc @ [x]" using Cons.prems(3) asym by (intro set_insert_end) (auto simp: sorted_wrt_append)
  obtain ar2 where "set_loop lt rd (length xs) ar1 x (acc @ [x]) = ret (ar2, acc @ x # xs)" "got ar1 ys ar2"
    using Cons.IH [of x "acc @ [x]" ar1] got_holds [OF 1(2)] Cons.prems all by auto
  with 1 i show ?case using got_trans by fastforce
qed (simp add: got_here)

end

lemma strict_prefix_append_cases:
  assumes "strict_prefix ys (a @ b)"
  obtains "strict_prefix ys a" | zs where "ys = a @ zs" "strict_prefix zs b"
proof (cases "prefix a ys")
  case True
  then obtain zs where "ys = a @ zs" by (auto simp: prefix_def)
  then show ?thesis using assms that(2) by (simp add: strict_prefix_def)
next
  case False
  have "prefix ys a \<or> (\<exists>us. ys = a @ us \<and> prefix us b)" using assms by (simp add: strict_prefix_def prefix_append)
  then have "strict_prefix ys a" using False by (auto simp: strict_prefix_def)
  then show ?thesis by (rule that(1))
qed

locale strict_codec = codec +
  assumes cut: "good v \<Longrightarrow> fresh old \<Longrightarrow> lb_holds (lbuf ar) ys \<Longrightarrow> strict_prefix ys (enc v) \<Longrightarrow> \<exists>x. rd ar old = throw x"
begin

lemma elems_cut:
  "\<forall>x \<in> set xs. good x \<Longrightarrow> length olds = length xs \<Longrightarrow> \<forall>x \<in> set olds. fresh x \<Longrightarrow> lb_holds (lbuf ar) ys \<Longrightarrow>
    strict_prefix ys (concat (map enc xs)) \<Longrightarrow> \<exists>x. elems_rd rd ar olds = throw x"
proof (induction xs arbitrary: ar olds ys)
  case (Cons x xs)
  obtain old olds' where o: "olds = old # olds'" using Cons.prems(2) by (cases olds) auto
  from Cons.prems(5) have "strict_prefix ys (enc x @ concat (map enc xs))" by simp
  then show ?case
  proof (cases rule: strict_prefix_append_cases)
    case 1
    then show ?thesis using cut [of x old ar ys] Cons.prems o by auto
  next
    case (2 zs)
    obtain ar1 where 1: "rd ar old = ret (ar1, x)" "got ar zs ar1"
      using rd_ok [of x old ar zs] Cons.prems o 2 by auto
    then show ?thesis using Cons.IH [of olds' ar1 zs] got_holds [OF 1(2)] Cons.prems o 2 by auto
  qed
qed simp

lemma set_loop_cut:
  assumes all: "\<forall>x. good x \<longrightarrow> fresh x"
  shows "\<forall>x \<in> set xs. good x \<Longrightarrow> fresh v \<Longrightarrow> lb_holds (lbuf ar) ys \<Longrightarrow> strict_prefix ys (concat (map enc xs)) \<Longrightarrow>
    \<exists>x. set_loop lt rd (length xs) ar v acc = throw x"
proof (induction xs arbitrary: ar v acc ys)
  case (Cons x xs)
  from Cons.prems(4) have "strict_prefix ys (enc x @ concat (map enc xs))" by simp
  then show ?case
  proof (cases rule: strict_prefix_append_cases)
    case 1
    then show ?thesis using cut [of x v ar ys] Cons.prems by auto
  next
    case (2 zs)
    obtain ar1 where 1: "rd ar v = ret (ar1, x)" "got ar zs ar1" using rd_ok [of x v ar zs] Cons.prems 2 by auto
    then show ?thesis using Cons.IH [of x ar1 zs] got_holds [OF 1(2)] Cons.prems all 2 by auto
  qed
qed simp

end

end
