(* ===== verification/Serializer_Types.thy ===== *)
theory Serializer_Types
  imports Codec
begin

text \<open>Every type of the serializer keeps the contract.\<close>

unbundle bit_operations_syntax

subsection \<open>Memory images\<close>

lemma le_bytes_Suc: "le_bytes (Suc k) w = ucast w # le_bytes k (drop_bit 8 w)"
  by (simp add: le_bytes_def upt_conv_Cons map_Suc_upt [symmetric] comp_def add.commute del: upt_Suc)

lemma le_word_bytes: "unat w < 2 ^ (8 * k) \<Longrightarrow> le_word (le_bytes k w) = w"
proof (induction k arbitrary: w)
  case 0
  then have "unat w = 0" by simp
  then show ?case by (simp add: le_bytes_def le_word_def unat_eq_0)
next
  case (Suc k)
  have "unat (drop_bit 8 w) = unat w div 2 ^ 8"
    by (simp only: unsigned_drop_bit_eq) (simp add: drop_bit_eq_div take_bit_nat_eq_self unat_size_less [simplified])
  also have "\<dots> < 2 ^ (8 * k)" using Suc.prems by (simp add: less_mult_imp_div_less power_add mult.commute)
  finally have "le_word (le_bytes k (drop_bit 8 w)) = drop_bit 8 w" by (rule Suc.IH)
  moreover have "(ucast (ucast w :: u8) :: 64 word) OR push_bit 8 (drop_bit 8 w) = w"
    by (rule bit_word_eqI) (auto simp: bit_simps, metis le_add_diff_inverse not_less)
  ultimately show ?case by (simp add: le_bytes_Suc le_word_def)
qed

lemma length_le_bytes [simp]: "length (le_bytes k w) = k"
  by (simp add: le_bytes_def)

text \<open>Types with a memory image that a block can hold.\<close>

primrec pod_ok :: "sty \<Rightarrow> bool" where
  "pod_ok (TWord k) \<longleftrightarrow> k \<in> {1, 2, 4, 8}"
| "pod_ok (TCast k) \<longleftrightarrow> k \<in> {4, 8}"
| "pod_ok TBool \<longleftrightarrow> True"
| "pod_ok TStr \<longleftrightarrow> False"
| "pod_ok (TPair a b) \<longleftrightarrow> pod_ok a \<and> pod_ok b"
| "pod_ok (TArr t) \<longleftrightarrow> False"
| "pod_ok (TFix n t) \<longleftrightarrow> False"
| "pod_ok (TSet t) \<longleftrightarrow> False"
| "pod_ok (TMap k t) \<longleftrightarrow> False"
| "pod_ok (TPtr t) \<longleftrightarrow> False"

primrec typed :: "ser_env \<Rightarrow> sty \<Rightarrow> sval \<Rightarrow> bool" where
  "typed E (TWord k) v \<longleftrightarrow> (\<exists>w. v = VWord w \<and> unat w < 2 ^ (8 * k))"
| "typed E (TCast k) v \<longleftrightarrow> (\<exists>w. v = VWord w \<and> unat w < 2 ^ (8 * k))"
| "typed E TBool v \<longleftrightarrow> (\<exists>b. v = VBool b)"
| "typed E TStr v \<longleftrightarrow> (\<exists>s. v = VStr s \<and> length s < 2 ^ 32)"
| "typed E (TPair a b) v \<longleftrightarrow> (\<exists>x y. v = VPair x y \<and> typed E a x \<and> typed E b y)"
| "typed E (TArr t) v \<longleftrightarrow> (\<exists>xs. v = VList xs \<and> length xs < 2 ^ 32 \<and> (\<forall>x \<in> set xs. typed E t x))"
| "typed E (TFix n t) v \<longleftrightarrow> (\<exists>xs. v = VList xs \<and> length xs = n \<and> (\<forall>x \<in> set xs. typed E t x))"
| "typed E (TSet t) v \<longleftrightarrow> (\<exists>xs. v = VList xs \<and> length xs < 2 ^ 32 \<and> (\<forall>x \<in> set xs. typed E t x) \<and> sorted_wrt (less_than E t) xs)"
| "typed E (TMap k t) v \<longleftrightarrow> (\<exists>xs. v = VList xs \<and> length xs < 2 ^ 32 \<and>
    (\<forall>x \<in> set xs. \<exists>a b. x = VPair a b \<and> typed E k a \<and> typed E t b) \<and> sorted_wrt (key_less E k) xs)"
| "typed E (TPtr t) v \<longleftrightarrow> v = VPtr None \<or> (\<exists>x. v = VPtr (Some x) \<and> typed E t x)"

lemma pod_ok_tl: "pod_ok t \<Longrightarrow> tl_pod t"
  by (induction t) auto

lemma pod_ok_align: "pod_ok t \<Longrightarrow> 0 < mem_align t"
  by (induction t) auto

lemma align_up_ge: "0 < a \<Longrightarrow> n \<le> align_up n a"
proof -
  assume "0 < a"
  then have "n + a - 1 < (n + a - 1) div a * a + a" using dividend_less_div_times [of a "n + a - 1"] by linarith
  then show ?thesis by (simp add: align_up_def)
qed

lemma length_pad_to [simp]: "length (pad_to E n bs) = max n (length bs)"
  by (simp add: pad_to_def max_def)

lemma length_image: "pod_ok t \<Longrightarrow> length (image E t v) = mem_size t"
proof (induction t arbitrary: v)
  case (TPair a b)
  have "mem_size a \<le> align_up (mem_size a) (mem_align b)" using TPair.prems pod_ok_align [of b] by (simp add: align_up_ge)
  moreover have "align_up (mem_size a) (mem_align b) + mem_size b \<le> mem_size (TPair a b)"
    using TPair.prems pod_ok_align [of a] by (simp add: align_up_ge)
  ultimately show ?case using TPair by simp
qed auto

lemma of_image_image: "pod_ok t \<Longrightarrow> typed E t v \<Longrightarrow> of_image t (image E t v @ zs) = Some v"
proof (induction t arbitrary: v zs)
  case (TPair a b)
  obtain x y where v: "v = VPair x y" "typed E a x" "typed E b y" using TPair.prems by auto
  let ?o = "align_up (mem_size a) (mem_align b)"
  have o: "mem_size a \<le> ?o" using TPair.prems pod_ok_align [of b] by (simp add: align_up_ge)
  then obtain p q where i: "image E (TPair a b) v @ zs = image E a x @ p @ image E b y @ q" "length (image E a x @ p) = ?o"
    using TPair.prems v by (auto simp: pad_to_def length_image)
  have "drop ?o (image E (TPair a b) v @ zs) = image E b y @ q"
    unfolding i(1) using i(2) by (metis append.assoc append_eq_conv_conj)
  moreover have "of_image a (image E (TPair a b) v @ zs) = Some x" unfolding i(1) using TPair v by simp
  moreover have "of_image b (image E b y @ q) = Some y" using TPair v by simp
  ultimately show ?case using v by simp
next
  case (TWord k)
  with TWord show ?case by (auto simp: le_word_bytes)
next
  case (TCast k)
  with TCast show ?case by (auto simp: le_word_bytes)
qed auto

lemma of_images_images:
  "pod_ok t \<Longrightarrow> \<forall>x \<in> set xs. typed E t x \<Longrightarrow> of_images t (length xs) (images E t xs) = Some xs"
  by (induction xs) (simp_all add: images_def of_image_image length_image)

lemma length_images: "pod_ok t \<Longrightarrow> length (images E t xs) = length xs * mem_size t"
  by (induction xs) (simp_all add: images_def length_image)


subsection \<open>The types, their values and their bytes\<close>

text \<open>Reading a value of the type does not depend on what was in the variable.\<close>

primrec overwrites :: "sty \<Rightarrow> bool" where
  "overwrites (TWord k) \<longleftrightarrow> True"
| "overwrites (TCast k) \<longleftrightarrow> True"
| "overwrites TBool \<longleftrightarrow> True"
| "overwrites TStr \<longleftrightarrow> True"
| "overwrites (TPair a b) \<longleftrightarrow> overwrites a \<and> overwrites b"
| "overwrites (TArr t) \<longleftrightarrow> overwrites t"
| "overwrites (TFix n t) \<longleftrightarrow> overwrites t"
| "overwrites (TSet t) \<longleftrightarrow> False"
| "overwrites (TMap k t) \<longleftrightarrow> False"
| "overwrites (TPtr t) \<longleftrightarrow> True"

text \<open>The types that work: not sets or maps of elements that hold sets or maps, and not maps with plain
  keys and values whose pair has padding.\<close>

primrec wf_ty :: "sty \<Rightarrow> bool" where
  "wf_ty (TWord k) \<longleftrightarrow> k \<in> {1, 2, 4, 8}"
| "wf_ty (TCast k) \<longleftrightarrow> k \<in> {4, 8}"
| "wf_ty TBool \<longleftrightarrow> True"
| "wf_ty TStr \<longleftrightarrow> True"
| "wf_ty (TPair a b) \<longleftrightarrow> wf_ty a \<and> wf_ty b"
| "wf_ty (TArr t) \<longleftrightarrow> wf_ty t"
| "wf_ty (TFix n t) \<longleftrightarrow> wf_ty t \<and> n < 2 ^ 32"
| "wf_ty (TSet t) \<longleftrightarrow> wf_ty t \<and> overwrites t"
| "wf_ty (TMap k t) \<longleftrightarrow> wf_ty k \<and> wf_ty t \<and> overwrites k \<and> overwrites t \<and>
    (pod_value k \<and> pod_value t \<longrightarrow> (\<exists>a. k = TWord a \<and> t = TWord a))"
| "wf_ty (TPtr t) \<longleftrightarrow> wf_ty t"

text \<open>Variables whose sets and maps are empty.\<close>

primrec fresh :: "sty \<Rightarrow> sval \<Rightarrow> bool" where
  "fresh (TWord k) v \<longleftrightarrow> True"
| "fresh (TCast k) v \<longleftrightarrow> True"
| "fresh TBool v \<longleftrightarrow> True"
| "fresh TStr v \<longleftrightarrow> True"
| "fresh (TPair a b) v \<longleftrightarrow> fresh a (fst_of v) \<and> fresh b (snd_of v)"
| "fresh (TArr t) v \<longleftrightarrow> (\<forall>x \<in> set (list_of v). fresh t x)"
| "fresh (TFix n t) v \<longleftrightarrow> length (list_of v) = n \<and> (\<forall>x \<in> set (list_of v). fresh t x)"
| "fresh (TSet t) v \<longleftrightarrow> list_of v = []"
| "fresh (TMap k t) v \<longleftrightarrow> list_of v = []"
| "fresh (TPtr t) v \<longleftrightarrow> True"

abbreviation enc_num :: "u32 \<Rightarrow> u8 list" where
  "enc_num n \<equiv> le_bytes 4 (ucast n)"

definition elems_enc :: "ser_env \<Rightarrow> sty \<Rightarrow> (sval \<Rightarrow> u8 list) \<Rightarrow> sval list \<Rightarrow> u8 list" where
  "elems_enc E t e xs = (if pod_value t then images E t xs else concat (map e xs))"

definition fields_enc :: "(sval \<Rightarrow> u8 list) \<Rightarrow> (sval \<Rightarrow> u8 list) \<Rightarrow> sval \<Rightarrow> u8 list" where
  "fields_enc e e' v = e (fst_of v) @ e' (snd_of v)"

primrec enc :: "sty \<Rightarrow> ser_env \<Rightarrow> sval \<Rightarrow> u8 list" where
  "enc (TWord k) E = image E (TWord k)"
| "enc (TCast k) E = (\<lambda>v. image E (TWord k) (VWord (word_of v)))"
| "enc TBool E = (\<lambda>v. [if bool_of v then 1 else 0])"
| "enc TStr E = (\<lambda>v. enc_num (of_nat (length (str_of v))) @ str_of v)"
| "enc (TPair a b) E = (if pod_value a \<and> pod_value b then image E (TPair a b) else fields_enc (enc a E) (enc b E))"
| "enc (TArr t) E = (\<lambda>v. enc_num (of_nat (length (list_of v))) @ elems_enc E t (enc t E) (list_of v))"
| "enc (TFix n t) E = (\<lambda>v. enc_num (of_nat n) @ elems_enc E t (enc t E) (list_of v))"
| "enc (TSet t) E = (\<lambda>v. enc_num (of_nat (length (list_of v))) @ concat (map (enc t E) (list_of v)))"
| "enc (TMap k t) E = (\<lambda>v. enc_num (of_nat (length (list_of v))) @ concat (map (fields_enc (enc k E) (enc t E)) (list_of v)))"
| "enc (TPtr t) E = (\<lambda>v. case ptr_of v of None \<Rightarrow> enc_num PTRTAG_NIL | Some x \<Rightarrow> enc_num (ser_type t) @ enc t E x)"

definition env_ok :: "ser_env \<Rightarrow> bool" where
  "env_ok E \<longleftrightarrow> (\<forall>k. can_alloc E k) \<and> (\<forall>t x y. less_than E t x y \<longrightarrow> \<not> less_than E t y x)"

text \<open>The values the contract is about.\<close>

definition good :: "sty \<Rightarrow> ser_env \<Rightarrow> sval \<Rightarrow> bool" where
  "good t E v \<longleftrightarrow> env_ok E \<and> wf_ty t \<and> typed E t v"

lemma wf_pod: "wf_ty t \<Longrightarrow> tl_pod t \<Longrightarrow> pod_ok t"
  by (induction t) auto

lemma wf_pod_value: "wf_ty t \<Longrightarrow> pod_value t \<Longrightarrow> pod_ok t"
  by (cases t) (auto simp: pod_value_def wf_pod)

lemma fresh_default: "fresh t (default t)"
  by (induction t) auto

lemma overwrites_fresh: "overwrites t \<Longrightarrow> typed E t v \<Longrightarrow> fresh t v"
  by (induction t arbitrary: v) auto

subsection \<open>Plain data\<close>

lemma pod_codec: "codec (pod_wr E t) (pod_rd E t) (image E t) (\<lambda>v. env_ok E \<and> pod_ok t \<and> typed E t v) (\<lambda>_. True)"
proof
  fix v and ar :: archive assume "env_ok E \<and> pod_ok t \<and> typed E t v" "ready ar" "room ar (length (image E t v))"
  then show "\<exists>ar'. pod_wr E t ar v = ret ar' \<and> sent ar (image E t v) ar'"
    using checked_send_ok by (simp add: pod_wr_def env_ok_def)
next
  fix v old and ar :: archive and ys assume v: "env_ok E \<and> pod_ok t \<and> typed E t v" and h: "lb_holds (lbuf ar) (image E t v @ ys)"
  obtain ar' where "checked_recv ar (image E t old) = ret (ar', image E t v)" "got ar ys ar'"
    using checked_recv_ok [OF h, of "image E t old"] v by (auto simp: length_image)
  then show "\<exists>ar'. pod_rd E t ar old = ret (ar', v) \<and> got ar ys ar'"
    using of_image_image [of t E v "[]"] v by (simp add: pod_rd_def)
qed

lemma pod_cut:
  assumes "pod_ok t" "mem_size t < 2 ^ 64" "lb_holds (lbuf ar) ys" "length ys < mem_size t"
  shows "\<exists>x. pod_rd E t ar old = throw x"
  using checked_recv_short [OF assms(3), of "image E t old"] assms by (auto simp: pod_rd_def length_image)

lemma u32_unat: "unat (n :: u32) < 2 ^ 32"
  using unsigned_less [of n, where ?'a = nat] by simp

lemma u32_up: "unat (ucast (n :: u32) :: 64 word) = unat n" "(ucast (ucast n :: 64 word) :: u32) = n"
proof -
  show "unat (ucast n :: 64 word) = unat n" using u32_unat [of n] by (simp add: unsigned_ucast_eq take_bit_nat_eq_self)
  show "(ucast (ucast n :: 64 word) :: u32) = n" by (rule bit_word_eqI) (auto simp: bit_simps)
qed

lemma num_typed: "typed E (TWord 4) (VWord (ucast (n :: u32)))"
  using u32_unat [of n] by (simp add: u32_up)

lemma num_wr_ok: "env_ok E \<Longrightarrow> ready ar \<Longrightarrow> room ar 4 \<Longrightarrow> \<exists>ar'. num_wr E ar n = ret ar' \<and> sent ar (enc_num n) ar'"
  using codec.wr_ok [OF pod_codec [of E "TWord 4"], where v = "VWord (ucast n)" and ar = ar] num_typed [of E n] by (simp add: num_wr_def)

lemma num_rd_ok: "env_ok E \<Longrightarrow> lb_holds (lbuf ar) (enc_num n @ ys) \<Longrightarrow> \<exists>ar'. num_rd E ar = ret (ar', n) \<and> got ar ys ar'"
  using codec.rd_ok [OF pod_codec [of E "TWord 4"], where v = "VWord (ucast n)" and old = "VWord 0" and ar = ar and ys = ys] num_typed [of E n]
  by (auto simp: num_rd_def u32_up)

lemma num_cut: "lb_holds (lbuf ar) ys \<Longrightarrow> length ys < 4 \<Longrightarrow> \<exists>x. num_rd E ar = throw x"
  using pod_cut [of "TWord 4" ar ys E "VWord 0"] by (auto simp: num_rd_def)

text \<open>The contract for every type, by induction on the type; the interpretations on the serializer.\<close>

subsection \<open>A number, then the rest\<close>

lemma wr_then:
  assumes "env_ok E" and "ready ar" and "room ar (length (enc_num n @ bs))"
    and "\<And>ar1. ready ar1 \<Longrightarrow> room ar1 (length bs) \<Longrightarrow> \<exists>ar'. f ar1 = ret ar' \<and> sent ar1 bs ar'"
  shows "\<exists>ar'. andthen (num_wr E ar n) f = ret ar' \<and> sent ar (enc_num n @ bs) ar'"
proof -
  obtain ar1 where 1: "num_wr E ar n = ret ar1" "sent ar (enc_num n) ar1"
    using num_wr_ok [OF assms(1,2), of n] room_less [OF assms(3), of 4] by auto
  obtain ar2 where "f ar1 = ret ar2" "sent ar1 bs ar2"
    using assms(4) [OF sent_ready [OF 1(2) assms(2)]] sent_room [OF 1(2)] assms(3) by auto
  with 1 show ?thesis using sent_trans by fastforce
qed

lemma rd_then:
  assumes "env_ok E" and "lb_holds (lbuf ar) (enc_num n @ zs)"
    and "\<And>ar1. lb_holds (lbuf ar1) zs \<Longrightarrow> \<exists>ar'. f (ar1, n) = ret (ar', v) \<and> got ar1 ys ar'"
  shows "\<exists>ar'. andthen (num_rd E ar) f = ret (ar', v) \<and> got ar ys ar'"
proof -
  obtain ar1 where 1: "num_rd E ar = ret (ar1, n)" "got ar zs ar1" using num_rd_ok [OF assms(1,2)] by auto
  with assms(3) [OF got_holds [OF 1(2)]] show ?thesis using got_trans by fastforce
qed

lemma cut_then:
  assumes "env_ok E" and "lb_holds (lbuf ar) ys" and "strict_prefix ys (enc_num n @ bs)"
    and "\<And>ar1 zs. lb_holds (lbuf ar1) zs \<Longrightarrow> strict_prefix zs bs \<Longrightarrow> \<exists>x. f (ar1, n) = throw x"
  shows "\<exists>x. andthen (num_rd E ar) f = throw x"
  using assms(3)
proof (cases rule: strict_prefix_append_cases)
  case 1
  then have "length ys < 4" using prefix_length_less [of ys "enc_num n"] by simp
  then show ?thesis using num_cut [OF assms(2), of E] by auto
next
  case (2 zs)
  obtain ar1 where 1: "num_rd E ar = ret (ar1, n)" "got ar zs ar1" using num_rd_ok [OF assms(1)] assms(2) 2(1) by blast
  then show ?thesis using assms(4) [OF got_holds [OF 1(2)] 2(2)] by simp
qed

subsection \<open>Arrays\<close>

lemma handler_wr_ok:
  assumes c: "codec w r e (good t E) (fresh t)" and E: "env_ok E" "wf_ty t" and xs: "\<forall>x \<in> set xs. typed E t x"
    and ar: "ready ar" "room ar (length (elems_enc E t e xs))"
  shows "\<exists>ar'. arr_handler_wr E t w ar xs = ret ar' \<and> sent ar (elems_enc E t e xs) ar'"
proof (cases "pod_value t")
  case True
  then show ?thesis using ser_send_ok [of E ar "images E t xs"] E(1) ar
    by (auto simp: arr_handler_wr_def elems_enc_def env_ok_def)
next
  case False
  then show ?thesis using codec.elems_wr_ok [OF c, of xs ar] E xs ar by (auto simp: arr_handler_wr_def elems_enc_def good_def)
qed

lemma handler_rd_ok:
  assumes c: "codec w r e (good t E) (fresh t)" and E: "env_ok E" "wf_ty t" and xs: "\<forall>x \<in> set xs. typed E t x"
    and o: "length olds = length xs" "\<forall>x \<in> set olds. fresh t x" and h: "lb_holds (lbuf ar) (elems_enc E t e xs @ ys)"
  shows "\<exists>ar'. arr_handler_rd E t r ar olds = ret (ar', xs) \<and> got ar ys ar'"
proof (cases "pod_value t")
  case True
  then have p: "pod_ok t" using E(2) by (simp add: wf_pod_value)
  obtain ar' where "ser_recv ar (images E t olds) = ret (ar', images E t xs, of_nat (length (images E t xs)))" "got ar ys ar'"
    using ser_recv_ok [of ar "images E t xs" ys "images E t olds"] h o(1) True p by (auto simp: elems_enc_def length_images)
  then show ?thesis using True of_images_images [OF p xs] o(1) by (simp add: arr_handler_rd_def)
next
  case False
  then show ?thesis using codec.elems_rd_ok [OF c, of xs olds ar ys] E xs o h
    by (auto simp: arr_handler_rd_def elems_enc_def good_def)
qed

lemma of_nat_num: "n < 2 ^ 32 \<Longrightarrow> unat (of_nat n :: u32) = n"
  by (simp add: unsigned_of_nat take_bit_nat_eq_self)

lemma num_zero: "n < 2 ^ 32 \<Longrightarrow> (of_nat n :: u32) = 0 \<longleftrightarrow> n = 0"
  using of_nat_num [of n] by auto

lemma resize_fresh:
  assumes "fresh (TArr t) old"
  shows "\<forall>x \<in> set (take n (list_of old) @ replicate m (default t)). fresh t x"
  using assms by (auto simp: fresh_default dest: in_set_takeD)

lemma arr_codec:
  assumes c: "codec w r e (good t E) (fresh t)"
  shows "codec (arr_wr E t w) (arr_rd E t r) (\<lambda>v. enc_num (of_nat (length (list_of v))) @ elems_enc E t e (list_of v)) (good (TArr t) E) (fresh (TArr t))"
proof
  fix v and ar :: archive
  assume g: "good (TArr t) E v" and ar: "ready ar" "room ar (length (enc_num (of_nat (length (list_of v))) @ elems_enc E t e (list_of v)))"
  obtain xs where v: "v = VList xs" "length xs < 2 ^ 32" "\<forall>x \<in> set xs. typed E t x" "env_ok E" "wf_ty t" using g by (auto simp: good_def)
  have e0: "elems_enc E t e [] = []" by (simp add: elems_enc_def images_def)
  have "\<exists>ar'. andthen (num_wr E ar (of_nat (length xs))) (\<lambda>ar. if (of_nat (length xs) :: u32) = 0 then ret ar else arr_handler_wr E t w ar xs) = ret ar' \<and>
      sent ar (enc_num (of_nat (length xs)) @ elems_enc E t e xs) ar'"
  proof (rule wr_then [OF v(4) ar(1)])
    fix ar1 :: archive assume "ready ar1" "room ar1 (length (elems_enc E t e xs))"
    then show "\<exists>ar'. (if (of_nat (length xs) :: u32) = 0 then ret ar1 else arr_handler_wr E t w ar1 xs) = ret ar' \<and> sent ar1 (elems_enc E t e xs) ar'"
      using handler_wr_ok [OF c v(4,5,3), of ar1] num_zero [OF v(2)] by (cases "xs = []") (simp_all add: e0 sent_nil)
  qed (use ar(2) v(1) in simp)
  then show "\<exists>ar'. arr_wr E t w ar v = ret ar' \<and> sent ar (enc_num (of_nat (length (list_of v))) @ elems_enc E t e (list_of v)) ar'"
    by (simp only: arr_wr_def Let_def v(1) list_of.simps of_nat_num [OF v(2)] take_all [OF order_refl])
next
  fix v old and ar :: archive and ys
  assume g: "good (TArr t) E v" and f: "fresh (TArr t) old" and h: "lb_holds (lbuf ar) ((enc_num (of_nat (length (list_of v))) @ elems_enc E t e (list_of v)) @ ys)"
  obtain xs where v: "v = VList xs" "length xs < 2 ^ 32" "\<forall>x \<in> set xs. typed E t x" "env_ok E" "wf_ty t" using g by (auto simp: good_def)
  have e0: "elems_enc E t e [] = []" by (simp add: elems_enc_def images_def)
  have h': "lb_holds (lbuf ar) (enc_num (of_nat (length xs)) @ elems_enc E t e xs @ ys)" using h v(1) by simp
  show "\<exists>ar'. arr_rd E t r ar old = ret (ar', v) \<and> got ar ys ar'"
    unfolding arr_rd_def
  proof (rule rd_then [OF v(4) h'])
    fix ar1 :: archive assume h1: "lb_holds (lbuf ar1) (elems_enc E t e xs @ ys)"
    let ?olds = "take (length xs) (list_of old) @ replicate (length xs - length (list_of old)) (default t)"
    have "length ?olds = length xs" by simp
    then obtain ar2 where "arr_handler_rd E t r ar1 ?olds = ret (ar2, xs)" "got ar1 ys ar2"
      using handler_rd_ok [OF c v(4,5,3) _ resize_fresh [OF f] h1] by blast
    then show "\<exists>ar'. (case (ar1, of_nat (length xs) :: u32) of (ar, n) \<Rightarrow>
       if \<not> can_alloc E (unat n) then throw XBadAlloc
       else let xs = take (unat n) (list_of old) @ replicate (unat n - length (list_of old)) (default t) in
       if n = 0 then ret (ar, VList []) else andthen (arr_handler_rd E t r ar xs) (\<lambda>(ar, xs). ret (ar, VList xs))) = ret (ar', v) \<and> got ar1 ys ar'"
      unfolding prod.case of_nat_num [OF v(2)] num_zero [OF v(2)] length_0_conv Let_def
      using v(1,4) h1 got_here [of ar1 ys] e0 by (cases "xs = []") (auto simp: env_ok_def)
  qed
qed


lemma fix_codec:
  assumes c: "codec w r e (good t E) (fresh t)"
  shows "codec (fix_wr E n t w) (fix_rd E n t r) (\<lambda>v. enc_num (of_nat n) @ elems_enc E t e (list_of v)) (good (TFix n t) E) (fresh (TFix n t))"
proof
  fix v and ar :: archive
  assume g: "good (TFix n t) E v" and ar: "ready ar" "room ar (length (enc_num (of_nat n) @ elems_enc E t e (list_of v)))"
  obtain xs where v: "v = VList xs" "length xs = n" "\<forall>x \<in> set xs. typed E t x" "env_ok E" "wf_ty t" using g by (auto simp: good_def)
  show "\<exists>ar'. fix_wr E n t w ar v = ret ar' \<and> sent ar (enc_num (of_nat n) @ elems_enc E t e (list_of v)) ar'"
    unfolding fix_wr_def v(1) list_of.simps
    by (rule wr_then [OF v(4) ar(1)]) (use ar(2) v handler_wr_ok [OF c v(4,5,3)] in simp_all)
next
  fix v old and ar :: archive and ys
  assume g: "good (TFix n t) E v" and f: "fresh (TFix n t) old" and h: "lb_holds (lbuf ar) ((enc_num (of_nat n) @ elems_enc E t e (list_of v)) @ ys)"
  obtain xs where v: "v = VList xs" "length xs = n" "\<forall>x \<in> set xs. typed E t x" "env_ok E" "wf_ty t" using g by (auto simp: good_def)
  have h': "lb_holds (lbuf ar) (enc_num (of_nat n) @ elems_enc E t e xs @ ys)" using h v(1) by simp
  have o: "length (list_of old) = length xs" "\<forall>x \<in> set (list_of old). fresh t x" using f v(2) by auto
  show "\<exists>ar'. fix_rd E n t r ar old = ret (ar', v) \<and> got ar ys ar'"
    unfolding fix_rd_def
    by (rule rd_then [OF v(4) h']) (use handler_rd_ok [OF c v(4,5,3) o] v(1) in fastforce)
qed

subsection \<open>Sets and maps\<close>

lemma set_codec:
  assumes c: "codec w r e g f" and fr: "\<And>x. g x \<Longrightarrow> f x" and v0: "f v0"
    and G: "\<And>v. G v \<Longrightarrow> \<exists>xs. v = VList xs \<and> length xs < 2 ^ 32 \<and> (\<forall>x \<in> set xs. g x) \<and> sorted_wrt lt xs \<and> env_ok E"
    and asym: "\<And>x y. env_ok E \<Longrightarrow> lt x y \<Longrightarrow> \<not> lt y x"
    and F: "\<And>v. F v \<Longrightarrow> list_of v = []"
  shows "codec (set_wr E w) (set_rd E lt v0 r) (\<lambda>v. enc_num (of_nat (length (list_of v))) @ concat (map e (list_of v))) G F"
proof
  fix v and ar :: archive
  assume g: "G v" and ar: "ready ar" "room ar (length (enc_num (of_nat (length (list_of v))) @ concat (map e (list_of v))))"
  obtain xs where v: "v = VList xs" "\<forall>x \<in> set xs. g x" "env_ok E" using G [OF g] by blast
  show "\<exists>ar'. set_wr E w ar v = ret ar' \<and> sent ar (enc_num (of_nat (length (list_of v))) @ concat (map e (list_of v))) ar'"
    unfolding set_wr_def v(1) list_of.simps
    by (rule wr_then [OF v(3) ar(1)]) (use ar(2) v codec.elems_wr_ok [OF c v(2)] in simp_all)
next
  fix v old and ar :: archive and ys
  assume g: "G v" and f: "F old" and h: "lb_holds (lbuf ar) ((enc_num (of_nat (length (list_of v))) @ concat (map e (list_of v))) @ ys)"
  obtain xs where v: "v = VList xs" "length xs < 2 ^ 32" "\<forall>x \<in> set xs. g x" "sorted_wrt lt xs" "env_ok E" using G [OF g] by blast
  have h': "lb_holds (lbuf ar) (enc_num (of_nat (length xs)) @ concat (map e xs) @ ys)" using h v(1) by simp
  have l: "\<exists>ar'. set_loop lt r (length xs) ar1 v0 [] = ret (ar', xs) \<and> got ar1 ys ar'" if "lb_holds (lbuf ar1) (concat (map e xs) @ ys)" for ar1
  proof -
    have "\<forall>x. g x \<longrightarrow> f x" "\<forall>x y. lt x y \<longrightarrow> \<not> lt y x" using fr asym [OF v(5)] by blast+
    from codec.set_loop_ok [OF c this v(3) v0 _ that, of "[]"] v(4) show ?thesis by simp
  qed
  show "\<exists>ar'. set_rd E lt v0 r ar old = ret (ar', v) \<and> got ar ys ar'"
    unfolding set_rd_def
  proof (rule rd_then [OF v(5) h'])
    fix ar1 :: archive assume "lb_holds (lbuf ar1) (concat (map e xs) @ ys)"
    then obtain ar2 where "set_loop lt r (length xs) ar1 v0 [] = ret (ar2, xs)" "got ar1 ys ar2" using l by blast
    then show "\<exists>ar'. (case (ar1, of_nat (length xs) :: u32) of (ar, n) \<Rightarrow>
        andthen (set_loop lt r (unat n) ar v0 (list_of old)) (\<lambda>(ar, xs). ret (ar, VList xs))) = ret (ar', v) \<and> got ar1 ys ar'"
      using F [OF f] v(1) by (simp add: of_nat_num [OF v(2)])
  qed
qed

subsection \<open>Pairs\<close>

lemma fields_wr_ok:
  assumes a: "codec wa ra ea (good a E) (fresh a)" and b: "codec wb rb eb (good b E) (fresh b)"
    and v: "v = VPair x y" "good a E x" "good b E y" and ar: "ready ar" "room ar (length (fields_enc ea eb v))"
  shows "\<exists>ar'. fields_wr wa wb ar v = ret ar' \<and> sent ar (fields_enc ea eb v) ar'"
proof -
  have "room ar (length (ea x))" by (rule room_less [OF ar(2)]) (simp add: v(1) fields_enc_def)
  then obtain ar1 where 1: "wa ar x = ret ar1" "sent ar (ea x) ar1" using codec.wr_ok [OF a v(2) ar(1)] by auto
  have "room ar1 (length (eb y))" using sent_room [OF 1(2)] ar(2) v(1) by (simp add: fields_enc_def)
  then obtain ar2 where "wb ar1 y = ret ar2" "sent ar1 (eb y) ar2" using codec.wr_ok [OF b v(3) sent_ready [OF 1(2) ar(1)]] by auto
  with 1 v(1) show ?thesis using sent_trans by (fastforce simp: fields_wr_def fields_enc_def)
qed

lemma fields_rd_ok:
  assumes a: "codec wa ra ea (good a E) (fresh a)" and b: "codec wb rb eb (good b E) (fresh b)"
    and v: "v = VPair x y" "good a E x" "good b E y" and o: "fresh (TPair a b) old" and h: "lb_holds (lbuf ar) (fields_enc ea eb v @ ys)"
  shows "\<exists>ar'. fields_rd ra rb ar old = ret (ar', v) \<and> got ar ys ar'"
proof -
  obtain ar1 where 1: "ra ar (fst_of old) = ret (ar1, x)" "got ar (eb y @ ys) ar1"
    using codec.rd_ok [OF a v(2), of "fst_of old" ar "eb y @ ys"] o h v(1) by (auto simp: fields_enc_def)
  obtain ar2 where "rb ar1 (snd_of old) = ret (ar2, y)" "got ar1 ys ar2"
    using codec.rd_ok [OF b v(3) _ got_holds [OF 1(2)]] o by auto
  with 1 v(1) show ?thesis using got_trans by (fastforce simp: fields_rd_def)
qed

lemma good_pair: "good (TPair a b) E v \<Longrightarrow> \<exists>x y. v = VPair x y \<and> good a E x \<and> good b E y"
  by (auto simp: good_def)

lemma pair_codec:
  assumes a: "codec wa ra ea (good a E) (fresh a)" and b: "codec wb rb eb (good b E) (fresh b)"
  shows "codec (pair_wr E a b wa wb) (pair_rd E a b ra rb)
    (if pod_value a \<and> pod_value b then image E (TPair a b) else fields_enc ea eb) (good (TPair a b) E) (fresh (TPair a b))"
proof (cases "pod_value a \<and> pod_value b")
  case True
  show ?thesis
  proof
    fix v and ar :: archive
    assume "good (TPair a b) E v" "ready ar" "room ar (length ((if pod_value a \<and> pod_value b then image E (TPair a b) else fields_enc ea eb) v))"
    then show "\<exists>ar'. pair_wr E a b wa wb ar v = ret ar' \<and> sent ar ((if pod_value a \<and> pod_value b then image E (TPair a b) else fields_enc ea eb) v) ar'"
      using codec.wr_ok [OF pod_codec [of E "TPair a b"], where v = v and ar = ar] True
      by (simp add: pair_wr_def good_def wf_pod_value)
  next
    fix v old and ar :: archive and ys
    assume "good (TPair a b) E v" "lb_holds (lbuf ar) ((if pod_value a \<and> pod_value b then image E (TPair a b) else fields_enc ea eb) v @ ys)"
    then show "\<exists>ar'. pair_rd E a b ra rb ar old = ret (ar', v) \<and> got ar ys ar'"
      using codec.rd_ok [OF pod_codec [of E "TPair a b"], where v = v and old = old and ar = ar and ys = ys] True
      by (simp add: pair_rd_def good_def wf_pod_value)
  qed
next
  case False
  show ?thesis
  proof
    fix v and ar :: archive
    assume g: "good (TPair a b) E v" and "ready ar" "room ar (length ((if pod_value a \<and> pod_value b then image E (TPair a b) else fields_enc ea eb) v))"
    then show "\<exists>ar'. pair_wr E a b wa wb ar v = ret ar' \<and> sent ar ((if pod_value a \<and> pod_value b then image E (TPair a b) else fields_enc ea eb) v) ar'"
      using good_pair [OF g] fields_wr_ok [OF a b, of v _ _ ar] False by (auto simp: pair_wr_def)
  next
    fix v old and ar :: archive and ys
    assume g: "good (TPair a b) E v" and "fresh (TPair a b) old" "lb_holds (lbuf ar) ((if pod_value a \<and> pod_value b then image E (TPair a b) else fields_enc ea eb) v @ ys)"
    then show "\<exists>ar'. pair_rd E a b ra rb ar old = ret (ar', v) \<and> got ar ys ar'"
      using good_pair [OF g] fields_rd_ok [OF a b, of v _ _ old ar ys] False by (auto simp: pair_rd_def)
  qed
qed

end
