(* ===== verification/Serializer_Roundtrip.thy ===== *)
theory Serializer_Roundtrip
  imports Serializer_Types
begin

text \<open>The remaining types, and the contract by induction on the type.\<close>

lemma word_codec: "codec (pod_wr E (TWord k)) (pod_rd E (TWord k)) (image E (TWord k)) (good (TWord k) E) (fresh (TWord k))"
  using pod_codec [of E "TWord k"] by (simp add: good_def codec_def)

lemma cast_codec: "codec (cast_wr E k) (\<lambda>ar _. cast_rd E k ar) (\<lambda>v. image E (TWord k) (VWord (word_of v))) (good (TCast k) E) (fresh (TCast k))"
proof
  fix v and ar :: archive
  assume "good (TCast k) E v" "ready ar" "room ar (length (image E (TWord k) (VWord (word_of v))))"
  then show "\<exists>ar'. cast_wr E k ar v = ret ar' \<and> sent ar (image E (TWord k) (VWord (word_of v))) ar'"
    using codec.wr_ok [OF word_codec [of E k], where v = v and ar = ar] by (auto simp: cast_wr_def good_def)
next
  fix v old and ar :: archive and ys
  assume "good (TCast k) E v" "lb_holds (lbuf ar) (image E (TWord k) (VWord (word_of v)) @ ys)"
  then show "\<exists>ar'. cast_rd E k ar = ret (ar', v) \<and> got ar ys ar'"
    using codec.rd_ok [OF word_codec [of E k], where v = v and old = "VWord 0" and ar = ar and ys = ys] by (auto simp: cast_rd_def good_def)
qed

lemma bool_image: "image E (TWord 1) (VWord (if b then 1 else 0)) = [if b then 1 else 0]"
  by (simp add: le_bytes_def)

lemma bool_codec: "codec (bool_wr E) (\<lambda>ar _. bool_rd E ar) (\<lambda>v. [if bool_of v then 1 else 0]) (good TBool E) (fresh TBool)"
proof
  fix v and ar :: archive
  assume g: "good TBool E v" and "ready ar" "room ar (length [if bool_of v then 1 else 0 :: u8])"
  then show "\<exists>ar'. bool_wr E ar v = ret ar' \<and> sent ar [if bool_of v then 1 else 0] ar'"
    using codec.wr_ok [OF word_codec [of E 1], where v = "VWord (if bool_of v then 1 else 0)" and ar = ar]
    unfolding bool_image by (auto simp: bool_wr_def good_def)
next
  fix v old and ar :: archive and ys
  assume g: "good TBool E v" and h: "lb_holds (lbuf ar) ([if bool_of v then 1 else 0] @ ys)"
  obtain b where v: "v = VBool b" using g by (auto simp: good_def)
  have "good (TWord 1) E (VWord (if b then 1 else 0))" using g by (simp add: good_def)
  moreover have "lb_holds (lbuf ar) (image E (TWord 1) (VWord (if b then 1 else 0)) @ ys)" unfolding bool_image using h v by simp
  ultimately obtain ar' where "pod_rd E (TWord 1) ar (VWord 0) = ret (ar', VWord (if b then 1 else 0))" "got ar ys ar'"
    using codec.rd_ok [OF word_codec [of E 1]] by (metis fresh.simps(1))
  then show "\<exists>ar'. bool_rd E ar = ret (ar', v) \<and> got ar ys ar'"
    by (intro exI [of _ ar']) (simp add: bool_rd_def v)
qed

lemma str_codec: "codec (str_wr E) (\<lambda>ar _. str_rd E ar) (\<lambda>v. enc_num (of_nat (length (str_of v))) @ str_of v) (good TStr E) (fresh TStr)"
proof
  fix v and ar :: archive
  assume g: "good TStr E v" and ar: "ready ar" "room ar (length (enc_num (of_nat (length (str_of v))) @ str_of v))"
  obtain s where s: "v = VStr s" "length s < 2 ^ 32" "env_ok E" using g by (auto simp: good_def)
  have z: "0 < (of_nat (length s) :: u32) \<longleftrightarrow> s \<noteq> []" using num_zero [OF s(2)] by (simp add: word_neq_0_conv [symmetric])
  have "\<exists>ar'. andthen (num_wr E ar (of_nat (length s))) (\<lambda>ar. if s \<noteq> []
       then if flags_get (wr_flags ar) STRCVT_UTF8 then None else checked_send E ar s else ret ar) = ret ar' \<and> sent ar (enc_num (of_nat (length s)) @ s) ar'"
  proof (rule wr_then [OF s(3) ar(1)])
    fix ar1 :: archive assume "ready ar1" "room ar1 (length s)"
    then show "\<exists>ar'. (if s \<noteq> [] then if flags_get (wr_flags ar1) STRCVT_UTF8 then None else checked_send E ar1 s else ret ar1) = ret ar' \<and> sent ar1 s ar'"
      using checked_send_ok [of E ar1 s] s(3) sent_nil [of ar1] by (auto simp: env_ok_def ready_def)
  qed (use ar(2) s(1) in simp)
  then show "\<exists>ar'. str_wr E ar v = ret ar' \<and> sent ar (enc_num (of_nat (length (str_of v))) @ str_of v) ar'"
    unfolding str_wr_def Let_def s(1) str_of.simps z of_nat_num [OF s(2)] take_all [OF order_refl] .
next
  fix v old and ar :: archive and ys
  assume g: "good TStr E v" and h: "lb_holds (lbuf ar) ((enc_num (of_nat (length (str_of v))) @ str_of v) @ ys)"
  obtain s where s: "v = VStr s" "length s < 2 ^ 32" "env_ok E" using g by (auto simp: good_def)
  have h': "lb_holds (lbuf ar) (enc_num (of_nat (length s)) @ s @ ys)" using h s(1) by simp
  show "\<exists>ar'. str_rd E ar = ret (ar', v) \<and> got ar ys ar'"
    unfolding str_rd_def
  proof (rule rd_then [OF s(3) h'])
    fix ar1 :: archive assume h1: "lb_holds (lbuf ar1) (s @ ys)"
    show "\<exists>ar'. (case (ar1, of_nat (length s) :: u32) of (ar, n) \<Rightarrow> if \<not> can_alloc E (unat n) then throw XBadAlloc
       else andthen (checked_recv ar (replicate (unat n) 0)) (\<lambda>(ar, s). ret (ar, VStr s))) = ret (ar', v) \<and> got ar1 ys ar'"
      unfolding prod.case of_nat_num [OF s(2)]
      using checked_recv_ok [OF h1, of "replicate (length s) 0"] s(1,3) by (auto simp: env_ok_def)
  qed
qed

lemma ser_type_NIL: "ser_type t \<noteq> PTRTAG_NIL"
  by (simp add: ser_type_def PTRTAG_NIL_def)

definition ptr_enc :: "sty \<Rightarrow> (sval \<Rightarrow> u8 list) \<Rightarrow> sval \<Rightarrow> u8 list" where
  "ptr_enc t e v = (case ptr_of v of None \<Rightarrow> enc_num PTRTAG_NIL | Some x \<Rightarrow> enc_num (ser_type t) @ e x)"

lemma ptr_codec:
  assumes c: "codec w r e (good t E) (fresh t)"
  shows "codec (ptr_wr E t w) (\<lambda>ar _. ptr_rd E t r ar) (ptr_enc t e) (good (TPtr t) E) (fresh (TPtr t))"
proof
  fix v and ar :: archive
  assume g: "good (TPtr t) E v" and ar: "ready ar" "room ar (length (ptr_enc t e v))"
  have E: "env_ok E" using g by (simp add: good_def)
  consider "v = VPtr None" | x where "v = VPtr (Some x)" "good t E x" using g by (auto simp: good_def)
  then show "\<exists>ar'. ptr_wr E t w ar v = ret ar' \<and> sent ar (ptr_enc t e v) ar'"
  proof cases
    case 1
    then show ?thesis using num_wr_ok [OF E ar(1)] ar(2) by (simp add: ptr_wr_def ptr_enc_def)
  next
    case (2 x)
    then show ?thesis using wr_then [OF E ar(1), of "ser_type t" "e x" "\<lambda>ar. w ar x"] ar(2) codec.wr_ok [OF c 2(2)]
      by (simp add: ptr_wr_def ptr_enc_def)
  qed
next
  fix v old and ar :: archive and ys
  assume g: "good (TPtr t) E v" and h: "lb_holds (lbuf ar) (ptr_enc t e v @ ys)"
  have E: "env_ok E" using g by (simp add: good_def)
  consider "v = VPtr None" | x where "v = VPtr (Some x)" "good t E x" using g by (auto simp: good_def)
  then show "\<exists>ar'. ptr_rd E t r ar = ret (ar', v) \<and> got ar ys ar'"
  proof cases
    case 1
    then obtain ar' where "num_rd E ar = ret (ar', PTRTAG_NIL)" "got ar ys ar'"
      using num_rd_ok [OF E, of ar PTRTAG_NIL ys] h by (auto simp: ptr_enc_def)
    then show ?thesis using 1 by (intro exI [of _ ar']) (simp add: ptr_rd_def)
  next
    case (2 x)
    have h': "lb_holds (lbuf ar) (enc_num (ser_type t) @ e x @ ys)" using h 2 by (simp add: ptr_enc_def)
    show ?thesis
      unfolding ptr_rd_def
      by (rule rd_then [OF E h']) (use codec.rd_ok [OF c 2(2) fresh_default] ser_type_NIL 2(1) in fastforce)
  qed
qed

subsection \<open>Every type\<close>

lemma word_pair_packed: "wf_ty (TWord a) \<Longrightarrow> image E (TPair (TWord a) (TWord a)) v = image E (TWord a) (fst_of v) @ image E (TWord a) (snd_of v)"
  by (auto simp: align_up_def pad_to_def)

text \<open>The elements of a map are written field by field, and read as a pair.\<close>

lemma map_elem_packed:
  assumes m: "wf_ty (TMap k t)"
  shows "fields_enc (enc k E) (enc t E) v = (if pod_value k \<and> pod_value t then image E (TPair k t) else fields_enc (enc k E) (enc t E)) v"
proof (cases "pod_value k \<and> pod_value t")
  case True
  then obtain a where a: "k = TWord a" "t = TWord a" using m by auto
  then have "wf_ty (TWord a)" using m by simp
  then show ?thesis using True word_pair_packed [of a E v] a by (simp add: fields_enc_def)
next
  case False
  show ?thesis unfolding if_not_P [OF False] ..
qed

lemma map_elem_codec:
  assumes k: "codec wk rk (enc k E) (good k E) (fresh k)" and t: "codec wt rt (enc t E) (good t E) (fresh t)" and m: "wf_ty (TMap k t)"
  shows "codec (fields_wr wk wt) (pair_rd E k t rk rt) (fields_enc (enc k E) (enc t E)) (good (TPair k t) E) (fresh (TPair k t))"
proof
  fix v and ar :: archive
  assume g: "good (TPair k t) E v" and "ready ar" "room ar (length (fields_enc (enc k E) (enc t E) v))"
  then show "\<exists>ar'. fields_wr wk wt ar v = ret ar' \<and> sent ar (fields_enc (enc k E) (enc t E) v) ar'"
    using good_pair [OF g] fields_wr_ok [OF k t, of v _ _ ar] by blast
next
  fix v old and ar :: archive and ys
  assume g: "good (TPair k t) E v" and f: "fresh (TPair k t) old" and h: "lb_holds (lbuf ar) (fields_enc (enc k E) (enc t E) v @ ys)"
  show "\<exists>ar'. pair_rd E k t rk rt ar old = ret (ar', v) \<and> got ar ys ar'"
    using codec.rd_ok [OF pair_codec [OF k t] g f, of ar ys] h map_elem_packed [OF m, of E v] by simp
qed

lemma enc_ptr: "enc (TPtr t) E = ptr_enc t (enc t E)"
  by (simp add: ptr_enc_def fun_eq_iff)

lemma ser_codec: "wf_ty t \<Longrightarrow> codec (ser_wr t E) (ser_rd t E) (enc t E) (good t E) (fresh t)"
proof (induction t)
  case (TWord k)
  show ?case unfolding ser_wr.simps ser_rd.simps enc.simps by (rule word_codec)
next
  case (TCast k)
  show ?case unfolding ser_wr.simps ser_rd.simps enc.simps by (rule cast_codec)
next
  case TBool
  show ?case unfolding ser_wr.simps ser_rd.simps enc.simps by (rule bool_codec)
next
  case TStr
  show ?case unfolding ser_wr.simps ser_rd.simps enc.simps by (rule str_codec)
next
  case (TPair a b)
  then show ?case unfolding ser_wr.simps ser_rd.simps enc.simps wf_ty.simps by (intro pair_codec) blast+
next
  case (TArr t)
  then show ?case unfolding ser_wr.simps ser_rd.simps enc.simps wf_ty.simps by (intro arr_codec) blast
next
  case (TFix n t)
  then show ?case unfolding ser_wr.simps ser_rd.simps enc.simps wf_ty.simps by (intro fix_codec) blast
next
  case (TSet t)
  then have c: "codec (ser_wr t E) (ser_rd t E) (enc t E) (good t E) (fresh t)" by simp
  show ?case unfolding ser_wr.simps ser_rd.simps enc.simps
  proof (rule set_codec [OF c])
    show "fresh t x" if "good t E x" for x using that TSet.prems overwrites_fresh [of t E x] by (simp add: good_def)
    show "\<not> less_than E t y x" if "env_ok E" "less_than E t x y" for x y using that by (simp add: env_ok_def)
  qed (auto simp: good_def fresh_default)
next
  case (TMap k t)
  have c: "codec (fields_wr (ser_wr k E) (ser_wr t E)) (pair_rd E k t (ser_rd k E) (ser_rd t E)) (fields_enc (enc k E) (enc t E)) (good (TPair k t) E) (fresh (TPair k t))"
    using TMap by (intro map_elem_codec) simp_all
  show ?case unfolding ser_wr.simps ser_rd.simps enc.simps
  proof (rule set_codec [OF c])
    show "fresh (TPair k t) x" if "good (TPair k t) E x" for x using that TMap.prems overwrites_fresh [of "TPair k t" E x] by (simp add: good_def)
    show "\<not> key_less E k y x" if "env_ok E" "key_less E k x y" for x y using that by (simp add: env_ok_def key_less_def)
    show "\<exists>xs. v = VList xs \<and> length xs < 2 ^ 32 \<and> (\<forall>x\<in>set xs. good (TPair k t) E x) \<and> sorted_wrt (key_less E k) xs \<and> env_ok E"
      if "good (TMap k t) E v" for v using that by (auto simp: good_def)
  qed (auto simp: fresh_default)
next
  case (TPtr t)
  then show ?case unfolding ser_wr.simps ser_rd.simps enc_ptr wf_ty.simps by (intro ptr_codec) blast
qed

interpretation ser: codec "ser_wr t E" "ser_rd t E" "enc t E" "good t E" "fresh t" for t E
proof -
  show "codec (ser_wr t E) (ser_rd t E) (enc t E) (good t E) (fresh t)"
  proof (cases "wf_ty t")
    case True
    then show ?thesis by (rule ser_codec)
  next
    case False
    then show ?thesis by unfold_locales (simp_all add: good_def)
  qed
qed

end
