(* ===== verification/Serializer_Cut.thy ===== *)
theory Serializer_Cut
  imports Serializer_Roundtrip
begin

text \<open>Reading what is only a part of a value: the reader throws, except in arrays of plain data, for
  which it does not look at how much it has received.\<close>

primrec strict :: "sty \<Rightarrow> bool" where
  "strict (TWord k) \<longleftrightarrow> True"
| "strict (TCast k) \<longleftrightarrow> True"
| "strict TBool \<longleftrightarrow> True"
| "strict TStr \<longleftrightarrow> True"
| "strict (TPair a b) \<longleftrightarrow> strict a \<and> strict b \<and> mem_size (TPair a b) < 2 ^ 64"
| "strict (TArr t) \<longleftrightarrow> strict t \<and> \<not> pod_value t"
| "strict (TFix n t) \<longleftrightarrow> strict t \<and> \<not> pod_value t"
| "strict (TSet t) \<longleftrightarrow> strict t"
| "strict (TMap k t) \<longleftrightarrow> strict k \<and> strict t \<and> mem_size (TPair k t) < 2 ^ 64"
| "strict (TPtr t) \<longleftrightarrow> strict t"

lemma image_cut:
  assumes "pod_ok t" "mem_size t < 2 ^ 64" "lb_holds (lbuf ar) ys" "strict_prefix ys (image E t v)"
  shows "\<exists>x. pod_rd E t ar old = throw x"
  using pod_cut [OF assms(1-3)] prefix_length_less [OF assms(4)] by (simp add: length_image assms(1))

lemma strict_codecI:
  "codec w r e g f \<Longrightarrow>
    (\<And>v old (ar :: archive) ys. g v \<Longrightarrow> f old \<Longrightarrow> lb_holds (lbuf ar) ys \<Longrightarrow> strict_prefix ys (e v) \<Longrightarrow> \<exists>x. r ar old = throw x) \<Longrightarrow>
    strict_codec w r e g f"
  by (simp add: strict_codec_def strict_codec_axioms_def)

lemma word_cut: "strict_codec (ser_wr (TWord k) E) (ser_rd (TWord k) E) (enc (TWord k) E) (good (TWord k) E) (fresh (TWord k))"
proof (rule strict_codecI [OF ser.codec_axioms])
  fix v old and ar :: archive and ys
  assume "good (TWord k) E v" "lb_holds (lbuf ar) ys" "strict_prefix ys (enc (TWord k) E v)"
  then show "\<exists>x. ser_rd (TWord k) E ar old = throw x"
    using image_cut [of "TWord k" ar ys E v old] by (auto simp: good_def)
qed

lemma cast_cut: "strict_codec (ser_wr (TCast k) E) (ser_rd (TCast k) E) (enc (TCast k) E) (good (TCast k) E) (fresh (TCast k))"
proof (rule strict_codecI [OF ser.codec_axioms])
  fix v old and ar :: archive and ys
  assume "good (TCast k) E v" "lb_holds (lbuf ar) ys" "strict_prefix ys (enc (TCast k) E v)"
  then show "\<exists>x. ser_rd (TCast k) E ar old = throw x"
    using image_cut [of "TWord k" ar ys E "VWord (word_of v)" "VWord 0"] by (auto simp: good_def cast_rd_def)
qed

lemma bool_cut: "strict_codec (ser_wr TBool E) (ser_rd TBool E) (enc TBool E) (good TBool E) (fresh TBool)"
proof (rule strict_codecI [OF ser.codec_axioms])
  fix v old and ar :: archive and ys
  assume "lb_holds (lbuf ar) ys" "strict_prefix ys (enc TBool E v)"
  then have "lb_holds (lbuf ar) ys" "strict_prefix ys (image E (TWord 1) (VWord (if bool_of v then 1 else 0)))"
    unfolding bool_image by simp_all
  then obtain x where "pod_rd E (TWord 1) ar (VWord 0) = throw x"
    using image_cut [of "TWord 1" ar ys E _ "VWord 0"] by (metis mem_size.simps(1) pod_ok.simps(1) insertI1 one_less_numeral_iff one_less_power semiring_norm(76) zero_less_numeral)
  then show "\<exists>x. ser_rd TBool E ar old = throw x" by (simp add: bool_rd_def)
qed

lemma str_cut: "strict_codec (ser_wr TStr E) (ser_rd TStr E) (enc TStr E) (good TStr E) (fresh TStr)"
proof (rule strict_codecI [OF ser.codec_axioms])
  fix v old and ar :: archive and ys
  assume g: "good TStr E v" and h: "lb_holds (lbuf ar) ys" and p: "strict_prefix ys (enc TStr E v)"
  obtain s where s: "v = VStr s" "length s < 2 ^ 32" "env_ok E" using g by (auto simp: good_def)
  have p': "strict_prefix ys (enc_num (of_nat (length s)) @ s)" using p s(1) by simp
  show "\<exists>x. ser_rd TStr E ar old = throw x"
    unfolding ser_rd.simps str_rd_def
  proof (rule cut_then [OF s(3) h p'])
    fix ar1 :: archive and zs assume "lb_holds (lbuf ar1) zs" "strict_prefix zs s"
    then obtain x where "checked_recv ar1 (replicate (length s) 0) = throw x"
      using checked_recv_short [of ar1 zs "replicate (length s) 0"] prefix_length_less [of zs s] s(2) by auto
    then show "\<exists>x. (case (ar1, of_nat (length s) :: u32) of (ar, n) \<Rightarrow> if \<not> can_alloc E (unat n) then throw XBadAlloc
       else andthen (checked_recv ar (replicate (unat n) 0)) (\<lambda>(ar, s). ret (ar, VStr s))) = throw x"
      unfolding prod.case of_nat_num [OF s(2)] by simp
  qed
qed

lemma fields_cut:
  assumes a: "strict_codec wa ra ea (good a E) (fresh a)" and b: "strict_codec wb rb eb (good b E) (fresh b)"
    and v: "v = VPair x y" "good a E x" "good b E y" and o: "fresh (TPair a b) old"
    and h: "lb_holds (lbuf ar) ys" and p: "strict_prefix ys (fields_enc ea eb v)"
  shows "\<exists>x. fields_rd ra rb ar old = throw x"
proof -
  from p v(1) have "strict_prefix ys (ea x @ eb y)" by (simp add: fields_enc_def)
  then show ?thesis
  proof (cases rule: strict_prefix_append_cases)
    case 1
    then show ?thesis using strict_codec.cut [OF a v(2) _ h 1, of "fst_of old"] o by (auto simp: fields_rd_def)
  next
    case (2 zs)
    obtain ar1 where 1: "ra ar (fst_of old) = ret (ar1, x)" "got ar zs ar1"
      using codec.rd_ok [OF strict_codec.axioms(1) [OF a] v(2), of "fst_of old" ar zs] o h 2(1) by auto
    then show ?thesis using strict_codec.cut [OF b v(3) _ got_holds [OF 1(2)] 2(2), of "snd_of old"] o by (auto simp: fields_rd_def)
  qed
qed

lemma pair_cut:
  assumes a: "strict_codec (ser_wr a E) (ser_rd a E) (enc a E) (good a E) (fresh a)" and b: "strict_codec (ser_wr b E) (ser_rd b E) (enc b E) (good b E) (fresh b)"
    and m: "mem_size (TPair a b) < 2 ^ 64"
  shows "strict_codec (ser_wr (TPair a b) E) (ser_rd (TPair a b) E) (enc (TPair a b) E) (good (TPair a b) E) (fresh (TPair a b))"
proof (rule strict_codecI [OF ser.codec_axioms])
  fix v old and ar :: archive and ys
  assume g: "good (TPair a b) E v" and f: "fresh (TPair a b) old" and h: "lb_holds (lbuf ar) ys" and p: "strict_prefix ys (enc (TPair a b) E v)"
  show "\<exists>x. ser_rd (TPair a b) E ar old = throw x"
  proof (cases "pod_value a \<and> pod_value b")
    case True
    then have "pod_ok (TPair a b)" using g by (simp add: good_def wf_pod_value)
    then show ?thesis using image_cut [OF _ m h, of E v old] p True by (simp add: pair_rd_def)
  next
    case False
    have "strict_prefix ys (fields_enc (enc a E) (enc b E) v)" using p unfolding enc.simps if_not_P [OF False] .
    then have "\<exists>x. fields_rd (ser_rd a E) (ser_rd b E) ar old = throw x"
      using fields_cut [OF a b _ _ _ f h] good_pair [OF g] by blast
    then show ?thesis unfolding ser_rd.simps pair_rd_def if_not_P [OF False] .
  qed
qed

lemma elems_enc_strict: "\<not> pod_value t \<Longrightarrow> elems_enc E t e xs = concat (map e xs)"
  by (simp add: elems_enc_def)

lemma arr_cut:
  assumes c: "strict_codec (ser_wr t E) (ser_rd t E) (enc t E) (good t E) (fresh t)" and t: "\<not> pod_value t"
  shows "strict_codec (ser_wr (TArr t) E) (ser_rd (TArr t) E) (enc (TArr t) E) (good (TArr t) E) (fresh (TArr t))"
proof (rule strict_codecI [OF ser.codec_axioms])
  fix v old and ar :: archive and ys
  assume g: "good (TArr t) E v" and f: "fresh (TArr t) old" and h: "lb_holds (lbuf ar) ys" and p: "strict_prefix ys (enc (TArr t) E v)"
  obtain xs where v: "v = VList xs" "length xs < 2 ^ 32" "\<forall>x \<in> set xs. good t E x" "env_ok E" using g by (auto simp: good_def)
  have p': "strict_prefix ys (enc_num (of_nat (length xs)) @ concat (map (enc t E) xs))" using p v(1) t by (simp add: elems_enc_strict)
  let ?olds = "take (length xs) (list_of old) @ replicate (length xs - length (list_of old)) (default t)"
  show "\<exists>x. ser_rd (TArr t) E ar old = throw x"
    unfolding ser_rd.simps arr_rd_def
  proof (rule cut_then [OF v(4) h p'])
    fix ar1 :: archive and zs assume "lb_holds (lbuf ar1) zs" and z: "strict_prefix zs (concat (map (enc t E) xs))"
    moreover have "length ?olds = length xs" by simp
    ultimately obtain x where "elems_rd (ser_rd t E) ar1 ?olds = throw x"
      using strict_codec.elems_cut [OF c v(3) _ resize_fresh [OF f]] by blast
    moreover have "xs \<noteq> []" using z by auto
    ultimately show "\<exists>x. (case (ar1, of_nat (length xs) :: u32) of (ar, n) \<Rightarrow>
       if \<not> can_alloc E (unat n) then throw XBadAlloc
       else let xs = take (unat n) (list_of old) @ replicate (unat n - length (list_of old)) (default t) in
       if n = 0 then ret (ar, VList []) else andthen (arr_handler_rd E t (ser_rd t E) ar xs) (\<lambda>(ar, xs). ret (ar, VList xs))) = throw x"
      unfolding prod.case of_nat_num [OF v(2)] num_zero [OF v(2)] length_0_conv Let_def
      using t by (auto simp: arr_handler_rd_def)
  qed
qed

lemma fix_cut:
  assumes c: "strict_codec (ser_wr t E) (ser_rd t E) (enc t E) (good t E) (fresh t)" and t: "\<not> pod_value t"
  shows "strict_codec (ser_wr (TFix n t) E) (ser_rd (TFix n t) E) (enc (TFix n t) E) (good (TFix n t) E) (fresh (TFix n t))"
proof (rule strict_codecI [OF ser.codec_axioms])
  fix v old and ar :: archive and ys
  assume g: "good (TFix n t) E v" and f: "fresh (TFix n t) old" and h: "lb_holds (lbuf ar) ys" and p: "strict_prefix ys (enc (TFix n t) E v)"
  obtain xs where v: "v = VList xs" "length xs = n" "\<forall>x \<in> set xs. good t E x" "env_ok E" using g by (auto simp: good_def)
  have p': "strict_prefix ys (enc_num (of_nat n) @ concat (map (enc t E) xs))" using p v(1) t by (simp add: elems_enc_strict)
  show "\<exists>x. ser_rd (TFix n t) E ar old = throw x"
    unfolding ser_rd.simps fix_rd_def
  proof (rule cut_then [OF v(4) h p'])
    fix ar1 :: archive and zs assume "lb_holds (lbuf ar1) zs" "strict_prefix zs (concat (map (enc t E) xs))"
    then obtain x where "elems_rd (ser_rd t E) ar1 (list_of old) = throw x"
      using strict_codec.elems_cut [OF c v(3), of "list_of old" ar1 zs] f v(2) by auto
    then show "\<exists>x. (case (ar1, of_nat n :: u32) of (ar, m) \<Rightarrow> if m \<noteq> of_nat n then errstr ''invalid_array_size''
       else andthen (arr_handler_rd E t (ser_rd t E) ar (list_of old)) (\<lambda>(ar, xs). ret (ar, VList xs))) = throw x"
      using t by (simp add: arr_handler_rd_def)
  qed
qed

lemma set_cut:
  assumes c: "strict_codec w r e g f" and fr: "\<And>x. g x \<Longrightarrow> f x" and v0: "f v0"
    and v: "length xs < 2 ^ 32" "\<forall>x \<in> set xs. g x" "env_ok E"
    and h: "lb_holds (lbuf ar) ys" and p: "strict_prefix ys (enc_num (of_nat (length xs)) @ concat (map e xs))"
  shows "\<exists>x. set_rd E lt v0 r ar old = throw x"
  unfolding set_rd_def
proof (rule cut_then [OF v(3) h p])
  fix ar1 :: archive and zs assume z: "lb_holds (lbuf ar1) zs" "strict_prefix zs (concat (map e xs))"
  have "\<forall>x. g x \<longrightarrow> f x" using fr by blast
  then obtain x where "set_loop lt r (length xs) ar1 v0 (list_of old) = throw x"
    using strict_codec.set_loop_cut [OF c _ v(2) v0 z] by blast
  then show "\<exists>x. (case (ar1, of_nat (length xs) :: u32) of (ar, n) \<Rightarrow>
     andthen (set_loop lt r (unat n) ar v0 (list_of old)) (\<lambda>(ar, xs). ret (ar, VList xs))) = throw x"
    by (simp add: of_nat_num [OF v(1)])
qed

lemma ptr_cut:
  assumes c: "strict_codec (ser_wr t E) (ser_rd t E) (enc t E) (good t E) (fresh t)"
  shows "strict_codec (ser_wr (TPtr t) E) (ser_rd (TPtr t) E) (enc (TPtr t) E) (good (TPtr t) E) (fresh (TPtr t))"
proof (rule strict_codecI [OF ser.codec_axioms])
  fix v old and ar :: archive and ys
  assume g: "good (TPtr t) E v" and h: "lb_holds (lbuf ar) ys" and p: "strict_prefix ys (enc (TPtr t) E v)"
  have E: "env_ok E" using g by (simp add: good_def)
  consider "v = VPtr None" | x where "v = VPtr (Some x)" "good t E x" using g by (auto simp: good_def)
  then show "\<exists>x. ser_rd (TPtr t) E ar old = throw x"
  proof cases
    case 1
    then have "strict_prefix ys (enc_num PTRTAG_NIL)" using p by simp
    then have "length ys < 4" using prefix_length_less by fastforce
    then obtain x where "num_rd E ar = throw x" using num_cut [OF h, of E] by blast
    then show ?thesis by (simp add: ptr_rd_def)
  next
    case (2 x)
    then have p': "strict_prefix ys (enc_num (ser_type t) @ enc t E x)" using p by simp
    show ?thesis unfolding ser_rd.simps ptr_rd_def
    proof (rule cut_then [OF E h p'])
      fix ar1 :: archive and zs assume "lb_holds (lbuf ar1) zs" "strict_prefix zs (enc t E x)"
      from strict_codec.cut [OF c 2(2) fresh_default this]
      show "\<exists>x. (case (ar1, ser_type t) of (ar, tag) \<Rightarrow>
         if tag = PTRTAG_NIL then ret (ar, VPtr None)
         else if tag \<noteq> ser_type t then errstr ''INVALID_POINTER_TYPE''
         else andthen (ser_rd t E ar (default t)) (\<lambda>(ar, x). ret (ar, VPtr (Some x)))) = throw x"
        using ser_type_NIL by auto
    qed
  qed
qed

text \<open>The elements of a map.\<close>

lemma map_elem_cut:
  assumes k: "strict_codec (ser_wr k E) (ser_rd k E) (enc k E) (good k E) (fresh k)" and t: "strict_codec (ser_wr t E) (ser_rd t E) (enc t E) (good t E) (fresh t)"
    and m: "wf_ty (TMap k t)" "mem_size (TPair k t) < 2 ^ 64"
  shows "strict_codec (fields_wr (ser_wr k E) (ser_wr t E)) (pair_rd E k t (ser_rd k E) (ser_rd t E)) (fields_enc (enc k E) (enc t E))
    (good (TPair k t) E) (fresh (TPair k t))"
proof (rule strict_codecI [OF map_elem_codec [OF ser.codec_axioms ser.codec_axioms m(1)]])
  fix v old and ar :: archive and ys
  assume "good (TPair k t) E v" "fresh (TPair k t) old" "lb_holds (lbuf ar) ys" "strict_prefix ys (fields_enc (enc k E) (enc t E) v)"
  then show "\<exists>x. pair_rd E k t (ser_rd k E) (ser_rd t E) ar old = throw x"
    using strict_codec.cut [OF pair_cut [OF k t m(2)], of v old ar ys] map_elem_packed [OF m(1), of E v] by simp
qed

lemma ser_cut: "wf_ty t \<Longrightarrow> strict t \<Longrightarrow> strict_codec (ser_wr t E) (ser_rd t E) (enc t E) (good t E) (fresh t)"
proof (induction t)
  case (TWord k) show ?case by (rule word_cut)
next
  case (TCast k) show ?case by (rule cast_cut)
next
  case TBool show ?case by (rule bool_cut)
next
  case TStr show ?case by (rule str_cut)
next
  case (TPair a b) then show ?case by (intro pair_cut) simp_all
next
  case (TArr t) then show ?case by (intro arr_cut) simp_all
next
  case (TFix n t) then show ?case by (intro fix_cut) simp_all
next
  case (TSet t)
  then have c: "strict_codec (ser_wr t E) (ser_rd t E) (enc t E) (good t E) (fresh t)" by simp
  show ?case
  proof (rule strict_codecI [OF ser.codec_axioms])
    fix v old and ar :: archive and ys
    assume g: "good (TSet t) E v" and h: "lb_holds (lbuf ar) ys" and p: "strict_prefix ys (enc (TSet t) E v)"
    obtain xs where v: "v = VList xs" "length xs < 2 ^ 32" "\<forall>x \<in> set xs. good t E x" "env_ok E" using g by (auto simp: good_def)
    have fr: "fresh t x" if "good t E x" for x using that TSet.prems overwrites_fresh [of t E x] by (simp add: good_def)
    show "\<exists>x. ser_rd (TSet t) E ar old = throw x"
      using set_cut [OF c fr fresh_default v(2,3,4) h] p v(1) by simp
  qed
next
  case (TMap k t)
  then have c: "strict_codec (fields_wr (ser_wr k E) (ser_wr t E)) (pair_rd E k t (ser_rd k E) (ser_rd t E)) (fields_enc (enc k E) (enc t E))
    (good (TPair k t) E) (fresh (TPair k t))" by (intro map_elem_cut) simp_all
  show ?case
  proof (rule strict_codecI [OF ser.codec_axioms])
    fix v old and ar :: archive and ys
    assume g: "good (TMap k t) E v" and h: "lb_holds (lbuf ar) ys" and p: "strict_prefix ys (enc (TMap k t) E v)"
    obtain xs where v: "v = VList xs" "length xs < 2 ^ 32" "\<forall>x \<in> set xs. good (TPair k t) E x" "env_ok E" using g by (auto simp: good_def)
    have fr: "fresh (TPair k t) x" if "good (TPair k t) E x" for x
      using that TMap.prems overwrites_fresh [of "TPair k t" E x] by (simp add: good_def)
    show "\<exists>x. ser_rd (TMap k t) E ar old = throw x"
      using set_cut [OF c fr fresh_default v(2,3,4) h] p v(1) by simp
  qed
next
  case (TPtr t) then show ?case by (intro ptr_cut) simp_all
qed

interpretation ser_strict: strict_codec "ser_wr t E" "ser_rd t E" "enc t E" "\<lambda>v. strict t \<and> good t E v" "fresh t" for t E
proof -
  show "strict_codec (ser_wr t E) (ser_rd t E) (enc t E) (\<lambda>v. strict t \<and> good t E v) (fresh t)"
  proof (cases "wf_ty t \<and> strict t")
    case True
    then show ?thesis using ser_cut [of t E] by simp
  next
    case False
    then show ?thesis by unfold_locales (auto simp: good_def)
  qed
qed

end
