(* ===== verification/Serializer_Safe.thy ===== *)
theory Serializer_Safe
  imports Serializer_Types
begin

text \<open>
  Reading whatever a buffer may hold: a reader throws or returns a value of its type, from a
  part of the buffer. The contract is a locale, in which the loops over elements are shown to keep it.
\<close>

unbundle bit_operations_syntax

definition reads :: "('a \<Rightarrow> bool) \<Rightarrow> u8 list \<Rightarrow> (archive \<times> 'a) outcome \<Rightarrow> bool" where
  "reads P ys m \<longleftrightarrow> (\<exists>x. m = throw x) \<or> (\<exists>ar v n. m = ret (ar, v) \<and> P v \<and> lb_holds (lbuf ar) (drop n ys))"

lemma reads_throw: "reads P ys (throw x)"
  by (simp add: reads_def)

lemma reads_ret: "P v \<Longrightarrow> lb_holds (lbuf ar) ys \<Longrightarrow> reads P ys (ret (ar, v))"
  unfolding reads_def by (intro disjI2 exI [of _ ar] exI [of _ v] exI [of _ 0]) simp

lemma reads_then:
  assumes "reads P ys m" and f: "\<And>(ar :: archive) v ys. P v \<Longrightarrow> lb_holds (lbuf ar) ys \<Longrightarrow> reads Q ys (f (ar, v))"
  shows "reads Q ys (andthen m f)"
proof -
  consider x where "m = throw x" | ar v n where "m = ret (ar, v)" "P v" "lb_holds (lbuf ar) (drop n ys)"
    using assms(1) by (auto simp: reads_def)
  then show ?thesis
  proof cases
    case 2
    then show ?thesis using f [OF 2(2,3)] by (auto simp: reads_def)
  qed (simp add: reads_throw)
qed

lemma reads_mono: "reads P ys m \<Longrightarrow> (\<And>v. P v \<Longrightarrow> Q v) \<Longrightarrow> reads Q ys m"
  by (auto simp: reads_def)

lemma reads_raise: "reads P ys (errstr msg)"
  by (simp add: errstr_def reads_throw)

subsection \<open>Bytes\<close>

lemma ser_recv_any:
  assumes "lb_holds (lbuf ar) ys"
  shows "\<exists>ar' q k n. ser_recv ar p = ret (ar', q, k) \<and> length q = length p \<and> lb_holds (lbuf ar') (drop n ys)"
proof -
  let ?n = "of_nat (length p) :: size_t"
  have "unat ?n \<le> length p" by (simp add: unsigned_of_nat take_bit_nat_less_eq_self)
  then have "min (unat ?n) (length ys) \<le> length p" by simp
  from lb_recv_ok [OF assms this] this show ?thesis by (force simp: ser_recv_def)
qed

lemma checked_recv_any:
  assumes "lb_holds (lbuf ar) ys"
  shows "reads (\<lambda>q. length q = length p) ys (checked_recv ar p)"
  using ser_recv_any [OF assms, of p] by (auto simp: checked_recv_def reads_def errstr_def)

lemma le_word_high: "8 * length bs \<le> n \<Longrightarrow> \<not> bit (le_word bs) n"
proof (induction bs arbitrary: n)
  case (Cons b bs)
  have "le_word (b # bs) = ucast b OR push_bit 8 (le_word bs)" by (simp add: le_word_def)
  then show ?case using Cons by (auto simp: bit_simps dest: bit_imp_le_length)
qed (simp add: le_word_def)

lemma le_word_less: "length bs \<le> k \<Longrightarrow> unat (le_word bs) < 2 ^ (8 * k)"
proof -
  assume k: "length bs \<le> k"
  then have high: "\<not> bit (le_word bs) n" if "\<not> n < 8 * k" for n using le_word_high [of bs n] that by simp
  have "le_word bs = take_bit (8 * k) (le_word bs)"
    using high by (intro bit_word_eqI) (auto simp: bit_take_bit_iff intro: ccontr)
  then have "unat (le_word bs) = take_bit (8 * k) (unat (le_word bs))" by (metis unsigned_take_bit_eq)
  then show ?thesis by (metis take_bit_nat_less_exp)
qed

text \<open>Types without a \<open>bool\<close>, and those without a \<open>bool\<close> that is read as a part of a block.\<close>

primrec no_bool :: "sty \<Rightarrow> bool" where
  "no_bool (TWord k) \<longleftrightarrow> True"
| "no_bool (TCast k) \<longleftrightarrow> True"
| "no_bool TBool \<longleftrightarrow> False"
| "no_bool TStr \<longleftrightarrow> True"
| "no_bool (TPair a b) \<longleftrightarrow> no_bool a \<and> no_bool b"
| "no_bool (TArr t) \<longleftrightarrow> no_bool t"
| "no_bool (TFix n t) \<longleftrightarrow> no_bool t"
| "no_bool (TSet t) \<longleftrightarrow> no_bool t"
| "no_bool (TMap k t) \<longleftrightarrow> no_bool k \<and> no_bool t"
| "no_bool (TPtr t) \<longleftrightarrow> no_bool t"

primrec no_raw_bool :: "sty \<Rightarrow> bool" where
  "no_raw_bool (TWord k) \<longleftrightarrow> True"
| "no_raw_bool (TCast k) \<longleftrightarrow> True"
| "no_raw_bool TBool \<longleftrightarrow> True"
| "no_raw_bool TStr \<longleftrightarrow> True"
| "no_raw_bool (TPair a b) \<longleftrightarrow> no_raw_bool a \<and> no_raw_bool b \<and> (pod_value a \<and> pod_value b \<longrightarrow> no_bool a \<and> no_bool b)"
| "no_raw_bool (TArr t) \<longleftrightarrow> no_raw_bool t \<and> (pod_value t \<longrightarrow> no_bool t)"
| "no_raw_bool (TFix n t) \<longleftrightarrow> no_raw_bool t \<and> (pod_value t \<longrightarrow> no_bool t)"
| "no_raw_bool (TSet t) \<longleftrightarrow> no_raw_bool t"
| "no_raw_bool (TMap k t) \<longleftrightarrow> no_raw_bool k \<and> no_raw_bool t"
| "no_raw_bool (TPtr t) \<longleftrightarrow> no_raw_bool t"

lemma of_image_typed: "pod_ok t \<Longrightarrow> no_bool t \<Longrightarrow> \<exists>v. of_image t bs = Some v \<and> typed E t v"
proof (induction t arbitrary: bs)
  case (TPair a b)
  then obtain x y where "of_image a bs = Some x" "typed E a x"
    "of_image b (drop (align_up (mem_size a) (mem_align b)) bs) = Some y" "typed E b y"
    by fastforce
  then show ?case by simp
qed (simp_all add: le_word_less)

lemma of_images_typed: "pod_ok t \<Longrightarrow> no_bool t \<Longrightarrow> \<exists>xs. of_images t n bs = Some xs \<and> length xs = n \<and> (\<forall>x \<in> set xs. typed E t x)"
proof (induction n arbitrary: bs)
  case (Suc n)
  obtain x where "of_image t bs = Some x" "typed E t x" using of_image_typed [OF Suc.prems] by blast
  moreover obtain xs where "of_images t n (drop (mem_size t) bs) = Some xs" "length xs = n" "\<forall>x \<in> set xs. typed E t x"
    using Suc.IH [OF Suc.prems] by blast
  ultimately show ?case by simp
qed simp

lemma pod_rd_typed:
  assumes "lb_holds (lbuf ar) ys" "pod_ok t" "no_bool t"
  shows "reads (typed E t) ys (pod_rd E t ar old)"
  unfolding pod_rd_def
proof (rule reads_then [OF checked_recv_any [OF assms(1)]])
  fix ar' :: archive and bs ys
  assume h: "lb_holds (lbuf ar') ys"
  obtain v where "of_image t bs = Some v" "typed E t v" using of_image_typed [OF assms(2,3)] by blast
  then show "reads (typed E t) ys (case (ar', bs) of (ar, bs) \<Rightarrow> nothrow (map_option (Pair ar) (of_image t bs)))"
    using h by (simp add: reads_ret)
qed

lemma num_rd_any:
  assumes "lb_holds (lbuf ar) ys"
  shows "reads (\<lambda>_. True) ys (num_rd E ar)"
  unfolding num_rd_def by (rule reads_then [OF pod_rd_typed [OF assms]]) (simp_all add: reads_ret)

subsection \<open>Elements\<close>

lemma set_insert_set: "set (set_insert lt v xs) \<subseteq> insert v (set xs)"
  by (induction xs) auto

lemma set_insert_length: "length (set_insert lt v xs) \<le> Suc (length xs)"
  by (induction xs) auto

lemma set_insert_sorted:
  assumes "\<And>x y z. lt x y \<Longrightarrow> lt y z \<Longrightarrow> lt x z"
  shows "sorted_wrt lt xs \<Longrightarrow> sorted_wrt lt (set_insert lt v xs)"
proof (induction xs)
  case (Cons x xs)
  then show ?case using assms set_insert_set [of lt v xs] by auto
qed simp

locale safe_reader =
  fixes rd :: "archive \<Rightarrow> sval \<Rightarrow> (archive \<times> sval) outcome"
    and good :: "sval \<Rightarrow> bool"
    and fresh :: "sval \<Rightarrow> bool"
  assumes rd_safe: "fresh old \<Longrightarrow> lb_holds (lbuf ar) ys \<Longrightarrow> reads good ys (rd ar old)"
begin

lemma elems_rd_safe:
  "\<forall>x \<in> set olds. fresh x \<Longrightarrow> lb_holds (lbuf ar) ys \<Longrightarrow>
    reads (\<lambda>xs. length xs = length olds \<and> (\<forall>x \<in> set xs. good x)) ys (elems_rd rd ar olds)"
proof (induction olds arbitrary: ar ys)
  case (Cons old olds)
  have "reads good ys (rd ar old)" using rd_safe Cons.prems by simp
  then show ?case
    unfolding elems_rd.simps
  proof (rule reads_then)
    fix ar1 :: archive and x ys assume x: "good x" and h: "lb_holds (lbuf ar1) ys"
    have "reads (\<lambda>xs. length xs = length olds \<and> (\<forall>x \<in> set xs. good x)) ys (elems_rd rd ar1 olds)"
      using Cons.IH [OF _ h] Cons.prems by simp
    then show "reads (\<lambda>xs. length xs = length (old # olds) \<and> (\<forall>x \<in> set xs. good x)) ys
        (case (ar1, x) of (ar, y) \<Rightarrow> andthen (elems_rd rd ar olds) (\<lambda>(ar, ys). ret (ar, y # ys)))"
      unfolding prod.case by (rule reads_then) (use x in \<open>auto intro!: reads_ret\<close>)
  qed
qed (simp add: reads_ret)

lemma set_loop_safe:
  assumes all: "\<And>x. good x \<Longrightarrow> fresh x" and trans: "\<And>x y z. lt x y \<Longrightarrow> lt y z \<Longrightarrow> lt x z"
  shows "fresh v \<Longrightarrow> \<forall>x \<in> set acc. good x \<Longrightarrow> sorted_wrt lt acc \<Longrightarrow> lb_holds (lbuf ar) ys \<Longrightarrow>
    reads (\<lambda>xs. length xs \<le> length acc + n \<and> (\<forall>x \<in> set xs. good x) \<and> sorted_wrt lt xs) ys (set_loop lt rd n ar v acc)"
proof (induction n arbitrary: ar v acc ys)
  case (Suc n)
  have "reads good ys (rd ar v)" using rd_safe Suc.prems by simp
  then show ?case
    unfolding set_loop.simps
  proof (rule reads_then)
    fix ar1 :: archive and x ys assume x: "good x" and h: "lb_holds (lbuf ar1) ys"
    let ?acc = "set_insert lt x acc"
    have "\<forall>y \<in> set ?acc. good y" "sorted_wrt lt ?acc" "length ?acc \<le> Suc (length acc)"
      using set_insert_set [of lt x acc] x Suc.prems(2,3) set_insert_sorted [of lt, OF trans] set_insert_length [of lt x acc] by auto
    from Suc.IH [OF all [OF x] this(1,2) h] this(3)
    show "reads (\<lambda>xs. length xs \<le> length acc + Suc n \<and> (\<forall>x \<in> set xs. good x) \<and> sorted_wrt lt xs) ys
        (case (ar1, x) of (ar, v) \<Rightarrow> set_loop lt rd n ar v (set_insert lt v acc))"
      unfolding prod.case by (elim reads_mono) auto
  qed
qed (simp add: reads_ret)

end

subsection \<open>The types\<close>

abbreviation safe :: "sty \<Rightarrow> ser_env \<Rightarrow> bool" where
  "safe t E \<equiv> safe_reader (ser_rd t E) (typed E t) (fresh t)"

lemma handler_safe:
  assumes r: "safe_reader r (typed E t) (fresh t)" and t: "wf_ty t" "pod_value t \<longrightarrow> no_bool t"
    and olds: "\<forall>x \<in> set olds. fresh t x" and h: "lb_holds (lbuf ar) ys"
  shows "reads (\<lambda>xs. length xs = length olds \<and> (\<forall>x \<in> set xs. typed E t x)) ys (arr_handler_rd E t r ar olds)"
proof (cases "pod_value t")
  case True
  obtain ar' q k n where q: "ser_recv ar (images E t olds) = ret (ar', q, k)" "lb_holds (lbuf ar') (drop n ys)"
    using ser_recv_any [OF h] by blast
  obtain xs where "of_images t (length olds) q = Some xs" "length xs = length olds" "\<forall>x \<in> set xs. typed E t x"
    using of_images_typed [OF wf_pod_value [OF t(1) True]] t(2) True by blast
  with True q show ?thesis by (auto simp: arr_handler_rd_def reads_def)
next
  case False
  then show ?thesis using safe_reader.elems_rd_safe [OF r olds h] by (simp add: arr_handler_rd_def)
qed

lemma arr_safe:
  assumes r: "safe_reader r (typed E t) (fresh t)" and t: "wf_ty t" "pod_value t \<longrightarrow> no_bool t"
  shows "safe_reader (arr_rd E t r) (typed E (TArr t)) (fresh (TArr t))"
proof
  fix old and ar :: archive and ys
  assume f: "fresh (TArr t) old" and h: "lb_holds (lbuf ar) ys"
  show "reads (typed E (TArr t)) ys (arr_rd E t r ar old)"
    unfolding arr_rd_def
  proof (rule reads_then [OF num_rd_any [OF h]])
    fix ar1 :: archive and n :: u32 and ys assume h1: "lb_holds (lbuf ar1) ys"
    let ?olds = "take (unat n) (list_of old) @ replicate (unat n - length (list_of old)) (default t)"
    have l: "length ?olds = unat n" by simp
    have "reads (typed E (TArr t)) ys (andthen (arr_handler_rd E t r ar1 ?olds) (\<lambda>(ar, xs). ret (ar, VList xs)))"
      by (rule reads_then [OF handler_safe [OF r t resize_fresh [OF f] h1]]) (use l u32_unat [of n] in \<open>auto intro!: reads_ret\<close>)
    then show "reads (typed E (TArr t)) ys (case (ar1, n) of (ar, n) \<Rightarrow>
       if \<not> can_alloc E (unat n) then throw XBadAlloc
       else let xs = take (unat n) (list_of old) @ replicate (unat n - length (list_of old)) (default t) in
       if n = 0 then ret (ar, VList []) else andthen (arr_handler_rd E t r ar xs) (\<lambda>(ar, xs). ret (ar, VList xs)))"
      unfolding prod.case Let_def using h1 by (auto intro: reads_throw reads_ret)
  qed
qed

lemma fix_safe:
  assumes r: "safe_reader r (typed E t) (fresh t)" and t: "wf_ty t" "pod_value t \<longrightarrow> no_bool t"
  shows "safe_reader (fix_rd E n t r) (typed E (TFix n t)) (fresh (TFix n t))"
proof
  fix old and ar :: archive and ys
  assume f: "fresh (TFix n t) old" and h: "lb_holds (lbuf ar) ys"
  show "reads (typed E (TFix n t)) ys (fix_rd E n t r ar old)"
    unfolding fix_rd_def
  proof (rule reads_then [OF num_rd_any [OF h]])
    fix ar1 :: archive and m :: u32 and ys assume h1: "lb_holds (lbuf ar1) ys"
    have o: "length (list_of old) = n" "\<forall>x \<in> set (list_of old). fresh t x" using f by simp_all
    have "reads (typed E (TFix n t)) ys (andthen (arr_handler_rd E t r ar1 (list_of old)) (\<lambda>(ar, xs). ret (ar, VList xs)))"
      by (rule reads_then [OF handler_safe [OF r t o(2) h1]]) (use o in \<open>auto intro!: reads_ret\<close>)
    then show "reads (typed E (TFix n t)) ys (case (ar1, m) of (ar, m) \<Rightarrow>
       if m \<noteq> of_nat n then errstr ''invalid_array_size''
       else andthen (arr_handler_rd E t r ar (list_of old)) (\<lambda>(ar, xs). ret (ar, VList xs)))"
      unfolding prod.case by (simp add: reads_raise)
  qed
qed

lemma set_safe:
  assumes r: "safe_reader r g f" and all: "\<And>x. g x \<Longrightarrow> f x" and v0: "f v0"
    and trans: "\<And>x y z. lt x y \<Longrightarrow> lt y z \<Longrightarrow> lt x z"
    and F: "\<And>v. F v \<Longrightarrow> list_of v = []"
    and G: "\<And>xs. length xs < 2 ^ 32 \<Longrightarrow> \<forall>x \<in> set xs. g x \<Longrightarrow> sorted_wrt lt xs \<Longrightarrow> G (VList xs)"
  shows "safe_reader (set_rd E lt v0 r) G F"
proof
  fix old and ar :: archive and ys
  assume f: "F old" and h: "lb_holds (lbuf ar) ys"
  show "reads G ys (set_rd E lt v0 r ar old)"
    unfolding set_rd_def F [OF f]
  proof (rule reads_then [OF num_rd_any [OF h]])
    fix ar1 :: archive and n :: u32 and ys assume h1: "lb_holds (lbuf ar1) ys"
    have "reads (\<lambda>xs. length xs \<le> unat n \<and> (\<forall>x \<in> set xs. g x) \<and> sorted_wrt lt xs) ys (set_loop lt r (unat n) ar1 v0 [])"
      using safe_reader.set_loop_safe [OF r all trans v0 _ _ h1, where acc = "[]"] by simp
    then show "reads G ys (case (ar1, n) of (ar, n) \<Rightarrow> andthen (set_loop lt r (unat n) ar v0 []) (\<lambda>(ar, xs). ret (ar, VList xs)))"
      unfolding prod.case by (rule reads_then) (use G u32_unat [of n] in \<open>auto intro!: reads_ret elim: le_less_trans\<close>)
  qed
qed

lemma fields_safe:
  assumes a: "safe_reader ra (typed E a) (fresh a)" and b: "safe_reader rb (typed E b) (fresh b)"
  shows "safe_reader (fields_rd ra rb) (typed E (TPair a b)) (fresh (TPair a b))"
proof
  fix old and ar :: archive and ys
  assume f: "fresh (TPair a b) old" and h: "lb_holds (lbuf ar) ys"
  have f: "fresh a (fst_of old)" "fresh b (snd_of old)" using f by simp_all
  show "reads (typed E (TPair a b)) ys (fields_rd ra rb ar old)"
    unfolding fields_rd_def
  proof (rule reads_then [OF safe_reader.rd_safe [OF a f(1) h]])
    fix ar1 :: archive and x ys assume x: "typed E a x" and h1: "lb_holds (lbuf ar1) ys"
    show "reads (typed E (TPair a b)) ys (case (ar1, x) of (ar, x) \<Rightarrow> andthen (rb ar (snd_of old)) (\<lambda>(ar, y). ret (ar, VPair x y)))"
      unfolding prod.case by (rule reads_then [OF safe_reader.rd_safe [OF b f(2) h1]]) (use x in \<open>auto intro!: reads_ret\<close>)
  qed
qed

lemma pair_safe:
  assumes a: "safe_reader ra (typed E a) (fresh a)" and b: "safe_reader rb (typed E b) (fresh b)"
    and p: "pod_value a \<and> pod_value b \<Longrightarrow> pod_ok (TPair a b) \<and> no_bool (TPair a b)"
  shows "safe_reader (pair_rd E a b ra rb) (typed E (TPair a b)) (fresh (TPair a b))"
proof (cases "pod_value a \<and> pod_value b")
  case True
  then show ?thesis using pod_rd_typed p [OF True] by unfold_locales (simp add: pair_rd_def)
next
  case False
  have "pair_rd E a b ra rb = fields_rd ra rb" by (intro ext) (simp only: pair_rd_def False if_False)
  then show ?thesis using fields_safe [OF a b] by simp
qed

lemma map_safe:
  assumes k: "safe k E" and t: "safe t E" and ty: "wf_ty (TMap k t)" "no_raw_bool (TMap k t)"
    and trans: "\<And>t x y z. less_than E t x y \<Longrightarrow> less_than E t y z \<Longrightarrow> less_than E t x z"
  shows "safe (TMap k t) E"
proof -
  have "pod_value k \<and> pod_value t \<Longrightarrow> pod_ok (TPair k t) \<and> no_bool (TPair k t)"
    using ty(1) by auto
  from pair_safe [OF k t this] have p: "safe_reader (pair_rd E k t (ser_rd k E) (ser_rd t E)) (typed E (TPair k t)) (fresh (TPair k t))" .
  have "overwrites (TPair k t)" using ty(1) by simp
  from overwrites_fresh [OF this] have "fresh (TPair k t) x" if "typed E (TPair k t) x" for x using that by blast
  moreover have "key_less E k x z" if "key_less E k x y" "key_less E k y z" for x y z
    using that trans [of k "fst_of x" "fst_of y" "fst_of z"] by (simp add: key_less_def)
  moreover have "typed E (TMap k t) (VList xs)"
    if "length xs < 2 ^ 32" "\<forall>x \<in> set xs. typed E (TPair k t) x" "sorted_wrt (key_less E k) xs" for xs
    using that by simp
  ultimately show ?thesis unfolding ser_rd.simps
    using set_safe [OF p _ fresh_default, where lt = "key_less E k" and F = "fresh (TMap k t)" and G = "typed E (TMap k t)"] by simp
qed

lemma ser_rd_safe:
  assumes trans: "\<And>t x y z. less_than E t x y \<Longrightarrow> less_than E t y z \<Longrightarrow> less_than E t x z"
  shows "wf_ty t \<Longrightarrow> no_raw_bool t \<Longrightarrow> safe t E"
proof (induction t)
  case (TWord k)
  then have "reads (typed E (TWord k)) ys (pod_rd E (TWord k) ar old)" if "lb_holds (lbuf ar) ys" for ar ys old
    using pod_rd_typed [OF that, where t = "TWord k"] by simp
  then show ?case by unfold_locales (simp add: cast_rd_def del: typed.simps fresh.simps)
next
  case (TCast k)
  then have "reads (typed E (TCast k)) ys (pod_rd E (TWord k) ar (VWord 0))" if "lb_holds (lbuf ar) ys" for ar ys
    by (intro reads_mono [OF pod_rd_typed [OF that, where t = "TWord k"]]) auto
  then show ?case by unfold_locales (simp add: cast_rd_def del: typed.simps)
next
  case TBool
  have "reads (typed E TBool) ys (bool_rd E ar)" if "lb_holds (lbuf ar) ys" for ar ys
    unfolding bool_rd_def by (rule reads_then [OF pod_rd_typed [OF that]]) (auto intro!: reads_ret)
  then show ?case by unfold_locales (simp add: cast_rd_def del: typed.simps fresh.simps)
next
  case TStr
  have "reads (typed E TStr) ys (str_rd E ar)" if "lb_holds (lbuf ar) ys" for ar ys
    unfolding str_rd_def
  proof (rule reads_then [OF num_rd_any [OF that]])
    fix ar1 :: archive and n :: u32 and ys assume h: "lb_holds (lbuf ar1) ys"
    have "reads (typed E TStr) ys (andthen (checked_recv ar1 (replicate (unat n) 0)) (\<lambda>(ar, s). ret (ar, VStr s)))"
      by (rule reads_then [OF checked_recv_any [OF h]]) (use u32_unat [of n] in \<open>auto intro!: reads_ret\<close>)
    then show "reads (typed E TStr) ys (case (ar1, n) of (ar, n) \<Rightarrow>
        if \<not> can_alloc E (unat n) then throw XBadAlloc
        else andthen (checked_recv ar (replicate (unat n) 0)) (\<lambda>(ar, s). ret (ar, VStr s)))"
      by (simp add: reads_throw)
  qed
  then show ?case by unfold_locales (simp add: cast_rd_def del: typed.simps fresh.simps)
next
  case (TPair a b)
  then show ?case using pair_safe [of "ser_rd a E" E a "ser_rd b E" b] wf_pod_value by (simp del: typed.simps fresh.simps)
next
  case (TArr t)
  then show ?case using arr_safe [of "ser_rd t E" E t] by (simp del: typed.simps fresh.simps)
next
  case (TFix n t)
  then show ?case using fix_safe [of "ser_rd t E" E t n] by (simp del: typed.simps fresh.simps)
next
  case (TSet t)
  then have "safe t E" and o: "overwrites t" by simp_all
  moreover have "fresh t x" if "typed E t x" for x using overwrites_fresh [OF o that] .
  moreover have "typed E (TSet t) (VList xs)"
    if "length xs < 2 ^ 32" "\<forall>x \<in> set xs. typed E t x" "sorted_wrt (less_than E t) xs" for xs
    using that by simp
  ultimately show ?case unfolding ser_rd.simps
    by (intro set_safe [where f = "fresh t"]) (auto simp: fresh_default intro: trans)
next
  case (TMap k t)
  then show ?case using map_safe [OF _ _ TMap.prems trans] by (simp del: typed.simps fresh.simps)
next
  case (TPtr t)
  then have t: "safe t E" by simp
  have "reads (typed E (TPtr t)) ys (ptr_rd E t (ser_rd t E) ar)" if "lb_holds (lbuf ar) ys" for ar ys
    unfolding ptr_rd_def
  proof (rule reads_then [OF num_rd_any [OF that]])
    fix ar1 :: archive and tag :: u32 and ys assume h: "lb_holds (lbuf ar1) ys"
    have "reads (typed E (TPtr t)) ys (andthen (ser_rd t E ar1 (default t)) (\<lambda>(ar, x). ret (ar, VPtr (Some x))))"
      by (rule reads_then [OF safe_reader.rd_safe [OF t fresh_default h]]) (auto intro!: reads_ret)
    then show "reads (typed E (TPtr t)) ys (case (ar1, tag) of (ar, tag) \<Rightarrow>
        if tag = PTRTAG_NIL then ret (ar, VPtr None) else if tag \<noteq> ser_type t then errstr ''INVALID_POINTER_TYPE''
        else andthen (ser_rd t E ar (default t)) (\<lambda>(ar, x). ret (ar, VPtr (Some x))))"
      using h by (simp add: reads_raise reads_ret)
  qed
  then show ?case by unfold_locales (simp add: cast_rd_def del: typed.simps fresh.simps)
qed

definition order_trans_env :: "ser_env \<Rightarrow> bool" where
  "order_trans_env E \<longleftrightarrow> (\<forall>t x y z. less_than E t x y \<longrightarrow> less_than E t y z \<longrightarrow> less_than E t x z)"

interpretation ser_safe: safe_reader "ser_rd t E" "typed E t" "\<lambda>old. order_trans_env E \<and> wf_ty t \<and> no_raw_bool t \<and> fresh t old" for t E
proof
  fix old and ar :: archive and ys
  assume "order_trans_env E \<and> wf_ty t \<and> no_raw_bool t \<and> fresh t old" "lb_holds (lbuf ar) ys"
  then show "reads (typed E t) ys (ser_rd t E ar old)"
    using safe_reader.rd_safe [OF ser_rd_safe, of E t old ar ys] by (auto simp: order_trans_env_def)
qed

end
