(* ===== verification/Serializer_Theorems.thy ===== *)
theory Serializer_Theorems
  imports Serializer_Cut Serializer_Safe
begin

text \<open>The properties of the serializer.\<close>

subsection \<open>Round trip\<close>

text \<open>\<open>ar << x1 << x2 ...\<close> and \<open>ar >> x1 >> x2 ...\<close>.\<close>

fun wr_all :: "ser_env \<Rightarrow> archive \<Rightarrow> (sty \<times> sval) list \<Rightarrow> archive outcome" where
  "wr_all E ar [] = ret ar"
| "wr_all E ar ((t, v) # xs) = andthen (ser_wr t E ar v) (\<lambda>ar. wr_all E ar xs)"

fun rd_all :: "ser_env \<Rightarrow> archive \<Rightarrow> (sty \<times> sval) list \<Rightarrow> (archive \<times> sval list) outcome" where
  "rd_all E ar [] = ret (ar, [])"
| "rd_all E ar ((t, old) # xs) = andthen (ser_rd t E ar old) (\<lambda>(ar, v). andthen (rd_all E ar xs) (\<lambda>(ar, vs). ret (ar, v # vs)))"

definition enc_all :: "ser_env \<Rightarrow> (sty \<times> sval) list \<Rightarrow> u8 list" where
  "enc_all E xs = concat (map (\<lambda>(t, v). enc t E v) xs)"

lemma wr_all_ok:
  "\<forall>(t, v) \<in> set xs. good t E v \<Longrightarrow> ready ar \<Longrightarrow> room ar (length (enc_all E xs)) \<Longrightarrow>
    \<exists>ar'. wr_all E ar xs = ret ar' \<and> sent ar (enc_all E xs) ar'"
proof (induction xs arbitrary: ar)
  case (Cons x xs)
  obtain t v where x: "x = (t, v)" by force
  have "room ar (length (enc t E v))" by (rule room_less [OF Cons.prems(3)]) (simp add: enc_all_def x)
  then obtain ar1 where 1: "ser_wr t E ar v = ret ar1" "sent ar (enc t E v) ar1"
    using ser.wr_ok [of t E v ar] Cons.prems x by auto
  have "room ar1 (length (enc_all E xs))" using sent_room [OF 1(2)] Cons.prems(3) x by (simp add: enc_all_def)
  then obtain ar2 where "wr_all E ar1 xs = ret ar2" "sent ar1 (enc_all E xs) ar2"
    using Cons.IH [of ar1] sent_ready [OF 1(2)] Cons.prems by auto
  with 1 x show ?case using sent_trans by (fastforce simp: enc_all_def)
qed (simp add: enc_all_def sent_nil)

lemma rd_all_ok:
  "\<forall>(t, v) \<in> set xs. good t E v \<Longrightarrow> list_all2 (\<lambda>(t, v) old. fresh t old) xs olds \<Longrightarrow> lb_holds (lbuf ar) (enc_all E xs @ ys) \<Longrightarrow>
    \<exists>ar'. rd_all E ar (zip (map fst xs) olds) = ret (ar', map snd xs) \<and> got ar ys ar'"
proof (induction xs arbitrary: ar olds)
  case (Cons x xs)
  obtain t v where x: "x = (t, v)" by force
  obtain old olds' where o: "olds = old # olds'" "fresh t old" "list_all2 (\<lambda>(t, v) old. fresh t old) xs olds'"
    using Cons.prems(2) x by (auto simp: list_all2_Cons1)
  obtain ar1 where 1: "ser_rd t E ar old = ret (ar1, v)" "got ar (enc_all E xs @ ys) ar1"
    using ser.rd_ok [of t E v old ar "enc_all E xs @ ys"] Cons.prems x o(2) by (auto simp: enc_all_def)
  obtain ar2 where "rd_all E ar1 (zip (map fst xs) olds') = ret (ar2, map snd xs)" "got ar1 ys ar2"
    using Cons.IH [OF _ o(3) got_holds [OF 1(2)]] Cons.prems by auto
  with 1 x o(1) show ?case using got_trans by fastforce
qed (simp add: enc_all_def got_here)


text \<open>A serializer with a fresh buffer, on a platform whose padding bytes are 0; sets are ordered by
  the words in them.\<close>

definition ex_env :: ser_env where
  "ex_env = \<lparr>can_alloc = (\<lambda>_. True), padding = (\<lambda>_. 0), less_than = (\<lambda>_ x y. word_of x < word_of y)\<rparr>"

definition new_archive :: archive where
  "new_archive = \<lparr>lbuf = lb_new, rd_flags = 0, wr_flags = 0\<rparr>"

lemma new_archive_facts: "lb_holds (lbuf new_archive) []" "\<not> flags_get (wr_flags new_archive) f"
    "room new_archive k \<longleftrightarrow> k \<le> 2 ^ 61"
  by (simp_all add: new_archive_def lb_new_holds flags_get_def room_def lb_new_tape(2)) (simp add: lb_new_def)

lemma ex_env_facts: "\<forall>k. can_alloc ex_env k" "\<forall>t x y. less_than ex_env t x y \<longrightarrow> \<not> less_than ex_env t y x"
  by (auto simp: ex_env_def)



subsection \<open>Truncated input\<close>

lemma le_bytes_numeral: "le_bytes (numeral n) w = ucast w # le_bytes (pred_numeral n) (drop_bit 8 w)"
  by (simp only: numeral_eq_Suc le_bytes_Suc)

lemma le_bytes_0: "le_bytes 0 w = []"
  by (simp add: le_bytes_def)

lemma images_append: "images E t (xs @ ys) = images E t xs @ images E t ys"
  by (simp add: images_def)

lemma typed_default: "pod_ok t \<Longrightarrow> typed E t (default t)"
  by (induction t) auto

text \<open>What an array of plain data reads from the first \<open>m\<close> of its elements.\<close>

lemma arr_truncated:
  assumes t: "pod_value t" "pod_ok t" "length xs < 2 ^ 32" "length xs * mem_size t < 2 ^ 64"
    and xs: "\<forall>x \<in> set xs. typed E t x" and E: "env_ok E" and m: "m < length xs" "0 < mem_size t"
    and h: "lb_holds (lbuf ar) (enc_num (of_nat (length xs)) @ images E t (take m xs))"
  shows "\<exists>ar'. ser_rd (TArr t) E ar (VList []) = ret (ar', VList (take m xs @ replicate (length xs - m) (default t)))"
proof -
  let ?zs = "replicate (length xs) (default t)" and ?ys = "take m xs @ replicate (length xs - m) (default t)"
  have "\<exists>ar'. andthen (num_rd E ar) (\<lambda>(ar, n). if \<not> can_alloc E (unat n) then throw XBadAlloc
       else let xs = take (unat n) (list_of (VList [])) @ replicate (unat n - length (list_of (VList []))) (default t) in
       if n = 0 then ret (ar, VList []) else andthen (arr_handler_rd E t (ser_rd t E) ar xs) (\<lambda>(ar, xs). ret (ar, VList xs))) =
     ret (ar', VList ?ys) \<and> got ar [] ar'"
  proof (rule rd_then [OF E h])
    fix ar1 :: archive assume h1: "lb_holds (lbuf ar1) (images E t (take m xs))"
    have "length (images E t (take m xs)) < length (images E t ?zs)" "length (images E t ?zs) < 2 ^ 64"
      using m t by (simp_all add: length_images)
    then obtain ar2 where r: "ser_recv ar1 (images E t ?zs) = ret (ar2, images E t (take m xs) @ drop (length (images E t (take m xs))) (images E t ?zs),
        of_nat (length (images E t (take m xs))))" "got ar1 [] ar2"
      using ser_recv_short [OF h1] by blast
    have "?zs = replicate m (default t) @ replicate (length xs - m) (default t)" using m(1) by (simp flip: replicate_add)
    then have "drop (length (images E t (take m xs))) (images E t ?zs) = images E t (replicate (length xs - m) (default t))"
      using m(1) t(2) by (simp add: images_append length_images)
    moreover have "of_images t (length ?ys) (images E t ?ys) = Some ?ys"
      by (rule of_images_images [OF t(2)]) (use xs typed_default [OF t(2)] in \<open>auto dest: in_set_takeD\<close>)
    ultimately have "arr_handler_rd E t (ser_rd t E) ar1 ?zs = ret (ar2, ?ys)"
      using r(1) t(1) m(1) by (simp add: arr_handler_rd_def images_append)
    then show "\<exists>ar'. (case (ar1, of_nat (length xs) :: u32) of (ar, n) \<Rightarrow> if \<not> can_alloc E (unat n) then throw XBadAlloc
       else let xs = take (unat n) (list_of (VList [])) @ replicate (unat n - length (list_of (VList []))) (default t) in
       if n = 0 then ret (ar, VList []) else andthen (arr_handler_rd E t (ser_rd t E) ar xs) (\<lambda>(ar, xs). ret (ar, VList xs))) =
     ret (ar', VList ?ys) \<and> got ar1 [] ar'"
      unfolding prod.case of_nat_num [OF t(3)] num_zero [OF t(3)] length_0_conv Let_def
      using E m(1) r(2) by (auto simp: env_ok_def)
  qed
  then show ?thesis unfolding ser_rd.simps arr_rd_def by blast
qed


text \<open>A serializer whose buffer is a block that holds given bytes.\<close>

definition archive_with :: "u8 list \<Rightarrow> archive" where
  "archive_with bs = new_archive\<lparr>lbuf := (lb_assign lb_new bs)\<lparr>lb_wr := of_nat (length bs)\<rparr>\<rparr>"

lemma archive_with_holds: "length bs < 2 ^ 64 \<Longrightarrow> lb_holds (lbuf (archive_with bs)) bs"
  by (simp add: archive_with_def lb_holds_def lb_ok_def lb_assign_def lb_mem_def unsigned_of_nat take_bit_nat_eq_self)

lemma ex_env_ok: "env_ok ex_env"
  using ex_env_facts by (simp add: env_ok_def)



subsection \<open>Maps with padding, sets of sets, tags\<close>

text \<open>A map with plain keys and values is written key by value and read as an array of \<open>pair\<close>s. If these
  have padding its reader asks for more than is there.\<close>

lemma map_padding_rd:
  assumes E: "env_ok E" and p: "pod_value k" "pod_value t" "pod_ok k" "pod_ok t" and m: "mem_size (TPair k t) < 2 ^ 64"
    and h: "lb_holds (lbuf ar) (enc_num 1 @ bs)" and l: "length bs < mem_size (TPair k t)"
  shows "\<exists>x. ser_rd (TMap k t) E ar old = throw x"
proof -
  obtain ar1 where 1: "num_rd E ar = ret (ar1, 1)" "got ar bs ar1" using num_rd_ok [OF E h] by blast
  obtain x where "pod_rd E (TPair k t) ar1 (default (TPair k t)) = throw x"
    using pod_cut [OF _ m got_holds [OF 1(2)] l, of E "default (TPair k t)"] p by auto
  then show ?thesis using 1 p by (simp add: set_rd_def pair_rd_def)
qed

text \<open>A map with one entry, from integers of \<open>a\<close> bytes to integers of \<open>b\<close> bytes (or \<open>float\<close>,
  \<open>double\<close>), is always written; what has been written can be read back when \<open>a = b\<close>, otherwise the
  reader throws.\<close>

theorem serializer_map_padding:
  assumes e: "env_ok E" and ab: "a \<in> {1, 2, 4, 8}" "b \<in> {1, 2, 4, 8}" and v: "typed E (TWord a) x" "typed E (TWord b) y"
    and ar: "ready ar" "room ar 20" "lb_holds (lbuf ar) []"
  shows "\<exists>ar1. ser_wr (TMap (TWord a) (TWord b)) E ar (VList [VPair x y]) = ret ar1 \<and>
    (if a = b then \<exists>ar2. ser_rd (TMap (TWord a) (TWord b)) E ar1 (VList []) = ret (ar2, VList [VPair x y])
     else \<exists>exn. ser_rd (TMap (TWord a) (TWord b)) E ar1 (VList []) = throw exn)"
proof -
  let ?bs = "fields_enc (enc (TWord a) E) (enc (TWord b) E) (VPair x y)"
  have g: "good (TWord a) E x" "good (TWord b) E y" using e ab v by (auto simp: good_def)
  have l: "length ?bs = a + b" by (simp add: fields_enc_def)
  have w: "ser_wr (TMap (TWord a) (TWord b)) E ar (VList [VPair x y]) =
      andthen (num_wr E ar 1) (\<lambda>ar. fields_wr (ser_wr (TWord a) E) (ser_wr (TWord b) E) ar (VPair x y))"
    by (simp add: set_wr_def andthen_def fields_wr_def split: option.splits sum.splits bind_splits)
  have "\<exists>ar1. ser_wr (TMap (TWord a) (TWord b)) E ar (VList [VPair x y]) = ret ar1 \<and> sent ar (enc_num 1 @ ?bs) ar1"
    unfolding w
  proof (rule wr_then [OF e ar(1)])
    show "room ar (length (enc_num 1 @ ?bs))" using ab l by (intro room_less [OF ar(2)]) auto
    show "\<exists>ar'. fields_wr (ser_wr (TWord a) E) (ser_wr (TWord b) E) ar1 (VPair x y) = ret ar' \<and> sent ar1 ?bs ar'"
      if "ready ar1" "room ar1 (length ?bs)" for ar1 :: archive
      by (rule fields_wr_ok [OF ser.codec_axioms ser.codec_axioms refl g that])
  qed
  then obtain ar1 where ar1: "ser_wr (TMap (TWord a) (TWord b)) E ar (VList [VPair x y]) = ret ar1" "sent ar (enc_num 1 @ ?bs) ar1" by blast
  then have h: "lb_holds (lbuf ar1) (enc_num 1 @ ?bs)" using ar(3) by (fastforce simp: sent_def)
  show ?thesis
  proof (cases "a = b")
    case True
    have "good (TMap (TWord a) (TWord b)) E (VList [VPair x y])" using True g by (auto simp: good_def)
    moreover have "enc (TMap (TWord a) (TWord b)) E (VList [VPair x y]) = enc_num 1 @ ?bs" by simp
    ultimately show ?thesis using ser.rd_ok [of "TMap (TWord a) (TWord b)" E "VList [VPair x y]" "VList []" ar1 "[]"] h ar1 True by auto
  next
    case False
    have sz: "a + b < mem_size (TPair (TWord a) (TWord b)) \<and> mem_size (TPair (TWord a) (TWord b)) < 2 ^ 64"
      using ab False by (auto simp: align_up_def simp flip: numeral_2_eq_2)
    have p: "pod_value (TWord a)" "pod_value (TWord b)" "pod_ok (TWord a)" "pod_ok (TWord b)" using ab by (simp_all add: pod_value_def)
    have "length ?bs < mem_size (TPair (TWord a) (TWord b))" unfolding l using sz by (rule conjunct1)
    then have "\<exists>exn. ser_rd (TMap (TWord a) (TWord b)) E ar1 (VList []) = throw exn"
      by (rule map_padding_rd [OF e p conjunct2 [OF sz] h])
    then show ?thesis unfolding if_not_P [OF False] using ar1(1) by blast
  qed
qed

lemma ex_ready: "ready new_archive"
  using new_archive_facts by (auto simp: ready_def)

lemma serializer_map_padding_witness:
  "\<exists>ar exn. ser_wr (TMap (TWord 4) (TWord 8)) ex_env new_archive (VList [VPair (VWord 1) (VWord 2)]) = ret ar \<and>
    ser_rd (TMap (TWord 4) (TWord 8)) ex_env ar (VList []) = throw exn"
  using serializer_map_padding [OF ex_env_ok, of 4 8 "VWord 1" "VWord 2" new_archive] ex_ready new_archive_facts by auto

text \<open>A set that is read into, or the variable that is read into again for the next element of a set, is
  not cleared: with the elements \<open>{1}\<close> and \<open>{2}\<close>, a set of sets comes back as \<open>{{1}, {1, 2}}\<close>.\<close>

lemma set_rd_merges:
  assumes e: "env_ok E" and g: "good t E x" and t: "overwrites t" and h: "lb_holds (lbuf ar) (enc (TSet t) E (VList [x]))"
  shows "\<exists>ar'. ser_rd (TSet t) E ar (VList ys) = ret (ar', VList (set_insert (less_than E t) x ys))"
proof -
  have h': "lb_holds (lbuf ar) (enc_num 1 @ enc t E x)" using h by simp
  obtain ar1 where 1: "num_rd E ar = ret (ar1, 1)" "got ar (enc t E x) ar1" using num_rd_ok [OF e h'] by blast
  obtain ar2 where "ser_rd t E ar1 (default t) = ret (ar2, x)"
    using ser.rd_ok [OF g fresh_default, of ar1 "[]"] got_holds [OF 1(2)] by auto
  then show ?thesis using 1 by (simp add: set_rd_def)
qed

text \<open>The reader of one-character tags throws exactly when the tag is the expected one.\<close>

lemma tag_char_inverted:
  assumes "lb_holds (lbuf ar) (c # ys)"
  shows "if d = c then tag_char_rd ar d = throw (XError ''invalid_tag'') else \<exists>ar'. tag_char_rd ar d = ret ar' \<and> got ar ys ar'"
proof -
  obtain ar' where "checked_recv ar [0] = ret (ar', [c])" "got ar ys ar'" using checked_recv_ok [of ar "[c]" ys "[0]"] assms by auto
  moreover from this(1) have "tag_char_rd ar d = (if d = c then throw (XError ''invalid_tag'') else ret ar')"
    by (auto simp: tag_char_rd_def errstr_def)
  ultimately show ?thesis by auto
qed

lemma takeWhile_nonzero: "0 \<notin> set msg \<Longrightarrow> takeWhile (\<lambda>c. c \<noteq> 0) (msg @ 0 # zs) = (msg :: u8 list)"
  by (induction msg) auto

lemma tag_msg_ok:
  assumes "lb_holds (lbuf ar) (msg @ 0 # ys)" and "0 \<notin> set msg"
  shows "\<exists>ar'. tag_msg_rd ar msg = ret ar' \<and> got ar ys ar'"
proof -
  obtain ar' where "checked_recv ar (replicate (length msg + 1) 0) = ret (ar', msg @ [0])" "got ar ys ar'"
    using checked_recv_ok [of ar "msg @ [0]" ys "replicate (length msg + 1) 0"] assms(1) by auto
  moreover from this(1) have "tag_msg_rd ar msg = ret ar'"
    using takeWhile_nonzero [OF assms(2), of "[]"] by (simp add: tag_msg_rd_def)
  ultimately show ?thesis by blast
qed

text \<open>Versions: the reader accepts those from 0 to its own.\<close>

lemma version_rd_ok:
  assumes "env_ok E" and "lb_holds (lbuf ar) (enc_num v @ ys)"
  shows "if 0 \<le> sint v \<and> sint v \<le> sint mine then \<exists>ar'. version_rd E ar mine = ret (ar', v) \<and> got ar ys ar'
    else version_rd E ar mine = throw (XError ''invalid_version'')"
proof -
  obtain ar' where "num_rd E ar = ret (ar', v)" "got ar ys ar'" using num_rd_ok [OF assms] by blast
  moreover from this(1) have "version_rd E ar mine = (if 0 \<le> sint v \<and> sint v \<le> sint mine then ret (ar', v) else throw (XError ''invalid_version''))"
    by (auto simp: version_rd_def errstr_def)
  ultimately show ?thesis by auto
qed

text \<open>With \<open>STRCVT_UTF8\<close> the writer of a string that is not empty sends from freed memory.\<close>

lemma str_utf8_dangling:
  assumes "env_ok E" and "ready ar" and "room ar 4" and "s \<noteq> []" "length s < 2 ^ 32"
  shows "str_wr E (ar\<lparr>wr_flags := STRCVT_UTF8\<rparr>) (VStr s) = None"
proof -
  have "0 < (of_nat (length s) :: u32)" using num_zero [OF assms(5)] assms(4) by (simp add: word_neq_0_conv [symmetric])
  moreover obtain ar1 where "num_wr E ar (of_nat (length s)) = ret ar1" using num_wr_ok [OF assms(1-3)] by blast
  moreover have "num_wr E (ar\<lparr>wr_flags := f\<rparr>) n = map_option (map_sum id (\<lambda>a. a\<lparr>wr_flags := f\<rparr>)) (num_wr E ar n)" for f n
    by (auto simp: num_wr_def pod_wr_def checked_send_def ser_send_def andthen_def errstr_def split: option.splits sum.splits bind_splits)
  ultimately show ?thesis by (simp add: str_wr_def flags_get_def STRCVT_UTF8_def)
qed


subsection \<open>Any input\<close>


lemma ex_env_trans: "\<forall>t x y z. less_than ex_env t x y \<longrightarrow> less_than ex_env t y z \<longrightarrow> less_than ex_env t x z"
  by (auto simp: ex_env_def)


end
