(* ===== verification/Hashing.thy ===== *)
theory Hashing
  imports Sz_Helper
begin

text \<open>
  \<open>crc32\<close> and \<open>Crc32Gen\<close> (\<open>src/vhwd/basic/hashing.cpp\<close>), with the table that the templates compute, and
  the hash functions of \<open>inc/vhwd/basic/hashing.h\<close>. Data is the list of its bytes and the address of the
  first one, on which the loops depend; reading outside is undefined. The machine is little-endian.
\<close>

unbundle bit_operations_syntax

type_synonym uintptr = "64 word"

text \<open>\<open>crc32_table_helper<N,M>\<close>: \<open>num\<close> and \<open>crc\<close>; \<open>cmap\<close> is the table of \<open>crc32_table<N>::value\<close>.\<close>

definition crc_tag :: u32 where "crc_tag = 0xEDB88320"

primrec crc32_table_helper :: "u32 \<Rightarrow> nat \<Rightarrow> u32 \<times> u32" where
  "crc32_table_helper N 0 = (N, 0)"
| "crc32_table_helper N (Suc m) = (let (n_1, c_1) = crc32_table_helper N m;
     tmp = (if c_1 AND 1 \<noteq> 0 then drop_bit 1 c_1 XOR crc_tag else drop_bit 1 c_1) in
     (drop_bit 1 n_1, if n_1 AND 1 \<noteq> 0 then tmp XOR crc_tag else tmp))"

definition cmap :: "u32 \<Rightarrow> u32" where
  "cmap i = snd (crc32_table_helper i 8)"

text \<open>The data at \<open>k0\<close>.\<close>

definition rd_u8 :: "uintptr \<Rightarrow> u8 list \<Rightarrow> uintptr \<Rightarrow> u8 option" where
  "rd_u8 k0 bs k = (if unat (k - k0) < length bs then Some (bs ! unat (k - k0)) else None)"

definition rd_u32 :: "uintptr \<Rightarrow> u8 list \<Rightarrow> uintptr \<Rightarrow> u32 option" where
  "rd_u32 k0 bs k = do {
     b0 \<leftarrow> rd_u8 k0 bs k; b1 \<leftarrow> rd_u8 k0 bs (k + 1); b2 \<leftarrow> rd_u8 k0 bs (k + 2); b3 \<leftarrow> rd_u8 k0 bs (k + 3);
     Some (ucast b0 OR push_bit 8 (ucast b1 OR push_bit 8 (ucast b2 OR push_bit 8 (ucast b3)))) }"

definition crc_step :: "u32 \<Rightarrow> u32" where
  "crc_step crc = cmap (crc AND 0xFF) XOR drop_bit 8 crc"

definition crc_add :: "u32 \<Rightarrow> u8 \<Rightarrow> u32" where
  "crc_add crc b = cmap ((crc AND 0xFF) XOR ucast b) XOR drop_bit 8 crc"

partial_function (option) crc_bytes :: "uintptr \<Rightarrow> u8 list \<Rightarrow> u32 \<Rightarrow> uintptr \<Rightarrow> uintptr \<Rightarrow> u32 option" where
  "crc_bytes k0 bs crc k e = (if k < e then do { b \<leftarrow> rd_u8 k0 bs k; crc_bytes k0 bs (crc_add crc b) (k + 1) e } else Some crc)"

partial_function (option) crc_words :: "uintptr \<Rightarrow> u8 list \<Rightarrow> u32 \<Rightarrow> uintptr \<Rightarrow> uintptr \<Rightarrow> u32 option" where
  "crc_words k0 bs crc k e = (if k < e then do {
       w \<leftarrow> rd_u32 k0 bs k;
       crc_words k0 bs (crc_step (crc_step (crc_step (crc_step (crc XOR w))))) (k + 4) e }
     else Some crc)"

definition crc_update :: "uintptr \<Rightarrow> u8 list \<Rightarrow> u32 \<Rightarrow> u32 option" where
  "crc_update k0 bs crc = (let k3 = k0 + of_nat (length bs); k1 = (k0 + 3) AND NOT 3; k2 = k3 AND NOT 3 in
     if k2 > k1 then do {
       crc \<leftarrow> crc_bytes k0 bs crc k0 k1;
       crc \<leftarrow> crc_words k0 bs crc k1 k2;
       crc_bytes k0 bs crc k2 k3 }
     else crc_bytes k0 bs crc k0 k3)"

definition crc32 :: "uintptr \<Rightarrow> u8 list \<Rightarrow> u32 option" where
  "crc32 k0 bs = map_option (\<lambda>crc. NOT crc) (crc_update k0 bs (- 1))"

text \<open>\<open>Crc32Gen\<close>.\<close>

definition gen_new :: u32 where "gen_new = - 1"

definition gen_update :: "u32 \<Rightarrow> uintptr \<Rightarrow> u8 list \<Rightarrow> u32 option" where
  "gen_update crc k0 bs = crc_update k0 bs crc"

definition gen_done :: "u32 \<Rightarrow> u32 \<times> u32" where
  "gen_done crc = (- 1, NOT crc)"

subsection \<open>Bit by bit\<close>

text \<open>The reference: the division of polynomials over two elements, bit by bit.\<close>

definition crc_bit :: "u32 \<Rightarrow> u32" where
  "crc_bit c = (if bit c 0 then drop_bit 1 c XOR crc_tag else drop_bit 1 c)"

definition crc_byte :: "u32 \<Rightarrow> u8 \<Rightarrow> u32" where
  "crc_byte c b = (crc_bit ^^ 8) (c XOR ucast b)"

definition crc_ref :: "u32 \<Rightarrow> u8 list \<Rightarrow> u32" where
  "crc_ref = foldl crc_byte"

lemma and_1_bit: "(x :: u32) AND 1 \<noteq> 0 \<longleftrightarrow> bit x 0"
  by (simp add: and_one_eq odd_iff_mod_2_eq_one bit_0)

lemma crc_bit_xor: "crc_bit (a XOR b) = crc_bit a XOR crc_bit b"
  unfolding crc_bit_def by (simp add: bit_xor_iff ac_simps xor_self_eq)

lemma crc_bits_xor: "(crc_bit ^^ n) (a XOR b) = (crc_bit ^^ n) a XOR (crc_bit ^^ n) b"
  by (induction n) (simp_all add: crc_bit_xor)


text \<open>Shifting out zeros.\<close>

lemma crc_bits_shift:
  "n + k \<le> 32 \<Longrightarrow> (\<forall>i. bit (d :: u32) i \<longrightarrow> i + (n + k) < 32) \<Longrightarrow> (crc_bit ^^ n) (push_bit (n + k) d) = push_bit k d"
proof (induction n arbitrary: k)
  case (Suc n)
  have "drop_bit 1 (push_bit (Suc k) d) = push_bit k d"
    using Suc.prems(2) by (intro bit_word_eqI) (auto simp: bit_simps simp del: push_bit_Suc)
  moreover have "\<not> bit (push_bit (Suc k) d) 0" by (simp add: bit_simps del: push_bit_Suc)
  ultimately have "crc_bit (push_bit (Suc k) d) = push_bit k d" by (simp add: crc_bit_def)
  moreover have "(crc_bit ^^ n) (push_bit (n + Suc k) d) = push_bit (Suc k) d"
    using Suc.IH [of "Suc k"] Suc.prems by (simp del: push_bit_Suc)
  ultimately show ?case by (simp add: funpow_swap1 del: push_bit_Suc)
qed simp

lemma crc_bits_high: "(crc_bit ^^ 8) (push_bit 8 (drop_bit 8 (c :: u32))) = drop_bit 8 c"
  using crc_bits_shift [of 8 0 "drop_bit 8 c"] bit_imp_le_length [of c] by (fastforce simp: bit_simps)

text \<open>The table.\<close>

lemma crc32_table_helper_bits:
  "fst (crc32_table_helper N m) XOR snd (crc32_table_helper N m) = (crc_bit ^^ m) N \<and> fst (crc32_table_helper N m) = drop_bit m N"
proof (induction m)
  case (Suc m)
  obtain n c where nc: "crc32_table_helper N m = (n, c)" by force
  have "snd (crc32_table_helper N (Suc m)) = (if bit n 0 then crc_bit c XOR crc_tag else crc_bit c)"
    by (simp add: nc Let_def and_1_bit crc_bit_def)
  then have "drop_bit 1 n XOR snd (crc32_table_helper N (Suc m)) = crc_bit n XOR crc_bit c"
    by (simp add: crc_bit_def [of n] ac_simps)
  moreover have "n XOR c = (crc_bit ^^ m) N" "n = drop_bit m N" using Suc nc by auto
  moreover have "fst (crc32_table_helper N (Suc m)) = drop_bit 1 n" by (simp add: nc Let_def)
  ultimately show ?case by (simp flip: crc_bit_xor)
qed simp

lemma cmap_bits: "cmap (i AND 0xFF) = (crc_bit ^^ 8) (i AND 0xFF)"
proof -
  have "drop_bit 8 (i AND 0xFF) = (0 :: u32)"
  proof (rule bit_word_eqI)
    fix n assume "n < LENGTH(32)"
    show "bit (drop_bit 8 (i AND 0xFF)) n = bit (0 :: u32) n"
      using bit_imp_le_length [of "0xFF :: 8 word"] by (simp add: bit_simps)
  qed
  moreover obtain n c where "crc32_table_helper (i AND 0xFF) 8 = (n, c)" by force
  ultimately show ?thesis using crc32_table_helper_bits [of "i AND 0xFF" 8] by (auto simp: cmap_def)
qed


lemma bit_FF: "n < 32 \<Longrightarrow> bit (0xFF :: u32) n \<longleftrightarrow> n < 8"
proof -
  have "(0xFF :: u32) = mask 8" by (simp add: mask_eq_exp_minus_1)
  moreover assume "n < 32"
  ultimately show ?thesis by (simp only: bit_mask_iff) simp
qed

lemma split_low: "c = (c AND 0xFF) XOR push_bit 8 (drop_bit 8 (c :: u32))"
proof (rule bit_word_eqI)
  fix n assume n: "n < LENGTH(32)"
  show "bit c n = bit ((c AND 0xFF) XOR push_bit 8 (drop_bit 8 c)) n" using n bit_FF [of n]
    by (cases "n < 8") (auto simp: bit_simps)
qed

lemma crc_step_bits: "crc_step c = (crc_bit ^^ 8) c"
proof -
  have "(crc_bit ^^ 8) c = (crc_bit ^^ 8) (c AND 0xFF) XOR (crc_bit ^^ 8) (push_bit 8 (drop_bit 8 c))"
    by (subst split_low) (rule crc_bits_xor)
  then show ?thesis by (simp only: crc_step_def cmap_bits crc_bits_high)
qed

lemma crc_add_step: "crc_add c b = crc_step (c XOR ucast b)"
proof -
  have "(c XOR ucast b) AND 0xFF = (c AND 0xFF) XOR (ucast b :: u32)"
  proof (rule bit_word_eqI)
    fix n assume n: "n < LENGTH(32)"
    have "bit b n \<Longrightarrow> n < 8" using bit_imp_le_length [of b n] by simp
    then show "bit ((c XOR ucast b) AND 0xFF) n = bit ((c AND 0xFF) XOR (ucast b :: u32)) n"
      using n bit_FF [of n] by (auto simp: bit_simps)
  qed
  moreover have "drop_bit 8 (c XOR ucast b) = (drop_bit 8 c :: u32)"
    by (rule bit_word_eqI) (auto simp: bit_simps dest: bit_imp_le_length)
  ultimately show ?thesis by (simp only: crc_add_def crc_step_def)
qed

lemma crc_add_byte: "crc_add = crc_byte"
  by (intro ext) (simp add: crc_add_step crc_step_bits crc_byte_def)

text \<open>Four bytes at a time.\<close>

lemma crc_step_word:
  assumes w: "\<forall>i. bit (w :: u32) i \<longrightarrow> i < 24"
  shows "crc_step (c XOR (ucast (b :: u8) OR push_bit 8 w)) = crc_step (c XOR ucast b) XOR w"
proof -
  have o: "ucast b OR push_bit 8 w = ucast b XOR push_bit 8 w"
    by (rule bit_word_eqI) (auto simp: bit_simps dest: bit_imp_le_length)
  have "(crc_bit ^^ 8) (push_bit 8 w) = w" using crc_bits_shift [of 8 0 w] w by fastforce
  then have "(crc_bit ^^ 8) ((c XOR ucast b) XOR push_bit 8 w) = (crc_bit ^^ 8) (c XOR ucast b) XOR w" by (simp add: crc_bits_xor)
  then show ?thesis unfolding o crc_step_bits by (simp only: xor.assoc)
qed

lemma crc_four:
  "crc_step (crc_step (crc_step (crc_step (c XOR (ucast b0 OR push_bit 8 (ucast b1 OR push_bit 8 (ucast b2 OR push_bit 8 (ucast b3)))))))) =
    crc_ref c [b0, b1, b2, b3]"
proof -
  have 3: "\<forall>i. bit (ucast b3 :: u32) i \<longrightarrow> i < 24" by (auto simp: bit_simps dest: bit_imp_le_length)
  have 2: "\<forall>i. bit (ucast b2 OR push_bit 8 (ucast b3) :: u32) i \<longrightarrow> i < 24" by (auto simp: bit_simps dest: bit_imp_le_length)
  have 1: "\<forall>i. bit (ucast b1 OR push_bit 8 (ucast b2 OR push_bit 8 (ucast b3)) :: u32) i \<longrightarrow> i < 24"
    by (auto simp: bit_simps dest: bit_imp_le_length)
  show ?thesis unfolding crc_step_word [OF 1] crc_step_word [OF 2] crc_step_word [OF 3]
    by (simp add: crc_ref_def crc_byte_def crc_step_bits)
qed


subsection \<open>The loops\<close>

lemma crc_ref_append: "crc_ref c (xs @ ys) = crc_ref (crc_ref c xs) ys"
  by (simp add: crc_ref_def)

lemma crc_ref_Cons: "crc_ref c (b # ys) = crc_ref (crc_byte c b) ys"
  by (simp add: crc_ref_def)

lemma crc_ref_Nil: "crc_ref c [] = c"
  by (simp add: crc_ref_def)

lemma rd_u8_at:
  assumes "unat k = unat k0 + i" "i < length bs"
  shows "rd_u8 k0 bs k = Some (bs ! i)"
proof -
  have "unat (k - k0) = i" using assms(1) by (simp add: unat_sub word_le_nat_alt)
  then show ?thesis using assms(2) by (simp add: rd_u8_def)
qed

lemma crc_bytes_ok:
  "unat k = unat k0 + i \<Longrightarrow> unat e = unat k0 + j \<Longrightarrow> i \<le> j \<Longrightarrow> j \<le> length bs \<Longrightarrow>
    crc_bytes k0 bs c k e = Some (crc_ref c (take (j - i) (drop i bs)))"
proof (induction "j - i" arbitrary: i k c)
  case 0
  then show ?case by (subst crc_bytes.simps) (simp add: word_less_nat_alt crc_ref_Nil)
next
  case (Suc n)
  have "unat k + 1 < 2 ^ 64" using Suc.hyps(2) Suc.prems(1,2) unat_size_less [of e] by simp
  then have k: "unat (k + 1) = unat k0 + (i + 1)" using Suc.prems(1) by (simp add: unat_word_ariths)
  have "take (j - i) (drop i bs) = bs ! i # take (j - (i + 1)) (drop (i + 1) bs)"
  proof -
    have "j - i = Suc (j - (i + 1))" "i < length bs" using Suc.hyps(2) Suc.prems(3,4) by simp_all
    then show ?thesis by (simp add: Cons_nth_drop_Suc [symmetric])
  qed
  moreover have "crc_bytes k0 bs c k e = crc_bytes k0 bs (crc_add c (bs ! i)) (k + 1) e"
  proof -
    have "i < j" using Suc.hyps(2) by simp
    then have "k < e" "rd_u8 k0 bs k = Some (bs ! i)" using Suc.prems rd_u8_at [of k k0 i bs] by (simp_all add: word_less_nat_alt)
    then show ?thesis by (subst crc_bytes.simps) simp
  qed
  moreover have "crc_bytes k0 bs (crc_add c (bs ! i)) (k + 1) e = Some (crc_ref (crc_add c (bs ! i)) (take (j - (i + 1)) (drop (i + 1) bs)))"
    by (rule Suc.hyps(1)) (use Suc.hyps(2) Suc.prems k in auto)
  ultimately show ?case by (simp add: crc_ref_Cons crc_add_byte)
qed

lemma crc_words_ok:
  "unat k = unat k0 + i \<Longrightarrow> unat e = unat k0 + (i + 4 * n) \<Longrightarrow> i + 4 * n \<le> length bs \<Longrightarrow>
    crc_words k0 bs c k e = Some (crc_ref c (take (4 * n) (drop i bs)))"
proof (induction n arbitrary: i k c)
  case 0
  then show ?case by (subst crc_words.simps) (simp add: word_less_nat_alt crc_ref_Nil)
next
  case (Suc n)
  have u: "unat k + 4 < 2 ^ 64" using Suc.prems(1,2) unat_size_less [of e] by simp
  then have k: "unat (k + 1) = unat k0 + (i + 1)" "unat (k + 2) = unat k0 + (i + 2)" "unat (k + 3) = unat k0 + (i + 3)"
    "unat (k + 4) = unat k0 + (i + 4)" using Suc.prems(1) by (simp_all add: unat_word_ariths)
  have r: "rd_u32 k0 bs k = Some (ucast (bs ! i) OR push_bit 8 (ucast (bs ! (i + 1)) OR push_bit 8 (ucast (bs ! (i + 2)) OR push_bit 8 (ucast (bs ! (i + 3))))))"
    using rd_u8_at [OF Suc.prems(1), of bs] rd_u8_at [OF k(1), of bs] rd_u8_at [OF k(2), of bs] rd_u8_at [OF k(3), of bs] Suc.prems(3)
    by (simp add: rd_u32_def del: push_bit_or)
  have t: "take (4 * Suc n) (drop i bs) = [bs ! i, bs ! (i + 1), bs ! (i + 2), bs ! (i + 3)] @ take (4 * n) (drop (i + 4) bs)"
  proof -
    have "take 4 (drop i bs) = [bs ! i, bs ! (i + 1), bs ! (i + 2), bs ! (i + 3)]"
      using Suc.prems(3) by (intro nth_equalityI) (auto simp: less_Suc_eq numeral_eq_Suc)
    moreover have "take (4 + 4 * n) (drop i bs) = take 4 (drop i bs) @ take (4 * n) (drop 4 (drop i bs))" by (rule take_add)
    ultimately show ?thesis by (simp add: add.commute)
  qed
  have "k < e" using Suc.prems(1,2) by (simp add: word_less_nat_alt)
  then have "crc_words k0 bs c k e = crc_words k0 bs (crc_ref c [bs ! i, bs ! (i + 1), bs ! (i + 2), bs ! (i + 3)]) (k + 4) e"
    by (subst crc_words.simps) (simp add: r crc_four del: push_bit_or)
  also have "\<dots> = Some (crc_ref (crc_ref c [bs ! i, bs ! (i + 1), bs ! (i + 2), bs ! (i + 3)]) (take (4 * n) (drop (i + 4) bs)))"
    by (rule Suc.IH [OF k(4)]) (use Suc.prems in auto)
  finally show ?case by (simp only: t crc_ref_append)
qed


text \<open>Rounding an address up and down to a multiple of 4.\<close>

lemma unat_and_not_3: "unat (x AND NOT (3 :: uintptr)) = unat x - unat x mod 4"
proof -
  have "x AND NOT 3 = push_bit 2 (drop_bit 2 x)"
  proof (rule bit_word_eqI)
    fix n assume n: "n < LENGTH(64)"
    have "(3 :: uintptr) = mask 2" by (simp add: mask_eq_exp_minus_1)
    then have "bit (3 :: uintptr) n \<longleftrightarrow> n < 2" using n by (simp only: bit_mask_iff) simp
    moreover have "2 \<le> n \<Longrightarrow> Suc (Suc (n - 2)) = n" by simp
    ultimately show "bit (x AND NOT 3) n = bit (push_bit 2 (drop_bit 2 x)) n" using n by (auto simp: bit_simps not_less)
  qed
  moreover have "unat (push_bit 2 (drop_bit 2 x)) = unat x div 4 * 4"
  proof -
    have d: "unat (drop_bit 2 x) = unat x div 4"
      by (simp only: unsigned_drop_bit_eq) (simp add: drop_bit_eq_div take_bit_nat_eq_self unat_size_less [simplified])
    have "unat x div 4 * 4 < 2 ^ 64" using unat_size_less [of x] by (simp add: mult.commute)
    then show ?thesis using d by (simp add: push_bit_eq_mult unat_word_ariths)
  qed
  ultimately show ?thesis by (simp add: minus_mod_eq_div_mult)
qed

lemma crc_update_ok:
  assumes "unat k0 + length bs + 3 < 2 ^ 64"
  shows "crc_update k0 bs c = Some (crc_ref c bs)"
proof -
  let ?k3 = "k0 + of_nat (length bs)" and ?n = "length bs"
  let ?k1 = "(k0 + 3) AND NOT 3" and ?k2 = "?k3 AND NOT 3"
  have n: "unat (of_nat ?n :: uintptr) = ?n" using assms by (simp add: unsigned_of_nat take_bit_nat_eq_self)
  have k3: "unat ?k3 = unat k0 + ?n" using assms n by (simp add: unat_word_ariths)
  have a: "unat (k0 + 3) = unat k0 + 3" using assms by (simp add: unat_word_ariths)
  define i where "i = 3 - (unat k0 + 3) mod 4"
  define j where "j = (unat k0 + ?n) mod 4"
  have k1: "unat ?k1 = unat k0 + i" unfolding unat_and_not_3 a i_def by (simp add: mod_less_eq_dividend)
  have k2: "unat ?k2 = unat k0 + ?n - j" unfolding unat_and_not_3 k3 j_def ..
  have j: "j \<le> unat k0 + ?n" by (simp add: j_def)
  show ?thesis
  proof (cases "?k2 > ?k1")
    case True
    then have l: "unat k0 + i < unat k0 + ?n - j" using k1 k2 by (simp add: word_less_nat_alt)
    then have ij: "i + j < ?n" by simp
    have "(?n - i - j) mod 4 = 0"
    proof -
      have "4 dvd unat k0 + i" using k1 unat_and_not_3 [of "k0 + 3"] by (metis dvd_minus_mod)
      moreover have "4 dvd unat k0 + ?n - j" using k2 unat_and_not_3 [of ?k3] by (metis dvd_minus_mod)
      ultimately have "4 dvd (unat k0 + ?n - j) - (unat k0 + i)" by (rule dvd_diff_nat [rotated])
      moreover have "(unat k0 + ?n - j) - (unat k0 + i) = ?n - i - j" using ij by simp
      ultimately show ?thesis by simp
    qed
    then obtain m where "?n - i - j = 4 * m" by (auto elim: dvdE simp: mod_eq_0_iff_dvd)
    then have m: "?n = i + 4 * m + j" using ij by linarith
    have "crc_bytes k0 bs c k0 ?k1 = Some (crc_ref c (take i bs))"
      using crc_bytes_ok [of k0 k0 0 ?k1 i bs c] k1 ij by simp
    moreover have "crc_words k0 bs (crc_ref c (take i bs)) ?k1 ?k2 = Some (crc_ref (crc_ref c (take i bs)) (take (4 * m) (drop i bs)))"
      using m k1 k2 by (intro crc_words_ok) auto
    moreover have "crc_bytes k0 bs (crc_ref (crc_ref c (take i bs)) (take (4 * m) (drop i bs))) ?k2 ?k3 =
        Some (crc_ref (crc_ref (crc_ref c (take i bs)) (take (4 * m) (drop i bs))) (take (?n - (i + 4 * m)) (drop (i + 4 * m) bs)))"
      using m k2 k3 by (intro crc_bytes_ok) auto
    moreover have "take i bs @ take (4 * m) (drop i bs) @ take (?n - (i + 4 * m)) (drop (i + 4 * m) bs) = bs"
    proof -
      have "take (?n - (i + 4 * m)) (drop (i + 4 * m) bs) = drop (4 * m) (drop i bs)" by (simp add: add.commute)
      then show ?thesis by (simp only: append_take_drop_id)
    qed
    ultimately show ?thesis using True by (simp add: crc_update_def Let_def flip: crc_ref_append)
  next
    case False
    have "crc_bytes k0 bs c k0 ?k3 = Some (crc_ref c bs)" using crc_bytes_ok [of k0 k0 0 ?k3 ?n bs c] k3 by simp
    then show ?thesis using False by (simp add: crc_update_def Let_def)
  qed
qed


subsection \<open>Hashing\<close>

text \<open>\<open>hash_impl<T>::hash\<close> and \<open>hash_string\<close>, on the elements widened to \<open>uintptr_t\<close>. A string is read up to a
  zero; without one the reading goes on outside.\<close>

definition hash_mix :: "uintptr \<times> uintptr \<Rightarrow> uintptr \<Rightarrow> uintptr \<times> uintptr" where
  "hash_mix s x = (case s of (seed1, seed2) \<Rightarrow>
     let seed1 = (x * 0x3123EEEE) XOR (seed1 + seed2) in
     let seed2 = (x + seed1) + seed2 + push_bit 5 seed2 + 3 in (seed1, seed2))"

definition hash :: "uintptr list \<Rightarrow> u32" where
  "hash xs = ucast (fst (foldl hash_mix (0x7FED7FED, 0xEEEEEEEE) xs))"

fun hash_string_loop :: "uintptr \<times> uintptr \<Rightarrow> uintptr list \<Rightarrow> (uintptr \<times> uintptr) option" where
  "hash_string_loop s [] = None"
| "hash_string_loop s (x # xs) = (if x \<noteq> 0 then hash_string_loop (hash_mix s x) xs else Some s)"

definition hash_string :: "uintptr list \<Rightarrow> u32 option" where
  "hash_string xs = map_option (\<lambda>s. ucast (fst s)) (hash_string_loop (0x7FED7FED, 0xEEEEEEEE) xs)"

lemma hash_string_loop_ok: "0 \<notin> set xs \<Longrightarrow> hash_string_loop s (xs @ 0 # ys) = Some (foldl hash_mix s xs)"
  by (induction xs arbitrary: s) auto

lemma hash_string_hash: "0 \<notin> set xs \<Longrightarrow> hash_string (xs @ 0 # ys) = Some (hash xs)"
  by (simp add: hash_string_def hash_def hash_string_loop_ok)

end
