(* ===== verification/Hashing_Theorems.thy ===== *)
theory Hashing_Theorems
  imports Hashing
begin

text \<open>The property of the checksum.\<close>

text \<open>A run of \<open>Crc32Gen\<close> over several blocks of data, each at its address.\<close>

fun gen_updates :: "u32 \<Rightarrow> (uintptr \<times> u8 list) list \<Rightarrow> u32 option" where
  "gen_updates crc [] = Some crc"
| "gen_updates crc ((k0, bs) # blocks) = do { crc \<leftarrow> gen_update crc k0 bs; gen_updates crc blocks }"

lemma gen_updates_ok:
  "\<forall>(k0, bs) \<in> set blocks. unat k0 + length bs + 3 < 2 ^ 64 \<Longrightarrow> gen_updates c blocks = Some (crc_ref c (concat (map snd blocks)))"
  by (induction blocks arbitrary: c) (auto simp: gen_update_def crc_update_ok crc_ref_append crc_ref_Nil)

text \<open>C35. \<open>crc32\<close>, which reads words where the address allows it and goes by a table that the compiler
  makes, is the CRC that is defined bit by bit, whatever the address and the length of the data; and \<open>Crc32Gen\<close>
  gives the same for data that comes in any number of pieces, and is then ready for the next.\<close>

theorem crc32_correct:
  assumes "\<forall>(k0, bs) \<in> set blocks. unat k0 + length bs + 3 < 2 ^ 64" and "unat k + length (concat (map snd blocks)) + 3 < 2 ^ 64"
  shows "crc32 k (concat (map snd blocks)) = Some (NOT (crc_ref (- 1) (concat (map snd blocks)))) \<and>
    (\<exists>c. gen_updates gen_new blocks = Some c \<and> gen_done c = (gen_new, NOT (crc_ref (- 1) (concat (map snd blocks)))))"
  using crc_update_ok [OF assms(2), of "- 1"] gen_updates_ok [OF assms(1), of gen_new]
  by (simp add: crc32_def gen_done_def gen_new_def)

lemma check_steps:
  shows "crc_byte (- 1) 49 = 0x7C231048"
    "crc_byte (0x7C231048) 50 = 0xB0ACBB32"
    "crc_byte (0xB0ACBB32) 51 = 0x77B79C2D"
    "crc_byte (0x77B79C2D) 52 = 0x641C1F5C"
    "crc_byte (0x641C1F5C) 53 = 0x340AC5E3"
    "crc_byte (0x340AC5E3) 54 = 0xF68D2C9E"
    "crc_byte (0xF68D2C9E) 55 = 0xAFFC9660"
    "crc_byte (0xAFFC9660) 56 = 0x651F2550"
    "crc_byte (0x651F2550) 57 = 0x340BC6D9"
  by code_simp+

text \<open>The check value of this CRC, of the characters 1 to 9 in one piece and in two.\<close>

lemma crc32_correct_witness:
  "crc32 1001 [49, 50, 51, 52, 53, 54, 55, 56, 57] = Some 0xCBF43926 \<and>
   map_option gen_done (gen_updates gen_new [(4, [49, 50, 51, 52, 53]), (98, [54, 55, 56, 57])]) = Some (gen_new, 0xCBF43926)"
proof -
  have r: "crc_ref (- 1) [49, 50, 51, 52, 53, 54, 55, 56, 57] = 0x340BC6D9"
    unfolding crc_ref_Cons check_steps crc_ref_Nil ..
  show ?thesis
    using crc32_correct [of "[(4, [49, 50, 51, 52, 53]), (98, [54, 55, 56, 57])]" 1001] r by auto
qed

end
