(* ===== verification/Codecvt.thy ===== *)
theory Codecvt
  imports Sz_Helper
begin

text \<open>
  UTF-8 (\<open>IConv_utf8_to_unicode\<close> and \<open>IConv_unicode_to_utf8\<close> in \<open>src/vhwd/basic/codecvt.cpp\<close>), for
  code units of 16 and of 32 bits. Reading past the end of the input is undefined; the writer returns
  \<open>False\<close> (here \<open>None\<close>) for codes that are not Unicode.
\<close>

unbundle bit_operations_syntax

definition low6 :: "u8 \<Rightarrow> u32" where "low6 b = ucast b AND 0x3F"

fun utf8_to_unicode :: "u8 list \<Rightarrow> 'w::len word list option" where
  "utf8_to_unicode [] = Some []"
| "utf8_to_unicode (uc # r) =
    (if uc < 0x80 then do { ws \<leftarrow> utf8_to_unicode r; Some (ucast uc # ws) }
     else if uc < 0xC0 then do { ws \<leftarrow> utf8_to_unicode r; Some (ucast uc # ws) }
     else if uc < 0xE0 then case r of
         b1 # r \<Rightarrow> do { ws \<leftarrow> utf8_to_unicode r; Some (ucast (push_bit 6 (low6 uc) + low6 b1) # ws) }
       | _ \<Rightarrow> None
     else if uc < 0xF0 then case r of
         b1 # b2 # r \<Rightarrow> do { ws \<leftarrow> utf8_to_unicode r; Some (ucast (push_bit 12 (low6 uc) + push_bit 6 (low6 b1) + low6 b2) # ws) }
       | _ \<Rightarrow> None
     else case r of
         b1 # b2 # b3 # r \<Rightarrow> do { ws \<leftarrow> utf8_to_unicode r;
           Some (ucast (push_bit 18 (low6 uc) + push_bit 12 (low6 b1) + push_bit 6 (low6 b2) + low6 b3) # ws) }
       | _ \<Rightarrow> None)"

definition cont :: "u32 \<Rightarrow> u8" where "cont code = ucast ((code OR 0x80) AND 0xBF)"

definition utf8_encode :: "u32 \<Rightarrow> u8 list option" where
  "utf8_encode code =
    (if code < 0x80 then Some [ucast code]
     else if code < 0x800 then Some [ucast (drop_bit 6 code OR 0xC0), cont code]
     else if code < 0x10000 then Some [ucast (drop_bit 12 code OR 0xE0), cont (drop_bit 6 code), cont code]
     else if code < 0x110000 then Some [ucast (drop_bit 18 code OR 0xF0), cont (drop_bit 12 code), cont (drop_bit 6 code), cont code]
     else None)"

primrec unicode_to_utf8 :: "'w::len word list \<Rightarrow> u8 list option" where
  "unicode_to_utf8 [] = Some []"
| "unicode_to_utf8 (c # cs) = do { bs \<leftarrow> utf8_encode (ucast c); bss \<leftarrow> unicode_to_utf8 cs; Some (bs @ bss) }"

subsection \<open>Bytes\<close>

lemma bit_mask6: "n < 32 \<Longrightarrow> bit (0x3F :: u32) n \<longleftrightarrow> n < 6"
proof -
  have "(0x3F :: u32) = mask 6" by (simp add: mask_eq_exp_minus_1)
  moreover assume "n < 32"
  ultimately show ?thesis by (simp only: bit_mask_iff) simp
qed

lemma unat_and_3F: "unat ((x :: u32) AND 0x3F) = unat x mod 64"
proof -
  have "(0x3F :: u32) = mask 6" by (simp add: mask_eq_exp_minus_1)
  then show ?thesis by (simp only: unsigned_take_bit_eq flip: take_bit_eq_mask) (simp add: take_bit_eq_mod)
qed

lemma low6_cont: "unat (low6 (cont c)) = unat c mod 64"
proof -
  have "low6 (cont c) = c AND 0x3F"
  proof (rule bit_word_eqI)
    fix n assume n: "n < LENGTH(32)"
    show "bit (low6 (cont c)) n = bit (c AND 0x3F) n"
    proof (cases "n < 6")
      case True
      then have "n = 0 \<or> n = 1 \<or> n = 2 \<or> n = 3 \<or> n = 4 \<or> n = 5" by arith
      then show ?thesis by (elim disjE) (simp_all add: low6_def cont_def bit_simps)
    qed (use n bit_mask6 [of n] in \<open>simp add: low6_def bit_simps\<close>)
  qed
  then show ?thesis by (simp add: unat_and_3F)
qed

text \<open>The leading bytes.\<close>

lemma lead_bytes:
  "list_all (\<lambda>n. unat ((of_nat n :: u8) OR 0xC0) = n + 0xC0) [0 ..< 32]"
  "list_all (\<lambda>n. unat ((of_nat n :: u8) OR 0xE0) = n + 0xE0) [0 ..< 16]"
  "list_all (\<lambda>n. unat ((of_nat n :: u8) OR 0xF0) = n + 0xF0) [0 ..< 5]"
  by code_simp+

lemma lead:
  assumes "unat (x :: u32) < 32"
  shows "unat (ucast (x OR 0xC0) :: u8) = unat x + 0xC0"
    "unat x < 16 \<Longrightarrow> unat (ucast (x OR 0xE0) :: u8) = unat x + 0xE0"
    "unat x < 5 \<Longrightarrow> unat (ucast (x OR 0xF0) :: u8) = unat x + 0xF0"
proof -
  have u: "(ucast (x OR 0xC0) :: u8) = of_nat (unat x) OR 0xC0" "(ucast (x OR 0xE0) :: u8) = of_nat (unat x) OR 0xE0"
    "(ucast (x OR 0xF0) :: u8) = of_nat (unat x) OR 0xF0"
    by (simp_all add: unsigned_or_eq)
  have P: "\<forall>n < 32. unat ((of_nat n :: u8) OR 0xC0) = n + 0xC0" "\<forall>n < 16. unat ((of_nat n :: u8) OR 0xE0) = n + 0xE0"
    "\<forall>n < 5. unat ((of_nat n :: u8) OR 0xF0) = n + 0xF0" using lead_bytes by (simp_all add: list_all_iff)
  show "unat (ucast (x OR 0xC0) :: u8) = unat x + 0xC0" unfolding u using P(1) assms by blast
  show "unat (ucast (x OR 0xE0) :: u8) = unat x + 0xE0" if "unat x < 16" unfolding u using P(2) that by blast
  show "unat (ucast (x OR 0xF0) :: u8) = unat x + 0xF0" if "unat x < 5" unfolding u using P(3) that by blast
qed

lemma unat_low6: "unat (low6 b) = unat b mod 64"
proof -
  have "unat b < 256" using unsigned_less [of b, where ?'a = nat] by simp
  then show ?thesis unfolding low6_def unat_and_3F by (simp add: unsigned_ucast_eq take_bit_nat_eq_self)
qed

lemma unat_drop: "unat (drop_bit n (x :: u32)) = unat x div 2 ^ n"
proof -
  have "unat x < 2 ^ 32" using unsigned_less [of x, where ?'a = nat] by simp
  then show ?thesis by (simp only: unsigned_drop_bit_eq) (simp add: drop_bit_eq_div take_bit_nat_eq_self)
qed

text \<open>What a code becomes when it is written and read back, in 32 bits.\<close>

definition reread :: "u32 \<Rightarrow> u32" where
  "reread c = (if c < 0x800 then c else if c < 0x10000 then c + 0x20000 else c + 0xC00000)"

lemma unat_push: "unat (x :: u32) * 2 ^ n < 2 ^ 32 \<Longrightarrow> unat (push_bit n x) = unat x * 2 ^ n"
  by (simp only: unsigned_push_bit_eq) (simp add: push_bit_eq_mult take_bit_nat_eq_self)

lemma div_parts: "n = n div 64 * 64 + n mod 64" "n div 64 = n div 4096 * 64 + n div 64 mod 64"
  "n div 4096 = n div 262144 * 64 + n div 4096 mod 64" for n :: nat
proof -
  show "n = n div 64 * 64 + n mod 64" by simp
  have "n div 4096 = n div 64 div 64" "n div 262144 = n div 4096 div 64" by (simp_all flip: div_mult2_eq)
  then show "n div 64 = n div 4096 * 64 + n div 64 mod 64" "n div 4096 = n div 262144 * 64 + n div 4096 mod 64" by simp_all
qed

lemma join3: "n = a * 64 + r0 \<Longrightarrow> a = b * 64 + r1 \<Longrightarrow> b * 4096 + (r1 * 64 + r0) = n" for n :: nat by simp

lemma join4: "n = a * 64 + r0 \<Longrightarrow> a = b * 64 + r1 \<Longrightarrow> b = d * 64 + r2 \<Longrightarrow>
    d * 262144 + (r2 * 4096 + (r1 * 64 + r0)) = n" for n :: nat by simp

lemmas code_parts = join3 [OF div_parts(1,2)] join4 [OF div_parts]

lemma word_sum3: "unat l = x \<Longrightarrow> unat b1 = y1 \<Longrightarrow> unat b2 = y2 \<Longrightarrow> x < 64 \<Longrightarrow> y1 < 64 \<Longrightarrow> y2 < 64 \<Longrightarrow>
    unat (push_bit 12 l + push_bit 6 b1 + b2) = x * 4096 + y1 * 64 + y2" for l b1 b2 :: u32
  by (simp add: unat_word_ariths unat_push)

lemma word_sum4: "unat l = x \<Longrightarrow> unat b1 = y1 \<Longrightarrow> unat b2 = y2 \<Longrightarrow> unat b3 = y3 \<Longrightarrow>
    x < 64 \<Longrightarrow> y1 < 64 \<Longrightarrow> y2 < 64 \<Longrightarrow> y3 < 64 \<Longrightarrow>
    unat (push_bit 18 l + push_bit 12 b1 + push_bit 6 b2 + b3) = x * 262144 + y1 * 4096 + y2 * 64 + y3"
  for l b1 b2 b3 :: u32
  by (simp add: unat_word_ariths unat_push)

lemma decode2: "unat u < 0xE0 \<Longrightarrow> 0xC0 \<le> unat u \<Longrightarrow> push_bit 6 (low6 u) + low6 b1 = v \<Longrightarrow>
    utf8_to_unicode (u # b1 # r) = map_option (\<lambda>ws. ucast v # ws) (utf8_to_unicode r)"
  by (simp add: word_less_nat_alt map_option_case split: option.splits)

lemma decode3: "unat u < 0xF0 \<Longrightarrow> 0xE0 \<le> unat u \<Longrightarrow> push_bit 12 (low6 u) + push_bit 6 (low6 b1) + low6 b2 = v \<Longrightarrow>
    utf8_to_unicode (u # b1 # b2 # r) = map_option (\<lambda>ws. ucast v # ws) (utf8_to_unicode r)"
  by (simp add: word_less_nat_alt map_option_case split: option.splits)

lemma decode4: "0xF0 \<le> unat u \<Longrightarrow> push_bit 18 (low6 u) + push_bit 12 (low6 b1) + push_bit 6 (low6 b2) + low6 b3 = v \<Longrightarrow>
    utf8_to_unicode (u # b1 # b2 # b3 # r) = map_option (\<lambda>ws. ucast v # ws) (utf8_to_unicode r)"
  by (simp add: word_less_nat_alt map_option_case split: option.splits)

lemma utf8_decode_encode:
  assumes "utf8_encode c = Some bs"
  shows "utf8_to_unicode (bs @ r) = map_option (\<lambda>ws. ucast (reread c) # ws) (utf8_to_unicode r)"
proof -
  let ?n = "unat c"
  consider "?n < 0x80" | "0x80 \<le> ?n" "?n < 0x800" | "0x800 \<le> ?n" "?n < 0x10000" | "0x10000 \<le> ?n" "?n < 0x110000"
    using assms by (auto simp: utf8_encode_def word_less_nat_alt split: if_splits)
  then show ?thesis
  proof cases
    case 1
    have "bs = [ucast c]" using assms 1 by (simp add: utf8_encode_def word_less_nat_alt)
    moreover have u: "unat (ucast c :: u8) = ?n" using 1 by (simp add: unsigned_ucast_eq take_bit_nat_eq_self)
    moreover have "(ucast (ucast c :: u8) :: 'a word) = ucast c"
      using arg_cong [OF u, of of_nat] by (simp only: of_nat_unat)
    ultimately show ?thesis using 1 by (simp add: word_less_nat_alt reread_def map_option_case split: option.splits)
  next
    case 2
    let ?l = "ucast (drop_bit 6 c OR 0xC0) :: u8"
    have bs: "bs = [?l, cont c]" using assms 2 by (simp add: utf8_encode_def word_less_nat_alt)
    have d: "?n div 64 < 32" using 2 by simp
    have l: "unat ?l = ?n div 64 + 0xC0" using lead(1) [of "drop_bit 6 c"] d by (simp add: unat_drop)
    then have "unat (low6 ?l) = ?n div 64" using d by (simp add: unat_low6 mod_if)
    then have "unat (push_bit 6 (low6 ?l) + low6 (cont c)) = ?n"
      using d by (simp add: unat_word_ariths unat_push low6_cont)
    then have "push_bit 6 (low6 ?l) + low6 (cont c) = c" by (simp add: word_unat_eq_iff)
    from decode2 [OF _ _ this] show ?thesis using l d 2 by (simp add: bs reread_def word_less_nat_alt)
  next
    case 3
    let ?l = "ucast (drop_bit 12 c OR 0xE0) :: u8"
    have bs: "bs = [?l, cont (drop_bit 6 c), cont c]" using assms 3 by (simp add: utf8_encode_def word_less_nat_alt)
    have d: "?n div 4096 < 16" using 3 by simp
    have l: "unat ?l = ?n div 4096 + 0xE0" using lead(2) [of "drop_bit 12 c"] d by (simp add: unat_drop)
    then have "unat (low6 ?l) = ?n div 4096 + 32" using d by (simp add: unat_low6 mod_if)
    then have "unat (push_bit 12 (low6 ?l) + push_bit 6 (low6 (cont (drop_bit 6 c))) + low6 (cont c)) = ?n + 0x20000"
      using word_sum3 [of "low6 ?l" _ "low6 (cont (drop_bit 6 c))" _ "low6 (cont c)"] d
      by (simp add: code_parts low6_cont unat_drop)
    then have "push_bit 12 (low6 ?l) + push_bit 6 (low6 (cont (drop_bit 6 c))) + low6 (cont c) = c + 0x20000"
      using 3 by (simp add: word_unat_eq_iff unat_word_ariths)
    from decode3 [OF _ _ this] show ?thesis using l d 3 by (simp add: bs reread_def word_less_nat_alt)
  next
    case 4
    let ?l = "ucast (drop_bit 18 c OR 0xF0) :: u8"
    have bs: "bs = [?l, cont (drop_bit 12 c), cont (drop_bit 6 c), cont c]" using assms 4 by (simp add: utf8_encode_def word_less_nat_alt)
    have d: "?n div 262144 < 5" using 4 by simp
    have l: "unat ?l = ?n div 262144 + 0xF0" using lead(3) [of "drop_bit 18 c"] d by (simp add: unat_drop)
    then have "unat (low6 ?l) = ?n div 262144 + 48" using d by (simp add: unat_low6 mod_if)
    then have "unat (push_bit 18 (low6 ?l) + push_bit 12 (low6 (cont (drop_bit 12 c))) + push_bit 6 (low6 (cont (drop_bit 6 c))) + low6 (cont c)) = ?n + 0xC00000"
      using word_sum4 [of "low6 ?l" _ "low6 (cont (drop_bit 12 c))" _ "low6 (cont (drop_bit 6 c))" _ "low6 (cont c)"] d
      by (simp add: code_parts low6_cont unat_drop)
    then have "push_bit 18 (low6 ?l) + push_bit 12 (low6 (cont (drop_bit 12 c))) + push_bit 6 (low6 (cont (drop_bit 6 c))) + low6 (cont c) = c + 0xC00000"
      using 4 by (simp add: word_unat_eq_iff unat_word_ariths)
    from decode4 [OF _ this] show ?thesis using l d 4 by (simp add: bs reread_def word_less_nat_alt)
  qed
qed

subsection \<open>Whole texts\<close>

lemma utf8_encode_Some: "c < 0x110000 \<Longrightarrow> \<exists>bs. utf8_encode c = Some bs"
  by (simp add: utf8_encode_def)

lemma utf8_encode_None: "utf8_encode c = None \<longleftrightarrow> \<not> c < 0x110000"
  by (auto simp: utf8_encode_def word_less_nat_alt)

lemma utf8_list:
  fixes ws :: "'w::len word list"
  assumes "list_all (\<lambda>c. (ucast c :: u32) < 0x110000) ws"
  shows "\<exists>bs. unicode_to_utf8 ws = Some bs \<and> (utf8_to_unicode bs :: 'w word list option) = Some (map (\<lambda>c. ucast (reread (ucast c))) ws)"
  using assms
proof (induction ws)
  case (Cons c cs)
  then obtain bs where bs: "unicode_to_utf8 cs = Some bs" "(utf8_to_unicode bs :: 'w word list option) = Some (map (\<lambda>c. ucast (reread (ucast c))) cs)"
    by auto
  obtain b where b: "utf8_encode (ucast c) = Some b" using utf8_encode_Some Cons.prems by fastforce
  show ?case using bs b by (simp add: utf8_decode_encode [OF b])
qed simp

lemma utf8_refused: "\<not> list_all (\<lambda>c. (ucast c :: u32) < 0x110000) ws \<Longrightarrow> unicode_to_utf8 ws = None"
proof (induction ws)
  case (Cons c cs)
  then show ?case using utf8_encode_None [of "ucast c"] by (cases "(ucast c :: u32) < 0x110000") (auto split: Option.bind_splits)
qed simp

lemma unat_u16: "unat (ucast (c :: u16) :: u32) = unat c"
proof -
  have "unat c < 65536" using unsigned_less [of c, where ?'a = nat] by simp
  then show ?thesis by (simp add: unsigned_ucast_eq take_bit_nat_eq_self)
qed

text \<open>In 16 bits the surplus bits of the leading byte fall off.\<close>

lemma reread_u16: "ucast (reread (ucast c)) = (c :: u16)"
proof -
  have c: "unat c < 65536" using unsigned_less [of c, where ?'a = nat] by simp
  then have "(ucast c :: u32) < 0x10000" by (simp add: word_less_nat_alt unat_u16)
  then consider "reread (ucast c) = (ucast c :: u32)" | "reread (ucast c) = (ucast c + 0x20000 :: u32)"
    by (cases "(ucast c :: u32) < 0x800") (simp_all add: reread_def)
  then show ?thesis
  proof cases
    case 2
    have "unat (ucast c + 0x20000 :: u32) = unat c + 0x20000" using c by (simp add: unat_word_ariths unat_u16)
    moreover have "(unat c + 0x20000) mod 0x10000 = unat c" using c mod_mult_self1 [of "unat c" 2 "0x10000"] by simp
    ultimately show ?thesis unfolding 2 by (simp add: word_unat_eq_iff unsigned_ucast_eq take_bit_eq_mod)
  qed (use c in \<open>simp add: word_unat_eq_iff unsigned_ucast_eq take_bit_nat_eq_self unat_u16\<close>)
qed

lemma utf8_u16: "\<exists>bs. unicode_to_utf8 ws = Some bs \<and> utf8_to_unicode bs = Some (ws :: u16 list)"
proof -
  have "unat c < 0x10000" for c :: u16 using unsigned_less [of c, where ?'a = nat] by simp
  then have "unat c < 0x110000" for c :: u16 by (rule less_trans) simp
  then have "list_all (\<lambda>c. (ucast c :: u32) < 0x110000) ws" by (simp add: list_all_iff word_less_nat_alt unat_u16)
  then show ?thesis using utf8_list [of ws] by (simp add: reread_u16)
qed

lemma reread_same: "c < 0x110000 \<Longrightarrow> reread c = c \<longleftrightarrow> c < 0x800"
  by (auto simp: reread_def)

end
