(* ===== verification/Gbk.thy ===== *)
theory Gbk
  imports Codecvt
begin

text \<open>
  GBK (\<open>src/vhwd/basic/codecvt.cpp\<close>): the table from GBK codes to 16-bit code units is data
  (\<open>g_gkb_table\<close>) and an argument here, so that what is proved holds of every table of its length; the
  inverse table is computed from it the way the code does. Reading the table, or the input, past its
  end is undefined (\<open>None\<close>).
\<close>

unbundle bit_operations_syntax

definition gbk_ke1 :: nat where "gbk_ke1 = 0xFE - 0x81 + 1"
definition gbk_ke2 :: nat where "gbk_ke2 = 0xFE - 0x40"

definition gbk_get :: "u16 list \<Rightarrow> nat \<Rightarrow> u16 option" where
  "gbk_get tbl i = (if i < length tbl then Some (tbl ! i) else None)"

definition gbk_code :: "nat \<Rightarrow> u16" where
  "gbk_code i =
    (let b1 = i div gbk_ke2 + 0x81;
         b2 = i mod gbk_ke2 + 0x40;
         b2 = (if b2 > 0x7E then b2 + 1 else b2)
     in of_nat (b1 + b2 * 256))"

primrec gbk_init_loop :: "u16 list \<Rightarrow> nat \<Rightarrow> (u16 \<Rightarrow> u16) \<Rightarrow> (u16 \<Rightarrow> u16) option" where
  "gbk_init_loop tbl 0 uni = Some uni"
| "gbk_init_loop tbl (Suc i) uni = do {
     uni \<leftarrow> gbk_init_loop tbl i uni;
     c \<leftarrow> gbk_get tbl i;
     Some (uni(c := gbk_code i)) }"

definition GBKTable_init :: "u16 list \<Rightarrow> (u16 \<Rightarrow> u16) \<Rightarrow> (u16 \<Rightarrow> u16) option" where
  "GBKTable_init tbl uni = (if uni 0 \<noteq> 0 then Some uni else gbk_init_loop tbl (gbk_ke1 * gbk_ke2) uni)"

definition gbk_encode :: "(u16 \<Rightarrow> u16) \<Rightarrow> 'w::len word \<Rightarrow> u8 list" where
  "gbk_encode uni c =
    (if (ucast c :: u32) < 0x81 then [ucast c]
     else if (ucast c :: u32) AND 0xFFFF0000 \<noteq> 0 then [0x3F, 0x3F]
     else let val = uni (ucast c) in
       if val \<noteq> 0 then [ucast val, ucast (drop_bit 8 val)] else [ucast c AND 0x7F])"

definition unicode_to_gbk :: "u16 list \<Rightarrow> (u16 \<Rightarrow> u16) \<Rightarrow> 'w::len word list \<Rightarrow> u8 list option" where
  "unicode_to_gbk tbl uni ws = do { uni \<leftarrow> GBKTable_init tbl uni; Some (concat (map (gbk_encode uni) ws)) }"

fun gbk_to_unicode :: "u16 list \<Rightarrow> u8 list \<Rightarrow> 'w::len word list option" where
  "gbk_to_unicode tbl [] = Some []"
| "gbk_to_unicode tbl (uc # r) =
    (let b1 = ucast uc - 0x81 :: u32 in
     if of_nat gbk_ke1 \<le> b1 then do { ws \<leftarrow> gbk_to_unicode tbl r; Some (ucast uc # ws) }
     else case r of
         [] \<Rightarrow> None
       | ac # r' \<Rightarrow>
           if 0x40 \<le> ac \<and> ac \<le> 0x7E then do {
             c \<leftarrow> gbk_get tbl (unat (b1 * of_nat gbk_ke2 + (ucast ac - 0x40)));
             ws \<leftarrow> gbk_to_unicode tbl r';
             Some (ucast c # ws) }
           else if 0x80 \<le> ac \<and> ac \<le> 0xFE then do {
             c \<leftarrow> gbk_get tbl (unat (b1 * of_nat gbk_ke2 + (ucast ac - 0x41)));
             ws \<leftarrow> gbk_to_unicode tbl r';
             Some (ucast c # ws) }
           else do { ws \<leftarrow> gbk_to_unicode tbl r; Some (ucast uc # ws) })"

text \<open>The conversions between UTF-8 and GBK go through 16-bit code units.\<close>

definition utf8_to_gbk :: "u16 list \<Rightarrow> (u16 \<Rightarrow> u16) \<Rightarrow> u8 list \<Rightarrow> u8 list option" where
  "utf8_to_gbk tbl uni bs = do { aw \<leftarrow> utf8_to_unicode bs; unicode_to_gbk tbl uni (aw :: u16 list) }"

definition gbk_to_utf8 :: "u16 list \<Rightarrow> u8 list \<Rightarrow> u8 list option" where
  "gbk_to_utf8 tbl bs = do { aw \<leftarrow> gbk_to_unicode tbl bs; unicode_to_utf8 (aw :: u16 list) }"

subsection \<open>The inverse table\<close>

lemma gbk_init_loop_ok:
  assumes "n \<le> length tbl"
  shows "\<exists>uni'. gbk_init_loop tbl n uni = Some uni' \<and>
    (\<forall>c. if c \<in> set (take n tbl) then \<exists>i < n. tbl ! i = c \<and> uni' c = gbk_code i else uni' c = uni c)"
  using assms
proof (induction n)
  case (Suc n)
  then obtain u where u: "gbk_init_loop tbl n uni = Some u"
    "\<And>c. if c \<in> set (take n tbl) then \<exists>i < n. tbl ! i = c \<and> u c = gbk_code i else u c = uni c" by auto
  have t: "take (Suc n) tbl = take n tbl @ [tbl ! n]" using Suc.prems by (simp add: take_Suc_conv_app_nth)
  show ?case
  proof (intro exI conjI allI)
    show "gbk_init_loop tbl (Suc n) uni = Some (u(tbl ! n := gbk_code n))"
      using u(1) Suc.prems by (simp add: gbk_get_def fun_upd_def)
    show "if c \<in> set (take (Suc n) tbl) then \<exists>i < Suc n. tbl ! i = c \<and> (u(tbl ! n := gbk_code n)) c = gbk_code i
        else (u(tbl ! n := gbk_code n)) c = uni c" for c
      using u(2) [of c] unfolding t by (auto split: if_splits intro: less_SucI)
  qed
qed simp

definition gbk_size :: nat where "gbk_size = 23940"

lemma gbk_size_eq: "gbk_ke1 * gbk_ke2 = gbk_size" by (simp add: gbk_ke1_def gbk_ke2_def gbk_size_def)

text \<open>The two bytes of a code.\<close>

lemma code_bytes:
  assumes "b1 < 256" "b2 < 256"
  shows "unat (ucast (of_nat (b1 + b2 * 256) :: u16) :: u8) = b1"
    "unat (ucast (drop_bit 8 (of_nat (b1 + b2 * 256) :: u16)) :: u8) = b2"
proof -
  have "unat (of_nat (b1 + b2 * 256) :: u16) = b1 + b2 * 256"
    using assms by (subst unat_of_nat) simp
  then show "unat (ucast (of_nat (b1 + b2 * 256) :: u16) :: u8) = b1"
    "unat (ucast (drop_bit 8 (of_nat (b1 + b2 * 256) :: u16)) :: u8) = b2"
    using assms by (simp_all only: unsigned_ucast_eq unsigned_drop_bit_eq) (simp_all add: take_bit_eq_mod drop_bit_eq_div)
qed

definition code_b1 :: "nat \<Rightarrow> nat" where "code_b1 i = i div gbk_ke2 + 0x81"
definition code_b2 :: "nat \<Rightarrow> nat" where "code_b2 i = (let b = i mod gbk_ke2 + 0x40 in if b > 0x7E then b + 1 else b)"

lemma gbk_code_bytes:
  assumes "i < gbk_size"
  shows "unat (ucast (gbk_code i) :: u8) = code_b1 i" "unat (ucast (drop_bit 8 (gbk_code i)) :: u8) = code_b2 i" "gbk_code i \<noteq> 0"
proof -
  have "i div gbk_ke2 < 126" "i mod gbk_ke2 < 190" using assms by (simp_all add: gbk_size_def gbk_ke2_def)
  then have b: "code_b1 i < 0xFF" "code_b2 i < 0xFF" "0x81 \<le> code_b1 i" unfolding code_b1_def code_b2_def Let_def by simp_all
  have e: "gbk_code i = of_nat (code_b1 i + code_b2 i * 256)" by (simp only: code_b1_def code_b2_def gbk_code_def Let_def)
  have b': "code_b1 i < 256" "code_b2 i < 256" using b by simp_all
  show c: "unat (ucast (gbk_code i) :: u8) = code_b1 i" "unat (ucast (drop_bit 8 (gbk_code i)) :: u8) = code_b2 i"
    unfolding e by (rule code_bytes [OF b'])+
  show "gbk_code i \<noteq> 0" using c(1) b(3) by (intro notI) simp
qed

text \<open>Reading the bytes of a code finds its entry.\<close>

lemma ucast_of_nat: "unat (l :: u8) = n \<Longrightarrow> (ucast l :: u32) = of_nat n"
  by (metis of_nat_unat)

lemma gbk_index:
  fixes l h :: u8
  assumes "unat l = q + 0x81" "unat h = m + k" "q < 126" "m < 256" "0x40 \<le> k"
  shows "unat ((ucast l - 0x81) * of_nat gbk_ke2 + (ucast h - of_nat k) :: u32) = q * gbk_ke2 + m"
proof -
  have "(ucast l :: u32) - 0x81 = of_nat q" "(ucast h :: u32) - of_nat k = of_nat m"
    using ucast_of_nat [OF assms(1)] ucast_of_nat [OF assms(2)] by simp_all
  then have "(ucast l - 0x81) * of_nat gbk_ke2 + (ucast h - of_nat k) = (of_nat (q * gbk_ke2 + m) :: u32)" by simp
  then show ?thesis using assms(3,4) by (simp only: unat_of_nat) (simp add: gbk_ke2_def)
qed

lemma gbk_decode_code:
  assumes "i < gbk_size" "length tbl = gbk_size"
  shows "gbk_to_unicode tbl (ucast (gbk_code i) # ucast (drop_bit 8 (gbk_code i)) # r) =
    map_option (\<lambda>ws. ucast (tbl ! i) # ws) (gbk_to_unicode tbl r)"
proof -
  define l h where lh: "l = (ucast (gbk_code i) :: u8)" "h = (ucast (drop_bit 8 (gbk_code i)) :: u8)"
  let ?q = "i div gbk_ke2" and ?m = "i mod gbk_ke2"
  have l: "unat l = ?q + 0x81" using gbk_code_bytes [OF assms(1)] by (simp add: lh code_b1_def)
  have q: "?q < 126" "?m < 190" using assms(1) by (simp_all add: gbk_size_def gbk_ke2_def)
  have "(ucast l :: u32) - 0x81 = of_nat ?q" using ucast_of_nat [OF l] by simp
  then have lead: "\<not> of_nat gbk_ke1 \<le> (ucast l :: u32) - 0x81"
    using q by (simp add: word_le_nat_alt gbk_ke1_def unat_of_nat)
  show ?thesis
  proof (cases "?m + 0x40 > 0x7E")
    case True
    then have h: "unat h = ?m + 0x41" using gbk_code_bytes [OF assms(1)] by (simp add: lh code_b2_def)
    have "unat ((ucast l - 0x81) * of_nat gbk_ke2 + (ucast h - 0x41) :: u32) = i"
      using gbk_index [OF l h] q by simp
    then show ?thesis using lead h True q assms unfolding lh [symmetric]
      by (simp add: Let_def word_le_nat_alt gbk_get_def map_option_case split: option.splits)
  next
    case False
    then have h: "unat h = ?m + 0x40" using gbk_code_bytes [OF assms(1)] by (simp add: lh code_b2_def)
    have "unat ((ucast l - 0x81) * of_nat gbk_ke2 + (ucast h - 0x40) :: u32) = i"
      using gbk_index [OF l h] q by simp
    then show ?thesis using lead h False q assms unfolding lh [symmetric]
      by (simp add: Let_def word_le_nat_alt gbk_get_def map_option_case split: option.splits)
  qed
qed

lemma gbk_decode_byte:
  assumes "unat uc < 0x81"
  shows "gbk_to_unicode tbl (uc # r) = map_option (\<lambda>ws. ucast uc # ws) (gbk_to_unicode tbl r)"
proof -
  have "unat ((ucast uc :: u32) - 0x81) \<ge> 126"
    using assms by (simp add: unat_sub_if' unsigned_ucast_eq take_bit_nat_eq_self)
  then show ?thesis
    by (simp add: Let_def word_le_nat_alt gbk_ke1_def map_option_case split: option.splits)
qed

subsection \<open>Whole texts\<close>

definition gbk_char :: "u16 list \<Rightarrow> u16 \<Rightarrow> bool" where
  "gbk_char tbl c \<longleftrightarrow> c < 0x81 \<or> c \<in> set tbl"

lemma gbk_init:
  assumes "length tbl = gbk_size"
  shows "\<exists>uni. GBKTable_init tbl (\<lambda>_. 0) = Some uni \<and>
    (\<forall>c. if c \<in> set tbl then \<exists>i < gbk_size. tbl ! i = c \<and> uni c = gbk_code i else uni c = 0)"
  using gbk_init_loop_ok [of gbk_size tbl "\<lambda>_. 0"] assms by (simp add: GBKTable_init_def gbk_size_eq)

lemma no_high_bits: "(ucast (c :: u16) :: u32) AND 0xFFFF0000 = 0"
proof -
  have "(0xFFFF0000 :: u32) = push_bit 16 (mask 16)" by (simp add: mask_eq_exp_minus_1)
  then have "\<not> bit (0xFFFF0000 :: u32) n" if "n < 16" for n using that by (simp only: bit_push_bit_iff) simp
  moreover have "\<not> bit (ucast c :: u32) n" if "\<not> n < 16" for n
    using that bit_imp_le_length [of c n] by (auto simp: bit_ucast_iff)
  ultimately show ?thesis by (intro bit_word_eqI) (metis bit_0_eq bit_and_iff bot_apply bot_bool_def)
qed

lemma gbk_decode_encode:
  fixes c :: u16
  assumes tbl: "length tbl = gbk_size" and c: "gbk_char tbl c"
    and uni: "if c \<in> set tbl then \<exists>i < gbk_size. tbl ! i = c \<and> uni c = gbk_code i else uni c = 0"
  shows "gbk_to_unicode tbl (gbk_encode uni c @ r) = map_option (\<lambda>ws. c # ws) (gbk_to_unicode tbl r)"
proof (cases "c < 0x81")
  case True
  then have "unat (ucast c :: u8) = unat c" by (simp add: word_less_nat_alt unsigned_ucast_eq take_bit_nat_eq_self)
  moreover from arg_cong [OF this, of "of_nat :: nat \<Rightarrow> u16"] have "(ucast (ucast c :: u8) :: u16) = c" by (simp only: of_nat_unat ucast_id)
  ultimately show ?thesis using True gbk_decode_byte [of "ucast c" tbl r, where ?'a = 16]
    by (simp add: gbk_encode_def word_less_nat_alt unat_u16)
next
  case False
  then obtain i where i: "i < gbk_size" "tbl ! i = c" "uni c = gbk_code i" using c uni by (auto simp: gbk_char_def)
  then have "gbk_encode uni c = [ucast (gbk_code i), ucast (drop_bit 8 (gbk_code i))]"
    using False gbk_code_bytes(3) [OF i(1)] no_high_bits [of c]
    by (simp add: gbk_encode_def Let_def word_less_nat_alt unat_u16)
  then show ?thesis using gbk_decode_code [OF i(1) tbl, of r, where ?'a = 16] i(2) by simp
qed

lemma gbk_list:
  fixes ws :: "u16 list"
  assumes tbl: "length tbl = gbk_size" and ws: "list_all (gbk_char tbl) ws"
  shows "\<exists>bs. unicode_to_gbk tbl (\<lambda>_. 0) ws = Some bs \<and> gbk_to_unicode tbl bs = Some ws"
proof -
  obtain uni where uni: "GBKTable_init tbl (\<lambda>_. 0) = Some uni"
    "\<And>c. if c \<in> set tbl then \<exists>i < gbk_size. tbl ! i = c \<and> uni c = gbk_code i else uni c = 0"
    using gbk_init [OF tbl] by blast
  from ws have "gbk_to_unicode tbl (concat (map (gbk_encode uni) ws)) = Some ws"
    by (induction ws) (simp_all add: gbk_decode_encode [OF tbl _ uni(2)])
  then show ?thesis using uni(1) by (simp add: unicode_to_gbk_def)
qed

text \<open>Everything else is written as its low seven bits.\<close>

lemma gbk_lossy:
  fixes c :: u16
  assumes tbl: "length tbl = gbk_size" and c: "\<not> gbk_char tbl c"
  shows "unicode_to_gbk tbl (\<lambda>_. 0) [c] = Some [ucast c AND 0x7F]"
proof -
  obtain uni where uni: "GBKTable_init tbl (\<lambda>_. 0) = Some uni" "uni c = 0"
    using gbk_init [OF tbl] c by (auto simp: gbk_char_def)
  then show ?thesis using c no_high_bits [of c]
    by (simp add: unicode_to_gbk_def gbk_encode_def gbk_char_def Let_def word_less_nat_alt unat_u16)
qed

end
