(* ===== verification/Codecvt_Theorems.thy ===== *)
theory Codecvt_Theorems
  imports Gbk
begin

text \<open>The code conversions.\<close>

text \<open>C36. UTF-8, written and read back. A text of 16-bit units is always written and comes back
  unchanged; a text of 32-bit units is refused exactly if it holds a code above 0x10FFFF. But 32-bit
  codes from 0x800 on come back changed, since the reader keeps six bits of every leading byte and not
  only those that belong to the code.\<close>

theorem utf8_roundtrip:
  fixes ws :: "u16 list" and us :: "u32 list"
  shows "(\<exists>bs. unicode_to_utf8 ws = Some bs \<and> utf8_to_unicode bs = Some ws) \<and>
    (unicode_to_utf8 us = None \<longleftrightarrow> \<not> list_all (\<lambda>c. c < 0x110000) us) \<and>
    (list_all (\<lambda>c. c < 0x110000) us \<longrightarrow>
      (\<exists>bs. unicode_to_utf8 us = Some bs \<and> utf8_to_unicode bs = Some (map reread us) \<and>
        (map reread us = us \<longleftrightarrow> list_all (\<lambda>c. c < 0x800) us)))"
proof (intro conjI impI)
  show "\<exists>bs. unicode_to_utf8 ws = Some bs \<and> utf8_to_unicode bs = Some ws"
    by (rule utf8_u16)
  show "unicode_to_utf8 us = None \<longleftrightarrow> \<not> list_all (\<lambda>c. c < 0x110000) us"
    using utf8_refused [of us] utf8_list [of us] by (auto simp: ucast_id)
  assume us: "list_all (\<lambda>c. c < 0x110000) us"
  have "map reread us = us \<longleftrightarrow> list_all (\<lambda>c. c < 0x800) us"
    using us by (induction us) (simp_all add: reread_same)
  then show "\<exists>bs. unicode_to_utf8 us = Some bs \<and> utf8_to_unicode bs = Some (map reread us) \<and>
      (map reread us = us \<longleftrightarrow> list_all (\<lambda>c. c < 0x800) us)"
    using utf8_list [of us] us by (simp add: ucast_id)
qed

theorem utf8_roundtrip_witness:
  "\<exists>bs. unicode_to_utf8 [0x41, 0x20AC :: u32] = Some bs \<and> utf8_to_unicode bs = Some [0x41, 0x220AC :: u32]"
  using utf8_roundtrip [of "[]" "[0x41, 0x20AC]"] by (auto simp: reread_def)

text \<open>C37. GBK. For every table of the length of \<open>g_gkb_table\<close>, a text of 16-bit units that are in the
  table or below 0x81 is written as GBK and comes back unchanged, and the detour over UTF-8 gives the
  same bytes; every other unit is cut down to seven bits.\<close>

theorem gbk_roundtrip:
  fixes ws :: "u16 list"
  assumes "length tbl = gbk_ke1 * gbk_ke2"
  shows "(list_all (\<lambda>c. c < 0x81 \<or> c \<in> set tbl) ws \<longrightarrow>
      (\<exists>bs us. unicode_to_gbk tbl (\<lambda>_. 0) ws = Some bs \<and> gbk_to_unicode tbl bs = Some ws \<and>
        gbk_to_utf8 tbl bs = Some us \<and> unicode_to_utf8 ws = Some us \<and> utf8_to_gbk tbl (\<lambda>_. 0) us = Some bs)) \<and>
    (\<not> (c < 0x81 \<or> c \<in> set tbl) \<longrightarrow> unicode_to_gbk tbl (\<lambda>_. 0) [c] = Some [ucast c AND 0x7F])"
proof (intro conjI impI)
  have tbl: "length tbl = gbk_size" using assms by (simp only: gbk_size_eq)
  show "\<exists>bs us. unicode_to_gbk tbl (\<lambda>_. 0) ws = Some bs \<and> gbk_to_unicode tbl bs = Some ws \<and>
      gbk_to_utf8 tbl bs = Some us \<and> unicode_to_utf8 ws = Some us \<and> utf8_to_gbk tbl (\<lambda>_. 0) us = Some bs"
    if ws: "list_all (\<lambda>c. c < 0x81 \<or> c \<in> set tbl) ws"
  proof -
    obtain bs where "unicode_to_gbk tbl (\<lambda>_. 0) ws = Some bs" "gbk_to_unicode tbl bs = Some ws"
      using gbk_list [OF tbl] ws unfolding gbk_char_def by blast
    moreover obtain us where "unicode_to_utf8 ws = Some us" "utf8_to_unicode us = Some ws"
      using utf8_u16 by blast
    ultimately show ?thesis by (auto simp: gbk_to_utf8_def utf8_to_gbk_def)
  qed
  show "unicode_to_gbk tbl (\<lambda>_. 0) [c] = Some [ucast c AND 0x7F]" if "\<not> (c < 0x81 \<or> c \<in> set tbl)"
    using gbk_lossy [OF tbl] that unfolding gbk_char_def by blast
qed

theorem gbk_roundtrip_witness:
  "(\<exists>bs. unicode_to_gbk (replicate 23940 0x4E02) (\<lambda>_. 0) [0x41, 0x4E02 :: u16] = Some bs \<and>
      gbk_to_unicode (replicate 23940 0x4E02) bs = Some [0x41, 0x4E02 :: u16]) \<and>
    unicode_to_gbk (replicate 23940 0x4E02) (\<lambda>_. 0) [0x4E03 :: u16] = Some [3]"
proof -
  have l: "length (replicate 23940 (0x4E02 :: u16)) = gbk_ke1 * gbk_ke2" by (simp add: gbk_ke1_def gbk_ke2_def)
  show ?thesis using gbk_roundtrip [OF l, of "[0x41, 0x4E02]" "0x4E03"] by (auto simp: set_replicate_conv_if)
qed

end
