(* ===== verification/Buffer_Number.thy ===== *)
theory Buffer_Number
  imports Buffer_Parse
begin

text \<open>
  The readers of numbers and complex numbers (\<open>read_element\<close> in \<open>inc/vhwd/collection/linear_buffer.h\<close>),
  and that \<open>parse\<close> returns. A number is read as the integer of its digits and a decimal
  exponent; what the standard library makes of them, \<open>(E)(float64_t(p1)*pow(10.0,s1))\<close>, is the
  argument \<open>conv\<close>.
\<close>

definition read_number :: "(64 word \<Rightarrow> i32 \<Rightarrow> 'e) \<Rightarrow> linear_buffer \<Rightarrow> (linear_buffer \<times> 'e) outcome" where
  "read_number conv lb = andthen (read_integer lb) (\<lambda>(lb, p1, s1). andthen (nothrow (lb_peek1 lb)) (\<lambda>val.
     if val = 100 \<or> val = 68 \<or> val = 101 \<or> val = 69 then
       andthen (nothrow (lb_get lb)) (\<lambda>(lb, _). andthen (read_integer lb) (\<lambda>(lb, p2, s2).
         if s2 \<noteq> 0 then throw (XError ''Invalid_number:exponent with dot'')
         else ret (lb, conv p1 (ucast (p2 - signed s1)))))
     else ret (lb, conv p1 (- s1))))"

text \<open>A complex number is \<open>(re,im)\<close> or \<open>re imi\<close>.\<close>

definition expect :: "(u8 \<Rightarrow> bool) \<Rightarrow> string \<Rightarrow> linear_buffer \<Rightarrow> (linear_buffer \<times> unit) outcome" where
  "expect P msg lb = andthen (nothrow (lb_get lb)) (\<lambda>(lb, val).
     if \<not> P val then andthen (lb_unget lb) (\<lambda>_. throw (XError msg)) else ret (lb, ()))"

definition read_complex :: "(linear_buffer \<Rightarrow> (linear_buffer \<times> 'e) outcome) \<Rightarrow> linear_buffer \<Rightarrow> (linear_buffer \<times> 'e \<times> 'e) outcome" where
  "read_complex el lb = andthen (nothrow (lb_peek1 lb)) (\<lambda>val.
     if val = 40 then
       andthen (nothrow (lb_get lb)) (\<lambda>(lb, _).
       andthen (skip_space lb) (\<lambda>lb.
       andthen (el lb) (\<lambda>(lb, re).
       andthen (skip_space lb) (\<lambda>lb.
       andthen (expect (\<lambda>c. c = 44) ''unexpecter_character'' lb) (\<lambda>(lb, _).
       andthen (skip_space lb) (\<lambda>lb.
       andthen (el lb) (\<lambda>(lb, im).
       andthen (skip_space lb) (\<lambda>lb.
       andthen (expect (\<lambda>c. c = 41) ''unexpecter_character'' lb) (\<lambda>(lb, _). ret (lb, re, im))))))))))
     else
       andthen (el lb) (\<lambda>(lb, re).
       andthen (skip_space lb) (\<lambda>lb.
       andthen (el lb) (\<lambda>(lb, im).
       andthen (expect (\<lambda>c. c = 105 \<or> c = 106) ''Invalid_complex'' lb) (\<lambda>(lb, _). ret (lb, re, im))))))"

subsection \<open>Readers take a part of the buffer\<close>

text \<open>\<open>takes m ys r\<close>: throws, or has consumed some of \<open>ys\<close>, at least \<open>m\<close> bytes or all of it.\<close>

definition takes :: "nat \<Rightarrow> u8 list \<Rightarrow> (linear_buffer \<times> 'a) outcome \<Rightarrow> bool" where
  "takes m ys r \<longleftrightarrow> (\<exists>x. r = throw x) \<or> (\<exists>lb v n. r = ret (lb, v) \<and> m \<le> n \<and> lb_holds lb (drop n ys))"

abbreviation takes0 :: "u8 list \<Rightarrow> linear_buffer outcome \<Rightarrow> bool" where
  "takes0 ys r \<equiv> takes 0 ys (andthen r (\<lambda>lb. ret (lb, ())))"

lemma takes_throw: "takes m ys (throw x)"
  by (simp add: takes_def)

lemma takes_ret: "lb_holds lb ys \<Longrightarrow> takes 0 ys (ret (lb, v))"
  unfolding takes_def by (intro disjI2 exI [of _ lb] exI [of _ v] exI [of _ 0]) simp

lemma takes_then:
  assumes "takes m ys r" and f: "\<And>lb v ys. lb_holds lb ys \<Longrightarrow> takes k ys (f (lb, v))"
  shows "takes (m + k) ys (andthen r f)"
proof -
  consider x where "r = throw x" | lb v n where "r = ret (lb, v)" "m \<le> n" "lb_holds lb (drop n ys)"
    using assms(1) by (auto simp: takes_def)
  then show ?thesis
  proof cases
    case 2
    from f [OF 2(3), of v] show ?thesis
    proof (unfold takes_def drop_drop, elim disjE exE conjE)
      fix lb' v' n' assume "f (lb, v) = ret (lb', v')" "k \<le> n'" "lb_holds lb' (drop (n' + n) ys)"
      then show "(\<exists>x. andthen r f = throw x) \<or> (\<exists>lb v n. andthen r f = ret (lb, v) \<and> m + k \<le> n \<and> lb_holds lb (drop n ys))"
        using 2(1,2) by (intro disjI2 exI [of _ lb'] exI [of _ v'] exI [of _ "n' + n"]) simp
    qed (simp add: 2(1))
  qed (simp add: takes_throw)
qed

lemma takes_weaken: "takes m ys r \<Longrightarrow> k \<le> m \<Longrightarrow> takes k ys r"
  by (auto simp: takes_def dest: le_trans)

lemma takes_first: "takes m ys r \<Longrightarrow> (\<And>lb v ys. lb_holds lb ys \<Longrightarrow> takes 0 ys (f (lb, v))) \<Longrightarrow> takes m ys (andthen r f)"
  using takes_then [of m ys r 0 f] by simp

lemma takes0_then:
  assumes "takes0 ys r" and "\<And>lb ys. lb_holds lb ys \<Longrightarrow> takes k ys (f lb)"
  shows "takes k ys (andthen r f)"
proof -
  have "takes (0 + k) ys (andthen (andthen r (\<lambda>lb. ret (lb, ()))) (\<lambda>(lb, _). f lb))"
    by (rule takes_then [OF assms(1)]) (use assms(2) in simp)
  moreover have "andthen (andthen r (\<lambda>lb. ret (lb, ()))) (\<lambda>(lb, _). f lb) = andthen r f"
    by (cases r rule: option.exhaust [case_product sum.exhaust]) (auto simp: andthen_def split: sum.splits)
  ultimately show ?thesis by simp
qed

lemma peek_any:
  assumes "lb_holds lb ys"
  shows "\<exists>c. lb_peek1 lb = Some c \<and> (ys \<noteq> [] \<longrightarrow> c = hd ys)"
proof (cases ys)
  case Nil
  then show ?thesis using lb_eof_iff [OF assms] by (simp add: lb_peek1_def)
next
  case (Cons y zs)
  then show ?thesis using lb_head(1) assms by auto
qed

lemma get_takes: "lb_holds lb ys \<Longrightarrow> takes 1 ys (nothrow (lb_get lb))"
proof (cases ys)
  case Nil
  assume "lb_holds lb ys"
  then show ?thesis using lb_eof_iff [of lb ys] Nil by (auto simp: lb_get_def takes_def)
next
  case (Cons y zs)
  assume "lb_holds lb ys"
  then show ?thesis using lb_head [of lb y zs] Cons unfolding takes_def by (intro disjI2) fastforce
qed

lemma skip_takes: "lb_holds lb ys \<Longrightarrow> takes0 ys (skip_space lb) \<and> takes0 ys (skip_line lb)"
proof (induction ys arbitrary: lb)
  case Nil
  then show ?case using lb_eof_iff [OF Nil] by (simp add: skip_space.simps [of lb] skip_line.simps [of lb] takes_ret)
next
  case (Cons y ys)
  note H = lb_head [OF Cons.prems]
  have IH: "takes0 ys (skip_space (lb\<lparr>lb_rd := lb_rd lb + 1\<rparr>)) \<and> takes0 ys (skip_line (lb\<lparr>lb_rd := lb_rd lb + 1\<rparr>))"
    by (rule Cons.IH [OF H(3)])
  have up: "takes0 ys r \<Longrightarrow> takes0 (y # ys) r" for r
    unfolding takes_def by (elim disjE exE conjE, blast, intro disjI2, metis drop_Suc_Cons le0)
  have e: "\<not> lb_eof lb" using lb_eof_iff [OF Cons.prems] by simp
  then show ?case
    using up IH H takes_ret [OF Cons.prems, of "()"] by (auto simp: skip_space.simps [of lb] skip_line.simps [of lb])
qed

lemma read_digits_takes:
  "lb_holds lb ys \<Longrightarrow> (\<exists>x. read_digits lb vv gg kk dt = throw x) \<or>
    (\<exists>lb' vv' gg' kk' b n. read_digits lb vv gg kk dt = ret (lb', vv', gg', kk', b) \<and> lb_holds lb' (drop n ys) \<and>
      (b \<and> n = 0 \<longrightarrow> kk' = kk) \<and> (\<not> b \<longrightarrow> drop n ys = []))"
proof (induction ys arbitrary: lb vv gg kk dt)
  case Nil
  then have "read_digits lb vv gg kk dt = ret (lb, vv, gg, kk, False)"
    using lb_eof_iff [OF Nil] by (simp add: read_digits.simps [of lb])
  then show ?case using Nil by fastforce
next
  case (Cons y ys)
  note H = lb_head [OF Cons.prems]
  have up: "(\<exists>x. read_digits (lb\<lparr>lb_rd := lb_rd lb + 1\<rparr>) vv gg kk dt = throw x) \<or>
    (\<exists>lb' vv' gg' kk' b n. read_digits (lb\<lparr>lb_rd := lb_rd lb + 1\<rparr>) vv gg kk dt = ret (lb', vv', gg', kk', b) \<and>
      lb_holds lb' (drop n (y # ys)) \<and> (b \<and> n = 0 \<longrightarrow> kk' = k) \<and> (\<not> b \<longrightarrow> drop n (y # ys) = []))" for vv gg kk dt k
    using Cons.IH [OF H(3), of vv gg kk dt] by (metis drop_Suc_Cons nat.distinct(1))
  have e: "\<not> lb_eof lb" using lb_eof_iff [OF Cons.prems] by simp
  let ?d = "(signed y :: u32) - 48"
  consider "?d > 10" "y = 46" "dt = 1" | "?d > 10" "y = 46" "dt \<noteq> 1" | "?d > 10" "y \<noteq> 46" | "\<not> ?d > 10" by blast
  then show ?case
  proof cases
    case 2
    with e H up [of vv gg kk 1 kk] show ?thesis by (simp add: read_digits.simps [of lb])
  next
    case 3
    then have "read_digits lb vv gg kk dt = ret (lb, vv, gg, kk, True)" using e H by (simp add: read_digits.simps [of lb])
    then show ?thesis using Cons.prems by (metis drop0)
  next
    case 4
    with e H up [of "vv * 10 + ucast ?d" "gg + dt" "kk + 1" dt kk] show ?thesis by (simp add: read_digits.simps [of lb])
  qed (use e H in \<open>simp add: read_digits.simps [of lb]\<close>)
qed

lemma read_integer_takes:
  assumes h: "lb_holds lb ys"
  shows "takes 1 ys (read_integer lb)"
proof -
  obtain c where c: "lb_peek1 lb = Some c" using peek_any [OF h] by blast
  let ?tail = "\<lambda>sign1 r. case r of (lb, vv, gg, kk, broken) \<Rightarrow>
       if \<not> broken then ret (lb, vv, gg)
       else if kk = 0 then throw (XError ''Invalid_number'')
       else ret (lb, if sign1 then - vv else vv, gg)"
  have digits: "takes 1 zs (andthen (read_digits lb' 0 0 0 0) (?tail sign1))" if z: "lb_holds lb' zs" for lb' zs sign1
  proof -
    consider x where "read_digits lb' 0 0 0 0 = throw x"
      | lb2 vv gg kk b n where "read_digits lb' 0 0 0 0 = ret (lb2, vv, gg, kk, b)" "lb_holds lb2 (drop n zs)"
        "b \<and> n = 0 \<longrightarrow> kk = 0" "\<not> b \<longrightarrow> drop n zs = []"
      using read_digits_takes [OF z, of 0 0 0 0] by blast
    then show ?thesis
    proof cases
      case 1
      then show ?thesis by (simp add: takes_throw)
    next
      case 2
      show ?thesis
      proof (cases "b \<and> kk = 0")
        case True
        then show ?thesis by (simp add: 2(1) takes_throw)
      next
        case False
        then have "b \<longrightarrow> 1 \<le> n" "\<not> b \<longrightarrow> drop (max 1 n) zs = drop n zs" using 2(3,4) by auto
        then have "1 \<le> (if b then n else max 1 n)" "lb_holds lb2 (drop (if b then n else max 1 n) zs)" using 2(2) by auto
        then show ?thesis using False by (auto simp: 2(1) takes_def)
      qed
    qed
  qed
  have signed: "takes 1 ys (andthen (nothrow (lb_get lb)) (\<lambda>(lb', _). andthen (read_digits lb' 0 0 0 0) (?tail sign1)))" for sign1
  proof -
    have "takes (1 + 1) ys (andthen (nothrow (lb_get lb)) (\<lambda>(lb', _). andthen (read_digits lb' 0 0 0 0) (?tail sign1)))"
      by (rule takes_then [OF get_takes [OF h]]) (use digits in simp)
    then show ?thesis by (rule takes_weaken) simp
  qed
  consider "c = 43" | "c = 45" | "c \<noteq> 43" "c \<noteq> 45" by blast
  then show ?thesis
  proof cases
    case 1
    then show ?thesis using signed [of False] c by (cases "lb_get lb") (auto simp: read_integer_def)
  next
    case 2
    then show ?thesis using signed [of True] c by (cases "lb_get lb") (auto simp: read_integer_def)
  next
    case 3
    then show ?thesis using digits [OF h, of False] c by (simp add: read_integer_def)
  qed
qed

lemma read_number_takes:
  assumes h: "lb_holds lb ys"
  shows "takes 1 ys (read_number conv lb)"
proof -
  have "takes (1 + 0) ys (read_number conv lb)"
    unfolding read_number_def
  proof (rule takes_then [OF read_integer_takes [OF h]])
    fix lb and r :: "64 word \<times> i32" and ys assume h: "lb_holds lb ys"
    obtain p1 s1 where r: "r = (p1, s1)" by force
    obtain c where c: "lb_peek1 lb = Some c" using peek_any [OF h] by blast
    have tail: "takes 0 ys (andthen (read_integer lb) (\<lambda>(lb, p2, s2).
         if s2 \<noteq> 0 then throw (XError ''Invalid_number:exponent with dot'') else ret (lb, conv p1 (ucast (p2 - signed s1)))))"
      if "lb_holds lb ys" for lb ys
      by (rule takes_first [OF takes_weaken [OF read_integer_takes [OF that]]]) (auto intro: takes_throw takes_ret)
    have "takes 1 ys (andthen (nothrow (lb_get lb)) (\<lambda>(lb, _). andthen (read_integer lb) (\<lambda>(lb, p2, s2).
         if s2 \<noteq> 0 then throw (XError ''Invalid_number:exponent with dot'') else ret (lb, conv p1 (ucast (p2 - signed s1))))))"
      by (rule takes_first [OF get_takes [OF h]]) (use tail in simp)
    then show "takes 0 ys (case (lb, r) of (lb, p1, s1) \<Rightarrow> andthen (nothrow (lb_peek1 lb)) (\<lambda>val.
       if val = 100 \<or> val = 68 \<or> val = 101 \<or> val = 69 then
         andthen (nothrow (lb_get lb)) (\<lambda>(lb, _). andthen (read_integer lb) (\<lambda>(lb, p2, s2).
           if s2 \<noteq> 0 then throw (XError ''Invalid_number:exponent with dot'') else ret (lb, conv p1 (ucast (p2 - signed s1)))))
       else ret (lb, conv p1 (- s1))))"
      using takes_ret [OF h] by (auto simp: r c elim: takes_weaken)
  qed
  then show ?thesis by simp
qed

lemma expect_takes: "lb_holds lb ys \<Longrightarrow> takes 0 ys (expect P msg lb)"
  unfolding expect_def
  by (rule takes_first [OF takes_weaken [OF get_takes]])
    (auto simp: lb_unget_def intro: takes_throw takes_ret)

lemma read_complex_takes:
  assumes el: "\<And>lb ys. lb_holds lb ys \<Longrightarrow> takes 1 ys (el lb)" and h: "lb_holds lb ys"
  shows "takes 1 ys (read_complex el lb)"
proof -
  obtain c where c: "lb_peek1 lb = Some c" using peek_any [OF h] by blast
  have el0: "takes 0 ys (el lb)" if "lb_holds lb ys" for lb ys using takes_weaken [OF el [OF that]] by simp
  note skip = conjunct1 [OF skip_takes]
  show ?thesis
  proof (cases "c = 40")
    case True
    have "takes 1 ys (andthen (nothrow (lb_get lb)) (\<lambda>(lb, _).
       andthen (skip_space lb) (\<lambda>lb.
       andthen (el lb) (\<lambda>(lb, re).
       andthen (skip_space lb) (\<lambda>lb.
       andthen (expect (\<lambda>c. c = 44) ''unexpecter_character'' lb) (\<lambda>(lb, _).
       andthen (skip_space lb) (\<lambda>lb.
       andthen (el lb) (\<lambda>(lb, im).
       andthen (skip_space lb) (\<lambda>lb.
       andthen (expect (\<lambda>c. c = 41) ''unexpecter_character'' lb) (\<lambda>(lb, _). ret (lb, re, im)))))))))))"
      by (rule takes_first [OF get_takes [OF h]])
        (auto intro!: takes0_then [OF skip] takes_first [OF el0] takes_first [OF expect_takes] takes_ret)
    then show ?thesis using c True by (simp add: read_complex_def)
  next
    case False
    have "takes 1 ys (andthen (el lb) (\<lambda>(lb, re).
       andthen (skip_space lb) (\<lambda>lb.
       andthen (el lb) (\<lambda>(lb, im).
       andthen (expect (\<lambda>c. c = 105 \<or> c = 106) ''Invalid_complex'' lb) (\<lambda>(lb, _). ret (lb, re, im))))))"
      by (rule takes_first [OF el [OF h]])
        (auto intro!: takes0_then [OF skip] takes_first [OF el0] takes_first [OF expect_takes] takes_ret)
    then show ?thesis using c False by (simp add: read_complex_def)
  qed
qed

lemma read_word_takes: "lb_holds lb ys \<Longrightarrow> takes 0 ys (nothrow (read_word lb acc))"
proof (induction ys arbitrary: lb acc)
  case Nil
  then show ?case using lb_eof_iff [OF Nil] by (simp add: read_word.simps [of lb] takes_ret)
next
  case (Cons y ys)
  note H = lb_head [OF Cons.prems]
  have "takes 0 (y # ys) (nothrow (read_word (lb\<lparr>lb_rd := lb_rd lb + 1\<rparr>) (acc @ [y])))"
    using Cons.IH [OF H(3), of "acc @ [y]"] unfolding takes_def by (metis drop_Suc_Cons le0)
  then show ?case
    using H lb_eof_iff [OF Cons.prems] takes_ret [OF Cons.prems, of acc] by (simp add: read_word.simps [of lb])
qed

lemma read_string_takes:
  assumes h: "lb_holds lb (y # ys)" and y: "word_char y"
  shows "takes 1 (y # ys) (read_string lb)"
proof -
  note H = lb_head [OF h]
  have "takes 1 (y # ys) (nothrow (read_word (lb\<lparr>lb_rd := lb_rd lb + 1\<rparr>) [y]))"
    using read_word_takes [OF H(3), of "[y]"] unfolding takes_def by (metis One_nat_def drop_Suc_Cons le_add1 plus_1_eq_Suc)
  then show ?thesis
    using H lb_eof_iff [OF h] y by (simp add: read_string_def read_word.simps [of lb] word_char_def)
qed

subsection \<open>\<open>parse\<close> ends\<close>

lemma takes_Suc: "takes m ys r \<Longrightarrow> takes (Suc m) (y # ys) r"
  unfolding takes_def by (metis Suc_le_mono drop_Suc_Cons)

lemma skip_space_progress: "lb_holds lb (y # ys) \<Longrightarrow> y = 9 \<or> y = 32 \<Longrightarrow> takes 1 (y # ys) (andthen (skip_space lb) (\<lambda>lb. ret (lb, ())))"
  using takes_Suc [OF conjunct1 [OF skip_takes [OF lb_head(3)]], of lb y ys y] lb_head [of lb y ys] lb_eof_iff [of lb "y # ys"]
  by (auto simp: skip_space.simps [of lb])

lemma flip_one: "lb_rd_flip lb 1 = lb\<lparr>lb_rd := lb_rd lb + 1\<rparr>"
  by (simp add: lb_rd_flip_def)

lemma skip_comment_progress:
  assumes h: "lb_holds lb (y # ys)"
  shows "takes 1 (y # ys) (andthen (skip_comment1 lb) (\<lambda>lb. ret (lb, ())))"
    "takes 1 (y # ys) (andthen (skip_comment2 lb) (\<lambda>lb. ret (lb, ())))"
proof -
  note h1 = lb_head(3) [OF h]
  show "takes 1 (y # ys) (andthen (skip_comment2 lb) (\<lambda>lb. ret (lb, ())))"
    using takes_Suc [OF conjunct2 [OF skip_takes [OF h1]]] by (simp add: skip_comment2_def flip_one)
  have "takes 0 ys (andthen (nothrow (lb_get (lb_rd_flip lb 1))) (\<lambda>(lb, val).
     if val \<noteq> 47 then throw (XError '''/' expected'') else andthen (skip_line lb) (\<lambda>lb. ret (lb, ()))))"
    unfolding flip_one
    by (rule takes_first [OF takes_weaken [OF get_takes [OF h1]]]) (use skip_takes in \<open>auto intro: takes_throw\<close>)
  moreover obtain r where "lb_get (lb_rd_flip lb 1) = Some r" using get_takes [OF h1] unfolding flip_one
    by (cases "lb_get (lb\<lparr>lb_rd := lb_rd lb + 1\<rparr>)") (auto simp: takes_def)
  ultimately have "takes 0 ys (andthen (skip_comment1 lb) (\<lambda>lb. ret (lb, ())))"
    by (cases r) (auto simp: skip_comment1_def split: if_splits)
  then show "takes 1 (y # ys) (andthen (skip_comment1 lb) (\<lambda>lb. ret (lb, ())))" using takes_Suc by fastforce
qed

text \<open>A reader of elements that throws or moves on from every byte that can begin an element.\<close>

locale element_reader =
  fixes el :: "linear_buffer \<Rightarrow> (linear_buffer \<times> 'e) outcome"
    and ok :: "u8 \<Rightarrow> bool"
  assumes el_takes: "lb_holds lb (y # ys) \<Longrightarrow> ok y \<Longrightarrow> y \<notin> {9, 10, 13, 32, 37, 47} \<Longrightarrow> takes 1 (y # ys) (el lb)"
begin

definition ended :: "(linear_buffer \<times> 'e list \<times> int) outcome \<Rightarrow> bool" where
  "ended r \<longleftrightarrow> (\<exists>x. r = throw x) \<or> (\<exists>lb es ln. r = ret (lb, es, ln) \<and> lb_holds lb [])"

lemma ended_step:
  assumes IH: "\<And>lb zs tmp ln tn. length zs < length ys \<Longrightarrow> lb_holds lb zs \<Longrightarrow> list_all ok zs \<Longrightarrow> ended (parse_loop el lb tmp ln tn)"
    and ys: "ys \<noteq> []" "list_all ok ys" and r: "takes 1 ys r" and f: "\<And>lb v. \<exists>tmp ln tn. f (lb, v) = parse_loop el lb tmp ln tn"
  shows "ended (andthen r f)"
proof -
  consider x where "r = throw x" | lb' v n where "r = ret (lb', v)" "1 \<le> n" "lb_holds lb' (drop n ys)"
    using r by (auto simp: takes_def)
  then show ?thesis
  proof cases
    case 1
    then show ?thesis by (simp add: ended_def)
  next
    case 2
    obtain tmp ln tn where "f (lb', v) = parse_loop el lb' tmp ln tn" using f by blast
    moreover have "list_all ok (drop n ys)" using ys(2) by (auto simp: list_all_iff dest: in_set_dropD)
    ultimately show ?thesis using IH [OF _ 2(3)] 2(1,2) ys(1) by simp
  qed
qed

lemma parse_loop_ends: "lb_holds lb ys \<Longrightarrow> list_all ok ys \<Longrightarrow> ended (parse_loop el lb tmp ln tn)"
proof (induction "length ys" arbitrary: lb ys tmp ln tn rule: less_induct)
  case less
  show ?case
  proof (cases ys)
    case Nil
    then show ?thesis using less.prems lb_eof_iff [of lb] by (simp add: parse_loop.simps [of el lb] ended_def)
  next
    case (Cons y zs)
    have h: "lb_holds lb (y # zs)" and ok: "ok y" and ne: "ys \<noteq> []" using less.prems Cons by simp_all
    note H = lb_head [OF h]
    have step: "ended (andthen r f)"
      if "takes 1 (y # zs) r" "\<And>lb v. \<exists>tmp ln tn. f (lb, v) = parse_loop el lb tmp ln tn"
      for r :: "(linear_buffer \<times> 'v) outcome" and f
      by (rule ended_step [of ys]) (use less.hyps ne less.prems(2) that Cons in simp_all)
    have e: "\<not> lb_eof lb" using lb_eof_iff [OF h] by simp
    note unfold = parse_loop.simps [of el lb] andthen_def
    consider "y = 47" | "y = 37" | "y = 9 \<or> y = 32" | "y = 13 \<or> y = 10" | "y \<notin> {9, 10, 13, 32, 37, 47}" by blast
    then show ?thesis
    proof cases
      case 1
      have "parse_loop el lb tmp ln tn = andthen (andthen (skip_comment1 lb) (\<lambda>lb. ret (lb, ()))) (\<lambda>(lb, _). parse_loop el lb tmp ln tn)"
        using 1 e H by (cases "skip_comment1 lb") (auto simp: unfold split: sum.splits)
      then show ?thesis by (rule ssubst) (rule step [OF skip_comment_progress(1) [OF h]]; simp only: prod.case fst_conv; blast)
    next
      case 2
      have "parse_loop el lb tmp ln tn = andthen (andthen (skip_comment2 lb) (\<lambda>lb. ret (lb, ()))) (\<lambda>(lb, _). parse_loop el lb tmp ln tn)"
        using 2 e H by (cases "skip_comment2 lb") (auto simp: unfold split: sum.splits)
      then show ?thesis by (rule ssubst) (rule step [OF skip_comment_progress(2) [OF h]]; simp only: prod.case fst_conv; blast)
    next
      case 3
      have "parse_loop el lb tmp ln tn = andthen (andthen (skip_space lb) (\<lambda>lb. ret (lb, ()))) (\<lambda>(lb, _). parse_loop el lb tmp ln tn)"
        using 3 e H by (cases "skip_space lb") (auto simp: unfold split: sum.splits)
      then show ?thesis by (rule ssubst) (rule step [OF skip_space_progress [OF h 3]]; simp only: prod.case fst_conv; blast)
    next
      case 4
      let ?f = "\<lambda>(lb, _ :: u8). parse_loop el lb tmp (if tn = 0 then ln else if ln = 0 then tn else if ln \<noteq> tn then - 1 else ln) 0"
      have "parse_loop el lb tmp ln tn = andthen (nothrow (lb_get lb)) ?f"
        using 4 e H by (auto simp: parse_loop.simps [of el lb])
      then show ?thesis by (rule ssubst) (rule step [OF get_takes [OF h]]; simp only: prod.case; blast)
    next
      case 5
      have "parse_loop el lb tmp ln tn = andthen (el lb) (\<lambda>r. parse_loop el (fst r) (tmp @ [snd r]) ln (tn + 1))"
        using 5 e H by (cases "el lb") (auto simp: unfold split: sum.splits)
      then show ?thesis by (rule ssubst) (rule step [OF el_takes [OF h ok 5]]; simp only: prod.case fst_conv; blast)
    qed
  qed
qed

end

interpretation string_reader: element_reader read_string "\<lambda>c. c \<noteq> 0"
proof
  fix lb y ys assume "lb_holds lb (y # ys)" "y \<noteq> 0" "y \<notin> {9, 10, 13, 32, 37, 47 :: u8}"
  then show "takes 1 (y # ys) (read_string lb)" by (intro read_string_takes) (auto simp: word_char_def)
qed

interpretation number_reader: element_reader "read_number conv" "\<lambda>_. True" for conv
  by unfold_locales (rule read_number_takes)

interpretation complex_reader: element_reader "read_complex (read_number conv)" "\<lambda>_. True" for conv
  by unfold_locales (rule read_complex_takes [OF read_number_takes])

end
