(* ===== verification/Arr_Xt.thy ===== *)
theory Arr_Xt
  imports Hashing
begin

text \<open>
  Arrays of up to six dimensions (\<open>inc/vhwd/collection/arr_xt.h\<close>, \<open>arr_xt_dims\<close> in
  \<open>detail/collection_base.h\<close>). The elements are in an \<open>arr_container\<close>, here the list that it holds
  (see \<open>Arr_Container\<close>); an element is accessed without a check of its index, so that an index
  outside the list is undefined.
\<close>

record 'a arr_xt =
  xt_impl :: "'a list"
  xt_dims :: "size_t list"

definition dims_reset :: "size_t list" where
  "dims_reset = [0, 1, 1, 1, 1, 1]"

definition xt_new :: "'a arr_xt" where
  "xt_new = \<lparr>xt_impl = [], xt_dims = dims_reset\<rparr>"

definition xt_clear :: "'a arr_xt \<Rightarrow> 'a arr_xt" where
  "xt_clear a = a\<lparr>xt_impl := [], xt_dims := dims_reset\<rparr>"

definition xt_swap :: "'a arr_xt \<Rightarrow> 'a arr_xt \<Rightarrow> 'a arr_xt \<times> 'a arr_xt" where
  "xt_swap a b = (a\<lparr>xt_impl := xt_impl b, xt_dims := xt_dims b\<rparr>, b\<lparr>xt_impl := xt_impl a, xt_dims := xt_dims a\<rparr>)"

definition xt_assign :: "'a arr_xt \<Rightarrow> 'a arr_xt \<Rightarrow> 'a arr_xt" where
  "xt_assign a b = a\<lparr>xt_impl := xt_impl b, xt_dims := xt_dims b\<rparr>"

text \<open>The place of \<open>(k0, k1, ...)\<close>: \<open>k0+dims[0]*(k1+dims[1]*...)\<close>, for one to six indices.\<close>

fun xt_offset :: "size_t list \<Rightarrow> size_t list \<Rightarrow> size_t" where
  "xt_offset ds [k] = k"
| "xt_offset (d # ds) (k # ks) = k + d * xt_offset ds ks"
| "xt_offset ds ks = 0"

definition xt_get :: "'a arr_xt \<Rightarrow> size_t list \<Rightarrow> 'a option" where
  "xt_get a ks = (let i = unat (xt_offset (xt_dims a) ks) in if i < length (xt_impl a) then Some (xt_impl a ! i) else None)"

definition xt_set :: "'a arr_xt \<Rightarrow> size_t list \<Rightarrow> 'a \<Rightarrow> 'a arr_xt option" where
  "xt_set a ks v = (let i = unat (xt_offset (xt_dims a) ks) in
     if i < length (xt_impl a) then Some (a\<lparr>xt_impl := (xt_impl a)[i := v]\<rparr>) else None)"

definition xt_size :: "'a arr_xt \<Rightarrow> nat" where
  "xt_size a = length (xt_impl a)"

definition xt_size_dim :: "'a arr_xt \<Rightarrow> nat \<Rightarrow> size_t option" where
  "xt_size_dim a n = (if n < length (xt_dims a) then Some (xt_dims a ! n) else None)"

text \<open>\<open>for(a=0; a<n; a++)\<close>.\<close>

primrec for_range :: "nat \<Rightarrow> (nat \<Rightarrow> 's \<Rightarrow> 's option) \<Rightarrow> 's \<Rightarrow> 's option" where
  "for_range 0 f s = Some s"
| "for_range (Suc n) f s = do { s \<leftarrow> for_range n f s; f n s }"

definition xt_copy_elem :: "'a arr_xt \<Rightarrow> nat list \<Rightarrow> 'a arr_xt \<Rightarrow> 'a arr_xt option" where
  "xt_copy_elem old ks tmp = do { x \<leftarrow> xt_get old (map of_nat ks); xt_set tmp (map of_nat ks) x }"

definition xt_copy :: "'a arr_xt \<Rightarrow> 'a arr_xt \<Rightarrow> 'a arr_xt option" where
  "xt_copy old new = (let lim = (\<lambda>i. unat (min (xt_dims old ! i) (xt_dims new ! i))) in
     for_range (lim 0) (\<lambda>a0. for_range (lim 1) (\<lambda>a1. for_range (lim 2) (\<lambda>a2.
     for_range (lim 3) (\<lambda>a3. for_range (lim 4) (\<lambda>a4. for_range (lim 5) (\<lambda>a5.
       xt_copy_elem old [a0, a1, a2, a3, a4, a5])))))) new)"

text \<open>\<open>resize\<close>: \<open>max_size\<close> and \<open>al\<close> tell what the allocator can give; new elements are \<open>d\<close>. The
  guards of the code divide from left to right.\<close>

definition xt_resize :: "(nat \<Rightarrow> bool) \<Rightarrow> size_t \<Rightarrow> 'a \<Rightarrow> 'a arr_xt \<Rightarrow> size_t \<Rightarrow> size_t list \<Rightarrow> 'a arr_xt outcome" where
  "xt_resize al max_size d a k0 ks = (let newsize = foldl (*) k0 ks in
     if (newsize > 0 \<and> k0 \<noteq> foldl (div) newsize ks) \<or> newsize > max_size then throw XBadAlloc
     else if \<not> al (unat newsize) then throw XBadAlloc
     else let tmp = \<lparr>xt_impl = replicate (unat newsize) d, xt_dims = k0 # ks\<rparr> in
       if newsize = 0 then ret tmp else nothrow (xt_copy a tmp))"

definition xt_eq :: "'a arr_xt \<Rightarrow> 'a arr_xt \<Rightarrow> bool" where
  "xt_eq a b \<longleftrightarrow> xt_size a = xt_size b \<and> (\<forall>i \<in> set [0 ..< 6]. xt_dims a ! i = xt_dims b ! i) \<and>
     (\<forall>i \<in> set [0 ..< xt_size a]. xt_impl a ! i = xt_impl b ! i)"

definition xt_hash :: "('a list \<Rightarrow> u32) \<Rightarrow> 'a arr_xt \<Rightarrow> u32" where
  "xt_hash hv a = xor (hv (xt_impl a)) (hash (xt_dims a))"

subsection \<open>Places in a box\<close>

text \<open>The indices below the dimensions, and their places as natural numbers.\<close>

definition box :: "nat list \<Rightarrow> nat list set" where
  "box ds = {ks. list_all2 (<) ks ds}"

fun place :: "nat list \<Rightarrow> nat list \<Rightarrow> nat" where
  "place (d # ds) (k # ks) = k + d * place ds ks"
| "place _ _ = 0"

lemma box_Nil [simp]: "box [] = {[]}"
  by (simp add: box_def)

lemma box_Cons: "box (d # ds) = {k # ks | k ks. k < d \<and> ks \<in> box ds}"
  by (auto simp: box_def list_all2_Cons2)

lemma box_length: "ks \<in> box ds \<Longrightarrow> length ks = length ds"
  by (simp add: box_def list_all2_lengthD)

lemma place_less: "ks \<in> box ds \<Longrightarrow> place ds ks < prod_list ds"
proof (induction ds arbitrary: ks)
  case (Cons d ds)
  then obtain k ks' where k: "ks = k # ks'" "k < d" "ks' \<in> box ds" by (auto simp: box_Cons)
  have "k + d * place ds ks' < d + d * place ds ks'" using k(2) by simp
  also have "\<dots> = d * Suc (place ds ks')" by simp
  also have "\<dots> \<le> d * prod_list ds" using Cons.IH [OF k(3)] by (intro mult_le_mono2) simp
  finally show ?case using k(1) by simp
qed simp

lemma box_empty: "prod_list ds = 0 \<Longrightarrow> box ds = {}"
  using place_less [of _ ds] by fastforce

lemma place_inj: "ks \<in> box ds \<Longrightarrow> ks' \<in> box ds \<Longrightarrow> place ds ks = place ds ks' \<Longrightarrow> ks = ks'"
proof (induction ds arbitrary: ks ks')
  case (Cons d ds)
  then obtain k l m n where k: "ks = k # l" "k < d" "l \<in> box ds" "ks' = m # n" "m < d" "n \<in> box ds" by (auto simp: box_Cons)
  then have e: "k + d * place ds l = m + d * place ds n" using Cons.prems(3) by simp
  then have "(k + d * place ds l) mod d = (m + d * place ds n) mod d" by simp
  then have "k = m" using k(2,5) by simp
  then have "place ds l = place ds n" using e k(2) by simp
  then show ?case using Cons.IH [OF k(3,6)] k(1,4) \<open>k = m\<close> by simp
qed simp

lemma xt_offset_place: "length ks = length ds \<Longrightarrow> xt_offset ds (map of_nat ks) = of_nat (place (map unat ds) ks)"
proof (induction ds "map of_nat ks :: size_t list" arbitrary: ks rule: xt_offset.induct)
  case (1 ds k)
  then show ?case by (cases ks; cases ds) (auto simp: neq_Nil_conv length_Suc_conv)
next
  case (2 d ds k v va)
  then obtain m ms where m: "ks = m # ms" "map of_nat ms = v # va" by auto
  then show ?case using 2(1) [of ms] 2(2,3) by simp
qed (auto simp: neq_Nil_conv)

subsection \<open>The loops\<close>

lemma for_range_inv:
  assumes "I 0 s" and "\<And>i s. i < n \<Longrightarrow> I i s \<Longrightarrow> \<exists>s'. f i s = Some s' \<and> I (Suc i) s'"
  shows "\<exists>s'. for_range n f s = Some s' \<and> I n s'"
  using assms(2)
proof (induction n)
  case (Suc n)
  obtain s' where s': "for_range n f s = Some s'" "I n s'" using Suc.IH Suc.prems by (meson less_SucI)
  with Suc.prems [OF lessI s'(2)] show ?case by auto
qed (use assms(1) in simp)

text \<open>Nested loops, by recursion on the limits.\<close>

primrec loops :: "nat list \<Rightarrow> (nat list \<Rightarrow> 's \<Rightarrow> 's option) \<Rightarrow> 's \<Rightarrow> 's option" where
  "loops [] f = f []"
| "loops (l # ls) f = for_range l (\<lambda>a. loops ls (\<lambda>p. f (a # p)))"

lemma loops_inv:
  assumes "P S s" and "\<And>p S s. p \<in> box ls \<Longrightarrow> P S s \<Longrightarrow> \<exists>s'. f p s = Some s' \<and> P (insert p S) s'"
  shows "\<exists>s'. loops ls f s = Some s' \<and> P (S \<union> box ls) s'"
  using assms
proof (induction ls arbitrary: P S s f)
  case Nil
  then show ?case using Nil(2) [of "[]" S s] by simp
next
  case (Cons l ls)
  let ?I = "\<lambda>i s. P (S \<union> {a # p | a p. a < i \<and> p \<in> box ls}) s"
  have "\<exists>s'. for_range l (\<lambda>a. loops ls (\<lambda>p. f (a # p))) s = Some s' \<and> ?I l s'"
  proof (rule for_range_inv [of ?I])
    show "?I 0 s" using Cons.prems(1) by simp
    fix i s assume i: "i < l" and I: "?I i s"
    let ?S = "S \<union> {a # p | a p. a < i \<and> p \<in> box ls}"
    let ?Q = "\<lambda>T s. P (?S \<union> Cons i ` T) s"
    have "\<exists>s'. loops ls (\<lambda>p. f (i # p)) s = Some s' \<and> ?Q ({} \<union> box ls) s'"
    proof (rule Cons.IH [of ?Q])
      show "?Q {} s" using I by simp
      fix p T s assume "p \<in> box ls" "?Q T s"
      then show "\<exists>s'. f (i # p) s = Some s' \<and> ?Q (insert p T) s'"
        using Cons.prems(2) [of "i # p" "?S \<union> Cons i ` T" s] i by (simp add: box_Cons)
    qed
    moreover have "?S \<union> Cons i ` ({} \<union> box ls) = S \<union> {a # p | a p. a < Suc i \<and> p \<in> box ls}" by (auto simp: less_Suc_eq)
    ultimately show "\<exists>s'. loops ls (\<lambda>p. f (i # p)) s = Some s' \<and> ?I (Suc i) s'" by simp
  qed
  moreover have "{a # p | a p. a < l \<and> p \<in> box ls} = box (l # ls)" by (auto simp: box_Cons)
  ultimately show ?case by simp
qed

lemma xt_copy_loops:
  "xt_copy old new = loops (map (\<lambda>i. unat (min (xt_dims old ! i) (xt_dims new ! i))) [0, 1, 2, 3, 4, 5]) (xt_copy_elem old) new"
  by (simp add: xt_copy_def Let_def)

subsection \<open>Arrays that hold what their dimensions say\<close>

definition ndims :: "'a arr_xt \<Rightarrow> nat list" where
  "ndims a = map unat (xt_dims a)"

definition xt_ok :: "'a arr_xt \<Rightarrow> bool" where
  "xt_ok a \<longleftrightarrow> length (xt_dims a) = 6 \<and> length (xt_impl a) = prod_list (ndims a) \<and> prod_list (ndims a) < 2 ^ 64"

definition xt_at :: "'a arr_xt \<Rightarrow> nat list \<Rightarrow> 'a" where
  "xt_at a ks = xt_impl a ! place (ndims a) ks"

lemma xt_place:
  assumes a: "xt_ok a" and ks: "ks \<in> box (ndims a)"
  shows "unat (xt_offset (xt_dims a) (map of_nat ks)) = place (ndims a) ks" "place (ndims a) ks < length (xt_impl a)"
proof -
  show l: "place (ndims a) ks < length (xt_impl a)" using place_less [OF ks] a by (simp add: xt_ok_def)
  then have "place (ndims a) ks < 2 ^ 64" using a by (simp add: xt_ok_def)
  moreover have "length ks = length (xt_dims a)" using box_length [OF ks] by (simp add: ndims_def)
  ultimately show "unat (xt_offset (xt_dims a) (map of_nat ks)) = place (ndims a) ks"
    by (simp add: xt_offset_place ndims_def unsigned_of_nat take_bit_nat_eq_self)
qed

lemma xt_get_ok: "xt_ok a \<Longrightarrow> ks \<in> box (ndims a) \<Longrightarrow> xt_get a (map of_nat ks) = Some (xt_at a ks)"
  by (simp add: xt_get_def xt_place xt_at_def)

lemma xt_set_ok:
  assumes a: "xt_ok a" and ks: "ks \<in> box (ndims a)"
  shows "\<exists>a'. xt_set a (map of_nat ks) v = Some a' \<and> xt_ok a' \<and> xt_dims a' = xt_dims a \<and>
    (\<forall>ls \<in> box (ndims a). xt_at a' ls = (if ls = ks then v else xt_at a ls))"
proof -
  let ?a = "a\<lparr>xt_impl := (xt_impl a)[place (ndims a) ks := v]\<rparr>"
  have n: "ndims ?a = ndims a" by (simp add: ndims_def)
  have "xt_set a (map of_nat ks) v = Some ?a" using xt_place [OF assms] by (simp add: xt_set_def)
  moreover have "xt_ok ?a" using a n by (simp add: xt_ok_def)
  moreover have "xt_at ?a ls = (if ls = ks then v else xt_at a ls)" if "ls \<in> box (ndims a)" for ls
    using xt_place(2) [OF assms] place_inj [OF that ks] unfolding xt_at_def n by (auto simp: nth_list_update)
  ultimately show ?thesis by simp
qed

text \<open>Copying what two boxes have in common.\<close>

lemma box_min:
  "length ds = length es \<Longrightarrow> box (map2 min ds es) = box ds \<inter> box es"
  by (induction ds es rule: list_induct2) (auto simp: box_Cons)

lemma unat_min: "unat (min x y) = min (unat x) (unat y)"
  by (simp add: min_def word_le_nat_alt)

lemma xt_copy_ok:
  assumes old: "xt_ok old" and new: "xt_ok new"
  shows "\<exists>a. xt_copy old new = Some a \<and> xt_ok a \<and> xt_dims a = xt_dims new \<and>
    (\<forall>ks \<in> box (ndims new). xt_at a ks = (if ks \<in> box (ndims old) then xt_at old ks else xt_at new ks))"
proof -
  let ?lim = "map (\<lambda>i. unat (min (xt_dims old ! i) (xt_dims new ! i))) [0, 1, 2, 3, 4, 5]"
  have "[0, 1, 2, 3, 4, 5] = [0 ..< 6 :: nat]" by (simp add: upt_rec)
  moreover have "map (\<lambda>i. unat (min (xt_dims old ! i) (xt_dims new ! i))) [0 ..< 6] = map2 min (ndims old) (ndims new)"
    by (rule nth_equalityI) (use old new in \<open>simp_all add: xt_ok_def ndims_def unat_min\<close>)
  ultimately have "?lim = map2 min (ndims old) (ndims new)" by (simp only:)
  moreover have "length (ndims old) = length (ndims new)" using old new by (simp add: xt_ok_def ndims_def)
  ultimately have lim: "box ?lim = box (ndims old) \<inter> box (ndims new)" using box_min by metis
  let ?P = "\<lambda>S a. xt_ok a \<and> xt_dims a = xt_dims new \<and>
    (\<forall>ks \<in> box (ndims new). xt_at a ks = (if ks \<in> S then xt_at old ks else xt_at new ks))"
  have "\<exists>a. loops ?lim (xt_copy_elem old) new = Some a \<and> ?P ({} \<union> box ?lim) a"
  proof (rule loops_inv)
    show "?P {} new" using new by simp
    fix p S a assume p: "p \<in> box ?lim" and a: "?P S a"
    have p': "p \<in> box (ndims old)" "p \<in> box (ndims a)" using p a unfolding lim by (auto simp: ndims_def)
    from a have n: "ndims a = ndims new" by (simp add: ndims_def)
    obtain a' where "xt_set a (map of_nat p) (xt_at old p) = Some a'" "xt_ok a'" "xt_dims a' = xt_dims a"
      "\<forall>ls \<in> box (ndims a). xt_at a' ls = (if ls = p then xt_at old p else xt_at a ls)"
      using xt_set_ok [OF _ p'(2)] a by blast
    then show "\<exists>a'. xt_copy_elem old p a = Some a' \<and> ?P (insert p S) a'"
      using a n xt_get_ok [OF old p'(1)] by (auto simp: xt_copy_elem_def)
  qed
  then show ?thesis unfolding xt_copy_loops lim by auto
qed

subsection \<open>The guard of \<open>resize\<close>\<close>

lemma foldl_mult: "foldl (*) k ks = k * prod_list (ks :: 'a::comm_monoid_mult list)"
  by (induction ks arbitrary: k) (simp_all add: mult.assoc)

lemma unat_prod: "unat (foldl (*) k ks) = prod_list (map unat (k # ks)) mod 2 ^ 64" for k :: size_t
proof -
  have "prod_list (map unat ks) mod 2 ^ 64 = unat (prod_list ks)" for ks :: "size_t list"
  proof (induction ks)
    case (Cons a ks)
    then show ?case by (simp add: unat_word_ariths mod_mult_right_eq flip: Cons.IH)
  qed simp
  from this [of "k # ks"] show ?thesis by (simp add: foldl_mult)
qed

lemma unat_divs: "unat (foldl (div) n ks) = unat n div prod_list (map unat ks)" for n :: size_t
  by (induction ks arbitrary: n) (simp_all add: unat_div div_mult2_eq)

lemma resize_guard:
  fixes k0 :: size_t and ks :: "size_t list"
  defines "n \<equiv> foldl (*) k0 ks" and "N \<equiv> prod_list (map unat (k0 # ks))"
  shows "n > 0 \<and> k0 \<noteq> foldl (div) n ks \<longleftrightarrow> 2 ^ 64 \<le> N \<and> N mod 2 ^ 64 \<noteq> 0" "unat n = N mod 2 ^ 64"
proof -
  let ?P = "prod_list (map unat ks)"
  have N: "N = unat k0 * ?P" by (simp add: N_def)
  show n: "unat n = N mod 2 ^ 64" unfolding n_def N_def by (rule unat_prod)
  have d: "k0 = foldl (div) n ks \<longleftrightarrow> unat k0 = unat n div ?P" by (simp add: word_unat_eq_iff unat_divs)
  have "n > 0 \<longleftrightarrow> unat n \<noteq> 0" by (simp add: word_less_nat_alt del: unat_eq_0)
  then have pos: "n > 0 \<longleftrightarrow> N mod 2 ^ 64 \<noteq> 0" unfolding n .
  show "n > 0 \<and> k0 \<noteq> foldl (div) n ks \<longleftrightarrow> 2 ^ 64 \<le> N \<and> N mod 2 ^ 64 \<noteq> 0"
  proof (cases "2 ^ 64 \<le> N")
    case True
    have "N mod 2 ^ 64 < 2 ^ 64" by (rule mod_less_divisor) simp
    then have "unat n < N" using True unfolding n by (rule less_le_trans)
    then have "unat n div ?P < unat k0" using N by (simp add: less_mult_imp_div_less)
    then show ?thesis using True d pos by auto
  next
    case False
    then have "unat n = N" using n by simp
    moreover have "?P \<noteq> 0" if "N \<noteq> 0" using that N by auto
    ultimately have "n > 0 \<Longrightarrow> unat k0 = unat n div ?P" using N pos False by auto
    then show ?thesis using False d by blast
  qed
qed

lemma xt_resize_ok:
  fixes k0 :: size_t
  assumes a: "xt_ok a" and ks: "length ks = 5"
  defines "N \<equiv> prod_list (map unat (k0 # ks))"
  shows "N < 2 ^ 64 \<Longrightarrow> N \<le> unat mx \<Longrightarrow> al N \<Longrightarrow> \<exists>a'. xt_resize al mx d a k0 ks = ret a' \<and> xt_ok a' \<and> xt_dims a' = k0 # ks \<and>
      (\<forall>ls \<in> box (ndims a'). xt_at a' ls = (if ls \<in> box (ndims a) then xt_at a ls else d))"
    and "N < 2 ^ 64 \<Longrightarrow> \<not> (N \<le> unat mx \<and> al N) \<Longrightarrow> xt_resize al mx d a k0 ks = throw XBadAlloc"
    and "2 ^ 64 \<le> N \<Longrightarrow> N mod 2 ^ 64 \<noteq> 0 \<Longrightarrow> xt_resize al mx d a k0 ks = throw XBadAlloc"
    and "2 ^ 64 \<le> N \<Longrightarrow> N mod 2 ^ 64 = 0 \<Longrightarrow> al 0 \<Longrightarrow> xt_resize al mx d a k0 ks = ret \<lparr>xt_impl = [], xt_dims = k0 # ks\<rparr>"
proof -
  note G = resize_guard [of k0 ks, folded N_def]
  let ?n = "foldl (*) k0 ks"
  have gt: "?n > mx \<longleftrightarrow> \<not> N mod 2 ^ 64 \<le> unat mx" using G(2) by (simp add: word_less_nat_alt not_le)
  have z: "?n = 0 \<longleftrightarrow> N mod 2 ^ 64 = 0" using G(2) by (metis unat_eq_0)
  show "xt_resize al mx d a k0 ks = throw XBadAlloc" if "N < 2 ^ 64" "\<not> (N \<le> unat mx \<and> al N)"
    using that G gt by (auto simp: xt_resize_def Let_def)
  show "xt_resize al mx d a k0 ks = throw XBadAlloc" if "2 ^ 64 \<le> N" "N mod 2 ^ 64 \<noteq> 0"
    using that G by (auto simp: xt_resize_def Let_def)
  show "xt_resize al mx d a k0 ks = ret \<lparr>xt_impl = [], xt_dims = k0 # ks\<rparr>" if "2 ^ 64 \<le> N" "N mod 2 ^ 64 = 0" "al 0"
    using that G gt z by (simp add: xt_resize_def Let_def)
  assume N: "N < 2 ^ 64" "N \<le> unat mx" "al N"
  let ?tmp = "\<lparr>xt_impl = replicate N d, xt_dims = k0 # ks\<rparr>"
  have nd: "ndims ?tmp = map unat (k0 # ks)" by (simp add: ndims_def)
  have tmp: "xt_ok ?tmp" using ks N(1) unfolding xt_ok_def nd N_def [symmetric] by simp
  have at: "xt_at ?tmp ls = d" if "ls \<in> box (ndims ?tmp)" for ls
    using xt_place(2) [OF tmp that] unfolding xt_at_def by simp
  have r: "xt_resize al mx d a k0 ks = (if N = 0 then ret ?tmp else nothrow (xt_copy a ?tmp))"
  proof -
    have g: "\<not> ((?n > 0 \<and> k0 \<noteq> foldl (div) ?n ks) \<or> ?n > mx)" and n: "unat ?n = N" using N G gt by simp_all
    have "?n = 0 \<longleftrightarrow> N = 0" using z N(1) by simp
    then show ?thesis unfolding xt_resize_def Let_def if_not_P [OF g] n by (simp only: N(3) not_True_eq_False if_False)
  qed
  show "\<exists>a'. xt_resize al mx d a k0 ks = ret a' \<and> xt_ok a' \<and> xt_dims a' = k0 # ks \<and>
      (\<forall>ls \<in> box (ndims a'). xt_at a' ls = (if ls \<in> box (ndims a) then xt_at a ls else d))"
  proof (cases "N = 0")
    case True
    have "prod_list (ndims ?tmp) = 0" unfolding nd N_def [symmetric] by (rule True)
    then have "box (ndims ?tmp) = {}" by (rule box_empty)
    then show ?thesis using r True tmp by auto
  next
    case False
    obtain a' where a': "xt_copy a ?tmp = Some a'" "xt_ok a'" "xt_dims a' = xt_dims ?tmp"
      "\<forall>ls \<in> box (ndims ?tmp). xt_at a' ls = (if ls \<in> box (ndims a) then xt_at a ls else xt_at ?tmp ls)"
      using xt_copy_ok [OF a tmp] by blast
    then have "ndims a' = ndims ?tmp" by (simp add: ndims_def)
    then show ?thesis using r False a' at by auto
  qed
qed

lemma xt_new_clear: "ndims xt_new = [0, 1, 1, 1, 1, 1]" "xt_ok xt_new" "xt_clear a = xt_new"
  by (simp_all add: xt_ok_def ndims_def xt_new_def xt_clear_def dims_reset_def)

lemma xt_eq_iff: "xt_ok a \<Longrightarrow> xt_ok b \<Longrightarrow> xt_eq a b \<longleftrightarrow> a = b"
proof -
  assume "xt_ok a" "xt_ok b"
  then have "xt_eq a b \<longleftrightarrow> xt_impl a = xt_impl b \<and> xt_dims a = xt_dims b"
    by (auto simp: xt_eq_def xt_size_def xt_ok_def list_eq_iff_nth_eq)
  then show ?thesis by (auto intro: arr_xt.equality)
qed

end
