(* ===== verification/Buffer_Matrix.thy ===== *)
theory Buffer_Matrix
  imports Buffer_Number Arr_Xt
begin

text \<open>
  \<open>LinearBuffer::parse\<close> into a matrix (\<open>inc/vhwd/collection/linear_buffer.h\<close>): the rows of the text
  become the columns of an \<open>arr_xt\<close>. The variable for the number of words in a line is not
  initialised; \<open>junk\<close> is what happens to be in it.
\<close>

definition lb_parse_xt :: "(nat \<Rightarrow> bool) \<Rightarrow> size_t \<Rightarrow> 'e \<Rightarrow> (linear_buffer \<Rightarrow> (linear_buffer \<times> 'e) outcome) \<Rightarrow> int \<Rightarrow>
    linear_buffer \<Rightarrow> 'e arr_xt \<Rightarrow> (linear_buffer option \<times> 'e arr_xt \<times> bool) outcome" where
  "lb_parse_xt al max_size d el junk lb axt = andthen (nothrow (lb_parse el lb [] junk)) (\<lambda>(lb, a1t, sz2, ok).
     if \<not> ok then ret (lb, axt, False)
     else if sz2 \<le> 0 then ret (lb, axt, False)
     else if int (length a1t) mod sz2 \<noteq> 0 then ret (lb, axt, False)
     else let sz1 = int (length a1t) div sz2 in
       andthen (xt_resize al max_size d axt (word_of_int sz2) [word_of_int sz1, 1, 1, 1, 1]) (\<lambda>axt.
       andthen (nothrow (wassert (length a1t \<le> length (xt_impl axt)))) (\<lambda>_.
         ret (lb, axt\<lparr>xt_impl := a1t @ drop (length a1t) (xt_impl axt)\<rparr>, True))))"

lemma line_count_le: "c \<in> set (line_counts k ts) \<Longrightarrow> c \<le> k + length (text_words ts)"
  by (induction k ts rule: line_counts.induct) (auto split: if_splits)

lemma common_count_le: "common_count (line_counts 0 ts) \<le> int (length (text_words ts))"
  using line_count_le [of "hd (line_counts 0 ts)" 0 ts] by (auto simp: common_count_def)

lemma lb_parse_words:
  assumes h: "lb_holds (lb_rd_reset lb) (text_bytes ts)" and t: "text_ok ts []"
  shows "\<exists>lb'. lb_parse read_string lb a pn = Some (Some lb', text_words ts, if ts = [] then pn else common_count (line_counts 0 ts), True)"
proof -
  have l: "lb_wr (lb_rd_reset lb) = 0 \<longleftrightarrow> text_bytes ts = []"
    using lb_holdsD(1) [OF h] by (auto simp: lb_rd_reset_def word_eq_iff_unsigned [where ?'a = nat])
  have e: "text_bytes ts = [] \<longleftrightarrow> ts = []" using t by (cases ts rule: text_words.cases) auto
  have z: "common_count [] = 0" by (simp add: common_count_def)
  show ?thesis using parse_loop_ok [of "lb_rd_reset lb" ts "[]" "[]" "[]" 0] h t l e z by (auto simp: lb_parse_def Let_def)
qed

lemma unat_size_of_nat: "n < 2 ^ 64 \<Longrightarrow> unat (of_nat n :: size_t) = n"
  by (simp add: unsigned_of_nat take_bit_nat_eq_self)

text \<open>A matrix of a given width, filled with a list.\<close>

lemma matrix_fill:
  assumes a: "xt_ok a" and w: "0 < w" "w \<le> length ws" "length ws = w * h" "length ws < 2 ^ 64" and mx: "length ws \<le> unat mx" "\<forall>k. al k"
  shows "\<exists>a'. xt_resize al mx d a (of_nat w) [of_nat h, 1, 1, 1, 1] = ret a' \<and> length (xt_impl a') = length ws \<and>
    ndims a' = [w, h, 1, 1, 1, 1]"
proof -
  have "0 < h" using w by (cases h) auto
  then have "h \<le> length ws" using w by simp
  then have "w < 2 ^ 64" "h < 2 ^ 64" using w(2,4) by linarith+
  then have u: "unat (of_nat w :: size_t) = w" "unat (of_nat h :: size_t) = h" by (simp_all only: unat_size_of_nat)
  then have N: "prod_list (map unat (of_nat w # [of_nat h, 1, 1, 1, 1 :: size_t])) = length ws" using w(3) by simp
  obtain a' where "xt_resize al mx d a (of_nat w) [of_nat h, 1, 1, 1, 1] = ret a'" "xt_ok a'" "xt_dims a' = [of_nat w, of_nat h, 1, 1, 1, 1]"
    using xt_resize_ok(1) [OF a, of "[of_nat h, 1, 1, 1, 1]" "of_nat w" mx al d] N w(4) mx by auto
  then show ?thesis using u w(3) by (auto simp: xt_ok_def ndims_def)
qed

text \<open>Where the words of a matrix are.\<close>

lemma matrix_at:
  assumes n: "ndims a = [w, h, 1, 1, 1, 1]" and l: "length (xt_impl a) = w * h" "w * h < 2 ^ 64" and ij: "i < w" "j < h"
  shows "xt_get a [of_nat i, of_nat j] = Some (xt_impl a ! (i + w * j))"
proof -
  obtain d ds where d: "xt_dims a = d # ds" "unat d = w" using n by (auto simp: ndims_def)
  have "i + w * j < w * Suc j" using ij(1) by simp
  also have "\<dots> \<le> w * h" using ij(2) by (intro mult_le_mono2) simp
  finally have k: "i + w * j < w * h" .
  have "d = of_nat w" using d(2) by auto
  then have "xt_offset (xt_dims a) [of_nat i, of_nat j] = of_nat (i + w * j)" by (simp add: d(1))
  moreover have "unat (of_nat (i + w * j) :: size_t) = i + w * j"
    using k l(2) by (intro unat_size_of_nat) linarith
  ultimately show ?thesis using k l(1) by (simp add: xt_get_def)
qed

subsection \<open>\<open>parse\<close> returns\<close>

text \<open>With an error found and nothing changed, or at the end of the buffer.\<close>

definition parse_returns :: "'e list \<Rightarrow> int \<Rightarrow> (linear_buffer option \<times> 'e list \<times> int \<times> bool) option \<Rightarrow> bool" where
  "parse_returns a pn r \<longleftrightarrow> r = Some (None, a, pn, False) \<or> (\<exists>lb es n. r = Some (Some lb, es, n, True) \<and> lb_eof lb)"

context element_reader
begin

lemma lb_parse_returns:
  assumes h: "lb_holds (lb_rd_reset lb) ys" and ok: "list_all ok ys"
  shows "parse_returns a pn (lb_parse el lb a pn)"
proof -
  have "ended (parse_loop el (lb_rd_reset lb) [] 0 0)" by (rule parse_loop_ends [OF h ok])
  then show ?thesis
    using lb_eof_iff by (auto simp: ended_def lb_parse_def Let_def parse_returns_def lb_eof_def lb_rd_reset_def)
qed

end

end
