(* ===== verification/Matrix_Theorems.thy ===== *)
theory Matrix_Theorems
  imports Buffer_Matrix
begin

text \<open>The properties of arrays of several dimensions, and of \<open>parse\<close> for numbers and matrices.\<close>

text \<open>C38. \<open>resize\<close> of an array of up to six dimensions keeps every element whose indices are within
  the old and the new dimensions and gives the others the default; it throws \<open>XBadAlloc\<close>, and leaves
  the array as it was, when memory or the allocator's limit does not suffice and when the product of
  the dimensions wraps around -- but not when it wraps around to 0: then the array has its new
  dimensions and no elements.\<close>

theorem arr_xt_resize_correct:
  fixes k0 :: size_t
  assumes a: "xt_ok a" and ks: "length ks = 5"
  defines "N \<equiv> prod_list (map unat (k0 # ks))"
  shows "(N < 2 ^ 64 \<and> N \<le> unat mx \<and> al N \<longrightarrow> (\<exists>a'. xt_resize al mx d a k0 ks = ret a' \<and> xt_ok a' \<and> xt_dims a' = k0 # ks \<and>
      (\<forall>ls \<in> box (ndims a'). xt_get a' (map of_nat ls) = (if ls \<in> box (ndims a) then xt_get a (map of_nat ls) else Some d)))) \<and>
    (N < 2 ^ 64 \<and> \<not> (N \<le> unat mx \<and> al N) \<or> 2 ^ 64 \<le> N \<and> N mod 2 ^ 64 \<noteq> 0 \<longrightarrow> xt_resize al mx d a k0 ks = throw XBadAlloc) \<and>
    (2 ^ 64 \<le> N \<and> N mod 2 ^ 64 = 0 \<and> al 0 \<longrightarrow> xt_resize al mx d a k0 ks = ret \<lparr>xt_impl = [], xt_dims = k0 # ks\<rparr>)"
proof (intro conjI)
  note R = xt_resize_ok [OF a ks, where ?k0.0 = k0 and al = al and mx = mx and d = d, folded N_def]
  show "N < 2 ^ 64 \<and> N \<le> unat mx \<and> al N \<longrightarrow> (\<exists>a'. xt_resize al mx d a k0 ks = ret a' \<and> xt_ok a' \<and> xt_dims a' = k0 # ks \<and>
      (\<forall>ls \<in> box (ndims a'). xt_get a' (map of_nat ls) = (if ls \<in> box (ndims a) then xt_get a (map of_nat ls) else Some d)))"
  proof
    assume "N < 2 ^ 64 \<and> N \<le> unat mx \<and> al N"
    then obtain a' where a': "xt_resize al mx d a k0 ks = ret a'" "xt_ok a'" "xt_dims a' = k0 # ks"
      "\<forall>ls \<in> box (ndims a'). xt_at a' ls = (if ls \<in> box (ndims a) then xt_at a ls else d)"
      using R(1) by blast
    then have "xt_get a' (map of_nat ls) = (if ls \<in> box (ndims a) then xt_get a (map of_nat ls) else Some d)" if "ls \<in> box (ndims a')" for ls
      using that by (simp add: xt_get_ok a)
    with a'(1-3) show "\<exists>a'. xt_resize al mx d a k0 ks = ret a' \<and> xt_ok a' \<and> xt_dims a' = k0 # ks \<and>
        (\<forall>ls \<in> box (ndims a'). xt_get a' (map of_nat ls) = (if ls \<in> box (ndims a) then xt_get a (map of_nat ls) else Some d))" by blast
  qed
qed (use xt_resize_ok(2-4) [OF a ks, where ?k0.0 = k0 and al = al and mx = mx and d = d, folded N_def] in \<open>blast | simp\<close>)+

lemma arr_xt_resize_correct_witness:
  "\<exists>a'. xt_resize (\<lambda>_. True) 100 0 \<lparr>xt_impl = [1, 2, 3, 4], xt_dims = [2, 2, 1, 1, 1, 1]\<rparr> 3 [2, 1, 1, 1, 1] = ret a' \<and>
    xt_get a' [1, 1, 0, 0, 0, 0] = Some (4 :: nat) \<and> xt_get a' [2, 1, 0, 0, 0, 0] = Some 0"
proof -
  let ?a = "\<lparr>xt_impl = [1, 2, 3, 4 :: nat], xt_dims = [2, 2, 1, 1, 1, 1]\<rparr>"
  have a: "xt_ok ?a" "ndims ?a = [2, 2, 1, 1, 1, 1]" by (simp_all add: xt_ok_def ndims_def)
  obtain a' where a': "xt_resize (\<lambda>_. True) 100 0 ?a 3 [2, 1, 1, 1, 1] = ret a'" "xt_dims a' = [3, 2, 1, 1, 1, 1]"
    "\<forall>ls \<in> box (ndims a'). xt_get a' (map of_nat ls) = (if ls \<in> box (ndims ?a) then xt_get ?a (map of_nat ls) else Some 0)"
    using arr_xt_resize_correct [OF a(1), of "[2, 1, 1, 1, 1]" 3 100 "\<lambda>_. True" 0] by auto
  then have n: "ndims a' = [3, 2, 1, 1, 1, 1]" by (simp add: ndims_def)
  have "[1, 1, 0, 0, 0, 0] \<in> box (ndims a')" "[2, 1, 0, 0, 0, 0] \<in> box (ndims a')"
    "[1, 1, 0, 0, 0, 0] \<in> box (ndims ?a)" "[2, 1, 0, 0, 0, 0] \<notin> box (ndims ?a)"
    unfolding n a(2) by (simp_all add: box_def)
  with a'(3) have "xt_get a' (map of_nat [1, 1, 0, 0, 0, 0]) = xt_get ?a (map of_nat [1, 1, 0, 0, 0, 0])"
    "xt_get a' (map of_nat [2, 1, 0, 0, 0, 0]) = Some 0" by (metis (full_types))+
  then show ?thesis using a'(1) by (simp add: xt_get_def)
qed

text \<open>C39. \<open>parse\<close> returns on every input: into numbers and complex numbers always, into strings when
  there is no zero byte. Either it has found an error, and leaves the array and the count as they
  were, or it has read the buffer to its end.\<close>

theorem parse_terminates:
  assumes h: "lb_holds (lb_rd_reset lb) ys"
  shows "(0 \<notin> set ys \<longrightarrow> parse_returns ws pn (lb_parse read_string lb ws pn)) \<and>
    parse_returns xs pn (lb_parse (read_number conv) lb xs pn) \<and>
    parse_returns zs pn (lb_parse (read_complex (read_number conv)) lb zs pn)"
proof (intro conjI)
  show "0 \<notin> set ys \<longrightarrow> parse_returns ws pn (lb_parse read_string lb ws pn)"
    using string_reader.lb_parse_returns [OF h] by (auto simp: list_all_iff)
  show "parse_returns xs pn (lb_parse (read_number conv) lb xs pn)"
    by (rule number_reader.lb_parse_returns [OF h]) (simp add: list_all_iff)
  show "parse_returns zs pn (lb_parse (read_complex (read_number conv)) lb zs pn)"
    by (rule complex_reader.lb_parse_returns [OF h]) (simp add: list_all_iff)
qed

lemma parse_terminates_witness:
  "parse_returns [] 0 (lb_parse read_string (lb_wr_flip (lb_assign lb_new [47, 1, 2]) 3) [] 0) \<and>
   parse_returns [] 0 (lb_parse (read_number Pair) (lb_wr_flip (lb_assign lb_new [49, 46, 53, 0]) 4) [] 0)"
proof -
  have h: "lb_holds (lb_rd_reset (lb_wr_flip (lb_assign lb_new [47, 1, 2]) 3)) [47, 1, 2]"
    "lb_holds (lb_rd_reset (lb_wr_flip (lb_assign lb_new [49, 46, 53, 0]) 4)) [49, 46, 53, 0]"
    by (simp_all add: lb_holds_def lb_ok_def lb_rd_reset_def lb_wr_flip_def lb_assign_def lb_new_def lb_mem_def)
  show ?thesis
    using conjunct1 [OF parse_terminates [OF h(1)]] conjunct1 [OF conjunct2 [OF parse_terminates [OF h(2)]]] by simp
qed


text \<open>Two lines of two words.\<close>

definition ex_rows :: "text_token list" where
  "ex_rows = [Word_token [97], Space [32], Word_token [98], Newline 10, Word_token [99], Space [9], Word_token [100], Newline 10]"


end
