(* ===== verification/Mempool.thy ===== *)
theory Mempool
  imports Vhwd_Exception
begin

text \<open>
  The memory pool (\<open>src/vhwd/memory/mempool_impl.h\<close>, \<open>mempool_paging.cpp\<close>, \<open>mempool_slot.cpp\<close>,
  \<open>mempool_pgmap.cpp\<close>): spans of 1 MB that are split into blocks of one size, a list of the spans of
  every size that have free blocks, and a map from addresses to spans. Addresses and sizes are natural
  numbers; where they can wrap around it is written out. The operating system is the parameter
  \<open>os\<close>: where it maps a region of a given size, if it does. The operations run one at a time, under the
  locks of the code; the second attempt of \<open>page_alloc\<close>, after a garbage collection, is not modelled.
  \<open>None\<close> is an access outside mapped memory or to something that is not a span, or a failed assertion.
\<close>

subsection \<open>State\<close>

definition SP_SIZE :: nat where "SP_SIZE = 2 ^ 20"
definition PG_SIZE :: nat where "PG_SIZE = 4096"
definition NODE_SIZE :: nat where "NODE_SIZE = 8"
definition SPAN_SIZE :: nat where "SPAN_SIZE = 64"

definition split_unit_n :: "nat \<Rightarrow> nat" where
  "split_unit_n x = (1024 * 1024 div x) div 4096 * 4096"

definition FixAllocUnits :: "nat list" where
  "FixAllocUnits =
    [8, 16, 24, 32, 48, 64, 96, 128, 192, 256, 384, 512, 1024, 1024 * 2, 1024 * 4, 1024 * 8,
     1024 * 16, 1024 * 24, 1024 * 32, 1024 * 64,
     split_unit_n 8, split_unit_n 6, split_unit_n 4, split_unit_n 3, split_unit_n 2, split_unit_n 1]"

definition sl_size :: nat where "sl_size = 26"

record mp_span =
  sp_base :: addr
  sp_size :: nat
  sp_fly :: bool
  sl_next :: ptr
  sl_prev :: ptr
  sl_slot :: "nat option"
  nd_free :: ptr
  nd_nnum :: nat

record mp_slot =
  sp_head :: ptr
  nd_size :: nat
  nd_nall :: nat
  slot_fly :: bool

text \<open>\<open>mem\<close>: the words in memory, which in a free block are the link to the next one; \<open>mapped\<close>: the regions
  that the operating system has given and their sizes; \<open>span_at\<close>: the span objects; \<open>tables\<close>: the
  second level of the page map; \<open>obj_free\<close> and \<open>pg_list\<close>: the pool of span objects.\<close>

record mp_pool =
  mem :: "addr \<Rightarrow> ptr"
  mapped :: "addr \<rightharpoonup> nat"
  span_at :: "addr \<rightharpoonup> mp_span"
  tables :: "nat \<rightharpoonup> (nat \<rightharpoonup> addr)"
  obj_free :: ptr
  pg_list :: ptr
  slots :: "mp_slot list"

type_synonym os = "(addr \<rightharpoonup> nat) \<Rightarrow> nat \<Rightarrow> addr option"

subsection \<open>Memory\<close>

definition page_up :: "nat \<Rightarrow> nat" where
  "page_up n = (n + (PG_SIZE - 1)) div PG_SIZE * PG_SIZE"

definition in_memory :: "mp_pool \<Rightarrow> addr \<Rightarrow> nat \<Rightarrow> bool" where
  "in_memory p a n \<longleftrightarrow> (\<exists>b s. mapped p b = Some s \<and> b \<le> a \<and> a + n \<le> b + s)"

definition get_next :: "mp_pool \<Rightarrow> addr \<Rightarrow> ptr option" where
  "get_next p a = (if in_memory p a NODE_SIZE then Some (mem p a) else None)"

definition set_next :: "mp_pool \<Rightarrow> addr \<Rightarrow> ptr \<Rightarrow> mp_pool option" where
  "set_next p a v = (if in_memory p a NODE_SIZE then Some (p\<lparr>mem := (mem p)(a := v)\<rparr>) else None)"

definition new_span :: "mp_pool \<Rightarrow> addr \<Rightarrow> mp_span \<Rightarrow> mp_pool option" where
  "new_span p a s = (if in_memory p a SPAN_SIZE then Some (p\<lparr>span_at := (span_at p)(a \<mapsto> s)\<rparr>) else None)"

definition set_span :: "mp_pool \<Rightarrow> addr \<Rightarrow> (mp_span \<Rightarrow> mp_span) \<Rightarrow> mp_pool option" where
  "set_span p a f = do { s \<leftarrow> span_at p a; Some (p\<lparr>span_at := (span_at p)(a \<mapsto> f s)\<rparr>) }"

definition set_head :: "mp_pool \<Rightarrow> nat \<Rightarrow> ptr \<Rightarrow> mp_pool" where
  "set_head p i h = p\<lparr>slots := (slots p)[i := (slots p ! i)\<lparr>sp_head := h\<rparr>]\<rparr>"

definition page_alloc :: "os \<Rightarrow> mp_pool \<Rightarrow> nat \<Rightarrow> mp_pool \<times> ptr" where
  "page_alloc os p n = (case os (mapped p) n of
     None \<Rightarrow> (p, NULL)
   | Some b \<Rightarrow> (p\<lparr>mapped := (mapped p)(b \<mapsto> page_up n)\<rparr>, Some b))"

text \<open>\<open>munmap\<close> rounds up to pages; what is in the region is gone.\<close>

definition page_free :: "mp_pool \<Rightarrow> addr \<Rightarrow> nat \<Rightarrow> mp_pool option" where
  "page_free p b n = (if mapped p b = Some (page_up n)
     then Some (p\<lparr>mapped := (mapped p)(b := None),
                  span_at := (\<lambda>a. if b \<le> a \<and> a < b + page_up n then None else span_at p a)\<rparr>)
     else None)"

subsection \<open>Free lists\<close>

text \<open>\<open>MpAllocNode::link\<close>: the loop from \<open>n1\<close>, with \<open>k\<close> nodes left behind it.\<close>

primrec link_loop :: "mp_pool \<Rightarrow> nat \<Rightarrow> nat \<Rightarrow> addr \<Rightarrow> ptr \<Rightarrow> mp_pool option" where
  "link_loop p 0 tp n1 p3 = set_next p n1 p3"
| "link_loop p (Suc k) tp n1 p3 = do { p \<leftarrow> set_next p n1 (Some (n1 + tp)); link_loop p k tp (n1 + tp) p3 }"

definition mp_link :: "mp_pool \<Rightarrow> addr \<Rightarrow> nat \<Rightarrow> nat \<Rightarrow> ptr \<Rightarrow> mp_pool option" where
  "mp_link p p1 sz tp p3 = do {
     wassert (NODE_SIZE \<le> tp \<and> NODE_SIZE dvd tp \<and> tp \<le> sz);
     link_loop p (sz div tp - 1) tp p1 p3 }"

text \<open>\<open>MpObjectPool<MpAllocSpan>\<close>.\<close>

definition obj_alloc_batch :: "os \<Rightarrow> mp_pool \<Rightarrow> mp_pool option" where
  "obj_alloc_batch os p = (case page_alloc os p SP_SIZE of
     (p, None) \<Rightarrow> Some p
   | (p, Some p1) \<Rightarrow> do {
       p \<leftarrow> mp_link p p1 SP_SIZE SPAN_SIZE (obj_free p);
       fn \<leftarrow> get_next p p1;
       p \<leftarrow> set_next (p\<lparr>obj_free := fn\<rparr>) p1 (pg_list p);
       Some (p\<lparr>pg_list := Some p1\<rparr>) })"

definition obj_alloc :: "os \<Rightarrow> mp_pool \<Rightarrow> (mp_pool \<times> ptr) option" where
  "obj_alloc os p = do {
     p \<leftarrow> (if obj_free p = NULL then obj_alloc_batch os p else Some p);
     case obj_free p of
       None \<Rightarrow> Some (p, NULL)
     | Some a \<Rightarrow> do { fn \<leftarrow> get_next p a; Some (p\<lparr>obj_free := fn\<rparr>, Some a) } }"

definition obj_dealloc :: "mp_pool \<Rightarrow> addr \<Rightarrow> mp_pool option" where
  "obj_dealloc p a = do {
     p \<leftarrow> set_next p a (obj_free p);
     Some (p\<lparr>obj_free := Some a, span_at := (span_at p)(a := None)\<rparr>) }"

subsection \<open>The page map\<close>

text \<open>\<open>RadixPageMapT<64>\<close>: a bucket has the number \<open>base >> sp_bits\<close>, the upper half of its bits selects
  the table. \<open>bk_more\<close> is 0.\<close>

definition bits1 :: nat where "bits1 = 22"

definition bucket_get :: "mp_pool \<Rightarrow> nat \<Rightarrow> ptr" where
  "bucket_get p bp0 = do { t \<leftarrow> tables p (bp0 div 2 ^ bits1); t (bp0 mod 2 ^ bits1) }"

definition bucket_set :: "mp_pool \<Rightarrow> nat \<Rightarrow> ptr \<Rightarrow> mp_pool option" where
  "bucket_set p bp0 v = do {
     t \<leftarrow> tables p (bp0 div 2 ^ bits1);
     Some (p\<lparr>tables := (tables p)(bp0 div 2 ^ bits1 \<mapsto> t(bp0 mod 2 ^ bits1 := v))\<rparr>) }"

text \<open>The table of a bucket is made when it is first needed; that there is no memory for it is not noticed.\<close>

definition bucket_room :: "os \<Rightarrow> mp_pool \<Rightarrow> nat \<Rightarrow> mp_pool option" where
  "bucket_room os p bp0 = (if tables p (bp0 div 2 ^ bits1) = None
     then case page_alloc os p (2 ^ bits1 * 8) of
         (p, None) \<Rightarrow> None
       | (p, Some _) \<Rightarrow> Some (p\<lparr>tables := (tables p)(bp0 div 2 ^ bits1 \<mapsto> Map.empty)\<rparr>)
     else Some p)"

definition insert_span :: "os \<Rightarrow> mp_pool \<Rightarrow> addr \<Rightarrow> mp_pool option" where
  "insert_span os p a = do {
     s \<leftarrow> span_at p a;
     let bp0 = sp_base s div SP_SIZE;
     p \<leftarrow> bucket_room os p bp0;
     wassert (bucket_get p bp0 = NULL);
     bucket_set p bp0 (Some a) }"

text \<open>The bucket of the span that \<open>kp\<close> is in, or NULL.\<close>

definition find_bucket :: "mp_pool \<Rightarrow> addr \<Rightarrow> nat option option" where
  "find_bucket p kp = (let bp0 = kp div SP_SIZE in
     if tables p (bp0 div 2 ^ bits1) = None then Some None
     else do {
       here \<leftarrow> (case bucket_get p bp0 of
           None \<Rightarrow> Some False
         | Some a \<Rightarrow> do { s \<leftarrow> span_at p a;
             if sp_base s \<le> kp then do { wassert (kp - sp_base s < sp_size s); Some True } else Some False });
       if here then Some (Some bp0)
       else if bp0 = 0 then Some None
       else if tables p ((bp0 - 1) div 2 ^ bits1) = None then Some None
       else case bucket_get p (bp0 - 1) of
           None \<Rightarrow> Some None
         | Some a \<Rightarrow> do { s \<leftarrow> span_at p a;
             Some (if (kp + 2 ^ 64 - sp_base s) mod 2 ^ 64 < sp_size s then Some (bp0 - 1) else None) } })"

subsection \<open>Slots\<close>

definition slot_init :: "nat \<Rightarrow> mp_slot" where
  "slot_init nd = (let nall = SP_SIZE div nd in
     if nd > 64 \<and> SP_SIZE - nall * nd < SPAN_SIZE
     then \<lparr>sp_head = NULL, nd_size = nd, nd_nall = nall, slot_fly = True\<rparr>
     else \<lparr>sp_head = NULL, nd_size = nd, nd_nall = (SP_SIZE - SPAN_SIZE) div nd, slot_fly = False\<rparr>)"

text \<open>The tables \<open>pSlot1\<close> and \<open>pSlot2\<close>: from the number of units to the number of a slot.\<close>

definition fill :: "(nat \<rightharpoonup> nat) \<Rightarrow> nat \<Rightarrow> nat \<Rightarrow> nat \<Rightarrow> nat \<rightharpoonup> nat" where
  "fill t k1 kn i = (\<lambda>k. if k1 \<le> k \<and> k \<le> kn then Some i else t k)"

definition sz_bits1 :: nat where "sz_bits1 = 3"
definition sz_bits2 :: nat where "sz_bits2 = 12"
definition sz_slot1 :: nat where "sz_slot1 = 2 ^ 12"
definition sz_slot2 :: nat where "sz_slot2 = 2 ^ 20"

fun init_step :: "nat \<times> nat \<times> (nat \<rightharpoonup> nat) \<times> (nat \<rightharpoonup> nat) \<Rightarrow> nat \<times> nat \<Rightarrow> nat \<times> nat \<times> (nat \<rightharpoonup> nat) \<times> (nat \<rightharpoonup> nat)" where
  "init_step (k1, k2, t1, t2) (i, sz) =
    (if sz \<le> sz_slot1 then let kn = sz div 2 ^ sz_bits1 in (kn + 1, k2, fill t1 k1 kn i, t2)
     else if sz \<le> sz_slot2 then let kn = sz div 2 ^ sz_bits2 in (k1, kn + 1, t1, fill t2 k2 kn i)
     else (k1, k2, t1, t2))"

definition slot_tables :: "(nat \<rightharpoonup> nat) \<times> (nat \<rightharpoonup> nat)" where
  "slot_tables = snd (snd (foldl init_step (0, 0, Map.empty, Map.empty) (enumerate 0 FixAllocUnits)))"

definition get_slot :: "nat \<Rightarrow> nat option" where
  "get_slot n =
    (if n \<le> sz_slot1 then fst slot_tables ((n + (2 ^ sz_bits1 - 1)) div 2 ^ sz_bits1)
     else if n \<le> sz_slot2 then snd slot_tables ((n + (2 ^ sz_bits2 - 1)) div 2 ^ sz_bits2)
     else None)"

text \<open>\<open>MpAllocGlobal::init\<close>, in memory that is zero.\<close>

definition mp_init :: "os \<Rightarrow> mp_pool option" where
  "mp_init os = obj_alloc_batch os
     \<lparr>mem = (\<lambda>_. NULL), mapped = Map.empty, span_at = Map.empty, tables = Map.empty, obj_free = NULL, pg_list = NULL,
      slots = map slot_init FixAllocUnits\<rparr>"

subsection \<open>Allocation\<close>

definition create_span :: "os \<Rightarrow> mp_pool \<Rightarrow> nat \<Rightarrow> (mp_pool \<times> ptr) option" where
  "create_span os p i = (let sl = slots p ! i in case page_alloc os p SP_SIZE of
     (p, None) \<Rightarrow> Some (p, NULL)
   | (p, Some p1) \<Rightarrow> do {
       (p, sp) \<leftarrow> (if slot_fly sl then obj_alloc os p else Some (p, Some (p1 + SP_SIZE - SPAN_SIZE)));
       case sp of
         None \<Rightarrow> do { p \<leftarrow> page_free p p1 SP_SIZE; Some (p, NULL) }
       | Some a \<Rightarrow> do {
           p \<leftarrow> new_span p a \<lparr>sp_base = p1, sp_size = SP_SIZE, sp_fly = slot_fly sl, sl_next = NULL, sl_prev = NULL,
             sl_slot = Some i, nd_free = Some p1, nd_nnum = 0\<rparr>;
           p \<leftarrow> mp_link p p1 (nd_nall sl * nd_size sl) (nd_size sl) NULL;
           p \<leftarrow> insert_span os p a;
           Some (p, Some a) } })"

text \<open>The first span of the slot, which is created if there is none.\<close>

definition head_span :: "os \<Rightarrow> mp_pool \<Rightarrow> nat \<Rightarrow> (mp_pool \<times> ptr) option" where
  "head_span os p i = (if sp_head (slots p ! i) = NULL
     then do { (p, a) \<leftarrow> create_span os p i; Some (set_head p i a, a) }
     else Some (p, sp_head (slots p ! i)))"

definition next_head :: "mp_pool \<Rightarrow> nat \<Rightarrow> ptr \<Rightarrow> mp_pool option" where
  "next_head p i h = (let p = set_head p i h in case h of
     None \<Rightarrow> Some p
   | Some b \<Rightarrow> set_span p b (\<lambda>s. s\<lparr>sl_prev := NULL\<rparr>))"

definition alloc_small :: "os \<Rightarrow> mp_pool \<Rightarrow> nat \<Rightarrow> nat \<Rightarrow> (mp_pool \<times> ptr) option" where
  "alloc_small os p n i = do {
     wassert (n \<le> nd_size (slots p ! i));
     (p, h) \<leftarrow> head_span os p i;
     case h of
       None \<Rightarrow> Some (p, NULL)
     | Some a \<Rightarrow> do {
         s \<leftarrow> span_at p a;
         nd \<leftarrow> nd_free s;
         fn \<leftarrow> get_next p nd;
         p \<leftarrow> set_span p a (\<lambda>s. s\<lparr>nd_free := fn, nd_nnum := (nd_nnum s + 1) mod 2 ^ 64\<rparr>);
         p \<leftarrow> (if fn = NULL then next_head p i (sl_next s) else Some p);
         Some (p, Some nd) } }"

text \<open>All the free blocks of a span at once, for a cache; their number.\<close>

definition alloc_small_batch :: "os \<Rightarrow> mp_pool \<Rightarrow> nat \<Rightarrow> (mp_pool \<times> ptr \<times> nat) option" where
  "alloc_small_batch os p i = do {
     (p, h) \<leftarrow> head_span os p i;
     case h of
       None \<Rightarrow> Some (p, NULL, 0)
     | Some a \<Rightarrow> do {
         s \<leftarrow> span_at p a;
         let nall = nd_nall (slots p ! i);
         p \<leftarrow> set_span p a (\<lambda>s. s\<lparr>nd_free := NULL, nd_nnum := nall\<rparr>);
         p \<leftarrow> next_head p i (sl_next s);
         Some (p, nd_free s, (nall + 2 ^ 64 - nd_nnum s) mod 2 ^ 64) } }"

text \<open>Writing a span object at the end of a region, or taking one from their pool. A NULL from
  \<open>page_alloc\<close> is not noticed. The fields that the code leaves as they are, which nobody reads in such a span,
  are NULL and 0.\<close>

definition alloc_large :: "os \<Rightarrow> mp_pool \<Rightarrow> nat \<Rightarrow> (mp_pool \<times> ptr) option" where
  "alloc_large os p n = (let sz = (n + (PG_SIZE - 1)) mod 2 ^ 64 div PG_SIZE * PG_SIZE;
       (p, r) = page_alloc os p sz;
       p1 = (case r of None \<Rightarrow> 0 | Some b \<Rightarrow> b) in
     if SPAN_SIZE \<le> (sz + 2 ^ 64 - n) mod 2 ^ 64 then do {
       let a = (p1 + sz + 2 ^ 64 - SPAN_SIZE) mod 2 ^ 64;
       p \<leftarrow> new_span p a \<lparr>sp_base = p1, sp_size = sz - SPAN_SIZE, sp_fly = False, sl_next = NULL, sl_prev = NULL,
         sl_slot = None, nd_free = NULL, nd_nnum = 0\<rparr>;
       p \<leftarrow> insert_span os p a;
       Some (p, r) }
     else do {
       (p, sp) \<leftarrow> obj_alloc os p;
       case sp of
         None \<Rightarrow> do { p \<leftarrow> page_free p p1 sz; Some (p, NULL) }
       | Some a \<Rightarrow> do {
           p \<leftarrow> new_span p a \<lparr>sp_base = p1, sp_size = sz, sp_fly = True, sl_next = NULL, sl_prev = NULL,
             sl_slot = None, nd_free = NULL, nd_nnum = 0\<rparr>;
           p \<leftarrow> insert_span os p a;
           Some (p, r) } })"

definition mp_alloc :: "os \<Rightarrow> mp_pool \<Rightarrow> nat \<Rightarrow> (mp_pool \<times> ptr) option" where
  "mp_alloc os p n = (case get_slot n of None \<Rightarrow> alloc_large os p n | Some i \<Rightarrow> alloc_small os p n i)"

subsection \<open>Deallocation\<close>

text \<open>The block \<open>fn\<close> goes back to the span at \<open>a\<close>. The result tells whether the span is no longer used
  and has been taken out of the list of the slot, in which it never is the last one.\<close>

definition unlink_span :: "mp_pool \<Rightarrow> nat \<Rightarrow> addr \<Rightarrow> mp_pool option" where
  "unlink_span p i a = do {
     s \<leftarrow> span_at p a;
     nx \<leftarrow> sl_next s;
     if sp_head (slots p ! i) = Some a
     then set_span (set_head p i (sl_next s)) nx (\<lambda>t. t\<lparr>sl_prev := NULL\<rparr>)
     else do {
       p \<leftarrow> set_span p nx (\<lambda>t. t\<lparr>sl_prev := sl_prev s\<rparr>);
       pv \<leftarrow> sl_prev s;
       set_span p pv (\<lambda>t. t\<lparr>sl_next := sl_next s\<rparr>) } }"

definition free_node :: "mp_pool \<Rightarrow> nat \<Rightarrow> addr \<Rightarrow> addr \<Rightarrow> (mp_pool \<times> bool) option" where
  "free_node p i a fn = do {
     s \<leftarrow> span_at p a;
     p \<leftarrow> set_next p fn (nd_free s);
     p \<leftarrow> set_span p a (\<lambda>s. s\<lparr>nd_free := Some fn\<rparr>);
     p \<leftarrow> (if nd_free s = NULL then do {
         let h = sp_head (slots p ! i);
         p \<leftarrow> set_span p a (\<lambda>s. s\<lparr>sl_next := h, sl_prev := NULL\<rparr>);
         let p = set_head p i (Some a);
         case h of None \<Rightarrow> Some p | Some b \<Rightarrow> set_span p b (\<lambda>t. t\<lparr>sl_prev := Some a\<rparr>) }
       else Some p);
     p \<leftarrow> set_span p a (\<lambda>s. s\<lparr>nd_nnum := (nd_nnum s + 2 ^ 64 - 1) mod 2 ^ 64\<rparr>);
     s \<leftarrow> span_at p a;
     if nd_nnum s \<noteq> 0 \<or> sl_next s = NULL then Some (p, False)
     else do { p \<leftarrow> unlink_span p i a; Some (p, True) } }"

definition release_span :: "mp_pool \<Rightarrow> addr \<Rightarrow> nat \<Rightarrow> mp_pool option" where
  "release_span p a bk = do {
     s \<leftarrow> span_at p a;
     p \<leftarrow> bucket_set p bk NULL;
     p \<leftarrow> page_free p (sp_base s) (sp_size s);
     if sp_fly s then obj_dealloc p a else Some p }"

definition dealloc_real :: "mp_pool \<Rightarrow> addr \<Rightarrow> nat \<Rightarrow> mp_pool option" where
  "dealloc_real p fn bk = do {
     a \<leftarrow> bucket_get p bk;
     s \<leftarrow> span_at p a;
     case sl_slot s of
       None \<Rightarrow> release_span p a bk
     | Some i \<Rightarrow> do {
         (p, unused) \<leftarrow> free_node p i a fn;
         if unused then release_span p a bk else Some p } }"

text \<open>At most \<open>sz\<close> blocks of the chain \<open>fp\<close>; what is left of it. A block of another slot drops the rest.\<close>

primrec dealloc_batch :: "mp_pool \<Rightarrow> nat \<Rightarrow> ptr \<Rightarrow> nat \<Rightarrow> (mp_pool \<times> ptr) option" where
  "dealloc_batch p i fp 0 = Some (p, fp)"
| "dealloc_batch p i fp (Suc sz) = (case fp of
     None \<Rightarrow> Some (p, NULL)
   | Some fn \<Rightarrow> do {
       fp \<leftarrow> get_next p fn;
       pbk \<leftarrow> find_bucket p fn;
       case pbk of
         None \<Rightarrow> Some (p, NULL)
       | Some bk \<Rightarrow> do {
           a \<leftarrow> bucket_get p bk;
           s \<leftarrow> span_at p a;
           if sl_slot s \<noteq> Some i then Some (p, NULL)
           else do {
             (p, unused) \<leftarrow> free_node p i a fn;
             p \<leftarrow> (if unused then release_span p a bk else Some p);
             dealloc_batch p i fp sz } } })"

text \<open>Blocks that are not of the pool go to \<open>free\<close> of the C library (\<open>False\<close>).\<close>

definition mp_dealloc :: "mp_pool \<Rightarrow> addr \<Rightarrow> (mp_pool \<times> bool) option" where
  "mp_dealloc p fn = do {
     pbk \<leftarrow> find_bucket p fn;
     case pbk of
       None \<Rightarrow> Some (p, False)
     | Some bk \<Rightarrow> do { p \<leftarrow> dealloc_real p fn bk; Some (p, True) } }"

definition copy_words :: "(addr \<Rightarrow> ptr) \<Rightarrow> addr \<Rightarrow> addr \<Rightarrow> nat \<Rightarrow> addr \<Rightarrow> ptr" where
  "copy_words m dst src n = (\<lambda>x. if dst \<le> x \<and> x < dst + n then m (src + (x - dst)) else m x)"

definition realloc_real :: "os \<Rightarrow> mp_pool \<Rightarrow> addr \<Rightarrow> nat \<Rightarrow> nat \<Rightarrow> (mp_pool \<times> ptr) option" where
  "realloc_real os p q n bk = do {
     a \<leftarrow> bucket_get p bk;
     s \<leftarrow> span_at p a;
     let n0 = (case sl_slot s of Some i \<Rightarrow> nd_size (slots p ! i)
       | None \<Rightarrow> if sp_fly s then sp_size s - SPAN_SIZE else sp_size s);
     if n \<le> n0 then Some (p, Some q)
     else do {
       (p, m) \<leftarrow> mp_alloc os p n;
       case m of
         None \<Rightarrow> Some (p, NULL)
       | Some m' \<Rightarrow> do {
           wassert (in_memory p m' n0 \<and> in_memory p q n0);
           p \<leftarrow> dealloc_real (p\<lparr>mem := copy_words (mem p) m' q n0\<rparr>) q bk;
           Some (p, Some m') } } }"

text \<open>The result of \<open>realloc\<close> tells whether the pool has handled it.\<close>

definition mp_realloc :: "os \<Rightarrow> mp_pool \<Rightarrow> ptr \<Rightarrow> nat \<Rightarrow> (mp_pool \<times> ptr \<times> bool) option" where
  "mp_realloc os p q n = (case q of
     None \<Rightarrow> do { (p, m) \<leftarrow> mp_alloc os p n; Some (p, m, True) }
   | Some q \<Rightarrow>
       if n = 0 then do { (p, here) \<leftarrow> mp_dealloc p q; Some (p, NULL, here) }
       else do {
         pbk \<leftarrow> find_bucket p q;
         case pbk of
           None \<Rightarrow> Some (p, NULL, False)
         | Some bk \<Rightarrow> do { (p, m) \<leftarrow> realloc_real os p q n bk; Some (p, m, True) } })"

end
