(* ===== verification/Mempool_Inv.thy ===== *)
theory Mempool_Inv
  imports Mempool
begin

text \<open>
  The invariant of the memory pool. It is stated with what the pointers represent: the free blocks
  of every span (\<open>FL\<close>), the spans of every slot that have free blocks (\<open>DL\<close>), the free span objects
  (\<open>OL\<close>) and the pages they are in (\<open>OP\<close>).
\<close>

subsection \<open>The sizes\<close>

definition unit_nall :: "nat \<Rightarrow> nat" where "unit_nall i = nd_nall (slot_init (FixAllocUnits ! i))"
definition unit_fly :: "nat \<Rightarrow> bool" where "unit_fly i = slot_fly (slot_init (FixAllocUnits ! i))"
abbreviation unit_size :: "nat \<Rightarrow> nat" where "unit_size i \<equiv> FixAllocUnits ! i"

lemma units_list: "list_all (\<lambda>nd. 8 \<le> nd \<and> 8 dvd nd \<and> nd \<le> SP_SIZE \<and> 0 < nd_nall (slot_init nd) \<and>
    nd_nall (slot_init nd) * nd \<le> (if slot_fly (slot_init nd) then SP_SIZE else SP_SIZE - SPAN_SIZE)) FixAllocUnits"
  by (simp add: FixAllocUnits_def slot_init_def split_unit_n_def SP_SIZE_def SPAN_SIZE_def Let_def)

lemma length_units: "length FixAllocUnits = 26"
  by (simp add: FixAllocUnits_def)

lemma units:
  assumes "i < 26"
  shows "8 \<le> unit_size i" "8 dvd unit_size i" "unit_size i \<le> SP_SIZE" "0 < unit_nall i"
    "unit_nall i * unit_size i \<le> SP_SIZE" "\<not> unit_fly i \<Longrightarrow> unit_nall i * unit_size i \<le> SP_SIZE - SPAN_SIZE"
    "unit_nall i \<le> SP_SIZE" "unit_nall i < 2 ^ 64"
proof -
  have *: "8 \<le> unit_size i \<and> 8 dvd unit_size i \<and> unit_size i \<le> SP_SIZE \<and> 0 < nd_nall (slot_init (unit_size i)) \<and>
    nd_nall (slot_init (unit_size i)) * unit_size i \<le> (if slot_fly (slot_init (unit_size i)) then SP_SIZE else SP_SIZE - SPAN_SIZE)"
    using units_list assms by (simp add: list_all_length length_units)
  then show "8 \<le> unit_size i" "8 dvd unit_size i" "unit_size i \<le> SP_SIZE" "0 < unit_nall i"
    "\<not> unit_fly i \<Longrightarrow> unit_nall i * unit_size i \<le> SP_SIZE - SPAN_SIZE" by (simp_all add: unit_nall_def unit_fly_def)
  show n: "unit_nall i * unit_size i \<le> SP_SIZE" using * unfolding unit_nall_def
    by (cases "slot_fly (slot_init (unit_size i))") (simp_all add: SP_SIZE_def SPAN_SIZE_def)
  have "unit_nall i * 1 \<le> unit_nall i * unit_size i" using * by (intro mult_le_mono2) simp
  then show l: "unit_nall i \<le> SP_SIZE" using n by linarith
  then show "unit_nall i < 2 ^ 64" by (simp add: SP_SIZE_def)
qed

subsection \<open>Lists in memory\<close>

primrec chain :: "(addr \<Rightarrow> ptr) \<Rightarrow> ptr \<Rightarrow> addr list \<Rightarrow> bool" where
  "chain m x [] \<longleftrightarrow> x = NULL"
| "chain m x (b # bs) \<longleftrightarrow> x = Some b \<and> chain m (m b) bs"

lemma chain_cong: "chain m x bs \<Longrightarrow> \<forall>b \<in> set bs. m' b = m b \<Longrightarrow> chain m' x bs"
  by (induction bs arbitrary: x) auto

lemma chain_upd: "a \<notin> set bs \<Longrightarrow> chain (m(a := v)) x bs \<longleftrightarrow> chain m x bs"
  by (induction bs arbitrary: x) auto

lemma chain_NULL: "chain m x bs \<Longrightarrow> x = NULL \<longleftrightarrow> bs = []"
  by (cases bs) auto

primrec dll :: "(addr \<rightharpoonup> mp_span) \<Rightarrow> ptr \<Rightarrow> ptr \<Rightarrow> addr list \<Rightarrow> bool" where
  "dll h pv x [] \<longleftrightarrow> x = NULL"
| "dll h pv x (a # as) \<longleftrightarrow> x = Some a \<and> (\<exists>s. h a = Some s \<and> sl_prev s = pv \<and> dll h (Some a) (sl_next s) as)"

definition links :: "mp_span \<Rightarrow> ptr \<times> ptr" where
  "links s = (sl_prev s, sl_next s)"

lemma dll_cong: "dll h pv x as \<Longrightarrow> \<forall>a \<in> set as. map_option links (h' a) = map_option links (h a) \<Longrightarrow> dll h' pv x as"
proof (induction as arbitrary: pv x)
  case (Cons a as)
  then obtain s where s: "x = Some a" "h a = Some s" "sl_prev s = pv" "dll h (Some a) (sl_next s) as" by auto
  obtain s' where "h' a = Some s'" "links s' = links s" using Cons.prems(2) s(2) by auto
  then show ?case using s Cons.IH [OF s(4)] Cons.prems(2) by (auto simp: links_def)
qed simp

lemma dll_NULL: "dll h pv x as \<Longrightarrow> x = NULL \<longleftrightarrow> as = []"
  by (cases as) auto

subsection \<open>The invariant\<close>

definition blocks :: "nat \<Rightarrow> addr \<Rightarrow> addr set" where
  "blocks i b = {b + k * unit_size i | k. k < unit_nall i}"

definition objects :: "addr set \<Rightarrow> addr set" where
  "objects OP = {b + SPAN_SIZE * k | b k. b \<in> OP \<and> 1 \<le> k \<and> k < SP_SIZE div SPAN_SIZE}"

definition slots_ok :: "mp_pool \<Rightarrow> bool" where
  "slots_ok p \<longleftrightarrow> length (slots p) = 26 \<and> (\<forall>i < 26. (slots p ! i)\<lparr>sp_head := NULL\<rparr> = slot_init (unit_size i))"

text \<open>No region crosses a multiple of \<open>TABLE_SIZE\<close>, the memory that one table of the page map is for.\<close>

definition TABLE_SIZE :: nat where "TABLE_SIZE = SP_SIZE * 2 ^ bits1"

definition mapped_ok :: "(addr \<rightharpoonup> nat) \<Rightarrow> bool" where
  "mapped_ok M \<longleftrightarrow> (\<forall>b s. M b = Some s \<longrightarrow> 0 < b \<and> 0 < s \<and> b + s \<le> 2 ^ 64 \<and> b div TABLE_SIZE = (b + s - 1) div TABLE_SIZE) \<and>
    (\<forall>b s c t. M b = Some s \<longrightarrow> M c = Some t \<longrightarrow> b \<noteq> c \<longrightarrow> b + s \<le> c \<or> c + t \<le> b)"

definition span_ok :: "mp_pool \<Rightarrow> addr list \<Rightarrow> addr set \<Rightarrow> addr \<Rightarrow> mp_span \<Rightarrow> bool" where
  "span_ok p OL OP a s \<longleftrightarrow> mapped p (sp_base s) = Some (page_up (sp_size s)) \<and> SP_SIZE \<le> sp_size s \<and> sp_base s \<notin> OP \<and>
    bucket_get p (sp_base s div SP_SIZE) = Some a \<and>
    (if sp_fly s then a \<in> objects OP - set OL else a + SPAN_SIZE = sp_base s + page_up (sp_size s)) \<and>
    (case sl_slot s of None \<Rightarrow> SP_SIZE < sp_size s \<and> (sp_fly s \<or> page_up (sp_size s) = sp_size s + SPAN_SIZE) | Some i \<Rightarrow> i < 26 \<and> sp_size s = SP_SIZE \<and> sp_fly s = unit_fly i)"

definition geo :: "mp_pool \<Rightarrow> addr list \<Rightarrow> addr set \<Rightarrow> bool" where
  "geo p OL OP \<longleftrightarrow> slots_ok p \<and> mapped_ok (mapped p) \<and>
    (\<forall>a s. span_at p a = Some s \<longrightarrow> span_ok p OL OP a s) \<and>
    (\<forall>k a. bucket_get p k = Some a \<longrightarrow> (\<exists>s. span_at p a = Some s \<and> sp_base s div SP_SIZE = k)) \<and>
    (\<forall>b \<in> OP. mapped p b = Some SP_SIZE) \<and> set OL \<subseteq> objects OP \<and> distinct OL \<and> chain (mem p) (obj_free p) OL"

definition frees :: "mp_pool \<Rightarrow> (addr \<Rightarrow> addr list) \<Rightarrow> bool" where
  "frees p FL \<longleftrightarrow> (\<forall>a s i. span_at p a = Some s \<longrightarrow> sl_slot s = Some i \<longrightarrow>
    chain (mem p) (nd_free s) (FL a) \<and> distinct (FL a) \<and> set (FL a) \<subseteq> blocks i (sp_base s) \<and>
    nd_nnum s + length (FL a) = unit_nall i)"

definition partial :: "mp_pool \<Rightarrow> nat \<Rightarrow> addr set" where
  "partial p i = {a. \<exists>s. span_at p a = Some s \<and> sl_slot s = Some i \<and> nd_free s \<noteq> NULL}"

definition lists :: "mp_pool \<Rightarrow> (nat \<Rightarrow> addr list) \<Rightarrow> bool" where
  "lists p DL \<longleftrightarrow> (\<forall>i < 26. distinct (DL i) \<and> dll (span_at p) NULL (sp_head (slots p ! i)) (DL i) \<and> set (DL i) = partial p i)"

definition pool_inv :: "mp_pool \<Rightarrow> (addr \<Rightarrow> addr list) \<Rightarrow> (nat \<Rightarrow> addr list) \<Rightarrow> addr list \<Rightarrow> addr set \<Rightarrow> bool" where
  "pool_inv p FL DL OL OP \<longleftrightarrow> geo p OL OP \<and> frees p FL \<and> lists p DL"

text \<open>The blocks that have been given out, with their sizes.\<close>

definition given :: "mp_pool \<Rightarrow> (addr \<Rightarrow> addr list) \<Rightarrow> (addr \<times> nat) set" where
  "given p FL = {(q, n). \<exists>a s. span_at p a = Some s \<and> (case sl_slot s of
     None \<Rightarrow> q = sp_base s \<and> n = sp_size s
   | Some i \<Rightarrow> q \<in> blocks i (sp_base s) - set (FL a) \<and> n = unit_size i)}"

definition gives_out :: "mp_pool \<Rightarrow> (addr \<times> nat) set \<Rightarrow> bool" where
  "gives_out p G \<longleftrightarrow> (\<exists>FL DL OL OP. pool_inv p FL DL OL OP \<and> G = given p FL)"

subsection \<open>Geometry\<close>

lemma page_up_ge: "n \<le> page_up n" "page_up SP_SIZE = SP_SIZE"
proof -
  have "(n + 4095) mod 4096 < 4096" by simp
  then have "n + 4095 < (n + 4095) div 4096 * 4096 + 4096" by (metis add_less_cancel_left div_mult_mod_eq)
  then show "n \<le> page_up n" by (simp add: page_up_def PG_SIZE_def)
  show "page_up SP_SIZE = SP_SIZE" by (simp add: page_up_def PG_SIZE_def SP_SIZE_def)
qed

lemma block_bounds:
  assumes i: "i < 26" and q: "q \<in> blocks i b"
  shows "b \<le> q" "q + unit_size i \<le> b + SP_SIZE" "\<not> unit_fly i \<Longrightarrow> q + unit_size i \<le> b + SP_SIZE - SPAN_SIZE"
    "q + 8 \<le> b + SP_SIZE" "q < b + SP_SIZE"
proof -
  obtain k where k: "q = b + k * unit_size i" "k < unit_nall i" using q by (auto simp: blocks_def)
  have "Suc k * unit_size i \<le> unit_nall i * unit_size i" using k(2) by (intro mult_le_mono1) simp
  then have *: "q + unit_size i \<le> b + unit_nall i * unit_size i" using k(1) by simp
  show "b \<le> q" using k(1) by simp
  show a: "q + unit_size i \<le> b + SP_SIZE" using * units(5) [OF i] by linarith
  show "\<not> unit_fly i \<Longrightarrow> q + unit_size i \<le> b + SP_SIZE - SPAN_SIZE" using * units(6) [OF i] by (simp add: SP_SIZE_def SPAN_SIZE_def)
  show "q + 8 \<le> b + SP_SIZE" "q < b + SP_SIZE" using a units(1) [OF i] by linarith+
qed

lemma finite_blocks: "finite (blocks i b)" "card (blocks i b) \<le> unit_nall i"
proof -
  have *: "blocks i b = (\<lambda>k. b + k * unit_size i) ` {..< unit_nall i}" by (auto simp: blocks_def)
  show "finite (blocks i b)" unfolding * by simp
  show "card (blocks i b) \<le> unit_nall i" unfolding * by (rule order_trans [OF card_image_le]) simp_all
qed

lemma geoD:
  assumes "geo p OL OP"
  shows "slots_ok p" "mapped_ok (mapped p)" "span_at p a = Some s \<Longrightarrow> span_ok p OL OP a s"
    "bucket_get p k = Some a \<Longrightarrow> \<exists>s. span_at p a = Some s \<and> sp_base s div SP_SIZE = k"
    "b \<in> OP \<Longrightarrow> mapped p b = Some SP_SIZE" "set OL \<subseteq> objects OP" "distinct OL" "chain (mem p) (obj_free p) OL"
  using assms by (auto simp: geo_def)

lemma slot_fields:
  assumes "slots_ok p" "i < 26"
  shows "nd_size (slots p ! i) = unit_size i" "nd_nall (slots p ! i) = unit_nall i" "slot_fly (slots p ! i) = unit_fly i"
proof -
  have "(slots p ! i)\<lparr>sp_head := NULL\<rparr> = slot_init (unit_size i)" using assms by (simp add: slots_ok_def)
  then have "nd_size (slots p ! i) = nd_size (slot_init (unit_size i))" "nd_nall (slots p ! i) = nd_nall (slot_init (unit_size i))"
    "slot_fly (slots p ! i) = slot_fly (slot_init (unit_size i))"
    by (metis mp_slot.select_convs(2-4) mp_slot.surjective mp_slot.update_convs(1))+
  then show "nd_size (slots p ! i) = unit_size i" "nd_nall (slots p ! i) = unit_nall i" "slot_fly (slots p ! i) = unit_fly i"
    by (simp_all add: unit_nall_def unit_fly_def slot_init_def Let_def split: if_splits)
qed

text \<open>Two spans have different bases and do not overlap.\<close>

lemma spans_apart:
  assumes g: "geo p OL OP" and a: "span_at p a = Some s" and b: "span_at p b = Some t" and ne: "a \<noteq> b"
  shows "sp_base s \<noteq> sp_base t" "sp_base s + page_up (sp_size s) \<le> sp_base t \<or> sp_base t + page_up (sp_size t) \<le> sp_base s"
proof -
  have A: "span_ok p OL OP a s" "span_ok p OL OP b t" using geoD(3) [OF g] a b by blast+
  then show 1: "sp_base s \<noteq> sp_base t" using ne by (auto simp: span_ok_def)
  show "sp_base s + page_up (sp_size s) \<le> sp_base t \<or> sp_base t + page_up (sp_size t) \<le> sp_base s"
    using A 1 geoD(2) [OF g] by (auto simp: span_ok_def mapped_ok_def)
qed

text \<open>An address belongs to at most one region.\<close>

lemma mapped_same:
  assumes M: "mapped_ok M" and b: "M b = Some s" "b \<le> x" "x < b + s" and c: "M c = Some t" "c \<le> x" "x < c + t"
  shows "b = c"
  using assms unfolding mapped_ok_def by (meson leD le_trans less_le_trans)

lemma object_in_page:
  assumes "x \<in> objects OP"
  shows "\<exists>b \<in> OP. b \<le> x \<and> x + SPAN_SIZE \<le> b + SP_SIZE"
proof -
  obtain b k where k: "b \<in> OP" "x = b + SPAN_SIZE * k" "k < SP_SIZE div SPAN_SIZE" using assms by (auto simp: objects_def)
  have "SPAN_SIZE * Suc k \<le> SPAN_SIZE * (SP_SIZE div SPAN_SIZE)" using k(3) by (intro mult_le_mono2) simp
  also have "\<dots> \<le> SP_SIZE" by (simp add: SP_SIZE_def SPAN_SIZE_def)
  finally show ?thesis using k by (intro bexI [of _ b]) auto
qed

text \<open>Free span objects are not in spans.\<close>

lemma object_not_in_span:
  assumes g: "geo p OL OP" and a: "span_at p a = Some s" and x: "x \<in> objects OP"
  shows "\<not> (sp_base s \<le> x \<and> x < sp_base s + page_up (sp_size s))"
proof
  assume *: "sp_base s \<le> x \<and> x < sp_base s + page_up (sp_size s)"
  obtain b where b: "b \<in> OP" "b \<le> x" "x + SPAN_SIZE \<le> b + SP_SIZE" using object_in_page [OF x] by blast
  have "x < b + SP_SIZE" using b(3) by (simp add: SPAN_SIZE_def)
  then have "sp_base s = b"
    using mapped_same [OF geoD(2) [OF g], of "sp_base s" _ x b SP_SIZE] geoD(3) [OF g a] * b geoD(5) [OF g b(1)] by (auto simp: span_ok_def)
  then show False using geoD(3) [OF g a] b(1) by (simp add: span_ok_def)
qed

subsection \<open>Finding spans\<close>

lemma div_step: "b \<le> q \<Longrightarrow> q < b + n \<Longrightarrow> 0 < n \<Longrightarrow> q div n = b div n \<or> q div n = Suc (b div n)" for b q n :: nat
proof -
  assume q: "b \<le> q" "q < b + n" "0 < n"
  have "b div n \<le> q div n" using q(1) by (rule div_le_mono)
  moreover have "q div n \<le> (b + n) div n" using q(2) by (intro div_le_mono) simp
  moreover have "(b + n) div n = Suc (b div n)" using q(3) div_add_self2 [of n b] by simp
  ultimately show ?thesis by linarith
qed

lemma div_same_less: "q div n = b div n \<Longrightarrow> 0 < n \<Longrightarrow> q < b + n" for b q n :: nat
proof -
  assume "q div n = b div n" "0 < n"
  then have "q < b div n * n + n" using dividend_less_div_times [of n q] by simp
  moreover have "b div n * n \<le> b" by simp
  ultimately show ?thesis by linarith
qed

lemma bucket_table: "bucket_get p k = Some a \<Longrightarrow> tables p (k div 2 ^ bits1) \<noteq> None"
  by (cases "tables p (k div 2 ^ bits1)") (auto simp: bucket_get_def)

lemma span_bounds:
  assumes g: "geo p OL OP" and a: "span_at p a = Some s"
  shows "0 < sp_base s" "sp_base s + sp_size s \<le> 2 ^ 64" "SP_SIZE \<le> sp_size s"
proof -
  have o: "span_ok p OL OP a s" by (rule geoD(3) [OF g a])
  then show "SP_SIZE \<le> sp_size s" by (simp add: span_ok_def)
  have "0 < sp_base s \<and> sp_base s + page_up (sp_size s) \<le> 2 ^ 64" using o geoD(2) [OF g] by (auto simp: span_ok_def mapped_ok_def)
  then show "0 < sp_base s" "sp_base s + sp_size s \<le> 2 ^ 64" using page_up_ge(1) [of "sp_size s"] by auto
qed

text \<open>The table for an address of a span exists.\<close>

lemma span_table:
  assumes g: "geo p OL OP" and a: "span_at p a = Some s" and q: "sp_base s \<le> q" "q < sp_base s + sp_size s"
  shows "tables p (q div SP_SIZE div 2 ^ bits1) \<noteq> None"
proof -
  let ?b = "sp_base s" and ?n = "page_up (sp_size s)"
  have o: "span_ok p OL OP a s" by (rule geoD(3) [OF g a])
  then have T: "?b div TABLE_SIZE = (?b + ?n - 1) div TABLE_SIZE" using geoD(2) [OF g] unfolding span_ok_def mapped_ok_def by blast
  have "q \<le> ?b + ?n - 1" using q page_up_ge(1) [of "sp_size s"] by linarith
  then have "?b div TABLE_SIZE \<le> q div TABLE_SIZE" "q div TABLE_SIZE \<le> (?b + ?n - 1) div TABLE_SIZE" using q(1) by (simp_all add: div_le_mono)
  then have "q div TABLE_SIZE = ?b div TABLE_SIZE" using T by linarith
  then have "q div SP_SIZE div 2 ^ bits1 = ?b div SP_SIZE div 2 ^ bits1" by (simp add: TABLE_SIZE_def div_mult2_eq)
  moreover have "bucket_get p (?b div SP_SIZE) = Some a" using o by (simp add: span_ok_def)
  ultimately show ?thesis using bucket_table [of p "?b div SP_SIZE" a] by simp
qed

lemma find_bucket_ok:
  assumes g: "geo p OL OP" and a: "span_at p a = Some s" and q: "sp_base s \<le> q" "q < sp_base s + SP_SIZE"
  shows "find_bucket p q = Some (Some (sp_base s div SP_SIZE))"
proof -
  have t: "tables p (q div SP_SIZE div 2 ^ bits1) \<noteq> None"
    by (rule span_table [OF g a q(1)]) (use q(2) span_bounds(3) [OF g a] in linarith)
  let ?k = "q div SP_SIZE" and ?kb = "sp_base s div SP_SIZE"
  have o: "bucket_get p ?kb = Some a" using geoD(3) [OF g a] by (simp add: span_ok_def)
  note B = span_bounds [OF g a]
  have l: "q - sp_base s < sp_size s" "q < 2 ^ 64" using q B by linarith+
  consider "?k = ?kb" | "?k = Suc ?kb" using div_step [OF q] by (auto simp: SP_SIZE_def)
  then show ?thesis
  proof cases
    case 1
    then show ?thesis using o a q(1) l t by (simp add: find_bucket_def Let_def)
  next
    case 2
    have n: "(case bucket_get p ?k of None \<Rightarrow> Some False
        | Some a \<Rightarrow> do { s \<leftarrow> span_at p a;
             if sp_base s \<le> q then do { wassert (q - sp_base s < sp_size s); Some True } else Some False }) = Some False"
    proof (cases "bucket_get p ?k")
      case (Some b)
      obtain u where u: "span_at p b = Some u" "sp_base u div SP_SIZE = ?k" using geoD(4) [OF g Some] by blast
      have "\<not> sp_base u \<le> q"
      proof
        assume le: "sp_base u \<le> q"
        have "q < sp_base u + SP_SIZE" using div_same_less [of q SP_SIZE "sp_base u"] u(2) by (simp add: SP_SIZE_def)
        moreover have "b \<noteq> a" using u 2 a by auto
        ultimately show False
          using spans_apart(2) [OF g u(1) a] le q B(3) span_bounds(3) [OF g u(1)] page_up_ge(1) [of "sp_size u"] page_up_ge(1) [of "sp_size s"]
          by linarith
      qed
      then show ?thesis using Some u(1) by simp
    qed simp
    have w: "(q + 2 ^ 64 - sp_base s) mod 2 ^ 64 = q - sp_base s"
    proof -
      have "q + 2 ^ 64 - sp_base s = q - sp_base s + 2 ^ 64" using q(1) by simp
      moreover have "q - sp_base s < 2 ^ 64" using l(2) by linarith
      ultimately show ?thesis by (simp only: mod_add_self2 mod_less)
    qed
    have k: "?k - 1 = ?kb" "?k \<noteq> 0" using 2 by simp_all
    show ?thesis unfolding find_bucket_def Let_def n k(1) if_not_P [OF t] bind.bind_lunit if_False if_not_P [OF k(2)] if_not_P [OF bucket_table [OF o]]
      o option.case a w using l(1) by simp
  qed
qed

subsection \<open>Changes that keep the geometry\<close>

definition static :: "mp_span \<Rightarrow> addr \<times> nat \<times> bool \<times> nat option" where
  "static s = (sp_base s, sp_size s, sp_fly s, sl_slot s)"

definition same_slots :: "mp_pool \<Rightarrow> mp_pool \<Rightarrow> bool" where
  "same_slots p p' \<longleftrightarrow> length (slots p') = length (slots p) \<and> (\<forall>i < length (slots p). (slots p' ! i)\<lparr>sp_head := NULL\<rparr> = (slots p ! i)\<lparr>sp_head := NULL\<rparr>)"

lemma geo_same:
  assumes g: "geo p OL OP" and m: "mapped p' = mapped p" "tables p' = tables p" "obj_free p' = obj_free p"
    and s: "same_slots p p'" and sp: "\<And>a. map_option static (span_at p' a) = map_option static (span_at p a)"
    and c: "\<forall>b \<in> set OL. mem p' b = mem p b"
  shows "geo p' OL OP"
proof -
  have bk: "bucket_get p' k = bucket_get p k" for k by (simp add: bucket_get_def m)
  have st: "\<exists>t. span_at p a = Some t \<and> static t = static s" if "span_at p' a = Some s" for a s
    using sp [of a] that by (metis map_option_eq_Some)
  have ts: "\<exists>t. span_at p' a = Some t \<and> static t = static s" if "span_at p a = Some s" for a s
    using sp [of a] that by (metis map_option_eq_Some)
  have "slots_ok p'" using geoD(1) [OF g] s by (auto simp: slots_ok_def same_slots_def)
  moreover have "span_ok p' OL OP a s" if a: "span_at p' a = Some s" for a s
  proof -
    obtain t where t: "span_at p a = Some t" "static t = static s" using st [OF a] by blast
    then have e: "sp_base s = sp_base t" "sp_size s = sp_size t" "sp_fly s = sp_fly t" "sl_slot s = sl_slot t"
      by (simp_all add: static_def)
    show ?thesis using geoD(3) [OF g t(1)] unfolding span_ok_def e m bk .
  qed
  moreover have "\<exists>s. span_at p' a = Some s \<and> sp_base s div SP_SIZE = k" if "bucket_get p' k = Some a" for k a
    using geoD(4) [OF g that [unfolded bk]] ts by (fastforce simp: static_def)
  moreover have "chain (mem p') (obj_free p') OL" using chain_cong [OF geoD(8) [OF g] c] m(3) by simp
  ultimately show ?thesis using geoD(2,5-7) [OF g] by (simp add: geo_def m(1))
qed

lemma set_head_simps [simp]:
  "mem (set_head p i h) = mem p" "mapped (set_head p i h) = mapped p" "span_at (set_head p i h) = span_at p"
  "tables (set_head p i h) = tables p" "obj_free (set_head p i h) = obj_free p" "pg_list (set_head p i h) = pg_list p"
  "length (slots (set_head p i h)) = length (slots p)"
  by (simp_all add: set_head_def)

lemma set_head_get: "i < length (slots p) \<Longrightarrow> j < length (slots p) \<Longrightarrow>
    slots (set_head p i h) ! j = (if i = j then (slots p ! i)\<lparr>sp_head := h\<rparr> else slots p ! j)"
  by (simp add: set_head_def nth_list_update)

lemma set_head_same: "i < length (slots p) \<Longrightarrow> same_slots p (set_head p i h)"
  by (auto simp: same_slots_def set_head_get)

lemma same_slots_refl: "slots p' = slots p \<Longrightarrow> same_slots p p'"
  by (simp add: same_slots_def)

lemma same_slots_trans: "same_slots p q \<Longrightarrow> same_slots q r \<Longrightarrow> same_slots p r"
  by (simp add: same_slots_def)

subsection \<open>Changes of one slot\<close>

lemma listsD:
  assumes "lists p DL" "i < 26"
  shows "distinct (DL i)" "dll (span_at p) NULL (sp_head (slots p ! i)) (DL i)" "set (DL i) = partial p i"
  using assms by (auto simp: lists_def)

definition near :: "nat option \<Rightarrow> mp_pool \<Rightarrow> mp_pool \<Rightarrow> addr \<Rightarrow> bool" where
  "near i p p' a \<longleftrightarrow> (\<forall>s. span_at p a = Some s \<longrightarrow> sl_slot s = i \<or> sl_slot s = None) \<and>
    (\<forall>s. span_at p' a = Some s \<longrightarrow> sl_slot s = i \<or> sl_slot s = None)"

lemma lists_upd:
  assumes l: "lists p DL"
    and h: "\<And>j. j < 26 \<Longrightarrow> j \<noteq> i \<Longrightarrow> sp_head (slots p' ! j) = sp_head (slots p ! j)"
    and s: "\<And>a. span_at p' a \<noteq> span_at p a \<Longrightarrow> near (Some i) p p' a"
    and D: "i < 26 \<Longrightarrow> distinct D \<and> dll (span_at p') NULL (sp_head (slots p' ! i)) D \<and> set D = partial p' i"
  shows "lists p' (DL(i := D))"
  unfolding lists_def
proof (intro allI impI)
  fix j :: nat assume j: "j < 26"
  show "distinct ((DL(i := D)) j) \<and> dll (span_at p') NULL (sp_head (slots p' ! j)) ((DL(i := D)) j) \<and> set ((DL(i := D)) j) = partial p' j"
  proof (cases "j = i")
    case False
    note L = listsD [OF l j]
    have same: "span_at p' a = span_at p a" if "span_at p a = Some t \<or> span_at p' a = Some t" "sl_slot t = Some j" for a t
      using s [of a] that False by (cases "span_at p' a = span_at p a") (auto simp: near_def)
    have "map_option links (span_at p' a) = map_option links (span_at p a)" if a: "a \<in> set (DL j)" for a
    proof -
      obtain t where "span_at p a = Some t" "sl_slot t = Some j" using a unfolding L(3) by (auto simp: partial_def)
      then show ?thesis using same [of a t] by simp
    qed
    with L(2) have "dll (span_at p') NULL (sp_head (slots p ! j)) (DL j)" by (auto intro: dll_cong)
    moreover have "partial p' j = partial p j"
    proof -
      have "a \<in> partial p j" if a: "a \<in> partial p' j" for a
      proof -
        obtain t where t: "span_at p' a = Some t" "sl_slot t = Some j" "nd_free t \<noteq> NULL" using a by (auto simp: partial_def)
        moreover have "span_at p a = span_at p' a" using same [of a t] calculation by simp
        ultimately show ?thesis unfolding partial_def by simp
      qed
      moreover have "a \<in> partial p' j" if a: "a \<in> partial p j" for a
      proof -
        obtain t where t: "span_at p a = Some t" "sl_slot t = Some j" "nd_free t \<noteq> NULL" using a by (auto simp: partial_def)
        moreover have "span_at p a = span_at p' a" using same [of a t] calculation by simp
        ultimately show ?thesis unfolding partial_def by simp
      qed
      ultimately show ?thesis by (intro set_eqI iffI)
    qed
    ultimately show ?thesis using False L h [OF j False] by simp
  qed (use D j in simp)
qed

definition core :: "mp_span \<Rightarrow> ptr \<times> nat \<times> nat option \<times> addr" where
  "core s = (nd_free s, nd_nnum s, sl_slot s, sp_base s)"

lemma freesD:
  assumes "frees p FL" "span_at p a = Some s" "sl_slot s = Some i"
  shows "chain (mem p) (nd_free s) (FL a)" "distinct (FL a)" "set (FL a) \<subseteq> blocks i (sp_base s)" "nd_nnum s + length (FL a) = unit_nall i"
  using assms by (auto simp: frees_def)

lemma frees_upd:
  assumes f: "frees p FL"
    and s: "\<And>a s'. a \<noteq> a0 \<Longrightarrow> span_at p' a = Some s' \<Longrightarrow> \<exists>s. span_at p a = Some s \<and> core s = core s'"
    and m: "\<And>a s i b. a \<noteq> a0 \<Longrightarrow> span_at p a = Some s \<Longrightarrow> sl_slot s = Some i \<Longrightarrow> b \<in> set (FL a) \<Longrightarrow> mem p' b = mem p b"
    and F: "\<And>s i. span_at p' a0 = Some s \<Longrightarrow> sl_slot s = Some i \<Longrightarrow> chain (mem p') (nd_free s) F \<and> distinct F \<and>
      set F \<subseteq> blocks i (sp_base s) \<and> nd_nnum s + length F = unit_nall i"
  shows "frees p' (FL(a0 := F))"
  unfolding frees_def
proof (intro allI impI)
  fix a s i assume a: "span_at p' a = Some s" "sl_slot s = Some i"
  show "chain (mem p') (nd_free s) ((FL(a0 := F)) a) \<and> distinct ((FL(a0 := F)) a) \<and>
      set ((FL(a0 := F)) a) \<subseteq> blocks i (sp_base s) \<and> nd_nnum s + length ((FL(a0 := F)) a) = unit_nall i"
  proof (cases "a = a0")
    case False
    obtain t where t: "span_at p a = Some t" "core t = core s" using s [OF False a(1)] by blast
    have e: "nd_free s = nd_free t" "nd_nnum s = nd_nnum t" "sl_slot s = sl_slot t" "sp_base s = sp_base t"
      using t(2) by (simp_all add: core_def)
    note D = freesD [OF f t(1) a(2) [unfolded e]]
    have "chain (mem p') (nd_free t) (FL a)" using chain_cong [OF D(1)] m [OF False t(1) a(2) [unfolded e]] by blast
    then show ?thesis using D False by (simp add: e)
  qed (use F a in simp)
qed

subsection \<open>What has been given out\<close>

definition given1 :: "mp_span \<Rightarrow> addr list \<Rightarrow> (addr \<times> nat) set" where
  "given1 s F = (case sl_slot s of None \<Rightarrow> {(sp_base s, sp_size s)} | Some i \<Rightarrow> (blocks i (sp_base s) - set F) \<times> {unit_size i})"

lemma given_iff: "x \<in> given p FL \<longleftrightarrow> (\<exists>a s. span_at p a = Some s \<and> x \<in> given1 s (FL a))"
  by (cases x) (auto simp: given_def given1_def split: option.splits)

lemma given1_static: "static s = static t \<Longrightarrow> given1 s F = given1 t F"
proof -
  assume "static s = static t"
  then have e: "sp_base s = sp_base t" "sp_size s = sp_size t" "sl_slot s = sl_slot t" by (simp_all add: static_def)
  show ?thesis unfolding given1_def e ..
qed

text \<open>Everything of a span that is given out is inside its region.\<close>

lemma given1_inside:
  assumes g: "geo p OL OP" and a: "span_at p a = Some s" and x: "(q, n) \<in> given1 s F"
  shows "sp_base s \<le> q" "q + n \<le> sp_base s + sp_size s" "q < sp_base s + SP_SIZE" "8 \<le> n" "in_memory p q n"
proof -
  have o: "span_ok p OL OP a s" by (rule geoD(3) [OF g a])
  have "sp_base s \<le> q \<and> q + n \<le> sp_base s + sp_size s \<and> q < sp_base s + SP_SIZE \<and> 8 \<le> n"
  proof (cases "sl_slot s")
    case None
    then show ?thesis using x o by (auto simp: given1_def span_ok_def SP_SIZE_def)
  next
    case (Some i)
    then have i: "i < 26" "sp_size s = SP_SIZE" "q \<in> blocks i (sp_base s)" "n = unit_size i" using x o by (auto simp: given1_def span_ok_def)
    then show ?thesis using block_bounds [OF i(1,3)] units(1) [OF i(1)] by simp
  qed
  then show *: "sp_base s \<le> q" "q + n \<le> sp_base s + sp_size s" "q < sp_base s + SP_SIZE" "8 \<le> n" by blast+
  have "mapped p (sp_base s) = Some (page_up (sp_size s))" using o by (simp add: span_ok_def)
  moreover have "q + n \<le> sp_base s + page_up (sp_size s)" using *(2) page_up_ge(1) [of "sp_size s"] by linarith
  ultimately show "in_memory p q n" using *(1) unfolding in_memory_def by blast
qed

lemma given_other:
  assumes g: "geo p OL OP" and a: "span_at p a = Some s" and b: "span_at p b = Some t" "b \<noteq> a"
    and q: "sp_base s \<le> q" "q < sp_base s + SP_SIZE"
  shows "(q, n) \<notin> given1 t F"
proof
  assume "(q, n) \<in> given1 t F"
  note I = given1_inside [OF g b(1) this]
  have "q < sp_base t + page_up (sp_size t)" using I(2,4) page_up_ge(1) [of "sp_size t"] by linarith
  moreover have "q < sp_base s + page_up (sp_size s)" using q(2) span_bounds(3) [OF g a] page_up_ge(1) [of "sp_size s"] by linarith
  ultimately show False using spans_apart(2) [OF g a b(1) b(2) [symmetric]] q(1) I(1) by linarith
qed

lemma given_upd:
  assumes sp: "\<And>b. b \<noteq> a \<Longrightarrow> map_option static (span_at p' b) = map_option static (span_at p b)"
    and a: "span_at p a = Some s" "span_at p' a = Some s'" "static s' = static s"
  shows "given p' (FL(a := F)) = {x. \<exists>b t. b \<noteq> a \<and> span_at p b = Some t \<and> x \<in> given1 t (FL b)} \<union> given1 s F"
proof (intro set_eqI)
  fix x
  have o: "(\<exists>t. span_at p' b = Some t \<and> x \<in> given1 t (FL b)) \<longleftrightarrow> (\<exists>t. span_at p b = Some t \<and> x \<in> given1 t (FL b))" if ne: "b \<noteq> a" for b
  proof (cases "span_at p b")
    case (Some t)
    then obtain t' where t': "span_at p' b = Some t'" "static t' = static t" using sp [OF ne] by (cases "span_at p' b") auto
    show ?thesis using Some t'(1) given1_static [OF t'(2)] by simp
  qed (use sp [OF ne] in simp)
  have ex: "(\<exists>b. P b) \<longleftrightarrow> (\<exists>b. b \<noteq> a \<and> P b) \<or> P a" for P by (cases "P a") auto
  have "x \<in> given p' (FL(a := F)) \<longleftrightarrow> (\<exists>b. b \<noteq> a \<and> (\<exists>t. span_at p' b = Some t \<and> x \<in> given1 t (FL b))) \<or> x \<in> given1 s' F"
  proof -
    have "(\<exists>b t. span_at p' b = Some t \<and> x \<in> given1 t ((FL(a := F)) b)) \<longleftrightarrow>
      (\<exists>b. b \<noteq> a \<and> (\<exists>t. span_at p' b = Some t \<and> x \<in> given1 t ((FL(a := F)) b))) \<or> (\<exists>t. span_at p' a = Some t \<and> x \<in> given1 t ((FL(a := F)) a))"
      by (rule ex)
    moreover have "(\<exists>b. b \<noteq> a \<and> (\<exists>t. span_at p' b = Some t \<and> x \<in> given1 t ((FL(a := F)) b))) \<longleftrightarrow>
      (\<exists>b. b \<noteq> a \<and> (\<exists>t. span_at p' b = Some t \<and> x \<in> given1 t (FL b)))" by (rule ex_cong1, rule conj_cong [OF refl]) simp
    ultimately show ?thesis unfolding given_iff using a(2) by simp
  qed
  also have "\<dots> \<longleftrightarrow> x \<in> {x. \<exists>b t. b \<noteq> a \<and> span_at p b = Some t \<and> x \<in> given1 t (FL b)} \<union> given1 s F"
  proof -
    have "(\<exists>b. b \<noteq> a \<and> (\<exists>t. span_at p' b = Some t \<and> x \<in> given1 t (FL b))) \<longleftrightarrow> (\<exists>b. b \<noteq> a \<and> (\<exists>t. span_at p b = Some t \<and> x \<in> given1 t (FL b)))"
      by (rule ex_cong1, rule conj_cong [OF refl], rule o)
    then show ?thesis unfolding given1_static [OF a(3)] by simp
  qed
  finally show "x \<in> given p' (FL(a := F)) \<longleftrightarrow> x \<in> {x. \<exists>b t. b \<noteq> a \<and> span_at p b = Some t \<and> x \<in> given1 t (FL b)} \<union> given1 s F" .
qed

lemma given_split:
  assumes "span_at p a = Some s"
  shows "given p FL = {x. \<exists>b t. b \<noteq> a \<and> span_at p b = Some t \<and> x \<in> given1 t (FL b)} \<union> given1 s (FL a)"
  using given_upd [of a p p s s FL "FL a"] assms by simp

text \<open>
  The tables of the slots: \<open>get_slot\<close> finds the smallest size of a block that is enough.
\<close>

lemma first_table: "fst slot_tables k = (if k \<le> 1 then Some 0 else if k \<le> 2 then Some 1 else if k \<le> 3 then Some 2 else if k \<le> 4 then Some 3
   else if k \<le> 6 then Some 4 else if k \<le> 8 then Some 5 else if k \<le> 12 then Some 6 else if k \<le> 16 then Some 7 else if k \<le> 24 then Some 8
   else if k \<le> 32 then Some 9 else if k \<le> 48 then Some 10 else if k \<le> 64 then Some 11 else if k \<le> 128 then Some 12 else if k \<le> 256 then Some 13
   else if k \<le> 512 then Some 14 else None)"
  by (simp add: slot_tables_def FixAllocUnits_def split_unit_n_def sz_slot1_def sz_slot2_def sz_bits1_def sz_bits2_def fill_def Let_def)

lemma second_table: "snd slot_tables k = (if k \<le> 2 then Some 15 else if k \<le> 4 then Some 16 else if k \<le> 6 then Some 17 else if k \<le> 8 then Some 18
   else if k \<le> 16 then Some 19 else if k \<le> 32 then Some 20 else if k \<le> 42 then Some 21 else if k \<le> 64 then Some 22 else if k \<le> 85 then Some 23
   else if k \<le> 128 then Some 24 else if k \<le> 256 then Some 25 else None)"
  by (simp add: slot_tables_def FixAllocUnits_def split_unit_n_def sz_slot1_def sz_slot2_def sz_bits1_def sz_bits2_def fill_def Let_def)

lemma unit_values:
  "unit_size 0 = 8" "unit_size (Suc 0) = 16" "unit_size 2 = 24" "unit_size 3 = 32" "unit_size 4 = 48" "unit_size 5 = 64" "unit_size 6 = 96"
  "unit_size 7 = 128" "unit_size 8 = 192" "unit_size 9 = 256" "unit_size 10 = 384" "unit_size 11 = 512" "unit_size 12 = 1024"
  "unit_size 13 = 2048" "unit_size 14 = 4096" "unit_size 15 = 8192" "unit_size 16 = 16384" "unit_size 17 = 24576" "unit_size 18 = 32768"
  "unit_size 19 = 65536" "unit_size 20 = 131072" "unit_size 21 = 172032" "unit_size 22 = 262144" "unit_size 23 = 348160"
  "unit_size 24 = 524288" "unit_size 25 = 1048576"
  by (simp_all add: FixAllocUnits_def split_unit_n_def)

lemma div_up_le: "0 < u \<Longrightarrow> (n + (u - 1)) div u \<le> k \<longleftrightarrow> n \<le> k * u" for n u k :: nat
proof -
  assume u: "0 < u"
  have "(n + (u - 1)) div u < Suc k \<longleftrightarrow> n + (u - 1) < Suc k * u" using u by (rule div_less_iff_less_mult)
  then show ?thesis using u by auto
qed

lemma get_slot_first:
  assumes "n \<le> 4096"
  shows "get_slot n = (if n \<le> 8 then Some 0 else if n \<le> 16 then Some 1 else if n \<le> 24 then Some 2 else if n \<le> 32 then Some 3
   else if n \<le> 48 then Some 4 else if n \<le> 64 then Some 5 else if n \<le> 96 then Some 6 else if n \<le> 128 then Some 7 else if n \<le> 192 then Some 8
   else if n \<le> 256 then Some 9 else if n \<le> 384 then Some 10 else if n \<le> 512 then Some 11 else if n \<le> 1024 then Some 12 else if n \<le> 2048 then Some 13
   else Some 14)"
proof -
  have *: "(n + 7) div 8 \<le> k \<longleftrightarrow> n \<le> k * 8" for k using div_up_le [of 8 n k] by simp
  show ?thesis using assms by (simp add: get_slot_def sz_slot1_def sz_bits1_def first_table *)
qed

lemma get_slot_second:
  assumes "4096 < n"
  shows "get_slot n = (if n \<le> 8192 then Some 15 else if n \<le> 16384 then Some 16 else if n \<le> 24576 then Some 17 else if n \<le> 32768 then Some 18
   else if n \<le> 65536 then Some 19 else if n \<le> 131072 then Some 20 else if n \<le> 172032 then Some 21 else if n \<le> 262144 then Some 22
   else if n \<le> 348160 then Some 23 else if n \<le> 524288 then Some 24 else if n \<le> 1048576 then Some 25 else None)"
proof -
  have *: "(n + 4095) div 4096 \<le> k \<longleftrightarrow> n \<le> k * 4096" for k using div_up_le [of 4096 n k] by simp
  show ?thesis using assms by (simp add: get_slot_def sz_slot1_def sz_slot2_def sz_bits2_def second_table *)
qed

lemma get_slot_fits:
  assumes "get_slot n = Some i"
  shows "i < 26 \<and> n \<le> unit_size i \<and> (0 < i \<longrightarrow> unit_size (i - 1) < n)"
proof (cases "n \<le> 4096")
  case True
  then show ?thesis using assms unfolding get_slot_first [OF True] by (auto simp: unit_values split: if_splits)
next
  case False
  then have l: "4096 < n" by simp
  show ?thesis using assms l unfolding get_slot_second [OF l] by (auto simp: unit_values split: if_splits)
qed

lemma get_slot_None: "get_slot n = None \<longleftrightarrow> SP_SIZE < n"
proof (cases "n \<le> 4096")
  case True
  then show ?thesis unfolding get_slot_first [OF True] by (simp add: SP_SIZE_def)
next
  case False
  then have l: "4096 < n" by simp
  show ?thesis unfolding get_slot_second [OF l] by (simp add: SP_SIZE_def)
qed

lemma sorted_units: "sorted FixAllocUnits"
  by (simp add: FixAllocUnits_def split_unit_n_def)

lemma distinct_units: "distinct FixAllocUnits"
  by (simp add: FixAllocUnits_def split_unit_n_def)

lemma unit_size_inj: "i < 26 \<Longrightarrow> j < 26 \<Longrightarrow> unit_size i = unit_size j \<Longrightarrow> i = j"
  using distinct_units nth_eq_iff_index_eq [of FixAllocUnits i j] by (simp add: length_units)

end
