(* ===== verification/Mempool_Free.thy ===== *)
theory Mempool_Free
  imports Mempool_Inv
begin

text \<open>
  Taking one block, or all the free ones, out of the first span of a slot: both keep the invariant, and
  what is given out grows by exactly those blocks.
\<close>

lemma in_memoryI: "mapped p b = Some s \<Longrightarrow> b \<le> a \<Longrightarrow> a + n \<le> b + s \<Longrightarrow> in_memory p a n"
  unfolding in_memory_def by blast

lemma span_region:
  assumes "geo p OL OP" "span_at p a = Some s"
  shows "mapped p (sp_base s) = Some (page_up (sp_size s))" "sp_size s \<le> page_up (sp_size s)"
  using geoD(3) [OF assms] page_up_ge(1) by (simp_all add: span_ok_def)

lemma span_slot:
  assumes "geo p OL OP" "span_at p a = Some s" "sl_slot s = Some i"
  shows "i < 26" "sp_size s = SP_SIZE" "sp_fly s = unit_fly i"
  using geoD(3) [OF assms(1,2)] assms(3) by (simp_all add: span_ok_def)

lemma block_in_memory:
  assumes g: "geo p OL OP" and a: "span_at p a = Some s" "sl_slot s = Some i" and q: "q \<in> blocks i (sp_base s)"
  shows "in_memory p q NODE_SIZE"
proof (rule in_memoryI [OF span_region(1) [OF g a(1)]])
  note S = span_slot [OF g a]
  show "sp_base s \<le> q" by (rule block_bounds(1) [OF S(1) q])
  show "q + NODE_SIZE \<le> sp_base s + page_up (sp_size s)"
    using block_bounds(4) [OF S(1) q] by (simp add: S(2) page_up_ge(2) NODE_SIZE_def)
qed

lemma block_not_object:
  assumes g: "geo p OL OP" and a: "span_at p a = Some s" "sl_slot s = Some i" and q: "q \<in> blocks i (sp_base s)" and x: "x \<in> objects OP"
  shows "q \<noteq> x"
proof
  assume "q = x"
  moreover note S = span_slot [OF g a]
  ultimately show False
    using object_not_in_span [OF g a(1) x] block_bounds(1,5) [OF S(1) q] by (simp add: S(2) page_up_ge(2))
qed

lemma blocks_apart:
  assumes g: "geo p OL OP" and a: "span_at p a = Some s" "sl_slot s = Some i" and b: "span_at p b = Some t" "sl_slot t = Some j"
    and ne: "a \<noteq> b" and q: "q \<in> blocks i (sp_base s)" and r: "r \<in> blocks j (sp_base t)"
  shows "q \<noteq> r"
proof
  assume e: "q = r"
  note S = span_slot [OF g a] and T = span_slot [OF g b]
  show False
    using spans_apart(2) [OF g a(1) b(1) ne] block_bounds(1,5) [OF S(1) q] block_bounds(1,5) [OF T(1) r] e
    by (simp add: S(2) T(2) page_up_ge(2))
qed

lemma dll_reroot:
  "dll h pv x as \<Longrightarrow> distinct as \<Longrightarrow>
   (case x of None \<Rightarrow> h' = h | Some b \<Rightarrow> \<exists>t. h b = Some t \<and> h' = h(b \<mapsto> t\<lparr>sl_prev := q\<rparr>)) \<Longrightarrow> dll h' q x as"
  by (cases as) (auto intro!: dll_cong [of h])

lemma set_span_Some: "span_at p a = Some s \<Longrightarrow> set_span p a f = Some (p\<lparr>span_at := (span_at p)(a \<mapsto> f s)\<rparr>)"
  by (simp add: set_span_def)

text \<open>\<open>next_head\<close> puts the list \<open>h\<close> at the head of the slot.\<close>

lemma next_head_ok:
  assumes "dll (span_at p) pv h as" "distinct as"
  shows "\<exists>sp. next_head p i h = Some ((set_head p i h)\<lparr>span_at := sp\<rparr>) \<and> dll sp NULL h as \<and>
    (\<forall>a. a \<notin> set as \<longrightarrow> sp a = span_at p a) \<and>
    (\<forall>a. map_option static (sp a) = map_option static (span_at p a) \<and> map_option core (sp a) = map_option core (span_at p a))"
proof (cases h)
  case None
  have "set_head p i NULL = (set_head p i NULL)\<lparr>span_at := span_at p\<rparr>" by (simp add: set_head_def)
  then show ?thesis using assms None by (intro exI [of _ "span_at p"]) (cases as; simp add: next_head_def Let_def)
next
  case (Some b)
  obtain bs t where as: "as = b # bs" and t: "span_at p b = Some t" using assms(1) Some by (cases as) auto
  have "dll ((span_at p)(b \<mapsto> t\<lparr>sl_prev := NULL\<rparr>)) NULL h as" using dll_reroot [OF assms] Some t by auto
  then show ?thesis using as t unfolding Some
    by (intro exI [of _ "(span_at p)(b \<mapsto> t\<lparr>sl_prev := NULL\<rparr>)"]) (simp add: next_head_def Let_def set_span_def static_def core_def)
qed

text \<open>The invariant after a change of one slot \<open>i\<close> whose spans keep their geometry.\<close>

lemma pool_inv_upd:
  assumes I: "pool_inv p FL DL OL OP" and a: "span_at p a = Some s" "sl_slot s = Some i"
    and same: "mapped p' = mapped p" "tables p' = tables p" "obj_free p' = obj_free p" "same_slots p p'"
    and heads: "\<And>j. j < 26 \<Longrightarrow> j \<noteq> i \<Longrightarrow> sp_head (slots p' ! j) = sp_head (slots p ! j)"
    and st: "\<And>b. map_option static (span_at p' b) = map_option static (span_at p b)"
    and co: "\<And>b. b \<noteq> a \<Longrightarrow> map_option core (span_at p' b) = map_option core (span_at p b)"
    and nr: "\<And>b. span_at p' b \<noteq> span_at p b \<Longrightarrow> near (Some i) p p' b"
    and m: "\<And>x. mem p' x \<noteq> mem p x \<Longrightarrow> x \<in> blocks i (sp_base s)"
    and F: "\<And>s'. span_at p' a = Some s' \<Longrightarrow> static s' = static s \<Longrightarrow> chain (mem p') (nd_free s') F \<and> nd_nnum s' + length F = unit_nall i"
    and F': "distinct F" "set F \<subseteq> blocks i (sp_base s)"
    and D: "distinct D" "dll (span_at p') NULL (sp_head (slots p' ! i)) D" "set D = partial p' i"
  shows "pool_inv p' (FL(a := F)) (DL(i := D)) OL OP"
    "given p' (FL(a := F)) = {x. \<exists>b t. b \<noteq> a \<and> span_at p b = Some t \<and> x \<in> given1 t (FL b)} \<union> given1 s F"
proof -
  have g: "geo p OL OP" and f: "frees p FL" and l: "lists p DL" using I by (simp_all add: pool_inv_def)
  have sp: "\<exists>s'. span_at p' a = Some s' \<and> static s' = static s" using st [of a] a(1) by (cases "span_at p' a") auto
  then obtain s' where s': "span_at p' a = Some s'" "static s' = static s" by blast
  have e: "sp_base s' = sp_base s" "sl_slot s' = Some i" using s'(2) a(2) by (simp_all add: static_def)
  have "geo p' OL OP"
  proof (rule geo_same [OF g same(1-4) st])
    show "\<forall>b \<in> set OL. mem p' b = mem p b"
      using m block_not_object [OF g a] geoD(6) [OF g] by blast
  qed
  moreover have "frees p' (FL(a := F))"
  proof (rule frees_upd [OF f])
    show "\<exists>t. span_at p b = Some t \<and> core t = core t'" if "b \<noteq> a" "span_at p' b = Some t'" for b t'
      using co [OF that(1)] that(2) by (cases "span_at p b") auto
    show "mem p' x = mem p x" if b: "b \<noteq> a" "span_at p b = Some t" "sl_slot t = Some j" "x \<in> set (FL b)" for b t j x
    proof (rule ccontr)
      assume "mem p' x \<noteq> mem p x"
      then have x: "x \<in> blocks i (sp_base s)" by (rule m)
      show False
        using blocks_apart [OF g a b(2,3) b(1) [symmetric] x, of x] freesD(3) [OF f b(2,3)] b(4) by blast
    qed
    show "chain (mem p') (nd_free t) F \<and> distinct F \<and> set F \<subseteq> blocks j (sp_base t) \<and> nd_nnum t + length F = unit_nall j"
      if "span_at p' a = Some t" "sl_slot t = Some j" for t j
      using that s' e F F' by simp
  qed
  moreover have "lists p' (DL(i := D))" by (rule lists_upd [OF l heads nr]) (use D in auto)
  ultimately show "pool_inv p' (FL(a := F)) (DL(i := D)) OL OP" by (simp add: pool_inv_def)
  show "given p' (FL(a := F)) = {x. \<exists>b t. b \<noteq> a \<and> span_at p b = Some t \<and> x \<in> given1 t (FL b)} \<union> given1 s F"
    by (rule given_upd [OF st a(1) s'])
qed

lemma near_trans:
  assumes "span_at q b \<noteq> span_at p b \<Longrightarrow> near (Some i) p q b" "span_at r b \<noteq> span_at q b \<Longrightarrow> near (Some i) q r b"
    "span_at r b \<noteq> span_at p b"
  shows "near (Some i) p r b"
  using assms by (cases "span_at q b = span_at p b"; cases "span_at r b = span_at q b") (simp_all add: near_def)

lemma head_dl:
  assumes I: "pool_inv p FL DL OL OP" and i: "i < 26" and h: "sp_head (slots p ! i) = Some a"
  shows "\<exists>as s fs nd. DL i = a # as \<and> span_at p a = Some s \<and> sl_slot s = Some i \<and> FL a = nd # fs \<and> nd_free s = Some nd \<and>
    dll (span_at p) (Some a) (sl_next s) as \<and> a \<notin> set as \<and> distinct as"
proof -
  have f: "frees p FL" and l: "lists p DL" using I by (simp_all add: pool_inv_def)
  note L = listsD [OF l i]
  obtain as where as: "DL i = a # as" using L(2) h by (cases "DL i") auto
  obtain s where s: "span_at p a = Some s" "dll (span_at p) (Some a) (sl_next s) as" using L(2) as by auto
  have "a \<in> partial p i" using L(3) as by auto
  then have p: "sl_slot s = Some i" "nd_free s \<noteq> NULL" using s(1) by (auto simp: partial_def)
  obtain nd fs where "FL a = nd # fs" "nd_free s = Some nd"
    using freesD(1) [OF f s(1) p(1)] p(2) by (cases "FL a") auto
  then show ?thesis using as s p L(1) by auto
qed

lemma partial_upd:
  assumes "\<And>b. b \<noteq> a \<Longrightarrow> map_option core (span_at p' b) = map_option core (span_at p b)"
    and a: "span_at p' a = Some s'" "sl_slot s' = Some i"
  shows "partial p' i = (partial p i - {a}) \<union> (if nd_free s' = NULL then {} else {a})"
proof -
  have "b \<in> partial p' i \<longleftrightarrow> b \<in> partial p i" if ne: "b \<noteq> a" for b
    using assms(1) [OF ne] by (cases "span_at p b"; cases "span_at p' b") (auto simp: partial_def core_def)
  moreover have "a \<in> partial p' i \<longleftrightarrow> nd_free s' \<noteq> NULL" using a by (simp add: partial_def)
  ultimately have "b \<in> partial p' i \<longleftrightarrow> b \<in> (partial p i - {a}) \<union> (if nd_free s' = NULL then {} else {a})" for b
    by (cases "b = a") simp_all
  then show ?thesis by blast
qed

lemma next_head_step:
  assumes i: "i < length (slots p)" and d: "dll (span_at p) pv h as" "distinct as" and as: "set as \<subseteq> partial p i"
  shows "\<exists>p'. next_head p i h = Some p' \<and> mem p' = mem p \<and> mapped p' = mapped p \<and> tables p' = tables p \<and> obj_free p' = obj_free p \<and>
    same_slots p p' \<and> (\<forall>j < length (slots p). j \<noteq> i \<longrightarrow> sp_head (slots p' ! j) = sp_head (slots p ! j)) \<and> sp_head (slots p' ! i) = h \<and>
    dll (span_at p') NULL h as \<and> (\<forall>a. a \<notin> set as \<longrightarrow> span_at p' a = span_at p a) \<and>
    (\<forall>a. map_option static (span_at p' a) = map_option static (span_at p a)) \<and>
    (\<forall>a. map_option core (span_at p' a) = map_option core (span_at p a)) \<and>
    (\<forall>b. span_at p' b \<noteq> span_at p b \<longrightarrow> near (Some i) p p' b)"
proof -
  obtain sp where sp: "next_head p i h = Some ((set_head p i h)\<lparr>span_at := sp\<rparr>)" "dll sp NULL h as"
    "\<And>a. a \<notin> set as \<Longrightarrow> sp a = span_at p a" "\<And>a. map_option static (sp a) = map_option static (span_at p a)"
    "\<And>a. map_option core (sp a) = map_option core (span_at p a)"
    using next_head_ok [OF d] by metis
  let ?p = "(set_head p i h)\<lparr>span_at := sp\<rparr>"
  have "near (Some i) p ?p b" if "sp b \<noteq> span_at p b" for b
  proof -
    have "b \<in> partial p i" using sp(3) that as by blast
    then obtain t where t: "span_at p b = Some t" "sl_slot t = Some i" by (auto simp: partial_def)
    then obtain t' where "sp b = Some t'" "static t' = static t" using sp(4) [of b] by (cases "sp b") auto
    then show ?thesis using t by (simp add: near_def static_def)
  qed
  moreover have "same_slots p ?p" using set_head_same [OF i, of h] by (simp add: same_slots_def)
  ultimately show ?thesis using sp i by (intro exI [of _ ?p]) (simp add: set_head_get)
qed

text \<open>The blocks \<open>xs\<close> at the front of the free list of the first span are given out; without a free block left
  the span leaves the list.\<close>

lemma take_ok:
  assumes I: "pool_inv p FL DL OL OP" and i: "i < 26" and a: "sp_head (slots p ! i) = Some a" "span_at p a = Some s"
    and xs: "FL a = xs @ fs" "chain (mem p) y fs"
  shows "\<exists>p' FL' DL'. (let p1 = p\<lparr>span_at := (span_at p)(a \<mapsto> s\<lparr>nd_free := y, nd_nnum := nd_nnum s + length xs\<rparr>)\<rparr> in
      if y = NULL then next_head p1 i (sl_next s) else Some p1) = Some p' \<and> pool_inv p' FL' DL' OL OP \<and>
    given p' FL' = given p FL \<union> set xs \<times> {unit_size i} \<and> (\<forall>x \<in> set xs. (x, unit_size i) \<notin> given p FL) \<and> mem p' = mem p \<and> mapped p' = mapped p"
proof -
  obtain as where H: "DL i = a # as" "span_at p a = Some s" "sl_slot s = Some i" "FL a = xs @ fs"
    "dll (span_at p) (Some a) (sl_next s) as" "a \<notin> set as" "distinct as"
    using head_dl [OF I i a(1)] a(2) xs(1) by auto
  have g: "geo p OL OP" and f: "frees p FL" and l: "lists p DL" using I by (simp_all add: pool_inv_def)
  note F = freesD [OF f H(2,3)] and L = listsD [OF l i]
  have len: "length (slots p) = 26" using geoD(1) [OF g] by (simp add: slots_ok_def)
  have nd: "set xs \<subseteq> blocks i (sp_base s)" "chain (mem p) y fs" "set xs \<inter> set fs = {}" "distinct fs" "set fs \<subseteq> blocks i (sp_base s)"
    using F H(4) xs(2) by auto
  define s1 where "s1 = s\<lparr>nd_free := y, nd_nnum := nd_nnum s + length xs\<rparr>"
  define p1 where "p1 = p\<lparr>span_at := (span_at p)(a \<mapsto> s1)\<rparr>"
  have fields: "mem p1 = mem p" "mapped p1 = mapped p" "tables p1 = tables p" "obj_free p1 = obj_free p" "slots p1 = slots p"
    "span_at p1 a = Some s1" "b \<noteq> a \<Longrightarrow> span_at p1 b = span_at p b" for b by (simp_all add: p1_def)
  have s1: "static s1 = static s" "sl_slot s1 = Some i" "nd_free s1 = y" "nd_nnum s1 = nd_nnum s + length xs" "links s1 = links s"
    by (simp_all add: s1_def static_def links_def H(3))
  have st1: "map_option static (span_at p1 b) = map_option static (span_at p b)"
    "map_option links (span_at p1 b) = map_option links (span_at p b)" for b
    using fields(6,7) s1 H(2) by (cases "b = a"; simp)+
  have co1: "map_option core (span_at p1 b) = map_option core (span_at p b)" if "b \<noteq> a" for b using fields(7) [OF that] by simp
  have near1: "near (Some i) p p1 b" if "span_at p1 b \<noteq> span_at p b" for b
    using that fields(6,7) s1(2) H(2,3) by (cases "b = a") (auto simp: near_def)
  have part: "partial p1 i = (partial p i - {a}) \<union> (if y = NULL then {} else {a})"
    using partial_upd [of a p1 p s1 i, OF co1] fields(6) s1 by simp
  have gv: "{x. \<exists>b t. b \<noteq> a \<and> span_at p b = Some t \<and> x \<in> given1 t (FL b)} \<union> given1 s fs = given p FL \<union> set xs \<times> {unit_size i}"
    using given_split [OF H(2), of FL] nd(1,3) by (auto simp: given1_def H(3,4))
  have new: "(x, unit_size i) \<notin> given p FL" if x: "x \<in> set xs" for x
  proof -
    have "x \<in> blocks i (sp_base s)" using nd(1) x by blast
    then show ?thesis using given_split [OF H(2), of FL] given_other [OF g H(2)] block_bounds(1,5) [OF i] x by (auto simp: given1_def H(3,4))
  qed
  have key: "\<exists>FL' DL'. pool_inv p' FL' DL' OL OP \<and> given p' FL' = given p FL \<union> set xs \<times> {unit_size i}"
    if same: "mem p' = mem p" "mapped p' = mapped p" "tables p' = tables p" "obj_free p' = obj_free p" "same_slots p p'"
    and heads: "\<And>j. j < 26 \<Longrightarrow> j \<noteq> i \<Longrightarrow> sp_head (slots p' ! j) = sp_head (slots p ! j)"
    and st: "\<And>b. map_option static (span_at p' b) = map_option static (span_at p b)"
    and co: "\<And>b. map_option core (span_at p' b) = map_option core (span_at p1 b)"
    and nr: "\<And>b. span_at p' b \<noteq> span_at p b \<Longrightarrow> near (Some i) p p' b"
    and D: "distinct D" "dll (span_at p') NULL (sp_head (slots p' ! i)) D" "set D = partial p1 i" for p' D
  proof -
    have pt: "partial p' i = partial p1 i"
    proof -
      have "b \<in> partial p' i \<longleftrightarrow> b \<in> partial p1 i" for b
        using co [of b] by (cases "span_at p' b"; cases "span_at p1 b") (auto simp: partial_def core_def)
      then show ?thesis by blast
    qed
    have F': "chain (mem p') (nd_free s') fs \<and> nd_nnum s' + length fs = unit_nall i" if "span_at p' a = Some s'" "static s' = static s" for s'
      using co [of a] fields(6) that(1) s1 nd(2) F(4) H(4) by (simp add: core_def same(1))
    have D3: "set D = partial p' i" using D(3) pt by simp
    have co': "map_option core (span_at p' b) = map_option core (span_at p b)" if "b \<noteq> a" for b using co co1 [OF that] by simp
    have m: "x \<in> blocks i (sp_base s)" if "mem p' x \<noteq> mem p x" for x using that same(1) by simp
    note U = pool_inv_upd [OF I H(2,3) same(2-5) heads st co' nr m F' nd(4,5) D(1,2) D3]
    show ?thesis using U(1) trans [OF U(2) gv] by blast
  qed
  show ?thesis
  proof (cases "y = NULL")
    case True
    have fs: "fs = []" using nd(2) True by (cases fs) auto
    have d: "dll (span_at p1) (Some a) (sl_next s) as" using dll_cong [OF H(5)] st1(2) by blast
    have as: "set as = partial p1 i" using part True L(3) H(1,6) by auto
    obtain p' where p': "next_head p1 i (sl_next s) = Some p'" "mem p' = mem p1" "mapped p' = mapped p1" "tables p' = tables p1"
      "obj_free p' = obj_free p1" "same_slots p1 p'" "\<And>j. j < 26 \<Longrightarrow> j \<noteq> i \<Longrightarrow> sp_head (slots p' ! j) = sp_head (slots p1 ! j)"
      "sp_head (slots p' ! i) = sl_next s" "dll (span_at p') NULL (sl_next s) as"
      "\<And>b. map_option static (span_at p' b) = map_option static (span_at p1 b)"
      "\<And>b. map_option core (span_at p' b) = map_option core (span_at p1 b)"
      "\<And>b. span_at p' b \<noteq> span_at p1 b \<Longrightarrow> near (Some i) p1 p' b"
      using next_head_step [of i p1, OF _ d H(7)] i as len(1) fields(5) by auto
    have nr: "near (Some i) p p' b" if "span_at p' b \<noteq> span_at p b" for b
      using near_trans [of p1 b p i p', OF near1 p'(12) that] .
    have "same_slots p p'" using p'(6) fields(5) by (simp add: same_slots_def)
    with p' fields st1 have "\<exists>FL' DL'. pool_inv p' FL' DL' OL OP \<and> given p' FL' = given p FL \<union> set xs \<times> {unit_size i}"
      by (intro key [where D = as]) (simp_all add: nr H(7) as)
    then show ?thesis using True p'(1-3) fields(1,2) new unfolding p1_def s1_def by auto
  next
    case False
    have d: "dll (span_at p1) NULL (sp_head (slots p1 ! i)) (DL i)" using dll_cong [OF L(2)] st1(2) fields(5) by auto
    have as: "set (DL i) = partial p1 i" using part False L(3) H(1) by auto
    have "\<exists>FL' DL'. pool_inv p1 FL' DL' OL OP \<and> given p1 FL' = given p FL \<union> set xs \<times> {unit_size i}"
      using fields st1 d as L(1) near1 by (intro key [where D = "DL i"]) (simp_all add: same_slots_refl)
    then obtain FL' DL' where "pool_inv p1 FL' DL' OL OP" "given p1 FL' = given p FL \<union> set xs \<times> {unit_size i}" by blast
    then show ?thesis unfolding Let_def if_not_P [OF False] p1_def [symmetric, unfolded s1_def] using fields(1,2) new
      by - (rule exI [of _ p1], rule exI [of _ FL'], rule exI [of _ DL'], simp)
  qed
qed

lemma pop_ok:
  assumes I: "pool_inv p FL DL OL OP" and i: "i < 26" and n: "n \<le> unit_size i" and h: "sp_head (slots p ! i) \<noteq> NULL"
  shows "\<exists>p' q FL' DL'. alloc_small os p n i = Some (p', Some q) \<and> pool_inv p' FL' DL' OL OP \<and>
    given p' FL' = insert (q, unit_size i) (given p FL) \<and> (q, unit_size i) \<notin> given p FL \<and> mem p' = mem p \<and> mapped p' = mapped p"
proof -
  obtain a where a: "sp_head (slots p ! i) = Some a" using h by auto
  obtain s fs nd where H: "span_at p a = Some s" "sl_slot s = Some i" "FL a = nd # fs" "nd_free s = Some nd"
    using head_dl [OF I i a] by blast
  have g: "geo p OL OP" and f: "frees p FL" using I by (simp_all add: pool_inv_def)
  note F = freesD [OF f H(1,2)]
  have xs: "FL a = [nd] @ fs" "chain (mem p) (mem p nd) fs" using H(3) F(1) by auto
  obtain p' FL' DL' where p': "(let p1 = p\<lparr>span_at := (span_at p)(a \<mapsto> s\<lparr>nd_free := mem p nd, nd_nnum := nd_nnum s + length [nd]\<rparr>)\<rparr> in
      if mem p nd = NULL then next_head p1 i (sl_next s) else Some p1) = Some p'" "pool_inv p' FL' DL' OL OP"
    "given p' FL' = given p FL \<union> set [nd] \<times> {unit_size i}" "\<forall>x \<in> set [nd]. (x, unit_size i) \<notin> given p FL" "mem p' = mem p" "mapped p' = mapped p"
    using take_ok [OF I i a H(1) xs] by blast
  have nn: "(nd_nnum s + 1) mod 2 ^ 64 = nd_nnum s + 1"
  proof (rule mod_less)
    show "nd_nnum s + 1 < 2 ^ 64" using F(4) H(3) units(8) [OF i] by simp
  qed
  have sz: "nd_size (slots p ! i) = unit_size i" by (rule slot_fields(1) [OF geoD(1) [OF g] i])
  have gn: "get_next p nd = Some (mem p nd)" using block_in_memory [OF g H(1,2), of nd] F(3) H(3) by (simp add: get_next_def)
  have "alloc_small os p n i = Some (p', Some nd)"
    unfolding alloc_small_def head_span_def a sz if_not_P [OF option.distinct(2)]
    using p'(1) by (cases "mem p nd") (simp_all add: n H(1,4) gn set_span_def Let_def nn [simplified])
  then show ?thesis using p'(2-6) by auto
qed

lemma batch_pop_ok:
  assumes I: "pool_inv p FL DL OL OP" and i: "i < 26" and h: "sp_head (slots p ! i) \<noteq> NULL"
  shows "\<exists>p' h xs FL' DL'. alloc_small_batch os p i = Some (p', h, length xs) \<and> pool_inv p' FL' DL' OL OP \<and> xs \<noteq> [] \<and> length xs \<le> unit_nall i \<and>
    chain (mem p') h xs \<and> distinct xs \<and> given p' FL' = given p FL \<union> set xs \<times> {unit_size i} \<and>
    (\<forall>x \<in> set xs. (x, unit_size i) \<notin> given p FL) \<and> mem p' = mem p \<and> mapped p' = mapped p"
proof -
  obtain a where a: "sp_head (slots p ! i) = Some a" using h by auto
  obtain s fs nd where H: "span_at p a = Some s" "sl_slot s = Some i" "FL a = nd # fs" "nd_free s = Some nd"
    using head_dl [OF I i a] by blast
  have g: "geo p OL OP" and f: "frees p FL" using I by (simp_all add: pool_inv_def)
  note F = freesD [OF f H(1,2)]
  have xs: "FL a = FL a @ []" "chain (mem p) NULL []" by simp_all
  obtain p' FL' DL' where p': "(let p1 = p\<lparr>span_at := (span_at p)(a \<mapsto> s\<lparr>nd_free := NULL, nd_nnum := nd_nnum s + length (FL a)\<rparr>)\<rparr> in
      if NULL = NULL then next_head p1 i (sl_next s) else Some p1) = Some p'" "pool_inv p' FL' DL' OL OP"
    "given p' FL' = given p FL \<union> set (FL a) \<times> {unit_size i}" "\<forall>x \<in> set (FL a). (x, unit_size i) \<notin> given p FL" "mem p' = mem p" "mapped p' = mapped p"
    using take_ok [OF I i a H(1) xs] by blast
  have na: "nd_nall (slots p ! i) = unit_nall i" by (rule slot_fields(2) [OF geoD(1) [OF g] i])
  have w: "(unit_nall i + 2 ^ 64 - nd_nnum s) mod 2 ^ 64 = length (FL a)"
  proof -
    have "unit_nall i + 2 ^ 64 - nd_nnum s = length (FL a) + 2 ^ 64" "length (FL a) < 2 ^ 64" using F(4) units(8) [OF i] by linarith+
    then show ?thesis by (simp only: mod_add_self2 mod_less)
  qed
  have "alloc_small_batch os p i = Some (p', nd_free s, length (FL a))"
    unfolding alloc_small_batch_def head_span_def a na if_not_P [OF option.distinct(2)]
    using p'(1) F(4) by (simp add: H(1) set_span_def Let_def na w [simplified])
  moreover have "length (FL a) \<le> unit_nall i" using F(4) by simp
  ultimately show ?thesis using p'(2-6) F(1,2) H(3)
    by - (rule exI [of _ p'], rule exI [of _ "nd_free s"], rule exI [of _ "FL a"], rule exI [of _ FL'], rule exI [of _ DL'], simp)
qed

end
