(* ===== verification/Mempool_Grow.thy ===== *)
theory Mempool_Grow
  imports Mempool_Free
begin

text \<open>
  New spans. The operating system gives regions that do not overlap the ones it has given
  (\<open>os_ok\<close>), and is asked for at most \<open>k\<close> regions of the sizes \<open>S\<close> (\<open>willing\<close>).
\<close>

definition os_ok :: "os \<Rightarrow> bool" where
  "os_ok os \<longleftrightarrow> (\<forall>M n b. mapped_ok M \<longrightarrow> 0 < n \<longrightarrow> os M n = Some b \<longrightarrow> M b = None \<and> mapped_ok (M(b \<mapsto> page_up n)))"

primrec willing :: "os \<Rightarrow> nat set \<Rightarrow> nat \<Rightarrow> (addr \<rightharpoonup> nat) \<Rightarrow> bool" where
  "willing os S 0 M \<longleftrightarrow> True"
| "willing os S (Suc k) M \<longleftrightarrow> (\<forall>n \<in> S. \<exists>b. os M n = Some b \<and> willing os S k (M(b \<mapsto> page_up n)))"

lemma willing_less: "willing os S (Suc k) M \<Longrightarrow> willing os S k M"
proof (induction k arbitrary: M)
  case (Suc k)
  show ?case unfolding willing.simps(2)
  proof
    fix n assume "n \<in> S"
    then obtain b where "os M n = Some b" "willing os S (Suc k) (M(b \<mapsto> page_up n))" using Suc.prems by auto
    then show "\<exists>b. os M n = Some b \<and> willing os S k (M(b \<mapsto> page_up n))" using Suc.IH by blast
  qed
qed simp

definition owned :: "mp_pool \<Rightarrow> addr \<Rightarrow> bool" where
  "owned p x \<longleftrightarrow> (\<exists>b s. mapped p b = Some s \<and> b \<le> x \<and> x < b + s)"

definition grows :: "mp_pool \<Rightarrow> mp_pool \<Rightarrow> bool" where
  "grows p p' \<longleftrightarrow> mapped p \<subseteq>\<^sub>m mapped p' \<and> (\<forall>x. owned p x \<longrightarrow> mem p' x = mem p x)"

lemma grows_trans: "grows p q \<Longrightarrow> grows q r \<Longrightarrow> grows p r"
proof -
  assume pq: "grows p q" and qr: "grows q r"
  have "owned q x" if "owned p x" for x
    using that pq unfolding grows_def owned_def map_le_def by (metis domI)
  moreover have "mapped p \<subseteq>\<^sub>m mapped r" using pq qr map_le_trans unfolding grows_def by blast
  ultimately show ?thesis using pq qr unfolding grows_def by simp
qed

lemma grows_refl: "grows p p"
  by (simp add: grows_def)

lemma region_new:
  assumes M: "mapped_ok (mapped p')" and p': "mapped p' = (mapped p)(b \<mapsto> n)" "mapped p b = None" and x: "b \<le> x" "x < b + n"
  shows "\<not> owned p x"
proof
  assume "owned p x"
  then obtain c t where c: "mapped p c = Some t" "c \<le> x" "x < c + t" unfolding owned_def by blast
  then have "mapped p' c = Some t" "mapped p' b = Some n" using p' by auto
  then have "c = b" using mapped_same [OF M _ c(2,3) _ x] by blast
  then show False using c(1) p'(2) by simp
qed

lemma map_le_upd: "M b = None \<Longrightarrow> M \<subseteq>\<^sub>m M(b \<mapsto> n)"
  by (auto simp: map_le_def)

lemma page_alloc_ok:
  assumes g: "geo p OL OP" and os: "os_ok os" and n: "0 < n" and w: "willing os S (Suc k) (mapped p)" "n \<in> S"
  shows "\<exists>b. page_alloc os p n = (p\<lparr>mapped := (mapped p)(b \<mapsto> page_up n)\<rparr>, Some b) \<and> mapped p b = None \<and>
    geo (p\<lparr>mapped := (mapped p)(b \<mapsto> page_up n)\<rparr>) OL OP \<and> willing os S k ((mapped p)(b \<mapsto> page_up n))"
proof -
  obtain b where b: "os (mapped p) n = Some b" "willing os S k ((mapped p)(b \<mapsto> page_up n))" using w by auto
  have M: "mapped p b = None" "mapped_ok ((mapped p)(b \<mapsto> page_up n))" using os geoD(2) [OF g] n b(1) by (auto simp: os_ok_def)
  let ?p = "p\<lparr>mapped := (mapped p)(b \<mapsto> page_up n)\<rparr>"
  have "span_ok ?p OL OP a s" if "span_at p a = Some s" for a s
    using geoD(3) [OF g that] M(1) by (auto simp: span_ok_def bucket_get_def)
  moreover have "bucket_get ?p k = bucket_get p k" for k by (simp add: bucket_get_def)
  moreover have "\<forall>c \<in> OP. mapped ?p c = Some SP_SIZE" using geoD(5) [OF g] M(1) by auto
  ultimately have "geo ?p OL OP" using g M(2) by (simp add: geo_def slots_ok_def)
  then show ?thesis using b M(1) by (simp add: page_alloc_def)
qed

lemma in_memory_mem [simp]: "in_memory (p\<lparr>mem := m\<rparr>) = in_memory p"
  by (simp add: in_memory_def fun_eq_iff)

lemma link_loop_ok:
  assumes "\<forall>j \<le> k. in_memory p (n1 + j * tp) NODE_SIZE" "0 < tp"
  shows "\<exists>m. link_loop p k tp n1 NULL = Some (p\<lparr>mem := m\<rparr>) \<and> chain m (Some n1) (map (\<lambda>j. n1 + j * tp) [0..<Suc k]) \<and>
    (\<forall>x. (x < n1 \<or> n1 + k * tp < x) \<longrightarrow> m x = mem p x)"
  using assms
proof (induction k arbitrary: p n1)
  case 0
  then show ?case by (intro exI [of _ "(mem p)(n1 := NULL)"]) (simp add: set_next_def fun_upd_def)
next
  case (Suc k)
  let ?p = "p\<lparr>mem := (mem p)(n1 := Some (n1 + tp))\<rparr>"
  have 1: "\<forall>j \<le> k. in_memory ?p (n1 + tp + j * tp) NODE_SIZE"
  proof (intro allI impI)
    fix j assume "j \<le> k"
    then have "in_memory p (n1 + Suc j * tp) NODE_SIZE" using Suc.prems(1) by blast
    then show "in_memory ?p (n1 + tp + j * tp) NODE_SIZE" by (simp add: ac_simps)
  qed
  obtain m where m: "link_loop ?p k tp (n1 + tp) NULL = Some (?p\<lparr>mem := m\<rparr>)" "chain m (Some (n1 + tp)) (map (\<lambda>j. n1 + tp + j * tp) [0..<Suc k])"
    "\<And>x. x < n1 + tp \<or> n1 + tp + k * tp < x \<Longrightarrow> m x = mem ?p x"
    using Suc.IH [OF 1 Suc.prems(2)] by blast
  have "in_memory p n1 NODE_SIZE" using Suc.prems(1) by (metis add_0_right mult_0 zero_le)
  then have r: "link_loop p (Suc k) tp n1 NULL = Some (p\<lparr>mem := m\<rparr>)" using m(1) by (simp add: set_next_def)
  have l: "map (\<lambda>j. n1 + j * tp) [0..<Suc (Suc k)] = n1 # map (\<lambda>j. n1 + tp + j * tp) [0..<Suc k]"
    by (simp only: upt_conv_Cons [OF zero_less_Suc] map_Suc_upt [symmetric] list.map map_map comp_def) simp
  have "m n1 = Some (n1 + tp)" using m(3) [of n1] Suc.prems(2) by simp
  then have "chain m (Some n1) (map (\<lambda>j. n1 + j * tp) [0..<Suc (Suc k)])" unfolding l using m(2) by simp
  moreover have "m x = mem p x" if "x < n1 \<or> n1 + Suc k * tp < x" for x
    using m(3) [of x] that Suc.prems(2) by auto
  ultimately show ?case using r by blast
qed

subsection \<open>Entering a span into the page map\<close>

lemma bucket_set_get:
  assumes "bucket_set p k v = Some p'"
  shows "bucket_get p' j = (if j = k then v else bucket_get p j)"
proof -
  obtain t where t: "tables p (k div 2 ^ bits1) = Some t"
    "p' = p\<lparr>tables := (tables p)(k div 2 ^ bits1 \<mapsto> t(k mod 2 ^ bits1 := v))\<rparr>"
    using assms by (auto simp: bucket_set_def split: bind_splits)
  show ?thesis
  proof (cases "j = k")
    case False
    then have "j div 2 ^ bits1 \<noteq> k div 2 ^ bits1 \<or> j mod 2 ^ bits1 \<noteq> k mod 2 ^ bits1" by (metis div_mult_mod_eq)
    then show ?thesis using False t by (auto simp: bucket_get_def)
  qed (simp add: bucket_get_def t)
qed

text \<open>A table for the bucket; no bucket changes by it.\<close>

lemma bucket_room_ok:
  assumes g: "geo p OL OP" and os: "os_ok os" and w: "willing os S (Suc c) (mapped p)" "2 ^ bits1 * 8 \<in> S"
  shows "\<exists>p'. bucket_room os p k = Some p' \<and> mapped p \<subseteq>\<^sub>m mapped p' \<and> mapped_ok (mapped p') \<and> tables p' (k div 2 ^ bits1) \<noteq> None \<and>
    (\<forall>j. bucket_get p' j = bucket_get p j) \<and> mem p' = mem p \<and> span_at p' = span_at p \<and> slots p' = slots p \<and> obj_free p' = obj_free p \<and>
    willing os S c (mapped p')"
proof (cases "tables p (k div 2 ^ bits1)")
  case (Some t)
  then show ?thesis using geoD(2) [OF g] willing_less [OF w(1)] by (simp add: bucket_room_def)
next
  case None
  have "(0::nat) < 2 ^ bits1 * 8" by simp
  then obtain b where b: "page_alloc os p (2 ^ bits1 * 8) = (p\<lparr>mapped := (mapped p)(b \<mapsto> page_up (2 ^ bits1 * 8))\<rparr>, Some b)" "mapped p b = None"
    "geo (p\<lparr>mapped := (mapped p)(b \<mapsto> page_up (2 ^ bits1 * 8))\<rparr>) OL OP" "willing os S c ((mapped p)(b \<mapsto> page_up (2 ^ bits1 * 8)))"
    using page_alloc_ok [OF g os _ w] by blast
  let ?p = "p\<lparr>mapped := (mapped p)(b \<mapsto> page_up (2 ^ bits1 * 8)), tables := (tables p)(k div 2 ^ bits1 \<mapsto> Map.empty)\<rparr>"
  have "bucket_get ?p j = bucket_get p j" for j using None by (cases "j div 2 ^ bits1 = k div 2 ^ bits1") (simp_all add: bucket_get_def)
  moreover have "mapped_ok (mapped ?p)" using geoD(2) [OF b(3)] by simp
  ultimately show ?thesis using None b(1,2,4) by (intro exI [of _ ?p]) (simp add: bucket_room_def map_le_upd)
qed

lemma insert_span_ok:
  assumes g: "geo (p\<lparr>span_at := (span_at p)(a := None)\<rparr>) OL OP" and a: "span_at p a = Some s" and os: "os_ok os"
    and w: "willing os S (Suc c) (mapped p)" "2 ^ bits1 * 8 \<in> S"
    and s: "mapped p (sp_base s) = Some (page_up (sp_size s))" "SP_SIZE \<le> sp_size s" "sp_base s \<notin> OP"
      "if sp_fly s then a \<in> objects OP - set OL else a + SPAN_SIZE = sp_base s + page_up (sp_size s)"
      "case sl_slot s of None \<Rightarrow> SP_SIZE < sp_size s \<and> (sp_fly s \<or> page_up (sp_size s) = sp_size s + SPAN_SIZE) | Some i \<Rightarrow> i < 26 \<and> sp_size s = SP_SIZE \<and> sp_fly s = unit_fly i"
    and new: "\<forall>b t. b \<noteq> a \<longrightarrow> span_at p b = Some t \<longrightarrow> sp_base t \<noteq> sp_base s"
  shows "\<exists>p'. insert_span os p a = Some p' \<and> geo p' OL OP \<and> span_at p' = span_at p \<and> mem p' = mem p \<and> slots p' = slots p \<and> mapped p \<subseteq>\<^sub>m mapped p' \<and>
    willing os S c (mapped p')"
proof -
  let ?q = "p\<lparr>span_at := (span_at p)(a := None)\<rparr>" and ?k = "sp_base s div SP_SIZE"
  have bq: "bucket_get ?q k = bucket_get p k" for k by (simp add: bucket_get_def)
  have free: "bucket_get p ?k = None"
  proof (cases "bucket_get p ?k")
    case (Some b)
    then obtain t where t: "b \<noteq> a" "span_at p b = Some t" "sp_base t div SP_SIZE = ?k" using geoD(4) [OF g, of ?k b] bq by (auto split: if_splits)
    have T: "span_ok ?q OL OP b t" using geoD(3) [OF g, of b t] t by simp
    then have m: "mapped p (sp_base t) = Some (page_up (sp_size t))" "SP_SIZE \<le> sp_size t" by (simp_all add: span_ok_def)
    have l: "sp_base s < sp_base t + SP_SIZE" "sp_base t < sp_base s + SP_SIZE"
      using div_same_less [of "sp_base s" SP_SIZE "sp_base t"] div_same_less [of "sp_base t" SP_SIZE "sp_base s"] t(3) by (simp_all add: SP_SIZE_def)
    have "sp_base s + page_up (sp_size s) \<le> sp_base t \<or> sp_base t + page_up (sp_size t) \<le> sp_base s"
      using geoD(2) [OF g] s(1) m(1) new [rule_format, OF t(1,2)] by (simp add: mapped_ok_def)
    then show ?thesis using l s(2) m(2) page_up_ge(1) [of "sp_size s"] page_up_ge(1) [of "sp_size t"] by linarith
  qed
  have w': "willing os S (Suc c) (mapped ?q)" using w(1) by simp
  obtain q' where q': "bucket_room os ?q ?k = Some q'" "mapped ?q \<subseteq>\<^sub>m mapped q'" "mapped_ok (mapped q')" "tables q' (?k div 2 ^ bits1) \<noteq> None"
    "\<And>j. bucket_get q' j = bucket_get ?q j" "mem q' = mem ?q" "span_at q' = span_at ?q" "slots q' = slots ?q" "obj_free q' = obj_free ?q"
    "willing os S c (mapped q')"
    using bucket_room_ok [OF g os w' w(2)] by blast
  define r where "r = q'\<lparr>span_at := span_at p\<rparr>"
  have step: "bucket_room os p ?k = Some r"
    using q'(1) unfolding r_def bucket_room_def by (cases "tables p (?k div 2 ^ bits1)") (auto simp: page_alloc_def split: option.splits)
  have rb: "bucket_get r j = bucket_get p j" for j using q'(5) bq by (simp add: r_def bucket_get_def)
  obtain p' where p': "bucket_set r ?k (Some a) = Some p'" using q'(4) by (auto simp: bucket_set_def r_def)
  have e: "mem p' = mem p" "span_at p' = span_at p" "slots p' = slots p" "mapped p' = mapped q'" "obj_free p' = obj_free p"
    using p' q'(6-9) by (auto simp: bucket_set_def r_def split: bind_splits)
  have run: "insert_span os p a = Some p'" unfolding insert_span_def using a step free p' rb by (simp add: Let_def)
  have pb: "bucket_get p' j = (if j = ?k then Some a else bucket_get p j)" for j using bucket_set_get [OF p'] rb by simp
  have ml: "mapped p \<subseteq>\<^sub>m mapped p'" using q'(2) e(4) by simp
  have mp: "mapped p' b = Some n" if "mapped p b = Some n" for b n using ml that unfolding map_le_def by (metis domI)
  have "span_ok p' OL OP b t" if b: "span_at p' b = Some t" for b t
  proof (cases "b = a")
    case True
    then have ts: "b = a" "t = s" using a b e(2) by simp_all
    show ?thesis unfolding span_ok_def ts by (intro conjI mp [OF s(1)] s(2-5)) (simp add: pb)
  next
    case False
    then have T: "span_ok ?q OL OP b t" using geoD(3) [OF g, of b t] b e(2) by simp
    then have "bucket_get p (sp_base t div SP_SIZE) = Some b" using bq by (simp add: span_ok_def)
    then have 1: "bucket_get p' (sp_base t div SP_SIZE) = bucket_get ?q (sp_base t div SP_SIZE)" using free pb bq by auto
    have 2: "mapped p' (sp_base t) = mapped ?q (sp_base t)" using mp T by (simp add: span_ok_def)
    show ?thesis using T unfolding span_ok_def 1 2 .
  qed
  moreover have "\<exists>t. span_at p' b = Some t \<and> sp_base t div SP_SIZE = k" if b: "bucket_get p' k = Some b" for k b
  proof (cases "k = ?k")
    case True
    then show ?thesis using b a by (simp add: pb e(2))
  next
    case False
    then show ?thesis using geoD(4) [OF g, of k b] b bq by (auto simp: pb e(2) split: if_splits)
  qed
  moreover have "\<forall>b \<in> OP. mapped p' b = Some SP_SIZE" using geoD(5) [OF g] mp by auto
  moreover have "slots_ok p'" using geoD(1) [OF g] by (simp add: slots_ok_def e)
  moreover have "chain (mem p') (obj_free p') OL" using geoD(8) [OF g] by (simp add: e)
  ultimately have "geo p' OL OP" using geoD(6,7) [OF g] q'(3) by (simp add: geo_def e(4))
  then show ?thesis using run e ml q'(10) by (metis (no_types, lifting))
qed

subsection \<open>Span objects\<close>

lemma object_free:
  assumes g: "geo p OL OP" and x: "x \<in> set OL"
  shows "span_at p x = None"
proof (cases "span_at p x")
  case (Some s)
  have X: "x \<in> objects OP" using geoD(6) [OF g] x by blast
  have A: "span_ok p OL OP x s" by (rule geoD(3) [OF g Some])
  then have "x + SPAN_SIZE = sp_base s + page_up (sp_size s)" using x by (auto simp: span_ok_def split: if_splits)
  moreover have "SP_SIZE \<le> page_up (sp_size s)" using A page_up_ge(1) [of "sp_size s"] by (simp add: span_ok_def)
  ultimately show ?thesis using object_not_in_span [OF g Some X] by (simp add: SPAN_SIZE_def SP_SIZE_def)
qed simp

lemma object_owned: "geo p OL OP \<Longrightarrow> x \<in> objects OP \<Longrightarrow> owned p x"
  using object_in_page [of x OP] geoD(5) [of p OL OP] by (fastforce simp: owned_def SPAN_SIZE_def)

definition n_objects :: nat where "n_objects = SP_SIZE div SPAN_SIZE"

lemma objects_number: "1 < n_objects" "n_objects * SPAN_SIZE = SP_SIZE"
  by (simp_all add: n_objects_def SP_SIZE_def SPAN_SIZE_def)

definition page_objects :: "addr \<Rightarrow> addr list" where
  "page_objects b = map (\<lambda>j. b + j * SPAN_SIZE) [1..<n_objects]"

lemma page_objects_list: "set (page_objects b) \<subseteq> objects {b}" "distinct (page_objects b)" "b \<notin> set (page_objects b)" "page_objects b \<noteq> []"
proof -
  show "set (page_objects b) \<subseteq> objects {b}" by (auto simp: page_objects_def objects_def n_objects_def)
  show "distinct (page_objects b)" by (auto simp: page_objects_def distinct_map inj_on_def SPAN_SIZE_def)
  show "b \<notin> set (page_objects b)" by (auto simp: page_objects_def SPAN_SIZE_def)
  show "page_objects b \<noteq> []" using objects_number(1) by (simp add: page_objects_def)
qed

lemma objects_mono: "OP \<subseteq> OQ \<Longrightarrow> objects OP \<subseteq> objects OQ"
  by (auto simp: objects_def)

lemma page_link:
  assumes m: "mapped p b = Some SP_SIZE"
  shows "\<exists>m. mp_link p b SP_SIZE SPAN_SIZE NULL = Some (p\<lparr>mem := m\<rparr>) \<and> chain m (m b) (page_objects b) \<and>
    (\<forall>x. (x < b \<or> b + SP_SIZE \<le> x) \<longrightarrow> m x = mem p x)"
proof -
  define k where "k = n_objects - 1"
  have k: "Suc k = n_objects" using objects_number(1) by (simp add: k_def)
  have 1: "\<forall>j \<le> k. in_memory p (b + j * SPAN_SIZE) NODE_SIZE"
  proof (intro allI impI)
    fix j assume "j \<le> k"
    then have "Suc j * SPAN_SIZE \<le> n_objects * SPAN_SIZE" using k by (intro mult_le_mono1) simp
    then have "b + j * SPAN_SIZE + NODE_SIZE \<le> b + SP_SIZE" unfolding objects_number(2) by (simp add: SPAN_SIZE_def NODE_SIZE_def)
    then show "in_memory p (b + j * SPAN_SIZE) NODE_SIZE" by (intro in_memoryI [OF m]) simp_all
  qed
  have "0 < SPAN_SIZE" by (simp add: SPAN_SIZE_def)
  then obtain m where m: "link_loop p k SPAN_SIZE b NULL = Some (p\<lparr>mem := m\<rparr>)" "chain m (Some b) (map (\<lambda>j. b + j * SPAN_SIZE) [0..<Suc k])"
    "\<And>x. x < b \<or> b + k * SPAN_SIZE < x \<Longrightarrow> m x = mem p x"
    using link_loop_ok [OF 1] by blast
  have l: "map (\<lambda>j. b + j * SPAN_SIZE) [0..<Suc k] = b # page_objects b"
    unfolding k page_objects_def using objects_number(1) by (simp add: upt_conv_Cons)
  have "k * SPAN_SIZE < SP_SIZE" unfolding objects_number(2) [symmetric] k [symmetric] by (simp add: SPAN_SIZE_def)
  then have "m x = mem p x" if "x < b \<or> b + SP_SIZE \<le> x" for x using m(3) [of x] that by linarith
  moreover have "mp_link p b SP_SIZE SPAN_SIZE NULL = link_loop p k SPAN_SIZE b NULL"
    by (simp add: mp_link_def k_def n_objects_def SP_SIZE_def SPAN_SIZE_def NODE_SIZE_def)
  ultimately show ?thesis using m(1,2) unfolding l by auto
qed

lemma obj_batch_ok:
  assumes g: "geo p [] OP" and os: "os_ok os" and w: "willing os S (Suc k) (mapped p)" "SP_SIZE \<in> S" and fr: "obj_free p = NULL"
  shows "\<exists>p' b. obj_alloc_batch os p = Some p' \<and> geo p' (page_objects b) (insert b OP) \<and> mapped p b = None \<and> mapped p' = (mapped p)(b \<mapsto> SP_SIZE) \<and>
    span_at p' = span_at p \<and> slots p' = slots p \<and> grows p p' \<and> willing os S k (mapped p') \<and> os (mapped p) SP_SIZE = Some b"
proof -
  have sz: "0 < SP_SIZE" by (simp add: SP_SIZE_def)
  obtain b where b: "page_alloc os p SP_SIZE = (p\<lparr>mapped := (mapped p)(b \<mapsto> SP_SIZE)\<rparr>, Some b)" "mapped p b = None"
    "geo (p\<lparr>mapped := (mapped p)(b \<mapsto> SP_SIZE)\<rparr>) [] OP" "willing os S k ((mapped p)(b \<mapsto> SP_SIZE))"
    using page_alloc_ok [OF g os sz w] unfolding page_up_ge(2) by blast
  define p1 where "p1 = p\<lparr>mapped := (mapped p)(b \<mapsto> SP_SIZE)\<rparr>"
  have m1: "mapped p1 b = Some SP_SIZE" by (simp add: p1_def)
  obtain m where m: "mp_link p1 b SP_SIZE SPAN_SIZE NULL = Some (p1\<lparr>mem := m\<rparr>)" "chain m (m b) (page_objects b)"
    "\<And>x. x < b \<or> b + SP_SIZE \<le> x \<Longrightarrow> m x = mem p1 x"
    using page_link [OF m1] by blast
  define p' where "p' = p1\<lparr>mem := m(b := pg_list p), obj_free := m b, pg_list := Some b\<rparr>"
  have im: "in_memory p1 b NODE_SIZE" by (rule in_memoryI [OF m1]) (simp_all add: SP_SIZE_def NODE_SIZE_def)
  have run: "obj_alloc_batch os p = Some p'"
    using b(1) m(1) im fr by (simp add: obj_alloc_batch_def p1_def [symmetric] get_next_def set_next_def p'_def)
      (simp add: p1_def in_memory_def)
  note P = page_objects_list [of b]
  have bk: "bucket_get p' k = bucket_get p k" for k by (simp add: p'_def p1_def bucket_get_def)
  have mp: "mapped p' = (mapped p)(b \<mapsto> SP_SIZE)" by (simp add: p'_def p1_def)
  have M: "mapped_ok (mapped p')" using geoD(2) [OF b(3)] by (simp add: mp)
  have notown: "\<not> owned p x" if "x \<in> objects {b}" for x
    using object_in_page [OF that] region_new [OF M mp b(2)] by (auto simp: SPAN_SIZE_def)
  have "span_ok p' (page_objects b) (insert b OP) a s" if a: "span_at p a = Some s" for a s
  proof -
    have A: "span_ok p [] OP a s" by (rule geoD(3) [OF g a])
    have "sp_base s \<noteq> b" using A b(2) by (auto simp: span_ok_def)
    moreover have "a \<in> objects (insert b OP) \<and> a \<notin> set (page_objects b)" if "a \<in> objects OP"
      using that objects_mono [of OP "insert b OP"] object_owned [OF g that] notown P(1) by blast
    ultimately show ?thesis using A by (simp add: span_ok_def bk mp split: if_splits)
  qed
  moreover have "chain (mem p') (obj_free p') (page_objects b)" using m(2) P(3) by (simp add: p'_def chain_upd)
  moreover have "set (page_objects b) \<subseteq> objects (insert b OP)" using P(1) objects_mono [of "{b}" "insert b OP"] by blast
  moreover have "\<forall>c \<in> insert b OP. mapped p' c = Some SP_SIZE" using geoD(5) [OF g] by (simp add: mp)
  moreover have "slots_ok p'" using geoD(1) [OF g] by (simp add: slots_ok_def p'_def p1_def)
  moreover have "span_at p' = span_at p" by (simp add: p'_def p1_def)
  ultimately have "geo p' (page_objects b) (insert b OP)" using geoD(4) [OF g] M P(2) by (simp add: geo_def bk)
  moreover have "grows p p'"
  proof -
    have "mem p' x = mem p x" if "owned p x" for x
    proof -
      have "\<not> (b \<le> x \<and> x < b + SP_SIZE)" using region_new [OF M mp b(2), of x] that by blast
      then have "m x = mem p x" "x \<noteq> b" using m(3) [of x] by (auto simp: p1_def SP_SIZE_def)
      then show ?thesis by (simp add: p'_def)
    qed
    then show ?thesis using b(2) by (simp add: grows_def mp map_le_upd)
  qed
  moreover have "os (mapped p) SP_SIZE = Some b" using b(1) by (simp add: page_alloc_def split: option.splits)
  ultimately show ?thesis using run b(2,4) mp by (intro exI [of _ p'] exI [of _ b]) (simp add: p'_def p1_def)
qed

lemma obj_alloc_ok:
  assumes g: "geo p OL OP" and os: "os_ok os" and w: "willing os S (Suc k) (mapped p)" "SP_SIZE \<in> S"
  shows "\<exists>p' a OL' OP'. obj_alloc os p = Some (p', Some a) \<and> geo p' OL' OP' \<and> a \<in> objects OP' - set OL' \<and> span_at p' a = None \<and>
    span_at p' = span_at p \<and> slots p' = slots p \<and> grows p p' \<and> willing os S k (mapped p') \<and> (\<forall>b \<in> OP'. b \<notin> OP \<longrightarrow> mapped p b = None)"
proof -
  have "\<exists>p1 OL1 OP1. (if obj_free p = NULL then obj_alloc_batch os p else Some p) = Some p1 \<and> geo p1 OL1 OP1 \<and> OL1 \<noteq> [] \<and>
    span_at p1 = span_at p \<and> slots p1 = slots p \<and> grows p p1 \<and> willing os S k (mapped p1) \<and> (\<forall>b \<in> OP1. b \<notin> OP \<longrightarrow> mapped p b = None)"
  proof (cases "obj_free p")
    case None
    then have "OL = []" using chain_NULL [OF geoD(8) [OF g]] by simp
    then obtain p' b where "obj_alloc_batch os p = Some p'" "geo p' (page_objects b) (insert b OP)" "mapped p b = None"
      "span_at p' = span_at p" "slots p' = slots p" "grows p p'" "willing os S k (mapped p')"
      using obj_batch_ok [OF _ os w None] g by blast
    then show ?thesis using None page_objects_list(4) [of b] by (intro exI [of _ p'] exI [of _ "page_objects b"] exI [of _ "insert b OP"]) simp
  next
    case (Some a)
    then have "OL \<noteq> []" using chain_NULL [OF geoD(8) [OF g]] by simp
    then show ?thesis using Some g willing_less [OF w(1)] by (intro exI [of _ p] exI [of _ OL] exI [of _ OP]) (simp add: grows_refl)
  qed
  then obtain p1 OL1 OP1 where p1: "(if obj_free p = NULL then obj_alloc_batch os p else Some p) = Some p1" "geo p1 OL1 OP1" "OL1 \<noteq> []"
    "span_at p1 = span_at p" "slots p1 = slots p" "grows p p1" "willing os S k (mapped p1)" "\<forall>b \<in> OP1. b \<notin> OP \<longrightarrow> mapped p b = None" by blast
  obtain a OL' where OL1: "OL1 = a # OL'" using p1(3) by (cases OL1) auto
  have c: "obj_free p1 = Some a" "chain (mem p1) (mem p1 a) OL'" "a \<notin> set OL'" "a \<in> objects OP1"
    using geoD(6-8) [OF p1(2)] OL1 by auto
  obtain d where d: "d \<in> OP1" "d \<le> a" "a + SPAN_SIZE \<le> d + SP_SIZE" using object_in_page [OF c(4)] by blast
  have im: "in_memory p1 a NODE_SIZE" by (rule in_memoryI [OF geoD(5) [OF p1(2) d(1)]]) (use d in \<open>simp_all add: NODE_SIZE_def SPAN_SIZE_def\<close>)
  let ?p = "p1\<lparr>obj_free := mem p1 a\<rparr>"
  have run: "obj_alloc os p = Some (?p, Some a)" unfolding obj_alloc_def p1(1) using c(1) im by (simp add: get_next_def)
  have bk: "bucket_get ?p k = bucket_get p1 k" for k by (simp add: bucket_get_def)
  have "span_ok ?p OL' OP1 b s" if "span_at p1 b = Some s" for b s
    using geoD(3) [OF p1(2) that] OL1 by (auto simp: span_ok_def bk split: if_splits)
  then have "geo ?p OL' OP1" using p1(2) c(2) OL1 by (simp add: geo_def slots_ok_def bk)
  moreover have "span_at p1 a = None" using object_free [OF p1(2)] OL1 by simp
  ultimately show ?thesis using run p1(4-8) c(3,4)
    by (intro exI [of _ ?p] exI [of _ a] exI [of _ OL'] exI [of _ OP1]) (simp add: grows_def owned_def)
qed

end
