(* ===== verification/Mempool_Release.thy ===== *)
theory Mempool_Release
  imports Mempool_Free
begin

text \<open>
  Giving a block back: the first half of \<open>free_node\<close>, which puts the block at the head of the list of its span and the span,
  if it was full, at the head of the list of its slot.
\<close>

lemma free_room:
  assumes f: "frees p FL" and a: "span_at p a = Some s" "sl_slot s = Some i" and q: "q \<in> blocks i (sp_base s) - set (FL a)"
  shows "length (FL a) < unit_nall i" "1 \<le> nd_nnum s"
proof -
  note F = freesD [OF f a]
  have "card (set (FL a)) < card (blocks i (sp_base s))" by (rule psubset_card_mono [OF finite_blocks(1)]) (use F q in auto)
  then show "length (FL a) < unit_nall i" using finite_blocks(2) [of i "sp_base s"] distinct_card [OF F(2)] by linarith
  then show "1 \<le> nd_nnum s" using F(4) by linarith
qed

lemma wrap_pred: "1 \<le> n \<Longrightarrow> n < 2 ^ 64 \<Longrightarrow> (n + 2 ^ 64 - 1) mod 2 ^ 64 = n - 1" for n :: nat
proof -
  assume n: "1 \<le> n" "n < 2 ^ 64"
  then have "n + 2 ^ 64 - 1 = (n - 1) + 2 ^ 64" by simp
  moreover have "n - 1 < 2 ^ 64" using n by linarith
  ultimately show ?thesis by (simp only: mod_add_self2 mod_less)
qed

text \<open>The part of \<open>free_node\<close> before the span is found unused.\<close>

definition give_back :: "mp_pool \<Rightarrow> nat \<Rightarrow> addr \<Rightarrow> mp_span \<Rightarrow> addr \<Rightarrow> mp_pool option" where
  "give_back p i a s fn = (let p1 = p\<lparr>mem := (mem p)(fn := nd_free s), span_at := (span_at p)(a \<mapsto> s\<lparr>nd_free := Some fn, nd_nnum := nd_nnum s - 1\<rparr>)\<rparr> in
     if nd_free s = NULL then do {
       let h = sp_head (slots p ! i);
       let p2 = (set_head (p\<lparr>mem := (mem p)(fn := nd_free s)\<rparr>) i (Some a))
         \<lparr>span_at := (span_at p)(a \<mapsto> s\<lparr>nd_free := Some fn, sl_next := h, sl_prev := NULL, nd_nnum := nd_nnum s - 1\<rparr>)\<rparr>;
       case h of None \<Rightarrow> Some p2 | Some b \<Rightarrow> set_span p2 b (\<lambda>t. t\<lparr>sl_prev := Some a\<rparr>) }
     else Some p1)"

lemma free_node_split:
  assumes s: "span_at p a = Some s" and m: "in_memory p fn NODE_SIZE" and n: "1 \<le> nd_nnum s" "nd_nnum s < 2 ^ 64"
    and h: "nd_free s = NULL \<Longrightarrow> (case sp_head (slots p ! i) of None \<Rightarrow> True | Some b \<Rightarrow> b \<noteq> a \<and> span_at p b \<noteq> None)"
  shows "free_node p i a fn = do { p2 \<leftarrow> give_back p i a s fn; s2 \<leftarrow> span_at p2 a;
    if nd_nnum s2 \<noteq> 0 \<or> sl_next s2 = NULL then Some (p2, False) else do { p \<leftarrow> unlink_span p2 i a; Some (p, True) } }"
proof -
  note w = wrap_pred [OF n, simplified]
  show ?thesis
  proof (cases "nd_free s")
    case (Some x)
    then show ?thesis using s m by (simp add: free_node_def give_back_def set_next_def set_span_def Let_def w)
  next
    case None
    show ?thesis
    proof (cases "sp_head (slots p ! i)")
      case None: None
      then show ?thesis using s m \<open>nd_free s = NULL\<close> by (simp add: free_node_def give_back_def set_next_def set_span_def set_head_def Let_def w)
    next
      case (Some b)
      then obtain t where "span_at p b = Some t" "b \<noteq> a" using h [OF None] by auto
      then show ?thesis using s m None Some
        by (simp add: free_node_def give_back_def set_next_def set_span_def set_head_def Let_def w fun_upd_twist [of b a])
    qed
  qed
qed

lemma give_back_ok:
  assumes I: "pool_inv p FL DL OL OP" and a: "span_at p a = Some s" "sl_slot s = Some i" and q: "q \<in> blocks i (sp_base s) - set (FL a)"
  shows "\<exists>p2 FL' DL' s2. give_back p i a s q = Some p2 \<and> pool_inv p2 FL' DL' OL OP \<and> given p2 FL' = given p FL - {(q, unit_size i)} \<and>
    (\<forall>x. x \<noteq> q \<longrightarrow> mem p2 x = mem p x) \<and> mapped p2 = mapped p \<and> tables p2 = tables p \<and> span_at p2 a = Some s2 \<and> static s2 = static s"
proof -
  have g: "geo p OL OP" and f: "frees p FL" and l: "lists p DL" using I by (simp_all add: pool_inv_def)
  have i: "i < 26" by (rule span_slot(1) [OF g a])
  have len: "length (slots p) = 26" using geoD(1) [OF g] by (simp add: slots_ok_def)
  note F = freesD [OF f a] and L = listsD [OF l i] and R = free_room [OF f a q]
  have F': "distinct (q # FL a)" "set (q # FL a) \<subseteq> blocks i (sp_base s)" using F q by auto
  have ch: "chain (m(q := nd_free s)) (Some q) (q # FL a)" if "m = mem p" for m using that F(1) q by (simp add: chain_upd)
  have gv: "{x. \<exists>b t. b \<noteq> a \<and> span_at p b = Some t \<and> x \<in> given1 t (FL b)} \<union> given1 s (q # FL a) = given p FL - {(q, unit_size i)}"
  proof -
    have "(q, unit_size i) \<notin> given1 t (FL b)" if "b \<noteq> a" "span_at p b = Some t" for b t
      using given_other [OF g a(1) that(2,1)] block_bounds(1,5) [OF i] q by blast
    then show ?thesis using given_split [OF a(1), of FL] by (auto simp: given1_def a(2))
  qed
  have key: "\<exists>FL' DL' s2. pool_inv p2 FL' DL' OL OP \<and> given p2 FL' = given p FL - {(q, unit_size i)} \<and>
      (\<forall>x. x \<noteq> q \<longrightarrow> mem p2 x = mem p x) \<and> mapped p2 = mapped p \<and> tables p2 = tables p \<and> span_at p2 a = Some s2 \<and> static s2 = static s"
    if same: "mem p2 = (mem p)(q := nd_free s)" "mapped p2 = mapped p" "tables p2 = tables p" "obj_free p2 = obj_free p" "same_slots p p2"
    and heads: "\<And>j. j < 26 \<Longrightarrow> j \<noteq> i \<Longrightarrow> sp_head (slots p2 ! j) = sp_head (slots p ! j)"
    and s2: "span_at p2 a = Some s2" "static s2 = static s" "nd_free s2 = Some q" "nd_nnum s2 = nd_nnum s - 1"
    and st: "\<And>b. b \<noteq> a \<Longrightarrow> map_option static (span_at p2 b) = map_option static (span_at p b)"
    and co: "\<And>b. b \<noteq> a \<Longrightarrow> map_option core (span_at p2 b) = map_option core (span_at p b)"
    and ch: "\<And>b. b \<noteq> a \<Longrightarrow> span_at p2 b \<noteq> span_at p b \<Longrightarrow> b \<in> partial p i"
    and D: "distinct D" "dll (span_at p2) NULL (sp_head (slots p2 ! i)) D" "set D = insert a (partial p i)" for p2 s2 D
  proof -
    have sl: "sl_slot s2 = Some i" using s2(2) a(2) by (simp add: static_def)
    have st': "map_option static (span_at p2 b) = map_option static (span_at p b)" for b
      using st [of b] s2(1,2) a(1) by (cases "b = a") simp_all
    have nr: "near (Some i) p p2 b" if b: "span_at p2 b \<noteq> span_at p b" for b
    proof (cases "b = a")
      case True
      then show ?thesis using a s2(1) sl by (simp add: near_def)
    next
      case False
      then obtain t where t: "span_at p b = Some t" "sl_slot t = Some i" using ch [OF _ b] by (auto simp: partial_def)
      then obtain t' where "span_at p2 b = Some t'" "static t' = static t" using st' [of b] by (cases "span_at p2 b") auto
      then show ?thesis using t by (simp add: near_def static_def)
    qed
    have m: "x \<in> blocks i (sp_base s)" if "mem p2 x \<noteq> mem p x" for x using that q same(1) by (cases "x = q") simp_all
    have F2: "chain (mem p2) (nd_free t) (q # FL a) \<and> nd_nnum t + length (q # FL a) = unit_nall i" if "span_at p2 a = Some t" "static t = static s" for t
      using that(1) s2 same(1) R F(1,4) q by (simp add: chain_upd)
    have D3: "set D = partial p2 i" using partial_upd [of a p2 p s2 i, OF co s2(1) sl] s2(3) D(3) by auto
    note U = pool_inv_upd [OF I a same(2-5) heads st' co nr m F2 F' D(1,2) D3]
    show ?thesis using U(1) trans [OF U(2) gv] same(1-3) s2(1,2) by (metis fun_upd_apply)
  qed
  have gb: "\<exists>p2. give_back p i a s q = Some p2 \<and> (\<exists>FL' DL' s2. pool_inv p2 FL' DL' OL OP \<and> given p2 FL' = given p FL - {(q, unit_size i)} \<and>
      (\<forall>x. x \<noteq> q \<longrightarrow> mem p2 x = mem p x) \<and> mapped p2 = mapped p \<and> tables p2 = tables p \<and> span_at p2 a = Some s2 \<and> static s2 = static s)"
  proof (cases "nd_free s")
    case (Some x)
    define s2 where "s2 = s\<lparr>nd_free := Some q, nd_nnum := nd_nnum s - 1\<rparr>"
    define p2 where "p2 = p\<lparr>mem := (mem p)(q := nd_free s), span_at := (span_at p)(a \<mapsto> s2)\<rparr>"
    have s2: "static s2 = static s" "links s2 = links s" "nd_free s2 = Some q" "nd_nnum s2 = nd_nnum s - 1"
      by (simp_all add: s2_def static_def links_def)
    have d: "dll (span_at p2) NULL (sp_head (slots p2 ! i)) (DL i)"
      using dll_cong [OF L(2), of "span_at p2"] s2(2) a(1) by (simp add: p2_def)
    have pa: "a \<in> partial p i" using a Some by (simp add: partial_def)
    show ?thesis
    proof (intro exI [of _ p2] conjI)
      show "give_back p i a s q = Some p2" using Some by (simp add: give_back_def p2_def s2_def)
      show "\<exists>FL' DL' s2. pool_inv p2 FL' DL' OL OP \<and> given p2 FL' = given p FL - {(q, unit_size i)} \<and>
        (\<forall>x. x \<noteq> q \<longrightarrow> mem p2 x = mem p x) \<and> mapped p2 = mapped p \<and> tables p2 = tables p \<and> span_at p2 a = Some s2 \<and> static s2 = static s"
      proof (rule key [where D = "DL i"])
        show "set (DL i) = insert a (partial p i)" using L(3) pa by auto
        show "same_slots p p2" by (rule same_slots_refl) (simp add: p2_def)
      qed (use s2 d L(1) in \<open>simp_all add: p2_def\<close>)
    qed
  next
    case None
    let ?h = "sp_head (slots p ! i)"
    define s2 where "s2 = s\<lparr>nd_free := Some q, sl_next := ?h, sl_prev := NULL, nd_nnum := nd_nnum s - 1\<rparr>"
    define p1 where "p1 = (set_head (p\<lparr>mem := (mem p)(q := nd_free s)\<rparr>) i (Some a))\<lparr>span_at := (span_at p)(a \<mapsto> s2)\<rparr>"
    have s2: "static s2 = static s" "sl_prev s2 = NULL" "sl_next s2 = ?h" "nd_free s2 = Some q" "nd_nnum s2 = nd_nnum s - 1"
      by (simp_all add: s2_def static_def)
    have na: "a \<notin> set (DL i)" using L(3) a None by (simp add: partial_def)
    have d1: "dll (span_at p1) NULL ?h (DL i)" by (rule dll_cong [OF L(2)]) (use na in \<open>auto simp: p1_def\<close>)
    have key': "\<exists>FL' DL' s2. pool_inv p2 FL' DL' OL OP \<and> given p2 FL' = given p FL - {(q, unit_size i)} \<and>
        (\<forall>x. x \<noteq> q \<longrightarrow> mem p2 x = mem p x) \<and> mapped p2 = mapped p \<and> tables p2 = tables p \<and> span_at p2 a = Some s2 \<and> static s2 = static s"
      if e: "p2 = p1\<lparr>span_at := sp\<rparr>" and sp: "sp a = Some s2" "dll sp (Some a) ?h (DL i)"
        "\<And>b. b \<noteq> a \<Longrightarrow> map_option static (sp b) = map_option static (span_at p b)"
        "\<And>b. b \<noteq> a \<Longrightarrow> map_option core (sp b) = map_option core (span_at p b)"
        "\<And>b. b \<noteq> a \<Longrightarrow> sp b \<noteq> span_at p b \<Longrightarrow> b \<in> partial p i" for p2 sp
    proof (rule key [where D = "a # DL i"])
      show "same_slots p p2" using set_head_same [of i p "Some a"] i len by (simp add: e p1_def same_slots_def set_head_def)
      show "sp_head (slots p2 ! j) = sp_head (slots p ! j)" if "j < 26" "j \<noteq> i" for j
        using that i len by (simp add: e p1_def set_head_get)
      show "dll (span_at p2) NULL (sp_head (slots p2 ! i)) (a # DL i)" using sp s2 i len by (simp add: e p1_def set_head_get)
    qed (use s2 sp L(1,3) na in \<open>simp_all add: e p1_def\<close>)
    show ?thesis
    proof (cases ?h)
      case None
      then have "DL i = []" using dll_NULL [OF L(2)] by simp
      then have "\<exists>FL' DL' s2. pool_inv p1 FL' DL' OL OP \<and> given p1 FL' = given p FL - {(q, unit_size i)} \<and>
        (\<forall>x. x \<noteq> q \<longrightarrow> mem p1 x = mem p x) \<and> mapped p1 = mapped p \<and> tables p1 = tables p \<and> span_at p1 a = Some s2 \<and> static s2 = static s"
        using None by (intro key' [where sp = "span_at p1"]) (simp_all add: p1_def)
      moreover have "give_back p i a s q = Some p1" using None \<open>nd_free s = NULL\<close> by (simp add: give_back_def p1_def s2_def)
      ultimately show ?thesis by blast
    next
      case (Some b)
      obtain bs t where b: "DL i = b # bs" "span_at p b = Some t" using L(2) Some by (cases "DL i") auto
      have ne: "b \<noteq> a" using na b(1) by auto
      have bp: "b \<in> partial p i" using L(3) b(1) by auto
      define sp where "sp = (span_at p1)(b \<mapsto> t\<lparr>sl_prev := Some a\<rparr>)"
      have d: "dll sp (Some a) ?h (DL i)" using dll_reroot [OF d1 L(1), of sp "Some a"] Some b(2) ne by (simp add: sp_def p1_def)
      have sb: "sp x = (if x = b then Some (t\<lparr>sl_prev := Some a\<rparr>) else if x = a then Some s2 else span_at p x)" for x
        by (simp add: sp_def p1_def)
      have "\<exists>FL' DL' s2. pool_inv (p1\<lparr>span_at := sp\<rparr>) FL' DL' OL OP \<and> given (p1\<lparr>span_at := sp\<rparr>) FL' = given p FL - {(q, unit_size i)} \<and>
        (\<forall>x. x \<noteq> q \<longrightarrow> mem (p1\<lparr>span_at := sp\<rparr>) x = mem p x) \<and> mapped (p1\<lparr>span_at := sp\<rparr>) = mapped p \<and> tables (p1\<lparr>span_at := sp\<rparr>) = tables p \<and>
        span_at (p1\<lparr>span_at := sp\<rparr>) a = Some s2 \<and> static s2 = static s"
        using d ne b(2) bp by (intro key' [where sp = sp, OF refl]) (auto simp: sb static_def core_def split: if_splits)
      moreover have "give_back p i a s q = Some (p1\<lparr>span_at := sp\<rparr>)"
        using Some None ne b(2) by (simp add: give_back_def p1_def s2_def sp_def set_span_def)
      ultimately show ?thesis by blast
    qed
  qed
  then show ?thesis by blast
qed

text \<open>
  Taking a span out of the doubly linked list of its slot.
\<close>

lemma dll_at: "dll h pv x (xs @ a # ys) \<Longrightarrow> \<exists>s. h a = Some s \<and> dll h (Some a) (sl_next s) ys"
  by (induction xs arbitrary: pv x) auto

lemma dll_unlink:
  assumes "dll h pv x (xs @ a # b # ys)" "xs \<noteq> []" "distinct (xs @ a # b # ys)" "h a = Some sa" "h b = Some tb"
    "h1 = h(b \<mapsto> tb\<lparr>sl_prev := sl_prev sa\<rparr>)"
  shows "\<exists>c tc. sl_prev sa = Some c \<and> c \<in> set xs \<and> h c = Some tc \<and> dll (h1(c \<mapsto> tc\<lparr>sl_next := sl_next sa\<rparr>)) pv x (xs @ b # ys)"
  using assms
proof (induction xs arbitrary: pv x)
  case (Cons d xs)
  obtain sd where d: "x = Some d" "h d = Some sd" "sl_prev sd = pv" "dll h (Some d) (sl_next sd) (xs @ a # b # ys)" using Cons.prems(1) by auto
  show ?case
  proof (cases "xs = []")
    case True
    then have a: "sl_next sd = Some a" "sl_prev sa = Some d" "dll h (Some a) (sl_next sa) (b # ys)" using d(4) Cons.prems(4) by auto
    have b: "sl_next sa = Some b" "distinct (b # ys)" using a(3) Cons.prems(3) by auto
    have "dll h1 (Some d) (sl_next sa) (b # ys)"
      by (rule dll_reroot [OF a(3) b(2)]) (simp add: b(1) Cons.prems(5,6) a(2) fun_upd_def)
    then have *: "dll (h1(d \<mapsto> sd\<lparr>sl_next := sl_next sa\<rparr>)) (Some d) (sl_next sa) (b # ys)"
      by (rule dll_cong) (use Cons.prems(3) in auto)
    have "dll (h1(d \<mapsto> sd\<lparr>sl_next := sl_next sa\<rparr>)) pv x (d # b # ys)"
      unfolding dll.simps(2) [of _ pv x] using * d(1,3) by (intro conjI exI [of _ "sd\<lparr>sl_next := sl_next sa\<rparr>"]) (simp_all del: dll.simps)
    then have "dll (h1(d \<mapsto> sd\<lparr>sl_next := sl_next sa\<rparr>)) pv x ((d # xs) @ b # ys)" unfolding True by (simp only: append.simps)
    then show ?thesis by (intro exI conjI) (rule a(2), rule list.set_intros(1), rule d(2))
  next
    case False
    have ds: "distinct (xs @ a # b # ys)" using Cons.prems(3) by simp
    obtain c tc where c: "sl_prev sa = Some c" "c \<in> set xs" "h c = Some tc"
      "dll (h1(c \<mapsto> tc\<lparr>sl_next := sl_next sa\<rparr>)) (Some d) (sl_next sd) (xs @ b # ys)"
      using Cons.IH [OF d(4) False ds Cons.prems(4,5,6)] by (elim exE conjE) (rule that)
    have ne: "d \<noteq> c" "d \<noteq> b" using c(2) Cons.prems(3) by auto
    have "(h1(c \<mapsto> tc\<lparr>sl_next := sl_next sa\<rparr>)) d = Some sd" using d(2) ne unfolding Cons.prems(6) by simp
    then have "dll (h1(c \<mapsto> tc\<lparr>sl_next := sl_next sa\<rparr>)) pv x ((d # xs) @ b # ys)"
      unfolding append.simps dll.simps(2) [of _ pv x] using d(1,3) c(4) by blast
    then show ?thesis by (intro exI conjI) (rule c(1), rule list.set_intros(2) [OF c(2)], rule c(3))
  qed
qed simp

text \<open>\<open>p'\<close> is \<open>p\<close> with a span less in the list of slot \<open>i\<close>, which is \<open>D\<close> now.\<close>

definition unlinked :: "mp_pool \<Rightarrow> mp_pool \<Rightarrow> nat \<Rightarrow> addr list \<Rightarrow> bool" where
  "unlinked p p' i D \<longleftrightarrow> mem p' = mem p \<and> mapped p' = mapped p \<and> tables p' = tables p \<and> obj_free p' = obj_free p \<and>
    same_slots p p' \<and> (\<forall>j < length (slots p). j \<noteq> i \<longrightarrow> sp_head (slots p' ! j) = sp_head (slots p ! j)) \<and>
    dll (span_at p') NULL (sp_head (slots p' ! i)) D \<and> (\<forall>c. c \<notin> set D \<longrightarrow> span_at p' c = span_at p c) \<and>
    (\<forall>c. map_option static (span_at p' c) = map_option static (span_at p c)) \<and>
    (\<forall>c. map_option core (span_at p' c) = map_option core (span_at p c))"

lemma unlink_ok:
  assumes i: "i < length (slots p)" and d: "dll (span_at p) NULL (sp_head (slots p ! i)) (xs @ a # b # ys)" "distinct (xs @ a # b # ys)"
  shows "\<exists>p'. unlink_span p i a = Some p' \<and> unlinked p p' i (xs @ b # ys)"
proof -
  obtain sa where sa: "span_at p a = Some sa" "dll (span_at p) (Some a) (sl_next sa) (b # ys)" using dll_at [OF d(1)] by blast
  obtain tb where tb: "span_at p b = Some tb" "sl_next sa = Some b" using sa(2) by auto
  let ?h1 = "(span_at p)(b \<mapsto> tb\<lparr>sl_prev := sl_prev sa\<rparr>)"
  show ?thesis
  proof (cases xs)
    case Nil
    then have h: "sp_head (slots p ! i) = Some a" "sl_prev sa = NULL" using d(1) sa(1) by auto
    have "dll ((span_at p)(b \<mapsto> tb\<lparr>sl_prev := NULL\<rparr>)) NULL (Some b) (b # ys)"
      using dll_reroot [OF sa(2), of "(span_at p)(b \<mapsto> tb\<lparr>sl_prev := NULL\<rparr>)" NULL] d(2) tb by auto
    moreover have "unlink_span p i a = Some ((set_head p i (Some b))\<lparr>span_at := (span_at p)(b \<mapsto> tb\<lparr>sl_prev := NULL\<rparr>)\<rparr>)"
      using sa(1) tb h by (simp add: unlink_span_def set_span_def set_head_def)
    ultimately show ?thesis using Nil i tb set_head_same [OF i, of "Some b"]
      by (intro exI [of _ "(set_head p i (Some b))\<lparr>span_at := (span_at p)(b \<mapsto> tb\<lparr>sl_prev := NULL\<rparr>)\<rparr>"])
        (simp add: set_head_get unlinked_def static_def core_def same_slots_def)
  next
    case (Cons d' ds)
    then have h: "sp_head (slots p ! i) \<noteq> Some a" using d by auto
    obtain c tc where c: "sl_prev sa = Some c" "c \<in> set xs" "span_at p c = Some tc"
      "dll (?h1(c \<mapsto> tc\<lparr>sl_next := sl_next sa\<rparr>)) NULL (sp_head (slots p ! i)) (xs @ b # ys)"
      using dll_unlink [OF d(1) _ d(2) sa(1) tb(1) refl] Cons by blast
    have ne: "c \<noteq> b" using c(2) d(2) by auto
    let ?p = "p\<lparr>span_at := ?h1(c \<mapsto> tc\<lparr>sl_next := sl_next sa\<rparr>)\<rparr>"
    have "unlink_span p i a = Some ?p" using sa(1) tb h c(1,3) ne by (simp add: unlink_span_def set_span_def)
    then show ?thesis using c ne tb by (intro exI [of _ ?p]) (auto simp: unlinked_def static_def core_def same_slots_def)
  qed
qed

text \<open>A span object in the region of a span is its own.\<close>

lemma object_own:
  assumes g: "geo p OL OP" and a: "span_at p a = Some s" and x: "span_at p x = Some t"
    and r: "sp_base s \<le> x" "x < sp_base s + page_up (sp_size s)"
  shows "x = a \<and> \<not> sp_fly s"
proof -
  have T: "span_ok p OL OP x t" by (rule geoD(3) [OF g x])
  have nf: "\<not> sp_fly t" using T object_not_in_span [OF g a, of x] r by (auto simp: span_ok_def)
  then have e: "x + SPAN_SIZE = sp_base t + page_up (sp_size t)" using T by (simp add: span_ok_def)
  have "x = a"
  proof (rule ccontr)
    assume "x \<noteq> a"
    moreover have "SP_SIZE \<le> page_up (sp_size t)" using span_bounds(3) [OF g x] page_up_ge(1) [of "sp_size t"] by linarith
    ultimately show False using spans_apart(2) [OF g a x] r e by (simp add: SPAN_SIZE_def SP_SIZE_def)
  qed
  then show ?thesis using nf a x by simp
qed

lemma free_region:
  assumes g: "geo p OL OP" and a: "span_at p a = Some s"
  shows "(\<lambda>x. if sp_base s \<le> x \<and> x < sp_base s + page_up (sp_size s) then None else span_at p x) = (if sp_fly s then span_at p else (span_at p)(a := None))"
proof (rule ext)
  fix x
  note o = object_own [OF g a, of x]
  have ain: "sp_base s \<le> a \<and> a < sp_base s + page_up (sp_size s)" if "\<not> sp_fly s"
    using geoD(3) [OF g a] that page_up_ge(1) [of "sp_size s"] by (auto simp: span_ok_def SPAN_SIZE_def SP_SIZE_def)
  show "(if sp_base s \<le> x \<and> x < sp_base s + page_up (sp_size s) then None else span_at p x) = (if sp_fly s then span_at p else (span_at p)(a := None)) x"
  proof (cases "sp_base s \<le> x \<and> x < sp_base s + page_up (sp_size s)")
    case True
    then have "span_at p x = None \<or> x = a \<and> \<not> sp_fly s" using o by (cases "span_at p x") simp_all
    then show ?thesis unfolding if_P [OF True] by auto
  next
    case False
    then have "sp_fly s \<or> x \<noteq> a" using ain by blast
    then show ?thesis unfolding if_not_P [OF False] by auto
  qed
qed

lemma geo_remove:
  assumes g: "geo p OL OP" and a: "span_at p a = Some s"
    and p': "mapped p' = (mapped p)(sp_base s := None)" "span_at p' = (span_at p)(a := None)" "slots p' = slots p"
    and bk: "\<And>k. bucket_get p' k = (if k = sp_base s div SP_SIZE then None else bucket_get p k)"
    and OL: "set OL' \<subseteq> objects OP" "distinct OL'" "chain (mem p') (obj_free p') OL'" "set OL' \<subseteq> insert a (set OL)"
  shows "geo p' OL' OP"
proof -
  have A: "span_ok p OL OP a s" by (rule geoD(3) [OF g a])
  have "span_ok p' OL' OP b t" if b: "span_at p' b = Some t" for b t
  proof -
    have t: "b \<noteq> a" "span_at p b = Some t" using b p'(2) by (auto split: if_splits)
    have T: "span_ok p OL OP b t" by (rule geoD(3) [OF g t(2)])
    have "sp_base t \<noteq> sp_base s" by (rule spans_apart(1) [OF g t(2) a t(1)])
    moreover have "sp_base t div SP_SIZE \<noteq> sp_base s div SP_SIZE" using T A t(1) by (auto simp: span_ok_def)
    ultimately show ?thesis using T OL(4) t(1) by (auto simp: span_ok_def p'(1) bk split: if_splits)
  qed
  moreover have "\<exists>t. span_at p' b = Some t \<and> sp_base t div SP_SIZE = k" if b: "bucket_get p' k = Some b" for k b
  proof -
    have k: "k \<noteq> sp_base s div SP_SIZE" "bucket_get p k = Some b" using b bk by (auto split: if_splits)
    then obtain t where "span_at p b = Some t" "sp_base t div SP_SIZE = k" using geoD(4) [OF g] by blast
    then show ?thesis using k a by (auto simp: p'(2))
  qed
  moreover have "mapped_ok (mapped p')" using geoD(2) [OF g] unfolding mapped_ok_def p'(1) by (simp only: fun_upd_apply split: if_splits) blast
  moreover have "\<forall>b \<in> OP. mapped p' b = Some SP_SIZE" using geoD(5) [OF g] A by (auto simp: p'(1) span_ok_def)
  moreover have "slots_ok p'" using geoD(1) [OF g] by (simp add: slots_ok_def p'(3))
  ultimately show ?thesis using OL by (simp add: geo_def)
qed

lemma release_ok:
  assumes g: "geo p OL OP" and a: "span_at p a = Some s"
  shows "\<exists>p' OL'. release_span p a (sp_base s div SP_SIZE) = Some p' \<and> geo p' OL' OP \<and> span_at p' = (span_at p)(a := None) \<and>
    slots p' = slots p \<and> (\<forall>x. x \<notin> objects OP \<longrightarrow> mem p' x = mem p x) \<and> mapped p' = (mapped p)(sp_base s := None)"
proof -
  have A: "span_ok p OL OP a s" by (rule geoD(3) [OF g a])
  let ?k = "sp_base s div SP_SIZE"
  obtain t where t: "tables p (?k div 2 ^ bits1) = Some t"
    using bucket_table [of p ?k a] A by (auto simp: span_ok_def)
  define p1 where "p1 = p\<lparr>tables := (tables p)(?k div 2 ^ bits1 \<mapsto> t(?k mod 2 ^ bits1 := NULL))\<rparr>"
  have b: "bucket_set p ?k NULL = Some p1" using t by (simp add: bucket_set_def p1_def)
  have bk: "bucket_get p1 k = (if k = ?k then None else bucket_get p k)" for k
  proof (cases "k = ?k")
    case False
    then have "k div 2 ^ bits1 \<noteq> ?k div 2 ^ bits1 \<or> k mod 2 ^ bits1 \<noteq> ?k mod 2 ^ bits1" by (metis div_mult_mod_eq)
    then show ?thesis using False t by (auto simp: bucket_get_def p1_def)
  qed (simp add: bucket_get_def p1_def)
  define p2 where "p2 = p1\<lparr>mapped := (mapped p)(sp_base s := None), span_at := (if sp_fly s then span_at p else (span_at p)(a := None))\<rparr>"
  have f: "page_free p1 (sp_base s) (sp_size s) = Some p2"
  proof -
    have e: "span_at p1 = span_at p" "mapped p1 = mapped p" by (simp_all add: p1_def)
    show ?thesis using A unfolding page_free_def e free_region [OF g a] p2_def by (simp add: span_ok_def)
  qed
  have bk2: "bucket_get p2 k = (if k = ?k then None else bucket_get p k)" for k using bk by (simp add: bucket_get_def p2_def)
  show ?thesis
  proof (cases "sp_fly s")
    case False
    have "geo p2 OL OP" by (rule geo_remove [OF g a _ _ _ bk2 geoD(6,7) [OF g]]) (use False geoD(8) [OF g] in \<open>auto simp: p2_def p1_def\<close>)
    moreover have "release_span p a ?k = Some p2" using a b f False by (simp add: release_span_def)
    ultimately show ?thesis using False by (intro exI [of _ p2] exI [of _ OL]) (simp add: p2_def p1_def)
  next
    case True
    have ob: "a \<in> objects OP" "a \<notin> set OL" using A True by (auto simp: span_ok_def)
    obtain c where c: "c \<in> OP" "c \<le> a" "a + SPAN_SIZE \<le> c + SP_SIZE" using object_in_page [OF ob(1)] by blast
    have "mapped p2 c = Some SP_SIZE" using geoD(5) [OF g c(1)] c(1) A by (auto simp: p2_def span_ok_def)
    then have m: "in_memory p2 a NODE_SIZE" using c by (intro in_memoryI) (auto simp: NODE_SIZE_def SPAN_SIZE_def)
    define p3 where "p3 = p2\<lparr>mem := (mem p)(a := obj_free p), obj_free := Some a, span_at := (span_at p)(a := None)\<rparr>"
    have "obj_dealloc p2 a = Some p3" using m True by (simp add: obj_dealloc_def set_next_def p3_def p2_def p1_def)
    then have r: "release_span p a ?k = Some p3" using a b f True by (simp add: release_span_def)
    have bk3: "bucket_get p3 k = (if k = ?k then None else bucket_get p k)" for k using bk2 by (simp add: bucket_get_def p3_def)
    have "geo p3 (a # OL) OP"
      by (rule geo_remove [OF g a _ _ _ bk3]) (use ob geoD(6-8) [OF g] in \<open>auto simp: p3_def p2_def p1_def chain_upd\<close>)
    then show ?thesis using r ob(1) by (intro exI [of _ p3] exI [of _ "a # OL"]) (auto simp: p3_def p2_def p1_def)
  qed
qed

end
