(* ===== verification/Mempool_Dealloc.thy ===== *)
theory Mempool_Dealloc
  imports Mempool_Release
begin

text \<open>
  Deallocation keeps the invariant of the pool and takes exactly one block back.
\<close>

lemma given_apart:
  assumes g: "geo p OL OP" and q: "(q, n) \<in> given p FL" and r: "(r, k) \<in> given p FL" and ne: "(q, n) \<noteq> (r, k)"
  shows "q + n \<le> r \<or> r + k \<le> q"
proof -
  obtain a s where a: "span_at p a = Some s" "(q, n) \<in> given1 s (FL a)" using q unfolding given_iff by blast
  obtain b t where b: "span_at p b = Some t" "(r, k) \<in> given1 t (FL b)" using r unfolding given_iff by blast
  note A = given1_inside [OF g a] and B = given1_inside [OF g b]
  show ?thesis
  proof (cases "a = b")
    case False
    show ?thesis
      using spans_apart(2) [OF g a(1) b(1) False] A(1,2) B(1,2) page_up_ge(1) [of "sp_size s"] page_up_ge(1) [of "sp_size t"] by linarith
  next
    case True
    then have st: "t = s" using a(1) b(1) by simp
    show ?thesis
    proof (cases "sl_slot s")
      case None
      then show ?thesis using a(2) b(2) ne by (simp add: given1_def st)
    next
      case (Some i)
      then have e: "q \<in> blocks i (sp_base s)" "r \<in> blocks i (sp_base s)" "n = unit_size i" "k = unit_size i" "q \<noteq> r"
        using a(2) b(2) ne by (auto simp: given1_def st)
      then obtain x y where xy: "q = sp_base s + x * unit_size i" "r = sp_base s + y * unit_size i" by (auto simp: blocks_def)
      then have "x < y \<or> y < x" using e(5) by (metis linorder_neqE_nat)
      then show ?thesis
      proof
        assume "x < y"
        then have "Suc x * unit_size i \<le> y * unit_size i" by (intro mult_le_mono1) simp
        then show ?thesis by (simp add: xy e)
      next
        assume "y < x"
        then have "Suc y * unit_size i \<le> x * unit_size i" by (intro mult_le_mono1) simp
        then show ?thesis by (simp add: xy e)
      qed
    qed
  qed
qed

lemma given_not_object:
  assumes g: "geo p OL OP" and q: "(q, n) \<in> given p FL" and x: "q \<le> x" "x < q + n"
  shows "x \<notin> objects OP"
proof
  assume o: "x \<in> objects OP"
  obtain a s where a: "span_at p a = Some s" "(q, n) \<in> given1 s (FL a)" using q unfolding given_iff by blast
  show False
    using object_not_in_span [OF g a(1) o] given1_inside(1,2) [OF g a] x page_up_ge(1) [of "sp_size s"] by linarith
qed

lemma lists_keep:
  assumes l: "lists p DL" and h: "\<And>j. j < 26 \<Longrightarrow> sp_head (slots p' ! j) = sp_head (slots p ! j)"
    and s: "\<And>a. span_at p' a \<noteq> span_at p a \<Longrightarrow> near None p p' a"
  shows "lists p' DL"
proof -
  have "lists p' (DL(26 := DL 26))" by (rule lists_upd [OF l h]) (use s in \<open>auto simp: near_def\<close>)
  then show ?thesis by simp
qed

lemma frees_release:
  assumes g: "geo p OL OP" and f: "frees p FL" and a: "span_at p a = Some s"
    and p': "span_at p' = (span_at p)(a := None)" "\<forall>x. x \<notin> objects OP \<longrightarrow> mem p' x = mem p x"
  shows "frees p' FL" "given p' FL = {x. \<exists>b t. b \<noteq> a \<and> span_at p b = Some t \<and> x \<in> given1 t (FL b)}"
proof -
  have "frees p' (FL(a := FL a))"
  proof (rule frees_upd [OF f])
    show "\<exists>t. span_at p b = Some t \<and> core t = core t'" if "b \<noteq> a" "span_at p' b = Some t'" for b t' using that p'(1) by simp
    show "mem p' x = mem p x" if b: "b \<noteq> a" "span_at p b = Some t" "sl_slot t = Some i" "x \<in> set (FL b)" for b t i x
    proof (rule p'(2) [rule_format], rule notI)
      assume "x \<in> objects OP"
      then show False using block_not_object [OF g b(2,3), of x x] freesD(3) [OF f b(2,3)] b(4) by blast
    qed
  qed (use p'(1) in simp_all)
  then show "frees p' FL" by simp
  show "given p' FL = {x. \<exists>b t. b \<noteq> a \<and> span_at p b = Some t \<and> x \<in> given1 t (FL b)}"
    unfolding set_eq_iff given_iff p'(1) by (auto split: if_splits)
qed

lemma given_minus:
  assumes g: "geo p OL OP" and a: "span_at p a = Some s" and q: "given1 s (FL a) = {(q, n)}"
  shows "{x. \<exists>b t. b \<noteq> a \<and> span_at p b = Some t \<and> x \<in> given1 t (FL b)} = given p FL - {(q, n)}"
proof -
  have "(q, n) \<in> given1 s (FL a)" using q by simp
  note I = given1_inside [OF g a this]
  have "(q, n) \<notin> given1 t (FL b)" if "b \<noteq> a" "span_at p b = Some t" for b t using given_other [OF g a that(2,1) I(1,3)] .
  then show ?thesis unfolding given_split [OF a, of FL] q by blast
qed

lemma unlinked_lists:
  assumes I: "pool_inv p FL DL OL OP" and a: "span_at p a = Some s" "sl_slot s = Some i" and x: "DL i = xs @ a # ys"
    and u: "unlinked p p' i (xs @ ys)"
  shows "geo p' OL OP" "frees p' FL" "given p' FL = given p FL" "\<exists>s'. span_at p' a = Some s' \<and> static s' = static s"
    "slots q = slots p' \<Longrightarrow> span_at q = (span_at p')(a := None) \<Longrightarrow> lists q (DL(i := xs @ ys))"
proof -
  have g: "geo p OL OP" and f: "frees p FL" and l: "lists p DL" using I by (simp_all add: pool_inv_def)
  have i: "i < 26" by (rule span_slot(1) [OF g a])
  have len: "length (slots p) = 26" using geoD(1) [OF g] by (simp add: slots_ok_def)
  note L = listsD [OF l i]
  let ?D = "xs @ ys"
  have p': "mem p' = mem p" "mapped p' = mapped p" "tables p' = tables p" "obj_free p' = obj_free p"
    "same_slots p p'" "dll (span_at p') NULL (sp_head (slots p' ! i)) ?D"
    using u unfolding unlinked_def by blast+
  have h: "sp_head (slots p' ! j) = sp_head (slots p ! j)" if "j < 26" "j \<noteq> i" for j using u that len unfolding unlinked_def by simp
  have fr: "span_at p' c = span_at p c" if "c \<notin> set ?D" for c using u that unfolding unlinked_def by blast
  have st: "map_option static (span_at p' c) = map_option static (span_at p c)"
    and co: "map_option core (span_at p' c) = map_option core (span_at p c)" for c using u unfolding unlinked_def by blast+
  have ds: "distinct ?D" "a \<notin> set ?D" using L(1) x by auto
  show s': "\<exists>s'. span_at p' a = Some s' \<and> static s' = static s" using st [of a] a(1) by (cases "span_at p' a") auto
  show "geo p' OL OP" by (rule geo_same [OF g p'(2-5) st]) (simp add: p'(1))
  have f': "frees p' (FL(a := FL a))"
  proof (rule frees_upd [OF f])
    show "\<exists>t. span_at p c = Some t \<and> core t = core t'" if "span_at p' c = Some t'" for c t'
      using co [of c] that by (cases "span_at p c") auto
    show "chain (mem p') (nd_free t) (FL a) \<and> distinct (FL a) \<and> set (FL a) \<subseteq> blocks j (sp_base t) \<and> nd_nnum t + length (FL a) = unit_nall j"
      if "span_at p' a = Some t" "sl_slot t = Some j" for t j
      using co [of a] that a freesD [OF f a] by (simp add: core_def p'(1))
  qed (simp add: p'(1))
  then show "frees p' FL" by simp
  show "given p' FL = given p FL"
  proof -
    obtain s' where s': "span_at p' a = Some s'" "static s' = static s" using s' by blast
    have "given p' (FL(a := FL a)) = given p FL" by (rule trans [OF given_upd [OF st a(1) s'] given_split [OF a(1), symmetric]])
    then show ?thesis by simp
  qed
  assume q: "slots q = slots p'" "span_at q = (span_at p')(a := None)"
  show "lists q (DL(i := ?D))"
  proof (rule lists_upd [OF l])
    show "sp_head (slots q ! j) = sp_head (slots p ! j)" if "j < 26" "j \<noteq> i" for j using h [OF that] q(1) by simp
    show "near (Some i) p q c" if c: "span_at q c \<noteq> span_at p c" for c
    proof -
      have "c \<in> set (DL i)" using c fr [of c] x by (cases "c = a") (auto simp: q(2))
      then obtain t where t: "span_at p c = Some t" "sl_slot t = Some i" using L(3) by (auto simp: partial_def)
      then obtain t' where "span_at p' c = Some t'" "static t' = static t" using st [of c] by (cases "span_at p' c") auto
      then show ?thesis using t by (auto simp: near_def static_def q(2))
    qed
    have "set ?D = partial q i"
    proof -
      have "c \<in> partial q i \<longleftrightarrow> c \<in> partial p i \<and> c \<noteq> a" for c
        using co [of c] by (cases "span_at p c"; cases "span_at p' c") (auto simp: partial_def core_def q(2))
      then show ?thesis using L(1,3) x by auto
    qed
    moreover have "dll (span_at q) NULL (sp_head (slots q ! i)) ?D"
      unfolding q(1) by (rule dll_cong [OF p'(6)]) (use ds in \<open>auto simp: q(2)\<close>)
    ultimately show "distinct ?D \<and> dll (span_at q) NULL (sp_head (slots q ! i)) ?D \<and> set ?D = partial q i" using ds by auto
  qed
qed

text \<open>A span none of whose blocks is given out.\<close>

lemma unused_given:
  assumes f: "frees p FL" and a: "span_at p a = Some s" "sl_slot s = Some i" and z: "nd_nnum s = 0"
  shows "given1 s (FL a) = {}"
proof -
  note F = freesD [OF f a]
  have "card (set (FL a)) = unit_nall i" using F(2,4) z by (simp add: distinct_card)
  then have "set (FL a) = blocks i (sp_base s)" using finite_blocks [of i "sp_base s"] F(3) by (metis card_seteq)
  then show ?thesis by (simp add: given1_def a(2))
qed

lemma in_list:
  assumes I: "pool_inv p FL DL OL OP" and a: "span_at p a = Some s" "sl_slot s = Some i" and z: "nd_nnum s = 0"
  shows "\<exists>xs ys. DL i = xs @ a # ys \<and> dll (span_at p) NULL (sp_head (slots p ! i)) (xs @ a # ys) \<and> distinct (xs @ a # ys) \<and>
    dll (span_at p) (Some a) (sl_next s) ys"
proof -
  have g: "geo p OL OP" and f: "frees p FL" and l: "lists p DL" using I by (simp_all add: pool_inv_def)
  have i: "i < 26" by (rule span_slot(1) [OF g a])
  have nf: "nd_free s \<noteq> NULL" using freesD(1,4) [OF f a] z units(4) [OF i] by (cases "FL a") auto
  note L = listsD [OF l i]
  have "a \<in> set (DL i)" using L(3) a nf by (simp add: partial_def)
  then obtain xs ys where x: "DL i = xs @ a # ys" using split_list by metis
  then have d: "dll (span_at p) NULL (sp_head (slots p ! i)) (xs @ a # ys)" "distinct (xs @ a # ys)" using L(1,2) by simp_all
  moreover have "dll (span_at p) (Some a) (sl_next s) ys" using dll_at [OF d(1)] a(1) by auto
  ultimately show ?thesis using x by blast
qed

lemma unlinked_release:
  assumes I: "pool_inv p FL DL OL OP" and a: "span_at p a = Some s" "sl_slot s = Some i" and z: "nd_nnum s = 0"
    and x: "DL i = xs @ a # ys" and u: "unlinked p p1 i (xs @ ys)"
  shows "\<exists>p' OL'. release_span p1 a (sp_base s div SP_SIZE) = Some p' \<and> pool_inv p' FL (DL(i := xs @ ys)) OL' OP \<and>
    given p' FL = given p FL \<and> (\<forall>x. x \<notin> objects OP \<longrightarrow> mem p' x = mem p x) \<and> mapped p' = (mapped p)(sp_base s := None) \<and>
    span_at p' = (span_at p1)(a := None)"
proof -
  have g: "geo p OL OP" and f: "frees p FL" using I by (simp_all add: pool_inv_def)
  have p1: "mem p1 = mem p" "mapped p1 = mapped p" using u unfolding unlinked_def by blast+
  note U = unlinked_lists [OF I a x u]
  obtain s1 where s1: "span_at p1 a = Some s1" "static s1 = static s" using U(4) by blast
  have e: "sp_base s1 = sp_base s" using s1(2) by (simp add: static_def)
  obtain p2 OL' where p2: "release_span p1 a (sp_base s div SP_SIZE) = Some p2" "geo p2 OL' OP" "span_at p2 = (span_at p1)(a := None)"
    "slots p2 = slots p1" "\<forall>x. x \<notin> objects OP \<longrightarrow> mem p2 x = mem p1 x" "mapped p2 = (mapped p1)(sp_base s := None)"
    using release_ok [OF U(1) s1(1)] unfolding e by blast
  note R = frees_release [OF U(1,2) s1(1) p2(3,5)]
  have "given1 s1 (FL a) = {}" using unused_given [OF f a z] given1_static [OF s1(2)] by simp
  then have "given p2 FL = given p FL" unfolding R(2) U(3) [symmetric] given_split [OF s1(1), of FL] by simp
  moreover have "pool_inv p2 FL (DL(i := xs @ ys)) OL' OP" using p2(2) R(1) U(5) [OF p2(4,3)] by (simp add: pool_inv_def)
  ultimately show ?thesis using p1 p2 by (intro exI [of _ p2] exI [of _ OL']) simp
qed

lemma release_unused:
  assumes I: "pool_inv p FL DL OL OP" and a: "span_at p a = Some s" "sl_slot s = Some i" and z: "nd_nnum s = 0" "sl_next s \<noteq> NULL"
  shows "\<exists>p' FL' DL' OL'. do { p \<leftarrow> unlink_span p i a; release_span p a (sp_base s div SP_SIZE) } = Some p' \<and> pool_inv p' FL' DL' OL' OP \<and>
    given p' FL' = given p FL \<and> (\<forall>x. x \<notin> objects OP \<longrightarrow> mem p' x = mem p x) \<and> mapped p' = (mapped p)(sp_base s := None)"
proof -
  have g: "geo p OL OP" using I by (simp add: pool_inv_def)
  have i: "i < length (slots p)" using span_slot(1) [OF g a] geoD(1) [OF g] by (simp add: slots_ok_def)
  obtain xs ys' where x: "DL i = xs @ a # ys'" "dll (span_at p) NULL (sp_head (slots p ! i)) (xs @ a # ys')" "distinct (xs @ a # ys')"
    "dll (span_at p) (Some a) (sl_next s) ys'" using in_list [OF I a z(1)] by blast
  then obtain b ys where y: "ys' = b # ys" using z(2) by (cases ys') auto
  obtain p1 where p1: "unlink_span p i a = Some p1" "unlinked p p1 i (xs @ ys')" using unlink_ok [OF i x(2,3) [unfolded y]] y by blast
  then show ?thesis using unlinked_release [OF I a z(1) x(1) p1(2)] by auto
qed

lemma dealloc_real_ok:
  assumes I: "pool_inv p FL DL OL OP" and a: "span_at p a = Some s" and q: "(q, n) \<in> given1 s (FL a)"
  shows "\<exists>p' FL' DL' OL'. dealloc_real p q (sp_base s div SP_SIZE) = Some p' \<and> pool_inv p' FL' DL' OL' OP \<and>
    given p' FL' = given p FL - {(q, n)} \<and> (\<forall>x. x \<notin> objects OP \<longrightarrow> x \<noteq> q \<longrightarrow> mem p' x = mem p x)"
proof -
  have g: "geo p OL OP" and f: "frees p FL" and l: "lists p DL" using I by (simp_all add: pool_inv_def)
  have bk: "bucket_get p (sp_base s div SP_SIZE) = Some a" using geoD(3) [OF g a] by (simp add: span_ok_def)
  show ?thesis
  proof (cases "sl_slot s")
    case None
    obtain p2 OL' where p2: "release_span p a (sp_base s div SP_SIZE) = Some p2" "geo p2 OL' OP" "span_at p2 = (span_at p)(a := None)"
      "slots p2 = slots p" "\<forall>x. x \<notin> objects OP \<longrightarrow> mem p2 x = mem p x" using release_ok [OF g a] by blast
    note R = frees_release [OF g f a p2(3,5)]
    have one: "given1 s (FL a) = {(q, n)}" using q None by (simp add: given1_def)
    have "lists p2 DL"
    proof (rule lists_keep [OF l])
      show "near None p p2 b" if "span_at p2 b \<noteq> span_at p b" for b
        using that None a by (cases "b = a") (auto simp: near_def p2(3))
    qed (simp add: p2(4))
    then have "pool_inv p2 FL DL OL' OP" using p2(2) R(1) by (simp add: pool_inv_def)
    moreover have "given p2 FL = given p FL - {(q, n)}" unfolding R(2) by (rule given_minus [where FL = FL, OF g a one])
    moreover have "dealloc_real p q (sp_base s div SP_SIZE) = Some p2" using bk a None p2(1) by (simp add: dealloc_real_def)
    ultimately show ?thesis using p2(5) by blast
  next
    case (Some i)
    note S = span_slot [OF g a Some]
    have qb: "q \<in> blocks i (sp_base s) - set (FL a)" "n = unit_size i" using q Some by (simp_all add: given1_def)
    have m: "in_memory p q NODE_SIZE" using block_in_memory [OF g a Some] qb(1) by simp
    have nn: "1 \<le> nd_nnum s" "nd_nnum s < 2 ^ 64" using free_room(2) [OF f a Some qb(1)] freesD(4) [OF f a Some] units(8) [OF S(1)] by linarith+
    have h: "case sp_head (slots p ! i) of None \<Rightarrow> True | Some b \<Rightarrow> b \<noteq> a \<and> span_at p b \<noteq> None" if nf: "nd_free s = NULL"
    proof (cases "sp_head (slots p ! i)")
      case h: (Some b)
      obtain as t where "span_at p b = Some t" "nd_free t \<noteq> NULL" using head_dl [OF I S(1) h] by auto
      then show ?thesis using h nf a by auto
    qed simp
    obtain p2 FL2 DL2 s2 where p2: "give_back p i a s q = Some p2" "pool_inv p2 FL2 DL2 OL OP" "given p2 FL2 = given p FL - {(q, n)}"
      "\<And>x. x \<noteq> q \<Longrightarrow> mem p2 x = mem p x" "mapped p2 = mapped p" "tables p2 = tables p" "span_at p2 a = Some s2" "static s2 = static s"
      using give_back_ok [OF I a Some qb(1)] unfolding qb(2) by blast
    have e: "sp_base s2 = sp_base s" "sl_slot s2 = Some i" using p2(8) Some by (simp_all add: static_def)
    have run: "dealloc_real p q (sp_base s div SP_SIZE) = (if nd_nnum s2 \<noteq> 0 \<or> sl_next s2 = NULL then Some p2
        else do { p \<leftarrow> unlink_span p2 i a; release_span p a (sp_base s div SP_SIZE) })"
      using bk a Some p2(1,7) by (simp add: dealloc_real_def free_node_split [OF a m nn h])
    show ?thesis
    proof (cases "nd_nnum s2 \<noteq> 0 \<or> sl_next s2 = NULL")
      case True
      then show ?thesis using run p2(2-4) by auto
    next
      case False
      then have z: "nd_nnum s2 = 0" "sl_next s2 \<noteq> NULL" by simp_all
      obtain p' FL' DL' OL' where p': "do { p \<leftarrow> unlink_span p2 i a; release_span p a (sp_base s div SP_SIZE) } = Some p'" "pool_inv p' FL' DL' OL' OP"
        "given p' FL' = given p2 FL2" "\<And>x. x \<notin> objects OP \<Longrightarrow> mem p' x = mem p2 x"
        using release_unused [OF p2(2,7) e(2) z] unfolding e(1) by blast
      have "dealloc_real p q (sp_base s div SP_SIZE) = Some p'" by (rule trans [OF run [unfolded if_not_P [OF False]] p'(1)])
      then show ?thesis using p'(2-4) p2(3,4) by auto
    qed
  qed
qed

lemma dealloc_ok:
  assumes I: "pool_inv p FL DL OL OP" and q: "(q, n) \<in> given p FL"
  shows "\<exists>p' FL' DL' OL'. mp_dealloc p q = Some (p', True) \<and> pool_inv p' FL' DL' OL' OP \<and> given p' FL' = given p FL - {(q, n)} \<and>
    (\<forall>x. x \<notin> objects OP \<longrightarrow> x \<noteq> q \<longrightarrow> mem p' x = mem p x)"
proof -
  have g: "geo p OL OP" using I by (simp add: pool_inv_def)
  obtain a s where a: "span_at p a = Some s" "(q, n) \<in> given1 s (FL a)" using q unfolding given_iff by blast
  obtain p' FL' DL' OL' where p': "dealloc_real p q (sp_base s div SP_SIZE) = Some p'" "pool_inv p' FL' DL' OL' OP"
    "given p' FL' = given p FL - {(q, n)}" "\<forall>x. x \<notin> objects OP \<longrightarrow> x \<noteq> q \<longrightarrow> mem p' x = mem p x"
    using dealloc_real_ok [OF I a] by blast
  have "find_bucket p q = Some (Some (sp_base s div SP_SIZE))"
    by (rule find_bucket_ok [OF g a(1)]) (use given1_inside [OF g a] in simp_all)
  then have "mp_dealloc p q = Some (p', True)" using p'(1) by (simp add: mp_dealloc_def)
  then show ?thesis using p'(2-4) by blast
qed

lemma given_frame:
  assumes g: "geo p OL OP" and f: "\<And>x. x \<notin> objects OP \<Longrightarrow> x \<noteq> q \<Longrightarrow> mem p' x = mem p x"
    and q: "(q, n) \<in> given p FL" and r: "(r, k) \<in> given p FL" and ne: "(q, n) \<noteq> (r, k)" and x: "r \<le> x" "x < r + k"
  shows "mem p' x = mem p x"
proof (rule f)
  show "x \<notin> objects OP" by (rule given_not_object [OF g r x])
  obtain a s where a: "span_at p a = Some s" "(q, n) \<in> given1 s (FL a)" using q unfolding given_iff by blast
  show "x \<noteq> q" using given_apart [OF g q r ne] given1_inside(4) [OF g a] x by auto
qed

end
