(* ===== verification/Mempool_Alloc.thy ===== *)
theory Mempool_Alloc
  imports Mempool_Grow Mempool_Dealloc Mempool_Inv
begin

text \<open>
  Allocation: a new span for a slot that has none with free blocks, blocks larger than 1 MB, and the
  choice between them.
\<close>

definition fresh_blocks :: "nat \<Rightarrow> addr \<Rightarrow> addr list" where
  "fresh_blocks i b = map (\<lambda>k. b + k * unit_size i) [0..<unit_nall i]"

lemma fresh_blocks_set: "set (fresh_blocks i b) = blocks i b" "length (fresh_blocks i b) = unit_nall i"
  by (auto simp: fresh_blocks_def blocks_def)

lemma fresh_blocks_distinct: "i < 26 \<Longrightarrow> distinct (fresh_blocks i b)"
  using units(1) [of i] by (auto simp: fresh_blocks_def distinct_map inj_on_def)

lemma block_link:
  assumes i: "i < 26" and m: "mapped p b = Some SP_SIZE"
  shows "\<exists>m. mp_link p b (unit_nall i * unit_size i) (unit_size i) NULL = Some (p\<lparr>mem := m\<rparr>) \<and> chain m (Some b) (fresh_blocks i b) \<and>
    (\<forall>x. (x < b \<or> b + SP_SIZE \<le> x) \<longrightarrow> m x = mem p x)"
proof -
  note U = units [OF i]
  define k where "k = unit_nall i - 1"
  have k: "Suc k = unit_nall i" using U(4) by (simp add: k_def)
  have le: "j * unit_size i + unit_size i \<le> SP_SIZE" if "j \<le> k" for j
  proof -
    have "Suc j * unit_size i \<le> unit_nall i * unit_size i" using that k by (intro mult_le_mono1) simp
    then show ?thesis using U(5) by simp
  qed
  have 1: "\<forall>j \<le> k. in_memory p (b + j * unit_size i) NODE_SIZE"
  proof (intro allI impI)
    fix j assume "j \<le> k"
    then have "b + j * unit_size i + NODE_SIZE \<le> b + SP_SIZE" using le [of j] U(1) by (simp add: NODE_SIZE_def)
    then show "in_memory p (b + j * unit_size i) NODE_SIZE" by (intro in_memoryI [OF m]) simp_all
  qed
  have u: "0 < unit_size i" using U(1) by simp
  then obtain m where m: "link_loop p k (unit_size i) b NULL = Some (p\<lparr>mem := m\<rparr>)" "chain m (Some b) (map (\<lambda>j. b + j * unit_size i) [0..<Suc k])"
    "\<And>x. x < b \<or> b + k * unit_size i < x \<Longrightarrow> m x = mem p x"
    using link_loop_ok [OF 1] by blast
  have "k * unit_size i < SP_SIZE" using le [of k] u by simp
  then have "m x = mem p x" if "x < b \<or> b + SP_SIZE \<le> x" for x using m(3) [of x] that by linarith
  moreover have "mp_link p b (unit_nall i * unit_size i) (unit_size i) NULL = link_loop p k (unit_size i) b NULL"
    using U(1,2,4) u by (simp add: mp_link_def k_def NODE_SIZE_def)
  ultimately show ?thesis using m(1,2) unfolding k fresh_blocks_def by auto
qed

definition small_span :: "nat \<Rightarrow> addr \<Rightarrow> mp_span" where
  "small_span i b = \<lparr>sp_base = b, sp_size = SP_SIZE, sp_fly = unit_fly i, sl_next = NULL, sl_prev = NULL, sl_slot = Some i, nd_free = Some b, nd_nnum = 0\<rparr>"

lemma in_memory_owned:
  assumes "in_memory p a n" "a \<le> x" "x < a + n"
  shows "owned p x"
proof -
  obtain b s where "mapped p b = Some s" "b \<le> a" "a + n \<le> b + s" using assms(1) unfolding in_memory_def by blast
  moreover from this have "b \<le> x" "x < b + s" using assms(2,3) by linarith+
  ultimately show ?thesis unfolding owned_def by blast
qed

text \<open>At the end of a region that is of no span there is no span object.\<close>

lemma end_free:
  assumes g: "geo p OL OP" and b: "mapped p b = Some n" "SP_SIZE \<le> n" "b \<notin> OP" "\<forall>a s. span_at p a = Some s \<longrightarrow> sp_base s \<noteq> b"
  shows "span_at p (b + n - SPAN_SIZE) = None"
proof -
  let ?a = "b + n - SPAN_SIZE"
  have a: "?a + SPAN_SIZE = b + n" "b \<le> ?a" "?a < b + n" using b(2) by (simp_all add: SP_SIZE_def SPAN_SIZE_def)
  show ?thesis
  proof (cases "span_at p ?a")
    case (Some s)
    have A: "span_ok p OL OP ?a s" by (rule geoD(3) [OF g Some])
    have "\<not> sp_fly s"
    proof
      assume "sp_fly s"
      then obtain d where d: "d \<in> OP" "d \<le> ?a" "?a + SPAN_SIZE \<le> d + SP_SIZE" using A object_in_page [of ?a OP] by (auto simp: span_ok_def)
      have "d = b" by (rule mapped_same [OF geoD(2) [OF g] geoD(5) [OF g d(1)] d(2) _ b(1)]) (use a d(3) in \<open>simp_all add: SPAN_SIZE_def\<close>)
      then show False using d(1) b(3) by simp
    qed
    then have e: "?a + SPAN_SIZE = sp_base s + page_up (sp_size s)" "mapped p (sp_base s) = Some (page_up (sp_size s))" "SP_SIZE \<le> sp_size s"
      using A by (simp_all add: span_ok_def)
    have "sp_base s = b"
    proof (rule mapped_same [OF geoD(2) [OF g] e(2) _ _ b(1)])
      show "sp_base s \<le> ?a" using e(1,3) page_up_ge(1) [of "sp_size s"] a(1) by (simp add: SP_SIZE_def SPAN_SIZE_def)
      show "?a < sp_base s + page_up (sp_size s)" using e(1) by (simp add: SPAN_SIZE_def)
    qed (use a in simp_all)
    then show ?thesis using b(4) Some by simp
  qed simp
qed

text \<open>The object of a new span: from the pool, or the end of its region.\<close>

lemma span_object:
  assumes g: "geo p OL OP" and b: "mapped p b = Some n" "SP_SIZE \<le> n" "b \<notin> OP" "\<forall>a s. span_at p a = Some s \<longrightarrow> sp_base s \<noteq> b"
    and os: "os_ok os" and w: "willing os S (Suc k) (mapped p)" "SP_SIZE \<in> S"
  shows "\<exists>p' a OL' OP'. (if f then obj_alloc os p else Some (p, Some (b + n - SPAN_SIZE))) = Some (p', Some a) \<and> geo p' OL' OP' \<and>
    span_at p' = span_at p \<and> span_at p a = None \<and> slots p' = slots p \<and> grows p p' \<and> willing os S k (mapped p') \<and> b \<notin> OP' \<and>
    in_memory p' a SPAN_SIZE \<and> (if f then a \<in> objects OP' - set OL' else a + SPAN_SIZE = b + n)"
proof (cases f)
  case True
  obtain p' a OL' OP' where p': "obj_alloc os p = Some (p', Some a)" "geo p' OL' OP'" "a \<in> objects OP' - set OL'" "span_at p' a = None"
    "span_at p' = span_at p" "slots p' = slots p" "grows p p'" "willing os S k (mapped p')" "\<forall>b \<in> OP'. b \<notin> OP \<longrightarrow> mapped p b = None"
    using obj_alloc_ok [OF g os w] by blast
  obtain d where d: "d \<in> OP'" "d \<le> a" "a + SPAN_SIZE \<le> d + SP_SIZE" using object_in_page [of a OP'] p'(3) by blast
  have "in_memory p' a SPAN_SIZE" by (rule in_memoryI [OF geoD(5) [OF p'(2) d(1)] d(2,3)])
  moreover have "b \<notin> OP'" using p'(9) b(1,3) by force
  ultimately show ?thesis using True p' by (intro exI [of _ p'] exI [of _ a] exI [of _ OL'] exI [of _ OP']) simp
next
  case False
  have a: "b + n - SPAN_SIZE + SPAN_SIZE = b + n" "b \<le> b + n - SPAN_SIZE" using b(2) by (simp_all add: SP_SIZE_def SPAN_SIZE_def)
  moreover have "in_memory p (b + n - SPAN_SIZE) SPAN_SIZE" by (rule in_memoryI [OF b(1) a(2)]) (simp add: a(1))
  ultimately show ?thesis using False g b(3) end_free [OF g b] willing_less [OF w(1)]
    by (intro exI [of _ p] exI [of _ "b + n - SPAN_SIZE"] exI [of _ OL] exI [of _ OP]) (simp add: grows_refl)
qed

lemma owned_grows: "mapped p \<subseteq>\<^sub>m mapped q \<Longrightarrow> owned p x \<Longrightarrow> owned q x"
  unfolding owned_def map_le_def by (metis domI)

lemma map_leD: "M \<subseteq>\<^sub>m N \<Longrightarrow> M b = Some n \<Longrightarrow> N b = Some n"
  unfolding map_le_def by (metis domI)

lemma create_span_ok:
  assumes g: "geo p OL OP" and i: "i < 26" and os: "os_ok os" and w: "willing os S (Suc (Suc (Suc c))) (mapped p)" "SP_SIZE \<in> S" "2 ^ bits1 * 8 \<in> S"
  shows "\<exists>p' a b OL' OP'. create_span os p i = Some (p', Some a) \<and> geo p' OL' OP' \<and> span_at p a = None \<and>
    span_at p' = (span_at p)(a \<mapsto> small_span i b) \<and> chain (mem p') (Some b) (fresh_blocks i b) \<and> slots p' = slots p \<and> grows p p' \<and>
    willing os S c (mapped p')"
proof -
  have sz: "0 < SP_SIZE" by (simp add: SP_SIZE_def)
  obtain b where b: "page_alloc os p SP_SIZE = (p\<lparr>mapped := (mapped p)(b \<mapsto> SP_SIZE)\<rparr>, Some b)" "mapped p b = None"
    "geo (p\<lparr>mapped := (mapped p)(b \<mapsto> SP_SIZE)\<rparr>) OL OP" "willing os S (Suc (Suc c)) ((mapped p)(b \<mapsto> SP_SIZE))"
    using page_alloc_ok [OF g os sz w(1,2)] unfolding page_up_ge(2) by blast
  define p0 where "p0 = p\<lparr>mapped := (mapped p)(b \<mapsto> SP_SIZE)\<rparr>"
  have e0: "mapped p0 = (mapped p)(b \<mapsto> SP_SIZE)" "span_at p0 = span_at p" "mem p0 = mem p" "slots p0 = slots p" by (simp_all add: p0_def)
  have g0: "geo p0 OL OP" using b(3) by (simp add: p0_def)
  have b0: "mapped p0 b = Some SP_SIZE" by (simp add: e0)
  have bOP: "b \<notin> OP" using geoD(5) [OF g] b(2) by auto
  have nb: "\<forall>a s. span_at p0 a = Some s \<longrightarrow> sp_base s \<noteq> b"
    using geoD(3) [OF g] b(2) by (fastforce simp: e0 span_ok_def)
  have w0: "willing os S (Suc (Suc c)) (mapped p0)" using b(4) by (simp add: e0)
  obtain p1 a OL1 OP1 where p1: "(if unit_fly i then obj_alloc os p0 else Some (p0, Some (b + SP_SIZE - SPAN_SIZE))) = Some (p1, Some a)"
    "geo p1 OL1 OP1" "span_at p1 = span_at p0" "span_at p0 a = None" "slots p1 = slots p0" "grows p0 p1" "willing os S (Suc c) (mapped p1)"
    "b \<notin> OP1" "in_memory p1 a SPAN_SIZE" "if unit_fly i then a \<in> objects OP1 - set OL1 else a + SPAN_SIZE = b + SP_SIZE"
    using span_object [where f = "unit_fly i", OF g0 b0 order.refl bOP nb os w0 w(2)] by blast
  have m01: "mapped p0 \<subseteq>\<^sub>m mapped p1" "\<And>x. owned p0 x \<Longrightarrow> mem p1 x = mem p0 x" using p1(6) by (simp_all add: grows_def)
  have b1: "mapped p1 b = Some SP_SIZE" by (rule map_leD [OF m01(1) b0])
  define p2 where "p2 = p1\<lparr>span_at := (span_at p)(a \<mapsto> small_span i b)\<rparr>"
  have "mapped p2 b = Some SP_SIZE" by (simp add: p2_def b1)
  then obtain m where m: "mp_link p2 b (unit_nall i * unit_size i) (unit_size i) NULL = Some (p2\<lparr>mem := m\<rparr>)" "chain m (Some b) (fresh_blocks i b)"
    "\<And>x. x < b \<or> b + SP_SIZE \<le> x \<Longrightarrow> m x = mem p2 x"
    using block_link [OF i] by blast
  define p3 where "p3 = p2\<lparr>mem := m\<rparr>"
  have e3: "span_at p3 = (span_at p)(a \<mapsto> small_span i b)" "mapped p3 = mapped p1" "slots p3 = slots p" "mem p3 = m"
    using p1(5) by (simp_all add: p3_def p2_def e0)
  have g3: "geo (p3\<lparr>span_at := (span_at p3)(a := None)\<rparr>) OL1 OP1"
  proof (rule geo_same [OF p1(2)])
    show "map_option static (span_at (p3\<lparr>span_at := (span_at p3)(a := None)\<rparr>) c) = map_option static (span_at p1 c)" for c
      using p1(3,4) by (simp add: e3 e0)
    show "\<forall>x \<in> set OL1. mem (p3\<lparr>span_at := (span_at p3)(a := None)\<rparr>) x = mem p1 x"
    proof
      fix x assume "x \<in> set OL1"
      then have "x \<in> objects OP1" using geoD(6) [OF p1(2)] by blast
      then obtain d where d: "d \<in> OP1" "d \<le> x" "x + SPAN_SIZE \<le> d + SP_SIZE" using object_in_page by blast
      then have "\<not> (b \<le> x \<and> x < b + SP_SIZE)"
        using mapped_same [OF geoD(2) [OF p1(2)] geoD(5) [OF p1(2) d(1)] d(2) _ b1] p1(8) by (auto simp: SPAN_SIZE_def)
      then show "mem (p3\<lparr>span_at := (span_at p3)(a := None)\<rparr>) x = mem p1 x" using m(3) [of x] by (auto simp: p3_def p2_def)
    qed
    show "same_slots p1 (p3\<lparr>span_at := (span_at p3)(a := None)\<rparr>)" by (rule same_slots_refl) (simp add: p3_def p2_def)
  qed (simp_all add: p3_def p2_def)
  have a3: "span_at p3 a = Some (small_span i b)" by (simp add: e3)
  have w3: "willing os S (Suc c) (mapped p3)" using p1(7) by (simp add: e3)
  have nb3: "\<forall>c t. c \<noteq> a \<longrightarrow> span_at p3 c = Some t \<longrightarrow> sp_base t \<noteq> sp_base (small_span i b)"
    using nb by (simp add: e3 e0 small_span_def)
  have c: "mapped p3 (sp_base (small_span i b)) = Some (page_up (sp_size (small_span i b)))" "SP_SIZE \<le> sp_size (small_span i b)"
    "sp_base (small_span i b) \<notin> OP1"
    "if sp_fly (small_span i b) then a \<in> objects OP1 - set OL1 else a + SPAN_SIZE = sp_base (small_span i b) + page_up (sp_size (small_span i b))"
    "case sl_slot (small_span i b) of None \<Rightarrow> SP_SIZE < sp_size (small_span i b) \<and> (sp_fly (small_span i b) \<or> page_up (sp_size (small_span i b)) = sp_size (small_span i b) + SPAN_SIZE) | Some j \<Rightarrow> j < 26 \<and> sp_size (small_span i b) = SP_SIZE \<and> sp_fly (small_span i b) = unit_fly j"
    using b1 p1(8,10) i by (simp_all only: small_span_def mp_span.select_convs e3 page_up_ge(2) option.case simp_thms order.refl not_False_eq_True)
  obtain p' where p': "insert_span os p3 a = Some p'" "geo p' OL1 OP1" "span_at p' = span_at p3" "mem p' = mem p3" "slots p' = slots p3"
    "mapped p3 \<subseteq>\<^sub>m mapped p'" "willing os S c (mapped p')"
    using insert_span_ok [OF g3 a3 os w3 w(3) c nb3] by blast
  have run: "create_span os p i = Some (p', Some a)"
  proof -
    note sf = slot_fields [OF geoD(1) [OF g] i]
    have n: "new_span p1 a (small_span i b) = Some p2" using p1(3,9) by (simp add: new_span_def p2_def e0)
    show ?thesis
      unfolding create_span_def Let_def sf b(1) p0_def [symmetric] prod.case option.case p1(1) [unfolded p0_def [symmetric]]
      using n m(1) p'(1) by (simp add: p3_def small_span_def)
  qed
  have "grows p p'"
  proof -
    have "mapped p \<subseteq>\<^sub>m mapped p'"
      using map_le_upd [of "mapped p" b SP_SIZE] b(2) m01(1) p'(6) by (metis e0(1) e3(2) map_le_trans)
    moreover have "mem p' x = mem p x" if x: "owned p x" for x
    proof -
      have "\<not> (b \<le> x \<and> x < b + SP_SIZE)" using region_new [OF geoD(2) [OF g0] e0(1) b(2), of x] x by blast
      then have "m x = mem p2 x" using m(3) [of x] by linarith
      moreover have "owned p0 x" by (rule owned_grows [OF _ x]) (simp add: e0 map_le_upd b(2))
      ultimately show ?thesis using m01(2) [of x] by (simp add: p'(4) e3 p2_def e0)
    qed
    ultimately show ?thesis by (simp add: grows_def)
  qed
  moreover have "span_at p a = None" using p1(4) by (simp add: e0)
  ultimately show ?thesis using run p'(2-5,7) m(2) e3 by (intro exI [of _ p'] exI [of _ a] exI [of _ b] exI [of _ OL1] exI [of _ OP1]) simp
qed

lemma others_new:
  assumes a: "span_at p a = None" "span_at p' = (span_at p)(a \<mapsto> s)"
  shows "{x. \<exists>b t. b \<noteq> a \<and> span_at p' b = Some t \<and> x \<in> given1 t (FL b)} = given p FL"
proof -
  have "(b \<noteq> a \<and> span_at p' b = Some t) = (span_at p b = Some t)" for b t using a by (cases "b = a") simp_all
  then have "(b \<noteq> a \<and> span_at p' b = Some t \<and> x \<in> given1 t (FL b)) = (span_at p b = Some t \<and> x \<in> given1 t (FL b))" for x b t by blast
  then show ?thesis unfolding set_eq_iff given_iff mem_Collect_eq by presburger
qed

text \<open>A slot without spans gets one.\<close>

lemma head_span_ok:
  assumes I: "pool_inv p FL DL OL OP" and i: "i < 26" and h: "sp_head (slots p ! i) = NULL"
    and os: "os_ok os" and w: "willing os S (Suc (Suc (Suc c))) (mapped p)" "SP_SIZE \<in> S" "2 ^ bits1 * 8 \<in> S"
  shows "\<exists>p' a FL' DL' OL' OP'. head_span os p i = Some (p', Some a) \<and> sp_head (slots p' ! i) = Some a \<and> pool_inv p' FL' DL' OL' OP' \<and>
    given p' FL' = given p FL \<and> grows p p' \<and> willing os S c (mapped p')"
proof -
  have g: "geo p OL OP" and f: "frees p FL" and l: "lists p DL" using I by (simp_all add: pool_inv_def)
  have len: "length (slots p) = 26" using geoD(1) [OF g] by (simp add: slots_ok_def)
  obtain p1 a b OL' OP' where p1: "create_span os p i = Some (p1, Some a)" "geo p1 OL' OP'" "span_at p a = None"
    "span_at p1 = (span_at p)(a \<mapsto> small_span i b)" "chain (mem p1) (Some b) (fresh_blocks i b)" "slots p1 = slots p" "grows p p1"
    "willing os S c (mapped p1)"
    using create_span_ok [OF g i os w] by blast
  let ?p = "set_head p1 i (Some a)" and ?F = "fresh_blocks i b"
  have s: "sl_slot (small_span i b) = Some i" "sp_base (small_span i b) = b" "nd_free (small_span i b) = Some b" "nd_nnum (small_span i b) = 0"
    "sl_next (small_span i b) = NULL" "sl_prev (small_span i b) = NULL"
    by (simp_all add: small_span_def)
  have g': "geo ?p OL' OP'" by (rule geo_same [OF p1(2)]) (simp_all add: set_head_same i len p1(6))
  have own: "mem p1 x = mem p x" if "owned p x" for x using p1(7) that by (simp add: grows_def)
  have f': "frees ?p (FL(a := ?F))"
  proof (rule frees_upd [OF f])
    show "\<exists>t. span_at p c = Some t \<and> core t = core t'" if "c \<noteq> a" "span_at ?p c = Some t'" for c t' using that by (simp add: p1(4))
    show "mem ?p x = mem p x" if c: "c \<noteq> a" "span_at p c = Some t" "sl_slot t = Some j" "x \<in> set (FL c)" for c t j x
    proof -
      have "in_memory p x NODE_SIZE" using block_in_memory [OF g c(2,3)] freesD(3) [OF f c(2,3)] c(4) by blast
      then have "owned p x" by (rule in_memory_owned) (simp_all add: NODE_SIZE_def)
      then show ?thesis using own by simp
    qed
    show "chain (mem ?p) (nd_free t) ?F \<and> distinct ?F \<and> set ?F \<subseteq> blocks j (sp_base t) \<and> nd_nnum t + length ?F = unit_nall j"
      if "span_at ?p a = Some t" "sl_slot t = Some j" for t j
      using that s p1(5) fresh_blocks_set fresh_blocks_distinct [OF i] by (auto simp: p1(4))
  qed
  have L: "DL i = []" using listsD(2) [OF l i] h by (cases "DL i") auto
  have l': "lists ?p (DL(i := [a]))"
  proof (rule lists_upd [OF l])
    show "sp_head (slots ?p ! j) = sp_head (slots p ! j)" if "j < 26" "j \<noteq> i" for j using that i len by (simp add: set_head_get p1(6))
    show "near (Some i) p ?p c" if "span_at ?p c \<noteq> span_at p c" for c
      using that s(1) p1(3) by (cases "c = a") (simp_all add: near_def p1(4))
    have "partial p i = {}" using listsD(3) [OF l i] L by simp
    moreover have "partial ?p i = (partial p i - {a}) \<union> {a}"
      using partial_upd [of a ?p p "small_span i b" i] s p1(4) by simp
    ultimately show "distinct [a] \<and> dll (span_at ?p) NULL (sp_head (slots ?p ! i)) [a] \<and> set [a] = partial ?p i"
      using s i len by (simp add: set_head_get p1(4,6))
  qed
  have "given ?p (FL(a := ?F)) = given p FL"
  proof -
    have s': "span_at ?p a = Some (small_span i b)" by (simp add: p1(4))
    have none: "given1 (small_span i b) ((FL(a := ?F)) a) = {}" using s fresh_blocks_set(1) by (simp add: given1_def)
    have "given ?p (FL(a := ?F)) = given p (FL(a := ?F))"
      unfolding given_split [OF s', of "FL(a := ?F)"] none using others_new [OF p1(3), of ?p "small_span i b" "FL(a := ?F)"] by (simp add: p1(4))
    also have "\<dots> = given p FL"
    proof -
      have "(span_at p c = Some t \<and> x \<in> given1 t ((FL(a := ?F)) c)) = (span_at p c = Some t \<and> x \<in> given1 t (FL c))" for c t x
        using p1(3) by (cases "c = a") simp_all
      then show ?thesis unfolding set_eq_iff given_iff by presburger
    qed
    finally show ?thesis .
  qed
  moreover have "head_span os p i = Some (?p, Some a)" using h p1(1) by (simp add: head_span_def)
  moreover have "grows p ?p" using p1(7) by (simp add: grows_def)
  ultimately show ?thesis using g' f' l' i len p1(8)
    by (intro exI [of _ ?p] exI [of _ a] exI [of _ "FL(a := ?F)"] exI [of _ "DL(i := [a])"] exI [of _ OL'] exI [of _ OP'])
      (simp add: pool_inv_def set_head_get p1(6))
qed

lemma alloc_small_ok:
  assumes I: "pool_inv p FL DL OL OP" and i: "i < 26" and n: "n \<le> unit_size i"
    and os: "os_ok os" and w: "willing os S (Suc (Suc (Suc c))) (mapped p)" "SP_SIZE \<in> S" "2 ^ bits1 * 8 \<in> S"
  shows "\<exists>p' q FL' DL' OL' OP'. alloc_small os p n i = Some (p', Some q) \<and> pool_inv p' FL' DL' OL' OP' \<and>
    given p' FL' = insert (q, unit_size i) (given p FL) \<and> (q, unit_size i) \<notin> given p FL \<and> grows p p' \<and> willing os S c (mapped p')"
proof (cases "sp_head (slots p ! i)")
  case (Some a)
  then have "sp_head (slots p ! i) \<noteq> NULL" by simp
  then obtain p' q FL' DL' where "alloc_small os p n i = Some (p', Some q)" "pool_inv p' FL' DL' OL OP"
    "given p' FL' = insert (q, unit_size i) (given p FL)" "(q, unit_size i) \<notin> given p FL" "mem p' = mem p" "mapped p' = mapped p"
    using pop_ok [OF I i n] by blast
  moreover from this have "grows p p'" by (simp add: grows_def)
  moreover have "willing os S c (mapped p)" by (rule willing_less [OF willing_less [OF willing_less [OF w(1)]]])
  ultimately show ?thesis by (metis (no_types, lifting))
next
  case None
  obtain p1 a FL1 DL1 OL1 OP1 where p1: "head_span os p i = Some (p1, Some a)" "sp_head (slots p1 ! i) = Some a" "pool_inv p1 FL1 DL1 OL1 OP1"
    "given p1 FL1 = given p FL" "grows p p1" "willing os S c (mapped p1)"
    using head_span_ok [OF I i None os w] by blast
  have "sp_head (slots p1 ! i) \<noteq> NULL" using p1(2) by simp
  then obtain p' q FL' DL' where p': "alloc_small os p1 n i = Some (p', Some q)" "pool_inv p' FL' DL' OL1 OP1"
    "given p' FL' = insert (q, unit_size i) (given p1 FL1)" "(q, unit_size i) \<notin> given p1 FL1" "mem p' = mem p1" "mapped p' = mapped p1"
    using pop_ok [OF p1(3) i n] by blast
  have "alloc_small os p n i = alloc_small os p1 n i"
  proof -
    have h: "head_span os p1 i = Some (p1, Some a)" using p1(2) by (simp add: head_span_def)
    have sz: "nd_size (slots q ! i) = unit_size i" if "pool_inv q A B C D" for q A B C D
      using that slot_fields(1) [OF geoD(1) i] by (auto simp: pool_inv_def)
    show ?thesis unfolding alloc_small_def p1(1) h sz [OF I] sz [OF p1(3)] ..
  qed
  moreover have "grows p p'" using p1(5) p'(5,6) by (simp add: grows_def)
  moreover have "willing os S c (mapped p')" using p1(6) p'(6) by simp
  ultimately show ?thesis using p'(1-4) p1(4) by (metis (no_types, lifting))
qed

subsection \<open>Large blocks\<close>

lemma page_up_mono: "n \<le> m \<Longrightarrow> page_up n \<le> page_up m"
  by (simp add: page_up_def div_le_mono)

lemma page_up_idem: "page_up (page_up n) = page_up n"
proof -
  have "(k * 4096 + 4095) div 4096 = k" for k :: nat by simp
  then show ?thesis by (simp add: page_up_def PG_SIZE_def)
qed

lemma page_up_less: "page_up n < n + PG_SIZE"
proof -
  have "(n + 4095) div 4096 * 4096 \<le> n + 4095" by simp
  then show ?thesis by (simp add: page_up_def PG_SIZE_def)
qed

lemma enter_span:
  assumes g: "geo p OL OP" and a: "span_at p a = None" "in_memory p a SPAN_SIZE" and os: "os_ok os"
    and w: "willing os S (Suc c) (mapped p)" "2 ^ bits1 * 8 \<in> S"
    and s: "mapped p (sp_base s) = Some (page_up (sp_size s))" "SP_SIZE \<le> sp_size s" "sp_base s \<notin> OP"
      "if sp_fly s then a \<in> objects OP - set OL else a + SPAN_SIZE = sp_base s + page_up (sp_size s)"
      "case sl_slot s of None \<Rightarrow> SP_SIZE < sp_size s \<and> (sp_fly s \<or> page_up (sp_size s) = sp_size s + SPAN_SIZE) | Some i \<Rightarrow> i < 26 \<and> sp_size s = SP_SIZE \<and> sp_fly s = unit_fly i"
    and new: "\<forall>b t. span_at p b = Some t \<longrightarrow> sp_base t \<noteq> sp_base s"
  shows "\<exists>p'. do { p \<leftarrow> new_span p a s; insert_span os p a } = Some p' \<and> geo p' OL OP \<and> span_at p' = (span_at p)(a \<mapsto> s) \<and> slots p' = slots p \<and> grows p p' \<and>
    willing os S c (mapped p')"
proof -
  let ?p = "p\<lparr>span_at := (span_at p)(a \<mapsto> s)\<rparr>"
  have n: "new_span p a s = Some ?p" using a(2) by (simp add: new_span_def)
  have g': "geo (?p\<lparr>span_at := (span_at ?p)(a := None)\<rparr>) OL OP"
    by (rule geo_same [OF g]) (simp_all add: same_slots_refl a(1))
  have s': "mapped ?p (sp_base s) = Some (page_up (sp_size s))" "span_at ?p a = Some s" "willing os S (Suc c) (mapped ?p)"
    using s(1) w(1) by simp_all
  have new': "\<forall>b t. b \<noteq> a \<longrightarrow> span_at ?p b = Some t \<longrightarrow> sp_base t \<noteq> sp_base s" using new by simp
  obtain p' where "insert_span os ?p a = Some p'" "geo p' OL OP" "span_at p' = span_at ?p" "mem p' = mem ?p" "slots p' = slots ?p"
    "mapped ?p \<subseteq>\<^sub>m mapped p'" "willing os S c (mapped p')"
    using insert_span_ok [OF g' s'(2) os s'(3) w(2) s'(1) s(2-5) new'] by blast
  then show ?thesis unfolding n by (intro exI [of _ p']) (simp add: grows_def)
qed

text \<open>The pool after a span without slot has been entered at \<open>a\<close>.\<close>

lemma large_inv:
  assumes I: "pool_inv p FL DL OL OP" and g': "geo p' OL' OP'" and a: "span_at p a = None" "span_at p' = (span_at p)(a \<mapsto> s)" "sl_slot s = None"
    and sl: "slots p' = slots p" and gr: "grows p p'"
  shows "pool_inv p' FL DL OL' OP'" "given p' FL = insert (sp_base s, sp_size s) (given p FL)" "(sp_base s, sp_size s) \<notin> given p FL"
proof -
  have g: "geo p OL OP" and f: "frees p FL" and l: "lists p DL" using I by (simp_all add: pool_inv_def)
  have "frees p' (FL(a := FL a))"
  proof (rule frees_upd [OF f])
    show "\<exists>t. span_at p c = Some t \<and> core t = core t'" if "c \<noteq> a" "span_at p' c = Some t'" for c t' using that by (simp add: a(2))
    show "mem p' x = mem p x" if c: "c \<noteq> a" "span_at p c = Some t" "sl_slot t = Some j" "x \<in> set (FL c)" for c t j x
    proof -
      have "in_memory p x NODE_SIZE" using block_in_memory [OF g c(2,3)] freesD(3) [OF f c(2,3)] c(4) by blast
      then have "owned p x" by (rule in_memory_owned) (simp_all add: NODE_SIZE_def)
      then show ?thesis using gr by (simp add: grows_def)
    qed
  qed (use a in simp_all)
  moreover have "lists p' DL"
  proof (rule lists_keep [OF l])
    show "near None p p' c" if "span_at p' c \<noteq> span_at p c" for c using that a by (cases "c = a") (simp_all add: near_def)
  qed (simp add: sl)
  ultimately show "pool_inv p' FL DL OL' OP'" using g' by (simp add: pool_inv_def)
  have one: "given1 s (FL a) = {(sp_base s, sp_size s)}" using a(3) by (simp add: given1_def)
  have s': "span_at p' a = Some s" using a(2) by simp
  have oth: "{x. \<exists>b t. b \<noteq> a \<and> span_at p' b = Some t \<and> x \<in> given1 t (FL b)} = given p FL"
    by (rule others_new [OF a(1,2)])
  show "given p' FL = insert (sp_base s, sp_size s) (given p FL)"
    unfolding given_split [OF s', of FL] one oth by blast
  show "(sp_base s, sp_size s) \<notin> given p FL"
    using given_minus [where FL = FL, OF g' s' one] unfolding oth by blast
qed

lemma large_size:
  assumes "n \<le> 2 ^ 63"
  shows "(n + (PG_SIZE - 1)) mod 2 ^ 64 div PG_SIZE * PG_SIZE = page_up n" "(page_up n + 2 ^ 64 - n) mod 2 ^ 64 = page_up n - n"
proof -
  have "n + (PG_SIZE - 1) < 2 ^ 64" using assms by (simp add: PG_SIZE_def)
  then show "(n + (PG_SIZE - 1)) mod 2 ^ 64 div PG_SIZE * PG_SIZE = page_up n" by (simp only: mod_less page_up_def)
  have "page_up n + 2 ^ 64 - n = (page_up n - n) + 2 ^ 64" using page_up_ge(1) [of n] by simp
  moreover have "page_up n - n < 2 ^ 64" using page_up_less [of n] by (simp add: PG_SIZE_def)
  ultimately show "(page_up n + 2 ^ 64 - n) mod 2 ^ 64 = page_up n - n" by (simp only: mod_add_self2 mod_less)
qed

lemma alloc_large_ok:
  assumes I: "pool_inv p FL DL OL OP" and n: "SP_SIZE < n" "n \<le> 2 ^ 63" and os: "os_ok os"
    and w: "willing os S (Suc (Suc (Suc c))) (mapped p)" "SP_SIZE \<in> S" "2 ^ bits1 * 8 \<in> S" "page_up n \<in> S"
  shows "\<exists>p' q m OL' OP'. alloc_large os p n = Some (p', Some q) \<and> n \<le> m \<and> pool_inv p' FL DL OL' OP' \<and>
    given p' FL = insert (q, m) (given p FL) \<and> (q, m) \<notin> given p FL \<and> grows p p' \<and> willing os S c (mapped p')"
proof -
  have g: "geo p OL OP" using I by (simp add: pool_inv_def)
  let ?z = "page_up n"
  have z: "n \<le> ?z" "0 < ?z" "SP_SIZE \<le> ?z" using page_up_ge(1) [of n] n(1) by linarith+
  obtain b where b: "page_alloc os p ?z = (p\<lparr>mapped := (mapped p)(b \<mapsto> ?z)\<rparr>, Some b)" "mapped p b = None"
    "geo (p\<lparr>mapped := (mapped p)(b \<mapsto> ?z)\<rparr>) OL OP" "willing os S (Suc (Suc c)) ((mapped p)(b \<mapsto> ?z))"
    using page_alloc_ok [OF g os z(2) w(1,4)] unfolding page_up_idem by blast
  define p0 where "p0 = p\<lparr>mapped := (mapped p)(b \<mapsto> ?z)\<rparr>"
  define f where "f \<longleftrightarrow> \<not> SPAN_SIZE \<le> ?z - n"
  have e0: "mapped p0 = (mapped p)(b \<mapsto> ?z)" "span_at p0 = span_at p" "mem p0 = mem p" "slots p0 = slots p" by (simp_all add: p0_def)
  have g0: "geo p0 OL OP" using b(3) by (simp add: p0_def)
  have b0: "mapped p0 b = Some ?z" by (simp add: e0)
  have bOP: "b \<notin> OP" using geoD(5) [OF g] b(2) by auto
  have nb: "\<forall>a s. span_at p0 a = Some s \<longrightarrow> sp_base s \<noteq> b"
    using geoD(3) [OF g] b(2) by (fastforce simp: e0 span_ok_def)
  have w0: "willing os S (Suc (Suc c)) (mapped p0)" using b(4) by (simp add: e0)
  obtain p1 a OL1 OP1 where p1: "(if f then obj_alloc os p0 else Some (p0, Some (b + ?z - SPAN_SIZE))) = Some (p1, Some a)"
    "geo p1 OL1 OP1" "span_at p1 = span_at p0" "span_at p0 a = None" "slots p1 = slots p0" "grows p0 p1" "willing os S (Suc c) (mapped p1)"
    "b \<notin> OP1" "in_memory p1 a SPAN_SIZE" "if f then a \<in> objects OP1 - set OL1 else a + SPAN_SIZE = b + ?z"
    using span_object [where f = f, OF g0 b0 z(3) bOP nb os w0 w(2)] by blast
  define s where "s = \<lparr>sp_base = b, sp_size = (if f then ?z else ?z - SPAN_SIZE), sp_fly = f, sl_next = NULL, sl_prev = NULL,
    sl_slot = None, nd_free = NULL, nd_nnum = 0\<rparr>"
  have sz: "n \<le> sp_size s" using z(1) by (auto simp: s_def f_def)
  have up: "page_up (sp_size s) = ?z"
  proof (rule antisym)
    show "?z \<le> page_up (sp_size s)" by (rule page_up_mono [OF sz])
    have "sp_size s \<le> ?z" by (simp add: s_def)
    then show "page_up (sp_size s) \<le> ?z" using page_up_mono [of "sp_size s" ?z] page_up_idem by simp
  qed
  have b1: "mapped p1 b = Some ?z" using p1(6) b0 by (auto simp: grows_def dest: map_leD)
  have s: "mapped p1 (sp_base s) = Some (page_up (sp_size s))" "SP_SIZE \<le> sp_size s" "sp_base s \<notin> OP1"
    "if sp_fly s then a \<in> objects OP1 - set OL1 else a + SPAN_SIZE = sp_base s + page_up (sp_size s)"
    "case sl_slot s of None \<Rightarrow> SP_SIZE < sp_size s \<and> (sp_fly s \<or> page_up (sp_size s) = sp_size s + SPAN_SIZE) | Some i \<Rightarrow> i < 26 \<and> sp_size s = SP_SIZE \<and> sp_fly s = unit_fly i"
    using p1(8,10) b1 sz n(1) unfolding up by (simp_all add: s_def split: if_splits)
  have nb1: "\<forall>c t. span_at p1 c = Some t \<longrightarrow> sp_base t \<noteq> sp_base s" using nb p1(3) by (simp add: s_def)
  have a1: "span_at p1 a = None" using p1(3,4) by simp
  obtain p' where p': "do { p \<leftarrow> new_span p1 a s; insert_span os p a } = Some p'" "geo p' OL1 OP1" "span_at p' = (span_at p1)(a \<mapsto> s)"
    "slots p' = slots p1" "grows p1 p'" "willing os S c (mapped p')"
    using enter_span [OF p1(2) a1 p1(9) os p1(7) w(3) s nb1] by blast
  obtain p2 where p2: "new_span p1 a s = Some p2" "insert_span os p2 a = Some p'" using p'(1) by (auto split: bind_splits)
  have bz: "b + ?z \<le> 2 ^ 64" using geoD(2) [OF g0] b0 unfolding mapped_ok_def by blast
  have run: "alloc_large os p n = Some (p', Some b)"
  proof (cases f)
    case True
    then have "\<not> SPAN_SIZE \<le> ?z - n" by (simp add: f_def)
    then show ?thesis
      using p1(1) p2 True unfolding alloc_large_def Let_def large_size [OF n(2)] b(1) prod.case p0_def [symmetric]
      by (simp add: s_def)
  next
    case False
    then have "SPAN_SIZE \<le> ?z - n" by (simp add: f_def)
    moreover have "(b + ?z + 2 ^ 64 - SPAN_SIZE) mod 2 ^ 64 = a"
    proof -
      have "a + SPAN_SIZE = b + ?z" using p1(10) False by simp
      then have "b + ?z + 2 ^ 64 - SPAN_SIZE = a + 2 ^ 64" "a < 2 ^ 64" using bz by (simp_all add: SPAN_SIZE_def)
      then show ?thesis by (simp only: mod_add_self2 mod_less)
    qed
    moreover have "p1 = p0" using p1(1) False by simp
    ultimately show ?thesis
      using p2 False unfolding alloc_large_def Let_def large_size [OF n(2)] b(1) prod.case p0_def [symmetric]
      by (simp add: s_def)
  qed
  have gr0: "grows p p0" by (simp add: grows_def e0 map_le_upd b(2))
  have gr: "grows p p'" by (rule grows_trans [OF gr0 grows_trans [OF p1(6) p'(5)]])
  have fin: "span_at p a = None" "span_at p' = (span_at p)(a \<mapsto> s)" "sl_slot s = None" "slots p' = slots p"
    using p1(3-5) p'(3,4) by (simp_all add: e0 s_def)
  note L = large_inv [OF I p'(2) fin gr]
  have "sp_base s = b" by (simp add: s_def)
  then show ?thesis using run L gr sz p'(6) by auto
qed

subsection \<open>Both\<close>

lemma alloc_ok:
  assumes I: "pool_inv p FL DL OL OP" and n: "n \<le> 2 ^ 63" and os: "os_ok os"
    and w: "willing os S (c + 3) (mapped p)" "{SP_SIZE, 2 ^ bits1 * 8, page_up n} \<subseteq> S"
  shows "\<exists>p' q m FL' DL' OL' OP'. mp_alloc os p n = Some (p', Some q) \<and> n \<le> m \<and> pool_inv p' FL' DL' OL' OP' \<and>
    given p' FL' = insert (q, m) (given p FL) \<and> (q, m) \<notin> given p FL \<and> grows p p' \<and> willing os S c (mapped p')"
proof -
  have w': "willing os S (Suc (Suc (Suc c))) (mapped p)" using w(1) by (simp only: numeral_3_eq_3 add_Suc_right add_0_right)
  have S: "SP_SIZE \<in> S" "2 ^ bits1 * 8 \<in> S" "page_up n \<in> S" using w(2) by simp_all
  show ?thesis
  proof (cases "get_slot n")
    case None
    then have "SP_SIZE < n" by (simp add: get_slot_None)
    then obtain p' q m OL' OP' where "alloc_large os p n = Some (p', Some q)" "n \<le> m" "pool_inv p' FL DL OL' OP'"
      "given p' FL = insert (q, m) (given p FL)" "(q, m) \<notin> given p FL" "grows p p'" "willing os S c (mapped p')"
      using alloc_large_ok [OF I _ n os w' S] by auto
    moreover have "mp_alloc os p n = alloc_large os p n" using None by (simp add: mp_alloc_def)
    ultimately show ?thesis by metis
  next
    case (Some i)
    have i: "i < 26" "n \<le> unit_size i" using get_slot_fits [OF Some] by simp_all
    obtain p' q FL' DL' OL' OP' where "alloc_small os p n i = Some (p', Some q)" "pool_inv p' FL' DL' OL' OP'"
      "given p' FL' = insert (q, unit_size i) (given p FL)" "(q, unit_size i) \<notin> given p FL" "grows p p'" "willing os S c (mapped p')"
      using alloc_small_ok [OF I i os w' S(1,2)] by auto
    moreover have "mp_alloc os p n = alloc_small os p n i" using Some by (simp add: mp_alloc_def)
    ultimately show ?thesis using i(2) by metis
  qed
qed

end
