(* ===== verification/Mempool_Correct.thy ===== *)
theory Mempool_Correct
  imports Mempool_Alloc
begin

text \<open>
  The memory pool as its users see it: \<open>gives_out p G\<close> says that the pool is in order and that the
  blocks \<open>G\<close>, addresses with sizes, are given out. Its start, writing into a block, \<open>realloc\<close> and
  addresses that are not of the pool.
\<close>

lemma gives_outI: "pool_inv p FL DL OL OP \<Longrightarrow> G = given p FL \<Longrightarrow> gives_out p G"
  unfolding gives_out_def by blast

subsection \<open>The start\<close>

lemma empty_geo:
  "geo \<lparr>mem = \<lambda>_. NULL, mapped = Map.empty, span_at = Map.empty, tables = Map.empty, obj_free = NULL, pg_list = NULL,
      slots = map slot_init FixAllocUnits\<rparr> [] {}"
proof -
  have "(slot_init nd)\<lparr>sp_head := NULL\<rparr> = slot_init nd" for nd by (simp add: slot_init_def Let_def)
  then show ?thesis by (simp add: geo_def slots_ok_def mapped_ok_def bucket_get_def objects_def length_units)
qed

lemma mp_init_ok:
  assumes os: "os_ok os" and w: "willing os {SP_SIZE} 1 Map.empty"
  shows "\<exists>p FL DL OL OP b. mp_init os = Some p \<and> pool_inv p FL DL OL OP \<and> given p FL = {} \<and> span_at p = Map.empty \<and> mapped p = [b \<mapsto> SP_SIZE] \<and> os Map.empty SP_SIZE = Some b"
proof -
  let ?p = "\<lparr>mem = \<lambda>_. NULL, mapped = Map.empty, span_at = Map.empty, tables = Map.empty, obj_free = NULL, pg_list = NULL,
      slots = map slot_init FixAllocUnits\<rparr>"
  have w': "willing os {SP_SIZE} (Suc 0) (mapped ?p)" using w by simp
  obtain p b where p: "obj_alloc_batch os ?p = Some p" "geo p (page_objects b) (insert b {})" "mapped p = (mapped ?p)(b \<mapsto> SP_SIZE)"
    "span_at p = span_at ?p" "slots p = slots ?p" "os Map.empty SP_SIZE = Some b"
    using obj_batch_ok [OF empty_geo os w'] by auto
  have "sp_head (slots p ! i) = NULL" if "i < 26" for i using that by (simp add: p(5) length_units slot_init_def Let_def)
  then have "lists p (\<lambda>_. [])" using p(4) by (simp add: lists_def partial_def)
  moreover have "frees p (\<lambda>_. [])" using p(4) by (simp add: frees_def)
  moreover have "given p (\<lambda>_. []) = {}" using p(4) by (simp add: given_def)
  ultimately show ?thesis using p(1-4,6) by (auto simp: mp_init_def pool_inv_def)
qed

subsection \<open>Writing into a block that is given out\<close>

lemma free_not_given:
  assumes g: "geo p OL OP" and f: "frees p FL" and r: "(r, k) \<in> given p FL" and a: "span_at p a = Some s" "sl_slot s = Some i"
    and x: "x \<in> set (FL a)"
  shows "x < r \<or> r + k \<le> x"
proof -
  obtain b t where b: "span_at p b = Some t" "(r, k) \<in> given1 t (FL b)" using r unfolding given_iff by blast
  note B = given1_inside [OF g b]
  have S: "i < 26" "sp_size s = SP_SIZE" using span_slot [OF g a] by simp_all
  have xb: "x \<in> blocks i (sp_base s)" using freesD(3) [OF f a] x by blast
  note X = block_bounds(1,5) [OF S(1) xb]
  show ?thesis
  proof (cases "b = a")
    case False
    show ?thesis
      using spans_apart(2) [OF g a(1) b(1)] False B(1,2) X page_up_ge(1) [of "sp_size t"] by (auto simp: S(2) page_up_ge(2))
  next
    case True
    then have st: "t = s" using a(1) b(1) by simp
    then have r: "r \<in> blocks i (sp_base s)" "r \<noteq> x" "k = unit_size i" using b(2) a(2) x True by (auto simp: given1_def)
    obtain m n where mn: "r = sp_base s + m * unit_size i" "x = sp_base s + n * unit_size i" using r(1) xb by (auto simp: blocks_def)
    then have "m < n \<or> n < m" using r(2) by (metis linorder_neqE_nat)
    then show ?thesis
    proof
      assume "m < n"
      then have "Suc m * unit_size i \<le> n * unit_size i" by (intro mult_le_mono1) simp
      then show ?thesis by (simp add: mn r(3))
    next
      assume "n < m"
      then have "n * unit_size i < m * unit_size i" using units(1) [OF S(1)] by simp
      then show ?thesis by (simp add: mn)
    qed
  qed
qed

lemma write_ok:
  assumes I: "pool_inv p FL DL OL OP" and r: "(r, k) \<in> given p FL" and m: "\<forall>x. x < r \<or> r + k \<le> x \<longrightarrow> m x = mem p x"
  shows "pool_inv (p\<lparr>mem := m\<rparr>) FL DL OL OP" "given (p\<lparr>mem := m\<rparr>) FL = given p FL"
proof -
  have g: "geo p OL OP" and f: "frees p FL" and l: "lists p DL" using I by (simp_all add: pool_inv_def)
  have g': "geo (p\<lparr>mem := m\<rparr>) OL OP"
  proof (rule geo_same [OF g])
    show "\<forall>b \<in> set OL. mem (p\<lparr>mem := m\<rparr>) b = mem p b"
    proof
      fix b assume "b \<in> set OL"
      then have "b \<in> objects OP" using geoD(6) [OF g] by blast
      then have "b < r \<or> r + k \<le> b" using given_not_object [OF g r, of b] by (meson not_le)
      then show "mem (p\<lparr>mem := m\<rparr>) b = mem p b" using m by auto
    qed
  qed (simp_all add: same_slots_refl)
  have "frees (p\<lparr>mem := m\<rparr>) FL"
    unfolding frees_def
  proof (intro allI impI)
    fix a s i assume a: "span_at (p\<lparr>mem := m\<rparr>) a = Some s" "sl_slot s = Some i"
    then have a': "span_at p a = Some s" by simp
    have "\<forall>x \<in> set (FL a). m x = mem p x" using free_not_given [OF g f r a' a(2)] m by blast
    then have "chain m (nd_free s) (FL a)" using chain_cong [OF freesD(1) [OF f a' a(2)]] by blast
    then show "chain (mem (p\<lparr>mem := m\<rparr>)) (nd_free s) (FL a) \<and> distinct (FL a) \<and> set (FL a) \<subseteq> blocks i (sp_base s) \<and>
        nd_nnum s + length (FL a) = unit_nall i"
      using freesD [OF f a' a(2)] by simp
  qed
  moreover have "lists (p\<lparr>mem := m\<rparr>) DL" by (rule lists_keep [OF l]) simp_all
  ultimately show "pool_inv (p\<lparr>mem := m\<rparr>) FL DL OL OP" using g' by (simp add: pool_inv_def)
  show "given (p\<lparr>mem := m\<rparr>) FL = given p FL" by (simp add: given_def)
qed

subsection \<open>Addresses that are not of the pool\<close>

lemma find_bucket_foreign:
  assumes g: "geo p OL OP" and q: "q < 2 ^ 64" and f: "\<forall>a s. span_at p a = Some s \<longrightarrow> q < sp_base s \<or> sp_base s + sp_size s \<le> q"
  shows "find_bucket p q = Some None"
proof (cases "tables p (q div SP_SIZE div 2 ^ bits1)")
  case (Some tb)
  let ?k = "q div SP_SIZE"
  have here: "(case bucket_get p ?k of None \<Rightarrow> Some False
      | Some a \<Rightarrow> do { s \<leftarrow> span_at p a;
           if sp_base s \<le> q then do { wassert (q - sp_base s < sp_size s); Some True } else Some False }) = Some False"
  proof (cases "bucket_get p ?k")
    case (Some a)
    obtain s where s: "span_at p a = Some s" "sp_base s div SP_SIZE = ?k" using geoD(4) [OF g Some] by blast
    have "q < sp_base s + SP_SIZE" using div_same_less [of q SP_SIZE "sp_base s"] s(2) by (simp add: SP_SIZE_def)
    then have "q < sp_base s" using f s(1) span_bounds(3) [OF g s(1)] by fastforce
    then show ?thesis using Some s(1) by simp
  qed simp
  have prev: "(case bucket_get p (?k - 1) of None \<Rightarrow> Some None
      | Some a \<Rightarrow> do { s \<leftarrow> span_at p a; Some (if (q + 2 ^ 64 - sp_base s) mod 2 ^ 64 < sp_size s then Some (?k - 1) else None) }) = Some None"
    if k: "?k \<noteq> 0"
  proof (cases "bucket_get p (?k - 1)")
    case (Some a)
    obtain s where s: "span_at p a = Some s" "sp_base s div SP_SIZE = ?k - 1" using geoD(4) [OF g Some] by blast
    have "sp_base s \<le> q"
    proof (rule ccontr)
      assume "\<not> sp_base s \<le> q"
      then have "?k \<le> sp_base s div SP_SIZE" by (intro div_le_mono) simp
      then show False using s(2) k by linarith
    qed
    moreover have "q < sp_base s \<or> sp_base s + sp_size s \<le> q" using f s(1) by blast
    ultimately have "q + 2 ^ 64 - sp_base s = q - sp_base s + 2 ^ 64" "q - sp_base s < 2 ^ 64" "sp_size s \<le> q - sp_base s"
      using q by simp_all
    then have "\<not> (q + 2 ^ 64 - sp_base s) mod 2 ^ 64 < sp_size s" by (simp only: mod_add_self2 mod_less not_less)
    then show ?thesis using Some s(1) by simp
  qed simp
  have t: "tables p (?k div 2 ^ bits1) \<noteq> None" using Some by simp
  show ?thesis unfolding find_bucket_def Let_def here if_not_P [OF t] bind.bind_lunit if_False using prev by simp
qed (simp add: find_bucket_def)

subsection \<open>\<open>realloc\<close>\<close>

text \<open>How much of a block of size \<open>m\<close> is kept for certain: of a large one not the last 64 bytes.\<close>

definition kept :: "nat \<Rightarrow> nat" where
  "kept m = (if m \<le> SP_SIZE then m else m - SPAN_SIZE)"

lemma copy_words_outside: "x < dst \<or> dst + n \<le> x \<Longrightarrow> copy_words m dst src n x = m x"
  by (auto simp: copy_words_def)

lemma given_owned:
  assumes g: "geo p OL OP" and q: "(q, n) \<in> given p FL" and x: "q \<le> x" "x < q + n"
  shows "owned p x"
proof -
  obtain a s where a: "span_at p a = Some s" "(q, n) \<in> given1 s (FL a)" using q unfolding given_iff by blast
  show ?thesis by (rule in_memory_owned [OF given1_inside(5) [OF g a] x])
qed

lemma realloc_moves:
  assumes I: "pool_inv p FL DL OL OP" and a: "span_at p a = Some s" and q: "(q, m) \<in> given1 s (FL a)"
    and n: "n \<le> 2 ^ 63" and os: "os_ok os" and w: "willing os S 3 (mapped p)" "{SP_SIZE, 2 ^ bits1 * 8, page_up n} \<subseteq> S"
    and k0: "k0 < n" "k0 \<le> m"
  shows "\<exists>p1 p' r k FL' DL' OL' OP'. mp_alloc os p n = Some (p1, Some r) \<and> in_memory p1 r k0 \<and> in_memory p1 q k0 \<and>
    dealloc_real (p1\<lparr>mem := copy_words (mem p1) r q k0\<rparr>) q (sp_base s div SP_SIZE) = Some p' \<and> n \<le> k \<and>
    pool_inv p' FL' DL' OL' OP' \<and> given p' FL' = insert (r, k) (given p FL - {(q, m)}) \<and>
    (\<forall>j < k0. mem p' (r + j) = mem p (q + j)) \<and> (\<forall>t l x. (t, l) \<in> given p FL - {(q, m)} \<longrightarrow> t \<le> x \<longrightarrow> x < t + l \<longrightarrow> mem p' x = mem p x)"
proof -
  have g: "geo p OL OP" using I by (simp add: pool_inv_def)
  have w0: "willing os S (0 + 3) (mapped p)" using w(1) by simp
  have qG: "(q, m) \<in> given p FL" using a q unfolding given_iff by blast
  obtain p1 r k FL1 DL1 OL1 OP1 where p1: "mp_alloc os p n = Some (p1, Some r)" "n \<le> k" "pool_inv p1 FL1 DL1 OL1 OP1"
    "given p1 FL1 = insert (r, k) (given p FL)" "(r, k) \<notin> given p FL" "grows p p1"
    using alloc_ok [OF I n os w0 w(2)] by blast
  have g1: "geo p1 OL1 OP1" using p1(3) by (simp add: pool_inv_def)
  have r1: "(r, k) \<in> given p1 FL1" "(q, m) \<in> given p1 FL1" using p1(4) qG by auto
  obtain b t where b: "span_at p1 b = Some t" "(q, m) \<in> given1 t (FL1 b)" using r1(2) unfolding given_iff by blast
  obtain c u where c: "span_at p1 c = Some u" "(r, k) \<in> given1 u (FL1 c)" using r1(1) unfolding given_iff by blast
  have ms: "mapped p1 (sp_base s) = Some (page_up (sp_size s))"
    using p1(6) span_region(1) [OF g a] by (auto simp: grows_def dest: map_leD)
  have base: "sp_base t = sp_base s"
  proof -
    have "q < sp_base s + page_up (sp_size s)" "q < sp_base t + page_up (sp_size t)"
      using given1_inside(2,4) [OF g a q] given1_inside(2,4) [OF g1 b] page_up_ge(1) [of "sp_size s"] page_up_ge(1) [of "sp_size t"] by linarith+
    then show ?thesis
      using mapped_same [OF geoD(2) [OF g1] span_region(1) [OF g1 b(1)] given1_inside(1) [OF g1 b] _ ms given1_inside(1) [OF g a q]] by blast
  qed
  let ?p2 = "p1\<lparr>mem := copy_words (mem p1) r q k0\<rparr>"
  have wr: "\<forall>x. x < r \<or> r + k \<le> x \<longrightarrow> copy_words (mem p1) r q k0 x = mem p1 x"
    using k0(1) p1(2) by (auto simp: copy_words_def)
  note W = write_ok [OF p1(3) r1(1) wr]
  have g2: "geo ?p2 OL1 OP1" using W(1) by (simp add: pool_inv_def)
  have b2: "span_at ?p2 b = Some t" using b(1) by simp
  obtain p' FL' DL' OL' where p': "dealloc_real ?p2 q (sp_base s div SP_SIZE) = Some p'" "pool_inv p' FL' DL' OL' OP1"
    "given p' FL' = given ?p2 FL1 - {(q, m)}" "\<And>x. x \<notin> objects OP1 \<Longrightarrow> x \<noteq> q \<Longrightarrow> mem p' x = mem ?p2 x"
    using dealloc_real_ok [OF W(1) b2 b(2)] unfolding base by blast
  have ne: "(r, k) \<noteq> (q, m)" using p1(5) qG by auto
  have G: "given p' FL' = insert (r, k) (given p FL - {(q, m)})" unfolding p'(3) W(2) p1(4) using ne by blast
  have r2: "(r, k) \<in> given ?p2 FL1" "(q, m) \<in> given ?p2 FL1" using r1 W(2) by simp_all
  have frame: "mem p' x = mem ?p2 x" if t: "(t, l) \<in> given ?p2 FL1" "(t, l) \<noteq> (q, m)" "t \<le> x" "x < t + l" for t l x
    by (rule given_frame [OF g2 p'(4) r2(2) t(1) _ t(3,4)]) (use t(2) in auto)
  have im: "in_memory p1 r k0" "in_memory p1 q k0"
  proof -
    have "in_memory p1 r k" "in_memory p1 q m" using given1_inside(5) [OF g1 c] given1_inside(5) [OF g1 b] by blast+
    moreover have "k0 \<le> k" using k0(1) p1(2) by linarith
    ultimately show "in_memory p1 r k0" "in_memory p1 q k0"
      using k0(2) unfolding in_memory_def by (meson add_le_mono le_trans order_refl)+
  qed
  have copied: "mem p' (r + j) = mem p (q + j)" if j: "j < k0" for j
  proof -
    have "mem p' (r + j) = mem ?p2 (r + j)" using j k0(1) p1(2) by (intro frame [OF r2(1) ne]) simp_all
    also have "\<dots> = mem p1 (q + j)" using j by (simp add: copy_words_def)
    also have "\<dots> = mem p (q + j)"
    proof -
      have "owned p (q + j)" by (rule given_owned [OF g qG]) (use j k0(2) in simp_all)
      then show ?thesis using p1(6) by (simp add: grows_def)
    qed
    finally show ?thesis .
  qed
  have others: "mem p' x = mem p x" if t: "(t, l) \<in> given p FL - {(q, m)}" "t \<le> x" "x < t + l" for t l x
  proof -
    have T: "(t, l) \<in> given ?p2 FL1" "(t, l) \<noteq> (r, k)" using t(1) W(2) p1(4,5) by auto
    have "mem p' x = mem ?p2 x" using t by (intro frame [OF T(1)]) auto
    also have "\<dots> = mem p1 x"
    proof -
      have "x < r \<or> r + k \<le> x" using given_apart [OF g2 T(1) r2(1) T(2)] t(2,3) by linarith
      then show ?thesis using wr by auto
    qed
    also have "\<dots> = mem p x"
    proof -
      have "owned p x" using t by (intro given_owned [OF g]) auto
      then show ?thesis using p1(6) by (simp add: grows_def)
    qed
    finally show ?thesis .
  qed
  show ?thesis using p1(1,2) im p'(1,2) G copied others by blast
qed

lemma realloc_ok:
  assumes I: "pool_inv p FL DL OL OP" and q: "(q, m) \<in> given p FL"
    and n: "0 < n" "n \<le> 2 ^ 63" and os: "os_ok os" and w: "willing os S 3 (mapped p)" "{SP_SIZE, 2 ^ bits1 * 8, page_up n} \<subseteq> S"
  shows "\<exists>p' r k. mp_realloc os p (Some q) n = Some (p', Some r, True) \<and> n \<le> k \<and>
    gives_out p' (insert (r, k) (given p FL - {(q, m)})) \<and> (\<forall>j < min n (kept m). mem p' (r + j) = mem p (q + j)) \<and>
    (\<forall>t l x. (t, l) \<in> given p FL - {(q, m)} \<longrightarrow> t \<le> x \<longrightarrow> x < t + l \<longrightarrow> mem p' x = mem p x)"
proof -
  have g: "geo p OL OP" using I by (simp add: pool_inv_def)
  obtain a s where a: "span_at p a = Some s" "(q, m) \<in> given1 s (FL a)" using q unfolding given_iff by blast
  have A: "span_ok p OL OP a s" by (rule geoD(3) [OF g a(1)])
  let ?k = "sp_base s div SP_SIZE"
  have bk: "bucket_get p ?k = Some a" using A by (simp add: span_ok_def)
  have find: "find_bucket p q = Some (Some ?k)" by (rule find_bucket_ok [OF g a(1)]) (use given1_inside [OF g a] in simp_all)
  define n0 where "n0 = (case sl_slot s of Some i \<Rightarrow> nd_size (slots p ! i) | None \<Rightarrow> if sp_fly s then sp_size s - SPAN_SIZE else sp_size s)"
  have n0: "kept m \<le> n0 \<and> n0 \<le> m"
  proof (cases "sl_slot s")
    case None
    then show ?thesis using a(2) A by (auto simp: n0_def given1_def span_ok_def kept_def)
  next
    case (Some i)
    then show ?thesis using a(2) slot_fields(1) [OF geoD(1) [OF g] span_slot(1) [OF g a(1) Some]] by (auto simp: n0_def given1_def kept_def)
  qed
  have run: "mp_realloc os p (Some q) n = do { (p, r) \<leftarrow> realloc_real os p q n ?k; Some (p, r, True) }"
    using n(1) find by (simp add: mp_realloc_def)
  show ?thesis
  proof (cases "n \<le> n0")
    case True
    have "realloc_real os p q n ?k = Some (p, Some q)" using True bk a(1) by (simp add: realloc_real_def Let_def n0_def)
    then have r: "mp_realloc os p (Some q) n = Some (p, Some q, True)" using run by simp
    have G: "given p FL = insert (q, m) (given p FL - {(q, m)})" using q by blast
    have m: "n \<le> m" using True n0 by simp
    have "gives_out p (insert (q, m) (given p FL - {(q, m)}))" using gives_outI [OF I G [symmetric]] .
    then show ?thesis using r m by blast
  next
    case False
    have k0: "n0 < n" "n0 \<le> m" using False n0 by simp_all
    obtain p1 p' r k FL' DL' OL' OP' where p': "mp_alloc os p n = Some (p1, Some r)" "in_memory p1 r n0" "in_memory p1 q n0"
      "dealloc_real (p1\<lparr>mem := copy_words (mem p1) r q n0\<rparr>) q ?k = Some p'" "n \<le> k" "pool_inv p' FL' DL' OL' OP'"
      "given p' FL' = insert (r, k) (given p FL - {(q, m)})" "\<forall>j < n0. mem p' (r + j) = mem p (q + j)"
      "\<forall>t l x. (t, l) \<in> given p FL - {(q, m)} \<longrightarrow> t \<le> x \<longrightarrow> x < t + l \<longrightarrow> mem p' x = mem p x"
      using realloc_moves [OF I a n(2) os w k0] by (elim exE conjE) (rule that)
    have "realloc_real os p q n ?k = Some (p', Some r)"
      unfolding realloc_real_def bk bind.bind_lunit a(1) Let_def n0_def [symmetric] if_not_P [OF False] p'(1)
      using p'(2-4) by simp
    then have "mp_realloc os p (Some q) n = Some (p', Some r, True)" using run by simp
    moreover have "gives_out p' (insert (r, k) (given p FL - {(q, m)}))" by (rule gives_outI [OF p'(6) p'(7) [symmetric]])
    moreover have "\<forall>j < min n (kept m). mem p' (r + j) = mem p (q + j)" using p'(8) n0 by simp
    ultimately show ?thesis using p'(5,9) by blast
  qed
qed

text \<open>A span object is never in a block that is given out.\<close>

lemma given_off_objects:
  assumes g: "geo p OL OP" and a: "span_at p a = Some s" "(q, m) \<in> given1 s F" and b: "span_at p b = Some t"
  shows "q + m \<le> b \<or> b + SPAN_SIZE \<le> q"
proof -
  note A = given1_inside [OF g a]
  have T: "span_ok p OL OP b t" and S: "span_ok p OL OP a s" using geoD(3) [OF g] a(1) b by blast+
  show ?thesis
  proof (cases "sp_fly t")
    case True
    then obtain d where d: "d \<in> OP" "d \<le> b" "b + SPAN_SIZE \<le> d + SP_SIZE" using T object_in_page [of b OP] by (auto simp: span_ok_def)
    have "sp_base s \<noteq> d" using S d(1) by (auto simp: span_ok_def)
    then have "sp_base s + page_up (sp_size s) \<le> d \<or> d + SP_SIZE \<le> sp_base s"
      using geoD(2) [OF g] geoD(5) [OF g d(1)] span_region(1) [OF g a(1)] unfolding mapped_ok_def by blast
    then show ?thesis using d A(1,2) page_up_ge(1) [of "sp_size s"] by linarith
  next
    case False
    then have e: "b + SPAN_SIZE = sp_base t + page_up (sp_size t)" using T by (simp add: span_ok_def)
    have big: "SPAN_SIZE \<le> page_up (sp_size t)" using T page_up_ge(1) [of "sp_size t"] by (simp add: span_ok_def SP_SIZE_def SPAN_SIZE_def)
    show ?thesis
    proof (cases "a = b")
      case False
      show ?thesis using spans_apart(2) [OF g a(1) b False] e big A(1,2) page_up_ge(1) [of "sp_size s"] by linarith
    next
      case True
      then have st: "t = s" using a(1) b by simp
      have "q + m \<le> b"
      proof (cases "sl_slot s")
        case None
        have "sp_size s + SPAN_SIZE \<le> page_up (sp_size s)"
          using S \<open>\<not> sp_fly t\<close> None unfolding st by (simp add: span_ok_def)
        then show ?thesis using A(2) e by (simp add: st)
      next
        case (Some i)
        have i: "i < 26" "sp_size s = SP_SIZE" "\<not> unit_fly i" using span_slot [OF g a(1) Some] \<open>\<not> sp_fly t\<close> st by simp_all
        have "q \<in> blocks i (sp_base s)" "m = unit_size i" using a(2) Some by (auto simp: given1_def)
        then have "q + m \<le> sp_base s + SP_SIZE - SPAN_SIZE" using block_bounds(3) [OF i(1) _ i(3)] by blast
        then show ?thesis using e by (simp add: st i(2) page_up_ge(2))
      qed
      then show ?thesis by simp
    qed
  qed
qed

end
