(* ===== verification/Mempool_Theorems.thy ===== *)
theory Mempool_Theorems
  imports Mempool_Correct
begin

text \<open>
  Properties of the memory pool without a cache. Their hypotheses are about the operating system: that the regions
  it gives do not overlap (\<open>os_ok\<close>) and that it gives the at most three regions that are asked for
  (\<open>willing\<close>). The witnesses use one that gives the multiples of 1 GB in order.
\<close>

definition demo_bases :: "nat list" where
  "demo_bases = map (\<lambda>k. k * 2 ^ 30) [1..<9]"

definition tidy :: "(addr \<rightharpoonup> nat) \<Rightarrow> bool" where
  "tidy M \<longleftrightarrow> (\<forall>b s. M b = Some s \<longrightarrow> b \<in> set demo_bases \<and> 0 < s \<and> s \<le> 2 ^ 27)"

definition demo_os :: os where
  "demo_os M n = (if tidy M \<and> n \<le> 2 ^ 26 then List.find (\<lambda>b. M b = None) demo_bases else None)"

lemma page_up_bounds: "n \<le> 2 ^ 26 \<Longrightarrow> page_up n \<le> 2 ^ 27" "0 < n \<Longrightarrow> 0 < page_up n"
  using page_up_less [of n] page_up_ge(1) [of n] by (simp_all add: PG_SIZE_def)

lemma tidy_upd: "tidy M \<Longrightarrow> b \<in> set demo_bases \<Longrightarrow> 0 < n \<Longrightarrow> n \<le> 2 ^ 26 \<Longrightarrow> tidy (M(b \<mapsto> page_up n))"
  using page_up_bounds [of n] by (auto simp: tidy_def)

lemma demo_base: "b \<in> set demo_bases \<longleftrightarrow> (\<exists>k. 1 \<le> k \<and> k < 9 \<and> b = k * 2 ^ 30)"
  by (auto simp: demo_bases_def)

lemma tidy_mapped:
  assumes "tidy M"
  shows "mapped_ok M"
proof -
  have "0 < b \<and> 0 < s \<and> b + s \<le> 2 ^ 64 \<and> b div TABLE_SIZE = (b + s - 1) div TABLE_SIZE" if M: "M b = Some s" for b s
  proof -
    obtain k where k: "1 \<le> k" "k < 9" "b = k * 2 ^ 30" and s: "0 < s" "s \<le> 2 ^ 27"
      using assms M unfolding tidy_def demo_base by blast
    have "b + s - 1 < TABLE_SIZE" "b < TABLE_SIZE" using k s by (simp_all add: TABLE_SIZE_def SP_SIZE_def bits1_def)
    then show ?thesis using k s by simp
  qed
  moreover have "b + s \<le> c \<or> c + t \<le> b" if M: "M b = Some s" "M c = Some t" "b \<noteq> c" for b s c t
  proof -
    obtain k where k: "b = k * 2 ^ 30" "s \<le> 2 ^ 27" using assms M(1) unfolding tidy_def demo_base by blast
    obtain l where l: "c = l * 2 ^ 30" "t \<le> 2 ^ 27" using assms M(2) unfolding tidy_def demo_base by blast
    have "k < l \<or> l < k" using k l M(3) by auto
    then show ?thesis
    proof
      assume "k < l"
      then have "Suc k * 2 ^ 30 \<le> l * 2 ^ 30" by (intro mult_le_mono1) simp
      then show ?thesis using k l by simp
    next
      assume "l < k"
      then have "Suc l * 2 ^ 30 \<le> k * 2 ^ 30" by (intro mult_le_mono1) simp
      then show ?thesis using k l by simp
    qed
  qed
  ultimately show ?thesis unfolding mapped_ok_def by blast
qed

lemma demo_os_ok: "os_ok demo_os"
  unfolding os_ok_def
proof (intro allI impI)
  fix M n b assume n: "0 < n" and b: "demo_os M n = Some b"
  have t: "tidy M" "n \<le> 2 ^ 26" "List.find (\<lambda>b. M b = None) demo_bases = Some b" using b by (auto simp: demo_os_def split: if_splits)
  have f: "M b = None" "b \<in> set demo_bases" using t(3) unfolding find_Some_iff by auto
  then show "M b = None \<and> mapped_ok (M(b \<mapsto> page_up n))" using tidy_mapped [OF tidy_upd [OF t(1) f(2) n t(2)]] by blast
qed

lemma demo_willing:
  assumes "tidy M" "card (dom M) + k \<le> 8" "\<forall>n \<in> S. 0 < n \<and> n \<le> 2 ^ 26" "finite (dom M)"
  shows "willing demo_os S k M"
  using assms
proof (induction k arbitrary: M)
  case (Suc k)
  show ?case unfolding willing.simps(2)
  proof
    fix n assume n: "n \<in> S"
    have "distinct demo_bases" "length demo_bases = 8" by (simp_all add: demo_bases_def distinct_map inj_on_def)
    then have "card (set demo_bases) = 8" by (simp add: distinct_card)
    then have "\<not> set demo_bases \<subseteq> dom M" using card_mono [OF Suc.prems(4), of "set demo_bases"] Suc.prems(2) by auto
    then have "List.find (\<lambda>b. M b = None) demo_bases \<noteq> None" by (auto simp: find_None_iff dom_def)
    then obtain b where f: "List.find (\<lambda>b. M b = None) demo_bases = Some b" by blast
    have b: "M b = None" "b \<in> set demo_bases" using f unfolding find_Some_iff by auto
    have n': "0 < n" "n \<le> 2 ^ 26" using Suc.prems(3) n by auto
    have "willing demo_os S k (M(b \<mapsto> page_up n))"
    proof (rule Suc.IH [OF tidy_upd [OF Suc.prems(1) b(2) n'] _ Suc.prems(3)])
      have "card (dom (M(b \<mapsto> page_up n))) = Suc (card (dom M))" using Suc.prems(4) b(1) by (simp add: card_insert_if domIff)
      then show "card (dom (M(b \<mapsto> page_up n))) + k \<le> 8" using Suc.prems(2) by simp
      show "finite (dom (M(b \<mapsto> page_up n)))" using Suc.prems(4) by simp
    qed
    moreover have "demo_os M n = Some b" using Suc.prems(1) n'(2) f by (simp add: demo_os_def)
    ultimately show "\<exists>b. demo_os M n = Some b \<and> willing demo_os S k (M(b \<mapsto> page_up n))" by blast
  qed
qed simp

definition demo_sizes :: "nat set" where
  "demo_sizes = {SP_SIZE, 2 ^ bits1 * 8, page_up 100, page_up 5000}"

lemma demo_sizes_small: "\<forall>m \<in> demo_sizes. 0 < m \<and> m \<le> 2 ^ 26"
  by (simp add: demo_sizes_def SP_SIZE_def bits1_def page_up_def PG_SIZE_def)

lemma demo_start: "\<exists>p b. mp_init demo_os = Some p \<and> gives_out p {} \<and> tidy (mapped p) \<and> mapped p = [b \<mapsto> SP_SIZE] \<and> span_at p = Map.empty"
proof -
  have w: "willing demo_os {SP_SIZE} 1 Map.empty" by (rule demo_willing) (simp_all add: tidy_def SP_SIZE_def)
  obtain p FL DL OL OP b where p: "mp_init demo_os = Some p" "pool_inv p FL DL OL OP" "given p FL = {}" "mapped p = [b \<mapsto> SP_SIZE]"
    "demo_os Map.empty SP_SIZE = Some b" "span_at p = Map.empty" using mp_init_ok [OF demo_os_ok w] by blast
  have "List.find (\<lambda>b. Map.empty b = None) demo_bases = Some b" using p(5) by (auto simp: demo_os_def split: if_splits)
  then have "b \<in> set demo_bases" unfolding find_Some_iff by auto
  then have "tidy (mapped p)" by (simp add: p(4) tidy_def SP_SIZE_def)
  then show ?thesis using p(1,4,6) gives_outI [OF p(2) p(3) [symmetric]] by blast
qed

lemma demo_start_willing:
  assumes "tidy (mapped p)" "mapped p = [b \<mapsto> SP_SIZE]"
  shows "willing demo_os demo_sizes (3 + 3) (mapped p)"
  by (rule demo_willing [OF assms(1) _ demo_sizes_small]) (simp_all add: assms(2))

text \<open>A pool with one block.\<close>

lemma demo_one: "\<exists>p q m. gives_out p {(q, m)} \<and> willing demo_os demo_sizes 3 (mapped p)"
proof -
  obtain p b where p: "mp_init demo_os = Some p" "gives_out p {}" "tidy (mapped p)" "mapped p = [b \<mapsto> SP_SIZE]" using demo_start by blast
  obtain FL DL OL OP where I: "pool_inv p FL DL OL OP" "given p FL = {}" using p(2) unfolding gives_out_def by auto
  have s: "(100::nat) \<le> 2 ^ 63" "{SP_SIZE, 2 ^ bits1 * 8, page_up 100} \<subseteq> demo_sizes" by (simp_all add: demo_sizes_def)
  obtain p' q m FL' DL' OL' OP' where "pool_inv p' FL' DL' OL' OP'" "given p' FL' = insert (q, m) (given p FL)" "willing demo_os demo_sizes 3 (mapped p')"
    using alloc_ok [OF I(1) s(1) demo_os_ok demo_start_willing [OF p(3,4)] s(2)] by blast
  then show ?thesis using gives_outI [of p' FL' DL' OL' OP' "{(q, m)}"] I(2) by auto
qed



text \<open>An address that is in no span is handed to the C library, and the pool stays as it is.\<close>

theorem pool_foreign:
  assumes "gives_out p G" "q < 2 ^ 64" "\<forall>a s. span_at p a = Some s \<longrightarrow> q < sp_base s \<or> sp_base s + sp_size s \<le> q"
  shows "mp_dealloc p q = Some (p, False)"
proof -
  obtain FL DL OL OP where "geo p OL OP" using assms(1) unfolding gives_out_def pool_inv_def by blast
  then have "find_bucket p q = Some None" by (rule find_bucket_foreign [OF _ assms(2,3)])
  then show ?thesis by (simp add: mp_dealloc_def)
qed

theorem pool_foreign_witness:
  "\<exists>p. gives_out p {} \<and> mp_dealloc p 4096 = Some (p, False)"
proof -
  obtain p where p: "gives_out p {}" "span_at p = Map.empty" using demo_start by blast
  have "mp_dealloc p 4096 = Some (p, False)" by (rule pool_foreign [OF p(1)]) (simp_all add: p(2))
  then show ?thesis using p(1) by blast
qed

text \<open>C15. \<open>get_slot\<close> finds the smallest size of a block that is enough, and none exactly when more than 1 MB is asked for.\<close>

theorem get_slot_smallest:
  "case get_slot n of None \<Rightarrow> 1024 * 1024 < n | Some i \<Rightarrow> i < 26 \<and> n \<le> FixAllocUnits ! i \<and> (\<forall>j < i. FixAllocUnits ! j < n)"
proof (cases "get_slot n")
  case None
  then have "SP_SIZE < n" by (simp add: get_slot_None)
  then show ?thesis unfolding None by (simp add: SP_SIZE_def)
next
  case (Some i)
  note F = get_slot_fits [OF Some]
  have "FixAllocUnits ! j < n" if "j < i" for j
  proof -
    have "FixAllocUnits ! j \<le> FixAllocUnits ! (i - 1)" using that F by (intro sorted_nth_mono sorted_units) (auto simp: length_units)
    then show ?thesis using F that by simp
  qed
  then show ?thesis using Some F by simp
qed

theorem get_slot_smallest_witness:
  "\<exists>i. get_slot 100 = Some i \<and> i < 26 \<and> 100 \<le> FixAllocUnits ! i \<and> (\<forall>j < i. FixAllocUnits ! j < 100)"
  using get_slot_smallest [of 100] by (simp split: option.splits)

end
