(* ===== verification/Mempool_Cache.thy ===== *)
theory Mempool_Cache
  imports Mempool
begin

text \<open>
  The cache of a thread (\<open>src/vhwd/memory/mempool_cached.cpp\<close>): for every slot a list of free blocks, which is
  filled with all the free blocks of a span and half of which goes back to the pool when there are too
  many. The operations run alone; \<open>dealloc\<close> of the code takes no lock around \<open>dealloc_batch_nolock\<close>.
\<close>

record mp_node_link =
  nl_head :: ptr
  nl_num :: nat
  nl_max :: nat

type_synonym mp_cache = "mp_node_link list"

definition cache_new :: "mp_slot \<Rightarrow> mp_node_link" where
  "cache_new sl = \<lparr>nl_head = NULL, nl_num = 0, nl_max = (if nd_nall sl * 2 < 4 then 4 else nd_nall sl * 2)\<rparr>"

definition cache_init :: "mp_pool \<Rightarrow> mp_cache" where
  "cache_init p = map cache_new (slots p)"

definition cached_alloc :: "os \<Rightarrow> mp_pool \<Rightarrow> mp_cache \<Rightarrow> nat \<Rightarrow> (mp_pool \<times> mp_cache \<times> ptr) option" where
  "cached_alloc os p c n = (case get_slot n of
     None \<Rightarrow> do { (p, m) \<leftarrow> alloc_large os p n; Some (p, c, m) }
   | Some k \<Rightarrow> do {
       let l = c ! k;
       (p, h, num) \<leftarrow> (if nl_head l = NULL then do { wassert (nl_num l = 0); alloc_small_batch os p k }
         else Some (p, nl_head l, nl_num l));
       case h of
         None \<Rightarrow> Some (p, c, NULL)
       | Some q \<Rightarrow> do {
           fn \<leftarrow> get_next p q;
           Some (p, c[k := l\<lparr>nl_head := fn, nl_num := (num + 2 ^ 64 - 1) mod 2 ^ 64\<rparr>], Some q) } })"

definition cached_dealloc :: "mp_pool \<Rightarrow> mp_cache \<Rightarrow> addr \<Rightarrow> (mp_pool \<times> mp_cache \<times> bool) option" where
  "cached_dealloc p c q = do {
     pbk \<leftarrow> find_bucket p q;
     case pbk of
       None \<Rightarrow> Some (p, c, False)
     | Some bk \<Rightarrow> do {
         a \<leftarrow> bucket_get p bk;
         s \<leftarrow> span_at p a;
         case sl_slot s of
           None \<Rightarrow> do { p \<leftarrow> dealloc_real p q bk; Some (p, c, True) }
         | Some k \<Rightarrow> do {
             let l = c ! k;
             p \<leftarrow> set_next p q (nl_head l);
             let num = (nl_num l + 1) mod 2 ^ 64;
             if nl_max l \<le> nl_num l then do {
               (p, h) \<leftarrow> dealloc_batch p k (Some q) (num div 2);
               wassert (h \<noteq> NULL);
               Some (p, c[k := l\<lparr>nl_head := h, nl_num := num - num div 2\<rparr>], True) }
             else Some (p, c[k := l\<lparr>nl_head := Some q, nl_num := num\<rparr>], True) } } }"

text \<open>\<open>cleanup\<close> and \<open>gc\<close> give the lists of the slots \<open>is\<close> back.\<close>

primrec cache_flush :: "mp_pool \<Rightarrow> mp_cache \<Rightarrow> nat list \<Rightarrow> (mp_pool \<times> mp_cache) option" where
  "cache_flush p c [] = Some (p, c)"
| "cache_flush p c (i # is) = do {
     (p, h) \<leftarrow> dealloc_batch p i (nl_head (c ! i)) (nl_num (c ! i));
     wassert (h = NULL);
     cache_flush p (c[i := (c ! i)\<lparr>nl_head := NULL, nl_num := 0\<rparr>]) is }"

definition cache_cleanup :: "mp_pool \<Rightarrow> mp_cache \<Rightarrow> (mp_pool \<times> mp_cache) option" where
  "cache_cleanup p c = cache_flush p c [0..<sl_size]"

subsection \<open>Garbage collection\<close>

text \<open>\<open>MpAllocGlobal::gc\<close>: the unused span \<open>k\<close> at \<open>a\<close> is taken out of the list of slot \<open>i\<close>, also when it is the last
  one there, and goes back to the operating system. \<open>free\<close> tells for which slots \<open>try_lock\<close> succeeds.\<close>

definition gc_unlink :: "mp_pool \<Rightarrow> nat \<Rightarrow> mp_span \<Rightarrow> mp_pool option" where
  "gc_unlink p i k = do {
     p \<leftarrow> (case sl_next k of None \<Rightarrow> Some p | Some b \<Rightarrow> set_span p b (\<lambda>t. t\<lparr>sl_prev := sl_prev k\<rparr>));
     case sl_prev k of
       None \<Rightarrow> Some (set_head p i (sl_next k))
     | Some b \<Rightarrow> set_span p b (\<lambda>t. t\<lparr>sl_next := sl_next k\<rparr>) }"

definition gc_release :: "mp_pool \<Rightarrow> addr \<Rightarrow> mp_span \<Rightarrow> mp_pool option" where
  "gc_release p a k = do {
     pbk \<leftarrow> find_bucket p (sp_base k);
     p \<leftarrow> (case pbk of
         None \<Rightarrow> Some p
       | Some bk \<Rightarrow> do { wassert (bucket_get p bk = Some a); bucket_set p bk NULL });
     p \<leftarrow> page_free p (sp_base k) (sp_size k);
     if sp_fly k then obj_dealloc p a else Some p }"

partial_function (option) gc_loop :: "mp_pool \<Rightarrow> nat \<Rightarrow> ptr \<Rightarrow> mp_pool option" where
  "gc_loop p i sp = (case sp of
     None \<Rightarrow> Some p
   | Some a \<Rightarrow> do {
       k \<leftarrow> span_at p a;
       if nd_nnum k \<noteq> 0 then gc_loop p i (sl_next k)
       else do {
         p \<leftarrow> gc_unlink p i k;
         p \<leftarrow> gc_release p a k;
         gc_loop p i (sl_next k) } })"

primrec gc_slots :: "mp_pool \<Rightarrow> nat list \<Rightarrow> mp_pool option" where
  "gc_slots p [] = Some p"
| "gc_slots p (i # is) = do { p \<leftarrow> gc_loop p i (sp_head (slots p ! i)); gc_slots p is }"

subsection \<open>The pool of a thread\<close>

text \<open>The thread's cache, if it has one, and the block of the pool that it is in: 26 lists of three words.\<close>

type_synonym mp_thread = "(addr \<times> mp_cache) option"

definition TC_SIZE :: nat where "TC_SIZE = sl_size * 24"

definition tc_init :: "os \<Rightarrow> mp_pool \<Rightarrow> mp_thread \<Rightarrow> (mp_pool \<times> mp_thread) option" where
  "tc_init os p tc = (case tc of
     Some _ \<Rightarrow> Some (p, tc)
   | None \<Rightarrow> do {
       (p, m) \<leftarrow> mp_alloc os p TC_SIZE;
       Some (p, case m of None \<Rightarrow> None | Some a \<Rightarrow> Some (a, cache_init p)) })"

definition tc_gc :: "(nat \<Rightarrow> bool) \<Rightarrow> mp_pool \<Rightarrow> mp_thread \<Rightarrow> (mp_pool \<times> mp_thread) option" where
  "tc_gc free p tc = (case tc of
     None \<Rightarrow> Some (p, None)
   | Some (a, c) \<Rightarrow> do { (p, c) \<leftarrow> cache_flush p c (filter free [0..<sl_size]); Some (p, Some (a, c)) })"

definition tc_cleanup :: "mp_pool \<Rightarrow> mp_thread \<Rightarrow> (mp_pool \<times> mp_thread) option" where
  "tc_cleanup p tc = (case tc of
     None \<Rightarrow> Some (p, None)
   | Some (a, c) \<Rightarrow> do { (p, c) \<leftarrow> cache_cleanup p c; (p, here) \<leftarrow> mp_dealloc p a; Some (p, None) })"

definition mp_gc :: "(nat \<Rightarrow> bool) \<Rightarrow> mp_pool \<Rightarrow> mp_thread \<Rightarrow> (mp_pool \<times> mp_thread) option" where
  "mp_gc free p tc = do {
     (p, tc) \<leftarrow> tc_gc free p tc;
     p \<leftarrow> gc_slots p (filter free [0..<sl_size]);
     Some (p, tc) }"

text \<open>\<open>MemPoolPaging\<close>: the functions \<open>mp_alloc\<close> and \<open>mp_free\<close> use the cache if there is one.\<close>

definition paging_allocate :: "os \<Rightarrow> mp_pool \<Rightarrow> mp_thread \<Rightarrow> nat \<Rightarrow> (mp_pool \<times> mp_thread \<times> (exn + addr)) option" where
  "paging_allocate os p tc n = do {
     (p, tc, m) \<leftarrow> (case tc of
         None \<Rightarrow> do { (p, m) \<leftarrow> mp_alloc os p n; Some (p, None, m) }
       | Some (a, c) \<Rightarrow> do { (p, c, m) \<leftarrow> cached_alloc os p c n; Some (p, Some (a, c), m) });
     Some (p, tc, case m of None \<Rightarrow> Inl XBadAlloc | Some q \<Rightarrow> Inr q) }"

definition paging_deallocate :: "mp_pool \<Rightarrow> mp_thread \<Rightarrow> addr \<Rightarrow> (mp_pool \<times> mp_thread \<times> bool) option" where
  "paging_deallocate p tc q = (case tc of
     None \<Rightarrow> do { (p, here) \<leftarrow> mp_dealloc p q; Some (p, None, here) }
   | Some (a, c) \<Rightarrow> do { (p, c, here) \<leftarrow> cached_dealloc p c q; Some (p, Some (a, c), here) })"

end
