(* ===== verification/Mempool_Cached.thy ===== *)
theory Mempool_Cached
  imports Mempool_Correct Mempool_Cache
begin

text \<open>
  The cache over the pool. \<open>cached_gives p c G\<close>: of the blocks that the pool has given out, the program
  has \<open>G\<close> and the cache holds the others, in its lists.
\<close>

subsection \<open>Many blocks at once\<close>

lemma batch_alloc_ok:
  assumes I: "pool_inv p FL DL OL OP" and i: "i < 26"
    and os: "os_ok os" and w: "willing os S (Suc (Suc (Suc c))) (mapped p)" "SP_SIZE \<in> S" "2 ^ bits1 * 8 \<in> S"
  shows "\<exists>p' h xs FL' DL' OL' OP'. alloc_small_batch os p i = Some (p', h, length xs) \<and> pool_inv p' FL' DL' OL' OP' \<and> xs \<noteq> [] \<and>
    length xs \<le> unit_nall i \<and> chain (mem p') h xs \<and> distinct xs \<and> given p' FL' = given p FL \<union> set xs \<times> {unit_size i} \<and>
    (\<forall>x \<in> set xs. (x, unit_size i) \<notin> given p FL) \<and> grows p p' \<and> willing os S c (mapped p')"
proof (cases "sp_head (slots p ! i)")
  case (Some a)
  then have "sp_head (slots p ! i) \<noteq> NULL" by simp
  then obtain p' h xs FL' DL' where p': "alloc_small_batch os p i = Some (p', h, length xs)" "pool_inv p' FL' DL' OL OP" "xs \<noteq> []"
    "length xs \<le> unit_nall i" "chain (mem p') h xs" "distinct xs" "given p' FL' = given p FL \<union> set xs \<times> {unit_size i}"
    "\<forall>x \<in> set xs. (x, unit_size i) \<notin> given p FL" "mem p' = mem p" "mapped p' = mapped p"
    using batch_pop_ok [where os = os, OF I i] by blast
  have gr: "grows p p'" using p'(9,10) by (simp add: grows_def)
  have wl: "willing os S c (mapped p')"
    using willing_less [OF willing_less [OF willing_less [OF w(1)]]] p'(10) by simp
  show ?thesis by (intro exI conjI) (rule p' gr wl)+
next
  case None
  obtain p1 a FL1 DL1 OL1 OP1 where p1: "head_span os p i = Some (p1, Some a)" "sp_head (slots p1 ! i) = Some a" "pool_inv p1 FL1 DL1 OL1 OP1"
    "given p1 FL1 = given p FL" "grows p p1" "willing os S c (mapped p1)"
    using head_span_ok [OF I i None os w] by blast
  have "sp_head (slots p1 ! i) \<noteq> NULL" using p1(2) by simp
  then obtain p' h xs FL' DL' where p': "alloc_small_batch os p1 i = Some (p', h, length xs)" "pool_inv p' FL' DL' OL1 OP1" "xs \<noteq> []"
    "length xs \<le> unit_nall i" "chain (mem p') h xs" "distinct xs" "given p' FL' = given p1 FL1 \<union> set xs \<times> {unit_size i}"
    "\<forall>x \<in> set xs. (x, unit_size i) \<notin> given p1 FL1" "mem p' = mem p1" "mapped p' = mapped p1"
    using batch_pop_ok [where os = os, OF p1(3) i] by blast
  have h: "head_span os p1 i = Some (p1, Some a)" using p1(2) by (simp add: head_span_def)
  have r: "alloc_small_batch os p i = Some (p', h, length xs)"
    using p'(1) unfolding alloc_small_batch_def p1(1) h .
  have gr: "grows p p'" using p1(5) p'(9,10) by (simp add: grows_def)
  have wl: "willing os S c (mapped p')" using p1(6) p'(10) by simp
  show ?thesis by (intro exI conjI) (rule r p' gr wl p'(7,8) [unfolded p1(4)])+
qed

lemma given_slot:
  assumes g: "geo p OL OP" and a: "span_at p a = Some s" "(q, unit_size i) \<in> given1 s F" and i: "i < 26"
  shows "sl_slot s = Some i"
proof (cases "sl_slot s")
  case None
  then have "SP_SIZE < unit_size i" using geoD(3) [OF g a(1)] a(2) by (auto simp: span_ok_def given1_def)
  then show ?thesis using units(3) [OF i] by simp
next
  case (Some j)
  then show ?thesis using a(2) unit_size_inj [OF i span_slot(1) [OF g a(1) Some]] by (auto simp: given1_def)
qed

lemma batch_step:
  assumes f: "find_bucket p fn = Some (Some bk)" and b: "bucket_get p bk = Some a" "span_at p a = Some s" "sl_slot s = Some i"
    and n: "get_next p fn = Some fp" and d: "dealloc_real p fn bk = Some p'"
  shows "dealloc_batch p i (Some fn) (Suc sz) = dealloc_batch p' i fp sz"
proof -
  obtain p1 unused where u: "free_node p i a fn = Some (p1, unused)" "(if unused then release_span p1 a bk else Some p1) = Some p'"
    using d b by (auto simp: dealloc_real_def split: bind_splits)
  show ?thesis using f b n u by simp
qed

lemma batch_dealloc_ok:
  assumes "pool_inv p FL DL OL OP" "i < 26" "chain (mem p) fp (xs @ ys)" "distinct (xs @ ys)"
    "set (xs @ ys) \<times> {unit_size i} \<subseteq> given p FL"
  shows "\<exists>p' h FL' DL' OL'. dealloc_batch p i fp (length xs) = Some (p', h) \<and> pool_inv p' FL' DL' OL' OP \<and> chain (mem p') h ys \<and>
    given p' FL' = given p FL - set xs \<times> {unit_size i} \<and> (\<forall>x. x \<notin> objects OP \<longrightarrow> x \<notin> set xs \<longrightarrow> mem p' x = mem p x)"
  using assms
proof (induction xs arbitrary: p FL DL OL fp)
  case Nil
  then show ?case by (intro exI [of _ p] exI [of _ fp] exI [of _ FL] exI [of _ DL] exI [of _ OL]) simp
next
  case (Cons q xs)
  have g: "geo p OL OP" using Cons.prems(1) by (simp add: pool_inv_def)
  have fp: "fp = Some q" "chain (mem p) (mem p q) (xs @ ys)" using Cons.prems(3) by auto
  have q: "(q, unit_size i) \<in> given p FL" using Cons.prems(5) by auto
  obtain a s where a: "span_at p a = Some s" "(q, unit_size i) \<in> given1 s (FL a)" using q unfolding given_iff by blast
  have i: "sl_slot s = Some i" by (rule given_slot [OF g a Cons.prems(2)])
  have bk: "bucket_get p (sp_base s div SP_SIZE) = Some a" using geoD(3) [OF g a(1)] by (simp add: span_ok_def)
  have f: "find_bucket p q = Some (Some (sp_base s div SP_SIZE))"
    by (rule find_bucket_ok [OF g a(1)]) (use given1_inside [OF g a] in simp_all)
  obtain p1 FL1 DL1 OL1 where p1: "dealloc_real p q (sp_base s div SP_SIZE) = Some p1" "pool_inv p1 FL1 DL1 OL1 OP"
    "given p1 FL1 = given p FL - {(q, unit_size i)}" "\<forall>x. x \<notin> objects OP \<longrightarrow> x \<noteq> q \<longrightarrow> mem p1 x = mem p x"
    using dealloc_real_ok [OF Cons.prems(1) a] by blast
  have n: "get_next p q = Some (mem p q)"
    using block_in_memory [OF g a(1) i, of q] a(2) by (simp add: get_next_def given1_def i)
  have rest: "set (xs @ ys) \<times> {unit_size i} \<subseteq> given p1 FL1" using Cons.prems(4,5) p1(3) by auto
  have ch: "chain (mem p1) (mem p q) (xs @ ys)"
  proof (rule chain_cong [OF fp(2)])
    show "\<forall>b \<in> set (xs @ ys). mem p1 b = mem p b"
    proof
      fix b assume b: "b \<in> set (xs @ ys)"
      then have B: "(b, unit_size i) \<in> given p FL" using Cons.prems(5) by auto
      have "b \<notin> objects OP" by (rule given_not_object [OF g B]) (use units(1) [OF Cons.prems(2)] in simp_all)
      moreover have "b \<noteq> q" using b Cons.prems(4) by auto
      ultimately show "mem p1 b = mem p b" using p1(4) by simp
    qed
  qed
  have ds: "distinct (xs @ ys)" using Cons.prems(4) by simp
  obtain p' h FL' DL' OL' where p': "dealloc_batch p1 i (mem p q) (length xs) = Some (p', h)" "pool_inv p' FL' DL' OL' OP" "chain (mem p') h ys"
    "given p' FL' = given p1 FL1 - set xs \<times> {unit_size i}" "\<forall>x. x \<notin> objects OP \<longrightarrow> x \<notin> set xs \<longrightarrow> mem p' x = mem p1 x"
    using Cons.IH [OF p1(2) Cons.prems(2) ch ds rest] by blast
  have run: "dealloc_batch p i fp (length (q # xs)) = Some (p', h)"
    unfolding fp(1) list.size(4) add_0_right add_Suc_right by (rule trans [OF batch_step [OF f bk a(1) i n p1(1)] p'(1)])
  have "given p' FL' = given p FL - set (q # xs) \<times> {unit_size i}" unfolding p'(4) p1(3) by auto
  moreover have "\<forall>x. x \<notin> objects OP \<longrightarrow> x \<notin> set (q # xs) \<longrightarrow> mem p' x = mem p x" using p'(5) p1(4) by simp
  ultimately show ?case using run p'(2,3) by (intro exI conjI)
qed

subsection \<open>The invariant of the cache\<close>

definition held :: "(nat \<Rightarrow> addr list) \<Rightarrow> (addr \<times> nat) set" where
  "held CL = {(q, unit_size i) | q i. i < 26 \<and> q \<in> set (CL i)}"

definition cache_ok :: "mp_pool \<Rightarrow> mp_cache \<Rightarrow> (nat \<Rightarrow> addr list) \<Rightarrow> bool" where
  "cache_ok p c CL \<longleftrightarrow> length c = 26 \<and> (\<forall>i < 26. chain (mem p) (nl_head (c ! i)) (CL i) \<and> distinct (CL i) \<and>
     nl_num (c ! i) = length (CL i) \<and> length (CL i) \<le> nl_max (c ! i) \<and> nl_max (c ! i) = max 4 (unit_nall i * 2))"

definition cached_gives :: "mp_pool \<Rightarrow> mp_cache \<Rightarrow> (addr \<times> nat) set \<Rightarrow> bool" where
  "cached_gives p c G \<longleftrightarrow> (\<exists>FL DL OL OP CL. pool_inv p FL DL OL OP \<and> cache_ok p c CL \<and> given p FL = G \<union> held CL \<and> G \<inter> held CL = {})"

lemma cache_okD:
  assumes "cache_ok p c CL" "i < 26"
  shows "chain (mem p) (nl_head (c ! i)) (CL i)" "distinct (CL i)" "nl_num (c ! i) = length (CL i)" "length (CL i) \<le> nl_max (c ! i)"
    "nl_max (c ! i) = max 4 (unit_nall i * 2)" "length c = 26"
  using assms by (auto simp: cache_ok_def)

lemma held_slot:
  assumes i: "i < 26"
  shows "(q, unit_size i) \<in> held CL \<longleftrightarrow> q \<in> set (CL i)"
proof
  assume "(q, unit_size i) \<in> held CL"
  then obtain j where j: "unit_size i = unit_size j" "j < 26" "q \<in> set (CL j)" by (auto simp: held_def)
  have "i = j" by (rule unit_size_inj [OF i j(2,1)])
  then show "q \<in> set (CL i)" using j(3) by simp
qed (use i in \<open>auto simp: held_def\<close>)

lemma held_upd:
  assumes i: "i < 26"
  shows "held (CL(i := xs)) = {x \<in> held CL. snd x \<noteq> unit_size i} \<union> set xs \<times> {unit_size i}"
proof -
  have "x \<in> held (CL(i := xs)) \<longleftrightarrow> x \<in> {x \<in> held CL. snd x \<noteq> unit_size i} \<union> set xs \<times> {unit_size i}" for x
  proof (cases "snd x = unit_size i")
    case True
    then have "x = (fst x, unit_size i)" by (simp add: prod_eq_iff)
    then show ?thesis using held_slot [OF i, of "fst x" "CL(i := xs)"] by (metis (mono_tags, lifting) True UnCI UnE fun_upd_same mem_Collect_eq mem_Sigma_iff singletonI)
  next
    case False
    then have "x \<in> held (CL(i := xs)) \<longleftrightarrow> x \<in> held CL" unfolding held_def by (cases x) (auto split: if_splits)
    then show ?thesis using False by (cases x) auto
  qed
  then show ?thesis by blast
qed

text \<open>The other lists of the cache after a change of the list of slot \<open>i\<close>, in a pool in which the held blocks have not changed.\<close>

lemma cache_upd:
  assumes C: "cache_ok p c CL" and i: "i < 26"
    and m: "\<And>j q. j < 26 \<Longrightarrow> j \<noteq> i \<Longrightarrow> q \<in> set (CL j) \<Longrightarrow> mem p' q = mem p q"
    and l: "chain (mem p') (nl_head l) xs" "distinct xs" "nl_num l = length xs" "length xs \<le> nl_max l" "nl_max l = nl_max (c ! i)"
  shows "cache_ok p' (c[i := l]) (CL(i := xs))"
  unfolding cache_ok_def
proof (intro conjI allI impI)
  note len = cache_okD(6) [OF C i]
  show "length (c[i := l]) = 26" using len by simp
  fix j :: nat assume j: "j < 26"
  note D = cache_okD [OF C j]
  show "chain (mem p') (nl_head (c[i := l] ! j)) ((CL(i := xs)) j)"
    using l(1) i len chain_cong [OF D(1)] m [OF j] by (cases "j = i") (auto simp: nth_list_update)
  show "distinct ((CL(i := xs)) j)" "nl_num (c[i := l] ! j) = length ((CL(i := xs)) j)" "length ((CL(i := xs)) j) \<le> nl_max (c[i := l] ! j)"
    "nl_max (c[i := l] ! j) = max 4 (unit_nall j * 2)"
    using l i len D by (cases "j = i"; simp add: nth_list_update)+
qed

lemma held_word:
  assumes g: "geo p OL OP" and G: "given p FL = G \<union> held CL" and q: "q \<in> set (CL j)" "j < 26"
  shows "(q, unit_size j) \<in> given p FL" "q \<notin> objects OP" "owned p q"
proof -
  show B: "(q, unit_size j) \<in> given p FL" using q G by (auto simp: held_def)
  have u: "q < q + unit_size j" using units(1) [OF q(2)] by simp
  show "q \<notin> objects OP" by (rule given_not_object [OF g B _ u]) simp
  show "owned p q" by (rule given_owned [OF g B _ u]) simp
qed

subsection \<open>Allocation\<close>

lemma nl_max_bound: "i < 26 \<Longrightarrow> max 4 (unit_nall i * 2) < 2 ^ 63"
  using units(7) [of i] by (simp add: SP_SIZE_def)

lemma cache_pop:
  assumes I: "pool_inv p FL DL OL OP" and C: "cache_ok p c CL" and i: "i < 26"
    and h: "chain (mem p) h (q # qs)" "distinct (q # qs)" "length (q # qs) \<le> nl_max (c ! i)"
    and G: "given p FL = G \<union> held (CL(i := q # qs))" "G \<inter> held (CL(i := q # qs)) = {}"
  shows "get_next p q = Some (mem p q)" "(q, unit_size i) \<notin> G"
    "cached_gives p (c[i := (c ! i)\<lparr>nl_head := mem p q, nl_num := (length (q # qs) + 2 ^ 64 - 1) mod 2 ^ 64\<rparr>]) (insert (q, unit_size i) G)"
proof -
  have g: "geo p OL OP" using I by (simp add: pool_inv_def)
  have qh: "(q, unit_size i) \<in> held (CL(i := q # qs))" by (simp add: held_slot [OF i])
  then have q: "(q, unit_size i) \<in> given p FL" using G(1) by blast
  show new: "(q, unit_size i) \<notin> G" using G(2) qh by blast
  obtain a s where a: "span_at p a = Some s" "(q, unit_size i) \<in> given1 s (FL a)" using q unfolding given_iff by blast
  have "in_memory p q (unit_size i)" by (rule given1_inside(5) [OF g a])
  then have "in_memory p q NODE_SIZE" using units(1) [OF i] unfolding in_memory_def NODE_SIZE_def by fastforce
  then show "get_next p q = Some (mem p q)" by (simp add: get_next_def)
  have "length (q # qs) < 2 ^ 64" using h(3) nl_max_bound [OF i] cache_okD(5) [OF C i] by simp
  then have w: "(length (q # qs) + 2 ^ 64 - 1) mod 2 ^ 64 = length qs" using wrap_pred [of "length (q # qs)"] by simp
  let ?l = "(c ! i)\<lparr>nl_head := mem p q, nl_num := length qs\<rparr>"
  have "cache_ok p (c[i := ?l]) (CL(i := qs))"
    by (rule cache_upd [OF C i]) (use h in simp_all)
  moreover have "given p FL = insert (q, unit_size i) G \<union> held (CL(i := qs))"
    unfolding G(1) held_upd [OF i] by auto
  moreover have "insert (q, unit_size i) G \<inter> held (CL(i := qs)) = {}"
    using G(2) h(2) unfolding held_upd [OF i] by auto
  ultimately show "cached_gives p (c[i := (c ! i)\<lparr>nl_head := mem p q, nl_num := (length (q # qs) + 2 ^ 64 - 1) mod 2 ^ 64\<rparr>]) (insert (q, unit_size i) G)"
    unfolding w using I unfolding cached_gives_def by blast
qed

lemma cache_keep:
  assumes C: "cache_ok p c CL" and m: "\<And>j q. j < 26 \<Longrightarrow> q \<in> set (CL j) \<Longrightarrow> mem p' q = mem p q"
  shows "cache_ok p' c CL"
  unfolding cache_ok_def
proof (intro conjI allI impI)
  show "length c = 26" using cache_okD(6) [OF C, of 0] by simp
  fix i :: nat assume i: "i < 26"
  note D = cache_okD [OF C i]
  show "chain (mem p') (nl_head (c ! i)) (CL i)" using chain_cong [OF D(1)] m [OF i] by blast
  show "distinct (CL i)" "nl_num (c ! i) = length (CL i)" "length (CL i) \<le> nl_max (c ! i)" "nl_max (c ! i) = max 4 (unit_nall i * 2)"
    using D by simp_all
qed

lemma cache_grows:
  assumes C: "cache_ok p c CL" and g: "geo p OL OP" and G: "given p FL = G \<union> held CL" and gr: "grows p p'"
  shows "cache_ok p' c CL"
  by (rule cache_keep [OF C]) (use held_word(3) [OF g G] gr in \<open>auto simp: grows_def\<close>)

lemma cached_alloc_ok:
  assumes A: "cached_gives p c G" and n: "n \<le> 2 ^ 63" and os: "os_ok os"
    and w: "willing os S (k + 3) (mapped p)" "{SP_SIZE, 2 ^ bits1 * 8, page_up n} \<subseteq> S"
  shows "\<exists>p' c' q m. cached_alloc os p c n = Some (p', c', Some q) \<and> n \<le> m \<and> cached_gives p' c' (insert (q, m) G) \<and> (q, m) \<notin> G \<and>
    (\<forall>r l x. (r, l) \<in> G \<longrightarrow> r \<le> x \<longrightarrow> x < r + l \<longrightarrow> mem p' x = mem p x) \<and> willing os S k (mapped p')"
proof -
  obtain FL DL OL OP CL where I: "pool_inv p FL DL OL OP" and C: "cache_ok p c CL" and G: "given p FL = G \<union> held CL" "G \<inter> held CL = {}"
    using A unfolding cached_gives_def by blast
  have g: "geo p OL OP" using I by (simp add: pool_inv_def)
  have w': "willing os S (Suc (Suc (Suc k))) (mapped p)" using w(1) by (simp only: numeral_3_eq_3 add_Suc_right add_0_right)
  have S: "SP_SIZE \<in> S" "2 ^ bits1 * 8 \<in> S" "page_up n \<in> S" using w(2) by simp_all
  have frame: "\<forall>r l x. (r, l) \<in> G \<longrightarrow> r \<le> x \<longrightarrow> x < r + l \<longrightarrow> mem p' x = mem p x" if gr: "grows p p'" for p'
  proof (intro allI impI)
    fix r l x assume "(r, l) \<in> G" "r \<le> x" "x < r + l"
    then have "owned p x" using G(1) by (intro given_owned [OF g]) auto
    then show "mem p' x = mem p x" using gr by (simp add: grows_def)
  qed
  show ?thesis
  proof (cases "get_slot n")
    case None
    then have "SP_SIZE < n" by (simp add: get_slot_None)
    then obtain p' q m OL' OP' where p': "alloc_large os p n = Some (p', Some q)" "n \<le> m" "pool_inv p' FL DL OL' OP'"
      "given p' FL = insert (q, m) (given p FL)" "(q, m) \<notin> given p FL" "grows p p'" "willing os S k (mapped p')"
      using alloc_large_ok [OF I _ n os w' S] by auto
    have "cached_gives p' c (insert (q, m) G)"
      using p'(3,4,5) cache_grows [OF C g G(1) p'(6)] G unfolding cached_gives_def by blast
    moreover have "cached_alloc os p c n = Some (p', c, Some q)" using None p'(1) by (simp add: cached_alloc_def)
    moreover have "(q, m) \<notin> G" using p'(5) G(1) by blast
    ultimately show ?thesis using p'(2,7) frame [OF p'(6)] by blast
  next
    case (Some i)
    have i: "i < 26" "n \<le> unit_size i" using get_slot_fits [OF Some] by simp_all
    note D = cache_okD [OF C i(1)]
    show ?thesis
    proof (cases "CL i")
      case (Cons q qs)
      have e: "CL(i := q # qs) = CL" using Cons by auto
      note P = cache_pop [OF I C i(1), of "nl_head (c ! i)" q qs G, unfolded e, OF _ _ _ G]
      have h: "chain (mem p) (nl_head (c ! i)) (q # qs)" "distinct (q # qs)" "length (q # qs) \<le> nl_max (c ! i)" using D Cons by simp_all
      have hd: "nl_head (c ! i) = Some q" "nl_num (c ! i) = length (q # qs)" using D(1,3) Cons by simp_all
      have run: "cached_alloc os p c n = Some (p, c[i := (c ! i)\<lparr>nl_head := mem p q, nl_num := (length (q # qs) + 2 ^ 64 - 1) mod 2 ^ 64\<rparr>], Some q)"
        using Some P(1) [OF h] hd by (simp add: cached_alloc_def Let_def)
      have wl: "willing os S k (mapped p)" by (rule willing_less [OF willing_less [OF willing_less [OF w']]])
      show ?thesis using run P(2,3) [OF h] i(2) wl by blast
    next
      case Nil
      obtain p' h xs FL' DL' OL' OP' where p': "alloc_small_batch os p i = Some (p', h, length xs)" "pool_inv p' FL' DL' OL' OP'" "xs \<noteq> []"
        "length xs \<le> unit_nall i" "chain (mem p') h xs" "distinct xs" "given p' FL' = given p FL \<union> set xs \<times> {unit_size i}"
        "\<forall>x \<in> set xs. (x, unit_size i) \<notin> given p FL" "grows p p'" "willing os S k (mapped p')"
        using batch_alloc_ok [OF I i(1) os w' S(1,2)] by blast
      obtain q qs where xs: "xs = q # qs" using p'(3) by (cases xs) auto
      have he: "held (CL(i := xs)) = held CL \<union> set xs \<times> {unit_size i}"
      proof -
        have "snd x \<noteq> unit_size i" if "x \<in> held CL" for x
          using that held_slot [OF i(1), of "fst x" CL] Nil by (cases x) auto
        then show ?thesis unfolding held_upd [OF i(1)] by auto
      qed
      have G': "given p' FL' = G \<union> held (CL(i := q # qs))" "G \<inter> held (CL(i := q # qs)) = {}"
        using p'(7,8) G unfolding xs [symmetric] he by auto
      have "length xs \<le> nl_max (c ! i)" using p'(4) D(5) by simp
      note P = cache_pop [OF p'(2) cache_grows [OF C g G(1) p'(9)] i(1) p'(5,6) [unfolded xs] this [unfolded xs] G']
      have hd: "nl_head (c ! i) = NULL" "nl_num (c ! i) = 0" "h = Some q" using D(1,3) Nil p'(5) xs by simp_all
      have run: "cached_alloc os p c n = Some (p', c[i := (c ! i)\<lparr>nl_head := mem p' q, nl_num := (length (q # qs) + 2 ^ 64 - 1) mod 2 ^ 64\<rparr>], Some q)"
        using Some P(1) hd p'(1) by (simp add: cached_alloc_def Let_def xs)
      show ?thesis using run P(2,3) i(2) p'(10) frame [OF p'(9)] by blast
    qed
  qed
qed

subsection \<open>Deallocation\<close>

lemma given_pos:
  assumes "geo p OL OP" "(q, n) \<in> given p FL"
  shows "8 \<le> n"
proof -
  obtain a s where a: "span_at p a = Some s" "(q, n) \<in> given1 s (FL a)" using assms(2) unfolding given_iff by blast
  show ?thesis by (rule given1_inside(4) [OF assms(1) a])
qed

lemma given_size:
  assumes "geo p OL OP" "(q, n) \<in> given p FL" "(q, m) \<in> given p FL"
  shows "n = m"
proof (rule ccontr)
  assume "n \<noteq> m"
  then have "(q, n) \<noteq> (q, m)" by simp
  then show False using given_apart [OF assms] given_pos [OF assms(1,2)] given_pos [OF assms(1,3)] by auto
qed

lemma held_iff: "(q, n) \<in> held CL \<longleftrightarrow> (\<exists>j < 26. n = unit_size j \<and> q \<in> set (CL j))"
  unfolding held_def by auto

text \<open>Giving back the blocks \<open>xs\<close> at the front of the list of slot \<open>i\<close>.\<close>

lemma cache_return:
  assumes I: "pool_inv p FL DL OL OP" and C: "cache_ok p c CL" and i: "i < 26"
    and h: "chain (mem p) h (xs @ ys)" "distinct (xs @ ys)" "length ys \<le> nl_max (c ! i)"
    and G: "given p FL = G \<union> held (CL(i := xs @ ys))" "G \<inter> held (CL(i := xs @ ys)) = {}"
  shows "\<exists>p' h'. dealloc_batch p i h (length xs) = Some (p', h') \<and> (h' = NULL \<longleftrightarrow> ys = []) \<and>
    cached_gives p' (c[i := (c ! i)\<lparr>nl_head := h', nl_num := length ys\<rparr>]) G \<and>
    (\<forall>r l x. (r, l) \<in> G \<longrightarrow> r \<le> x \<longrightarrow> x < r + l \<longrightarrow> mem p' x = mem p x)"
proof -
  have g: "geo p OL OP" using I by (simp add: pool_inv_def)
  have sub: "set (xs @ ys) \<times> {unit_size i} \<subseteq> given p FL" unfolding G(1) held_upd [OF i] by auto
  obtain p' h' FL' DL' OL' where p': "dealloc_batch p i h (length xs) = Some (p', h')" "pool_inv p' FL' DL' OL' OP" "chain (mem p') h' ys"
    "given p' FL' = given p FL - set xs \<times> {unit_size i}" "\<forall>x. x \<notin> objects OP \<longrightarrow> x \<notin> set xs \<longrightarrow> mem p' x = mem p x"
    using batch_dealloc_ok [OF I i h(1,2) sub] by blast
  have gi: "(x, unit_size i) \<in> given p FL" if "x \<in> set xs" for x using sub that by auto
  have fr: "mem p' x = mem p x" if r: "(r, l) \<in> given p FL" "(r, l) \<notin> set xs \<times> {unit_size i}" "r \<le> x" "x < r + l" for r l x
  proof -
    have "x \<notin> objects OP" by (rule given_not_object [OF g r(1,3,4)])
    moreover have "x \<notin> set xs"
    proof
      assume x: "x \<in> set xs"
      then have "(x, unit_size i) \<noteq> (r, l)" using r(2) by auto
      then show False using given_apart [OF g gi [OF x] r(1)] r(3,4) units(1) [OF i] by auto
    qed
    ultimately show ?thesis using p'(5) by simp
  qed
  have held: "(q, unit_size j) \<in> given p FL \<and> (q, unit_size j) \<notin> set xs \<times> {unit_size i}" if q: "q \<in> set (CL j)" "j < 26" "j \<noteq> i" for q j
  proof -
    have ne: "unit_size j \<noteq> unit_size i" using unit_size_inj [OF q(2) i] q(3) by blast
    have "(q, unit_size j) \<in> held CL" using held_slot [OF q(2)] q(1) by blast
    then show ?thesis using ne unfolding G(1) held_upd [OF i] by simp
  qed
  have "cache_ok p' (c[i := (c ! i)\<lparr>nl_head := h', nl_num := length ys\<rparr>]) (CL(i := ys))"
  proof (rule cache_upd [OF C i])
    show "mem p' q = mem p q" if q: "j < 26" "j \<noteq> i" "q \<in> set (CL j)" for j q
      using fr [of q "unit_size j" q] held [OF q(3,1,2)] units(1) [OF q(1)] by simp
  qed (use p'(3) h in simp_all)
  moreover have "given p' FL' = G \<union> held (CL(i := ys))"
  proof -
    have "set xs \<inter> set ys = {}" using h(2) by simp
    moreover have "x \<notin> set xs \<times> {unit_size i}" if "x \<in> G" for x using G(2) that unfolding held_upd [OF i] by auto
    ultimately show ?thesis unfolding p'(4) G(1) held_upd [OF i] by auto
  qed
  moreover have "G \<inter> held (CL(i := ys)) = {}" using G(2) unfolding held_upd [OF i] by auto
  ultimately have "cached_gives p' (c[i := (c ! i)\<lparr>nl_head := h', nl_num := length ys\<rparr>]) G" using p'(2) unfolding cached_gives_def by blast
  moreover have "mem p' x = mem p x" if "(r, l) \<in> G" "r \<le> x" "x < r + l" for r l x
  proof (rule fr [OF _ _ that(2,3)])
    show "(r, l) \<in> given p FL" using that(1) G(1) by blast
    show "(r, l) \<notin> set xs \<times> {unit_size i}" using that(1) G(2) unfolding held_upd [OF i] by auto
  qed
  moreover have "h' = NULL \<longleftrightarrow> ys = []" by (rule chain_NULL [OF p'(3)])
  ultimately show ?thesis using p'(1) by blast
qed

lemma cached_dealloc_ok:
  assumes A: "cached_gives p c G" and q: "(q, m) \<in> G"
  shows "\<exists>p' c'. cached_dealloc p c q = Some (p', c', True) \<and> cached_gives p' c' (G - {(q, m)}) \<and>
    (\<forall>r l x. (r, l) \<in> G - {(q, m)} \<longrightarrow> r \<le> x \<longrightarrow> x < r + l \<longrightarrow> mem p' x = mem p x)"
proof -
  obtain FL DL OL OP CL where I: "pool_inv p FL DL OL OP" and C: "cache_ok p c CL" and G: "given p FL = G \<union> held CL" "G \<inter> held CL = {}"
    using A unfolding cached_gives_def by blast
  have g: "geo p OL OP" using I by (simp add: pool_inv_def)
  have qG: "(q, m) \<in> given p FL" using q G(1) by blast
  obtain a s where a: "span_at p a = Some s" "(q, m) \<in> given1 s (FL a)" using qG unfolding given_iff by blast
  let ?bk = "sp_base s div SP_SIZE"
  have bk: "bucket_get p ?bk = Some a" using geoD(3) [OF g a(1)] by (simp add: span_ok_def)
  have f: "find_bucket p q = Some (Some ?bk)" by (rule find_bucket_ok [OF g a(1)]) (use given1_inside [OF g a] in simp_all)
  have fr: "mem p' x = mem p x" if "\<And>x. x \<notin> objects OP \<Longrightarrow> x \<noteq> q \<Longrightarrow> mem p' x = mem p x" "(r, l) \<in> given p FL" "(r, l) \<noteq> (q, m)" "r \<le> x" "x < r + l" for p' r l x
    by (rule given_frame [OF g that(1) qG that(2) _ that(4,5)]) (use that(3) in auto)
  show ?thesis
  proof (cases "sl_slot s")
    case None
    obtain p' FL' DL' OL' where p': "dealloc_real p q ?bk = Some p'" "pool_inv p' FL' DL' OL' OP" "given p' FL' = given p FL - {(q, m)}"
      "\<And>x. x \<notin> objects OP \<Longrightarrow> x \<noteq> q \<Longrightarrow> mem p' x = mem p x"
      using dealloc_real_ok [OF I a] by blast
    have ne: "(q, m) \<notin> held CL" using q G(2) by blast
    have "cache_ok p' c CL"
    proof (rule cache_keep [OF C])
      fix j r assume j: "j < 26" "r \<in> set (CL j)"
      then have "(r, unit_size j) \<in> held CL" using held_slot by blast
      then show "mem p' r = mem p r" using fr [OF p'(4), of r "unit_size j" r] ne G(1) units(1) [OF j(1)] by auto
    qed
    moreover have "given p' FL' = (G - {(q, m)}) \<union> held CL" using p'(3) G(1) ne by blast
    ultimately have "cached_gives p' c (G - {(q, m)})" using p'(2) G(2) unfolding cached_gives_def by blast
    moreover have "cached_dealloc p c q = Some (p', c, True)" using f bk a(1) None p'(1) by (simp add: cached_dealloc_def)
    moreover have "mem p' x = mem p x" if "(r, l) \<in> G - {(q, m)}" "r \<le> x" "x < r + l" for r l x
      by (rule fr [OF p'(4) _ _ that(2,3)]) (use that(1) G(1) in auto)
    ultimately show ?thesis by blast
  next
    case (Some k)
    have k: "k < 26" by (rule span_slot(1) [OF g a(1) Some])
    have m: "m = unit_size k" "q \<in> blocks k (sp_base s)" using a(2) Some by (auto simp: given1_def)
    note D = cache_okD [OF C k]
    let ?l = "c ! k"
    have nq: "q \<notin> set (CL k)" using held_slot [OF k, of q CL] q G(2) m(1) by blast
    define p1 where "p1 = p\<lparr>mem := (mem p)(q := nl_head ?l)\<rparr>"
    have sn: "set_next p q (nl_head ?l) = Some p1" using block_in_memory [OF g a(1) Some m(2)] by (simp add: set_next_def p1_def)
    have wr: "\<forall>x. x < q \<or> q + m \<le> x \<longrightarrow> ((mem p)(q := nl_head ?l)) x = mem p x" using given_pos [OF g qG] by auto
    have I1: "pool_inv p1 FL DL OL OP" "given p1 FL = given p FL" using write_ok [OF I qG wr] unfolding p1_def by blast+
    have C1: "cache_ok p1 (c[k := ?l\<lparr>nl_head := NULL, nl_num := 0\<rparr>]) (CL(k := []))"
    proof (rule cache_upd [OF C k])
      show "mem p1 r = mem p r" if r: "j < 26" "j \<noteq> k" "r \<in> set (CL j)" for j r
      proof -
        have "r \<noteq> q"
        proof
          assume "r = q"
          then have "(q, unit_size j) \<in> given p FL" using held_word(1) [OF g G(1) r(3,1)] by simp
          then have "unit_size j = unit_size k" using given_size [OF g _ qG] m(1) by simp
          then show False using unit_size_inj [OF r(1) k] r(2) by blast
        qed
        then show ?thesis by (simp add: p1_def)
      qed
    qed simp_all
    have ch: "chain (mem p1) (Some q) (q # CL k)" using D(1) nq by (simp add: p1_def chain_upd)
    have ds: "distinct (q # CL k)" using D(2) nq by simp
    have he: "held (CL(k := q # CL k)) = insert (q, m) (held CL)"
    proof -
      have "CL = CL(k := CL k)" by simp
      then have "held CL = {x \<in> held CL. snd x \<noteq> unit_size k} \<union> set (CL k) \<times> {unit_size k}" using held_upd [OF k, of CL "CL k"] by simp
      then show ?thesis unfolding held_upd [OF k] m(1) by auto
    qed
    have G1: "given p1 FL = (G - {(q, m)}) \<union> held (CL(k := q # CL k))" "(G - {(q, m)}) \<inter> held (CL(k := q # CL k)) = {}"
      using I1(2) G q unfolding he by auto
    have num: "(nl_num ?l + 1) mod 2 ^ 64 = length (q # CL k)"
    proof -
      have "length (q # CL k) < 2 ^ 64" using D(4,5) nl_max_bound [OF k] by simp
      then show ?thesis using D(3) by (simp only: list.size mod_less)
    qed
    have num1: "Suc (nl_num ?l) mod 18446744073709551616 = Suc (length (CL k))" using num by simp
    have fr1: "mem p1 x = mem p x" if "(r, l) \<in> G - {(q, m)}" "r \<le> x" "x < r + l" for r l x
    proof (rule fr [OF _ _ _ that(2,3)])
      show "mem p1 x = mem p x" if "x \<noteq> q" for x using that by (simp add: p1_def)
    qed (use that(1) G(1) in auto)
    let ?c1 = "c[k := ?l\<lparr>nl_head := NULL, nl_num := 0\<rparr>]"
    have c1: "?c1 ! k = ?l\<lparr>nl_head := NULL, nl_num := 0\<rparr>" "?c1[k := l] = c[k := l]" for l using D(6) k by simp_all
    note B = cache_return [OF I1(1) C1 k, where h = "Some q" and G = "G - {(q, m)}", unfolded c1 fun_upd_upd]
    show ?thesis
    proof (cases "nl_max ?l \<le> nl_num ?l")
      case False
      have "length (CL k) < nl_max ?l" using False D(3) by simp
      then obtain p' h' where p': "dealloc_batch p1 k (Some q) (length ([] :: addr list)) = Some (p', h')"
        "cached_gives p' (c[k := ?l\<lparr>nl_head := h', nl_num := length (q # CL k)\<rparr>]) (G - {(q, m)})"
        using B [of "[]" "q # CL k"] ch ds G1 by auto
      have "p' = p1" "h' = Some q" using p'(1) by simp_all
      then have "cached_gives p1 (c[k := ?l\<lparr>nl_head := Some q, nl_num := length (q # CL k)\<rparr>]) (G - {(q, m)})" using p'(2) by simp
      moreover have "cached_dealloc p c q = Some (p1, c[k := ?l\<lparr>nl_head := Some q, nl_num := length (q # CL k)\<rparr>], True)"
        using f bk a(1) Some sn False unfolding cached_dealloc_def Let_def num [symmetric] by simp
      ultimately show ?thesis using fr1 by blast
    next
      case True
      let ?n = "length (q # CL k)"
      define xs where "xs = take (?n div 2) (q # CL k)"
      define ys where "ys = drop (?n div 2) (q # CL k)"
      have xy: "xs @ ys = q # CL k" "length xs = ?n div 2" "length ys = ?n - ?n div 2" by (simp_all add: xs_def ys_def)
      have nc: "length (CL k) = nl_max ?l" using True D(3,4) by simp
      have n: "4 \<le> length (CL k)" using nc D(5) by simp
      have ly: "length ys \<le> nl_max ?l" "ys \<noteq> []"
      proof -
        show "length ys \<le> nl_max ?l" using xy(3) nc n by simp
        have "0 < length ys" using xy(3) n by simp
        then show "ys \<noteq> []" by simp
      qed
      obtain p' h' where p': "dealloc_batch p1 k (Some q) (length xs) = Some (p', h')" "h' = NULL \<longleftrightarrow> ys = []"
        "cached_gives p' (c[k := ?l\<lparr>nl_head := h', nl_num := length ys\<rparr>]) (G - {(q, m)})"
        "\<forall>r l x. (r, l) \<in> G - {(q, m)} \<longrightarrow> r \<le> x \<longrightarrow> x < r + l \<longrightarrow> mem p' x = mem p1 x"
        using B [of xs ys] ch ds G1 ly(1) unfolding xy(1) by auto
      have "cached_dealloc p c q = Some (p', c[k := ?l\<lparr>nl_head := h', nl_num := length ys\<rparr>], True)"
        using f bk a(1) Some sn True p'(1,2) ly(2) unfolding cached_dealloc_def Let_def xy(2,3) by (simp add: num1)
      then show ?thesis using p'(3,4) fr1 by (metis (no_types, lifting))
    qed
  qed
qed

text \<open>Everything that the cache holds goes back.\<close>

lemma cache_flush_ok:
  assumes "cached_gives p c G" "set is \<subseteq> {..<26}"
  shows "\<exists>p' c'. cache_flush p c is = Some (p', c') \<and> cached_gives p' c' G \<and> (\<forall>i \<in> set is. nl_num (c' ! i) = 0) \<and>
    (\<forall>i. nl_num (c ! i) = 0 \<longrightarrow> nl_num (c' ! i) = 0) \<and> (\<forall>r l x. (r, l) \<in> G \<longrightarrow> r \<le> x \<longrightarrow> x < r + l \<longrightarrow> mem p' x = mem p x)"
  using assms
proof (induction "is" arbitrary: p c)
  case (Cons i "is")
  obtain FL DL OL OP CL where I: "pool_inv p FL DL OL OP" and C: "cache_ok p c CL" and G: "given p FL = G \<union> held CL" "G \<inter> held CL = {}"
    using Cons.prems(1) unfolding cached_gives_def by blast
  have i: "i < 26" using Cons.prems(2) by simp
  note D = cache_okD [OF C i]
  have e: "CL(i := CL i @ []) = CL" by simp
  obtain p1 h' where p1: "dealloc_batch p i (nl_head (c ! i)) (length (CL i)) = Some (p1, h')" "h' = NULL"
    "cached_gives p1 (c[i := (c ! i)\<lparr>nl_head := h', nl_num := 0\<rparr>]) G"
    "\<forall>r l x. (r, l) \<in> G \<longrightarrow> r \<le> x \<longrightarrow> x < r + l \<longrightarrow> mem p1 x = mem p x"
    using cache_return [OF I C i, of "nl_head (c ! i)" "CL i" "[]" G, unfolded e] D G by auto
  let ?c1 = "c[i := (c ! i)\<lparr>nl_head := NULL, nl_num := 0\<rparr>]"
  have "cached_gives p1 ?c1 G" using p1(2,3) by simp
  then obtain p' c' where p': "cache_flush p1 ?c1 is = Some (p', c')" "cached_gives p' c' G" "\<forall>j \<in> set is. nl_num (c' ! j) = 0"
    "\<forall>j. nl_num (?c1 ! j) = 0 \<longrightarrow> nl_num (c' ! j) = 0" "\<forall>r l x. (r, l) \<in> G \<longrightarrow> r \<le> x \<longrightarrow> x < r + l \<longrightarrow> mem p' x = mem p1 x"
    using Cons.IH [of p1 ?c1] Cons.prems(2) by auto
  have run: "cache_flush p c (i # is) = Some (p', c')" using p1(1,2) p'(1) D(3) by simp
  have "nl_num (c' ! i) = 0" using p'(4) D(6) i by simp
  moreover have "nl_num (c' ! j) = 0" if "nl_num (c ! j) = 0" for j using p'(4) D(6) i that by (cases "j = i") simp_all
  ultimately show ?case using run p'(2,3,5) p1(4) by (intro exI [of _ p'] exI [of _ c']) auto
qed simp

lemma cache_cleanup_ok:
  assumes A: "cached_gives p c G"
  shows "\<exists>p' c'. cache_cleanup p c = Some (p', c') \<and> gives_out p' G \<and> (\<forall>r l x. (r, l) \<in> G \<longrightarrow> r \<le> x \<longrightarrow> x < r + l \<longrightarrow> mem p' x = mem p x)"
proof -
  have "set [0..<26] \<subseteq> {..<26::nat}" by auto
  then obtain p' c' where p': "cache_flush p c [0..<26] = Some (p', c')" "cached_gives p' c' G" "\<forall>i \<in> set [0..<26]. nl_num (c' ! i) = 0"
    "\<forall>r l x. (r, l) \<in> G \<longrightarrow> r \<le> x \<longrightarrow> x < r + l \<longrightarrow> mem p' x = mem p x"
    using cache_flush_ok [OF A, of "[0..<26]"] by blast
  obtain FL DL OL OP CL where I: "pool_inv p' FL DL OL OP" and C: "cache_ok p' c' CL" and G: "given p' FL = G \<union> held CL"
    using p'(2) unfolding cached_gives_def by blast
  have "CL i = []" if "i < 26" for i using cache_okD(3) [OF C that] p'(3) that by simp
  then have "held CL = {}" by (auto simp: held_def)
  then have "gives_out p' G" using gives_outI [OF I] G by simp
  then show ?thesis using p'(1,4) by (simp add: cache_cleanup_def sl_size_def)
qed

lemma cache_init_ok:
  assumes A: "gives_out p G"
  shows "cached_gives p (cache_init p) G"
proof -
  obtain FL DL OL OP where I: "pool_inv p FL DL OL OP" and G: "G = given p FL" using A unfolding gives_out_def by blast
  have s: "slots_ok p" using I by (simp add: pool_inv_def geo_def)
  have len: "length (slots p) = 26" using s by (simp add: slots_ok_def)
  have "cache_ok p (cache_init p) (\<lambda>_. [])"
    unfolding cache_ok_def using slot_fields(2) [OF s] len by (auto simp: cache_init_def cache_new_def)
  moreover have "held (\<lambda>_. []) = {}" by (simp add: held_def)
  ultimately show ?thesis using I G unfolding cached_gives_def by blast
qed

end
