(* ===== verification/Mempool_Gc.thy ===== *)
theory Mempool_Gc
  imports Mempool_Cached
begin

text \<open>
  Garbage collection: it ends, releases every span of the slots it reaches that has no block given out, and
  changes nothing of the blocks that are given out.
\<close>

lemma dll_prev: "dll h pv x (xs @ a # ys) \<Longrightarrow> h a = Some s \<Longrightarrow> sl_prev s = (if xs = [] then pv else Some (last xs))"
  by (induction xs arbitrary: pv x) (auto split: if_splits)

lemma dll_cut_last: "dll h pv x (xs @ [c, a]) \<Longrightarrow> distinct (xs @ [c, a]) \<Longrightarrow> h c = Some tc \<Longrightarrow>
    dll (h(c \<mapsto> tc\<lparr>sl_next := NULL\<rparr>)) pv x (xs @ [c])"
proof (induction xs arbitrary: pv x)
  case (Cons d xs)
  then obtain sd where d: "x = Some d" "h d = Some sd" "sl_prev sd = pv" "dll h (Some d) (sl_next sd) (xs @ [c, a])" "d \<noteq> c" by auto
  have "dll (h(c \<mapsto> tc\<lparr>sl_next := NULL\<rparr>)) (Some d) (sl_next sd) (xs @ [c])" by (rule Cons.IH) (use Cons.prems d(4) in auto)
  then show ?case using d by (simp add: fun_upd_def)
qed auto

lemma gc_unlink_ok:
  assumes i: "i < length (slots p)" and d: "dll (span_at p) NULL (sp_head (slots p ! i)) (xs @ a # ys)" "distinct (xs @ a # ys)"
    and a: "span_at p a = Some s" "dll (span_at p) (Some a) (sl_next s) ys"
  shows "\<exists>p'. gc_unlink p i s = Some p' \<and> unlinked p p' i (xs @ ys)"
proof -
  have pv: "sl_prev s = (if xs = [] then NULL else Some (last xs))" by (rule dll_prev [OF d(1) a(1)])
  show ?thesis
  proof (cases ys)
    case (Cons b ys')
    obtain p' where p': "unlink_span p i a = Some p'" "unlinked p p' i (xs @ b # ys')" using unlink_ok [OF i d [unfolded Cons]] by blast
    obtain tb where b: "sl_next s = Some b" "span_at p b = Some tb" using a(2) Cons by auto
    have h: "sp_head (slots p ! i) = Some a \<longleftrightarrow> xs = []" using d by (cases xs) auto
    have "gc_unlink p i s = unlink_span p i a"
      using a(1) b h pv by (simp add: gc_unlink_def unlink_span_def set_span_def set_head_def)
    then show ?thesis using p' Cons by auto
  next
    case Nil
    then have n: "sl_next s = NULL" using a(2) by simp
    show ?thesis
    proof (cases "xs = []")
      case True
      have "gc_unlink p i s = Some (set_head p i NULL)" using n pv True by (simp add: gc_unlink_def)
      moreover have "unlinked p (set_head p i NULL) i (xs @ ys)"
        using True Nil i set_head_same [OF i, of NULL] by (simp add: unlinked_def set_head_get)
      ultimately show ?thesis by blast
    next
      case False
      then obtain zs c where x: "xs = zs @ [c]" by (metis append_butlast_last_id)
      obtain tc where c: "span_at p c = Some tc" using dll_at [of "span_at p" NULL "sp_head (slots p ! i)" zs c "a # ys"] d(1) x by auto
      let ?p = "p\<lparr>span_at := (span_at p)(c \<mapsto> tc\<lparr>sl_next := NULL\<rparr>)\<rparr>"
      have "dll (span_at ?p) NULL (sp_head (slots ?p ! i)) (xs @ ys)"
        using dll_cut_last [of "span_at p" NULL _ zs c a tc] c d x Nil by simp
      then have "unlinked p ?p i (xs @ ys)" using x Nil c by (auto simp: unlinked_def same_slots_def static_def core_def)
      moreover have "gc_unlink p i s = Some ?p" using n pv x c by (simp add: gc_unlink_def set_span_def)
      ultimately show ?thesis by blast
    qed
  qed
qed

lemma gc_release_eq:
  assumes g: "geo p OL OP" and a: "span_at p a = Some t" and s: "static t = static s"
  shows "gc_release p a s = release_span p a (sp_base s div SP_SIZE)"
proof -
  have e: "sp_base t = sp_base s" "sp_size t = sp_size s" "sp_fly t = sp_fly s" using s by (simp_all add: static_def)
  have "find_bucket p (sp_base s) = Some (Some (sp_base s div SP_SIZE))"
    using find_bucket_ok [OF g a, of "sp_base s"] e by (simp add: SP_SIZE_def)
  moreover have "bucket_get p (sp_base s div SP_SIZE) = Some a" using geoD(3) [OF g a] e by (simp add: span_ok_def)
  ultimately show ?thesis using a e by (simp add: gc_release_def release_span_def)
qed

text \<open>A pass over the list of a slot, of which \<open>xs\<close> has been kept and \<open>ys\<close> is to come.\<close>

lemma gc_loop_ok:
  assumes "pool_inv p FL DL OL OP" "i < 26" "DL i = xs @ ys" "dll (span_at p) pv x ys"
  shows "\<exists>p' D OL'. gc_loop p i x = Some p' \<and> pool_inv p' FL (DL(i := xs @ D)) OL' OP \<and> given p' FL = given p FL \<and>
    (\<forall>x. x \<notin> objects OP \<longrightarrow> mem p' x = mem p x) \<and>
    (\<forall>b t. span_at p' b = Some t \<longrightarrow> (\<exists>t'. span_at p b = Some t' \<and> core t = core t')) \<and>
    (\<forall>b t. b \<in> set D \<longrightarrow> span_at p' b = Some t \<longrightarrow> nd_nnum t \<noteq> 0)"
  using assms
proof (induction ys arbitrary: p DL OL xs pv x)
  case Nil
  then have "gc_loop p i x = Some p" by (subst gc_loop.simps) simp
  moreover have "DL(i := xs @ []) = DL" using Nil.prems(3) by auto
  ultimately show ?case using Nil.prems(1) by - (rule exI [of _ p], rule exI [of _ "[]"], rule exI [of _ OL], simp)
next
  case (Cons a ys)
  note I = Cons.prems(1)
  have g: "geo p OL OP" and l: "lists p DL" using I by (simp_all add: pool_inv_def)
  have len: "i < length (slots p)" using Cons.prems(2) geoD(1) [OF g] by (simp add: slots_ok_def)
  obtain s where s: "x = Some a" "span_at p a = Some s" "dll (span_at p) (Some a) (sl_next s) ys" using Cons.prems(4) by auto
  note L = listsD [OF l Cons.prems(2)]
  have sl: "sl_slot s = Some i" using L(3) Cons.prems(3) s(2) by (force simp: partial_def)
  show ?case
  proof (cases "nd_nnum s = 0")
    case False
    have e: "DL i = (xs @ [a]) @ ys" using Cons.prems(3) by simp
    obtain p' D OL' where p': "gc_loop p i (sl_next s) = Some p'" "pool_inv p' FL (DL(i := (xs @ [a]) @ D)) OL' OP" "given p' FL = given p FL"
      "\<forall>x. x \<notin> objects OP \<longrightarrow> mem p' x = mem p x" "\<forall>b t. span_at p' b = Some t \<longrightarrow> (\<exists>t'. span_at p b = Some t' \<and> core t = core t')"
      "\<forall>b t. b \<in> set D \<longrightarrow> span_at p' b = Some t \<longrightarrow> nd_nnum t \<noteq> 0"
      using Cons.IH [OF I Cons.prems(2) e s(3)] by blast
    have "gc_loop p i x = Some p'" using s(1,2) False p'(1) by (subst gc_loop.simps) simp
    moreover have "nd_nnum t \<noteq> 0" if "span_at p' a = Some t" for t using p'(5) that s(2) False by (fastforce simp: core_def)
    then have "\<forall>b t. b \<in> set (a # D) \<longrightarrow> span_at p' b = Some t \<longrightarrow> nd_nnum t \<noteq> 0" using p'(6) by auto
    ultimately show ?thesis using p'(2-5) by - (rule exI [of _ p'], rule exI [of _ "a # D"], rule exI [of _ OL'], simp del: fun_upd_apply)
  next
    case True
    have d: "dll (span_at p) NULL (sp_head (slots p ! i)) (xs @ a # ys)" "distinct (xs @ a # ys)" using L(1,2) Cons.prems(3) by simp_all
    obtain p1 where p1: "gc_unlink p i s = Some p1" "unlinked p p1 i (xs @ ys)" using gc_unlink_ok [OF len d s(2,3)] by blast
    note U = unlinked_lists [OF I s(2) sl Cons.prems(3) p1(2)]
    obtain s1 where s1: "span_at p1 a = Some s1" "static s1 = static s" using U(4) by blast
    obtain p2 OL2 where p2: "release_span p1 a (sp_base s div SP_SIZE) = Some p2" "pool_inv p2 FL (DL(i := xs @ ys)) OL2 OP"
      "given p2 FL = given p FL" "\<forall>x. x \<notin> objects OP \<longrightarrow> mem p2 x = mem p x" "span_at p2 = (span_at p1)(a := None)"
      using unlinked_release [OF I s(2) sl True Cons.prems(3) p1(2)] by blast
    have l2: "lists p2 (DL(i := xs @ ys))" using p2(2) by (simp add: pool_inv_def)
    have d2: "dll (span_at p2) NULL (sp_head (slots p2 ! i)) (xs @ ys)" using listsD(2) [OF l2 Cons.prems(2)] by simp
    have "\<exists>pv. dll (span_at p2) pv (sl_next s) ys"
    proof (cases ys)
      case Nil
      then show ?thesis using s(3) by simp
    next
      case (Cons b zs)
      then obtain tb where "span_at p2 b = Some tb" "dll (span_at p2) (Some b) (sl_next tb) zs" using dll_at [of "span_at p2" NULL _ xs b zs] d2 by blast
      then show ?thesis using Cons s(3) by (intro exI [of _ "sl_prev tb"]) auto
    qed
    then obtain pv2 where d3: "dll (span_at p2) pv2 (sl_next s) ys" by blast
    have e: "(DL(i := xs @ ys)) i = xs @ ys" by simp
    obtain p' D OL' where p': "gc_loop p2 i (sl_next s) = Some p'" "pool_inv p' FL ((DL(i := xs @ ys))(i := xs @ D)) OL' OP" "given p' FL = given p2 FL"
      "\<forall>x. x \<notin> objects OP \<longrightarrow> mem p' x = mem p2 x" "\<forall>b t. span_at p' b = Some t \<longrightarrow> (\<exists>t'. span_at p2 b = Some t' \<and> core t = core t')"
      "\<forall>b t. b \<in> set D \<longrightarrow> span_at p' b = Some t \<longrightarrow> nd_nnum t \<noteq> 0"
      using Cons.IH [OF p2(2) Cons.prems(2) e d3] by blast
    have "gc_loop p i x = Some p'"
      using s(1,2) True p1(1) p2(1) gc_release_eq [OF U(1) s1] p'(1) by (subst gc_loop.simps) simp
    moreover have "\<exists>t'. span_at p b = Some t' \<and> core t = core t'" if b: "span_at p' b = Some t" for b t
    proof -
      obtain t2 where t2: "span_at p2 b = Some t2" "core t = core t2" using p'(5) b by blast
      then have "span_at p1 b = Some t2" using p2(5) by (simp split: if_splits)
      moreover have "map_option core (span_at p1 b) = map_option core (span_at p b)" using p1(2) by (simp add: unlinked_def)
      ultimately show ?thesis using t2(2) by (cases "span_at p b") auto
    qed
    ultimately show ?thesis using p'(2-4,6) p2(3,4) by - (rule exI [of _ p'], rule exI [of _ D], rule exI [of _ OL'], simp del: fun_upd_apply)
  qed
qed

text \<open>No span of the slot \<open>i\<close> is unused.\<close>

definition all_used :: "mp_pool \<Rightarrow> nat \<Rightarrow> bool" where
  "all_used p i \<longleftrightarrow> (\<forall>a s. span_at p a = Some s \<longrightarrow> sl_slot s = Some i \<longrightarrow> nd_nnum s \<noteq> 0)"

lemma gc_slot_ok:
  assumes I: "pool_inv p FL DL OL OP" and i: "i < 26"
  shows "\<exists>p' DL' OL'. gc_loop p i (sp_head (slots p ! i)) = Some p' \<and> pool_inv p' FL DL' OL' OP \<and> given p' FL = given p FL \<and>
    (\<forall>x. x \<notin> objects OP \<longrightarrow> mem p' x = mem p x) \<and> all_used p' i \<and> (\<forall>j. all_used p j \<longrightarrow> all_used p' j)"
proof -
  have l: "lists p DL" using I by (simp add: pool_inv_def)
  obtain p' D OL' where p': "gc_loop p i (sp_head (slots p ! i)) = Some p'" "pool_inv p' FL (DL(i := [] @ D)) OL' OP" "given p' FL = given p FL"
    "\<forall>x. x \<notin> objects OP \<longrightarrow> mem p' x = mem p x" "\<forall>b t. span_at p' b = Some t \<longrightarrow> (\<exists>t'. span_at p b = Some t' \<and> core t = core t')"
    "\<forall>b t. b \<in> set D \<longrightarrow> span_at p' b = Some t \<longrightarrow> nd_nnum t \<noteq> 0"
    using gc_loop_ok [OF I i _ listsD(2) [OF l i], of "[]"] by auto
  have l': "lists p' (DL(i := D))" and f': "frees p' FL" using p'(2) by (simp_all add: pool_inv_def)
  have "all_used p' i"
    unfolding all_used_def
  proof (intro allI impI notI)
    fix a s assume a: "span_at p' a = Some s" "sl_slot s = Some i" and z: "nd_nnum s = 0"
    have "nd_free s \<noteq> NULL" using freesD(1,4) [OF f' a] z units(4) [OF i] by (cases "FL a") auto
    then have "a \<in> set D" using listsD(3) [OF l' i] a by (simp add: partial_def)
    then show False using p'(6) a(1) z by blast
  qed
  moreover have "all_used p' j" if "all_used p j" for j
    using that p'(5) unfolding all_used_def core_def by fastforce
  ultimately show ?thesis using p'(1-4) by blast
qed

lemma gc_slots_ok:
  assumes "pool_inv p FL DL OL OP" "set is \<subseteq> {..<26}"
  shows "\<exists>p' DL' OL'. gc_slots p is = Some p' \<and> pool_inv p' FL DL' OL' OP \<and> given p' FL = given p FL \<and>
    (\<forall>x. x \<notin> objects OP \<longrightarrow> mem p' x = mem p x) \<and> (\<forall>i \<in> set is. all_used p' i) \<and> (\<forall>j. all_used p j \<longrightarrow> all_used p' j)"
  using assms
proof (induction "is" arbitrary: p DL OL)
  case Nil
  then show ?case by (intro exI [of _ p] exI [of _ DL] exI [of _ OL]) simp
next
  case (Cons i "is")
  have i: "i < 26" using Cons.prems(2) by simp
  obtain p1 DL1 OL1 where p1: "gc_loop p i (sp_head (slots p ! i)) = Some p1" "pool_inv p1 FL DL1 OL1 OP" "given p1 FL = given p FL"
    "\<forall>x. x \<notin> objects OP \<longrightarrow> mem p1 x = mem p x" "all_used p1 i" "\<forall>j. all_used p j \<longrightarrow> all_used p1 j"
    using gc_slot_ok [OF Cons.prems(1) i] by blast
  have "set is \<subseteq> {..<26}" using Cons.prems(2) by simp
  then obtain p' DL' OL' where p': "gc_slots p1 is = Some p'" "pool_inv p' FL DL' OL' OP" "given p' FL = given p1 FL"
    "\<forall>x. x \<notin> objects OP \<longrightarrow> mem p' x = mem p1 x" "\<forall>i \<in> set is. all_used p' i" "\<forall>j. all_used p1 j \<longrightarrow> all_used p' j"
    using Cons.IH [OF p1(2)] by blast
  show ?case using p1 p' by (intro exI [of _ p'] exI [of _ DL'] exI [of _ OL']) simp
qed

subsection \<open>The pool of a thread\<close>

text \<open>What the program has been given by the pool and a thread that may have a cache; the cache is in a block of the pool.\<close>

definition tc_gives :: "mp_pool \<Rightarrow> mp_thread \<Rightarrow> (addr \<times> nat) set \<Rightarrow> bool" where
  "tc_gives p tc G \<longleftrightarrow> (case tc of
     None \<Rightarrow> gives_out p G
   | Some (a, c) \<Rightarrow> \<exists>m. TC_SIZE \<le> m \<and> (a, m) \<notin> G \<and> cached_gives p c (insert (a, m) G))"

text \<open>What happens to the blocks \<open>G\<close> of the program.\<close>

definition untouched :: "(addr \<times> nat) set \<Rightarrow> mp_pool \<Rightarrow> mp_pool \<Rightarrow> bool" where
  "untouched G p p' \<longleftrightarrow> (\<forall>r l x. (r, l) \<in> G \<longrightarrow> r \<le> x \<longrightarrow> x < r + l \<longrightarrow> mem p' x = mem p x)"

lemma untouchedI: "(\<And>r l x. (r, l) \<in> G \<Longrightarrow> r \<le> x \<Longrightarrow> x < r + l \<Longrightarrow> mem p' x = mem p x) \<Longrightarrow> untouched G p p'"
  unfolding untouched_def by blast

lemma untouched_mono: "untouched H p p' \<Longrightarrow> G \<subseteq> H \<Longrightarrow> untouched G p p'"
  unfolding untouched_def by blast

lemma untouched_trans: "untouched G p p1 \<Longrightarrow> untouched G p1 p2 \<Longrightarrow> untouched G p p2"
  unfolding untouched_def by simp

lemma tc_gives_None: "tc_gives p None G \<longleftrightarrow> gives_out p G"
  by (simp add: tc_gives_def)

lemma tc_gives_Some: "tc_gives p (Some (a, c)) G \<longleftrightarrow> (\<exists>m. TC_SIZE \<le> m \<and> (a, m) \<notin> G \<and> cached_gives p c (insert (a, m) G))"
  by (simp add: tc_gives_def)

lemma cached_apart:
  assumes "cached_gives p c G" "(q, m) \<in> G" "(r, l) \<in> G" "(r, l) \<noteq> (q, m)"
  shows "q + m \<le> r \<or> r + l \<le> q"
proof -
  obtain FL DL OL OP CL where I: "pool_inv p FL DL OL OP" "given p FL = G \<union> held CL" using assms(1) unfolding cached_gives_def by blast
  have "geo p OL OP" using I(1) by (simp add: pool_inv_def)
  then show ?thesis by (rule given_apart) (use assms I(2) in auto)
qed

lemma tc_apart:
  assumes "tc_gives p tc G" "(q, m) \<in> G" "(r, l) \<in> G" "(r, l) \<noteq> (q, m)"
  shows "q + m \<le> r \<or> r + l \<le> q"
proof (cases tc)
  case None
  then obtain FL DL OL OP where I: "pool_inv p FL DL OL OP" "G = given p FL" using assms(1) unfolding tc_gives_None None gives_out_def by blast
  have "geo p OL OP" using I(1) by (simp add: pool_inv_def)
  then show ?thesis by (rule given_apart) (use assms I(2) in auto)
next
  case (Some t)
  then obtain a c k where "cached_gives p c (insert (a, k) G)" using assms(1) by (cases t) (auto simp: tc_gives_Some)
  then show ?thesis by (rule cached_apart) (use assms in auto)
qed

lemma gc_ok:
  assumes A: "cached_gives p c G"
  shows "\<exists>p1 p' c'. cache_flush p c (filter free [0..<26]) = Some (p1, c') \<and> gc_slots p1 (filter free [0..<26]) = Some p' \<and>
    cached_gives p' c' G \<and> (\<forall>i < 26. free i \<longrightarrow> nl_num (c' ! i) = 0 \<and> all_used p' i) \<and> untouched G p p'"
proof -
  let ?is = "filter free [0..<26]"
  have s: "set ?is \<subseteq> {..<26}" by auto
  obtain p1 c1 where p1: "cache_flush p c ?is = Some (p1, c1)" "cached_gives p1 c1 G" "\<forall>i \<in> set ?is. nl_num (c1 ! i) = 0"
    "\<forall>r l x. (r, l) \<in> G \<longrightarrow> r \<le> x \<longrightarrow> x < r + l \<longrightarrow> mem p1 x = mem p x"
    using cache_flush_ok [OF A s] by blast
  obtain FL DL OL OP CL where I: "pool_inv p1 FL DL OL OP" and C: "cache_ok p1 c1 CL" and G: "given p1 FL = G \<union> held CL" "G \<inter> held CL = {}"
    using p1(2) unfolding cached_gives_def by blast
  have g: "geo p1 OL OP" using I by (simp add: pool_inv_def)
  obtain p' DL' OL' where p': "gc_slots p1 ?is = Some p'" "pool_inv p' FL DL' OL' OP" "given p' FL = given p1 FL"
    "\<forall>x. x \<notin> objects OP \<longrightarrow> mem p' x = mem p1 x" "\<forall>i \<in> set ?is. all_used p' i"
    using gc_slots_ok [OF I s] by blast
  have "cache_ok p' c1 CL" by (rule cache_keep [OF C]) (use held_word(2) [OF g G(1)] p'(4) in blast)
  then have "cached_gives p' c1 G" unfolding cached_gives_def using p'(2) G unfolding p'(3) [symmetric] by blast
  moreover have "mem p' x = mem p x" if "(r, l) \<in> G" "r \<le> x" "x < r + l" for r l x
  proof -
    have B: "(r, l) \<in> given p1 FL" using that(1) G(1) by simp
    have "x \<notin> objects OP" by (rule given_not_object [OF g B that(2,3)])
    then show ?thesis using p'(4) p1(4) that by simp
  qed
  then have "untouched G p p'" by (rule untouchedI)
  ultimately show ?thesis using p1(1,3) p'(1,5) by (intro exI [of _ p1] exI [of _ p'] exI [of _ c1]) simp
qed

lemma gc_plain_ok:
  assumes A: "gives_out p G"
  shows "\<exists>p'. gc_slots p (filter free [0..<26]) = Some p' \<and> gives_out p' G \<and> (\<forall>i < 26. free i \<longrightarrow> all_used p' i) \<and> untouched G p p'"
proof -
  let ?is = "filter free [0..<26]"
  have s: "set ?is \<subseteq> {..<26}" by auto
  obtain FL DL OL OP where I: "pool_inv p FL DL OL OP" "G = given p FL" using A unfolding gives_out_def by blast
  have g: "geo p OL OP" using I by (simp add: pool_inv_def)
  obtain p' DL' OL' where p': "gc_slots p ?is = Some p'" "pool_inv p' FL DL' OL' OP" "given p' FL = given p FL"
    "\<forall>x. x \<notin> objects OP \<longrightarrow> mem p' x = mem p x" "\<forall>i \<in> set ?is. all_used p' i"
    using gc_slots_ok [OF I(1) s] by blast
  have "untouched G p p'"
    by (rule untouchedI) (use p'(4) given_not_object [OF g] I(2) in blast)
  moreover have "gives_out p' G" using p'(2,3) I(2) unfolding gives_out_def by metis
  ultimately show ?thesis using p'(1,5) by auto
qed

end
