(* ===== verification/Cache_Theorems.thy ===== *)
theory Cache_Theorems
  imports Mempool_Theorems Mempool_Gc
begin

text \<open>
  The properties of the pool as a thread sees it, with or without a cache. The blocks that the cache holds,
  and the block it is in, are none of the program's.
\<close>

lemma tc_alloc_ok:
  assumes "tc_gives p tc G" "n \<le> 2 ^ 63" "os_ok os" "willing os S (j + 3) (mapped p)" "{SP_SIZE, 2 ^ bits1 * 8, page_up n} \<subseteq> S"
  shows "\<exists>p' tc' q m. paging_allocate os p tc n = Some (p', tc', Inr q) \<and> n \<le> m \<and> tc_gives p' tc' (insert (q, m) G) \<and> (q, m) \<notin> G \<and>
    untouched G p p' \<and> willing os S j (mapped p')"
proof (cases tc)
  case None
  then obtain FL DL OL OP where I: "pool_inv p FL DL OL OP" "G = given p FL" using assms(1) unfolding None tc_gives_None gives_out_def by blast
  obtain p' q m FL' DL' OL' OP' where p': "mp_alloc os p n = Some (p', Some q)" "n \<le> m" "pool_inv p' FL' DL' OL' OP'"
    "given p' FL' = insert (q, m) (given p FL)" "(q, m) \<notin> given p FL" "grows p p'" "willing os S j (mapped p')"
    using alloc_ok [OF I(1) assms(2,3,4,5)] by blast
  have g: "geo p OL OP" using I by (simp add: pool_inv_def)
  have "gives_out p' (insert (q, m) G)" by (rule gives_outI [OF p'(3)]) (simp add: p'(4) I(2))
  moreover have "untouched G p p'" by (rule untouchedI) (use given_owned [OF g] I(2) p'(6) in \<open>auto simp: grows_def\<close>)
  moreover have "paging_allocate os p tc n = Some (p', None, Inr q)" using None p'(1) by (simp add: paging_allocate_def)
  ultimately show ?thesis using p'(2,5,7) I(2) tc_gives_None by blast
next
  case (Some t)
  then obtain a c m0 where t: "tc = Some (a, c)" "TC_SIZE \<le> m0" "(a, m0) \<notin> G" "cached_gives p c (insert (a, m0) G)"
    using assms(1) by (cases t) (auto simp: tc_gives_Some)
  obtain p' c' q m where p': "cached_alloc os p c n = Some (p', c', Some q)" "n \<le> m" "cached_gives p' c' (insert (q, m) (insert (a, m0) G))"
    "(q, m) \<notin> insert (a, m0) G" "\<forall>r l x. (r, l) \<in> insert (a, m0) G \<longrightarrow> r \<le> x \<longrightarrow> x < r + l \<longrightarrow> mem p' x = mem p x" "willing os S j (mapped p')"
    using cached_alloc_ok [OF t(4) assms(2-5)] by blast
  have "cached_gives p' c' (insert (a, m0) (insert (q, m) G))" using p'(3) by (simp only: insert_commute)
  then have "tc_gives p' (Some (a, c')) (insert (q, m) G)" using t(2,3) p'(4) unfolding tc_gives_Some by blast
  moreover have "untouched G p p'" by (rule untouchedI) (use p'(5) in blast)
  moreover have "paging_allocate os p tc n = Some (p', Some (a, c'), Inr q)" using t(1) p'(1) by (simp add: paging_allocate_def)
  ultimately show ?thesis using p'(2,4,6) by blast
qed

lemma tc_dealloc_ok:
  assumes "tc_gives p tc G" "(q, m) \<in> G"
  shows "\<exists>p' tc'. paging_deallocate p tc q = Some (p', tc', True) \<and> tc_gives p' tc' (G - {(q, m)}) \<and> untouched (G - {(q, m)}) p p'"
proof (cases tc)
  case None
  then obtain FL DL OL OP where I: "pool_inv p FL DL OL OP" "G = given p FL" using assms(1) unfolding None tc_gives_None gives_out_def by blast
  have g: "geo p OL OP" using I by (simp add: pool_inv_def)
  have q: "(q, m) \<in> given p FL" using assms(2) I(2) by simp
  obtain p' FL' DL' OL' where p': "mp_dealloc p q = Some (p', True)" "pool_inv p' FL' DL' OL' OP" "given p' FL' = given p FL - {(q, m)}"
    "\<And>x. x \<notin> objects OP \<Longrightarrow> x \<noteq> q \<Longrightarrow> mem p' x = mem p x"
    using dealloc_ok [OF I(1) q] by blast
  have "mem p' x = mem p x" if "(r, l) \<in> G - {(q, m)}" "r \<le> x" "x < r + l" for r l x
  proof (rule given_frame [OF g _ q _ _ that(2,3)])
    show "mem p' y = mem p y" if "y \<notin> objects OP" "y \<noteq> q" for y by (rule p'(4) [OF that])
  qed (use that(1) I(2) in auto)
  then have "untouched (G - {(q, m)}) p p'" by (rule untouchedI)
  moreover have "gives_out p' (G - {(q, m)})" by (rule gives_outI [OF p'(2)]) (simp add: p'(3) I(2))
  moreover have "paging_deallocate p tc q = Some (p', None, True)" using None p'(1) by (simp add: paging_deallocate_def)
  ultimately show ?thesis using tc_gives_None by blast
next
  case (Some t)
  then obtain a c m0 where t: "tc = Some (a, c)" "TC_SIZE \<le> m0" "(a, m0) \<notin> G" "cached_gives p c (insert (a, m0) G)"
    using assms(1) by (cases t) (auto simp: tc_gives_Some)
  have qG: "(q, m) \<in> insert (a, m0) G" using assms(2) by simp
  obtain p' c' where p': "cached_dealloc p c q = Some (p', c', True)" "cached_gives p' c' (insert (a, m0) G - {(q, m)})"
    "\<forall>r l x. (r, l) \<in> insert (a, m0) G - {(q, m)} \<longrightarrow> r \<le> x \<longrightarrow> x < r + l \<longrightarrow> mem p' x = mem p x"
    using cached_dealloc_ok [OF t(4) qG] by (elim exE conjE) (rule that)
  have "insert (a, m0) G - {(q, m)} = insert (a, m0) (G - {(q, m)})" using t(3) assms(2) by auto
  then have "tc_gives p' (Some (a, c')) (G - {(q, m)})" using p'(2) t(2,3) unfolding tc_gives_Some by auto
  moreover have "untouched (G - {(q, m)}) p p'" by (rule untouchedI) (use p'(3) in blast)
  moreover have "paging_deallocate p tc q = Some (p', Some (a, c'), True)" using t(1) p'(1) by (simp add: paging_deallocate_def)
  ultimately show ?thesis by blast
qed

lemma tc_init_ok:
  assumes "gives_out p G" "os_ok os" "willing os S (j + 3) (mapped p)" "{SP_SIZE, 2 ^ bits1 * 8, page_up TC_SIZE} \<subseteq> S"
  shows "\<exists>p' a c. tc_init os p None = Some (p', Some (a, c)) \<and> tc_gives p' (Some (a, c)) G \<and> untouched G p p' \<and> willing os S j (mapped p')"
proof -
  have n: "TC_SIZE \<le> 2 ^ 63" by (simp add: TC_SIZE_def sl_size_def)
  obtain FL DL OL OP where I: "pool_inv p FL DL OL OP" "G = given p FL" using assms(1) unfolding gives_out_def by blast
  obtain p' q m FL' DL' OL' OP' where p': "mp_alloc os p TC_SIZE = Some (p', Some q)" "TC_SIZE \<le> m" "pool_inv p' FL' DL' OL' OP'"
    "given p' FL' = insert (q, m) (given p FL)" "(q, m) \<notin> given p FL" "grows p p'" "willing os S j (mapped p')"
    using alloc_ok [OF I(1) n assms(2,3,4)] by blast
  have g: "geo p OL OP" using I by (simp add: pool_inv_def)
  have "gives_out p' (insert (q, m) G)" by (rule gives_outI [OF p'(3)]) (simp add: p'(4) I(2))
  then have "tc_gives p' (Some (q, cache_init p')) G" using cache_init_ok p'(2,5) I(2) unfolding tc_gives_Some by blast
  moreover have "untouched G p p'" by (rule untouchedI) (use given_owned [OF g] I(2) p'(6) in \<open>auto simp: grows_def\<close>)
  moreover have "tc_init os p None = Some (p', Some (q, cache_init p'))" using p'(1) by (simp add: tc_init_def)
  ultimately show ?thesis using p'(7) by blast
qed

lemma tc_cleanup_ok:
  assumes "tc_gives p tc G"
  shows "\<exists>p'. tc_cleanup p tc = Some (p', None) \<and> gives_out p' G \<and> untouched G p p'"
proof (cases tc)
  case None
  then show ?thesis using assms by (simp add: tc_cleanup_def tc_gives_None untouched_def)
next
  case (Some t)
  then obtain a c m0 where t: "tc = Some (a, c)" "(a, m0) \<notin> G" "cached_gives p c (insert (a, m0) G)"
    using assms(1) by (cases t) (auto simp: tc_gives_Some)
  obtain p1 c1 where p1: "cache_cleanup p c = Some (p1, c1)" "gives_out p1 (insert (a, m0) G)"
    "\<forall>r l x. (r, l) \<in> insert (a, m0) G \<longrightarrow> r \<le> x \<longrightarrow> x < r + l \<longrightarrow> mem p1 x = mem p x"
    using cache_cleanup_ok [OF t(3)] by (elim exE conjE) (rule that)
  have 1: "tc_gives p1 None (insert (a, m0) G)" "(a, m0) \<in> insert (a, m0) G" using p1(2) by (simp_all add: tc_gives_None)
  obtain p' tc' where p': "paging_deallocate p1 None a = Some (p', tc', True)" "tc_gives p' tc' (insert (a, m0) G - {(a, m0)})"
    "untouched (insert (a, m0) G - {(a, m0)}) p1 p'" using tc_dealloc_ok [OF 1] by blast
  have G: "insert (a, m0) G - {(a, m0)} = G" using t(2) by simp
  have d: "mp_dealloc p1 a = Some (p', True)" "tc' = None" using p'(1) by (auto simp: paging_deallocate_def split: bind_splits)
  have "untouched G p p1" by (rule untouchedI) (use p1(3) in blast)
  then have "untouched G p p'" using p'(3) unfolding G by (rule untouched_trans)
  moreover have "gives_out p' G" using p'(2) unfolding G d(2) tc_gives_None .
  moreover have "tc_cleanup p tc = Some (p', None)" using t(1) p1(1) d(1) by (simp add: tc_cleanup_def)
  ultimately show ?thesis by blast
qed

text \<open>A thread with a cache and one block.\<close>

lemma demo_thread: "\<exists>p a c q m. tc_gives p (Some (a, c)) {} \<and> willing demo_os demo_sizes 3 (mapped p)"
proof -
  obtain p b where p: "gives_out p {}" "tidy (mapped p)" "mapped p = [b \<mapsto> SP_SIZE]" using demo_start by blast
  have s: "{SP_SIZE, 2 ^ bits1 * 8, page_up TC_SIZE} \<subseteq> demo_sizes"
    by (simp add: demo_sizes_def TC_SIZE_def sl_size_def page_up_def PG_SIZE_def)
  show ?thesis using tc_init_ok [OF p(1) demo_os_ok demo_start_willing [OF p(2,3)] s] by blast
qed

lemma demo_thread_one: "\<exists>p a c q m. tc_gives p (Some (a, c)) {(q, m)}"
proof -
  obtain p a c where p: "tc_gives p (Some (a, c)) {}" "willing demo_os demo_sizes (0 + 3) (mapped p)" using demo_thread by auto
  have s: "(100::nat) \<le> 2 ^ 63" "{SP_SIZE, 2 ^ bits1 * 8, page_up 100} \<subseteq> demo_sizes" by (simp_all add: demo_sizes_def)
  obtain p' tc' q m where q: "paging_allocate demo_os p (Some (a, c)) 100 = Some (p', tc', Inr q)" "tc_gives p' tc' {(q, m)}"
    using tc_alloc_ok [OF p(1) s(1) demo_os_ok p(2) s(2)] by blast
  then obtain c' where "tc' = Some (a, c')" by (auto simp: paging_allocate_def split: bind_splits)
  then show ?thesis using q(2) by blast
qed





lemma pool_block_facts:
  assumes I: "pool_inv p FL DL OL OP" and q: "(q, m) \<in> given p FL"
  shows "in_memory p q m" "span_at p a = Some s \<Longrightarrow> q + m \<le> a \<or> a + SPAN_SIZE \<le> q"
proof -
  have g: "geo p OL OP" using I by (simp add: pool_inv_def)
  obtain b t where b: "span_at p b = Some t" "(q, m) \<in> given1 t (FL b)" using q unfolding given_iff by blast
  show "in_memory p q m" by (rule given1_inside(5) [OF g b])
  show "span_at p a = Some s \<Longrightarrow> q + m \<le> a \<or> a + SPAN_SIZE \<le> q" by (rule given_off_objects [OF g b])
qed

lemma cached_write:
  assumes A: "cached_gives p c G" and q: "(q, m) \<in> G" and w: "\<forall>x. x < q \<or> q + m \<le> x \<longrightarrow> w x = mem p x"
  shows "cached_gives (p\<lparr>mem := w\<rparr>) c G"
proof -
  obtain FL DL OL OP CL where I: "pool_inv p FL DL OL OP" and C: "cache_ok p c CL" and G: "given p FL = G \<union> held CL" "G \<inter> held CL = {}"
    using A unfolding cached_gives_def by blast
  have g: "geo p OL OP" using I by (simp add: pool_inv_def)
  have qG: "(q, m) \<in> given p FL" using q G(1) by blast
  note W = write_ok [OF I qG w]
  have "cache_ok (p\<lparr>mem := w\<rparr>) c CL"
  proof (rule cache_keep [OF C])
    fix j :: nat and r assume j: "j < 26" "r \<in> set (CL j)"
    have r: "(r, unit_size j) \<in> given p FL" by (rule held_word(1) [OF g G(1) j(2,1)])
    have "(r, unit_size j) \<noteq> (q, m)" using q G(2) j by (auto simp: held_def)
    then have "q + m \<le> r \<or> r + unit_size j \<le> q" using given_apart [OF g qG r] by metis
    then have "r < q \<or> q + m \<le> r" using units(1) [OF j(1)] by linarith
    then have "w r = mem p r" using w by blast
    then show "mem (p\<lparr>mem := w\<rparr>) r = mem p r" by simp
  qed
  then show ?thesis using W G unfolding cached_gives_def by metis
qed

lemma tc_write:
  assumes A: "tc_gives p tc G" and q: "(q, m) \<in> G" and w: "\<forall>x. x < q \<or> q + m \<le> x \<longrightarrow> w x = mem p x"
  shows "tc_gives (p\<lparr>mem := w\<rparr>) tc G"
proof (cases tc)
  case None
  then obtain FL DL OL OP where I: "pool_inv p FL DL OL OP" "G = given p FL" using A unfolding None tc_gives_None gives_out_def by blast
  have "(q, m) \<in> given p FL" using q I(2) by simp
  note W = write_ok [OF I(1) this w]
  show ?thesis unfolding None tc_gives_None by (rule gives_outI [OF W(1)]) (simp add: W(2) I(2))
next
  case (Some t)
  then obtain a c k where t: "tc = Some (a, c)" "TC_SIZE \<le> k" "(a, k) \<notin> G" "cached_gives p c (insert (a, k) G)" using A by (cases t) (auto simp: tc_gives_Some)
  have "cached_gives (p\<lparr>mem := w\<rparr>) c (insert (a, k) G)" by (rule cached_write [OF t(4) _ w]) (use q in simp)
  then show ?thesis using t(2,3) unfolding t(1) tc_gives_Some by blast
qed

lemma tc_block_facts:
  assumes A: "tc_gives p tc G" and q: "(q, m) \<in> G"
  shows "in_memory p q m" "span_at p a = Some s \<Longrightarrow> q + m \<le> a \<or> a + SPAN_SIZE \<le> q"
proof -
  obtain FL DL OL OP where I: "pool_inv p FL DL OL OP" "(q, m) \<in> given p FL"
  proof (cases tc)
    case None
    then show ?thesis using A q that unfolding None tc_gives_None gives_out_def by blast
  next
    case (Some t)
    then obtain b c k where "cached_gives p c (insert (b, k) G)" using A by (cases t) (auto simp: tc_gives_Some)
    then show ?thesis using q that unfolding cached_gives_def by blast
  qed
  show "in_memory p q m" by (rule pool_block_facts(1) [OF I])
  show "span_at p a = Some s \<Longrightarrow> q + m \<le> a \<or> a + SPAN_SIZE \<le> q" by (rule pool_block_facts(2) [OF I])
qed



text \<open>When a thread ends, the pool has back all that its cache held, and the block of the cache: given out are the blocks of the program.\<close>

theorem tc_cleanup_correct:
  assumes "tc_gives p tc G"
  shows "\<exists>p'. tc_cleanup p tc = Some (p', None) \<and> gives_out p' G \<and> untouched G p p'"
  by (rule tc_cleanup_ok [OF assms])

theorem tc_cleanup_correct_witness:
  "\<exists>p a c q m p'. tc_cleanup p (Some (a, c)) = Some (p', None) \<and> gives_out p' {(q, m)}"
proof -
  obtain p a c q m where p: "tc_gives p (Some (a, c)) {(q, m)}" using demo_thread_one by blast
  obtain p' where "tc_cleanup p (Some (a, c)) = Some (p', None)" "gives_out p' {(q, m)}" using tc_cleanup_correct [OF p] by (elim exE conjE) (rule that)
  then show ?thesis by blast
qed

text \<open>C14. Garbage collection comes to an end. In the slots whose lock it gets, every span that is left has a block given out and the
  cache of the thread holds no block; the blocks of the program are as before.\<close>

theorem mp_gc_correct:
  assumes "tc_gives p tc G"
  shows "\<exists>p' tc'. mp_gc free p tc = Some (p', tc') \<and> tc_gives p' tc' G \<and> (\<forall>i < 26. free i \<longrightarrow> all_used p' i) \<and>
    (\<forall>a c i. tc' = Some (a, c) \<longrightarrow> i < 26 \<longrightarrow> free i \<longrightarrow> nl_num (c ! i) = 0) \<and> untouched G p p'"
proof (cases tc)
  case None
  then obtain p' where "gc_slots p (filter free [0..<26]) = Some p'" "gives_out p' G" "\<forall>i < 26. free i \<longrightarrow> all_used p' i" "untouched G p p'"
    using gc_plain_ok [of p G free] assms by (auto simp: tc_gives_None)
  then show ?thesis using None by (intro exI [of _ p'] exI [of _ None]) (simp add: mp_gc_def tc_gc_def sl_size_def tc_gives_None)
next
  case (Some t)
  then obtain a c m0 where t: "tc = Some (a, c)" "TC_SIZE \<le> m0" "(a, m0) \<notin> G" "cached_gives p c (insert (a, m0) G)"
    using assms(1) by (cases t) (auto simp: tc_gives_Some)
  obtain p1 p' c' where p': "cache_flush p c (filter free [0..<26]) = Some (p1, c')" "gc_slots p1 (filter free [0..<26]) = Some p'"
    "cached_gives p' c' (insert (a, m0) G)" "\<forall>i < 26. free i \<longrightarrow> nl_num (c' ! i) = 0 \<and> all_used p' i" "untouched (insert (a, m0) G) p p'"
    using gc_ok [OF t(4), of free] by blast
  have "tc_gives p' (Some (a, c')) G" using p'(3) t(2,3) unfolding tc_gives_Some by blast
  moreover have "untouched G p p'" by (rule untouched_mono [OF p'(5)]) blast
  moreover have "mp_gc free p tc = Some (p', Some (a, c'))" using t(1) p'(1,2) by (simp add: mp_gc_def tc_gc_def sl_size_def)
  ultimately show ?thesis using p'(4) by auto
qed

theorem mp_gc_correct_witness:
  "\<exists>p a c q m p' tc'. mp_gc (\<lambda>i. i \<noteq> 3) p (Some (a, c)) = Some (p', tc') \<and> tc_gives p' tc' {(q, m)} \<and> all_used p' 2"
proof -
  obtain p a c q m where p: "tc_gives p (Some (a, c)) {(q, m)}" using demo_thread_one by blast
  obtain p' tc' where p': "mp_gc (\<lambda>i. i \<noteq> 3) p (Some (a, c)) = Some (p', tc')" "tc_gives p' tc' {(q, m)}"
    "\<forall>i < 26. i \<noteq> 3 \<longrightarrow> all_used p' i"
    using mp_gc_correct [OF p, of "\<lambda>i. i \<noteq> 3"] by (elim exE conjE) (rule that)
  have "all_used p' 2" using p'(3) [rule_format, of 2] by simp
  then show ?thesis using p'(1,2) by blast
qed

end
