(* ===== verification/Gc_Ptr.thy ===== *)
theory Gc_Ptr
  imports Vhwd_Exception
begin

text \<open>
  The garbage collector of \<open>inc/vhwd/memory/gc_ptr.h\<close> and \<open>src/vhwd/memory/gc_ptr.cpp\<close>: collected objects in
  a list, the handles \<open>gc_ptr\<close> outside of objects in a doubly linked list between two sentinels, and a
  collection that marks what the handles reach, pass by pass, and sweeps the list of objects.

  What \<open>_gc_mark\<close> of an object appends, which its class defines, is the field \<open>gc_refs\<close>; destructors
  only destroy members. \<open>fits n\<close>: a queue can hold \<open>n\<close> entries; otherwise appending throws \<open>XBadAlloc\<close>.
  \<open>None\<close> is an access through a NULL or dangling pointer. Logging and the timer are left out.
\<close>

subsection \<open>State\<close>

datatype gc_tag = GC_TAG_INIT | GC_TAG_FLAG | GC_TAG_MARK

record gc_obj =
  gc_next :: ptr
  gc_tags :: gc_tag
  gc_refs :: "ptr list"

record gc_handle =
  m_ptr :: ptr
  h_next :: ptr
  h_prev :: ptr

record gc_state =
  gobjs :: "addr \<rightharpoonup> gc_obj"
  handles :: "addr \<rightharpoonup> gc_handle"
  link_head :: addr
  link_tail :: addr
  all_objects :: ptr
  object_count :: u32
  object_count_last :: u32
  steping_delta :: u32
  cur_addr :: addr
  cur_size :: nat

definition upd_obj :: "gc_state \<Rightarrow> addr \<Rightarrow> (gc_obj \<Rightarrow> gc_obj) \<Rightarrow> gc_state option" where
  "upd_obj g a f = do { ob \<leftarrow> gobjs g a; Some (g\<lparr>gobjs := (gobjs g)(a \<mapsto> f ob)\<rparr>) }"

definition upd_handle :: "gc_state \<Rightarrow> addr \<Rightarrow> (gc_handle \<Rightarrow> gc_handle) \<Rightarrow> gc_state option" where
  "upd_handle g a f = do { h \<leftarrow> handles g a; Some (g\<lparr>handles := (handles g)(a \<mapsto> f h)\<rparr>) }"

text \<open>The constructor of \<open>gc_state\<close>.\<close>

definition gc_state_new :: "addr \<Rightarrow> addr \<Rightarrow> gc_state" where
  "gc_state_new lh lt =
    \<lparr>gobjs = Map.empty,
     handles = [lh \<mapsto> \<lparr>m_ptr = NULL, h_next = Some lt, h_prev = NULL\<rparr>, lt \<mapsto> \<lparr>m_ptr = NULL, h_next = NULL, h_prev = Some lh\<rparr>],
     link_head = lh, link_tail = lt, all_objects = NULL, object_count = 0, object_count_last = 0,
     steping_delta = 1024 * 128, cur_addr = 0, cur_size = 0\<rparr>"

subsection \<open>Handles\<close>

definition cur_test :: "gc_state \<Rightarrow> addr \<Rightarrow> bool" where
  "cur_test g p \<longleftrightarrow> (p + 2 ^ 64 - cur_addr g) mod 2 ^ 64 < cur_size g"

text \<open>\<open>gc_state::insert\<close>: a handle in the object under construction is not linked.\<close>

definition gc_insert :: "gc_state \<Rightarrow> addr \<Rightarrow> gc_state option" where
  "gc_insert g p = (if \<not> cur_test g p then do {
       hh \<leftarrow> handles g (link_head g);
       nx \<leftarrow> h_next hh;
       hn \<leftarrow> handles g nx;
       wassert (h_prev hn \<noteq> NULL);
       g \<leftarrow> upd_handle g p (\<lambda>h. h\<lparr>h_next := Some nx, h_prev := Some (link_head g)\<rparr>);
       g \<leftarrow> upd_handle g nx (\<lambda>h. h\<lparr>h_prev := Some p\<rparr>);
       upd_handle g (link_head g) (\<lambda>h. h\<lparr>h_next := Some p\<rparr>) }
     else upd_handle g p (\<lambda>h. h\<lparr>h_next := NULL, h_prev := NULL\<rparr>))"

definition gc_erase :: "gc_state \<Rightarrow> addr \<Rightarrow> gc_state option" where
  "gc_erase g p = do {
     h \<leftarrow> handles g p;
     case h_prev h of
       None \<Rightarrow> Some g
     | Some p1 \<Rightarrow> do {
         g \<leftarrow> upd_handle g p1 (\<lambda>t. t\<lparr>h_next := h_next h\<rparr>);
         p2 \<leftarrow> h_next h;
         upd_handle g p2 (\<lambda>t. t\<lparr>h_prev := Some p1\<rparr>) } }"

text \<open>\<open>gc_ptr\<close>: its constructors, destructor and \<open>reset\<close>.\<close>

definition gc_ptr_new :: "gc_state \<Rightarrow> addr \<Rightarrow> ptr \<Rightarrow> gc_state option" where
  "gc_ptr_new g at v = gc_insert (g\<lparr>handles := (handles g)(at \<mapsto> \<lparr>m_ptr = v, h_next = NULL, h_prev = NULL\<rparr>)\<rparr>) at"

definition gc_ptr_delete :: "gc_state \<Rightarrow> addr \<Rightarrow> gc_state option" where
  "gc_ptr_delete g at = do { g \<leftarrow> gc_erase g at; Some (g\<lparr>handles := (handles g)(at := None)\<rparr>) }"

definition gc_ptr_reset :: "gc_state \<Rightarrow> addr \<Rightarrow> ptr \<Rightarrow> gc_state option" where
  "gc_ptr_reset g at v = upd_handle g at (\<lambda>h. h\<lparr>m_ptr := v\<rparr>)"

subsection \<open>Marking\<close>

text \<open>\<open>gc_mark_queue::append\<close>.\<close>

definition queue_append :: "(nat \<Rightarrow> bool) \<Rightarrow> gc_state \<Rightarrow> addr list \<Rightarrow> ptr \<Rightarrow> (gc_state \<times> (exn + addr list)) option" where
  "queue_append fits g q p = (case p of
     None \<Rightarrow> Some (g, Inr q)
   | Some a \<Rightarrow> do {
       ob \<leftarrow> gobjs g a;
       if gc_tags ob = GC_TAG_MARK then Some (g, Inr q)
       else do {
         g \<leftarrow> upd_obj g a (\<lambda>ob. ob\<lparr>gc_tags := GC_TAG_MARK\<rparr>);
         Some (g, if fits (length q + 1) then Inr (q @ [a]) else Inl XBadAlloc) } })"

primrec append_range :: "(nat \<Rightarrow> bool) \<Rightarrow> gc_state \<Rightarrow> addr list \<Rightarrow> ptr list \<Rightarrow> (gc_state \<times> (exn + addr list)) option" where
  "append_range fits g q [] = Some (g, Inr q)"
| "append_range fits g q (p # ps) = do {
     (g, r) \<leftarrow> queue_append fits g q p;
     case r of Inl e \<Rightarrow> Some (g, Inl e) | Inr q \<Rightarrow> append_range fits g q ps }"

definition gc_mark :: "(nat \<Rightarrow> bool) \<Rightarrow> gc_state \<Rightarrow> addr list \<Rightarrow> addr \<Rightarrow> (gc_state \<times> (exn + addr list)) option" where
  "gc_mark fits g q a = do { ob \<leftarrow> gobjs g a; append_range fits g q (gc_refs ob) }"

text \<open>The objects that handles point to, marked whether they are already or not.\<close>

partial_function (option) mark_roots :: "(nat \<Rightarrow> bool) \<Rightarrow> gc_state \<Rightarrow> addr list \<Rightarrow> ptr \<Rightarrow> (gc_state \<times> (exn + addr list)) option" where
  "mark_roots fits g q p = (if p = Some (link_tail g) then Some (g, Inr q) else do {
     a \<leftarrow> p;
     h \<leftarrow> handles g a;
     case m_ptr h of
       None \<Rightarrow> mark_roots fits g q (h_next h)
     | Some x \<Rightarrow> do {
         g \<leftarrow> upd_obj g x (\<lambda>ob. ob\<lparr>gc_tags := GC_TAG_MARK\<rparr>);
         (g, r) \<leftarrow> gc_mark fits g q x;
         case r of Inl e \<Rightarrow> Some (g, Inl e) | Inr q \<Rightarrow> mark_roots fits g q (h_next h) } })"

text \<open>One pass over the queue, and the passes until it is empty.\<close>

primrec mark_pass :: "(nat \<Rightarrow> bool) \<Rightarrow> gc_state \<Rightarrow> addr list \<Rightarrow> addr list \<Rightarrow> (gc_state \<times> (exn + addr list)) option" where
  "mark_pass fits g q2 [] = Some (g, Inr q2)"
| "mark_pass fits g q2 (a # q1) = do {
     (g, r) \<leftarrow> gc_mark fits g q2 a;
     case r of Inl e \<Rightarrow> Some (g, Inl e) | Inr q2 \<Rightarrow> mark_pass fits g q2 q1 }"

partial_function (option) mark_all :: "(nat \<Rightarrow> bool) \<Rightarrow> gc_state \<Rightarrow> addr list \<Rightarrow> (gc_state \<times> (exn + unit)) option" where
  "mark_all fits g q1 = (if q1 = [] then Some (g, Inr ()) else do {
     (g, r) \<leftarrow> mark_pass fits g [] q1;
     case r of Inl e \<Rightarrow> Some (g, Inl e) | Inr q2 \<Rightarrow> mark_all fits g q2 })"

subsection \<open>Sweeping\<close>

definition gc_destroy :: "gc_state \<Rightarrow> addr \<Rightarrow> gc_state option" where
  "gc_destroy g a = do {
     ob \<leftarrow> gobjs g a;
     Some (g\<lparr>object_count := object_count g - 1, gobjs := (gobjs g)(a := None)\<rparr>) }"

text \<open>\<open>conn\<close>: the list of the objects that have been kept.\<close>

partial_function (option) gc_sweep :: "gc_state \<Rightarrow> ptr \<Rightarrow> ptr \<Rightarrow> (gc_state \<times> ptr) option" where
  "gc_sweep g p conn = (case p of
     None \<Rightarrow> Some (g, conn)
   | Some x \<Rightarrow> do {
       ob \<leftarrow> gobjs g x;
       if gc_tags ob = GC_TAG_MARK then do {
         g \<leftarrow> upd_obj g x (\<lambda>ob. ob\<lparr>gc_tags := GC_TAG_FLAG, gc_next := conn\<rparr>);
         gc_sweep g (gc_next ob) (Some x) }
       else do {
         g \<leftarrow> gc_destroy g x;
         gc_sweep g (gc_next ob) conn } })"

partial_function (option) clear_tags :: "gc_state \<Rightarrow> ptr \<Rightarrow> gc_state option" where
  "clear_tags g p = (case p of
     None \<Rightarrow> Some g
   | Some x \<Rightarrow> do {
       g \<leftarrow> upd_obj g x (\<lambda>ob. ob\<lparr>gc_tags := GC_TAG_FLAG\<rparr>);
       ob \<leftarrow> gobjs g x;
       clear_tags g (gc_next ob) })"

text \<open>\<open>gc_nolock\<close>. Exceptions of the passes are caught, which ends the collection (\<open>GaveUp\<close>), those of
  the first step are not.\<close>

datatype gc_end = Collected | GaveUp

definition gc_nolock :: "(nat \<Rightarrow> bool) \<Rightarrow> gc_state \<Rightarrow> bool \<Rightarrow> (gc_state \<times> (exn + gc_end)) option" where
  "gc_nolock fits g force = do {
     g \<leftarrow> (if force then clear_tags g (all_objects g) else Some g);
     hh \<leftarrow> handles g (link_head g);
     (g, r) \<leftarrow> mark_roots fits g [] (h_next hh);
     case r of
       Inl e \<Rightarrow> Some (g, Inl e)
     | Inr q \<Rightarrow> do {
         (g, r) \<leftarrow> mark_all fits g q;
         case r of
           Inl e \<Rightarrow> Some (g, Inr GaveUp)
         | Inr _ \<Rightarrow> do {
             (g, conn) \<leftarrow> gc_sweep (g\<lparr>all_objects := NULL\<rparr>) (all_objects g) NULL;
             let g = g\<lparr>all_objects := conn\<rparr>;
             Some (g\<lparr>object_count_last := object_count g\<rparr>, Inr Collected) } } }"

declare mark_roots.simps [code] mark_all.simps [code] gc_sweep.simps [code] clear_tags.simps [code]

subsection \<open>New objects\<close>

definition gc_link :: "gc_state \<Rightarrow> addr \<Rightarrow> gc_state option" where
  "gc_link g p = do {
     g \<leftarrow> upd_obj g p (\<lambda>ob. ob\<lparr>gc_next := all_objects g\<rparr>);
     Some (g\<lparr>all_objects := Some p, object_count := object_count g + 1\<rparr>) }"

text \<open>\<open>gc_new\<close>: \<open>alloc\<close> is \<open>mp_alloc\<close>, which gives an address or NULL; \<open>ctor\<close> the constructor of the
  class, which may throw; \<open>at\<close> the place of the handle that is returned.\<close>

definition gc_alloc :: "(nat \<Rightarrow> bool) \<Rightarrow> (gc_state \<Rightarrow> ptr) \<Rightarrow> gc_state \<Rightarrow> (gc_state \<times> (exn + addr)) option" where
  "gc_alloc fits alloc g = (case alloc g of
     Some p \<Rightarrow> Some (g, Inr p)
   | None \<Rightarrow> do {
       (g, r) \<leftarrow> gc_nolock fits g True;
       Some (g, case r of
         Inl e \<Rightarrow> Inl e
       | Inr _ \<Rightarrow> (case alloc g of None \<Rightarrow> Inl XBadAlloc | Some p \<Rightarrow> Inr p)) })"

definition gc_construct :: "(addr \<Rightarrow> gc_state \<Rightarrow> (gc_state \<times> (exn + unit)) option) \<Rightarrow> gc_state \<Rightarrow> addr \<Rightarrow> nat \<Rightarrow> addr \<Rightarrow>
    (gc_state \<times> (exn + addr)) option" where
  "gc_construct ctor g p sz at = do {
     let (a, s) = (cur_addr g, cur_size g);
     let g = g\<lparr>cur_addr := p, cur_size := sz\<rparr>;
     (g, r) \<leftarrow> ctor p (g\<lparr>gobjs := (gobjs g)(p \<mapsto> \<lparr>gc_next = NULL, gc_tags = GC_TAG_INIT, gc_refs = []\<rparr>)\<rparr>);
     case r of
       Inl e \<Rightarrow> Some (g\<lparr>cur_addr := a, cur_size := s, gobjs := (gobjs g)(p := None)\<rparr>, Inl e)
     | Inr _ \<Rightarrow> do {
         g \<leftarrow> gc_ptr_new g at (Some p);
         g \<leftarrow> gc_link (g\<lparr>cur_addr := a, cur_size := s\<rparr>) p;
         Some (g, Inr p) } }"

definition gc_new :: "(nat \<Rightarrow> bool) \<Rightarrow> (gc_state \<Rightarrow> ptr) \<Rightarrow> (addr \<Rightarrow> gc_state \<Rightarrow> (gc_state \<times> (exn + unit)) option) \<Rightarrow>
    gc_state \<Rightarrow> nat \<Rightarrow> addr \<Rightarrow> (gc_state \<times> (exn + addr)) option" where
  "gc_new fits alloc ctor g sz at = do {
     (g, r) \<leftarrow> gc_alloc fits alloc g;
     case r of
       Inl e \<Rightarrow> Some (g, Inl e)
     | Inr p \<Rightarrow> do {
         wassert (object_count_last g \<le> object_count g);
         (g, r) \<leftarrow> (if object_count_last g + steping_delta g < object_count g then gc_nolock fits g False else Some (g, Inr Collected));
         case r of
           Inl e \<Rightarrow> Some (g, Inl e)
         | Inr _ \<Rightarrow> gc_construct ctor g p sz at } }"

text \<open>A constructor that only sets the members of the object.\<close>

definition set_refs :: "ptr list \<Rightarrow> addr \<Rightarrow> gc_state \<Rightarrow> (gc_state \<times> (exn + unit)) option" where
  "set_refs ps a g = do { g \<leftarrow> upd_obj g a (\<lambda>ob. ob\<lparr>gc_refs := ps\<rparr>); Some (g, Inr ()) }"

end
