(* ===== verification/Gc_Mark.thy ===== *)
theory Gc_Mark
  imports Gc_Ptr
begin

text \<open>
  Marking. \<open>set_tags t g S\<close> is \<open>g\<close> with the tag \<open>t\<close> in the objects \<open>S\<close>: all that a marking routine does is
  such a change. The objects that are marked and not in the queue have all their successors marked, so that
  what is marked in the end is what the handles reach.
\<close>

subsection \<open>Lists in memory\<close>

primrec olist :: "(addr \<rightharpoonup> gc_obj) \<Rightarrow> ptr \<Rightarrow> addr list \<Rightarrow> bool" where
  "olist m x [] \<longleftrightarrow> x = NULL"
| "olist m x (a # as) \<longleftrightarrow> x = Some a \<and> (\<exists>ob. m a = Some ob \<and> olist m (gc_next ob) as)"

lemma olist_cong: "olist m x as \<Longrightarrow> \<forall>a \<in> set as. map_option gc_next (m' a) = map_option gc_next (m a) \<Longrightarrow> olist m' x as"
proof (induction as arbitrary: x)
  case (Cons a as)
  then obtain ob where a: "x = Some a" "m a = Some ob" "olist m (gc_next ob) as" by auto
  obtain ob' where "m' a = Some ob'" "gc_next ob' = gc_next ob" using Cons.prems(2) a(2) by auto
  then show ?case using a Cons.IH [OF a(3)] Cons.prems(2) by auto
qed simp

lemma olist_dom: "olist m x as \<Longrightarrow> set as \<subseteq> dom m"
  by (induction as arbitrary: x) auto

primrec hpath :: "(addr \<rightharpoonup> gc_handle) \<Rightarrow> addr \<Rightarrow> ptr \<Rightarrow> addr \<Rightarrow> addr list \<Rightarrow> bool" where
  "hpath m pv x e [] \<longleftrightarrow> x = Some e \<and> (\<exists>h. m e = Some h \<and> h_prev h = Some pv)"
| "hpath m pv x e (a # as) \<longleftrightarrow> x = Some a \<and> (\<exists>h. m a = Some h \<and> h_prev h = Some pv \<and> hpath m a (h_next h) e as)"

text \<open>The handles \<open>R\<close> between the two sentinels, linked in both directions.\<close>

definition nxt :: "(addr \<rightharpoonup> gc_handle) \<Rightarrow> addr \<Rightarrow> ptr" where
  "nxt m a = Option.bind (m a) h_next"

definition prv :: "(addr \<rightharpoonup> gc_handle) \<Rightarrow> addr \<Rightarrow> ptr" where
  "prv m a = Option.bind (m a) h_prev"

primrec linked :: "(addr \<rightharpoonup> gc_handle) \<Rightarrow> addr \<Rightarrow> addr list \<Rightarrow> bool" where
  "linked m a [] \<longleftrightarrow> True"
| "linked m a (b # bs) \<longleftrightarrow> nxt m a = Some b \<and> prv m b = Some a \<and> linked m b bs"

definition roots_ok :: "gc_state \<Rightarrow> addr list \<Rightarrow> bool" where
  "roots_ok g R \<longleftrightarrow> distinct (link_head g # R @ [link_tail g]) \<and> linked (handles g) (link_head g) (R @ [link_tail g])"

lemma linked_hpath: "linked m pv (as @ [e]) \<Longrightarrow> hpath m pv (nxt m pv) e as"
  by (induction as arbitrary: pv) (force simp: nxt_def prv_def bind_eq_Some_conv)+

lemma roots_okD:
  assumes "roots_ok g R"
  shows "\<exists>h. handles g (link_head g) = Some h \<and> hpath (handles g) (link_head g) (h_next h) (link_tail g) R" "link_tail g \<notin> set R"
proof -
  have l: "linked (handles g) (link_head g) (R @ [link_tail g])" using assms by (simp add: roots_ok_def)
  then obtain h where h: "handles g (link_head g) = Some h" by (cases R) (auto simp: nxt_def bind_eq_Some_conv)
  then have "nxt (handles g) (link_head g) = h_next h" by (simp add: nxt_def)
  then show "\<exists>h. handles g (link_head g) = Some h \<and> hpath (handles g) (link_head g) (h_next h) (link_tail g) R"
    using linked_hpath [OF l] h by simp
  show "link_tail g \<notin> set R" using assms by (simp add: roots_ok_def)
qed

subsection \<open>What the handles reach\<close>

definition targets :: "gc_state \<Rightarrow> addr list \<Rightarrow> addr set" where
  "targets g R = {x. \<exists>a \<in> set R. \<exists>h. handles g a = Some h \<and> m_ptr h = Some x}"

definition edges :: "gc_state \<Rightarrow> (addr \<times> addr) set" where
  "edges g = {(a, b). \<exists>ob. gobjs g a = Some ob \<and> Some b \<in> set (gc_refs ob)}"

definition live :: "gc_state \<Rightarrow> addr list \<Rightarrow> addr set" where
  "live g R = (edges g)\<^sup>* `` targets g R"

definition marked :: "gc_state \<Rightarrow> addr set" where
  "marked g = {a. \<exists>ob. gobjs g a = Some ob \<and> gc_tags ob = GC_TAG_MARK}"

lemma live_targets: "targets g R \<subseteq> live g R"
  by (auto simp: live_def)

lemma live_closed: "edges g `` live g R \<subseteq> live g R"
  by (auto simp: live_def intro: rtrancl_into_rtrancl)

lemma live_least: "targets g R \<subseteq> C \<Longrightarrow> edges g `` C \<subseteq> C \<Longrightarrow> live g R \<subseteq> C"
proof
  fix x assume C: "targets g R \<subseteq> C" "edges g `` C \<subseteq> C" and "x \<in> live g R"
  then obtain a where a: "a \<in> targets g R" "(a, x) \<in> (edges g)\<^sup>*" by (auto simp: live_def)
  show "x \<in> C" using a(2) by induction (use a(1) C in auto)
qed

subsection \<open>Tags\<close>

definition set_tags :: "gc_tag \<Rightarrow> gc_state \<Rightarrow> addr set \<Rightarrow> gc_state" where
  "set_tags t g S = g\<lparr>gobjs := (\<lambda>a. if a \<in> S then map_option (\<lambda>ob. ob\<lparr>gc_tags := t\<rparr>) (gobjs g a) else gobjs g a)\<rparr>"

lemma set_tags_simps [simp]:
  "handles (set_tags t g S) = handles g" "link_head (set_tags t g S) = link_head g" "link_tail (set_tags t g S) = link_tail g"
  "all_objects (set_tags t g S) = all_objects g" "object_count (set_tags t g S) = object_count g"
  "object_count_last (set_tags t g S) = object_count_last g" "steping_delta (set_tags t g S) = steping_delta g"
  "cur_addr (set_tags t g S) = cur_addr g" "cur_size (set_tags t g S) = cur_size g"
  "dom (gobjs (set_tags t g S)) = dom (gobjs g)" "gobjs (set_tags t g S) a = None \<longleftrightarrow> gobjs g a = None"
  by (auto simp: set_tags_def dom_def split: if_splits)

lemma set_tags_twice [simp]: "set_tags t (set_tags t g S) T = set_tags t g (S \<union> T)"
  by (rule gc_state.equality) (auto simp: set_tags_def option.map_comp o_def fun_eq_iff)

lemma set_tags_fields: "map_option gc_refs (gobjs (set_tags t g S) a) = map_option gc_refs (gobjs g a)"
  "map_option gc_next (gobjs (set_tags t g S) a) = map_option gc_next (gobjs g a)"
  by (auto simp: set_tags_def option.map_comp o_def)

lemma edges_iff: "(a, b) \<in> edges g \<longleftrightarrow> (\<exists>rs. map_option gc_refs (gobjs g a) = Some rs \<and> Some b \<in> set rs)"
  by (auto simp: edges_def)

lemma edges_cong: "(\<And>a. map_option gc_refs (gobjs g' a) = map_option gc_refs (gobjs g a)) \<Longrightarrow> edges g' = edges g"
  by (auto simp: edges_iff)

lemma edges_set_tags [simp]: "edges (set_tags t g S) = edges g"
  by (rule edges_cong) (rule set_tags_fields(1))

lemma targets_set_tags [simp]: "targets (set_tags t g S) R = targets g R"
  by (simp add: targets_def)

lemma live_set_tags [simp]: "live (set_tags t g S) R = live g R"
  by (simp add: live_def)

lemma marked_mark [simp]: "marked (set_tags GC_TAG_MARK g S) = marked g \<union> (S \<inter> dom (gobjs g))"
  by (auto simp: marked_def set_tags_def split: if_splits)

lemma marked_flag [simp]: "marked (set_tags GC_TAG_FLAG g S) = marked g - S"
  by (auto simp: marked_def set_tags_def split: if_splits)

lemma marked_dom: "marked g \<subseteq> dom (gobjs g)"
  by (auto simp: marked_def)

lemma mark_again: "S \<subseteq> marked g \<Longrightarrow> set_tags GC_TAG_MARK g S = g"
  by (rule gc_state.equality) (auto simp: set_tags_def marked_def fun_eq_iff)

lemma set_tags_empty [simp]: "set_tags t g {} = g"
  by (rule gc_state.equality) (simp_all add: set_tags_def)

lemma upd_tag: "gobjs g a = Some ob \<Longrightarrow> upd_obj g a (\<lambda>ob. ob\<lparr>gc_tags := t\<rparr>) = Some (set_tags t g {a})"
  by (simp add: upd_obj_def set_tags_def fun_upd_def fun_eq_iff)

abbreviation mark :: "gc_state \<Rightarrow> addr set \<Rightarrow> gc_state" where
  "mark g S \<equiv> set_tags GC_TAG_MARK g S"

subsection \<open>The queue\<close>

lemma queue_append_ok:
  assumes "gobjs g a \<noteq> None"
  shows "queue_append fits g q (Some a) = Some (mark g {a},
    if a \<in> marked g then Inr q else if fits (length q + 1) then Inr (q @ [a]) else Inl XBadAlloc)"
proof -
  obtain ob where ob: "gobjs g a = Some ob" using assms by blast
  show ?thesis
  proof (cases "gc_tags ob = GC_TAG_MARK")
    case True
    then have "a \<in> marked g" using ob by (simp add: marked_def)
    then show ?thesis using ob True mark_again [of "{a}" g] by (simp add: queue_append_def)
  next
    case False
    then have "a \<notin> marked g" using ob by (simp add: marked_def)
    then show ?thesis using ob False upd_tag [OF ob] by (simp add: queue_append_def)
  qed
qed

text \<open>The objects \<open>T\<close> are appended unless they are marked; without memory some of them are marked.\<close>

definition appended :: "(nat \<Rightarrow> bool) \<Rightarrow> gc_state \<Rightarrow> addr list \<Rightarrow> addr set \<Rightarrow> (gc_state \<times> (exn + addr list)) option \<Rightarrow> bool" where
  "appended fits g q T m \<longleftrightarrow> (\<exists>S r. m = Some (mark g S, r) \<and> S \<subseteq> T \<and> (case r of
     Inl e \<Rightarrow> e = XBadAlloc \<and> \<not> (\<forall>n. fits n)
   | Inr q' \<Rightarrow> S = T \<and> set q' = set q \<union> (T - marked g)))"

lemma append_refs_ok:
  assumes "\<forall>b. Some b \<in> set ps \<longrightarrow> gobjs g b \<noteq> None"
  shows "appended fits g q {b. Some b \<in> set ps} (append_range fits g q ps)"
  using assms
proof (induction ps arbitrary: g q)
  case Nil
  then show ?case by (auto simp: appended_def intro!: exI [of _ "{}"])
next
  case (Cons p ps)
  show ?case
  proof (cases p)
    case None
    then show ?thesis using Cons by (simp add: queue_append_def)
  next
    case (Some a)
    have T: "{b. Some b \<in> set (p # ps)} = insert a {b. Some b \<in> set ps}" using Some by auto
    have a: "gobjs g a \<noteq> None" using Cons.prems Some by simp
    then have ad: "a \<in> dom (gobjs g)" by blast
    let ?g = "mark g {a}"
    show ?thesis
    proof (cases "a \<in> marked g \<or> fits (length q + 1)")
      case False
      then have "append_range fits g q (p # ps) = Some (?g, Inl XBadAlloc)" using queue_append_ok [OF a] Some by simp
      then show ?thesis unfolding appended_def T using False by (intro exI [of _ "{a}"] exI [of _ "Inl XBadAlloc"]) auto
    next
      case True
      define q1 where "q1 = (if a \<in> marked g then q else q @ [a])"
      have "queue_append fits g q p = Some (?g, Inr q1)" using queue_append_ok [OF a, of fits q] Some True by (auto simp: q1_def)
      then have run: "append_range fits g q (p # ps) = append_range fits ?g q1 ps" by simp
      have "\<forall>b. Some b \<in> set ps \<longrightarrow> gobjs ?g b \<noteq> None" using Cons.prems by simp
      then obtain S r where S: "append_range fits ?g q1 ps = Some (mark ?g S, r)" "S \<subseteq> {b. Some b \<in> set ps}"
        "case r of Inl e \<Rightarrow> e = XBadAlloc \<and> \<not> (\<forall>n. fits n) | Inr q' \<Rightarrow> S = {b. Some b \<in> set ps} \<and> set q' = set q1 \<union> ({b. Some b \<in> set ps} - marked ?g)"
        using Cons.IH [of ?g q1] unfolding appended_def by blast
      have "append_range fits g q (p # ps) = Some (mark g (insert a S), r)" using run S(1) by simp
      moreover have "insert a S \<subseteq> {b. Some b \<in> set (p # ps)}" using S(2) T by blast
      moreover have "case r of Inl e \<Rightarrow> e = XBadAlloc \<and> \<not> (\<forall>n. fits n)
        | Inr q' \<Rightarrow> insert a S = {b. Some b \<in> set (p # ps)} \<and> set q' = set q \<union> ({b. Some b \<in> set (p # ps)} - marked g)"
        using S(3) T ad by (cases r) (auto simp: q1_def split: if_splits)
      ultimately show ?thesis unfolding appended_def by blast
    qed
  qed
qed

lemma gc_mark_ok:
  assumes "gobjs g a \<noteq> None" "edges g `` {a} \<subseteq> dom (gobjs g)"
  shows "appended fits g q (edges g `` {a}) (gc_mark fits g q a)"
proof -
  obtain ob where ob: "gobjs g a = Some ob" using assms(1) by blast
  have e: "edges g `` {a} = {b. Some b \<in> set (gc_refs ob)}" using ob by (auto simp: edges_def)
  have "\<forall>b. Some b \<in> set (gc_refs ob) \<longrightarrow> gobjs g b \<noteq> None" using assms(2) unfolding e by auto
  then show ?thesis using append_refs_ok [of "gc_refs ob" g fits q] ob unfolding e by (simp add: gc_mark_def)
qed

lemma mark_pass_ok:
  assumes "set q1 \<subseteq> dom (gobjs g)" "edges g `` set q1 \<subseteq> dom (gobjs g)"
  shows "appended fits g q2 (edges g `` set q1) (mark_pass fits g q2 q1)"
  using assms
proof (induction q1 arbitrary: g q2)
  case Nil
  then show ?case by (auto simp: appended_def intro!: exI [of _ "{}"])
next
  case (Cons a q1)
  have T: "edges g `` set (a # q1) = edges g `` {a} \<union> edges g `` set q1" by auto
  have a: "gobjs g a \<noteq> None" "edges g `` {a} \<subseteq> dom (gobjs g)" using Cons.prems by auto
  obtain S r where S: "gc_mark fits g q2 a = Some (mark g S, r)" "S \<subseteq> edges g `` {a}"
    "case r of Inl e \<Rightarrow> e = XBadAlloc \<and> \<not> (\<forall>n. fits n) | Inr q' \<Rightarrow> S = edges g `` {a} \<and> set q' = set q2 \<union> (edges g `` {a} - marked g)"
    using gc_mark_ok [OF a, of fits q2] unfolding appended_def by blast
  show ?case
  proof (cases r)
    case (Inl e)
    then show ?thesis using S unfolding appended_def T by (intro exI [of _ S] exI [of _ "Inl e"]) auto
  next
    case (Inr q')
    let ?g = "mark g S"
    have pr: "set q1 \<subseteq> dom (gobjs ?g)" "edges ?g `` set q1 \<subseteq> dom (gobjs ?g)" using Cons.prems by auto
    obtain S' r' where S': "mark_pass fits ?g q' q1 = Some (mark ?g S', r')" "S' \<subseteq> edges g `` set q1"
      "case r' of Inl e \<Rightarrow> e = XBadAlloc \<and> \<not> (\<forall>n. fits n) | Inr q'' \<Rightarrow> S' = edges g `` set q1 \<and> set q'' = set q' \<union> (edges g `` set q1 - marked ?g)"
      using Cons.IH [OF pr, of q', unfolded appended_def edges_set_tags] by blast
    have "mark_pass fits g q2 (a # q1) = Some (mark g (S \<union> S'), r')" using S(1) S'(1) Inr by simp
    moreover have "S \<union> S' \<subseteq> edges g `` set (a # q1)" using S(2) S'(2) T by blast
    moreover have "case r' of Inl e \<Rightarrow> e = XBadAlloc \<and> \<not> (\<forall>n. fits n)
      | Inr q'' \<Rightarrow> S \<union> S' = edges g `` set (a # q1) \<and> set q'' = set q2 \<union> (edges g `` set (a # q1) - marked g)"
      using S(3) S'(3) Inr T a(2) by (cases r') auto
    ultimately show ?thesis unfolding appended_def by blast
  qed
qed

subsection \<open>The whole marking\<close>

text \<open>\<open>C\<close> is what may be reached. Whatever is marked and not in the queue has its successors marked.\<close>

definition grey :: "gc_state \<Rightarrow> addr list \<Rightarrow> bool" where
  "grey g q \<longleftrightarrow> set q \<subseteq> marked g \<and> (\<forall>a \<in> marked g. a \<in> set q \<or> edges g `` {a} \<subseteq> marked g)"

lemma mark_all_ok:
  assumes "finite C" "C \<subseteq> dom (gobjs g)" "edges g `` C \<subseteq> C" "marked g \<subseteq> C" "grey g q"
  shows "\<exists>S r. mark_all fits g q = Some (mark g S, r) \<and> S \<subseteq> C \<and> ((\<forall>n. fits n) \<longrightarrow> r = Inr ()) \<and>
    (r = Inr () \<longrightarrow> edges g `` (marked g \<union> S) \<subseteq> marked g \<union> S)"
  using assms
proof (induction "card (C - marked g)" arbitrary: g q rule: less_induct)
  case less
  show ?case
  proof (cases "q = []")
    case True
    then have "mark_all fits g q = Some (mark g {}, Inr ())" by (subst mark_all.simps) simp
    moreover have "edges g `` (marked g \<union> {}) \<subseteq> marked g \<union> {}" using less.prems(5) True by (auto simp: grey_def)
    ultimately show ?thesis by (intro exI [of _ "{}"] exI [of _ "Inr ()"]) simp
  next
    case False
    have q: "set q \<subseteq> C" using less.prems(4,5) by (auto simp: grey_def)
    have e: "edges g `` set q \<subseteq> C" using q less.prems(3) by blast
    have "set q \<subseteq> dom (gobjs g)" "edges g `` set q \<subseteq> dom (gobjs g)" using q e less.prems(2) by auto
    then obtain S r where S: "mark_pass fits g [] q = Some (mark g S, r)" "S \<subseteq> edges g `` set q"
      "case r of Inl e \<Rightarrow> e = XBadAlloc \<and> \<not> (\<forall>n. fits n) | Inr q' \<Rightarrow> S = edges g `` set q \<and> set q' = set [] \<union> (edges g `` set q - marked g)"
      using mark_pass_ok [of q g fits "[]"] unfolding appended_def by blast
    show ?thesis
    proof (cases r)
      case (Inl e)
      then have "mark_all fits g q = Some (mark g S, Inl e)" using False S(1) by (subst mark_all.simps) simp
      then show ?thesis using Inl S(2,3) e by (intro exI [of _ S] exI [of _ "Inl e"]) auto
    next
      case (Inr q')
      let ?g = "mark g S"
      have Sq: "S = edges g `` set q" "set q' = S - marked g" using S(3) Inr by auto
      have run: "mark_all fits g q = mark_all fits ?g q'" using False S(1) Inr by (subst mark_all.simps) simp
      have Sd: "S \<inter> dom (gobjs g) = S" using Sq(1) e less.prems(2) by blast
      have m: "marked ?g = marked g \<union> S" using Sd by simp
      have gr: "grey ?g q'"
        using less.prems(5) Sq unfolding grey_def m by auto
      show ?thesis
      proof (cases "q' = []")
        case True
        then have "mark_all fits g q = Some (?g, Inr ())" using run by (simp add: mark_all.simps)
        moreover have "edges g `` (marked g \<union> S) \<subseteq> marked g \<union> S" using gr True unfolding grey_def m by auto
        ultimately show ?thesis using Sq(1) e by (intro exI [of _ S] exI [of _ "Inr ()"]) simp
      next
        case False
        then obtain b where "b \<in> S" "b \<notin> marked g" using Sq(2) by (cases q') auto
        then have "C - marked ?g \<subset> C - marked g" using m Sq(1) e by blast
        then have "card (C - marked ?g) < card (C - marked g)" using less.prems(1) by (intro psubset_card_mono) auto
        moreover have "C \<subseteq> dom (gobjs ?g)" "edges ?g `` C \<subseteq> C" "marked ?g \<subseteq> C" using less.prems(2-4) m Sq(1) e by auto
        ultimately obtain S' r' where S': "mark_all fits ?g q' = Some (mark ?g S', r')" "S' \<subseteq> C" "(\<forall>n. fits n) \<longrightarrow> r' = Inr ()"
          "r' = Inr () \<longrightarrow> edges ?g `` (marked ?g \<union> S') \<subseteq> marked ?g \<union> S'"
          using less.hyps [OF _ less.prems(1) _ _ _ gr] by blast
        have "mark_all fits g q = Some (mark g (S \<union> S'), r')" using run S'(1) by simp
        moreover have "S \<union> S' \<subseteq> C" using S'(2) Sq(1) e by blast
        moreover have "r' = Inr () \<longrightarrow> edges g `` (marked g \<union> (S \<union> S')) \<subseteq> marked g \<union> (S \<union> S')" using S'(4) unfolding m by (simp add: Un_assoc)
        ultimately show ?thesis using S'(3) by blast
      qed
    qed
  qed
qed

lemma mark_roots_ok:
  assumes "hpath (handles g) pv x (link_tail g) R" "link_tail g \<notin> set R" "C \<subseteq> dom (gobjs g)" "edges g `` C \<subseteq> C" "targets g R \<subseteq> C"
    "marked g \<subseteq> C" "grey g q"
  shows "\<exists>S r. mark_roots fits g q x = Some (mark g S, r) \<and> S \<subseteq> C \<and> (case r of Inl e \<Rightarrow> e = XBadAlloc \<and> \<not> (\<forall>n. fits n)
    | Inr q' \<Rightarrow> targets g R \<subseteq> marked (mark g S) \<and> grey (mark g S) q')"
  using assms
proof (induction R arbitrary: g q x pv)
  case Nil
  then have "mark_roots fits g q x = Some (mark g {}, Inr q)" by (subst mark_roots.simps) simp
  moreover have "targets g [] = {}" by (simp add: targets_def)
  ultimately show ?case using Nil.prems(7) by (intro exI [of _ "{}"] exI [of _ "Inr q"]) simp
next
  case (Cons a R)
  obtain h where h: "x = Some a" "handles g a = Some h" "hpath (handles g) a (h_next h) (link_tail g) R" using Cons.prems(1) by auto
  have nt: "x \<noteq> Some (link_tail g)" "link_tail g \<notin> set R" using h(1) Cons.prems(2) by auto
  have tR: "targets g (a # R) = set_option (m_ptr h) \<union> targets g R" using h(2) by (auto simp: targets_def)
  show ?case
  proof (cases "m_ptr h")
    case None
    then have run: "mark_roots fits g q x = mark_roots fits g q (h_next h)" using h nt by (subst mark_roots.simps) simp
    have t: "targets g (a # R) = targets g R" using tR None by simp
    show ?thesis unfolding run t by (rule Cons.IH [OF h(3) nt(2) Cons.prems(3,4) Cons.prems(5) [unfolded t] Cons.prems(6,7)])
  next
    case (Some y)
    have y: "y \<in> C" using Cons.prems(5) tR Some by simp
    then obtain ob where ob: "gobjs g y = Some ob" using Cons.prems(3) by blast
    let ?g1 = "mark g {y}"
    have ye: "gobjs ?g1 y \<noteq> None" "edges ?g1 `` {y} \<subseteq> dom (gobjs ?g1)" using ob Cons.prems(3,4) y by auto
    obtain S r where S: "gc_mark fits ?g1 q y = Some (mark ?g1 S, r)" "S \<subseteq> edges g `` {y}"
      "case r of Inl e \<Rightarrow> e = XBadAlloc \<and> \<not> (\<forall>n. fits n) | Inr q' \<Rightarrow> S = edges g `` {y} \<and> set q' = set q \<union> (edges g `` {y} - marked ?g1)"
      using gc_mark_ok [OF ye, of fits q, unfolded appended_def edges_set_tags] by blast
    have ec: "insert y S \<subseteq> C" using S(2) y Cons.prems(4) by blast
    show ?thesis
    proof (cases r)
      case (Inl e)
      then have "mark_roots fits g q x = Some (mark g (insert y S), Inl e)"
        using h nt Some S(1) upd_tag [OF ob] by (subst mark_roots.simps) simp
      then show ?thesis using Inl S(3) ec by (intro exI [of _ "insert y S"] exI [of _ "Inl e"]) simp
    next
      case (Inr q')
      let ?g = "mark g (insert y S)"
      have run: "mark_roots fits g q x = mark_roots fits ?g q' (h_next h)"
        using h nt Some S(1) Inr upd_tag [OF ob] by (subst mark_roots.simps) simp
      have d: "insert y S \<inter> dom (gobjs g) = insert y S" using ec Cons.prems(3) by blast
      have m: "marked ?g = marked g \<union> insert y S" using d by simp
      have Sq: "S = edges g `` {y}" "set q' = set q \<union> (S - (marked g \<union> {y}))"
        using S(3) Inr ob by auto
      have gr: "grey ?g q'"
        using Cons.prems(7) Sq unfolding grey_def m edges_set_tags by blast
      have P: "hpath (handles ?g) a (h_next h) (link_tail ?g) R" "link_tail ?g \<notin> set R" "C \<subseteq> dom (gobjs ?g)" "edges ?g `` C \<subseteq> C"
        "targets ?g R \<subseteq> C" "marked ?g \<subseteq> C"
        using h(3) nt(2) Cons.prems(3-6) tR m ec by auto
      obtain S' r' where S': "mark_roots fits ?g q' (h_next h) = Some (mark ?g S', r')" "S' \<subseteq> C"
        "case r' of Inl e \<Rightarrow> e = XBadAlloc \<and> \<not> (\<forall>n. fits n) | Inr q'' \<Rightarrow> targets g R \<subseteq> marked (mark ?g S') \<and> grey (mark ?g S') q''"
        using Cons.IH [OF P gr, unfolded targets_set_tags] by blast
      have e: "mark ?g S' = mark g (insert y S \<union> S')" by simp
      have "targets g (a # R) \<subseteq> marked (mark ?g S')" if "targets g R \<subseteq> marked (mark ?g S')"
        using that tR Some ob by auto
      then have "case r' of Inl e \<Rightarrow> e = XBadAlloc \<and> \<not> (\<forall>n. fits n)
        | Inr q'' \<Rightarrow> targets g (a # R) \<subseteq> marked (mark ?g S') \<and> grey (mark ?g S') q''"
        using S'(3) by (cases r') auto
      moreover have "mark_roots fits g q x = Some (mark g (insert y S \<union> S'), r')" using run S'(1) by simp
      moreover have "insert y S \<union> S' \<subseteq> C" using ec S'(2) by blast
      ultimately show ?thesis unfolding e by blast
    qed
  qed
qed

text \<open>
  Sweeping, and the collection as a whole: exactly the objects that the handles reach are left, or, when
  there is no memory for the queue, all objects are.
\<close>

lemma clear_tags_ok:
  assumes "olist (gobjs g) x xs" "distinct xs"
  shows "clear_tags g x = Some (set_tags GC_TAG_FLAG g (set xs))"
  using assms
proof (induction xs arbitrary: g x)
  case Nil
  then show ?case by (subst clear_tags.simps) simp
next
  case (Cons a xs)
  obtain ob where a: "x = Some a" "gobjs g a = Some ob" "olist (gobjs g) (gc_next ob) xs" using Cons.prems(1) by auto
  let ?g = "set_tags GC_TAG_FLAG g {a}"
  have ob: "gobjs ?g a = Some (ob\<lparr>gc_tags := GC_TAG_FLAG\<rparr>)" using a(2) by (simp add: set_tags_def)
  have "olist (gobjs ?g) (gc_next ob) xs" by (rule olist_cong [OF a(3)]) (simp add: set_tags_fields)
  then have "clear_tags ?g (gc_next ob) = Some (set_tags GC_TAG_FLAG ?g (set xs))" using Cons.IH Cons.prems(2) by simp
  then show ?case using a(1) ob upd_tag [OF a(2)] by (subst clear_tags.simps) simp
qed

text \<open>What \<open>g'\<close> has of the objects \<open>S\<close> of \<open>g\<close>: the marked ones, with the tag reset.\<close>

definition swept :: "gc_state \<Rightarrow> gc_state \<Rightarrow> addr set \<Rightarrow> bool" where
  "swept g g' S \<longleftrightarrow> (\<forall>a. a \<notin> S \<longrightarrow> gobjs g' a = gobjs g a) \<and> (\<forall>a \<in> S. a \<notin> marked g \<longrightarrow> gobjs g' a = None) \<and>
    (\<forall>a \<in> S. \<forall>ob. a \<in> marked g \<longrightarrow> gobjs g a = Some ob \<longrightarrow>
      (\<exists>ob'. gobjs g' a = Some ob' \<and> gc_refs ob' = gc_refs ob \<and> gc_tags ob' = GC_TAG_FLAG))"

definition same_rest :: "gc_state \<Rightarrow> gc_state \<Rightarrow> bool" where
  "same_rest g g' \<longleftrightarrow> handles g' = handles g \<and> link_head g' = link_head g \<and> link_tail g' = link_tail g \<and>
    steping_delta g' = steping_delta g \<and> cur_addr g' = cur_addr g \<and> cur_size g' = cur_size g"

lemma same_rest_trans: "same_rest g g1 \<Longrightarrow> same_rest g1 g2 \<Longrightarrow> same_rest g g2"
  by (simp add: same_rest_def)

lemma same_rest_tags [simp]: "same_rest g (set_tags t g S)"
  by (simp add: same_rest_def)

definition unmarked :: "gc_state \<Rightarrow> addr list \<Rightarrow> addr list" where
  "unmarked g xs = filter (\<lambda>a. a \<notin> marked g) xs"

lemma gc_sweep_ok:
  assumes "olist (gobjs g) x xs" "olist (gobjs g) conn ys" "distinct (xs @ ys)"
  shows "\<exists>g' c. gc_sweep g x conn = Some (g', c) \<and> olist (gobjs g') c (rev (filter (\<lambda>a. a \<in> marked g) xs) @ ys) \<and> swept g g' (set xs) \<and>
    same_rest g g' \<and> object_count_last g' = object_count_last g \<and> object_count g' = object_count g - of_nat (length (unmarked g xs))"
  using assms
proof (induction xs arbitrary: g x conn ys)
  case Nil
  then have "gc_sweep g x conn = Some (g, conn)" by (subst gc_sweep.simps) simp
  then show ?case using Nil.prems(2) by (intro exI [of _ g] exI [of _ conn]) (simp add: swept_def same_rest_def unmarked_def)
next
  case (Cons a xs)
  obtain ob where a: "x = Some a" "gobjs g a = Some ob" "olist (gobjs g) (gc_next ob) xs" using Cons.prems(1) by auto
  have ax: "a \<notin> set xs" "a \<notin> set ys" using Cons.prems(3) by auto
  define g1 where "g1 = (if a \<in> marked g then g\<lparr>gobjs := (gobjs g)(a \<mapsto> ob\<lparr>gc_tags := GC_TAG_FLAG, gc_next := conn\<rparr>)\<rparr>
    else g\<lparr>object_count := object_count g - 1, gobjs := (gobjs g)(a := None)\<rparr>)"
  define c1 where "c1 = (if a \<in> marked g then Some a else conn)"
  define ys1 where "ys1 = (if a \<in> marked g then a # ys else ys)"
  have tag: "gc_tags ob = GC_TAG_MARK \<longleftrightarrow> a \<in> marked g" using a(2) by (simp add: marked_def)
  have run: "gc_sweep g x conn = gc_sweep g1 (gc_next ob) c1"
    using a(1,2) tag by (subst gc_sweep.simps) (simp add: g1_def c1_def upd_obj_def gc_destroy_def)
  have m1: "b \<in> marked g1 \<longleftrightarrow> b \<in> marked g" if "b \<noteq> a" for b using that by (simp add: marked_def g1_def)
  have o1: "gobjs g1 b = gobjs g b" if "b \<noteq> a" for b using that by (simp add: g1_def)
  have o1': "gobjs g1 a = (if a \<in> marked g then Some (ob\<lparr>gc_tags := GC_TAG_FLAG, gc_next := conn\<rparr>) else None)" by (simp add: g1_def)
  have fe: "filter (\<lambda>b. b \<in> marked g1) xs = filter (\<lambda>b. b \<in> marked g) xs" "filter (\<lambda>b. b \<notin> marked g1) xs = filter (\<lambda>b. b \<notin> marked g) xs"
  proof -
    have "b \<in> marked g1 \<longleftrightarrow> b \<in> marked g" if "b \<in> set xs" for b by (rule m1) (use that ax in auto)
    then show "filter (\<lambda>b. b \<in> marked g1) xs = filter (\<lambda>b. b \<in> marked g) xs" "filter (\<lambda>b. b \<notin> marked g1) xs = filter (\<lambda>b. b \<notin> marked g) xs"
      by (intro filter_cong refl; simp)+
  qed
  have o2: "gobjs g1 b = gobjs g b" if "b \<in> set xs \<union> set ys" for b by (rule o1) (use that ax in auto)
  have "olist (gobjs g1) (gc_next ob) xs" by (rule olist_cong [OF a(3)]) (simp add: o2)
  moreover have "olist (gobjs g1) c1 ys1"
  proof -
    have "olist (gobjs g1) conn ys" by (rule olist_cong [OF Cons.prems(2)]) (simp add: o2)
    then show ?thesis using o1' by (simp add: c1_def ys1_def)
  qed
  moreover have "distinct (xs @ ys1)" using Cons.prems(3) by (simp add: ys1_def)
  ultimately obtain g' c where g': "gc_sweep g1 (gc_next ob) c1 = Some (g', c)" "olist (gobjs g') c (rev (filter (\<lambda>b. b \<in> marked g1) xs) @ ys1)"
    "swept g1 g' (set xs)" "same_rest g1 g'" "object_count_last g' = object_count_last g1"
    "object_count g' = object_count g1 - of_nat (length (unmarked g1 xs))"
    using Cons.IH [of g1 "gc_next ob" c1 ys1] by blast
  have "olist (gobjs g') c (rev (filter (\<lambda>b. b \<in> marked g) (a # xs)) @ ys)" using g'(2) unfolding fe by (cases "a \<in> marked g") (simp_all add: ys1_def)
  moreover have "swept g g' (set (a # xs))"
  proof -
    have ga: "gobjs g' a = gobjs g1 a" using g'(3) ax by (simp add: swept_def)
    have "gobjs g' b = gobjs g b" if "b \<notin> set (a # xs)" for b using that g'(3) o1 by (simp add: swept_def)
    moreover have "gobjs g' b = None" if "b \<in> set (a # xs)" "b \<notin> marked g" for b
      using that g'(3) ga o1' m1 ax by (cases "b = a") (auto simp: swept_def)
    moreover have "\<exists>ob'. gobjs g' b = Some ob' \<and> gc_refs ob' = gc_refs w \<and> gc_tags ob' = GC_TAG_FLAG"
      if "b \<in> set (a # xs)" "b \<in> marked g" "gobjs g b = Some w" for b w
    proof (cases "b = a")
      case True
      then show ?thesis using ga o1' that a(2) by simp
    next
      case False
      then show ?thesis using that g'(3) o1 [OF False] m1 [OF False] unfolding swept_def by auto
    qed
    ultimately show ?thesis unfolding swept_def by blast
  qed
  moreover have "same_rest g g'" using g'(4) by (auto simp: same_rest_def g1_def)
  moreover have "object_count_last g' = object_count_last g" using g'(5) by (simp add: g1_def)
  moreover have "object_count g' = object_count g - of_nat (length (unmarked g (a # xs)))"
    using g'(6) unfolding unmarked_def fe by (simp add: g1_def)
  ultimately show ?case using run g'(1) by (intro exI [of _ g'] exI [of _ c]) simp
qed

subsection \<open>The collection\<close>

lemma mark_phase:
  assumes R: "roots_ok g R" and f: "finite (dom (gobjs g))" and l: "live g R \<subseteq> dom (gobjs g)" and m: "marked g = {}"
  shows "\<exists>h S r. handles g (link_head g) = Some h \<and> mark_roots fits g [] (h_next h) = Some (mark g S, r) \<and> (case r of
      Inl e \<Rightarrow> e = XBadAlloc \<and> \<not> (\<forall>n. fits n)
    | Inr q \<Rightarrow> \<exists>S' r'. mark_all fits (mark g S) q = Some (mark g S', r') \<and> ((\<forall>n. fits n) \<longrightarrow> r' = Inr ()) \<and> (r' = Inr () \<longrightarrow> S' = live g R))"
proof -
  obtain h where h: "handles g (link_head g) = Some h" "hpath (handles g) (link_head g) (h_next h) (link_tail g) R"
    using roots_okD(1) [OF R] by blast
  have t: "link_tail g \<notin> set R" by (rule roots_okD(2) [OF R])
  have m0: "marked g \<subseteq> live g R" "grey g []" using m by (simp_all add: grey_def)
  obtain S r where S: "mark_roots fits g [] (h_next h) = Some (mark g S, r)" "S \<subseteq> live g R"
    "case r of Inl e \<Rightarrow> e = XBadAlloc \<and> \<not> (\<forall>n. fits n) | Inr q' \<Rightarrow> targets g R \<subseteq> marked (mark g S) \<and> grey (mark g S) q'"
    using mark_roots_ok [where fits = fits, OF h(2) t l live_closed live_targets m0] by (elim exE conjE) (rule that)
  have "case r of Inl e \<Rightarrow> e = XBadAlloc \<and> \<not> (\<forall>n. fits n)
    | Inr q \<Rightarrow> \<exists>S' r'. mark_all fits (mark g S) q = Some (mark g S', r') \<and> ((\<forall>n. fits n) \<longrightarrow> r' = Inr ()) \<and> (r' = Inr () \<longrightarrow> S' = live g R)"
  proof (cases r)
    case (Inr q)
    have Sd: "S \<inter> dom (gobjs g) = S" using S(2) l by blast
    have fc: "finite (live g R)" using f l finite_subset by blast
    have P: "live g R \<subseteq> dom (gobjs (mark g S))" "edges (mark g S) `` live g R \<subseteq> live g R" "marked (mark g S) \<subseteq> live g R"
      using l live_closed [of g R] m S(2) by auto
    have gr: "grey (mark g S) q" using S(3) Inr by simp
    obtain S' r' where S': "mark_all fits (mark g S) q = Some (mark (mark g S) S', r')" "S' \<subseteq> live g R" "(\<forall>n. fits n) \<longrightarrow> r' = Inr ()"
      "r' = Inr () \<longrightarrow> edges (mark g S) `` (marked (mark g S) \<union> S') \<subseteq> marked (mark g S) \<union> S'"
      using mark_all_ok [where fits = fits, OF fc P gr] by (elim exE conjE) (rule that)
    have "S \<union> S' = live g R" if r': "r' = Inr ()"
    proof
      show "S \<union> S' \<subseteq> live g R" using S(2) S'(2) by blast
      have "targets g R \<subseteq> S \<union> S'" using S(3) Inr m Sd by auto
      moreover have "edges g `` (S \<union> S') \<subseteq> S \<union> S'" using S'(4) r' m Sd by simp
      ultimately show "live g R \<subseteq> S \<union> S'" by (rule live_least)
    qed
    then show ?thesis using S'(1,3) Inr by auto
  qed (use S(3) in simp)
  then show ?thesis using h(1) S(1) by blast
qed

text \<open>What a collection does to a state whose objects are in the list \<open>L\<close>, apart from some that are under construction.\<close>

definition collected :: "gc_state \<Rightarrow> addr list \<Rightarrow> addr list \<Rightarrow> gc_state \<Rightarrow> bool" where
  "collected g L R g' \<longleftrightarrow> olist (gobjs g') (all_objects g') (rev (filter (\<lambda>a. a \<in> live g R) L)) \<and>
    (\<forall>a \<in> set L. \<forall>ob. a \<in> live g R \<longrightarrow> gobjs g a = Some ob \<longrightarrow> (\<exists>ob'. gobjs g' a = Some ob' \<and> gc_refs ob' = gc_refs ob \<and> gc_tags ob' = GC_TAG_FLAG)) \<and>
    (\<forall>a \<in> set L. a \<notin> live g R \<longrightarrow> gobjs g' a = None) \<and>
    (\<forall>a. a \<notin> set L \<longrightarrow> map_option gc_refs (gobjs g' a) = map_option gc_refs (gobjs g a)) \<and>
    object_count g' = object_count g - of_nat (length (filter (\<lambda>a. a \<notin> live g R) L)) \<and> object_count_last g' = object_count g'"

definition retagged :: "gc_state \<Rightarrow> gc_state \<Rightarrow> bool" where
  "retagged g g' \<longleftrightarrow> g' = g\<lparr>gobjs := gobjs g'\<rparr> \<and> (\<forall>a. map_option gc_refs (gobjs g' a) = map_option gc_refs (gobjs g a)) \<and>
    (\<forall>a. map_option gc_next (gobjs g' a) = map_option gc_next (gobjs g a))"

lemma retagged_tags: "retagged g (set_tags t g S)"
  unfolding retagged_def by (intro conjI allI set_tags_fields) (simp add: set_tags_def)

lemma gc_nolock_ok:
  assumes R: "roots_ok g R" and L: "olist (gobjs g) (all_objects g) L" "distinct L" and f: "finite (dom (gobjs g))"
    and l: "live g R \<subseteq> dom (gobjs g)" and m: "marked g = {} \<or> force \<and> marked g \<subseteq> set L"
  shows "\<exists>g' r. gc_nolock fits g force = Some (g', r) \<and> same_rest g g' \<and> ((\<forall>n. fits n) \<longrightarrow> r = Inr Collected) \<and>
    (if r = Inr Collected then collected g L R g' else retagged g g')"
proof -
  define F where "F = (if force then set L else {})"
  define g0 where "g0 = set_tags GC_TAG_FLAG g F"
  have c: "(if force then clear_tags g (all_objects g) else Some g) = Some g0"
    using clear_tags_ok [OF L] by (simp add: g0_def F_def)
  have m0: "marked g0 = {}" using m by (auto simp: g0_def F_def)
  have P: "roots_ok g0 R" "finite (dom (gobjs g0))" "live g0 R \<subseteq> dom (gobjs g0)" using R f l by (simp_all add: roots_ok_def g0_def)
  obtain h S r where S: "handles g0 (link_head g0) = Some h" "mark_roots fits g0 [] (h_next h) = Some (mark g0 S, r)"
    "case r of Inl e \<Rightarrow> e = XBadAlloc \<and> \<not> (\<forall>n. fits n)
    | Inr q \<Rightarrow> \<exists>S' r'. mark_all fits (mark g0 S) q = Some (mark g0 S', r') \<and> ((\<forall>n. fits n) \<longrightarrow> r' = Inr ()) \<and> (r' = Inr () \<longrightarrow> S' = live g0 R)"
    using mark_phase [OF P m0] by blast
  have tg: "retagged g (mark g0 T)" "same_rest g (mark g0 T)" for T
  proof -
    have "mark g0 T = g\<lparr>gobjs := gobjs (mark g0 T)\<rparr>" by (simp add: g0_def set_tags_def)
    then show "retagged g (mark g0 T)" unfolding retagged_def by (intro conjI allI) (simp_all only: g0_def set_tags_fields)
    show "same_rest g (mark g0 T)" unfolding g0_def by (rule same_rest_trans [OF same_rest_tags same_rest_tags])
  qed
  show ?thesis
  proof (cases r)
    case (Inl e)
    then have "gc_nolock fits g force = Some (mark g0 S, Inl e)" using c S(1,2) by (simp add: gc_nolock_def)
    then show ?thesis using Inl S(3) tg by (intro exI [of _ "mark g0 S"] exI [of _ "Inl e"]) simp
  next
    case (Inr q)
    then obtain S' r' where S': "mark_all fits (mark g0 S) q = Some (mark g0 S', r')" "(\<forall>n. fits n) \<longrightarrow> r' = Inr ()" "r' = Inr () \<longrightarrow> S' = live g0 R"
      using S(3) by auto
    show ?thesis
    proof (cases r')
      case (Inl e)
      then have "gc_nolock fits g force = Some (mark g0 S', Inr GaveUp)" using c S(1,2) Inr S'(1) by (simp add: gc_nolock_def)
      then show ?thesis using Inl S'(2) tg by (intro exI [of _ "mark g0 S'"] exI [of _ "Inr GaveUp"]) simp
    next
      case r': (Inr u)
      let ?g = "mark g0 (live g R)"
      have e: "S' = live g R" using S'(3) r' by (simp add: g0_def)
      have mk: "marked ?g = live g R" using m0 l by (auto simp: g0_def)
      let ?h = "?g\<lparr>all_objects := NULL\<rparr>"
      have mh: "marked ?h = live g R" using mk by (simp add: marked_def)
      have oh: "gobjs ?h = gobjs ?g" by simp
      have "olist (gobjs ?h) (all_objects g) L" unfolding oh g0_def
        by (rule olist_cong [OF L(1)]) (simp add: set_tags_fields)
      then obtain g' cn where g': "gc_sweep ?h (all_objects g) NULL = Some (g', cn)" "olist (gobjs g') cn (rev (filter (\<lambda>a. a \<in> marked ?h) L) @ [])"
        "swept ?h g' (set L)" "same_rest ?h g'" "object_count_last g' = object_count_last ?h"
        "object_count g' = object_count ?h - of_nat (length (unmarked ?h L))"
        using gc_sweep_ok [of ?h "all_objects g" L NULL "[]"] L(2) by auto
      let ?r = "g'\<lparr>all_objects := cn, object_count_last := object_count g'\<rparr>"
      have ao: "all_objects ?g = all_objects g" by (simp add: g0_def)
      have "gc_nolock fits g force = Some (?r, Inr Collected)"
        using c S(1,2) Inr S'(1) r' g'(1) ao unfolding e by (simp add: gc_nolock_def Let_def)
      moreover have "same_rest g ?r" using g'(4) tg(2) [of "live g R"] by (simp add: same_rest_def)
      moreover have "collected g L R ?r"
      proof -
        have rf: "map_option gc_refs (gobjs ?h a) = map_option gc_refs (gobjs g a)" for a using tg(1) [of "live g R"] by (simp add: retagged_def)
        have "\<exists>ob'. gobjs g' a = Some ob' \<and> gc_refs ob' = gc_refs ob \<and> gc_tags ob' = GC_TAG_FLAG"
          if a: "a \<in> set L" "a \<in> live g R" "gobjs g a = Some ob" for a ob
        proof -
          obtain ob1 where "gobjs ?h a = Some ob1" "gc_refs ob1 = gc_refs ob" using rf [of a] a(3) by auto
          then show ?thesis using g'(3) a(1,2) unfolding swept_def mh by fastforce
        qed
        moreover have "gobjs g' a = None" if "a \<in> set L" "a \<notin> live g R" for a using g'(3) that unfolding swept_def mh by blast
        moreover have "map_option gc_refs (gobjs g' a) = map_option gc_refs (gobjs g a)" if "a \<notin> set L" for a
          using g'(3) that rf [of a] unfolding swept_def by simp
        moreover have "object_count g' = object_count g - of_nat (length (filter (\<lambda>a. a \<notin> live g R) L))"
          using g'(6) unfolding unmarked_def mh by (simp add: g0_def)
        ultimately show ?thesis using g'(2) unfolding collected_def mh by simp
      qed
      ultimately show ?thesis by (intro exI [of _ ?r] exI [of _ "Inr Collected"]) simp
    qed
  qed
qed

end
