(* ===== verification/Gc_Run.thy ===== *)
theory Gc_Run
  imports Gc_Mark
begin

text \<open>
  The handles and the objects of a program that uses the collector, step by step: every operation
  keeps the invariant \<open>gc_inv\<close>, and no object that the handles reach is ever destroyed.
\<close>

subsection \<open>The list of handles\<close>

lemma linked_append: "linked m a (xs @ b # ys) \<longleftrightarrow> linked m a (xs @ [b]) \<and> linked m b ys"
  by (induction xs arbitrary: a) auto

lemma linked_cong: "\<forall>x \<in> set (butlast (a # bs)). nxt m' x = nxt m x \<Longrightarrow> \<forall>x \<in> set bs. prv m' x = prv m x \<Longrightarrow> linked m' a bs \<longleftrightarrow> linked m a bs"
  by (induction bs arbitrary: a) (auto split: if_splits)

lemma linked_prv: "linked m a (xs @ b # ys) \<Longrightarrow> prv m b = Some (last (a # xs))"
  by (induction xs arbitrary: a) auto

lemma linked_nxt: "linked m a (b # bs) \<Longrightarrow> nxt m a = Some b"
  by simp

lemma upd_handle_Some: "handles g a = Some h \<Longrightarrow> upd_handle g a f = Some (g\<lparr>handles := (handles g)(a \<mapsto> f h)\<rparr>)"
  by (simp add: upd_handle_def)

lemma nxt_upd: "nxt (m(a \<mapsto> h)) b = (if b = a then h_next h else nxt m b)" "prv (m(a \<mapsto> h)) b = (if b = a then h_prev h else prv m b)"
  by (simp_all add: nxt_def prv_def)

lemma prv_Some: "prv m a = Some b \<Longrightarrow> \<exists>h. m a = Some h \<and> h_prev h = Some b"
  by (auto simp: prv_def bind_eq_Some_conv)

lemma nxt_Some: "nxt m a = Some b \<Longrightarrow> \<exists>h. m a = Some h \<and> h_next h = Some b"
  by (auto simp: nxt_def bind_eq_Some_conv)

text \<open>\<open>g'\<close> has other handles than \<open>g\<close>, and only that.\<close>

definition only_handles :: "gc_state \<Rightarrow> gc_state \<Rightarrow> bool" where
  "only_handles g g' \<longleftrightarrow> g' = g\<lparr>handles := handles g'\<rparr>"

lemma only_handlesD:
  assumes "only_handles g g'"
  shows "gobjs g' = gobjs g" "link_head g' = link_head g" "link_tail g' = link_tail g" "all_objects g' = all_objects g"
    "object_count g' = object_count g" "object_count_last g' = object_count_last g" "steping_delta g' = steping_delta g"
    "cur_addr g' = cur_addr g" "cur_size g' = cur_size g"
  by (subst assms [unfolded only_handles_def], simp)+

lemma edges_only: "gobjs g' = gobjs g \<Longrightarrow> edges g' = edges g" "gobjs g' = gobjs g \<Longrightarrow> marked g' = marked g"
  by (simp_all add: edges_def marked_def)

lemma targets_cong: "(\<And>a. a \<in> set R \<Longrightarrow> map_option m_ptr (handles g' a) = map_option m_ptr (handles g a)) \<Longrightarrow> targets g' R = targets g R"
proof -
  assume e: "\<And>a. a \<in> set R \<Longrightarrow> map_option m_ptr (handles g' a) = map_option m_ptr (handles g a)"
  have t: "targets g R = {x. \<exists>a \<in> set R. map_option m_ptr (handles g a) = Some (Some x)}" for g by (auto simp: targets_def)
  show ?thesis unfolding t using e by auto
qed

lemma gc_ptr_new_roots:
  assumes r: "roots_ok g R" and at: "at \<notin> set (link_head g # link_tail g # R)" "\<not> cur_test g at"
  shows "\<exists>g'. gc_ptr_new g at v = Some g' \<and> only_handles g g' \<and> roots_ok g' (at # R) \<and> targets g' (at # R) = set_option v \<union> targets g R"
proof -
  let ?H = "handles g" and ?hd = "link_head g" and ?tl = "link_tail g"
  obtain b bs where b: "R @ [?tl] = b # bs" by (cases "R @ [?tl]") auto
  have l: "linked ?H ?hd (b # bs)" and d: "distinct (?hd # b # bs)" using r b by (simp_all add: roots_ok_def)
  have at': "at \<noteq> ?hd" "at \<notin> set (b # bs)" using at(1) b [symmetric] by auto
  obtain hh where hh: "?H ?hd = Some hh" "h_next hh = Some b" using nxt_Some [OF linked_nxt [OF l]] by blast
  obtain hb where hb: "?H b = Some hb" "h_prev hb = Some ?hd" using prv_Some [of ?H b ?hd] l by auto
  define H where "H = ?H(at \<mapsto> \<lparr>m_ptr = v, h_next = Some b, h_prev = Some ?hd\<rparr>, b \<mapsto> hb\<lparr>h_prev := Some at\<rparr>, ?hd \<mapsto> hh\<lparr>h_next := Some at\<rparr>)"
  let ?g = "g\<lparr>handles := H\<rparr>"
  have ne: "b \<noteq> at" "b \<noteq> ?hd" using at' d by auto
  have run: "gc_ptr_new g at v = Some ?g"
    using at' hh hb ne at(2) by (simp add: gc_ptr_new_def gc_insert_def cur_test_def upd_handle_def H_def wassert_def fun_upd_twist)
  have "linked H b bs \<longleftrightarrow> linked ?H b bs"
    by (rule linked_cong) (use at' d hb hh in \<open>auto simp: H_def nxt_upd nxt_def prv_def dest!: in_set_butlastD\<close>)
  then have "linked H ?hd (at # b # bs)" using l at' ne by (simp add: H_def nxt_upd)
  then have "roots_ok ?g (at # R)" using d at' b by (simp add: roots_ok_def)
  moreover have "targets ?g (at # R) = set_option v \<union> targets g R"
  proof -
    have "targets ?g R = targets g R"
    proof (rule targets_cong)
      fix a assume a: "a \<in> set R"
      have "a \<noteq> at" "a \<noteq> ?hd" using a at(1) r by (auto simp: roots_ok_def)
      then show "map_option m_ptr (handles ?g a) = map_option m_ptr (handles g a)" using hb by (simp add: H_def)
    qed
    moreover have "targets ?g (at # R) = set_option v \<union> targets ?g R"
      using at' ne by (auto simp: targets_def H_def)
    ultimately show ?thesis by simp
  qed
  ultimately show ?thesis using run by (intro exI [of _ ?g]) (simp add: only_handles_def)
qed

lemma gc_ptr_delete_roots:
  assumes r: "roots_ok g (xs @ at # ys)"
  shows "\<exists>g'. gc_ptr_delete g at = Some g' \<and> only_handles g g' \<and> roots_ok g' (xs @ ys) \<and> targets g' (xs @ ys) \<subseteq> targets g (xs @ at # ys)"
proof -
  let ?H = "handles g" and ?hd = "link_head g" and ?tl = "link_tail g"
  obtain b bs where b: "ys @ [?tl] = b # bs" by (cases "ys @ [?tl]") auto
  define p1 where "p1 = last (?hd # xs)"
  obtain zs where zs: "?hd # xs = zs @ [p1]" unfolding p1_def by (metis append_butlast_last_id list.distinct(1))
  have l: "linked ?H ?hd (xs @ at # b # bs)" and d: "distinct (zs @ p1 # at # b # bs)"
  proof -
    have "?hd # (xs @ at # ys) @ [?tl] = (?hd # xs) @ at # ys @ [?tl]" by simp
    also have "\<dots> = zs @ p1 # at # b # bs" unfolding zs b by simp
    finally show "distinct (zs @ p1 # at # b # bs)" using r unfolding roots_ok_def by metis
    show "linked ?H ?hd (xs @ at # b # bs)" using r b by (simp add: roots_ok_def)
  qed
  have la: "linked ?H ?hd (xs @ [at])" "linked ?H at (b # bs)" using l linked_append by metis+
  obtain ha where ha: "?H at = Some ha" "h_prev ha = Some p1" using prv_Some linked_prv [OF l] unfolding p1_def by blast
  have hn: "h_next ha = Some b" using la(2) ha(1) by (simp add: nxt_def)
  have n1: "nxt ?H p1 = Some at"
  proof (cases xs rule: rev_cases)
    case (snoc us u)
    then show ?thesis using la(1) linked_append [of ?H ?hd us u "[at]"] by (simp add: p1_def)
  qed (use la(1) in \<open>simp add: p1_def\<close>)
  then obtain h1 where h1: "?H p1 = Some h1" by (auto simp: nxt_def bind_eq_Some_conv)
  obtain hb where hb: "?H b = Some hb" using prv_Some la(2) by (auto simp: prv_def bind_eq_Some_conv)
  define H where "H = ?H(p1 \<mapsto> h1\<lparr>h_next := Some b\<rparr>, b \<mapsto> hb\<lparr>h_prev := Some p1\<rparr>, at := None)"
  let ?g = "g\<lparr>handles := H\<rparr>"
  have ne: "p1 \<noteq> b" "at \<noteq> p1" "at \<noteq> b" using d by auto
  have run: "gc_ptr_delete g at = Some ?g"
    using ha hn h1 hb ne by (simp add: gc_ptr_delete_def gc_erase_def upd_handle_def H_def)
  have nx: "nxt H c = (if c = at then NULL else if c = p1 then Some b else nxt ?H c)"
    "prv H c = (if c = at then NULL else if c = b then Some p1 else prv ?H c)" for c
    using ne h1 hb by (auto simp: H_def nxt_def prv_def)
  have "linked H b bs \<longleftrightarrow> linked ?H b bs"
    by (rule linked_cong) (use d in \<open>auto simp: nx dest!: in_set_butlastD split: if_splits\<close>)
  then have lb: "linked H p1 (b # bs)" using la(2) ne by (simp add: nx)
  have "linked H ?hd (xs @ b # bs)"
  proof (cases xs rule: rev_cases)
    case Nil
    then show ?thesis using lb by (simp add: p1_def)
  next
    case (snoc us u)
    then have u: "u = p1" "zs = ?hd # us" using zs by (auto simp: p1_def)
    have "linked ?H ?hd (us @ [p1])" using la(1) snoc u(1) linked_append [of ?H ?hd us p1 "[at]"] by simp
    moreover have "linked H ?hd (us @ [p1]) \<longleftrightarrow> linked ?H ?hd (us @ [p1])"
      by (rule linked_cong) (use d u(2) in \<open>auto simp: nx butlast_append split: if_splits\<close>)
    ultimately show ?thesis using lb snoc u(1) linked_append [of H ?hd us p1 "b # bs"] by simp
  qed
  moreover have "distinct (?hd # (xs @ ys) @ [?tl])" using r by (auto simp: roots_ok_def)
  ultimately have "roots_ok ?g (xs @ ys)" using b by (simp add: roots_ok_def)
  moreover have "targets ?g (xs @ ys) \<subseteq> targets g (xs @ at # ys)"
    using h1 hb by (auto simp: targets_def H_def split: if_splits)
  ultimately show ?thesis using run by (intro exI [of _ ?g]) (simp add: only_handles_def)
qed

lemma gc_ptr_reset_roots:
  assumes r: "roots_ok g R" and at: "at \<in> set R"
  shows "\<exists>g'. gc_ptr_reset g at v = Some g' \<and> only_handles g g' \<and> roots_ok g' R \<and> targets g' R \<subseteq> set_option v \<union> targets g R"
proof -
  obtain xs ys where x: "R = xs @ at # ys" using at by (meson split_list)
  have "linked (handles g) (link_head g) (xs @ at # ys @ [link_tail g])" using r x by (simp add: roots_ok_def)
  then have "prv (handles g) at \<noteq> NULL" using linked_prv [of "handles g" "link_head g" xs at "ys @ [link_tail g]"] by simp
  then obtain h where h: "handles g at = Some h" by (auto simp: prv_def bind_eq_Some_conv)
  let ?H = "(handles g)(at \<mapsto> h\<lparr>m_ptr := v\<rparr>)"
  have "linked ?H (link_head g) (R @ [link_tail g]) \<longleftrightarrow> linked (handles g) (link_head g) (R @ [link_tail g])"
    by (rule linked_cong) (use h in \<open>simp_all add: nxt_def prv_def\<close>)
  then have "roots_ok (g\<lparr>handles := ?H\<rparr>) R" using r by (simp add: roots_ok_def)
  moreover have "targets (g\<lparr>handles := ?H\<rparr>) R \<subseteq> set_option v \<union> targets g R" by (auto simp: targets_def split: if_splits)
  ultimately show ?thesis using h by (simp add: gc_ptr_reset_def upd_handle_def only_handles_def)
qed

subsection \<open>The invariant\<close>

definition gc_inv :: "gc_state \<Rightarrow> addr list \<Rightarrow> addr list \<Rightarrow> bool" where
  "gc_inv g L R \<longleftrightarrow> roots_ok g R \<and> olist (gobjs g) (all_objects g) L \<and> distinct L \<and> set L = dom (gobjs g) \<and>
    live g R \<subseteq> dom (gobjs g) \<and> marked g = {} \<and> object_count g = of_nat (length L) \<and> object_count_last g \<le> object_count g \<and>
    cur_size g = 0 \<and> length L < 2 ^ 32"

lemma gc_invD:
  assumes "gc_inv g L R"
  shows "roots_ok g R" "olist (gobjs g) (all_objects g) L" "distinct L" "set L = dom (gobjs g)" "live g R \<subseteq> dom (gobjs g)" "marked g = {}"
    "object_count g = of_nat (length L)" "object_count_last g \<le> object_count g" "cur_size g = 0" "length L < 2 ^ 32"
  using assms by (auto simp: gc_inv_def)

lemma live_anti:
  assumes "targets g' R' \<subseteq> live g R" "edges g' `` live g R \<subseteq> live g R"
  shows "live g' R' \<subseteq> live g R"
  by (rule live_least [OF assms])

lemma gc_inv_handles:
  assumes I: "gc_inv g L R" and o: "only_handles g g'" and r: "roots_ok g' R'" and t: "targets g' R' \<subseteq> live g R"
  shows "gc_inv g' L R'" "live g' R' \<subseteq> live g R"
proof -
  note D = gc_invD [OF I] and O = only_handlesD [OF o]
  have e: "edges g' = edges g" "marked g' = marked g" using edges_only O(1) by blast+
  show l: "live g' R' \<subseteq> live g R" by (rule live_anti [OF t]) (simp add: e live_closed)
  have "live g' R' \<subseteq> dom (gobjs g')" using l D(5) O(1) by auto
  then show "gc_inv g' L R'" unfolding gc_inv_def using r D O e by simp
qed

lemma gc_start:
  assumes "lh \<noteq> lt"
  shows "gc_inv (gc_state_new lh lt) [] []"
proof -
  have "targets (gc_state_new lh lt) [] = {}" by (simp add: targets_def)
  then have "live (gc_state_new lh lt) [] = {}" by (simp add: live_def)
  then show ?thesis using assms by (auto simp: gc_inv_def gc_state_new_def roots_ok_def nxt_def prv_def marked_def)
qed

lemma gc_handle_ok:
  assumes I: "gc_inv g L R" and at: "at \<notin> set (link_head g # link_tail g # R)" and v: "set_option v \<subseteq> live g R"
  shows "\<exists>g'. gc_ptr_new g at v = Some g' \<and> gc_inv g' L (at # R) \<and> gobjs g' = gobjs g \<and> live g' (at # R) \<subseteq> live g R"
proof -
  have c: "\<not> cur_test g at" using gc_invD(9) [OF I] by (simp add: cur_test_def)
  obtain g' where g': "gc_ptr_new g at v = Some g'" "only_handles g g'" "roots_ok g' (at # R)" "targets g' (at # R) = set_option v \<union> targets g R"
    using gc_ptr_new_roots [OF gc_invD(1) [OF I] at c, of v] by (elim exE conjE) (rule that)
  have "targets g' (at # R) \<subseteq> live g R" using g'(4) v live_targets by blast
  note H = gc_inv_handles [OF I g'(2,3) this]
  show ?thesis by (intro exI conjI) (rule g'(1) H only_handlesD(1) [OF g'(2)])+
qed

lemma gc_gone_ok:
  assumes I: "gc_inv g L (xs @ at # ys)"
  shows "\<exists>g'. gc_ptr_delete g at = Some g' \<and> gc_inv g' L (xs @ ys) \<and> gobjs g' = gobjs g \<and> live g' (xs @ ys) \<subseteq> live g (xs @ at # ys)"
proof -
  obtain g' where g': "gc_ptr_delete g at = Some g'" "only_handles g g'" "roots_ok g' (xs @ ys)" "targets g' (xs @ ys) \<subseteq> targets g (xs @ at # ys)"
    using gc_ptr_delete_roots [OF gc_invD(1) [OF I]] by blast
  have "targets g' (xs @ ys) \<subseteq> live g (xs @ at # ys)" using g'(4) live_targets by blast
  note H = gc_inv_handles [OF I g'(2,3) this]
  show ?thesis by (intro exI conjI) (rule g'(1) H only_handlesD(1) [OF g'(2)])+
qed

lemma gc_assign_ok:
  assumes I: "gc_inv g L R" and at: "at \<in> set R" and v: "set_option v \<subseteq> live g R"
  shows "\<exists>g'. gc_ptr_reset g at v = Some g' \<and> gc_inv g' L R \<and> gobjs g' = gobjs g \<and> live g' R \<subseteq> live g R"
proof -
  obtain g' where g': "gc_ptr_reset g at v = Some g'" "only_handles g g'" "roots_ok g' R" "targets g' R \<subseteq> set_option v \<union> targets g R"
    using gc_ptr_reset_roots [OF gc_invD(1) [OF I] at] by blast
  have "targets g' R \<subseteq> live g R" using g'(4) v live_targets by blast
  note H = gc_inv_handles [OF I g'(2,3) this]
  show ?thesis by (intro exI conjI) (rule g'(1) H only_handlesD(1) [OF g'(2)])+
qed

lemma gc_member_ok:
  assumes I: "gc_inv g L R" and a: "a \<in> live g R" and v: "{x. Some x \<in> set ps} \<subseteq> live g R"
  shows "\<exists>g'. set_refs ps a g = Some (g', Inr ()) \<and> gc_inv g' L R \<and> dom (gobjs g') = dom (gobjs g) \<and> live g' R \<subseteq> live g R"
proof -
  note D = gc_invD [OF I]
  obtain ob where ob: "gobjs g a = Some ob" using a D(5) by blast
  let ?g = "g\<lparr>gobjs := (gobjs g)(a \<mapsto> ob\<lparr>gc_refs := ps\<rparr>)\<rparr>"
  have e: "edges ?g `` live g R \<subseteq> live g R" using v live_closed [of g R] by (auto simp: edges_def split: if_splits)
  have "targets ?g R = targets g R" by (simp add: targets_def)
  then have l: "live ?g R \<subseteq> live g R" by (intro live_anti e) (simp add: live_targets)
  have "olist ((gobjs g)(a \<mapsto> ob\<lparr>gc_refs := ps\<rparr>)) (all_objects g) L" by (rule olist_cong [OF D(2)]) (simp add: ob)
  then have "olist (gobjs ?g) (all_objects ?g) L" by simp
  moreover have "marked ?g = {}" using D(6) ob by (auto simp: marked_def split: if_splits)
  moreover have "dom (gobjs ?g) = dom (gobjs g)" using ob by auto
  ultimately have "gc_inv ?g L R" using D l by (auto simp: gc_inv_def roots_ok_def)
  moreover have "set_refs ps a g = Some (?g, Inr ())" using ob by (simp add: set_refs_def upd_obj_def)
  ultimately show ?thesis using l \<open>dom (gobjs ?g) = dom (gobjs g)\<close> by blast
qed

subsection \<open>Collection\<close>

lemma collected_live:
  assumes "collected g L R g'" "handles g' = handles g" "live g R \<subseteq> set L" "live g R \<subseteq> dom (gobjs g)"
  shows "live g' R = live g R"
proof
  have t: "targets g' R = targets g R" using assms(2) by (simp add: targets_def)
  have e: "(a, b) \<in> edges g' \<longleftrightarrow> (a, b) \<in> edges g" if a: "a \<in> live g R" for a b
  proof -
    obtain ob where ob: "gobjs g a = Some ob" using a assms(4) by blast
    obtain ob' where "gobjs g' a = Some ob'" "gc_refs ob' = gc_refs ob" using assms(1,3) a ob unfolding collected_def by blast
    then show ?thesis using ob by (simp add: edges_def)
  qed
  show "live g' R \<subseteq> live g R"
  proof (rule live_anti)
    show "targets g' R \<subseteq> live g R" unfolding t by (rule live_targets)
    show "edges g' `` live g R \<subseteq> live g R" using live_closed [of g R] e by blast
  qed
  have "live g R \<subseteq> live g' R \<inter> live g R"
  proof (rule live_least)
    show "targets g R \<subseteq> live g' R \<inter> live g R" using t live_targets [of g' R] live_targets [of g R] by blast
    show "edges g `` (live g' R \<inter> live g R) \<subseteq> live g' R \<inter> live g R" using e live_closed [of g' R] live_closed [of g R] by blast
  qed
  then show "live g R \<subseteq> live g' R" by blast
qed

lemma gc_collected_ok:
  assumes I: "gc_inv g L R" and c: "collected g L R g'" and s: "same_rest g g'"
  shows "gc_inv g' (rev (filter (\<lambda>a. a \<in> live g R) L)) R" "dom (gobjs g') = live g R" "live g' R = live g R"
    "a \<in> live g R \<Longrightarrow> map_option gc_refs (gobjs g' a) = map_option gc_refs (gobjs g a)" "object_count g' = of_nat (card (live g R))"
proof -
  note D = gc_invD [OF I]
  let ?K = "filter (\<lambda>a. a \<in> live g R) L" and ?N = "filter (\<lambda>a. a \<notin> live g R) L"
  have lv: "live g R \<subseteq> set L" using D(4,5) by simp
  show l: "live g' R = live g R" by (rule collected_live [OF c _ lv D(5)]) (use s in \<open>simp add: same_rest_def\<close>)
  have rf: "\<exists>ob'. gobjs g' a = Some ob' \<and> gc_tags ob' = GC_TAG_FLAG \<and> map_option gc_refs (gobjs g' a) = map_option gc_refs (gobjs g a)"
    if a: "a \<in> live g R" for a
  proof -
    obtain ob where ob: "gobjs g a = Some ob" using a D(5) by blast
    have "a \<in> set L" using a lv by blast
    then obtain ob' where "gobjs g' a = Some ob'" "gc_refs ob' = gc_refs ob" "gc_tags ob' = GC_TAG_FLAG"
      using c a ob unfolding collected_def by blast
    then show ?thesis using ob by simp
  qed
  have none: "gobjs g' a = None" if "a \<notin> live g R" for a
  proof (cases "a \<in> set L")
    case True
    then show ?thesis using c that unfolding collected_def by blast
  next
    case False
    then have "gobjs g a = None" using D(4) by blast
    moreover have "map_option gc_refs (gobjs g' a) = map_option gc_refs (gobjs g a)" using c False unfolding collected_def by blast
    ultimately show ?thesis by simp
  qed
  have "a \<in> dom (gobjs g') \<longleftrightarrow> a \<in> live g R" for a using rf [of a] none [of a] by (cases "a \<in> live g R") auto
  then show dm: "dom (gobjs g') = live g R" by blast
  show "a \<in> live g R \<Longrightarrow> map_option gc_refs (gobjs g' a) = map_option gc_refs (gobjs g a)" using rf by blast
  have "a \<notin> marked g'" for a using rf [of a] none [of a] by (cases "a \<in> live g R") (auto simp: marked_def)
  then have mk: "marked g' = {}" by blast
  have ct: "object_count g' = of_nat (length ?K)"
  proof -
    have "length L = length ?N + length ?K" using sum_length_filter_compl [of "\<lambda>a. a \<notin> live g R" L] by simp
    then have "(of_nat (length L) :: u32) = of_nat (length ?N) + of_nat (length ?K)" by (simp only: of_nat_add)
    moreover have "object_count g' = object_count g - of_nat (length ?N)" using c unfolding collected_def by blast
    ultimately show ?thesis using D(7) by simp
  qed
  have K: "set ?K = live g R" "distinct ?K" using lv D(3) by auto
  then show "object_count g' = of_nat (card (live g R))" using ct distinct_card [of ?K] by simp
  have "length ?K < 2 ^ 32" using D(10) length_filter_le [of "\<lambda>a. a \<in> live g R" L] by linarith
  moreover have "roots_ok g' R" using D(1) s by (simp add: roots_ok_def same_rest_def)
  moreover have "olist (gobjs g') (all_objects g') (rev ?K)" "object_count_last g' = object_count g'" using c by (simp_all add: collected_def)
  moreover have "cur_size g' = 0" using s D(9) by (simp add: same_rest_def)
  ultimately show "gc_inv g' (rev ?K) R" using D(3) dm l mk ct K by (simp add: gc_inv_def)
qed

lemma gc_collect_ok:
  assumes I: "gc_inv g L R" and f: "\<forall>n. fits n"
  shows "\<exists>g'. gc_nolock fits g force = Some (g', Inr Collected) \<and> gc_inv g' (rev (filter (\<lambda>a. a \<in> live g R) L)) R \<and>
    dom (gobjs g') = live g R \<and> live g' R = live g R \<and> same_rest g g'"
proof -
  note D = gc_invD [OF I]
  have fin: "finite (dom (gobjs g))" using D(4) by (metis finite_set)
  obtain g' where g': "gc_nolock fits g force = Some (g', Inr Collected)" "same_rest g g'" "collected g L R g'"
    using gc_nolock_ok [OF D(1-3) fin D(5), of force fits] D(6) f by auto
  then show ?thesis using gc_collected_ok [OF I g'(3,2)] by blast
qed

subsection \<open>New objects\<close>

text \<open>The allocator gives addresses at which there is no object.\<close>

definition alloc_ok :: "(gc_state \<Rightarrow> ptr) \<Rightarrow> bool" where
  "alloc_ok alloc \<longleftrightarrow> (\<forall>g p. alloc g = Some p \<longrightarrow> gobjs g p = None)"

text \<open>The handle \<open>at\<close> is not in an object of size \<open>sz\<close>.\<close>

definition outside :: "(gc_state \<Rightarrow> ptr) \<Rightarrow> nat \<Rightarrow> addr \<Rightarrow> bool" where
  "outside alloc sz at \<longleftrightarrow> (\<forall>g p. alloc g = Some p \<longrightarrow> sz \<le> (at + 2 ^ 64 - p) mod 2 ^ 64)"

lemma count_room:
  fixes c :: u32
  assumes "c = of_nat n" "n < 2 ^ 32" "c \<noteq> - 1"
  shows "Suc n < 2 ^ 32"
proof -
  have "n \<noteq> 2 ^ 32 - 1"
  proof
    assume "n = 2 ^ 32 - 1"
    then have "(of_nat n :: u32) = - 1" by simp
    then show False using assms(1,3) by simp
  qed
  then show ?thesis using assms(2) by simp
qed

lemma count_less:
  fixes c l :: u32
  assumes "c = of_nat n" "Suc n < 2 ^ 32" "l \<le> c"
  shows "l \<le> c + 1"
proof -
  have u: "unat c = n" using assms(1,2) by (simp add: unat_of_nat)
  have "unat (c + 1) = Suc n" using assms(2) u by (simp add: unat_word_ariths)
  then show ?thesis using assms(3) u by (simp add: word_le_nat_alt)
qed

lemma gc_construct_ok:
  assumes I: "gc_inv g L R" and p: "gobjs g p = None" and v: "{x. Some x \<in> set ps} \<subseteq> live g R" and c: "Suc (length L) < 2 ^ 32"
    and at: "at \<notin> set (link_head g # link_tail g # R)" "sz \<le> (at + 2 ^ 64 - p) mod 2 ^ 64"
  shows "\<exists>g'. gc_construct (set_refs ps) g p sz at = Some (g', Inr p) \<and> gc_inv g' (p # L) (at # R) \<and> p \<in> live g' (at # R) \<and>
    dom (gobjs g') = insert p (dom (gobjs g)) \<and> live g' (at # R) \<subseteq> insert p (live g R)"
proof -
  note D = gc_invD [OF I]
  define ob where "ob = \<lparr>gc_next = NULL, gc_tags = GC_TAG_INIT, gc_refs = ps\<rparr>"
  define g1 where "g1 = g\<lparr>cur_addr := p, cur_size := sz, gobjs := (gobjs g)(p \<mapsto> ob)\<rparr>"
  have ct: "set_refs ps p (g\<lparr>cur_addr := p, cur_size := sz, gobjs := (gobjs g)(p \<mapsto> \<lparr>gc_next = NULL, gc_tags = GC_TAG_INIT, gc_refs = []\<rparr>)\<rparr>) =
      Some (g1, Inr ())"
    by (simp add: set_refs_def upd_obj_def g1_def ob_def)
  have r1: "roots_ok g1 R" using D(1) by (simp add: roots_ok_def g1_def)
  have at1: "at \<notin> set (link_head g1 # link_tail g1 # R)" "\<not> cur_test g1 at" using at by (simp_all add: g1_def cur_test_def)
  obtain g2 where g2: "gc_ptr_new g1 at (Some p) = Some g2" "only_handles g1 g2" "roots_ok g2 (at # R)" "targets g2 (at # R) = set_option (Some p) \<union> targets g1 R"
    using gc_ptr_new_roots [OF r1 at1, of "Some p"] by (elim exE conjE) (rule that)
  note O = only_handlesD [OF g2(2)]
  let ?ob = "ob\<lparr>gc_next := all_objects g\<rparr>"
  define g' where "g' = g2\<lparr>cur_addr := cur_addr g, cur_size := cur_size g, gobjs := (gobjs g)(p \<mapsto> ?ob), all_objects := Some p, object_count := object_count g + 1\<rparr>"
  have run: "gc_construct (set_refs ps) g p sz at = Some (g', Inr p)"
    using ct g2(1) O by (simp add: gc_construct_def Let_def gc_link_def upd_obj_def g'_def g1_def)
  have t: "targets g' (at # R) = insert p (targets g R)"
  proof -
    have "targets g' (at # R) = targets g2 (at # R)" by (simp add: targets_def g'_def)
    moreover have "targets g1 R = targets g R" by (simp add: targets_def g1_def)
    ultimately show ?thesis using g2(4) by simp
  qed
  have l: "live g' (at # R) \<subseteq> insert p (live g R)"
  proof (rule live_least)
    show "targets g' (at # R) \<subseteq> insert p (live g R)" using t live_targets [of g R] by blast
    show "edges g' `` insert p (live g R) \<subseteq> insert p (live g R)"
      using v live_closed [of g R] p by (auto simp: edges_def g'_def ob_def split: if_splits)
  qed
  have pl: "p \<in> live g' (at # R)" using t live_targets [of g' "at # R"] by blast
  have dm: "dom (gobjs g') = insert p (dom (gobjs g))" by (auto simp: g'_def)
  have pL: "p \<notin> set L" using D(4) p by auto
  note C = count_less [OF D(7) c D(8)]
  have "olist (gobjs g') (all_objects g') (p # L)"
  proof -
    have "olist (gobjs g') (all_objects g) L" by (rule olist_cong [OF D(2)]) (use pL in \<open>auto simp: g'_def\<close>)
    then show ?thesis by (simp add: g'_def)
  qed
  moreover have "marked g' = {}" using D(6) by (auto simp: marked_def g'_def ob_def split: if_splits)
  moreover have "roots_ok g' (at # R)" using g2(3) by (simp add: roots_ok_def g'_def)
  moreover have "object_count g' = of_nat (length (p # L))" using D(7) by (simp add: g'_def)
  moreover have "object_count_last g' \<le> object_count g'" using C O(6) by (simp add: g'_def g1_def)
  moreover have "cur_size g' = 0" using D(9) by (simp add: g'_def)
  ultimately have "gc_inv g' (p # L) (at # R)" using D(3,4,5) l dm pL c unfolding gc_inv_def by auto
  then show ?thesis using run pl dm l by blast
qed

lemma gc_alloc_ok:
  assumes I: "gc_inv g L R" and f: "\<forall>n. fits n" and a: "alloc_ok alloc"
  shows "\<exists>g' r L'. gc_alloc fits alloc g = Some (g', r) \<and> gc_inv g' L' R \<and> length L' \<le> length L \<and> live g' R = live g R \<and> same_rest g g' \<and>
    (case r of Inl e \<Rightarrow> e = XBadAlloc | Inr p \<Rightarrow> (\<exists>h. alloc h = Some p) \<and> gobjs g' p = None)"
proof (cases "alloc g")
  case (Some p)
  then have "gobjs g p = None" using a by (simp add: alloc_ok_def)
  then show ?thesis using I Some by (intro exI [of _ g] exI [of _ "Inr p"] exI [of _ L]) (auto simp: gc_alloc_def same_rest_def)
next
  case None
  let ?L = "rev (filter (\<lambda>a. a \<in> live g R) L)"
  obtain g' where g': "gc_nolock fits g True = Some (g', Inr Collected)" "gc_inv g' ?L R" "live g' R = live g R" "same_rest g g'"
    using gc_collect_ok [OF I f, of True] by blast
  have len: "length ?L \<le> length L" using length_filter_le [of "\<lambda>a. a \<in> live g R" L] by simp
  define r where "r = (case alloc g' of None \<Rightarrow> Inl XBadAlloc | Some p \<Rightarrow> Inr p)"
  have "gc_alloc fits alloc g = Some (g', r)" using None g'(1) by (simp add: gc_alloc_def r_def)
  moreover have "case r of Inl e \<Rightarrow> e = XBadAlloc | Inr p \<Rightarrow> (\<exists>h. alloc h = Some p) \<and> gobjs g' p = None"
    using a by (auto simp: r_def alloc_ok_def split: option.splits)
  ultimately show ?thesis using g'(2-4) len by blast
qed

lemma gc_new_ok:
  assumes I: "gc_inv g L R" and a: "alloc_ok alloc" and v: "{x. Some x \<in> set ps} \<subseteq> live g R" and c: "object_count g \<noteq> - 1"
    and at: "at \<notin> set (link_head g # link_tail g # R)" and out: "outside alloc sz at" and f: "\<forall>n. fits n"
  shows "\<exists>g' r. gc_new fits alloc (set_refs ps) g sz at = Some (g', r) \<and> (case r of
      Inl e \<Rightarrow> e = XBadAlloc \<and> (\<exists>L'. gc_inv g' L' R) \<and> live g' R = live g R
    | Inr p \<Rightarrow> (\<exists>L'. gc_inv g' L' (at # R)) \<and> p \<notin> live g R \<and> p \<in> live g' (at # R) \<and> live g' (at # R) \<subseteq> insert p (live g R))"
proof -
  have c1: "Suc (length L) < 2 ^ 32" by (rule count_room [OF gc_invD(7,10) [OF I] c])
  obtain g1 r1 L1 where g1: "gc_alloc fits alloc g = Some (g1, r1)" "gc_inv g1 L1 R" "length L1 \<le> length L" "live g1 R = live g R" "same_rest g g1"
    "case r1 of Inl e \<Rightarrow> e = XBadAlloc | Inr p \<Rightarrow> (\<exists>h. alloc h = Some p) \<and> gobjs g1 p = None"
    using gc_alloc_ok [OF I f a] by (elim exE conjE) (rule that)
  show ?thesis
  proof (cases r1)
    case (Inl e)
    then have "gc_new fits alloc (set_refs ps) g sz at = Some (g1, Inl e)" using g1(1) by (simp add: gc_new_def)
    then show ?thesis using Inl g1(2,4,6) by (intro exI [of _ g1] exI [of _ "Inl e"]) auto
  next
    case (Inr p)
    then have p: "gobjs g1 p = None" "sz \<le> (at + 2 ^ 64 - p) mod 2 ^ 64" using g1(6) out by (auto simp: outside_def)
    let ?m = "if object_count_last g1 + steping_delta g1 < object_count g1 then gc_nolock fits g1 False else Some (g1, Inr Collected)"
    obtain g2 L2 where g2: "?m = Some (g2, Inr Collected)" "gc_inv g2 L2 R" "length L2 \<le> length L1" "live g2 R = live g1 R" "same_rest g1 g2"
      "gobjs g2 p = None"
    proof (cases "object_count_last g1 + steping_delta g1 < object_count g1")
      case True
      let ?L = "rev (filter (\<lambda>a. a \<in> live g1 R) L1)"
      obtain h where h: "gc_nolock fits g1 False = Some (h, Inr Collected)" "gc_inv h ?L R" "dom (gobjs h) = live g1 R" "live h R = live g1 R" "same_rest g1 h"
        using gc_collect_ok [OF g1(2) f, of False] by blast
      have "p \<notin> live g1 R" using gc_invD(5) [OF g1(2)] p(1) by blast
      then have "gobjs h p = None" using h(3) by blast
      moreover have "length ?L \<le> length L1" using length_filter_le [of "\<lambda>a. a \<in> live g1 R" L1] by simp
      ultimately show ?thesis using that [of h ?L] h True by simp
    next
      case False
      then show ?thesis using that [of g1 L1] g1(2) p(1) by (simp add: same_rest_def)
    qed
    have s: "same_rest g g2" by (rule same_rest_trans [OF g1(5) g2(5)])
    have v2: "{x. Some x \<in> set ps} \<subseteq> live g2 R" using v g1(4) g2(4) by simp
    have c2: "Suc (length L2) < 2 ^ 32" using c1 g1(3) g2(3) by linarith
    have at2: "at \<notin> set (link_head g2 # link_tail g2 # R)" using at s by (simp add: same_rest_def)
    obtain g' where g': "gc_construct (set_refs ps) g2 p sz at = Some (g', Inr p)" "gc_inv g' (p # L2) (at # R)" "p \<in> live g' (at # R)"
      "live g' (at # R) \<subseteq> insert p (live g2 R)"
      using gc_construct_ok [OF g2(2,6) v2 c2 at2 p(2)] by blast
    have "object_count_last g1 \<le> object_count g1" by (rule gc_invD(8) [OF g1(2)])
    then have "gc_new fits alloc (set_refs ps) g sz at = Some (g', Inr p)" using g1(1) Inr g2(1) g'(1) by (simp add: gc_new_def)
    moreover have "p \<notin> live g R" using gc_invD(5) [OF g1(2)] p(1) g1(4) by blast
    ultimately show ?thesis using g'(2-4) g1(4) g2(4) by (intro exI [of _ g'] exI [of _ "Inr p"]) auto
  qed
qed

subsection \<open>Programs\<close>

text \<open>What a program does, one operation at a time: it makes, deletes and assigns handles, sets the members of
  objects it can reach to objects it can reach, creates objects, and collects. \<open>R\<close>: its handles.\<close>

inductive gc_step :: "(gc_state \<Rightarrow> ptr) \<Rightarrow> gc_state \<times> addr list \<Rightarrow> gc_state \<times> addr list \<Rightarrow> bool" for alloc where
  step_handle: "at \<notin> set (link_head g # link_tail g # R) \<Longrightarrow> set_option v \<subseteq> live g R \<Longrightarrow> gc_ptr_new g at v = Some g' \<Longrightarrow>
    gc_step alloc (g, R) (g', at # R)"
| step_gone: "gc_ptr_delete g at = Some g' \<Longrightarrow> gc_step alloc (g, xs @ at # ys) (g', xs @ ys)"
| step_assign: "at \<in> set R \<Longrightarrow> set_option v \<subseteq> live g R \<Longrightarrow> gc_ptr_reset g at v = Some g' \<Longrightarrow> gc_step alloc (g, R) (g', R)"
| step_member: "a \<in> live g R \<Longrightarrow> {x. Some x \<in> set ps} \<subseteq> live g R \<Longrightarrow> set_refs ps a g = Some (g', r) \<Longrightarrow> gc_step alloc (g, R) (g', R)"
| step_collect: "gc_nolock (\<lambda>_. True) g force = Some (g', r) \<Longrightarrow> gc_step alloc (g, R) (g', R)"
| step_new: "at \<notin> set (link_head g # link_tail g # R) \<Longrightarrow> {x. Some x \<in> set ps} \<subseteq> live g R \<Longrightarrow> object_count g \<noteq> - 1 \<Longrightarrow>
    outside alloc sz at \<Longrightarrow> gc_new (\<lambda>_. True) alloc (set_refs ps) g sz at = Some (g', r) \<Longrightarrow>
    gc_step alloc (g, R) (g', case r of Inl e \<Rightarrow> R | Inr p \<Rightarrow> at # R)"

text \<open>Only what is created becomes live.\<close>

lemma gc_step_ok:
  assumes "gc_step alloc s s'" "gc_inv (fst s) L (snd s)" "alloc_ok alloc"
  shows "(\<exists>L'. gc_inv (fst s') L' (snd s')) \<and> live (fst s) (snd s) \<subseteq> dom (gobjs (fst s))"
  using assms
proof (induction rule: gc_step.induct)
  case (step_handle "at" g R v g')
  then show ?case using gc_handle_ok [of g L R "at" v] gc_invD(5) by fastforce
next
  case (step_gone g "at" g' xs ys)
  then show ?case using gc_gone_ok [of g L xs "at" ys] gc_invD(5) by fastforce
next
  case (step_assign "at" R v g g')
  then show ?case using gc_assign_ok [of g L R "at" v] gc_invD(5) by fastforce
next
  case (step_member a g R ps g' r)
  then show ?case using gc_member_ok [of g L R a ps] gc_invD(5) by fastforce
next
  case (step_collect g force g' r R)
  then show ?case using gc_collect_ok [of g L R "\<lambda>_. True" force] gc_invD(5) by fastforce
next
  case (step_new "at" g R ps sz g' r)
  have I: "gc_inv g L R" using step_new.prems(1) by simp
  have "case r of Inl e \<Rightarrow> e = XBadAlloc \<and> (\<exists>L'. gc_inv g' L' R) \<and> live g' R = live g R
    | Inr p \<Rightarrow> (\<exists>L'. gc_inv g' L' (at # R)) \<and> p \<notin> live g R \<and> p \<in> live g' (at # R) \<and> live g' (at # R) \<subseteq> insert p (live g R)"
    using gc_new_ok [OF I step_new.prems(2) step_new.hyps(2,3,1,4), of "\<lambda>_. True"] step_new.hyps(5) by auto
  then show ?case using gc_invD(5) [OF I] by (cases r) auto
qed

lemma gc_run_ok:
  assumes "(gc_step alloc)\<^sup>*\<^sup>* s s'" "gc_inv (fst s) L (snd s)" "alloc_ok alloc"
  shows "\<exists>L'. gc_inv (fst s') L' (snd s')"
  using assms
proof (induction rule: rtranclp_induct)
  case (step s' s'')
  then obtain L' where "gc_inv (fst s') L' (snd s')" by blast
  then show ?case using gc_step_ok [OF step.hyps(2) _ step.prems(2)] by blast
qed blast

end
