(* ===== verification/Spec2Isabelle.thy ===== *)
theory Spec2Isabelle
  imports Bst_Theorems Queue_Theorems Array_Theorems Indexer_Theorems Buffer_Theorems Serializer_Theorems Hashing_Theorems Codecvt_Theorems Matrix_Theorems Cache_Theorems Gc_Theorems
begin

text \<open>
  A model of the C++ base library \<open>vhwd_base\<close>, with the theorems that make it correct.

  \<^bold>\<open>Conventions.\<close> A pointer is an \<open>addr option\<close> with \<open>NULL\<close> for \<open>None\<close>; \<open>size_t\<close> is a
  64-bit word. An operation returns an \<open>option\<close>: \<open>None\<close> is an access through a NULL or
  dangling pointer, a failed \<open>wassert\<close>, or a loop that does not return. So a theorem that an
  operation is \<open>Some\<close> states that it is memory safe and that its loops end.
  Loops and recursive functions of the code are \<open>partial_function (option)\<close>; no fuel is used.

  \<^bold>\<open>Ordered containers\<close> (\<open>inc/vhwd/collection/detail\<close>).
  \<^item> \<open>Prelude\<close>: words, pointers and the collections of simplification rules.
  \<^item> \<open>Bst_Node\<close>: nodes, the tree object with its heap of nodes, the walks of
    \<open>bst_tree_node.h\<close>. \<open>Bst_Rotate\<close> and \<open>Bst_Tree\<close>: every operation of \<open>bst_tree.h\<close> (descent
    with a functor, search functors, insertion, the three node swaps, erasure, ranges, copy, clear)
    and of \<open>bst_tree_iterator.h\<close>.
  \<^item> \<open>Rbt_Policy\<close> and \<open>Avl_Policy\<close>: the two balancing policies, one definition per case.
  \<^item> \<open>Bst_Container\<close>: the containers of \<open>bst_container.h\<close> and \<open>bst_map.h\<close>.
  \<^item> \<open>Bst_Shape\<close>: trees with addresses and zippers, the abstraction of a linked heap; \<open>Bst_Walk\<close>,
    \<open>Bst_Search\<close>, \<open>Bst_Swap\<close>, \<open>Bst_Frame\<close> relate each pointer routine to it.
  \<^item> \<open>Rbt_Insert\<close>, \<open>Rbt_Delete\<close>, \<open>Rbt_Correct\<close>, \<open>Avl_Correct\<close>, \<open>Avl_Delete\<close>: the fix-ups keep the
    invariants. \<open>Bst_Policy\<close> states what a policy must promise as a locale, \<open>Bst_Erase\<close>
    proves insertion and erasure inside it, \<open>Bst_Policies\<close> interprets it for both
    policies. \<open>Bst_Theorems\<close> holds the properties.

  \<^bold>\<open>Buffers and queues\<close> (\<open>src/vhwd/collection/collection.cpp\<close>, \<open>inc/vhwd/collection\<close>).
  \<^item> \<open>Vhwd_Exception\<close>: exceptions as values. \<open>Sz_Helper\<close>: the size computations of
    \<open>collection_base.h\<close>. \<open>Word_Facts\<close>, \<open>Mem_Block\<close>, \<open>Ring_Pos\<close>: blocks of memory, and
    blocks used as rings with positions that wrap around.
  \<^item> \<open>Fifo\<close>: the contract of a bounded queue, as a locale, with the refinement of every run;
    interpreted for the three queues.
  \<^item> \<open>Ring_Buffer\<close>: \<open>RingBuffer\<close>. \<open>Srsw_Queue\<close>: \<open>SRSW_Queue\<close>, run alone and by two threads whose
    accesses interleave, and its counted handles. \<open>Bit_Flags\<close>, \<open>Lockfree_Queue\<close>, \<open>Lockfree_Keys\<close>:
    \<open>LockFreeQueue\<close>, its operations and, for any number of threads, its keys. Loops that wait are
    \<open>partial_function (option)\<close>: \<open>None\<close> when nobody else ends the wait. \<open>Queue_Theorems\<close> holds the
    properties.
  \<^item> \<open>Linear_Buffer\<close>: \<open>LinearBuffer\<close>, with \<open>parse\<close> and the readers for integers and strings;
    \<open>Buffer_Tape\<close> is its contract, a tape with a cursor. \<open>Buffer_Parse\<close>: texts as lists of tokens, and
    what \<open>parse\<close> makes of them. \<open>Buffer_Number\<close>: numbers and complex numbers, and that \<open>parse\<close> ends,
    with the locale \<open>element_reader\<close> for what it needs of the reader of elements, interpreted for
    strings, numbers and complex numbers. \<open>Buffer_Matrix\<close>: \<open>parse\<close> into matrices. The properties are
    in \<open>Buffer_Theorems\<close> and \<open>Matrix_Theorems\<close>.

  \<^bold>\<open>Arrays and hash containers\<close> (\<open>inc/vhwd/collection\<close>).
  \<^item> \<open>Arr_Container\<close>: the dynamic array, with the lifetime of every slot; \<open>Array_Theorems\<close>.
  \<^item> \<open>Arr_Xt\<close>: arrays of up to six dimensions: places, the six nested loops of \<open>resize\<close>, its guard.
  \<^item> \<open>Indexer\<close>: the hash container \<open>indexer_base\<close> with its buckets of chunks, deleted entries and the
    reference into a bucket that insertion keeps; \<open>Indexer_Correct\<close>: its invariant and the finite map it
    represents; \<open>Indexer_Theorems\<close>.

  \<^bold>\<open>Serialization\<close> (\<open>inc/vhwd/serialization\<close>).
  \<^item> \<open>Serializer\<close>: the types that can be serialized as a datatype, and the templates of \<open>serializer.h\<close>
    as functions on it, over the linear buffer. \<open>Codec\<close>: the contract of a serializer for one type, as
    the locale \<open>codec\<close>, extended by \<open>strict_codec\<close> for input that has been cut off; the loops over
    elements are treated once, inside. \<open>Serializer_Types\<close>: every type keeps the
    contract; \<open>Serializer_Roundtrip\<close> and \<open>Serializer_Cut\<close> interpret the locales for all types.
    \<open>Serializer_Safe\<close>: the locale \<open>safe_reader\<close>, readers on arbitrary input. \<open>Serializer_Theorems\<close>.

  \<^bold>\<open>Hashing and code conversion\<close> (\<open>src/vhwd/basic\<close>).
  \<^item> \<open>Hashing\<close>: \<open>crc32\<close> with the table that the templates compute, against the division of
    polynomials bit by bit, and \<open>hash_impl\<close>; \<open>Hashing_Theorems\<close>.
  \<^item> \<open>Codecvt\<close>: UTF-8; \<open>Gbk\<close>: GBK, for any table of the length of \<open>g_gkb_table\<close>; \<open>Codecvt_Theorems\<close>.

  \<^bold>\<open>Memory pool\<close> (\<open>src/vhwd/memory\<close>).
  \<^item> \<open>Mempool\<close>: the pool of \<open>mempool_impl.h\<close>, \<open>mempool_paging.cpp\<close>, \<open>mempool_slot.cpp\<close> and
    \<open>mempool_pgmap.cpp\<close>: spans of 1 MB split into blocks, lists of free blocks in memory, doubly linked lists
    of spans, the page map, large blocks. The operating system is the parameter \<open>os\<close> of the operations.
    \<open>Mempool_Cache\<close>: the cache of a thread (\<open>mempool_cached.cpp\<close>), garbage collection, \<open>MemPoolPaging\<close>.
  \<^item> \<open>Mempool_Inv\<close>: the invariant, in terms of what the pointers represent, \<open>given\<close>: the blocks that are
    given out, and the tables of \<open>get_slot\<close>. \<open>Mempool_Free\<close>, \<open>Mempool_Grow\<close>, \<open>Mempool_Alloc\<close>:
    allocation; \<open>Mempool_Release\<close>, \<open>Mempool_Dealloc\<close>: deallocation;
    \<open>Mempool_Correct\<close>: the start and \<open>realloc\<close>; \<open>Mempool_Cached\<close>: the cache; \<open>Mempool_Gc\<close>: garbage
    collection. \<open>Mempool_Theorems\<close>, \<open>Cache_Theorems\<close>: the properties.
  \<^item> Assumed of the operating system: its regions do not overlap, lie in the address space and do not cross a
    multiple of 4 TB (\<open>os_ok\<close>), and it gives the at most three regions that an operation asks for
    (\<open>willing\<close>). The witnesses use one that gives the multiples of 1 GB in order.

  \<^bold>\<open>Garbage collector\<close> (\<open>gc_ptr.h\<close>, \<open>gc_ptr.cpp\<close>).
  \<^item> \<open>Gc_Ptr\<close>: the state of the collector, handles, marking, sweeping, \<open>gc_new\<close>. \<open>Gc_Mark\<close>:
    a collection marks what the handles reach, and keeps what is marked. \<open>Gc_Run\<close>: the invariant, and the steps
    of programs, which keep it. \<open>Gc_Theorems\<close>: the properties.
  \<^item> Parameters: \<open>fits\<close>, the memory of the queues; \<open>alloc\<close>, which is \<open>mp_alloc\<close>; the constructor of the object;
    and, as \<open>gc_refs\<close>, what \<open>_gc_mark\<close> of the class of an object appends.

  \<^bold>\<open>How the parts interact.\<close> The ordered containers call the tree operations, which call the policy;
  ring buffer, array and queues take their sizes from \<open>Sz_Helper\<close>; the serializer writes to and reads
  from the linear buffer; \<open>parse\<close> fills arrays and resizes \<open>arr_xt\<close>, which hashes with \<open>Hashing\<close>; the
  cache of a thread takes blocks from the pool and gives them back in batches. The allocator of the
  containers is a parameter: which blocks it can give.

  \<^bold>\<open>Not modelled.\<close> Pointers to objects in serialization (the cache of objects and the factory) and
  \<open>arr_xt\<close> there; conversion to floating-point numbers, which is a parameter of \<open>read_number\<close>; loading
  from files; the data of the GBK table; \<open>String\<close>; of the memory pool the locks, \<open>page_protect\<close>, and the second attempt of \<open>page_alloc\<close>
  after a garbage collection; the mutex and the timer of the collector; the scripting engine and XML; logging
  and testing, which only print; threads, processes, network, files and clock, which are calls of the
  operating system. Of the concurrent code, only the queues are modelled with threads, under sequential
  consistency.
\<close>

end
